(* ===== verification/Prelude.thy ===== *)
theory Prelude
  imports Main "HOL-Library.Word" "HOL-Library.Monad_Syntax"
begin

unbundle bit_operations_syntax

text \<open>
  The types and helpers every component shares: the C integer types of the simulator
  (\<open>byte_t\<close>, \<open>half_t\<close>, \<open>word_t\<close>, \<open>counter_t\<close> as words of their width), the byte order of
  a little-endian host, flat byte-addressed views of memory, and the lemma collections
  the component theories use.  Partiality is the option type: \<open>None\<close> is an execution
  that C leaves undefined, or that ends in \<open>fatal()\<close> or \<open>panic()\<close>.
\<close>

named_theorems view_simps \<open>reading and writing a flat byte view\<close>
named_theorems mem_simps \<open>rewriting for the simulated memory\<close>

type_synonym byte_t = "8 word"
type_synonym half_t = "16 word"
type_synonym word_t = "32 word"
type_synonym counter_t = "64 word"
type_synonym md_addr_t = "32 word"

text \<open>A flat memory: what a program sees at each address.\<close>

type_synonym view = "md_addr_t \<Rightarrow> byte_t"

section \<open>Words and bytes\<close>

text \<open>The byte \<open>i\<close> of a word in the order of a little-endian host.\<close>

definition byte_of :: "word_t \<Rightarrow> nat \<Rightarrow> byte_t" where
  "byte_of w i = ucast (drop_bit (8 * i) w)"

definition bytes_of_word :: "word_t \<Rightarrow> byte_t list" where
  "bytes_of_word w = [byte_of w 0, byte_of w 1, byte_of w 2, byte_of w 3]"

definition word_of_bytes :: "byte_t list \<Rightarrow> word_t" where
  "word_of_bytes bs =
     (case bs of
        [b0, b1, b2, b3] \<Rightarrow>
          ucast b0 OR push_bit 8 (ucast b1) OR push_bit 16 (ucast b2) OR push_bit 24 (ucast b3)
      | _ \<Rightarrow> 0)"

definition bytes_of_half :: "half_t \<Rightarrow> byte_t list" where
  "bytes_of_half h = [ucast h, ucast (drop_bit 8 h)]"

definition half_of_bytes :: "byte_t list \<Rightarrow> half_t" where
  "half_of_bytes bs = (case bs of [b0, b1] \<Rightarrow> ucast b0 OR push_bit 8 (ucast b1) | _ \<Rightarrow> 0)"

lemma half_of_bytes_of_half [simp]: "half_of_bytes (bytes_of_half h) = h"
  by (rule bit_word_eqI) (auto simp: half_of_bytes_def bytes_of_half_def bit_simps)

lemma bit_word_of_bytes:
  "bit (word_of_bytes [b0, b1, b2, b3]) n \<longleftrightarrow>
     (if n < 8 then bit b0 n else if n < 16 then bit b1 (n - 8)
      else if n < 24 then bit b2 (n - 16) else n < 32 \<and> bit b3 (n - 24))"
  by (auto simp: word_of_bytes_def bit_simps dest: bit_imp_le_length)

lemma bit_byte_of: "bit (byte_of w i) n \<longleftrightarrow> n < 8 \<and> bit w (8 * i + n)"
  by (auto simp: byte_of_def bit_simps)

lemma word_of_bytes_of_word [simp]: "word_of_bytes (bytes_of_word w) = w"
proof (rule bit_word_eqI)
  fix n assume "n < LENGTH(32)"
  then show "bit (word_of_bytes (bytes_of_word w)) n = bit w n"
    by (auto simp: bytes_of_word_def bit_word_of_bytes bit_byte_of)
qed

lemma word_of_bytes_of [simp]:
  "word_of_bytes [byte_of w 0, byte_of w 1, byte_of w 2, byte_of w 3] = w"
  "word_of_bytes [byte_of w 0, byte_of w (Suc 0), byte_of w 2, byte_of w 3] = w"
  using word_of_bytes_of_word [of w] by (simp_all add: bytes_of_word_def)

lemma byte_of_word_of_bytes [simp]:
  "byte_of (word_of_bytes [b0, b1, b2, b3]) 0 = b0"
  "byte_of (word_of_bytes [b0, b1, b2, b3]) 1 = b1"
  "byte_of (word_of_bytes [b0, b1, b2, b3]) (Suc 0) = b1"
  "byte_of (word_of_bytes [b0, b1, b2, b3]) 2 = b2"
  "byte_of (word_of_bytes [b0, b1, b2, b3]) 3 = b3"
  by (rule bit_word_eqI; simp add: bit_byte_of bit_word_of_bytes)+

lemma length_bytes_of_word [simp]: "length (bytes_of_word w) = 4"
  by (simp add: bytes_of_word_def)

lemma list4_exists:
  assumes "length xs = 4"
  obtains a b c d where "xs = [a, b, c, d]"
  using assms by (auto simp: numeral_eq_Suc length_Suc_conv)

lemma bytes_of_word_of_bytes [simp]:
  "length bs = 4 \<Longrightarrow> bytes_of_word (word_of_bytes bs) = bs"
  by (erule list4_exists) (simp add: bytes_of_word_def)

section \<open>Flat views\<close>

text \<open>The bytes from an address on, and a run of bytes stored at an address.\<close>

fun view_bytes :: "view \<Rightarrow> md_addr_t \<Rightarrow> nat \<Rightarrow> byte_t list" where
  "view_bytes v a 0 = []"
| "view_bytes v a (Suc n) = v a # view_bytes v (a + 1) n"

fun view_store :: "view \<Rightarrow> md_addr_t \<Rightarrow> byte_t list \<Rightarrow> view" where
  "view_store v a [] = v"
| "view_store v a (b # bs) = view_store (v(a := b)) (a + 1) bs"

definition view_word :: "view \<Rightarrow> md_addr_t \<Rightarrow> word_t" where
  "view_word v a = word_of_bytes [v a, v (a + 1), v (a + 2), v (a + 3)]"

definition view_set_word :: "view \<Rightarrow> md_addr_t \<Rightarrow> word_t \<Rightarrow> view" where
  "view_set_word v a w =
     v(a := byte_of w 0, a + 1 := byte_of w 1, a + 2 := byte_of w 2, a + 3 := byte_of w 3)"

lemma length_view_bytes [simp]: "length (view_bytes v a n) = n"
  by (induction n arbitrary: a) auto

lemma view_bytes_4: "view_bytes v a 4 = [v a, v (a + 1), v (a + 2), v (a + 3)]"
  by (simp add: numeral_eq_Suc add.assoc)

lemma view_bytes_nth: "k < n \<Longrightarrow> view_bytes v a n ! k = v (a + of_nat k)"
proof (induction n arbitrary: a k)
  case (Suc n)
  then show ?case by (cases k) (auto simp: add.assoc)
qed simp

lemma view_bytes_eqI:
  "length bs = n \<Longrightarrow> (\<And>k. k < n \<Longrightarrow> bs ! k = v (a + of_nat k)) \<Longrightarrow> view_bytes v a n = bs"
  by (auto intro!: nth_equalityI simp: view_bytes_nth)

lemma unat_minus_one_32: "unat (- 1 :: md_addr_t) = 4294967295"
  by (simp add: unsigned_minus_1_eq_mask mask_eq_exp_minus_1)

lemma unat_neg_small:
  fixes x :: md_addr_t
  assumes "x \<noteq> 0"
  shows "unat (- x) = 4294967296 - unat x"
proof -
  have "unat (- x) = (4294967296 - unat x) mod 4294967296"
    using unat_sub_if_size [of 0 x] assms by (simp add: word_size unat_gt_0 split: if_splits)
  moreover have "0 < unat x" using assms by (simp add: unat_gt_0)
  ultimately show ?thesis by simp
qed

lemma view_store_nth:
  "length bs < 4294967296 \<Longrightarrow>
   view_store v a bs b = (if unat (b - a) < length bs then bs ! unat (b - a) else v b)"
proof (induction bs arbitrary: v a)
  case (Cons x bs)
  have IH: "view_store (v(a := x)) (a + 1) bs b =
      (if unat (b - (a + 1)) < length bs then bs ! unat (b - (a + 1)) else (v(a := x)) b)"
    using Cons.prems by (intro Cons.IH) simp
  show ?case
  proof (cases "b = a")
    case True
    have "unat (b - (a + 1)) = 4294967295" using True unat_minus_one_32 by simp
    then have "\<not> unat (b - (a + 1)) < length bs" using Cons.prems by simp
    with True show ?thesis unfolding view_store.simps IH by simp
  next
    case False
    then have "b - a \<noteq> 0" by simp
    then have "unat (b - a - 1) = unat (b - a) - 1" and "0 < unat (b - a)"
      by (simp_all only: unat_minus_one unat_gt_0 not_False_eq_True)
    moreover have "b - (a + 1) = b - a - 1" by (simp only: diff_diff_add)
    ultimately have s: "unat (b - a) = Suc (unat (b - (a + 1)))" by (simp only: Suc_pred)
    show ?thesis unfolding view_store.simps IH s using False by simp
  qed
qed simp

lemma view_store_append:
  "view_store v a (xs @ ys) = view_store (view_store v a xs) (a + of_nat (length xs)) ys"
  by (induction xs arbitrary: v a) (auto simp: add.assoc)

lemma view_bytes_Suc_last: "view_bytes v a (Suc n) = view_bytes v a n @ [v (a + of_nat n)]"
proof (induction n arbitrary: a)
  case (Suc n)
  show ?case using Suc.IH [of "a + 1"] by (simp add: add.assoc)
qed simp

lemma view_bytes_store_same:
  assumes "length bs < 4294967296"
  shows "view_bytes (view_store v a bs) a (length bs) = bs"
proof (rule view_bytes_eqI)
  fix k assume k: "k < length bs"
  have "unat (of_nat k :: md_addr_t) = k" using k assms by (simp add: unat_of_nat)
  then show "bs ! k = view_store v a bs (a + of_nat k)"
    using k assms by (simp add: view_store_nth)
qed simp

lemma view_word_bytes: "view_word v a = word_of_bytes (view_bytes v a 4)"
  by (simp add: view_word_def view_bytes_4)

lemma view_set_word_store: "view_set_word v a w = view_store v a (bytes_of_word w)"
  by (simp add: view_set_word_def bytes_of_word_def add.assoc)

lemma small_offsets_neq [simp]:
  fixes a :: md_addr_t
  shows "a \<noteq> a + 1" "a \<noteq> a + 2" "a \<noteq> a + 3" "a + 1 \<noteq> a" "a + 2 \<noteq> a" "a + 3 \<noteq> a"
  by simp_all

lemma view_word_set_same [simp, view_simps]: "view_word (view_set_word v a w) a = w"
  by (simp add: view_word_def view_set_word_def)

definition aligned4 :: "md_addr_t \<Rightarrow> bool" where
  "aligned4 a \<longleftrightarrow> a AND 3 = 0"

section \<open>C arithmetic on 32-bit values\<close>

text \<open>\<open>(int)(short)(x \& 0xffff)\<close>: the low half, sign extended.\<close>

definition sext16 :: "word_t \<Rightarrow> word_t" where
  "sext16 x = scast (ucast (x AND 0xffff) :: half_t)"

text \<open>
  \<open>x << n\<close> with a count that may pass the width: the host's shift instruction takes the
  count modulo 32.
\<close>

definition c_shl :: "word_t \<Rightarrow> word_t \<Rightarrow> word_t" where
  "c_shl x n = push_bit (unat (n AND 31)) x"

definition c_shr :: "word_t \<Rightarrow> word_t \<Rightarrow> word_t" where
  "c_shr x n = drop_bit (unat (n AND 31)) x"

definition c_sar :: "word_t \<Rightarrow> word_t \<Rightarrow> word_t" where
  "c_sar x n = signed_drop_bit (unat (n AND 31)) x"

text \<open>A C comparison or logical operator used as a value.\<close>

definition c_bool :: "bool \<Rightarrow> word_t" where
  "c_bool b = (if b then 1 else 0)"

lemma c_bool_simps [simp]: "c_bool True = 1" "c_bool False = 0" "c_bool b = 0 \<longleftrightarrow> \<not> b"
  by (auto simp: c_bool_def)

section \<open>Arithmetic and lists\<close>

text \<open>A C \<open>int\<close> that is not negative.\<close>

lemma sint_small:
  assumes "unat (w :: word_t) < 2 ^ 31"
  shows "sint w = int (unat w)"
proof -
  have "int (unat w) < int (2 ^ 31)" using assms by (simp only: of_nat_less_iff)
  then have "signed_take_bit 31 (uint w) = uint w" by (intro signed_take_bit_int_eq_self) (auto intro: order_trans [OF _ uint_ge_0])
  then show ?thesis by (simp add: sint_uint)
qed

lemma div_mod_add_small:
  fixes x m :: nat
  assumes "x mod m + k < m"
  shows "(x + k) div m = x div m" and "(x + k) mod m = x mod m + k"
proof -
  have e: "x + k = (x mod m + k) + m * (x div m)" by simp
  have "0 < m" using assms by simp
  then show "(x + k) div m = x div m"
    using assms by (subst e) (simp only: div_mult_self2, simp)
  show "(x + k) mod m = x mod m + k"
    using assms by (subst e) (simp only: mod_mult_self2, simp)
qed

lemma dvd_less_add_le:
  fixes m x n :: nat
  assumes "m dvd x" "m dvd n" "x < n"
  shows "x + m \<le> n"
proof -
  obtain i j where ij: "x = m * i" "n = m * j" using assms(1,2) by (auto elim!: dvdE)
  with assms(3) have "Suc i \<le> j" by simp
  then have "m * Suc i \<le> m * j" by (rule mult_le_mono2)
  with ij show ?thesis by simp
qed

lemma find_None_filter: "List.find P xs = None \<longleftrightarrow> filter P xs = []"
  by (induction xs) auto

lemma find_append_case:
  "List.find P (xs @ ys) = (case List.find P xs of None \<Rightarrow> List.find P ys | Some x \<Rightarrow> Some x)"
  by (induction xs) auto

lemma map_of_key_unique:
  assumes "distinct (map f xs)" "x \<in> set xs" "y \<in> set xs" "f x = f y"
  shows "x = y"
  using assms by (induction xs) (auto simp: image_iff)

end
