(* ===== verification/Mem_Interface.thy ===== *)
theory Mem_Interface
  imports Prelude
begin

text \<open>
  The contract between a processor model and whatever serves its word accesses: the raw
  simulated memory in the pipelines of Project 1, a cache in front of it in Project 2.  A
  provider keeps an invariant and presents a flat view; a word read returns what the view
  holds and leaves it unchanged, a word write changes the view at the word.  Clients are
  proved once against the contract.
\<close>

locale word_memory =
  fixes minv :: "'s \<Rightarrow> bool"
    and mview :: "'s \<Rightarrow> view"
    and rd :: "'s \<Rightarrow> md_addr_t \<Rightarrow> (word_t \<times> 's) option"
    and wr :: "'s \<Rightarrow> md_addr_t \<Rightarrow> word_t \<Rightarrow> 's option"
  assumes rd_law: "minv s \<Longrightarrow> aligned4 a \<Longrightarrow>
      \<exists>s'. rd s a = Some (view_word (mview s) a, s') \<and> minv s' \<and> mview s' = mview s"
    and wr_law: "minv s \<Longrightarrow> aligned4 a \<Longrightarrow>
      \<exists>s'. wr s a w = Some s' \<and> minv s' \<and> mview s' = view_set_word (mview s) a w"

text \<open>A sequence of word accesses, run on a provider and run on a flat view.\<close>

datatype mem_op = Load md_addr_t | Store md_addr_t word_t

fun op_addr :: "mem_op \<Rightarrow> md_addr_t" where
  "op_addr (Load a) = a"
| "op_addr (Store a w) = a"

fun run_ops :: "('s \<Rightarrow> md_addr_t \<Rightarrow> (word_t \<times> 's) option) \<Rightarrow>
    ('s \<Rightarrow> md_addr_t \<Rightarrow> word_t \<Rightarrow> 's option) \<Rightarrow> 's \<Rightarrow> mem_op list \<Rightarrow> (word_t list \<times> 's) option" where
  "run_ops rd wr s [] = Some ([], s)"
| "run_ops rd wr s (Load a # ops) = do {
     (w, s1) \<leftarrow> rd s a; (ws, s2) \<leftarrow> run_ops rd wr s1 ops; Some (w # ws, s2) }"
| "run_ops rd wr s (Store a w # ops) = do { s1 \<leftarrow> wr s a w; run_ops rd wr s1 ops }"

fun flat_ops :: "view \<Rightarrow> mem_op list \<Rightarrow> word_t list \<times> view" where
  "flat_ops v [] = ([], v)"
| "flat_ops v (Load a # ops) = (case flat_ops v ops of (ws, v') \<Rightarrow> (view_word v a # ws, v'))"
| "flat_ops v (Store a w # ops) = flat_ops (view_set_word v a w) ops"

context word_memory
begin

lemma rdE:
  assumes "minv s" "aligned4 a"
  obtains s' where "rd s a = Some (view_word (mview s) a, s')" "minv s'" "mview s' = mview s"
  using rd_law [OF assms] by blast

lemma wrE:
  assumes "minv s" "aligned4 a"
  obtains s' where "wr s a w = Some s'" "minv s'" "mview s' = view_set_word (mview s) a w"
  using wr_law [OF assms] by blast

text \<open>Every sequence of aligned accesses is served, with the answers of a flat memory.\<close>

lemma run_ops_flat:
  "minv s \<Longrightarrow> \<forall>op \<in> set ops. aligned4 (op_addr op) \<Longrightarrow>
   \<exists>s'. run_ops rd wr s ops = Some (fst (flat_ops (mview s) ops), s') \<and>
        minv s' \<and> mview s' = snd (flat_ops (mview s) ops)"
proof (induction ops arbitrary: s)
  case (Cons op ops)
  from Cons.prems have al: "aligned4 (op_addr op)" "\<forall>op \<in> set ops. aligned4 (op_addr op)"
    by auto
  show ?case
  proof (cases op)
    case (Load a)
    then obtain s1 where s1: "rd s a = Some (view_word (mview s) a, s1)" "minv s1"
        "mview s1 = mview s"
      using rdE [of s a] Cons.prems(1) al(1) by auto
    from Cons.IH [OF s1(2) al(2)] s1 Load show ?thesis by (auto split: prod.splits)
  next
    case (Store a w)
    then obtain s1 where s1: "wr s a w = Some s1" "minv s1"
        "mview s1 = view_set_word (mview s) a w"
      using wrE [of s a w] Cons.prems(1) al(1) by auto
    from Cons.IH [OF s1(2) al(2)] s1 Store show ?thesis by simp
  qed
qed simp

text \<open>A word written is the word read back.\<close>

lemma write_read:
  assumes "minv s" "aligned4 a"
  shows "\<exists>s1 s2. wr s a w = Some s1 \<and> rd s1 a = Some (w, s2) \<and> minv s2"
proof -
  obtain s1 where s1: "wr s a w = Some s1" "minv s1" "mview s1 = view_set_word (mview s) a w"
    using assms by (rule wrE)
  obtain s2 where "rd s1 a = Some (view_word (mview s1) a, s2)" "minv s2"
    using s1(2) assms(2) by (rule rdE)
  with s1 show ?thesis by simp
qed

end

end
