(* ===== verification/Memory.thy ===== *)
theory Memory
  imports Mem_Interface
begin

text \<open>
  The simulated memory of memory.h and memory.c: an inverted page table of
  \<open>MEM_PTAB_SIZE\<close> buckets, each a chain of page table entries kept in most recently used
  order, pages of \<open>MD_PAGE_SIZE\<close> bytes allocated when they are first written, the access
  macros, and the copying routines over a memory access function.  A chain is the list of
  its entries from the bucket on along \<open>next\<close>; a page is the function from offsets to
  bytes.  The abstraction of a memory is the flat view \<open>mem_view\<close>, in which a byte of an
  unallocated page is zero.
\<close>

section \<open>State\<close>

datatype md_fault_type =
    md_fault_none | md_fault_access | md_fault_alignment | md_fault_overflow
  | md_fault_div0 | md_fault_break | md_fault_unimpl | md_fault_internal

datatype mem_cmd = Read | Write

definition MD_PAGE_SIZE :: nat where "MD_PAGE_SIZE = 4096"
definition MD_LOG_PAGE_SIZE :: nat where "MD_LOG_PAGE_SIZE = 12"
definition MEM_LOG_PTAB_SIZE :: nat where "MEM_LOG_PTAB_SIZE = 15"
definition MEM_PTAB_SIZE :: md_addr_t where "MEM_PTAB_SIZE = 32 * 1024"

record mem_pte_t =
  pte_tag :: md_addr_t
  pte_page :: "nat \<Rightarrow> byte_t"

record mem_t =
  mem_name :: string
  ptab :: "md_addr_t \<Rightarrow> mem_pte_t list"
  page_count :: counter_t
  ptab_misses :: counter_t
  ptab_accesses :: counter_t

definition MEM_PTAB_SET :: "md_addr_t \<Rightarrow> md_addr_t" where
  "MEM_PTAB_SET addr = drop_bit MD_LOG_PAGE_SIZE addr AND (MEM_PTAB_SIZE - 1)"

definition MEM_PTAB_TAG :: "md_addr_t \<Rightarrow> md_addr_t" where
  "MEM_PTAB_TAG addr = drop_bit (MD_LOG_PAGE_SIZE + MEM_LOG_PTAB_SIZE) addr"

definition MEM_PTE_ADDR :: "mem_pte_t \<Rightarrow> md_addr_t \<Rightarrow> md_addr_t" where
  "MEM_PTE_ADDR pte idx =
     push_bit (MD_LOG_PAGE_SIZE + MEM_LOG_PTAB_SIZE) (pte_tag pte) OR push_bit MD_LOG_PAGE_SIZE idx"

definition MEM_OFFSET :: "md_addr_t \<Rightarrow> nat" where
  "MEM_OFFSET addr = unat (addr AND (of_nat MD_PAGE_SIZE - 1))"

section \<open>Page table operations\<close>

text \<open>
  The search loop of \<open>mem_translate()\<close>: \<open>seen\<close> holds the entries already passed, latest
  first, so that its head is \<open>prev\<close>.  The entry found is unlinked and put at the head.
\<close>

fun ptab_walk :: "md_addr_t \<Rightarrow> mem_pte_t list \<Rightarrow> mem_pte_t list \<Rightarrow>
    (mem_pte_t \<times> mem_pte_t list) option" where
  "ptab_walk tag seen [] = None"
| "ptab_walk tag seen (pte # rest) =
     (if pte_tag pte = tag
      then Some (pte, if seen = [] then pte # rest else pte # rev seen @ rest)
      else ptab_walk tag (pte # seen) rest)"

definition mem_translate :: "mem_t \<Rightarrow> md_addr_t \<Rightarrow> (nat \<Rightarrow> byte_t) option \<times> mem_t" where
  "mem_translate mem addr =
     (let mem1 = mem\<lparr>ptab_misses := ptab_misses mem + 1, ptab_accesses := ptab_accesses mem + 1\<rparr>
      in case ptab_walk (MEM_PTAB_TAG addr) [] (ptab mem (MEM_PTAB_SET addr)) of
           None \<Rightarrow> (None, mem1)
         | Some (pte, chain) \<Rightarrow>
             (Some (pte_page pte), mem1\<lparr>ptab := (ptab mem1)(MEM_PTAB_SET addr := chain)\<rparr>))"

definition mem_newpage :: "mem_t \<Rightarrow> md_addr_t \<Rightarrow> mem_t" where
  "mem_newpage mem addr =
     (let set = MEM_PTAB_SET addr;
          pte = \<lparr>pte_tag = MEM_PTAB_TAG addr, pte_page = (\<lambda>_. 0)\<rparr>
      in mem\<lparr>ptab := (ptab mem)(set := pte # ptab mem set), page_count := page_count mem + 1\<rparr>)"

text \<open>\<open>MEM_PAGE\<close>: a hit in the first entry of the bucket, or the translation function.\<close>

definition MEM_PAGE :: "mem_t \<Rightarrow> md_addr_t \<Rightarrow> (nat \<Rightarrow> byte_t) option \<times> mem_t" where
  "MEM_PAGE mem addr =
     (case ptab mem (MEM_PTAB_SET addr) of
        pte # _ \<Rightarrow>
          if pte_tag pte = MEM_PTAB_TAG addr
          then (Some (pte_page pte), mem\<lparr>ptab_accesses := ptab_accesses mem + 1\<rparr>)
          else mem_translate mem addr
      | [] \<Rightarrow> mem_translate mem addr)"

definition MEM_TICKLE :: "mem_t \<Rightarrow> md_addr_t \<Rightarrow> mem_t" where
  "MEM_TICKLE mem addr =
     (case MEM_PAGE mem addr of
        (None, mem1) \<Rightarrow> mem_newpage mem1 addr
      | (Some _, mem1) \<Rightarrow> mem1)"

text \<open>
  Storing through the page pointer \<open>MEM_PAGE\<close> returned: the page of the entry for the
  address.
\<close>

definition page_store :: "(nat \<Rightarrow> byte_t) \<Rightarrow> nat \<Rightarrow> byte_t list \<Rightarrow> (nat \<Rightarrow> byte_t)" where
  "page_store page off bs =
     (\<lambda>i. if off \<le> i \<and> i < off + length bs then bs ! (i - off) else page i)"

fun chain_store :: "md_addr_t \<Rightarrow> nat \<Rightarrow> byte_t list \<Rightarrow> mem_pte_t list \<Rightarrow> mem_pte_t list" where
  "chain_store tag off bs [] = []"
| "chain_store tag off bs (pte # rest) =
     (if pte_tag pte = tag then pte\<lparr>pte_page := page_store (pte_page pte) off bs\<rparr> # rest
      else pte # chain_store tag off bs rest)"

section \<open>Access macros\<close>

text \<open>
  \<open>MEM_READ\<close> and \<open>MEM_WRITE\<close> for a scalar of \<open>n\<close> bytes.  Each evaluates \<open>MEM_PAGE\<close>
  twice.  A scalar that runs over the end of the host page is outside the allocation:
  no result.
\<close>

definition MEM_READ :: "mem_t \<Rightarrow> md_addr_t \<Rightarrow> nat \<Rightarrow> (byte_t list \<times> mem_t) option" where
  "MEM_READ mem addr n =
     (case MEM_PAGE mem addr of
        (None, mem1) \<Rightarrow> Some (replicate n 0, mem1)
      | (Some _, mem1) \<Rightarrow>
          (case MEM_PAGE mem1 addr of
             (None, mem2) \<Rightarrow> None
           | (Some page, mem2) \<Rightarrow>
               if MEM_OFFSET addr + n \<le> MD_PAGE_SIZE
               then Some (map page [MEM_OFFSET addr ..< MEM_OFFSET addr + n], mem2) else None))"

definition MEM_WRITE :: "mem_t \<Rightarrow> md_addr_t \<Rightarrow> byte_t list \<Rightarrow> mem_t option" where
  "MEM_WRITE mem addr bs =
     (case MEM_PAGE (MEM_TICKLE mem addr) addr of
        (None, mem2) \<Rightarrow> None
      | (Some _, mem2) \<Rightarrow>
          if MEM_OFFSET addr + length bs \<le> MD_PAGE_SIZE
          then Some (mem2\<lparr>ptab := (ptab mem2)(MEM_PTAB_SET addr :=
                 chain_store (MEM_PTAB_TAG addr) (MEM_OFFSET addr) bs
                   (ptab mem2 (MEM_PTAB_SET addr)))\<rparr>)
          else None)"

definition MEM_READ_BYTE :: "mem_t \<Rightarrow> md_addr_t \<Rightarrow> (byte_t \<times> mem_t) option" where
  "MEM_READ_BYTE mem addr = do { (bs, mem1) \<leftarrow> MEM_READ mem addr 1; Some (hd bs, mem1) }"

definition MEM_READ_WORD :: "mem_t \<Rightarrow> md_addr_t \<Rightarrow> (word_t \<times> mem_t) option" where
  "MEM_READ_WORD mem addr = do { (bs, mem1) \<leftarrow> MEM_READ mem addr 4; Some (word_of_bytes bs, mem1) }"

definition MEM_WRITE_BYTE :: "mem_t \<Rightarrow> md_addr_t \<Rightarrow> byte_t \<Rightarrow> mem_t option" where
  "MEM_WRITE_BYTE mem addr v = MEM_WRITE mem addr [v]"

definition MEM_WRITE_WORD :: "mem_t \<Rightarrow> md_addr_t \<Rightarrow> word_t \<Rightarrow> mem_t option" where
  "MEM_WRITE_WORD mem addr v = MEM_WRITE mem addr (bytes_of_word v)"

definition MEM_READ_HALF :: "mem_t \<Rightarrow> md_addr_t \<Rightarrow> (half_t \<times> mem_t) option" where
  "MEM_READ_HALF mem addr = do { (bs, mem1) \<leftarrow> MEM_READ mem addr 2; Some (half_of_bytes bs, mem1) }"

definition MEM_WRITE_HALF :: "mem_t \<Rightarrow> md_addr_t \<Rightarrow> half_t \<Rightarrow> mem_t option" where
  "MEM_WRITE_HALF mem addr v = MEM_WRITE mem addr (bytes_of_half v)"

definition mem_create :: "string \<Rightarrow> mem_t" where
  "mem_create name =
     \<lparr>mem_name = name, ptab = (\<lambda>_. []), page_count = 0, ptab_misses = 0, ptab_accesses = 0\<rparr>"

definition mem_init :: "mem_t \<Rightarrow> mem_t" where
  "mem_init mem = mem\<lparr>ptab := (\<lambda>_. []), page_count := 0, ptab_misses := 0, ptab_accesses := 0\<rparr>"

section \<open>Routines over a memory access function\<close>

text \<open>
  \<open>mem_access()\<close>.  The host buffer is a byte list; a read stores into its first \<open>nbytes\<close>
  cells.  The loops move one byte at a time.
\<close>

fun mem_access_read :: "mem_t \<Rightarrow> md_addr_t \<Rightarrow> nat \<Rightarrow> (byte_t list \<times> mem_t) option" where
  "mem_access_read mem addr 0 = Some ([], mem)"
| "mem_access_read mem addr (Suc nbytes) = do {
     (b, mem1) \<leftarrow> MEM_READ_BYTE mem addr;
     (bs, mem2) \<leftarrow> mem_access_read mem1 (addr + 1) nbytes;
     Some (b # bs, mem2) }"

fun mem_access_write :: "mem_t \<Rightarrow> md_addr_t \<Rightarrow> byte_t list \<Rightarrow> mem_t option" where
  "mem_access_write mem addr [] = Some mem"
| "mem_access_write mem addr (b # bs) = do {
     mem1 \<leftarrow> MEM_WRITE_BYTE mem addr b;
     mem_access_write mem1 (addr + 1) bs }"

definition mem_access :: "mem_t \<Rightarrow> mem_cmd \<Rightarrow> md_addr_t \<Rightarrow> byte_t list \<Rightarrow> int \<Rightarrow>
    (md_fault_type \<times> byte_t list \<times> mem_t) option" where
  "mem_access mem cmd addr vp nbytes =
     (if nbytes AND (nbytes - 1) \<noteq> 0 \<or> nbytes > int MD_PAGE_SIZE
      then Some (md_fault_access, vp, mem)
      else if addr AND word_of_int (nbytes - 1) \<noteq> 0 then Some (md_fault_alignment, vp, mem)
      else if nat nbytes > length vp then None
      else (case cmd of
              Read \<Rightarrow> do {
                (bs, mem1) \<leftarrow> mem_access_read mem addr (nat nbytes);
                Some (md_fault_none, bs @ drop (nat nbytes) vp, mem1) }
            | Write \<Rightarrow> do {
                mem1 \<leftarrow> mem_access_write mem addr (take (nat nbytes) vp);
                Some (md_fault_none, vp, mem1) }))"

section \<open>Address arithmetic\<close>

lemma MEM_OFFSET_nat: "MEM_OFFSET a = unat a mod 4096"
proof -
  have "a AND (of_nat MD_PAGE_SIZE - 1) = take_bit 12 a"
    by (simp add: MD_PAGE_SIZE_def take_bit_eq_mask mask_eq_exp_minus_1)
  then show ?thesis by (simp add: MEM_OFFSET_def unat_mod take_bit_eq_mod)
qed

lemma MEM_PTAB_SET_nat: "unat (MEM_PTAB_SET a) = unat a div 4096 mod 32768"
proof -
  have "drop_bit 12 a AND (MEM_PTAB_SIZE - 1) = take_bit 15 (drop_bit 12 a)"
    by (simp add: MEM_PTAB_SIZE_def take_bit_eq_mask mask_eq_exp_minus_1)
  then show ?thesis
    by (simp add: MEM_PTAB_SET_def MD_LOG_PAGE_SIZE_def unat_mod unat_div
        take_bit_eq_mod drop_bit_eq_div)
qed

lemma MEM_PTAB_TAG_nat: "unat (MEM_PTAB_TAG a) = unat a div 4096 div 32768"
proof -
  have "unat (MEM_PTAB_TAG a) = unat a div 2 ^ 27"
    by (simp add: MEM_PTAB_TAG_def MD_LOG_PAGE_SIZE_def MEM_LOG_PTAB_SIZE_def unat_div
      drop_bit_eq_div)
  then show ?thesis by (simp add: div_mult2_eq [symmetric])
qed

text \<open>Set, tag and offset determine the address; within a page only the offset moves.\<close>

lemma page_key_inj:
  assumes "MEM_PTAB_SET a = MEM_PTAB_SET b" "MEM_PTAB_TAG a = MEM_PTAB_TAG b"
    and "MEM_OFFSET a = MEM_OFFSET b"
  shows "a = b"
proof -
  have "unat a div 4096 mod 32768 = unat b div 4096 mod 32768"
    using assms(1) by (metis MEM_PTAB_SET_nat)
  moreover have "unat a div 4096 div 32768 = unat b div 4096 div 32768"
    using assms(2) by (metis MEM_PTAB_TAG_nat)
  ultimately have "unat a div 4096 = unat b div 4096"
    by (metis div_mult_mod_eq)
  moreover have "unat a mod 4096 = unat b mod 4096"
    using assms(3) by (simp add: MEM_OFFSET_nat)
  ultimately have "unat a = unat b" by (metis div_mult_mod_eq)
  then show ?thesis by (rule word_unat_eq_iff [THEN iffD2])
qed

lemma unat_add_in_page:
  assumes "MEM_OFFSET a + k < 4096"
  shows "unat (a + of_nat k) = unat a + k"
proof -
  have "unat a < 4096 * 1048576" using unsigned_less [of a, where ?'a = nat] by simp
  then have "unat a div 4096 < 1048576" by (simp add: less_mult_imp_div_less)
  moreover have "unat a = 4096 * (unat a div 4096) + MEM_OFFSET a"
    by (simp add: MEM_OFFSET_nat)
  ultimately have lt: "unat a + k < 4294967296"
    using assms by linarith
  then have "unat (of_nat k :: md_addr_t) = k" by (simp add: unat_of_nat)
  with lt have "unat a + unat (of_nat k :: md_addr_t) < 2 ^ LENGTH(32)" by simp
  then have "unat (a + of_nat k) = unat a + unat (of_nat k :: md_addr_t)"
    by (rule unat_add_lem [THEN iffD1])
  then show ?thesis using \<open>unat (of_nat k :: md_addr_t) = k\<close> by simp
qed

lemma in_page_step:
  assumes "MEM_OFFSET a + k < 4096"
  shows "MEM_PTAB_SET (a + of_nat k) = MEM_PTAB_SET a"
    and "MEM_PTAB_TAG (a + of_nat k) = MEM_PTAB_TAG a"
    and "MEM_OFFSET (a + of_nat k) = MEM_OFFSET a + k"
proof -
  have u: "unat (a + of_nat k) = unat a + k" using assms by (rule unat_add_in_page)
  have m: "unat a mod 4096 + k < 4096" using assms by (simp add: MEM_OFFSET_nat)
  then have d: "(unat a + k) div 4096 = unat a div 4096"
    by (rule div_mod_add_small)
  have "unat (MEM_PTAB_SET (a + of_nat k)) = unat (MEM_PTAB_SET a)"
    by (simp add: MEM_PTAB_SET_nat u d)
  then show "MEM_PTAB_SET (a + of_nat k) = MEM_PTAB_SET a"
    by (rule word_unat_eq_iff [THEN iffD2])
  have "unat (MEM_PTAB_TAG (a + of_nat k)) = unat (MEM_PTAB_TAG a)"
    by (simp add: MEM_PTAB_TAG_nat u d)
  then show "MEM_PTAB_TAG (a + of_nat k) = MEM_PTAB_TAG a"
    by (rule word_unat_eq_iff [THEN iffD2])
  show "MEM_OFFSET (a + of_nat k) = MEM_OFFSET a + k"
    using div_mod_add_small (2) [OF m] by (simp add: MEM_OFFSET_nat u)
qed

section \<open>The flat view of a memory\<close>

fun chain_page :: "md_addr_t \<Rightarrow> mem_pte_t list \<Rightarrow> (nat \<Rightarrow> byte_t) option" where
  "chain_page tag [] = None"
| "chain_page tag (pte # rest) = (if pte_tag pte = tag then Some (pte_page pte) else chain_page tag rest)"

definition mem_view :: "mem_t \<Rightarrow> view" where
  "mem_view mem a =
     (case chain_page (MEM_PTAB_TAG a) (ptab mem (MEM_PTAB_SET a)) of
        None \<Rightarrow> 0 | Some page \<Rightarrow> page (MEM_OFFSET a))"

text \<open>
  A bucket holds a page at most once, and \<open>page_count\<close> is the number of entries of the
  table.
\<close>

definition mem_inv :: "mem_t \<Rightarrow> bool" where
  "mem_inv mem \<longleftrightarrow>
     (\<forall>s. distinct (map pte_tag (ptab mem s))) \<and>
     page_count mem = of_nat (\<Sum>s\<in>UNIV. length (ptab mem s))"

lemma chain_page_None: "chain_page tag ps = None \<longleftrightarrow> tag \<notin> pte_tag ` set ps"
  by (induction ps) auto

lemma chain_page_SomeI:
  "distinct (map pte_tag ps) \<Longrightarrow> p \<in> set ps \<Longrightarrow> chain_page (pte_tag p) ps = Some (pte_page p)"
  by (induction ps) (auto simp: image_iff)

lemma chain_page_perm:
  assumes "distinct (map pte_tag xs)" "distinct (map pte_tag ys)" "set xs = set ys"
  shows "chain_page tag xs = chain_page tag ys"
proof (cases "tag \<in> pte_tag ` set xs")
  case True
  then obtain p where "p \<in> set xs" "tag = pte_tag p" by auto
  with assms show ?thesis by (simp add: chain_page_SomeI)
next
  case False
  with assms(3) show ?thesis by (metis chain_page_None)
qed

lemma ptab_walk_None: "ptab_walk tag seen ps = None \<longleftrightarrow> chain_page tag ps = None"
  by (induction ps arbitrary: seen) auto

lemma ptab_walk_Some:
  assumes "ptab_walk tag seen ps = Some (pte, chain)"
  shows "chain_page tag ps = Some (pte_page pte)" and "pte_tag pte = tag"
    and "\<exists>rest. chain = pte # rest"
    and "set chain = set seen \<union> set ps" and "length chain = length seen + length ps"
  using assms by (induction ps arbitrary: seen) (auto split: if_splits)

lemma ptab_walk_distinct:
  "ptab_walk tag seen ps = Some (pte, chain) \<Longrightarrow> distinct (map pte_tag (rev seen @ ps)) \<Longrightarrow>
   distinct (map pte_tag chain)"
proof (induction ps arbitrary: seen)
  case (Cons p ps)
  show ?case
  proof (cases "pte_tag p = tag")
    case True
    with Cons.prems show ?thesis by (auto split: if_splits)
  next
    case False
    with Cons.prems(1) have "ptab_walk tag (p # seen) ps = Some (pte, chain)" by simp
    moreover from Cons.prems(2) have "distinct (map pte_tag (rev (p # seen) @ ps))" by simp
    ultimately show ?thesis by (rule Cons.IH)
  qed
qed simp

lemma chain_store_tags [simp]: "map pte_tag (chain_store tag off bs ps) = map pte_tag ps"
  by (induction ps) auto

lemma chain_store_length [simp]: "length (chain_store tag off bs ps) = length ps"
  by (induction ps) auto

lemma chain_page_store:
  "chain_page t (chain_store tag off bs ps) =
     (if t = tag then map_option (\<lambda>p. page_store p off bs) (chain_page tag ps)
      else chain_page t ps)"
  by (induction ps) auto

text \<open>What \<open>MEM_PAGE\<close> guarantees: the page of the address, the view and the table unchanged.\<close>

definition mem_same :: "mem_t \<Rightarrow> mem_t \<Rightarrow> bool" where
  "mem_same mem mem' \<longleftrightarrow> mem_inv mem' \<and> mem_view mem' = mem_view mem \<and>
     (\<forall>s t. chain_page t (ptab mem' s) = chain_page t (ptab mem s)) \<and>
     page_count mem' = page_count mem \<and> mem_name mem' = mem_name mem"

lemma mem_same_refl: "mem_inv mem \<Longrightarrow> mem_same mem mem"
  by (simp add: mem_same_def)

lemma mem_same_trans: "mem_same a b \<Longrightarrow> mem_same b c \<Longrightarrow> mem_same a c"
  by (simp add: mem_same_def)

lemma mem_view_chain_cong:
  "(\<And>s t. chain_page t (ptab m' s) = chain_page t (ptab m s)) \<Longrightarrow> mem_view m' = mem_view m"
  by (rule ext) (simp add: mem_view_def)

lemma mem_same_chainI:
  assumes inv: "mem_inv m" and pt: "ptab m' = (ptab m)(s := chain)"
    and st: "set chain = set (ptab m s)" and len: "length chain = length (ptab m s)"
    and dist: "distinct (map pte_tag chain)"
    and "page_count m' = page_count m" "mem_name m' = mem_name m"
  shows "mem_same m m'"
proof -
  have cp: "chain_page t (ptab m' s') = chain_page t (ptab m s')" for s' t
    using inv dist st pt chain_page_perm [of chain "ptab m s" t]
    by (auto simp: mem_inv_def)
  have "(\<Sum>s\<in>UNIV. length (ptab m' s)) = (\<Sum>s\<in>UNIV. length (ptab m s))"
    by (rule sum.cong) (auto simp: pt len)
  with inv assms cp show ?thesis
    by (auto simp: mem_same_def mem_inv_def intro: mem_view_chain_cong)
qed

lemma mem_translate_spec:
  assumes inv: "mem_inv m" and run: "mem_translate m a = (r, m')"
  shows "r = chain_page (MEM_PTAB_TAG a) (ptab m (MEM_PTAB_SET a)) \<and> mem_same m m'"
proof (cases "ptab_walk (MEM_PTAB_TAG a) [] (ptab m (MEM_PTAB_SET a))")
  case None
  with run inv show ?thesis
    by (auto simp: mem_translate_def mem_same_def mem_inv_def ptab_walk_None
        intro: mem_view_chain_cong)
next
  case (Some pc)
  obtain pte chain where pc: "pc = (pte, chain)" by (cases pc)
  note w = ptab_walk_Some [OF Some [unfolded pc]] ptab_walk_distinct [OF Some [unfolded pc]]
  have "mem_same m m'"
    using run Some pc w inv
    by (intro mem_same_chainI [where s = "MEM_PTAB_SET a" and chain = chain])
       (auto simp: mem_translate_def mem_inv_def)
  with run Some pc w show ?thesis by (auto simp: mem_translate_def)
qed

lemma MEM_PAGE_spec:
  assumes inv: "mem_inv m" and run: "MEM_PAGE m a = (r, m')"
  shows "r = chain_page (MEM_PTAB_TAG a) (ptab m (MEM_PTAB_SET a)) \<and> mem_same m m'"
proof (cases "ptab m (MEM_PTAB_SET a)")
  case Nil
  with run mem_translate_spec [OF inv, of a r m'] show ?thesis by (simp add: MEM_PAGE_def)
next
  case (Cons pte rest)
  show ?thesis
  proof (cases "pte_tag pte = MEM_PTAB_TAG a")
    case True
    with run Cons inv show ?thesis
      by (auto simp: MEM_PAGE_def mem_same_def mem_inv_def intro: mem_view_chain_cong)
  next
    case False
    with run Cons mem_translate_spec [OF inv, of a r m'] show ?thesis by (simp add: MEM_PAGE_def)
  qed
qed

lemma sum_length_cons:
  fixes f :: "md_addr_t \<Rightarrow> 'a list"
  shows "(\<Sum>s\<in>UNIV. length ((f(k := x # f k)) s)) = Suc (\<Sum>s\<in>UNIV. length (f s))"
proof -
  have "(\<Sum>s\<in>UNIV. length ((f(k := x # f k)) s)) =
      length (x # f k) + (\<Sum>s\<in>UNIV - {k}. length ((f(k := x # f k)) s))"
    by (subst sum.remove [of UNIV k]) auto
  also have "(\<Sum>s\<in>UNIV - {k}. length ((f(k := x # f k)) s)) = (\<Sum>s\<in>UNIV - {k}. length (f s))"
    by (rule sum.cong) auto
  finally show ?thesis
    by (simp add: sum.remove [of UNIV k "\<lambda>s. length (f s)"])
qed

lemma mem_newpage_spec:
  assumes inv: "mem_inv m"
    and no: "chain_page (MEM_PTAB_TAG a) (ptab m (MEM_PTAB_SET a)) = None"
  shows "mem_inv (mem_newpage m a)" and "mem_view (mem_newpage m a) = mem_view m"
    and "chain_page (MEM_PTAB_TAG a) (ptab (mem_newpage m a) (MEM_PTAB_SET a)) = Some (\<lambda>_. 0)"
proof -
  let ?p = "\<lparr>pte_tag = MEM_PTAB_TAG a, pte_page = (\<lambda>_. 0)\<rparr>"
  have "ptab (mem_newpage m a) = (ptab m)(MEM_PTAB_SET a := ?p # ptab m (MEM_PTAB_SET a))"
    by (simp add: mem_newpage_def Let_def)
  then show "mem_inv (mem_newpage m a)"
    using inv no
    by (auto simp: mem_inv_def chain_page_None mem_newpage_def Let_def
        simp del: fun_upd_apply sum_length_cons simp add: sum_length_cons)
       (simp add: fun_upd_apply)
  show "mem_view (mem_newpage m a) = mem_view m"
    using no by (auto simp: mem_view_def mem_newpage_def fun_eq_iff Let_def)
  show "chain_page (MEM_PTAB_TAG a) (ptab (mem_newpage m a) (MEM_PTAB_SET a)) = Some (\<lambda>_. 0)"
    by (simp add: mem_newpage_def Let_def)
qed


section \<open>Reading and writing\<close>

lemma MEM_TICKLE_spec:
  assumes inv: "mem_inv m"
  shows "mem_inv (MEM_TICKLE m a)" and "mem_view (MEM_TICKLE m a) = mem_view m"
    and "chain_page (MEM_PTAB_TAG a) (ptab (MEM_TICKLE m a) (MEM_PTAB_SET a)) \<noteq> None"
proof -
  obtain r m1 where run: "MEM_PAGE m a = (r, m1)" by (cases "MEM_PAGE m a")
  note sp = MEM_PAGE_spec [OF inv run]
  then have "mem_inv m1" "mem_view m1 = mem_view m"
    and cp: "chain_page (MEM_PTAB_TAG a) (ptab m1 (MEM_PTAB_SET a)) = r"
    by (auto simp: mem_same_def)
  then show "mem_inv (MEM_TICKLE m a)" "mem_view (MEM_TICKLE m a) = mem_view m"
    "chain_page (MEM_PTAB_TAG a) (ptab (MEM_TICKLE m a) (MEM_PTAB_SET a)) \<noteq> None"
    using mem_newpage_spec [of m1 a] run
    by (auto simp: MEM_TICKLE_def split: option.splits)
qed

lemma MEM_READ_spec:
  assumes inv: "mem_inv m" and fit: "MEM_OFFSET a + n \<le> 4096"
  shows "\<exists>m'. MEM_READ m a n = Some (view_bytes (mem_view m) a n, m') \<and> mem_same m m'"
proof -
  obtain r m1 where run1: "MEM_PAGE m a = (r, m1)" by (cases "MEM_PAGE m a")
  note sp1 = MEM_PAGE_spec [OF inv run1]
  then have inv1: "mem_inv m1" by (simp add: mem_same_def)
  obtain r2 m2 where run2: "MEM_PAGE m1 a = (r2, m2)" by (cases "MEM_PAGE m1 a")
  note sp2 = MEM_PAGE_spec [OF inv1 run2]
  have r2: "r2 = r" using sp1 sp2 by (auto simp: mem_same_def)
  have byte: "mem_view m (a + of_nat k) = (case r of None \<Rightarrow> 0 | Some pg \<Rightarrow> pg (MEM_OFFSET a + k))"
    if "k < n" for k
  proof -
    have "MEM_OFFSET a + k < 4096" using that fit by simp
    then show ?thesis using sp1 by (auto simp: mem_view_def in_page_step split: option.splits)
  qed
  show ?thesis
  proof (cases r)
    case None
    then have "view_bytes (mem_view m) a n = replicate n 0"
      by (intro view_bytes_eqI) (auto simp: byte)
    with None run1 sp1 show ?thesis by (simp add: MEM_READ_def)
  next
    case (Some pg)
    then have "view_bytes (mem_view m) a n = map pg [MEM_OFFSET a ..< MEM_OFFSET a + n]"
      by (intro view_bytes_eqI) (auto simp: byte)
    with Some r2 run1 run2 sp1 sp2 fit show ?thesis
      by (auto simp: MEM_READ_def MD_PAGE_SIZE_def intro: mem_same_trans)
  qed
qed

text \<open>An in-page address is reached from the start of the access by its distance.\<close>

lemma same_page_distance:
  assumes "MEM_PTAB_SET b = MEM_PTAB_SET a" "MEM_PTAB_TAG b = MEM_PTAB_TAG a"
  shows "MEM_OFFSET a \<le> MEM_OFFSET b \<Longrightarrow> unat (b - a) = MEM_OFFSET b - MEM_OFFSET a"
    and "MEM_OFFSET b < MEM_OFFSET a \<Longrightarrow> 4294963200 < unat (b - a)"
proof -
  have off: "MEM_OFFSET a < 4096" "MEM_OFFSET b < 4096" by (simp_all add: MEM_OFFSET_nat)
  show "unat (b - a) = MEM_OFFSET b - MEM_OFFSET a" if le: "MEM_OFFSET a \<le> MEM_OFFSET b"
  proof -
    let ?k = "MEM_OFFSET b - MEM_OFFSET a"
    have fit: "MEM_OFFSET a + ?k < 4096" using le off by simp
    have "b = a + of_nat ?k"
      by (rule page_key_inj) (simp_all only: in_page_step [OF fit] assms le le_add_diff_inverse)
    then have d: "b - a = of_nat ?k" by (metis add_diff_cancel_left')
    have "unat (of_nat ?k :: md_addr_t) = ?k" using off by (simp add: unat_of_nat)
    then show ?thesis unfolding d .
  qed
  show "4294963200 < unat (b - a)" if lt: "MEM_OFFSET b < MEM_OFFSET a"
  proof -
    let ?k = "MEM_OFFSET a - MEM_OFFSET b"
    have fit: "MEM_OFFSET b + ?k < 4096" using lt off by simp
    have "a = b + of_nat ?k"
      by (rule page_key_inj) (simp_all only: in_page_step [OF fit] assms le_add_diff_inverse
          less_imp_le [OF lt])
    then have d: "b - a = - of_nat ?k" by (metis diff_add_cancel minus_diff_eq add_diff_cancel_left')
    have k: "unat (of_nat ?k :: md_addr_t) = ?k" using off by (simp add: unat_of_nat)
    then have nz: "(of_nat ?k :: md_addr_t) \<noteq> 0" using lt by (metis unat_0 zero_less_diff neq0_conv)
    show ?thesis unfolding d unat_neg_small [OF nz] k using off by linarith
  qed
qed

lemma mem_inv_store:
  assumes inv: "mem_inv m"
  shows "mem_inv (m\<lparr>ptab := (ptab m)(s := chain_store tag off bs (ptab m s))\<rparr>)"
proof -
  let ?m = "m\<lparr>ptab := (ptab m)(s := chain_store tag off bs (ptab m s))\<rparr>"
  have "(\<Sum>s\<in>UNIV. length (ptab ?m s)) = (\<Sum>s\<in>UNIV. length (ptab m s))"
    by (rule sum.cong) auto
  with inv show ?thesis by (auto simp: mem_inv_def)
qed

lemma mem_view_store:
  assumes page: "chain_page (MEM_PTAB_TAG a) (ptab m (MEM_PTAB_SET a)) = Some pg"
    and fit: "MEM_OFFSET a + length bs \<le> 4096"
  shows "mem_view (m\<lparr>ptab := (ptab m)(MEM_PTAB_SET a :=
       chain_store (MEM_PTAB_TAG a) (MEM_OFFSET a) bs (ptab m (MEM_PTAB_SET a)))\<rparr>)
     = view_store (mem_view m) a bs" (is "mem_view ?m = _")
proof (rule ext)
  fix b
  have vs: "view_store (mem_view m) a bs b =
      (if unat (b - a) < length bs then bs ! unat (b - a) else mem_view m b)"
    using fit by (intro view_store_nth) simp
  show "mem_view ?m b = view_store (mem_view m) a bs b"
  proof (cases "MEM_PTAB_SET b = MEM_PTAB_SET a \<and> MEM_PTAB_TAG b = MEM_PTAB_TAG a")
    case True
    then have lhs: "mem_view ?m b = page_store pg (MEM_OFFSET a) bs (MEM_OFFSET b)"
        "mem_view m b = pg (MEM_OFFSET b)"
      using page by (simp_all add: mem_view_def chain_page_store)
    show ?thesis
    proof (cases "MEM_OFFSET a \<le> MEM_OFFSET b")
      case le: True
      then have "unat (b - a) = MEM_OFFSET b - MEM_OFFSET a"
        using True same_page_distance(1) by simp
      with le vs lhs show ?thesis by (auto simp: page_store_def)
    next
      case False
      then have "4294963200 < unat (b - a)" using True same_page_distance(2) by simp
      with False fit vs lhs show ?thesis by (auto simp: page_store_def)
    qed
  next
    case False
    have "\<not> unat (b - a) < length bs"
    proof
      assume lt: "unat (b - a) < length bs"
      then have "MEM_OFFSET a + unat (b - a) < 4096" using fit by simp
      from in_page_step [OF this] False show False by simp
    qed
    with False vs show ?thesis by (auto simp: mem_view_def chain_page_store)
  qed
qed

lemma MEM_WRITE_spec:
  assumes inv: "mem_inv m" and fit: "MEM_OFFSET a + length bs \<le> 4096"
  shows "\<exists>m'. MEM_WRITE m a bs = Some m' \<and> mem_inv m' \<and> mem_view m' = view_store (mem_view m) a bs"
proof -
  note tick = MEM_TICKLE_spec [OF inv, of a]
  obtain r m2 where run: "MEM_PAGE (MEM_TICKLE m a) a = (r, m2)"
    by (cases "MEM_PAGE (MEM_TICKLE m a) a")
  note sp = MEM_PAGE_spec [OF tick(1) run]
  with tick obtain pg where r: "r = Some pg" by auto
  from sp have inv2: "mem_inv m2" and v2: "mem_view m2 = mem_view m"
    and "chain_page (MEM_PTAB_TAG a) (ptab m2 (MEM_PTAB_SET a)) = Some pg"
    using tick r by (auto simp: mem_same_def)
  with mem_view_store [OF _ fit] have
    "mem_view (m2\<lparr>ptab := (ptab m2)(MEM_PTAB_SET a :=
       chain_store (MEM_PTAB_TAG a) (MEM_OFFSET a) bs (ptab m2 (MEM_PTAB_SET a)))\<rparr>)
     = view_store (mem_view m) a bs" by simp
  with run r fit inv2 show ?thesis
    by (auto simp: MEM_WRITE_def MD_PAGE_SIZE_def intro: mem_inv_store)
qed


section \<open>Word accesses as an interface\<close>

lemma aligned4_nat: "aligned4 a \<longleftrightarrow> unat a mod 4 = 0"
proof -
  have "a AND 3 = a mod 4" using take_bit_eq_mask [of 2 a] by (simp add: mask_eq_exp_minus_1 take_bit_eq_mod)
  moreover have "unat (a mod 4) = unat a mod 4" by (simp add: unat_mod)
  ultimately show ?thesis unfolding aligned4_def by (metis unat_eq_zero)
qed

lemma aligned4_step: "aligned4 (a + 4) = aligned4 a"
proof -
  have "unat (a + 4) mod 4 = (unat a + 4) mod 4294967296 mod 4" by (simp add: unat_word_ariths)
  also have "\<dots> = (unat a + 4) mod 4" by (rule mod_mod_cancel) simp
  finally show ?thesis by (simp add: aligned4_nat)
qed

lemma aligned4_offset: "aligned4 a \<Longrightarrow> MEM_OFFSET a + 4 \<le> 4096"
proof -
  assume "aligned4 a"
  then have "take_bit 2 a = 0" by (simp add: aligned4_def take_bit_eq_mask mask_eq_exp_minus_1)
  then have "unat (a mod 4) = 0" by (simp add: take_bit_eq_mod)
  then have "unat a mod 4 = 0" by (simp add: unat_mod)
  moreover have "unat a mod 4096 mod 4 = unat a mod 4" by (rule mod_mod_cancel) simp
  ultimately have "4 dvd unat a mod 4096" by (simp add: dvd_eq_mod_eq_0)
  then show ?thesis unfolding MEM_OFFSET_nat by (rule dvd_less_add_le) simp_all
qed

lemma MEM_READ_WORD_spec:
  assumes "mem_inv m" "MEM_OFFSET a + 4 \<le> 4096"
  shows "\<exists>m'. MEM_READ_WORD m a = Some (view_word (mem_view m) a, m') \<and> mem_same m m'"
  using MEM_READ_spec [OF assms] by (auto simp: MEM_READ_WORD_def view_word_bytes)

lemma MEM_WRITE_WORD_spec:
  assumes "mem_inv m" "MEM_OFFSET a + 4 \<le> 4096"
  shows "\<exists>m'. MEM_WRITE_WORD m a w = Some m' \<and> mem_inv m' \<and>
    mem_view m' = view_set_word (mem_view m) a w"
  using MEM_WRITE_spec [of m a "bytes_of_word w"] assms
  by (simp add: MEM_WRITE_WORD_def view_set_word_store)

interpretation raw: word_memory mem_inv mem_view MEM_READ_WORD MEM_WRITE_WORD
proof
  fix s a and w :: word_t
  assume inv: "mem_inv s" and al: "aligned4 a"
  show "\<exists>s'. MEM_READ_WORD s a = Some (view_word (mem_view s) a, s') \<and> mem_inv s' \<and>
      mem_view s' = mem_view s"
    using MEM_READ_WORD_spec [OF inv aligned4_offset [OF al]] by (auto simp: mem_same_def)
  show "\<exists>s'. MEM_WRITE_WORD s a w = Some s' \<and> mem_inv s' \<and>
      mem_view s' = view_set_word (mem_view s) a w"
    using MEM_WRITE_WORD_spec [OF inv aligned4_offset [OF al]] .
qed

lemma mem_inv_empty: "mem_inv (mem_init m)" "mem_inv (mem_create name)"
  by (simp_all add: mem_inv_def mem_init_def mem_create_def)

lemma mem_view_empty: "mem_view (mem_init m) = (\<lambda>_. 0)" "mem_view (mem_create name) = (\<lambda>_. 0)"
  by (simp_all add: mem_view_def mem_init_def mem_create_def fun_eq_iff)

section \<open>Properties\<close>

text \<open>
  C12: any sequence of aligned word reads and writes on the paged memory is served, and
  returns what a flat memory returns; the final contents are those of the flat memory.
\<close>

theorem mem_word_ops_flat:
  assumes "mem_inv m" "\<forall>op \<in> set ops. aligned4 (op_addr op)"
  shows "\<exists>m'. run_ops MEM_READ_WORD MEM_WRITE_WORD m ops = Some (fst (flat_ops (mem_view m) ops), m') \<and>
    mem_inv m' \<and> mem_view m' = snd (flat_ops (mem_view m) ops)"
  using assms by (rule raw.run_ops_flat)

lemma mem_word_ops_flat_witness:
  "\<exists>m'. run_ops MEM_READ_WORD MEM_WRITE_WORD (mem_create ''mem'')
     [Store 4096 0xdeadbeef, Store 8 7, Load 4096, Load 0] = Some ([0xdeadbeef, 0], m')"
  using mem_word_ops_flat [OF mem_inv_empty(2), of "[Store 4096 0xdeadbeef, Store 8 7, Load 4096, Load 0]" "''mem''"]
  by (auto simp: aligned4_def mem_view_empty view_word_def view_set_word_def word_of_bytes_def byte_of_def)

text \<open>
  Finding a page moves its entry to the head of its bucket, so that the next access to
  the page hits at the first entry and counts no table miss; the bucket keeps its entries
  and the contents do not change.
\<close>

theorem mem_page_most_recent:
  assumes inv: "mem_inv m" and run: "MEM_PAGE m a = (Some page, m1)"
  shows "MEM_PAGE m1 a = (Some page, m1\<lparr>ptab_accesses := ptab_accesses m1 + 1\<rparr>) \<and>
    mem_view m1 = mem_view m \<and> page_count m1 = page_count m \<and>
    (\<forall>s. set (ptab m1 s) = set (ptab m s) \<and> length (ptab m1 s) = length (ptab m s))"
proof -
  have same: "mem_same m m1" using MEM_PAGE_spec [OF inv run] by simp
  obtain pte rest where pr: "ptab m (MEM_PTAB_SET a) = pte # rest"
    using MEM_PAGE_spec [OF inv run] by (cases "ptab m (MEM_PTAB_SET a)") auto
  show ?thesis
  proof (cases "pte_tag pte = MEM_PTAB_TAG a")
    case True
    with run pr same show ?thesis by (auto simp: MEM_PAGE_def mem_same_def)
  next
    case False
    with run pr obtain p chain where
      w: "ptab_walk (MEM_PTAB_TAG a) [] (ptab m (MEM_PTAB_SET a)) = Some (p, chain)"
      by (auto simp: MEM_PAGE_def mem_translate_def Let_def split: option.splits)
    note ws = ptab_walk_Some [OF w]
    then obtain rest' where ch: "chain = p # rest'" by blast
    have m1: "m1 = m\<lparr>ptab_misses := ptab_misses m + 1, ptab_accesses := ptab_accesses m + 1,
        ptab := (ptab m)(MEM_PTAB_SET a := chain)\<rparr>" and page: "page = pte_page p"
      using run pr False w by (auto simp: MEM_PAGE_def mem_translate_def Let_def)
    have "set (ptab m1 s) = set (ptab m s)" "length (ptab m1 s) = length (ptab m s)" for s
      using ws(4,5) by (auto simp: m1)
    moreover have "MEM_PAGE m1 a = (Some page, m1\<lparr>ptab_accesses := ptab_accesses m1 + 1\<rparr>)"
      using ws(2) by (simp add: MEM_PAGE_def m1 ch page)
    ultimately show ?thesis using same by (simp add: mem_same_def)
  qed
qed

lemma mem_page_most_recent_witness:
  "\<exists>page m1. MEM_PAGE (MEM_TICKLE (mem_create ''mem'') 4096) 4096 = (Some page, m1) \<and>
    MEM_PAGE m1 4096 = (Some page, m1\<lparr>ptab_accesses := ptab_accesses m1 + 1\<rparr>)"
proof -
  note t = MEM_TICKLE_spec [OF mem_inv_empty(2) [of "''mem''"], of 4096]
  obtain r m1 where run: "MEM_PAGE (MEM_TICKLE (mem_create ''mem'') 4096) 4096 = (r, m1)" by fastforce
  with MEM_PAGE_spec [OF t(1)] t(3) obtain page where "r = Some page" by fastforce
  with run mem_page_most_recent [OF t(1), of 4096 page m1] show ?thesis by blast
qed

end
