(* ===== verification/Mem_Copy.thy ===== *)
theory Mem_Copy
  imports Memory
begin

text \<open>
  The copying routines of memory.c, which move data between simulated memory and a host
  buffer through a memory access function of type \<open>mem_access_fn\<close>.  A host buffer is a
  byte list; running past its end is no result.  The routines are proved once for every
  access function that serves single bytes, then for \<open>mem_access()\<close>.
\<close>

type_synonym 's mem_access_fn =
  "'s \<Rightarrow> mem_cmd \<Rightarrow> md_addr_t \<Rightarrow> byte_t list \<Rightarrow> int \<Rightarrow> (md_fault_type \<times> byte_t list \<times> 's) option"

section \<open>Routines\<close>

text \<open>
  \<open>mem_strcpy()\<close>: \<open>strcpy_read\<close> and \<open>strcpy_write\<close> are its two loops, over what is left of
  the host string.
\<close>

fun strcpy_read :: "'s mem_access_fn \<Rightarrow> 's \<Rightarrow> md_addr_t \<Rightarrow> byte_t list \<Rightarrow>
    (md_fault_type \<times> byte_t list \<times> 's) option" where
  "strcpy_read mem_fn mem addr [] = do {
     (fault, c, mem1) \<leftarrow> mem_fn mem Read addr [0] 1;
     if fault \<noteq> md_fault_none then Some (fault, [], mem1) else None }"
| "strcpy_read mem_fn mem addr (x # s) = do {
     (fault, c, mem1) \<leftarrow> mem_fn mem Read addr [0] 1;
     if fault \<noteq> md_fault_none then Some (fault, x # s, mem1)
     else if hd c = 0 then Some (md_fault_none, 0 # s, mem1)
     else do {
       (fault1, s1, mem2) \<leftarrow> strcpy_read mem_fn mem1 (addr + 1) s;
       Some (fault1, hd c # s1, mem2) } }"

fun strcpy_write :: "'s mem_access_fn \<Rightarrow> 's \<Rightarrow> md_addr_t \<Rightarrow> byte_t list \<Rightarrow>
    (md_fault_type \<times> 's) option" where
  "strcpy_write mem_fn mem addr [] = None"
| "strcpy_write mem_fn mem addr (c # s) = do {
     (fault, _, mem1) \<leftarrow> mem_fn mem Write addr [c] 1;
     if fault \<noteq> md_fault_none then Some (fault, mem1)
     else if c = 0 then Some (md_fault_none, mem1)
     else strcpy_write mem_fn mem1 (addr + 1) s }"

definition mem_strcpy :: "'s mem_access_fn \<Rightarrow> 's \<Rightarrow> mem_cmd \<Rightarrow> md_addr_t \<Rightarrow> byte_t list \<Rightarrow>
    (md_fault_type \<times> byte_t list \<times> 's) option" where
  "mem_strcpy mem_fn mem cmd addr s =
     (case cmd of
        Read \<Rightarrow> strcpy_read mem_fn mem addr s
      | Write \<Rightarrow> do { (fault, mem1) \<leftarrow> strcpy_write mem_fn mem addr s; Some (fault, s, mem1) })"

text \<open>
  \<open>mem_bcopy()\<close> and \<open>mem_bcopy4()\<close>: pieces of \<open>k\<close> bytes, one call each; the buffer keeps
  what a read stored before a fault.
\<close>

fun copy_pieces :: "'s mem_access_fn \<Rightarrow> 's \<Rightarrow> mem_cmd \<Rightarrow> md_addr_t \<Rightarrow> byte_t list \<Rightarrow> nat \<Rightarrow> nat \<Rightarrow>
    (md_fault_type \<times> byte_t list \<times> 's) option" where
  "copy_pieces mem_fn mem cmd addr p k 0 = Some (md_fault_none, p, mem)"
| "copy_pieces mem_fn mem cmd addr p k (Suc n) =
     (if length p < k then None
      else do {
        (fault, p1, mem1) \<leftarrow> mem_fn mem cmd addr (take k p) (int k);
        if fault \<noteq> md_fault_none then Some (fault, p1 @ drop k p, mem1)
        else do {
          (fault1, p2, mem2) \<leftarrow> copy_pieces mem_fn mem1 cmd (addr + of_nat k) (drop k p) k n;
          Some (fault1, p1 @ p2, mem2) } })"

definition mem_bcopy :: "'s mem_access_fn \<Rightarrow> 's \<Rightarrow> mem_cmd \<Rightarrow> md_addr_t \<Rightarrow> byte_t list \<Rightarrow> int \<Rightarrow>
    (md_fault_type \<times> byte_t list \<times> 's) option" where
  "mem_bcopy mem_fn mem cmd addr vp nbytes = copy_pieces mem_fn mem cmd addr vp 1 (nat nbytes)"

definition mem_bcopy4 :: "'s mem_access_fn \<Rightarrow> 's \<Rightarrow> mem_cmd \<Rightarrow> md_addr_t \<Rightarrow> byte_t list \<Rightarrow> int \<Rightarrow>
    (md_fault_type \<times> byte_t list \<times> 's) option" where
  "mem_bcopy4 mem_fn mem cmd addr vp nbytes =
     (let words = drop_bit 2 nbytes in copy_pieces mem_fn mem cmd addr vp 4 (nat words))"

fun bzero_loop :: "'s mem_access_fn \<Rightarrow> 's \<Rightarrow> md_addr_t \<Rightarrow> nat \<Rightarrow> (md_fault_type \<times> 's) option" where
  "bzero_loop mem_fn mem addr 0 = Some (md_fault_none, mem)"
| "bzero_loop mem_fn mem addr (Suc n) = do {
     (fault, _, mem1) \<leftarrow> mem_fn mem Write addr [0] 1;
     if fault \<noteq> md_fault_none then Some (fault, mem1)
     else bzero_loop mem_fn mem1 (addr + 1) n }"

definition mem_bzero :: "'s mem_access_fn \<Rightarrow> 's \<Rightarrow> md_addr_t \<Rightarrow> int \<Rightarrow> (md_fault_type \<times> 's) option" where
  "mem_bzero mem_fn mem addr nbytes = bzero_loop mem_fn mem addr (nat nbytes)"

text \<open>\<open>mem_dump()\<close>: the lines printed are pairs of an address and a word.\<close>

fun dump_loop :: "mem_t \<Rightarrow> md_addr_t \<Rightarrow> nat \<Rightarrow>
    (md_fault_type \<times> (md_addr_t \<times> word_t) list \<times> mem_t) option" where
  "dump_loop mem addr 0 = Some (md_fault_none, [], mem)"
| "dump_loop mem addr (Suc n) = do {
     (fault, data, mem1) \<leftarrow> mem_access mem Read addr [0, 0, 0, 0] 4;
     if fault \<noteq> md_fault_none then Some (fault, [], mem1)
     else do {
       (fault1, out, mem2) \<leftarrow> dump_loop mem1 (addr + 4) n;
       Some (fault1, (addr, word_of_bytes data) # out, mem2) } }"

definition mem_dump :: "mem_t \<Rightarrow> md_addr_t \<Rightarrow> int \<Rightarrow>
    (md_fault_type \<times> (md_addr_t \<times> word_t) list \<times> mem_t) option" where
  "mem_dump mem addr len = dump_loop mem (addr AND NOT 4) (nat ((len + 3) AND NOT 4))"

section \<open>The generic access function\<close>

lemma mem_access_read_spec:
  "mem_inv m \<Longrightarrow> \<exists>m'. mem_access_read m a n = Some (view_bytes (mem_view m) a n, m') \<and>
     mem_inv m' \<and> mem_view m' = mem_view m"
proof (induction n arbitrary: m a)
  case (Suc n)
  have "MEM_OFFSET a + 1 \<le> 4096" by (simp add: MEM_OFFSET_nat Suc_leI)
  from MEM_READ_spec [OF Suc.prems this] obtain m1 where
    m1: "MEM_READ m a 1 = Some (view_bytes (mem_view m) a 1, m1)" "mem_inv m1" "mem_view m1 = mem_view m"
    by (auto simp: mem_same_def)
  from Suc.IH [OF m1(2), of "a + 1"] m1 show ?case by (auto simp: MEM_READ_BYTE_def)
qed simp

lemma mem_access_write_spec:
  "mem_inv m \<Longrightarrow> \<exists>m'. mem_access_write m a bs = Some m' \<and> mem_inv m' \<and>
     mem_view m' = view_store (mem_view m) a bs"
proof (induction bs arbitrary: m a)
  case (Cons b bs)
  have "MEM_OFFSET a + length [b] \<le> 4096" by (simp add: MEM_OFFSET_nat Suc_leI)
  from MEM_WRITE_spec [OF Cons.prems this] obtain m1 where
    m1: "MEM_WRITE m a [b] = Some m1" "mem_inv m1" "mem_view m1 = (mem_view m)(a := b)"
    by auto
  from Cons.IH [OF m1(2), of "a + 1"] m1 show ?case by (auto simp: MEM_WRITE_BYTE_def fun_upd_def)
qed simp

text \<open>The sizes and addresses \<open>mem_access()\<close> accepts.\<close>

definition natural_access :: "md_addr_t \<Rightarrow> int \<Rightarrow> bool" where
  "natural_access addr nbytes \<longleftrightarrow>
     nbytes AND (nbytes - 1) = 0 \<and> nbytes \<le> 4096 \<and> addr AND word_of_int (nbytes - 1) = 0"

lemma mem_access_read_ok:
  assumes "mem_inv m" "natural_access a n" "nat n \<le> length vp"
  shows "\<exists>m'. mem_access m Read a vp n =
      Some (md_fault_none, view_bytes (mem_view m) a (nat n) @ drop (nat n) vp, m') \<and>
    mem_inv m' \<and> mem_view m' = mem_view m"
  using assms mem_access_read_spec [OF assms(1), of a "nat n"]
  by (auto simp: mem_access_def natural_access_def MD_PAGE_SIZE_def)

lemma mem_access_write_ok:
  assumes "mem_inv m" "natural_access a n" "nat n \<le> length vp"
  shows "\<exists>m'. mem_access m Write a vp n = Some (md_fault_none, vp, m') \<and>
    mem_inv m' \<and> mem_view m' = view_store (mem_view m) a (take (nat n) vp)"
  using assms mem_access_write_spec [OF assms(1), of a "take (nat n) vp"]
  by (auto simp: mem_access_def natural_access_def MD_PAGE_SIZE_def)

lemma mem_access_fault:
  assumes "\<not> natural_access a n"
  shows "mem_access m cmd a vp n =
    Some (if n AND (n - 1) \<noteq> 0 \<or> n > 4096 then md_fault_access else md_fault_alignment, vp, m)"
  using assms by (auto simp: mem_access_def natural_access_def MD_PAGE_SIZE_def)

lemma natural_access_1 [simp]: "natural_access a 1"
  by (simp add: natural_access_def)

lemma natural_access_4 [simp]: "natural_access a 4 = aligned4 a"
  by (simp add: natural_access_def aligned4_def)

section \<open>The copying routines over any byte accessor\<close>

locale byte_accessor =
  fixes minv :: "'s \<Rightarrow> bool" and mview :: "'s \<Rightarrow> view" and mem_fn :: "'s mem_access_fn"
  assumes read_law: "minv s \<Longrightarrow> \<exists>s'. mem_fn s Read a [b] 1 = Some (md_fault_none, [mview s a], s') \<and>
      minv s' \<and> mview s' = mview s"
    and write_law: "minv s \<Longrightarrow> \<exists>s'. mem_fn s Write a [b] 1 = Some (md_fault_none, [b], s') \<and>
      minv s' \<and> mview s' = (mview s)(a := b)"

context byte_accessor
begin

lemma strcpy_write_spec:
  "minv s \<Longrightarrow> 0 \<notin> set bs \<Longrightarrow> \<exists>s'. strcpy_write mem_fn s a (bs @ 0 # rest) = Some (md_fault_none, s') \<and>
     minv s' \<and> mview s' = view_store (mview s) a (bs @ [0])"
proof (induction bs arbitrary: s a)
  case Nil
  then show ?case using write_law [of s a 0] by (auto simp: fun_upd_def)
next
  case (Cons b bs)
  obtain s1 where s1: "mem_fn s Write a [b] 1 = Some (md_fault_none, [b], s1)" "minv s1"
      "mview s1 = (mview s)(a := b)" using write_law [OF Cons.prems(1)] by blast
  with Cons.IH [OF s1(2), of "a + 1"] Cons.prems(2) show ?case by (auto simp: fun_upd_def)
qed

lemma strcpy_read_spec:
  "minv s \<Longrightarrow> \<forall>k < n. mview s (a + of_nat k) \<noteq> 0 \<Longrightarrow> mview s (a + of_nat n) = 0 \<Longrightarrow>
   n < length buf \<Longrightarrow> \<exists>s'. strcpy_read mem_fn s a buf =
     Some (md_fault_none, view_bytes (mview s) a (Suc n) @ drop (Suc n) buf, s') \<and>
     minv s' \<and> mview s' = mview s"
proof (induction n arbitrary: s a buf)
  case 0
  then obtain x xs where buf: "buf = x # xs" by (cases buf) auto
  obtain s1 where "mem_fn s Read a [0] 1 = Some (md_fault_none, [mview s a], s1)" "minv s1"
      "mview s1 = mview s" using read_law [OF 0(1)] by blast
  with 0 buf show ?case by simp
next
  case (Suc n)
  then obtain x xs where buf: "buf = x # xs" by (cases buf) auto
  obtain s1 where s1: "mem_fn s Read a [0] 1 = Some (md_fault_none, [mview s a], s1)" "minv s1"
      "mview s1 = mview s" using read_law [OF Suc.prems(1)] by blast
  have "mview s (a + of_nat 0) \<noteq> 0" using Suc.prems(2) by blast
  then have "mview s a \<noteq> 0" by simp
  moreover have "\<forall>k < n. mview s1 (a + 1 + of_nat k) \<noteq> 0"
  proof (intro allI impI)
    fix k assume "k < n"
    then have "mview s (a + of_nat (Suc k)) \<noteq> 0" using Suc.prems(2) by blast
    then show "mview s1 (a + 1 + of_nat k) \<noteq> 0" by (simp add: s1(3) add.assoc)
  qed
  moreover have "mview s1 (a + 1 + of_nat n) = 0"
    using Suc.prems(3) s1(3) by (simp add: add.assoc)
  moreover have "n < length xs" using Suc.prems(4) buf by simp
  ultimately obtain s2 where "strcpy_read mem_fn s1 (a + 1) xs =
      Some (md_fault_none, view_bytes (mview s) (a + 1) (Suc n) @ drop (Suc n) xs, s2)"
      "minv s2" "mview s2 = mview s"
    using Suc.IH [OF s1(2), of "a + 1" xs] s1(3) by auto
  with s1 buf \<open>mview s a \<noteq> 0\<close> show ?case by simp
qed

text \<open>A string copied into memory and back into a large enough buffer is the string.\<close>

lemma strcpy_roundtrip:
  assumes inv: "minv s" and nz: "0 \<notin> set bs" and len: "length bs < length buf"
    and small: "length buf < 4294967296"
  shows "\<exists>s1 s2. mem_strcpy mem_fn s Write a (bs @ [0]) = Some (md_fault_none, bs @ [0], s1) \<and>
    mem_strcpy mem_fn s1 Read a buf = Some (md_fault_none, bs @ 0 # drop (Suc (length bs)) buf, s2) \<and>
    minv s2 \<and> mview s2 = view_store (mview s) a (bs @ [0])"
proof -
  obtain s1 where s1: "strcpy_write mem_fn s a (bs @ [0]) = Some (md_fault_none, s1)" "minv s1"
      "mview s1 = view_store (mview s) a (bs @ [0])"
    using strcpy_write_spec [OF inv nz, of a "[]"] by auto
  have bytes: "view_bytes (mview s1) a (Suc (length bs)) = bs @ [0]"
    using view_bytes_store_same [of "bs @ [0]" "mview s" a] len small s1(3) by simp
  then have nth: "mview s1 (a + of_nat k) = (bs @ [0]) ! k" if "k \<le> length bs" for k
    using view_bytes_nth [of k "Suc (length bs)" "mview s1" a] that by simp
  have "\<forall>k < length bs. mview s1 (a + of_nat k) \<noteq> 0" and "mview s1 (a + of_nat (length bs)) = 0"
    using nth nz by (auto simp: nth_append) (metis nth_mem)
  from strcpy_read_spec [OF s1(2) this len] obtain s2 where
    "strcpy_read mem_fn s1 a buf = Some (md_fault_none, bs @ 0 # drop (Suc (length bs)) buf, s2)"
    "minv s2" "mview s2 = mview s1" using bytes by auto
  with s1 show ?thesis by (auto simp: mem_strcpy_def)
qed

lemma bcopy_read_spec:
  "minv s \<Longrightarrow> n \<le> length p \<Longrightarrow> \<exists>s'. copy_pieces mem_fn s Read a p 1 n =
     Some (md_fault_none, view_bytes (mview s) a n @ drop n p, s') \<and> minv s' \<and> mview s' = mview s"
proof (induction n arbitrary: s a p)
  case (Suc n)
  then obtain x xs where p: "p = x # xs" by (cases p) auto
  obtain s1 where s1: "mem_fn s Read a [x] 1 = Some (md_fault_none, [mview s a], s1)" "minv s1"
      "mview s1 = mview s" using read_law [OF Suc.prems(1)] by blast
  with Suc.IH [OF s1(2), of xs "a + 1"] Suc.prems(2) p show ?case by auto
qed simp

lemma bcopy_write_spec:
  "minv s \<Longrightarrow> n \<le> length p \<Longrightarrow> \<exists>s'. copy_pieces mem_fn s Write a p 1 n =
     Some (md_fault_none, p, s') \<and> minv s' \<and> mview s' = view_store (mview s) a (take n p)"
proof (induction n arbitrary: s a p)
  case (Suc n)
  then obtain x xs where p: "p = x # xs" by (cases p) auto
  obtain s1 where s1: "mem_fn s Write a [x] 1 = Some (md_fault_none, [x], s1)" "minv s1"
      "mview s1 = (mview s)(a := x)" using write_law [OF Suc.prems(1)] by blast
  with Suc.IH [OF s1(2), of xs "a + 1"] Suc.prems(2) p show ?case by (auto simp: fun_upd_def)
qed simp

lemma bcopy_roundtrip:
  assumes inv: "minv s" and n: "nat n \<le> length p" "nat n \<le> length buf" "nat n < 4294967296"
  shows "\<exists>s1 s2. mem_bcopy mem_fn s Write a p n = Some (md_fault_none, p, s1) \<and>
    mem_bcopy mem_fn s1 Read a buf n =
      Some (md_fault_none, take (nat n) p @ drop (nat n) buf, s2) \<and>
    minv s2 \<and> mview s2 = view_store (mview s) a (take (nat n) p)"
proof -
  obtain s1 where s1: "mem_bcopy mem_fn s Write a p n = Some (md_fault_none, p, s1)" "minv s1"
      "mview s1 = view_store (mview s) a (take (nat n) p)"
    using bcopy_write_spec [OF inv n(1), of a] by (auto simp: mem_bcopy_def)
  have "view_bytes (mview s1) a (nat n) = take (nat n) p"
    using view_bytes_store_same [of "take (nat n) p" "mview s" a] n s1(3) by (simp add: min_absorb2)
  with bcopy_read_spec [OF s1(2) n(2), of a] s1 show ?thesis by (auto simp: mem_bcopy_def)
qed

lemma bzero_spec:
  "minv s \<Longrightarrow> \<exists>s'. bzero_loop mem_fn s a n = Some (md_fault_none, s') \<and> minv s' \<and>
     mview s' = view_store (mview s) a (replicate n 0)"
proof (induction n arbitrary: s a)
  case (Suc n)
  obtain s1 where s1: "mem_fn s Write a [0] 1 = Some (md_fault_none, [0], s1)" "minv s1"
      "mview s1 = (mview s)(a := 0)" using write_law [OF Suc.prems] by blast
  with Suc.IH [OF s1(2), of "a + 1"] show ?case by (auto simp: fun_upd_def)
qed simp

end

interpretation access: byte_accessor mem_inv mem_view mem_access
proof
  fix s a b
  assume inv: "mem_inv s"
  show "\<exists>s'. mem_access s Read a [b] 1 = Some (md_fault_none, [mem_view s a], s') \<and> mem_inv s' \<and>
      mem_view s' = mem_view s"
    using mem_access_read_ok [OF inv natural_access_1, of "[b]" a] by simp
  show "\<exists>s'. mem_access s Write a [b] 1 = Some (md_fault_none, [b], s') \<and> mem_inv s' \<and>
      mem_view s' = (mem_view s)(a := b)"
    using mem_access_write_ok [OF inv natural_access_1, of "[b]" a] by simp
qed

text \<open>Copying by words: the bytes of the view for word-aligned data.\<close>

lemma bcopy4_read_spec:
  "mem_inv m \<Longrightarrow> aligned4 a \<Longrightarrow> 4 * n \<le> length p \<Longrightarrow>
   \<exists>m'. copy_pieces mem_access m Read a p 4 n =
     Some (md_fault_none, view_bytes (mem_view m) a (4 * n) @ drop (4 * n) p, m') \<and>
     mem_inv m' \<and> mem_view m' = mem_view m"
proof (induction n arbitrary: m a p)
  case (Suc n)
  obtain m1 where m1: "mem_access m Read a (take 4 p) 4 =
      Some (md_fault_none, view_bytes (mem_view m) a 4, m1)" "mem_inv m1" "mem_view m1 = mem_view m"
    using mem_access_read_ok [OF Suc.prems(1), of a 4 "take 4 p"] Suc.prems by auto
  have "aligned4 (a + 4)"
    using Suc.prems(2) by (simp add: aligned4_step)
  then obtain m2 where "copy_pieces mem_access m1 Read (a + 4) (drop 4 p) 4 n =
      Some (md_fault_none, view_bytes (mem_view m) (a + 4) (4 * n) @ drop (4 * n) (drop 4 p), m2)"
      "mem_inv m2" "mem_view m2 = mem_view m"
    using Suc.IH [OF m1(2), of "a + 4" "drop 4 p"] Suc.prems(3) m1(3) by (auto simp: le_diff_conv2)
  moreover have "view_bytes (mem_view m) a (4 * Suc n) =
      view_bytes (mem_view m) a 4 @ view_bytes (mem_view m) (a + 4) (4 * n)"
    by (simp add: numeral_eq_Suc add.assoc)
  ultimately show ?case using m1 Suc.prems(3) by (simp add: add.commute)
qed simp

lemma dump_loop_spec:
  "mem_inv m \<Longrightarrow> aligned4 a \<Longrightarrow>
   \<exists>m'. dump_loop m a n = Some (md_fault_none,
     map (\<lambda>k. (a + of_nat (4 * k), view_word (mem_view m) (a + of_nat (4 * k)))) [0..<n], m') \<and>
     mem_inv m' \<and> mem_view m' = mem_view m"
proof (induction n arbitrary: m a)
  case (Suc n)
  obtain m1 where m1: "mem_access m Read a [0, 0, 0, 0] 4 =
      Some (md_fault_none, view_bytes (mem_view m) a 4, m1)" "mem_inv m1" "mem_view m1 = mem_view m"
    using mem_access_read_ok [OF Suc.prems(1), of a 4 "[0, 0, 0, 0]"] Suc.prems by auto
  have "aligned4 (a + 4)"
    using Suc.prems(2) by (simp add: aligned4_step)
  from Suc.IH [OF m1(2) this] m1 show ?case
    by (auto simp: map_upt_Suc view_word_bytes add.assoc simp del: upt_Suc)
qed simp

section \<open>Properties\<close>

text \<open>
  C28: \<open>mem_access()\<close> serves exactly the naturally aligned accesses whose size is a power of
  two of at most a page: a read returns the bytes of the view and a write stores the buffer
  there.  Any other access is reported as an access or alignment fault and changes nothing.
\<close>

theorem mem_access_correct:
  assumes "mem_inv m" "nat n \<le> length vp"
  shows "\<exists>fault vp' m'. mem_access m cmd a vp n = Some (fault, vp', m') \<and> mem_inv m' \<and>
    (if natural_access a n
     then fault = md_fault_none \<and>
       (case cmd of
          Read \<Rightarrow> vp' = view_bytes (mem_view m) a (nat n) @ drop (nat n) vp \<and> mem_view m' = mem_view m
        | Write \<Rightarrow> vp' = vp \<and> mem_view m' = view_store (mem_view m) a (take (nat n) vp))
     else fault = (if n AND (n - 1) \<noteq> 0 \<or> n > 4096 then md_fault_access else md_fault_alignment) \<and>
       vp' = vp \<and> m' = m)"
proof (cases "natural_access a n")
  case True
  then show ?thesis
    using mem_access_read_ok [OF assms(1) True assms(2)] mem_access_write_ok [OF assms(1) True assms(2)]
    by (cases cmd) fastforce+
next
  case False
  with mem_access_fault [OF False, of m cmd vp] assms(1) show ?thesis by simp
qed

lemma mem_access_correct_witness:
  "\<exists>m'. mem_access (mem_create ''mem'') Write 0x1002 [1, 2] 2 = Some (md_fault_none, [1, 2], m') \<and>
    mem_view m' 0x1003 = 2"
  using mem_access_correct [OF mem_inv_empty(2), of 2 "[1, 2]" "''mem''" Write "0x1002"]
  by (auto simp: natural_access_def)

text \<open>
  C29: a string copied into simulated memory with \<open>mem_strcpy()\<close> comes back unchanged into
  any buffer with room for it and its terminator, and only its bytes change in memory.
\<close>

theorem mem_strcpy_roundtrip:
  assumes "mem_inv m" "0 \<notin> set bs" "length bs < length buf" "length buf < 4294967296"
  shows "\<exists>m1 m2. mem_strcpy mem_access m Write a (bs @ [0]) = Some (md_fault_none, bs @ [0], m1) \<and>
    mem_strcpy mem_access m1 Read a buf =
      Some (md_fault_none, bs @ 0 # drop (Suc (length bs)) buf, m2) \<and>
    mem_inv m2 \<and> mem_view m2 = view_store (mem_view m) a (bs @ [0])"
  using assms by (rule access.strcpy_roundtrip)

lemma mem_strcpy_roundtrip_witness:
  "\<exists>m1 m2. mem_strcpy mem_access (mem_create ''mem'') Write 0xffffffff [72, 105, 0] =
      Some (md_fault_none, [72, 105, 0], m1) \<and>
    mem_strcpy mem_access m1 Read 0xffffffff [1, 2, 3, 4] = Some (md_fault_none, [72, 105, 0, 4], m2)"
  using mem_strcpy_roundtrip [OF mem_inv_empty(2), of "[72, 105]" "[1, 2, 3, 4]" "''mem''" "0xffffffff"] by auto

text \<open>
  C30: a block copied into simulated memory with \<open>mem_bcopy()\<close> is read back by
  \<open>mem_bcopy()\<close>, and \<open>mem_bzero()\<close> over the same range then leaves zeros there.
\<close>

theorem mem_bcopy_bzero:
  assumes "mem_inv m" "nat n \<le> length p" "nat n \<le> length buf" "nat n < 4294967296"
  shows "\<exists>m1 m2 m3. mem_bcopy mem_access m Write a p n = Some (md_fault_none, p, m1) \<and>
    mem_bcopy mem_access m1 Read a buf n =
      Some (md_fault_none, take (nat n) p @ drop (nat n) buf, m2) \<and>
    mem_view m2 = view_store (mem_view m) a (take (nat n) p) \<and>
    mem_bzero mem_access m2 a n = Some (md_fault_none, m3) \<and> mem_inv m3 \<and>
    mem_view m3 = view_store (mem_view m2) a (replicate (nat n) 0)"
proof -
  obtain m1 m2 where m: "mem_bcopy mem_access m Write a p n = Some (md_fault_none, p, m1)"
      "mem_bcopy mem_access m1 Read a buf n = Some (md_fault_none, take (nat n) p @ drop (nat n) buf, m2)"
      "mem_inv m2" "mem_view m2 = view_store (mem_view m) a (take (nat n) p)"
    using access.bcopy_roundtrip [OF assms] by blast
  with access.bzero_spec [OF m(3), of a "nat n"] show ?thesis by (auto simp: mem_bzero_def)
qed

lemma mem_bcopy_bzero_witness:
  "\<exists>m1 m2. mem_bcopy mem_access (mem_create ''mem'') Write 10 [1, 2, 3] 3 = Some (md_fault_none, [1, 2, 3], m1) \<and>
    mem_bcopy mem_access m1 Read 10 [9, 9, 9, 9] 3 = Some (md_fault_none, [1, 2, 3, 9], m2)"
  using mem_bcopy_bzero [OF mem_inv_empty(2), of 3 "[1, 2, 3]" "[9, 9, 9, 9]" "''mem''" 10] by auto

text \<open>
  \<open>mem_dump()\<close> from an address that is a multiple of 8 prints a word per byte of the
  rounded length; from an address that is not a multiple of 4 it prints nothing and
  reports the alignment fault, since its mask clears bit 2 only.
\<close>

theorem mem_dump_lines:
  assumes "mem_inv m"
  shows "(aligned4 a \<longrightarrow> (\<exists>m'. mem_dump m a len = Some (md_fault_none,
       map (\<lambda>k. ((a AND NOT 4) + of_nat (4 * k), view_word (mem_view m) ((a AND NOT 4) + of_nat (4 * k))))
         [0 ..< nat ((len + 3) AND NOT 4)], m'))) \<and>
    (\<not> aligned4 a \<and> (len + 3) AND NOT 4 > 0 \<longrightarrow>
       mem_dump m a len = Some (md_fault_alignment, [], m))"
proof (intro conjI impI)
  have mask: "(a AND NOT 4) AND 3 = a AND 3"
  proof -
    have "NOT 4 AND 3 = (3 :: md_addr_t)" by simp
    then show ?thesis by (simp only: and.assoc)
  qed
  show "\<exists>m'. mem_dump m a len = Some (md_fault_none,
       map (\<lambda>k. ((a AND NOT 4) + of_nat (4 * k), view_word (mem_view m) ((a AND NOT 4) + of_nat (4 * k))))
         [0 ..< nat ((len + 3) AND NOT 4)], m')" if "aligned4 a"
  proof -
    have "aligned4 (a AND NOT 4)" using that mask by (simp add: aligned4_def)
    from dump_loop_spec [OF assms this] show ?thesis unfolding mem_dump_def by blast
  qed
  show "mem_dump m a len = Some (md_fault_alignment, [], m)"
    if n: "\<not> aligned4 a \<and> (len + 3) AND NOT 4 > 0"
  proof -
    obtain k where k: "nat ((len + 3) AND NOT 4) = Suc k" using n by (cases "nat ((len + 3) AND NOT 4)") auto
    have "\<not> natural_access (a AND NOT 4) 4" using n mask by (simp add: aligned4_def)
    from mem_access_fault [OF this, of m Read "[0, 0, 0, 0]"]
    show ?thesis unfolding mem_dump_def k by simp
  qed
qed

lemma mem_dump_lines_witness:
  "mem_dump (mem_create ''mem'') 2 8 = Some (md_fault_alignment, [], mem_create ''mem'')"
  using mem_dump_lines [OF mem_inv_empty(2), of 2 "''mem''" 8] by (simp add: aligned4_def)

end
