(* ===== verification/Multiplier.thy ===== *)
theory Multiplier
  imports Prelude
begin

text \<open>
  The shift-and-add multiplication of \<open>MULT_IMPL\<close> and \<open>MULTU_IMPL\<close> in machine.def, which
  the execute stages of the pipelines repeat, and \<open>extractl()\<close> of misc.c.  The reference is
  the 64-bit product.
\<close>

section \<open>Operations\<close>

definition extractl :: "word_t \<Rightarrow> nat \<Rightarrow> nat \<Rightarrow> word_t" where
  "extractl w pos num = drop_bit (pos + 1 - num) w AND NOT (push_bit num (NOT 0))"

text \<open>
  One pass of the loop body, for bit \<open>n\<close> of the multiplier: shift \<open>HI\<close>:\<open>LO\<close> left, then add
  the multiplicand with the carry found by the unsigned comparison.
\<close>

definition mult_step :: "word_t \<Rightarrow> word_t \<Rightarrow> nat \<Rightarrow> word_t \<times> word_t \<Rightarrow> word_t \<times> word_t" where
  "mult_step multiplicand multiplier n hl =
     (let (hi, lo) = hl;
          hi = push_bit 1 hi;
          hi = hi + extractl lo 31 1;
          lo = push_bit 1 lo
      in if extractl multiplier n 1 = 1 then
           (let hi = (if 0xffffffff - lo < multiplicand then hi + 1 else hi)
            in (hi, lo + multiplicand))
         else (hi, lo))"

fun mult_loop :: "word_t \<Rightarrow> word_t \<Rightarrow> nat \<Rightarrow> word_t \<times> word_t \<Rightarrow> word_t \<times> word_t" where
  "mult_loop multiplicand multiplier 0 hl = hl"
| "mult_loop multiplicand multiplier (Suc n) hl =
     mult_loop multiplicand multiplier n (mult_step multiplicand multiplier n hl)"

definition multu :: "word_t \<Rightarrow> word_t \<Rightarrow> word_t \<times> word_t" where
  "multu multiplicand multiplier =
     mult_loop multiplicand multiplier 31
       (0, if multiplier AND 0x80000000 \<noteq> 0 then multiplicand else 0)"

definition mult_signed :: "word_t \<Rightarrow> word_t \<Rightarrow> word_t \<times> word_t" where
  "mult_signed op1 op2 =
     (let sign1 = (op1 AND 0x80000000 \<noteq> 0);
          op1 = (if sign1 then NOT op1 + 1 else op1);
          sign2 = (op2 AND 0x80000000 \<noteq> 0);
          op2 = (if sign2 then NOT op2 + 1 else op2);
          (hi, lo) = mult_loop op2 op1 31 (0, if op1 AND 0x80000000 \<noteq> 0 then op2 else 0)
      in if sign1 \<noteq> sign2 then
           (let lo = NOT lo; hi = NOT hi;
                hi = (if lo = 0xffffffff then hi + 1 else hi)
            in (hi, lo + 1))
         else (hi, lo))"

section \<open>The product\<close>

definition hilo :: "word_t \<times> word_t \<Rightarrow> nat" where
  "hilo hl = unat (fst hl) * 4294967296 + unat (snd hl)"

lemma extractl_1: "extractl w n 1 = of_bool (bit w n)"
proof (rule bit_word_eqI)
  fix k
  have "NOT (push_bit 1 (NOT 0)) = (1 :: word_t)" by simp
  then show "bit (extractl w n 1) k = bit (of_bool (bit w n) :: word_t) k"
    by (cases "k = 0") (auto simp: extractl_def bit_simps)
qed

lemma bit_word_odd: "bit (w :: word_t) n = odd (unat w div 2 ^ n)"
proof -
  have "bit w n = bit (unat w) n"
    by (auto simp: bit_unsigned_iff dest: bit_imp_le_length)
  then show ?thesis by (simp only: bit_iff_odd [of "unat w"])
qed

lemma unat_bit_step: "unat w div 2 ^ n = 2 * (unat w div 2 ^ Suc n) + of_bool (bit (w :: word_t) n)"
proof -
  have "unat w div 2 ^ Suc n = unat w div 2 ^ n div 2"
    by (simp only: power_Suc2 div_mult2_eq)
  then show ?thesis
    by (cases "odd (unat w div 2 ^ n)") (auto simp: bit_word_odd elim!: oddE evenE)
qed

lemma unat_shl1: "unat (push_bit 1 (w :: word_t)) + 4294967296 * of_bool (bit w 31) = 2 * unat w"
proof -
  have u: "unat (push_bit 1 w) = 2 * unat w mod 4294967296"
    by (simp add: push_bit_eq_mult unat_word_ariths mult.commute)
  have lt: "unat w < 4294967296" using unsigned_less [of w, where ?'a = nat] by simp
  have b: "bit w 31 = odd (unat w div 2147483648)" by (simp add: bit_word_odd)
  show ?thesis
  proof (cases "unat w < 2147483648")
    case True
    then show ?thesis using u b by simp
  next
    case False
    then have "unat w div 2147483648 = 1" using lt by (intro div_nat_eqI) auto
    moreover have "2 * unat w mod 4294967296 = 2 * unat w - 4294967296"
      using False lt by (simp add: mod_if [of "2 * unat w"])
    ultimately show ?thesis using u b False by simp
  qed
qed

lemma unat_add_over:
  "4294967296 \<le> unat x + unat y \<Longrightarrow> unat (x + y :: word_t) = unat x + unat y - 4294967296"
  using unsigned_less [of x, where ?'a = nat] unsigned_less [of y, where ?'a = nat]
  by (simp add: unat_word_ariths mod_if)

lemma unat_add_under:
  "unat x + unat y < 4294967296 \<Longrightarrow> unat (x + y :: word_t) = unat x + unat y"
  by (simp add: unat_word_ariths)

lemma mult_step_hilo:
  assumes "2 * hilo hl + of_bool (bit q n) * unat m < 18446744073709551616"
  shows "hilo (mult_step m q n hl) = 2 * hilo hl + of_bool (bit q n) * unat m"
proof -
  obtain hi lo where hl: "hl = (hi, lo)" by (cases hl)
  let ?t = "of_bool (bit lo 31) :: nat"
  let ?hi = "push_bit 1 hi + of_bool (bit lo 31)" and ?lo = "push_bit 1 lo"
  have lt: "unat m < 4294967296" "unat lo < 4294967296" "unat ?lo < 4294967296" "unat ?hi < 4294967296"
    using unsigned_less [of m, where ?'a = nat] unsigned_less [of lo, where ?'a = nat]
      unsigned_less [of ?lo, where ?'a = nat] unsigned_less [of ?hi, where ?'a = nat] by simp_all
  have h31: "unat hi < 2147483648"
    using assms by (simp add: hl hilo_def)
  then have nb: "\<not> bit hi 31" by (simp add: bit_word_odd)
  then have sh: "unat (push_bit 1 hi) = 2 * unat hi" using unat_shl1 [of hi] by simp
  have hi1: "unat ?hi = 2 * unat hi + ?t"
    using h31 sh by (simp add: unat_word_ariths)
  have lo1: "unat ?lo + 4294967296 * ?t = 2 * unat lo" by (rule unat_shl1)
  have v2: "unat ?hi * 4294967296 + unat ?lo = 2 * hilo hl"
    using hi1 lo1 by (simp add: hl hilo_def algebra_simps)
  show ?thesis
  proof (cases "bit q n")
    case False
    then show ?thesis using v2 by (simp add: mult_step_def hl extractl_1 [simplified] hilo_def Let_def)
  next
    case True
    have tot: "unat ?hi * 4294967296 + unat ?lo + unat m < 18446744073709551616"
      using assms v2 True by simp
    have sub: "unat (0xffffffff - ?lo) = 4294967295 - unat ?lo"
    proof -
      have "?lo \<le> 0xffffffff" using lt(3) by (simp add: word_le_nat_alt)
      then show ?thesis by (simp add: unat_sub)
    qed
    show ?thesis
    proof (cases "0xffffffff - ?lo < m")
      case c: True
      then have ge: "unat ?lo + unat m \<ge> 4294967296" using sub unfolding word_less_nat_alt by linarith
      then have "unat (?lo + m) = unat ?lo + unat m - 4294967296" by (rule unat_add_over)
      moreover have "unat (?hi + 1) = unat ?hi + unat (1 :: word_t)"
        by (rule unat_add_under) (use tot ge in simp)
      ultimately show ?thesis
        using v2 True c ge by (simp add: mult_step_def hl extractl_1 [simplified] hilo_def Let_def)
    next
      case c: False
      then have le: "unat ?lo + unat m < 4294967296" using sub lt unfolding word_less_nat_alt by linarith
      then have "unat (?lo + m) = unat ?lo + unat m" by (rule unat_add_under)
      then show ?thesis
        using v2 True c by (simp add: mult_step_def hl extractl_1 [simplified] hilo_def Let_def)
    qed
  qed
qed

lemma mult_loop_hilo:
  "n \<le> 32 \<Longrightarrow> hilo hl = unat m * (unat q div 2 ^ n) \<Longrightarrow> hilo (mult_loop m q n hl) = unat m * unat q"
proof (induction n arbitrary: hl)
  case (Suc n)
  have "unat m < 4294967296" "unat q < 4294967296"
    using unsigned_less [of m, where ?'a = nat] unsigned_less [of q, where ?'a = nat] by simp_all
  then have "unat q div 2 ^ n < 4294967296" using div_le_dividend [of "unat q" "2 ^ n"] by linarith
  with \<open>unat m < 4294967296\<close> have "unat m * (unat q div 2 ^ n) < 4294967296 * 4294967296"
    by (intro mult_strict_mono) auto
  moreover have e: "2 * hilo hl + of_bool (bit q n) * unat m = unat m * (unat q div 2 ^ n)"
    using Suc.prems(2) unat_bit_step [of q n] by (simp add: algebra_simps)
  ultimately have "hilo (mult_step m q n hl) = unat m * (unat q div 2 ^ n)"
    using mult_step_hilo [of hl q n m] by simp
  then show ?case using Suc.IH Suc.prems(1) by simp
qed simp

lemma bit_sign_word: "bit (0x80000000 :: word_t) k \<longleftrightarrow> k = 31"
proof -
  have h: "(0x80000000 :: word_t) = push_bit 31 1" by simp
  show ?thesis unfolding h bit_push_bit_iff bit_1_iff by (auto simp: possible_bit_def)
qed

lemma xor_zero_iff: "x XOR u = 0 \<longleftrightarrow> x = (u :: word_t)"
  by (metis xor.assoc xor.left_neutral xor.right_neutral xor_self_eq)

lemma and_sign_bit: "(q :: word_t) AND 0x80000000 \<noteq> 0 \<longleftrightarrow> bit q 31"
proof -
  have "(0x80000000 :: word_t) = push_bit 31 1" by simp
  then show ?thesis by (metis and_exp_eq_0_iff_not_bit push_bit_of_1)
qed

lemma mult_loop_31:
  "hilo (mult_loop m q 31 (0, if q AND 0x80000000 \<noteq> 0 then m else 0)) = unat m * unat q"
proof (rule mult_loop_hilo)
  have "unat q div 2 ^ 31 = of_bool (bit q 31)"
  proof -
    have "unat q < 4294967296" using unsigned_less [of q, where ?'a = nat] by simp
    then have "unat q div 2 ^ 32 = 0" by simp
    then show ?thesis using unat_bit_step [of q 31] by simp
  qed
  then show "hilo (0, if q AND 0x80000000 \<noteq> 0 then m else 0) = unat m * (unat q div 2 ^ 31)"
    unfolding and_sign_bit by (simp add: hilo_def)
qed simp

text \<open>Negating the 64-bit result.\<close>

lemma sint_sign: "sint (x :: word_t) = int (unat x) - 4294967296 * of_bool (bit x 31)"
proof -
  have "sint x = signed_take_bit 31 (uint x)" by (simp add: sint_uint)
  also have "\<dots> = take_bit 32 (uint x) - 2 ^ 32 * of_bool (bit (uint x) 31)"
    by (simp add: signed_take_bit_eq_take_bit_minus)
  also have "bit (uint x) 31 = bit x 31" by (simp add: bit_unsigned_iff)
  also have "take_bit 32 (uint x) = uint x"
    using unsigned_less [of x, where ?'a = int] by (simp add: take_bit_int_eq_self)
  finally show ?thesis by simp
qed

lemma unat_not: "unat (NOT x :: word_t) = 4294967295 - unat x"
proof -
  have "NOT x = - 1 - x" by (simp add: not_eq_complement)
  moreover have "unat (- 1 - x) = unat (- 1 :: word_t) - unat x"
    by (rule unat_sub) simp
  ultimately show ?thesis by (simp add: unat_minus_one_32)
qed

definition magnitude :: "word_t \<Rightarrow> word_t" where
  "magnitude x = (if x AND 0x80000000 \<noteq> 0 then NOT x + 1 else x)"

lemma magnitude_abs: "uint (magnitude x) = \<bar>sint x\<bar>"
proof (cases "bit x 31")
  case True
  then have "x \<noteq> 0" by auto
  then have "unat (- x) = 4294967296 - unat x" by (rule unat_neg_small)
  then have "uint (- x) = 4294967296 - uint x"
    using unsigned_less [of x, where ?'a = nat] by (simp only: uint_nat of_nat_diff) simp
  moreover have "uint x < 4294967296" using unsigned_less [of x, where ?'a = int] by simp
  moreover have "NOT x + 1 = - x" by (simp add: minus_eq_not_plus_1)
  ultimately show ?thesis
    using True by (simp add: magnitude_def and_sign_bit sint_sign)
next
  case False
  then show ?thesis by (simp add: magnitude_def and_sign_bit sint_sign)
qed

lemma negate_hilo:
  "(int (hilo (if NOT lo = 0xffffffff then NOT hi + 1 else NOT hi, NOT lo + 1))) =
   (- int (hilo (hi, lo))) mod 18446744073709551616"
proof -
  have b: "unat lo < 4294967296" "unat hi < 4294967296"
    using unsigned_less [of lo, where ?'a = nat] unsigned_less [of hi, where ?'a = nat] by simp_all
  have n: "NOT lo + 1 = - lo" "NOT hi + 1 = - hi" by (simp_all add: minus_eq_not_plus_1)
  have "(0xffffffff :: word_t) = NOT 0" by simp
  then have allones: "NOT lo = 0xffffffff \<longleftrightarrow> lo = 0"
    by (metis bit.compl_eq_compl_iff)
  show ?thesis
  proof (cases "lo = 0 \<and> hi = 0")
    case True
    then have "(if NOT lo = 0xffffffff then NOT hi + 1 else NOT hi, NOT lo + 1) = (0, 0)"
      by (simp only: allones n) simp
    then show ?thesis using True by (simp add: hilo_def)
  next
    case False
    let ?r = "(if NOT lo = 0xffffffff then NOT hi + 1 else NOT hi, NOT lo + 1)"
    have r: "?r = (if lo = 0 then - hi else NOT hi, - lo)" by (simp only: allones n)
    have "hilo ?r + hilo (hi, lo) = 18446744073709551616"
    proof (cases "lo = 0")
      case lo: True
      with False have "unat (- hi) = 4294967296 - unat hi" by (intro unat_neg_small) simp
      then show ?thesis unfolding r using lo b by (simp add: hilo_def algebra_simps)
    next
      case lo: False
      then have "unat (- lo) = 4294967296 - unat lo" by (rule unat_neg_small)
      then show ?thesis unfolding r using lo b by (simp add: hilo_def unat_not algebra_simps)
    qed
    moreover have "0 < hilo (hi, lo)"
      using False by (auto simp: hilo_def unat_gt_0)
    ultimately have "int (hilo ?r) = 18446744073709551616 - int (hilo (hi, lo))"
      "0 < int (hilo (hi, lo))" "int (hilo (hi, lo)) \<le> 18446744073709551616" by linarith+
    then show ?thesis
      by (cases "int (hilo (hi, lo)) = 18446744073709551616") (simp_all add: zmod_zminus1_eq_if)
  qed
qed

section \<open>Properties\<close>

text \<open>
  C17: the unsigned multiplier's loop leaves the full 64-bit product of its operands in
  \<open>HI\<close> and \<open>LO\<close>.
\<close>

theorem multu_product: "hilo (multu a b) = unat a * unat b"
  unfolding multu_def by (rule mult_loop_31)

text \<open>
  C16: the signed multiplier, which works on magnitudes and negates the result, leaves the
  64-bit two's complement of the signed product in \<open>HI\<close> and \<open>LO\<close>, for every pair of
  operands.
\<close>

theorem mult_signed_product: "int (hilo (mult_signed a b)) = (sint a * sint b) mod 18446744073709551616"
proof -
  let ?a = "magnitude a" and ?b = "magnitude b"
  obtain hi lo where l: "mult_loop ?b ?a 31 (0, if ?a AND 0x80000000 \<noteq> 0 then ?b else 0) = (hi, lo)"
    by fastforce
  then have "hilo (hi, lo) = unat ?b * unat ?a" by (metis mult_loop_31)
  then have v: "int (hilo (hi, lo)) = \<bar>sint a\<bar> * \<bar>sint b\<bar>"
    by (simp add: magnitude_abs mult.commute)
  have neg: "x AND 0x80000000 \<noteq> 0 \<longleftrightarrow> sint x < 0" for x :: word_t
  proof -
    have "uint x < 4294967296" using unsigned_less [of x, where ?'a = int] by simp
    moreover have "\<not> bit x 31 \<Longrightarrow> 0 \<le> sint x" by (simp add: sint_sign)
    ultimately show ?thesis unfolding and_sign_bit by (cases "bit x 31") (auto simp: sint_sign)
  qed
  have run: "mult_signed a b =
      (if (sint a < 0) \<noteq> (sint b < 0)
       then (if NOT lo = 0xffffffff then NOT hi + 1 else NOT hi, NOT lo + 1) else (hi, lo))"
  proof -
    have "mult_signed a b =
        (case mult_loop ?b ?a 31 (0, if ?a AND 0x80000000 \<noteq> 0 then ?b else 0) of (hi, lo) \<Rightarrow>
          if (a AND 0x80000000 \<noteq> 0) \<noteq> (b AND 0x80000000 \<noteq> 0)
          then (if NOT lo = 0xffffffff then NOT hi + 1 else NOT hi, NOT lo + 1) else (hi, lo))"
      by (simp only: mult_signed_def magnitude_def Let_def)
    then show ?thesis unfolding l by (simp only: neg prod.case)
  qed
  have small: "\<bar>sint a\<bar> * \<bar>sint b\<bar> < 18446744073709551616"
  proof -
    have "hilo (hi, lo) < 18446744073709551616"
      using unsigned_less [of lo, where ?'a = nat] unsigned_less [of hi, where ?'a = nat]
      by (simp add: hilo_def)
    then show ?thesis using v by linarith
  qed
  show ?thesis
  proof (cases "(sint a < 0) = (sint b < 0)")
    case True
    then have "sint a * sint b = \<bar>sint a\<bar> * \<bar>sint b\<bar>"
      by (auto simp: abs_if abs_mult [symmetric] mult_nonneg_nonneg)
    then show ?thesis using True run v small by simp
  next
    case False
    then have "sint a * sint b = - (\<bar>sint a\<bar> * \<bar>sint b\<bar>)"
      by (auto simp: abs_if)
    then show ?thesis using False run v negate_hilo [of lo hi] by simp
  qed
qed

end
