(* ===== verification/Pisa.thy ===== *)
theory Pisa
  imports Memory
begin

text \<open>
  The PISA instruction set as machine.h and the \<open>DEFINST\<close> table of machine.def give it: the
  register file, the instruction fields, the flags and the table itself, whose position is
  the value of \<open>enum md_opcode\<close> (\<open>OP_NA\<close> is 0).  Project 1 adds \<open>ADDOK\<close> and \<open>BITCOUNT\<close>
  after \<open>SLTIU\<close>.  Of the alternatives for unaligned loads and stores the table has those
  of a little-endian host.
\<close>

section \<open>Registers\<close>

text \<open>
  \<open>struct regs_t\<close>.  A register index is not checked by the accessors: the arrays and
  fields lie one after the other in the structure, so an index past \<open>regs_R\<close> reaches the
  floating point registers, then \<open>hi\<close>, \<open>lo\<close>, \<open>fcc\<close>, \<open>regs_PC\<close> and \<open>regs_NPC\<close>; beyond
  is outside the structure.
\<close>

record regs_t =
  regs_R :: "nat \<Rightarrow> word_t"
  regs_F_l :: "nat \<Rightarrow> word_t"
  regs_hi :: word_t
  regs_lo :: word_t
  regs_fcc :: word_t
  regs_PC :: md_addr_t
  regs_NPC :: md_addr_t

definition MD_NUM_IREGS :: nat where "MD_NUM_IREGS = 32"
definition MD_NUM_FREGS :: nat where "MD_NUM_FREGS = 32"

definition regs_init :: regs_t where
  "regs_init = \<lparr>regs_R = (\<lambda>_. 0), regs_F_l = (\<lambda>_. 0), regs_hi = 0, regs_lo = 0, regs_fcc = 0,
     regs_PC = 0, regs_NPC = 0\<rparr>"

definition GPR :: "regs_t \<Rightarrow> word_t \<Rightarrow> word_t option" where
  "GPR regs r =
     (let n = unat r in
      if n < MD_NUM_IREGS then Some (regs_R regs n)
      else if n < MD_NUM_IREGS + MD_NUM_FREGS then Some (regs_F_l regs (n - MD_NUM_IREGS))
      else if n = 64 then Some (regs_hi regs) else if n = 65 then Some (regs_lo regs)
      else if n = 66 then Some (regs_fcc regs) else if n = 67 then Some (regs_PC regs)
      else if n = 68 then Some (regs_NPC regs) else None)"

definition SET_GPR :: "regs_t \<Rightarrow> word_t \<Rightarrow> word_t \<Rightarrow> regs_t option" where
  "SET_GPR regs r v =
     (let n = unat r in
      if n < MD_NUM_IREGS then Some (regs\<lparr>regs_R := (regs_R regs)(n := v)\<rparr>)
      else if n < MD_NUM_IREGS + MD_NUM_FREGS
      then Some (regs\<lparr>regs_F_l := (regs_F_l regs)(n - MD_NUM_IREGS := v)\<rparr>)
      else if n = 64 then Some (regs\<lparr>regs_hi := v\<rparr>) else if n = 65 then Some (regs\<lparr>regs_lo := v\<rparr>)
      else if n = 66 then Some (regs\<lparr>regs_fcc := v\<rparr>) else if n = 67 then Some (regs\<lparr>regs_PC := v\<rparr>)
      else if n = 68 then Some (regs\<lparr>regs_NPC := v\<rparr>) else None)"

lemma GPR_R [simp]: "unat r < 32 \<Longrightarrow> GPR regs r = Some (regs_R regs (unat r))"
  by (simp add: GPR_def MD_NUM_IREGS_def Let_def)

lemma SET_GPR_R [simp]:
  "unat r < 32 \<Longrightarrow> SET_GPR regs r v = Some (regs\<lparr>regs_R := (regs_R regs)(unat r := v)\<rparr>)"
  by (simp add: SET_GPR_def MD_NUM_IREGS_def Let_def)

section \<open>Instruction fields\<close>

record md_inst_t =
  inst_a :: word_t
  inst_b :: word_t

definition RS :: "md_inst_t \<Rightarrow> word_t" where "RS inst = drop_bit 24 (inst_b inst)"
definition RT :: "md_inst_t \<Rightarrow> word_t" where "RT inst = drop_bit 16 (inst_b inst) AND 0xff"
definition RD :: "md_inst_t \<Rightarrow> word_t" where "RD inst = drop_bit 8 (inst_b inst) AND 0xff"
definition SHAMT :: "md_inst_t \<Rightarrow> word_t" where "SHAMT inst = inst_b inst AND 0xff"
definition FS :: "md_inst_t \<Rightarrow> word_t" where "FS = RS"
definition FT :: "md_inst_t \<Rightarrow> word_t" where "FT = RT"
definition FD :: "md_inst_t \<Rightarrow> word_t" where "FD = RD"
definition BS :: "md_inst_t \<Rightarrow> word_t" where "BS = RS"
definition IMM :: "md_inst_t \<Rightarrow> word_t" where "IMM inst = sext16 (inst_b inst)"
definition UIMM :: "md_inst_t \<Rightarrow> word_t" where "UIMM inst = inst_b inst AND 0xffff"
definition OFS :: "md_inst_t \<Rightarrow> word_t" where "OFS = IMM"
definition TARG :: "md_inst_t \<Rightarrow> word_t" where "TARG inst = inst_b inst AND 0x3ffffff"

definition MD_OPFIELD :: "md_inst_t \<Rightarrow> word_t" where "MD_OPFIELD inst = inst_a inst AND 0xff"

text \<open>\<open>MD_SET_OPCODE\<close>: the text segment is predecoded, so the field holds the opcode's value.\<close>

definition MD_SET_OPCODE :: "md_inst_t \<Rightarrow> word_t" where "MD_SET_OPCODE inst = inst_a inst AND 0xff"

section \<open>Flags and functional units\<close>

definition F_ICOMP :: word_t where "F_ICOMP = 0x1"
definition F_FCOMP :: word_t where "F_FCOMP = 0x2"
definition F_CTRL :: word_t where "F_CTRL = 0x4"
definition F_UNCOND :: word_t where "F_UNCOND = 0x8"
definition F_COND :: word_t where "F_COND = 0x10"
definition F_MEM :: word_t where "F_MEM = 0x20"
definition F_LOAD :: word_t where "F_LOAD = 0x40"
definition F_STORE :: word_t where "F_STORE = 0x80"
definition F_DISP :: word_t where "F_DISP = 0x100"
definition F_RR :: word_t where "F_RR = 0x200"
definition F_TRAP :: word_t where "F_TRAP = 0x800"
definition F_LONGLAT :: word_t where "F_LONGLAT = 0x1000"
definition F_DIRJMP :: word_t where "F_DIRJMP = 0x2000"
definition F_INDIRJMP :: word_t where "F_INDIRJMP = 0x4000"
definition F_CALL :: word_t where "F_CALL = 0x8000"
definition F_FPCOND :: word_t where "F_FPCOND = 0x10000"
definition F_IMM :: word_t where "F_IMM = 0x20000"

lemmas flag_defs = F_ICOMP_def F_FCOMP_def F_CTRL_def F_UNCOND_def F_COND_def F_MEM_def F_LOAD_def
  F_STORE_def F_DISP_def F_RR_def F_TRAP_def F_LONGLAT_def F_DIRJMP_def F_INDIRJMP_def F_CALL_def
  F_FPCOND_def F_IMM_def

datatype md_fu_class =
    FUClass_NA | IntALU | IntMULT | IntDIV | FloatADD | FloatCMP | FloatCVT | FloatMULT
  | FloatDIV | FloatSQRT | RdPort | WrPort

section \<open>Dependence designators\<close>

definition DNA :: "md_inst_t \<Rightarrow> word_t" where "DNA inst = - 1"
definition DGPR :: "(md_inst_t \<Rightarrow> word_t) \<Rightarrow> md_inst_t \<Rightarrow> word_t" where "DGPR f inst = f inst"
definition DGPR31 :: "md_inst_t \<Rightarrow> word_t" where "DGPR31 inst = 31"
definition DGPR_D :: "(md_inst_t \<Rightarrow> word_t) \<Rightarrow> md_inst_t \<Rightarrow> word_t" where
  "DGPR_D f inst = f inst AND NOT 1"
definition DFPR_L :: "(md_inst_t \<Rightarrow> word_t) \<Rightarrow> md_inst_t \<Rightarrow> word_t" where
  "DFPR_L f inst = (f inst + 32) AND NOT 1"
definition DFPR_F :: "(md_inst_t \<Rightarrow> word_t) \<Rightarrow> md_inst_t \<Rightarrow> word_t" where
  "DFPR_F f inst = (f inst + 32) AND NOT 1"
definition DFPR_D :: "(md_inst_t \<Rightarrow> word_t) \<Rightarrow> md_inst_t \<Rightarrow> word_t" where
  "DFPR_D f inst = (f inst + 32) AND NOT 1"
definition DHI :: "md_inst_t \<Rightarrow> word_t" where "DHI inst = 64"
definition DLO :: "md_inst_t \<Rightarrow> word_t" where "DLO inst = 65"
definition DFCC :: "md_inst_t \<Rightarrow> word_t" where "DFCC inst = 66"

section \<open>The instruction table\<close>

datatype definst = DEFINST
  (di_op: string) (di_msk: nat) (di_name: string) (di_format: string) (di_res: md_fu_class)
  (di_flags: word_t) (di_o1: "md_inst_t \<Rightarrow> word_t") (di_o2: "md_inst_t \<Rightarrow> word_t")
  (di_i1: "md_inst_t \<Rightarrow> word_t") (di_i2: "md_inst_t \<Rightarrow> word_t") (di_i3: "md_inst_t \<Rightarrow> word_t")

definition pisa_def_int :: "definst list" where
  "pisa_def_int =
   [DEFINST ''NOP'' 0x0 ''nop'' '''' IntALU (F_ICOMP) DNA DNA DNA DNA DNA,
    DEFINST ''JUMP'' 0x1 ''j'' ''J'' FUClass_NA (F_CTRL OR F_UNCOND OR F_DIRJMP) DNA DNA DNA DNA DNA,
    DEFINST ''JAL'' 0x2 ''jal'' ''J'' IntALU (F_CTRL OR F_UNCOND OR F_DIRJMP OR F_CALL) DGPR31 DNA DNA DNA DNA,
    DEFINST ''JR'' 0x3 ''jr'' ''s'' FUClass_NA (F_CTRL OR F_UNCOND OR F_INDIRJMP) DNA DNA (DGPR RS) DNA DNA,
    DEFINST ''JALR'' 0x4 ''jalr'' ''d,s'' IntALU (F_CTRL OR F_UNCOND OR F_INDIRJMP OR F_CALL) (DGPR RD) DNA (DGPR RS) DNA DNA,
    DEFINST ''BEQ'' 0x5 ''beq'' ''s,t,j'' IntALU (F_CTRL OR F_COND OR F_DIRJMP) DNA DNA (DGPR RS) (DGPR RT) DNA,
    DEFINST ''BNE'' 0x6 ''bne'' ''s,t,j'' IntALU (F_CTRL OR F_COND OR F_DIRJMP) DNA DNA (DGPR RS) (DGPR RT) DNA,
    DEFINST ''BLEZ'' 0x7 ''blez'' ''s,j'' IntALU (F_CTRL OR F_COND OR F_DIRJMP) DNA DNA (DGPR RS) DNA DNA,
    DEFINST ''BGTZ'' 0x8 ''bgtz'' ''s,j'' IntALU (F_CTRL OR F_COND OR F_DIRJMP) DNA DNA (DGPR RS) DNA DNA,
    DEFINST ''BLTZ'' 0x9 ''bltz'' ''s,j'' IntALU (F_CTRL OR F_COND OR F_DIRJMP) DNA DNA (DGPR RS) DNA DNA,
    DEFINST ''BGEZ'' 0xa ''bgez'' ''s,j'' IntALU (F_CTRL OR F_COND OR F_DIRJMP) DNA DNA (DGPR RS) DNA DNA,
    DEFINST ''BC1F'' 0xb ''bc1f'' ''j'' IntALU (F_CTRL OR F_COND OR F_DIRJMP OR F_FPCOND) DNA DNA DFCC DNA DNA,
    DEFINST ''BC1T'' 0xc ''bc1t'' ''j'' IntALU (F_CTRL OR F_COND OR F_DIRJMP OR F_FPCOND) DNA DNA DFCC DNA DNA,
    DEFINST ''LB'' 0x20 ''lb'' ''t,o(b)'' RdPort (F_MEM OR F_LOAD OR F_DISP) (DGPR RT) DNA DNA (DGPR BS) DNA,
    DEFINST ''LBU'' 0x22 ''lbu'' ''t,o(b)'' RdPort (F_MEM OR F_LOAD OR F_DISP) (DGPR RT) DNA DNA (DGPR BS) DNA,
    DEFINST ''LH'' 0x24 ''lh'' ''t,o(b)'' RdPort (F_MEM OR F_LOAD OR F_DISP) (DGPR RT) DNA DNA (DGPR BS) DNA,
    DEFINST ''LHU'' 0x26 ''lhu'' ''t,o(b)'' RdPort (F_MEM OR F_LOAD OR F_DISP) (DGPR RT) DNA DNA (DGPR BS) DNA,
    DEFINST ''LW'' 0x28 ''lw'' ''t,o(b)'' RdPort (F_MEM OR F_LOAD OR F_DISP) (DGPR RT) DNA DNA (DGPR BS) DNA,
    DEFINST ''DLW'' 0x29 ''dlw'' ''t,o(b)'' RdPort (F_MEM OR F_LOAD OR F_DISP) (DGPR_D RT) DNA DNA (DGPR BS) DNA,
    DEFINST ''L_S'' 0x2a ''l.s'' ''T,o(b)'' RdPort (F_MEM OR F_LOAD OR F_DISP) (DFPR_L FT) DNA DNA (DGPR BS) DNA,
    DEFINST ''L_D'' 0x2b ''l.d'' ''T,o(b)'' RdPort (F_MEM OR F_LOAD OR F_DISP) (DFPR_D FT) DNA DNA (DGPR BS) DNA,
    DEFINST ''LWL'' 0x2c ''lwl'' ''t,o(b)'' RdPort (F_MEM OR F_LOAD OR F_DISP) (DGPR RT) DNA DNA (DGPR BS) DNA,
    DEFINST ''LWR'' 0x2d ''lwr'' ''t,o(b)'' RdPort (F_MEM OR F_LOAD OR F_DISP) (DGPR RT) DNA DNA (DGPR BS) DNA,
    DEFINST ''SB'' 0x30 ''sb'' ''t,o(b)'' WrPort (F_MEM OR F_STORE OR F_DISP) DNA DNA (DGPR RT) (DGPR BS) DNA,
    DEFINST ''SH'' 0x32 ''sh'' ''t,o(b)'' WrPort (F_MEM OR F_STORE OR F_DISP) DNA DNA (DGPR RT) (DGPR BS) DNA,
    DEFINST ''SW'' 0x34 ''sw'' ''t,o(b)'' WrPort (F_MEM OR F_STORE OR F_DISP) DNA DNA (DGPR RT) (DGPR BS) DNA,
    DEFINST ''DSW'' 0x35 ''dsw'' ''t,o(b)'' WrPort (F_MEM OR F_STORE OR F_DISP) DNA DNA (DGPR_D RT) (DGPR BS) DNA,
    DEFINST ''DSZ'' 0x38 ''dsz'' ''o(b)'' WrPort (F_MEM OR F_STORE OR F_DISP) DNA DNA DNA (DGPR BS) DNA,
    DEFINST ''S_S'' 0x36 ''s.s'' ''T,o(b)'' WrPort (F_MEM OR F_STORE OR F_DISP) DNA DNA (DFPR_L FT) (DGPR BS) DNA,
    DEFINST ''S_D'' 0x37 ''s.d'' ''T,o(b)'' WrPort (F_MEM OR F_STORE OR F_DISP) DNA DNA (DFPR_D FT) (DGPR BS) DNA,
    DEFINST ''SWL'' 0x39 ''swl'' ''t,o(b)'' WrPort (F_MEM OR F_STORE OR F_DISP) DNA DNA (DGPR RT) (DGPR BS) DNA,
    DEFINST ''SWR'' 0x3a ''swr'' ''t,o(b)'' WrPort (F_MEM OR F_STORE OR F_DISP) DNA DNA (DGPR RT) (DGPR BS) DNA,
    DEFINST ''LB_RR'' 0xc0 ''lb'' ''t,(b+d)'' RdPort (F_MEM OR F_LOAD OR F_RR) (DGPR RT) DNA DNA (DGPR BS) (DGPR RD),
    DEFINST ''LBU_RR'' 0xc1 ''lbu'' ''t,(b+d)'' RdPort (F_MEM OR F_LOAD OR F_RR) (DGPR RT) DNA DNA (DGPR BS) (DGPR RD),
    DEFINST ''LH_RR'' 0xc2 ''lh'' ''t,(b+d)'' RdPort (F_MEM OR F_LOAD OR F_RR) (DGPR RT) DNA DNA (DGPR BS) (DGPR RD),
    DEFINST ''LHU_RR'' 0xc3 ''lhu'' ''t,(b+d)'' RdPort (F_MEM OR F_LOAD OR F_RR) (DGPR RT) DNA DNA (DGPR BS) (DGPR RD),
    DEFINST ''LW_RR'' 0xc4 ''lw'' ''t,(b+d)'' RdPort (F_MEM OR F_LOAD OR F_RR) (DGPR RT) DNA DNA (DGPR BS) (DGPR RD),
    DEFINST ''DLW_RR'' 0xce ''dlw'' ''t,(b+d)'' RdPort (F_MEM OR F_LOAD OR F_RR) (DGPR_D RT) DNA DNA (DGPR BS) (DGPR RD),
    DEFINST ''L_S_RR'' 0xc5 ''l.s'' ''T,(b+d)'' RdPort (F_MEM OR F_LOAD OR F_RR) (DFPR_L FT) DNA DNA (DGPR BS) (DGPR RD),
    DEFINST ''L_D_RR'' 0xcf ''l.d'' ''T,(b+d)'' RdPort (F_MEM OR F_LOAD OR F_RR) (DFPR_D FT) DNA DNA (DGPR BS) (DGPR RD),
    DEFINST ''SB_RR'' 0xc6 ''sb'' ''t,(b+d)'' WrPort (F_MEM OR F_STORE OR F_RR) DNA DNA (DGPR RT) (DGPR BS) (DGPR RD),
    DEFINST ''SH_RR'' 0xc7 ''sh'' ''t,(b+d)'' WrPort (F_MEM OR F_STORE OR F_RR) DNA DNA (DGPR RT) (DGPR BS) (DGPR RD),
    DEFINST ''SW_RR'' 0xc8 ''sw'' ''t,(b+d)'' WrPort (F_MEM OR F_STORE OR F_RR) DNA DNA (DGPR RT) (DGPR BS) (DGPR RD),
    DEFINST ''DSW_RR'' 0xd0 ''dsw'' ''t,(b+d)'' WrPort (F_MEM OR F_STORE OR F_RR) DNA DNA (DGPR_D RT) (DGPR BS) (DGPR RD),
    DEFINST ''DSZ_RR'' 0xd1 ''dsz'' ''(b+d)'' WrPort (F_MEM OR F_STORE OR F_RR) DNA DNA DNA (DGPR BS) (DGPR RD),
    DEFINST ''S_S_RR'' 0xc9 ''s.s'' ''T,(b+d)'' WrPort (F_MEM OR F_STORE OR F_RR) DNA DNA (DFPR_L FT) (DGPR BS) (DGPR RD),
    DEFINST ''S_D_RR'' 0xd2 ''s.d'' ''T,(b+d)'' WrPort (F_MEM OR F_STORE OR F_RR) DNA DNA (DFPR_D FT) (DGPR BS) (DGPR RD),
    DEFINST ''L_S_RR_R2'' 0xca ''l.s.r2'' ''T,(b+d)'' RdPort (F_MEM OR F_LOAD OR F_RR) (DFPR_L FT) DNA DNA (DGPR BS) (DGPR RD),
    DEFINST ''S_S_RR_R2'' 0xcb ''s.s.r2'' ''T,(b+d)'' WrPort (F_MEM OR F_STORE OR F_RR) DNA DNA (DFPR_L FT) (DGPR BS) (DGPR RD),
    DEFINST ''LW_RR_R2'' 0xcc ''lw.r2'' ''t,(b+d)'' RdPort (F_MEM OR F_LOAD OR F_RR) (DGPR RT) DNA DNA (DGPR BS) (DGPR RD),
    DEFINST ''SW_RR_R2'' 0xcd ''sw.r2'' ''t,(b+d)'' WrPort (F_MEM OR F_STORE OR F_RR) DNA DNA (DGPR RT) (DGPR BS) (DGPR RD),
    DEFINST ''ADD'' 0x40 ''add'' ''d,s,t'' IntALU (F_ICOMP) (DGPR RD) DNA (DGPR RS) (DGPR RT) DNA,
    DEFINST ''ADDI'' 0x41 ''addi'' ''t,s,i'' IntALU (F_ICOMP OR F_IMM) (DGPR RT) DNA (DGPR RS) DNA DNA,
    DEFINST ''ADDU'' 0x42 ''addu'' ''d,s,t'' IntALU (F_ICOMP) (DGPR RD) DNA (DGPR RS) (DGPR RT) DNA,
    DEFINST ''ADDIU'' 0x43 ''addiu'' ''t,s,i'' IntALU (F_ICOMP OR F_IMM) (DGPR RT) DNA (DGPR RS) DNA DNA,
    DEFINST ''SUB'' 0x44 ''sub'' ''d,s,t'' IntALU (F_ICOMP) (DGPR RD) DNA (DGPR RS) (DGPR RT) DNA,
    DEFINST ''SUBU'' 0x45 ''subu'' ''d,s,t'' IntALU (F_ICOMP) (DGPR RD) DNA (DGPR RS) (DGPR RT) DNA,
    DEFINST ''MULT'' 0x46 ''mult'' ''s,t'' IntMULT (F_ICOMP OR F_LONGLAT) DHI DLO (DGPR RT) (DGPR RS) DNA,
    DEFINST ''MULTU'' 0x47 ''multu'' ''s,t'' IntMULT (F_ICOMP OR F_LONGLAT) DHI DLO (DGPR RT) (DGPR RS) DNA,
    DEFINST ''DIV'' 0x48 ''div'' ''s,t'' IntDIV (F_ICOMP OR F_LONGLAT) DHI DLO (DGPR RT) (DGPR RS) DNA,
    DEFINST ''DIVU'' 0x49 ''divu'' ''s,t'' IntDIV (F_ICOMP OR F_LONGLAT) DHI DLO (DGPR RT) (DGPR RS) DNA,
    DEFINST ''MFHI'' 0x4a ''mfhi'' ''d'' IntALU (F_ICOMP) (DGPR RD) DNA DHI DNA DNA,
    DEFINST ''MTHI'' 0x4b ''mthi'' ''s'' IntALU (F_ICOMP) DHI DNA (DGPR RS) DNA DNA,
    DEFINST ''MFLO'' 0x4c ''mflo'' ''d'' IntALU (F_ICOMP) (DGPR RD) DNA DLO DNA DNA,
    DEFINST ''MTLO'' 0x4d ''mtlo'' ''s'' IntALU (F_ICOMP) DLO DNA (DGPR RS) DNA DNA,
    DEFINST ''AND_'' 0x4e ''and'' ''d,s,t'' IntALU (F_ICOMP) (DGPR RD) DNA (DGPR RS) (DGPR RT) DNA,
    DEFINST ''ANDI'' 0x4f ''andi'' ''t,s,u'' IntALU (F_ICOMP OR F_IMM) (DGPR RT) DNA (DGPR RS) DNA DNA,
    DEFINST ''OR'' 0x50 ''or'' ''d,s,t'' IntALU (F_ICOMP) (DGPR RD) DNA (DGPR RS) (DGPR RT) DNA,
    DEFINST ''ORI'' 0x51 ''ori'' ''t,s,u'' IntALU (F_ICOMP OR F_IMM) (DGPR RT) DNA (DGPR RS) DNA DNA,
    DEFINST ''XOR'' 0x52 ''xor'' ''d,s,t'' IntALU (F_ICOMP) (DGPR RD) DNA (DGPR RS) (DGPR RT) DNA,
    DEFINST ''XORI'' 0x53 ''xori'' ''t,s,u'' IntALU (F_ICOMP OR F_IMM) (DGPR RT) DNA (DGPR RS) DNA DNA,
    DEFINST ''NOR'' 0x54 ''nor'' ''d,s,t'' IntALU (F_ICOMP) (DGPR RD) DNA (DGPR RS) (DGPR RT) DNA,
    DEFINST ''SLL'' 0x55 ''sll'' ''d,t,H'' IntALU (F_ICOMP) (DGPR RD) DNA (DGPR RT) DNA DNA,
    DEFINST ''SLLV'' 0x56 ''sllv'' ''d,t,s'' IntALU (F_ICOMP) (DGPR RD) DNA (DGPR RT) (DGPR RS) DNA,
    DEFINST ''SRL'' 0x57 ''srl'' ''d,t,H'' IntALU (F_ICOMP) (DGPR RD) DNA (DGPR RT) DNA DNA,
    DEFINST ''SRLV'' 0x58 ''srlv'' ''d,t,s'' IntALU (F_ICOMP) (DGPR RD) DNA (DGPR RT) (DGPR RS) DNA,
    DEFINST ''SRA'' 0x59 ''sra'' ''d,t,H'' IntALU (F_ICOMP) (DGPR RD) DNA (DGPR RT) DNA DNA,
    DEFINST ''SRAV'' 0x5a ''srav'' ''d,t,s'' IntALU (F_ICOMP) (DGPR RD) DNA (DGPR RT) (DGPR RS) DNA,
    DEFINST ''SLT'' 0x5b ''slt'' ''d,s,t'' IntALU (F_ICOMP) (DGPR RD) DNA (DGPR RS) (DGPR RT) DNA,
    DEFINST ''SLTI'' 0x5c ''slti'' ''t,s,i'' IntALU (F_ICOMP OR F_IMM) (DGPR RT) DNA (DGPR RS) DNA DNA,
    DEFINST ''SLTU'' 0x5d ''sltu'' ''d,s,t'' IntALU (F_ICOMP) (DGPR RD) DNA (DGPR RS) (DGPR RT) DNA,
    DEFINST ''SLTIU'' 0x5e ''sltiu'' ''t,s,i'' IntALU (F_ICOMP OR F_IMM) (DGPR RT) DNA (DGPR RS) DNA DNA]"

definition machine_def_new :: "definst list" where
  "machine_def_new =
   [DEFINST ''ADDOK'' 0x61 ''addok'' ''d,s,t'' IntALU (F_ICOMP) (DGPR RD) DNA (DGPR RS) (DGPR RT) DNA,
    DEFINST ''BITCOUNT'' 0x62 ''bitCount'' ''t,s,u'' IntALU (F_ICOMP OR F_IMM) (DGPR RT) DNA (DGPR RS) DNA DNA]"

definition pisa_def_fp :: "definst list" where
  "pisa_def_fp =
   [DEFINST ''FADD_S'' 0x70 ''add.s'' ''D,S,T'' FloatADD (F_FCOMP) (DFPR_F FD) DNA (DFPR_F FS) (DFPR_F FT) DNA,
    DEFINST ''FADD_D'' 0x71 ''add.d'' ''D,S,T'' FloatADD (F_FCOMP) (DFPR_D FD) DNA (DFPR_D FS) (DFPR_D FT) DNA,
    DEFINST ''FSUB_S'' 0x72 ''sub.s'' ''D,S,T'' FloatADD (F_FCOMP) (DFPR_F FD) DNA (DFPR_F FS) (DFPR_F FT) DNA,
    DEFINST ''FSUB_D'' 0x73 ''sub.d'' ''D,S,T'' FloatADD (F_FCOMP) (DFPR_D FD) DNA (DFPR_D FS) (DFPR_D FT) DNA,
    DEFINST ''FMUL_S'' 0x74 ''mul.s'' ''D,S,T'' FloatMULT (F_FCOMP OR F_LONGLAT) (DFPR_F FD) DNA (DFPR_F FS) (DFPR_F FT) DNA,
    DEFINST ''FMUL_D'' 0x75 ''mul.d'' ''D,S,T'' FloatMULT (F_FCOMP OR F_LONGLAT) (DFPR_D FD) DNA (DFPR_D FS) (DFPR_D FT) DNA,
    DEFINST ''FDIV_S'' 0x76 ''div.s'' ''D,S,T'' FloatDIV (F_FCOMP OR F_LONGLAT) (DFPR_F FD) DNA (DFPR_F FS) (DFPR_F FT) DNA,
    DEFINST ''FDIV_D'' 0x77 ''div.d'' ''D,S,T'' FloatDIV (F_FCOMP OR F_LONGLAT) (DFPR_D FD) DNA (DFPR_D FS) (DFPR_D FT) DNA,
    DEFINST ''FABS_S'' 0x78 ''abs.s'' ''D,S'' FloatADD (F_FCOMP) (DFPR_F FD) DNA (DFPR_F FS) DNA DNA,
    DEFINST ''FABS_D'' 0x79 ''abs.d'' ''D,S'' FloatADD (F_FCOMP) (DFPR_D FD) DNA (DFPR_D FS) DNA DNA,
    DEFINST ''FMOV_S'' 0x7a ''mov.s'' ''D,S'' FloatADD (F_FCOMP) (DFPR_F FD) DNA (DFPR_F FS) DNA DNA,
    DEFINST ''FMOV_D'' 0x7b ''mov.d'' ''D,S'' FloatADD (F_FCOMP) (DFPR_D FD) DNA (DFPR_D FS) DNA DNA,
    DEFINST ''FNEG_S'' 0x7c ''neg.s'' ''D,S'' FloatADD (F_FCOMP) (DFPR_F FD) DNA (DFPR_F FS) DNA DNA,
    DEFINST ''FNEG_D'' 0x7d ''neg.d'' ''D,S'' FloatADD (F_FCOMP) (DFPR_D FD) DNA (DFPR_D FS) DNA DNA,
    DEFINST ''CVT_S_D'' 0x80 ''cvt.s.d'' ''D,S'' FloatCVT (F_FCOMP) (DFPR_F FD) DNA (DFPR_D FS) DNA DNA,
    DEFINST ''CVT_S_W'' 0x81 ''cvt.s.w'' ''D,S'' FloatCVT (F_FCOMP) (DFPR_F FD) DNA (DFPR_L FS) DNA DNA,
    DEFINST ''CVT_D_S'' 0x82 ''cvt.d.s'' ''D,S'' FloatCVT (F_FCOMP) (DFPR_D FD) DNA (DFPR_F FS) DNA DNA,
    DEFINST ''CVT_D_W'' 0x83 ''cvt.d.w'' ''D,S'' FloatCVT (F_FCOMP) (DFPR_D FD) DNA (DFPR_L FS) DNA DNA,
    DEFINST ''CVT_W_S'' 0x84 ''cvt.w.s'' ''D,S'' FloatCVT (F_FCOMP) (DFPR_L FD) DNA (DFPR_F FS) DNA DNA,
    DEFINST ''CVT_W_D'' 0x85 ''cvt.w.d'' ''D,S'' FloatCVT (F_FCOMP) (DFPR_L FD) DNA (DFPR_D FS) DNA DNA,
    DEFINST ''C_EQ_S'' 0x90 ''c.eq.s'' ''S,T'' FloatCMP (F_FCOMP) DFCC DNA (DFPR_F FS) (DFPR_F FT) DNA,
    DEFINST ''C_EQ_D'' 0x91 ''c.eq.d'' ''S,T'' FloatCMP (F_FCOMP) DFCC DNA (DFPR_D FS) (DFPR_D FT) DNA,
    DEFINST ''C_LT_S'' 0x92 ''c.lt.s'' ''S,T'' FloatCMP (F_FCOMP) DFCC DNA (DFPR_F FS) (DFPR_F FT) DNA,
    DEFINST ''C_LT_D'' 0x93 ''c.lt.d'' ''S,T'' FloatCMP (F_FCOMP) DFCC DNA (DFPR_D FS) (DFPR_D FT) DNA,
    DEFINST ''C_LE_S'' 0x94 ''c.le.s'' ''S,T'' FloatCMP (F_FCOMP) DFCC DNA (DFPR_F FS) (DFPR_F FT) DNA,
    DEFINST ''C_LE_D'' 0x95 ''c.le.d'' ''S,T'' FloatCMP (F_FCOMP) DFCC DNA (DFPR_D FS) (DFPR_D FT) DNA,
    DEFINST ''FSQRT_S'' 0x96 ''sqrt.s'' ''D,S'' FloatSQRT (F_FCOMP OR F_LONGLAT) (DFPR_F FD) DNA (DFPR_F FS) DNA DNA,
    DEFINST ''FSQRT_D'' 0x97 ''sqrt.d'' ''D,S'' FloatSQRT (F_FCOMP OR F_LONGLAT) (DFPR_D FD) DNA (DFPR_D FS) DNA DNA,
    DEFINST ''SYSCALL'' 0xa0 ''syscall'' '''' FUClass_NA (F_TRAP) DNA DNA DNA DNA DNA,
    DEFINST ''BREAK'' 0xa1 ''break'' ''B'' FUClass_NA (F_TRAP) DNA DNA DNA DNA DNA,
    DEFINST ''LUI'' 0xa2 ''lui'' ''t,U'' IntALU (F_ICOMP) (DGPR RT) DNA DNA DNA DNA,
    DEFINST ''MFC1'' 0xa3 ''mfc1'' ''t,S'' IntALU (F_ICOMP) (DGPR RT) DNA (DFPR_L FS) DNA DNA,
    DEFINST ''DMFC1'' 0xa7 ''dmfc1'' ''t,S'' IntALU (F_ICOMP) (DGPR_D RT) DNA (DFPR_D FS) DNA DNA,
    DEFINST ''CFC1'' 0xa4 ''cfc1'' ''t,S'' IntALU (F_ICOMP) DNA DNA DNA DNA DNA,
    DEFINST ''MTC1'' 0xa5 ''mtc1'' ''t,S'' IntALU (F_ICOMP) (DFPR_L FS) DNA (DGPR RT) DNA DNA,
    DEFINST ''DMTC1'' 0xa8 ''dmtc1'' ''t,S'' IntALU (F_ICOMP) (DFPR_D FS) DNA (DGPR_D RT) DNA DNA,
    DEFINST ''CTC1'' 0xa6 ''ctc1'' ''t,S'' IntALU (F_ICOMP) DNA DNA DNA DNA DNA]"

definition pisa_def :: "definst list" where "pisa_def = pisa_def_int @ pisa_def_fp"

text \<open>The table of Project 1, part 1.\<close>

definition machine_def :: "definst list" where
  "machine_def = pisa_def_int @ machine_def_new @ pisa_def_fp"

text \<open>Enumeration values of the opcodes the pipelines name, in a build with pisa.def.\<close>

definition NOP :: word_t where "NOP = 1"
definition JUMP :: word_t where "JUMP = 2"
definition BEQ :: word_t where "BEQ = 6"
definition BNE :: word_t where "BNE = 7"
definition LW :: word_t where "LW = 18"
definition SW :: word_t where "SW = 26"
definition ADD :: word_t where "ADD = 52"
definition ADDI :: word_t where "ADDI = 53"
definition ADDU :: word_t where "ADDU = 54"
definition ADDIU :: word_t where "ADDIU = 55"
definition MULTU :: word_t where "MULTU = 59"
definition MFLO :: word_t where "MFLO = 64"
definition ANDI :: word_t where "ANDI = 67"
definition SLL :: word_t where "SLL = 73"
definition SLTI :: word_t where "SLTI = 80"
definition SYSCALL :: word_t where "SYSCALL = 111"
definition LUI :: word_t where "LUI = 113"

lemmas opcode_defs = NOP_def JUMP_def BEQ_def BNE_def LW_def SW_def ADD_def ADDI_def ADDU_def
  ADDIU_def MULTU_def MFLO_def ANDI_def SLL_def SLTI_def SYSCALL_def LUI_def

text \<open>
  The \<open>DEFINST\<close> chains compare the opcode with the enumeration value of each row, which is
  its position from 1 on.
\<close>

definition definst_of :: "definst list \<Rightarrow> word_t \<Rightarrow> definst option" where
  "definst_of tab op =
     (if 1 \<le> unat op \<and> unat op \<le> length tab then Some (tab ! (unat op - 1)) else None)"

section \<open>Predecoding\<close>

text \<open>
  \<open>md_init_decoder()\<close> fills \<open>md_mask2op\<close> from the table; a mask given twice or too large is
  fatal.  The array has \<open>MD_MAX_MASK + 1\<close> entries, \<open>OP_NA\<close> at first.
\<close>

definition MD_MAX_MASK :: nat where "MD_MAX_MASK = 255"

fun md_init_decoder_loop :: "definst list \<Rightarrow> word_t \<Rightarrow> (nat \<Rightarrow> word_t) \<Rightarrow> (nat \<Rightarrow> word_t) option" where
  "md_init_decoder_loop [] op md_mask2op = Some md_mask2op"
| "md_init_decoder_loop (d # tab) op md_mask2op =
     (if md_mask2op (di_msk d) \<noteq> 0 then None
      else if di_msk d \<ge> MD_MAX_MASK then None
      else md_init_decoder_loop tab (op + 1) (md_mask2op(di_msk d := op)))"

definition md_init_decoder :: "definst list \<Rightarrow> (nat \<Rightarrow> word_t) option" where
  "md_init_decoder tab = md_init_decoder_loop tab 1 (\<lambda>_. 0)"

text \<open>What the loader makes of an instruction of the text segment.\<close>

definition predecode :: "(nat \<Rightarrow> word_t) \<Rightarrow> md_inst_t \<Rightarrow> md_inst_t" where
  "predecode md_mask2op inst =
     inst\<lparr>inst_a := (inst_a inst AND NOT 0xff) OR md_mask2op (unat (MD_OPFIELD inst))\<rparr>"

section \<open>The decoder\<close>

lemma md_init_decoder_loop_spec:
  "distinct (map di_msk tab) \<Longrightarrow> \<forall>d \<in> set tab. f (di_msk d) = 0 \<and> di_msk d < MD_MAX_MASK \<Longrightarrow>
   \<exists>t. md_init_decoder_loop tab op f = Some t \<and>
     (\<forall>k < length tab. t (di_msk (tab ! k)) = op + of_nat k) \<and>
     (\<forall>j. j \<notin> di_msk ` set tab \<longrightarrow> t j = f j)"
proof (induction tab arbitrary: op f)
  case (Cons d tab)
  let ?f = "f(di_msk d := op)"
  have "\<forall>d' \<in> set tab. ?f (di_msk d') = 0 \<and> di_msk d' < MD_MAX_MASK"
    using Cons.prems by (auto simp: image_iff)
  then obtain t where t: "md_init_decoder_loop tab (op + 1) ?f = Some t"
    "\<forall>k < length tab. t (di_msk (tab ! k)) = op + 1 + of_nat k"
    "\<forall>j. j \<notin> di_msk ` set tab \<longrightarrow> t j = ?f j"
    using Cons.IH [of ?f "op + 1"] Cons.prems(1) by (auto simp: fun_upd_def)
  have "md_init_decoder_loop (d # tab) op f = Some t"
    using t(1) Cons.prems(2) by (simp add: not_le)
  moreover have "t (di_msk d) = op" using t(3) Cons.prems(1) by (auto simp: image_iff)
  then have "\<forall>k < length (d # tab). t (di_msk ((d # tab) ! k)) = op + of_nat k"
    using t(2) by (auto simp: less_Suc_eq_0_disj add.assoc)
  moreover have "\<forall>j. j \<notin> di_msk ` set (d # tab) \<longrightarrow> t j = f j"
    using t(3) by auto
  ultimately show ?case by blast
qed simp

lemma pisa_def_msk:
  "map di_msk pisa_def =
     [0x0, 0x1, 0x2, 0x3, 0x4, 0x5, 0x6, 0x7, 0x8, 0x9, 0xa, 0xb, 0xc, 0x20, 0x22, 0x24, 0x26,
      0x28, 0x29, 0x2a, 0x2b, 0x2c, 0x2d, 0x30, 0x32, 0x34, 0x35, 0x38, 0x36, 0x37, 0x39, 0x3a,
      0xc0, 0xc1, 0xc2, 0xc3, 0xc4, 0xce, 0xc5, 0xcf, 0xc6, 0xc7, 0xc8, 0xd0, 0xd1, 0xc9, 0xd2,
      0xca, 0xcb, 0xcc, 0xcd, 0x40, 0x41, 0x42, 0x43, 0x44, 0x45, 0x46, 0x47, 0x48, 0x49, 0x4a,
      0x4b, 0x4c, 0x4d, 0x4e, 0x4f, 0x50, 0x51, 0x52, 0x53, 0x54, 0x55, 0x56, 0x57, 0x58, 0x59,
      0x5a, 0x5b, 0x5c, 0x5d, 0x5e, 0x70, 0x71, 0x72, 0x73, 0x74, 0x75, 0x76, 0x77, 0x78, 0x79,
      0x7a, 0x7b, 0x7c, 0x7d, 0x80, 0x81, 0x82, 0x83, 0x84, 0x85, 0x90, 0x91, 0x92, 0x93, 0x94,
      0x95, 0x96, 0x97, 0xa0, 0xa1, 0xa2, 0xa3, 0xa7, 0xa4, 0xa5, 0xa8, 0xa6]"
  by (simp add: pisa_def_def pisa_def_int_def pisa_def_fp_def)

lemma machine_def_msk:
  "map di_msk machine_def =
     [0x0, 0x1, 0x2, 0x3, 0x4, 0x5, 0x6, 0x7, 0x8, 0x9, 0xa, 0xb, 0xc, 0x20, 0x22, 0x24, 0x26,
      0x28, 0x29, 0x2a, 0x2b, 0x2c, 0x2d, 0x30, 0x32, 0x34, 0x35, 0x38, 0x36, 0x37, 0x39, 0x3a,
      0xc0, 0xc1, 0xc2, 0xc3, 0xc4, 0xce, 0xc5, 0xcf, 0xc6, 0xc7, 0xc8, 0xd0, 0xd1, 0xc9, 0xd2,
      0xca, 0xcb, 0xcc, 0xcd, 0x40, 0x41, 0x42, 0x43, 0x44, 0x45, 0x46, 0x47, 0x48, 0x49, 0x4a,
      0x4b, 0x4c, 0x4d, 0x4e, 0x4f, 0x50, 0x51, 0x52, 0x53, 0x54, 0x55, 0x56, 0x57, 0x58, 0x59,
      0x5a, 0x5b, 0x5c, 0x5d, 0x5e, 0x61, 0x62, 0x70, 0x71, 0x72, 0x73, 0x74, 0x75, 0x76, 0x77,
      0x78, 0x79, 0x7a, 0x7b, 0x7c, 0x7d, 0x80, 0x81, 0x82, 0x83, 0x84, 0x85, 0x90, 0x91, 0x92,
      0x93, 0x94, 0x95, 0x96, 0x97, 0xa0, 0xa1, 0xa2, 0xa3, 0xa7, 0xa4, 0xa5, 0xa8, 0xa6]"
  by (simp add: machine_def_def machine_def_new_def pisa_def_int_def pisa_def_fp_def)

lemma masks_all: "(\<forall>d \<in> set tab. di_msk d < n) \<longleftrightarrow> (\<forall>x \<in> set (map di_msk tab). x < n)"
  by simp

lemma pisa_def_masks: "distinct (map di_msk pisa_def)" "\<forall>d \<in> set pisa_def. di_msk d < MD_MAX_MASK"
  "length pisa_def = 119"
proof -
  show "distinct (map di_msk pisa_def)" unfolding pisa_def_msk by simp
  show "\<forall>d \<in> set pisa_def. di_msk d < MD_MAX_MASK"
    unfolding masks_all pisa_def_msk MD_MAX_MASK_def by simp
  have "length (map di_msk pisa_def) = 119" unfolding pisa_def_msk by simp
  then show "length pisa_def = 119" by simp
qed

lemma machine_def_masks: "distinct (map di_msk machine_def)"
  "\<forall>d \<in> set machine_def. di_msk d < MD_MAX_MASK" "length machine_def = 121"
proof -
  show "distinct (map di_msk machine_def)" unfolding machine_def_msk by simp
  show "\<forall>d \<in> set machine_def. di_msk d < MD_MAX_MASK"
    unfolding masks_all machine_def_msk MD_MAX_MASK_def by simp
  have "length (map di_msk machine_def) = 121" unfolding machine_def_msk by simp
  then show "length machine_def = 121" by simp
qed

lemma opcode_of_predecode:
  assumes "op < 256"
  shows "((a AND NOT 0xff) OR op) AND 0xff = (op :: word_t)"
proof -
  have "op AND 0xff = op"
  proof -
    have "op AND 0xff = take_bit 8 op" by (simp add: take_bit_eq_mask mask_eq_exp_minus_1)
    also have "unat \<dots> = unat op"
      using assms by (simp add: take_bit_eq_mod unat_mod word_less_nat_alt)
    finally show ?thesis by (rule word_unat_eq_iff [THEN iffD2])
  qed
  moreover have "(a AND NOT 0xff) AND 0xff = 0" by (simp add: and.assoc)
  ultimately show ?thesis by (simp add: bit.conj_disj_distrib2)
qed

lemma predecode_row:
  assumes dist: "distinct (map di_msk tab)" "\<forall>d \<in> set tab. di_msk d < MD_MAX_MASK"
    and len: "length tab < 256"
  shows "\<exists>t. md_init_decoder tab = Some t \<and>
    (\<forall>inst. definst_of tab (MD_SET_OPCODE (predecode t inst)) =
       List.find (\<lambda>d. di_msk d = unat (MD_OPFIELD inst)) tab)"
proof -
  obtain t where t: "md_init_decoder tab = Some t"
    "\<forall>k < length tab. t (di_msk (tab ! k)) = 1 + of_nat k"
    "\<forall>j. j \<notin> di_msk ` set tab \<longrightarrow> t j = 0"
    using md_init_decoder_loop_spec [of tab "\<lambda>_. 0" 1] dist by (auto simp: md_init_decoder_def)
  have "definst_of tab (MD_SET_OPCODE (predecode t inst)) =
      List.find (\<lambda>d. di_msk d = unat (MD_OPFIELD inst)) tab" for inst
  proof (cases "unat (MD_OPFIELD inst) \<in> di_msk ` set tab")
    case True
    then obtain k where k: "k < length tab" "di_msk (tab ! k) = unat (MD_OPFIELD inst)"
      by (auto simp: in_set_conv_nth)
    have u: "unat (1 + of_nat k :: word_t) = Suc k" using k(1) len by (simp add: unat_word_ariths unat_of_nat)
    then have "(1 + of_nat k :: word_t) < 256" using k(1) len by (simp add: word_less_nat_alt)
    then have "MD_SET_OPCODE (predecode t inst) = 1 + of_nat k"
      using t(2) k opcode_of_predecode [of "1 + of_nat k" "inst_a inst"]
      by (simp add: MD_SET_OPCODE_def predecode_def) (metis)
    then have "definst_of tab (MD_SET_OPCODE (predecode t inst)) = Some (tab ! k)"
      using u k(1) by (simp add: definst_of_def)
    moreover have "List.find (\<lambda>d. di_msk d = unat (MD_OPFIELD inst)) tab = Some (tab ! k)"
      using k dist(1) by (auto simp: find_Some_iff distinct_conv_nth intro!: exI [of _ k]) (metis less_trans nat_neq_iff)
    ultimately show ?thesis by simp
  next
    case False
    then have "t (unat (MD_OPFIELD inst)) = 0" using t(3) by blast
    then have "MD_SET_OPCODE (predecode t inst) = 0"
      using opcode_of_predecode [of 0] by (simp add: MD_SET_OPCODE_def predecode_def)
    then have "definst_of tab (MD_SET_OPCODE (predecode t inst)) = None" by (simp add: definst_of_def)
    moreover have "List.find (\<lambda>d. di_msk d = unat (MD_OPFIELD inst)) tab = None"
      using False by (auto simp: find_None_iff image_iff)
    ultimately show ?thesis by simp
  qed
  with t(1) show ?thesis by blast
qed

text \<open>The rows of the opcodes the pipelines name.\<close>

lemma definst_of_rows:
  "map_option di_op (definst_of pisa_def NOP) = Some ''NOP''"
  "map_option di_op (definst_of pisa_def JUMP) = Some ''JUMP''"
  "map_option di_op (definst_of pisa_def BEQ) = Some ''BEQ''"
  "map_option di_op (definst_of pisa_def BNE) = Some ''BNE''"
  "map_option di_op (definst_of pisa_def LW) = Some ''LW''"
  "map_option di_op (definst_of pisa_def SW) = Some ''SW''"
  "map_option di_op (definst_of pisa_def ADD) = Some ''ADD''"
  "map_option di_op (definst_of pisa_def ADDI) = Some ''ADDI''"
  "map_option di_op (definst_of pisa_def ADDU) = Some ''ADDU''"
  "map_option di_op (definst_of pisa_def ADDIU) = Some ''ADDIU''"
  "map_option di_op (definst_of pisa_def MULTU) = Some ''MULTU''"
  "map_option di_op (definst_of pisa_def MFLO) = Some ''MFLO''"
  "map_option di_op (definst_of pisa_def ANDI) = Some ''ANDI''"
  "map_option di_op (definst_of pisa_def SLL) = Some ''SLL''"
  "map_option di_op (definst_of pisa_def SLTI) = Some ''SLTI''"
  "map_option di_op (definst_of pisa_def SYSCALL) = Some ''SYSCALL''"
  "map_option di_op (definst_of pisa_def LUI) = Some ''LUI''"
  by (simp_all add: definst_of_def pisa_def_masks(3) opcode_defs)
    (simp_all add: pisa_def_def pisa_def_int_def pisa_def_fp_def)

section \<open>Properties\<close>

text \<open>
  C18: the decoder tables build without a fatal error for both instruction tables, and
  after predecoding the opcode field of an instruction selects the row that declares its
  mask, or no row when no instruction has that mask.
\<close>

theorem predecode_selects_row:
  shows "(\<exists>t. md_init_decoder pisa_def = Some t \<and>
      (\<forall>inst. definst_of pisa_def (MD_SET_OPCODE (predecode t inst)) =
         List.find (\<lambda>d. di_msk d = unat (MD_OPFIELD inst)) pisa_def)) \<and>
    (\<exists>t. md_init_decoder machine_def = Some t \<and>
      (\<forall>inst. definst_of machine_def (MD_SET_OPCODE (predecode t inst)) =
         List.find (\<lambda>d. di_msk d = unat (MD_OPFIELD inst)) machine_def))"
  using predecode_row [OF pisa_def_masks(1,2)] predecode_row [OF machine_def_masks(1,2)]
  by (simp_all add: pisa_def_masks(3) machine_def_masks(3))

end
