(* ===== verification/Pisa_Exec.thy ===== *)
theory Pisa_Exec
  imports Pisa Multiplier "HOL-Library.Signed_Division"
begin

text \<open>
  The instruction semantics of machine.def as sim-fast.c runs it: one \<open>_IMPL\<close> per row of the
  table, the dispatch, and the simulator's loop.  In sim-fast \<open>DECLARE_FAULT\<close> leaves the
  switch, so a faulting instruction is abandoned where it stands.  Floating point arithmetic
  is the host's and a system call the host system's: both are parameters of the loop.
\<close>

type_synonym impl = "md_inst_t \<Rightarrow> regs_t \<Rightarrow> mem_t \<Rightarrow> (regs_t \<times> mem_t) option"

section \<open>Helper macros\<close>

definition FPR_L :: "regs_t \<Rightarrow> word_t \<Rightarrow> word_t option" where
  "FPR_L regs n = GPR regs (n + 32)"

definition SET_FPR_L :: "regs_t \<Rightarrow> word_t \<Rightarrow> word_t \<Rightarrow> regs_t option" where
  "SET_FPR_L regs n v = SET_GPR regs (n + 32) v"

definition MAXINT_VAL :: int where "MAXINT_VAL = 0x7fffffff"

definition OVER :: "word_t \<Rightarrow> word_t \<Rightarrow> bool" where
  "OVER X Y \<longleftrightarrow>
     (sint X > 0 \<and> sint Y > 0 \<and> MAXINT_VAL - sint X < sint Y) \<or>
     (sint X < 0 \<and> sint Y < 0 \<and> - MAXINT_VAL - sint X > sint Y)"

definition UNDER :: "word_t \<Rightarrow> word_t \<Rightarrow> bool" where
  "UNDER X Y \<longleftrightarrow>
     (sint X > 0 \<and> sint Y < 0 \<and> MAXINT_VAL + sint Y < sint X) \<or>
     (sint X < 0 \<and> sint Y > 0 \<and> - MAXINT_VAL + sint Y > sint X)"

text \<open>The tables and sizes of the unaligned accesses, for a little-endian target.\<close>

definition md_lr_masks :: "word_t list" where
  "md_lr_masks = [0xffffffff, 0x00ffffff, 0x0000ffff, 0x000000ff, 0x00000000]"

definition WL_SIZE :: "md_addr_t \<Rightarrow> nat" where "WL_SIZE addr = 4 - unat (addr AND 3)"
definition WL_BASE :: "md_addr_t \<Rightarrow> md_addr_t" where "WL_BASE addr = addr AND NOT 3"
definition WR_SIZE :: "md_addr_t \<Rightarrow> nat" where "WR_SIZE addr = unat (addr AND 3) + 1"
definition WR_BASE :: "md_addr_t \<Rightarrow> md_addr_t" where "WR_BASE addr = addr AND NOT 3"
definition WL_PROT_MASK1 :: "md_addr_t \<Rightarrow> word_t" where "WL_PROT_MASK1 addr = md_lr_masks ! WL_SIZE addr"
definition WL_PROT_MASK2 :: "md_addr_t \<Rightarrow> word_t" where "WL_PROT_MASK2 addr = md_lr_masks ! (4 - WL_SIZE addr)"
definition WR_PROT_MASK1 :: "md_addr_t \<Rightarrow> word_t" where "WR_PROT_MASK1 addr = md_lr_masks ! WR_SIZE addr"
definition WR_PROT_MASK2 :: "md_addr_t \<Rightarrow> word_t" where "WR_PROT_MASK2 addr = md_lr_masks ! (4 - WR_SIZE addr)"

text \<open>The shifts: logical right in two steps, arithmetic right by a loop over the sign.\<close>

definition srl_value :: "word_t \<Rightarrow> word_t \<Rightarrow> word_t" where
  "srl_value t shamt =
     (if shamt \<noteq> 0 then c_shr (drop_bit 1 t AND NOT 0x80000000) (shamt - 1) else t)"

fun sra_loop :: "nat \<Rightarrow> word_t \<Rightarrow> word_t" where
  "sra_loop 0 v = v"
| "sra_loop (Suc n) v = sra_loop n (signed_drop_bit 1 v OR 0x80000000)"

definition sra_value :: "word_t \<Rightarrow> word_t \<Rightarrow> word_t" where
  "sra_value t shamt =
     (if t AND 0x80000000 \<noteq> 0 then sra_loop (unat shamt) t else c_sar t shamt)"

fun bitcount_loop :: "word_t \<Rightarrow> word_t \<Rightarrow> nat list \<Rightarrow> word_t \<Rightarrow> word_t" where
  "bitcount_loop n uimm [] c = c"
| "bitcount_loop n uimm (i # is) c =
     bitcount_loop n uimm is (c + c_bool (((signed_drop_bit i n AND 1) XOR uimm) = 0))"

definition bitcount :: "word_t \<Rightarrow> word_t \<Rightarrow> word_t" where
  "bitcount n uimm = bitcount_loop n uimm [0..<32] 0"

section \<open>Instructions\<close>

definition NOP_IMPL :: impl where
  "NOP_IMPL inst regs mem =
     Some (regs, mem)"

definition JUMP_IMPL :: impl where
  "JUMP_IMPL inst regs mem =
     Some (regs\<lparr>regs_NPC := (regs_PC regs AND 0xf0000000) OR push_bit 2 (TARG inst)\<rparr>, mem)"

definition JAL_IMPL :: impl where
  "JAL_IMPL inst regs mem =
     do {
       regs1 \<leftarrow> SET_GPR (regs\<lparr>regs_NPC := (regs_PC regs AND 0xf0000000) OR push_bit 2 (TARG inst)\<rparr>) 31 (regs_PC regs + 8);
       Some (regs1, mem) }"

definition JR_IMPL :: impl where
  "JR_IMPL inst regs mem =
     do {
       s \<leftarrow> GPR regs (RS inst);
       if s AND 7 \<noteq> 0 then Some (regs, mem) else Some (regs\<lparr>regs_NPC := s\<rparr>, mem) }"

definition JALR_IMPL :: impl where
  "JALR_IMPL inst regs mem =
     do {
       s \<leftarrow> GPR regs (RS inst);
       if s AND 7 \<noteq> 0 then Some (regs, mem)
       else do {
         regs1 \<leftarrow> SET_GPR regs (RD inst) (regs_PC regs + 8);
         t \<leftarrow> GPR regs1 (RS inst);
         Some (regs1\<lparr>regs_NPC := t\<rparr>, mem) } }"

definition BEQ_IMPL :: impl where
  "BEQ_IMPL inst regs mem =
     do {
       s \<leftarrow> GPR regs (RS inst); t \<leftarrow> GPR regs (RT inst);
       Some (if s = t then regs\<lparr>regs_NPC := regs_PC regs + 8 + push_bit 2 (OFS inst)\<rparr> else regs, mem) }"

definition BNE_IMPL :: impl where
  "BNE_IMPL inst regs mem =
     do {
       s \<leftarrow> GPR regs (RS inst); t \<leftarrow> GPR regs (RT inst);
       Some (if s \<noteq> t then regs\<lparr>regs_NPC := regs_PC regs + 8 + push_bit 2 (OFS inst)\<rparr> else regs, mem) }"

definition BLEZ_IMPL :: impl where
  "BLEZ_IMPL inst regs mem =
     do {
       s \<leftarrow> GPR regs (RS inst);
       Some (if sint s \<le> 0 then regs\<lparr>regs_NPC := regs_PC regs + 8 + push_bit 2 (OFS inst)\<rparr> else regs, mem) }"

definition BGTZ_IMPL :: impl where
  "BGTZ_IMPL inst regs mem =
     do {
       s \<leftarrow> GPR regs (RS inst);
       Some (if sint s > 0 then regs\<lparr>regs_NPC := regs_PC regs + 8 + push_bit 2 (OFS inst)\<rparr> else regs, mem) }"

definition BLTZ_IMPL :: impl where
  "BLTZ_IMPL inst regs mem =
     do {
       s \<leftarrow> GPR regs (RS inst);
       Some (if sint s < 0 then regs\<lparr>regs_NPC := regs_PC regs + 8 + push_bit 2 (OFS inst)\<rparr> else regs, mem) }"

definition BGEZ_IMPL :: impl where
  "BGEZ_IMPL inst regs mem =
     do {
       s \<leftarrow> GPR regs (RS inst);
       Some (if sint s \<ge> 0 then regs\<lparr>regs_NPC := regs_PC regs + 8 + push_bit 2 (OFS inst)\<rparr> else regs, mem) }"

definition BC1F_IMPL :: impl where
  "BC1F_IMPL inst regs mem =
     Some (if regs_fcc regs = 0 then regs\<lparr>regs_NPC := regs_PC regs + 8 + push_bit 2 (OFS inst)\<rparr> else regs, mem)"

definition BC1T_IMPL :: impl where
  "BC1T_IMPL inst regs mem =
     Some (if regs_fcc regs \<noteq> 0 then regs\<lparr>regs_NPC := regs_PC regs + 8 + push_bit 2 (OFS inst)\<rparr> else regs, mem)"

definition LB_IMPL :: impl where
  "LB_IMPL inst regs mem =
     do {
       base \<leftarrow> GPR regs (BS inst);
       (r, mem1) \<leftarrow> MEM_READ_BYTE mem (base + OFS inst);
       regs1 \<leftarrow> SET_GPR regs (RT inst) (scast r);
       Some (regs1, mem1) }"

definition LBU_IMPL :: impl where
  "LBU_IMPL inst regs mem =
     do {
       base \<leftarrow> GPR regs (BS inst);
       (r, mem1) \<leftarrow> MEM_READ_BYTE mem (base + OFS inst);
       regs1 \<leftarrow> SET_GPR regs (RT inst) (ucast r);
       Some (regs1, mem1) }"

definition LH_IMPL :: impl where
  "LH_IMPL inst regs mem =
     do {
       base \<leftarrow> GPR regs (BS inst);
       (r, mem1) \<leftarrow> MEM_READ_HALF mem (base + OFS inst);
       regs1 \<leftarrow> SET_GPR regs (RT inst) (scast r);
       Some (regs1, mem1) }"

definition LHU_IMPL :: impl where
  "LHU_IMPL inst regs mem =
     do {
       base \<leftarrow> GPR regs (BS inst);
       (r, mem1) \<leftarrow> MEM_READ_HALF mem (base + OFS inst);
       regs1 \<leftarrow> SET_GPR regs (RT inst) (ucast r);
       Some (regs1, mem1) }"

definition LW_IMPL :: impl where
  "LW_IMPL inst regs mem =
     do {
       base \<leftarrow> GPR regs (BS inst);
       (r, mem1) \<leftarrow> MEM_READ_WORD mem (base + OFS inst);
       regs1 \<leftarrow> SET_GPR regs (RT inst) r;
       Some (regs1, mem1) }"

definition DLW_IMPL :: impl where
  "DLW_IMPL inst regs mem =
     (if RT inst AND 1 \<noteq> 0 then Some (regs, mem)
      else do {
       base \<leftarrow> GPR regs (BS inst);
       (hi, mem1) \<leftarrow> MEM_READ_WORD mem (base + OFS inst);
       (lo, mem2) \<leftarrow> MEM_READ_WORD mem1 (base + OFS inst + 4);
       regs1 \<leftarrow> SET_GPR regs (RT inst) hi;
       regs2 \<leftarrow> SET_GPR regs1 (RT inst + 1) lo;
       Some (regs2, mem2) })"

definition L_S_IMPL :: impl where
  "L_S_IMPL inst regs mem =
     do {
       base \<leftarrow> GPR regs (BS inst);
       (r, mem1) \<leftarrow> MEM_READ_WORD mem (base + OFS inst);
       regs1 \<leftarrow> SET_FPR_L regs (FT inst) r;
       Some (regs1, mem1) }"

definition L_D_IMPL :: impl where
  "L_D_IMPL inst regs mem =
     (if FT inst AND 1 \<noteq> 0 then Some (regs, mem)
      else do {
       base \<leftarrow> GPR regs (BS inst);
       (hi, mem1) \<leftarrow> MEM_READ_WORD mem (base + OFS inst);
       (lo, mem2) \<leftarrow> MEM_READ_WORD mem1 (base + OFS inst + 4);
       regs1 \<leftarrow> SET_FPR_L regs (FT inst) hi;
       regs2 \<leftarrow> SET_FPR_L regs1 (FT inst + 1) lo;
       Some (regs2, mem2) })"

text \<open>Unaligned loads and stores: the part of the word at the aligned address.\<close>

definition LWL_IMPL :: impl where
  "LWL_IMPL inst regs mem =
     do {
       base \<leftarrow> GPR regs (BS inst);
       (w, mem1) \<leftarrow> MEM_READ_WORD mem (WL_BASE (base + OFS inst));
       rt \<leftarrow> GPR regs (RT inst);
       regs1 \<leftarrow> SET_GPR regs (RT inst)
         ((rt AND WR_PROT_MASK1 (base + OFS inst)) OR
          (push_bit (8 * (WL_SIZE (base + OFS inst) - 1)) w AND NOT (WR_PROT_MASK1 (base + OFS inst))));
       Some (regs1, mem1) }"

definition LWR_IMPL :: impl where
  "LWR_IMPL inst regs mem =
     do {
       base \<leftarrow> GPR regs (BS inst);
       (w, mem1) \<leftarrow> MEM_READ_WORD mem (WR_BASE (base + OFS inst));
       rt \<leftarrow> GPR regs (RT inst);
       regs1 \<leftarrow> SET_GPR regs (RT inst)
         ((rt AND NOT (WL_PROT_MASK2 (base + OFS inst))) OR
          (drop_bit (8 * (WR_SIZE (base + OFS inst) - 1)) w AND WL_PROT_MASK2 (base + OFS inst)));
       Some (regs1, mem1) }"

definition SB_IMPL :: impl where
  "SB_IMPL inst regs mem =
     do {
       base \<leftarrow> GPR regs (BS inst); v \<leftarrow> GPR regs (RT inst);
       mem1 \<leftarrow> MEM_WRITE_BYTE mem (base + OFS inst) (ucast v);
       Some (regs, mem1) }"

definition SH_IMPL :: impl where
  "SH_IMPL inst regs mem =
     do {
       base \<leftarrow> GPR regs (BS inst); v \<leftarrow> GPR regs (RT inst);
       mem1 \<leftarrow> MEM_WRITE_HALF mem (base + OFS inst) (ucast v);
       Some (regs, mem1) }"

definition SW_IMPL :: impl where
  "SW_IMPL inst regs mem =
     do {
       base \<leftarrow> GPR regs (BS inst); v \<leftarrow> GPR regs (RT inst);
       mem1 \<leftarrow> MEM_WRITE_WORD mem (base + OFS inst) v;
       Some (regs, mem1) }"

definition DSW_IMPL :: impl where
  "DSW_IMPL inst regs mem =
     (if RT inst AND 1 \<noteq> 0 then Some (regs, mem)
      else do {
       base \<leftarrow> GPR regs (BS inst); v \<leftarrow> GPR regs (RT inst); w \<leftarrow> GPR regs (RT inst + 1);
       mem1 \<leftarrow> MEM_WRITE_WORD mem (base + OFS inst) v;
       mem2 \<leftarrow> MEM_WRITE_WORD mem1 (base + OFS inst + 4) w;
       Some (regs, mem2) })"

definition DSZ_IMPL :: impl where
  "DSZ_IMPL inst regs mem =
     do {
       base \<leftarrow> GPR regs (BS inst); v \<leftarrow> GPR regs 0; w \<leftarrow> GPR regs 0;
       mem1 \<leftarrow> MEM_WRITE_WORD mem (base + OFS inst) v;
       mem2 \<leftarrow> MEM_WRITE_WORD mem1 (base + OFS inst + 4) w;
       Some (regs, mem2) }"

definition S_S_IMPL :: impl where
  "S_S_IMPL inst regs mem =
     do {
       base \<leftarrow> GPR regs (BS inst); v \<leftarrow> FPR_L regs (FT inst);
       mem1 \<leftarrow> MEM_WRITE_WORD mem (base + OFS inst) v;
       Some (regs, mem1) }"

definition S_D_IMPL :: impl where
  "S_D_IMPL inst regs mem =
     (if FT inst AND 1 \<noteq> 0 then Some (regs, mem)
      else do {
       base \<leftarrow> GPR regs (BS inst); v \<leftarrow> FPR_L regs (FT inst); w \<leftarrow> FPR_L regs (FT inst + 1);
       mem1 \<leftarrow> MEM_WRITE_WORD mem (base + OFS inst) v;
       mem2 \<leftarrow> MEM_WRITE_WORD mem1 (base + OFS inst + 4) w;
       Some (regs, mem2) })"

definition SWL_IMPL :: impl where
  "SWL_IMPL inst regs mem =
     do {
       base \<leftarrow> GPR regs (BS inst);
       (w, mem1) \<leftarrow> MEM_READ_WORD mem (WL_BASE (base + OFS inst));
       rt \<leftarrow> GPR regs (RT inst);
       mem2 \<leftarrow> MEM_WRITE_WORD mem1 (WL_BASE (base + OFS inst))
         ((signed_drop_bit (8 * (4 - WR_SIZE (base + OFS inst))) rt AND WR_PROT_MASK2 (base + OFS inst)) OR
          (w AND NOT (WR_PROT_MASK2 (base + OFS inst))));
       Some (regs, mem2) }"

definition SWR_IMPL :: impl where
  "SWR_IMPL inst regs mem =
     do {
       base \<leftarrow> GPR regs (BS inst);
       (w, mem1) \<leftarrow> MEM_READ_WORD mem (WR_BASE (base + OFS inst));
       rt \<leftarrow> GPR regs (RT inst);
       mem2 \<leftarrow> MEM_WRITE_WORD mem1 (WR_BASE (base + OFS inst))
         ((push_bit (8 * (4 - WL_SIZE (base + OFS inst))) rt AND NOT (WL_PROT_MASK1 (base + OFS inst))) OR
          (w AND WL_PROT_MASK1 (base + OFS inst)));
       Some (regs, mem2) }"

definition LB_RR_IMPL :: impl where
  "LB_RR_IMPL inst regs mem =
     do {
       base \<leftarrow> GPR regs (BS inst); ix \<leftarrow> GPR regs (RD inst);
       (r, mem1) \<leftarrow> MEM_READ_BYTE mem (base + ix);
       regs1 \<leftarrow> SET_GPR regs (RT inst) (scast r);
       Some (regs1, mem1) }"

definition LBU_RR_IMPL :: impl where
  "LBU_RR_IMPL inst regs mem =
     do {
       base \<leftarrow> GPR regs (BS inst); ix \<leftarrow> GPR regs (RD inst);
       (r, mem1) \<leftarrow> MEM_READ_BYTE mem (base + ix);
       regs1 \<leftarrow> SET_GPR regs (RT inst) (ucast r);
       Some (regs1, mem1) }"

definition LH_RR_IMPL :: impl where
  "LH_RR_IMPL inst regs mem =
     do {
       base \<leftarrow> GPR regs (BS inst); ix \<leftarrow> GPR regs (RD inst);
       (r, mem1) \<leftarrow> MEM_READ_HALF mem (base + ix);
       regs1 \<leftarrow> SET_GPR regs (RT inst) (scast r);
       Some (regs1, mem1) }"

definition LHU_RR_IMPL :: impl where
  "LHU_RR_IMPL inst regs mem =
     do {
       base \<leftarrow> GPR regs (BS inst); ix \<leftarrow> GPR regs (RD inst);
       (r, mem1) \<leftarrow> MEM_READ_HALF mem (base + ix);
       regs1 \<leftarrow> SET_GPR regs (RT inst) (ucast r);
       Some (regs1, mem1) }"

definition LW_RR_IMPL :: impl where
  "LW_RR_IMPL inst regs mem =
     do {
       base \<leftarrow> GPR regs (BS inst); ix \<leftarrow> GPR regs (RD inst);
       (r, mem1) \<leftarrow> MEM_READ_WORD mem (base + ix);
       regs1 \<leftarrow> SET_GPR regs (RT inst) r;
       Some (regs1, mem1) }"

definition DLW_RR_IMPL :: impl where
  "DLW_RR_IMPL inst regs mem =
     (if RT inst AND 1 \<noteq> 0 then Some (regs, mem)
      else do {
       base \<leftarrow> GPR regs (BS inst); ix \<leftarrow> GPR regs (RD inst);
       (hi, mem1) \<leftarrow> MEM_READ_WORD mem (base + ix);
       (lo, mem2) \<leftarrow> MEM_READ_WORD mem1 (base + ix + 4);
       regs1 \<leftarrow> SET_GPR regs (RT inst) hi;
       regs2 \<leftarrow> SET_GPR regs1 (RT inst + 1) lo;
       Some (regs2, mem2) })"

definition L_S_RR_IMPL :: impl where
  "L_S_RR_IMPL inst regs mem =
     do {
       base \<leftarrow> GPR regs (BS inst); ix \<leftarrow> GPR regs (RD inst);
       (r, mem1) \<leftarrow> MEM_READ_WORD mem (base + ix);
       regs1 \<leftarrow> SET_FPR_L regs (FT inst) r;
       Some (regs1, mem1) }"

definition L_D_RR_IMPL :: impl where
  "L_D_RR_IMPL inst regs mem =
     (if FT inst AND 1 \<noteq> 0 then Some (regs, mem)
      else do {
       base \<leftarrow> GPR regs (BS inst); ix \<leftarrow> GPR regs (RD inst);
       (hi, mem1) \<leftarrow> MEM_READ_WORD mem (base + ix);
       (lo, mem2) \<leftarrow> MEM_READ_WORD mem1 (base + ix + 4);
       regs1 \<leftarrow> SET_FPR_L regs (FT inst) hi;
       regs2 \<leftarrow> SET_FPR_L regs1 (FT inst + 1) lo;
       Some (regs2, mem2) })"

definition SB_RR_IMPL :: impl where
  "SB_RR_IMPL inst regs mem =
     do {
       base \<leftarrow> GPR regs (BS inst); ix \<leftarrow> GPR regs (RD inst); v \<leftarrow> GPR regs (RT inst);
       mem1 \<leftarrow> MEM_WRITE_BYTE mem (base + ix) (ucast v);
       Some (regs, mem1) }"

definition SH_RR_IMPL :: impl where
  "SH_RR_IMPL inst regs mem =
     do {
       base \<leftarrow> GPR regs (BS inst); ix \<leftarrow> GPR regs (RD inst); v \<leftarrow> GPR regs (RT inst);
       mem1 \<leftarrow> MEM_WRITE_HALF mem (base + ix) (ucast v);
       Some (regs, mem1) }"

definition SW_RR_IMPL :: impl where
  "SW_RR_IMPL inst regs mem =
     do {
       base \<leftarrow> GPR regs (BS inst); ix \<leftarrow> GPR regs (RD inst); v \<leftarrow> GPR regs (RT inst);
       mem1 \<leftarrow> MEM_WRITE_WORD mem (base + ix) v;
       Some (regs, mem1) }"

definition DSW_RR_IMPL :: impl where
  "DSW_RR_IMPL inst regs mem =
     (if RT inst AND 1 \<noteq> 0 then Some (regs, mem)
      else do {
       base \<leftarrow> GPR regs (BS inst); ix \<leftarrow> GPR regs (RD inst); v \<leftarrow> GPR regs (RT inst); w \<leftarrow> GPR regs (RT inst + 1);
       mem1 \<leftarrow> MEM_WRITE_WORD mem (base + ix) v;
       mem2 \<leftarrow> MEM_WRITE_WORD mem1 (base + ix + 4) w;
       Some (regs, mem2) })"

definition DSZ_RR_IMPL :: impl where
  "DSZ_RR_IMPL inst regs mem =
     do {
       base \<leftarrow> GPR regs (BS inst); ix \<leftarrow> GPR regs (RD inst); v \<leftarrow> GPR regs 0; w \<leftarrow> GPR regs 0;
       mem1 \<leftarrow> MEM_WRITE_WORD mem (base + ix) v;
       mem2 \<leftarrow> MEM_WRITE_WORD mem1 (base + ix + 4) w;
       Some (regs, mem2) }"

definition S_S_RR_IMPL :: impl where
  "S_S_RR_IMPL inst regs mem =
     do {
       base \<leftarrow> GPR regs (BS inst); ix \<leftarrow> GPR regs (RD inst); v \<leftarrow> FPR_L regs (FT inst);
       mem1 \<leftarrow> MEM_WRITE_WORD mem (base + ix) v;
       Some (regs, mem1) }"

definition S_D_RR_IMPL :: impl where
  "S_D_RR_IMPL inst regs mem =
     (if FT inst AND 1 \<noteq> 0 then Some (regs, mem)
      else do {
       base \<leftarrow> GPR regs (BS inst); ix \<leftarrow> GPR regs (RD inst); v \<leftarrow> FPR_L regs (FT inst); w \<leftarrow> FPR_L regs (FT inst + 1);
       mem1 \<leftarrow> MEM_WRITE_WORD mem (base + ix) v;
       mem2 \<leftarrow> MEM_WRITE_WORD mem1 (base + ix + 4) w;
       Some (regs, mem2) })"

definition L_S_RR_R2_IMPL :: impl where
  "L_S_RR_R2_IMPL inst regs mem =
     do {
       base \<leftarrow> GPR regs (BS inst); ix \<leftarrow> GPR regs (RD inst);
       (r, mem1) \<leftarrow> MEM_READ_WORD mem (base + ix + 4);
       regs1 \<leftarrow> SET_FPR_L regs (FT inst) r;
       Some (regs1, mem1) }"

definition S_S_RR_R2_IMPL :: impl where
  "S_S_RR_R2_IMPL inst regs mem =
     do {
       base \<leftarrow> GPR regs (BS inst); ix \<leftarrow> GPR regs (RD inst); v \<leftarrow> FPR_L regs (FT inst);
       mem1 \<leftarrow> MEM_WRITE_WORD mem (base + ix + 4) v;
       Some (regs, mem1) }"

definition LW_RR_R2_IMPL :: impl where
  "LW_RR_R2_IMPL inst regs mem =
     do {
       base \<leftarrow> GPR regs (BS inst); ix \<leftarrow> GPR regs (RD inst);
       (r, mem1) \<leftarrow> MEM_READ_WORD mem (base + ix + 4);
       regs1 \<leftarrow> SET_GPR regs (RT inst) r;
       Some (regs1, mem1) }"

definition SW_RR_R2_IMPL :: impl where
  "SW_RR_R2_IMPL inst regs mem =
     do {
       base \<leftarrow> GPR regs (BS inst); ix \<leftarrow> GPR regs (RD inst); v \<leftarrow> GPR regs (RT inst);
       mem1 \<leftarrow> MEM_WRITE_WORD mem (base + ix + 4) v;
       Some (regs, mem1) }"

definition ADD_IMPL :: impl where
  "ADD_IMPL inst regs mem =
     do {
       s \<leftarrow> GPR regs (RS inst); t \<leftarrow> GPR regs (RT inst);
       if OVER s t then Some (regs, mem)
       else do { regs1 \<leftarrow> SET_GPR regs (RD inst) (s + t); Some (regs1, mem) } }"

definition ADDI_IMPL :: impl where
  "ADDI_IMPL inst regs mem =
     do {
       s \<leftarrow> GPR regs (RS inst);
       if OVER s (IMM inst) then Some (regs, mem)
       else do { regs1 \<leftarrow> SET_GPR regs (RT inst) (s + IMM inst); Some (regs1, mem) } }"

definition ADDU_IMPL :: impl where
  "ADDU_IMPL inst regs mem =
     do {
       s \<leftarrow> GPR regs (RS inst); t \<leftarrow> GPR regs (RT inst);
       do { regs1 \<leftarrow> SET_GPR regs (RD inst) (s + t); Some (regs1, mem) } }"

definition ADDIU_IMPL :: impl where
  "ADDIU_IMPL inst regs mem =
     do {
       s \<leftarrow> GPR regs (RS inst);
       do { regs1 \<leftarrow> SET_GPR regs (RT inst) (s + IMM inst); Some (regs1, mem) } }"

definition SUB_IMPL :: impl where
  "SUB_IMPL inst regs mem =
     do {
       s \<leftarrow> GPR regs (RS inst); t \<leftarrow> GPR regs (RT inst);
       if UNDER s t then Some (regs, mem)
       else do { regs1 \<leftarrow> SET_GPR regs (RD inst) (s - t); Some (regs1, mem) } }"

definition SUBU_IMPL :: impl where
  "SUBU_IMPL inst regs mem =
     do {
       s \<leftarrow> GPR regs (RS inst); t \<leftarrow> GPR regs (RT inst);
       do { regs1 \<leftarrow> SET_GPR regs (RD inst) (s - t); Some (regs1, mem) } }"

definition MULT_IMPL :: impl where
  "MULT_IMPL inst regs mem =
     do {
       s \<leftarrow> GPR regs (RS inst); t \<leftarrow> GPR regs (RT inst);
       (let (hi, lo) = mult_signed s t in Some (regs\<lparr>regs_hi := hi, regs_lo := lo\<rparr>, mem)) }"

definition MULTU_IMPL :: impl where
  "MULTU_IMPL inst regs mem =
     do {
       s \<leftarrow> GPR regs (RS inst); t \<leftarrow> GPR regs (RT inst);
       (let (hi, lo) = multu t s in Some (regs\<lparr>regs_hi := hi, regs_lo := lo\<rparr>, mem)) }"

text \<open>A division by zero is a fault; the quotient of the least integer by -1 traps on the host.\<close>

definition DIV_IMPL :: impl where
  "DIV_IMPL inst regs mem =
     do {
       s \<leftarrow> GPR regs (RS inst); t \<leftarrow> GPR regs (RT inst);
       if t = 0 then Some (regs, mem)
       else if s = 0x80000000 \<and> t = - 1 then None
       else Some (regs\<lparr>regs_lo := word_of_int (sint s sdiv sint t),
                       regs_hi := word_of_int (sint s smod sint t)\<rparr>, mem) }"

definition DIVU_IMPL :: impl where
  "DIVU_IMPL inst regs mem =
     do {
       s \<leftarrow> GPR regs (RS inst); t \<leftarrow> GPR regs (RT inst);
       if t = 0 then Some (regs, mem)
       else Some (regs\<lparr>regs_lo := s div t, regs_hi := s mod t\<rparr>, mem) }"

definition MFHI_IMPL :: impl where
  "MFHI_IMPL inst regs mem =
     do { regs1 \<leftarrow> SET_GPR regs (RD inst) (regs_hi regs); Some (regs1, mem) }"

definition MTHI_IMPL :: impl where
  "MTHI_IMPL inst regs mem =
     do { s \<leftarrow> GPR regs (RS inst); Some (regs\<lparr>regs_hi := s\<rparr>, mem) }"

definition MFLO_IMPL :: impl where
  "MFLO_IMPL inst regs mem =
     do { regs1 \<leftarrow> SET_GPR regs (RD inst) (regs_lo regs); Some (regs1, mem) }"

definition MTLO_IMPL :: impl where
  "MTLO_IMPL inst regs mem =
     do { s \<leftarrow> GPR regs (RS inst); Some (regs\<lparr>regs_lo := s\<rparr>, mem) }"

definition AND_OP_IMPL :: impl where
  "AND_OP_IMPL inst regs mem =
     do {
       s \<leftarrow> GPR regs (RS inst); t \<leftarrow> GPR regs (RT inst);
       do { regs1 \<leftarrow> SET_GPR regs (RD inst) (s AND t); Some (regs1, mem) } }"

definition ANDI_IMPL :: impl where
  "ANDI_IMPL inst regs mem =
     do {
       s \<leftarrow> GPR regs (RS inst);
       do { regs1 \<leftarrow> SET_GPR regs (RT inst) (s AND UIMM inst); Some (regs1, mem) } }"

definition OR_OP_IMPL :: impl where
  "OR_OP_IMPL inst regs mem =
     do {
       s \<leftarrow> GPR regs (RS inst); t \<leftarrow> GPR regs (RT inst);
       do { regs1 \<leftarrow> SET_GPR regs (RD inst) (s OR t); Some (regs1, mem) } }"

definition ORI_IMPL :: impl where
  "ORI_IMPL inst regs mem =
     do {
       s \<leftarrow> GPR regs (RS inst);
       do { regs1 \<leftarrow> SET_GPR regs (RT inst) (s OR UIMM inst); Some (regs1, mem) } }"

definition XOR_OP_IMPL :: impl where
  "XOR_OP_IMPL inst regs mem =
     do {
       s \<leftarrow> GPR regs (RS inst); t \<leftarrow> GPR regs (RT inst);
       do { regs1 \<leftarrow> SET_GPR regs (RD inst) (s XOR t); Some (regs1, mem) } }"

definition XORI_IMPL :: impl where
  "XORI_IMPL inst regs mem =
     do {
       s \<leftarrow> GPR regs (RS inst);
       do { regs1 \<leftarrow> SET_GPR regs (RT inst) (s XOR UIMM inst); Some (regs1, mem) } }"

definition NOR_IMPL :: impl where
  "NOR_IMPL inst regs mem =
     do {
       s \<leftarrow> GPR regs (RS inst); t \<leftarrow> GPR regs (RT inst);
       do { regs1 \<leftarrow> SET_GPR regs (RD inst) (NOT (s OR t)); Some (regs1, mem) } }"

definition SLL_IMPL :: impl where
  "SLL_IMPL inst regs mem =
     do {
       s \<leftarrow> GPR regs (RT inst);
       do { regs1 \<leftarrow> SET_GPR regs (RD inst) (c_shl s (SHAMT inst)); Some (regs1, mem) } }"

definition SLLV_IMPL :: impl where
  "SLLV_IMPL inst regs mem =
     do {
       s \<leftarrow> GPR regs (RT inst); t \<leftarrow> GPR regs (RS inst);
       do { regs1 \<leftarrow> SET_GPR regs (RD inst) (c_shl s (t AND 31)); Some (regs1, mem) } }"

definition SRL_IMPL :: impl where
  "SRL_IMPL inst regs mem =
     do {
       s \<leftarrow> GPR regs (RT inst);
       do { regs1 \<leftarrow> SET_GPR regs (RD inst) (srl_value s (SHAMT inst)); Some (regs1, mem) } }"

definition SRLV_IMPL :: impl where
  "SRLV_IMPL inst regs mem =
     do {
       s \<leftarrow> GPR regs (RT inst); t \<leftarrow> GPR regs (RS inst);
       do { regs1 \<leftarrow> SET_GPR regs (RD inst) (srl_value s (t AND 31)); Some (regs1, mem) } }"

definition SRA_IMPL :: impl where
  "SRA_IMPL inst regs mem =
     do {
       s \<leftarrow> GPR regs (RT inst);
       do { regs1 \<leftarrow> SET_GPR regs (RD inst) (sra_value s (SHAMT inst)); Some (regs1, mem) } }"

definition SRAV_IMPL :: impl where
  "SRAV_IMPL inst regs mem =
     do {
       s \<leftarrow> GPR regs (RT inst); t \<leftarrow> GPR regs (RS inst);
       do { regs1 \<leftarrow> SET_GPR regs (RD inst) (sra_value s (t AND 31)); Some (regs1, mem) } }"

definition SLT_IMPL :: impl where
  "SLT_IMPL inst regs mem =
     do {
       s \<leftarrow> GPR regs (RS inst); t \<leftarrow> GPR regs (RT inst);
       do { regs1 \<leftarrow> SET_GPR regs (RD inst) (c_bool (sint s < sint t)); Some (regs1, mem) } }"

definition SLTI_IMPL :: impl where
  "SLTI_IMPL inst regs mem =
     do {
       s \<leftarrow> GPR regs (RS inst);
       do { regs1 \<leftarrow> SET_GPR regs (RT inst) (c_bool (sint s < sint (IMM inst))); Some (regs1, mem) } }"

definition SLTU_IMPL :: impl where
  "SLTU_IMPL inst regs mem =
     do {
       s \<leftarrow> GPR regs (RS inst); t \<leftarrow> GPR regs (RT inst);
       do { regs1 \<leftarrow> SET_GPR regs (RD inst) (c_bool (s < t)); Some (regs1, mem) } }"

definition SLTIU_IMPL :: impl where
  "SLTIU_IMPL inst regs mem =
     do {
       s \<leftarrow> GPR regs (RS inst);
       do { regs1 \<leftarrow> SET_GPR regs (RT inst) (c_bool (s < IMM inst)); Some (regs1, mem) } }"

text \<open>The two instructions of Project 1.\<close>

definition ADDOK_IMPL :: impl where
  "ADDOK_IMPL inst regs mem =
     do {
       s \<leftarrow> GPR regs (RS inst); t \<leftarrow> GPR regs (RT inst);
       do { regs1 \<leftarrow> SET_GPR regs (RD inst) (c_bool (\<not> OVER s t)); Some (regs1, mem) } }"

definition BITCOUNT_IMPL :: impl where
  "BITCOUNT_IMPL inst regs mem =
     do {
       s \<leftarrow> GPR regs (RS inst);
       do { regs1 \<leftarrow> SET_GPR regs (RT inst) (bitcount s (UIMM inst)); Some (regs1, mem) } }"

text \<open>Traps, the upper immediate, and moves to and from the floating point registers.\<close>

definition BREAK_IMPL :: impl where
  "BREAK_IMPL inst regs mem =
     Some (regs, mem)"

definition LUI_IMPL :: impl where
  "LUI_IMPL inst regs mem =
     do { regs1 \<leftarrow> SET_GPR regs (RT inst) (push_bit 16 (UIMM inst)); Some (regs1, mem) }"

definition MFC1_IMPL :: impl where
  "MFC1_IMPL inst regs mem =
     do { f \<leftarrow> FPR_L regs (FS inst); regs1 \<leftarrow> SET_GPR regs (RT inst) f; Some (regs1, mem) }"

definition DMFC1_IMPL :: impl where
  "DMFC1_IMPL inst regs mem =
     (if RT inst AND 1 \<noteq> 0 \<or> FS inst AND 1 \<noteq> 0 then Some (regs, mem)
      else do {
       f \<leftarrow> FPR_L regs (FS inst); regs1 \<leftarrow> SET_GPR regs (RT inst) f;
       g \<leftarrow> FPR_L regs1 (FS inst + 1); regs2 \<leftarrow> SET_GPR regs1 (RT inst + 1) g;
       Some (regs2, mem) })"

definition CFC1_IMPL :: impl where
  "CFC1_IMPL inst regs mem =
     Some (regs, mem)"

definition MTC1_IMPL :: impl where
  "MTC1_IMPL inst regs mem =
     do { t \<leftarrow> GPR regs (RT inst); regs1 \<leftarrow> SET_FPR_L regs (FS inst) t; Some (regs1, mem) }"

definition DMTC1_IMPL :: impl where
  "DMTC1_IMPL inst regs mem =
     (if FS inst AND 1 \<noteq> 0 \<or> RT inst AND 1 \<noteq> 0 then Some (regs, mem)
      else do {
       t \<leftarrow> GPR regs (RT inst); regs1 \<leftarrow> SET_FPR_L regs (FS inst) t;
       u \<leftarrow> GPR regs1 (RT inst + 1); regs2 \<leftarrow> SET_FPR_L regs1 (FS inst + 1) u;
       Some (regs2, mem) })"

definition CTC1_IMPL :: impl where
  "CTC1_IMPL inst regs mem =
     Some (regs, mem)"

section \<open>Dispatch and the main loop\<close>

text \<open>The cases of the switch, in the order of the table of Project 1, part 1.\<close>

definition machine_impls :: "(string \<Rightarrow> impl) \<Rightarrow> impl \<Rightarrow> (string \<times> impl) list" where
  "machine_impls host_fp syscall =
     [(''NOP'', NOP_IMPL), (''JUMP'', JUMP_IMPL), (''JAL'', JAL_IMPL), (''JR'', JR_IMPL),
      (''JALR'', JALR_IMPL), (''BEQ'', BEQ_IMPL), (''BNE'', BNE_IMPL), (''BLEZ'', BLEZ_IMPL),
      (''BGTZ'', BGTZ_IMPL), (''BLTZ'', BLTZ_IMPL), (''BGEZ'', BGEZ_IMPL),
      (''BC1F'', BC1F_IMPL), (''BC1T'', BC1T_IMPL), (''LB'', LB_IMPL), (''LBU'', LBU_IMPL),
      (''LH'', LH_IMPL), (''LHU'', LHU_IMPL), (''LW'', LW_IMPL), (''DLW'', DLW_IMPL),
      (''L_S'', L_S_IMPL), (''L_D'', L_D_IMPL), (''LWL'', LWL_IMPL), (''LWR'', LWR_IMPL),
      (''SB'', SB_IMPL), (''SH'', SH_IMPL), (''SW'', SW_IMPL), (''DSW'', DSW_IMPL),
      (''DSZ'', DSZ_IMPL), (''S_S'', S_S_IMPL), (''S_D'', S_D_IMPL), (''SWL'', SWL_IMPL),
      (''SWR'', SWR_IMPL), (''LB_RR'', LB_RR_IMPL), (''LBU_RR'', LBU_RR_IMPL),
      (''LH_RR'', LH_RR_IMPL), (''LHU_RR'', LHU_RR_IMPL), (''LW_RR'', LW_RR_IMPL),
      (''DLW_RR'', DLW_RR_IMPL), (''L_S_RR'', L_S_RR_IMPL), (''L_D_RR'', L_D_RR_IMPL),
      (''SB_RR'', SB_RR_IMPL), (''SH_RR'', SH_RR_IMPL), (''SW_RR'', SW_RR_IMPL),
      (''DSW_RR'', DSW_RR_IMPL), (''DSZ_RR'', DSZ_RR_IMPL), (''S_S_RR'', S_S_RR_IMPL),
      (''S_D_RR'', S_D_RR_IMPL), (''L_S_RR_R2'', L_S_RR_R2_IMPL),
      (''S_S_RR_R2'', S_S_RR_R2_IMPL), (''LW_RR_R2'', LW_RR_R2_IMPL),
      (''SW_RR_R2'', SW_RR_R2_IMPL), (''ADD'', ADD_IMPL), (''ADDI'', ADDI_IMPL),
      (''ADDU'', ADDU_IMPL), (''ADDIU'', ADDIU_IMPL), (''SUB'', SUB_IMPL),
      (''SUBU'', SUBU_IMPL), (''MULT'', MULT_IMPL), (''MULTU'', MULTU_IMPL),
      (''DIV'', DIV_IMPL), (''DIVU'', DIVU_IMPL), (''MFHI'', MFHI_IMPL), (''MTHI'', MTHI_IMPL),
      (''MFLO'', MFLO_IMPL), (''MTLO'', MTLO_IMPL), (''AND_'', AND_OP_IMPL),
      (''ANDI'', ANDI_IMPL), (''OR'', OR_OP_IMPL), (''ORI'', ORI_IMPL), (''XOR'', XOR_OP_IMPL),
      (''XORI'', XORI_IMPL), (''NOR'', NOR_IMPL), (''SLL'', SLL_IMPL), (''SLLV'', SLLV_IMPL),
      (''SRL'', SRL_IMPL), (''SRLV'', SRLV_IMPL), (''SRA'', SRA_IMPL), (''SRAV'', SRAV_IMPL),
      (''SLT'', SLT_IMPL), (''SLTI'', SLTI_IMPL), (''SLTU'', SLTU_IMPL),
      (''SLTIU'', SLTIU_IMPL), (''ADDOK'', ADDOK_IMPL), (''BITCOUNT'', BITCOUNT_IMPL),
      (''FADD_S'', host_fp ''FADD_S''), (''FADD_D'', host_fp ''FADD_D''),
      (''FSUB_S'', host_fp ''FSUB_S''), (''FSUB_D'', host_fp ''FSUB_D''),
      (''FMUL_S'', host_fp ''FMUL_S''), (''FMUL_D'', host_fp ''FMUL_D''),
      (''FDIV_S'', host_fp ''FDIV_S''), (''FDIV_D'', host_fp ''FDIV_D''),
      (''FABS_S'', host_fp ''FABS_S''), (''FABS_D'', host_fp ''FABS_D''),
      (''FMOV_S'', host_fp ''FMOV_S''), (''FMOV_D'', host_fp ''FMOV_D''),
      (''FNEG_S'', host_fp ''FNEG_S''), (''FNEG_D'', host_fp ''FNEG_D''),
      (''CVT_S_D'', host_fp ''CVT_S_D''), (''CVT_S_W'', host_fp ''CVT_S_W''),
      (''CVT_D_S'', host_fp ''CVT_D_S''), (''CVT_D_W'', host_fp ''CVT_D_W''),
      (''CVT_W_S'', host_fp ''CVT_W_S''), (''CVT_W_D'', host_fp ''CVT_W_D''),
      (''C_EQ_S'', host_fp ''C_EQ_S''), (''C_EQ_D'', host_fp ''C_EQ_D''),
      (''C_LT_S'', host_fp ''C_LT_S''), (''C_LT_D'', host_fp ''C_LT_D''),
      (''C_LE_S'', host_fp ''C_LE_S''), (''C_LE_D'', host_fp ''C_LE_D''),
      (''FSQRT_S'', host_fp ''FSQRT_S''), (''FSQRT_D'', host_fp ''FSQRT_D''),
      (''SYSCALL'', syscall), (''BREAK'', BREAK_IMPL), (''LUI'', LUI_IMPL),
      (''MFC1'', MFC1_IMPL), (''DMFC1'', DMFC1_IMPL), (''CFC1'', CFC1_IMPL),
      (''MTC1'', MTC1_IMPL), (''DMTC1'', DMTC1_IMPL), (''CTC1'', CTC1_IMPL)]"

definition exec_inst :: "(string \<times> impl) list \<Rightarrow> word_t \<Rightarrow> impl" where
  "exec_inst impls op inst regs mem =
     (if 1 \<le> unat op \<and> unat op \<le> length impls then snd (impls ! (unat op - 1)) inst regs mem
      else None)"

record sim_fast_t =
  sf_regs :: regs_t
  sf_mem :: mem_t
  sf_num_insn :: counter_t

definition MD_FETCH_INST :: "mem_t \<Rightarrow> md_addr_t \<Rightarrow> (md_inst_t \<times> mem_t) option" where
  "MD_FETCH_INST mem pc = do {
     (a, mem1) \<leftarrow> MEM_READ_WORD mem pc;
     (b, mem2) \<leftarrow> MEM_READ_WORD mem1 (pc + 4);
     Some (\<lparr>inst_a = a, inst_b = b\<rparr>, mem2) }"

text \<open>The start of \<open>sim_main()\<close> and one turn of its loop.\<close>

definition sim_fast_start :: "sim_fast_t \<Rightarrow> sim_fast_t" where
  "sim_fast_start s = s\<lparr>sf_regs := (sf_regs s)\<lparr>regs_NPC := regs_PC (sf_regs s) + 8\<rparr>\<rparr>"

definition sim_fast_step :: "(string \<times> impl) list \<Rightarrow> sim_fast_t \<Rightarrow> sim_fast_t option" where
  "sim_fast_step impls s =
     (let regs = (sf_regs s)\<lparr>regs_R := (regs_R (sf_regs s))(0 := 0)\<rparr> in do {
        (inst, mem1) \<leftarrow> MD_FETCH_INST (sf_mem s) (regs_PC regs);
        (regs1, mem2) \<leftarrow> exec_inst impls (MD_SET_OPCODE inst) inst regs mem1;
        Some (s\<lparr>sf_regs := regs1\<lparr>regs_PC := regs_NPC regs1, regs_NPC := regs_NPC regs1 + 8\<rparr>,
                sf_mem := mem2, sf_num_insn := sf_num_insn s + 1\<rparr>) })"

fun sim_fast_run :: "(string \<times> impl) list \<Rightarrow> nat \<Rightarrow> sim_fast_t \<Rightarrow> sim_fast_t option" where
  "sim_fast_run impls 0 s = Some s"
| "sim_fast_run impls (Suc n) s = do { s1 \<leftarrow> sim_fast_step impls s; sim_fast_run impls n s1 }"

section \<open>Unaligned words\<close>

lemma bit_view_word:
  assumes "n < 32"
  shows "bit (view_word v a) n = bit (v (a + of_nat (n div 8))) (n mod 8)"
proof -
  consider "n < 8" | "8 \<le> n \<and> n < 16" | "16 \<le> n \<and> n < 24" | "24 \<le> n \<and> n < 32" using assms by linarith
  then show ?thesis
  proof cases
    case 1 then show ?thesis by (simp add: view_word_def bit_word_of_bytes)
  next
    case 2
    then have "n div 8 = 1" by (simp add: div_nat_eqI)
    moreover from this have "n mod 8 = n - 8" using mult_div_mod_eq [of 8 n] by linarith
    ultimately show ?thesis using 2 by (simp add: view_word_def bit_word_of_bytes)
  next
    case 3
    then have "n div 8 = 2" by (simp add: div_nat_eqI)
    moreover from this have "n mod 8 = n - 16" using mult_div_mod_eq [of 8 n] by linarith
    ultimately show ?thesis using 3 by (simp add: view_word_def bit_word_of_bytes)
  next
    case 4
    then have "n div 8 = 3" by (simp add: div_nat_eqI)
    moreover from this have "n mod 8 = n - 24" using mult_div_mod_eq [of 8 n] by linarith
    ultimately show ?thesis using 4 by (simp add: view_word_def bit_word_of_bytes)
  qed
qed

lemma md_lr_mask: "k \<le> 4 \<Longrightarrow> md_lr_masks ! k = mask (8 * (4 - k))"
proof -
  assume "k \<le> 4"
  then consider "k = 0" | "k = 1" | "k = 2" | "k = 3" | "k = 4" by linarith
  then show ?thesis by cases (simp_all add: md_lr_masks_def mask_eq_exp_minus_1)
qed

lemma and3_less: "unat (a AND 3 :: md_addr_t) < 4"
proof -
  have "a AND 3 = take_bit 2 a" by (simp add: take_bit_eq_mask mask_eq_exp_minus_1)
  then show ?thesis by (simp add: take_bit_eq_mod unat_mod)
qed

lemma and3_nat: "unat (a AND 3 :: md_addr_t) = unat a mod 4"
proof -
  have "a AND 3 = take_bit 2 a" by (simp add: take_bit_eq_mask mask_eq_exp_minus_1)
  then show ?thesis by (simp add: take_bit_eq_mod unat_mod)
qed

lemma align_split: "(a AND NOT 3) + of_nat (unat (a AND 3)) = (a :: md_addr_t)"
proof -
  have "(a AND NOT 3) + (a AND 3) = (a AND NOT 3) OR (a AND 3)"
    by (rule disjunctive_add) (auto simp: bit_simps)
  also have "\<dots> = a" by (rule bit_word_eqI) (auto simp: bit_simps)
  finally have "(a AND NOT 3) + (a AND 3) = a" .
  then show ?thesis by simp
qed

lemma aligned4_and_not3: "aligned4 (a AND NOT 3)"
proof -
  have "NOT 3 AND 3 = (0 :: md_addr_t)" by simp
  then show ?thesis unfolding aligned4_def by (simp only: and.assoc and_zero_eq)
qed

text \<open>Reading around an unaligned word: the two aligned words and where its bytes are.\<close>

lemma bit_LWL_value:
  assumes "n < 32"
  shows "bit ((rt AND WR_PROT_MASK1 a) OR
      (push_bit (8 * (WL_SIZE a - 1)) w AND NOT (WR_PROT_MASK1 a))) n =
    (if n < 8 * (3 - unat (a AND 3)) then bit rt n else bit w (n - 8 * (3 - unat (a AND 3))))"
proof -
  have "WR_PROT_MASK1 a = mask (8 * (3 - unat (a AND 3)))" "WL_SIZE a - 1 = 3 - unat (a AND 3)"
    using and3_less [of a] by (simp_all add: WR_PROT_MASK1_def WR_SIZE_def WL_SIZE_def md_lr_mask)
  with assms show ?thesis by (auto simp: bit_simps)
qed

lemma bit_LWR_value:
  assumes "n < 32"
  shows "bit ((rt AND NOT (WL_PROT_MASK2 a)) OR
      (drop_bit (8 * (WR_SIZE a - 1)) w AND WL_PROT_MASK2 a)) n =
    (if n < 8 * (4 - unat (a AND 3)) then bit w (n + 8 * unat (a AND 3)) else bit rt n)"
proof -
  have "WL_PROT_MASK2 a = mask (8 * (4 - unat (a AND 3)))" "WR_SIZE a - 1 = unat (a AND 3)"
    using and3_less [of a] by (simp_all add: WL_PROT_MASK2_def WL_SIZE_def WR_SIZE_def md_lr_mask)
  with assms show ?thesis by (auto simp: bit_simps add.commute)
qed

lemma unaligned_word:
  fixes a :: md_addr_t
  defines "q \<equiv> unat (a AND 3)" and "a0 \<equiv> a AND NOT 3" and "a3 \<equiv> (a + 3) AND NOT 3"
  assumes n: "n < 32"
  shows "n < 8 * (4 - q) \<Longrightarrow> bit (view_word v a0) (n + 8 * q) = bit (view_word v a) n"
    and "\<not> n < 8 * (4 - q) \<Longrightarrow>
      bit (view_word v a3) (n - 8 * (4 - q)) = bit (view_word v a) n \<and> unat ((a + 3) AND 3) = q - 1"
proof -
  have q: "q < 4" and a: "a = a0 + of_nat q" using and3_less align_split by (simp_all add: q_def a0_def)
  show "bit (view_word v a0) (n + 8 * q) = bit (view_word v a) n" if "n < 8 * (4 - q)"
  proof -
    have "n + 8 * q < 32" using that q by linarith
    moreover have "(n + 8 * q) div 8 = n div 8 + q" "(n + 8 * q) mod 8 = n mod 8" by simp_all
    ultimately show ?thesis using n by (simp add: bit_view_word a add.assoc add.commute)
  qed
  show "bit (view_word v a3) (n - 8 * (4 - q)) = bit (view_word v a) n \<and> unat ((a + 3) AND 3) = q - 1"
    if ge: "\<not> n < 8 * (4 - q)"
  proof -
    have q1: "1 \<le> q" using ge n q by linarith
    have "unat (a + 3) mod 4 = (unat a + 3) mod 4294967296 mod 4" by (simp add: unat_word_ariths)
    also have "\<dots> = (unat a + 3) mod 4" by (rule mod_mod_cancel) simp
    also have "\<dots> = (q + 3) mod 4" by (simp add: q_def and3_nat mod_add_left_eq)
    also have "\<dots> = q - 1" using q q1 by (simp add: mod_if)
    finally have p: "unat ((a + 3) AND 3) = q - 1" by (simp add: and3_nat)
    have "a3 + of_nat (q - 1) = a + 3" using align_split [of "a + 3"] p by (simp add: a3_def)
    moreover have "(of_nat (q - 1) :: md_addr_t) = of_nat q - 1" using q1 by (simp add: of_nat_diff)
    ultimately have "a3 = (a0 + of_nat q + 3) - (of_nat q - 1)"
      unfolding a [symmetric] by (metis add_diff_cancel_right')
    then have a3: "a3 = a0 + 4" by simp
    have d: "n div 8 = (n - 8 * (4 - q)) div 8 + (4 - q)" "n mod 8 = (n - 8 * (4 - q)) mod 8"
    proof -
      define k where "k = n - 8 * (4 - q)"
      have e: "n = k + 8 * (4 - q)" using ge by (simp add: k_def)
      show "n div 8 = (n - 8 * (4 - q)) div 8 + (4 - q)"
        unfolding k_def [symmetric] by (subst e) (simp only: div_mult_self2 zero_neq_numeral not_False_eq_True)
      show "n mod 8 = (n - 8 * (4 - q)) mod 8"
        unfolding k_def [symmetric] by (subst e) (simp only: mod_mult_self2)
    qed
    have "a + of_nat (n div 8) = a3 + of_nat ((n - 8 * (4 - q)) div 8)"
    proof -
      have "(of_nat (4 - q) :: md_addr_t) = 4 - of_nat q" using q by (simp add: of_nat_diff)
      then show ?thesis unfolding d(1) a3 a by simp
    qed
    moreover have "n - 8 * (4 - q) < 32" using n by simp
    ultimately show ?thesis using n d(2) p by (simp add: bit_view_word)
  qed
qed


section \<open>Shifts and counts\<close>

lemma sra_loop_neg: "bit v 31 \<Longrightarrow> sra_loop n v = signed_drop_bit n v"
proof (induction n arbitrary: v)
  case (Suc n)
  have "signed_drop_bit 1 v OR s = signed_drop_bit 1 v" if "\<And>k. bit s k \<longleftrightarrow> k = 31" for s
    using Suc.prems that by (intro bit_word_eqI) (auto simp: bit_simps)
  from this [OF bit_sign_word] have e: "signed_drop_bit 1 v OR 0x80000000 = signed_drop_bit 1 v" .
  have "bit (signed_drop_bit 1 v) 31" using Suc.prems by (simp add: bit_simps)
  then have "sra_loop (Suc n) v = signed_drop_bit n (signed_drop_bit 1 v)"
    using Suc.IH e by simp
  also have "\<dots> = signed_drop_bit (Suc n) v"
    by (rule bit_word_eqI) (auto simp: bit_simps min_def not_less le_Suc_eq)
  finally show ?case .
qed simp

lemma and31_small: "unat (n :: word_t) \<le> 31 \<Longrightarrow> n AND 31 = n"
proof -
  assume "unat n \<le> 31"
  have "n AND 31 = take_bit 5 n" by (simp add: take_bit_eq_mask mask_eq_exp_minus_1)
  also have "unat \<dots> = unat n" using \<open>unat n \<le> 31\<close> by (simp add: take_bit_eq_mod unat_mod)
  finally show ?thesis by (rule word_unat_eq_iff [THEN iffD2])
qed

lemma sra_value_correct: "unat n \<le> 31 \<Longrightarrow> sra_value v n = signed_drop_bit (unat n) v"
  by (cases "bit v 31")
    (simp_all only: sra_value_def c_sar_def and31_small and_sign_bit sra_loop_neg if_True if_False)

lemma srl_value_correct:
  assumes "unat n \<le> 31"
  shows "srl_value v n = drop_bit (unat n) v"
proof (cases "n = 0")
  case False
  then have u: "unat (n - 1) = unat n - 1" and "0 < unat n"
    by (simp_all only: unat_minus_one unat_gt_0 not_False_eq_True)
  have "\<not> bit v 32" using bit_imp_le_length [of v 32] by auto
  have "(n - 1) AND 31 = n - 1" using assms u by (intro and31_small) simp
  then have "srl_value v n = drop_bit (unat n - 1) (drop_bit 1 v AND NOT 0x80000000)"
    using False u by (simp only: srl_value_def c_shr_def if_True not_False_eq_True)
  also have "drop_bit 1 v AND NOT s = drop_bit 1 v" if "\<And>k. bit s k \<longleftrightarrow> k = 31" for s
    using that \<open>\<not> bit v 32\<close> by (intro bit_word_eqI) (auto simp: bit_simps)
  note this [OF bit_sign_word]
  also have "drop_bit (unat n - 1) (drop_bit 1 v) = drop_bit (unat n) v"
    using \<open>0 < unat n\<close> by (simp only: drop_bit_drop_bit) simp
  finally show ?thesis .
qed (simp add: srl_value_def)

lemma bit_sdrop_and1: "i < 32 \<Longrightarrow> signed_drop_bit i (n :: word_t) AND 1 = of_bool (bit n i)"
  by (rule bit_word_eqI) (auto simp: bit_simps)

lemma bitcount_loop_count:
  "\<forall>i \<in> set is. i < 32 \<Longrightarrow>
   bitcount_loop n u is c = c + of_nat (length (filter (\<lambda>i. of_bool (bit n i) = u) is))"
proof (induction "is" arbitrary: c)
  case (Cons i "is")
  have "((signed_drop_bit i n AND 1) XOR u = 0) = (of_bool (bit n i) = u)"
    using Cons.prems bit_sdrop_and1 [of i n] by (simp add: xor_zero_iff)
  with Cons show ?case by (simp add: c_bool_def)
qed simp

section \<open>Properties\<close>

text \<open>
  C27: \<open>lwl\<close> at the last byte of an unaligned word followed by \<open>lwr\<close> at its first byte
  loads exactly the four bytes at that address, for every alignment of the address.
\<close>

theorem lwl_lwr_unaligned:
  assumes inv: "mem_inv mem" and r: "unat (BS i1) < 32" "unat (RT i1) < 32"
    and same: "BS i2 = BS i1" "RT i2 = RT i1" "RT i1 \<noteq> BS i1" "OFS i1 = OFS i2 + 3"
    and a: "a = regs_R regs (unat (BS i1)) + OFS i2"
  shows "\<exists>regs1 mem1 mem2. LWL_IMPL i1 regs mem = Some (regs1, mem1) \<and>
    LWR_IMPL i2 regs1 mem1 =
      Some (regs\<lparr>regs_R := (regs_R regs)(unat (RT i1) := view_word (mem_view mem) a)\<rparr>, mem2) \<and>
    mem_inv mem2 \<and> mem_view mem2 = mem_view mem"
proof -
  let ?b = "regs_R regs (unat (BS i1))" and ?v = "mem_view mem" and ?rt = "regs_R regs (unat (RT i1))"
  have a3: "?b + OFS i1 = a + 3" by (simp add: a same(4) add.assoc)
  obtain m1 where m1: "MEM_READ_WORD mem ((a + 3) AND NOT 3) = Some (view_word ?v ((a + 3) AND NOT 3), m1)"
      "mem_inv m1" "mem_view m1 = ?v" by (rule raw.rdE [OF inv aligned4_and_not3])
  obtain m2 where m2: "MEM_READ_WORD m1 (a AND NOT 3) = Some (view_word ?v (a AND NOT 3), m2)"
      "mem_inv m2" "mem_view m2 = ?v"
    using raw.rdE [OF m1(2) aligned4_and_not3, of a] m1(3) by metis
  let ?x = "(?rt AND WR_PROT_MASK1 (a + 3)) OR (push_bit (8 * (WL_SIZE (a + 3) - 1))
      (view_word ?v ((a + 3) AND NOT 3)) AND NOT (WR_PROT_MASK1 (a + 3)))"
  let ?y = "(?x AND NOT (WL_PROT_MASK2 a)) OR (drop_bit (8 * (WR_SIZE a - 1))
      (view_word ?v (a AND NOT 3)) AND WL_PROT_MASK2 a)"
  have "?y = view_word ?v a"
  proof (rule bit_word_eqI)
    fix n assume "n < LENGTH(32)"
    then have n: "n < 32" by simp
    show "bit ?y n = bit (view_word ?v a) n"
    proof (cases "n < 8 * (4 - unat (a AND 3))")
      case True
      then show ?thesis unfolding bit_LWR_value [OF n] using unaligned_word(1) [OF n] by simp
    next
      case False
      have q: "unat (a AND 3) < 4" by (rule and3_less)
      note u = unaligned_word(2) [OF n False, of ?v]
      then have s: "8 * (3 - unat ((a + 3) AND 3)) = 8 * (4 - unat (a AND 3))"
        using False n q by simp
      then have "\<not> n < 8 * (3 - unat ((a + 3) AND 3))" using False by simp
      then have "bit ?x n = bit (view_word ?v ((a + 3) AND NOT 3)) (n - 8 * (4 - unat (a AND 3)))"
        unfolding bit_LWL_value [OF n] s by simp
      with u show ?thesis unfolding bit_LWR_value [OF n] using False by simp
    qed
  qed
  moreover have "LWL_IMPL i1 regs mem = Some (regs\<lparr>regs_R := (regs_R regs)(unat (RT i1) := ?x)\<rparr>, m1)"
    using m1(1) r unfolding LWL_IMPL_def by (simp add: a3 WL_BASE_def)
  moreover have "unat (RT i1) \<noteq> unat (BS i1)" using same(3) by (simp add: word_unat_eq_iff)
  then have "LWR_IMPL i2 (regs\<lparr>regs_R := (regs_R regs)(unat (RT i1) := ?x)\<rparr>) m1 =
      Some (regs\<lparr>regs_R := (regs_R regs)(unat (RT i1) := ?y)\<rparr>, m2)"
    using m2(1) r same(1,2) unfolding LWR_IMPL_def by (simp add: a [symmetric] WR_BASE_def)
  ultimately show ?thesis using m2 by auto
qed

lemma lwl_lwr_unaligned_witness:
  "\<exists>regs1 mem1 mem2. LWL_IMPL \<lparr>inst_a = 0, inst_b = 0x01020004\<rparr> regs_init (mem_create ''mem'') = Some (regs1, mem1) \<and>
    LWR_IMPL \<lparr>inst_a = 0, inst_b = 0x01020001\<rparr> regs1 mem1 =
      Some (regs_init\<lparr>regs_R := (regs_R regs_init)(2 := 0)\<rparr>, mem2)"
  using lwl_lwr_unaligned [OF mem_inv_empty(2), of "\<lparr>inst_a = 0, inst_b = 0x01020004\<rparr>"
      "\<lparr>inst_a = 0, inst_b = 0x01020001\<rparr>" 1 regs_init "''mem''"]
  by (simp add: BS_def RS_def RT_def OFS_def IMM_def sext16_def regs_init_def mem_view_empty
      view_word_def word_of_bytes_def) blast

text \<open>
  C31: \<open>addok\<close> answers 0 exactly when the signed sum leaves the 32-bit range, or when two
  negative operands add up to the least integer, which is in range: the macro \<open>OVER\<close> that
  it negates compares with \<open>-MAXINT_VAL\<close>.
\<close>

theorem addok_exact:
  assumes "unat (RS inst) < 32" "unat (RT inst) < 32" "unat (RD inst) < 32"
  shows "ADDOK_IMPL inst regs mem =
    (let s = sint (regs_R regs (unat (RS inst))); t = sint (regs_R regs (unat (RT inst)))
     in Some (regs\<lparr>regs_R := (regs_R regs)(unat (RD inst) :=
          c_bool (\<not> (s + t > 2147483647 \<or> s + t < - 2147483648 \<or>
                     (s < 0 \<and> t < 0 \<and> s + t = - 2147483648))))\<rparr>, mem))"
proof -
  have "OVER x y \<longleftrightarrow> sint x + sint y > 2147483647 \<or> sint x + sint y < - 2147483648 \<or>
      (sint x < 0 \<and> sint y < 0 \<and> sint x + sint y = - 2147483648)" for x y
    using sint_ge [of x] sint_ge [of y] sint_lt [of x] sint_lt [of y]
    unfolding OVER_def MAXINT_VAL_def by simp arith
  then show ?thesis using assms by (simp add: ADDOK_IMPL_def Let_def)
qed

lemma addok_exact_witness:
  "ADDOK_IMPL \<lparr>inst_a = 0, inst_b = 0x01010200\<rparr>
     (regs_init\<lparr>regs_R := (\<lambda>_. 0)(1 := 0xc0000000)\<rparr>) (mem_create ''mem'') =
   Some (regs_init\<lparr>regs_R := (\<lambda>_. 0)(1 := 0xc0000000, 2 := 0)\<rparr>, mem_create ''mem'')"
  by (subst addok_exact) (simp_all add: RS_def RT_def RD_def)

text \<open>
  \<open>bitCount\<close> writes the number of one bits of its operand for the immediate 1 and the
  number of zero bits for the immediate 0; for any other immediate it writes 0.
\<close>

theorem bitcount_correct:
  assumes "unat (RS inst) < 32" "unat (RT inst) < 32"
  shows "BITCOUNT_IMPL inst regs mem =
    Some (regs\<lparr>regs_R := (regs_R regs)(unat (RT inst) :=
      (if UIMM inst = 1 then of_nat (card {i. i < 32 \<and> bit (regs_R regs (unat (RS inst))) i})
       else if UIMM inst = 0 then of_nat (card {i. i < 32 \<and> \<not> bit (regs_R regs (unat (RS inst))) i})
       else 0))\<rparr>, mem)"
proof -
  have "bitcount n u = (if u = 1 then of_nat (card {i. i < 32 \<and> bit n i})
      else if u = 0 then of_nat (card {i. i < 32 \<and> \<not> bit n i}) else 0)" for n u
  proof -
    have l: "length (filter P [0..<32]) = card {i. i < 32 \<and> P i}" for P :: "nat \<Rightarrow> bool"
    proof -
      have "length (filter P [0..<32]) = card (set (filter P [0..<32]))"
        by (rule distinct_card [symmetric]) simp
      also have "set (filter P [0..<32]) = {i. i < 32 \<and> P i}" by auto
      finally show ?thesis .
    qed
    have "bitcount n u = of_nat (card {i. i < 32 \<and> of_bool (bit n i) = u})"
      unfolding bitcount_def by (subst bitcount_loop_count) (simp_all add: l)
    moreover have "(of_bool b = u) = (if u = 1 then b else if u = 0 then \<not> b else False)" for b
      by auto
    ultimately show ?thesis by simp
  qed
  then show ?thesis using assms by (simp add: BITCOUNT_IMPL_def)
qed

lemma bitcount_correct_witness:
  "BITCOUNT_IMPL \<lparr>inst_a = 0, inst_b = 0x01020005\<rparr> regs_init (mem_create ''mem'') =
   Some (regs_init\<lparr>regs_R := (regs_R regs_init)(2 := 0)\<rparr>, mem_create ''mem'')"
  by (subst bitcount_correct) (simp_all add: RS_def RT_def UIMM_def)

text \<open>
  C32: the two-step logical and the looping arithmetic right shifts of \<open>srl\<close> and \<open>sra\<close> are
  the shifts by the amount, for amounts below the word size.
\<close>

theorem shift_right_correct:
  assumes "unat (RT inst) < 32" "unat (RD inst) < 32" "unat (SHAMT inst) \<le> 31"
  shows "SRL_IMPL inst regs mem = Some (regs\<lparr>regs_R := (regs_R regs)(unat (RD inst) :=
      drop_bit (unat (SHAMT inst)) (regs_R regs (unat (RT inst))))\<rparr>, mem) \<and>
    SRA_IMPL inst regs mem = Some (regs\<lparr>regs_R := (regs_R regs)(unat (RD inst) :=
      signed_drop_bit (unat (SHAMT inst)) (regs_R regs (unat (RT inst))))\<rparr>, mem)"
  using assms by (simp add: SRL_IMPL_def SRA_IMPL_def srl_value_correct sra_value_correct)

lemma shift_right_correct_witness:
  "SRA_IMPL \<lparr>inst_a = 0, inst_b = 0x00010204\<rparr>
     (regs_init\<lparr>regs_R := (\<lambda>_. 0)(1 := 0xf0000000)\<rparr>) (mem_create ''mem'') =
   Some (regs_init\<lparr>regs_R := (\<lambda>_. 0)(1 := 0xf0000000, 2 := 0xff000000)\<rparr>, mem_create ''mem'')"
proof -
  let ?i = "\<lparr>inst_a = 0, inst_b = 0x00010204\<rparr>"
  have f: "RT ?i = 1" "RD ?i = 2" "SHAMT ?i = 4" by (simp_all add: RT_def RD_def SHAMT_def)
  have "signed_drop_bit 4 (0xf0000000 :: word_t) = 0xff000000"
    by code_simp
  then show ?thesis
    using shift_right_correct [of ?i "regs_init\<lparr>regs_R := (\<lambda>_. 0)(1 := 0xf0000000)\<rparr>" "mem_create ''mem''"]
    by (simp add: f del: signed_drop_bit_word_numeral)
qed

end
