(* ===== verification/Pipe_State.thy ===== *)
theory Pipe_State
  imports Pisa_Exec
begin

text \<open>
  The stage buffers of the five-stage pipelines (sim-pipe.h, the same in Project 1 and
  Project 2) and their initial values.  C's \<open>int\<close> fields are 32-bit words, read as signed
  where the code compares them.
\<close>

record oprand_t =
  op_in1 :: word_t
  op_in2 :: word_t
  op_in3 :: word_t
  op_out1 :: word_t
  op_out2 :: word_t

datatype alu_func_t = ALU_NOP | ALU_ADD | ALU_SUB | ALU_AND | ALU_OR | ALU_SLT | ALU_SHTL

record ifid_buf =
  fd_inst :: md_inst_t
  fd_PC :: md_addr_t
  fd_NPC :: md_addr_t

record idex_buf =
  de_inst :: md_inst_t
  de_PC :: md_addr_t
  de_opcode :: word_t
  de_oprand :: oprand_t
  de_instFlags :: word_t
  de_func :: alu_func_t
  de_srcA :: word_t
  de_srcB :: word_t
  de_aluA :: word_t
  de_aluB :: word_t
  de_valA :: word_t
  de_dstE :: word_t
  de_dstM :: word_t
  de_rw :: word_t
  de_target :: word_t

record exmem_buf =
  em_inst :: md_inst_t
  em_PC :: md_addr_t
  em_valE :: word_t
  em_valA :: word_t
  em_dstE :: word_t
  em_dstM :: word_t
  em_rw :: word_t
  em_target :: word_t

record memwb_buf =
  mw_inst :: md_inst_t
  mw_PC :: md_addr_t
  mw_valE :: word_t
  mw_valM :: word_t
  mw_dstE :: word_t
  mw_dstM :: word_t
  mw_rw :: word_t

record wb_buf =
  wb_inst :: md_inst_t
  wb_PC :: md_addr_t
  wb_valE :: word_t
  wb_valM :: word_t
  wb_dstE :: word_t
  wb_dstM :: word_t

text \<open>The marker \<open>DNA\<close> as a register number, and an instruction made a bubble.\<close>

definition dna :: word_t where "dna = - 1"

definition make_nop :: "md_inst_t \<Rightarrow> md_inst_t" where "make_nop inst = inst\<lparr>inst_a := NOP\<rparr>"

definition is_nop :: "md_inst_t \<Rightarrow> bool" where "is_nop inst \<longleftrightarrow> inst_a inst = NOP"

lemma is_nop_make_nop [simp]: "is_nop (make_nop inst)"
  by (simp add: is_nop_def make_nop_def)

section \<open>Static storage and the init functions\<close>

definition zero_inst :: md_inst_t where "zero_inst = \<lparr>inst_a = 0, inst_b = 0\<rparr>"

definition zero_oprand :: oprand_t where
  "zero_oprand = \<lparr>op_in1 = 0, op_in2 = 0, op_in3 = 0, op_out1 = 0, op_out2 = 0\<rparr>"

definition zero_fd :: ifid_buf where "zero_fd = \<lparr>fd_inst = zero_inst, fd_PC = 0, fd_NPC = 0\<rparr>"

definition zero_de :: idex_buf where
  "zero_de = \<lparr>de_inst = zero_inst, de_PC = 0, de_opcode = 0, de_oprand = zero_oprand,
     de_instFlags = 0, de_func = ALU_NOP, de_srcA = 0, de_srcB = 0, de_aluA = 0, de_aluB = 0,
     de_valA = 0, de_dstE = 0, de_dstM = 0, de_rw = 0, de_target = 0\<rparr>"

definition zero_em :: exmem_buf where
  "zero_em = \<lparr>em_inst = zero_inst, em_PC = 0, em_valE = 0, em_valA = 0, em_dstE = 0,
     em_dstM = 0, em_rw = 0, em_target = 0\<rparr>"

definition zero_mw :: memwb_buf where
  "zero_mw = \<lparr>mw_inst = zero_inst, mw_PC = 0, mw_valE = 0, mw_valM = 0, mw_dstE = 0,
     mw_dstM = 0, mw_rw = 0\<rparr>"

definition zero_wb :: wb_buf where
  "zero_wb = \<lparr>wb_inst = zero_inst, wb_PC = 0, wb_valE = 0, wb_valM = 0, wb_dstE = 0, wb_dstM = 0\<rparr>"

definition init_fd :: "ifid_buf \<Rightarrow> ifid_buf" where
  "init_fd fd = fd\<lparr>fd_inst := make_nop (fd_inst fd), fd_PC := 0\<rparr>"

definition init_de :: "idex_buf \<Rightarrow> idex_buf" where
  "init_de de = de\<lparr>de_inst := make_nop (de_inst de), de_PC := 0, de_srcA := 0, de_srcB := 0,
     de_aluA := 0, de_aluB := 0, de_valA := 0, de_dstE := dna, de_dstM := dna, de_rw := 0\<rparr>"

definition init_em :: "exmem_buf \<Rightarrow> exmem_buf" where
  "init_em em = em\<lparr>em_inst := make_nop (em_inst em), em_PC := 0, em_valE := 0, em_valA := 0,
     em_dstE := dna, em_dstM := dna, em_rw := 0\<rparr>"

definition init_mw :: "memwb_buf \<Rightarrow> memwb_buf" where
  "init_mw mw = mw\<lparr>mw_inst := make_nop (mw_inst mw), mw_PC := 0, mw_valE := 0, mw_valM := 0,
     mw_dstE := dna, mw_dstM := dna, mw_rw := 0\<rparr>"

definition init_wb :: "wb_buf \<Rightarrow> wb_buf" where
  "init_wb wb = wb\<lparr>wb_inst := make_nop (wb_inst wb), wb_PC := 0, wb_valE := 0, wb_valM := 0,
     wb_dstE := dna, wb_dstM := dna\<rparr>"

section \<open>Pieces the pipelines share\<close>

text \<open>The operand and flag fields the \<open>DEFINST\<close> chain of \<open>do_id()\<close> assigns; an opcode outside
  the table leaves them.\<close>

definition de_decode :: "idex_buf \<Rightarrow> idex_buf" where
  "de_decode de =
     (case definst_of pisa_def (de_opcode de) of
        None \<Rightarrow> de
      | Some d \<Rightarrow> de\<lparr>de_instFlags := di_flags d,
          de_oprand := \<lparr>op_in1 = di_i1 d (de_inst de), op_in2 = di_i2 d (de_inst de),
            op_in3 = di_i3 d (de_inst de), op_out1 = di_o1 d (de_inst de),
            op_out2 = di_o2 d (de_inst de)\<rparr>\<rparr>)"

text \<open>The arithmetic of the execute stages.\<close>

definition alu :: "alu_func_t \<Rightarrow> word_t \<Rightarrow> word_t \<Rightarrow> word_t" where
  "alu func aluA aluB =
     (case func of
        ALU_ADD \<Rightarrow> aluA + aluB
      | ALU_SUB \<Rightarrow> aluA - aluB
      | ALU_AND \<Rightarrow> aluA AND aluB
      | ALU_OR \<Rightarrow> aluA OR aluB
      | ALU_SLT \<Rightarrow> c_bool (sint aluA < sint aluB)
      | ALU_SHTL \<Rightarrow> c_shl aluA aluB
      | ALU_NOP \<Rightarrow> 0)"

text \<open>The scoreboard bit of a register, and whether a source operand waits for it.\<close>

definition reg_bit :: "word_t \<Rightarrow> word_t" where "reg_bit r = c_shl 1 r"

definition waits_for :: "word_t \<Rightarrow> word_t \<Rightarrow> bool" where
  "waits_for busy r \<longleftrightarrow> sint r \<ge> 0 \<and> busy AND reg_bit r \<noteq> 0"

end
