(* ===== verification/UCache.thy ===== *)
theory UCache
  imports Memory
begin

text \<open>
  The unified cache of Project 2 (ucache.h and the cache part of sim-pipe.c): 16 sets of at
  most \<open>SET_NUM\<close> lines of 16 bytes, kept in each set as a queue, write-back, replaced first
  in first out.  A set's queue is the list of its lines from \<open>head\<close> along \<open>next\<close> to
  \<open>tail\<close>; \<open>data[4]\<close> is its 16 bytes in host order.  A word access that runs past the end of
  \<open>data\<close> (an offset above 12) is outside the array: no result.  The specification is the
  flat view \<open>cache_view\<close>: the line's byte where the address is cached, the memory's where
  it is not.
\<close>

section \<open>State and address fields\<close>

definition SET_NUM :: int where "SET_NUM = 4"

definition ADDR_TAG :: "md_addr_t \<Rightarrow> word_t" where "ADDR_TAG addr = drop_bit 8 addr"
definition ADDR_INDEX :: "md_addr_t \<Rightarrow> word_t" where "ADDR_INDEX addr = drop_bit 4 (addr AND 0xF0)"
definition ADDR_OFFSET :: "md_addr_t \<Rightarrow> nat" where "ADDR_OFFSET addr = unat (addr AND 0xF)"

record cache_line_t =
  line_data :: "byte_t list"
  line_tag :: "24 word"
  line_dirty :: bool
  line_valid :: bool
  line_ref_count :: word_t

record cache_set_t =
  set_lines :: "cache_line_t list"
  set_n :: int

record cache_t =
  cache_sets :: "word_t \<Rightarrow> cache_set_t"
  cache_enable :: word_t
  cache_accesses :: word_t
  cache_hit :: word_t
  cache_miss :: word_t
  cache_replace :: word_t
  cache_wb :: word_t

text \<open>The function pointer \<open>cache_word_func\<close>: the line and the caller's word, at an offset.\<close>

type_synonym cache_word_func =
  "cache_line_t \<Rightarrow> word_t \<Rightarrow> nat \<Rightarrow> (cache_line_t \<times> word_t) option"

section \<open>Operations\<close>

definition en_cache_set :: "cache_set_t \<Rightarrow> cache_line_t \<Rightarrow> cache_set_t" where
  "en_cache_set cset line = cset\<lparr>set_lines := set_lines cset @ [line], set_n := set_n cset + 1\<rparr>"

definition de_cache_set :: "cache_set_t \<Rightarrow> cache_set_t option" where
  "de_cache_set cset =
     (if set_n cset = 0 then Some cset
      else (case set_lines cset of
              [] \<Rightarrow> None
            | head # rest \<Rightarrow> Some (cset\<lparr>set_lines := rest, set_n := set_n cset - 1\<rparr>)))"

definition cache_word_read :: cache_word_func where
  "cache_word_read line dst offset =
     (if offset + 4 \<le> length (line_data line)
      then Some (line, word_of_bytes (take 4 (drop offset (line_data line)))) else None)"

definition cache_word_write :: cache_word_func where
  "cache_word_write line src offset =
     (if offset + 4 \<le> length (line_data line)
      then Some (line\<lparr>line_data := take offset (line_data line) @ bytes_of_word src @
                        drop (offset + 4) (line_data line), line_dirty := True\<rparr>, src)
      else None)"

text \<open>The loop of \<open>malloc_cache_line()\<close> over the words of the line.\<close>

fun line_fetch :: "mem_t \<Rightarrow> md_addr_t \<Rightarrow> nat list \<Rightarrow> (byte_t list \<times> mem_t) option" where
  "line_fetch mem addr [] = Some ([], mem)"
| "line_fetch mem addr (i # is) = do {
     (w, mem1) \<leftarrow> MEM_READ_WORD mem (addr + of_nat (i * 4));
     (bs, mem2) \<leftarrow> line_fetch mem1 addr is;
     Some (bytes_of_word w @ bs, mem2) }"

definition malloc_cache_line :: "mem_t \<Rightarrow> md_addr_t \<Rightarrow> (cache_line_t \<times> mem_t) option" where
  "malloc_cache_line mem addr = do {
     (bs, mem1) \<leftarrow> line_fetch mem addr [0, 1, 2, 3];
     Some (\<lparr>line_data = bs, line_tag = ucast (ADDR_TAG addr), line_dirty = False,
            line_valid = True, line_ref_count = 0\<rparr>, mem1) }"

definition line_base :: "24 word \<Rightarrow> word_t \<Rightarrow> md_addr_t" where
  "line_base tag index = push_bit 8 (ucast tag) OR push_bit 4 index"

fun line_store :: "mem_t \<Rightarrow> md_addr_t \<Rightarrow> byte_t list \<Rightarrow> nat list \<Rightarrow> mem_t option" where
  "line_store mem addr data [] = Some mem"
| "line_store mem addr data (i # is) = do {
     mem1 \<leftarrow> MEM_WRITE_WORD mem (addr + of_nat (i * 4)) (word_of_bytes (take 4 (drop (i * 4) data)));
     line_store mem1 addr data is }"

definition cache_write_back :: "mem_t \<Rightarrow> cache_line_t \<Rightarrow> word_t \<Rightarrow> (cache_line_t \<times> mem_t) option" where
  "cache_write_back mem line index = do {
     mem1 \<leftarrow> line_store mem (line_base (line_tag line) index) (line_data line) [0, 1, 2, 3];
     Some (line\<lparr>line_dirty := False\<rparr>, mem1) }"

definition set_update :: "cache_t \<Rightarrow> word_t \<Rightarrow> cache_set_t \<Rightarrow> cache_t" where
  "set_update cache index cset = cache\<lparr>cache_sets := (cache_sets cache)(index := cset)\<rparr>"

definition add_into_cache_set ::
    "cache_t \<Rightarrow> mem_t \<Rightarrow> cache_line_t \<Rightarrow> word_t \<Rightarrow> (cache_t \<times> mem_t) option" where
  "add_into_cache_set cache mem line index =
     (let cset = cache_sets cache index in
      if set_n cset \<ge> SET_NUM then
        (case set_lines cset of
           [] \<Rightarrow> None
         | head # rest \<Rightarrow> do {
             (head1, cache1, mem1) \<leftarrow>
               (if line_dirty head then do {
                  (h, m) \<leftarrow> cache_write_back mem head index;
                  Some (h, cache\<lparr>cache_wb := cache_wb cache + 1\<rparr>, m) }
                else Some (head, cache, mem));
             set1 \<leftarrow> de_cache_set (cset\<lparr>set_lines := head1 # rest\<rparr>);
             Some (set_update (cache1\<lparr>cache_replace := cache_replace cache1 + 1\<rparr>) index
                     (en_cache_set set1 line), mem1) })
      else Some (set_update cache index (en_cache_set cset line), mem))"

text \<open>
  The search loop of \<open>cache_access()\<close>: it does not stop at a hit.  The result is the lines,
  the caller's word, the \<open>miss\<close> flag and the hit counter.
\<close>

fun hit_loop :: "cache_word_func \<Rightarrow> word_t \<Rightarrow> nat \<Rightarrow> cache_line_t list \<Rightarrow> word_t \<Rightarrow> bool \<Rightarrow> word_t \<Rightarrow>
    (cache_line_t list \<times> word_t \<times> bool \<times> word_t) option" where
  "hit_loop func tag offset [] word miss hits = Some ([], word, miss, hits)"
| "hit_loop func tag offset (line # lines) word miss hits =
     (if line_valid line \<and> tag = ucast (line_tag line) then do {
        (line1, word1) \<leftarrow> func (line\<lparr>line_ref_count := line_ref_count line + 1\<rparr>) word offset;
        (lines1, word2, miss1, hits1) \<leftarrow> hit_loop func tag offset lines word1 False (hits + 1);
        Some (line1 # lines1, word2, miss1, hits1) }
      else do {
        (lines1, word2, miss1, hits1) \<leftarrow> hit_loop func tag offset lines word miss hits;
        Some (line # lines1, word2, miss1, hits1) })"

text \<open>
  After a miss \<open>line\<close> points to the line just queued, the last of its set, and \<open>func\<close>
  works on it in place.
\<close>

definition tail_access :: "cache_word_func \<Rightarrow> cache_set_t \<Rightarrow> word_t \<Rightarrow> nat \<Rightarrow>
    (cache_set_t \<times> word_t) option" where
  "tail_access func cset word offset =
     (if set_lines cset = [] then None
      else do {
        (line1, word1) \<leftarrow> func (last (set_lines cset)) word offset;
        Some (cset\<lparr>set_lines := butlast (set_lines cset) @ [line1]\<rparr>, word1) })"

definition cache_access :: "cache_t \<Rightarrow> mem_t \<Rightarrow> md_addr_t \<Rightarrow> word_t \<Rightarrow> cache_word_func \<Rightarrow>
    (word_t \<times> word_t \<times> cache_t \<times> mem_t) option" where
  "cache_access cache mem addr word func =
     (let tag = ADDR_TAG addr; index = ADDR_INDEX addr; offset = ADDR_OFFSET addr;
          cset = cache_sets cache index; align_addr = addr AND NOT 0xF;
          cache1 = cache\<lparr>cache_accesses := cache_accesses cache + 1\<rparr>
      in do {
        (lines, word1, miss, hits) \<leftarrow>
          hit_loop func tag offset (set_lines cset) word True (cache_hit cache1);
        (let cache2 = set_update (cache1\<lparr>cache_hit := hits\<rparr>) index (cset\<lparr>set_lines := lines\<rparr>) in
         if miss then do {
           (line, mem1) \<leftarrow> malloc_cache_line mem align_addr;
           (cache3, mem2) \<leftarrow> add_into_cache_set
              (cache2\<lparr>cache_miss := cache_miss cache2 + 1\<rparr>) mem1 line index;
           (set1, word2) \<leftarrow> tail_access func (cache_sets cache3 index) word1 offset;
           Some (10, word2, set_update cache3 index set1, mem2) }
         else Some (1, word1, cache2, mem)) })"

definition cache_read :: "cache_t \<Rightarrow> mem_t \<Rightarrow> md_addr_t \<Rightarrow> word_t \<Rightarrow>
    (word_t \<times> word_t \<times> cache_t \<times> mem_t) option" where
  "cache_read cache mem addr word = cache_access cache mem addr word cache_word_read"

definition cache_write :: "cache_t \<Rightarrow> mem_t \<Rightarrow> md_addr_t \<Rightarrow> word_t \<Rightarrow>
    (word_t \<times> word_t \<times> cache_t \<times> mem_t) option" where
  "cache_write cache mem addr word = cache_access cache mem addr word cache_word_write"

fun flush_lines :: "mem_t \<Rightarrow> word_t \<Rightarrow> cache_line_t list \<Rightarrow> (cache_line_t list \<times> mem_t) option" where
  "flush_lines mem i [] = Some ([], mem)"
| "flush_lines mem i (line # lines) = do {
     (line1, mem1) \<leftarrow> (if line_dirty line then cache_write_back mem line i else Some (line, mem));
     (lines1, mem2) \<leftarrow> flush_lines mem1 i lines;
     Some (line1 # lines1, mem2) }"

fun flush_sets :: "cache_t \<Rightarrow> mem_t \<Rightarrow> word_t list \<Rightarrow> (cache_t \<times> mem_t) option" where
  "flush_sets cache mem [] = Some (cache, mem)"
| "flush_sets cache mem (i # is) = do {
     (lines, mem1) \<leftarrow> flush_lines mem i (set_lines (cache_sets cache i));
     flush_sets (set_update cache i ((cache_sets cache i)\<lparr>set_lines := lines\<rparr>)) mem1 is }"

definition cache_flush :: "cache_t \<Rightarrow> mem_t \<Rightarrow> (cache_t \<times> mem_t) option" where
  "cache_flush cache mem = flush_sets cache mem (map of_nat [0..<16])"

text \<open>The cache as \<open>sim_init()\<close> leaves it: the static storage is zero.\<close>

definition cache_init :: cache_t where
  "cache_init =
     \<lparr>cache_sets = (\<lambda>_. \<lparr>set_lines = [], set_n = 0\<rparr>), cache_enable = 1, cache_accesses = 0,
      cache_hit = 0, cache_miss = 0, cache_replace = 0, cache_wb = 0\<rparr>"


section \<open>Address fields\<close>

lemma ADDR_TAG_nat: "unat (ADDR_TAG a) = unat a div 256"
  by (simp add: ADDR_TAG_def drop_bit_eq_div unat_div)

lemma ADDR_OFFSET_nat: "ADDR_OFFSET a = unat a mod 16"
proof -
  have "a AND 0xF = take_bit 4 a" by (simp add: take_bit_eq_mask mask_eq_exp_minus_1)
  then show ?thesis by (simp add: ADDR_OFFSET_def take_bit_eq_mod unat_mod)
qed

lemma ADDR_INDEX_nat: "unat (ADDR_INDEX a) = unat a div 16 mod 16"
proof -
  have m: "(0xF0 :: md_addr_t) = push_bit 4 (mask 4)" by (simp add: mask_eq_exp_minus_1)
  have "drop_bit 4 (a AND 0xF0) = take_bit 4 (drop_bit 4 a)"
    unfolding m by (rule bit_word_eqI) (auto simp: bit_simps)
  then show ?thesis
    by (simp add: ADDR_INDEX_def take_bit_eq_mod drop_bit_eq_div unat_mod unat_div)
qed

lemma ADDR_TAG_24: "ucast (ucast (ADDR_TAG a) :: 24 word) = ADDR_TAG a"
  by (rule bit_word_eqI) (auto simp: ADDR_TAG_def bit_simps dest: bit_imp_le_length)

lemma unat_ucast_24: "unat (ucast (t :: 24 word) :: word_t) = unat t"
proof -
  have "unat t < 2 ^ 24" using unsigned_less [of t, where ?'a = nat] by simp
  then show ?thesis by (simp add: unsigned_ucast_eq take_bit_nat_eq_self)
qed

lemma ucast_24_inj: "(ucast (s :: 24 word) :: word_t) = ucast t \<longleftrightarrow> s = t"
  by (metis unat_ucast_24 word_unat_eq_iff)

text \<open>A line's base address and an offset give back tag, index and offset.\<close>

lemma field_arith:
  fixes t i k x :: nat
  assumes i: "i < 16" and k: "k < 16"
  shows "(t * 256 + i * 16 + k) div 256 = t"
    and "(t * 256 + i * 16 + k) div 16 mod 16 = i"
    and "(t * 256 + i * 16 + k) mod 16 = k"
proof -
  have e: "t * 256 + i * 16 + k = (t * 16 + i) * 16 + k" by simp
  have d: "(t * 256 + i * 16 + k) div 16 = t * 16 + i"
    unfolding e using k by (simp only: div_mult_self3 div_less add_0_right)
  have m: "(t * 256 + i * 16 + k) div 256 = (t * 256 + i * 16 + k) div 16 div 16"
    by (simp only: div_mult2_eq [symmetric]) simp
  show "(t * 256 + i * 16 + k) div 256 = t"
    unfolding m d using i by simp
  show "(t * 256 + i * 16 + k) div 16 mod 16 = i"
    unfolding d using i by simp
  show "(t * 256 + i * 16 + k) mod 16 = k"
    unfolding e using k by (simp only: mod_mult_self3 mod_less)
qed

lemma field_split:
  fixes x :: nat
  shows "x div 256 * 256 + x div 16 mod 16 * 16 + x mod 16 = x"
proof -
  have "x div 256 = x div 16 div 16" by (simp only: div_mult2_eq [symmetric]) simp
  then have "x div 256 * 16 + x div 16 mod 16 = x div 16" by simp
  then have "(x div 256 * 16 + x div 16 mod 16) * 16 + x mod 16 = x" by simp
  then show ?thesis by simp
qed

lemma line_base_nat:
  assumes "unat i < 16"
  shows "unat (line_base t i) = unat t * 256 + unat i * 16"
proof -
  have b: "n < 4" if "bit i n" for n
  proof (rule ccontr)
    assume "\<not> n < 4"
    have "i = take_bit 4 i"
      using assms by (simp add: take_bit_eq_mod word_unat_eq_iff unat_mod)
    then have "bit i n \<Longrightarrow> n < 4" by (metis bit_take_bit_iff)
    with that \<open>\<not> n < 4\<close> show False by simp
  qed
  have "line_base t i = push_bit 8 (ucast t) + push_bit 4 i"
    unfolding line_base_def
    by (rule disjunctive_add [symmetric]) (auto simp: bit_simps dest: b)
  then have e: "line_base t i = ucast t * 256 + i * 16"
    by (simp add: push_bit_eq_mult)
  have "unat t < 2 ^ 24" using unsigned_less [of t, where ?'a = nat] by simp
  then show ?thesis using assms unfolding e
    by (simp add: unat_word_ariths unat_ucast_24)
qed

lemma line_offset_nat:
  assumes i: "unat i < 16" and k: "k < 16"
  shows "unat (line_base t i + of_nat k) = unat t * 256 + unat i * 16 + k"
proof -
  have "unat t < 2 ^ 24" using unsigned_less [of t, where ?'a = nat] by simp
  then show ?thesis
    using i k by (simp add: unat_word_ariths line_base_nat [OF i] unat_of_nat)
qed

lemma line_offset_fields:
  assumes i: "unat i < 16" and k: "k < 16"
  shows "ADDR_TAG (line_base t i + of_nat k) = ucast t"
    and "ADDR_INDEX (line_base t i + of_nat k) = i"
    and "ADDR_OFFSET (line_base t i + of_nat k) = k"
  using field_arith(1-3) [OF i k]
  by (simp_all only: word_unat_eq_iff ADDR_TAG_nat ADDR_INDEX_nat ADDR_OFFSET_nat
      line_offset_nat [OF i k] unat_ucast_24)

lemma ADDR_INDEX_less: "unat (ADDR_INDEX a) < 16"
  by (simp add: ADDR_INDEX_nat)

lemma ADDR_OFFSET_less: "ADDR_OFFSET a < 16"
  by (simp add: ADDR_OFFSET_nat)

lemma line_base_addr: "line_base (ucast (ADDR_TAG a)) (ADDR_INDEX a) + of_nat (ADDR_OFFSET a) = a"
proof (rule word_unat_eq_iff [THEN iffD2])
  have "unat (ucast (ADDR_TAG a) :: 24 word) = unat (ADDR_TAG a)"
    by (metis ADDR_TAG_24 unat_ucast_24)
  then have t: "unat (ucast (ADDR_TAG a) :: 24 word) = unat a div 256"
    by (simp only: ADDR_TAG_nat)
  have "unat (line_base (ucast (ADDR_TAG a)) (ADDR_INDEX a) + of_nat (ADDR_OFFSET a)) =
      unat (ucast (ADDR_TAG a) :: 24 word) * 256 + unat (ADDR_INDEX a) * 16 + ADDR_OFFSET a"
    by (rule line_offset_nat [OF ADDR_INDEX_less ADDR_OFFSET_less])
  also have "\<dots> = unat a"
    unfolding t unfolding ADDR_INDEX_nat ADDR_OFFSET_nat by (rule field_split)
  finally show "unat (line_base (ucast (ADDR_TAG a)) (ADDR_INDEX a) + of_nat (ADDR_OFFSET a)) = unat a" .
qed

lemma addr_fields_inj:
  "ADDR_TAG a = ADDR_TAG b \<Longrightarrow> ADDR_INDEX a = ADDR_INDEX b \<Longrightarrow> ADDR_OFFSET a = ADDR_OFFSET b \<Longrightarrow> a = b"
  by (metis line_base_addr)

lemma align_addr_bits:
  "(addr :: md_addr_t) AND NOT (mask 4) =
     push_bit 8 (drop_bit 8 addr) OR push_bit 4 (drop_bit 4 (addr AND push_bit 4 (mask 4)))"
  apply (rule bit_word_eqI)
  subgoal for n by (cases "n < 8"; cases "n < 4") (auto simp: bit_simps dest: bit_imp_le_length)
  done

lemma align_addr_base: "addr AND NOT 0xF = line_base (ucast (ADDR_TAG addr)) (ADDR_INDEX addr)"
proof -
  have m: "mask 4 = (0xF :: md_addr_t)" "push_bit 4 (0xF :: md_addr_t) = 0xF0"
    by (simp_all add: mask_eq_exp_minus_1)
  show ?thesis
    using align_addr_bits [of addr] unfolding m line_base_def ADDR_TAG_24
    by (simp only: ADDR_TAG_def ADDR_INDEX_def)
qed


section \<open>The view of a set's lines\<close>

definition line_hit :: "md_addr_t \<Rightarrow> cache_line_t \<Rightarrow> bool" where
  "line_hit a line \<longleftrightarrow> line_valid line \<and> ADDR_TAG a = ucast (line_tag line)"

definition lines_view :: "cache_line_t list \<Rightarrow> view \<Rightarrow> view" where
  "lines_view ls v a =
     (case List.find (line_hit a) ls of Some l \<Rightarrow> line_data l ! ADDR_OFFSET a | None \<Rightarrow> v a)"

text \<open>A line holds its 16 bytes, and the memory's bytes while it is clean.\<close>

definition line_ok :: "view \<Rightarrow> word_t \<Rightarrow> cache_line_t \<Rightarrow> bool" where
  "line_ok v i l \<longleftrightarrow> length (line_data l) = 16 \<and> line_valid l \<and>
     (\<not> line_dirty l \<longrightarrow> line_data l = view_bytes v (line_base (line_tag l) i) 16)"

definition lines_ok :: "view \<Rightarrow> word_t \<Rightarrow> cache_line_t list \<Rightarrow> bool" where
  "lines_ok v i ls \<longleftrightarrow> distinct (map line_tag ls) \<and> (\<forall>l \<in> set ls. line_ok v i l)"

definition cache_view :: "cache_t \<Rightarrow> mem_t \<Rightarrow> view" where
  "cache_view c m a = lines_view (set_lines (cache_sets c (ADDR_INDEX a))) (mem_view m) a"

definition set_ok :: "view \<Rightarrow> word_t \<Rightarrow> cache_set_t \<Rightarrow> bool" where
  "set_ok v i s \<longleftrightarrow> set_n s = int (length (set_lines s)) \<and> length (set_lines s) \<le> 4 \<and>
     lines_ok v i (set_lines s)"

definition cache_inv :: "cache_t \<Rightarrow> mem_t \<Rightarrow> bool" where
  "cache_inv c m \<longleftrightarrow> mem_inv m \<and> (\<forall>i. unat i < 16 \<longrightarrow> set_ok (mem_view m) i (cache_sets c i))"

lemma view_store_line:
  assumes i: "unat i < 16" and len: "length data = 16"
  shows "view_store v (line_base t i) data a =
    (if ADDR_TAG a = ucast t \<and> ADDR_INDEX a = i then data ! ADDR_OFFSET a else v a)"
proof -
  have vs: "view_store v (line_base t i) data a =
      (if unat (a - line_base t i) < 16 then data ! unat (a - line_base t i) else v a)"
    using len by (simp add: view_store_nth)
  show ?thesis
  proof (cases "unat (a - line_base t i) < 16")
    case True
    have "a = line_base t i + of_nat (unat (a - line_base t i))" by simp
    with line_offset_fields [OF i True, of t] show ?thesis using vs True by metis
  next
    case False
    have "\<not> (ADDR_TAG a = ucast t \<and> ADDR_INDEX a = i)"
    proof
      assume "ADDR_TAG a = ucast t \<and> ADDR_INDEX a = i"
      then have "a - line_base t i = of_nat (ADDR_OFFSET a)"
        using line_base_addr [of a] ADDR_TAG_24 [of a] ucast_24_inj
        by (metis add_diff_cancel_left')
      then have "unat (a - line_base t i) = ADDR_OFFSET a"
        using ADDR_OFFSET_less [of a] by (simp add: unat_of_nat)
      with False ADDR_OFFSET_less [of a] show False by simp
    qed
    with False vs show ?thesis by auto
  qed
qed

lemma line_bytes_nth:
  assumes "ADDR_TAG a = ucast t" "ADDR_INDEX a = i"
  shows "view_bytes v (line_base t i) 16 ! ADDR_OFFSET a = v a"
proof -
  have "line_base t i + of_nat (ADDR_OFFSET a) = a"
    using assms line_base_addr [of a] ADDR_TAG_24 [of a] ucast_24_inj by metis
  then show ?thesis using ADDR_OFFSET_less [of a] by (simp add: view_bytes_nth)
qed

lemma line_bytes_cong:
  assumes i: "unat i < 16"
    and eq: "\<And>a. ADDR_TAG a = ucast t \<Longrightarrow> ADDR_INDEX a = i \<Longrightarrow> v' a = v a"
  shows "view_bytes v' (line_base t i) 16 = view_bytes v (line_base t i) 16"
  by (rule view_bytes_eqI) (simp_all add: view_bytes_nth eq line_offset_fields [OF i])

lemma line_hit_unique:
  assumes "distinct (map line_tag ls)" "l \<in> set ls" "k \<in> set ls" "line_hit a l" "line_hit a k"
  shows "l = k"
  using assms by (auto simp: line_hit_def ucast_24_inj intro: map_of_key_unique)

lemma lines_view_hit:
  assumes "distinct (map line_tag ls)" "l \<in> set ls" "line_hit a l"
  shows "lines_view ls v a = line_data l ! ADDR_OFFSET a"
proof -
  from assms(2,3) obtain k where k: "List.find (line_hit a) ls = Some k"
    using find_None_iff by fastforce
  then have "k \<in> set ls" "line_hit a k" by (auto simp: find_Some_iff)
  with line_hit_unique [OF assms(1,2)] assms(3) k show ?thesis by (auto simp: lines_view_def)
qed

lemma lines_view_miss: "\<forall>l \<in> set ls. \<not> line_hit a l \<Longrightarrow> lines_view ls v a = v a"
  by (auto simp: lines_view_def find_None_iff [THEN iffD2])

lemma line_ok_cong:
  assumes "unat i < 16" "\<And>a. ADDR_TAG a = ucast (line_tag l) \<Longrightarrow> ADDR_INDEX a = i \<Longrightarrow> v' a = v a"
  shows "line_ok v' i l = line_ok v i l"
  using line_bytes_cong [OF assms] by (simp add: line_ok_def)

lemma line_ok_clean_nth:
  assumes "line_ok v i l" "\<not> line_dirty l" "line_hit a l" "ADDR_INDEX a = i"
  shows "line_data l ! ADDR_OFFSET a = v a"
  using assms by (auto simp: line_ok_def line_hit_def line_bytes_nth)


text \<open>The four steps a set goes through: write back in place, drop, append, change in place.\<close>

lemma lines_view_cases:
  assumes "distinct (map line_tag ls)"
  obtains (hit) l where "l \<in> set ls" "line_hit a l" "lines_view ls v a = line_data l ! ADDR_OFFSET a"
  | (miss) "\<forall>l \<in> set ls. \<not> line_hit a l" "lines_view ls v a = v a"
  by (metis assms lines_view_hit lines_view_miss)

lemma lines_write_back:
  assumes ok: "lines_ok v i (pre @ l # post)" and i: "unat i < 16"
    and v': "v' = view_store v (line_base (line_tag l) i) (line_data l)"
  shows "lines_ok v' i (pre @ l\<lparr>line_dirty := False\<rparr> # post)"
    and "ADDR_INDEX a = i \<Longrightarrow>
      lines_view (pre @ l\<lparr>line_dirty := False\<rparr> # post) v' a = lines_view (pre @ l # post) v a"
    and "ADDR_INDEX a \<noteq> i \<Longrightarrow> v' a = v a"
proof -
  let ?l = "l\<lparr>line_dirty := False\<rparr>"
  from ok have d: "distinct (map line_tag (pre @ l # post))" and len: "length (line_data l) = 16"
    by (auto simp: lines_ok_def line_ok_def)
  then have d': "distinct (map line_tag (pre @ ?l # post))" by simp
  note vs = view_store_line [OF i len, of v "line_tag l", folded v']
  have other: "line_ok v' i k = line_ok v i k" if "line_tag k \<noteq> line_tag l" for k
    using that by (intro line_ok_cong i) (auto simp: vs ucast_24_inj)
  have "line_data l = view_bytes v' (line_base (line_tag l) i) 16"
    by (rule view_bytes_eqI [symmetric])
       (simp_all add: len vs line_offset_fields [OF i])
  then have "line_ok v' i ?l" using ok by (auto simp: lines_ok_def line_ok_def)
  then show "lines_ok v' i (pre @ ?l # post)"
    using ok d other by (auto simp: lines_ok_def image_iff)
  show "v' a = v a" if "ADDR_INDEX a \<noteq> i" using that by (simp add: vs)
  show "lines_view (pre @ ?l # post) v' a = lines_view (pre @ l # post) v a" if ai: "ADDR_INDEX a = i"
    using d'
  proof (cases rule: lines_view_cases [where a = a and v = v'])
    case (hit k)
    then obtain k0 where "k0 \<in> set (pre @ l # post)" "line_hit a k0" "line_data k0 = line_data k"
      by (cases "k = ?l") (auto simp: line_hit_def)
    then have "lines_view (pre @ l # post) v a = line_data k ! ADDR_OFFSET a"
      using lines_view_hit [OF d, of k0 a v] by metis
    with hit show ?thesis by simp
  next
    case miss
    then have m: "\<forall>k \<in> set (pre @ l # post). \<not> line_hit a k" by (auto simp: line_hit_def)
    then have "v' a = v a" using ok by (auto simp: vs line_hit_def lines_ok_def line_ok_def)
    with miss(2) lines_view_miss [OF m] show ?thesis by simp
  qed
qed

lemma lines_drop_clean:
  assumes ok: "lines_ok v i (l # ls)" and clean: "\<not> line_dirty l"
  shows "lines_ok v i ls"
    and "ADDR_INDEX a = i \<Longrightarrow> lines_view ls v a = lines_view (l # ls) v a"
proof -
  show "lines_ok v i ls" using ok by (simp add: lines_ok_def)
  have d: "distinct (map line_tag (l # ls))" using ok by (simp add: lines_ok_def)
  show "lines_view ls v a = lines_view (l # ls) v a" if ai: "ADDR_INDEX a = i"
  proof (cases "line_hit a l")
    case True
    then have "\<forall>k \<in> set ls. \<not> line_hit a k"
      using d by (auto simp: line_hit_def ucast_24_inj image_iff)
    then have "lines_view ls v a = v a" by (rule lines_view_miss)
    moreover have "line_data l ! ADDR_OFFSET a = v a"
      using ok clean True ai by (intro line_ok_clean_nth) (auto simp: lines_ok_def)
    ultimately show ?thesis using lines_view_hit [OF d, of l] True by simp
  next
    case False
    then show ?thesis by (simp add: lines_view_def)
  qed
qed

lemma lines_append_clean:
  assumes ok: "lines_ok v i ls" and l: "line_ok v i l" "\<not> line_dirty l"
    and new: "line_tag l \<notin> line_tag ` set ls"
  shows "lines_ok v i (ls @ [l])"
    and "ADDR_INDEX a = i \<Longrightarrow> lines_view (ls @ [l]) v a = lines_view ls v a"
proof -
  show ok': "lines_ok v i (ls @ [l])" using ok l new by (auto simp: lines_ok_def)
  then have d': "distinct (map line_tag (ls @ [l]))" by (simp add: lines_ok_def)
  have d: "distinct (map line_tag ls)" using ok by (simp add: lines_ok_def)
  show "lines_view (ls @ [l]) v a = lines_view ls v a" if ai: "ADDR_INDEX a = i"
    using d
  proof (cases rule: lines_view_cases [where a = a and v = v])
    case (hit k)
    then show ?thesis using lines_view_hit [OF d', of k a] by simp
  next
    case miss
    show ?thesis
    proof (cases "line_hit a l")
      case True
      then have "lines_view (ls @ [l]) v a = v a"
        using lines_view_hit [OF d', of l a v] line_ok_clean_nth [OF l True ai] by simp
      with miss show ?thesis by simp
    next
      case False
      with miss lines_view_miss [of "ls @ [l]" a v] show ?thesis by auto
    qed
  qed
qed

lemma lines_change:
  assumes ok: "lines_ok v i (pre @ l # post)"
    and l': "line_ok v i l'" "line_tag l' = line_tag l" "line_valid l'"
  shows "lines_ok v i (pre @ l' # post)"
    and "lines_view (pre @ l' # post) v a =
      (if line_hit a l then line_data l' ! ADDR_OFFSET a else lines_view (pre @ l # post) v a)"
proof -
  have d: "distinct (map line_tag (pre @ l # post))" using ok by (simp add: lines_ok_def)
  then have d': "distinct (map line_tag (pre @ l' # post))" using l' by simp
  show "lines_ok v i (pre @ l' # post)" using ok l' d' by (auto simp: lines_ok_def)
  have h: "line_hit a l' = line_hit a l"
    using ok l' by (auto simp: line_hit_def lines_ok_def line_ok_def)
  then show "lines_view (pre @ l' # post) v a =
      (if line_hit a l then line_data l' ! ADDR_OFFSET a else lines_view (pre @ l # post) v a)"
    using lines_view_hit [OF d', of l' a v]
    by (auto simp: lines_view_def find_append_case split: option.splits)
qed


section \<open>Lines to and from memory\<close>

lemma line_word_fits:
  assumes i: "unat i < 16" and k: "k \<in> {0, 4, 8, 12}"
  shows "aligned4 (line_base t i + of_nat k)"
proof -
  have u: "unat (line_base t i + of_nat k) = unat t * 256 + unat i * 16 + k"
    using k by (intro line_offset_nat [OF i]) auto
  have "unat (line_base t i + of_nat k) mod 4 = 0"
    unfolding u using k by (auto simp: mod_add_eq [symmetric])
  then have "take_bit 2 (line_base t i + of_nat k) = 0"
    by (simp add: take_bit_eq_mod unat_mod word_unat_eq_iff)
  then show ?thesis
    by (simp add: aligned4_def take_bit_eq_mask mask_eq_exp_minus_1)
qed

lemma line_words_aligned:
  assumes "unat i < 16"
  shows "aligned4 (line_base t i)" "aligned4 (line_base t i + 4)"
    "aligned4 (line_base t i + 8)" "aligned4 (line_base t i + 12)"
  using line_word_fits [OF assms, of 0 t] line_word_fits [OF assms, of 4 t]
    line_word_fits [OF assms, of 8 t] line_word_fits [OF assms, of 12 t] by simp_all

lemma line_fetch_spec:
  assumes inv: "mem_inv m" and i: "unat i < 16"
  shows "\<exists>m'. line_fetch m (line_base t i) [0, 1, 2, 3] =
      Some (view_bytes (mem_view m) (line_base t i) 16, m') \<and> mem_inv m' \<and> mem_view m' = mem_view m"
proof -
  let ?a = "line_base t i"
  note al = line_words_aligned [OF i, of t]
  obtain m1 where m1: "MEM_READ_WORD m ?a = Some (view_word (mem_view m) ?a, m1)" "mem_inv m1"
      "mem_view m1 = mem_view m" using raw.rdE [OF inv al(1)] by auto
  obtain m2 where m2: "MEM_READ_WORD m1 (?a + 4) = Some (view_word (mem_view m) (?a + 4), m2)"
      "mem_inv m2" "mem_view m2 = mem_view m" using raw.rdE [OF m1(2) al(2)] m1(3) by auto
  obtain m3 where m3: "MEM_READ_WORD m2 (?a + 8) = Some (view_word (mem_view m) (?a + 8), m3)"
      "mem_inv m3" "mem_view m3 = mem_view m" using raw.rdE [OF m2(2) al(3)] m2(3) by auto
  obtain m4 where m4: "MEM_READ_WORD m3 (?a + 12) = Some (view_word (mem_view m) (?a + 12), m4)"
      "mem_inv m4" "mem_view m4 = mem_view m" using raw.rdE [OF m3(2) al(4)] m3(3) by auto
  have "view_bytes (mem_view m) ?a 16 =
      bytes_of_word (view_word (mem_view m) ?a) @ bytes_of_word (view_word (mem_view m) (?a + 4)) @
      bytes_of_word (view_word (mem_view m) (?a + 8)) @ bytes_of_word (view_word (mem_view m) (?a + 12))"
    by (simp add: view_word_bytes) (simp add: view_bytes_4 numeral_eq_Suc add.assoc)
  with m1 m2 m3 m4 show ?thesis by simp
qed

lemma view_store_quarters:
  "length d0 = 4 \<Longrightarrow> length d1 = 4 \<Longrightarrow> length d2 = 4 \<Longrightarrow>
   view_store v a (d0 @ d1 @ d2 @ d3) =
     view_store (view_store (view_store (view_store v a d0) (a + 4) d1) (a + 8) d2) (a + 12) d3"
  by (simp add: view_store_append add.assoc)

lemma line_store_spec:
  assumes inv: "mem_inv m" and i: "unat i < 16" and len: "length data = 16"
  shows "\<exists>m'. line_store m (line_base t i) data [0, 1, 2, 3] = Some m' \<and> mem_inv m' \<and>
    mem_view m' = view_store (mem_view m) (line_base t i) data"
proof -
  let ?a = "line_base t i" and ?w = "\<lambda>i. word_of_bytes (take 4 (drop (i * 4) data))"
  note al = line_words_aligned [OF i, of t]
  obtain m1 where m1: "MEM_WRITE_WORD m ?a (?w 0) = Some m1" "mem_inv m1"
      "mem_view m1 = view_set_word (mem_view m) ?a (?w 0)" using raw.wrE [OF inv al(1)] by auto
  obtain m2 where m2: "MEM_WRITE_WORD m1 (?a + 4) (?w 1) = Some m2" "mem_inv m2"
      "mem_view m2 = view_set_word (mem_view m1) (?a + 4) (?w 1)" using raw.wrE [OF m1(2) al(2)] by auto
  obtain m3 where m3: "MEM_WRITE_WORD m2 (?a + 8) (?w 2) = Some m3" "mem_inv m3"
      "mem_view m3 = view_set_word (mem_view m2) (?a + 8) (?w 2)" using raw.wrE [OF m2(2) al(3)] by auto
  obtain m4 where m4: "MEM_WRITE_WORD m3 (?a + 12) (?w 3) = Some m4" "mem_inv m4"
      "mem_view m4 = view_set_word (mem_view m3) (?a + 12) (?w 3)" using raw.wrE [OF m3(2) al(4)] by auto
  have "data = take 4 data @ take 4 (drop 4 data) @ take 4 (drop 8 data) @ take 4 (drop 12 data)"
    using len append_take_drop_id [of 4 "drop 4 data"] append_take_drop_id [of 4 "drop 8 data"]
    by (simp add: take_all)
  then have "view_store (mem_view m) ?a data =
      view_store (view_store (view_store (view_store (mem_view m) ?a (take 4 data))
        (?a + 4) (take 4 (drop 4 data))) (?a + 8) (take 4 (drop 8 data))) (?a + 12) (take 4 (drop 12 data))"
    using len by (subst \<open>data = _\<close>, intro view_store_quarters) simp_all
  with m1 m2 m3 m4 len show ?thesis by (simp add: view_set_word_store)
qed


lemma cache_write_back_spec:
  assumes inv: "mem_inv m" and i: "unat i < 16" and len: "length (line_data l) = 16"
  shows "\<exists>m'. cache_write_back m l i = Some (l\<lparr>line_dirty := False\<rparr>, m') \<and> mem_inv m' \<and>
    mem_view m' = view_store (mem_view m) (line_base (line_tag l) i) (line_data l)"
  using line_store_spec [OF assms, of "line_tag l"] by (auto simp: cache_write_back_def simp del: line_store.simps)

section \<open>The search loop\<close>

lemma hit_loop_miss:
  "\<forall>l \<in> set ls. \<not> line_hit a l \<Longrightarrow>
   hit_loop func (ADDR_TAG a) off ls w miss hits = Some (ls, w, miss, hits)"
  by (induction ls) (auto simp: line_hit_def)

lemma hit_loop_hit:
  assumes "\<forall>k \<in> set pre. \<not> line_hit a k" "line_hit a l" "\<forall>k \<in> set post. \<not> line_hit a k"
  shows "hit_loop func (ADDR_TAG a) off (pre @ l # post) w miss hits = do {
     (l1, w1) \<leftarrow> func (l\<lparr>line_ref_count := line_ref_count l + 1\<rparr>) w off;
     Some (pre @ l1 # post, w1, False, hits + 1) }"
  using assms(1)
proof (induction pre)
  case Nil
  have "line_valid l \<and> ADDR_TAG a = ucast (line_tag l)" using assms(2) by (simp add: line_hit_def)
  then show ?case
    using hit_loop_miss [OF assms(3)] by (auto split: Option.bind_splits)
next
  case (Cons k pre)
  then have "\<not> (line_valid k \<and> ADDR_TAG a = ucast (line_tag k))" by (simp add: line_hit_def)
  with Cons show ?case by (auto split: Option.bind_splits)
qed

text \<open>A set either has exactly one line for an address or none.\<close>

lemma set_lookup_cases:
  assumes "distinct (map line_tag ls)"
  obtains (hit) pre l post where "ls = pre @ l # post" "line_hit a l"
      "\<forall>k \<in> set pre. \<not> line_hit a k" "\<forall>k \<in> set post. \<not> line_hit a k"
  | (miss) "\<forall>l \<in> set ls. \<not> line_hit a l"
proof (cases "\<exists>l \<in> set ls. line_hit a l")
  case True
  then obtain pre l post where ls: "ls = pre @ l # post" and h: "line_hit a l"
    by (metis split_list)
  have "\<not> line_hit a k" if "k \<in> set pre \<or> k \<in> set post" for k
    using that assms h unfolding ls by (auto simp: line_hit_def ucast_24_inj)
  with ls h show thesis by (intro hit) auto
qed (auto intro: miss)

section \<open>One set changes\<close>

text \<open>
  A step that replaces the lines of one set, and memory only in that set's addresses,
  keeps the invariant and the view of the cache if it does so for the set.
\<close>

lemma set_step:
  assumes inv: "cache_inv c m" and i: "unat i < 16" and m': "mem_inv m'"
    and other: "\<And>j. j \<noteq> i \<Longrightarrow> cache_sets c' j = cache_sets c j"
    and mem: "\<And>a. ADDR_INDEX a \<noteq> i \<Longrightarrow> mem_view m' a = mem_view m a"
    and ok: "set_ok (mem_view m') i (cache_sets c' i)"
    and view: "\<And>a. ADDR_INDEX a = i \<Longrightarrow> lines_view (set_lines (cache_sets c' i)) (mem_view m') a = f a"
  shows "cache_inv c' m'"
    and "cache_view c' m' a = (if ADDR_INDEX a = i then f a else cache_view c m a)"
proof -
  have "line_ok (mem_view m') j l = line_ok (mem_view m) j l" if "unat j < 16" "j \<noteq> i" for j l
    using that mem by (intro line_ok_cong) auto
  then have "set_ok (mem_view m') j s = set_ok (mem_view m) j s" if "unat j < 16" "j \<noteq> i" for j s
    using that by (simp add: set_ok_def lines_ok_def)
  then show "cache_inv c' m'"
    using inv m' ok other unfolding cache_inv_def by metis
  show "cache_view c' m' a = (if ADDR_INDEX a = i then f a else cache_view c m a)"
    using view [of a] other [of "ADDR_INDEX a"] mem [of a]
    by (auto simp: cache_view_def lines_view_def split: option.split)
qed


section \<open>The access\<close>

text \<open>First in, first out: the tags of a set, oldest first, after an access to a tag.\<close>

definition fifo_step :: "'t list \<Rightarrow> 't \<Rightarrow> 't list" where
  "fifo_step tags t =
     (if t \<in> set tags then tags else (if length tags < 4 then tags else tl tags) @ [t])"

text \<open>
  What happens before the caller's function works on the line: the line for the address is
  in the set, the view is unchanged, the counters tell hit from miss, the tags moved by one
  FIFO step and the other sets are untouched.
\<close>

definition line_present ::
    "cache_t \<Rightarrow> mem_t \<Rightarrow> md_addr_t \<Rightarrow> cache_t \<Rightarrow> mem_t \<Rightarrow> cache_line_t list \<Rightarrow> cache_line_t \<Rightarrow>
     cache_line_t list \<Rightarrow> word_t \<Rightarrow> bool" where
  "line_present c m a c1 m1 pre l post lat \<longleftrightarrow>
     cache_inv c1 m1 \<and> cache_view c1 m1 = cache_view c m \<and>
     set_lines (cache_sets c1 (ADDR_INDEX a)) = pre @ l # post \<and> line_hit a l \<and>
     map line_tag (pre @ l # post) =
       fifo_step (map line_tag (set_lines (cache_sets c (ADDR_INDEX a)))) (ucast (ADDR_TAG a)) \<and>
     (\<forall>j. j \<noteq> ADDR_INDEX a \<longrightarrow> cache_sets c1 j = cache_sets c j) \<and>
     cache_accesses c1 = cache_accesses c + 1 \<and>
     (if \<exists>k \<in> set (set_lines (cache_sets c (ADDR_INDEX a))). line_hit a k
      then lat = 1 \<and> cache_hit c1 = cache_hit c + 1 \<and> cache_miss c1 = cache_miss c
      else lat = 10 \<and> cache_hit c1 = cache_hit c \<and> cache_miss c1 = cache_miss c + 1)"

lemma line_hit_tag: "line_hit a l \<Longrightarrow> line_tag l = ucast (ADDR_TAG a)"
  by (metis ADDR_TAG_24 line_hit_def ucast_24_inj)

lemma cache_access_hit:
  assumes inv: "cache_inv c m"
    and ls: "set_lines (cache_sets c (ADDR_INDEX a)) = pre @ l # post"
    and h: "line_hit a l" "\<forall>k \<in> set pre. \<not> line_hit a k" "\<forall>k \<in> set post. \<not> line_hit a k"
  shows "\<exists>c1 l1. line_present c m a c1 m pre l1 post 1 \<and>
    cache_access c m a w func = do {
      (l2, w2) \<leftarrow> func l1 w (ADDR_OFFSET a);
      Some (1, w2, set_update c1 (ADDR_INDEX a)
        ((cache_sets c1 (ADDR_INDEX a))\<lparr>set_lines := pre @ l2 # post\<rparr>), m) }"
proof -
  let ?i = "ADDR_INDEX a" and ?l = "l\<lparr>line_ref_count := line_ref_count l + 1\<rparr>"
  let ?s = "(cache_sets c ?i)\<lparr>set_lines := pre @ ?l # post\<rparr>"
  let ?c = "set_update (c\<lparr>cache_accesses := cache_accesses c + 1, cache_hit := cache_hit c + 1\<rparr>) ?i ?s"
  have ok: "set_ok (mem_view m) ?i (cache_sets c ?i)"
    using inv ADDR_INDEX_less by (simp add: cache_inv_def)
  then have lok: "lines_ok (mem_view m) ?i (pre @ l # post)" by (simp add: set_ok_def ls)
  then have "line_ok (mem_view m) ?i ?l" by (auto simp: lines_ok_def line_ok_def)
  with lok have ch: "lines_ok (mem_view m) ?i (pre @ ?l # post)"
    "lines_view (pre @ ?l # post) (mem_view m) b = lines_view (pre @ l # post) (mem_view m) b" for b
    using lines_change(1) [of "mem_view m" ?i pre l post ?l]
      lines_change(2) [of "mem_view m" ?i pre l post ?l b]
      lines_view_hit [of "pre @ l # post" l b "mem_view m"]
    by (auto simp: lines_ok_def line_ok_def)
  have m: "mem_inv m" using inv by (simp add: cache_inv_def)
  have ok': "set_ok (mem_view m) ?i (cache_sets ?c ?i)"
    using ok ch(1) by (simp add: set_ok_def set_update_def ls)
  note st = set_step [OF inv ADDR_INDEX_less m _ _ ok']
  have inv': "cache_inv ?c m" by (rule st) (auto simp: set_update_def)
  have view: "cache_view ?c m = cache_view c m"
  proof (rule ext)
    fix b show "cache_view ?c m b = cache_view c m b"
      using st(2) [where f = "cache_view c m" and a = b] ch(2)
      by (simp add: set_update_def) (simp add: cache_view_def ls)
  qed
  have "line_present c m a ?c m pre ?l post 1"
    using inv' view h ls line_hit_tag [OF h(1)]
    by (auto simp: line_present_def set_update_def fifo_step_def line_hit_def)
  moreover have "cache_access c m a w func = do {
      (l2, w2) \<leftarrow> func ?l w (ADDR_OFFSET a);
      Some (1, w2, set_update ?c ?i ((cache_sets ?c ?i)\<lparr>set_lines := pre @ l2 # post\<rparr>), m) }"
    unfolding cache_access_def Let_def ls hit_loop_hit [OF h(2,1,3)]
    by (auto simp: set_update_def split: Option.bind_splits)
  ultimately show ?thesis by blast
qed


text \<open>A queue operation on a set keeps \<open>n\<close> in step with the lines.\<close>

lemma en_cache_set_simps [simp]:
  "set_lines (en_cache_set s l) = set_lines s @ [l]" "set_n (en_cache_set s l) = set_n s + 1"
  by (simp_all add: en_cache_set_def)

lemma de_cache_set_Cons:
  "set_n s \<noteq> 0 \<Longrightarrow> set_lines s = l # ls \<Longrightarrow>
   de_cache_set s = Some (s\<lparr>set_lines := ls, set_n := set_n s - 1\<rparr>)"
  by (simp add: de_cache_set_def)

lemma add_into_cache_set_spec:
  assumes inv: "cache_inv c m" and i: "unat i < 16"
    and l: "line_ok (mem_view m) i l" "\<not> line_dirty l"
    and new: "line_tag l \<notin> line_tag ` set (set_lines (cache_sets c i))"
  shows "\<exists>c' m' ls. add_into_cache_set c m l i = Some (c', m') \<and> cache_inv c' m' \<and>
    cache_view c' m' = cache_view c m \<and> set_lines (cache_sets c' i) = ls @ [l] \<and>
    map line_tag (ls @ [l]) = fifo_step (map line_tag (set_lines (cache_sets c i))) (line_tag l) \<and>
    (\<forall>j. j \<noteq> i \<longrightarrow> cache_sets c' j = cache_sets c j) \<and> cache_accesses c' = cache_accesses c \<and>
    cache_hit c' = cache_hit c \<and> cache_miss c' = cache_miss c"
proof -
  let ?s = "cache_sets c i"
  have ok: "set_ok (mem_view m) i ?s" using inv i by (simp add: cache_inv_def)
  then have lok: "lines_ok (mem_view m) i (set_lines ?s)" and n: "set_n ?s = int (length (set_lines ?s))"
    and le: "length (set_lines ?s) \<le> 4"
    by (auto simp: set_ok_def)
  have m: "mem_inv m" using inv by (simp add: cache_inv_def)
  \<comment> \<open>appending the line, to the set as it is after the eviction\<close>
  have app: "cache_inv c' m' \<and> cache_view c' m' = cache_view c m"
    if mm: "mem_inv m'" and other: "\<And>j. j \<noteq> i \<Longrightarrow> cache_sets c' j = cache_sets c j"
      and mem: "\<And>a. ADDR_INDEX a \<noteq> i \<Longrightarrow> mem_view m' a = mem_view m a"
      and ls: "set_lines (cache_sets c' i) = ls @ [l]" "set_n (cache_sets c' i) = int (length ls) + 1"
        "length ls < 4" "lines_ok (mem_view m') i ls" "line_tag l \<notin> line_tag ` set ls"
        "line_ok (mem_view m') i l"
      and view: "\<And>a. ADDR_INDEX a = i \<Longrightarrow> lines_view ls (mem_view m') a = cache_view c m a"
    for c' m' ls
  proof -
    have "set_ok (mem_view m') i (cache_sets c' i)"
      using ls l lines_append_clean(1) [of "mem_view m'" i ls l] by (simp add: set_ok_def)
    moreover have "lines_view (set_lines (cache_sets c' i)) (mem_view m') a = cache_view c m a"
      if "ADDR_INDEX a = i" for a
      using ls l view [OF that] lines_append_clean(2) [of "mem_view m'" i ls l a] that by simp
    ultimately have "cache_inv c' m'"
      and "\<And>a. cache_view c' m' a = (if ADDR_INDEX a = i then cache_view c m a else cache_view c m a)"
      using set_step [OF inv i mm other mem] by blast+
    then show ?thesis by auto
  qed
  show ?thesis
  proof (cases "length (set_lines ?s) < 4")
    case True
    let ?c = "set_update c i (en_cache_set ?s l)"
    have "add_into_cache_set c m l i = Some (?c, m)"
      using True n by (simp add: add_into_cache_set_def SET_NUM_def)
    moreover have "cache_inv ?c m \<and> cache_view ?c m = cache_view c m"
      using True n lok new l m by (intro app) (auto simp: set_update_def cache_view_def)
    moreover have "map line_tag (set_lines ?s @ [l]) = fifo_step (map line_tag (set_lines ?s)) (line_tag l)"
      using new True by (auto simp: fifo_step_def)
    ultimately show ?thesis by (auto simp: set_update_def)
  next
    case False
    with le obtain h rest where hr: "set_lines ?s = h # rest" "length rest = 3"
      by (cases "set_lines ?s") auto
    let ?h = "h\<lparr>line_dirty := False\<rparr>"
    show ?thesis
    proof (cases "line_dirty h")
      case True
      have "length (line_data h) = 16" using lok hr by (simp add: lines_ok_def line_ok_def)
      then obtain m' where m': "cache_write_back m h i = Some (?h, m')" "mem_inv m'"
          "mem_view m' = view_store (mem_view m) (line_base (line_tag h) i) (line_data h)"
        using cache_write_back_spec [OF m i] by blast
      note wb = lines_write_back [where pre = "[]", simplified, OF lok [unfolded hr(1)] i m'(3)]
      note dr = lines_drop_clean [OF wb(1), simplified]
      let ?c = "set_update (c\<lparr>cache_wb := cache_wb c + 1, cache_replace := cache_replace c + 1\<rparr>) i
         (en_cache_set (?s\<lparr>set_lines := rest, set_n := set_n ?s - 1\<rparr>) l)"
      have run: "add_into_cache_set c m l i = Some (?c, m')"
        using True n hr m'(1) by (simp add: add_into_cache_set_def SET_NUM_def de_cache_set_def)
      have "line_ok (mem_view m') i l = line_ok (mem_view m) i l"
        using new hr \<open>length (line_data h) = 16\<close>
        by (intro line_ok_cong i) (auto simp: m'(3) view_store_line [OF i] ucast_24_inj)
      then have "cache_inv ?c m' \<and> cache_view ?c m' = cache_view c m"
        using n hr new l m' dr wb(2,3)
        by (intro app [where ls = rest]) (auto simp: set_update_def cache_view_def)
      then show ?thesis
        using run hr new by (auto simp: set_update_def fifo_step_def)
    next
      case False
      note dr = lines_drop_clean [OF lok [unfolded hr(1)] False]
      let ?c = "set_update (c\<lparr>cache_replace := cache_replace c + 1\<rparr>) i
         (en_cache_set (?s\<lparr>set_lines := rest, set_n := set_n ?s - 1\<rparr>) l)"
      have run: "add_into_cache_set c m l i = Some (?c, m)"
        using False n hr by (simp add: add_into_cache_set_def SET_NUM_def de_cache_set_def)
      have "cache_inv ?c m \<and> cache_view ?c m = cache_view c m"
        using n hr new l m dr
        by (intro app [where ls = rest]) (auto simp: set_update_def cache_view_def)
      then show ?thesis
        using run hr new by (auto simp: set_update_def fifo_step_def)
    qed
  qed
qed


lemma cache_access_miss:
  assumes inv: "cache_inv c m"
    and miss: "\<forall>k \<in> set (set_lines (cache_sets c (ADDR_INDEX a))). \<not> line_hit a k"
  shows "\<exists>c1 m1 ls l. line_present c m a c1 m1 ls l [] 10 \<and>
    cache_access c m a w func = do {
      (l2, w2) \<leftarrow> func l w (ADDR_OFFSET a);
      Some (10, w2, set_update c1 (ADDR_INDEX a)
        ((cache_sets c1 (ADDR_INDEX a))\<lparr>set_lines := ls @ [l2]\<rparr>), m1) }"
proof -
  let ?i = "ADDR_INDEX a" and ?t = "ucast (ADDR_TAG a) :: 24 word"
  have i: "unat ?i < 16" by (rule ADDR_INDEX_less)
  have m: "mem_inv m" and ok: "set_ok (mem_view m) ?i (cache_sets c ?i)"
    using inv i by (auto simp: cache_inv_def)
  obtain m1 where m1: "line_fetch m (line_base ?t ?i) [0, 1, 2, 3] =
      Some (view_bytes (mem_view m) (line_base ?t ?i) 16, m1)" "mem_inv m1" "mem_view m1 = mem_view m"
    using line_fetch_spec [OF m i, of ?t] by auto
  let ?l = "\<lparr>line_data = view_bytes (mem_view m) (line_base ?t ?i) 16, line_tag = ?t,
      line_dirty = False, line_valid = True, line_ref_count = 0\<rparr>"
  let ?c = "set_update (c\<lparr>cache_accesses := cache_accesses c + 1, cache_hit := cache_hit c,
      cache_miss := cache_miss c + 1\<rparr>) ?i (cache_sets c ?i)"
  have al: "malloc_cache_line m (a AND NOT 0xF) = Some (?l, m1)"
    unfolding malloc_cache_line_def align_addr_base m1(1)
    using line_offset_fields(1) [OF i, of 0 ?t] by (simp add: ADDR_TAG_24)
  have inv': "cache_inv ?c m1" "cache_view ?c m1 = cache_view c m"
    using inv m1(2) by (simp_all add: cache_inv_def cache_view_def set_update_def fun_eq_iff m1(3))
  have "line_tag ?l \<notin> line_tag ` set (set_lines (cache_sets ?c ?i))"
    using miss ok by (auto simp: line_hit_def set_update_def set_ok_def lines_ok_def line_ok_def)
      (metis ADDR_TAG_24)
  moreover have "line_ok (mem_view m1) ?i ?l" by (simp add: line_ok_def m1)
  ultimately obtain c1 m2 ls where add: "add_into_cache_set ?c m1 ?l ?i = Some (c1, m2)"
    "cache_inv c1 m2" "cache_view c1 m2 = cache_view c m" "set_lines (cache_sets c1 ?i) = ls @ [?l]"
    "map line_tag (ls @ [?l]) = fifo_step (map line_tag (set_lines (cache_sets ?c ?i))) (line_tag ?l)"
    "\<forall>j. j \<noteq> ?i \<longrightarrow> cache_sets c1 j = cache_sets ?c j"
    "cache_accesses c1 = cache_accesses c + 1" "cache_hit c1 = cache_hit c"
    "cache_miss c1 = cache_miss c + 1"
    using add_into_cache_set_spec [OF inv'(1) i, of ?l] inv'(2) by (auto simp: set_update_def)
  have "line_hit a ?l" by (simp add: line_hit_def ADDR_TAG_24)
  then have "line_present c m a c1 m2 ls ?l [] 10"
    using add miss by (auto simp: line_present_def set_update_def)
  moreover have "cache_access c m a w func = do {
      (l2, w2) \<leftarrow> func ?l w (ADDR_OFFSET a);
      Some (10, w2, set_update c1 ?i ((cache_sets c1 ?i)\<lparr>set_lines := ls @ [l2]\<rparr>), m2) }"
    unfolding cache_access_def Let_def hit_loop_miss [OF miss]
    using al add(1,4)
    by (auto simp: set_update_def tail_access_def split: Option.bind_splits)
  ultimately show ?thesis by blast
qed

lemma cache_access_present:
  assumes inv: "cache_inv c m"
  shows "\<exists>c1 m1 pre l post lat. line_present c m a c1 m1 pre l post lat \<and>
    cache_access c m a w func = do {
      (l2, w2) \<leftarrow> func l w (ADDR_OFFSET a);
      Some (lat, w2, set_update c1 (ADDR_INDEX a)
        ((cache_sets c1 (ADDR_INDEX a))\<lparr>set_lines := pre @ l2 # post\<rparr>), m1) }"
proof -
  have "distinct (map line_tag (set_lines (cache_sets c (ADDR_INDEX a))))"
    using inv ADDR_INDEX_less by (auto simp: cache_inv_def set_ok_def lines_ok_def)
  then show ?thesis
  proof (cases rule: set_lookup_cases [where a = a])
    case (hit pre l post)
    from cache_access_hit [OF inv hit] show ?thesis by blast
  next
    case miss
    from cache_access_miss [OF inv miss] show ?thesis by blast
  qed
qed

section \<open>Reads and writes of a word\<close>

lemma aligned4_line_offset: "aligned4 a \<Longrightarrow> ADDR_OFFSET a + 4 \<le> 16"
proof -
  assume "aligned4 a"
  then have "take_bit 2 a = 0" by (simp add: aligned4_def take_bit_eq_mask mask_eq_exp_minus_1)
  then have "unat (a mod 4) = 0" by (simp add: take_bit_eq_mod)
  then have "unat a mod 4 = 0" by (simp add: unat_mod)
  moreover have "unat a mod 16 mod 4 = unat a mod 4" by (rule mod_mod_cancel) simp
  ultimately have "4 dvd unat a mod 16" by (simp add: dvd_eq_mod_eq_0)
  then show ?thesis unfolding ADDR_OFFSET_nat by (rule dvd_less_add_le) simp_all
qed

text \<open>The addresses of a word that lies in one line.\<close>

lemma line_step_fields:
  assumes "ADDR_OFFSET a + k < 16"
  shows "ADDR_TAG (a + of_nat k) = ADDR_TAG a" "ADDR_INDEX (a + of_nat k) = ADDR_INDEX a"
    "ADDR_OFFSET (a + of_nat k) = ADDR_OFFSET a + k"
proof -
  have "a + of_nat k = line_base (ucast (ADDR_TAG a)) (ADDR_INDEX a) + of_nat (ADDR_OFFSET a + k)"
    using line_base_addr [of a] by (simp add: add.assoc [symmetric])
  then show "ADDR_TAG (a + of_nat k) = ADDR_TAG a" "ADDR_INDEX (a + of_nat k) = ADDR_INDEX a"
    "ADDR_OFFSET (a + of_nat k) = ADDR_OFFSET a + k"
    using line_offset_fields [OF ADDR_INDEX_less assms] ADDR_TAG_24 by metis+
qed

lemma line_present_view:
  assumes pres: "line_present c m a c1 m1 pre l post lat" and k: "ADDR_OFFSET a + k < 16"
  shows "cache_view c m (a + of_nat k) = line_data l ! (ADDR_OFFSET a + k)"
proof -
  have inv: "cache_inv c1 m1" and v: "cache_view c1 m1 = cache_view c m"
    and ls: "set_lines (cache_sets c1 (ADDR_INDEX a)) = pre @ l # post" and h: "line_hit a l"
    using pres by (auto simp: line_present_def)
  have "distinct (map line_tag (pre @ l # post))"
    using inv ls ADDR_INDEX_less [of a] unfolding cache_inv_def set_ok_def lines_ok_def by metis
  moreover have "line_hit (a + of_nat k) l"
    using h line_step_fields(1) [OF k] by (simp add: line_hit_def)
  ultimately have "lines_view (pre @ l # post) (mem_view m1) (a + of_nat k) =
      line_data l ! ADDR_OFFSET (a + of_nat k)"
    by (intro lines_view_hit) auto
  then show ?thesis
    unfolding v [symmetric] by (simp add: cache_view_def line_step_fields [OF k] ls)
qed


lemma cache_read_spec:
  assumes inv: "cache_inv c m" and al: "aligned4 a"
  shows "\<exists>lat c' m'. cache_read c m a w = Some (lat, view_word (cache_view c m) a, c', m') \<and>
    cache_inv c' m' \<and> cache_view c' m' = cache_view c m \<and>
    (\<exists>c1 m1 pre l post. line_present c m a c1 m1 pre l post lat \<and> c' = set_update c1 (ADDR_INDEX a)
        ((cache_sets c1 (ADDR_INDEX a))\<lparr>set_lines := pre @ l # post\<rparr>) \<and> m' = m1)"
proof -
  obtain c1 m1 pre l post lat where pres: "line_present c m a c1 m1 pre l post lat"
    and run: "cache_read c m a w = do {
      (l2, w2) \<leftarrow> cache_word_read l w (ADDR_OFFSET a);
      Some (lat, w2, set_update c1 (ADDR_INDEX a)
        ((cache_sets c1 (ADDR_INDEX a))\<lparr>set_lines := pre @ l2 # post\<rparr>), m1) }"
    using cache_access_present [OF inv, of a w cache_word_read] unfolding cache_read_def by blast
  let ?c = "set_update c1 (ADDR_INDEX a) ((cache_sets c1 (ADDR_INDEX a))\<lparr>set_lines := pre @ l # post\<rparr>)"
  have off: "ADDR_OFFSET a + 4 \<le> 16" using al by (rule aligned4_line_offset)
  from pres have inv1: "cache_inv c1 m1" and v1: "cache_view c1 m1 = cache_view c m"
    and ls: "set_lines (cache_sets c1 (ADDR_INDEX a)) = pre @ l # post"
    by (auto simp: line_present_def)
  have "l \<in> set (set_lines (cache_sets c1 (ADDR_INDEX a)))" by (simp add: ls)
  then have len: "length (line_data l) = 16"
    using inv1 ADDR_INDEX_less [of a] unfolding cache_inv_def set_ok_def lines_ok_def line_ok_def by blast
  have "word_of_bytes (take 4 (drop (ADDR_OFFSET a) (line_data l))) = view_word (cache_view c m) a"
  proof -
    have "view_bytes (cache_view c m) a 4 = take 4 (drop (ADDR_OFFSET a) (line_data l))"
      using off len by (intro view_bytes_eqI) (auto simp: line_present_view [OF pres])
    then show ?thesis by (simp add: view_word_bytes)
  qed
  then have "cache_read c m a w = Some (lat, view_word (cache_view c m) a, ?c, m1)"
    using run off len by (simp add: cache_word_read_def)
  moreover have "cache_sets ?c = cache_sets c1"
    using ls by (auto simp: set_update_def fun_eq_iff)
  then have "cache_inv ?c m1" "cache_view ?c m1 = cache_view c m"
    using inv1 v1 by (auto simp: cache_inv_def cache_view_def fun_eq_iff)
  ultimately show ?thesis using pres by blast
qed

lemma splice_nth:
  assumes "off + length bs \<le> length d" "k < length d"
  shows "(take off d @ bs @ drop (off + length bs) d) ! k =
    (if off \<le> k \<and> k < off + length bs then bs ! (k - off) else d ! k)"
  using assms by (auto simp: nth_append min_def)

lemma cache_write_spec:
  assumes inv: "cache_inv c m" and al: "aligned4 a"
  shows "\<exists>lat c' m'. cache_write c m a w = Some (lat, w, c', m') \<and>
    cache_inv c' m' \<and> cache_view c' m' = view_set_word (cache_view c m) a w \<and>
    (\<exists>c1 pre l post l'. line_present c m a c1 m' pre l post lat \<and> line_tag l' = line_tag l \<and>
        c' = set_update c1 (ADDR_INDEX a)
          ((cache_sets c1 (ADDR_INDEX a))\<lparr>set_lines := pre @ l' # post\<rparr>))"
proof -
  obtain c1 m1 pre l post lat where pres: "line_present c m a c1 m1 pre l post lat"
    and run: "cache_write c m a w = do {
      (l2, w2) \<leftarrow> cache_word_write l w (ADDR_OFFSET a);
      Some (lat, w2, set_update c1 (ADDR_INDEX a)
        ((cache_sets c1 (ADDR_INDEX a))\<lparr>set_lines := pre @ l2 # post\<rparr>), m1) }"
    using cache_access_present [OF inv, of a w cache_word_write] unfolding cache_write_def by blast
  let ?i = "ADDR_INDEX a" and ?o = "ADDR_OFFSET a"
  let ?l = "l\<lparr>line_data := take ?o (line_data l) @ bytes_of_word w @ drop (?o + 4) (line_data l),
      line_dirty := True\<rparr>"
  let ?c = "set_update c1 ?i ((cache_sets c1 ?i)\<lparr>set_lines := pre @ ?l # post\<rparr>)"
  have off: "?o + 4 \<le> 16" using al by (rule aligned4_line_offset)
  from pres have inv1: "cache_inv c1 m1" and v1: "cache_view c1 m1 = cache_view c m"
    and ls: "set_lines (cache_sets c1 ?i) = pre @ l # post" and h: "line_hit a l"
    by (auto simp: line_present_def)
  have sok: "set_ok (mem_view m1) ?i (cache_sets c1 ?i)" and m1: "mem_inv m1"
    using inv1 ADDR_INDEX_less by (auto simp: cache_inv_def)
  then have lok: "lines_ok (mem_view m1) ?i (pre @ l # post)" by (simp add: set_ok_def ls)
  then have lk: "line_ok (mem_view m1) ?i l" by (simp add: lines_ok_def)
  then have len: "length (line_data l) = 16" by (simp add: line_ok_def)
  have lk': "line_ok (mem_view m1) ?i ?l" using lk off by (auto simp: line_ok_def)
  note ch = lines_change [OF lok lk']
  have run': "cache_write c m a w = Some (lat, w, ?c, m1)"
    using run off len by (simp add: cache_word_write_def)
  have sok': "set_ok (mem_view m1) ?i (cache_sets ?c ?i)"
    using sok ch(1) lk' by (auto simp: set_ok_def ls set_update_def line_ok_def)
  have dist: "unat (b - a) = ADDR_OFFSET b - ?o \<and> ?o \<le> ADDR_OFFSET b \<and> line_hit b l \<and> ADDR_INDEX b = ?i"
    if "unat (b - a) < 4" for b
  proof -
    have "b = a + of_nat (unat (b - a))" by simp
    then show ?thesis
      using that off h line_step_fields [of a "unat (b - a)"] by (auto simp: line_hit_def)
  qed
  have near: "unat (b - a) = ADDR_OFFSET b - ?o"
    if "line_hit b l" "ADDR_INDEX b = ?i" "?o \<le> ADDR_OFFSET b" "ADDR_OFFSET b < ?o + 4" for b
  proof -
    have k: "?o + (ADDR_OFFSET b - ?o) < 16" using that ADDR_OFFSET_less [of b] by simp
    have t: "ADDR_TAG b = ADDR_TAG a" using that(1) h by (simp add: line_hit_def)
    have "b = a + of_nat (ADDR_OFFSET b - ?o)"
      by (rule addr_fields_inj)
        (simp_all only: line_step_fields [OF k] t that(2) le_add_diff_inverse [OF that(3)])
    then have "b - a = of_nat (ADDR_OFFSET b - ?o)" by (metis add_diff_cancel_left')
    moreover have "unat (of_nat (ADDR_OFFSET b - ?o) :: md_addr_t) = ADDR_OFFSET b - ?o"
      using k by (simp add: unat_of_nat)
    ultimately show ?thesis by simp
  qed
  have vw: "view_set_word (cache_view c m) a w b =
      (if unat (b - a) < 4 then bytes_of_word w ! unat (b - a) else cache_view c m b)" for b
    by (simp add: view_set_word_store view_store_nth)
  have lv: "lines_view (set_lines (cache_sets ?c ?i)) (mem_view m1) b = view_set_word (cache_view c m) a w b"
    if bi: "ADDR_INDEX b = ?i" for b
  proof -
    have old: "lines_view (pre @ l # post) (mem_view m1) b = cache_view c m b"
      unfolding v1 [symmetric] by (simp add: cache_view_def bi ls)
    have hit: "line_hit b l \<Longrightarrow> cache_view c m b = line_data l ! ADDR_OFFSET b"
      using lok lines_view_hit [of "pre @ l # post" l b "mem_view m1"] old by (simp add: lines_ok_def)
    have "lines_view (set_lines (cache_sets ?c ?i)) (mem_view m1) b =
        (if line_hit b l then line_data ?l ! ADDR_OFFSET b else cache_view c m b)"
      using ch(2) [of b] lk old by (simp add: set_update_def line_ok_def)
    then have lv: "lines_view (set_lines (cache_sets ?c ?i)) (mem_view m1) b =
        (if line_hit b l then line_data ?l ! ADDR_OFFSET b else cache_view c m b)" .
    show ?thesis
    proof (cases "line_hit b l")
      case True
      have "line_data ?l ! ADDR_OFFSET b =
          (if ?o \<le> ADDR_OFFSET b \<and> ADDR_OFFSET b < ?o + 4
           then bytes_of_word w ! (ADDR_OFFSET b - ?o) else line_data l ! ADDR_OFFSET b)"
        using splice_nth [of ?o "bytes_of_word w" "line_data l" "ADDR_OFFSET b"] off len
          ADDR_OFFSET_less [of b] by simp
      moreover have "unat (b - a) < 4 \<longleftrightarrow> ?o \<le> ADDR_OFFSET b \<and> ADDR_OFFSET b < ?o + 4"
        using dist [of b] near [OF True bi] by auto
      ultimately show ?thesis
        unfolding lv vw using True hit [OF True] dist [of b] by simp
    next
      case False
      then have "\<not> unat (b - a) < 4" using dist [of b] by blast
      with False show ?thesis unfolding lv vw by simp
    qed
  qed
  have "cache_inv ?c m1"
    by (rule set_step(1) [OF inv1 ADDR_INDEX_less m1 _ _ sok' lv]) (auto simp: set_update_def)
  moreover have "cache_view ?c m1 b = view_set_word (cache_view c m) a w b" for b
    using set_step(2) [OF inv1 ADDR_INDEX_less m1 _ _ sok' lv, of b] v1 dist [of b]
    by (auto simp: set_update_def vw)
  then have "cache_view ?c m1 = view_set_word (cache_view c m) a w" by (rule ext)
  moreover have "line_tag ?l = line_tag l" by simp
  ultimately show ?thesis using run' pres by blast
qed


section \<open>Flushing\<close>

definition clean_line :: "cache_line_t \<Rightarrow> cache_line_t" where
  "clean_line l = l\<lparr>line_dirty := False\<rparr>"

lemma flush_lines_spec:
  assumes "unat i < 16"
  shows "cache_inv c m \<Longrightarrow> set_lines (cache_sets c i) = pre @ ls \<Longrightarrow>
   \<exists>m'. flush_lines m i ls = Some (map clean_line ls, m') \<and>
     (let c' = set_update c i ((cache_sets c i)\<lparr>set_lines := pre @ map clean_line ls\<rparr>)
      in cache_inv c' m' \<and> cache_view c' m' = cache_view c m)"
proof (induction ls arbitrary: c m pre)
  case Nil
  then have "cache_sets (set_update c i ((cache_sets c i)\<lparr>set_lines := pre\<rparr>)) = cache_sets c"
    by (auto simp: set_update_def fun_eq_iff)
  with Nil show ?case by (auto simp: cache_inv_def cache_view_def fun_eq_iff)
next
  case (Cons l ls)
  let ?l = "clean_line l" and ?s = "(cache_sets c i)\<lparr>set_lines := pre @ clean_line l # ls\<rparr>"
  let ?c = "set_update c i ?s"
  have ok: "set_ok (mem_view m) i (cache_sets c i)" and m: "mem_inv m"
    using Cons.prems assms by (auto simp: cache_inv_def)
  then have lok: "lines_ok (mem_view m) i (pre @ l # ls)" by (simp add: set_ok_def Cons.prems)
  have step: "\<exists>m1. (if line_dirty l then cache_write_back m l i else Some (l, m)) = Some (?l, m1) \<and>
      cache_inv ?c m1 \<and> cache_view ?c m1 = cache_view c m"
  proof (cases "line_dirty l")
    case True
    have "length (line_data l) = 16" using lok by (simp add: lines_ok_def line_ok_def)
    then obtain m1 where m1: "cache_write_back m l i = Some (?l, m1)" "mem_inv m1"
        "mem_view m1 = view_store (mem_view m) (line_base (line_tag l) i) (line_data l)"
      using cache_write_back_spec [OF m assms] unfolding clean_line_def by blast
    note wb = lines_write_back [OF lok assms m1(3), folded clean_line_def]
    have ok': "set_ok (mem_view m1) i (cache_sets ?c i)"
      using ok wb(1) Cons.prems by (simp add: set_ok_def set_update_def)
    have view: "lines_view (set_lines (cache_sets ?c i)) (mem_view m1) a = cache_view c m a"
      if "ADDR_INDEX a = i" for a
      using wb(2) [OF that] that Cons.prems by (simp add: set_update_def cache_view_def)
    have "cache_inv ?c m1"
      by (rule set_step(1) [OF Cons.prems(1) assms m1(2) _ wb(3) ok' view]) (auto simp: set_update_def)
    moreover have "cache_view ?c m1 a = cache_view c m a" for a
      using set_step(2) [OF Cons.prems(1) assms m1(2) _ wb(3) ok' view, of a]
      by (simp add: set_update_def)
    ultimately show ?thesis using True m1(1) by auto
  next
    case False
    then have "?l = l" by (simp add: clean_line_def)
    moreover from this have "cache_sets ?c = cache_sets c"
      using Cons.prems by (auto simp: set_update_def fun_eq_iff)
    ultimately show ?thesis
      using False Cons.prems by (auto simp: cache_inv_def cache_view_def fun_eq_iff)
  qed
  then obtain m1 where m1: "(if line_dirty l then cache_write_back m l i else Some (l, m)) = Some (?l, m1)"
      "cache_inv ?c m1" "cache_view ?c m1 = cache_view c m" by blast
  have "set_lines (cache_sets ?c i) = (pre @ [?l]) @ ls" by (simp add: set_update_def)
  from Cons.IH [OF m1(2) this] obtain m2 where m2: "flush_lines m1 i ls = Some (map clean_line ls, m2)"
    "let c' = set_update ?c i ((cache_sets ?c i)\<lparr>set_lines := (pre @ [?l]) @ map clean_line ls\<rparr>)
      in cache_inv c' m2 \<and> cache_view c' m2 = cache_view ?c m1" by blast
  have eq: "set_update ?c i ((cache_sets ?c i)\<lparr>set_lines := (pre @ [?l]) @ map clean_line ls\<rparr>) =
      set_update c i ((cache_sets c i)\<lparr>set_lines := pre @ map clean_line (l # ls)\<rparr>)"
    by (simp add: set_update_def)
  from m2(2) have "cache_inv (set_update c i ((cache_sets c i)\<lparr>set_lines := pre @ map clean_line (l # ls)\<rparr>)) m2"
    "cache_view (set_update c i ((cache_sets c i)\<lparr>set_lines := pre @ map clean_line (l # ls)\<rparr>)) m2 = cache_view c m"
    unfolding Let_def eq m1(3) by blast+
  moreover have "flush_lines m i (l # ls) = Some (map clean_line (l # ls), m2)"
    using m1(1) m2(1) by simp
  ultimately show ?case unfolding Let_def by blast
qed

lemma flush_sets_spec:
  "cache_inv c m \<Longrightarrow> \<forall>i \<in> set is. unat i < 16 \<Longrightarrow> \<exists>c' m'. flush_sets c m is = Some (c', m') \<and>
     cache_inv c' m' \<and> cache_view c' m' = cache_view c m \<and>
     (\<forall>i. map line_tag (set_lines (cache_sets c' i)) = map line_tag (set_lines (cache_sets c i))) \<and>
     (\<forall>i. i \<in> set is \<or> (\<forall>l \<in> set (set_lines (cache_sets c i)). \<not> line_dirty l) \<longrightarrow>
        (\<forall>l \<in> set (set_lines (cache_sets c' i)). \<not> line_dirty l))"
proof (induction "is" arbitrary: c m)
  case (Cons i "is")
  let ?c = "set_update c i ((cache_sets c i)\<lparr>set_lines := map clean_line (set_lines (cache_sets c i))\<rparr>)"
  have i: "unat i < 16" using Cons.prems by simp
  obtain m1 where m1: "flush_lines m i (set_lines (cache_sets c i)) =
      Some (map clean_line (set_lines (cache_sets c i)), m1)" "cache_inv ?c m1"
      "cache_view ?c m1 = cache_view c m"
    using flush_lines_spec [OF i Cons.prems(1), where pre = "[]"] by (auto simp: Let_def)
  obtain c' m' where c': "flush_sets ?c m1 is = Some (c', m')" "cache_inv c' m'"
      "cache_view c' m' = cache_view c m"
      "\<forall>j. map line_tag (set_lines (cache_sets c' j)) = map line_tag (set_lines (cache_sets ?c j))"
      "\<forall>j. j \<in> set is \<or> (\<forall>l \<in> set (set_lines (cache_sets ?c j)). \<not> line_dirty l) \<longrightarrow>
        (\<forall>l \<in> set (set_lines (cache_sets c' j)). \<not> line_dirty l)"
    using Cons.IH [OF m1(2)] Cons.prems(2) m1(3) by auto
  have tags: "map line_tag (set_lines (cache_sets ?c j)) = map line_tag (set_lines (cache_sets c j))" for j
    by (auto simp: set_update_def clean_line_def)
  have clean: "j = i \<or> (\<forall>l \<in> set (set_lines (cache_sets c j)). \<not> line_dirty l) \<Longrightarrow>
      \<forall>l \<in> set (set_lines (cache_sets ?c j)). \<not> line_dirty l" for j
    by (auto simp: set_update_def clean_line_def)
  have "flush_sets c m (i # is) = Some (c', m')" using m1(1) c'(1) by simp
  moreover have "\<forall>j. map line_tag (set_lines (cache_sets c' j)) = map line_tag (set_lines (cache_sets c j))"
    using c'(4) tags by simp
  moreover have "\<forall>j. j \<in> set (i # is) \<or> (\<forall>l \<in> set (set_lines (cache_sets c j)). \<not> line_dirty l) \<longrightarrow>
        (\<forall>l \<in> set (set_lines (cache_sets c' j)). \<not> line_dirty l)"
    using c'(5) clean by (metis set_ConsD)
  ultimately show ?case using c'(2,3) by blast
qed (auto simp: map_idI)

text \<open>With every line clean, the memory alone is the view.\<close>

lemma clean_cache_view:
  assumes inv: "cache_inv c m"
    and clean: "\<And>i l. unat i < 16 \<Longrightarrow> l \<in> set (set_lines (cache_sets c i)) \<Longrightarrow> \<not> line_dirty l"
  shows "cache_view c m = mem_view m"
proof (rule ext)
  fix a
  let ?i = "ADDR_INDEX a"
  have ok: "lines_ok (mem_view m) ?i (set_lines (cache_sets c ?i))"
    using inv ADDR_INDEX_less by (simp add: cache_inv_def set_ok_def)
  then have "distinct (map line_tag (set_lines (cache_sets c ?i)))" by (simp add: lines_ok_def)
  then show "cache_view c m a = mem_view m a"
  proof (cases rule: lines_view_cases [where a = a and v = "mem_view m"])
    case (hit l)
    then have "line_data l ! ADDR_OFFSET a = mem_view m a"
      using ok clean ADDR_INDEX_less by (intro line_ok_clean_nth) (auto simp: lines_ok_def)
    with hit show ?thesis by (simp add: cache_view_def)
  qed (simp add: cache_view_def)
qed

lemma cache_flush_spec:
  assumes inv: "cache_inv c m"
  shows "\<exists>c' m'. cache_flush c m = Some (c', m') \<and> cache_inv c' m' \<and>
    cache_view c' m' = cache_view c m \<and> mem_view m' = cache_view c m \<and>
    (\<forall>i. map line_tag (set_lines (cache_sets c' i)) = map line_tag (set_lines (cache_sets c i)))"
proof -
  let ?is = "map of_nat [0..<16] :: word_t list"
  have all: "i \<in> set ?is \<longleftrightarrow> unat i < 16" for i
  proof
    assume "unat i < 16"
    then show "i \<in> set ?is" by (auto intro: image_eqI [of _ _ "unat i"])
  next
    assume "i \<in> set ?is"
    then show "unat i < 16" by (auto simp: unat_of_nat)
  qed
  obtain c' m' where r: "flush_sets c m ?is = Some (c', m')" "cache_inv c' m'"
      "cache_view c' m' = cache_view c m"
      "\<forall>i. map line_tag (set_lines (cache_sets c' i)) = map line_tag (set_lines (cache_sets c i))"
      "\<forall>i. i \<in> set ?is \<or> (\<forall>l \<in> set (set_lines (cache_sets c i)). \<not> line_dirty l) \<longrightarrow>
        (\<forall>l \<in> set (set_lines (cache_sets c' i)). \<not> line_dirty l)"
    using flush_sets_spec [OF inv, of ?is] all by blast
  have "cache_view c' m' = mem_view m'"
    using r(2) by (rule clean_cache_view) (use r(5) all in blast)
  with r show ?thesis unfolding cache_flush_def by metis
qed

section \<open>The cache as a word memory\<close>

definition cached_inv :: "cache_t \<times> mem_t \<Rightarrow> bool" where "cached_inv s = cache_inv (fst s) (snd s)"
definition cached_view :: "cache_t \<times> mem_t \<Rightarrow> view" where "cached_view s = cache_view (fst s) (snd s)"

definition cached_rd :: "cache_t \<times> mem_t \<Rightarrow> md_addr_t \<Rightarrow> (word_t \<times> cache_t \<times> mem_t) option" where
  "cached_rd s a = do { (lat, w, c, m) \<leftarrow> cache_read (fst s) (snd s) a 0; Some (w, c, m) }"

definition cached_wr :: "cache_t \<times> mem_t \<Rightarrow> md_addr_t \<Rightarrow> word_t \<Rightarrow> (cache_t \<times> mem_t) option" where
  "cached_wr s a w = do { (lat, w', c, m) \<leftarrow> cache_write (fst s) (snd s) a w; Some (c, m) }"

interpretation cached: word_memory cached_inv cached_view cached_rd cached_wr
proof
  fix s a and w :: word_t
  assume inv: "cached_inv s" and al: "aligned4 a"
  show "\<exists>s'. cached_rd s a = Some (view_word (cached_view s) a, s') \<and> cached_inv s' \<and>
      cached_view s' = cached_view s"
    using cache_read_spec [OF inv [unfolded cached_inv_def] al, of 0]
    by (fastforce simp: cached_rd_def cached_inv_def cached_view_def)
  show "\<exists>s'. cached_wr s a w = Some s' \<and> cached_inv s' \<and>
      cached_view s' = view_set_word (cached_view s) a w"
    using cache_write_spec [OF inv [unfolded cached_inv_def] al, of w]
    by (fastforce simp: cached_wr_def cached_inv_def cached_view_def)
qed

lemma cache_inv_init: "mem_inv m \<Longrightarrow> cache_inv cache_init m"
  by (simp add: cache_inv_def cache_init_def set_ok_def lines_ok_def)

lemma cache_view_init: "cache_view cache_init m = mem_view m"
  by (simp add: cache_view_def cache_init_def lines_view_def fun_eq_iff)

section \<open>Properties\<close>

text \<open>
  C6: any sequence of aligned word reads and writes through the freshly initialised cache
  returns what the same sequence returns on a flat memory, whatever is fetched, written
  back and evicted on the way; the view of cache and memory ends as the flat memory.
\<close>

theorem cached_ops_flat:
  assumes "mem_inv m" "\<forall>op \<in> set ops. aligned4 (op_addr op)"
  shows "\<exists>s. run_ops cached_rd cached_wr (cache_init, m) ops = Some (fst (flat_ops (mem_view m) ops), s) \<and>
    cached_inv s \<and> cached_view s = snd (flat_ops (mem_view m) ops)"
proof -
  have "cached_inv (cache_init, m)" "cached_view (cache_init, m) = mem_view m"
    using cache_inv_init [OF assms(1)] by (simp_all add: cached_inv_def cached_view_def cache_view_init)
  with cached.run_ops_flat [OF _ assms(2), of "(cache_init, m)"] show ?thesis by simp
qed

lemma cached_ops_flat_witness:
  "\<exists>s. run_ops cached_rd cached_wr (cache_init, mem_create ''mem'')
     [Store 0x100 1, Store 0x200 2, Store 0x300 3, Store 0x400 4, Store 0x500 5, Load 0x100] =
   Some ([1], s)"
  using cached_ops_flat [OF mem_inv_empty(2), of
     "[Store 0x100 1, Store 0x200 2, Store 0x300 3, Store 0x400 4, Store 0x500 5, Load 0x100]" "''mem''"]
  by (auto simp: aligned4_def view_word_def view_set_word_def word_of_bytes_def byte_of_def)

text \<open>
  A read through the cache returns the word of the view and leaves the view unchanged,
  in one cycle when a line of the set matches and in ten when it does not; every access is
  counted as a hit or as a miss.
\<close>

theorem cache_read_correct:
  assumes "cache_inv c m" "aligned4 a"
  shows "\<exists>lat c' m'. cache_read c m a w = Some (lat, view_word (cache_view c m) a, c', m') \<and>
    cache_inv c' m' \<and> cache_view c' m' = cache_view c m \<and>
    cache_accesses c' = cache_accesses c + 1 \<and>
    (if \<exists>k \<in> set (set_lines (cache_sets c (ADDR_INDEX a))). line_hit a k
     then lat = 1 \<and> cache_hit c' = cache_hit c + 1 \<and> cache_miss c' = cache_miss c
     else lat = 10 \<and> cache_hit c' = cache_hit c \<and> cache_miss c' = cache_miss c + 1)"
proof -
  obtain lat c' m' c1 m1 pre l post where
    r: "cache_read c m a w = Some (lat, view_word (cache_view c m) a, c', m')" "cache_inv c' m'"
      "cache_view c' m' = cache_view c m" and pres: "line_present c m a c1 m1 pre l post lat"
    and c': "c' = set_update c1 (ADDR_INDEX a)
        ((cache_sets c1 (ADDR_INDEX a))\<lparr>set_lines := pre @ l # post\<rparr>)"
    using cache_read_spec [OF assms, of w] by blast
  have "cache_accesses c' = cache_accesses c1 \<and> cache_hit c' = cache_hit c1 \<and> cache_miss c' = cache_miss c1"
    by (simp add: c' set_update_def)
  with r pres show ?thesis unfolding line_present_def by auto
qed

lemma cache_read_correct_witness:
  "\<exists>c' m'. cache_read cache_init (mem_create ''mem'') 0x40 0 = Some (10, 0, c', m') \<and> cache_miss c' = 1"
  using cache_read_correct [OF cache_inv_init [OF mem_inv_empty(2)], of "0x40" "''mem''" 0]
  by (auto simp: aligned4_def cache_view_init mem_view_empty view_word_def word_of_bytes_def)
    (auto simp: cache_init_def)

text \<open>
  C26: a write through the cache changes the view at the word and nowhere else, and hands
  the word back unchanged.
\<close>

theorem cache_write_correct:
  assumes "cache_inv c m" "aligned4 a"
  shows "\<exists>lat c' m'. cache_write c m a w = Some (lat, w, c', m') \<and> cache_inv c' m' \<and>
    cache_view c' m' = view_set_word (cache_view c m) a w \<and> lat \<in> {1, 10}"
proof -
  obtain lat c' m' c1 pre l post where "cache_write c m a w = Some (lat, w, c', m')"
      "cache_inv c' m'" "cache_view c' m' = view_set_word (cache_view c m) a w"
      "line_present c m a c1 m' pre l post lat"
    using cache_write_spec [OF assms, of w] by blast
  moreover from this(4) have "lat \<in> {1, 10}" unfolding line_present_def by (auto split: if_splits)
  ultimately show ?thesis by blast
qed

lemma cache_write_correct_witness:
  "\<exists>lat c' m'. cache_write cache_init (mem_create ''mem'') 0x44 5 = Some (lat, 5, c', m') \<and>
    view_word (cache_view c' m') 0x44 = 5"
  using cache_write_correct [OF cache_inv_init [OF mem_inv_empty(2)], of "0x44" "''mem''" 5]
  by (auto simp: aligned4_def)

text \<open>
  C25: replacement is first in, first out, within four lines a set: after a write the tags
  of the set of the address are those before moved by one step of the queue, and the other
  sets are untouched.
\<close>

theorem cache_write_fifo:
  assumes "cache_inv c m" "aligned4 a"
  shows "\<exists>lat c' m'. cache_write c m a w = Some (lat, w, c', m') \<and>
    map line_tag (set_lines (cache_sets c' (ADDR_INDEX a))) =
      fifo_step (map line_tag (set_lines (cache_sets c (ADDR_INDEX a)))) (ucast (ADDR_TAG a)) \<and>
    length (set_lines (cache_sets c' (ADDR_INDEX a))) \<le> 4 \<and>
    (\<forall>j. j \<noteq> ADDR_INDEX a \<longrightarrow> cache_sets c' j = cache_sets c j)"
proof -
  obtain lat c' m' c1 pre l post l' where
    r: "cache_write c m a w = Some (lat, w, c', m')" "cache_inv c' m'"
      and pres: "line_present c m a c1 m' pre l post lat" "line_tag l' = line_tag l"
    and c': "c' = set_update c1 (ADDR_INDEX a)
        ((cache_sets c1 (ADDR_INDEX a))\<lparr>set_lines := pre @ l' # post\<rparr>)"
    using cache_write_spec [OF assms, of w] by blast
  have "length (set_lines (cache_sets c' (ADDR_INDEX a))) \<le> 4"
    using r(2) ADDR_INDEX_less by (auto simp: cache_inv_def set_ok_def)
  moreover have "map line_tag (set_lines (cache_sets c' (ADDR_INDEX a))) = map line_tag (pre @ l # post)"
    using pres(2) by (simp add: c' set_update_def)
  moreover have "\<forall>j. j \<noteq> ADDR_INDEX a \<longrightarrow> cache_sets c' j = cache_sets c j"
    using pres(1) by (auto simp: c' set_update_def line_present_def)
  moreover have "map line_tag (pre @ l # post) =
      fifo_step (map line_tag (set_lines (cache_sets c (ADDR_INDEX a)))) (ucast (ADDR_TAG a))"
    using pres(1) by (simp add: line_present_def)
  ultimately have "map line_tag (set_lines (cache_sets c' (ADDR_INDEX a))) =
      fifo_step (map line_tag (set_lines (cache_sets c (ADDR_INDEX a)))) (ucast (ADDR_TAG a)) \<and>
    length (set_lines (cache_sets c' (ADDR_INDEX a))) \<le> 4 \<and>
    (\<forall>j. j \<noteq> ADDR_INDEX a \<longrightarrow> cache_sets c' j = cache_sets c j)" by presburger
  with r(1) show ?thesis by blast
qed

lemma cache_write_fifo_witness:
  "\<exists>lat c' m'. cache_write cache_init (mem_create ''mem'') 0x1234 5 = Some (lat, 5, c', m') \<and>
    map line_tag (set_lines (cache_sets c' 3)) = [0x12]"
  using cache_write_fifo [OF cache_inv_init [OF mem_inv_empty(2)], of "0x1234" "''mem''" 5]
  by (auto simp: aligned4_def ADDR_INDEX_def ADDR_TAG_def cache_init_def fifo_step_def)

text \<open>
  C21: flushing the cache makes the memory alone hold what cache and memory held together,
  and keeps the lines.
\<close>

theorem cache_flush_correct:
  assumes "cache_inv c m"
  shows "\<exists>c' m'. cache_flush c m = Some (c', m') \<and> cache_inv c' m' \<and>
    mem_view m' = cache_view c m \<and> cache_view c' m' = cache_view c m \<and>
    (\<forall>i. map line_tag (set_lines (cache_sets c' i)) = map line_tag (set_lines (cache_sets c i)))"
  using cache_flush_spec [OF assms] by blast

lemma cache_flush_correct_witness:
  "\<exists>c' m'. cache_flush cache_init (mem_create ''mem'') = Some (c', m') \<and> mem_view m' 0x44 = 0"
  using cache_flush_correct [OF cache_inv_init [OF mem_inv_empty(2)], of "''mem''"]
  by (auto simp: cache_view_init mem_view_empty)

end
