(* ===== verification/Pipe.thy ===== *)
theory Pipe
  imports Pipe_State UCache
begin

text \<open>
  The pipeline of Project 2 (sim-pipe.c): five stages run once per turn of the main loop
  from the last to the first, forwarding to the execute stage, a scoreboard of loads in
  flight, branches resolved in the execute stage with one wrong-path instruction to squash,
  and memory behind the unified cache.  A system call is the host's: the parameter
  \<open>syscall\<close>.
\<close>

section \<open>State\<close>

record control_buf =
  ctl_flag :: bool
  ctl_cmp :: bool
  ctl_cond :: word_t
  ctl_regs :: word_t
  ctl_stall :: bool

record pipe_t =
  p_regs :: regs_t
  p_mem :: mem_t
  p_fd :: ifid_buf
  p_de :: idex_buf
  p_em :: exmem_buf
  p_mw :: memwb_buf
  p_wb :: wb_buf
  p_ctl :: control_buf
  p_cache :: cache_t
  sim_num_insn :: counter_t
  sim_num_clk :: counter_t

definition INC_CYCLE :: "word_t \<Rightarrow> pipe_t \<Rightarrow> pipe_t" where
  "INC_CYCLE num s = s\<lparr>sim_num_clk := sim_num_clk s + scast num\<rparr>"

section \<open>Forwarding and control\<close>

definition forward :: "pipe_t \<Rightarrow> word_t \<Rightarrow> word_t option" where
  "forward s src =
     (if src \<noteq> dna then
        if src = em_dstE (p_em s) then Some (em_valE (p_em s))
        else if src = mw_dstE (p_mw s) then Some (mw_valE (p_mw s))
        else if src = mw_dstM (p_mw s) then Some (mw_valM (p_mw s))
        else if src = wb_dstE (p_wb s) then Some (wb_valE (p_wb s))
        else if src = wb_dstM (p_wb s) then Some (wb_valM (p_wb s))
        else GPR (p_regs s) src
      else Some 0)"

definition do_forward :: "pipe_t \<Rightarrow> pipe_t option" where
  "do_forward s = do {
     a \<leftarrow> forward s (de_srcA (p_de s));
     b \<leftarrow> forward s (de_srcB (p_de s));
     v \<leftarrow> forward s (op_in1 (de_oprand (p_de s)));
     Some (s\<lparr>p_de := (p_de s)\<lparr>de_aluA := a, de_aluB := b, de_valA := v\<rparr>\<rparr>) }"

definition pipeline_control :: "pipe_t \<Rightarrow> pipe_t" where
  "pipeline_control s =
     (let ctl = p_ctl s; de = p_de s;
          de1 = (if ctl_cond ctl \<noteq> 0 \<and> ctl_cond ctl AND 2 \<noteq> 0
                 then de\<lparr>de_inst := make_nop (de_inst de)\<rparr> else de);
          ctl1 = (if ctl_cond ctl \<noteq> 0 then ctl\<lparr>ctl_flag := False, ctl_cond := 0\<rparr> else ctl);
          s1 = s\<lparr>p_de := de1, p_ctl := ctl1\<rparr>
      in if ctl_stall ctl1
         then s1\<lparr>p_fd := (p_fd s)\<lparr>fd_PC := de_PC de1, fd_inst := de_inst de1\<rparr>,
                 p_de := de1\<lparr>de_inst := make_nop (de_inst de1)\<rparr>\<rparr>
         else s1)"

section \<open>The stages\<close>

definition do_if :: "pipe_t \<Rightarrow> pipe_t option" where
  "do_if s =
     (let npc = (if ctl_cond (p_ctl s) AND 2 \<noteq> 0 then em_target (p_em s)
                 else if ctl_cond (p_ctl s) AND 1 \<noteq> 0 then de_target (p_de s)
                 else fd_PC (p_fd s) + 8)
      in if cache_enable (p_cache s) \<noteq> 0 then do {
           (cy1, a, c1, m1) \<leftarrow> cache_read (p_cache s) (p_mem s) npc 0;
           (cy2, b, c2, m2) \<leftarrow> cache_read c1 m1 (npc + 4) 0;
           Some (INC_CYCLE (cy1 + cy2) (s\<lparr>p_cache := c2, p_mem := m2,
             p_fd := \<lparr>fd_inst = \<lparr>inst_a = a, inst_b = b\<rparr>, fd_PC = npc, fd_NPC = npc\<rparr>\<rparr>)) }
         else do {
           (inst, m1) \<leftarrow> MD_FETCH_INST (p_mem s) npc;
           Some (INC_CYCLE 10 (s\<lparr>p_mem := m1,
             p_fd := \<lparr>fd_inst = inst, fd_PC = npc, fd_NPC = npc\<rparr>\<rparr>)) })"

text \<open>
  \<open>do_id()\<close>.  \<open>id_switch\<close> is its switch over the opcode, on the state in which the operands
  are decoded and the stall flag is cleared; \<open>id_dests\<close> what follows the switch.
\<close>

definition branch_target :: "md_addr_t \<Rightarrow> md_inst_t \<Rightarrow> word_t" where
  "branch_target pc inst = pc + 8 + push_bit 2 (inst_b inst AND 0xffff)"

definition jump_target :: "md_addr_t \<Rightarrow> md_inst_t \<Rightarrow> word_t" where
  "jump_target pc inst = (pc AND 0xf0000000) OR push_bit 2 (inst_b inst AND 0x3ffffff)"

definition id_switch :: "pipe_t \<Rightarrow> pipe_t option" where
  "id_switch s =
     (let de = p_de s; ctl = p_ctl s; op = de_opcode de; pc = fd_PC (p_fd s) in
      if op = LUI then
        Some (s\<lparr>p_de := de\<lparr>de_instFlags := de_instFlags de OR F_IMM, de_func := ALU_ADD\<rparr>\<rparr>)
      else if op = LW \<or> op = SW \<or> op = ADD \<or> op = ADDI \<or> op = ADDU \<or> op = ADDIU then
        Some (s\<lparr>p_de := de\<lparr>de_func := ALU_ADD\<rparr>\<rparr>)
      else if op = BNE then
        Some (s\<lparr>p_ctl := ctl\<lparr>ctl_flag := True, ctl_cmp := True\<rparr>,
          p_de := de\<lparr>de_target := branch_target pc (de_inst de), de_func := ALU_SUB\<rparr>\<rparr>)
      else if op = BEQ then
        Some (s\<lparr>p_ctl := ctl\<lparr>ctl_flag := True, ctl_cmp := False\<rparr>,
          p_de := de\<lparr>de_target := branch_target pc (de_inst de), de_func := ALU_SUB\<rparr>\<rparr>)
      else if op = ANDI then Some (s\<lparr>p_de := de\<lparr>de_func := ALU_AND\<rparr>\<rparr>)
      else if op = SLL then Some (s\<lparr>p_de := de\<lparr>de_func := ALU_SHTL\<rparr>\<rparr>)
      else if op = SLTI then Some (s\<lparr>p_de := de\<lparr>de_func := ALU_SLT\<rparr>\<rparr>)
      else if op = JUMP then
        Some (s\<lparr>p_ctl := ctl\<lparr>ctl_flag := True, ctl_cond := ctl_cond ctl OR 1\<rparr>,
          p_de := de\<lparr>de_target := jump_target pc (de_inst de), de_func := ALU_NOP\<rparr>\<rparr>)
      else if op = MFLO then do {
        regs1 \<leftarrow> SET_GPR (p_regs s) (op_out1 (de_oprand de)) (regs_lo (p_regs s));
        Some (s\<lparr>p_regs := regs1, p_de := de\<lparr>de_func := ALU_NOP\<rparr>\<rparr>) }
      else Some (s\<lparr>p_de := de\<lparr>de_func := ALU_NOP\<rparr>\<rparr>))"

definition id_dests :: "pipe_t \<Rightarrow> pipe_t" where
  "id_dests s =
     (let de = p_de s; ctl = p_ctl s; opr = de_oprand de; flags = de_instFlags de;
          de1 = de\<lparr>de_srcA := (if flags AND F_DISP \<noteq> 0 then op_in2 opr else op_in1 opr),
                   de_srcB := op_in2 opr\<rparr>;
          de2 = (if flags AND F_STORE \<noteq> 0 then de1\<lparr>de_rw := de_rw de1 OR 2\<rparr> else de1)
      in if flags AND F_LOAD \<noteq> 0
         then s\<lparr>p_de := de2\<lparr>de_rw := de_rw de2 OR 4, de_dstM := op_out1 opr, de_dstE := dna\<rparr>,
                p_ctl := ctl\<lparr>ctl_regs := ctl_regs ctl OR reg_bit (op_out1 opr)\<rparr>\<rparr>
         else s\<lparr>p_de := de2\<lparr>de_dstE := op_out1 opr, de_dstM := dna\<rparr>\<rparr>)"

definition do_id :: "pipe_t \<Rightarrow> pipe_t option" where
  "do_id s =
     (let de = (p_de s)\<lparr>de_inst := fd_inst (p_fd s), de_PC := fd_PC (p_fd s), de_rw := 0\<rparr> in
      if is_nop (de_inst de) then Some (s\<lparr>p_de := de\<rparr>)
      else
        (let de1 = de_decode (de\<lparr>de_opcode := MD_SET_OPCODE (de_inst de)\<rparr>);
             opr = de_oprand de1; ctl = p_ctl s
         in if waits_for (ctl_regs ctl) (op_in1 opr) \<or> waits_for (ctl_regs ctl) (op_in2 opr)
            then Some (s\<lparr>p_de := de1, p_ctl := ctl\<lparr>ctl_stall := True\<rparr>\<rparr>)
            else do {
              s1 \<leftarrow> id_switch (s\<lparr>p_de := de1, p_ctl := ctl\<lparr>ctl_stall := False\<rparr>\<rparr>);
              Some (id_dests s1) }))"

text \<open>The second ALU operand: an immediate, a shift amount, or the forwarded register.\<close>

definition ex_aluB :: "idex_buf \<Rightarrow> md_inst_t \<Rightarrow> word_t" where
  "ex_aluB de inst =
     (if de_instFlags de AND F_IMM \<noteq> 0 \<or> de_instFlags de AND F_DISP \<noteq> 0 then sext16 (inst_b inst)
      else if de_func de = ALU_SHTL then inst_b inst AND 0xff
      else de_aluB de)"

definition do_ex :: "pipe_t \<Rightarrow> pipe_t" where
  "do_ex s =
     (let de = p_de s; em = (p_em s)\<lparr>em_inst := de_inst de\<rparr> in
      if is_nop (em_inst em) then s\<lparr>p_em := em\<rparr>
      else
        (let aluA = de_aluA de; aluB = ex_aluB de (em_inst em);
             regs1 = (if de_opcode de = MULTU
                      then (let (hi, lo) = multu aluA aluB
                            in (p_regs s)\<lparr>regs_hi := hi, regs_lo := lo\<rparr>)
                      else p_regs s);
             valE = alu (de_func de) aluA aluB;
             em1 = em\<lparr>em_PC := de_PC de, em_dstE := de_dstE de, em_dstM := de_dstM de,
                      em_valA := de_valA de, em_rw := de_rw de, em_target := de_target de,
                      em_valE := valE\<rparr>;
             ctl = p_ctl s;
             ctl1 = (if ctl_flag ctl then
                       if (ctl_cmp ctl \<and> valE \<noteq> 0) \<or> (\<not> ctl_cmp ctl \<and> valE = 0)
                       then ctl\<lparr>ctl_cond := ctl_cond ctl OR 2\<rparr>
                       else ctl\<lparr>ctl_flag := False\<rparr>
                     else ctl)
         in s\<lparr>p_regs := regs1, p_em := em1, p_ctl := ctl1\<rparr>))"

definition do_mem :: "pipe_t \<Rightarrow> pipe_t option" where
  "do_mem s =
     (let em = p_em s; mw = (p_mw s)\<lparr>mw_inst := em_inst em\<rparr> in
      if is_nop (mw_inst mw) then Some (s\<lparr>p_mw := mw\<rparr>)
      else
        (let mw1 = mw\<lparr>mw_dstE := em_dstE em, mw_dstM := em_dstM em, mw_valE := em_valE em,
                      mw_PC := em_PC em, mw_rw := em_rw em\<rparr>; ctl = p_ctl s
         in if mw_rw mw1 AND 4 \<noteq> 0 then do {
              (cycles, v, c1, m1) \<leftarrow>
                (if cache_enable (p_cache s) \<noteq> 0
                 then cache_read (p_cache s) (p_mem s) (mw_valE mw1) (mw_valM mw1)
                 else do { (v, m) \<leftarrow> MEM_READ_WORD (p_mem s) (mw_valE mw1);
                           Some (10, v, p_cache s, m) });
              Some (INC_CYCLE cycles (s\<lparr>p_mw := mw1\<lparr>mw_valM := v\<rparr>, p_cache := c1, p_mem := m1,
                p_ctl := ctl\<lparr>ctl_regs := ctl_regs ctl AND NOT (reg_bit (mw_dstM mw1))\<rparr>\<rparr>)) }
            else if mw_rw mw1 AND 2 \<noteq> 0 then do {
              (cycles, v, c1, m1) \<leftarrow>
                (if cache_enable (p_cache s) \<noteq> 0
                 then cache_write (p_cache s) (p_mem s) (mw_valE mw1) (em_valA em)
                 else do { m \<leftarrow> MEM_WRITE_WORD (p_mem s) (mw_valE mw1) (em_valA em);
                           Some (10, em_valA em, p_cache s, m) });
              Some (INC_CYCLE cycles (s\<lparr>p_mw := mw1, p_em := em\<lparr>em_valA := v\<rparr>,
                p_cache := c1, p_mem := m1\<rparr>)) }
            else Some (INC_CYCLE 0 (s\<lparr>p_mw := mw1\<rparr>))))"

definition do_wb :: "impl \<Rightarrow> pipe_t \<Rightarrow> pipe_t option" where
  "do_wb syscall s =
     (let mw = p_mw s; wb = (p_wb s)\<lparr>wb_inst := mw_inst mw\<rparr> in
      if is_nop (wb_inst wb) then Some (s\<lparr>p_wb := wb\<rparr>)
      else
        (let wb1 = wb\<lparr>wb_PC := mw_PC mw, wb_dstE := mw_dstE mw, wb_dstM := mw_dstM mw,
                      wb_valE := mw_valE mw, wb_valM := mw_valM mw\<rparr>
         in do {
           regs1 \<leftarrow> (if mw_dstM mw \<noteq> dna then SET_GPR (p_regs s) (mw_dstM mw) (mw_valM mw)
                     else Some (p_regs s));
           regs2 \<leftarrow> (if mw_dstE mw \<noteq> dna then SET_GPR regs1 (mw_dstE mw) (mw_valE mw) else Some regs1);
           (let s1 = s\<lparr>p_wb := wb1, p_regs := regs2\<rparr> in
            if inst_a (wb_inst wb1) = SYSCALL then do {
              (c1, m1) \<leftarrow> cache_flush (p_cache s1) (p_mem s1);
              (regs3, m2) \<leftarrow> syscall (wb_inst wb1) regs2 m1;
              Some (s1\<lparr>p_cache := c1, p_regs := regs3, p_mem := m2\<rparr>) }
            else Some s1) }))"

section \<open>Initialisation and the main loop\<close>

definition sim_init :: pipe_t where
  "sim_init = \<lparr>p_regs = regs_init, p_mem = mem_init (mem_create ''mem''), p_fd = init_fd zero_fd,
     p_de = init_de zero_de, p_em = init_em zero_em, p_mw = init_mw zero_mw,
     p_wb = init_wb zero_wb,
     p_ctl = \<lparr>ctl_flag = False, ctl_cmp = False, ctl_cond = 0, ctl_regs = 0, ctl_stall = False\<rparr>,
     p_cache = cache_init, sim_num_insn = 0, sim_num_clk = 0\<rparr>"

text \<open>What \<open>sim_main()\<close> does before its loop, on the state the loader left, and one turn.\<close>

definition sim_main_start :: "pipe_t \<Rightarrow> pipe_t" where
  "sim_main_start s =
     (let regs = (p_regs s)\<lparr>regs_NPC := regs_PC (p_regs s) + 8,
                            regs_R := (regs_R (p_regs s))(0 := 0)\<rparr>
      in s\<lparr>p_regs := regs, p_fd := (p_fd s)\<lparr>fd_PC := regs_PC regs - 8\<rparr>\<rparr>)"

definition pipe_cycle :: "impl \<Rightarrow> pipe_t \<Rightarrow> pipe_t option" where
  "pipe_cycle syscall s = do {
     s1 \<leftarrow> do_wb syscall (pipeline_control s);
     s2 \<leftarrow> do_mem s1;
     s3 \<leftarrow> do_id (do_ex s2);
     s4 \<leftarrow> do_forward s3;
     s5 \<leftarrow> do_if s4;
     Some (INC_CYCLE 1 (s5\<lparr>sim_num_insn := sim_num_insn s5 + 1\<rparr>)) }"

fun pipe_cycles :: "impl \<Rightarrow> nat \<Rightarrow> pipe_t \<Rightarrow> pipe_t option" where
  "pipe_cycles syscall 0 s = Some s"
| "pipe_cycles syscall (Suc n) s = do { s1 \<leftarrow> pipe_cycle syscall s; pipe_cycles syscall n s1 }"

end
