(* ===== verification/Pipe_Spec.thy ===== *)
theory Pipe_Spec
  imports Pipe
begin

text \<open>
  What one instruction of the Project 2 pipeline does, taken from its row of the table: the
  operands it names, the ALU function the decode stage selects for it, and its effect
  \<open>pstep\<close> on the registers and a flat memory.  This is the machine the pipeline is compared
  with, for the instructions that do not change the control flow.
\<close>

section \<open>What an instruction does\<close>

definition supported_ops :: "word_t list" where
  "supported_ops = [LUI, LW, SW, ADD, ADDI, ADDU, ADDIU, ANDI, SLL, SLTI]"

definition i_op :: "md_inst_t \<Rightarrow> word_t" where "i_op inst = MD_SET_OPCODE inst"
definition i_row :: "md_inst_t \<Rightarrow> definst" where "i_row inst = the (definst_of pisa_def (i_op inst))"
definition i_in1 :: "md_inst_t \<Rightarrow> word_t" where "i_in1 inst = di_i1 (i_row inst) inst"
definition i_in2 :: "md_inst_t \<Rightarrow> word_t" where "i_in2 inst = di_i2 (i_row inst) inst"
definition i_out :: "md_inst_t \<Rightarrow> word_t" where "i_out inst = di_o1 (i_row inst) inst"

definition i_flags :: "md_inst_t \<Rightarrow> word_t" where
  "i_flags inst = (if i_op inst = LUI then di_flags (i_row inst) OR F_IMM else di_flags (i_row inst))"

definition i_func :: "md_inst_t \<Rightarrow> alu_func_t" where
  "i_func inst = (if i_op inst = ANDI then ALU_AND else if i_op inst = SLL then ALU_SHTL
     else if i_op inst = SLTI then ALU_SLT else ALU_ADD)"

definition is_load :: "md_inst_t \<Rightarrow> bool" where "is_load inst \<longleftrightarrow> i_flags inst AND F_LOAD \<noteq> 0"
definition is_store :: "md_inst_t \<Rightarrow> bool" where "is_store inst \<longleftrightarrow> i_flags inst AND F_STORE \<noteq> 0"

definition i_disp :: "md_inst_t \<Rightarrow> bool" where "i_disp inst \<longleftrightarrow> i_flags inst AND F_DISP \<noteq> 0"
definition i_imm :: "md_inst_t \<Rightarrow> bool" where "i_imm inst \<longleftrightarrow> i_flags inst AND F_IMM \<noteq> 0"

definition i_srcA :: "md_inst_t \<Rightarrow> word_t" where
  "i_srcA inst = (if i_disp inst then i_in2 inst else i_in1 inst)"

definition i_dstE :: "md_inst_t \<Rightarrow> word_t" where
  "i_dstE inst = (if is_load inst then dna else i_out inst)"

definition i_dstM :: "md_inst_t \<Rightarrow> word_t" where
  "i_dstM inst = (if is_load inst then i_out inst else dna)"

type_synonym regfile = "nat \<Rightarrow> word_t"

definition opnd :: "regfile \<Rightarrow> word_t \<Rightarrow> word_t" where
  "opnd R r = (if r = dna then 0 else R (unat r))"

definition i_valE :: "md_inst_t \<Rightarrow> regfile \<Rightarrow> word_t" where
  "i_valE inst R =
     alu (i_func inst) (opnd R (i_srcA inst))
       (if i_imm inst \<or> i_disp inst then sext16 (inst_b inst)
        else if i_func inst = ALU_SHTL then inst_b inst AND 0xff
        else opnd R (i_in2 inst))"

definition pstep :: "md_inst_t \<Rightarrow> regfile \<times> view \<Rightarrow> regfile \<times> view" where
  "pstep inst = (\<lambda>(R, V).
     if is_load inst then (R(unat (i_out inst) := view_word V (i_valE inst R)), V)
     else if is_store inst then (R, view_set_word V (i_valE inst R) (opnd R (i_in1 inst)))
     else (R(unat (i_out inst) := i_valE inst R), V))"

definition reg_ok :: "word_t \<Rightarrow> bool" where "reg_ok r \<longleftrightarrow> r = dna \<or> unat r < 32"

definition wf_inst :: "md_inst_t \<Rightarrow> bool" where
  "wf_inst inst \<longleftrightarrow> i_op inst \<in> set supported_ops \<and> reg_ok (i_in1 inst) \<and> reg_ok (i_in2 inst) \<and>
     (is_store inst \<or> unat (i_out inst) < 32)"

lemma rows:
  "definst_of pisa_def LUI = Some (DEFINST ''LUI'' 0xa2 ''lui'' ''t,U'' IntALU F_ICOMP (DGPR RT) DNA DNA DNA DNA)"
  "definst_of pisa_def LW = Some (DEFINST ''LW'' 0x28 ''lw'' ''t,o(b)'' RdPort (F_MEM OR F_LOAD OR F_DISP)
     (DGPR RT) DNA DNA (DGPR BS) DNA)"
  "definst_of pisa_def SW = Some (DEFINST ''SW'' 0x34 ''sw'' ''t,o(b)'' WrPort (F_MEM OR F_STORE OR F_DISP)
     DNA DNA (DGPR RT) (DGPR BS) DNA)"
  "definst_of pisa_def ADD = Some (DEFINST ''ADD'' 0x40 ''add'' ''d,s,t'' IntALU F_ICOMP (DGPR RD) DNA
     (DGPR RS) (DGPR RT) DNA)"
  "definst_of pisa_def ADDI = Some (DEFINST ''ADDI'' 0x41 ''addi'' ''t,s,i'' IntALU (F_ICOMP OR F_IMM)
     (DGPR RT) DNA (DGPR RS) DNA DNA)"
  "definst_of pisa_def ADDU = Some (DEFINST ''ADDU'' 0x42 ''addu'' ''d,s,t'' IntALU F_ICOMP (DGPR RD) DNA
     (DGPR RS) (DGPR RT) DNA)"
  "definst_of pisa_def ADDIU = Some (DEFINST ''ADDIU'' 0x43 ''addiu'' ''t,s,i'' IntALU (F_ICOMP OR F_IMM)
     (DGPR RT) DNA (DGPR RS) DNA DNA)"
  "definst_of pisa_def ANDI = Some (DEFINST ''ANDI'' 0x4f ''andi'' ''t,s,u'' IntALU (F_ICOMP OR F_IMM)
     (DGPR RT) DNA (DGPR RS) DNA DNA)"
  "definst_of pisa_def SLL = Some (DEFINST ''SLL'' 0x55 ''sll'' ''d,t,H'' IntALU F_ICOMP (DGPR RD) DNA
     (DGPR RT) DNA DNA)"
  "definst_of pisa_def SLTI = Some (DEFINST ''SLTI'' 0x5c ''slti'' ''t,s,i'' IntALU (F_ICOMP OR F_IMM)
     (DGPR RT) DNA (DGPR RS) DNA DNA)"
  by (simp_all add: definst_of_def pisa_def_masks(3) opcode_defs)
    (simp_all add: pisa_def_def pisa_def_int_def pisa_def_fp_def)

lemma dna_DNA: "DNA inst = dna" by (simp add: dna_def DNA_def)

lemmas attr_defs = is_load_def is_store_def i_disp_def i_imm_def i_flags_def i_row_def i_in1_def i_in2_def
  i_out_def i_func_def dna_DNA DGPR_def

lemma attr_LUI:
  assumes "i_op inst = LUI"
  shows "definst_of pisa_def (i_op inst) = Some (i_row inst) \<and> \<not> is_load inst \<and> \<not> is_store inst \<and>
    \<not> i_disp inst \<and> i_imm inst \<and> i_in1 inst = dna \<and> i_in2 inst = dna \<and> i_out inst = RT inst \<and>
    i_func inst = ALU_ADD"
  using assms by (simp add: attr_defs rows) (simp add: flag_defs opcode_defs)

lemma attr_LW:
  assumes "i_op inst = LW"
  shows "definst_of pisa_def (i_op inst) = Some (i_row inst) \<and> is_load inst \<and> \<not> is_store inst \<and>
    i_disp inst \<and> \<not> i_imm inst \<and> i_in1 inst = dna \<and> i_in2 inst = BS inst \<and> i_out inst = RT inst \<and>
    i_func inst = ALU_ADD"
  using assms by (simp add: attr_defs rows) (simp add: flag_defs opcode_defs)

lemma attr_SW:
  assumes "i_op inst = SW"
  shows "definst_of pisa_def (i_op inst) = Some (i_row inst) \<and> \<not> is_load inst \<and> is_store inst \<and>
    i_disp inst \<and> \<not> i_imm inst \<and> i_in1 inst = RT inst \<and> i_in2 inst = BS inst \<and> i_out inst = dna \<and>
    i_func inst = ALU_ADD"
  using assms by (simp add: attr_defs rows) (simp add: flag_defs opcode_defs)

lemma attr_ADD:
  assumes "i_op inst = ADD"
  shows "definst_of pisa_def (i_op inst) = Some (i_row inst) \<and> \<not> is_load inst \<and> \<not> is_store inst \<and>
    \<not> i_disp inst \<and> \<not> i_imm inst \<and> i_in1 inst = RS inst \<and> i_in2 inst = RT inst \<and> i_out inst = RD inst \<and>
    i_func inst = ALU_ADD"
  using assms by (simp add: attr_defs rows) (simp add: flag_defs opcode_defs)

lemma attr_ADDI:
  assumes "i_op inst = ADDI"
  shows "definst_of pisa_def (i_op inst) = Some (i_row inst) \<and> \<not> is_load inst \<and> \<not> is_store inst \<and>
    \<not> i_disp inst \<and> i_imm inst \<and> i_in1 inst = RS inst \<and> i_in2 inst = dna \<and> i_out inst = RT inst \<and>
    i_func inst = ALU_ADD"
  using assms by (simp add: attr_defs rows) (simp add: flag_defs opcode_defs)

lemma attr_ADDU:
  assumes "i_op inst = ADDU"
  shows "definst_of pisa_def (i_op inst) = Some (i_row inst) \<and> \<not> is_load inst \<and> \<not> is_store inst \<and>
    \<not> i_disp inst \<and> \<not> i_imm inst \<and> i_in1 inst = RS inst \<and> i_in2 inst = RT inst \<and> i_out inst = RD inst \<and>
    i_func inst = ALU_ADD"
  using assms by (simp add: attr_defs rows) (simp add: flag_defs opcode_defs)

lemma attr_ADDIU:
  assumes "i_op inst = ADDIU"
  shows "definst_of pisa_def (i_op inst) = Some (i_row inst) \<and> \<not> is_load inst \<and> \<not> is_store inst \<and>
    \<not> i_disp inst \<and> i_imm inst \<and> i_in1 inst = RS inst \<and> i_in2 inst = dna \<and> i_out inst = RT inst \<and>
    i_func inst = ALU_ADD"
  using assms by (simp add: attr_defs rows) (simp add: flag_defs opcode_defs)

lemma attr_ANDI:
  assumes "i_op inst = ANDI"
  shows "definst_of pisa_def (i_op inst) = Some (i_row inst) \<and> \<not> is_load inst \<and> \<not> is_store inst \<and>
    \<not> i_disp inst \<and> i_imm inst \<and> i_in1 inst = RS inst \<and> i_in2 inst = dna \<and> i_out inst = RT inst \<and>
    i_func inst = ALU_AND"
  using assms by (simp add: attr_defs rows) (simp add: flag_defs opcode_defs)

lemma attr_SLL:
  assumes "i_op inst = SLL"
  shows "definst_of pisa_def (i_op inst) = Some (i_row inst) \<and> \<not> is_load inst \<and> \<not> is_store inst \<and>
    \<not> i_disp inst \<and> \<not> i_imm inst \<and> i_in1 inst = RT inst \<and> i_in2 inst = dna \<and> i_out inst = RD inst \<and>
    i_func inst = ALU_SHTL"
  using assms by (simp add: attr_defs rows) (simp add: flag_defs opcode_defs)

lemma attr_SLTI:
  assumes "i_op inst = SLTI"
  shows "definst_of pisa_def (i_op inst) = Some (i_row inst) \<and> \<not> is_load inst \<and> \<not> is_store inst \<and>
    \<not> i_disp inst \<and> i_imm inst \<and> i_in1 inst = RS inst \<and> i_in2 inst = dna \<and> i_out inst = RT inst \<and>
    i_func inst = ALU_SLT"
  using assms by (simp add: attr_defs rows) (simp add: flag_defs opcode_defs)

lemmas attrs = attr_LUI attr_LW attr_SW attr_ADD attr_ADDI attr_ADDU attr_ADDIU attr_ANDI attr_SLL attr_SLTI

lemma wf_op_cases [consumes 1, case_names LUI LW SW ADD ADDI ADDU ADDIU ANDI SLL SLTI]:
  assumes "wf_inst inst"
  obtains "i_op inst = LUI" | "i_op inst = LW" | "i_op inst = SW" | "i_op inst = ADD"
  | "i_op inst = ADDI" | "i_op inst = ADDU" | "i_op inst = ADDIU" | "i_op inst = ANDI"
  | "i_op inst = SLL" | "i_op inst = SLTI"
  using assms by (auto simp: wf_inst_def supported_ops_def)

lemma wf_row: "wf_inst inst \<Longrightarrow> definst_of pisa_def (i_op inst) = Some (i_row inst)"
  by (cases rule: wf_op_cases) (blast dest: attrs)+

lemma wf_load_store: "wf_inst inst \<Longrightarrow> \<not> (is_load inst \<and> is_store inst)"
  by (cases rule: wf_op_cases) (blast dest: attrs)+

lemma wf_store_out: "wf_inst inst \<Longrightarrow> is_store inst \<Longrightarrow> i_out inst = dna"
  by (cases rule: wf_op_cases) (blast dest: attrs)+

lemma wf_out: "wf_inst inst \<Longrightarrow> \<not> is_store inst \<Longrightarrow> unat (i_out inst) < 32"
  by (simp add: wf_inst_def)

lemma wf_regs: "wf_inst inst \<Longrightarrow> reg_ok (i_in1 inst)" "wf_inst inst \<Longrightarrow> reg_ok (i_in2 inst)"
  "wf_inst inst \<Longrightarrow> reg_ok (i_srcA inst)"
  by (auto simp: wf_inst_def i_srcA_def)

lemma wf_not_special:
  assumes "wf_inst inst"
  shows "\<not> is_nop inst" "inst_a inst \<noteq> SYSCALL" "i_op inst \<noteq> MULTU"
proof -
  have op: "i_op inst = inst_a inst AND 0xff" by (simp add: i_op_def MD_SET_OPCODE_def)
  have "i_op inst \<noteq> NOP AND 0xff" "i_op inst \<noteq> SYSCALL AND 0xff" "i_op inst \<noteq> MULTU"
    using assms by (auto simp: wf_inst_def supported_ops_def opcode_defs)
  with op show "\<not> is_nop inst" "inst_a inst \<noteq> SYSCALL" "i_op inst \<noteq> MULTU"
    by (auto simp: is_nop_def)
qed

lemma unat_dna: "unat dna = 4294967295"
  by (simp add: dna_def unsigned_minus_1_eq_mask mask_eq_exp_minus_1)

lemma reg_not_dna: "unat r < 32 \<Longrightarrow> r \<noteq> dna"
  by (auto simp: unat_dna)

lemma reg_okD: "reg_ok r \<Longrightarrow> r \<noteq> dna \<Longrightarrow> unat r < 32"
  by (simp add: reg_ok_def)

section \<open>Registers and memory across an instruction\<close>

lemma pstep_load: "is_load inst \<Longrightarrow>
    pstep inst (R, V) = (R(unat (i_out inst) := view_word V (i_valE inst R)), V)"
  by (simp add: pstep_def)

lemma pstep_store: "\<not> is_load inst \<Longrightarrow> is_store inst \<Longrightarrow>
    pstep inst (R, V) = (R, view_set_word V (i_valE inst R) (opnd R (i_in1 inst)))"
  by (simp add: pstep_def)

lemma pstep_alu: "\<not> is_load inst \<Longrightarrow> \<not> is_store inst \<Longrightarrow>
    pstep inst (R, V) = (R(unat (i_out inst) := i_valE inst R), V)"
  by (simp add: pstep_def)

lemma pstep_view: "\<not> is_store inst \<Longrightarrow> snd (pstep inst p) = snd p"
  "\<not> is_load inst \<Longrightarrow> is_store inst \<Longrightarrow> snd (pstep inst p) =
     view_set_word (snd p) (i_valE inst (fst p)) (opnd (fst p) (i_in1 inst))"
  by (cases p; simp add: pstep_def)+

lemma dst_cases [consumes 1, case_names load store alu]:
  assumes "wf_inst inst"
  obtains (load) "is_load inst" "\<not> is_store inst" "unat (i_out inst) < 32" "i_dstE inst = dna"
      "i_dstM inst = i_out inst"
  | (store) "\<not> is_load inst" "is_store inst" "i_dstE inst = dna" "i_dstM inst = dna"
  | (alu) "\<not> is_load inst" "\<not> is_store inst" "unat (i_out inst) < 32" "i_dstE inst = i_out inst"
      "i_dstM inst = dna"
  using wf_load_store [OF assms] wf_store_out [OF assms] wf_out [OF assms]
  by (cases "is_load inst"; cases "is_store inst") (auto simp: i_dstE_def i_dstM_def)

lemma dst_regs: "wf_inst inst \<Longrightarrow> reg_ok (i_dstE inst)" "wf_inst inst \<Longrightarrow> reg_ok (i_dstM inst)"
  by (cases rule: dst_cases; simp add: reg_ok_def)+

lemma pstep_other:
  assumes "wf_inst inst" "unat r < 32" "r \<noteq> i_dstE inst" "r \<noteq> i_dstM inst"
  shows "fst (pstep inst (R, V)) (unat r) = R (unat r)"
  using assms(1)
proof (cases rule: dst_cases)
  case load
  then show ?thesis using assms(4) by (simp add: pstep_load word_unat_eq_iff)
next
  case store
  then show ?thesis by (simp add: pstep_store)
next
  case alu
  then show ?thesis using assms(3) by (simp add: pstep_alu word_unat_eq_iff)
qed

lemma pstep_dstE: "wf_inst inst \<Longrightarrow> i_dstE inst \<noteq> dna \<Longrightarrow>
    fst (pstep inst (R, V)) (unat (i_dstE inst)) = i_valE inst R"
  by (erule dst_cases; simp add: pstep_alu)

lemma pstep_dstM: "wf_inst inst \<Longrightarrow> i_dstM inst \<noteq> dna \<Longrightarrow>
    fst (pstep inst (R, V)) (unat (i_dstM inst)) = view_word V (i_valE inst R)"
  by (erule dst_cases; simp add: pstep_load)

text \<open>The two register writes of the write-back stage.\<close>

lemma write_back_regs:
  assumes wf: "wf_inst inst" and R: "regs_R regs = R" and R': "R' = fst (pstep inst (R, V))"
    and E: "i_dstE inst \<noteq> dna \<Longrightarrow> vE = R' (unat (i_dstE inst))"
    and M: "i_dstM inst \<noteq> dna \<Longrightarrow> vM = R' (unat (i_dstM inst))"
  shows "(do { regs1 \<leftarrow> (if i_dstM inst \<noteq> dna then SET_GPR regs (i_dstM inst) vM else Some regs);
      (if i_dstE inst \<noteq> dna then SET_GPR regs1 (i_dstE inst) vE else Some regs1) }) =
    Some (regs\<lparr>regs_R := R'\<rparr>)"
  using wf
proof (cases rule: dst_cases)
  case load
  then show ?thesis
    using M wf by (simp add: R R' pstep_load reg_not_dna)
next
  case store
  then show ?thesis by (simp add: R R' pstep_store flip: R)
next
  case alu
  then show ?thesis using E by (simp add: R R' pstep_alu reg_not_dna)
qed

end
