(* ===== verification/Pipe_Correct.thy ===== *)
theory Pipe_Correct
  imports Pipe_Spec
begin

text \<open>
  The pipeline of Project 2 against the instruction-at-a-time machine of \<open>Pipe_Spec\<close>, for
  straight-line code: the pipeline invariant says how far each stage is along the program
  and what its buffer holds, each stage keeps its part of it, and every turn of the main
  loop retires the next instruction or a bubble.
\<close>

section \<open>The invariant\<close>

text \<open>
  \<open>I\<close> is the program and \<open>tr k\<close> the registers and the memory before its instruction \<open>k\<close>.
  \<open>W\<close>, \<open>M\<close>, \<open>E\<close> and \<open>D\<close> count the instructions that have left the write-back, memory,
  execute and decode stages.  A stage buffer whose instruction is a bubble still holds the
  destinations and values of the last instruction that went through it.
\<close>

type_synonym code = "nat \<Rightarrow> md_inst_t"
type_synonym trace = "nat \<Rightarrow> regfile \<times> view"

definition last_dstE :: "code \<Rightarrow> nat \<Rightarrow> word_t" where
  "last_dstE I k = (if k = 0 then dna else i_dstE (I (k - 1)))"

definition last_dstM :: "code \<Rightarrow> nat \<Rightarrow> word_t" where
  "last_dstM I k = (if k = 0 then dna else i_dstM (I (k - 1)))"

definition i_rw :: "md_inst_t \<Rightarrow> word_t" where
  "i_rw inst = (if is_store inst then 2 else 0) OR (if is_load inst then 4 else 0)"

definition holds_reg :: "regfile \<Rightarrow> word_t \<Rightarrow> word_t \<Rightarrow> bool" where
  "holds_reg R r v \<longleftrightarrow> (r \<noteq> dna \<longrightarrow> v = R (unat r))"

definition de_inst_ok :: "md_inst_t \<Rightarrow> idex_buf \<Rightarrow> bool" where
  "de_inst_ok inst de \<longleftrightarrow> de_inst de = inst \<and> de_opcode de = i_op inst \<and>
     op_in1 (de_oprand de) = i_in1 inst \<and> de_instFlags de = i_flags inst \<and> de_func de = i_func inst \<and>
     de_srcA de = i_srcA inst \<and> de_srcB de = i_in2 inst \<and> de_dstE de = i_dstE inst \<and>
     de_dstM de = i_dstM inst \<and> de_rw de = i_rw inst"

definition de_vals_ok :: "md_inst_t \<Rightarrow> regfile \<Rightarrow> idex_buf \<Rightarrow> bool" where
  "de_vals_ok inst R de \<longleftrightarrow> de_aluA de = opnd R (i_srcA inst) \<and> de_aluB de = opnd R (i_in2 inst) \<and>
     de_valA de = opnd R (i_in1 inst)"

definition de_regs_ok :: "idex_buf \<Rightarrow> bool" where
  "de_regs_ok de \<longleftrightarrow> reg_ok (de_srcA de) \<and> reg_ok (de_srcB de) \<and> reg_ok (op_in1 (de_oprand de))"

definition de_at :: "code \<Rightarrow> trace \<Rightarrow> nat \<Rightarrow> nat \<Rightarrow> idex_buf \<Rightarrow> bool" where
  "de_at I tr E D de \<longleftrightarrow> E \<le> D \<and> D \<le> Suc E \<and> de_regs_ok de \<and>
     (if D = E then is_nop (de_inst de)
      else de_inst_ok (I E) de \<and> de_vals_ok (I E) (fst (tr E)) de)"

definition em_at :: "code \<Rightarrow> trace \<Rightarrow> nat \<Rightarrow> nat \<Rightarrow> exmem_buf \<Rightarrow> bool" where
  "em_at I tr M E em \<longleftrightarrow> M \<le> E \<and> E \<le> Suc M \<and>
     em_dstE em = last_dstE I E \<and> em_dstM em = last_dstM I E \<and>
     holds_reg (fst (tr E)) (em_dstE em) (em_valE em) \<and>
     (if E = M then is_nop (em_inst em)
      else em_inst em = I M \<and> em_rw em = i_rw (I M) \<and> em_valE em = i_valE (I M) (fst (tr M)) \<and>
        em_valA em = opnd (fst (tr M)) (i_in1 (I M)))"

definition mw_at :: "code \<Rightarrow> trace \<Rightarrow> nat \<Rightarrow> nat \<Rightarrow> memwb_buf \<Rightarrow> bool" where
  "mw_at I tr W M mw \<longleftrightarrow> W \<le> M \<and> M \<le> Suc W \<and>
     mw_dstE mw = last_dstE I M \<and> mw_dstM mw = last_dstM I M \<and>
     holds_reg (fst (tr M)) (mw_dstE mw) (mw_valE mw) \<and> holds_reg (fst (tr M)) (mw_dstM mw) (mw_valM mw) \<and>
     (if M = W then is_nop (mw_inst mw) else mw_inst mw = I W)"

definition wb_at :: "trace \<Rightarrow> nat \<Rightarrow> wb_buf \<Rightarrow> bool" where
  "wb_at tr W wb \<longleftrightarrow> holds_reg (fst (tr W)) (wb_dstE wb) (wb_valE wb) \<and>
     holds_reg (fst (tr W)) (wb_dstM wb) (wb_valM wb)"

definition uses :: "md_inst_t \<Rightarrow> word_t \<Rightarrow> bool" where
  "uses inst r \<longleftrightarrow> r \<noteq> dna \<and> (i_in1 inst = r \<or> i_in2 inst = r)"

definition load_use :: "md_inst_t \<Rightarrow> md_inst_t \<Rightarrow> bool" where
  "load_use inst next_inst \<longleftrightarrow> is_load inst \<and> uses next_inst (i_out inst)"

text \<open>
  A load is shadowed when the instruction before it loads the same register, and it does not
  itself read that register (for then it would have waited).  When the first load leaves the
  memory stage, \<open>do_mem()\<close> clears the scoreboard bit of the register, and with it the claim of
  the second load, which is then in flight unnoticed.
\<close>

definition shadowed :: "code \<Rightarrow> nat \<Rightarrow> bool" where
  "shadowed I k \<longleftrightarrow> k > 0 \<and> is_load (I (k - 1)) \<and> is_load (I k) \<and> i_out (I (k - 1)) = i_out (I k) \<and>
     \<not> load_use (I (k - 1)) (I k)"

text \<open>The scoreboard shows loads in flight, and all of them that are not shadowed.\<close>

definition busy_at :: "code \<Rightarrow> nat \<Rightarrow> nat \<Rightarrow> word_t \<Rightarrow> bool" where
  "busy_at I M D busy \<longleftrightarrow> (\<forall>r < 32.
     (bit busy r \<longrightarrow> (\<exists>j. M \<le> j \<and> j < D \<and> is_load (I j) \<and> unat (i_out (I j)) = r)) \<and>
     (\<forall>j. M \<le> j \<and> j < D \<and> is_load (I j) \<and> \<not> shadowed I j \<and> unat (i_out (I j)) = r \<longrightarrow> bit busy r))"

definition mem_at :: "trace \<Rightarrow> nat \<Rightarrow> pipe_t \<Rightarrow> bool" where
  "mem_at tr M s \<longleftrightarrow> cache_enable (p_cache s) \<noteq> 0 \<and> cached_inv (p_cache s, p_mem s) \<and>
     cached_view (p_cache s, p_mem s) = snd (tr M)"

definition fd_at :: "code \<Rightarrow> md_addr_t \<Rightarrow> nat \<Rightarrow> nat \<Rightarrow> ifid_buf \<Rightarrow> bool" where
  "fd_at I pc n D fd \<longleftrightarrow> fd_PC fd = pc + 8 * of_nat D \<and> (D < n \<longrightarrow> fd_inst fd = I D)"

text \<open>What is asked of the program and its trace.\<close>

definition mem_op_ok :: "md_inst_t \<Rightarrow> regfile \<Rightarrow> bool" where
  "mem_op_ok inst R \<longleftrightarrow> (is_load inst \<or> is_store inst \<longrightarrow> aligned4 (i_valE inst R))"

definition text_at :: "code \<Rightarrow> md_addr_t \<Rightarrow> nat \<Rightarrow> view \<Rightarrow> bool" where
  "text_at I pc n V \<longleftrightarrow> (\<forall>j < n. view_word V (pc + 8 * of_nat j) = inst_a (I j) \<and>
     view_word V (pc + 8 * of_nat j + 4) = inst_b (I j))"

text \<open>
  Straight-line code of the supported instructions: at an aligned address, with aligned data
  addresses, its text never overwritten.  One pattern is left out, on which the pipeline is
  wrong: a load that directly follows a load of the same register without reading it, and
  directly before an instruction that reads it.  The last of the three does not wait and is
  given the first load's word (\<open>shadowed_load_stale\<close> in \<open>Pipe_Isa\<close>).
\<close>

definition straight_line :: "code \<Rightarrow> md_addr_t \<Rightarrow> nat \<Rightarrow> trace \<Rightarrow> bool" where
  "straight_line I pc n tr \<longleftrightarrow> aligned4 pc \<and>
     (\<forall>k < n. wf_inst (I k) \<and> tr (Suc k) = pstep (I k) (tr k) \<and> mem_op_ok (I k) (fst (tr k)) \<and>
        \<not> (k > 0 \<and> shadowed I (k - 1) \<and> load_use (I (k - 1)) (I k))) \<and>
     (\<forall>k \<le> n. text_at I pc n (snd (tr k)))"

section \<open>The stages keep the invariant\<close>

lemma slD:
  assumes "straight_line I pc n tr" "k < n"
  shows "wf_inst (I k)" "tr (Suc k) = pstep (I k) (tr k)" "mem_op_ok (I k) (fst (tr k))"
  using assms by (auto simp: straight_line_def)

lemma do_wb_at:
  assumes sl: "straight_line I pc n tr" "M \<le> n"
    and mw: "mw_at I tr W M (p_mw s)" and R: "regs_R (p_regs s) = fst (tr W)" and wb: "wb_at tr W (p_wb s)"
  obtains wb' where "do_wb sys s = Some (s\<lparr>p_wb := wb', p_regs := (p_regs s)\<lparr>regs_R := fst (tr M)\<rparr>\<rparr>)"
    "wb_at tr M wb'"
proof (cases "M = W")
  case True
  have "do_wb sys s = Some (s\<lparr>p_wb := (p_wb s)\<lparr>wb_inst := mw_inst (p_mw s)\<rparr>,
      p_regs := (p_regs s)\<lparr>regs_R := fst (tr M)\<rparr>\<rparr>)"
    using mw True by (simp add: do_wb_def mw_at_def R [symmetric])
  moreover have "wb_at tr M ((p_wb s)\<lparr>wb_inst := mw_inst (p_mw s)\<rparr>)" using wb True by (simp add: wb_at_def)
  ultimately show ?thesis by (rule that)
next
  case False
  let ?mw = "p_mw s"
  have M: "M = Suc W" using mw False by (simp add: mw_at_def)
  then have i: "mw_inst ?mw = I W" "mw_dstE ?mw = i_dstE (I W)" "mw_dstM ?mw = i_dstM (I W)"
    and v: "holds_reg (fst (tr M)) (i_dstE (I W)) (mw_valE ?mw)" "holds_reg (fst (tr M)) (i_dstM (I W)) (mw_valM ?mw)"
    using mw by (auto simp: mw_at_def last_dstE_def last_dstM_def)
  have W: "W < n" using M sl(2) by simp
  note wf = slD(1) [OF sl(1) W] and st = slD(2) [OF sl(1) W]
  note ns = wf_not_special [OF wf]
  let ?wb = "(p_wb s)\<lparr>wb_inst := mw_inst ?mw, wb_PC := mw_PC ?mw, wb_dstE := mw_dstE ?mw,
      wb_dstM := mw_dstM ?mw, wb_valE := mw_valE ?mw, wb_valM := mw_valM ?mw\<rparr>"
  have w: "(do { regs1 \<leftarrow> (if i_dstM (I W) \<noteq> dna then SET_GPR (p_regs s) (i_dstM (I W)) (mw_valM ?mw) else Some (p_regs s));
      (if i_dstE (I W) \<noteq> dna then SET_GPR regs1 (i_dstE (I W)) (mw_valE ?mw) else Some regs1) }) =
      Some ((p_regs s)\<lparr>regs_R := fst (tr M)\<rparr>)"
    using v by (intro write_back_regs [OF wf R, of _ "snd (tr W)"]) (simp_all add: M st holds_reg_def)
  have "do_wb sys s = do { regs2 \<leftarrow> (do { regs1 \<leftarrow> (if i_dstM (I W) \<noteq> dna then SET_GPR (p_regs s) (i_dstM (I W)) (mw_valM ?mw) else Some (p_regs s));
      (if i_dstE (I W) \<noteq> dna then SET_GPR regs1 (i_dstE (I W)) (mw_valE ?mw) else Some regs1) });
      Some (s\<lparr>p_wb := ?wb, p_regs := regs2\<rparr>) }"
    using ns by (simp add: do_wb_def Let_def i)
  also have "\<dots> = Some (s\<lparr>p_wb := ?wb, p_regs := (p_regs s)\<lparr>regs_R := fst (tr M)\<rparr>\<rparr>)"
    unfolding w by simp
  finally have "do_wb sys s = Some (s\<lparr>p_wb := ?wb, p_regs := (p_regs s)\<lparr>regs_R := fst (tr M)\<rparr>\<rparr>)" .
  moreover have "wb_at tr M ?wb" using v i by (simp add: wb_at_def)
  ultimately show ?thesis by (rule that)
qed

lemma cache_access_enable:
  assumes "cache_access c m a w f = Some (lat, w', c', m')"
  shows "cache_enable c' = cache_enable c"
  using assms
  by (auto simp: cache_access_def add_into_cache_set_def set_update_def Let_def
      split: Option.bind_splits if_splits list.splits)

lemma mem_at_read:
  assumes "mem_at tr M s" "aligned4 a"
  obtains lat c m where "cache_read (p_cache s) (p_mem s) a w = Some (lat, view_word (snd (tr M)) a, c, m)"
    "\<And>s'. p_cache s' = c \<Longrightarrow> p_mem s' = m \<Longrightarrow> mem_at tr M s'"
proof -
  from assms(1) have inv: "cache_inv (p_cache s) (p_mem s)" and v: "cache_view (p_cache s) (p_mem s) = snd (tr M)"
    and e: "cache_enable (p_cache s) \<noteq> 0" by (auto simp: mem_at_def cached_inv_def cached_view_def)
  from cache_read_spec [OF inv assms(2), of w] obtain lat c m where
    r: "cache_read (p_cache s) (p_mem s) a w = Some (lat, view_word (snd (tr M)) a, c, m)"
      "cache_inv c m" "cache_view c m = snd (tr M)" unfolding v by blast
  have "cache_enable c = cache_enable (p_cache s)" using r(1) unfolding cache_read_def by (rule cache_access_enable)
  with r e show ?thesis by (intro that) (auto simp: mem_at_def cached_inv_def cached_view_def)
qed

lemma mem_at_write:
  assumes "mem_at tr M s" "aligned4 a" "snd (tr E) = view_set_word (snd (tr M)) a w"
  obtains lat c m where "cache_write (p_cache s) (p_mem s) a w = Some (lat, w, c, m)"
    "\<And>s'. p_cache s' = c \<Longrightarrow> p_mem s' = m \<Longrightarrow> mem_at tr E s'"
proof -
  from assms(1) have inv: "cache_inv (p_cache s) (p_mem s)" and v: "cache_view (p_cache s) (p_mem s) = snd (tr M)"
    and e: "cache_enable (p_cache s) \<noteq> 0" by (auto simp: mem_at_def cached_inv_def cached_view_def)
  from cache_write_spec [OF inv assms(2), of w] obtain lat c m where
    r: "cache_write (p_cache s) (p_mem s) a w = Some (lat, w, c, m)"
      "cache_inv c m" "cache_view c m = snd (tr E)" unfolding v assms(3) by blast
  have "cache_enable c = cache_enable (p_cache s)" using r(1) unfolding cache_write_def by (rule cache_access_enable)
  with r e show ?thesis by (intro that) (auto simp: mem_at_def cached_inv_def cached_view_def)
qed

lemma bit_reg_bit: "unat r < 32 \<Longrightarrow> n < 32 \<Longrightarrow> bit (reg_bit r) n \<longleftrightarrow> n = unat r"
proof -
  assume r: "unat r < 32" and n: "n < 32"
  have "r AND 31 = take_bit 5 r" by (simp add: take_bit_eq_mask mask_eq_exp_minus_1)
  then have "unat (r AND 31) = unat r" using r by (simp add: unsigned_take_bit_eq take_bit_nat_eq_self)
  then show ?thesis using n by (auto simp: reg_bit_def c_shl_def bit_simps)
qed

lemma waits_for_busy:
  assumes "busy_at I M D busy" "reg_ok r"
  shows "waits_for busy r \<Longrightarrow> r \<noteq> dna \<and> (\<exists>j. M \<le> j \<and> j < D \<and> is_load (I j) \<and> i_out (I j) = r)"
    "r \<noteq> dna \<Longrightarrow> M \<le> j \<Longrightarrow> j < D \<Longrightarrow> is_load (I j) \<Longrightarrow> \<not> shadowed I j \<Longrightarrow> i_out (I j) = r \<Longrightarrow> waits_for busy r"
proof -
  have w: "waits_for busy r \<longleftrightarrow> r \<noteq> dna \<and> bit busy (unat r)"
proof (cases "r = dna")
  case True
  then show ?thesis by (simp add: waits_for_def dna_def)
next
  case False
  with assms(2) have r: "unat r < 32" by (simp add: reg_ok_def)
  have "\<not> bit r 31"
  proof -
    have "unat r div 2 ^ 31 = 0" using r by simp
    then have "\<not> bit (unat r) 31" by (simp only: bit_iff_odd) simp
    then show ?thesis by (simp add: bit_unsigned_iff)
  qed
  then have "0 \<le> sint r" by (subst sint_sign) simp
  moreover have "busy AND reg_bit r \<noteq> 0 \<longleftrightarrow> bit busy (unat r)"
    using r unfolding bit_eq_iff [where 'a = "32 word"] by (auto simp: bit_simps bit_reg_bit)
  ultimately show ?thesis using False by (auto simp: waits_for_def)
qed
  have r: "r \<noteq> dna \<Longrightarrow> unat r < 32" using assms(2) by (simp add: reg_ok_def)
  show "waits_for busy r \<Longrightarrow> r \<noteq> dna \<and> (\<exists>j. M \<le> j \<and> j < D \<and> is_load (I j) \<and> i_out (I j) = r)"
    unfolding w using assms(1) r by (auto simp: busy_at_def word_unat_eq_iff)
  show "waits_for busy r" if "r \<noteq> dna" "M \<le> j" "j < D" "is_load (I j)" "\<not> shadowed I j" "i_out (I j) = r"
    unfolding w using assms(1) r that unfolding busy_at_def by blast
qed

lemma busy_at_skip: "busy_at I M D busy \<Longrightarrow> \<not> is_load (I M) \<Longrightarrow> busy_at I (Suc M) D busy"
  unfolding busy_at_def by (metis Suc_leD Suc_leI le_neq_implies_less)

text \<open>
  The load that leaves the memory stage clears its bit; the load after it, which did not wait
  for it, is shadowed when it has the same register.
\<close>

lemma busy_at_clear:
  assumes sl: "straight_line I pc n tr" "D \<le> n" "D \<le> Suc (Suc M)"
    and go: "Suc M < D \<Longrightarrow> \<not> load_use (I M) (I (Suc M))" and b: "busy_at I M D busy" and l: "is_load (I M)" "M < n"
  shows "busy_at I (Suc M) D (busy AND NOT (reg_bit (i_out (I M))))"
proof -
  have o: "unat (i_out (I M)) < 32" using slD(1) [OF sl(1) l(2)] l(1) by (cases rule: dst_cases) auto
  have d: "i_out (I M) \<noteq> i_out (I j)" if "Suc M \<le> j" "j < D" "is_load (I j)" "\<not> shadowed I j" for j
  proof -
    have j: "j = Suc M" using that sl(3) by simp
    then have "\<not> load_use (I M) (I j)" using go that(2) by simp
    then show ?thesis using that(3,4) l(1) j by (auto simp: shadowed_def)
  qed
  have bits: "bit (busy AND NOT (reg_bit (i_out (I M)))) r \<longleftrightarrow> bit busy r \<and> r \<noteq> unat (i_out (I M))"
    if "r < 32" for r using that o by (simp add: bit_simps bit_reg_bit)
  have "\<exists>j. Suc M \<le> j \<and> j < D \<and> is_load (I j) \<and> unat (i_out (I j)) = r"
    if r: "r < 32" "bit busy r" "r \<noteq> unat (i_out (I M))" for r
  proof -
    obtain j where j: "M \<le> j" "j < D" "is_load (I j)" "unat (i_out (I j)) = r" using b r(1,2) unfolding busy_at_def by blast
    then have "Suc M \<le> j" using r(3) by (cases "j = M") auto
    then show ?thesis using j by blast
  qed
  moreover have "bit busy (unat (i_out (I j))) \<and> unat (i_out (I j)) \<noteq> unat (i_out (I M))"
    if j: "Suc M \<le> j" "j < D" "is_load (I j)" "\<not> shadowed I j" "unat (i_out (I j)) < 32" for j
  proof -
    have "M \<le> j" using j(1) by simp
    then have "bit busy (unat (i_out (I j)))" using b j unfolding busy_at_def by blast
    then show ?thesis using d [OF j(1-4)] by (simp add: word_unat_eq_iff)
  qed
  ultimately show ?thesis unfolding busy_at_def using bits by blast
qed

lemma rw_bits:
  assumes "wf_inst inst"
  shows "i_rw inst AND 4 \<noteq> 0 \<longleftrightarrow> is_load inst" "i_rw inst AND 2 \<noteq> 0 \<longleftrightarrow> is_store inst"
  by (simp_all add: i_rw_def)

lemma do_mem_at:
  assumes sl: "straight_line I pc n tr" "E \<le> D" "D \<le> n" "D \<le> Suc E"
    and em: "em_at I tr M E (p_em s)" and mw: "mw_at I tr W M (p_mw s)" and m: "mem_at tr M s"
    and b: "busy_at I M D (ctl_regs (p_ctl s))" and go: "M < E \<Longrightarrow> E < D \<Longrightarrow> \<not> load_use (I (E - 1)) (I E)"
  obtains s' busy where "do_mem s = Some s'" "p_regs s' = p_regs s" "p_fd s' = p_fd s" "p_de s' = p_de s"
    "p_wb s' = p_wb s" "p_ctl s' = (p_ctl s)\<lparr>ctl_regs := busy\<rparr>" "busy_at I E D busy"
    "em_at I tr M E (p_em s')" "mw_at I tr M E (p_mw s')" "mem_at tr E s'"
proof (cases "E = M")
  case True
  let ?s = "s\<lparr>p_mw := (p_mw s)\<lparr>mw_inst := em_inst (p_em s)\<rparr>\<rparr>"
  have "do_mem s = Some ?s" using em True by (simp add: do_mem_def em_at_def)
  moreover have "mw_at I tr M E (p_mw ?s)" using em mw True by (auto simp: mw_at_def em_at_def)
  moreover have "mem_at tr E ?s" using m True by (simp add: mem_at_def)
  ultimately show ?thesis using b em True by (intro that [of ?s "ctl_regs (p_ctl s)"]) simp_all
next
  case False
  let ?em = "p_em s" and ?R = "fst (tr M)"
  have E: "E = Suc M" using em False by (simp add: em_at_def)
  then have i: "em_inst ?em = I M" "em_rw ?em = i_rw (I M)" "em_valE ?em = i_valE (I M) ?R"
      "em_valA ?em = opnd ?R (i_in1 (I M))" "em_dstE ?em = i_dstE (I M)" "em_dstM ?em = i_dstM (I M)"
      "holds_reg (fst (tr E)) (i_dstE (I M)) (i_valE (I M) ?R)"
    using em by (auto simp: em_at_def last_dstE_def last_dstM_def)
  have Mn: "M < n" using E sl by simp
  note wf = slD(1) [OF sl(1) Mn]
  have st: "tr E = pstep (I M) (?R, snd (tr M))" using slD(2) [OF sl(1) Mn] E by simp
  have RM: "holds_reg (fst (tr E)) (i_dstM (I M)) (view_word (snd (tr M)) (i_valE (I M) ?R))"
    unfolding st holds_reg_def using pstep_dstM [OF wf] by metis
  have ok: "is_load (I M) \<or> is_store (I M) \<Longrightarrow> aligned4 (i_valE (I M) ?R)"
    using slD(3) [OF sl(1) Mn] by (simp add: mem_op_ok_def)
  note ns = wf_not_special(1) [OF wf] and rw = rw_bits [OF wf]
  let ?mw = "(p_mw s)\<lparr>mw_inst := em_inst ?em, mw_dstE := em_dstE ?em, mw_dstM := em_dstM ?em,
      mw_valE := em_valE ?em, mw_PC := em_PC ?em, mw_rw := em_rw ?em\<rparr>"
  have en: "cache_enable (p_cache s) \<noteq> 0" using m by (simp add: mem_at_def)
  from wf show ?thesis
  proof (cases rule: dst_cases)
    case load
    obtain lat c m' where r: "cache_read (p_cache s) (p_mem s) (i_valE (I M) ?R) (mw_valM (p_mw s)) =
        Some (lat, view_word (snd (tr M)) (i_valE (I M) ?R), c, m')"
      "\<And>s'. p_cache s' = c \<Longrightarrow> p_mem s' = m' \<Longrightarrow> mem_at tr M s'"
      using mem_at_read [OF m ok] load by blast
    let ?v = "view_word (snd (tr M)) (i_valE (I M) ?R)"
    let ?busy = "ctl_regs (p_ctl s) AND NOT (reg_bit (i_out (I M)))"
    let ?s = "INC_CYCLE lat (s\<lparr>p_mw := ?mw\<lparr>mw_valM := ?v\<rparr>, p_cache := c, p_mem := m',
        p_ctl := (p_ctl s)\<lparr>ctl_regs := ?busy\<rparr>\<rparr>)"
    have "do_mem s = Some ?s" using ns load rw en r(1) by (simp add: do_mem_def Let_def i)
    moreover have "busy_at I E D ?busy" unfolding E using sl E b load Mn go by (intro busy_at_clear) auto
    moreover have "mw_at I tr M E (p_mw ?s)"
      using i load RM by (simp add: mw_at_def E last_dstE_def last_dstM_def INC_CYCLE_def)
    moreover have "snd (tr E) = snd (tr M)" using st load by (simp add: pstep_view)
    then have "mem_at tr E ?s" using r(2) [of ?s] by (simp add: mem_at_def INC_CYCLE_def)
    ultimately show ?thesis using em by (intro that [of ?s ?busy]) (simp_all add: INC_CYCLE_def)
  next
    case store
    have v: "snd (tr E) = view_set_word (snd (tr M)) (i_valE (I M) ?R) (opnd ?R (i_in1 (I M)))"
      using st store by (simp add: pstep_view)
    obtain lat c m' where r: "cache_write (p_cache s) (p_mem s) (i_valE (I M) ?R) (opnd ?R (i_in1 (I M))) =
        Some (lat, opnd ?R (i_in1 (I M)), c, m')"
      "\<And>s'. p_cache s' = c \<Longrightarrow> p_mem s' = m' \<Longrightarrow> mem_at tr E s'"
      using mem_at_write [OF m ok v] store by blast
    let ?s = "INC_CYCLE lat (s\<lparr>p_mw := ?mw, p_em := ?em\<lparr>em_valA := opnd ?R (i_in1 (I M))\<rparr>,
        p_cache := c, p_mem := m'\<rparr>)"
    have "do_mem s = Some ?s" using ns store rw en r(1) by (simp add: do_mem_def Let_def i)
    moreover have "busy_at I E D (ctl_regs (p_ctl s))" unfolding E using b store by (intro busy_at_skip)
    moreover have "mw_at I tr M E (p_mw ?s)"
      using i store by (simp add: mw_at_def E last_dstE_def last_dstM_def INC_CYCLE_def) (simp add: holds_reg_def)
    moreover have "em_at I tr M E (p_em ?s)" using em i by (simp add: em_at_def INC_CYCLE_def E)
    moreover have "mem_at tr E ?s" using r(2) by (simp add: INC_CYCLE_def)
    ultimately show ?thesis by (intro that [of ?s "ctl_regs (p_ctl s)"]) (simp_all add: INC_CYCLE_def)
  next
    case alu
    let ?s = "INC_CYCLE 0 (s\<lparr>p_mw := ?mw\<rparr>)"
    have "do_mem s = Some ?s" using ns alu rw by (simp add: do_mem_def Let_def i)
    moreover have "busy_at I E D (ctl_regs (p_ctl s))" unfolding E using b alu by (intro busy_at_skip)
    moreover have "mw_at I tr M E (p_mw ?s)"
      using i alu by (simp add: mw_at_def E last_dstE_def last_dstM_def INC_CYCLE_def) (simp add: holds_reg_def)
    moreover have "snd (tr E) = snd (tr M)" using st alu by (simp add: pstep_view)
    then have "mem_at tr E ?s" using m by (simp add: mem_at_def INC_CYCLE_def)
    ultimately show ?thesis using em by (intro that [of ?s "ctl_regs (p_ctl s)"]) (simp_all add: INC_CYCLE_def)
  qed
qed

lemma do_ex_at:
  assumes sl: "straight_line I pc n tr" "D \<le> n"
    and de: "de_at I tr E D (p_de s)" and em: "em_at I tr M E (p_em s)" and f: "\<not> ctl_flag (p_ctl s)"
  obtains em' where "do_ex s = s\<lparr>p_em := em'\<rparr>" "em_at I tr E D em'"
proof (cases "D = E")
  case True
  have "em_at I tr E D ((p_em s)\<lparr>em_inst := de_inst (p_de s)\<rparr>)"
    using de em True by (auto simp: em_at_def de_at_def)
  moreover have "do_ex s = s\<lparr>p_em := (p_em s)\<lparr>em_inst := de_inst (p_de s)\<rparr>\<rparr>"
    using de True by (simp add: do_ex_def de_at_def)
  ultimately show ?thesis using that by blast
next
  case False
  let ?de = "p_de s" and ?R = "fst (tr E)"
  have D: "D = Suc E" and ok: "de_inst_ok (I E) ?de" and vs: "de_vals_ok (I E) ?R ?de"
    using de False by (auto simp: de_at_def)
  have En: "E < n" using D sl(2) by simp
  note wf = slD(1) [OF sl(1) En]
  have st: "tr D = pstep (I E) (?R, snd (tr E))" using slD(2) [OF sl(1) En] D by simp
  let ?em = "(p_em s)\<lparr>em_inst := I E, em_PC := de_PC ?de, em_dstE := i_dstE (I E), em_dstM := i_dstM (I E),
      em_valA := de_valA ?de, em_rw := i_rw (I E), em_target := de_target ?de,
      em_valE := i_valE (I E) ?R\<rparr>"
  have B: "ex_aluB ?de (I E) = (if i_imm (I E) \<or> i_disp (I E) then sext16 (inst_b (I E))
      else if i_func (I E) = ALU_SHTL then inst_b (I E) AND 0xff else opnd ?R (i_in2 (I E)))"
    using ok vs by (simp add: ex_aluB_def de_inst_ok_def de_vals_ok_def i_imm_def i_disp_def)
  have "p_regs s = p_regs s" by simp
  have "s\<lparr>p_regs := p_regs s, p_em := ?em, p_ctl := p_ctl s\<rparr> = s\<lparr>p_em := ?em\<rparr>" by (cases s) simp
  then have "do_ex s = s\<lparr>p_em := ?em\<rparr>"
    using wf_not_special [OF wf] f ok vs
    by (simp add: do_ex_def Let_def de_inst_ok_def B de_vals_ok_def i_valE_def)
  moreover have "holds_reg (fst (tr D)) (i_dstE (I E)) (i_valE (I E) ?R)"
    unfolding st holds_reg_def using pstep_dstE [OF wf] by metis
  then have "em_at I tr E D ?em" using vs by (simp add: em_at_def D last_dstE_def last_dstM_def de_vals_ok_def)
  ultimately show ?thesis using that by blast
qed

lemma id_switch_supported:
  assumes "wf_inst inst" "de_opcode (p_de s) = i_op inst" "de_instFlags (p_de s) = di_flags (i_row inst)"
  shows "id_switch s = Some (s\<lparr>p_de := (p_de s)\<lparr>de_instFlags := i_flags inst, de_func := i_func inst\<rparr>\<rparr>)"
proof -
  have "id_switch s = Some (s\<lparr>p_de := (if i_op inst = LUI
      then (p_de s)\<lparr>de_instFlags := de_instFlags (p_de s) OR F_IMM, de_func := ALU_ADD\<rparr>
      else (p_de s)\<lparr>de_func := i_func inst\<rparr>)\<rparr>)"
    using assms(1) by (cases rule: wf_op_cases)
      (simp_all add: id_switch_def assms(2) Let_def i_func_def opcode_defs)
  moreover have "(p_de s)\<lparr>de_func := f\<rparr> =
      (p_de s)\<lparr>de_instFlags := di_flags (i_row inst), de_func := f\<rparr>" for f
    using assms(3) by (cases "p_de s") simp
  ultimately show ?thesis by (simp add: i_flags_def assms(3) i_func_def opcode_defs)
qed

lemma do_id_cases:
  assumes wf: "wf_inst inst" and fd: "fd_inst (p_fd s) = inst"
  obtains (stall) de' where "waits_for (ctl_regs (p_ctl s)) (i_in1 inst) \<or> waits_for (ctl_regs (p_ctl s)) (i_in2 inst)"
      "do_id s = Some (s\<lparr>p_de := de', p_ctl := (p_ctl s)\<lparr>ctl_stall := True\<rparr>\<rparr>)"
      "de_inst de' = inst" "de_PC de' = fd_PC (p_fd s)" "de_srcA de' = de_srcA (p_de s)"
      "de_srcB de' = de_srcB (p_de s)" "op_in1 (de_oprand de') = i_in1 inst"
  | (go) de' where "\<not> (waits_for (ctl_regs (p_ctl s)) (i_in1 inst) \<or> waits_for (ctl_regs (p_ctl s)) (i_in2 inst))"
      "do_id s = Some (s\<lparr>p_de := de', p_ctl := (p_ctl s)\<lparr>ctl_stall := False, ctl_regs :=
         (if is_load inst then ctl_regs (p_ctl s) OR reg_bit (i_out inst) else ctl_regs (p_ctl s))\<rparr>\<rparr>)"
      "de_inst_ok inst de'"
proof -
  let ?w = "waits_for (ctl_regs (p_ctl s)) (i_in1 inst) \<or> waits_for (ctl_regs (p_ctl s)) (i_in2 inst)"
  let ?de = "(p_de s)\<lparr>de_inst := inst, de_PC := fd_PC (p_fd s), de_rw := 0, de_opcode := i_op inst,
      de_instFlags := di_flags (i_row inst),
      de_oprand := \<lparr>op_in1 = i_in1 inst, op_in2 = i_in2 inst, op_in3 = di_i3 (i_row inst) inst,
        op_out1 = i_out inst, op_out2 = di_o2 (i_row inst) inst\<rparr>\<rparr>"
  have dec: "de_decode ((p_de s)\<lparr>de_inst := inst, de_PC := fd_PC (p_fd s), de_rw := 0,
      de_opcode := i_op inst\<rparr>) = ?de"
    using wf_row [OF wf] by (simp add: de_decode_def i_in1_def i_in2_def i_out_def)
  have run: "do_id s = (if ?w then Some (s\<lparr>p_de := ?de, p_ctl := (p_ctl s)\<lparr>ctl_stall := True\<rparr>\<rparr>)
      else do { s1 \<leftarrow> id_switch (s\<lparr>p_de := ?de, p_ctl := (p_ctl s)\<lparr>ctl_stall := False\<rparr>\<rparr>); Some (id_dests s1) })"
    using wf_not_special(1) [OF wf] dec by (simp add: do_id_def fd Let_def i_op_def)
  show ?thesis
  proof (cases ?w)
    case True
    then show ?thesis by (intro stall [of ?de]) (simp_all add: run)
  next
    case False
    let ?de2 = "?de\<lparr>de_instFlags := i_flags inst, de_func := i_func inst\<rparr>"
    let ?s2 = "s\<lparr>p_de := ?de2, p_ctl := (p_ctl s)\<lparr>ctl_stall := False\<rparr>\<rparr>"
    have sw: "id_switch (s\<lparr>p_de := ?de, p_ctl := (p_ctl s)\<lparr>ctl_stall := False\<rparr>\<rparr>) = Some ?s2"
      using id_switch_supported [OF wf, of "s\<lparr>p_de := ?de, p_ctl := (p_ctl s)\<lparr>ctl_stall := False\<rparr>\<rparr>"]
      by simp
    let ?de3 = "?de2\<lparr>de_srcA := i_srcA inst, de_srcB := i_in2 inst, de_rw := i_rw inst, de_dstE := i_dstE inst,
        de_dstM := i_dstM inst\<rparr>"
    have fl: "i_flags inst AND F_DISP \<noteq> 0 \<longleftrightarrow> i_disp inst" "i_flags inst AND F_STORE \<noteq> 0 \<longleftrightarrow> is_store inst"
      "i_flags inst AND F_LOAD \<noteq> 0 \<longleftrightarrow> is_load inst"
      by (simp_all add: i_disp_def is_store_def is_load_def)
    have c: "(p_ctl s)\<lparr>ctl_stall := False, ctl_regs := ctl_regs (p_ctl s)\<rparr> = (p_ctl s)\<lparr>ctl_stall := False\<rparr>"
      by (cases "p_ctl s") simp
    have "id_dests ?s2 = s\<lparr>p_de := ?de3, p_ctl := (p_ctl s)\<lparr>ctl_stall := False, ctl_regs :=
        (if is_load inst then ctl_regs (p_ctl s) OR reg_bit (i_out inst) else ctl_regs (p_ctl s))\<rparr>\<rparr>"
      using wf_load_store [OF wf] c
      by (simp add: id_dests_def Let_def fl i_srcA_def i_rw_def i_dstE_def i_dstM_def)
    then show ?thesis using False sw
      by (intro go [of ?de3]) (simp_all add: run de_inst_ok_def)
  qed
qed

lemma reg_unwritten:
  assumes sl: "straight_line I pc n tr" "E \<le> n" "M \<le> E" "E \<le> Suc M"
    and r: "unat r < 32" "r \<noteq> last_dstE I E" "E = M \<or> r \<noteq> last_dstM I E"
  shows "fst (tr E) (unat r) = fst (tr M) (unat r)"
proof (cases "E = M")
  case False
  then have E: "E = Suc M" using sl by simp
  then have M: "M < n" using sl by simp
  have "fst (tr E) = fst (pstep (I M) (fst (tr M), snd (tr M)))" using slD(2) [OF sl(1) M] E by simp
  then show ?thesis using pstep_other [OF slD(1) [OF sl(1) M] r(1), of "fst (tr M)" "snd (tr M)"] r(2,3) E
    by (simp add: last_dstE_def last_dstM_def)
qed simp

text \<open>Forwarding gives the register's value after every instruction that has been executed, unless a
  load of it is still in the execute stage.\<close>

lemma forward_at:
  assumes sl: "straight_line I pc n tr" "E \<le> n"
    and em: "em_at I tr M E (p_em s)" and mw: "mw_at I tr W M (p_mw s)" and wb: "wb_at tr W (p_wb s)"
    and R: "regs_R (p_regs s) = fst (tr W)" and r: "reg_ok r"
    and nl: "E = Suc M \<Longrightarrow> r \<noteq> dna \<Longrightarrow> \<not> (is_load (I M) \<and> i_out (I M) = r)"
  shows "forward s r = Some (opnd (fst (tr E)) r)"
proof (cases "r = dna")
  case True
  then show ?thesis by (simp add: forward_def opnd_def)
next
  case False
  have u: "unat r < 32" using r False by (rule reg_okD)
  have ord: "M \<le> E" "E \<le> Suc M" "W \<le> M" "M \<le> Suc W" using em mw by (auto simp: em_at_def mw_at_def)
  have de: "em_dstE (p_em s) = last_dstE I E" and md: "mw_dstE (p_mw s) = last_dstE I M"
      "mw_dstM (p_mw s) = last_dstM I M" using em mw by (auto simp: em_at_def mw_at_def)
  show ?thesis
  proof (cases "r = last_dstE I E")
    case True
    then have "em_valE (p_em s) = fst (tr E) (unat r)" using em False by (auto simp: em_at_def holds_reg_def)
    then show ?thesis using True de False by (simp add: forward_def opnd_def)
  next
    case nE: False
    have "E = M \<or> r \<noteq> last_dstM I E"
    proof (rule disjCI)
      assume nl': "\<not> r \<noteq> last_dstM I E"
      have "r \<noteq> last_dstM I E" if E: "E = Suc M"
        using nl E False by (auto simp: last_dstM_def i_dstM_def)
      with nl' show "E = M" using ord by linarith
    qed
    then have EM: "fst (tr E) (unat r) = fst (tr M) (unat r)"
      using reg_unwritten [OF sl ord(1,2) u nE] by blast
    show ?thesis
    proof (cases "r = last_dstE I M \<or> r = last_dstM I M")
      case True
      have v: "holds_reg (fst (tr M)) (last_dstE I M) (mw_valE (p_mw s))"
        "holds_reg (fst (tr M)) (last_dstM I M) (mw_valM (p_mw s))" using mw by (auto simp: mw_at_def)
      with True show ?thesis using False nE by (auto simp: forward_def de md opnd_def EM holds_reg_def)
    next
      case nM: False
      then have "fst (tr M) (unat r) = fst (tr W) (unat r)"
        using reg_unwritten [of I pc n tr M W r] sl ord u by simp
      then have EW: "fst (tr E) (unat r) = fst (tr W) (unat r)" using EM by simp
      have "forward s r = (if r = wb_dstE (p_wb s) then Some (wb_valE (p_wb s))
          else if r = wb_dstM (p_wb s) then Some (wb_valM (p_wb s)) else Some (fst (tr W) (unat r)))"
        using False nE nM u R by (simp add: forward_def de md)
      then show ?thesis using wb False by (auto simp: wb_at_def holds_reg_def opnd_def EW)
    qed
  qed
qed

lemma forward_total:
  assumes "reg_ok r"
  obtains v where "forward s r = Some v"
proof -
  have "\<exists>v. forward s r = Some v"
  proof (cases "r = dna")
    case True
    then show ?thesis by (simp add: forward_def)
  next
    case False
    with reg_okD [OF assms] have "GPR (p_regs s) r = Some (regs_R (p_regs s) (unat r))" by simp
    then show ?thesis by (simp add: forward_def)
  qed
  then show ?thesis using that by blast
qed

lemma aligned4_add8: "aligned4 pc \<Longrightarrow> aligned4 (pc + 8 * of_nat k)" "aligned4 pc \<Longrightarrow> aligned4 (pc + 8 * of_nat k + 4)"
proof -
  assume a: "aligned4 pc"
  show 1: "aligned4 (pc + 8 * of_nat k)"
  proof (induction k)
    case (Suc k)
    have "pc + 8 * of_nat (Suc k) = (pc + 8 * of_nat k + 4) + 4" by (simp add: algebra_simps)
    with Suc show ?case by (simp only: aligned4_step)
  qed (simp add: a)
  show "aligned4 (pc + 8 * of_nat k + 4)" using 1 by (simp only: aligned4_step)
qed

lemma do_if_at:
  assumes sl: "straight_line I pc n tr" "M \<le> n" and m: "mem_at tr M s"
    and npc: "fd_PC (p_fd s) + 8 = pc + 8 * of_nat K" and c: "ctl_cond (p_ctl s) = 0"
  obtains s' where "do_if s = Some s'" "fd_at I pc n K (p_fd s')" "mem_at tr M s'"
    "p_regs s' = p_regs s" "p_de s' = p_de s" "p_em s' = p_em s" "p_mw s' = p_mw s" "p_wb s' = p_wb s"
    "p_ctl s' = p_ctl s"
proof -
  let ?npc = "pc + 8 * of_nat K"
  have al: "aligned4 pc" using sl by (simp add: straight_line_def)
  obtain l1 c1 m1 where r1: "cache_read (p_cache s) (p_mem s) ?npc 0 = Some (l1, view_word (snd (tr M)) ?npc, c1, m1)"
    "\<And>s'. p_cache s' = c1 \<Longrightarrow> p_mem s' = m1 \<Longrightarrow> mem_at tr M s'"
    using mem_at_read [OF m aligned4_add8(1) [OF al]] by blast
  let ?s1 = "s\<lparr>p_cache := c1, p_mem := m1\<rparr>"
  have m1: "mem_at tr M ?s1" by (rule r1(2)) simp_all
  obtain l2 c2 m2 where r2': "cache_read (p_cache ?s1) (p_mem ?s1) (?npc + 4) 0 = Some (l2, view_word (snd (tr M)) (?npc + 4), c2, m2)"
    "\<And>s'. p_cache s' = c2 \<Longrightarrow> p_mem s' = m2 \<Longrightarrow> mem_at tr M s'"
    using mem_at_read [OF m1 aligned4_add8(2) [OF al]] by blast
  then have r2: "cache_read c1 m1 (?npc + 4) 0 = Some (l2, view_word (snd (tr M)) (?npc + 4), c2, m2)"
    "\<And>s'. p_cache s' = c2 \<Longrightarrow> p_mem s' = m2 \<Longrightarrow> mem_at tr M s'" by simp_all
  let ?fd = "\<lparr>fd_inst = \<lparr>inst_a = view_word (snd (tr M)) ?npc, inst_b = view_word (snd (tr M)) (?npc + 4)\<rparr>,
      fd_PC = ?npc, fd_NPC = ?npc\<rparr>"
  let ?s = "INC_CYCLE (l1 + l2) (s\<lparr>p_cache := c2, p_mem := m2, p_fd := ?fd\<rparr>)"
  have "cache_enable (p_cache s) \<noteq> 0" using m by (simp add: mem_at_def)
  then have "do_if s = Some ?s"
    using r1(1) r2(1) by (simp add: do_if_def Let_def c npc)
  moreover have "fd_at I pc n K ?fd"
    using sl by (auto simp: fd_at_def straight_line_def text_at_def)
  moreover have "mem_at tr M ?s" by (rule r2(2)) (simp_all add: INC_CYCLE_def)
  ultimately show ?thesis by (intro that [of ?s]) (simp_all add: INC_CYCLE_def)
qed

section \<open>A turn of the loop\<close>

definition pipe_at :: "code \<Rightarrow> md_addr_t \<Rightarrow> nat \<Rightarrow> trace \<Rightarrow> nat \<Rightarrow> nat \<Rightarrow> nat \<Rightarrow> nat \<Rightarrow> pipe_t \<Rightarrow> bool" where
  "pipe_at I pc n tr W M E D s \<longleftrightarrow> D \<le> n \<and> fd_at I pc n D (p_fd s) \<and> de_at I tr E D (p_de s) \<and>
     em_at I tr M E (p_em s) \<and> mw_at I tr W M (p_mw s) \<and> wb_at tr W (p_wb s) \<and>
     regs_R (p_regs s) = fst (tr W) \<and> mem_at tr M s \<and> busy_at I M D (ctl_regs (p_ctl s)) \<and>
     ctl_cond (p_ctl s) = 0 \<and> \<not> ctl_flag (p_ctl s) \<and> (M < E \<and> E < D \<longrightarrow> \<not> load_use (I (E - 1)) (I E))"

text \<open>The invariant between turns: \<open>pipeline_control()\<close> comes first and leaves such a state.\<close>

definition pipe_inv :: "code \<Rightarrow> md_addr_t \<Rightarrow> nat \<Rightarrow> trace \<Rightarrow> nat \<Rightarrow> nat \<Rightarrow> nat \<Rightarrow> nat \<Rightarrow> pipe_t \<Rightarrow> bool" where
  "pipe_inv I pc n tr W M E D s \<longleftrightarrow> ctl_cond (p_ctl s) = 0 \<and> pipe_at I pc n tr W M E D (pipeline_control s)"

lemma busy_at_set:
  assumes sl: "straight_line I pc n tr" "D < n" "E \<le> D" and b: "busy_at I E D busy"
  shows "busy_at I E (Suc D) (if is_load (I D) then busy OR reg_bit (i_out (I D)) else busy)"
proof -
  have o: "unat (i_out (I D)) < 32" if "is_load (I D)"
    using slD(1) [OF sl(1,2)] that by (cases rule: dst_cases) auto
  have "bit (if is_load (I D) then busy OR reg_bit (i_out (I D)) else busy) r \<longleftrightarrow>
      bit busy r \<or> (is_load (I D) \<and> unat (i_out (I D)) = r)" if "r < 32" for r
    using that o by (auto simp: bit_simps bit_reg_bit)
  then show ?thesis using b sl(3) unfolding busy_at_def by (auto simp: less_Suc_eq)
qed

lemma de_regs_after:
  assumes "reg_ok (de_srcA de)" "reg_ok (de_srcB de)" "reg_ok (op_in1 (de_oprand de))"
  shows "de_regs_ok (de\<lparr>de_aluA := a, de_aluB := b, de_valA := v\<rparr>)"
  using assms by (simp add: de_regs_ok_def)

lemma pipe_turn:
  assumes sl: "straight_line I pc n tr" and inv: "pipe_inv I pc n tr W M E D s" and D: "D < n"
  shows "\<exists>s'. pipe_cycle sys s = Some s' \<and>
    pipe_inv I pc n tr M E D (if E < D \<and> load_use (I (D - 1)) (I D) then D else Suc D) s'"
proof -
  let ?s = "pipeline_control s"
  have at: "pipe_at I pc n tr W M E D ?s" using inv by (simp add: pipe_inv_def)
  then have fd: "fd_at I pc n D (p_fd ?s)" and de: "de_at I tr E D (p_de ?s)" and em: "em_at I tr M E (p_em ?s)"
    and mw: "mw_at I tr W M (p_mw ?s)" and wb: "wb_at tr W (p_wb ?s)" and R: "regs_R (p_regs ?s) = fst (tr W)"
    and m: "mem_at tr M ?s" and b: "busy_at I M D (ctl_regs (p_ctl ?s))" and c: "ctl_cond (p_ctl ?s) = 0"
    and f: "\<not> ctl_flag (p_ctl ?s)" and gone: "M < E \<Longrightarrow> E < D \<Longrightarrow> \<not> load_use (I (E - 1)) (I E)" by (auto simp: pipe_at_def)
  have ord: "E \<le> D" "D \<le> Suc E" "M \<le> E" "E \<le> Suc M" "W \<le> M" "M \<le> Suc W"
    using de em mw by (auto simp: de_at_def em_at_def mw_at_def)
  then have le: "M \<le> n" "E \<le> n" using D by simp_all
  obtain wb1 where wb1: "do_wb sys ?s = Some (?s\<lparr>p_wb := wb1, p_regs := (p_regs ?s)\<lparr>regs_R := fst (tr M)\<rparr>\<rparr>)"
    "wb_at tr M wb1" using do_wb_at [OF sl le(1) mw R wb] by blast
  let ?s1 = "?s\<lparr>p_wb := wb1, p_regs := (p_regs ?s)\<lparr>regs_R := fst (tr M)\<rparr>\<rparr>"
  have m1: "mem_at tr M ?s1" using m by (simp add: mem_at_def)
  obtain s2 busy where s2: "do_mem ?s1 = Some s2" "p_regs s2 = p_regs ?s1" "p_fd s2 = p_fd ?s1"
      "p_de s2 = p_de ?s1" "p_wb s2 = p_wb ?s1" "p_ctl s2 = (p_ctl ?s1)\<lparr>ctl_regs := busy\<rparr>"
      "busy_at I E D busy" "em_at I tr M E (p_em s2)" "mw_at I tr M E (p_mw s2)" "mem_at tr E s2"
    using do_mem_at [OF sl ord(1) less_imp_le [OF D] ord(2), of M ?s1 W] em mw m1 b gone by auto
  have de2: "de_at I tr E D (p_de s2)" and f2: "\<not> ctl_flag (p_ctl s2)" using de f s2(4,6) by simp_all
  obtain em3 where s3: "do_ex s2 = s2\<lparr>p_em := em3\<rparr>" "em_at I tr E D em3"
    using do_ex_at [OF sl less_imp_le [OF D] de2 s2(8) f2] by blast
  let ?s3 = "s2\<lparr>p_em := em3\<rparr>"
  note wf = slD(1) [OF sl D]
  have fdi: "fd_inst (p_fd ?s3) = I D" and fdp: "fd_PC (p_fd ?s3) = pc + 8 * of_nat D"
    using fd s2(3) D by (simp_all add: fd_at_def)
  have bz: "ctl_regs (p_ctl ?s3) = busy" using s2(6) by simp
  have only: "E \<le> j \<and> j < D \<longleftrightarrow> E < D \<and> j = D - 1" for j using ord(1,2) by auto
  have clear: "\<not> (E < D \<and> shadowed I (D - 1) \<and> load_use (I (D - 1)) (I D))"
    using sl D unfolding straight_line_def by auto
  have waits: "waits_for (ctl_regs (p_ctl ?s3)) (i_in1 (I D)) \<or> waits_for (ctl_regs (p_ctl ?s3)) (i_in2 (I D)) \<longleftrightarrow>
      E < D \<and> load_use (I (D - 1)) (I D)" (is "?w \<longleftrightarrow> ?lu")
  proof
    assume ?w
    then show ?lu
      using waits_for_busy(1) [OF s2(7) wf_regs(1) [OF wf]] waits_for_busy(1) [OF s2(7) wf_regs(2) [OF wf]] only
      unfolding bz load_use_def uses_def by metis
  next
    assume lu: ?lu
    then have "E \<le> D - 1" "D - 1 < D" "is_load (I (D - 1))" "\<not> shadowed I (D - 1)" "i_out (I (D - 1)) \<noteq> dna"
      "i_in1 (I D) = i_out (I (D - 1)) \<or> i_in2 (I D) = i_out (I (D - 1))"
      using clear by (auto simp: load_use_def uses_def)
    then show ?w
      using waits_for_busy(2) [OF s2(7) wf_regs(1) [OF wf]] waits_for_busy(2) [OF s2(7) wf_regs(2) [OF wf]]
      unfolding bz by metis
  qed
  have em4: "em_at I tr E D (p_em ?s3)" and mw4: "mw_at I tr M E (p_mw ?s3)" and wb4: "wb_at tr M (p_wb ?s3)"
    and R4: "regs_R (p_regs ?s3) = fst (tr M)" and m4: "mem_at tr E ?s3" and c4: "ctl_cond (p_ctl ?s3) = 0"
    using s2(2,5,6,9,10) s3(2) wb1(2) c by (simp_all add: mem_at_def)
  from wf fdi show ?thesis
  proof (cases rule: do_id_cases)
    case (stall de')
    let ?s4 = "?s3\<lparr>p_de := de', p_ctl := (p_ctl ?s3)\<lparr>ctl_stall := True\<rparr>\<rparr>"
    have rs: "reg_ok (de_srcA de')" "reg_ok (de_srcB de')" "reg_ok (op_in1 (de_oprand de'))"
      using de2 stall wf_regs(1) [OF wf] by (auto simp: de_at_def de_regs_ok_def)
    obtain a b v where fw: "forward ?s4 (de_srcA de') = Some a" "forward ?s4 (de_srcB de') = Some b"
        "forward ?s4 (op_in1 (de_oprand de')) = Some v"
      using forward_total rs by metis
    let ?s5 = "?s4\<lparr>p_de := de'\<lparr>de_aluA := a, de_aluB := b, de_valA := v\<rparr>\<rparr>"
    have s5: "do_forward ?s4 = Some ?s5" using fw by (simp add: do_forward_def)
    have m5: "mem_at tr E ?s5" and fd5: "fd_PC (p_fd ?s5) + 8 = pc + 8 * of_nat (Suc D)" and c5: "ctl_cond (p_ctl ?s5) = 0"
      using m4 fdp c4 by (simp_all add: mem_at_def algebra_simps)
    obtain s6 where s6: "do_if ?s5 = Some s6" "mem_at tr E s6"
        "p_regs s6 = p_regs ?s5" "p_de s6 = p_de ?s5" "p_em s6 = p_em ?s5" "p_mw s6 = p_mw ?s5"
        "p_wb s6 = p_wb ?s5" "p_ctl s6 = p_ctl ?s5"
      using do_if_at [OF sl le(2) m5 fd5 c5] by blast
    let ?s7 = "INC_CYCLE 1 (s6\<lparr>sim_num_insn := sim_num_insn s6 + 1\<rparr>)"
    have "pipe_cycle sys s = Some ?s7"
      using wb1(1) s2(1) s3(1) stall(2) s5 s6(1) by (simp add: pipe_cycle_def)
    moreover have "pipe_inv I pc n tr M E D D ?s7"
      using s6(2-) s2(2-) c f s3(2) wb1(2) D stall(3,4) fdp rs
      by (simp add: pipe_inv_def pipe_at_def pipeline_control_def Let_def INC_CYCLE_def fd_at_def de_at_def
          de_regs_ok_def mem_at_def)
    ultimately show ?thesis using waits stall(1) by auto
  next
    case (go de')
    let ?busy = "if is_load (I D) then ctl_regs (p_ctl ?s3) OR reg_bit (i_out (I D)) else ctl_regs (p_ctl ?s3)"
    let ?s4 = "?s3\<lparr>p_de := de', p_ctl := (p_ctl ?s3)\<lparr>ctl_stall := False, ctl_regs := ?busy\<rparr>\<rparr>"
    have src: "de_srcA de' = i_srcA (I D)" "de_srcB de' = i_in2 (I D)" "op_in1 (de_oprand de') = i_in1 (I D)"
      using go(3) by (simp_all add: de_inst_ok_def)
    have fw: "forward ?s4 r = Some (opnd (fst (tr D)) r)" if "r = i_in1 (I D) \<or> r = i_in2 (I D)" for r
    proof (rule forward_at [OF sl less_imp_le [OF D], of E ?s4 M])
      show "em_at I tr E D (p_em ?s4)" "mw_at I tr M E (p_mw ?s4)" "wb_at tr M (p_wb ?s4)"
        "regs_R (p_regs ?s4) = fst (tr M)" using em4 mw4 wb4 R4 by simp_all
      show "reg_ok r" using that wf_regs [OF wf] by blast
      show "\<not> (is_load (I E) \<and> i_out (I E) = r)" if "D = Suc E" "r \<noteq> dna"
        using waits go(1) that \<open>r = i_in1 (I D) \<or> r = i_in2 (I D)\<close> by (auto simp: load_use_def uses_def)
    qed
    have fwA: "forward ?s4 (i_srcA (I D)) = Some (opnd (fst (tr D)) (i_srcA (I D)))"
      by (rule fw) (auto simp: i_srcA_def)
    let ?de5 = "de'\<lparr>de_aluA := opnd (fst (tr D)) (i_srcA (I D)), de_aluB := opnd (fst (tr D)) (i_in2 (I D)),
        de_valA := opnd (fst (tr D)) (i_in1 (I D))\<rparr>"
    let ?s5 = "?s4\<lparr>p_de := ?de5\<rparr>"
    have s5: "do_forward ?s4 = Some ?s5" using fwA fw by (simp add: do_forward_def src)
    have m5: "mem_at tr E ?s5" and fd5: "fd_PC (p_fd ?s5) + 8 = pc + 8 * of_nat (Suc D)" and c5: "ctl_cond (p_ctl ?s5) = 0"
      using m4 fdp c4 by (simp_all add: mem_at_def algebra_simps)
    obtain s6 where s6: "do_if ?s5 = Some s6" "fd_at I pc n (Suc D) (p_fd s6)" "mem_at tr E s6"
        "p_regs s6 = p_regs ?s5" "p_de s6 = p_de ?s5" "p_em s6 = p_em ?s5" "p_mw s6 = p_mw ?s5"
        "p_wb s6 = p_wb ?s5" "p_ctl s6 = p_ctl ?s5"
      using do_if_at [OF sl le(2) m5 fd5 c5] by blast
    let ?s7 = "INC_CYCLE 1 (s6\<lparr>sim_num_insn := sim_num_insn s6 + 1\<rparr>)"
    have run: "pipe_cycle sys s = Some ?s7"
      using wb1(1) s2(1) s3(1) go(2) s5 s6(1) by (simp add: pipe_cycle_def)
    have busy: "busy_at I E (Suc D) ?busy"
      using busy_at_set [OF sl D ord(1) s2(7)] unfolding bz .
    have de5: "de_at I tr D (Suc D) ?de5"
      using go(3) wf_regs [OF wf] by (simp add: de_at_def de_inst_ok_def de_vals_ok_def de_regs_ok_def)
    have "pipe_inv I pc n tr M E D (Suc D) ?s7"
      using s6(2-) s2(2-) c f s3(2) wb1(2) D busy de5 go(1) waits
      by (simp add: pipe_inv_def pipe_at_def pipeline_control_def Let_def INC_CYCLE_def mem_at_def)
    with run show ?thesis using waits go(1) by auto
  qed
qed

section \<open>From the start of the loop\<close>

text \<open>The state the loader leaves: reset buffers, the program counter at the program, the
  cache enabled and in a good state.\<close>

definition start_state :: "md_addr_t \<Rightarrow> trace \<Rightarrow> pipe_t \<Rightarrow> bool" where
  "start_state pc tr s \<longleftrightarrow> p_fd s = p_fd sim_init \<and> p_de s = p_de sim_init \<and> p_em s = p_em sim_init \<and>
     p_mw s = p_mw sim_init \<and> p_wb s = p_wb sim_init \<and> p_ctl s = p_ctl sim_init \<and>
     regs_PC (p_regs s) = pc \<and> fst (tr 0) = (regs_R (p_regs s))(0 := 0) \<and> mem_at tr 0 s"

lemma reg_ok_0: "reg_ok 0" by (simp add: reg_ok_def)

lemma first_turn:
  assumes sl: "straight_line I pc n tr" and st: "start_state pc tr s"
  shows "\<exists>s'. pipe_cycle sys (sim_main_start s) = Some s' \<and> pipe_inv I pc n tr 0 0 0 0 s'"
proof -
  let ?s = "sim_main_start s"
  have e: "p_fd s = p_fd sim_init" "p_de s = p_de sim_init" "p_em s = p_em sim_init" "p_mw s = p_mw sim_init"
    "p_wb s = p_wb sim_init" "p_ctl s = p_ctl sim_init" "regs_PC (p_regs s) = pc"
    "fst (tr 0) = (regs_R (p_regs s))(0 := 0)" "mem_at tr 0 s" using st by (auto simp: start_state_def)
  have pre: "pipeline_control ?s = ?s"
    by (simp add: pipeline_control_def Let_def sim_main_start_def e sim_init_def)
  have nops: "is_nop (fd_inst (p_fd s))" "is_nop (de_inst (p_de s))" "is_nop (em_inst (p_em s))" "is_nop (mw_inst (p_mw s))"
    by (simp_all add: e sim_init_def init_fd_def init_de_def init_em_def init_mw_def)
  have q: "p_mw ?s = p_mw s" "p_wb ?s = p_wb s" "p_em ?s = p_em s" "p_de ?s = p_de s" "p_ctl ?s = p_ctl s"
    "fd_inst (p_fd ?s) = fd_inst (p_fd s)" "fd_PC (p_fd ?s) = pc - 8" "regs_R (p_regs ?s) = fst (tr 0)"
    "p_cache ?s = p_cache s" "p_mem ?s = p_mem s"
    by (simp_all add: sim_main_start_def Let_def e(7,8))
  let ?s1 = "?s\<lparr>p_wb := (p_wb s)\<lparr>wb_inst := mw_inst (p_mw s)\<rparr>\<rparr>"
  let ?s2 = "?s1\<lparr>p_mw := (p_mw s)\<lparr>mw_inst := em_inst (p_em s)\<rparr>\<rparr>"
  let ?s3 = "?s2\<lparr>p_em := (p_em s)\<lparr>em_inst := de_inst (p_de s)\<rparr>\<rparr>"
  let ?s4 = "?s3\<lparr>p_de := (p_de s)\<lparr>de_inst := fd_inst (p_fd s), de_PC := pc - 8, de_rw := 0\<rparr>\<rparr>"
  let ?s5 = "?s4\<lparr>p_de := (p_de ?s4)\<lparr>de_aluA := fst (tr 0) 0, de_aluB := fst (tr 0) 0, de_valA := fst (tr 0) 0\<rparr>\<rparr>"
  have s1: "do_wb sys ?s = Some ?s1" by (simp add: do_wb_def q nops)
  have s2: "do_mem ?s1 = Some ?s2" by (simp add: do_mem_def q nops)
  have s3: "do_ex ?s2 = ?s3" by (simp add: do_ex_def q nops)
  have s4: "do_id ?s3 = Some ?s4" by (simp add: do_id_def q nops)
  have dst: "em_dstE (p_em s) = dna" "em_dstM (p_em s) = dna" "mw_dstE (p_mw s) = dna" "mw_dstM (p_mw s) = dna"
    "wb_dstE (p_wb s) = dna" "wb_dstM (p_wb s) = dna"
    by (simp_all add: e sim_init_def init_em_def init_mw_def init_wb_def)
  have src: "de_srcA (p_de s) = 0" "de_srcB (p_de s) = 0" "op_in1 (de_oprand (p_de s)) = 0"
    by (simp_all add: e sim_init_def init_de_def zero_de_def zero_oprand_def)
  have "forward ?s4 0 = Some (fst (tr 0) 0)" by (simp add: forward_def dst q dna_def)
  then have s5: "do_forward ?s4 = Some ?s5" by (simp add: do_forward_def src)
  have m5: "mem_at tr 0 ?s5" using e(9) by (simp add: mem_at_def q)
  have p5: "fd_PC (p_fd ?s5) + 8 = pc + 8 * of_nat 0" by (simp add: q)
  have c: "ctl_cond (p_ctl s) = 0" "\<not> ctl_flag (p_ctl s)" "ctl_regs (p_ctl s) = 0" "\<not> ctl_stall (p_ctl s)"
    by (simp_all add: e sim_init_def)
  have c5: "ctl_cond (p_ctl ?s5) = 0" by (simp add: q c)
  obtain s6 where s6: "do_if ?s5 = Some s6" "fd_at I pc n 0 (p_fd s6)" "mem_at tr 0 s6"
      "p_regs s6 = p_regs ?s5" "p_de s6 = p_de ?s5" "p_em s6 = p_em ?s5" "p_mw s6 = p_mw ?s5"
      "p_wb s6 = p_wb ?s5" "p_ctl s6 = p_ctl ?s5"
    using do_if_at [OF sl le0 m5 p5 c5] by blast
  let ?s7 = "INC_CYCLE 1 (s6\<lparr>sim_num_insn := sim_num_insn s6 + 1\<rparr>)"
  have "pipe_cycle sys ?s = Some ?s7"
    using s1 s2 s3 s4 s5 s6(1) by (simp add: pipe_cycle_def pre)
  moreover have "fd_at I pc n 0 (p_fd s6)" "mem_at tr 0 ?s7" using s6(2,3) by (simp_all add: INC_CYCLE_def mem_at_def)
  then have "pipe_inv I pc n tr 0 0 0 0 ?s7"
    using s6(4-) nops dst src c
    by (simp add: pipe_inv_def pipe_at_def pipeline_control_def Let_def INC_CYCLE_def q de_at_def em_at_def
        mw_at_def wb_at_def de_regs_ok_def reg_ok_0 last_dstE_def last_dstM_def holds_reg_def busy_at_def mem_at_def)
  ultimately show ?thesis by blast
qed

lemma pipe_cycles_snoc:
  "pipe_cycles sys (Suc t) s = do { s1 \<leftarrow> pipe_cycles sys t s; pipe_cycle sys s1 }"
proof (induction t arbitrary: s)
  case 0
  show ?case by (cases "pipe_cycle sys s") simp_all
next
  case (Suc t)
  have "pipe_cycles sys (Suc (Suc t)) s = do { s1 \<leftarrow> pipe_cycle sys s; pipe_cycles sys (Suc t) s1 }"
    by (rule pipe_cycles.simps(2))
  also have "\<dots> = do { s1 \<leftarrow> pipe_cycle sys s; s2 \<leftarrow> pipe_cycles sys t s1; pipe_cycle sys s2 }"
    by (simp only: Suc.IH)
  also have "\<dots> = do { s2 \<leftarrow> pipe_cycles sys (Suc t) s; pipe_cycle sys s2 }"
    by (simp add: Option.bind_assoc)
  finally show ?case .
qed

lemma pipe_cycles_1: "pipe_cycles sys (Suc 0) s = pipe_cycle sys s"
  by (cases "pipe_cycle sys s") simp_all

lemma pipe_run:
  assumes sl: "straight_line I pc n tr" and st: "start_state pc tr s" and t: "t \<le> n"
  shows "\<exists>s' W M E D. pipe_cycles sys (Suc t) (sim_main_start s) = Some s' \<and> pipe_inv I pc n tr W M E D s' \<and>
    t + (if E < D then 1 else 0) \<le> 2 * D \<and> D \<le> t"
  using t
proof (induction t)
  case 0
  from first_turn [OF sl st, of sys] show ?case by (fastforce simp: pipe_cycles_1 simp del: pipe_cycles.simps)
next
  case (Suc t)
  then obtain s' W M E D where IH: "pipe_cycles sys (Suc t) (sim_main_start s) = Some s'"
      "pipe_inv I pc n tr W M E D s'" "t + (if E < D then 1 else 0) \<le> 2 * D" "D \<le> t" by auto
  have D: "D < n" using IH(4) Suc.prems by simp
  let ?D = "if E < D \<and> load_use (I (D - 1)) (I D) then D else Suc D"
  obtain s'' where s'': "pipe_cycle sys s' = Some s''" "pipe_inv I pc n tr M E D ?D s''"
    using pipe_turn [OF sl IH(2) D] by blast
  have "pipe_cycles sys (Suc (Suc t)) (sim_main_start s) = Some s''"
    unfolding pipe_cycles_snoc [of sys "Suc t"] using IH(1) s''(1) by simp
  moreover have "Suc t + (if D < ?D then 1 else 0) \<le> 2 * ?D" "?D \<le> Suc t" using IH(3,4) by (auto split: if_splits)
  ultimately show ?case using s''(2) by blast
qed

lemma pipe_run_no_hazard:
  assumes sl: "straight_line I pc n tr" and st: "start_state pc tr s" and t: "t \<le> n"
    and nh: "\<forall>k. Suc k < n \<longrightarrow> \<not> load_use (I k) (I (Suc k))"
  shows "\<exists>s'. pipe_cycles sys (Suc t) (sim_main_start s) = Some s' \<and> pipe_inv I pc n tr (t - 3) (t - 2) (t - 1) t s'"
  using t
proof (induction t)
  case 0
  from first_turn [OF sl st, of sys] show ?case by (fastforce simp: pipe_cycles_1 simp del: pipe_cycles.simps)
next
  case (Suc t)
  then obtain s' where IH: "pipe_cycles sys (Suc t) (sim_main_start s) = Some s'"
      "pipe_inv I pc n tr (t - 3) (t - 2) (t - 1) t s'" by auto
  have t: "t < n" using Suc.prems by simp
  have "\<not> (t - 1 < t \<and> load_use (I (t - 1)) (I t))" using nh t by (cases t) auto
  then have eq: "(if t - 1 < t \<and> load_use (I (t - 1)) (I t) then t else Suc t) = Suc t" by (rule if_not_P)
  obtain s'' where s'': "pipe_cycle sys s' = Some s''" "pipe_inv I pc n tr (t - 2) (t - 1) t (Suc t) s''"
    using pipe_turn [OF sl IH(2) t, of sys] unfolding eq by blast
  have "pipe_cycles sys (Suc (Suc t)) (sim_main_start s) = Some s''"
    unfolding pipe_cycles_snoc [of sys "Suc t"] using IH(1) s''(1) by simp
  with s''(2) show ?case by (auto simp: numeral_3_eq_3 numeral_2_eq_2)
qed

lemma pipe_inv_state:
  assumes "pipe_inv I pc n tr W M E D s"
  shows "regs_R (p_regs s) = fst (tr W)" "cached_view (p_cache s, p_mem s) = snd (tr M)"
    "cached_inv (p_cache s, p_mem s)" "W \<le> M" "M \<le> Suc W" "D \<le> W + 3" "W \<le> D"
proof -
  have "p_regs (pipeline_control s) = p_regs s" "p_cache (pipeline_control s) = p_cache s"
    "p_mem (pipeline_control s) = p_mem s" by (simp_all add: pipeline_control_def Let_def)
  with assms show "regs_R (p_regs s) = fst (tr W)" "cached_view (p_cache s, p_mem s) = snd (tr M)"
    "cached_inv (p_cache s, p_mem s)" "W \<le> M" "M \<le> Suc W" "D \<le> W + 3" "W \<le> D"
    by (auto simp: pipe_inv_def pipe_at_def mem_at_def de_at_def em_at_def mw_at_def)
qed

lemma pipe_complete:
  assumes "straight_line I pc n tr" "start_state pc tr s" "2 * n0 + 6 \<le> n"
    and idle: "\<forall>k. n0 \<le> k \<and> k \<le> n \<longrightarrow> tr k = tr n0"
  shows "\<exists>s'. pipe_cycles sys (2 * n0 + 7) (sim_main_start s) = Some s' \<and>
    regs_R (p_regs s') = fst (tr n0) \<and> cached_view (p_cache s', p_mem s') = snd (tr n0)"
proof -
  let ?t = "2 * n0 + 6"
  obtain s' W M E D where r: "pipe_cycles sys (Suc ?t) (sim_main_start s) = Some s'"
      "pipe_inv I pc n tr W M E D s'" "?t + (if E < D then 1 else 0) \<le> 2 * D" "D \<le> ?t"
    using pipe_run [OF assms(1-3)] by blast
  note st = pipe_inv_state [OF r(2)]
  have "D \<le> n" using r(4) assms(3) by simp
  have "M \<le> D" using r(2) by (auto simp: pipe_inv_def pipe_at_def de_at_def em_at_def)
  with \<open>D \<le> n\<close> r(3) st(4-7) have "n0 \<le> W" "W \<le> n" "n0 \<le> M" "M \<le> n" by (auto split: if_splits)
  then have "tr W = tr n0" "tr M = tr n0" using idle by blast+
  moreover have "Suc ?t = 2 * n0 + 7" by simp
  ultimately show ?thesis using r(1) st(1,2) by metis
qed


end
