(* ===== verification/Pipe_Isa.thy ===== *)
theory Pipe_Isa
  imports Pipe_Correct Mem_Copy
begin

text \<open>
  The pipeline of Project 2 against the functional simulator of Project 1: on the
  instructions where \<open>pstep\<close> is the instruction's definition in the table, a run of the
  pipeline ends with the registers and the memory of a run of \<open>sim_fast\<close>.  The end of the
  theory builds loaded programs for the witnesses.
\<close>

section \<open>The instructions on which both agree\<close>

definition isa_agrees :: "md_inst_t \<Rightarrow> regfile \<Rightarrow> bool" where
  "isa_agrees inst R \<longleftrightarrow>
     (i_op inst \<in> set [LW, SW, ADDU, ADDIU, SLL, SLTI] \<or>
      (i_op inst = ADD \<and> \<not> OVER (R (unat (RS inst))) (R (unat (RT inst)))) \<or>
      (i_op inst = ADDI \<and> \<not> OVER (R (unat (RS inst))) (IMM inst)) \<or>
      (i_op inst = ANDI \<and> \<not> bit (inst_b inst) 15)) \<and> i_out inst \<noteq> 0"

lemma machine_impls_rows:
  "snd (machine_impls fp sys ! 17) = LW_IMPL" "snd (machine_impls fp sys ! 25) = SW_IMPL"
  "snd (machine_impls fp sys ! 51) = ADD_IMPL" "snd (machine_impls fp sys ! 52) = ADDI_IMPL"
  "snd (machine_impls fp sys ! 53) = ADDU_IMPL" "snd (machine_impls fp sys ! 54) = ADDIU_IMPL"
  "snd (machine_impls fp sys ! 66) = ANDI_IMPL" "snd (machine_impls fp sys ! 72) = SLL_IMPL"
  "snd (machine_impls fp sys ! 79) = SLTI_IMPL" "length (machine_impls fp sys) = 121"
  by (simp_all add: machine_impls_def)

lemma exec_rows:
  "exec_inst (machine_impls fp sys) LW = LW_IMPL" "exec_inst (machine_impls fp sys) SW = SW_IMPL"
  "exec_inst (machine_impls fp sys) ADD = ADD_IMPL" "exec_inst (machine_impls fp sys) ADDI = ADDI_IMPL"
  "exec_inst (machine_impls fp sys) ADDU = ADDU_IMPL" "exec_inst (machine_impls fp sys) ADDIU = ADDIU_IMPL"
  "exec_inst (machine_impls fp sys) ANDI = ANDI_IMPL" "exec_inst (machine_impls fp sys) SLL = SLL_IMPL"
  "exec_inst (machine_impls fp sys) SLTI = SLTI_IMPL"
  by (simp_all add: exec_inst_def fun_eq_iff opcode_defs machine_impls_rows)

lemma byte_field_not_dna: "unat (RS inst) < 256" "unat (RT inst) < 256" "unat (RD inst) < 256" "BS inst = RS inst"
proof -
  have m: "unat (x AND 0xff) < 256" for x :: word_t
  proof -
    have "x AND 0xff = take_bit 8 x" by (simp add: take_bit_eq_mask mask_eq_exp_minus_1)
    then show ?thesis by (simp add: take_bit_eq_mod unat_mod)
  qed
  show "unat (RT inst) < 256" "unat (RD inst) < 256" by (simp_all add: RT_def RD_def m)
  show "unat (RS inst) < 256"
    using unsigned_less [of "inst_b inst", where ?'a = nat]
    by (simp add: RS_def drop_bit_eq_div unat_div)
  show "BS inst = RS inst" by (simp add: BS_def)
qed

lemma field_reg:
  assumes "reg_ok r" "unat r < 256"
  shows "unat r < 32" "opnd R r = R (unat r)"
proof -
  have "r \<noteq> dna" using assms(2) by (auto simp: unat_dna)
  with assms(1) show "unat r < 32" "opnd R r = R (unat r)" by (simp_all add: reg_okD opnd_def)
qed

lemma imm_zext: "\<not> bit x 15 \<Longrightarrow> sext16 x = x AND 0xffff"
proof -
  assume n: "\<not> bit x 15"
  have a: "x AND 0xffff = take_bit 16 x" by (simp add: take_bit_eq_mask mask_eq_exp_minus_1)
  show ?thesis
  proof (rule bit_word_eqI)
    fix k assume "k < LENGTH(32)"
    consider "k < 15" | "k = 15" | "15 < k" by linarith
    then show "bit (sext16 x) k = bit (x AND 0xffff) k"
      by cases (use n in \<open>auto simp: sext16_def a bit_signed_iff bit_unsigned_iff bit_simps min_def\<close>)
  qed
qed

lemma isa_step:
  assumes wf: "wf_inst inst" and ag: "isa_agrees inst R" and inv: "mem_inv mem"
    and R: "regs_R regs = R" and ok: "mem_op_ok inst R"
  shows "\<exists>mem'. exec_inst (machine_impls fp sys) (i_op inst) inst regs mem =
      Some (regs\<lparr>regs_R := fst (pstep inst (R, mem_view mem))\<rparr>, mem') \<and> mem_inv mem' \<and>
    mem_view mem' = snd (pstep inst (R, mem_view mem))"
proof -
  note byte = byte_field_not_dna [of inst]
  have rg: "reg_ok (i_in1 inst)" "reg_ok (i_in2 inst)" using wf_regs [OF wf] by blast+
  have out: "\<not> is_store inst \<Longrightarrow> unat (i_out inst) < 32" using wf_out [OF wf] .
  note alu_simps = i_valE_def i_srcA_def alu_def pstep_alu R IMM_def SHAMT_def
  from wf show ?thesis
  proof (cases rule: wf_op_cases)
    case LUI
    then show ?thesis using ag by (simp add: isa_agrees_def opcode_defs)
  next
    case LW
    note at = attr_LW [OF LW]
    have s: "unat (RS inst) < 32" "opnd R (RS inst) = R (unat (RS inst))"
      using field_reg(1) [of "RS inst"] field_reg(2) [of "RS inst" R] rg(2) byte at by auto
    have e: "i_valE inst R = R (unat (RS inst)) + OFS inst"
      using at s byte by (simp add: i_valE_def i_srcA_def alu_def OFS_def IMM_def)
    have "aligned4 (R (unat (RS inst)) + OFS inst)" using ok at e by (simp add: mem_op_ok_def)
    from raw.rdE [OF inv this] obtain m' where
      "MEM_READ_WORD mem (R (unat (RS inst)) + OFS inst) =
        Some (view_word (mem_view mem) (R (unat (RS inst)) + OFS inst), m')" "mem_inv m'" "mem_view m' = mem_view mem" by blast
    moreover have "i_out inst = RT inst" "is_load inst" "unat (RT inst) < 32" using at out by auto
    ultimately show ?thesis using s(1)
      unfolding LW exec_rows LW_IMPL_def byte(4) by (simp add: pstep_load e R)
  next
    case SW
    note at = attr_SW [OF SW]
    have s: "unat (RS inst) < 32" "opnd R (RS inst) = R (unat (RS inst))"
      "unat (RT inst) < 32" "opnd R (RT inst) = R (unat (RT inst))"
      using field_reg(1) [of "RS inst"] field_reg(2) [of "RS inst" R] field_reg(1) [of "RT inst"] field_reg(2) [of "RT inst" R] rg byte at by auto
    have e: "i_valE inst R = R (unat (RS inst)) + OFS inst"
      using at s byte by (simp add: i_valE_def i_srcA_def alu_def OFS_def IMM_def)
    have "aligned4 (R (unat (RS inst)) + OFS inst)" using ok at e by (simp add: mem_op_ok_def)
    from raw.wrE [OF inv this, of "R (unat (RT inst))"] obtain m' where
      "MEM_WRITE_WORD mem (R (unat (RS inst)) + OFS inst) (R (unat (RT inst))) = Some m'" "mem_inv m'"
      "mem_view m' = view_set_word (mem_view mem) (R (unat (RS inst)) + OFS inst) (R (unat (RT inst)))" by blast
    moreover have "regs\<lparr>regs_R := R\<rparr> = regs" using R by (cases regs) simp
    moreover have "\<not> is_load inst" "is_store inst" "i_in1 inst = RT inst" using at by auto
    ultimately show ?thesis using s R
      unfolding SW exec_rows SW_IMPL_def byte(4) by (simp add: pstep_store e)
  next
    case ADD
    note at = attr_ADD [OF ADD]
    have s: "unat (RS inst) < 32" "opnd R (RS inst) = R (unat (RS inst))"
      "unat (RT inst) < 32" "opnd R (RT inst) = R (unat (RT inst))"
      using field_reg(1) [of "RS inst"] field_reg(2) [of "RS inst" R] field_reg(1) [of "RT inst"] field_reg(2) [of "RT inst" R] rg byte at by auto
    then show ?thesis using at out ag inv
      by (simp add: ADD exec_rows ADD_IMPL_def alu_simps isa_agrees_def) (simp add: opcode_defs)
  next
    case ADDI
    note at = attr_ADDI [OF ADDI]
    have s: "unat (RS inst) < 32" "opnd R (RS inst) = R (unat (RS inst))"
      using field_reg(1) [of "RS inst"] field_reg(2) [of "RS inst" R] rg byte at by auto
    then show ?thesis using at out ag inv
      by (simp add: ADDI exec_rows ADDI_IMPL_def alu_simps isa_agrees_def) (simp add: opcode_defs)
  next
    case ADDU
    note at = attr_ADDU [OF ADDU]
    have s: "unat (RS inst) < 32" "opnd R (RS inst) = R (unat (RS inst))"
      "unat (RT inst) < 32" "opnd R (RT inst) = R (unat (RT inst))"
      using field_reg(1) [of "RS inst"] field_reg(2) [of "RS inst" R] field_reg(1) [of "RT inst"] field_reg(2) [of "RT inst" R] rg byte at by auto
    then show ?thesis using at out inv by (simp add: ADDU exec_rows ADDU_IMPL_def alu_simps)
  next
    case ADDIU
    note at = attr_ADDIU [OF ADDIU]
    have s: "unat (RS inst) < 32" "opnd R (RS inst) = R (unat (RS inst))"
      using field_reg(1) [of "RS inst"] field_reg(2) [of "RS inst" R] rg byte at by auto
    then show ?thesis using at out inv by (simp add: ADDIU exec_rows ADDIU_IMPL_def alu_simps)
  next
    case ANDI
    note at = attr_ANDI [OF ANDI]
    have s: "unat (RS inst) < 32" "opnd R (RS inst) = R (unat (RS inst))"
      using field_reg(1) [of "RS inst"] field_reg(2) [of "RS inst" R] rg byte at by auto
    have "\<not> bit (inst_b inst) 15" using ag ANDI by (simp add: isa_agrees_def opcode_defs)
    then have "sext16 (inst_b inst) = UIMM inst" by (simp add: imm_zext UIMM_def)
    then show ?thesis using s at out inv by (simp add: ANDI exec_rows ANDI_IMPL_def alu_simps)
  next
    case SLL
    note at = attr_SLL [OF SLL]
    have s: "unat (RT inst) < 32" "opnd R (RT inst) = R (unat (RT inst))"
      using field_reg(1) [of "RT inst"] field_reg(2) [of "RT inst" R] rg byte at by auto
    then show ?thesis using at out inv by (simp add: SLL exec_rows SLL_IMPL_def alu_simps)
  next
    case SLTI
    note at = attr_SLTI [OF SLTI]
    have s: "unat (RS inst) < 32" "opnd R (RS inst) = R (unat (RS inst))"
      using field_reg(1) [of "RS inst"] field_reg(2) [of "RS inst" R] rg byte at by auto
    then show ?thesis using at out inv by (simp add: SLTI exec_rows SLTI_IMPL_def alu_simps)
  qed
qed

section \<open>The pattern left out\<close>

text \<open>
  A load is in the memory stage, a second load of the same register in the execute stage and
  a reader of that register about to be decoded.  The scoreboard bit is cleared with the
  first load, so the reader does not wait; the operand it is given is the first load's word,
  while the second load has not read memory yet.
\<close>

lemma shadowed_load_stale:
  assumes run: "pipe_cycle sys s = Some s'"
    and ctl: "ctl_cond (p_ctl s) = 0" "\<not> ctl_stall (p_ctl s)" "\<not> ctl_flag (p_ctl s)" "ctl_regs (p_ctl s) = reg_bit r" "unat r < 32"
    and first: "\<not> is_nop (em_inst (p_em s))" "em_rw (p_em s) AND 4 \<noteq> 0" "em_dstM (p_em s) = r" "em_dstE (p_em s) = dna"
    and second: "\<not> is_nop (de_inst (p_de s))" "de_dstM (p_de s) = r" "de_dstE (p_de s) = dna"
    and reader: "wf_inst (fd_inst (p_fd s))" "i_in1 (fd_inst (p_fd s)) = r"
  shows "\<not> ctl_stall (p_ctl s')" "mw_inst (p_mw s') = em_inst (p_em s)" "mw_dstM (p_mw s') = r"
    "em_inst (p_em s') = de_inst (p_de s)" "em_dstM (p_em s') = r" "de_inst (p_de s') = fd_inst (p_fd s)"
    "de_valA (p_de s') = mw_valM (p_mw s')"
proof -
  have r: "r \<noteq> dna" using ctl(5) by (rule reg_not_dna)
  have pc: "pipeline_control s = s" using ctl(1,2) by (simp add: pipeline_control_def Let_def)
  obtain s1 s2 s3 s4 s5 where st: "do_wb sys s = Some s1" "do_mem s1 = Some s2" "do_id (do_ex s2) = Some s3"
    "do_forward s3 = Some s4" "do_if s4 = Some s5" and s': "s' = INC_CYCLE 1 (s5\<lparr>sim_num_insn := sim_num_insn s5 + 1\<rparr>)"
    using run by (auto simp: pipe_cycle_def pc split: Option.bind_splits)
  have wb: "p_fd s1 = p_fd s" "p_de s1 = p_de s" "p_em s1 = p_em s" "p_ctl s1 = p_ctl s"
    using st(1) by (auto simp: do_wb_def Let_def split: if_splits Option.bind_splits)
  have mem: "p_fd s2 = p_fd s" "p_de s2 = p_de s" "p_em s2 = p_em s" "p_ctl s2 = (p_ctl s)\<lparr>ctl_regs := 0\<rparr>"
    "mw_inst (p_mw s2) = em_inst (p_em s)" "mw_dstM (p_mw s2) = r" "mw_dstE (p_mw s2) = dna"
    using st(2) first by (auto simp: do_mem_def Let_def wb ctl(4) INC_CYCLE_def split: Option.bind_splits)
  define sx where "sx = do_ex s2"
  have ex: "p_fd sx = p_fd s" "p_ctl sx = (p_ctl s)\<lparr>ctl_regs := 0\<rparr>" "p_mw sx = p_mw s2"
    "em_inst (p_em sx) = de_inst (p_de s)" "em_dstM (p_em sx) = r" "em_dstE (p_em sx) = dna"
    using second ctl(3) by (simp_all add: sx_def do_ex_def Let_def mem split: prod.splits)
  have idle: "\<not> waits_for (ctl_regs (p_ctl sx)) x" for x by (simp add: ex waits_for_def)
  have fd: "fd_inst (p_fd sx) = fd_inst (p_fd s)" by (simp add: ex)
  obtain de' where id: "de_inst_ok (fd_inst (p_fd s)) de'" "s3 = sx\<lparr>p_de := de', p_ctl := (p_ctl sx)\<lparr>ctl_stall := False,
      ctl_regs := (if is_load (fd_inst (p_fd s)) then ctl_regs (p_ctl sx) OR reg_bit (i_out (fd_inst (p_fd s))) else ctl_regs (p_ctl sx))\<rparr>\<rparr>"
    using reader(1) fd
  proof (cases rule: do_id_cases)
    case stall
    then show ?thesis using idle by blast
  next
    case (go de')
    then show ?thesis using that st(3) by (simp add: sx_def)
  qed
  have val: "de_valA (p_de s4) = mw_valM (p_mw s2)" "p_mw s4 = p_mw s2" "p_em s4 = p_em sx" "\<not> ctl_stall (p_ctl s4)"
    "de_inst (p_de s4) = fd_inst (p_fd s)"
    using st(4) id reader(2) r mem(6,7) ex(3,6)
    by (auto simp: do_forward_def forward_def de_inst_ok_def split: Option.bind_splits)
  have "p_de s5 = p_de s4" "p_mw s5 = p_mw s4" "p_em s5 = p_em s4" "p_ctl s5 = p_ctl s4"
    using st(5) by (auto simp: do_if_def Let_def INC_CYCLE_def split: if_splits Option.bind_splits)
  then show "\<not> ctl_stall (p_ctl s')" "mw_inst (p_mw s') = em_inst (p_em s)" "mw_dstM (p_mw s') = r"
    "em_inst (p_em s') = de_inst (p_de s)" "em_dstM (p_em s') = r" "de_inst (p_de s') = fd_inst (p_fd s)"
    "de_valA (p_de s') = mw_valM (p_mw s')"
    using val mem(5,6) ex(4,5) by (simp_all add: s' INC_CYCLE_def)
qed

section \<open>A run of the functional simulator\<close>

lemma raw_fetch:
  assumes "mem_inv m" "aligned4 a"
  obtains m' where "MD_FETCH_INST m a =
      Some (\<lparr>inst_a = view_word (mem_view m) a, inst_b = view_word (mem_view m) (a + 4)\<rparr>, m')"
    "mem_inv m'" "mem_view m' = mem_view m"
proof -
  obtain m1 where m1: "MEM_READ_WORD m a = Some (view_word (mem_view m) a, m1)" "mem_inv m1" "mem_view m1 = mem_view m"
    by (rule raw.rdE [OF assms])
  have a4: "aligned4 (a + 4)" using assms(2) by (simp only: aligned4_step)
  obtain m2 where m2: "MEM_READ_WORD m1 (a + 4) = Some (view_word (mem_view m1) (a + 4), m2)"
      "mem_inv m2" "mem_view m2 = mem_view m1" by (rule raw.rdE [OF m1(2) a4])
  have "MD_FETCH_INST m a = Some (\<lparr>inst_a = view_word (mem_view m) a, inst_b = view_word (mem_view m) (a + 4)\<rparr>, m2)"
    using m1 m2 by (simp add: MD_FETCH_INST_def)
  then show ?thesis using m1 m2 that [of m2] by simp
qed

definition sf_at :: "md_addr_t \<Rightarrow> trace \<Rightarrow> nat \<Rightarrow> sim_fast_t \<Rightarrow> bool" where
  "sf_at pc tr k s \<longleftrightarrow> regs_PC (sf_regs s) = pc + 8 * of_nat k \<and> regs_NPC (sf_regs s) = pc + 8 * of_nat k + 8 \<and>
     (regs_R (sf_regs s))(0 := 0) = fst (tr k) \<and> mem_inv (sf_mem s) \<and> mem_view (sf_mem s) = snd (tr k)"

lemma sf_step:
  assumes sl: "straight_line I pc n tr" and k: "k < n" and at: "sf_at pc tr k s"
    and ag: "isa_agrees (I k) (fst (tr k))"
  shows "\<exists>s'. sim_fast_step (machine_impls fp sys) s = Some s' \<and> sf_at pc tr (Suc k) s' \<and>
    regs_R (sf_regs s') = fst (tr (Suc k))"
proof -
  let ?a = "pc + 8 * of_nat k" and ?regs = "(sf_regs s)\<lparr>regs_R := fst (tr k)\<rparr>"
  have st: "regs_PC (sf_regs s) = ?a" "regs_NPC (sf_regs s) = ?a + 8" "(regs_R (sf_regs s))(0 := 0) = fst (tr k)"
    "mem_inv (sf_mem s)" "mem_view (sf_mem s) = snd (tr k)" using at by (auto simp: sf_at_def)
  have al: "aligned4 ?a" using sl by (intro aligned4_add8) (simp add: straight_line_def)
  obtain m1 where f: "MD_FETCH_INST (sf_mem s) ?a = Some (\<lparr>inst_a = view_word (snd (tr k)) ?a,
      inst_b = view_word (snd (tr k)) (?a + 4)\<rparr>, m1)" "mem_inv m1" "mem_view m1 = snd (tr k)"
    using raw_fetch [OF st(4) al] unfolding st(5) by blast
  have "text_at I pc n (snd (tr k))" using sl k by (auto simp: straight_line_def)
  then have "\<lparr>inst_a = view_word (snd (tr k)) ?a, inst_b = view_word (snd (tr k)) (?a + 4)\<rparr> = I k"
    using k by (simp add: text_at_def)
  note f' = f(1) [unfolded this]
  note wf = slD [OF sl k]
  have p: "pstep (I k) (fst (tr k), mem_view m1) = tr (Suc k)" using wf(2) f(3) by simp
  have R: "regs_R ?regs = fst (tr k)" by simp
  obtain m2 where e: "exec_inst (machine_impls fp sys) (i_op (I k)) (I k) ?regs m1 =
      Some (?regs\<lparr>regs_R := fst (tr (Suc k))\<rparr>, m2)" "mem_inv m2" "mem_view m2 = snd (tr (Suc k))"
    using isa_step [OF wf(1) ag f(2) R wf(3), of fp sys] unfolding p by blast
  have "fst (tr k) 0 = 0" using st(3) by (metis fun_upd_same)
  then have z: "fst (tr (Suc k)) 0 = 0"
  proof -
    have o: "i_out (I k) \<noteq> 0" using ag by (simp add: isa_agrees_def)
    have "i_dstE (I k) \<noteq> 0" "i_dstM (I k) \<noteq> 0" using o by (auto simp: i_dstE_def i_dstM_def dna_def)
    then have "fst (pstep (I k) (fst (tr k), mem_view m1)) (unat (0 :: word_t)) = fst (tr k) (unat (0 :: word_t))"
      using pstep_other [OF wf(1), of 0] by simp
    with \<open>fst (tr k) 0 = 0\<close> show ?thesis unfolding p by simp
  qed
  let ?r2 = "?regs\<lparr>regs_R := fst (tr (Suc k)), regs_PC := ?a + 8, regs_NPC := ?a + 8 + 8\<rparr>"
  let ?s = "s\<lparr>sf_regs := ?r2, sf_mem := m2, sf_num_insn := sf_num_insn s + 1\<rparr>"
  have "sim_fast_step (machine_impls fp sys) s = Some ?s"
    using f' e(1) by (simp add: sim_fast_step_def Let_def st i_op_def)
  moreover have "(fst (tr (Suc k)))(0 := 0) = fst (tr (Suc k))" using z by (simp add: fun_upd_idem)
  then have "sf_at pc tr (Suc k) ?s" using e(2,3) by (simp add: sf_at_def algebra_simps)
  ultimately show ?thesis by (intro exI [of _ ?s]) simp
qed

lemma sim_fast_run_snoc:
  "sim_fast_run impls (Suc k) s = do { s1 \<leftarrow> sim_fast_run impls k s; sim_fast_step impls s1 }"
proof (induction k arbitrary: s)
  case 0
  show ?case by (cases "sim_fast_step impls s") simp_all
next
  case (Suc k)
  have "sim_fast_run impls (Suc (Suc k)) s = do { s1 \<leftarrow> sim_fast_step impls s; sim_fast_run impls (Suc k) s1 }"
    by (rule sim_fast_run.simps(2))
  also have "\<dots> = do { s1 \<leftarrow> sim_fast_step impls s; s2 \<leftarrow> sim_fast_run impls k s1; sim_fast_step impls s2 }"
    by (simp only: Suc.IH)
  also have "\<dots> = do { s2 \<leftarrow> sim_fast_run impls (Suc k) s; sim_fast_step impls s2 }"
    by (simp add: Option.bind_assoc)
  finally show ?case .
qed

lemma sf_run:
  assumes sl: "straight_line I pc n tr" and at: "sf_at pc tr 0 s" and k: "k \<le> n"
    and ag: "\<forall>j < k. isa_agrees (I j) (fst (tr j))"
  shows "\<exists>s'. sim_fast_run (machine_impls fp sys) k s = Some s' \<and> sf_at pc tr k s' \<and>
    (k > 0 \<longrightarrow> regs_R (sf_regs s') = fst (tr k))"
  using k ag
proof (induction k)
  case 0
  then show ?case using at by simp
next
  case (Suc k)
  then obtain s' where s': "sim_fast_run (machine_impls fp sys) k s = Some s'" "sf_at pc tr k s'" by auto
  have "k < n" "isa_agrees (I k) (fst (tr k))" using Suc.prems by simp_all
  from sf_step [OF sl this(1) s'(2) this(2), of fp sys] s'(1) show ?case
    unfolding sim_fast_run_snoc by auto
qed

section \<open>Loaded programs\<close>

lemma aligned4_bytes:
  assumes "aligned4 a" "aligned4 b" "a + of_nat i = b + of_nat j" "i < 4" "j < 4"
  shows "a = b"
proof -
  have u: "unat (c + of_nat l) = unat c + l" if c: "aligned4 c" "l < 4" for c :: md_addr_t and l
  proof -
    have "unat c mod 4 = 0" using c by (simp add: aligned4_nat)
    moreover have "unat c < 4294967296" using unsigned_less [of c, where ?'a = nat] by simp
    ultimately have "unat c \<le> 4294967292" by presburger
    then show ?thesis using c(2) by (simp add: unat_word_ariths unat_of_nat)
  qed
  have e: "unat a + i = unat b + j" using u [OF assms(1,4)] u [OF assms(2,5)] assms(3) by simp
  have "unat a mod 4 = 0" "unat b mod 4 = 0" using assms(1,2) by (simp_all add: aligned4_nat)
  then have "unat a = unat b" using e assms(4,5) by presburger
  then show ?thesis by (simp add: word_unat_eq_iff)
qed

lemma view_word_set_other:
  assumes "aligned4 a" "aligned4 b" "a \<noteq> b"
  shows "view_word (view_set_word v a w) b = view_word v b"
proof -
  have d: "a + of_nat i \<noteq> b + of_nat j" if "i < 4" "j < 4" for i j
    using aligned4_bytes [OF assms(1,2) _ that] assms(3) by blast
  have e: "view_set_word v a w (b + of_nat j) = v (b + of_nat j)" if "j < 4" for j
    using d [of 0 j] d [of 1 j] d [of 2 j] d [of 3 j] that by (auto simp: view_set_word_def)
  show ?thesis using e [of 0] e [of 1] e [of 2] e [of 3] by (simp add: view_word_def)
qed

fun text_view :: "code \<Rightarrow> md_addr_t \<Rightarrow> nat \<Rightarrow> view" where
  "text_view I pc 0 = (\<lambda>_. 0)"
| "text_view I pc (Suc n) = view_set_word (view_set_word (text_view I pc n) (pc + 8 * of_nat n) (inst_a (I n)))
     (pc + 8 * of_nat n + 4) (inst_b (I n))"

lemma text_addr_neq:
  fixes pc :: md_addr_t
  assumes "unat pc + 8 * n < 4294967296" "j < n"
  shows "pc + 8 * of_nat n \<noteq> pc + 8 * of_nat j" "pc + 8 * of_nat n \<noteq> pc + 8 * of_nat j + 4"
    "pc + 8 * of_nat n + 4 \<noteq> pc + 8 * of_nat j" "pc + 8 * of_nat n + 4 \<noteq> pc + 8 * of_nat j + 4"
    "pc + 8 * of_nat n \<noteq> pc + 8 * of_nat n + 4"
proof -
  have u: "unat (of_nat k :: md_addr_t) = k" if "k \<le> 8 * n + 4" for k
  proof -
    have "8 * n < 4294967296" using assms(1) by simp
    then have "8 * n \<le> 4294967288" by presburger
    then show ?thesis using that by (simp add: unat_of_nat)
  qed
  have d: "(of_nat k :: md_addr_t) \<noteq> of_nat l" if "k \<le> 8 * n + 4" "l \<le> 8 * n + 4" "k \<noteq> l" for k l
    using u [OF that(1)] u [OF that(2)] that(3) by metis
  show "pc + 8 * of_nat n \<noteq> pc + 8 * of_nat j" "pc + 8 * of_nat n \<noteq> pc + 8 * of_nat j + 4"
    "pc + 8 * of_nat n + 4 \<noteq> pc + 8 * of_nat j" "pc + 8 * of_nat n + 4 \<noteq> pc + 8 * of_nat j + 4"
    "pc + 8 * of_nat n \<noteq> pc + 8 * of_nat n + 4"
    using d [of "8 * n" "8 * j"] d [of "8 * n" "8 * j + 4"] d [of "8 * n + 4" "8 * j"] d [of "8 * n + 4" "8 * j + 4"]
      d [of "8 * n" "8 * n + 4"] assms(2) by (simp_all add: add.assoc)
qed

lemma text_view_at:
  assumes "aligned4 pc" "unat pc + 8 * n \<le> 4294967296"
  shows "text_at I pc n (text_view I pc n)"
  using assms(2)
proof (induction n)
  case (Suc n)
  note al = aligned4_add8 [OF assms(1)]
  have lt: "unat pc + 8 * n < 4294967296" using Suc.prems by simp
  note neq = text_addr_neq [OF lt]
  have IH: "text_at I pc n (text_view I pc n)" using Suc by simp
  have "view_word (text_view I pc (Suc n)) (pc + 8 * of_nat j) = inst_a (I j) \<and>
      view_word (text_view I pc (Suc n)) (pc + 8 * of_nat j + 4) = inst_b (I j)" if "j < Suc n" for j
  proof (cases "j = n")
    case True
    then show ?thesis using neq(5) [THEN not_sym]
      by (simp add: view_word_set_other [OF al(2) al(1)] view_word_set_same)
  next
    case False
    then have j: "j < n" using that by simp
    then show ?thesis using IH neq(1-4) [OF j]
      by (simp add: view_word_set_other [OF al(2) al(1)] view_word_set_other [OF al(1) al(1)]
          view_word_set_other [OF al(2) al(2)] view_word_set_other [OF al(1) al(2)] text_at_def)
  qed
  then show ?case unfolding text_at_def by blast
qed (simp add: text_at_def)

lemma text_loaded:
  assumes "aligned4 pc"
  shows "\<exists>m. mem_inv m \<and> mem_view m = text_view I pc n"
proof (induction n)
  case 0
  show ?case using mem_inv_empty(2) [of "''mem''"] mem_view_empty(2) [of "''mem''"] by auto
next
  case (Suc n)
  note al = aligned4_add8 [OF assms]
  obtain m where m: "mem_inv m" "mem_view m = text_view I pc n" using Suc by blast
  obtain m1 where m1: "mem_inv m1" "mem_view m1 = view_set_word (mem_view m) (pc + 8 * of_nat n) (inst_a (I n))"
    by (rule raw.wrE [OF m(1) al(1)]) blast
  obtain m2 where "mem_inv m2" "mem_view m2 = view_set_word (mem_view m1) (pc + 8 * of_nat n + 4) (inst_b (I n))"
    by (rule raw.wrE [OF m1(1) al(2)]) blast
  then show ?case using m m1 by auto
qed

text \<open>The state in which the loader leaves a pipeline whose memory is \<open>m\<close>.\<close>

definition loaded_pipe :: "md_addr_t \<Rightarrow> mem_t \<Rightarrow> pipe_t" where
  "loaded_pipe pc m = sim_init\<lparr>p_regs := regs_init\<lparr>regs_PC := pc\<rparr>, p_mem := m\<rparr>"

lemma loaded_start:
  assumes "mem_inv m" "fst (tr 0) = (\<lambda>_. 0)" "snd (tr 0) = mem_view m"
  shows "start_state pc tr (loaded_pipe pc m)"
  using assms cache_inv_init [OF assms(1)]
  by (simp add: start_state_def loaded_pipe_def sim_init_def regs_init_def fun_upd_idem mem_at_def
      cached_inv_def cached_view_def cache_view_init) (simp add: cache_init_def)

fun run_insts :: "code \<Rightarrow> regfile \<times> view \<Rightarrow> trace" where
  "run_insts I s 0 = s"
| "run_insts I s (Suc k) = pstep (I k) (run_insts I s k)"

text \<open>
  A program: \<open>addiu $1,$0,5; sw $1,256($0); lw $2,256($0); addu $3,$2,$1\<close> and then
  \<open>addu $4,$0,$0\<close> for ever.
\<close>

definition demo :: code where
  "demo k = (if k = 0 then \<lparr>inst_a = ADDIU, inst_b = 0x00010005\<rparr>
     else if k = 1 then \<lparr>inst_a = SW, inst_b = 0x00010100\<rparr>
     else if k = 2 then \<lparr>inst_a = LW, inst_b = 0x00020100\<rparr>
     else if k = 3 then \<lparr>inst_a = ADDU, inst_b = 0x02010300\<rparr>
     else \<lparr>inst_a = ADDU, inst_b = 0x00000400\<rparr>)"

definition demo_text :: view where "demo_text = text_view demo 0x400000 14"

definition demo_trace :: trace where "demo_trace = run_insts demo (\<lambda>_. 0, demo_text)"

lemma demo_ops: "i_op (demo 0) = ADDIU" "i_op (demo (Suc 0)) = SW" "i_op (demo 2) = LW" "i_op (demo 3) = ADDU"
  "4 \<le> k \<Longrightarrow> i_op (demo k) = ADDU"
  by (simp_all add: demo_def i_op_def MD_SET_OPCODE_def opcode_defs)

lemmas demo_attrs = attr_ADDIU [OF demo_ops(1)] attr_SW [OF demo_ops(2)] attr_LW [OF demo_ops(3)]
  attr_ADDU [OF demo_ops(4)]

lemma demo_idle: "4 \<le> k \<Longrightarrow> \<not> is_load (demo k) \<and> \<not> is_store (demo k) \<and> i_in1 (demo k) = 0 \<and> i_in2 (demo k) = 0 \<and>
    i_out (demo k) = 4 \<and> i_valE (demo k) R = R 0 + R 0"
  using attr_ADDU [OF demo_ops(5), of k]
  by (simp add: i_valE_def i_srcA_def alu_def opnd_def dna_def) (simp add: demo_def RS_def RT_def RD_def)

lemma demo_vals:
  "i_valE (demo 0) R = R 0 + 5" "i_valE (demo (Suc 0)) R = R 0 + 256" "i_valE (demo 2) R = R 0 + 256"
  "i_valE (demo 3) R = R 2 + R 1" "i_out (demo 0) = 1" "i_in1 (demo (Suc 0)) = 1" "i_out (demo 2) = 2" "i_out (demo 3) = 3"
  using demo_attrs
  by (simp_all add: i_valE_def i_srcA_def alu_def opnd_def dna_def)
    (simp_all add: demo_def RS_def RT_def RD_def BS_def sext16_def)

definition demo_mem :: view where "demo_mem = view_set_word demo_text 256 5"

lemma demo_pstep:
  "pstep (demo 0) (R, V) = (R(1 := R 0 + 5), V)"
  "pstep (demo (Suc 0)) (R, V) = (R, view_set_word V (R 0 + 256) (R 1))"
  "pstep (demo 2) (R, V) = (R(2 := view_word V (R 0 + 256)), V)"
  "pstep (demo 3) (R, V) = (R(3 := R 2 + R 1), V)"
  "4 \<le> k \<Longrightarrow> pstep (demo k) (R, V) = (R(4 := R 0 + R 0), V)"
proof -
  show "pstep (demo 0) (R, V) = (R(1 := R 0 + 5), V)" "pstep (demo 3) (R, V) = (R(3 := R 2 + R 1), V)"
    "pstep (demo 2) (R, V) = (R(2 := view_word V (R 0 + 256)), V)"
    using demo_attrs by (simp_all add: pstep_def demo_vals)
  show "pstep (demo (Suc 0)) (R, V) = (R, view_set_word V (R 0 + 256) (R 1))"
    using demo_attrs by (simp add: pstep_def demo_vals) (simp add: opnd_def dna_def)
  show "pstep (demo k) (R, V) = (R(4 := R 0 + R 0), V)" if "4 \<le> k"
    using demo_idle [OF that] by (simp add: pstep_def)
qed

lemma demo_trace_vals:
  "demo_trace 0 = (\<lambda>_. 0, demo_text)"
  "demo_trace (Suc 0) = ((\<lambda>_. 0)(1 := 5), demo_text)"
  "demo_trace 2 = ((\<lambda>_. 0)(1 := 5), demo_mem)"
  "demo_trace 3 = ((\<lambda>_. 0)(1 := 5, 2 := 5), demo_mem)"
  "4 \<le> k \<Longrightarrow> demo_trace k = ((\<lambda>_. 0)(1 := 5, 2 := 5, 3 := 10), demo_mem)"
proof -
  show 0: "demo_trace 0 = (\<lambda>_. 0, demo_text)" by (simp add: demo_trace_def)
  have suc: "demo_trace (Suc k) = pstep (demo k) (demo_trace k)" for k by (simp add: demo_trace_def)
  show 1: "demo_trace (Suc 0) = ((\<lambda>_. 0)(1 := 5), demo_text)" by (simp add: suc 0 demo_pstep)
  have "demo_trace (Suc (Suc 0)) = ((\<lambda>_. 0)(1 := 5), demo_mem)"
    by (simp add: suc [of "Suc 0"] 1 demo_pstep demo_mem_def)
  then show 2: "demo_trace 2 = ((\<lambda>_. 0)(1 := 5), demo_mem)" by (simp add: numeral_2_eq_2)
  have "demo_trace (Suc 2) = ((\<lambda>_. 0)(1 := 5, 2 := 5), demo_mem)"
    unfolding suc [of 2] 2 demo_pstep by (simp add: demo_mem_def view_word_set_same)
  then show 3: "demo_trace 3 = ((\<lambda>_. 0)(1 := 5, 2 := 5), demo_mem)" by (simp add: numeral_3_eq_3)
  have "demo_trace (Suc 3) = ((\<lambda>_. 0)(1 := 5, 2 := 5, 3 := 10), demo_mem)"
    unfolding suc [of 3] 3 demo_pstep by simp
  then have 4: "demo_trace 4 = ((\<lambda>_. 0)(1 := 5, 2 := 5, 3 := 10), demo_mem)" by (simp add: eval_nat_numeral)
  show "demo_trace k = ((\<lambda>_. 0)(1 := 5, 2 := 5, 3 := 10), demo_mem)" if "4 \<le> k"
    using that
  proof (induction k rule: dec_induct)
    case base
    show ?case by (rule 4)
  next
    case (step k)
    then show ?case unfolding suc step.IH demo_pstep(5) [OF step(1)] by (simp add: fun_eq_iff)
  qed
qed

lemma less_4_cases: "(k :: nat) = 0 \<or> k = Suc 0 \<or> k = 2 \<or> k = 3 \<or> 4 \<le> k" by linarith

lemma demo_wf: "wf_inst (demo k)"
  using less_4_cases [of k]
proof (elim disjE)
  assume k: "k = 0" then show ?thesis using demo_attrs(1) demo_ops(1) demo_vals
    by (simp add: wf_inst_def supported_ops_def reg_ok_def) (simp add: demo_def RS_def)
next
  assume "k = Suc 0" then show ?thesis using demo_attrs(2) demo_ops(2) demo_vals
    by (simp add: wf_inst_def supported_ops_def reg_ok_def) (simp add: demo_def BS_def RS_def)
next
  assume "k = 2" then show ?thesis using demo_attrs(3) demo_ops(3) demo_vals
    by (simp add: wf_inst_def supported_ops_def reg_ok_def) (simp add: demo_def BS_def RS_def)
next
  assume "k = 3" then show ?thesis using demo_attrs(4) demo_ops(4) demo_vals
    by (simp add: wf_inst_def supported_ops_def reg_ok_def) (simp add: demo_def RT_def RS_def)
next
  assume k: "4 \<le> k" then show ?thesis using demo_idle [OF k] demo_ops(5) [OF k]
    by (simp add: wf_inst_def supported_ops_def reg_ok_def)
qed

lemma demo_kinds: "is_load (demo k) \<longleftrightarrow> k = 2" "is_store (demo k) \<longleftrightarrow> k = Suc 0"
  using less_4_cases [of k] demo_attrs demo_idle [of k] by auto

lemma demo_text_at: "text_at demo 0x400000 14 demo_text"
  unfolding demo_text_def by (rule text_view_at) (simp_all add: aligned4_def)

lemma demo_mem_text_at: "text_at demo 0x400000 14 demo_mem"
proof -
  have al: "aligned4 256" "aligned4 0x400000" by (simp_all add: aligned4_def)
  have neq: "256 \<noteq> (0x400000 :: md_addr_t) + 8 * of_nat j" "256 \<noteq> (0x400000 :: md_addr_t) + 8 * of_nat j + 4"
    if "j < 14" for j
  proof -
    have "unat (0x400000 + 8 * of_nat j :: md_addr_t) = 0x400000 + 8 * j"
      "unat (0x400000 + 8 * of_nat j + 4 :: md_addr_t) = 0x400000 + 8 * j + 4"
      using that by (simp_all add: unat_word_ariths unat_of_nat)
    moreover have "unat (256 :: md_addr_t) = 256" by simp
    ultimately show "256 \<noteq> (0x400000 :: md_addr_t) + 8 * of_nat j" "256 \<noteq> (0x400000 :: md_addr_t) + 8 * of_nat j + 4"
      by (metis add_leE less_not_refl2 numeral_le_iff semiring_norm(68,69,71,76))+
  qed
  show ?thesis unfolding text_at_def
  proof (intro allI impI)
    fix j :: nat assume j: "j < 14"
    have o: "view_word demo_mem (0x400000 + 8 * of_nat j) = view_word demo_text (0x400000 + 8 * of_nat j)"
      "view_word demo_mem (0x400000 + 8 * of_nat j + 4) = view_word demo_text (0x400000 + 8 * of_nat j + 4)"
      unfolding demo_mem_def
      by (rule view_word_set_other [OF al(1) aligned4_add8(1) [OF al(2)] neq(1) [OF j]],
          rule view_word_set_other [OF al(1) aligned4_add8(2) [OF al(2)] neq(2) [OF j]])
    show "view_word demo_mem (0x400000 + 8 * of_nat j) = inst_a (demo j) \<and>
        view_word demo_mem (0x400000 + 8 * of_nat j + 4) = inst_b (demo j)"
      using demo_text_at j unfolding o text_at_def by blast
  qed
qed

lemma demo_straight_line: "m \<le> 14 \<Longrightarrow> straight_line demo 0x400000 m demo_trace"
proof -
  assume m: "m \<le> 14"
  have "mem_op_ok (demo k) (fst (demo_trace k))" for k
    using less_4_cases [of k] by (auto simp: mem_op_ok_def demo_kinds demo_vals demo_trace_vals aligned4_def)
  moreover have "text_at demo 0x400000 14 (snd (demo_trace k))" for k
    using less_4_cases [of k] demo_text_at demo_mem_text_at by (auto simp: demo_trace_vals)
  then have "text_at demo 0x400000 m (snd (demo_trace k))" for k using m by (auto simp: text_at_def)
  ultimately show ?thesis using demo_wf
    by (auto simp: straight_line_def shadowed_def demo_kinds aligned4_def) (auto simp: demo_trace_def)
qed

lemma demo_loaded: "\<exists>m. mem_inv m \<and> mem_view m = demo_text \<and> start_state 0x400000 demo_trace (loaded_pipe 0x400000 m)"
proof -
  have "aligned4 0x400000" by (simp add: aligned4_def)
  from text_loaded [OF this, of demo 14] obtain m where "mem_inv m" "mem_view m = demo_text"
    by (auto simp: demo_text_def)
  with loaded_start [of m demo_trace "0x400000"] show ?thesis by (auto simp: demo_trace_vals)
qed

lemma demo_agrees: "isa_agrees (demo k) R"
  using less_4_cases [of k]
proof (elim disjE)
  assume "4 \<le> k" then show ?thesis using demo_ops(5) demo_idle by (simp add: isa_agrees_def)
qed (use demo_ops demo_vals demo_attrs in \<open>auto simp: isa_agrees_def dna_def\<close>)

text \<open>A program in which no instruction uses the result of a load before it: \<open>$1\<close> is set, then it idles.\<close>

definition quick :: code where "quick k = (if k = 0 then demo 0 else demo 4)"

definition quick_text :: view where "quick_text = text_view quick 0x400000 8"

definition quick_trace :: trace where "quick_trace = run_insts quick (\<lambda>_. 0, quick_text)"

lemma quick_trace_vals: "quick_trace 0 = (\<lambda>_. 0, quick_text)" "quick_trace (Suc k) = ((\<lambda>_. 0)(1 := 5), quick_text)"
proof -
  show 0: "quick_trace 0 = (\<lambda>_. 0, quick_text)" by (simp add: quick_trace_def)
  show "quick_trace (Suc k) = ((\<lambda>_. 0)(1 := 5), quick_text)"
  proof (induction k)
    case 0
    then show ?case by (auto simp: quick_trace_def quick_def demo_pstep fun_eq_iff)
  next
    case (Suc k)
    have "quick_trace (Suc (Suc k)) = pstep (demo 4) (quick_trace (Suc k))" by (simp add: quick_trace_def quick_def)
    then show ?case unfolding Suc by (simp add: demo_pstep fun_eq_iff)
  qed
qed

lemma quick_kinds: "\<not> is_load (quick k)" "\<not> is_store (quick k)"
  by (simp_all add: quick_def demo_kinds)

lemma quick_straight_line: "straight_line quick 0x400000 8 quick_trace"
proof -
  have "text_at quick 0x400000 8 quick_text"
    unfolding quick_text_def by (rule text_view_at) (simp_all add: aligned4_def)
  then have "text_at quick 0x400000 8 (snd (quick_trace k))" for k by (cases k) (simp_all add: quick_trace_vals)
  moreover have "wf_inst (quick k)" for k by (simp add: quick_def demo_wf)
  moreover have "quick_trace (Suc k) = pstep (quick k) (quick_trace k)" for k by (simp add: quick_trace_def)
  ultimately show ?thesis by (simp add: straight_line_def shadowed_def quick_kinds mem_op_ok_def aligned4_def)
qed

lemma quick_loaded: "\<exists>m. start_state 0x400000 quick_trace (loaded_pipe 0x400000 m)"
proof -
  have "aligned4 0x400000" by (simp add: aligned4_def)
  from text_loaded [OF this, of quick 8] obtain m where "mem_inv m" "mem_view m = quick_text"
    by (auto simp: quick_text_def)
  with loaded_start [of m quick_trace "0x400000"] show ?thesis by (auto simp: quick_trace_vals)
qed

section \<open>Properties\<close>

text \<open>
  C1: on straight-line code the pipeline refines the instruction-at-a-time machine.  The code
  is made of the ten instructions of \<open>supported_ops\<close> with registers below 32, at an aligned
  address and with aligned data addresses, and never overwrites its text; it does not contain
  two successive loads of one register, the second not through that register, followed by an
  instruction that reads it, on which the pipeline is wrong (\<open>shadowed_load_stale\<close>).  After any
  number of turns the pipeline has not failed, its registers are those after the first \<open>W\<close>
  instructions and cache and memory together hold what they hold after \<open>M\<close> of them, where
  \<open>M\<close> is \<open>W\<close> or one more, and at most two turns are spent per instruction beyond the
  filling of the pipeline: forwarding, the load scoreboard, the stalls and the cache are
  invisible.
\<close>

theorem pipe_straight_line:
  assumes "straight_line I pc n tr" "start_state pc tr s" "t \<le> n"
  shows "\<exists>s' W M. pipe_cycles sys (Suc t) (sim_main_start s) = Some s' \<and>
    regs_R (p_regs s') = fst (tr W) \<and> cached_view (p_cache s', p_mem s') = snd (tr M) \<and>
    W \<le> M \<and> M \<le> Suc W \<and> t \<le> 2 * W + 6 \<and> W \<le> t"
proof -
  obtain s' W M E D where r: "pipe_cycles sys (Suc t) (sim_main_start s) = Some s'"
      "pipe_inv I pc n tr W M E D s'" "t + (if E < D then 1 else 0) \<le> 2 * D" "D \<le> t"
    using pipe_run [OF assms] by blast
  have "t \<le> 2 * W + 6" "W \<le> t" using r(3,4) pipe_inv_state(6,7) [OF r(2)] by (auto split: if_splits)
  then show ?thesis using r(1) pipe_inv_state(1,2,4,5) [OF r(2)] by blast
qed

lemma pipe_straight_line_witness:
  "\<exists>m s' W. pipe_cycles (\<lambda>_ _ _. None) 15 (sim_main_start (loaded_pipe 0x400000 m)) = Some s' \<and>
    regs_R (p_regs s') = fst (demo_trace W) \<and> 4 \<le> W"
proof -
  obtain m where "start_state 0x400000 demo_trace (loaded_pipe 0x400000 m)" using demo_loaded by blast
  from pipe_straight_line [OF demo_straight_line this, of 14 14 "\<lambda>_ _ _. None"]
  obtain s' W where "pipe_cycles (\<lambda>_ _ _. None) (Suc 14) (sim_main_start (loaded_pipe 0x400000 m)) = Some s'"
    "regs_R (p_regs s') = fst (demo_trace W)" "14 \<le> 2 * W + 6" by auto
  then show ?thesis by (intro exI [of _ m] exI [of _ s'] exI [of _ W]) (simp del: pipe_cycles.simps)
qed

text \<open>
  C9: straight-line code, as in the refinement above, in which no instruction uses the result
  of a load directly before it (so that the pattern left out there does not occur) retires
  one instruction per turn: after \<open>t + 1\<close> turns, \<open>t\<close> at most the length of the code, exactly
  \<open>t - 3\<close> instructions have left write-back and \<open>t - 2\<close> the memory stage.
\<close>

theorem pipe_one_per_turn:
  assumes "straight_line I pc n tr" "start_state pc tr s" "t \<le> n"
    and "\<forall>k. Suc k < n \<longrightarrow> \<not> load_use (I k) (I (Suc k))"
  shows "\<exists>s'. pipe_cycles sys (Suc t) (sim_main_start s) = Some s' \<and>
    regs_R (p_regs s') = fst (tr (t - 3)) \<and> cached_view (p_cache s', p_mem s') = snd (tr (t - 2))"
  using pipe_run_no_hazard [OF assms, of sys] pipe_inv_state(1,2) by blast

lemma pipe_one_per_turn_witness:
  "\<exists>m s'. pipe_cycles (\<lambda>_ _ _. None) 9 (sim_main_start (loaded_pipe 0x400000 m)) = Some s' \<and>
    regs_R (p_regs s') 1 = 5"
proof -
  obtain m where st: "start_state 0x400000 quick_trace (loaded_pipe 0x400000 m)" using quick_loaded by blast
  have "\<forall>k. Suc k < 8 \<longrightarrow> \<not> load_use (quick k) (quick (Suc k))" by (simp add: load_use_def quick_kinds)
  from pipe_one_per_turn [OF quick_straight_line st, of 8, OF _ this, of "\<lambda>_ _ _. None"]
  obtain s' where run: "pipe_cycles (\<lambda>_ _ _. None) (Suc 8) (sim_main_start (loaded_pipe 0x400000 m)) = Some s'"
    "regs_R (p_regs s') = fst (quick_trace 5)" by (auto simp del: pipe_cycles.simps)
  have "quick_trace 5 = ((\<lambda>_. 0)(1 := 5), quick_text)" using quick_trace_vals(2) [of 4] by simp
  then have "regs_R (p_regs s') 1 = 5" using run(2) by simp
  moreover have "Suc 8 = (9 :: nat)" by simp
  ultimately show ?thesis using run(1) by metis
qed

text \<open>
  C8: straight-line code of \<open>n0\<close> instructions, as in the refinement above and without the
  pattern left out there, followed by at least \<open>n0 + 6\<close> instructions that change nothing, is
  complete after \<open>2 * n0 + 7\<close> turns: registers and memory are those of its sequential
  execution, whatever stalls it had.
\<close>

theorem pipe_completes:
  assumes "straight_line I pc n tr" "start_state pc tr s" "2 * n0 + 6 \<le> n"
    and "\<forall>k. n0 \<le> k \<and> k \<le> n \<longrightarrow> tr k = tr n0"
  shows "\<exists>s'. pipe_cycles sys (2 * n0 + 7) (sim_main_start s) = Some s' \<and>
    regs_R (p_regs s') = fst (tr n0) \<and> cached_view (p_cache s', p_mem s') = snd (tr n0)"
  by (rule pipe_complete [OF assms])

lemma pipe_completes_witness:
  "\<exists>m s'. pipe_cycles (\<lambda>_ _ _. None) 15 (sim_main_start (loaded_pipe 0x400000 m)) = Some s' \<and>
    regs_R (p_regs s') 3 = 10 \<and> cached_view (p_cache s', p_mem s') 256 = 5"
proof -
  obtain m where st: "start_state 0x400000 demo_trace (loaded_pipe 0x400000 m)" using demo_loaded by blast
  have "byte_of 5 0 = 5" by (simp add: byte_of_def)
  with pipe_completes [OF demo_straight_line st, of 14 4 "\<lambda>_ _ _. None"]
  obtain s' where "pipe_cycles (\<lambda>_ _ _. None) 15 (sim_main_start (loaded_pipe 0x400000 m)) = Some s'"
    "regs_R (p_regs s') 3 = 10" "cached_view (p_cache s', p_mem s') 256 = 5"
    by (auto simp: demo_trace_vals demo_mem_def view_set_word_def)
  then show ?thesis by blast
qed

text \<open>
  C2: the pipeline with its cache and the functional simulator, started in the same registers
  and memory, hold the same registers and memory, the pipeline after \<open>2 * n0 + 7\<close> turns and the
  simulator after \<open>n0\<close> instructions, on straight-line code as in the refinement
  above (without the pattern left out there) of \<open>n0\<close> instructions followed by at least
  \<open>n0 + 6\<close> that change nothing, and on whose instructions both agree: LW, SW, ADDU,
  ADDIU, SLL, SLTI, ANDI of an immediate whose bit 15 is clear, ADD and ADDI that do not
  overflow, no LUI, and none that writes register 0.  On the others they differ: the pipeline
  adds the sign-extended immediate for LUI, extends the sign of ANDI's, never traps an
  overflow, and keeps what is written to register 0.
\<close>

theorem pipe_matches_sim_fast:
  assumes "straight_line I pc n tr" "start_state pc tr s" "2 * n0 + 6 \<le> n" "0 < n0"
    and "\<forall>k. n0 \<le> k \<and> k \<le> n \<longrightarrow> tr k = tr n0"
    and "\<forall>j < n0. isa_agrees (I j) (fst (tr j))"
    and "sf_regs f = p_regs s" "mem_inv (sf_mem f)" "mem_view (sf_mem f) = cached_view (p_cache s, p_mem s)"
  shows "\<exists>s' f'. pipe_cycles sys (2 * n0 + 7) (sim_main_start s) = Some s' \<and>
    sim_fast_run (machine_impls fp sys) n0 (sim_fast_start f) = Some f' \<and>
    regs_R (p_regs s') = regs_R (sf_regs f') \<and>
    cached_view (p_cache s', p_mem s') = mem_view (sf_mem f')"
proof -
  obtain s' where s': "pipe_cycles sys (2 * n0 + 7) (sim_main_start s) = Some s'"
      "regs_R (p_regs s') = fst (tr n0)" "cached_view (p_cache s', p_mem s') = snd (tr n0)"
    using pipe_complete [OF assms(1,2,3,5)] by blast
  have "sf_at pc tr 0 (sim_fast_start f)"
    using assms(2,7-9) by (auto simp: sf_at_def sim_fast_start_def start_state_def mem_at_def)
  moreover have "n0 \<le> n" using assms(3) by simp
  ultimately obtain f' where "sim_fast_run (machine_impls fp sys) n0 (sim_fast_start f) = Some f'"
      "sf_at pc tr n0 f'" "regs_R (sf_regs f') = fst (tr n0)"
    using sf_run [OF assms(1) _ _ assms(6), of "sim_fast_start f"] assms(4) by blast
  then show ?thesis using s' by (auto simp: sf_at_def)
qed

lemma pipe_matches_sim_fast_witness:
  "\<exists>m s' f'. pipe_cycles (\<lambda>_ _ _. None) 15 (sim_main_start (loaded_pipe 0x400000 m)) = Some s' \<and>
    sim_fast_run (machine_impls (\<lambda>_ _ _ _. None) (\<lambda>_ _ _. None)) 4
      (sim_fast_start \<lparr>sf_regs = regs_init\<lparr>regs_PC := 0x400000\<rparr>, sf_mem = m, sf_num_insn = 0\<rparr>) = Some f' \<and>
    regs_R (p_regs s') 3 = regs_R (sf_regs f') 3"
proof -
  obtain m where m: "mem_inv m" "mem_view m = demo_text" "start_state 0x400000 demo_trace (loaded_pipe 0x400000 m)"
    using demo_loaded by blast
  have v: "cached_view (p_cache (loaded_pipe 0x400000 m), p_mem (loaded_pipe 0x400000 m)) = mem_view m"
    "p_regs (loaded_pipe 0x400000 m) = regs_init\<lparr>regs_PC := 0x400000\<rparr>"
    by (simp_all add: loaded_pipe_def sim_init_def cached_view_def cache_view_init)
  obtain s' f' where "pipe_cycles (\<lambda>_ _ _. None) 15 (sim_main_start (loaded_pipe 0x400000 m)) = Some s'"
    "sim_fast_run (machine_impls (\<lambda>_ _ _ _. None) (\<lambda>_ _ _. None)) 4
      (sim_fast_start \<lparr>sf_regs = regs_init\<lparr>regs_PC := 0x400000\<rparr>, sf_mem = m, sf_num_insn = 0\<rparr>) = Some f'"
    "regs_R (p_regs s') = regs_R (sf_regs f')"
    using pipe_matches_sim_fast [OF demo_straight_line m(3), of 14 4
        "\<lparr>sf_regs = regs_init\<lparr>regs_PC := 0x400000\<rparr>, sf_mem = m, sf_num_insn = 0\<rparr>" "\<lambda>_ _ _. None" "\<lambda>_ _ _ _. None"]
      m(1) by (auto simp: v demo_agrees demo_trace_vals)
  then show ?thesis by (intro exI [of _ m] exI [of _ s'] exI [of _ f']) simp
qed

end
