(* ===== verification/Pipe_P1.thy ===== *)
theory Pipe_P1
  imports Pipe_State
begin

text \<open>
  The forwarding pipeline of Project 1, part 2 (sim-pipe.c): the stages of the Project 2
  pipeline without a cache and without the early returns on a bubble in the execute, memory
  and write-back stages, so that a bubble carries the buffer of the last instruction along.
  Every turn ends with a log of the buffers and of some registers, whose data is kept in
  \<open>p1_log\<close>.  A system call is the parameter \<open>syscall\<close>.
\<close>

section \<open>State\<close>

record control_buf_p1 =
  c1_flag :: word_t
  c1_cond :: word_t
  c1_regs :: word_t
  c1_stall :: word_t

text \<open>What \<open>do_log()\<close> prints: the turn, the instruction and its address in each stage, and
  the registers 2 to 6 and a memory word.\<close>

record log_p1 =
  log_turn :: counter_t
  log_stages :: "(md_inst_t \<times> md_addr_t) list"
  log_values :: "word_t list"

record pipe1_t =
  p1_regs :: regs_t
  p1_mem :: mem_t
  p1_fd :: ifid_buf
  p1_de :: idex_buf
  p1_em :: exmem_buf
  p1_mw :: memwb_buf
  p1_wb :: wb_buf
  p1_ctl :: control_buf_p1
  p1_num_insn :: counter_t
  p1_log :: "log_p1 list"

section \<open>Forwarding and control\<close>

definition forward_p1 :: "pipe1_t \<Rightarrow> word_t \<Rightarrow> word_t option" where
  "forward_p1 s src =
     (if src \<noteq> dna then
        if src = em_dstE (p1_em s) then Some (em_valE (p1_em s))
        else if src = mw_dstE (p1_mw s) then Some (mw_valE (p1_mw s))
        else if src = mw_dstM (p1_mw s) then Some (mw_valM (p1_mw s))
        else if src = wb_dstE (p1_wb s) then Some (wb_valE (p1_wb s))
        else if src = wb_dstM (p1_wb s) then Some (wb_valM (p1_wb s))
        else GPR (p1_regs s) src
      else Some 0)"

definition do_forward_p1 :: "pipe1_t \<Rightarrow> pipe1_t option" where
  "do_forward_p1 s = do {
     a \<leftarrow> forward_p1 s (de_srcA (p1_de s));
     b \<leftarrow> forward_p1 s (de_srcB (p1_de s));
     v \<leftarrow> forward_p1 s (op_in1 (de_oprand (p1_de s)));
     Some (s\<lparr>p1_de := (p1_de s)\<lparr>de_aluA := a, de_aluB := b, de_valA := v\<rparr>\<rparr>) }"

definition pipeline_control_p1 :: "pipe1_t \<Rightarrow> pipe1_t" where
  "pipeline_control_p1 s =
     (let ctl = p1_ctl s; de = p1_de s;
          de1 = (if c1_cond ctl \<noteq> 0 \<and> c1_flag ctl AND 2 \<noteq> 0
                 then de\<lparr>de_inst := make_nop (de_inst de)\<rparr> else de);
          ctl1 = (if c1_cond ctl \<noteq> 0 then ctl\<lparr>c1_flag := 0, c1_cond := 0\<rparr> else ctl);
          s1 = s\<lparr>p1_de := de1, p1_ctl := ctl1\<rparr>
      in if c1_stall ctl1 \<noteq> 0
         then s1\<lparr>p1_fd := (p1_fd s)\<lparr>fd_PC := de_PC de1, fd_inst := de_inst de1\<rparr>,
                 p1_de := de1\<lparr>de_inst := make_nop (de_inst de1)\<rparr>\<rparr>
         else s1)"

section \<open>The stages\<close>

definition do_if_p1 :: "pipe1_t \<Rightarrow> pipe1_t option" where
  "do_if_p1 s =
     (let npc = (if c1_cond (p1_ctl s) AND 2 \<noteq> 0 then em_target (p1_em s)
                 else if c1_cond (p1_ctl s) AND 1 \<noteq> 0 then de_target (p1_de s)
                 else fd_PC (p1_fd s) + 8)
      in do {
        (inst, m1) \<leftarrow> MD_FETCH_INST (p1_mem s) npc;
        Some (s\<lparr>p1_mem := m1, p1_fd := \<lparr>fd_inst = inst, fd_PC = npc, fd_NPC = npc\<rparr>\<rparr>) })"

definition id_switch_p1 :: "pipe1_t \<Rightarrow> pipe1_t" where
  "id_switch_p1 s =
     (let de = p1_de s; ctl = p1_ctl s; op = de_opcode de; pc = fd_PC (p1_fd s) in
      if op = LW \<or> op = SW \<or> op = ADD \<or> op = ADDI \<or> op = ADDU \<or> op = ADDIU \<or> op = LUI then
        s\<lparr>p1_de := de\<lparr>de_func := ALU_ADD\<rparr>\<rparr>
      else if op = BNE then
        s\<lparr>p1_ctl := ctl\<lparr>c1_flag := 1\<rparr>,
          p1_de := de\<lparr>de_target := pc + 8 + push_bit 2 (inst_b (de_inst de) AND 0xffff),
                      de_func := ALU_SUB\<rparr>\<rparr>
      else if op = ANDI then s\<lparr>p1_de := de\<lparr>de_func := ALU_AND\<rparr>\<rparr>
      else if op = SLL then s\<lparr>p1_de := de\<lparr>de_func := ALU_SHTL\<rparr>\<rparr>
      else if op = SLTI then s\<lparr>p1_de := de\<lparr>de_func := ALU_SLT\<rparr>\<rparr>
      else if op = JUMP then
        s\<lparr>p1_ctl := ctl\<lparr>c1_flag := 1, c1_cond := c1_cond ctl OR 1\<rparr>,
          p1_de := de\<lparr>de_target := (pc AND 0xf0000000) OR push_bit 2 (inst_b (de_inst de) AND 0x3ffffff),
                      de_func := ALU_NOP\<rparr>\<rparr>
      else s\<lparr>p1_de := de\<lparr>de_func := ALU_NOP\<rparr>\<rparr>)"

definition id_dests_p1 :: "pipe1_t \<Rightarrow> pipe1_t" where
  "id_dests_p1 s =
     (let de = p1_de s; ctl = p1_ctl s; opr = de_oprand de; flags = de_instFlags de;
          de1 = de\<lparr>de_srcA := (if flags AND F_DISP \<noteq> 0 then op_in2 opr else op_in1 opr),
                   de_srcB := op_in2 opr\<rparr>;
          de2 = (if flags AND F_STORE \<noteq> 0 then de1\<lparr>de_rw := de_rw de1 OR 2\<rparr> else de1)
      in if flags AND F_LOAD \<noteq> 0
         then s\<lparr>p1_de := de2\<lparr>de_rw := de_rw de2 OR 4, de_dstM := op_out1 opr, de_dstE := dna\<rparr>,
                p1_ctl := ctl\<lparr>c1_regs := c1_regs ctl OR reg_bit (op_out1 opr)\<rparr>\<rparr>
         else s\<lparr>p1_de := de2\<lparr>de_dstE := op_out1 opr, de_dstM := dna\<rparr>\<rparr>)"

definition do_id_p1 :: "pipe1_t \<Rightarrow> pipe1_t" where
  "do_id_p1 s =
     (let de = (p1_de s)\<lparr>de_inst := fd_inst (p1_fd s), de_PC := fd_PC (p1_fd s), de_rw := 0\<rparr> in
      if is_nop (de_inst de) then s\<lparr>p1_de := de\<rparr>
      else
        (let de1 = de_decode (de\<lparr>de_opcode := MD_SET_OPCODE (de_inst de)\<rparr>);
             opr = de_oprand de1; ctl = p1_ctl s
         in if waits_for (c1_regs ctl) (op_in1 opr) \<or> waits_for (c1_regs ctl) (op_in2 opr)
            then s\<lparr>p1_de := de1, p1_ctl := ctl\<lparr>c1_stall := 1\<rparr>\<rparr>
            else id_dests_p1 (id_switch_p1 (s\<lparr>p1_de := de1, p1_ctl := ctl\<lparr>c1_stall := 0\<rparr>\<rparr>))))"

definition do_ex_p1 :: "pipe1_t \<Rightarrow> pipe1_t" where
  "do_ex_p1 s =
     (let de = p1_de s; aluA = de_aluA de;
          aluB = (if de_instFlags de AND F_IMM \<noteq> 0 \<or> de_instFlags de AND F_DISP \<noteq> 0
                  then sext16 (inst_b (de_inst de))
                  else if de_func de = ALU_SHTL then inst_b (de_inst de) AND 0xff
                  else de_aluB de);
          valE = alu (de_func de) aluA aluB;
          em = (p1_em s)\<lparr>em_inst := de_inst de, em_PC := de_PC de, em_dstE := de_dstE de,
                 em_dstM := de_dstM de, em_valA := de_valA de, em_rw := de_rw de,
                 em_target := de_target de, em_valE := valE\<rparr>;
          ctl = p1_ctl s;
          ctl1 = (if c1_flag ctl \<noteq> 0 then
                    if valE \<noteq> 0 then ctl\<lparr>c1_cond := c1_cond ctl OR 2\<rparr> else ctl\<lparr>c1_flag := 0\<rparr>
                  else ctl)
      in s\<lparr>p1_em := em, p1_ctl := ctl1\<rparr>)"

definition do_mem_p1 :: "pipe1_t \<Rightarrow> pipe1_t option" where
  "do_mem_p1 s =
     (let em = p1_em s; ctl = p1_ctl s;
          mw = (p1_mw s)\<lparr>mw_inst := em_inst em, mw_dstE := em_dstE em, mw_dstM := em_dstM em,
                 mw_valE := em_valE em, mw_PC := em_PC em, mw_rw := em_rw em\<rparr>
      in if mw_rw mw AND 4 \<noteq> 0 then do {
           (v, m1) \<leftarrow> MEM_READ_WORD (p1_mem s) (mw_valE mw);
           Some (s\<lparr>p1_mw := mw\<lparr>mw_valM := v\<rparr>, p1_mem := m1,
             p1_ctl := ctl\<lparr>c1_regs := c1_regs ctl AND NOT (reg_bit (mw_dstM mw))\<rparr>\<rparr>) }
         else if mw_rw mw AND 2 \<noteq> 0 then do {
           m1 \<leftarrow> MEM_WRITE_WORD (p1_mem s) (mw_valE mw) (em_valA em);
           Some (s\<lparr>p1_mw := mw, p1_mem := m1\<rparr>) }
         else Some (s\<lparr>p1_mw := mw\<rparr>))"

definition do_wb_p1 :: "impl \<Rightarrow> pipe1_t \<Rightarrow> pipe1_t option" where
  "do_wb_p1 syscall s =
     (let mw = p1_mw s;
          wb = (p1_wb s)\<lparr>wb_inst := mw_inst mw, wb_PC := mw_PC mw, wb_dstE := mw_dstE mw,
                 wb_dstM := mw_dstM mw, wb_valE := mw_valE mw, wb_valM := mw_valM mw\<rparr>
      in do {
        regs1 \<leftarrow> (if mw_dstM mw \<noteq> dna then SET_GPR (p1_regs s) (mw_dstM mw) (mw_valM mw)
                  else Some (p1_regs s));
        regs2 \<leftarrow> (if mw_dstE mw \<noteq> dna then SET_GPR regs1 (mw_dstE mw) (mw_valE mw) else Some regs1);
        (let s1 = s\<lparr>p1_wb := wb, p1_regs := regs2\<rparr> in
         if inst_a (wb_inst wb) = SYSCALL then do {
           (regs3, m1) \<leftarrow> syscall (wb_inst wb) regs2 (p1_mem s);
           Some (s1\<lparr>p1_regs := regs3, p1_mem := m1\<rparr>) }
         else Some s1) })"

definition do_log_p1 :: "pipe1_t \<Rightarrow> pipe1_t option" where
  "do_log_p1 s =
     (let regs = p1_regs s in do {
        r2 \<leftarrow> GPR regs 2; r3 \<leftarrow> GPR regs 3; r4 \<leftarrow> GPR regs 4; r5 \<leftarrow> GPR regs 5; r6 \<leftarrow> GPR regs 6;
        fp \<leftarrow> GPR regs 30;
        (w, m1) \<leftarrow> MEM_READ_WORD (p1_mem s) (fp + 16);
        Some (s\<lparr>p1_mem := m1, p1_log := p1_log s @
          [\<lparr>log_turn = p1_num_insn s,
            log_stages = [(fd_inst (p1_fd s), fd_PC (p1_fd s)), (de_inst (p1_de s), de_PC (p1_de s)),
              (em_inst (p1_em s), em_PC (p1_em s)), (mw_inst (p1_mw s), mw_PC (p1_mw s)),
              (wb_inst (p1_wb s), wb_PC (p1_wb s))],
            log_values = [r2, r3, r4, r5, r6, w]\<rparr>]\<rparr>) })"

section \<open>Initialisation and the main loop\<close>

definition sim_init_p1 :: pipe1_t where
  "sim_init_p1 = \<lparr>p1_regs = regs_init, p1_mem = mem_init (mem_create ''mem''), p1_fd = init_fd zero_fd,
     p1_de = init_de zero_de, p1_em = init_em zero_em, p1_mw = init_mw zero_mw,
     p1_wb = init_wb zero_wb,
     p1_ctl = \<lparr>c1_flag = 0, c1_cond = 0, c1_regs = 0, c1_stall = 0\<rparr>, p1_num_insn = 0, p1_log = []\<rparr>"

definition sim_main_start_p1 :: "pipe1_t \<Rightarrow> pipe1_t" where
  "sim_main_start_p1 s =
     (let regs = (p1_regs s)\<lparr>regs_NPC := regs_PC (p1_regs s) + 8,
                             regs_R := (regs_R (p1_regs s))(0 := 0)\<rparr>
      in s\<lparr>p1_regs := regs, p1_fd := (p1_fd s)\<lparr>fd_PC := regs_PC regs - 8\<rparr>\<rparr>)"

definition pipe_cycle_p1 :: "impl \<Rightarrow> pipe1_t \<Rightarrow> pipe1_t option" where
  "pipe_cycle_p1 syscall s = do {
     s1 \<leftarrow> do_wb_p1 syscall (pipeline_control_p1 s);
     s2 \<leftarrow> do_mem_p1 s1;
     s3 \<leftarrow> do_forward_p1 (do_id_p1 (do_ex_p1 s2));
     s4 \<leftarrow> do_if_p1 s3;
     do_log_p1 (s4\<lparr>p1_num_insn := p1_num_insn s4 + 1\<rparr>) }"

fun pipe_cycles_p1 :: "impl \<Rightarrow> nat \<Rightarrow> pipe1_t \<Rightarrow> pipe1_t option" where
  "pipe_cycles_p1 syscall 0 s = Some s"
| "pipe_cycles_p1 syscall (Suc n) s = do { s1 \<leftarrow> pipe_cycle_p1 syscall s; pipe_cycles_p1 syscall n s1 }"

end
