(* ===== verification/Pipe_Stall.thy ===== *)
theory Pipe_Stall
  imports Pipe_P1
begin

text \<open>
  The stalling pipeline of Project 1, part 2 (sim-pipe-withstall.c): no forwarding; the
  decode stage reads the registers and waits while a source register has its scoreboard bit
  set, and every destination flips its bit when it is decoded and again when it is written.
  The bits are flipped, not set and cleared, which the properties below take apart.
\<close>

section \<open>State\<close>

record pipe2_t =
  p2_regs :: regs_t
  p2_mem :: mem_t
  p2_fd :: ifid_buf
  p2_de :: idex_buf
  p2_em :: exmem_buf
  p2_mw :: memwb_buf
  p2_wb :: wb_buf
  p2_ctl :: control_buf_p1
  p2_num_insn :: counter_t
  p2_log :: "log_p1 list"

section \<open>Control and the stages\<close>

definition pipeline_control_ws :: "pipe2_t \<Rightarrow> pipe2_t" where
  "pipeline_control_ws s =
     (let ctl = p2_ctl s; de = p2_de s; fd = p2_fd s;
          fd1 = (if c1_flag ctl \<noteq> 0
                 then fd\<lparr>fd_PC := de_PC de, fd_inst := make_nop (fd_inst fd)\<rparr> else fd)
      in if c1_stall ctl \<noteq> 0
         then s\<lparr>p2_fd := fd1\<lparr>fd_PC := de_PC de, fd_inst := de_inst de\<rparr>,
                p2_de := de\<lparr>de_inst := make_nop (de_inst de)\<rparr>\<rparr>
         else s\<lparr>p2_fd := fd1\<rparr>)"

definition do_if_ws :: "pipe2_t \<Rightarrow> pipe2_t option" where
  "do_if_ws s =
     (let ctl = p2_ctl s;
          npc = (if c1_cond ctl \<noteq> 0
                 then (if c1_cond ctl AND 2 \<noteq> 0 then em_target (p2_em s) else de_target (p2_de s))
                 else fd_PC (p2_fd s) + 8);
          ctl1 = (if c1_cond ctl \<noteq> 0 then ctl\<lparr>c1_flag := 0, c1_cond := 0\<rparr> else ctl)
      in do {
        (inst, m1) \<leftarrow> MD_FETCH_INST (p2_mem s) npc;
        Some (s\<lparr>p2_mem := m1, p2_ctl := ctl1,
          p2_fd := \<lparr>fd_inst = inst, fd_PC = npc, fd_NPC = npc\<rparr>\<rparr>) })"

definition id_switch_ws :: "pipe2_t \<Rightarrow> pipe2_t" where
  "id_switch_ws s =
     (let de = p2_de s; ctl = p2_ctl s; op = de_opcode de; pc = fd_PC (p2_fd s) in
      if op = LW \<or> op = SW \<or> op = ADD \<or> op = ADDI \<or> op = ADDU \<or> op = ADDIU \<or> op = LUI then
        s\<lparr>p2_de := de\<lparr>de_func := ALU_ADD\<rparr>\<rparr>
      else if op = BNE then
        s\<lparr>p2_ctl := ctl\<lparr>c1_flag := 1\<rparr>,
          p2_de := de\<lparr>de_target := pc + 8 + push_bit 2 (inst_b (de_inst de) AND 0xffff),
                      de_func := ALU_SUB\<rparr>\<rparr>
      else if op = ANDI then s\<lparr>p2_de := de\<lparr>de_func := ALU_AND\<rparr>\<rparr>
      else if op = SLL then s\<lparr>p2_de := de\<lparr>de_func := ALU_SHTL\<rparr>\<rparr>
      else if op = SLTI then s\<lparr>p2_de := de\<lparr>de_func := ALU_SLT\<rparr>\<rparr>
      else if op = JUMP then
        s\<lparr>p2_ctl := ctl\<lparr>c1_flag := 1, c1_cond := c1_cond ctl OR 1\<rparr>,
          p2_de := de\<lparr>de_target := (pc AND 0xf0000000) OR push_bit 2 (inst_b (de_inst de) AND 0x3ffffff),
                      de_func := ALU_NOP\<rparr>\<rparr>
      else s\<lparr>p2_de := de\<lparr>de_func := ALU_NOP\<rparr>\<rparr>)"

text \<open>A register operand, 0 for \<open>DNA\<close>.\<close>

definition operand_ws :: "pipe2_t \<Rightarrow> word_t \<Rightarrow> word_t option" where
  "operand_ws s r = (if r \<noteq> dna then GPR (p2_regs s) r else Some 0)"

text \<open>What \<open>do_id()\<close> does after its switch.\<close>

definition id_read_ws :: "pipe2_t \<Rightarrow> pipe2_t option" where
  "id_read_ws s =
     (let de = p2_de s; ctl = p2_ctl s; opr = de_oprand de; flags = de_instFlags de; dst = op_out1 opr
      in do {
        a \<leftarrow> (if flags AND F_DISP \<noteq> 0 then operand_ws s (op_in2 opr) else operand_ws s (op_in1 opr));
        b \<leftarrow> (if flags AND F_IMM \<noteq> 0 \<or> flags AND F_DISP \<noteq> 0 then Some (sext16 (inst_b (de_inst de)))
              else if de_func de = ALU_SHTL then Some (inst_b (de_inst de) AND 0xff)
              else operand_ws s (op_in2 opr));
        v \<leftarrow> (if flags AND F_STORE \<noteq> 0 then GPR (p2_regs s) (op_in1 opr) else Some (de_valA de));
        (let rw1 = (if flags AND F_STORE \<noteq> 0 then de_rw de OR 2 else de_rw de AND NOT 2);
             rw2 = (if flags AND F_LOAD \<noteq> 0 then rw1 OR 4 else rw1 AND NOT 4);
             ctl1 = (if sint dst \<ge> 0 then ctl\<lparr>c1_regs := c1_regs ctl XOR reg_bit dst\<rparr> else ctl);
             de1 = de\<lparr>de_aluA := a, de_aluB := b, de_valA := v, de_rw := rw2\<rparr>
         in Some (s\<lparr>p2_ctl := ctl1,
              p2_de := (if flags AND F_LOAD \<noteq> 0 then de1\<lparr>de_dstM := dst, de_dstE := dna\<rparr>
                        else de1\<lparr>de_dstE := dst, de_dstM := dna\<rparr>)\<rparr>)) })"

definition do_id_ws :: "pipe2_t \<Rightarrow> pipe2_t option" where
  "do_id_ws s =
     (let de = (p2_de s)\<lparr>de_inst := fd_inst (p2_fd s), de_PC := fd_PC (p2_fd s), de_target := 0\<rparr> in
      if is_nop (de_inst de) then Some (s\<lparr>p2_de := de\<rparr>)
      else
        (let de1 = de_decode (de\<lparr>de_opcode := MD_SET_OPCODE (de_inst de)\<rparr>);
             opr = de_oprand de1; ctl = p2_ctl s
         in if waits_for (c1_regs ctl) (op_in1 opr) \<or> waits_for (c1_regs ctl) (op_in2 opr)
            then Some (s\<lparr>p2_de := de1, p2_ctl := ctl\<lparr>c1_stall := 1\<rparr>\<rparr>)
            else id_read_ws (id_switch_ws (s\<lparr>p2_de := de1, p2_ctl := ctl\<lparr>c1_stall := 0\<rparr>\<rparr>))))"

definition do_ex_ws :: "pipe2_t \<Rightarrow> pipe2_t" where
  "do_ex_ws s =
     (let de = p2_de s; valE = alu (de_func de) (de_aluA de) (de_aluB de);
          em = (p2_em s)\<lparr>em_inst := de_inst de, em_PC := de_PC de, em_dstE := de_dstE de,
                 em_dstM := de_dstM de, em_valA := de_valA de, em_rw := de_rw de,
                 em_target := de_target de, em_valE := valE\<rparr>;
          ctl = p2_ctl s;
          ctl1 = (if c1_flag ctl \<noteq> 0 then
                    if valE \<noteq> 0 then ctl\<lparr>c1_cond := c1_cond ctl OR 2\<rparr> else ctl\<lparr>c1_flag := 0\<rparr>
                  else ctl)
      in s\<lparr>p2_em := em, p2_ctl := ctl1\<rparr>)"

definition do_mem_ws :: "pipe2_t \<Rightarrow> pipe2_t option" where
  "do_mem_ws s =
     (let em = p2_em s;
          mw = (p2_mw s)\<lparr>mw_inst := em_inst em, mw_dstE := em_dstE em, mw_dstM := em_dstM em,
                 mw_valE := em_valE em, mw_PC := em_PC em, mw_rw := em_rw em\<rparr>
      in if mw_rw mw AND 4 \<noteq> 0 then do {
           (v, m1) \<leftarrow> MEM_READ_WORD (p2_mem s) (mw_valE mw);
           Some (s\<lparr>p2_mw := mw\<lparr>mw_valM := v\<rparr>, p2_mem := m1\<rparr>) }
         else if mw_rw mw AND 2 \<noteq> 0 then do {
           m1 \<leftarrow> MEM_WRITE_WORD (p2_mem s) (mw_valE mw) (em_valA em);
           Some (s\<lparr>p2_mw := mw, p2_mem := m1\<rparr>) }
         else Some (s\<lparr>p2_mw := mw\<rparr>))"

text \<open>Writing a destination back flips its scoreboard bit.\<close>

definition wb_reg_ws :: "word_t \<Rightarrow> word_t \<Rightarrow> pipe2_t \<Rightarrow> pipe2_t option" where
  "wb_reg_ws dst val s =
     (if dst \<noteq> dna then do {
        regs1 \<leftarrow> SET_GPR (p2_regs s) dst val;
        Some (s\<lparr>p2_regs := regs1,
          p2_ctl := (p2_ctl s)\<lparr>c1_regs := c1_regs (p2_ctl s) XOR reg_bit dst\<rparr>\<rparr>) }
      else Some s)"

definition do_wb_ws :: "impl \<Rightarrow> pipe2_t \<Rightarrow> pipe2_t option" where
  "do_wb_ws syscall s =
     (let mw = p2_mw s; wb = (p2_wb s)\<lparr>wb_inst := mw_inst mw, wb_PC := mw_PC mw\<rparr> in do {
        s1 \<leftarrow> wb_reg_ws (mw_dstM mw) (mw_valM mw) (s\<lparr>p2_wb := wb\<rparr>);
        s2 \<leftarrow> wb_reg_ws (mw_dstE mw) (mw_valE mw) s1;
        if inst_a (wb_inst wb) = SYSCALL then do {
          (regs3, m1) \<leftarrow> syscall (wb_inst wb) (p2_regs s2) (p2_mem s2);
          Some (s2\<lparr>p2_regs := regs3, p2_mem := m1\<rparr>) }
        else Some s2 })"

definition do_log_ws :: "pipe2_t \<Rightarrow> pipe2_t option" where
  "do_log_ws s =
     (let regs = p2_regs s in do {
        r2 \<leftarrow> GPR regs 2; r3 \<leftarrow> GPR regs 3; r4 \<leftarrow> GPR regs 4; r5 \<leftarrow> GPR regs 5; r6 \<leftarrow> GPR regs 6;
        fp \<leftarrow> GPR regs 30;
        (w, m1) \<leftarrow> MEM_READ_WORD (p2_mem s) (fp + 16);
        Some (s\<lparr>p2_mem := m1, p2_log := p2_log s @
          [\<lparr>log_turn = p2_num_insn s,
            log_stages = [(fd_inst (p2_fd s), fd_PC (p2_fd s)), (de_inst (p2_de s), de_PC (p2_de s)),
              (em_inst (p2_em s), em_PC (p2_em s)), (mw_inst (p2_mw s), mw_PC (p2_mw s)),
              (wb_inst (p2_wb s), wb_PC (p2_wb s))],
            log_values = [r2, r3, r4, r5, r6, w]\<rparr>]\<rparr>) })"

section \<open>Initialisation and the main loop\<close>

definition sim_init_ws :: pipe2_t where
  "sim_init_ws = \<lparr>p2_regs = regs_init, p2_mem = mem_init (mem_create ''mem''),
     p2_fd = zero_fd\<lparr>fd_inst := make_nop zero_inst, fd_PC := 0\<rparr>,
     p2_de = zero_de\<lparr>de_inst := make_nop zero_inst, de_PC := 0\<rparr>,
     p2_em = zero_em\<lparr>em_inst := make_nop zero_inst, em_PC := 0\<rparr>,
     p2_mw = zero_mw\<lparr>mw_inst := make_nop zero_inst, mw_PC := 0\<rparr>,
     p2_wb = zero_wb\<lparr>wb_inst := make_nop zero_inst, wb_PC := 0\<rparr>,
     p2_ctl = \<lparr>c1_flag = 0, c1_cond = 0, c1_regs = 0, c1_stall = 0\<rparr>, p2_num_insn = 0, p2_log = []\<rparr>"

definition sim_main_start_ws :: "pipe2_t \<Rightarrow> pipe2_t" where
  "sim_main_start_ws s =
     (let regs = (p2_regs s)\<lparr>regs_NPC := regs_PC (p2_regs s) + 8,
                             regs_R := (regs_R (p2_regs s))(0 := 0)\<rparr>
      in s\<lparr>p2_regs := regs, p2_fd := (p2_fd s)\<lparr>fd_PC := regs_PC regs - 8\<rparr>\<rparr>)"

definition pipe_cycle_ws :: "impl \<Rightarrow> pipe2_t \<Rightarrow> pipe2_t option" where
  "pipe_cycle_ws syscall s = do {
     s1 \<leftarrow> do_wb_ws syscall (pipeline_control_ws (s\<lparr>p2_num_insn := p2_num_insn s + 1\<rparr>));
     s2 \<leftarrow> do_mem_ws s1;
     s3 \<leftarrow> do_id_ws (do_ex_ws s2);
     s4 \<leftarrow> do_if_ws s3;
     do_log_ws s4 }"

fun pipe_cycles_ws :: "impl \<Rightarrow> nat \<Rightarrow> pipe2_t \<Rightarrow> pipe2_t option" where
  "pipe_cycles_ws syscall 0 s = Some s"
| "pipe_cycles_ws syscall (Suc n) s = do { s1 \<leftarrow> pipe_cycle_ws syscall s; pipe_cycles_ws syscall n s1 }"

end
