(* ===== verification/Pipe_Control.thy ===== *)
theory Pipe_Control
  imports Pipe Pipe_Stall
begin

text \<open>
  Control hazards and stalls in the three pipelines: what a taken branch and a stall do to
  the instructions behind them, for any program.  The Project 2 pipeline squashes the
  instruction behind a taken branch, the forwarding pipeline of Project 1 never does; a
  stall of the stalling pipeline sends the last instruction's destinations through the
  pipeline a second time; and a stall in the turn in which a branch is taken never ends.
\<close>

section \<open>Project 2: what a turn does to the front of the pipeline\<close>

lemma do_wb_front:
  assumes "do_wb sys s = Some s'"
  shows "p_fd s' = p_fd s" "p_de s' = p_de s" "p_em s' = p_em s" "p_ctl s' = p_ctl s"
  using assms by (auto simp: do_wb_def Let_def split: if_splits Option.bind_splits)

lemma do_mem_front:
  assumes "do_mem s = Some s'"
  shows "p_fd s' = p_fd s" "p_de s' = p_de s" "em_target (p_em s') = em_target (p_em s)"
    "ctl_cond (p_ctl s') = ctl_cond (p_ctl s)" "ctl_stall (p_ctl s') = ctl_stall (p_ctl s)"
  using assms by (auto simp: do_mem_def Let_def INC_CYCLE_def split: if_splits Option.bind_splits)

lemma do_ex_front:
  "p_fd (do_ex s) = p_fd s" "p_de (do_ex s) = p_de s" "em_inst (p_em (do_ex s)) = de_inst (p_de s)"
  "ctl_stall (p_ctl (do_ex s)) = ctl_stall (p_ctl s)"
  by (auto simp: do_ex_def Let_def split: prod.splits)

lemma do_forward_front:
  assumes "do_forward s = Some s'"
  shows "p_fd s' = p_fd s" "p_em s' = p_em s" "p_ctl s' = p_ctl s" "de_inst (p_de s') = de_inst (p_de s)"
    "de_PC (p_de s') = de_PC (p_de s)" "de_target (p_de s') = de_target (p_de s)"
  using assms by (auto simp: do_forward_def split: Option.bind_splits)

lemma do_if_front:
  assumes "do_if s = Some s'"
  shows "p_de s' = p_de s" "p_em s' = p_em s" "p_ctl s' = p_ctl s"
    "fd_PC (p_fd s') = (if ctl_cond (p_ctl s) AND 2 \<noteq> 0 then em_target (p_em s)
       else if ctl_cond (p_ctl s) AND 1 \<noteq> 0 then de_target (p_de s) else fd_PC (p_fd s) + 8)"
  using assms by (auto simp: do_if_def Let_def INC_CYCLE_def split: if_splits Option.bind_splits)

lemma id_switch_em: "id_switch s = Some s' \<Longrightarrow> p_em s' = p_em s"
  by (simp add: id_switch_def Let_def split: if_split_asm Option.bind_split_asm; hypsubst?; simp)

lemma do_id_em:
  assumes "do_id s = Some s'"
  shows "p_em s' = p_em s"
  using assms by (auto simp: do_id_def id_dests_def Let_def dest: id_switch_em split: if_splits Option.bind_splits)

lemma pipe_cycleE:
  assumes "pipe_cycle sys s = Some s'"
  obtains s1 s2 s3 s4 s5 where "do_wb sys (pipeline_control s) = Some s1" "do_mem s1 = Some s2"
    "do_id (do_ex s2) = Some s3" "do_forward s3 = Some s4" "do_if s4 = Some s5"
    "s' = INC_CYCLE 1 (s5\<lparr>sim_num_insn := sim_num_insn s5 + 1\<rparr>)"
  using assms by (auto simp: pipe_cycle_def split: Option.bind_splits)

lemma INC_CYCLE_front [simp]: "p_fd (INC_CYCLE k s) = p_fd s" "p_de (INC_CYCLE k s) = p_de s"
  "p_em (INC_CYCLE k s) = p_em s" "p_ctl (INC_CYCLE k s) = p_ctl s" "p_regs (INC_CYCLE k s) = p_regs s"
  by (simp_all add: INC_CYCLE_def)

lemma turn_fetch:
  assumes "pipe_cycle sys s = Some s'" "ctl_cond (p_ctl s') AND 2 \<noteq> 0"
  shows "fd_PC (p_fd s') = em_target (p_em s')"
proof -
  obtain s1 s2 s3 s4 s5 where st: "do_wb sys (pipeline_control s) = Some s1" "do_mem s1 = Some s2"
    "do_id (do_ex s2) = Some s3" "do_forward s3 = Some s4" "do_if s4 = Some s5"
    "s' = INC_CYCLE 1 (s5\<lparr>sim_num_insn := sim_num_insn s5 + 1\<rparr>)" using assms(1) by (rule pipe_cycleE)
  show ?thesis using do_if_front [OF st(5)] assms(2) st(6) by simp
qed

lemma turn_execute:
  assumes "pipe_cycle sys s = Some s'"
  shows "em_inst (p_em s') = de_inst (p_de (pipeline_control s))"
proof -
  obtain s1 s2 s3 s4 s5 where st: "do_wb sys (pipeline_control s) = Some s1" "do_mem s1 = Some s2"
    "do_id (do_ex s2) = Some s3" "do_forward s3 = Some s4" "do_if s4 = Some s5"
    "s' = INC_CYCLE 1 (s5\<lparr>sim_num_insn := sim_num_insn s5 + 1\<rparr>)" using assms(1) by (rule pipe_cycleE)
  show ?thesis
    using do_wb_front(2) [OF st(1)] do_mem_front(2) [OF st(2)] do_ex_front(3) [of s2] do_id_em [OF st(3)]
      do_forward_front(2) [OF st(4)] do_if_front(2) [OF st(5)] st(6) by simp
qed

lemma squashed: "ctl_cond (p_ctl s) AND 2 \<noteq> 0 \<Longrightarrow> is_nop (de_inst (p_de (pipeline_control s)))"
  by (auto simp: pipeline_control_def Let_def)

text \<open>A turn that starts with the stall flag and a bubble in decode ends so.\<close>

definition stuck :: "md_addr_t \<Rightarrow> pipe_t \<Rightarrow> bool" where
  "stuck pc s \<longleftrightarrow> ctl_stall (p_ctl s) \<and> is_nop (de_inst (p_de s)) \<and> de_PC (p_de s) = pc"

lemma stuck_turn:
  assumes "pipe_cycle sys s = Some s'" "ctl_stall (p_ctl s)"
    and "is_nop (de_inst (p_de s)) \<or> ctl_cond (p_ctl s) AND 2 \<noteq> 0"
  shows "stuck (de_PC (p_de s)) s'"
proof -
  let ?s = "pipeline_control s"
  obtain s1 s2 s3 s4 s5 where st: "do_wb sys ?s = Some s1" "do_mem s1 = Some s2"
    "do_id (do_ex s2) = Some s3" "do_forward s3 = Some s4" "do_if s4 = Some s5"
    "s' = INC_CYCLE 1 (s5\<lparr>sim_num_insn := sim_num_insn s5 + 1\<rparr>)" using assms(1) by (rule pipe_cycleE)
  have pc: "is_nop (fd_inst (p_fd ?s))" "fd_PC (p_fd ?s) = de_PC (p_de s)" "ctl_stall (p_ctl ?s)"
    using assms(2,3) by (auto simp: pipeline_control_def Let_def)
  have fd: "p_fd (do_ex s2) = p_fd ?s" "ctl_stall (p_ctl (do_ex s2))"
    using do_wb_front [OF st(1)] do_mem_front [OF st(2)] do_ex_front [of s2] pc(3) by simp_all
  have "is_nop (de_inst (p_de s3)) \<and> de_PC (p_de s3) = de_PC (p_de s) \<and> ctl_stall (p_ctl s3)"
    using st(3) pc fd by (auto simp: do_id_def Let_def)
  then show ?thesis using do_forward_front [OF st(4)] do_if_front(1,3) [OF st(5)] st(6)
    by (simp add: stuck_def)
qed

lemma stuck_turns:
  "stuck pc s \<Longrightarrow> pipe_cycles sys n s = Some s' \<Longrightarrow> stuck pc s'"
proof (induction n arbitrary: s)
  case (Suc n)
  from Suc.prems(2) obtain s1 where s1: "pipe_cycle sys s = Some s1" "pipe_cycles sys n s1 = Some s'"
    by (auto split: Option.bind_splits)
  from stuck_turn [OF s1(1)] Suc.prems(1) have "stuck pc s1" by (auto simp: stuck_def)
  then show ?case using Suc.IH s1(2) by blast
qed simp

section \<open>Project 1, forwarding: nothing is squashed\<close>

lemma flag_p1_cases: "c1_flag ctl = 0 \<or> c1_flag ctl = 1 \<Longrightarrow> c1_flag ctl AND 2 = 0"
  by auto

definition flag_ok :: "pipe1_t \<Rightarrow> bool" where
  "flag_ok s \<longleftrightarrow> c1_flag (p1_ctl s) = 0 \<or> c1_flag (p1_ctl s) = 1"

lemma flag_ok_switch: "flag_ok s \<Longrightarrow> flag_ok (id_switch_p1 s)"
  by (simp add: flag_ok_def id_switch_p1_def Let_def)

lemma flag_ok_id: "flag_ok s \<Longrightarrow> flag_ok (do_id_p1 s)"
proof -
  assume "flag_ok s"
  then have sw: "flag_ok (id_switch_p1 (s\<lparr>p1_de := d, p1_ctl := (p1_ctl s)\<lparr>c1_stall := 0\<rparr>\<rparr>))" for d
    by (intro flag_ok_switch) (simp add: flag_ok_def)
  have dests: "flag_ok t \<Longrightarrow> flag_ok (id_dests_p1 t)" for t by (simp add: id_dests_p1_def Let_def flag_ok_def)
  from \<open>flag_ok s\<close> show ?thesis
    by (simp add: do_id_p1_def Let_def dests [OF sw]) (simp add: flag_ok_def)
qed

lemma flag_ok_stages:
  "flag_ok s \<Longrightarrow> flag_ok (pipeline_control_p1 s)"
  "flag_ok s \<Longrightarrow> do_wb_p1 sys s = Some s' \<Longrightarrow> flag_ok s'"
  "flag_ok s \<Longrightarrow> do_mem_p1 s = Some s' \<Longrightarrow> flag_ok s'"
  "flag_ok s \<Longrightarrow> flag_ok (do_ex_p1 s)"
  "flag_ok s \<Longrightarrow> do_forward_p1 s = Some s' \<Longrightarrow> flag_ok s'"
  "flag_ok s \<Longrightarrow> do_if_p1 s = Some s' \<Longrightarrow> flag_ok s'"
  "flag_ok s \<Longrightarrow> do_log_p1 s = Some s' \<Longrightarrow> flag_ok s'"
  by (auto simp: flag_ok_def pipeline_control_p1_def do_wb_p1_def do_mem_p1_def do_ex_p1_def
      do_forward_p1_def do_if_p1_def do_log_p1_def Let_def
      split: if_splits Option.bind_splits)

lemma flag_ok_cycle: "flag_ok s \<Longrightarrow> pipe_cycle_p1 sys s = Some s' \<Longrightarrow> flag_ok s'"
proof -
  assume ok: "flag_ok s" and run: "pipe_cycle_p1 sys s = Some s'"
  from run obtain s1 s2 s3 s4 where st: "do_wb_p1 sys (pipeline_control_p1 s) = Some s1" "do_mem_p1 s1 = Some s2"
    "do_forward_p1 (do_id_p1 (do_ex_p1 s2)) = Some s3" "do_if_p1 s3 = Some s4"
    "do_log_p1 (s4\<lparr>p1_num_insn := p1_num_insn s4 + 1\<rparr>) = Some s'"
    by (auto simp: pipe_cycle_p1_def split: Option.bind_splits)
  have "flag_ok s4" using flag_ok_stages(1) [OF ok] flag_ok_stages(2) [OF _ st(1)] flag_ok_stages(3) [OF _ st(2)]
      flag_ok_stages(4) flag_ok_id flag_ok_stages(5) [OF _ st(3)] flag_ok_stages(6) [OF _ st(4)] by blast
  then have "flag_ok (s4\<lparr>p1_num_insn := p1_num_insn s4 + 1\<rparr>)" by (simp add: flag_ok_def)
  then show ?thesis using flag_ok_stages(7) st(5) by blast
qed

lemma flag_ok_cycles: "flag_ok s \<Longrightarrow> pipe_cycles_p1 sys t s = Some s' \<Longrightarrow> flag_ok s'"
  by (induction t arbitrary: s) (auto split: Option.bind_splits dest: flag_ok_cycle)

lemma turn_execute_p1:
  assumes "pipe_cycle_p1 sys s = Some s'"
  shows "em_inst (p1_em s') = de_inst (p1_de (pipeline_control_p1 s))"
proof -
  have w: "p1_de b = p1_de a" if "do_wb_p1 sys a = Some b" for a b
    using that by (auto simp: do_wb_p1_def Let_def split: if_splits Option.bind_splits)
  have m: "p1_de b = p1_de a" if "do_mem_p1 a = Some b" for a b
    using that by (auto simp: do_mem_p1_def Let_def split: if_splits Option.bind_splits)
  have x: "em_inst (p1_em (do_ex_p1 a)) = de_inst (p1_de a)" for a by (simp add: do_ex_p1_def Let_def)
  have d: "p1_em (do_id_p1 a) = p1_em a" for a
    by (simp add: do_id_p1_def id_switch_p1_def id_dests_p1_def Let_def)
  have f: "p1_em b = p1_em a" if "do_forward_p1 a = Some b \<or> do_if_p1 a = Some b \<or> do_log_p1 a = Some b" for a b
    using that by (auto simp: do_forward_p1_def do_if_p1_def do_log_p1_def Let_def split: Option.bind_splits)
  from assms obtain s1 s2 s3 s4 where st: "do_wb_p1 sys (pipeline_control_p1 s) = Some s1" "do_mem_p1 s1 = Some s2"
    "do_forward_p1 (do_id_p1 (do_ex_p1 s2)) = Some s3" "do_if_p1 s3 = Some s4"
    "do_log_p1 (s4\<lparr>p1_num_insn := p1_num_insn s4 + 1\<rparr>) = Some s'"
    by (auto simp: pipe_cycle_p1_def split: Option.bind_splits)
  have "p1_em s' = p1_em s4" using f [of "s4\<lparr>p1_num_insn := p1_num_insn s4 + 1\<rparr>" s'] st(5) by simp
  moreover have "p1_em s4 = p1_em (do_ex_p1 s2)" using f st(3,4) d by metis
  ultimately show ?thesis using x [of s2] w [OF st(1)] m [OF st(2)] by simp
qed

section \<open>Project 1, stalling: a stall repeats a destination\<close>

lemma turn_ws:
  assumes "pipe_cycle_ws sys s = Some s'"
  shows "em_dstE (p2_em s') = de_dstE (p2_de s)" "em_dstM (p2_em s') = de_dstM (p2_de s)"
    "em_inst (p2_em s') = de_inst (p2_de (pipeline_control_ws s))"
    "c1_stall (p2_ctl s') \<noteq> 0 \<Longrightarrow> de_dstE (p2_de s') = de_dstE (p2_de s) \<and> de_dstM (p2_de s') = de_dstM (p2_de s)"
proof -
  let ?s = "pipeline_control_ws (s\<lparr>p2_num_insn := p2_num_insn s + 1\<rparr>)"
  have c: "de_dstE (p2_de ?s) = de_dstE (p2_de s)" "de_dstM (p2_de ?s) = de_dstM (p2_de s)"
    "de_inst (p2_de ?s) = de_inst (p2_de (pipeline_control_ws s))"
    by (simp_all add: pipeline_control_ws_def Let_def)
  have r: "p2_de b = p2_de a" if "wb_reg_ws dst v a = Some b" for dst v a b
    using that by (auto simp: wb_reg_ws_def split: if_splits Option.bind_splits)
  have w: "p2_de b = p2_de a" if "do_wb_ws sys a = Some b" for a b
    using that by (auto simp: do_wb_ws_def Let_def split: if_splits Option.bind_splits dest!: r)
  have m: "p2_de b = p2_de a" if "do_mem_ws a = Some b" for a b
    using that by (auto simp: do_mem_ws_def Let_def split: if_splits Option.bind_splits)
  have x: "em_inst (p2_em (do_ex_ws a)) = de_inst (p2_de a)" "em_dstE (p2_em (do_ex_ws a)) = de_dstE (p2_de a)"
    "em_dstM (p2_em (do_ex_ws a)) = de_dstM (p2_de a)" "p2_de (do_ex_ws a) = p2_de a" for a
    by (simp_all add: do_ex_ws_def Let_def)
  have rd: "p2_em b = p2_em a" "c1_stall (p2_ctl b) = c1_stall (p2_ctl a)" if "id_read_ws a = Some b" for a b
    using that by (auto simp: id_read_ws_def Let_def split: if_splits Option.bind_splits)
  have sw: "p2_em (id_switch_ws a) = p2_em a" "c1_stall (p2_ctl (id_switch_ws a)) = c1_stall (p2_ctl a)" for a
    by (simp_all add: id_switch_ws_def Let_def)
  have dd: "de_dstE (de_decode d) = de_dstE d" "de_dstM (de_decode d) = de_dstM d" for d
    by (simp_all add: de_decode_def split: option.splits)
  have id: "p2_em b = p2_em a \<and> (c1_stall (p2_ctl b) \<noteq> 0 \<longrightarrow>
      de_dstE (p2_de b) = de_dstE (p2_de a) \<and> de_dstM (p2_de b) = de_dstM (p2_de a))" if "do_id_ws a = Some b" for a b
    using that rd sw by (auto simp: do_id_ws_def Let_def dd split: if_splits)
  have f: "p2_em b = p2_em a" "p2_de b = p2_de a" "c1_stall (p2_ctl b) = c1_stall (p2_ctl a)"
    if "do_if_ws a = Some b \<or> do_log_ws a = Some b" for a b
    using that by (auto simp: do_if_ws_def do_log_ws_def Let_def split: if_splits Option.bind_splits)
  from assms obtain s1 s2 s3 s4 where st: "do_wb_ws sys ?s = Some s1" "do_mem_ws s1 = Some s2"
    "do_id_ws (do_ex_ws s2) = Some s3" "do_if_ws s3 = Some s4" "do_log_ws s4 = Some s'"
    by (auto simp: pipe_cycle_ws_def split: Option.bind_splits)
  have e: "p2_em s' = p2_em (do_ex_ws s2)" "p2_de s2 = p2_de ?s" "p2_de s' = p2_de s3"
    "c1_stall (p2_ctl s') = c1_stall (p2_ctl s3)"
    using f st(4,5) id [OF st(3)] w [OF st(1)] m [OF st(2)] by metis+
  show "em_dstE (p2_em s') = de_dstE (p2_de s)" "em_dstM (p2_em s') = de_dstM (p2_de s)"
    "em_inst (p2_em s') = de_inst (p2_de (pipeline_control_ws s))" using e x c by simp_all
  show "c1_stall (p2_ctl s') \<noteq> 0 \<Longrightarrow> de_dstE (p2_de s') = de_dstE (p2_de s) \<and> de_dstM (p2_de s') = de_dstM (p2_de s)"
    using id [OF st(3)] e x c by simp
qed

section \<open>Properties\<close>

text \<open>
  C19: in the Project 2 pipeline, when the execute stage takes a branch, the turn fetches at
  the branch target, and in the next turn the instruction that was decoded behind the branch
  leaves the execute stage as a bubble.
\<close>

theorem pipe_squashes_wrong_path:
  assumes "pipe_cycle sys s = Some s1" "ctl_cond (p_ctl s1) AND 2 \<noteq> 0" "pipe_cycle sys s1 = Some s2"
  shows "fd_PC (p_fd s1) = em_target (p_em s1) \<and> is_nop (em_inst (p_em s2))"
  using turn_fetch [OF assms(1,2)] turn_execute [OF assms(3)] squashed [OF assms(2)] by simp

text \<open>
  C33: when a branch is taken in a turn whose decode stage stalls, the stall never ends: the
  bubble that replaces the stalled instruction does not clear the stall flag, so from then
  on every turn decodes the same bubble again.
\<close>

theorem pipe_branch_stall_livelock:
  assumes "ctl_stall (p_ctl s)" "ctl_cond (p_ctl s) AND 2 \<noteq> 0" "pipe_cycles sys (Suc n) s = Some s'"
  shows "ctl_stall (p_ctl s') \<and> is_nop (de_inst (p_de s')) \<and> de_PC (p_de s') = de_PC (p_de s)"
proof -
  from assms(3) obtain s1 where s1: "pipe_cycle sys s = Some s1" "pipe_cycles sys n s1 = Some s'"
    by (auto split: Option.bind_splits)
  have "stuck (de_PC (p_de s)) s1" using stuck_turn [OF s1(1) assms(1)] assms(2) by blast
  from stuck_turns [OF this s1(2)] show ?thesis by (simp add: stuck_def)
qed

text \<open>
  C34: the forwarding pipeline of Project 1 never squashes an instruction: it tests bit 1 of
  the flag, which holds only 0 or 1 in every reachable state, so that the instruction behind
  a taken branch executes.
\<close>

theorem p1_never_squashes:
  assumes "p1_ctl s0 = p1_ctl sim_init_p1" "pipe_cycles_p1 sys t (sim_main_start_p1 s0) = Some s"
    and "c1_stall (p1_ctl s) = 0" "pipe_cycle_p1 sys s = Some s'"
  shows "em_inst (p1_em s') = de_inst (p1_de s)"
proof -
  have "flag_ok (sim_main_start_p1 s0)"
    using assms(1) by (simp add: flag_ok_def sim_main_start_p1_def sim_init_p1_def Let_def)
  from flag_ok_cycles [OF this assms(2)] have "c1_flag (p1_ctl s) AND 2 = 0"
    by (auto simp: flag_ok_def flag_p1_cases)
  then have "p1_de (pipeline_control_p1 s) = p1_de s"
    using assms(3) by (simp add: pipeline_control_p1_def Let_def)
  with turn_execute_p1 [OF assms(4)] show ?thesis by simp
qed

text \<open>
  C35: in the stalling pipeline the turn after a stall sends a bubble through the execute stage
  with the destinations of the instruction before the stall, which went through it the turn
  before: the scoreboard bit of its destination, flipped once when it was decoded, is flipped
  twice by write-back.
\<close>

theorem ws_stall_repeats_destination:
  assumes "pipe_cycle_ws sys s = Some s1" "c1_stall (p2_ctl s1) \<noteq> 0" "pipe_cycle_ws sys s1 = Some s2"
  shows "is_nop (em_inst (p2_em s2)) \<and> em_dstE (p2_em s2) = em_dstE (p2_em s1) \<and>
    em_dstM (p2_em s2) = em_dstM (p2_em s1)"
proof -
  have "is_nop (de_inst (p2_de (pipeline_control_ws s1)))"
    using assms(2) by (simp add: pipeline_control_ws_def Let_def)
  with turn_ws [OF assms(1)] turn_ws [OF assms(3)] assms(2) show ?thesis by simp
qed

section \<open>Witnesses\<close>

lemma empty_read: "ptab m = (\<lambda>_. []) \<Longrightarrow> MEM_READ_WORD m a =
    Some (0, m\<lparr>ptab_misses := ptab_misses m + 1, ptab_accesses := ptab_accesses m + 1\<rparr>)"
  by (simp add: MEM_READ_WORD_def MEM_READ_def MEM_PAGE_def mem_translate_def Let_def
      word_of_bytes_def numeral_eq_Suc)

lemmas init_defs = init_fd_def init_de_def init_em_def init_mw_def init_wb_def zero_fd_def zero_de_def
  zero_em_def zero_mw_def zero_wb_def zero_inst_def zero_oprand_def make_nop_def mem_create_def mem_init_def
  regs_init_def cache_init_def

text \<open>A Project 2 pipeline, its cache off, with a branch in the execute stage that is taken.\<close>

definition branch_state :: pipe_t where
  "branch_state = sim_init\<lparr>p_cache := cache_init\<lparr>cache_enable := 0\<rparr>,
     p_de := (init_de zero_de)\<lparr>de_inst := \<lparr>inst_a = BNE, inst_b = 0\<rparr>, de_func := ALU_SUB, de_aluA := 1,
       de_target := 0x400100\<rparr>,
     p_ctl := \<lparr>ctl_flag = True, ctl_cmp = True, ctl_cond = 0, ctl_regs = 0, ctl_stall = False\<rparr>\<rparr>"

definition branch_taken :: "bool \<Rightarrow> pipe_t" where
  "branch_taken stall = branch_state
     \<lparr>p_mem := (p_mem branch_state)\<lparr>ptab_misses := 2, ptab_accesses := 2\<rparr>,
      p_fd := \<lparr>fd_inst = \<lparr>inst_a = 0, inst_b = 0\<rparr>, fd_PC = 0x400100, fd_NPC = 0x400100\<rparr>,
      p_de := (p_de branch_state)\<lparr>de_inst := \<lparr>inst_a = NOP, inst_b = 0\<rparr>, de_aluA := 0, de_aluB := 0\<rparr>,
      p_em := (p_em branch_state)\<lparr>em_inst := \<lparr>inst_a = BNE, inst_b = 0\<rparr>, em_valE := 1, em_target := 0x400100\<rparr>,
      p_ctl := (p_ctl branch_state)\<lparr>ctl_cond := 2, ctl_stall := stall\<rparr>,
      sim_num_insn := 1, sim_num_clk := 11\<rparr>"

lemma de_decode_0: "de_opcode de = 0 \<Longrightarrow> de_decode de = de"
  by (simp add: de_decode_def definst_of_def)

lemma id_switch_0: "de_opcode (p_de s) = 0 \<Longrightarrow>
    id_switch s = Some (s\<lparr>p_de := (p_de s)\<lparr>de_func := ALU_NOP\<rparr>\<rparr>)"
  by (simp add: id_switch_def opcode_defs)

lemma waits_for_0: "waits_for 0 r = False"
  by (simp add: waits_for_def)

lemmas turn_defs1 = pipe_cycle_def do_wb_def do_mem_def pipeline_control_def is_nop_def init_defs
  branch_taken_def branch_state_def sim_init_def Let_def opcode_defs dna_def
lemmas turn_defs2 = do_ex_def do_id_def Let_def is_nop_def opcode_defs ex_aluB_def alu_def
lemmas turn_defs3 = do_forward_def forward_def do_if_def MD_FETCH_INST_def empty_read INC_CYCLE_def dna_def Let_def

lemma branch_turn: "pipe_cycle sys branch_state = Some (branch_taken False)"
  by (simp add: turn_defs1, simp add: turn_defs2, simp add: turn_defs3)

lemma branch_taken_turn: "\<exists>s2. pipe_cycle sys (branch_taken stall) = Some s2"
  by (simp add: branch_taken_def branch_state_def sim_init_def init_defs opcode_defs dna_def,
      simp add: pipe_cycle_def pipeline_control_def init_defs opcode_defs dna_def Let_def,
      simp add: do_wb_def is_nop_def opcode_defs,
      simp add: do_mem_def is_nop_def opcode_defs INC_CYCLE_def,
      simp add: do_ex_def is_nop_def opcode_defs,
      simp add: do_id_def is_nop_def opcode_defs,
      simp add: de_decode_0 MD_SET_OPCODE_def waits_for_0 id_switch_0 id_dests_def Let_def,
      simp add: turn_defs3)

lemma branch_taken_facts: "ctl_cond (p_ctl (branch_taken stall)) AND 2 \<noteq> 0"
  "ctl_stall (p_ctl (branch_taken stall)) = stall" "fd_PC (p_fd (branch_taken stall)) = 0x400100"
  by (simp_all add: branch_taken_def branch_state_def)

lemma pipe_squashes_wrong_path_witness:
  "\<exists>s1 s2. pipe_cycle (\<lambda>_ _ _. None) branch_state = Some s1 \<and> fd_PC (p_fd s1) = 0x400100 \<and>
    pipe_cycle (\<lambda>_ _ _. None) s1 = Some s2 \<and> is_nop (em_inst (p_em s2))"
proof -
  obtain s2 where s2: "pipe_cycle (\<lambda>_ _ _. None) (branch_taken False) = Some s2"
    using branch_taken_turn by blast
  show ?thesis
    using pipe_squashes_wrong_path [OF branch_turn branch_taken_facts(1) s2] branch_turn s2
      branch_taken_facts(3) by blast
qed

lemma pipe_branch_stall_livelock_witness:
  "\<exists>s'. pipe_cycles (\<lambda>_ _ _. None) 1 (branch_taken True) = Some s' \<and> ctl_stall (p_ctl s')"
proof -
  obtain s' where s': "pipe_cycle (\<lambda>_ _ _. None) (branch_taken True) = Some s'"
    using branch_taken_turn by blast
  then have run: "pipe_cycles (\<lambda>_ _ _. None) (Suc 0) (branch_taken True) = Some s'" by simp
  have "ctl_stall (p_ctl (branch_taken True))" by (simp add: branch_taken_facts)
  from pipe_branch_stall_livelock [OF this branch_taken_facts(1) run] run show ?thesis by auto
qed

lemma p1_never_squashes_witness:
  "\<exists>s'. pipe_cycle_p1 (\<lambda>_ _ _. None) (sim_main_start_p1 sim_init_p1) = Some s' \<and> is_nop (em_inst (p1_em s'))"
proof -
  let ?s = "sim_main_start_p1 sim_init_p1"
  have "\<exists>s'. pipe_cycle_p1 (\<lambda>_ _ _. None) ?s = Some s'"
    by (simp add: pipe_cycle_p1_def do_wb_p1_def do_mem_p1_def pipeline_control_p1_def init_defs is_nop_def
        sim_main_start_p1_def sim_init_p1_def Let_def dna_def, simp add: opcode_defs do_ex_p1_def do_id_p1_def Let_def is_nop_def,
        simp add: do_forward_p1_def forward_p1_def do_if_p1_def do_log_p1_def MD_FETCH_INST_def empty_read dna_def Let_def)
  then obtain s' where s': "pipe_cycle_p1 (\<lambda>_ _ _. None) ?s = Some s'" by blast
  have run: "pipe_cycles_p1 (\<lambda>_ _ _. None) 0 ?s = Some ?s" by simp
  have st: "c1_stall (p1_ctl ?s) = 0" "is_nop (de_inst (p1_de ?s))"
    by (simp_all add: sim_main_start_p1_def sim_init_p1_def Let_def init_de_def)
  from p1_never_squashes [OF refl run st(1) s'] s' st(2) show ?thesis by auto
qed

text \<open>A stalling pipeline that waits for register 1.\<close>

definition waiting_state :: pipe2_t where
  "waiting_state = sim_init_ws\<lparr>p2_ctl := \<lparr>c1_flag = 0, c1_cond = 0, c1_regs = 2, c1_stall = 1\<rparr>,
     p2_de := (p2_de sim_init_ws)\<lparr>de_inst := \<lparr>inst_a = NOP, inst_b = 0\<rparr>, de_dstE := 7\<rparr>\<rparr>"


text \<open>The same pipeline one turn on.\<close>

definition waiting_next :: pipe2_t where
  "waiting_next = waiting_state
     \<lparr>p2_regs := (p2_regs waiting_state)\<lparr>regs_R := (\<lambda>_. 0)(0 := 0)\<rparr>,
      p2_mem := (p2_mem waiting_state)\<lparr>ptab_misses := 3, ptab_accesses := 3\<rparr>,
      p2_fd := \<lparr>fd_inst = \<lparr>inst_a = 0, inst_b = 0\<rparr>, fd_PC = 8, fd_NPC = 8\<rparr>,
      p2_em := (p2_em waiting_state)\<lparr>em_valE := alu ALU_NOP 0 0, em_dstE := 7\<rparr>,
      p2_ctl := (p2_ctl waiting_state)\<lparr>c1_regs := (2 XOR reg_bit 0) XOR reg_bit 0\<rparr>,
      p2_num_insn := 1,
      p2_log := [\<lparr>log_turn = 1,
        log_stages = [(\<lparr>inst_a = 0, inst_b = 0\<rparr>, 8), (\<lparr>inst_a = NOP, inst_b = 0\<rparr>, 0),
          (\<lparr>inst_a = NOP, inst_b = 0\<rparr>, 0), (\<lparr>inst_a = NOP, inst_b = 0\<rparr>, 0), (\<lparr>inst_a = NOP, inst_b = 0\<rparr>, 0)],
        log_values = [0, 0, 0, 0, 0, 0]\<rparr>]\<rparr>"

lemmas ws_turn_defs1 = pipe_cycle_ws_def do_wb_ws_def wb_reg_ws_def do_mem_ws_def
  pipeline_control_ws_def zero_fd_def zero_de_def zero_em_def zero_mw_def zero_wb_def zero_inst_def
  make_nop_def regs_init_def mem_create_def mem_init_def is_nop_def waiting_next_def waiting_state_def
  sim_init_ws_def Let_def dna_def opcode_defs
lemmas ws_turn_defs2 = opcode_defs do_ex_ws_def do_id_ws_def Let_def is_nop_def
lemmas ws_turn_defs3 = do_if_ws_def do_log_ws_def MD_FETCH_INST_def empty_read dna_def Let_def

lemma waiting_turn: "pipe_cycle_ws sys waiting_state = Some waiting_next"
  by (simp add: ws_turn_defs1, simp add: ws_turn_defs2, simp add: ws_turn_defs3)

lemma waiting_next_turn: "\<exists>s2. pipe_cycle_ws sys waiting_next = Some s2"
  by (simp add: ws_turn_defs1, simp add: ws_turn_defs2, simp add: ws_turn_defs3)

lemma ws_stall_repeats_destination_witness:
  "\<exists>s1 s2. pipe_cycle_ws (\<lambda>_ _ _. None) waiting_state = Some s1 \<and>
    pipe_cycle_ws (\<lambda>_ _ _. None) s1 = Some s2 \<and> em_dstE (p2_em s2) = em_dstE (p2_em s1)"
proof -
  obtain s2 where s2: "pipe_cycle_ws (\<lambda>_ _ _. None) waiting_next = Some s2"
    using waiting_next_turn by blast
  have "c1_stall (p2_ctl waiting_next) \<noteq> 0" by (simp add: waiting_next_def waiting_state_def)
  from ws_stall_repeats_destination [OF waiting_turn this s2] s2 waiting_turn show ?thesis by blast
qed

end
