(* ===== verification/Links.thy ===== *)
theory Links
  imports Prelude
begin

text \<open>
  Linked structures as the simulator builds them: records at array positions joined by
  next pointers that may be null.  A segment is the list of positions a pointer leads
  through; a doubly linked list is a segment in both directions.  The loops of the C code
  that walk such lists are \<open>chain_find\<close> and \<open>walk_prev\<close>, which do not end on a cycle.
\<close>

named_theorems link_simps \<open>rewriting segments of linked lists\<close>

section \<open>Segments\<close>

fun seg :: "('p \<Rightarrow> 'p option) \<Rightarrow> 'p option \<Rightarrow> 'p list \<Rightarrow> 'p option \<Rightarrow> bool" where
  "seg nx p [] q \<longleftrightarrow> p = q"
| "seg nx p (x # xs) q \<longleftrightarrow> p = Some x \<and> seg nx (nx x) xs q"

abbreviation chain :: "('p \<Rightarrow> 'p option) \<Rightarrow> 'p option \<Rightarrow> 'p list \<Rightarrow> bool" where
  "chain nx p xs \<equiv> seg nx p xs None"

lemma seg_append [link_simps]: "seg nx p (xs @ ys) q \<longleftrightarrow> (\<exists>r. seg nx p xs r \<and> seg nx r ys q)"
  by (induction xs arbitrary: p) auto

lemma seg_snoc: "seg nx p (xs @ [x]) q \<longleftrightarrow> seg nx p xs (Some x) \<and> nx x = q"
  by (auto simp: seg_append)

lemma seg_frame: "(\<And>x. x \<in> set xs \<Longrightarrow> nx' x = nx x) \<Longrightarrow> seg nx' p xs q \<longleftrightarrow> seg nx p xs q"
  by (induction xs arbitrary: p) auto

lemma seg_upd [link_simps]: "x \<notin> set xs \<Longrightarrow> seg (nx(x := v)) p xs q \<longleftrightarrow> seg nx p xs q"
  by (rule seg_frame) auto

lemma seg_start: "seg nx p xs q \<Longrightarrow> p = (case xs of [] \<Rightarrow> q | x # _ \<Rightarrow> Some x)"
  by (cases xs) auto

lemma chain_unique: "chain nx p xs \<Longrightarrow> chain nx p ys \<Longrightarrow> xs = ys"
proof (induction xs arbitrary: p ys)
  case Nil
  then show ?case by (cases ys) auto
next
  case (Cons x xs)
  then show ?case by (cases ys) auto
qed

section \<open>Walking a list\<close>

text \<open>The loop \<open>for (p = head; p; p = p->next) if (P(p)) break;\<close>.\<close>

partial_function (option) chain_find ::
    "('p \<Rightarrow> 'p option) \<Rightarrow> ('p \<Rightarrow> bool) \<Rightarrow> 'p option \<Rightarrow> 'p option option" where
  "chain_find nx P p =
     (case p of None \<Rightarrow> Some None
      | Some x \<Rightarrow> if P x then Some (Some x) else chain_find nx P (nx x))"

lemma chain_find_eq: "chain nx p xs \<Longrightarrow> chain_find nx P p = Some (List.find P xs)"
proof (induction xs arbitrary: p)
  case Nil
  then show ?case by (subst chain_find.simps) simp
next
  case (Cons x xs)
  then show ?case by (subst chain_find.simps) simp
qed

text \<open>
  The loop \<open>for (prev=NULL, ent=head; ent; prev=ent, ent=ent->next) if (P(ent)) break;\<close>:
  the pointers it ends with.
\<close>

partial_function (option) walk_prev ::
    "('p \<Rightarrow> 'p option) \<Rightarrow> ('p \<Rightarrow> bool) \<Rightarrow> 'p option \<Rightarrow> 'p option \<Rightarrow> ('p option \<times> 'p option) option" where
  "walk_prev nx P prev ent =
     (case ent of None \<Rightarrow> Some (prev, None)
      | Some x \<Rightarrow> if P x then Some (prev, Some x) else walk_prev nx P (Some x) (nx x))"

definition last_or :: "'p option \<Rightarrow> 'p list \<Rightarrow> 'p option" where
  "last_or p xs = (if xs = [] then p else Some (last xs))"

lemma walk_prev_found:
  assumes "seg nx p xs (Some y)" "\<And>x. x \<in> set xs \<Longrightarrow> \<not> P x" "P y"
  shows "walk_prev nx P prev p = Some (last_or prev xs, Some y)"
  using assms
proof (induction xs arbitrary: p prev)
  case Nil
  then show ?case by (subst walk_prev.simps) (simp add: last_or_def)
next
  case (Cons x xs)
  have "walk_prev nx P (Some x) (nx x) = Some (last_or (Some x) xs, Some y)"
    using Cons.prems by (intro Cons.IH) auto
  then show ?case using Cons.prems by (subst walk_prev.simps) (auto simp: last_or_def)
qed

lemma walk_prev_none:
  assumes "chain nx p xs" "\<And>x. x \<in> set xs \<Longrightarrow> \<not> P x"
  shows "walk_prev nx P prev p = Some (last_or prev xs, None)"
  using assms
proof (induction xs arbitrary: p prev)
  case Nil
  then show ?case by (subst walk_prev.simps) (simp add: last_or_def)
next
  case (Cons x xs)
  have "walk_prev nx P (Some x) (nx x) = Some (last_or (Some x) xs, None)"
    using Cons.prems by (intro Cons.IH) auto
  then show ?case using Cons.prems by (subst walk_prev.simps) (auto simp: last_or_def)
qed

section \<open>Unlinking from a singly linked list\<close>

lemma seg_redirect_last:
  assumes "seg nx p (xs @ [x]) q" "x \<notin> set xs"
  shows "seg (nx(x := r)) p (xs @ [x]) r"
  using assms by (auto simp: seg_append seg_upd)

lemma chain_unlink_first: "chain nx (Some y) (y # zs) \<Longrightarrow> chain nx (nx y) zs"
  by simp

lemma chain_unlink_later:
  assumes "chain nx p (xs @ x # y # zs)" "distinct (xs @ x # y # zs)"
  shows "chain (nx(x := nx y)) p (xs @ x # zs)"
  using assms by (auto simp: seg_append seg_upd)

section \<open>Doubly linked lists\<close>

definition dlist :: "('p \<Rightarrow> 'p option) \<Rightarrow> ('p \<Rightarrow> 'p option) \<Rightarrow> 'p option \<Rightarrow> 'p option \<Rightarrow> 'p list \<Rightarrow> bool" where
  "dlist nx pv hp tp xs \<longleftrightarrow> distinct xs \<and> chain nx hp xs \<and> chain pv tp (rev xs)"

lemma dlist_rev: "dlist nx pv hp tp xs \<longleftrightarrow> dlist pv nx tp hp (rev xs)"
  by (auto simp: dlist_def)

lemma dlist_cases:
  assumes "dlist nx pv hp tp xs" "w \<in> set xs"
  obtains (single) "xs = [w]" "pv w = None" "nx w = None" "hp = Some w" "tp = Some w"
  | (first) z zs where "xs = w # z # zs" "pv w = None" "nx w = Some z" "hp = Some w" "tp \<noteq> Some w"
  | (last) y ys where "xs = ys @ [y, w]" "pv w = Some y" "nx w = None" "hp \<noteq> Some w" "tp = Some w"
  | (middle) y ys z zs where "xs = ys @ y # w # z # zs" "pv w = Some y" "nx w = Some z"
      "hp \<noteq> Some w" "tp \<noteq> Some w"
proof -
  obtain as bs where xs: "xs = as @ w # bs" using assms(2) by (auto simp: in_set_conv_decomp)
  from assms(1) have d: "distinct xs" and f: "chain nx hp xs" and b: "chain pv tp (rev xs)"
    by (simp_all add: dlist_def)
  have h: "hp = Some (hd xs)" using f xs by (cases as) auto
  have t: "tp = Some (last xs)" using seg_start [OF b] xs by (cases bs rule: rev_cases) auto
  have n: "nx w = (case bs of [] \<Rightarrow> None | z # _ \<Rightarrow> Some z)"
    using f seg_start by (fastforce simp: xs seg_append)
  have p: "pv w = (case rev as of [] \<Rightarrow> None | y # _ \<Rightarrow> Some y)"
    using b seg_start by (fastforce simp: xs seg_append)
  show thesis
  proof (cases as rule: rev_cases)
    case Nil
    show ?thesis
    proof (cases bs)
      case Nil
      then show ?thesis using \<open>as = []\<close> xs h t n p single by simp
    next
      case (Cons z zs)
      have "w \<noteq> last bs" using d Cons \<open>as = []\<close> xs by auto
      then show ?thesis using \<open>as = []\<close> Cons xs h t n p by (intro first [of z zs]) auto
    qed
  next
    case (snoc ys y)
    have "hp \<noteq> Some w" using snoc xs d h by (cases ys) auto
    show ?thesis
    proof (cases bs)
      case Nil
      then show ?thesis using snoc xs \<open>hp \<noteq> Some w\<close> t n p by (intro last [of ys y]) auto
    next
      case (Cons z zs)
      have "w \<noteq> last bs" using d Cons xs by auto
      then show ?thesis using snoc Cons xs \<open>hp \<noteq> Some w\<close> t n p by (intro middle [of ys y z zs]) auto
    qed
  qed
qed

lemma dlist_nonempty:
  assumes "dlist nx pv hp tp xs" "xs \<noteq> []"
  shows "hp = Some (hd xs)" "tp = Some (last xs)"
  using assms seg_start [of nx hp xs None] seg_start [of pv tp "rev xs" None]
  by (auto simp: dlist_def hd_rev split: list.splits)

text \<open>Linking in at the front, and unlinking at the front and in the middle; reversed, at the end.\<close>

lemma dlist_push:
  assumes "dlist nx pv (Some x) tp (x # ys)" "w \<notin> set (x # ys)"
  shows "dlist (nx(w := Some x)) (pv(w := None, x := Some w)) (Some w) tp (w # x # ys)"
proof -
  from assms have d: "distinct (w # x # ys)" by (auto simp: dlist_def)
  have f: "chain (nx(w := Some x)) (Some x) (x # ys)"
    using assms by (subst seg_upd) (auto simp: dlist_def)
  have "seg pv tp (rev ys) (Some x)" using assms by (auto simp: dlist_def seg_append)
  then have "seg (pv(w := None, x := Some w)) tp (rev ys) (Some x)"
    by (subst seg_frame [where nx = pv]) (use d in auto)
  then show ?thesis using f d by (auto simp: dlist_def seg_append)
qed

lemma dlist_append:
  assumes "dlist nx pv hp (Some x) (ys @ [x])" "w \<notin> set (ys @ [x])"
  shows "dlist (nx(w := None, x := Some w)) (pv(w := Some x)) hp (Some w) (ys @ [x, w])"
  using dlist_push [of pv nx x hp "rev ys" w] assms by (simp add: dlist_rev [of _ _ hp])

lemma dlist_pop_first:
  assumes "dlist nx pv hp tp (w # z # zs)"
  shows "dlist nx (pv(z := None)) (Some z) tp (z # zs)"
proof -
  have "seg pv tp (rev zs) (Some z)" using assms by (auto simp: dlist_def seg_append)
  then have "seg (pv(z := None)) tp (rev zs) (Some z)"
    by (subst seg_frame [where nx = pv]) (use assms in \<open>auto simp: dlist_def\<close>)
  then show ?thesis using assms by (auto simp: dlist_def seg_append)
qed

lemma dlist_pop_last:
  assumes "dlist nx pv hp tp (ys @ [y, w])"
  shows "dlist (nx(y := None)) pv hp (Some y) (ys @ [y])"
  using dlist_pop_first [of pv nx tp hp w y "rev ys"] assms by (simp add: dlist_rev [of _ _ hp])

lemma dlist_pop_middle:
  assumes "dlist nx pv hp tp (ys @ y # w # z # zs)"
  shows "dlist (nx(y := Some z)) (pv(z := Some y)) hp tp (ys @ y # z # zs)"
proof -
  from assms have d: "distinct (ys @ y # w # z # zs)"
    and f: "seg nx hp ys (Some y)" "chain nx (Some z) (z # zs)"
    and b: "seg pv tp (rev zs) (Some z)" "chain pv (Some y) (y # rev ys)"
    by (auto simp: dlist_def seg_append)
  have "seg (nx(y := Some z)) hp ys (Some y)" "chain (nx(y := Some z)) (Some z) (z # zs)"
    using f d by (auto simp: seg_upd)
  moreover have "seg (pv(z := Some y)) tp (rev zs) (Some z)" "chain (pv(z := Some y)) (Some y) (y # rev ys)"
    using b d by (auto simp: seg_upd)
  ultimately show ?thesis using d by (auto simp: dlist_def seg_append)
qed

end
