(* ===== verification/Cache.thy ===== *)
theory Cache
  imports Memory Links
begin

text \<open>
  The general cache module of the simulator (cache.c): sets of blocks kept in a doubly
  linked list in replacement order, with a hash table of singly linked chains per set when
  the cache is highly associative.  A block is named by its set and its position in the
  set's block array, and the pointers between blocks are such positions or null.  The
  next level of the memory hierarchy is the block access function the cache is created
  with, a parameter here as there, which threads the state of that level.
\<close>

section \<open>Powers of two (misc.c)\<close>

fun log2_loop :: "nat \<Rightarrow> nat" where
  "log2_loop n = (if n div 2 = 0 then 0 else Suc (log2_loop (n div 2)))"

declare log2_loop.simps [simp del]

definition log_base2 :: "word_t \<Rightarrow> word_t option" where
  "log_base2 n = (if sint n \<le> 0 \<or> n AND (n - 1) \<noteq> 0 then None else Some (of_nat (log2_loop (unat n))))"

section \<open>Data\<close>

type_synonym tick_t = "64 word"

datatype cache_policy = LRU | Random | FIFO

definition CACHE_BLK_VALID :: word_t where "CACHE_BLK_VALID = 1"
definition CACHE_BLK_DIRTY :: word_t where "CACHE_BLK_DIRTY = 2"

record cache_blk_t =
  way_next :: "nat option"
  way_prev :: "nat option"
  hash_next :: "nat option"
  blk_tag :: md_addr_t
  blk_status :: word_t
  blk_ready :: tick_t
  blk_user :: "byte_t list option"
  blk_data :: "byte_t list"

record cset_t =
  set_hash :: "nat \<Rightarrow> nat option"
  way_head :: "nat option"
  way_tail :: "nat option"
  set_blks :: "nat \<Rightarrow> cache_blk_t"

record gcache_t =
  cp_name :: string
  cp_nsets :: word_t
  cp_bsize :: word_t
  cp_balloc :: word_t
  cp_usize :: word_t
  cp_assoc :: word_t
  cp_policy :: cache_policy
  cp_hit_latency :: word_t
  cp_hsize :: word_t
  cp_blk_mask :: md_addr_t
  cp_set_shift :: word_t
  cp_set_mask :: md_addr_t
  cp_tag_shift :: word_t
  cp_tag_mask :: md_addr_t
  cp_tagset_mask :: md_addr_t
  cp_bus_free :: tick_t
  cp_hits :: counter_t
  cp_misses :: counter_t
  cp_replacements :: counter_t
  cp_writebacks :: counter_t
  cp_invalidations :: counter_t
  cp_last_tagset :: md_addr_t
  cp_last_blk :: "(nat \<times> nat) option"
  cp_sets :: "nat \<Rightarrow> cset_t"

text \<open>
  A block access function: the command, the block address and size, the block and the time
  give the latency, what the block's data and user data become, and the next state of the
  level below; \<open>None\<close> when that level ends the simulation.
\<close>

type_synonym 'm blk_access = "mem_cmd \<Rightarrow> md_addr_t \<Rightarrow> word_t \<Rightarrow> cache_blk_t \<Rightarrow> tick_t \<Rightarrow> 'm \<Rightarrow>
  (word_t \<times> byte_t list \<times> byte_t list option \<times> 'm) option"

section \<open>Address fields\<close>

definition CACHE_TAG :: "gcache_t \<Rightarrow> md_addr_t \<Rightarrow> md_addr_t" where
  "CACHE_TAG cp addr = c_shr addr (cp_tag_shift cp)"
definition CACHE_SET :: "gcache_t \<Rightarrow> md_addr_t \<Rightarrow> md_addr_t" where
  "CACHE_SET cp addr = c_shr addr (cp_set_shift cp) AND cp_set_mask cp"
definition CACHE_BLK :: "gcache_t \<Rightarrow> md_addr_t \<Rightarrow> md_addr_t" where
  "CACHE_BLK cp addr = addr AND cp_blk_mask cp"
definition CACHE_TAGSET :: "gcache_t \<Rightarrow> md_addr_t \<Rightarrow> md_addr_t" where
  "CACHE_TAGSET cp addr = addr AND cp_tagset_mask cp"
definition CACHE_BADDR :: "gcache_t \<Rightarrow> md_addr_t \<Rightarrow> md_addr_t" where
  "CACHE_BADDR cp addr = addr AND NOT (cp_blk_mask cp)"
definition CACHE_MK_BADDR :: "gcache_t \<Rightarrow> md_addr_t \<Rightarrow> md_addr_t \<Rightarrow> md_addr_t" where
  "CACHE_MK_BADDR cp tag st = c_shl tag (cp_tag_shift cp) OR c_shl st (cp_set_shift cp)"
definition CACHE_HASH :: "gcache_t \<Rightarrow> md_addr_t \<Rightarrow> nat" where
  "CACHE_HASH cp key =
     unat ((drop_bit 24 key XOR drop_bit 16 key XOR drop_bit 8 key XOR key) AND (cp_hsize cp - 1))"
definition CACHE_HIGHLY_ASSOC :: "gcache_t \<Rightarrow> bool" where
  "CACHE_HIGHLY_ASSOC cp \<longleftrightarrow> sint (cp_assoc cp) > 4"

definition BOUND_POS :: "tick_t \<Rightarrow> word_t" where
  "BOUND_POS n = (if sint n < 0 then 0 else if sint n < 2147483647 then ucast n else 2147483647)"

text \<open>\<open>MAX\<close> on times, and a latency (an \<open>int\<close>) added to a time.\<close>

definition max_tick :: "tick_t \<Rightarrow> tick_t \<Rightarrow> tick_t" where
  "max_tick a b = (if sint a < sint b then b else a)"

definition tick_plus :: "tick_t \<Rightarrow> word_t \<Rightarrow> tick_t" where
  "tick_plus now lat = now + scast lat"

section \<open>Copying to and from a block\<close>

text \<open>
  \<open>CACHE_BCOPY\<close>: one, two or four bytes at once, else word by word; a read gives the bytes
  for the caller's buffer, a write the new block data.
\<close>

fun copy_words :: "nat \<Rightarrow> byte_t list \<Rightarrow> byte_t list \<Rightarrow> nat \<Rightarrow> byte_t list" where
  "copy_words 0 from to i = to"
| "copy_words (Suc n) from to i =
     copy_words n (drop 4 from) (take i to @ take 4 from @ drop (i + 4) to) (i + 4)"

definition put_bytes :: "byte_t list \<Rightarrow> nat \<Rightarrow> byte_t list \<Rightarrow> nat \<Rightarrow> byte_t list" where
  "put_bytes from n to i =
     (if n = 1 \<or> n = 2 \<or> n = 4 then take i to @ take n from @ drop (i + n) to
      else copy_words (n div 4) from to i)"

definition CACHE_BCOPY :: "mem_cmd \<Rightarrow> byte_t list \<Rightarrow> md_addr_t \<Rightarrow> byte_t list \<Rightarrow> word_t \<Rightarrow>
    byte_t list \<times> byte_t list" where
  "CACHE_BCOPY cmd data bofs p nbytes =
     (case cmd of
        Read \<Rightarrow> (data, put_bytes (drop (unat bofs) data) (unat nbytes) p 0)
      | Write \<Rightarrow> (put_bytes p (unat nbytes) data (unat bofs), p))"

section \<open>The lists of a set\<close>

definition upd_blk :: "cset_t \<Rightarrow> nat \<Rightarrow> (cache_blk_t \<Rightarrow> cache_blk_t) \<Rightarrow> cset_t" where
  "upd_blk st w f = st\<lparr>set_blks := (set_blks st)(w := f (set_blks st w))\<rparr>"

definition unlink_htab_ent :: "gcache_t \<Rightarrow> cset_t \<Rightarrow> nat \<Rightarrow> cset_t option" where
  "unlink_htab_ent cp st blk =
     (let index = CACHE_HASH cp (blk_tag (set_blks st blk)) in do {
        (prev, ent) \<leftarrow> walk_prev (\<lambda>b. hash_next (set_blks st b)) (\<lambda>b. b = blk) None (set_hash st index);
        case ent of None \<Rightarrow> None
        | Some e \<Rightarrow>
            (let nx = hash_next (set_blks st e);
                 set1 = (case prev of
                           None \<Rightarrow> st\<lparr>set_hash := (set_hash st)(index := nx)\<rparr>
                         | Some p \<Rightarrow> upd_blk st p (\<lambda>b. b\<lparr>hash_next := nx\<rparr>))
             in Some (upd_blk set1 e (\<lambda>b. b\<lparr>hash_next := None\<rparr>))) })"

definition link_htab_ent :: "gcache_t \<Rightarrow> cset_t \<Rightarrow> nat \<Rightarrow> cset_t" where
  "link_htab_ent cp st blk =
     (let index = CACHE_HASH cp (blk_tag (set_blks st blk));
          set1 = upd_blk st blk (\<lambda>b. b\<lparr>hash_next := set_hash st index\<rparr>)
      in set1\<lparr>set_hash := (set_hash set1)(index := Some blk)\<rparr>)"

datatype list_loc_t = Head | Tail

text \<open>The two halves of \<open>update_way_list()\<close>: unlinking, and linking back at an end.\<close>

definition link_way_list :: "cset_t \<Rightarrow> nat \<Rightarrow> list_loc_t \<Rightarrow> cset_t option" where
  "link_way_list st blk loc =
     (case loc of
        Head \<Rightarrow>
          (let set1 = upd_blk st blk (\<lambda>b. b\<lparr>way_next := way_head st, way_prev := None\<rparr>)
           in case way_head set1 of None \<Rightarrow> None
              | Some h \<Rightarrow> Some ((upd_blk set1 h (\<lambda>b. b\<lparr>way_prev := Some blk\<rparr>))\<lparr>way_head := Some blk\<rparr>))
      | Tail \<Rightarrow>
          (let set1 = upd_blk st blk (\<lambda>b. b\<lparr>way_prev := way_tail st, way_next := None\<rparr>)
           in case way_tail set1 of None \<Rightarrow> None
              | Some t \<Rightarrow> Some ((upd_blk set1 t (\<lambda>b. b\<lparr>way_next := Some blk\<rparr>))\<lparr>way_tail := Some blk\<rparr>)))"

definition update_way_list :: "cset_t \<Rightarrow> nat \<Rightarrow> list_loc_t \<Rightarrow> cset_t option" where
  "update_way_list st blk loc =
     (case (way_prev (set_blks st blk), way_next (set_blks st blk)) of
        (None, None) \<Rightarrow>
          if way_head st = Some blk \<and> way_tail st = Some blk then Some st else None
      | (None, Some n) \<Rightarrow>
          if way_head st = Some blk \<and> way_tail st \<noteq> Some blk then
            if loc = Head then Some st
            else link_way_list (upd_blk (st\<lparr>way_head := Some n\<rparr>) n (\<lambda>b. b\<lparr>way_prev := None\<rparr>)) blk loc
          else None
      | (Some p, None) \<Rightarrow>
          if way_head st \<noteq> Some blk \<and> way_tail st = Some blk then
            if loc = Tail then Some st
            else link_way_list (upd_blk (st\<lparr>way_tail := Some p\<rparr>) p (\<lambda>b. b\<lparr>way_next := None\<rparr>)) blk loc
          else None
      | (Some p, Some n) \<Rightarrow>
          if way_head st \<noteq> Some blk \<and> way_tail st \<noteq> Some blk then
            link_way_list (upd_blk (upd_blk st p (\<lambda>b. b\<lparr>way_next := Some n\<rparr>)) n (\<lambda>b. b\<lparr>way_prev := Some p\<rparr>))
              blk loc
          else None)"

section \<open>Creation\<close>

definition new_blk :: "word_t \<Rightarrow> word_t \<Rightarrow> word_t \<Rightarrow> cache_blk_t" where
  "new_blk bsize balloc usize =
     \<lparr>way_next = None, way_prev = None, hash_next = None, blk_tag = 0, blk_status = 0, blk_ready = 0,
      blk_user = (if usize \<noteq> 0 then Some (replicate (unat usize) 0) else None),
      blk_data = (if balloc \<noteq> 0 then replicate (unat bsize) 0 else [])\<rparr>"

text \<open>Linking block \<open>j\<close> of a set at the head of its way list.\<close>

definition create_blk :: "gcache_t \<Rightarrow> nat \<Rightarrow> cset_t \<Rightarrow> cset_t" where
  "create_blk cp j st =
     (let set1 = (if cp_hsize cp \<noteq> 0 then link_htab_ent cp st j else st);
          set2 = upd_blk set1 j (\<lambda>b. b\<lparr>way_next := way_head set1, way_prev := None\<rparr>);
          set3 = (case way_head set2 of None \<Rightarrow> set2 | Some h \<Rightarrow> upd_blk set2 h (\<lambda>b. b\<lparr>way_prev := Some j\<rparr>));
          set4 = set3\<lparr>way_head := Some j\<rparr>
      in if way_tail set4 = None then set4\<lparr>way_tail := Some j\<rparr> else set4)"

definition create_set :: "gcache_t \<Rightarrow> cset_t" where
  "create_set cp =
     fold (create_blk cp) [0..<unat (cp_assoc cp)]
       \<lparr>set_hash = (\<lambda>_. None), way_head = None, way_tail = None,
        set_blks = (\<lambda>_. new_blk (cp_bsize cp) (cp_balloc cp) (cp_usize cp))\<rparr>"

definition cache_create :: "string \<Rightarrow> word_t \<Rightarrow> word_t \<Rightarrow> word_t \<Rightarrow> word_t \<Rightarrow> word_t \<Rightarrow>
    cache_policy \<Rightarrow> word_t \<Rightarrow> gcache_t option" where
  "cache_create name nsets bsize balloc usize assoc policy hit_latency =
     (if sint nsets \<le> 0 \<or> nsets AND (nsets - 1) \<noteq> 0 \<or> sint bsize < 8 \<or> bsize AND (bsize - 1) \<noteq> 0
         \<or> sint usize < 0 \<or> sint assoc \<le> 0 \<or> assoc AND (assoc - 1) \<noteq> 0
      then None
      else do {
        set_shift \<leftarrow> log_base2 bsize;
        set_bits \<leftarrow> log_base2 nsets;
        (let tag_shift = set_shift + set_bits;
             cp = \<lparr>cp_name = name, cp_nsets = nsets, cp_bsize = bsize, cp_balloc = balloc, cp_usize = usize,
                   cp_assoc = assoc, cp_policy = policy, cp_hit_latency = hit_latency,
                   cp_hsize = (if sint assoc > 4 then signed_drop_bit 2 assoc else 0),
                   cp_blk_mask = bsize - 1, cp_set_shift = set_shift, cp_set_mask = nsets - 1,
                   cp_tag_shift = tag_shift, cp_tag_mask = c_shl 1 (32 - tag_shift) - 1,
                   cp_tagset_mask = NOT (bsize - 1), cp_bus_free = 0, cp_hits = 0, cp_misses = 0,
                   cp_replacements = 0, cp_writebacks = 0, cp_invalidations = 0,
                   cp_last_tagset = 0, cp_last_blk = None,
                   cp_sets = (\<lambda>_. \<lparr>set_hash = (\<lambda>_. None), way_head = None, way_tail = None,
                     set_blks = (\<lambda>_. new_blk bsize balloc usize)\<rparr>)\<rparr>
         in Some (cp\<lparr>cp_sets := (\<lambda>_. create_set cp)\<rparr>)) })"

definition cache_char2policy :: "char \<Rightarrow> cache_policy option" where
  "cache_char2policy c =
     (if c = CHR ''l'' then Some LRU else if c = CHR ''r'' then Some Random
      else if c = CHR ''f'' then Some FIFO else None)"

section \<open>Access\<close>

definition blk_holds :: "cset_t \<Rightarrow> md_addr_t \<Rightarrow> nat \<Rightarrow> bool" where
  "blk_holds st tag b \<longleftrightarrow>
     blk_tag (set_blks st b) = tag \<and> blk_status (set_blks st b) AND CACHE_BLK_VALID \<noteq> 0"

text \<open>The search that \<open>cache_access()\<close>, \<open>cache_probe()\<close> and \<open>cache_flush_addr()\<close> share.\<close>

definition find_blk :: "gcache_t \<Rightarrow> md_addr_t \<Rightarrow> md_addr_t \<Rightarrow> nat option option" where
  "find_blk cp st tag =
     (let s = cp_sets cp (unat st) in
      if cp_hsize cp \<noteq> 0
      then chain_find (\<lambda>b. hash_next (set_blks s b)) (blk_holds s tag) (set_hash s (CACHE_HASH cp tag))
      else chain_find (\<lambda>b. way_next (set_blks s b)) (blk_holds s tag) (way_head s))"

definition cache_probe :: "gcache_t \<Rightarrow> md_addr_t \<Rightarrow> bool option" where
  "cache_probe cp addr = do {
     b \<leftarrow> find_blk cp (CACHE_SET cp addr) (CACHE_TAG cp addr);
     Some (b \<noteq> None) }"

definition put_set :: "gcache_t \<Rightarrow> md_addr_t \<Rightarrow> cset_t \<Rightarrow> gcache_t" where
  "put_set cp st s = cp\<lparr>cp_sets := (cp_sets cp)(unat st := s)\<rparr>"

text \<open>
  What an access gives back besides the cache and the level below: the latency, the
  caller's buffer, the block's user data and the address of a replaced block.
\<close>

record access_t =
  acc_lat :: word_t
  acc_buf :: "byte_t list"
  acc_udata :: "byte_t list option"
  acc_repl :: md_addr_t

text \<open>The block copy and the dirty bit, as on every path.\<close>

definition touch_data :: "gcache_t \<Rightarrow> mem_cmd \<Rightarrow> md_addr_t \<Rightarrow> byte_t list \<Rightarrow> word_t \<Rightarrow> cache_blk_t \<Rightarrow>
    cache_blk_t \<times> byte_t list" where
  "touch_data cp cmd bofs p nbytes b =
     (let (data, buf) = (if cp_balloc cp \<noteq> 0 then CACHE_BCOPY cmd (blk_data b) bofs p nbytes
                         else (blk_data b, p));
          b1 = b\<lparr>blk_data := data\<rparr>
      in (if cmd = Write then b1\<lparr>blk_status := blk_status b1 OR CACHE_BLK_DIRTY\<rparr> else b1, buf))"

definition hit_latency :: "gcache_t \<Rightarrow> cache_blk_t \<Rightarrow> tick_t \<Rightarrow> word_t" where
  "hit_latency cp b now = ucast (max_tick (ucast (cp_hit_latency cp)) (blk_ready b - now))"

text \<open>The label \<open>cache_fast_hit\<close>: the block that hit last.\<close>

definition cache_fast_hit :: "gcache_t \<Rightarrow> mem_cmd \<Rightarrow> md_addr_t \<Rightarrow> byte_t list \<Rightarrow> word_t \<Rightarrow> tick_t \<Rightarrow>
    (access_t \<times> gcache_t) option" where
  "cache_fast_hit cp cmd addr p nbytes now =
     (case cp_last_blk cp of None \<Rightarrow> None
      | Some (i, w) \<Rightarrow>
          (let s = cp_sets cp i;
               (b, buf) = touch_data cp cmd (CACHE_BLK cp addr) p nbytes (set_blks s w);
               cp1 = cp\<lparr>cp_hits := cp_hits cp + 1,
                        cp_sets := (cp_sets cp)(i := upd_blk s w (\<lambda>_. b)),
                        cp_last_tagset := CACHE_TAGSET cp addr, cp_last_blk := Some (i, w)\<rparr>
           in Some (\<lparr>acc_lat = hit_latency cp b now, acc_buf = buf, acc_udata = blk_user b, acc_repl = 0\<rparr>,
                    cp1)))"

text \<open>The label \<open>cache_hit\<close>.\<close>

definition cache_hit :: "gcache_t \<Rightarrow> mem_cmd \<Rightarrow> md_addr_t \<Rightarrow> byte_t list \<Rightarrow> word_t \<Rightarrow> tick_t \<Rightarrow> nat \<Rightarrow>
    (access_t \<times> gcache_t) option" where
  "cache_hit cp cmd addr p nbytes now w =
     (let st = CACHE_SET cp addr; s = cp_sets cp (unat st);
          (b, buf) = touch_data cp cmd (CACHE_BLK cp addr) p nbytes (set_blks s w);
          s1 = upd_blk s w (\<lambda>_. b)
      in do {
        s2 \<leftarrow> (if way_prev b \<noteq> None \<and> cp_policy cp = LRU then update_way_list s1 w Head else Some s1);
        Some (\<lparr>acc_lat = hit_latency cp b now, acc_buf = buf, acc_udata = blk_user b, acc_repl = 0\<rparr>,
              (put_set cp st s2)\<lparr>cp_hits := cp_hits cp + 1,
                cp_last_tagset := CACHE_TAGSET cp addr, cp_last_blk := Some (unat st, w)\<rparr>) })"

text \<open>The block a miss replaces, \<open>rnd\<close> being what \<open>myrand()\<close> returned.\<close>

definition select_repl :: "gcache_t \<Rightarrow> word_t \<Rightarrow> cset_t \<Rightarrow> (nat \<times> cset_t) option" where
  "select_repl cp rnd s =
     (if cp_policy cp = Random then Some (unat (rnd AND (cp_assoc cp - 1)), s)
      else do {
        w \<leftarrow> way_tail s;
        s1 \<leftarrow> update_way_list s w Head;
        Some (w, s1) })"

text \<open>
  Writing back the block a miss replaces: the latency so far, the address of the replaced
  block, the cache with its bus and counters, the block's new contents and the level below.
\<close>

definition evict :: "'m blk_access \<Rightarrow> gcache_t \<Rightarrow> md_addr_t \<Rightarrow> cache_blk_t \<Rightarrow> tick_t \<Rightarrow> 'm \<Rightarrow>
    (word_t \<times> md_addr_t \<times> gcache_t \<times> cache_blk_t \<times> 'm) option" where
  "evict fn cp st b now m =
     (if blk_status b AND CACHE_BLK_VALID \<noteq> 0 then
        (let lat1 = BOUND_POS (blk_ready b - now);
             lat2 = lat1 + BOUND_POS (cp_bus_free cp - tick_plus now lat1);
             cp1 = cp\<lparr>cp_replacements := cp_replacements cp + 1,
                      cp_bus_free := max_tick (cp_bus_free cp) (tick_plus now lat2) + 1\<rparr>;
             baddr = CACHE_MK_BADDR cp (blk_tag b) st
         in if blk_status b AND CACHE_BLK_DIRTY \<noteq> 0 then do {
              (l, data, user, m1) \<leftarrow> fn Write baddr (cp_bsize cp) b (tick_plus now lat2) m;
              Some (lat2 + l, baddr, cp1\<lparr>cp_writebacks := cp_writebacks cp1 + 1\<rparr>,
                    b\<lparr>blk_data := data, blk_user := user\<rparr>, m1) }
            else Some (lat2, baddr, cp1, b, m))
      else Some (0, 0, cp, b, m))"

definition cache_miss :: "'m blk_access \<Rightarrow> gcache_t \<Rightarrow> mem_cmd \<Rightarrow> md_addr_t \<Rightarrow> byte_t list \<Rightarrow> word_t \<Rightarrow>
    tick_t \<Rightarrow> word_t \<Rightarrow> 'm \<Rightarrow> (access_t \<times> gcache_t \<times> 'm) option" where
  "cache_miss fn cp cmd addr p nbytes now rnd m =
     (let st = CACHE_SET cp addr; tag = CACHE_TAG cp addr in do {
        (w, s1) \<leftarrow> select_repl cp rnd (cp_sets cp (unat st));
        s2 \<leftarrow> (if cp_hsize cp \<noteq> 0 then unlink_htab_ent cp s1 w else Some s1);
        (lat1, repl, cp1, b1, m1) \<leftarrow>
          evict fn (cp\<lparr>cp_misses := cp_misses cp + 1, cp_last_tagset := 0, cp_last_blk := None\<rparr>)
            st (set_blks s2 w) now m;
        (let b2 = b1\<lparr>blk_tag := tag, blk_status := CACHE_BLK_VALID\<rparr> in do {
           (l, data, user, m2) \<leftarrow> fn Read (CACHE_BADDR cp addr) (cp_bsize cp) b2 (tick_plus now lat1) m1;
           (let lat2 = lat1 + l;
                (b3, buf) = touch_data cp cmd (CACHE_BLK cp addr) p nbytes
                              (b2\<lparr>blk_data := data, blk_user := user\<rparr>);
                b4 = b3\<lparr>blk_ready := tick_plus now lat2\<rparr>;
                s3 = upd_blk s2 w (\<lambda>_. b4);
                s4 = (if cp_hsize cp \<noteq> 0 then link_htab_ent cp s3 w else s3)
            in Some (\<lparr>acc_lat = lat2, acc_buf = buf, acc_udata = blk_user b4, acc_repl = repl\<rparr>,
                     put_set cp1 st s4, m2)) }) })"

definition cache_access :: "'m blk_access \<Rightarrow> gcache_t \<Rightarrow> mem_cmd \<Rightarrow> md_addr_t \<Rightarrow> byte_t list \<Rightarrow> word_t \<Rightarrow>
    tick_t \<Rightarrow> word_t \<Rightarrow> 'm \<Rightarrow> (access_t \<times> gcache_t \<times> 'm) option" where
  "cache_access fn cp cmd addr p nbytes now rnd m =
     (if nbytes AND (nbytes - 1) \<noteq> 0 \<or> addr AND (nbytes - 1) \<noteq> 0 then None
      else if addr + nbytes > (addr AND NOT (cp_blk_mask cp)) + cp_bsize cp then None
      else if CACHE_TAGSET cp addr = cp_last_tagset cp then do {
        (acc, cp1) \<leftarrow> cache_fast_hit cp cmd addr p nbytes now;
        Some (acc, cp1, m) }
      else do {
        found \<leftarrow> find_blk cp (CACHE_SET cp addr) (CACHE_TAG cp addr);
        case found of
          Some w \<Rightarrow> do { (acc, cp1) \<leftarrow> cache_hit cp cmd addr p nbytes now w; Some (acc, cp1, m) }
        | None \<Rightarrow> cache_miss fn cp cmd addr p nbytes now rnd m })"

section \<open>Flushing\<close>

text \<open>Invalidating a block and writing it back when it is dirty, the latency carried along.\<close>

definition invalidate :: "'m blk_access \<Rightarrow> gcache_t \<Rightarrow> md_addr_t \<Rightarrow> nat \<Rightarrow> tick_t \<Rightarrow> word_t \<Rightarrow> 'm \<Rightarrow>
    (word_t \<times> gcache_t \<times> 'm) option" where
  "invalidate fn cp st w now lat m =
     (let s = cp_sets cp (unat st); b = set_blks s w;
          b1 = b\<lparr>blk_status := blk_status b AND NOT CACHE_BLK_VALID\<rparr>;
          cp1 = (put_set cp st (upd_blk s w (\<lambda>_. b1)))\<lparr>cp_invalidations := cp_invalidations cp + 1\<rparr>
      in if blk_status b1 AND CACHE_BLK_DIRTY \<noteq> 0 then do {
           (l, data, user, m1) \<leftarrow> fn Write (CACHE_MK_BADDR cp (blk_tag b1) st) (cp_bsize cp) b1
             (tick_plus now lat) m;
           Some (lat + l, (put_set cp1 st (upd_blk (cp_sets cp1 (unat st)) w
               (\<lambda>b. b\<lparr>blk_data := data, blk_user := user\<rparr>)))\<lparr>cp_writebacks := cp_writebacks cp + 1\<rparr>, m1) }
         else Some (lat, cp1, m))"

partial_function (option) flush_ways :: "'m blk_access \<Rightarrow> md_addr_t \<Rightarrow> tick_t \<Rightarrow> nat option \<Rightarrow>
    word_t \<Rightarrow> gcache_t \<Rightarrow> 'm \<Rightarrow> (word_t \<times> gcache_t \<times> 'm) option" where
  "flush_ways fn st now blk lat cp m =
     (case blk of None \<Rightarrow> Some (lat, cp, m)
      | Some w \<Rightarrow> do {
          (lat1, cp1, m1) \<leftarrow>
            (if blk_status (set_blks (cp_sets cp (unat st)) w) AND CACHE_BLK_VALID \<noteq> 0
             then invalidate fn cp st w now lat m else Some (lat, cp, m));
          flush_ways fn st now (way_next (set_blks (cp_sets cp1 (unat st)) w)) lat1 cp1 m1 })"

fun flush_sets :: "'m blk_access \<Rightarrow> tick_t \<Rightarrow> nat list \<Rightarrow> word_t \<Rightarrow> gcache_t \<Rightarrow> 'm \<Rightarrow>
    (word_t \<times> gcache_t \<times> 'm) option" where
  "flush_sets fn now [] lat cp m = Some (lat, cp, m)"
| "flush_sets fn now (i # is) lat cp m = do {
     (lat1, cp1, m1) \<leftarrow> flush_ways fn (of_nat i) now (way_head (cp_sets cp i)) lat cp m;
     flush_sets fn now is lat1 cp1 m1 }"

definition cache_flush :: "'m blk_access \<Rightarrow> gcache_t \<Rightarrow> tick_t \<Rightarrow> 'm \<Rightarrow> (word_t \<times> gcache_t \<times> 'm) option" where
  "cache_flush fn cp now m =
     flush_sets fn now [0..<unat (cp_nsets cp)] (cp_hit_latency cp)
       (cp\<lparr>cp_last_tagset := 0, cp_last_blk := None\<rparr>) m"

definition cache_flush_addr :: "'m blk_access \<Rightarrow> gcache_t \<Rightarrow> md_addr_t \<Rightarrow> tick_t \<Rightarrow> 'm \<Rightarrow>
    (word_t \<times> gcache_t \<times> 'm) option" where
  "cache_flush_addr fn cp addr now m =
     (let st = CACHE_SET cp addr in do {
        found \<leftarrow> find_blk cp st (CACHE_TAG cp addr);
        case found of
          None \<Rightarrow> Some (cp_hit_latency cp, cp, m)
        | Some w \<Rightarrow> do {
            (lat, cp1, m1) \<leftarrow> invalidate fn (cp\<lparr>cp_last_tagset := 0, cp_last_blk := None\<rparr>) st w now
              (cp_hit_latency cp) m;
            s \<leftarrow> update_way_list (cp_sets cp1 (unat st)) w Tail;
            Some (lat, put_set cp1 st s, m1) } })"

end
