(* ===== verification/Cache_Lists.thy ===== *)
theory Cache_Lists
  imports Cache
begin

text \<open>
  The lists of a cache set: moving a block in the way list is moving it in the list of ways,
  and linking and unlinking in the hash table keeps every bucket a chain of exactly the
  linked blocks whose tag hashes to it.
\<close>

section \<open>The way list\<close>

abbreviation wnext :: "cset_t \<Rightarrow> nat \<Rightarrow> nat option" where
  "wnext s \<equiv> \<lambda>w. way_next (set_blks s w)"

abbreviation wprev :: "cset_t \<Rightarrow> nat \<Rightarrow> nat option" where
  "wprev s \<equiv> \<lambda>w. way_prev (set_blks s w)"

abbreviation hnext :: "cset_t \<Rightarrow> nat \<Rightarrow> nat option" where
  "hnext s \<equiv> \<lambda>w. hash_next (set_blks s w)"

definition ways_ok :: "cset_t \<Rightarrow> nat list \<Rightarrow> bool" where
  "ways_ok s xs \<longleftrightarrow> dlist (wnext s) (wprev s) (way_head s) (way_tail s) xs"

text \<open>Two sets that differ in the links of the way list only.\<close>

definition blk_core :: "cache_blk_t \<Rightarrow> cache_blk_t" where
  "blk_core b = b\<lparr>way_next := None, way_prev := None\<rparr>"

definition same_but_ways :: "cset_t \<Rightarrow> cset_t \<Rightarrow> bool" where
  "same_but_ways s s' \<longleftrightarrow> set_hash s' = set_hash s \<and>
     (\<forall>w. blk_core (set_blks s' w) = blk_core (set_blks s w))"

lemma blk_coreD:
  assumes "blk_core b = blk_core c"
  shows "hash_next b = hash_next c" "blk_tag b = blk_tag c" "blk_status b = blk_status c"
    "blk_ready b = blk_ready c" "blk_user b = blk_user c" "blk_data b = blk_data c"
  using arg_cong [OF assms, of hash_next] arg_cong [OF assms, of blk_tag] arg_cong [OF assms, of blk_status]
    arg_cong [OF assms, of blk_ready] arg_cong [OF assms, of blk_user] arg_cong [OF assms, of blk_data]
  by (simp_all add: blk_core_def)

lemma same_but_waysD:
  assumes "same_but_ways s s'"
  shows "set_hash s' = set_hash s" "hash_next (set_blks s' w) = hash_next (set_blks s w)"
    "blk_tag (set_blks s' w) = blk_tag (set_blks s w)"
    "blk_status (set_blks s' w) = blk_status (set_blks s w)"
    "blk_ready (set_blks s' w) = blk_ready (set_blks s w)"
    "blk_user (set_blks s' w) = blk_user (set_blks s w)"
    "blk_data (set_blks s' w) = blk_data (set_blks s w)"
  using assms by (auto simp: same_but_ways_def dest: blk_coreD)

lemma same_but_ways_refl [simp]: "same_but_ways s s"
  by (simp add: same_but_ways_def)

definition move_to :: "list_loc_t \<Rightarrow> 'a \<Rightarrow> 'a list \<Rightarrow> 'a list" where
  "move_to loc w xs = (case loc of Head \<Rightarrow> w # removeAll w xs | Tail \<Rightarrow> removeAll w xs @ [w])"

lemma set_move_to [simp]: "w \<in> set xs \<Longrightarrow> set (move_to loc w xs) = set xs"
  by (auto simp: move_to_def split: list_loc_t.split)

lemma upd_blk_links [simp]:
  "set_blks (upd_blk s w f) v = (if v = w then f (set_blks s w) else set_blks s v)"
  "way_head (upd_blk s w f) = way_head s" "way_tail (upd_blk s w f) = way_tail s"
  "set_hash (upd_blk s w f) = set_hash s"
  by (simp_all add: upd_blk_def)

lemma link_way_list_ok:
  assumes "ways_ok s xs" "w \<notin> set xs" "xs \<noteq> []"
  shows "\<exists>s'. link_way_list s w loc = Some s' \<and> same_but_ways s s' \<and>
    ways_ok s' (case loc of Head \<Rightarrow> w # xs | Tail \<Rightarrow> xs @ [w])"
proof (cases loc)
  case Head
  obtain x ys where xs: "xs = x # ys" using assms(3) by (cases xs) auto
  have hp: "way_head s = Some x" using assms(1) xs by (auto simp: ways_ok_def dlist_def)
  have "x \<noteq> w" using assms(2) xs by auto
  let ?s' = "(upd_blk (upd_blk s w (\<lambda>b. b\<lparr>way_next := Some x, way_prev := None\<rparr>)) x
    (\<lambda>b. b\<lparr>way_prev := Some w\<rparr>))\<lparr>way_head := Some w\<rparr>"
  have "wnext ?s' = (wnext s)(w := Some x)" "wprev ?s' = (wprev s)(w := None, x := Some w)"
    using \<open>x \<noteq> w\<close> by auto
  then have "ways_ok ?s' (w # xs)"
    using dlist_push [of "wnext s" "wprev s" x "way_tail s" ys w] assms xs hp by (simp add: ways_ok_def)
  moreover have "link_way_list s w loc = Some ?s'" using Head hp by (simp add: link_way_list_def)
  moreover have "same_but_ways s ?s'" by (simp add: same_but_ways_def blk_core_def)
  ultimately show ?thesis using Head by auto
next
  case Tail
  obtain x ys where xs: "xs = ys @ [x]" using assms(3) by (cases xs rule: rev_cases) auto
  have tp: "way_tail s = Some x" using assms(1) xs by (auto simp: ways_ok_def dlist_def)
  have "x \<noteq> w" using assms(2) xs by auto
  let ?s' = "(upd_blk (upd_blk s w (\<lambda>b. b\<lparr>way_prev := Some x, way_next := None\<rparr>)) x
    (\<lambda>b. b\<lparr>way_next := Some w\<rparr>))\<lparr>way_tail := Some w\<rparr>"
  have "wnext ?s' = (wnext s)(w := None, x := Some w)" "wprev ?s' = (wprev s)(w := Some x)"
    using \<open>x \<noteq> w\<close> by auto
  then have "ways_ok ?s' (xs @ [w])"
    using dlist_append [of "wnext s" "wprev s" "way_head s" x ys w] assms xs tp by (simp add: ways_ok_def)
  moreover have "link_way_list s w loc = Some ?s'" using Tail tp by (simp add: link_way_list_def)
  moreover have "same_but_ways s ?s'" by (simp add: same_but_ways_def blk_core_def)
  ultimately show ?thesis using Tail by auto
qed

lemma update_way_list_ok:
  assumes ok: "ways_ok s xs" and w: "w \<in> set xs"
  shows "\<exists>s'. update_way_list s w loc = Some s' \<and> same_but_ways s s' \<and> ways_ok s' (move_to loc w xs)"
proof -
  have d: "distinct xs" using ok by (simp add: ways_ok_def dlist_def)
  have relink: "\<exists>s'. update_way_list s w loc = Some s' \<and> same_but_ways s s' \<and> ways_ok s' (move_to loc w xs)"
    if run: "update_way_list s w loc = link_way_list t w loc" and t: "ways_ok t (removeAll w xs)"
      "removeAll w xs \<noteq> []" and same: "same_but_ways s t" for t
  proof -
    obtain s' where s': "link_way_list t w loc = Some s'" "same_but_ways t s'"
      "ways_ok s' (case loc of Head \<Rightarrow> w # removeAll w xs | Tail \<Rightarrow> removeAll w xs @ [w])"
      using link_way_list_ok [OF t(1) _ t(2), of w loc] by auto
    from s'(2) same have "same_but_ways s s'" by (simp add: same_but_ways_def)
    with s' run show ?thesis by (auto simp: move_to_def split: list_loc_t.splits)
  qed
  from ok have dl: "dlist (wnext s) (wprev s) (way_head s) (way_tail s) xs" by (simp add: ways_ok_def)
  from dl w show ?thesis
  proof (cases rule: dlist_cases)
    case single
    then show ?thesis using ok by (auto simp: update_way_list_def move_to_def split: list_loc_t.split)
  next
    case (first z zs)
    let ?t = "upd_blk (s\<lparr>way_head := Some z\<rparr>) z (\<lambda>b. b\<lparr>way_prev := None\<rparr>)"
    have r: "removeAll w xs = z # zs" using d first(1) by auto
    show ?thesis
    proof (cases loc)
      case Head
      then show ?thesis using first ok r by (auto simp: update_way_list_def move_to_def)
    next
      case Tail
      have "wprev ?t = (wprev s)(z := None)" "wnext ?t = wnext s" by auto
      then have "ways_ok ?t (removeAll w xs)"
        using dlist_pop_first [of "wnext s" "wprev s" _ _ w z zs] dl first(1) r by (simp add: ways_ok_def)
      with r Tail first show ?thesis
        by (intro relink [of ?t]) (simp_all add: update_way_list_def same_but_ways_def blk_core_def)
    qed
  next
    case (last y ys)
    let ?t = "upd_blk (s\<lparr>way_tail := Some y\<rparr>) y (\<lambda>b. b\<lparr>way_next := None\<rparr>)"
    have r: "removeAll w xs = ys @ [y]" using d last(1) by auto
    show ?thesis
    proof (cases loc)
      case Tail
      then show ?thesis using last ok r by (auto simp: update_way_list_def move_to_def)
    next
      case Head
      have "wnext ?t = (wnext s)(y := None)" "wprev ?t = wprev s" by auto
      then have "ways_ok ?t (removeAll w xs)"
        using dlist_pop_last [of "wnext s" "wprev s" _ _ ys y w] dl last(1) r by (simp add: ways_ok_def)
      with r Head last show ?thesis
        by (intro relink [of ?t]) (simp_all add: update_way_list_def same_but_ways_def blk_core_def)
    qed
  next
    case (middle y ys z zs)
    let ?t = "upd_blk (upd_blk s y (\<lambda>b. b\<lparr>way_next := Some z\<rparr>)) z (\<lambda>b. b\<lparr>way_prev := Some y\<rparr>)"
    have r: "removeAll w xs = ys @ y # z # zs" using d middle(1) by auto
    have "y \<noteq> z" using d middle(1) by auto
    then have "wnext ?t = (wnext s)(y := Some z)" "wprev ?t = (wprev s)(z := Some y)" by auto
    then have "ways_ok ?t (removeAll w xs)"
      using dlist_pop_middle [of "wnext s" "wprev s" _ _ ys y w z zs] dl middle(1) r by (simp add: ways_ok_def)
    with r middle show ?thesis
      by (intro relink [of ?t]) (simp_all add: update_way_list_def same_but_ways_def blk_core_def)
  qed
qed

section \<open>The hash table\<close>

definition hash_ok :: "gcache_t \<Rightarrow> cset_t \<Rightarrow> nat set \<Rightarrow> bool" where
  "hash_ok cp s W \<longleftrightarrow> (\<forall>h. \<exists>hs. chain (hnext s) (set_hash s h) hs \<and> distinct hs \<and>
     set hs = {w \<in> W. CACHE_HASH cp (blk_tag (set_blks s w)) = h})"

lemma hash_okE:
  assumes "hash_ok cp s W"
  obtains hs where "chain (hnext s) (set_hash s h) hs" "distinct hs"
    "set hs = {w \<in> W. CACHE_HASH cp (blk_tag (set_blks s w)) = h}"
  using assms unfolding hash_ok_def by blast

text \<open>Two sets that differ in the hash table and its links only.\<close>

definition blk_unhashed :: "cache_blk_t \<Rightarrow> cache_blk_t" where
  "blk_unhashed b = b\<lparr>hash_next := None\<rparr>"

definition same_but_hash :: "cset_t \<Rightarrow> cset_t \<Rightarrow> bool" where
  "same_but_hash s s' \<longleftrightarrow> way_head s' = way_head s \<and> way_tail s' = way_tail s \<and>
     (\<forall>w. blk_unhashed (set_blks s' w) = blk_unhashed (set_blks s w))"

lemma same_but_hashD:
  assumes "same_but_hash s s'"
  shows "way_head s' = way_head s" "way_tail s' = way_tail s"
    "way_next (set_blks s' w) = way_next (set_blks s w)" "way_prev (set_blks s' w) = way_prev (set_blks s w)"
    "blk_tag (set_blks s' w) = blk_tag (set_blks s w)"
    "blk_status (set_blks s' w) = blk_status (set_blks s w)"
    "blk_ready (set_blks s' w) = blk_ready (set_blks s w)"
    "blk_user (set_blks s' w) = blk_user (set_blks s w)"
    "blk_data (set_blks s' w) = blk_data (set_blks s w)"
proof -
  from assms have e: "blk_unhashed (set_blks s' w) = blk_unhashed (set_blks s w)" by (simp add: same_but_hash_def)
  from arg_cong [OF e, of way_next] arg_cong [OF e, of way_prev] arg_cong [OF e, of blk_tag]
    arg_cong [OF e, of blk_status] arg_cong [OF e, of blk_ready] arg_cong [OF e, of blk_user]
    arg_cong [OF e, of blk_data] assms
  show "way_head s' = way_head s" "way_tail s' = way_tail s"
    "way_next (set_blks s' w) = way_next (set_blks s w)" "way_prev (set_blks s' w) = way_prev (set_blks s w)"
    "blk_tag (set_blks s' w) = blk_tag (set_blks s w)"
    "blk_status (set_blks s' w) = blk_status (set_blks s w)"
    "blk_ready (set_blks s' w) = blk_ready (set_blks s w)"
    "blk_user (set_blks s' w) = blk_user (set_blks s w)"
    "blk_data (set_blks s' w) = blk_data (set_blks s w)"
    by (simp_all add: same_but_hash_def blk_unhashed_def)
qed

lemma ways_ok_same_but_hash: "same_but_hash s s' \<Longrightarrow> ways_ok s' xs = ways_ok s xs"
  by (simp add: ways_ok_def same_but_hashD)

lemma hash_ok_same_but_ways: "same_but_ways s s' \<Longrightarrow> hash_ok cp s' W = hash_ok cp s W"
  by (simp add: hash_ok_def same_but_waysD)

lemma hash_ok_upd_out: "hash_ok cp s W \<Longrightarrow> w \<notin> W \<Longrightarrow> hash_ok cp (upd_blk s w f) W"
  unfolding hash_ok_def
proof (intro allI)
  fix h assume ok: "\<forall>h. \<exists>hs. chain (hnext s) (set_hash s h) hs \<and> distinct hs \<and>
     set hs = {w \<in> W. CACHE_HASH cp (blk_tag (set_blks s w)) = h}" and w: "w \<notin> W"
  from ok obtain hs where hs: "chain (hnext s) (set_hash s h) hs" "distinct hs"
    "set hs = {w \<in> W. CACHE_HASH cp (blk_tag (set_blks s w)) = h}" by blast
  have "chain (hnext (upd_blk s w f)) (set_hash (upd_blk s w f) h) hs"
    using hs(1) by (subst seg_frame [where nx = "hnext s"]) (use hs(3) w in auto)
  moreover have "set hs = {v \<in> W. CACHE_HASH cp (blk_tag (set_blks (upd_blk s w f) v)) = h}"
    using hs(3) w by auto
  ultimately show "\<exists>hs. chain (hnext (upd_blk s w f)) (set_hash (upd_blk s w f) h) hs \<and> distinct hs \<and>
      set hs = {v \<in> W. CACHE_HASH cp (blk_tag (set_blks (upd_blk s w f) v)) = h}"
    using hs(2) by blast
qed

lemma hash_ok_upd_same:
  assumes "hash_ok cp s W" "hash_next (f (set_blks s w)) = hash_next (set_blks s w)"
    "blk_tag (f (set_blks s w)) = blk_tag (set_blks s w)"
  shows "hash_ok cp (upd_blk s w f) W"
proof -
  have "hnext (upd_blk s w f) = hnext s" "(\<lambda>v. blk_tag (set_blks (upd_blk s w f) v)) = (\<lambda>v. blk_tag (set_blks s v))"
    using assms(2,3) by auto
  then show ?thesis using assms(1) unfolding hash_ok_def by (simp add: fun_eq_iff)
qed

lemma unlink_htab_ent_ok:
  assumes ok: "hash_ok cp s W" and w: "w \<in> W"
  shows "\<exists>s'. unlink_htab_ent cp s w = Some s' \<and> hash_ok cp s' (W - {w}) \<and> same_but_hash s s'"
proof -
  let ?i = "CACHE_HASH cp (blk_tag (set_blks s w))" and ?n = "hash_next (set_blks s w)"
  obtain hs where hs: "chain (hnext s) (set_hash s ?i) hs" "distinct hs"
    "set hs = {v \<in> W. CACHE_HASH cp (blk_tag (set_blks s v)) = ?i}" using ok by (rule hash_okE)
  have "w \<in> set hs" using hs(3) w by simp
  then obtain ys zs where split: "hs = ys @ w # zs" by (auto simp: in_set_conv_decomp)
  have walk: "walk_prev (hnext s) (\<lambda>b. b = w) None (set_hash s ?i) = Some (last_or None ys, Some w)"
    using hs(1,2) split by (intro walk_prev_found) (auto simp: seg_append)
  define s' where "s' = upd_blk (case last_or None ys of
      None \<Rightarrow> s\<lparr>set_hash := (set_hash s)(?i := ?n)\<rparr> | Some p \<Rightarrow> upd_blk s p (\<lambda>b. b\<lparr>hash_next := ?n\<rparr>))
    w (\<lambda>b. b\<lparr>hash_next := None\<rparr>)"
  have run: "unlink_htab_ent cp s w = Some s'" using walk by (simp add: unlink_htab_ent_def s'_def Let_def)
  have same: "same_but_hash s s'"
    by (auto simp: s'_def same_but_hash_def blk_unhashed_def split: option.split)
  have tags: "blk_tag (set_blks s' v) = blk_tag (set_blks s v)" for v using same_but_hashD [OF same] by simp
  have "\<exists>hs'. chain (hnext s') (set_hash s' h) hs' \<and> distinct hs' \<and>
      set hs' = {v \<in> W - {w}. CACHE_HASH cp (blk_tag (set_blks s' v)) = h}" for h
  proof (cases "h = ?i")
    case False
    obtain ks where ks: "chain (hnext s) (set_hash s h) ks" "distinct ks"
      "set ks = {v \<in> W. CACHE_HASH cp (blk_tag (set_blks s v)) = h}" using ok by (rule hash_okE)
    have out: "v \<notin> set hs" if "v \<in> set ks" for v using that ks(3) hs(3) False by auto
    have "last_or None ys = Some p \<Longrightarrow> p \<in> set hs" for p using split by (auto simp: last_or_def split: if_splits)
    then have "hnext s' v = hnext s v" if "v \<in> set ks" for v
      using out [OF that] \<open>w \<in> set hs\<close> by (auto simp: s'_def split: option.split)
    moreover have "set_hash s' h = set_hash s h" using False by (auto simp: s'_def split: option.split)
    ultimately have "chain (hnext s') (set_hash s' h) ks" using ks(1) seg_frame [of ks "hnext s'" "hnext s"] by auto
    then show ?thesis using ks(2,3) False w by (intro exI [of _ ks]) (auto simp: tags)
  next
    case True
    have "chain (hnext s') (set_hash s' h) (ys @ zs)"
    proof (cases ys rule: rev_cases)
      case Nil
      have "hnext s' = (hnext s)(w := None)" "set_hash s' h = ?n"
        using Nil True by (auto simp: s'_def last_or_def)
      then show ?thesis using hs(1,2) split Nil by (auto simp: seg_upd)
    next
      case (snoc as p)
      have "p \<noteq> w" "w \<notin> set (as @ p # zs)" using hs(2) split snoc by auto
      then have "hnext s' = ((hnext s)(p := ?n))(w := None)" "set_hash s' h = set_hash s h"
        using snoc by (auto simp: s'_def last_or_def)
      moreover have "chain ((hnext s)(p := ?n)) (set_hash s h) (as @ p # zs)"
        using chain_unlink_later [of "hnext s" "set_hash s h" as p w zs] hs(1,2) split snoc True by simp
      ultimately show ?thesis using seg_upd [of w "as @ p # zs"] \<open>w \<notin> set (as @ p # zs)\<close> snoc by simp
    qed
    moreover have "set (ys @ zs) = set hs - {w}" using hs(2) split by auto
    ultimately show ?thesis using hs(2,3) split True by (intro exI [of _ "ys @ zs"]) (auto simp: tags)
  qed
  then have "hash_ok cp s' (W - {w})" unfolding hash_ok_def by blast
  with run same show ?thesis by blast
qed

lemma link_htab_ent_ok:
  assumes ok: "hash_ok cp s W" and w: "w \<notin> W"
  shows "hash_ok cp (link_htab_ent cp s w) (insert w W)" "same_but_hash s (link_htab_ent cp s w)"
proof -
  let ?i = "CACHE_HASH cp (blk_tag (set_blks s w))" and ?s' = "link_htab_ent cp s w"
  show same: "same_but_hash s ?s'" by (simp add: link_htab_ent_def Let_def same_but_hash_def blk_unhashed_def)
  have nx: "hnext ?s' = (hnext s)(w := set_hash s ?i)" and hd: "set_hash ?s' = (set_hash s)(?i := Some w)"
    by (auto simp: link_htab_ent_def Let_def)
  have tags: "blk_tag (set_blks ?s' v) = blk_tag (set_blks s v)" for v using same_but_hashD [OF same] by simp
  have "\<exists>hs. chain (hnext ?s') (set_hash ?s' h) hs \<and> distinct hs \<and>
      set hs = {v \<in> insert w W. CACHE_HASH cp (blk_tag (set_blks ?s' v)) = h}" for h
  proof -
    obtain hs where hs: "chain (hnext s) (set_hash s h) hs" "distinct hs"
      "set hs = {v \<in> W. CACHE_HASH cp (blk_tag (set_blks s v)) = h}" using ok by (rule hash_okE)
    have "w \<notin> set hs" using hs(3) w by simp
    show ?thesis
    proof (cases "h = ?i")
      case True
      then show ?thesis using hs \<open>w \<notin> set hs\<close> by (intro exI [of _ "w # hs"]) (auto simp: nx hd tags seg_upd)
    next
      case False
      then show ?thesis using hs \<open>w \<notin> set hs\<close> by (intro exI [of _ hs]) (auto simp: nx hd tags seg_upd)
    qed
  qed
  then show "hash_ok cp ?s' (insert w W)" unfolding hash_ok_def by blast
qed

end
