(* ===== verification/Cache_Inv.thy ===== *)
theory Cache_Inv
  imports Cache_Lists
begin

text \<open>
  The invariant of a cache and its creation: the geometry is one of powers of two, every
  set holds its ways in a doubly linked list, the hash chains cover them, no two valid
  blocks of a set have the same tag, and the block that hit last is where the fast path
  expects it.
\<close>

section \<open>Powers of two\<close>

lemma nat_pow2_iff: "(n::nat) AND (n - 1) = 0 \<Longrightarrow> n \<noteq> 0 \<Longrightarrow> \<exists>k. n = 2 ^ k"
proof (induction n rule: less_induct)
  case (less n)
  show ?case
  proof (cases "even n")
    case True
    then obtain m where m: "n = 2 * m" by (auto elim: evenE)
    with less.prems have "0 < m" by simp
    then obtain l where l: "m = Suc l" by (cases m) auto
    have "n AND (n - 1) = 2 * (m AND (m - 1))"
      using m l by (subst and_rec) simp
    with less.prems have "m AND (m - 1) = 0" by simp
    with less.IH [of m] m \<open>0 < m\<close> obtain k where "m = 2 ^ k" by auto
    then have "n = 2 ^ Suc k" using m by simp
    then show ?thesis ..
  next
    case False
    then obtain m where m: "n = Suc (2 * m)" by (auto elim: oddE)
    have "n AND (n - 1) = 2 * m" using m by (subst and_rec) simp
    with less.prems m have "n = 2 ^ 0" by simp
    then show ?thesis ..
  qed
qed

lemma word_pow2:
  fixes n :: word_t
  assumes "n AND (n - 1) = 0" "sint n > 0"
  obtains k where "k < 31" "n = 2 ^ k"
proof -
  have nz: "n \<noteq> 0" using assms(2) by auto
  have "unat (n AND (n - 1)) = unat n AND (unat n - 1)"
    using nz by (simp add: unsigned_and_eq unat_minus_one)
  with assms(1) have "unat n AND (unat n - 1) = 0" by simp
  moreover have "unat n \<noteq> 0" using nz by (simp add: unat_eq_0)
  ultimately obtain k where k: "unat n = 2 ^ k" using nat_pow2_iff by blast
  have "unat n < 2 ^ 32" using unsigned_less [of n] by simp
  with k have "k < 32" using power_less_imp_less_exp [of "2::nat" k 32] by simp
  have "n = of_nat (unat n)" by simp
  then have n: "n = 2 ^ k" using k by simp
  have "k \<noteq> 31"
  proof
    assume "k = 31"
    with n have "n = 0x80000000" by simp
    then have "sint n < 0" by (simp add: signed_minus_1)
    with assms(2) show False by simp
  qed
  with \<open>k < 32\<close> n show ?thesis by (intro that [of k]) auto
qed

lemma log2_loop_pow2 [simp]: "log2_loop (2 ^ k) = k"
  by (induction k) (subst log2_loop.simps, simp)+

lemma unat_pow2 [simp]: "k < 32 \<Longrightarrow> unat (2 ^ k :: word_t) = 2 ^ k"
proof -
  assume "k < 32"
  then have "(2::nat) ^ k < 2 ^ 32" by (intro power_strict_increasing) auto
  then show ?thesis using unat_of_nat [where 'a=32, of "2 ^ k"] by simp
qed

lemma log_base2_ok:
  assumes "n AND (n - 1) = 0" "sint n > 0"
  obtains k where "k < 31" "n = 2 ^ k" "log_base2 n = Some (of_nat k)"
proof -
  obtain k where k: "k < 31" "n = 2 ^ k" using assms by (rule word_pow2)
  moreover have "log_base2 n = Some (of_nat k)" using assms k by (simp add: log_base2_def not_le [symmetric])
  ultimately show ?thesis using that by blast
qed

section \<open>Geometry\<close>

definition geometry :: "gcache_t \<Rightarrow> nat \<Rightarrow> nat \<Rightarrow> nat \<Rightarrow> bool" where
  "geometry cp b n k \<longleftrightarrow> 3 \<le> b \<and> b < 31 \<and> n < 31 \<and> k < 31 \<and> b + n < 32 \<and>
     cp_bsize cp = 2 ^ b \<and> cp_nsets cp = 2 ^ n \<and> cp_assoc cp = 2 ^ k \<and>
     cp_blk_mask cp = mask b \<and> cp_set_shift cp = of_nat b \<and> cp_set_mask cp = mask n \<and>
     cp_tag_shift cp = of_nat (b + n) \<and> cp_tagset_mask cp = NOT (mask b) \<and>
     cp_hsize cp = (if k \<le> 2 then 0 else 2 ^ (k - 2))"

lemma shift_small:
  assumes "j < 32"
  shows "c_shr a (of_nat j) = drop_bit j a" "c_shl a (of_nat j) = push_bit j a"
proof -
  have "(31 :: word_t) = mask 5" by (simp add: mask_eq_exp_minus_1)
  then have "unat (of_nat j AND (31 :: word_t)) = take_bit 5 (unat (of_nat j :: word_t))"
    by (simp only: take_bit_eq_mask [symmetric] unsigned_take_bit_eq)
  also have "unat (of_nat j :: word_t) = j" using assms by (simp add: unat_of_nat)
  also have "take_bit 5 j = j" using assms by (simp add: take_bit_eq_mod)
  finally show "c_shr a (of_nat j) = drop_bit j a" "c_shl a (of_nat j) = push_bit j a"
    by (simp_all add: c_shr_def c_shl_def)
qed

lemma field_eqs:
  assumes "geometry cp b n k"
  shows "CACHE_TAG cp a = drop_bit (b + n) a" "CACHE_SET cp a = take_bit n (drop_bit b a)"
    "CACHE_TAGSET cp a = a AND NOT (mask b)" "CACHE_BADDR cp a = a AND NOT (mask b)"
    "CACHE_MK_BADDR cp t s = push_bit (b + n) t OR push_bit b s" "CACHE_BLK cp a = take_bit b a"
  using assms
  by (simp_all add: geometry_def CACHE_TAG_def CACHE_SET_def CACHE_TAGSET_def CACHE_BADDR_def CACHE_BLK_def
      CACHE_MK_BADDR_def shift_small take_bit_eq_mask del: of_nat_add)

lemma mk_baddr_fields:
  assumes "geometry cp b n k"
  shows "CACHE_MK_BADDR cp (CACHE_TAG cp a) (CACHE_SET cp a) = CACHE_BADDR cp a"
  unfolding field_eqs [OF assms]
proof (rule bit_word_eqI)
  fix i assume i: "i < LENGTH(32)"
  consider "i < b" | "b \<le> i" "i < b + n" | "b + n \<le> i" by linarith
  then show "bit (push_bit (b + n) (drop_bit (b + n) a) OR push_bit b (take_bit n (drop_bit b a))) i =
      bit (a AND NOT (mask b)) i"
    using i by cases (auto simp: bit_simps)
qed

lemma fields_baddr:
  assumes "geometry cp b n k"
  shows "CACHE_TAG cp (CACHE_BADDR cp a) = CACHE_TAG cp a" "CACHE_SET cp (CACHE_BADDR cp a) = CACHE_SET cp a"
  unfolding field_eqs [OF assms] by (rule bit_word_eqI; auto simp: bit_simps dest: bit_imp_le_length)+

lemma baddr_eq_tagset: "geometry cp b n k \<Longrightarrow> CACHE_TAGSET cp a = CACHE_BADDR cp a"
  by (simp add: field_eqs)

lemma tagset_eq_iff:
  assumes "geometry cp b n k"
  shows "CACHE_TAGSET cp a = CACHE_TAGSET cp a' \<longleftrightarrow> CACHE_TAG cp a = CACHE_TAG cp a' \<and> CACHE_SET cp a = CACHE_SET cp a'"
  unfolding baddr_eq_tagset [OF assms]
  by (metis fields_baddr [OF assms] mk_baddr_fields [OF assms])

lemma set_lt:
  assumes "geometry cp b n k"
  shows "unat (CACHE_SET cp a) < unat (cp_nsets cp)"
proof -
  have n: "n < 32" "cp_nsets cp = 2 ^ n" using assms by (simp_all add: geometry_def)
  have "unat (CACHE_SET cp a) < 2 ^ n"
    by (simp add: field_eqs [OF assms] unsigned_take_bit_eq)
  then show ?thesis using n by simp
qed

section \<open>The invariant of a set\<close>

definition valid_blk :: "cset_t \<Rightarrow> nat \<Rightarrow> bool" where
  "valid_blk s w \<longleftrightarrow> blk_status (set_blks s w) AND CACHE_BLK_VALID \<noteq> 0"

definition dirty_blk :: "cset_t \<Rightarrow> nat \<Rightarrow> bool" where
  "dirty_blk s w \<longleftrightarrow> blk_status (set_blks s w) AND CACHE_BLK_DIRTY \<noteq> 0"

definition tags_unique :: "cset_t \<Rightarrow> nat set \<Rightarrow> bool" where
  "tags_unique s W \<longleftrightarrow> inj_on (\<lambda>w. blk_tag (set_blks s w)) {w \<in> W. valid_blk s w}"

text \<open>The order of the ways, read from the list, and the invariant over it.\<close>

fun follow :: "('p \<Rightarrow> 'p option) \<Rightarrow> nat \<Rightarrow> 'p option \<Rightarrow> 'p list" where
  "follow nx 0 p = []"
| "follow nx (Suc j) p = (case p of None \<Rightarrow> [] | Some x \<Rightarrow> x # follow nx j (nx x))"

lemma follow_chain: "chain nx p xs \<Longrightarrow> length xs \<le> j \<Longrightarrow> follow nx j p = xs"
  by (induction j arbitrary: p xs) (auto split: option.split, (case_tac xs; auto)+)

definition way_order :: "gcache_t \<Rightarrow> cset_t \<Rightarrow> nat list" where
  "way_order cp s = follow (wnext s) (unat (cp_assoc cp)) (way_head s)"

definition all_ways :: "gcache_t \<Rightarrow> nat set" where "all_ways cp = {..<unat (cp_assoc cp)}"

definition set_ok :: "gcache_t \<Rightarrow> cset_t \<Rightarrow> bool" where
  "set_ok cp s \<longleftrightarrow> ways_ok s (way_order cp s) \<and> set (way_order cp s) = all_ways cp \<and>
     (cp_hsize cp \<noteq> 0 \<longrightarrow> hash_ok cp s (all_ways cp)) \<and> tags_unique s (all_ways cp)"

lemma way_orderI:
  assumes "ways_ok s xs" "set xs = all_ways cp"
  shows "way_order cp s = xs"
proof -
  have "length xs = unat (cp_assoc cp)"
    using assms distinct_card [of xs] by (simp add: ways_ok_def dlist_def all_ways_def)
  then show ?thesis using assms unfolding way_order_def
    by (intro follow_chain) (auto simp: ways_ok_def dlist_def)
qed

lemma set_okI:
  assumes "ways_ok s xs" "set xs = all_ways cp" "cp_hsize cp \<noteq> 0 \<Longrightarrow> hash_ok cp s (all_ways cp)"
    "tags_unique s (all_ways cp)"
  shows "set_ok cp s" "way_order cp s = xs"
  using assms way_orderI [OF assms(1,2)] by (simp_all add: set_ok_def)

lemma set_okD:
  assumes "set_ok cp s"
  shows "ways_ok s (way_order cp s)" "set (way_order cp s) = all_ways cp"
    "cp_hsize cp \<noteq> 0 \<Longrightarrow> hash_ok cp s (all_ways cp)" "tags_unique s (all_ways cp)"
    "distinct (way_order cp s)" "chain (wnext s) (way_head s) (way_order cp s)"
  using assms by (simp_all add: set_ok_def ways_ok_def dlist_def)

section \<open>Searching\<close>

lemma find_Some_holds: "List.find P xs = Some x \<Longrightarrow> x \<in> set xs \<and> P x"
  by (auto simp: find_Some_iff)

text \<open>Through the hash chain or along the ways, the search finds the valid block with the tag.\<close>

lemma find_blk_ok:
  assumes "set_ok cp (cp_sets cp (unat st))"
  obtains r where "find_blk cp st tag = Some r"
    "r = None \<Longrightarrow> \<forall>w \<in> all_ways cp. \<not> blk_holds (cp_sets cp (unat st)) tag w"
    "\<And>w. r = Some w \<Longrightarrow> w \<in> all_ways cp \<and> blk_holds (cp_sets cp (unat st)) tag w"
proof (cases "cp_hsize cp = 0")
  case True
  let ?s = "cp_sets cp (unat st)"
  have run: "find_blk cp st tag = Some (List.find (blk_holds ?s tag) (way_order cp ?s))"
    using True set_okD(6) [OF assms] by (simp add: find_blk_def Let_def chain_find_eq)
  show ?thesis
    by (rule that [OF run])
      (use set_okD(2) [OF assms] in \<open>auto simp: find_None_iff dest: find_Some_holds\<close>)
next
  case False
  let ?s = "cp_sets cp (unat st)"
  obtain hs where hs: "chain (hnext ?s) (set_hash ?s (CACHE_HASH cp tag)) hs"
    "set hs = {w \<in> all_ways cp. CACHE_HASH cp (blk_tag (set_blks ?s w)) = CACHE_HASH cp tag}"
    using set_okD(3) [OF assms False] by (rule hash_okE)
  have run: "find_blk cp st tag = Some (List.find (blk_holds ?s tag) hs)"
    using False hs(1) by (simp add: find_blk_def Let_def chain_find_eq)
  have miss: "\<not> blk_holds ?s tag w" if "w \<in> all_ways cp" "w \<notin> set hs" for w
    using that hs(2) by (auto simp: blk_holds_def)
  show ?thesis
    by (rule that [OF run])
      (use hs(2) miss in \<open>auto simp: find_None_iff dest: find_Some_holds\<close>)
qed

section \<open>The invariant of a cache\<close>

definition last_ok :: "gcache_t \<Rightarrow> bool" where
  "last_ok cp \<longleftrightarrow>
     (case cp_last_blk cp of
        None \<Rightarrow> cp_last_tagset cp = 0
      | Some (i, w) \<Rightarrow> \<exists>a. i = unat (CACHE_SET cp a) \<and> w \<in> all_ways cp \<and>
          blk_holds (cp_sets cp i) (CACHE_TAG cp a) w \<and> cp_last_tagset cp = CACHE_TAGSET cp a \<and>
          (cp_policy cp = LRU \<longrightarrow> way_head (cp_sets cp i) = Some w))"

definition cache_inv :: "gcache_t \<Rightarrow> bool" where
  "cache_inv cp \<longleftrightarrow> (\<exists>b n k. geometry cp b n k) \<and>
     (\<forall>i < unat (cp_nsets cp). set_ok cp (cp_sets cp i)) \<and> last_ok cp"

lemma cache_inv_set: "cache_inv cp \<Longrightarrow> set_ok cp (cp_sets cp (unat (CACHE_SET cp a)))"
  using set_lt by (auto simp: cache_inv_def)

section \<open>Creation\<close>

lemma create_blk_ok:
  assumes ways: "ways_ok s xs" "j \<notin> set xs" and hash: "cp_hsize cp \<noteq> 0 \<Longrightarrow> hash_ok cp s W" "j \<notin> W"
  shows "ways_ok (create_blk cp j s) (j # xs)"
    "cp_hsize cp \<noteq> 0 \<Longrightarrow> hash_ok cp (create_blk cp j s) (insert j W)"
    "blk_tag (set_blks (create_blk cp j s) v) = blk_tag (set_blks s v)"
    "blk_status (set_blks (create_blk cp j s) v) = blk_status (set_blks s v)"
    "blk_user (set_blks (create_blk cp j s) v) = blk_user (set_blks s v)"
proof -
  define s1 where "s1 = (if cp_hsize cp \<noteq> 0 then link_htab_ent cp s j else s)"
  have s1: "same_but_hash s s1" "cp_hsize cp \<noteq> 0 \<Longrightarrow> hash_ok cp s1 (insert j W)"
    using link_htab_ent_ok [OF hash] by (simp_all add: s1_def same_but_hash_def)
  have w1: "ways_ok s1 xs" using ways_ok_same_but_hash [OF s1(1)] ways(1) by simp
  have same: "same_but_ways s1 (create_blk cp j s)"
    by (auto simp: create_blk_def s1_def [symmetric] Let_def same_but_ways_def blk_core_def split: option.split)
  show "ways_ok (create_blk cp j s) (j # xs)"
  proof (cases xs)
    case Nil
    then have "way_head s1 = None" "way_tail s1 = None" using w1 by (simp_all add: ways_ok_def dlist_def)
    then show ?thesis using Nil
      by (simp add: create_blk_def s1_def [symmetric] Let_def ways_ok_def dlist_def)
  next
    case (Cons x ys)
    then have hd: "way_head s1 = Some x" and tl: "way_tail s1 \<noteq> None"
      using w1 seg_start [of "wprev s1" "way_tail s1" "rev xs" None]
      by (auto simp: ways_ok_def dlist_def split: list.splits)
    have "x \<noteq> j" using Cons ways(2) by auto
    have "wnext (create_blk cp j s) = (wnext s1)(j := Some x)"
      "wprev (create_blk cp j s) = (wprev s1)(j := None, x := Some j)"
      using hd tl \<open>x \<noteq> j\<close> by (auto simp: create_blk_def s1_def [symmetric] Let_def)
    moreover have "way_head (create_blk cp j s) = Some j" "way_tail (create_blk cp j s) = way_tail s1"
      using hd tl by (auto simp: create_blk_def s1_def [symmetric] Let_def)
    ultimately show ?thesis
      using dlist_push [of "wnext s1" "wprev s1" x "way_tail s1" ys j] w1 hd Cons ways(2) by (simp add: ways_ok_def)
  qed
  show "cp_hsize cp \<noteq> 0 \<Longrightarrow> hash_ok cp (create_blk cp j s) (insert j W)"
    using hash_ok_same_but_ways [OF same] s1(2) by simp
  show "blk_tag (set_blks (create_blk cp j s) v) = blk_tag (set_blks s v)"
    "blk_status (set_blks (create_blk cp j s) v) = blk_status (set_blks s v)"
    "blk_user (set_blks (create_blk cp j s) v) = blk_user (set_blks s v)"
    using same_but_waysD [OF same] same_but_hashD [OF s1(1)] by simp_all
qed

lemma create_set_ok:
  "set_ok cp (create_set cp)" "blk_status (set_blks (create_set cp) w) = 0"
  "cp_usize cp \<noteq> 0 \<Longrightarrow> blk_user (set_blks (create_set cp) w) \<noteq> None"
proof -
  let ?s0 = "\<lparr>set_hash = (\<lambda>_. None), way_head = None, way_tail = None,
        set_blks = (\<lambda>_. new_blk (cp_bsize cp) (cp_balloc cp) (cp_usize cp))\<rparr>"
  have "ways_ok (fold (create_blk cp) [0..<j] ?s0) (rev [0..<j]) \<and>
      (cp_hsize cp \<noteq> 0 \<longrightarrow> hash_ok cp (fold (create_blk cp) [0..<j] ?s0) {..<j}) \<and>
      (\<forall>v. blk_tag (set_blks (fold (create_blk cp) [0..<j] ?s0) v) = 0 \<and>
           blk_status (set_blks (fold (create_blk cp) [0..<j] ?s0) v) = 0 \<and>
           (cp_usize cp \<noteq> 0 \<longrightarrow> blk_user (set_blks (fold (create_blk cp) [0..<j] ?s0) v) \<noteq> None))" for j
  proof (induction j)
    case 0
    show ?case by (auto simp: ways_ok_def dlist_def hash_ok_def new_blk_def)
  next
    case (Suc j)
    let ?s = "fold (create_blk cp) [0..<j] ?s0"
    have ok: "ways_ok ?s (rev [0..<j])" "cp_hsize cp \<noteq> 0 \<Longrightarrow> hash_ok cp ?s {..<j}" using Suc by auto
    from create_blk_ok [OF ok(1) _ ok(2), of j] Suc show ?case by (simp add: lessThan_Suc)
  qed
  from this [of "unat (cp_assoc cp)"]
  have all: "ways_ok (create_set cp) (rev [0..<unat (cp_assoc cp)])"
      "cp_hsize cp \<noteq> 0 \<longrightarrow> hash_ok cp (create_set cp) (all_ways cp)"
      "\<And>v. blk_status (set_blks (create_set cp) v) = 0"
      "cp_usize cp \<noteq> 0 \<Longrightarrow> blk_user (set_blks (create_set cp) w) \<noteq> None"
    by (simp_all add: create_set_def all_ways_def)
  have "tags_unique (create_set cp) (all_ways cp)" using all(3) by (simp add: tags_unique_def valid_blk_def)
  with all(1,2) show "set_ok cp (create_set cp)"
    by (intro set_okI [of _ "rev [0..<unat (cp_assoc cp)]"]) (auto simp: all_ways_def atLeast0LessThan)
  show "blk_status (set_blks (create_set cp) w) = 0" by (rule all(3))
  show "cp_usize cp \<noteq> 0 \<Longrightarrow> blk_user (set_blks (create_set cp) w) \<noteq> None" by (rule all(4))
qed

text \<open>The invariant reads the parameters and the sets only.\<close>

lemma geometry_cong:
  "geometry (cp\<lparr>cp_sets := S\<rparr>) b n k = geometry cp b n k"
  by (simp add: geometry_def)

lemma set_ok_cong:
  assumes "cp_assoc cp' = cp_assoc cp" "cp_hsize cp' = cp_hsize cp"
  shows "set_ok cp' s = set_ok cp s" "way_order cp' s = way_order cp s" "all_ways cp' = all_ways cp"
proof -
  have "CACHE_HASH cp' = CACHE_HASH cp" using assms by (simp add: CACHE_HASH_def fun_eq_iff)
  then show "all_ways cp' = all_ways cp" "way_order cp' s = way_order cp s" "set_ok cp' s = set_ok cp s"
    using assms by (simp_all add: all_ways_def way_order_def set_ok_def hash_ok_def)
qed

lemma sint_pow2 [simp]: "j < 31 \<Longrightarrow> sint (2 ^ j :: word_t) = 2 ^ j"
proof -
  assume j: "j < 31"
  then have "uint (2 ^ j :: word_t) = 2 ^ j" by (simp add: uint_nat)
  moreover have "(2::int) ^ j < 2 ^ 31" using j by (intro power_strict_increasing) auto
  moreover have "- (2 ^ 31) \<le> (2::int) ^ j" by (rule order_trans [of _ 0]) simp_all
  ultimately show ?thesis by (simp add: sint_uint signed_take_bit_int_eq_self)
qed

lemma quarter_pow2: "2 < k \<Longrightarrow> k < 31 \<Longrightarrow> signed_drop_bit 2 (2 ^ k :: word_t) = 2 ^ (k - 2)"
proof (rule signed_word_eqI)
  assume k: "2 < k" "k < 31"
  then have "k = (k - 2) + 2" by simp
  then have "(2::int) ^ k = 2 ^ (k - 2) * 2 ^ 2" by (metis power_add)
  then have "drop_bit 2 ((2::int) ^ k) = 2 ^ (k - 2)" by (simp add: drop_bit_eq_div)
  then show "sint (signed_drop_bit 2 (2 ^ k :: word_t)) = sint (2 ^ (k - 2) :: word_t)"
    using k by (simp add: sint_signed_drop_bit_eq)
qed

lemma cache_create_inv:
  assumes "cache_create name nsets bsize balloc usize assoc policy lat = Some cp" "cp_tag_shift cp < 32"
  shows "cache_inv cp" "\<And>i w. \<not> valid_blk (cp_sets cp i) w" "cp_last_blk cp = None"
    "cp_policy cp = policy" "cp_nsets cp = nsets" "cp_assoc cp = assoc" "cp_bsize cp = bsize"
    "usize \<noteq> 0 \<Longrightarrow> blk_user (set_blks (cp_sets cp i) w) \<noteq> None"
proof -
  from assms(1) have pos: "sint nsets > 0" "nsets AND (nsets - 1) = 0" "sint bsize \<ge> 8" "bsize AND (bsize - 1) = 0"
    "sint assoc > 0" "assoc AND (assoc - 1) = 0"
    by (auto simp: cache_create_def split: if_splits)
  obtain n where n: "n < 31" "nsets = 2 ^ n" "log_base2 nsets = Some (of_nat n)"
    using pos(2,1) by (rule log_base2_ok)
  obtain b where b: "b < 31" "bsize = 2 ^ b" "log_base2 bsize = Some (of_nat b)"
    using pos(4) by (rule log_base2_ok) (use pos(3) in auto)
  obtain k where k: "k < 31" "assoc = 2 ^ k" using pos(6,5) by (rule word_pow2)
  have "(2::int) ^ 3 \<le> 2 ^ b" using pos(3) b by simp
  then have b3: "3 \<le> b" using power_le_imp_le_exp [of "2::int" 3 b] by simp
  have k2: "sint assoc > 4 \<longleftrightarrow> \<not> k \<le> 2"
    using k power_strict_increasing_iff [of "2::int" 2 k] by (simp add: not_le)
  define cp0 where "cp0 = cp\<lparr>cp_sets := (\<lambda>_. \<lparr>set_hash = (\<lambda>_. None), way_head = None, way_tail = None,
    set_blks = (\<lambda>_. new_blk bsize balloc usize)\<rparr>)\<rparr>"
  have npos: "\<not> sint nsets \<le> 0" "\<not> sint bsize < 8" "\<not> sint assoc \<le> 0" "\<not> sint usize < 0"
    using pos assms(1) by (auto simp: cache_create_def split: if_splits)
  note built = assms(1) [unfolded cache_create_def, simplified npos pos n(3) b(3) Let_def if_False simp_thms
    Option.bind.bind_lunit]
  have cp: "cp = cp0\<lparr>cp_sets := (\<lambda>_. create_set cp0)\<rparr>"
    using built by (auto simp: cp0_def)
  have cp0: "cp_nsets cp0 = nsets" "cp_bsize cp0 = bsize" "cp_assoc cp0 = assoc" "cp_policy cp0 = policy"
    "cp_hsize cp0 = (if sint assoc > 4 then signed_drop_bit 2 assoc else 0)" "cp_blk_mask cp0 = bsize - 1"
    "cp_set_shift cp0 = of_nat b" "cp_set_mask cp0 = nsets - 1" "cp_tag_shift cp0 = of_nat b + of_nat n"
    "cp_tagset_mask cp0 = NOT (bsize - 1)" "cp_last_tagset cp0 = 0" "cp_last_blk cp0 = None" "cp_usize cp0 = usize"
    using built by (auto simp: cp0_def)
  have ts: "cp_tag_shift cp0 = of_nat (b + n)" using cp0 by simp
  have "b + n < 32" using assms(2) ts n(1) b(1) cp by (simp add: word_less_nat_alt unat_of_nat del: of_nat_add)
  then have geo: "geometry cp0 b n k"
    using n(1,2) b(1,2) k b3 cp0 ts k2 quarter_pow2 [of k]
    by (auto simp: geometry_def mask_eq_exp_minus_1 simp del: of_nat_add)
  have par: "cp_assoc cp = cp_assoc cp0" "cp_hsize cp = cp_hsize cp0" by (simp_all add: cp)
  show "cache_inv cp"
    using geo create_set_ok(1) [of cp0] cp0 set_ok_cong [OF par]
    by (auto simp: cache_inv_def last_ok_def geometry_cong cp)
  show "\<And>i w. \<not> valid_blk (cp_sets cp i) w" using create_set_ok(2) by (simp add: cp valid_blk_def)
  show "cp_last_blk cp = None" "cp_policy cp = policy" "cp_nsets cp = nsets" "cp_assoc cp = assoc" "cp_bsize cp = bsize"
    using cp0 by (simp_all add: cp)
  show "usize \<noteq> 0 \<Longrightarrow> blk_user (set_blks (cp_sets cp i) w) \<noteq> None"
    using create_set_ok(3) [of cp0] cp0 by (simp add: cp)
qed

end
