(* ===== verification/Cache_Refine.thy ===== *)
theory Cache_Refine
  imports Cache_Inv
begin

text \<open>
  What the cache module promises and that it keeps it: a set is a list of entries in
  replacement order, an access moves the entry to the front (LRU) or leaves it (FIFO), and
  a miss drops the last entry for a new one at the front.  The pointer and hash table
  implementation refines this, and keeps the invariant for every policy.
\<close>

section \<open>The specification\<close>

type_synonym entry_t = "(md_addr_t \<times> bool) option"

definition entry_of :: "cset_t \<Rightarrow> nat \<Rightarrow> entry_t" where
  "entry_of s w = (if valid_blk s w then Some (blk_tag (set_blks s w), dirty_blk s w) else None)"

definition abs_set :: "gcache_t \<Rightarrow> cset_t \<Rightarrow> entry_t list" where
  "abs_set cp s = map (entry_of s) (way_order cp s)"

definition has_tag :: "md_addr_t \<Rightarrow> entry_t \<Rightarrow> bool" where
  "has_tag t e \<longleftrightarrow> map_option fst e = Some t"

definition spec_hit :: "cache_policy \<Rightarrow> bool \<Rightarrow> md_addr_t \<Rightarrow> entry_t list \<Rightarrow> entry_t list" where
  "spec_hit pol wr t es =
     (let e = Some (t, Some (t, True) \<in> set es \<or> wr)
      in if pol = LRU then e # filter (\<lambda>e. \<not> has_tag t e) es
         else map (\<lambda>x. if has_tag t x then e else x) es)"

definition spec_access :: "cache_policy \<Rightarrow> bool \<Rightarrow> md_addr_t \<Rightarrow> entry_t list \<Rightarrow> entry_t list" where
  "spec_access pol wr t es =
     (if \<exists>e \<in> set es. has_tag t e then spec_hit pol wr t es else Some (t, wr) # butlast es)"

definition is_dirty :: "entry_t \<Rightarrow> bool" where
  "is_dirty e \<longleftrightarrow> (\<exists>t. e = Some (t, True))"

text \<open>The block of an address is in its set.\<close>

definition present :: "gcache_t \<Rightarrow> md_addr_t \<Rightarrow> bool" where
  "present cp a \<longleftrightarrow> (\<exists>e \<in> set (abs_set cp (cp_sets cp (unat (CACHE_SET cp a)))). has_tag (CACHE_TAG cp a) e)"

text \<open>
  The way a miss replaces: the last one in the order, or for the random policy the one the
  low bits of the random number name.
\<close>

definition victim_way :: "gcache_t \<Rightarrow> word_t \<Rightarrow> cset_t \<Rightarrow> nat" where
  "victim_way cp rnd s =
     (if cp_policy cp = Random then unat (rnd AND (cp_assoc cp - 1)) else last (way_order cp s))"

definition victim_entry :: "gcache_t \<Rightarrow> word_t \<Rightarrow> md_addr_t \<Rightarrow> entry_t" where
  "victim_entry cp rnd a =
     (let s = cp_sets cp (unat (CACHE_SET cp a)) in entry_of s (victim_way cp rnd s))"

text \<open>The set of an accessed address afterwards, for every policy.\<close>

definition spec_set :: "gcache_t \<Rightarrow> word_t \<Rightarrow> bool \<Rightarrow> md_addr_t \<Rightarrow> entry_t list" where
  "spec_set cp rnd wr a =
     (let s = cp_sets cp (unat (CACHE_SET cp a)); t = CACHE_TAG cp a in
      if cp_policy cp = Random \<and> \<not> present cp a
      then map (\<lambda>v. if v = victim_way cp rnd s then Some (t, wr) else entry_of s v) (way_order cp s)
      else spec_access (cp_policy cp) wr t (abs_set cp s))"

text \<open>
  The level below seen from outside: a log of the block accesses it has completed, each with
  its command, address and size.  A miss writes a dirty victim back to the address its tag
  and set make, and then reads the accessed block.
\<close>

type_synonym call_t = "mem_cmd \<times> md_addr_t \<times> word_t"

definition records :: "'m blk_access \<Rightarrow> ('m \<Rightarrow> call_t list) \<Rightarrow> bool" where
  "records fn log \<longleftrightarrow> (\<forall>cmd a n b now m l d u m1.
     fn cmd a n b now m = Some (l, d, u, m1) \<longrightarrow> log m1 = log m @ [(cmd, a, n)])"

definition write_back :: "gcache_t \<Rightarrow> md_addr_t \<Rightarrow> entry_t \<Rightarrow> call_t list" where
  "write_back cp st e =
     (case e of Some (t, True) \<Rightarrow> [(Write, CACHE_MK_BADDR cp t st, cp_bsize cp)] | _ \<Rightarrow> [])"

definition miss_calls :: "gcache_t \<Rightarrow> word_t \<Rightarrow> md_addr_t \<Rightarrow> call_t list" where
  "miss_calls cp rnd a =
     write_back cp (CACHE_SET cp a) (victim_entry cp rnd a) @ [(Read, CACHE_BADDR cp a, cp_bsize cp)]"

lemma recordsD: "records fn log \<Longrightarrow> fn cmd a n b now m = Some (l, d, u, m1) \<Longrightarrow> log m1 = log m @ [(cmd, a, n)]"
  by (simp add: records_def)

text \<open>
  More generally, an observation of the level that each call moves by a step, while the
  level satisfies \<open>P\<close>; the log is the observation each call is added to.
\<close>

definition tracks :: "('m \<Rightarrow> bool) \<Rightarrow> 'm blk_access \<Rightarrow> ('m \<Rightarrow> 'o) \<Rightarrow> (call_t \<Rightarrow> 'o \<Rightarrow> 'o) \<Rightarrow> bool" where
  "tracks P fn obs step \<longleftrightarrow> (\<forall>cmd a n b now m l d u m1.
     fn cmd a n b now m = Some (l, d, u, m1) \<longrightarrow> P m \<longrightarrow> P m1 \<and> obs m1 = step (cmd, a, n) (obs m))"

lemma tracksD:
  assumes "tracks P fn obs step" "fn cmd a n b now m = Some (l, d, u, m1)" "P m"
  shows "P m1" "obs m1 = step (cmd, a, n) (obs m)"
  using assms by (auto simp: tracks_def)

lemma records_tracks: "records fn log \<Longrightarrow> tracks (\<lambda>_. True) fn log (\<lambda>c l. l @ [c])"
  by (simp add: records_def tracks_def)

lemma fold_snoc: "fold (\<lambda>c l. l @ [c]) cs l = l @ cs"
  by (induction cs arbitrary: l) simp_all

section \<open>Status bits\<close>

lemma status_bits [simp]:
  "(x AND CACHE_BLK_VALID \<noteq> 0) = bit x 0" "(x AND CACHE_BLK_DIRTY \<noteq> 0) = bit x 1"
  "bit CACHE_BLK_VALID i = (i = 0)" "bit CACHE_BLK_DIRTY i = (i = 1)"
proof -
  have two: "CACHE_BLK_DIRTY = push_bit 1 1" by (simp add: CACHE_BLK_DIRTY_def)
  show "bit CACHE_BLK_VALID i = (i = 0)" by (simp add: CACHE_BLK_VALID_def bit_1_iff)
  show "bit CACHE_BLK_DIRTY i = (i = 1)" by (auto simp: two bit_simps bit_1_iff)
  show "(x AND CACHE_BLK_VALID \<noteq> 0) = bit x 0" by (simp add: CACHE_BLK_VALID_def and_one_eq bit_0 odd_iff_mod_2_eq_one even_iff_mod_2_eq_zero)
  have "(x AND CACHE_BLK_DIRTY = 0) = (\<not> bit x 1)"
  proof
    assume z: "x AND CACHE_BLK_DIRTY = 0"
    have "bit (x AND CACHE_BLK_DIRTY) 1 = bit x 1" by (simp add: two bit_simps)
    with z show "\<not> bit x 1" by simp
  next
    assume "\<not> bit x 1"
    then show "x AND CACHE_BLK_DIRTY = 0" by (intro bit_word_eqI) (auto simp: two bit_simps bit_1_iff)
  qed
  then show "(x AND CACHE_BLK_DIRTY \<noteq> 0) = bit x 1" by simp
qed

lemma valid_blk_bit: "valid_blk s w = bit (blk_status (set_blks s w)) 0"
  and dirty_blk_bit: "dirty_blk s w = bit (blk_status (set_blks s w)) 1"
  and blk_holds_bit: "blk_holds s t w \<longleftrightarrow> blk_tag (set_blks s w) = t \<and> valid_blk s w"
  by (auto simp: valid_blk_def dirty_blk_def blk_holds_def)

lemma touch_data_blk:
  assumes "touch_data cp cmd o1 p n b = (b', buf)"
  shows "way_next b' = way_next b" "way_prev b' = way_prev b" "hash_next b' = hash_next b"
    "blk_tag b' = blk_tag b" "blk_ready b' = blk_ready b" "blk_user b' = blk_user b"
    "bit (blk_status b') 0 = bit (blk_status b) 0"
    "bit (blk_status b') 1 = (bit (blk_status b) 1 \<or> cmd = Write)"
  using assms by (auto simp: touch_data_def Let_def bit_or_iff split: prod.splits if_splits)

section \<open>Keeping a set well formed\<close>

text \<open>Rewriting a block in place, its links, tag and validity kept.\<close>

lemma set_ok_rewrite:
  assumes ok: "set_ok cp s" and f: "way_next (f (set_blks s w)) = way_next (set_blks s w)"
    "way_prev (f (set_blks s w)) = way_prev (set_blks s w)"
    "hash_next (f (set_blks s w)) = hash_next (set_blks s w)"
    "blk_tag (f (set_blks s w)) = blk_tag (set_blks s w)"
    "bit (blk_status (f (set_blks s w))) 0 \<Longrightarrow> bit (blk_status (set_blks s w)) 0"
  shows "set_ok cp (upd_blk s w f)" "way_order cp (upd_blk s w f) = way_order cp s"
proof -
  have "wnext (upd_blk s w f) = wnext s" "wprev (upd_blk s w f) = wprev s" using f(1,2) by auto
  then have ways: "ways_ok (upd_blk s w f) (way_order cp s)"
    using set_okD(1) [OF ok] by (simp add: ways_ok_def)
  have "tags_unique (upd_blk s w f) (all_ways cp)"
    using set_okD(4) [OF ok] f(4,5) by (auto simp: tags_unique_def inj_on_def valid_blk_bit split: if_splits)
  moreover have "cp_hsize cp \<noteq> 0 \<Longrightarrow> hash_ok cp (upd_blk s w f) (all_ways cp)"
    by (intro hash_ok_upd_same set_okD(3) [OF ok] f(3,4))
  ultimately show "set_ok cp (upd_blk s w f)" "way_order cp (upd_blk s w f) = way_order cp s"
    using set_okI [OF ways set_okD(2) [OF ok]] by simp_all
qed

lemma set_ok_move:
  assumes ok: "set_ok cp s" and w: "w \<in> all_ways cp"
  shows "\<exists>s'. update_way_list s w loc = Some s' \<and> set_ok cp s' \<and> same_but_ways s s' \<and>
    way_order cp s' = move_to loc w (way_order cp s)"
proof -
  note o = set_okD [OF ok]
  obtain s' where s': "update_way_list s w loc = Some s'" "same_but_ways s s'"
    "ways_ok s' (move_to loc w (way_order cp s))" using update_way_list_ok [OF o(1)] o(2) w by blast
  have "tags_unique s' (all_ways cp)"
    using o(4) by (simp add: tags_unique_def valid_blk_bit same_but_waysD [OF s'(2)])
  then have "set_ok cp s'" "way_order cp s' = move_to loc w (way_order cp s)"
    using set_okI [OF s'(3), of cp] o(2,3) w hash_ok_same_but_ways [OF s'(2)] by simp_all
  with s' show ?thesis by blast
qed

lemma same_but_ways_entry: "same_but_ways s s' \<Longrightarrow> entry_of s' = entry_of s"
  by (rule ext) (simp add: entry_of_def valid_blk_bit dirty_blk_bit same_but_waysD)

lemma way_head_front:
  assumes ok: "set_ok cp s" and w: "w \<in> all_ways cp" "way_prev (set_blks s w) = None"
  shows "move_to Head w (way_order cp s) = way_order cp s" "way_head s = Some w"
proof -
  have dl: "dlist (wnext s) (wprev s) (way_head s) (way_tail s) (way_order cp s)"
    using set_okD(1) [OF ok] by (simp add: ways_ok_def)
  have "w \<in> set (way_order cp s)" using set_okD(2) [OF ok] w(1) by simp
  from dl this show "move_to Head w (way_order cp s) = way_order cp s" "way_head s = Some w"
    by (cases rule: dlist_cases; use w(2) set_okD(5) [OF ok] in \<open>auto simp: move_to_def\<close>)+
qed

lemma way_head_hd:
  assumes "set_ok cp s" "way_order cp s = w # xs"
  shows "way_head s = Some w"
  using set_okD(6) [OF assms(1)] assms(2) by simp

section \<open>Entries\<close>

lemma has_tag_entry: "has_tag t (entry_of s w) \<longleftrightarrow> blk_holds s t w"
  by (auto simp: has_tag_def entry_of_def blk_holds_bit)

lemma holds_unique:
  assumes "set_ok cp s" "v \<in> all_ways cp" "w \<in> all_ways cp" "blk_holds s t v" "blk_holds s t w"
  shows "v = w"
  using set_okD(4) [OF assms(1)] assms(2-) by (auto simp: tags_unique_def inj_on_def blk_holds_bit)

lemma abs_set_has_tag:
  "set_ok cp s \<Longrightarrow> (\<exists>e \<in> set (abs_set cp s). has_tag t e) \<longleftrightarrow> (\<exists>w \<in> all_ways cp. blk_holds s t w)"
  by (simp add: abs_set_def has_tag_entry set_okD(2))

lemma hit_entries:
  assumes ok: "set_ok cp s" and w: "w \<in> all_ways cp" "blk_holds s t w"
    and e: "\<And>v. entry_of s' v = (if v = w then Some (t, dirty_blk s w \<or> wr) else entry_of s v)"
  shows "map (entry_of s') (move_to Head w (way_order cp s)) = spec_hit LRU wr t (abs_set cp s)"
    "pol \<noteq> LRU \<Longrightarrow> map (entry_of s') (way_order cp s) = spec_hit pol wr t (abs_set cp s)"
proof -
  note o = set_okD [OF ok]
  have only: "has_tag t (entry_of s v) \<longleftrightarrow> v = w" if "v \<in> set (way_order cp s)" for v
    using that holds_unique [OF ok _ w(1) _ w(2), of v] w(2) unfolding o(2) has_tag_entry by blast
  have d: "Some (t, True) \<in> set (abs_set cp s) \<longleftrightarrow> dirty_blk s w"
  proof
    assume "Some (t, True) \<in> set (abs_set cp s)"
    then obtain v where v: "v \<in> set (way_order cp s)" "entry_of s v = Some (t, True)" by (auto simp: abs_set_def)
    with only [of v] have "v = w" by (simp add: has_tag_def)
    with v show "dirty_blk s w" by (simp add: entry_of_def split: if_splits)
  next
    assume "dirty_blk s w"
    then have "entry_of s w = Some (t, True)" using w(2) by (simp add: entry_of_def blk_holds_bit)
    then show "Some (t, True) \<in> set (abs_set cp s)" using w(1) o(2) by (metis abs_set_def image_eqI set_map)
  qed
  have "map (entry_of s') (removeAll w (way_order cp s)) = filter (\<lambda>e. \<not> has_tag t e) (abs_set cp s)"
  proof -
    have "filter (\<lambda>e. \<not> has_tag t e) (abs_set cp s) = map (entry_of s) (filter (\<lambda>v. \<not> has_tag t (entry_of s v)) (way_order cp s))"
      by (simp add: abs_set_def filter_map o_def)
    also have "filter (\<lambda>v. \<not> has_tag t (entry_of s v)) (way_order cp s) = removeAll w (way_order cp s)"
      unfolding removeAll_filter_not_eq by (rule filter_cong) (auto simp: only)
    finally show ?thesis using e by simp
  qed
  then show "map (entry_of s') (move_to Head w (way_order cp s)) = spec_hit LRU wr t (abs_set cp s)"
    unfolding move_to_def spec_hit_def d Let_def list_loc_t.case list.map e [of w] by simp
  show "map (entry_of s') (way_order cp s) = spec_hit pol wr t (abs_set cp s)" if "pol \<noteq> LRU"
  proof -
    have "entry_of s' v = (if has_tag t (entry_of s v) then Some (t, dirty_blk s w \<or> wr) else entry_of s v)"
      if "v \<in> set (way_order cp s)" for v unfolding e only [OF that] by simp
    then show ?thesis using \<open>pol \<noteq> LRU\<close> unfolding spec_hit_def d Let_def by (simp add: abs_set_def)
  qed
qed

section \<open>Parameters of a cache\<close>

definition params where
  "params cp = (cp_nsets cp, cp_bsize cp, cp_balloc cp, cp_assoc cp, cp_policy cp, cp_hit_latency cp,
     cp_hsize cp, cp_blk_mask cp, cp_set_shift cp, cp_set_mask cp, cp_tag_shift cp, cp_tagset_mask cp)"

lemma paramsD:
  assumes "params cp' = params cp"
  shows "cp_nsets cp' = cp_nsets cp" "cp_bsize cp' = cp_bsize cp" "cp_assoc cp' = cp_assoc cp"
    "cp_policy cp' = cp_policy cp" "cp_hsize cp' = cp_hsize cp" "cp_hit_latency cp' = cp_hit_latency cp"
    "cp_balloc cp' = cp_balloc cp" "cp_blk_mask cp' = cp_blk_mask cp"
    "geometry cp' = geometry cp" "CACHE_TAG cp' = CACHE_TAG cp" "CACHE_SET cp' = CACHE_SET cp"
    "CACHE_TAGSET cp' = CACHE_TAGSET cp" "CACHE_BADDR cp' = CACHE_BADDR cp"
    "CACHE_MK_BADDR cp' = CACHE_MK_BADDR cp" "all_ways cp' = all_ways cp"
    "set_ok cp' = set_ok cp" "way_order cp' = way_order cp" "abs_set cp' = abs_set cp"
proof -
  show p: "cp_nsets cp' = cp_nsets cp" "cp_bsize cp' = cp_bsize cp" "cp_assoc cp' = cp_assoc cp"
    "cp_policy cp' = cp_policy cp" "cp_hsize cp' = cp_hsize cp" "cp_hit_latency cp' = cp_hit_latency cp"
    "cp_balloc cp' = cp_balloc cp" "cp_blk_mask cp' = cp_blk_mask cp"
    using assms by (simp_all add: params_def)
  show "geometry cp' = geometry cp" "CACHE_TAG cp' = CACHE_TAG cp" "CACHE_SET cp' = CACHE_SET cp"
    "CACHE_TAGSET cp' = CACHE_TAGSET cp" "CACHE_BADDR cp' = CACHE_BADDR cp"
    "CACHE_MK_BADDR cp' = CACHE_MK_BADDR cp"
    using assms by (simp_all add: params_def fun_eq_iff geometry_def CACHE_TAG_def CACHE_SET_def
        CACHE_TAGSET_def CACHE_BADDR_def CACHE_MK_BADDR_def)
  show "all_ways cp' = all_ways cp" by (rule set_ok_cong(3) [OF p(3,5)])
  show "set_ok cp' = set_ok cp" by (rule ext) (rule set_ok_cong(1) [OF p(3,5)])
  show wo: "way_order cp' = way_order cp" by (rule ext) (rule set_ok_cong(2) [OF p(3,5)])
  show "abs_set cp' = abs_set cp" by (rule ext) (simp only: abs_set_def wo)
qed

lemma find_blk_params:
  assumes "params cp' = params cp" "cp_sets cp' (unat st) = cp_sets cp (unat st)"
  shows "find_blk cp' st t = find_blk cp st t"
  by (simp add: find_blk_def Let_def CACHE_HASH_def paramsD(5) [OF assms(1)] assms(2))

text \<open>Replacing one set by a well-formed one keeps the invariant, given the fast path's part.\<close>

lemma cache_inv_put:
  assumes "cache_inv cp" "params cp' = params cp" "cp_sets cp' = (cp_sets cp)(i := s)" "set_ok cp s" "last_ok cp'"
  shows "cache_inv cp'"
  using assms by (auto simp: cache_inv_def paramsD [OF assms(2)])

section \<open>Hits\<close>

text \<open>What an access promises of the set it goes to, and that it leaves the others alone.\<close>

definition refines_access :: "gcache_t \<Rightarrow> mem_cmd \<Rightarrow> md_addr_t \<Rightarrow> gcache_t \<Rightarrow> bool" where
  "refines_access cp cmd addr cp' \<longleftrightarrow>
     (let i = unat (CACHE_SET cp addr); t = CACHE_TAG cp addr in
        cache_inv cp' \<and> params cp' = params cp \<and> (\<forall>j. j \<noteq> i \<longrightarrow> cp_sets cp' j = cp_sets cp j) \<and>
        (cp_policy cp \<noteq> Random \<or> present cp addr \<longrightarrow>
           abs_set cp (cp_sets cp' i) = spec_access (cp_policy cp) (cmd = Write) t (abs_set cp (cp_sets cp i))))"

definition counts_hit :: "gcache_t \<Rightarrow> gcache_t \<Rightarrow> bool" where
  "counts_hit cp cp' \<longleftrightarrow> cp_hits cp' = cp_hits cp + 1 \<and> cp_misses cp' = cp_misses cp \<and>
     cp_replacements cp' = cp_replacements cp \<and> cp_writebacks cp' = cp_writebacks cp"

lemma hit_set_ok:
  assumes ok: "set_ok cp s" and w: "w \<in> all_ways cp" "blk_holds s t w"
    and touch: "touch_data cp cmd o1 p n (set_blks s w) = (b, buf)"
    and s1: "s1 = upd_blk s w (\<lambda>_. b)"
  shows "\<exists>s2. (if way_prev b \<noteq> None \<and> cp_policy cp = LRU then update_way_list s1 w Head else Some s1) = Some s2 \<and>
    set_ok cp s2 \<and> blk_holds s2 t w \<and> (cp_policy cp = LRU \<longrightarrow> way_head s2 = Some w) \<and>
    abs_set cp s2 = spec_access (cp_policy cp) (cmd = Write) t (abs_set cp s)"
proof -
  note b = touch_data_blk [OF touch]
  have ok1: "set_ok cp s1" "way_order cp s1 = way_order cp s"
    using set_ok_rewrite [OF ok, of "\<lambda>_. b" w] b unfolding s1 by auto
  have e1: "entry_of s1 v = (if v = w then Some (t, dirty_blk s w \<or> cmd = Write) else entry_of s v)" for v
    using w(2) b by (auto simp: entry_of_def valid_blk_bit dirty_blk_bit blk_holds_bit s1)
  have h1: "blk_holds s1 t w" using w(2) b by (auto simp: blk_holds_bit valid_blk_bit s1)
  note spec = hit_entries [OF ok w e1]
  have sa: "spec_access (cp_policy cp) (cmd = Write) t (abs_set cp s) = spec_hit (cp_policy cp) (cmd = Write) t (abs_set cp s)"
    using abs_set_has_tag [OF ok] w by (auto simp: spec_access_def)
  have prev: "wprev s1 w = way_prev b" by (simp add: s1)
  show ?thesis
  proof (cases "way_prev b \<noteq> None \<and> cp_policy cp = LRU")
    case True
    obtain s2 where s2: "update_way_list s1 w Head = Some s2" "set_ok cp s2" "same_but_ways s1 s2"
      "way_order cp s2 = move_to Head w (way_order cp s)"
      using set_ok_move [OF ok1(1) w(1), of Head] ok1(2) by auto
    have "blk_holds s2 t w" using h1 by (simp add: blk_holds_bit valid_blk_bit same_but_waysD [OF s2(3)])
    moreover have "way_head s2 = Some w" using way_head_hd [OF s2(2)] s2(4) by (simp add: move_to_def)
    moreover have "abs_set cp s2 = spec_hit LRU (cmd = Write) t (abs_set cp s)"
      using spec(1) s2(4) same_but_ways_entry [OF s2(3)] by (simp add: abs_set_def)
    ultimately show ?thesis using True s2(1,2) sa by auto
  next
    case False
    have "cp_policy cp = LRU \<Longrightarrow> way_head s1 = Some w \<and> move_to Head w (way_order cp s) = way_order cp s"
      using False prev way_head_front [OF ok1(1) w(1)] ok1(2) by auto
    moreover have "abs_set cp s1 = spec_hit (cp_policy cp) (cmd = Write) t (abs_set cp s)"
    proof (cases "cp_policy cp = LRU")
      case True
      then have "way_prev b = None" using False by simp
      then have "move_to Head w (way_order cp s) = way_order cp s"
        using prev way_head_front [OF ok1(1) w(1)] ok1(2) by simp
      then show ?thesis using spec(1) True ok1(2) by (simp add: abs_set_def)
    next
      case False
      then show ?thesis using spec(2) ok1(2) by (simp add: abs_set_def)
    qed
    ultimately show ?thesis using False ok1(1) h1 sa by auto
  qed
qed

lemma cache_hit_ok:
  assumes inv: "cache_inv cp" and w: "w \<in> all_ways cp"
    "blk_holds (cp_sets cp (unat (CACHE_SET cp addr))) (CACHE_TAG cp addr) w"
  shows "\<exists>acc cp'. cache_hit cp cmd addr p n now w = Some (acc, cp') \<and> refines_access cp cmd addr cp' \<and>
    counts_hit cp cp' \<and> acc_repl acc = 0 \<and>
    acc_lat acc = hit_latency cp (set_blks (cp_sets cp (unat (CACHE_SET cp addr))) w) now"
proof -
  let ?i = "unat (CACHE_SET cp addr)" and ?t = "CACHE_TAG cp addr"
  let ?s = "cp_sets cp ?i"
  obtain b buf where touch: "touch_data cp cmd (CACHE_BLK cp addr) p n (set_blks ?s w) = (b, buf)" by force
  obtain s2 where s2: "(if way_prev b \<noteq> None \<and> cp_policy cp = LRU
      then update_way_list (upd_blk ?s w (\<lambda>_. b)) w Head else Some (upd_blk ?s w (\<lambda>_. b))) = Some s2"
    "set_ok cp s2" "blk_holds s2 ?t w" "cp_policy cp = LRU \<longrightarrow> way_head s2 = Some w"
    "abs_set cp s2 = spec_access (cp_policy cp) (cmd = Write) ?t (abs_set cp ?s)"
    using hit_set_ok [OF cache_inv_set [OF inv] w touch refl] by blast
  let ?cp' = "(put_set cp (CACHE_SET cp addr) s2)\<lparr>cp_hits := cp_hits cp + 1,
     cp_last_tagset := CACHE_TAGSET cp addr, cp_last_blk := Some (?i, w)\<rparr>"
  have run: "cache_hit cp cmd addr p n now w = Some (\<lparr>acc_lat = hit_latency cp b now, acc_buf = buf,
      acc_udata = blk_user b, acc_repl = 0\<rparr>, ?cp')"
    using touch s2(1) by (simp add: cache_hit_def Let_def)
  have par: "params ?cp' = params cp" by (simp add: params_def put_set_def)
  note P = paramsD [OF par]
  have "last_ok ?cp'" using s2(3,4) w(1) P by (auto simp: last_ok_def put_set_def)
  then have "cache_inv ?cp'"
    by (rule cache_inv_put [OF inv par _ s2(2), rotated]) (simp add: put_set_def)
  then have "refines_access cp cmd addr ?cp'"
    using par s2(5) by (simp add: refines_access_def Let_def put_set_def)
  moreover have "hit_latency cp b now = hit_latency cp (set_blks ?s w) now"
    using touch_data_blk [OF touch] by (simp add: hit_latency_def)
  ultimately show ?thesis using run by (auto simp: counts_hit_def put_set_def)
qed

lemma cache_fast_hit_ok:
  assumes inv: "cache_inv cp" and fast: "CACHE_TAGSET cp addr = cp_last_tagset cp" "cp_last_blk cp \<noteq> None"
  shows "\<exists>acc cp' w. cache_fast_hit cp cmd addr p n now = Some (acc, cp') \<and> refines_access cp cmd addr cp' \<and>
    counts_hit cp cp' \<and> acc_repl acc = 0 \<and> w \<in> all_ways cp \<and>
    blk_holds (cp_sets cp (unat (CACHE_SET cp addr))) (CACHE_TAG cp addr) w \<and>
    acc_lat acc = hit_latency cp (set_blks (cp_sets cp (unat (CACHE_SET cp addr))) w) now"
proof -
  let ?i = "unat (CACHE_SET cp addr)" and ?t = "CACHE_TAG cp addr"
  let ?s = "cp_sets cp ?i"
  from inv obtain bb nn kk where geo: "geometry cp bb nn kk" by (auto simp: cache_inv_def)
  from fast(2) obtain i w where lb: "cp_last_blk cp = Some (i, w)" by auto
  from inv lb obtain a where a: "i = unat (CACHE_SET cp a)" "w \<in> all_ways cp" "blk_holds (cp_sets cp i) (CACHE_TAG cp a) w"
    "cp_last_tagset cp = CACHE_TAGSET cp a" "cp_policy cp = LRU \<longrightarrow> way_head (cp_sets cp i) = Some w"
    by (auto simp: cache_inv_def last_ok_def)
  have eq: "CACHE_TAG cp a = ?t" "CACHE_SET cp a = CACHE_SET cp addr"
    using tagset_eq_iff [OF geo, of addr a] fast(1) a(4) by simp_all
  obtain b buf where touch: "touch_data cp cmd (CACHE_BLK cp addr) p n (set_blks ?s w) = (b, buf)" by force
  note ok = cache_inv_set [OF inv, of addr] and t = touch_data_blk [OF touch]
  have i: "i = ?i" using a(1) eq(2) by simp
  have w: "w \<in> all_ways cp" "blk_holds ?s ?t w" using a i eq by simp_all
  let ?s1 = "upd_blk ?s w (\<lambda>_. b)"
  obtain s2 where s2: "(if way_prev b \<noteq> None \<and> cp_policy cp = LRU then update_way_list ?s1 w Head else Some ?s1) = Some s2"
    "set_ok cp s2" "blk_holds s2 ?t w" "cp_policy cp = LRU \<longrightarrow> way_head s2 = Some w"
    "abs_set cp s2 = spec_access (cp_policy cp) (cmd = Write) ?t (abs_set cp ?s)"
    using hit_set_ok [OF ok w touch refl] by blast
  have front: "\<not> (way_prev b \<noteq> None \<and> cp_policy cp = LRU)"
  proof
    assume "way_prev b \<noteq> None \<and> cp_policy cp = LRU"
    then have "way_head ?s = Some w" "wprev ?s w \<noteq> None" using a(5) i t by simp_all
    moreover have "dlist (wnext ?s) (wprev ?s) (way_head ?s) (way_tail ?s) (way_order cp ?s)"
      "w \<in> set (way_order cp ?s)" using set_okD [OF ok] w(1) by (simp_all add: ways_ok_def)
    ultimately show False by (auto elim: dlist_cases)
  qed
  then have s2eq: "s2 = ?s1" using s2(1) by auto
  let ?cp' = "cp\<lparr>cp_hits := cp_hits cp + 1, cp_sets := (cp_sets cp)(i := ?s1),
     cp_last_tagset := CACHE_TAGSET cp addr, cp_last_blk := Some (i, w)\<rparr>"
  have run: "cache_fast_hit cp cmd addr p n now = Some (\<lparr>acc_lat = hit_latency cp b now, acc_buf = buf,
      acc_udata = blk_user b, acc_repl = 0\<rparr>, ?cp')"
    using touch lb i by (simp add: cache_fast_hit_def Let_def)
  have par: "params ?cp' = params cp" by (simp add: params_def)
  note P = paramsD [OF par]
  have "last_ok ?cp'" using s2(3,4) w(1) P i unfolding s2eq by (auto simp: last_ok_def)
  then have "cache_inv ?cp'"
    by (rule cache_inv_put [OF inv par _ s2(2) [unfolded s2eq], rotated]) simp
  then have "refines_access cp cmd addr ?cp'"
    using par s2(5) i unfolding s2eq by (simp add: refines_access_def Let_def)
  moreover have "hit_latency cp b now = hit_latency cp (set_blks ?s w) now"
    using t by (simp add: hit_latency_def)
  ultimately show ?thesis using run w by (auto simp: counts_hit_def)
qed

section \<open>Misses\<close>

lemma assoc_ways:
  assumes "cache_inv cp"
  shows "0 < unat (cp_assoc cp)" "unat (rnd AND (cp_assoc cp - 1)) \<in> all_ways cp"
proof -
  obtain k where k: "k < 31" "cp_assoc cp = 2 ^ k" using assms by (auto simp: cache_inv_def geometry_def)
  then show "0 < unat (cp_assoc cp)" by simp
  have "rnd AND (cp_assoc cp - 1) = take_bit k rnd" using k by (simp add: take_bit_eq_mask mask_eq_exp_minus_1)
  then have "unat (rnd AND (cp_assoc cp - 1)) < 2 ^ k" by (simp add: unsigned_take_bit_eq)
  then show "unat (rnd AND (cp_assoc cp - 1)) \<in> all_ways cp" using k by (simp add: all_ways_def)
qed

lemma way_order_nonempty: "cache_inv cp \<Longrightarrow> set_ok cp s \<Longrightarrow> way_order cp s \<noteq> []"
  using assoc_ways(1) set_okD(2) by (fastforce simp: all_ways_def)

lemma select_repl_ok:
  assumes inv: "cache_inv cp" and ok: "set_ok cp s"
  shows "\<exists>w s1. select_repl cp rnd s = Some (w, s1) \<and> w \<in> all_ways cp \<and> same_but_ways s s1 \<and> set_ok cp s1 \<and>
    w = victim_way cp rnd s \<and>
    way_order cp s1 = (if cp_policy cp = Random then way_order cp s else w # butlast (way_order cp s))"
proof (cases "cp_policy cp = Random")
  case True
  then show ?thesis using assoc_ways(2) [OF inv] ok by (auto simp: select_repl_def victim_way_def)
next
  case False
  note ne = way_order_nonempty [OF inv ok]
  let ?w = "last (way_order cp s)"
  have d: "dlist (wnext s) (wprev s) (way_head s) (way_tail s) (way_order cp s)"
    using set_okD(1) [OF ok] by (simp add: ways_ok_def)
  have tl: "way_tail s = Some ?w" by (rule dlist_nonempty(2) [OF d ne])
  have w: "?w \<in> all_ways cp" using ne last_in_set [OF ne] set_okD(2) [OF ok] by auto
  obtain s1 where s1: "update_way_list s ?w Head = Some s1" "set_ok cp s1" "same_but_ways s s1"
    "way_order cp s1 = move_to Head ?w (way_order cp s)" using set_ok_move [OF ok w] by blast
  have dd: "distinct (butlast (way_order cp s) @ [?w])"
    using set_okD(5) [OF ok] append_butlast_last_id [OF ne] by simp
  have "removeAll ?w (way_order cp s) = removeAll ?w (butlast (way_order cp s) @ [?w])"
    using append_butlast_last_id [OF ne] by simp
  also have "\<dots> = butlast (way_order cp s)" using dd by (simp add: removeAll_id)
  finally have "removeAll ?w (way_order cp s) = butlast (way_order cp s)" .
  then show ?thesis using False tl s1 w by (auto simp: select_repl_def move_to_def victim_way_def)
qed

text \<open>Taking a block out of the hash table, giving it a new tag and contents, and linking it back.\<close>

lemma refill_ok:
  assumes ok: "set_ok cp s1" and w: "w \<in> all_ways cp" and none: "\<And>v. v \<in> all_ways cp \<Longrightarrow> \<not> blk_holds s1 t v"
  shows "\<exists>s2. (if cp_hsize cp \<noteq> 0 then unlink_htab_ent cp s1 w else Some s1) = Some s2 \<and>
    blk_tag (set_blks s2 w) = blk_tag (set_blks s1 w) \<and>
    blk_status (set_blks s2 w) = blk_status (set_blks s1 w) \<and> blk_ready (set_blks s2 w) = blk_ready (set_blks s1 w) \<and>
    (\<forall>b s4. way_next b = way_next (set_blks s2 w) \<longrightarrow> way_prev b = way_prev (set_blks s2 w) \<longrightarrow>
       blk_tag b = t \<longrightarrow> bit (blk_status b) 0 \<longrightarrow>
       s4 = (if cp_hsize cp \<noteq> 0 then link_htab_ent cp (upd_blk s2 w (\<lambda>_. b)) w else upd_blk s2 w (\<lambda>_. b)) \<longrightarrow>
       set_ok cp s4 \<and> way_order cp s4 = way_order cp s1 \<and>
       (\<forall>v. entry_of s4 v = (if v = w then Some (t, bit (blk_status b) 1) else entry_of s1 v)))"
proof -
  have unl: "\<exists>s2. (if cp_hsize cp \<noteq> 0 then unlink_htab_ent cp s1 w else Some s1) = Some s2 \<and> same_but_hash s1 s2 \<and>
      (cp_hsize cp \<noteq> 0 \<longrightarrow> hash_ok cp s2 (all_ways cp - {w}))"
    using unlink_htab_ent_ok [OF set_okD(3) [OF ok] w] by (auto simp: same_but_hash_def)
  then obtain s2 where s2: "(if cp_hsize cp \<noteq> 0 then unlink_htab_ent cp s1 w else Some s1) = Some s2"
    "same_but_hash s1 s2" "cp_hsize cp \<noteq> 0 \<longrightarrow> hash_ok cp s2 (all_ways cp - {w})" by blast
  note S = same_but_hashD [OF s2(2)]
  have "set_ok cp s4 \<and> way_order cp s4 = way_order cp s1 \<and>
      (\<forall>v. entry_of s4 v = (if v = w then Some (t, bit (blk_status b) 1) else entry_of s1 v))"
    if b: "way_next b = way_next (set_blks s2 w)" "way_prev b = way_prev (set_blks s2 w)" "blk_tag b = t"
      "bit (blk_status b) 0" and s4: "s4 = (if cp_hsize cp \<noteq> 0 then link_htab_ent cp (upd_blk s2 w (\<lambda>_. b)) w
        else upd_blk s2 w (\<lambda>_. b))" for b s4
  proof -
    let ?s3 = "upd_blk s2 w (\<lambda>_. b)"
    have h3: "cp_hsize cp \<noteq> 0 \<Longrightarrow> hash_ok cp ?s3 (all_ways cp - {w})" using s2(3) by (simp add: hash_ok_upd_out)
    have same: "same_but_hash ?s3 s4"
      using link_htab_ent_ok(2) [OF h3, of w] unfolding s4 by (auto simp: same_but_hash_def)
    note T = same_but_hashD [OF same]
    have hash4: "cp_hsize cp \<noteq> 0 \<Longrightarrow> hash_ok cp s4 (all_ways cp)"
      using link_htab_ent_ok(1) [OF h3, of w] w by (simp add: s4 insert_absorb)
    have "wnext ?s3 = wnext s1" "wprev ?s3 = wprev s1" using b(1,2) S by (auto simp: fun_eq_iff)
    then have "ways_ok ?s3 (way_order cp s1)" using set_okD(1) [OF ok] S by (simp add: ways_ok_def)
    then have ways4: "ways_ok s4 (way_order cp s1)" using ways_ok_same_but_hash [OF same] by simp
    have hold: "valid_blk s4 v = (v = w \<or> valid_blk s1 v)" "blk_tag (set_blks s4 v) = (if v = w then t else blk_tag (set_blks s1 v))" for v
      using b(3,4) T S by (auto simp: valid_blk_bit)
    have "tags_unique s4 (all_ways cp)"
      using set_okD(4) [OF ok] none unfolding tags_unique_def inj_on_def blk_holds_bit
      by (auto simp: hold split: if_splits)
    then have "set_ok cp s4" "way_order cp s4 = way_order cp s1"
      using set_okI [OF ways4 set_okD(2) [OF ok] hash4] by blast+
    moreover have "entry_of s4 v = (if v = w then Some (t, bit (blk_status b) 1) else entry_of s1 v)" for v
      using T S hold [of v] by (auto simp: entry_of_def dirty_blk_bit)
    ultimately show ?thesis by blast
  qed
  with s2(1) S show ?thesis by blast
qed

lemma evict_facts:
  assumes "evict fn cp st b now m = Some (lat, repl, cp1, b1, m1)"
  shows "params cp1 = params cp" "cp_sets cp1 = cp_sets cp" "cp_last_tagset cp1 = cp_last_tagset cp"
    "cp_last_blk cp1 = cp_last_blk cp" "cp_hits cp1 = cp_hits cp" "cp_misses cp1 = cp_misses cp"
    "way_next b1 = way_next b" "way_prev b1 = way_prev b" "hash_next b1 = hash_next b"
    "repl = (if bit (blk_status b) 0 then CACHE_MK_BADDR cp (blk_tag b) st else 0)"
    "cp_replacements cp1 = cp_replacements cp + of_bool (bit (blk_status b) 0)"
    "cp_writebacks cp1 = cp_writebacks cp + of_bool (bit (blk_status b) 0 \<and> bit (blk_status b) 1)"
  using assms by (auto simp: evict_def Let_def params_def split: if_splits Option.bind_splits)

lemma evict_log:
  assumes "evict fn cp st b now m = Some (lat, repl, cp1, b1, m1)" "tracks P fn obs step" "P m"
  shows "P m1 \<and> obs m1 = fold step (if bit (blk_status b) 0 \<and> bit (blk_status b) 1
    then [(Write, CACHE_MK_BADDR cp (blk_tag b) st, cp_bsize cp)] else []) (obs m)"
  using assms(1,3) tracksD [OF assms(2)] by (auto simp: evict_def Let_def split: if_splits Option.bind_splits)

text \<open>The counters a miss moves.\<close>

definition counts_miss :: "gcache_t \<Rightarrow> entry_t \<Rightarrow> gcache_t \<Rightarrow> bool" where
  "counts_miss cp e cp' \<longleftrightarrow> cp_hits cp' = cp_hits cp \<and> cp_misses cp' = cp_misses cp + 1 \<and>
     cp_replacements cp' = cp_replacements cp + of_bool (e \<noteq> None) \<and>
     cp_writebacks cp' = cp_writebacks cp + of_bool (is_dirty e)"

lemma cache_miss_ok:
  assumes inv: "cache_inv cp"
    and none: "\<And>v. v \<in> all_ways cp \<Longrightarrow>
      \<not> blk_holds (cp_sets cp (unat (CACHE_SET cp addr))) (CACHE_TAG cp addr) v"
    and run: "cache_miss fn cp cmd addr p n now rnd m = Some (acc, cp', m')"
  shows "refines_access cp cmd addr cp'" "cp_last_blk cp' = None" "cp_last_tagset cp' = 0"
    "counts_miss cp (victim_entry cp rnd addr) cp'"
    "cp_policy cp = Random \<Longrightarrow> abs_set cp (cp_sets cp' (unat (CACHE_SET cp addr))) = spec_set cp rnd (cmd = Write) addr"
    "tracks P fn obs step \<Longrightarrow> P m \<Longrightarrow> P m' \<and> obs m' = fold step (miss_calls cp rnd addr) (obs m)"
proof -
  let ?st = "CACHE_SET cp addr" and ?t = "CACHE_TAG cp addr"
  let ?s = "cp_sets cp (unat ?st)"
  note ok = cache_inv_set [OF inv, of addr]
  obtain w s1 where s1: "select_repl cp rnd ?s = Some (w, s1)" "w \<in> all_ways cp" "same_but_ways ?s s1" "set_ok cp s1"
    "w = victim_way cp rnd ?s"
    "way_order cp s1 = (if cp_policy cp = Random then way_order cp ?s else w # butlast (way_order cp ?s))"
    using select_repl_ok [OF inv ok] by blast
  have none1: "\<And>v. v \<in> all_ways cp \<Longrightarrow> \<not> blk_holds s1 ?t v"
    using none by (simp add: blk_holds_bit valid_blk_bit same_but_waysD [OF s1(3)])
  obtain s2 where s2: "(if cp_hsize cp \<noteq> 0 then unlink_htab_ent cp s1 w else Some s1) = Some s2"
    "blk_tag (set_blks s2 w) = blk_tag (set_blks s1 w)" "blk_status (set_blks s2 w) = blk_status (set_blks s1 w)"
    and fill: "\<And>b s4. way_next b = way_next (set_blks s2 w) \<Longrightarrow> way_prev b = way_prev (set_blks s2 w) \<Longrightarrow>
       blk_tag b = ?t \<Longrightarrow> bit (blk_status b) 0 \<Longrightarrow>
       s4 = (if cp_hsize cp \<noteq> 0 then link_htab_ent cp (upd_blk s2 w (\<lambda>_. b)) w else upd_blk s2 w (\<lambda>_. b)) \<Longrightarrow>
       set_ok cp s4 \<and> way_order cp s4 = way_order cp s1 \<and>
       (\<forall>v. entry_of s4 v = (if v = w then Some (?t, bit (blk_status b) 1) else entry_of s1 v))"
    using refill_ok [OF s1(4) s1(2) none1] by blast
  let ?cp0 = "cp\<lparr>cp_misses := cp_misses cp + 1, cp_last_tagset := 0, cp_last_blk := None\<rparr>"
  have run': "(do { (lat1, repl, cp1, b1, m1) \<leftarrow> evict fn ?cp0 ?st (set_blks s2 w) now m;
      (let b2 = b1\<lparr>blk_tag := ?t, blk_status := CACHE_BLK_VALID\<rparr> in do {
           (l, data, user, m2) \<leftarrow> fn Read (CACHE_BADDR cp addr) (cp_bsize cp) b2 (tick_plus now lat1) m1;
           (let lat2 = lat1 + l;
                (b3, buf) = touch_data cp cmd (CACHE_BLK cp addr) p n (b2\<lparr>blk_data := data, blk_user := user\<rparr>);
                b4 = b3\<lparr>blk_ready := tick_plus now lat2\<rparr>;
                s3 = upd_blk s2 w (\<lambda>_. b4);
                s4 = (if cp_hsize cp \<noteq> 0 then link_htab_ent cp s3 w else s3)
            in Some (\<lparr>acc_lat = lat2, acc_buf = buf, acc_udata = blk_user b4, acc_repl = repl\<rparr>,
                     put_set cp1 ?st s4, m2)) }) }) = Some (acc, cp', m')"
    using run unfolding cache_miss_def Let_def s1(1) Option.bind.bind_lunit prod.case s2(1) .
  obtain lat1 repl cp1 b1 m1 where ev: "evict fn ?cp0 ?st (set_blks s2 w) now m = Some (lat1, repl, cp1, b1, m1)"
    using run' by (cases "evict fn ?cp0 ?st (set_blks s2 w) now m") auto
  let ?b2 = "b1\<lparr>blk_tag := ?t, blk_status := CACHE_BLK_VALID\<rparr>"
  obtain l data user where rd: "fn Read (CACHE_BADDR cp addr) (cp_bsize cp) ?b2 (tick_plus now lat1) m1 = Some (l, data, user, m')"
    using run' ev by (cases "fn Read (CACHE_BADDR cp addr) (cp_bsize cp) ?b2 (tick_plus now lat1) m1")
      (auto simp: Let_def split: prod.splits)
  obtain b3 buf where touch: "touch_data cp cmd (CACHE_BLK cp addr) p n (?b2\<lparr>blk_data := data, blk_user := user\<rparr>) = (b3, buf)"
    by force
  let ?b4 = "b3\<lparr>blk_ready := tick_plus now (lat1 + l)\<rparr>"
  define s4 where "s4 = (if cp_hsize cp \<noteq> 0 then link_htab_ent cp (upd_blk s2 w (\<lambda>_. ?b4)) w else upd_blk s2 w (\<lambda>_. ?b4))"
  have cp': "cp' = put_set cp1 ?st s4" using run' ev rd touch by (simp add: Let_def s4_def)
  note E = evict_facts [OF ev] and T = touch_data_blk [OF touch]
  have s4: "set_ok cp s4" "way_order cp s4 = way_order cp s1"
    "\<And>v. entry_of s4 v = (if v = w then Some (?t, cmd = Write) else entry_of s1 v)"
    using fill [OF _ _ _ _ s4_def] E(7,8) T by simp_all
  have par: "params cp' = params cp" using E(1) by (simp add: cp' put_set_def params_def)
  show last: "cp_last_blk cp' = None" "cp_last_tagset cp' = 0" using E(3,4) by (simp_all add: cp' put_set_def)
  have "cache_inv cp'"
    using E(2) last by (intro cache_inv_put [OF inv par _ s4(1)]) (simp_all add: cp' put_set_def last_ok_def)
  moreover have absent: "\<not> (\<exists>e \<in> set (abs_set cp ?s). has_tag ?t e)" using abs_set_has_tag [OF ok] none by blast
  moreover have "abs_set cp s4 = spec_access (cp_policy cp) (cmd = Write) ?t (abs_set cp ?s)" if pol: "cp_policy cp \<noteq> Random"
  proof -
    have "distinct (w # butlast (way_order cp ?s))" using set_okD(5) [OF s1(4)] s1(6) pol by simp
    then have "map (entry_of s4) (butlast (way_order cp ?s)) = map (entry_of s1) (butlast (way_order cp ?s))"
      by (intro map_cong) (auto simp: s4(3))
    then have "abs_set cp s4 = Some (?t, cmd = Write) # butlast (abs_set cp ?s)"
      using s1(6) pol s4(2,3) by (simp add: abs_set_def map_butlast same_but_ways_entry [OF s1(3)])
    moreover note absent
    ultimately show ?thesis by (auto simp: spec_access_def)
  qed
  ultimately show "refines_access cp cmd addr cp'"
    using par E(2) absent by (auto simp: refines_access_def Let_def cp' put_set_def present_def)
  have bits: "bit (blk_status (set_blks s2 w)) i = bit (blk_status (set_blks ?s w)) i" for i
    using s2(3) same_but_waysD(4) [OF s1(3)] by simp
  have vic: "victim_entry cp rnd addr = entry_of ?s w" by (simp add: victim_entry_def Let_def s1(5))
  show "counts_miss cp (victim_entry cp rnd addr) cp'"
    using E(5,6,11,12) bits
    by (auto simp: counts_miss_def cp' put_set_def vic entry_of_def valid_blk_bit dirty_blk_bit is_dirty_def)
  show "abs_set cp (cp_sets cp' (unat ?st)) = spec_set cp rnd (cmd = Write) addr" if "cp_policy cp = Random"
    using that absent s1(6) s4(2,3)
    by (simp add: spec_set_def Let_def present_def cp' put_set_def abs_set_def same_but_ways_entry [OF s1(3)] s1(5))
  assume log: "tracks P fn obs step" "P m"
  have par0: "params ?cp0 = params cp" by (simp add: params_def)
  have "blk_tag (set_blks s2 w) = blk_tag (set_blks ?s w)" using s2(2) same_but_waysD [OF s1(3)] by simp
  then have "P m1 \<and> obs m1 = fold step (write_back cp ?st (victim_entry cp rnd addr)) (obs m)"
    using evict_log [OF ev log] bits
    by (simp add: vic write_back_def entry_of_def valid_blk_bit dirty_blk_bit paramsD [OF par0])
  then show "P m' \<and> obs m' = fold step (miss_calls cp rnd addr) (obs m)"
    using tracksD [OF log(1) rd] by (simp add: miss_calls_def)
qed

end
