(* ===== verification/Cache_Props.thy ===== *)
theory Cache_Props
  imports Cache_Refine
begin

text \<open>
  What the general cache does, for any level below it: every access refines the abstract
  replacement policy, the search finds a block however the set is searched, an LRU cache
  holds the blocks accessed most recently, and a flush leaves no valid block.
\<close>

section \<open>One access\<close>

lemma find_blk_abs:
  assumes "cache_inv cp"
  shows "\<exists>r. find_blk cp (CACHE_SET cp a) (CACHE_TAG cp a) = Some r \<and>
    (r \<noteq> None \<longleftrightarrow> (\<exists>e \<in> set (abs_set cp (cp_sets cp (unat (CACHE_SET cp a)))). has_tag (CACHE_TAG cp a) e))"
proof -
  note ok = cache_inv_set [OF assms, of a]
  obtain r where "find_blk cp (CACHE_SET cp a) (CACHE_TAG cp a) = Some r"
    "r = None \<Longrightarrow> \<forall>w \<in> all_ways cp. \<not> blk_holds (cp_sets cp (unat (CACHE_SET cp a))) (CACHE_TAG cp a) w"
    "\<And>w. r = Some w \<Longrightarrow> w \<in> all_ways cp \<and> blk_holds (cp_sets cp (unat (CACHE_SET cp a))) (CACHE_TAG cp a) w"
    using find_blk_ok [OF ok] by blast
  then show ?thesis using abs_set_has_tag [OF ok, of "CACHE_TAG cp a"] by (cases r) auto
qed

definition counts_access :: "gcache_t \<Rightarrow> word_t \<Rightarrow> md_addr_t \<Rightarrow> gcache_t \<Rightarrow> bool" where
  "counts_access cp rnd a cp' \<longleftrightarrow>
     (if present cp a then counts_hit cp cp' else counts_miss cp (victim_entry cp rnd a) cp')"

lemma cache_access_ok:
  assumes inv: "cache_inv cp" and run: "cache_access fn cp cmd addr p n now rnd m = Some (acc, cp', m')"
  shows "refines_access cp cmd addr cp'" "counts_access cp rnd addr cp'"
    "abs_set cp (cp_sets cp' (unat (CACHE_SET cp addr))) = spec_set cp rnd (cmd = Write) addr"
    "tracks P fn obs step \<Longrightarrow> P m \<Longrightarrow>
       P m' \<and> obs m' = fold step (if present cp addr then [] else miss_calls cp rnd addr) (obs m)"
proof -
  let ?s = "cp_sets cp (unat (CACHE_SET cp addr))" and ?t = "CACHE_TAG cp addr"
  note ok = cache_inv_set [OF inv, of addr]
  have there: "present cp addr \<longleftrightarrow> (\<exists>w \<in> all_ways cp. blk_holds ?s ?t w)"
    unfolding present_def by (rule abs_set_has_tag [OF ok])
  have hit: "refines_access cp cmd addr cp' \<and> counts_access cp rnd addr cp' \<and> present cp addr \<and> m' = m"
    if "refines_access cp cmd addr cp'" "counts_hit cp cp'" "w \<in> all_ways cp" "blk_holds ?s ?t w" "m' = m" for w
    using that there by (auto simp: counts_access_def)
  have "refines_access cp cmd addr cp' \<and> counts_access cp rnd addr cp' \<and>
      (present cp addr \<and> m' = m \<or> \<not> present cp addr \<and>
        (cp_policy cp = Random \<longrightarrow> abs_set cp (cp_sets cp' (unat (CACHE_SET cp addr))) = spec_set cp rnd (cmd = Write) addr) \<and>
        (tracks P fn obs step \<longrightarrow> P m \<longrightarrow> P m' \<and> obs m' = fold step (miss_calls cp rnd addr) (obs m)))"
  proof (cases "CACHE_TAGSET cp addr = cp_last_tagset cp")
    case True
    then have fast: "cache_fast_hit cp cmd addr p n now = Some (acc, cp')" "m' = m"
      using run by (auto simp: cache_access_def split: if_splits Option.bind_splits)
    then have lb: "cp_last_blk cp \<noteq> None" by (cases "cp_last_blk cp") (simp_all add: cache_fast_hit_def)
    from cache_fast_hit_ok [OF inv True lb, of cmd p n now] fast show ?thesis using hit by auto
  next
    case False
    obtain r where r: "find_blk cp (CACHE_SET cp addr) ?t = Some r"
      "r = None \<Longrightarrow> \<forall>w \<in> all_ways cp. \<not> blk_holds ?s ?t w"
      "\<And>w. r = Some w \<Longrightarrow> w \<in> all_ways cp \<and> blk_holds ?s ?t w"
      using find_blk_ok [OF ok] by blast
    show ?thesis
    proof (cases r)
      case None
      then have miss: "cache_miss fn cp cmd addr p n now rnd m = Some (acc, cp', m')"
        using run False r(1) by (auto simp: cache_access_def split: if_splits)
      have none: "\<And>v. v \<in> all_ways cp \<Longrightarrow> \<not> blk_holds ?s ?t v" using r(2) None by blast
      then have "\<not> present cp addr" using there by blast
      then show ?thesis using cache_miss_ok [OF inv none miss] by (auto simp: counts_access_def)
    next
      case (Some w)
      then have h: "cache_hit cp cmd addr p n now w = Some (acc, cp')" "m' = m"
        using run False r(1) by (auto simp: cache_access_def split: if_splits Option.bind_splits)
      have w: "w \<in> all_ways cp" "blk_holds ?s ?t w" using r(3) Some by auto
      from cache_hit_ok [OF inv w, of cmd p n now] h show ?thesis using hit w by auto
    qed
  qed
  then show ref: "refines_access cp cmd addr cp'" "counts_access cp rnd addr cp'"
    and "tracks P fn obs step \<Longrightarrow> P m \<Longrightarrow>
       P m' \<and> obs m' = fold step (if present cp addr then [] else miss_calls cp rnd addr) (obs m)"
    and "abs_set cp (cp_sets cp' (unat (CACHE_SET cp addr))) = spec_set cp rnd (cmd = Write) addr"
    by (auto simp: refines_access_def spec_set_def Let_def)
qed

lemma cache_access_log:
  assumes "cache_inv cp" "cache_access fn cp cmd addr p n now rnd m = Some (acc, cp', m')" "records fn log"
  shows "log m' = log m @ (if present cp addr then [] else miss_calls cp rnd addr)"
  using cache_access_ok(4) [OF assms(1,2) records_tracks [OF assms(3)] TrueI] by (simp add: fold_snoc)

lemma refines_accessD:
  assumes "refines_access cp cmd a cp'"
  shows "cache_inv cp'" "params cp' = params cp"
    "j \<noteq> unat (CACHE_SET cp a) \<Longrightarrow> cp_sets cp' j = cp_sets cp j"
    "cp_policy cp \<noteq> Random \<Longrightarrow> abs_set cp' (cp_sets cp' (unat (CACHE_SET cp a))) =
       spec_access (cp_policy cp) (cmd = Write) (CACHE_TAG cp a) (abs_set cp (cp_sets cp (unat (CACHE_SET cp a))))"
  using assms paramsD(18) [of cp' cp] by (auto simp: refines_access_def Let_def)

section \<open>Sequences of accesses\<close>

record request_t =
  rq_cmd :: mem_cmd
  rq_addr :: md_addr_t
  rq_buf :: "byte_t list"
  rq_nbytes :: word_t
  rq_now :: tick_t

fun cache_run :: "'m blk_access \<Rightarrow> request_t list \<Rightarrow> gcache_t \<Rightarrow> 'm \<Rightarrow> (gcache_t \<times> 'm) option" where
  "cache_run fn [] cp m = Some (cp, m)"
| "cache_run fn (r # rs) cp m = do {
     (acc, cp1, m1) \<leftarrow> cache_access fn cp (rq_cmd r) (rq_addr r) (rq_buf r) (rq_nbytes r) (rq_now r) 0 m;
     cache_run fn rs cp1 m1 }"

text \<open>The distinct tags of a sequence, the most recent one first.\<close>

definition touch :: "'a \<Rightarrow> 'a list \<Rightarrow> 'a list" where
  "touch t l = t # removeAll t l"

definition recent :: "'a list \<Rightarrow> 'a list" where
  "recent ts = fold touch ts []"

text \<open>The accesses to the set of an address, by tag.\<close>

definition set_tags :: "gcache_t \<Rightarrow> md_addr_t \<Rightarrow> request_t list \<Rightarrow> md_addr_t list" where
  "set_tags cp a rs = map (\<lambda>r. CACHE_TAG cp (rq_addr r))
     (filter (\<lambda>r. CACHE_SET cp (rq_addr r) = CACHE_SET cp a) rs)"

text \<open>An abstract set that holds the first \<open>k\<close> tags of a list, and empty entries behind them.\<close>

definition holds_first :: "nat \<Rightarrow> md_addr_t list \<Rightarrow> entry_t list \<Rightarrow> bool" where
  "holds_first k l es \<longleftrightarrow> map (map_option fst) es = map Some (take k l) @ replicate (k - length l) None"

lemma take_touch_out:
  assumes "t \<notin> set (take k l)" "0 < k" "k \<le> length l"
  shows "take k (touch t l) = t # butlast (take k l)"
proof -
  obtain j where k: "k = Suc j" using assms(2) by (cases k) auto
  have "t \<notin> set (take j l)" using assms(1) k set_take_subset_set_take [of j k l] by auto
  then have "take j (removeAll t (take j l @ drop j l)) = take j l"
    using assms(3) k by (subst removeAll_append) (simp add: removeAll_id)
  then show ?thesis using k assms(3) by (simp add: touch_def butlast_take)
qed

lemma take_touch_in:
  assumes "t \<in> set (take k l)" "distinct l"
  shows "take k (touch t l) = t # removeAll t (take k l)"
proof -
  obtain xs ys where split: "take k l = xs @ t # ys" using assms(1) by (auto simp: in_set_conv_decomp)
  have l: "l = xs @ t # ys @ drop k l" using append_take_drop_id [of k l] split by simp
  have d: "distinct (xs @ t # ys @ drop k l)" using assms(2) l by simp
  have len: "k = Suc (length xs + length ys) \<or> drop k l = []"
    using arg_cong [OF split, of length] by (auto simp: min_def split: if_splits)
  have r: "removeAll t l = xs @ ys @ drop k l" by (subst l) (use d in \<open>simp add: removeAll_id\<close>)
  have "length (xs @ ys) < k" using arg_cong [OF split, of length] by simp
  then have "take k (t # xs @ ys @ drop k l) = t # xs @ ys" using len by (cases k) auto
  moreover have "removeAll t (take k l) = xs @ ys" using split d by (simp add: removeAll_id)
  ultimately show ?thesis by (simp add: touch_def r)
qed

lemma distinct_touch: "distinct l \<Longrightarrow> distinct (touch t l)"
  by (simp add: touch_def distinct_removeAll)

lemma has_tag_first: "holds_first k l es \<Longrightarrow> (\<exists>e \<in> set es. has_tag t e) \<longleftrightarrow> t \<in> set (take k l)"
proof -
  assume h: "holds_first k l es"
  have "(\<exists>e \<in> set es. has_tag t e) \<longleftrightarrow> Some t \<in> set (map (map_option fst) es)"
    unfolding has_tag_def set_map image_iff by metis
  also have "\<dots> \<longleftrightarrow> Some t \<in> set (map Some (take k l) @ replicate (k - length l) None)"
    by (simp only: h [unfolded holds_first_def])
  also have "\<dots> \<longleftrightarrow> t \<in> set (take k l)" by auto
  finally show ?thesis .
qed

lemma length_touch: "distinct l \<Longrightarrow> length (touch t l) = (if t \<in> set l then length l else Suc (length l))"
  by (auto simp: touch_def distinct_remove1_removeAll [symmetric] length_remove1 dest: length_pos_if_in_set)

lemma spec_access_first:
  assumes h: "holds_first k l es" and d: "distinct l" and k: "0 < k"
  shows "holds_first k (touch t l) (spec_access LRU wr t es)"
proof (cases "t \<in> set (take k l)")
  case True
  have "map (map_option fst) (filter (\<lambda>e. \<not> has_tag t e) es) = filter (\<lambda>x. x \<noteq> Some t) (map (map_option fst) es)"
    by (simp add: filter_map o_def has_tag_def)
  also have "\<dots> = map Some (removeAll t (take k l)) @ replicate (k - length l) None"
    using h unfolding holds_first_def by (simp add: filter_map o_def removeAll_filter_not_eq neq_commute)
  finally have "map (map_option fst) (spec_access LRU wr t es) =
      map Some (t # removeAll t (take k l)) @ replicate (k - length l) None"
    using has_tag_first [OF h] True by (simp add: spec_access_def spec_hit_def)
  moreover have "length (touch t l) = length l" using True d by (auto simp: length_touch dest: in_set_takeD)
  ultimately show ?thesis using take_touch_in [OF True d] by (simp add: holds_first_def)
next
  case False
  have m: "map (map_option fst) (spec_access LRU wr t es) = Some t # butlast (map Some (take k l) @ replicate (k - length l) None)"
    using has_tag_first [OF h] False h by (simp add: spec_access_def map_butlast holds_first_def)
  show ?thesis
  proof (cases "k \<le> length l")
    case True
    have "k - length (touch t l) = 0" using True d by (simp add: length_touch)
    then show ?thesis using m True take_touch_out [OF False k True] by (simp add: holds_first_def map_butlast)
  next
    case short: False
    then have "t \<notin> set l" using False by simp
    then have "touch t l = t # l" by (simp add: touch_def removeAll_id)
    moreover obtain j where "k - length l = Suc j" using short by (metis Suc_diff_Suc not_le)
    ultimately show ?thesis using m short by (simp add: holds_first_def butlast_append replicate_append_same [symmetric])
  qed
qed

section \<open>Probing\<close>

lemma cache_probe_abs:
  assumes "cache_inv cp"
  shows "cache_probe cp a =
    Some (\<exists>e \<in> set (abs_set cp (cp_sets cp (unat (CACHE_SET cp a)))). has_tag (CACHE_TAG cp a) e)"
  using find_blk_abs [OF assms, of a] by (auto simp: cache_probe_def)

lemma spec_access_holds: "\<exists>e \<in> set (spec_access pol wr t es). has_tag t e"
proof (cases "\<exists>e \<in> set es. has_tag t e")
  case True
  then show ?thesis by (auto simp: spec_access_def spec_hit_def Let_def has_tag_def)
next
  case False
  then show ?thesis by (auto simp: spec_access_def has_tag_def)
qed

lemma spec_set_holds:
  assumes "cache_inv cp"
  shows "\<exists>e \<in> set (spec_set cp rnd wr a). has_tag (CACHE_TAG cp a) e"
proof -
  let ?s = "cp_sets cp (unat (CACHE_SET cp a))"
  note ok = cache_inv_set [OF assms, of a]
  have "cp_policy cp = Random \<Longrightarrow> victim_way cp rnd ?s \<in> set (way_order cp ?s)"
    using assoc_ways(2) [OF assms] set_okD(2) [OF ok] by (simp add: victim_way_def)
  moreover have "has_tag (CACHE_TAG cp a) (Some (CACHE_TAG cp a, wr))" by (simp add: has_tag_def)
  ultimately show ?thesis using spec_access_holds unfolding spec_set_def Let_def by (auto split: if_splits)
qed

text \<open>Under LRU and FIFO the victim is the last entry.\<close>

lemma victim_last:
  assumes "cache_inv cp" "cp_policy cp \<noteq> Random"
  shows "victim_entry cp rnd a = last (abs_set cp (cp_sets cp (unat (CACHE_SET cp a))))"
  using way_order_nonempty [OF assms(1) cache_inv_set [OF assms(1), of a]] assms(2)
  by (simp add: victim_entry_def victim_way_def abs_set_def last_map Let_def)

lemma cache_run_recent:
  assumes "cache_inv cp" "cp_policy cp = LRU" "cache_run fn rs cp m = Some (cp', m')" "0 < unat (cp_assoc cp)"
    and "\<And>a. distinct (L (CACHE_SET cp a)) \<and>
      holds_first (unat (cp_assoc cp)) (L (CACHE_SET cp a)) (abs_set cp (cp_sets cp (unat (CACHE_SET cp a))))"
  shows "cache_inv cp' \<and> params cp' = params cp \<and>
    holds_first (unat (cp_assoc cp)) (fold touch (set_tags cp a rs) (L (CACHE_SET cp a)))
      (abs_set cp (cp_sets cp' (unat (CACHE_SET cp a))))"
  using assms
proof (induction rs arbitrary: cp m L)
  case Nil
  then show ?case by (simp add: set_tags_def)
next
  case (Cons r rs)
  from Cons.prems(3) obtain acc cp1 m1 where
    st: "cache_access fn cp (rq_cmd r) (rq_addr r) (rq_buf r) (rq_nbytes r) (rq_now r) 0 m = Some (acc, cp1, m1)"
    and rest: "cache_run fn rs cp1 m1 = Some (cp', m')" by (auto split: Option.bind_splits)
  let ?x = "rq_addr r"
  note ref = cache_access_ok(1) [OF Cons.prems(1) st]
  note R = refines_accessD [OF ref] and P = paramsD [OF refines_accessD(2) [OF ref]]
  define L' where "L' = L(CACHE_SET cp ?x := touch (CACHE_TAG cp ?x) (L (CACHE_SET cp ?x)))"
  have step: "distinct (L' (CACHE_SET cp1 a)) \<and>
      holds_first (unat (cp_assoc cp1)) (L' (CACHE_SET cp1 a)) (abs_set cp1 (cp_sets cp1 (unat (CACHE_SET cp1 a))))" for a
  proof (cases "CACHE_SET cp a = CACHE_SET cp ?x")
    case True
    have "holds_first (unat (cp_assoc cp)) (touch (CACHE_TAG cp ?x) (L (CACHE_SET cp ?x)))
        (spec_access LRU (rq_cmd r = Write) (CACHE_TAG cp ?x) (abs_set cp (cp_sets cp (unat (CACHE_SET cp ?x)))))"
      using Cons.prems(4) Cons.prems(5) [of ?x] by (intro spec_access_first) auto
    then show ?thesis using True Cons.prems(2) Cons.prems(5) [of ?x] R(4)
      by (simp add: P L'_def distinct_touch)
  next
    case False
    then have "unat (CACHE_SET cp a) \<noteq> unat (CACHE_SET cp ?x)" by (simp add: word_unat_eq_iff)
    then show ?thesis using False Cons.prems(5) [of a] R(3) by (simp add: P L'_def)
  qed
  have "cache_inv cp' \<and> params cp' = params cp1 \<and>
      holds_first (unat (cp_assoc cp1)) (fold touch (set_tags cp1 a rs) (L' (CACHE_SET cp1 a)))
        (abs_set cp1 (cp_sets cp' (unat (CACHE_SET cp1 a))))"
    by (rule Cons.IH [OF R(1) _ rest _ step]) (use Cons.prems(2,4) P in simp_all)
  moreover have "fold touch (set_tags cp1 a rs) (L' (CACHE_SET cp1 a)) =
      fold touch (set_tags cp a (r # rs)) (L (CACHE_SET cp a))"
    by (simp add: set_tags_def P L'_def)
  ultimately show ?case using R(2) by (simp add: P)
qed

lemma fresh_holds_nothing:
  assumes "cache_inv cp" "\<And>i w. \<not> valid_blk (cp_sets cp i) w"
  shows "holds_first (unat (cp_assoc cp)) [] (abs_set cp (cp_sets cp (unat (CACHE_SET cp a))))"
proof -
  note ok = cache_inv_set [OF assms(1), of a]
  have "length (way_order cp (cp_sets cp (unat (CACHE_SET cp a)))) = unat (cp_assoc cp)"
    using distinct_card [OF set_okD(5) [OF ok]] set_okD(2) [OF ok] by (simp add: all_ways_def)
  then show ?thesis
    by (simp add: holds_first_def abs_set_def entry_of_def assms(2) o_def map_replicate_const)
qed

section \<open>Flushing\<close>

lemma invalid_status: "bit (x AND NOT CACHE_BLK_VALID) 0 = False" "bit (x AND NOT CACHE_BLK_VALID) 1 = bit (x :: word_t) 1"
  "bit (x AND NOT CACHE_BLK_VALID) (Suc 0) = bit x (Suc 0)"
  by (simp_all add: bit_simps)

definition dirty_ways :: "cset_t \<Rightarrow> nat list \<Rightarrow> nat" where
  "dirty_ways s ws = length (filter is_dirty (map (entry_of s) ws))"

lemma dirty_ways_append: "dirty_ways s (ws @ vs) = dirty_ways s ws + dirty_ways s vs"
  by (simp add: dirty_ways_def)

lemma dirty_ways_cong:
  assumes "\<And>v. v \<in> set vs \<Longrightarrow> entry_of s' v = entry_of s v"
  shows "dirty_ways s' vs = dirty_ways s vs"
proof -
  have "map (entry_of s') vs = map (entry_of s) vs" using assms by (rule map_cong [OF refl])
  then show ?thesis by (simp only: dirty_ways_def)
qed

text \<open>The calls that write back the dirty ones of a list of ways.\<close>

definition way_writes :: "gcache_t \<Rightarrow> md_addr_t \<Rightarrow> cset_t \<Rightarrow> nat list \<Rightarrow> call_t list" where
  "way_writes cp st s ws = concat (map (write_back cp st) (map (entry_of s) ws))"

lemma way_writes_simps:
  "way_writes cp st s [] = []"
  "way_writes cp st s (w # ws) = write_back cp st (entry_of s w) @ way_writes cp st s ws"
  by (simp_all add: way_writes_def)

lemma write_back_params:
  assumes "params cp' = params cp"
  shows "write_back cp' st e = write_back cp st e"
  by (simp add: write_back_def paramsD [OF assms] split: option.split prod.split bool.split)

lemma way_writes_cong:
  assumes "\<And>v. v \<in> set vs \<Longrightarrow> entry_of s' v = entry_of s v" "params cp' = params cp"
  shows "way_writes cp' st s' vs = way_writes cp st s vs"
  using assms(1) by (induction vs) (simp_all add: way_writes_simps write_back_params [OF assms(2)])

text \<open>What invalidating ways of a set does to the cache: the entries go, the order stays.\<close>

definition drops :: "gcache_t \<Rightarrow> nat \<Rightarrow> nat list \<Rightarrow> gcache_t \<Rightarrow> bool" where
  "drops cp i ws cp' \<longleftrightarrow> params cp' = params cp \<and> (\<forall>j. j \<noteq> i \<longrightarrow> cp_sets cp' j = cp_sets cp j) \<and>
     set_ok cp (cp_sets cp' i) \<and> way_order cp (cp_sets cp' i) = way_order cp (cp_sets cp i) \<and>
     wnext (cp_sets cp' i) = wnext (cp_sets cp i) \<and>
     (\<forall>v. entry_of (cp_sets cp' i) v = (if v \<in> set ws then None else entry_of (cp_sets cp i) v)) \<and>
     cp_last_blk cp' = cp_last_blk cp \<and> cp_last_tagset cp' = cp_last_tagset cp \<and>
     cp_writebacks cp' = cp_writebacks cp + of_nat (dirty_ways (cp_sets cp i) ws)"

lemma invalidate_ok:
  assumes ok: "set_ok cp (cp_sets cp (unat st))" and v: "valid_blk (cp_sets cp (unat st)) w"
    and run: "invalidate fn cp st w now lat m = Some (lat', cp', m')"
  shows "drops cp (unat st) [w] cp'"
    "records fn log \<Longrightarrow> log m' = log m @ way_writes cp st (cp_sets cp (unat st)) [w]"
proof -
  let ?s = "cp_sets cp (unat st)"
  obtain data user b where b: "b = (set_blks ?s w)\<lparr>blk_status := blk_status (set_blks ?s w) AND NOT CACHE_BLK_VALID,
      blk_data := data, blk_user := user\<rparr>"
    and cp': "params cp' = params cp" "cp_sets cp' = (cp_sets cp)(unat st := upd_blk ?s w (\<lambda>_. b))"
      "cp_last_blk cp' = cp_last_blk cp" "cp_last_tagset cp' = cp_last_tagset cp"
      "cp_writebacks cp' = cp_writebacks cp + of_bool (dirty_blk ?s w)"
  proof (cases "dirty_blk ?s w")
    case True
    with run obtain l data user where "cp' = (put_set (put_set cp st (upd_blk ?s w (\<lambda>_. (set_blks ?s w)\<lparr>blk_status :=
          blk_status (set_blks ?s w) AND NOT CACHE_BLK_VALID\<rparr>))\<lparr>cp_invalidations := cp_invalidations cp + 1\<rparr>) st
        (upd_blk (upd_blk ?s w (\<lambda>_. (set_blks ?s w)\<lparr>blk_status := blk_status (set_blks ?s w) AND NOT CACHE_BLK_VALID\<rparr>)) w
           (\<lambda>b. b\<lparr>blk_data := data, blk_user := user\<rparr>)))\<lparr>cp_writebacks := cp_writebacks cp + 1\<rparr>"
      by (auto simp: invalidate_def Let_def dirty_blk_bit invalid_status put_set_def split: Option.bind_splits)
    with True show ?thesis
      by (intro that [of _ user data]) (auto simp: put_set_def params_def upd_blk_def)
  next
    case False
    with run have "cp' = put_set cp st (upd_blk ?s w (\<lambda>_. (set_blks ?s w)\<lparr>blk_status :=
          blk_status (set_blks ?s w) AND NOT CACHE_BLK_VALID\<rparr>))\<lparr>cp_invalidations := cp_invalidations cp + 1\<rparr>"
      by (auto simp: invalidate_def Let_def dirty_blk_bit invalid_status put_set_def)
    with False show ?thesis
      by (intro that [of _ "blk_user (set_blks ?s w)" "blk_data (set_blks ?s w)"]) (auto simp: put_set_def params_def)
  qed
  have "set_ok cp (upd_blk ?s w (\<lambda>_. b))" "way_order cp (upd_blk ?s w (\<lambda>_. b)) = way_order cp ?s"
    using set_ok_rewrite [OF ok, of "\<lambda>_. b" w] by (auto simp: b invalid_status)
  moreover have "entry_of (upd_blk ?s w (\<lambda>_. b)) v = (if v = w then None else entry_of ?s v)" for v
    by (auto simp: entry_of_def valid_blk_bit dirty_blk_bit b invalid_status)
  moreover have "is_dirty (entry_of ?s w) = dirty_blk ?s w" using v by (auto simp: is_dirty_def entry_of_def)
  ultimately show "drops cp (unat st) [w] cp'" using cp' by (auto simp: drops_def b dirty_ways_def)
  show "log m' = log m @ way_writes cp st ?s [w]" if "records fn log"
    using run v recordsD [OF that]
    by (auto simp: invalidate_def Let_def dirty_blk_bit invalid_status way_writes_simps write_back_def entry_of_def
        split: if_splits Option.bind_splits)
qed

lemma drops_trans:
  assumes "drops cp i ws cp'" "drops cp' i vs cp''" "set ws \<inter> set vs = {}"
  shows "drops cp i (ws @ vs) cp''"
proof -
  note P = paramsD [of cp' cp]
  have par: "params cp' = params cp" using assms(1) by (simp add: drops_def)
  have "dirty_ways (cp_sets cp' i) vs = dirty_ways (cp_sets cp i) vs"
    using assms(1,3) by (intro dirty_ways_cong) (auto simp: drops_def)
  then show ?thesis using assms P [OF par] by (auto simp: drops_def dirty_ways_append)
qed

lemma flush_ways_ok:
  assumes "set_ok cp (cp_sets cp (unat st))" "chain (wnext (cp_sets cp (unat st))) p ws" "distinct ws"
    and "flush_ways fn st now p lat cp m = Some (lat', cp', m')"
  shows "drops cp (unat st) ws cp' \<and>
    (records fn log \<longrightarrow> log m' = log m @ way_writes cp st (cp_sets cp (unat st)) ws)"
  using assms
proof (induction ws arbitrary: p lat cp m)
  case Nil
  then show ?case by (simp add: flush_ways.simps drops_def dirty_ways_def way_writes_simps)
next
  case (Cons w ws)
  let ?i = "unat st"
  from Cons.prems(2) have p: "p = Some w" by simp
  from Cons.prems(4) obtain lat1 cp1 m1 where
    one: "(if valid_blk (cp_sets cp ?i) w then invalidate fn cp st w now lat m else Some (lat, cp, m)) = Some (lat1, cp1, m1)"
    and rest: "flush_ways fn st now (wnext (cp_sets cp1 ?i) w) lat1 cp1 m1 = Some (lat', cp', m')"
    by (subst (asm) flush_ways.simps) (auto simp: p valid_blk_def split: Option.bind_splits if_splits)
  have d1: "drops cp ?i [w] cp1 \<and> (records fn log \<longrightarrow> log m1 = log m @ way_writes cp st (cp_sets cp ?i) [w])"
  proof (cases "valid_blk (cp_sets cp ?i) w")
    case True
    then show ?thesis using invalidate_ok(1) [OF Cons.prems(1) True] invalidate_ok(2) [OF Cons.prems(1) True, where log = log] one by simp
  next
    case False
    then show ?thesis using one Cons.prems(1)
      by (auto simp: drops_def entry_of_def is_dirty_def dirty_ways_def way_writes_simps write_back_def)
  qed
  then have same: "params cp1 = params cp" "wnext (cp_sets cp1 ?i) = wnext (cp_sets cp ?i)" "set_ok cp (cp_sets cp1 ?i)"
    by (simp_all add: drops_def)
  have d2: "drops cp1 ?i ws cp' \<and> (records fn log \<longrightarrow> log m' = log m1 @ way_writes cp1 st (cp_sets cp1 ?i) ws)"
    by (rule Cons.IH [OF _ _ _ rest]) (use Cons.prems same fun_cong [OF same(2), of w] paramsD [OF same(1)] in simp_all)
  have "way_writes cp1 st (cp_sets cp1 ?i) ws = way_writes cp st (cp_sets cp ?i) ws"
    using d1 Cons.prems(3) by (intro way_writes_cong [OF _ same(1)]) (auto simp: drops_def)
  then show ?case using drops_trans [of cp ?i "[w]" cp1 ws cp'] d1 d2 Cons.prems(3) by (auto simp: way_writes_simps)
qed

definition set_dirty :: "gcache_t \<Rightarrow> nat \<Rightarrow> nat" where
  "set_dirty cp i = length (filter is_dirty (abs_set cp (cp_sets cp i)))"

text \<open>The calls a flush makes for one set: a write for each dirty entry, in replacement order.\<close>

definition set_writes :: "gcache_t \<Rightarrow> nat \<Rightarrow> call_t list" where
  "set_writes cp i = concat (map (write_back cp (of_nat i)) (abs_set cp (cp_sets cp i)))"

lemma flush_sets_ok:
  assumes "\<And>i. i \<in> set is \<Longrightarrow> set_ok cp (cp_sets cp i)" "distinct is" "\<And>i. i \<in> set is \<Longrightarrow> i < 2 ^ 32"
    and "flush_sets fn now is lat cp m = Some (lat', cp', m')"
  shows "params cp' = params cp \<and> (\<forall>j. j \<notin> set is \<longrightarrow> cp_sets cp' j = cp_sets cp j) \<and>
    (\<forall>i \<in> set is. set_ok cp (cp_sets cp' i) \<and> (\<forall>e \<in> set (abs_set cp (cp_sets cp' i)). e = None)) \<and>
    cp_last_blk cp' = cp_last_blk cp \<and> cp_last_tagset cp' = cp_last_tagset cp \<and>
    cp_writebacks cp' = cp_writebacks cp + of_nat (sum_list (map (set_dirty cp) is)) \<and>
    (records fn log \<longrightarrow> log m' = log m @ concat (map (set_writes cp) is))"
  using assms
proof (induction "is" arbitrary: lat cp m)
  case Nil
  then show ?case by simp
next
  case (Cons i js)
  from Cons.prems(4) obtain lat1 cp1 m1 where
    one: "flush_ways fn (of_nat i) now (way_head (cp_sets cp i)) lat cp m = Some (lat1, cp1, m1)"
    and rest: "flush_sets fn now js lat1 cp1 m1 = Some (lat', cp', m')" by (auto split: Option.bind_splits)
  have i: "unat (of_nat i :: word_t) = i" using Cons.prems(3) [of i] by (simp add: unat_of_nat)
  have oki: "set_ok cp (cp_sets cp i)" using Cons.prems(1) by simp
  note flushed = flush_ways_ok [of cp "of_nat i", unfolded i, OF oki set_okD(6,5) [OF oki] one, where log = log]
  then have d: "drops cp i (way_order cp (cp_sets cp i)) cp1" by simp
  then have par: "params cp1 = params cp" by (simp add: drops_def)
  note P = paramsD [OF par]
  have other: "cp_sets cp1 j = cp_sets cp j" if "j \<noteq> i" for j using d that by (simp add: drops_def)
  have "set_dirty cp1 j = set_dirty cp j" if "j \<in> set js" for j
  proof -
    have "cp_sets cp1 j = cp_sets cp j" using that Cons.prems(2) by (intro other) auto
    then show ?thesis by (simp add: set_dirty_def P)
  qed
  then have sums: "map (set_dirty cp1) js = map (set_dirty cp) js" by simp
  have "set_writes cp1 j = set_writes cp j" if "j \<in> set js" for j
  proof -
    have "cp_sets cp1 j = cp_sets cp j" using that Cons.prems(2) by (intro other) auto
    then show ?thesis by (simp add: set_writes_def P write_back_params [OF par] cong: map_cong)
  qed
  then have writes: "map (set_writes cp1) js = map (set_writes cp) js" by simp
  have ih: "params cp' = params cp1 \<and> (\<forall>j. j \<notin> set js \<longrightarrow> cp_sets cp' j = cp_sets cp1 j) \<and>
    (\<forall>i \<in> set js. set_ok cp1 (cp_sets cp' i) \<and> (\<forall>e \<in> set (abs_set cp1 (cp_sets cp' i)). e = None)) \<and>
    cp_last_blk cp' = cp_last_blk cp1 \<and> cp_last_tagset cp' = cp_last_tagset cp1 \<and>
    cp_writebacks cp' = cp_writebacks cp1 + of_nat (sum_list (map (set_dirty cp1) js)) \<and>
    (records fn log \<longrightarrow> log m' = log m1 @ concat (map (set_writes cp1) js))"
  proof (rule Cons.IH [OF _ _ _ rest])
    show "set_ok cp1 (cp_sets cp1 j)" if "j \<in> set js" for j
    proof -
      have "cp_sets cp1 j = cp_sets cp j" using that Cons.prems(2) by (intro other) auto
      then show ?thesis using that Cons.prems(1) [of j] by (simp add: P)
    qed
  qed (use Cons.prems in auto)
  have "\<forall>e \<in> set (abs_set cp (cp_sets cp1 i)). e = None" "set_ok cp (cp_sets cp1 i)"
    using d by (auto simp: drops_def abs_set_def)
  moreover have "cp_writebacks cp1 = cp_writebacks cp + of_nat (set_dirty cp i)"
    using d by (simp add: drops_def set_dirty_def abs_set_def dirty_ways_def)
  moreover have "i \<notin> set js" using Cons.prems(2) by simp
  moreover have "records fn log \<longrightarrow> log m1 = log m @ set_writes cp i"
    using flushed by (simp add: way_writes_def set_writes_def abs_set_def)
  ultimately show ?case using ih d other by (auto simp: P sums writes drops_def)
qed

end
