(* ===== verification/Cache_Level.thy ===== *)
theory Cache_Level
  imports Cache_Props
begin

text \<open>
  The interface between a cache and the level below it, as a locale: the level serves the
  block accesses it is asked for and keeps its own invariant.  Inside it, an access to a
  cache whose blocks the level serves returns, and the cache and the level keep their
  invariants; so a cache on a level is a level again.
\<close>

section \<open>What an access does to each block\<close>

text \<open>
  After an access every block but at most one has its tag, status and user data, up to the
  dirty bit; the other one holds the accessed block and the user data the level returned.
\<close>

definition same_blk :: "cset_t \<Rightarrow> cset_t \<Rightarrow> nat \<Rightarrow> bool" where
  "same_blk s s' v \<longleftrightarrow> blk_tag (set_blks s' v) = blk_tag (set_blks s v) \<and> valid_blk s' v = valid_blk s v \<and>
     blk_user (set_blks s' v) = blk_user (set_blks s v)"

lemma hit_same_blks:
  assumes inv: "cache_inv cp" and w: "w \<in> all_ways cp"
    "blk_holds (cp_sets cp (unat (CACHE_SET cp addr))) (CACHE_TAG cp addr) w"
    and run: "cache_hit cp cmd addr p n now w = Some (acc, cp')"
  shows "same_blk (cp_sets cp j) (cp_sets cp' j) v"
proof -
  let ?s = "cp_sets cp (unat (CACHE_SET cp addr))"
  obtain b buf where touch: "touch_data cp cmd (CACHE_BLK cp addr) p n (set_blks ?s w) = (b, buf)" by force
  note b = touch_data_blk [OF touch]
  have ok1: "set_ok cp (upd_blk ?s w (\<lambda>_. b))"
    using set_ok_rewrite(1) [OF cache_inv_set [OF inv], where f = "\<lambda>_. b" and w = w] b by auto
  from run touch obtain s2 where s2: "(if way_prev b \<noteq> None \<and> cp_policy cp = LRU
      then update_way_list (upd_blk ?s w (\<lambda>_. b)) w Head else Some (upd_blk ?s w (\<lambda>_. b))) = Some s2"
    and cp': "cp_sets cp' = (cp_sets cp)(unat (CACHE_SET cp addr) := s2)"
    by (auto simp: cache_hit_def Let_def put_set_def split: Option.bind_splits)
  have "same_but_ways (upd_blk ?s w (\<lambda>_. b)) s2"
    using s2 set_ok_move [OF ok1 w(1), of Head] by (auto split: if_splits)
  note S = same_but_waysD [OF this]
  have "same_blk ?s s2 v" using b by (auto simp: same_blk_def valid_blk_bit S)
  then show ?thesis by (auto simp: cp' same_blk_def)
qed

lemma fast_hit_same_blks:
  assumes "cache_fast_hit cp cmd addr p n now = Some (acc, cp')"
  shows "same_blk (cp_sets cp j) (cp_sets cp' j) v"
proof -
  from assms obtain i w where lb: "cp_last_blk cp = Some (i, w)"
    by (cases "cp_last_blk cp") (auto simp: cache_fast_hit_def)
  obtain b buf where touch: "touch_data cp cmd (CACHE_BLK cp addr) p n (set_blks (cp_sets cp i) w) = (b, buf)" by force
  have "cp_sets cp' = (cp_sets cp)(i := upd_blk (cp_sets cp i) w (\<lambda>_. b))"
    using assms lb touch by (auto simp: cache_fast_hit_def Let_def)
  then show ?thesis using touch_data_blk [OF touch] by (auto simp: same_blk_def valid_blk_bit)
qed

text \<open>The part of a miss after its victim left the hash table.\<close>

definition refill :: "'m blk_access \<Rightarrow> gcache_t \<Rightarrow> mem_cmd \<Rightarrow> md_addr_t \<Rightarrow> byte_t list \<Rightarrow> word_t \<Rightarrow>
    tick_t \<Rightarrow> cache_blk_t \<Rightarrow> (cache_blk_t \<Rightarrow> cset_t) \<Rightarrow> 'm \<Rightarrow> (access_t \<times> gcache_t \<times> 'm) option" where
  "refill fn cp cmd addr p n now victim s4 m =
      do { (lat1, repl, cp1, b1, m1) \<leftarrow>
          evict fn (cp\<lparr>cp_misses := cp_misses cp + 1, cp_last_tagset := 0, cp_last_blk := None\<rparr>)
            (CACHE_SET cp addr) victim now m;
        (let b2 = b1\<lparr>blk_tag := CACHE_TAG cp addr, blk_status := CACHE_BLK_VALID\<rparr> in do {
           (l, data, user, m2) \<leftarrow> fn Read (CACHE_BADDR cp addr) (cp_bsize cp) b2 (tick_plus now lat1) m1;
           (let lat2 = lat1 + l;
                (b3, buf) = touch_data cp cmd (CACHE_BLK cp addr) p n (b2\<lparr>blk_data := data, blk_user := user\<rparr>);
                b4 = b3\<lparr>blk_ready := tick_plus now lat2\<rparr>
            in Some (\<lparr>acc_lat = lat2, acc_buf = buf, acc_udata = blk_user b4, acc_repl = repl\<rparr>,
                     put_set cp1 (CACHE_SET cp addr) (s4 b4), m2)) }) }"

text \<open>A miss, with its victim and the set it leaves behind.\<close>

lemma cache_miss_eq:
  assumes inv: "cache_inv cp"
    and none: "\<And>v. v \<in> all_ways cp \<Longrightarrow>
      \<not> blk_holds (cp_sets cp (unat (CACHE_SET cp addr))) (CACHE_TAG cp addr) v"
  obtains w victim s4 where "w \<in> all_ways cp"
    "blk_tag victim = blk_tag (set_blks (cp_sets cp (unat (CACHE_SET cp addr))) w)"
    "blk_status victim = blk_status (set_blks (cp_sets cp (unat (CACHE_SET cp addr))) w)"
    "blk_user victim = blk_user (set_blks (cp_sets cp (unat (CACHE_SET cp addr))) w)"
    "\<And>b v. v \<noteq> w \<Longrightarrow> same_blk (cp_sets cp (unat (CACHE_SET cp addr))) (s4 b) v"
    "\<And>b. blk_tag (set_blks (s4 b) w) = blk_tag b \<and> blk_status (set_blks (s4 b) w) = blk_status b \<and>
       blk_user (set_blks (s4 b) w) = blk_user b"
    "cache_miss fn cp cmd addr p n now rnd m = refill fn cp cmd addr p n now victim s4 m"
proof -
  let ?st = "CACHE_SET cp addr" and ?t = "CACHE_TAG cp addr"
  let ?s = "cp_sets cp (unat ?st)"
  obtain w s1 where s1: "select_repl cp rnd ?s = Some (w, s1)" "w \<in> all_ways cp" "same_but_ways ?s s1" "set_ok cp s1"
    using select_repl_ok [OF inv cache_inv_set [OF inv]] by blast
  note S1 = same_but_waysD [OF s1(3)]
  have "\<exists>s2. (if cp_hsize cp \<noteq> 0 then unlink_htab_ent cp s1 w else Some s1) = Some s2 \<and> same_but_hash s1 s2 \<and>
      (cp_hsize cp \<noteq> 0 \<longrightarrow> hash_ok cp s2 (all_ways cp - {w}))"
    using unlink_htab_ent_ok [OF set_okD(3) [OF s1(4)] s1(2)] by (auto simp: same_but_hash_def)
  then obtain s2 where s2: "(if cp_hsize cp \<noteq> 0 then unlink_htab_ent cp s1 w else Some s1) = Some s2"
    "same_but_hash s1 s2" "cp_hsize cp \<noteq> 0 \<longrightarrow> hash_ok cp s2 (all_ways cp - {w})" by blast
  note S2 = same_but_hashD [OF s2(2)]
  define s4 where "s4 b = (if cp_hsize cp \<noteq> 0 then link_htab_ent cp (upd_blk s2 w (\<lambda>_. b)) w else upd_blk s2 w (\<lambda>_. b))" for b
  have same: "same_but_hash (upd_blk s2 w (\<lambda>_. b)) (s4 b)" for b
  proof -
    have "cp_hsize cp \<noteq> 0 \<Longrightarrow> hash_ok cp (upd_blk s2 w (\<lambda>_. b)) (all_ways cp - {w})" using s2(3) by (simp add: hash_ok_upd_out)
    from link_htab_ent_ok(2) [OF this, of w] show ?thesis unfolding s4_def by (auto simp: same_but_hash_def)
  qed
  show thesis
  proof (rule that [of w "set_blks s2 w" s4])
    show "same_blk ?s (s4 b) v" if "v \<noteq> w" for b v
      using that same_but_hashD [OF same] S1 S2 by (simp add: same_blk_def valid_blk_bit)
    show "blk_tag (set_blks (s4 b) w) = blk_tag b \<and> blk_status (set_blks (s4 b) w) = blk_status b \<and>
       blk_user (set_blks (s4 b) w) = blk_user b" for b using same_but_hashD(5,6,8) [OF same [of b], of w] by simp
  qed (use s1(2) S1 S2 in \<open>simp_all add: cache_miss_def refill_def Let_def s1(1) s2(1) s4_def cong: if_cong\<close>)
qed

section \<open>A cache over a level\<close>

text \<open>
  The cache is well formed, the level below keeps its invariant \<open>minv\<close>, and it serves every
  valid block of the cache; the user data of the blocks satisfies \<open>uok\<close>.
\<close>

definition over :: "('m \<Rightarrow> bool) \<Rightarrow> ('m \<Rightarrow> md_addr_t \<Rightarrow> word_t \<Rightarrow> bool) \<Rightarrow> (byte_t list option \<Rightarrow> bool) \<Rightarrow>
    gcache_t \<Rightarrow> 'm \<Rightarrow> bool" where
  "over minv serves uok cp m \<longleftrightarrow> cache_inv cp \<and> minv m \<and>
     (\<forall>i < unat (cp_nsets cp). \<forall>w \<in> all_ways cp. uok (blk_user (set_blks (cp_sets cp i) w)) \<and>
        (valid_blk (cp_sets cp i) w \<longrightarrow>
           serves m (CACHE_MK_BADDR cp (blk_tag (set_blks (cp_sets cp i) w)) (of_nat i)) (cp_bsize cp)))"

text \<open>The accesses the code lets through: aligned, within a block, and not to block 0.\<close>

definition accepts :: "gcache_t \<Rightarrow> md_addr_t \<Rightarrow> word_t \<Rightarrow> bool" where
  "accepts cp addr n \<longleftrightarrow> n AND (n - 1) = 0 \<and> addr AND (n - 1) = 0 \<and>
     \<not> addr + n > (addr AND NOT (cp_blk_mask cp)) + cp_bsize cp \<and> CACHE_BADDR cp addr \<noteq> 0"

lemma overD:
  assumes "over minv serves uok cp m"
  shows "cache_inv cp" "minv m"
    "i < unat (cp_nsets cp) \<Longrightarrow> w \<in> all_ways cp \<Longrightarrow> uok (blk_user (set_blks (cp_sets cp i) w))"
    "i < unat (cp_nsets cp) \<Longrightarrow> w \<in> all_ways cp \<Longrightarrow> valid_blk (cp_sets cp i) w \<Longrightarrow>
      serves m (CACHE_MK_BADDR cp (blk_tag (set_blks (cp_sets cp i) w)) (of_nat i)) (cp_bsize cp)"
  using assms by (auto simp: over_def)

text \<open>Every block of the new cache is an old one, or is served and carries acceptable user data.\<close>

lemma over_change:
  assumes ov: "over minv serves uok cp m" and inv: "cache_inv cp'" and par: "params cp' = params cp"
    and m': "minv m'" "\<And>x k. serves m x k \<Longrightarrow> serves m' x k"
    and blks: "\<And>i w. i < unat (cp_nsets cp) \<Longrightarrow> w \<in> all_ways cp \<Longrightarrow>
      same_blk (cp_sets cp i) (cp_sets cp' i) w \<or> \<not> valid_blk (cp_sets cp' i) w \<and> uok (blk_user (set_blks (cp_sets cp' i) w)) \<or>
      uok (blk_user (set_blks (cp_sets cp' i) w)) \<and>
      serves m (CACHE_MK_BADDR cp (blk_tag (set_blks (cp_sets cp' i) w)) (of_nat i)) (cp_bsize cp)"
  shows "over minv serves uok cp' m'"
proof -
  note P = paramsD [OF par]
  have "uok (blk_user (set_blks (cp_sets cp' i) w)) \<and> (valid_blk (cp_sets cp' i) w \<longrightarrow>
      serves m' (CACHE_MK_BADDR cp (blk_tag (set_blks (cp_sets cp' i) w)) (of_nat i)) (cp_bsize cp))"
    if "i < unat (cp_nsets cp)" "w \<in> all_ways cp" for i w
    using blks [OF that] overD(3,4) [OF ov that] m'(2) by (auto simp: same_blk_def)
  then show ?thesis using inv m'(1) by (simp add: over_def P)
qed

text \<open>Invalidating blocks while the fast path is reset keeps the invariant.\<close>

lemma drops_inv:
  assumes "cache_inv cp" "drops cp i ws cp'" "cp_last_blk cp = None"
  shows "cache_inv cp'" "params cp' = params cp" "cp_last_blk cp' = None"
proof -
  show par: "params cp' = params cp" and last: "cp_last_blk cp' = None" using assms(2,3) by (simp_all add: drops_def)
  have "cp_sets cp' = (cp_sets cp)(i := cp_sets cp' i)" using assms(2) by (auto simp: drops_def fun_eq_iff)
  then show "cache_inv cp'"
    by (rule cache_inv_put [OF assms(1) par])
      (use assms in \<open>auto simp: drops_def last_ok_def cache_inv_def\<close>)
qed

lemma invalidate_blks:
  assumes "invalidate fn cp st w now lat m = Some (lat', cp', m')" "i \<noteq> unat st \<or> v \<noteq> w"
  shows "set_blks (cp_sets cp' i) v = set_blks (cp_sets cp i) v"
  using assms by (auto simp: invalidate_def Let_def put_set_def split: if_splits Option.bind_splits)

locale mem_level =
  fixes fn :: "'m blk_access" and minv :: "'m \<Rightarrow> bool"
    and serves :: "'m \<Rightarrow> md_addr_t \<Rightarrow> word_t \<Rightarrow> bool" and uok :: "byte_t list option \<Rightarrow> bool"
  assumes serve: "minv m \<Longrightarrow> serves m a n \<Longrightarrow> uok (blk_user b) \<Longrightarrow>
    \<exists>l d u m'. fn cmd a n b now m = Some (l, d, u, m') \<and> minv m' \<and> uok u \<and>
      (\<forall>x k. serves m x k \<longrightarrow> serves m' x k)"
begin

lemma evict_returns:
  assumes "minv m" "uok (blk_user b)" "bit (blk_status b) 0 \<Longrightarrow> serves m (CACHE_MK_BADDR cp (blk_tag b) st) (cp_bsize cp)"
  shows "\<exists>lat repl cp1 b1 m1. evict fn cp st b now m = Some (lat, repl, cp1, b1, m1) \<and> minv m1 \<and> uok (blk_user b1) \<and>
    (\<forall>x k. serves m x k \<longrightarrow> serves m1 x k)"
proof (cases "bit (blk_status b) 0 \<and> bit (blk_status b) 1")
  case True
  define now' where "now' = tick_plus now (BOUND_POS (blk_ready b - now) +
    BOUND_POS (cp_bus_free cp - tick_plus now (BOUND_POS (blk_ready b - now))))"
  obtain l d u m' where "fn Write (CACHE_MK_BADDR cp (blk_tag b) st) (cp_bsize cp) b now' m = Some (l, d, u, m')"
    "minv m'" "uok u" "\<forall>x k. serves m x k \<longrightarrow> serves m' x k" using serve [OF assms(1) assms(3) assms(2)] True by blast
  then show ?thesis using True by (auto simp: evict_def Let_def now'_def)
next
  case False
  then show ?thesis using assms by (auto simp: evict_def Let_def)
qed

lemma access_returns:
  assumes ov: "over minv serves uok cp m" and acc: "accepts cp addr n"
    and sv: "serves m (CACHE_BADDR cp addr) (cp_bsize cp)"
  shows "\<exists>acc cp' m'. cache_access fn cp cmd addr p n now rnd m = Some (acc, cp', m') \<and>
    over minv serves uok cp' m' \<and> params cp' = params cp \<and> (\<forall>x k. serves m x k \<longrightarrow> serves m' x k)"
proof -
  let ?st = "CACHE_SET cp addr" and ?t = "CACHE_TAG cp addr"
  let ?s = "cp_sets cp (unat ?st)"
  note inv = overD(1) [OF ov] and minv = overD(2) [OF ov]
  obtain bb nn kk where geo: "geometry cp bb nn kk" using inv by (auto simp: cache_inv_def)
  have lt: "unat ?st < unat (cp_nsets cp)" by (rule set_lt [OF geo])
  have mkb: "CACHE_MK_BADDR cp ?t ?st = CACHE_BADDR cp addr" by (rule mk_baddr_fields [OF geo])
  have keep: "over minv serves uok cp' m"
    if "refines_access cp cmd addr cp'" "\<And>j v. same_blk (cp_sets cp j) (cp_sets cp' j) v" for cp'
    by (rule over_change [OF ov refines_accessD(1,2) [OF that(1)] minv]) (use that(2) in auto)
  show ?thesis
  proof (cases "CACHE_TAGSET cp addr = cp_last_tagset cp")
    case True
    have "cp_last_blk cp \<noteq> None"
    proof
      assume "cp_last_blk cp = None"
      then have "cp_last_tagset cp = 0" using inv by (simp add: cache_inv_def last_ok_def)
      with True acc show False by (simp add: accepts_def baddr_eq_tagset [OF geo])
    qed
    then obtain ac cp' where f: "cache_fast_hit cp cmd addr p n now = Some (ac, cp')" "refines_access cp cmd addr cp'"
      using cache_fast_hit_ok [OF inv True] by blast
    have "over minv serves uok cp' m" by (rule keep [OF f(2) fast_hit_same_blks [OF f(1)]])
    then show ?thesis using True f acc refines_accessD(2) [OF f(2)] by (auto simp: cache_access_def accepts_def)
  next
    case False
    obtain r where r: "find_blk cp ?st ?t = Some r"
      "r = None \<Longrightarrow> \<forall>w \<in> all_ways cp. \<not> blk_holds ?s ?t w"
      "\<And>w. r = Some w \<Longrightarrow> w \<in> all_ways cp \<and> blk_holds ?s ?t w"
      using find_blk_ok [OF cache_inv_set [OF inv]] by blast
    show ?thesis
    proof (cases r)
      case (Some w)
      then have w: "w \<in> all_ways cp" "blk_holds ?s ?t w" using r(3) by auto
      obtain ac cp' where h: "cache_hit cp cmd addr p n now w = Some (ac, cp')" "refines_access cp cmd addr cp'"
        using cache_hit_ok [OF inv w] by blast
      have "over minv serves uok cp' m" by (rule keep [OF h(2) hit_same_blks [OF inv w h(1)]])
      then show ?thesis using False Some r(1) h acc refines_accessD(2) [OF h(2)]
        by (auto simp: cache_access_def accepts_def)
    next
      case None
      have none: "\<And>v. v \<in> all_ways cp \<Longrightarrow> \<not> blk_holds ?s ?t v" using r(2) None by blast
      obtain w victim s4 where w: "w \<in> all_ways cp" and
        victim: "blk_tag victim = blk_tag (set_blks ?s w)" "blk_status victim = blk_status (set_blks ?s w)"
          "blk_user victim = blk_user (set_blks ?s w)"
        and s4: "\<And>b v. v \<noteq> w \<Longrightarrow> same_blk ?s (s4 b) v"
          "\<And>b. blk_tag (set_blks (s4 b) w) = blk_tag b \<and> blk_status (set_blks (s4 b) w) = blk_status b \<and>
             blk_user (set_blks (s4 b) w) = blk_user b"
        and miss: "cache_miss fn cp cmd addr p n now rnd m = refill fn cp cmd addr p n now victim s4 m"
        by (rule cache_miss_eq [OF inv, where fn = fn and cmd = cmd and p = p and n = n and now = now
              and rnd = rnd and m = m], rule none, assumption, rule that, assumption+)
      let ?cp0 = "cp\<lparr>cp_misses := cp_misses cp + 1, cp_last_tagset := 0, cp_last_blk := None\<rparr>"
      have mk: "CACHE_MK_BADDR ?cp0 = CACHE_MK_BADDR cp" by (simp add: CACHE_MK_BADDR_def fun_eq_iff)
      have vs: "bit (blk_status victim) 0 \<Longrightarrow> serves m (CACHE_MK_BADDR ?cp0 (blk_tag victim) ?st) (cp_bsize ?cp0)"
        using overD(4) [OF ov lt w] victim by (simp add: valid_blk_bit mk)
      have vu: "uok (blk_user victim)" using overD(3) [OF ov lt w] victim by simp
      obtain lat1 repl cp1 b1 m1 where ev: "evict fn ?cp0 ?st victim now m = Some (lat1, repl, cp1, b1, m1)"
        "minv m1" "uok (blk_user b1)" "\<forall>x k. serves m x k \<longrightarrow> serves m1 x k"
        using evict_returns [OF minv vu vs] by blast
      let ?b2 = "b1\<lparr>blk_tag := ?t, blk_status := CACHE_BLK_VALID\<rparr>"
      have "uok (blk_user ?b2)" using ev(3) by simp
      then obtain l d u m2 where rd: "fn Read (CACHE_BADDR cp addr) (cp_bsize cp) ?b2 (tick_plus now lat1) m1 = Some (l, d, u, m2)"
        "minv m2" "uok u" "\<forall>x k. serves m1 x k \<longrightarrow> serves m2 x k" using serve [OF ev(2)] ev(4) sv by blast
      obtain b3 buf where touch: "touch_data cp cmd (CACHE_BLK cp addr) p n (?b2\<lparr>blk_data := d, blk_user := u\<rparr>) = (b3, buf)"
        by force
      let ?b4 = "b3\<lparr>blk_ready := tick_plus now (lat1 + l)\<rparr>" and ?cp' = "\<lambda>b. put_set cp1 ?st (s4 b)"
      have run: "cache_miss fn cp cmd addr p n now rnd m = Some (\<lparr>acc_lat = lat1 + l, acc_buf = buf,
          acc_udata = blk_user ?b4, acc_repl = repl\<rparr>, ?cp' ?b4, m2)"
        by (simp add: miss refill_def ev(1) rd(1) touch Let_def)
      note ref = cache_miss_ok(1) [OF inv none run]
      note R = refines_accessD [OF ref] and E = evict_facts [OF ev(1)] and T = touch_data_blk [OF touch]
      have "over minv serves uok (?cp' ?b4) m2"
      proof (rule over_change [OF ov R(1,2) rd(2)])
        show "serves m x k \<Longrightarrow> serves m2 x k" for x k using ev(4) rd(4) by blast
        fix i v
        assume iv: "i < unat (cp_nsets cp)" "v \<in> all_ways cp"
        show "same_blk (cp_sets cp i) (cp_sets (?cp' ?b4) i) v \<or>
          \<not> valid_blk (cp_sets (?cp' ?b4) i) v \<and> uok (blk_user (set_blks (cp_sets (?cp' ?b4) i) v)) \<or>
          uok (blk_user (set_blks (cp_sets (?cp' ?b4) i) v)) \<and>
          serves m (CACHE_MK_BADDR cp (blk_tag (set_blks (cp_sets (?cp' ?b4) i) v)) (of_nat i)) (cp_bsize cp)"
        proof (cases "i = unat ?st \<and> v = w")
          case True
          have "blk_tag ?b4 = ?t" "blk_user ?b4 = u" using T by simp_all
          then show ?thesis using True s4(2) [of ?b4] rd(3) sv by (simp add: put_set_def mkb)
        next
          case False
          then show ?thesis using s4(1) [of v ?b4] E(2) by (auto simp: put_set_def same_blk_def)
        qed
      qed
      moreover have "cache_access fn cp cmd addr p n now rnd m = cache_miss fn cp cmd addr p n now rnd m"
        using False None r(1) acc by (simp add: cache_access_def accepts_def)
      ultimately show ?thesis using run R(2) ev(4) rd(4) by auto
    qed
  qed
qed

text \<open>A flush returns: the writes of the dirty blocks are served.\<close>

lemma invalidate_returns:
  assumes ov: "over minv serves uok cp m" and i: "unat st < unat (cp_nsets cp)" and w: "w \<in> all_ways cp"
    and v: "valid_blk (cp_sets cp (unat st)) w" and last: "cp_last_blk cp = None"
  shows "\<exists>lat' cp' m'. invalidate fn cp st w now lat m = Some (lat', cp', m') \<and> over minv serves uok cp' m' \<and>
    drops cp (unat st) [w] cp'"
proof -
  let ?b = "set_blks (cp_sets cp (unat st)) w"
  let ?b1 = "?b\<lparr>blk_status := blk_status ?b AND NOT CACHE_BLK_VALID\<rparr>"
  have u: "uok (blk_user ?b1)" and sv: "serves m (CACHE_MK_BADDR cp (blk_tag ?b1) st) (cp_bsize cp)"
    using overD(3,4) [OF ov i w] v by simp_all
  have "\<exists>lat' cp' m'. invalidate fn cp st w now lat m = Some (lat', cp', m') \<and> minv m' \<and>
      (\<forall>x k. serves m x k \<longrightarrow> serves m' x k) \<and> uok (blk_user (set_blks (cp_sets cp' (unat st)) w))"
  proof (cases "bit (blk_status ?b) 1")
    case True
    then show ?thesis
      using serve [OF overD(2) [OF ov] sv u, of Write "tick_plus now lat"]
      by (auto simp: invalidate_def Let_def invalid_status put_set_def)
  next
    case False
    then show ?thesis using overD(2) [OF ov] u by (auto simp: invalidate_def Let_def invalid_status put_set_def)
  qed
  then obtain lat' cp' m' where run: "invalidate fn cp st w now lat m = Some (lat', cp', m')" "minv m'"
    "\<And>x k. serves m x k \<Longrightarrow> serves m' x k" "uok (blk_user (set_blks (cp_sets cp' (unat st)) w))" by blast
  have "set_ok cp (cp_sets cp (unat st))" using overD(1) [OF ov] i by (simp add: cache_inv_def)
  then have d: "drops cp (unat st) [w] cp'" by (rule invalidate_ok(1) [OF _ v run(1)])
  then have "entry_of (cp_sets cp' (unat st)) w = None" by (simp add: drops_def)
  then have gone: "\<not> valid_blk (cp_sets cp' (unat st)) w" by (simp add: entry_of_def split: if_splits)
  have "over minv serves uok cp' m'"
  proof (rule over_change [OF ov drops_inv(1,2) [OF overD(1) [OF ov] d last] run(2,3)])
    show "same_blk (cp_sets cp i) (cp_sets cp' i) x \<or> \<not> valid_blk (cp_sets cp' i) x \<and> uok (blk_user (set_blks (cp_sets cp' i) x)) \<or>
      uok (blk_user (set_blks (cp_sets cp' i) x)) \<and>
      serves m (CACHE_MK_BADDR cp (blk_tag (set_blks (cp_sets cp' i) x)) (of_nat i)) (cp_bsize cp)" for i x
    proof (cases "i = unat st \<and> x = w")
      case True
      then show ?thesis using gone run(4) by simp
    next
      case False
      then show ?thesis using invalidate_blks [OF run(1), of i x] by (auto simp: same_blk_def valid_blk_bit)
    qed
  qed
  with run(1) d show ?thesis by blast
qed

lemma flush_ways_returns:
  assumes "over minv serves uok cp m" "unat st < unat (cp_nsets cp)" "set ws \<subseteq> all_ways cp" "cp_last_blk cp = None"
    and "chain (wnext (cp_sets cp (unat st))) p ws"
  shows "\<exists>lat' cp' m'. flush_ways fn st now p lat cp m = Some (lat', cp', m') \<and> over minv serves uok cp' m' \<and>
    params cp' = params cp \<and> cp_last_blk cp' = None"
  using assms
proof (induction ws arbitrary: p lat cp m)
  case Nil
  then show ?case by (simp add: flush_ways.simps)
next
  case (Cons w ws)
  from Cons.prems(5) have p: "p = Some w" by simp
  have "\<exists>lat1 cp1 m1. (if valid_blk (cp_sets cp (unat st)) w then invalidate fn cp st w now lat m else Some (lat, cp, m)) =
      Some (lat1, cp1, m1) \<and> over minv serves uok cp1 m1 \<and> params cp1 = params cp \<and> cp_last_blk cp1 = None \<and>
      wnext (cp_sets cp1 (unat st)) = wnext (cp_sets cp (unat st))"
  proof (cases "valid_blk (cp_sets cp (unat st)) w")
    case True
    with Cons.prems(3,4) obtain lat1 cp1 m1 where "invalidate fn cp st w now lat m = Some (lat1, cp1, m1)"
      "over minv serves uok cp1 m1" "drops cp (unat st) [w] cp1"
      using invalidate_returns [OF Cons.prems(1,2)] by force
    then show ?thesis using True Cons.prems(4) by (auto simp: drops_def)
  qed (use Cons.prems in simp)
  then obtain lat1 cp1 m1 where one: "(if valid_blk (cp_sets cp (unat st)) w then invalidate fn cp st w now lat m else Some (lat, cp, m)) =
      Some (lat1, cp1, m1)" "over minv serves uok cp1 m1" "params cp1 = params cp" "cp_last_blk cp1 = None"
    "wnext (cp_sets cp1 (unat st)) = wnext (cp_sets cp (unat st))" by blast
  have "\<exists>lat' cp' m'. flush_ways fn st now (wnext (cp_sets cp1 (unat st)) w) lat1 cp1 m1 = Some (lat', cp', m') \<and>
      over minv serves uok cp' m' \<and> params cp' = params cp1 \<and> cp_last_blk cp' = None"
    by (rule Cons.IH [OF one(2) _ _ one(4)]) (use Cons.prems one(3,5) fun_cong [OF one(5), of w] in \<open>auto simp: paramsD [OF one(3)]\<close>)
  then show ?case using one(1,3) by (subst flush_ways.simps) (auto simp: p valid_blk_def)
qed

lemma flush_sets_returns:
  assumes "over minv serves uok cp m" "\<And>i. i \<in> set is \<Longrightarrow> i < unat (cp_nsets cp)" "cp_last_blk cp = None"
  shows "\<exists>lat' cp' m'. flush_sets fn now is lat cp m = Some (lat', cp', m') \<and> over minv serves uok cp' m'"
  using assms
proof (induction "is" arbitrary: lat cp m)
  case (Cons i js)
  have i: "i < unat (cp_nsets cp)" using Cons.prems(2) by simp
  moreover have "unat (cp_nsets cp) < 2 ^ 32" using unsigned_less [of "cp_nsets cp"] by simp
  ultimately have wi: "unat (of_nat i :: word_t) = i" by (simp add: unat_of_nat)
  have ok: "set_ok cp (cp_sets cp i)" using overD(1) [OF Cons.prems(1)] i by (simp add: cache_inv_def)
  obtain lat1 cp1 m1 where one: "flush_ways fn (of_nat i) now (way_head (cp_sets cp i)) lat cp m = Some (lat1, cp1, m1)"
    "over minv serves uok cp1 m1" "params cp1 = params cp" "cp_last_blk cp1 = None"
    using flush_ways_returns [OF Cons.prems(1), of "of_nat i" "way_order cp (cp_sets cp i)" "way_head (cp_sets cp i)" now lat]
      wi i Cons.prems(3) set_okD(2,6) [OF ok] by auto
  from Cons.IH [OF one(2) _ one(4), of lat1] Cons.prems(2) one(1) show ?case by (auto simp: paramsD [OF one(3)])
qed simp

lemma flush_returns:
  assumes "over minv serves uok cp m"
  shows "\<exists>lat cp' m'. cache_flush fn cp now m = Some (lat, cp', m') \<and> over minv serves uok cp' m'"
proof -
  let ?cp0 = "cp\<lparr>cp_last_tagset := 0, cp_last_blk := None\<rparr>"
  have par: "params ?cp0 = params cp" by (simp add: params_def)
  note inv = overD(1) [OF assms]
  have "cache_inv ?cp0" using inv by (simp add: cache_inv_def last_ok_def paramsD [OF par])
  then have "over minv serves uok ?cp0 m" using assms by (simp add: over_def paramsD [OF par])
  from flush_sets_returns [OF this, of "[0..<unat (cp_nsets cp)]"] show ?thesis by (simp add: cache_flush_def)
qed

end

section \<open>Properties\<close>

text \<open>
  C4: in a cache that satisfies the invariant, a completed access keeps the invariant, leaves
  the other sets alone, changes the set it goes to as the policy says (LRU, FIFO, or Random
  with the random number drawn), leaves the block present, and moves every counter exactly:
  a hit counts as a hit and calls nothing, a miss counts as a miss, counts a replacement when
  its victim was valid and a writeback when it was dirty, and makes exactly the calls to the
  level below that write the dirty victim to its own address and then read the block.
\<close>

theorem cache_access_refines:
  assumes "cache_inv cp" "cache_access fn cp cmd addr p n now rnd m = Some (acc, cp', m')"
  shows "cache_inv cp' \<and>
    (\<forall>j. j \<noteq> unat (CACHE_SET cp addr) \<longrightarrow> cp_sets cp' j = cp_sets cp j) \<and>
    abs_set cp' (cp_sets cp' (unat (CACHE_SET cp addr))) = spec_set cp rnd (cmd = Write) addr \<and>
    cache_probe cp addr = Some (present cp addr) \<and> cache_probe cp' addr = Some True \<and>
    cp_hits cp' = cp_hits cp + of_bool (present cp addr) \<and>
    cp_misses cp' = cp_misses cp + of_bool (\<not> present cp addr) \<and>
    cp_replacements cp' = cp_replacements cp + of_bool (\<not> present cp addr \<and> victim_entry cp rnd addr \<noteq> None) \<and>
    cp_writebacks cp' = cp_writebacks cp + of_bool (\<not> present cp addr \<and> is_dirty (victim_entry cp rnd addr)) \<and>
    (\<forall>log. records fn log \<longrightarrow> log m' = log m @ (if present cp addr then [] else miss_calls cp rnd addr))"
proof -
  note ok = cache_access_ok [OF assms]
  note R = refines_accessD [OF ok(1)] and P = paramsD [OF refines_accessD(2) [OF ok(1)]]
  have "cache_probe cp' addr = Some True"
    using cache_probe_abs [OF R(1), of addr] ok(3) spec_set_holds [OF assms(1)] by (simp add: P)
  moreover have "cache_probe cp addr = Some (present cp addr)"
    using cache_probe_abs [OF assms(1), of addr] by (simp add: present_def)
  moreover have "cp_hits cp' = cp_hits cp + of_bool (present cp addr)"
    "cp_misses cp' = cp_misses cp + of_bool (\<not> present cp addr)"
    "cp_replacements cp' = cp_replacements cp + of_bool (\<not> present cp addr \<and> victim_entry cp rnd addr \<noteq> None)"
    "cp_writebacks cp' = cp_writebacks cp + of_bool (\<not> present cp addr \<and> is_dirty (victim_entry cp rnd addr))"
    using ok(2) by (simp_all add: counts_access_def counts_hit_def counts_miss_def split: if_splits)
  ultimately show ?thesis using R(1,3) ok(3) cache_access_log [OF assms] by (simp add: P)
qed

text \<open>
  C20: after any completed sequence of accesses to a new LRU cache, a block is present exactly
  when its tag is among the \<open>assoc\<close> most recent distinct tags of its set.
\<close>

theorem lru_holds_recent:
  assumes "cache_create name nsets bsize balloc usize assoc LRU lat = Some cp" "cp_tag_shift cp < 32"
    and "cache_run fn rs cp m = Some (cp', m')"
  shows "cache_probe cp' a = Some (CACHE_TAG cp a \<in> set (take (unat assoc) (recent (set_tags cp a rs))))"
proof -
  note new = cache_create_inv [OF assms(1,2)]
  have "cache_inv cp' \<and> params cp' = params cp \<and>
      holds_first (unat (cp_assoc cp)) (fold touch (set_tags cp a rs) [])
        (abs_set cp (cp_sets cp' (unat (CACHE_SET cp a))))"
    by (rule cache_run_recent [OF new(1,4) assms(3) assoc_ways(1) [OF new(1)], where L = "\<lambda>_. []"])
      (simp add: fresh_holds_nothing [OF new(1,2)])
  then have inv: "cache_inv cp'" and par: "params cp' = params cp"
    and h: "holds_first (unat assoc) (recent (set_tags cp a rs)) (abs_set cp (cp_sets cp' (unat (CACHE_SET cp a))))"
    by (simp_all add: recent_def new(6))
  note P = paramsD [OF par]
  show ?thesis using cache_probe_abs [OF inv, of a] has_tag_first [OF h] by (simp add: P)
qed

text \<open>
  C36: the search through the hash table of a highly associative cache finds the same block
  as a linear search along the ways.
\<close>

theorem hash_search_linear:
  assumes "cache_inv cp"
  shows "find_blk cp (CACHE_SET cp addr) (CACHE_TAG cp addr) =
    chain_find (wnext (cp_sets cp (unat (CACHE_SET cp addr))))
      (blk_holds (cp_sets cp (unat (CACHE_SET cp addr))) (CACHE_TAG cp addr))
      (way_head (cp_sets cp (unat (CACHE_SET cp addr))))"
proof -
  let ?s = "cp_sets cp (unat (CACHE_SET cp addr))" and ?t = "CACHE_TAG cp addr"
  note ok = cache_inv_set [OF assms, of addr]
  obtain r where r: "find_blk cp (CACHE_SET cp addr) ?t = Some r"
    "r = None \<Longrightarrow> \<forall>w \<in> all_ways cp. \<not> blk_holds ?s ?t w"
    "\<And>w. r = Some w \<Longrightarrow> w \<in> all_ways cp \<and> blk_holds ?s ?t w"
    using find_blk_ok [OF ok] by blast
  have lin: "chain_find (wnext ?s) (blk_holds ?s ?t) (way_head ?s) = Some (List.find (blk_holds ?s ?t) (way_order cp ?s))"
    by (rule chain_find_eq [OF set_okD(6) [OF ok]])
  have "List.find (blk_holds ?s ?t) (way_order cp ?s) = r"
  proof (cases "List.find (blk_holds ?s ?t) (way_order cp ?s)")
    case None
    then show ?thesis using r(3) set_okD(2) [OF ok] by (cases r) (auto simp: find_None_iff)
  next
    case (Some v)
    have v: "v \<in> all_ways cp" "blk_holds ?s ?t v"
      using find_Some_holds [OF Some] set_okD(2) [OF ok] by auto
    then obtain w where w: "r = Some w" using r(2) by (cases r) auto
    then have "v = w" using holds_unique [OF ok v(1) _ v(2), of w] r(3) by blast
    then show ?thesis using Some w by simp
  qed
  then show ?thesis using r(1) lin by simp
qed

text \<open>
  C39: the first access to a new cache is undefined when it goes to the block at address 0:
  the fast path compares with the initial tag and set 0, and follows the null pointer.
\<close>

theorem fresh_block_zero:
  assumes "cache_create name nsets bsize balloc usize assoc policy lat = Some cp" "cp_tag_shift cp < 32"
    and "addr < bsize"
  shows "cache_access fn cp cmd addr p n now rnd m = None"
proof -
  note new = cache_create_inv [OF assms(1,2)]
  obtain b n' k where geo: "geometry cp b n' k" using new(1) by (auto simp: cache_inv_def)
  have "bsize = 2 ^ b" "b < 31" using geo new(7) by (simp_all add: geometry_def)
  then have "unat addr < 2 ^ b" using assms(3) by (simp add: word_less_nat_alt)
  then have "take_bit b addr = addr"
    by (simp add: word_unat_eq_iff unsigned_take_bit_eq take_bit_nat_eq_self)
  then have "addr AND NOT (mask b) = take_bit b addr AND NOT (mask b)" by simp
  also have "\<dots> = 0" by (rule bit_word_eqI) (auto simp: bit_simps)
  finally have "addr AND NOT (mask b) = 0" .
  then have "CACHE_TAGSET cp addr = 0" by (simp add: field_eqs [OF geo])
  moreover have "cp_last_tagset cp = 0" using new(1,3) by (simp add: cache_inv_def last_ok_def)
  ultimately show ?thesis using new(3) by (simp add: cache_access_def cache_fast_hit_def)
qed

text \<open>
  C37: flushing leaves a well-formed cache in which no address is present.  The calls it
  makes to the level below are exactly one write of a block's size for each dirty entry, at
  the address its tag and set make, set by set and in replacement order within a set; the
  writeback counter grows by their number.
\<close>

theorem cache_flush_empties:
  assumes "cache_inv cp" "cache_flush fn cp now m = Some (lat, cp', m')"
  shows "cache_inv cp' \<and> (\<forall>a. cache_probe cp' a = Some False) \<and>
    cp_writebacks cp' = cp_writebacks cp + of_nat (\<Sum>i < unat (cp_nsets cp). set_dirty cp i) \<and>
    (\<forall>log. records fn log \<longrightarrow>
       log m' = log m @ concat (map (\<lambda>i. concat (map (write_back cp (of_nat i)) (abs_set cp (cp_sets cp i))))
         [0..<unat (cp_nsets cp)]))"
proof -
  let ?cp0 = "cp\<lparr>cp_last_tagset := 0, cp_last_blk := None\<rparr>"
  have par0: "params ?cp0 = params cp" by (simp add: params_def)
  note P0 = paramsD [OF par0]
  have run: "flush_sets fn now [0..<unat (cp_nsets cp)] (cp_hit_latency cp) ?cp0 m = Some (lat, cp', m')"
    using assms(2) by (simp add: cache_flush_def)
  have "unat (cp_nsets cp) < 2 ^ 32" using unsigned_less [of "cp_nsets cp"] by simp
  then have flushed: "params cp' = params ?cp0 \<and> (\<forall>i \<in> set [0..<unat (cp_nsets cp)]. set_ok ?cp0 (cp_sets cp' i) \<and>
      (\<forall>e \<in> set (abs_set ?cp0 (cp_sets cp' i)). e = None)) \<and>
      cp_last_blk cp' = cp_last_blk ?cp0 \<and> cp_last_tagset cp' = cp_last_tagset ?cp0 \<and>
      cp_writebacks cp' = cp_writebacks ?cp0 + of_nat (sum_list (map (set_dirty ?cp0) [0..<unat (cp_nsets cp)])) \<and>
      (records fn log \<longrightarrow> log m' = log m @ concat (map (set_writes ?cp0) [0..<unat (cp_nsets cp)]))" for log
    using flush_sets_ok [OF _ _ _ run, where log = log] assms(1) by (simp add: P0 cache_inv_def)
  have "set_dirty ?cp0 = set_dirty cp" "set_writes ?cp0 = set_writes cp"
    by (simp_all add: fun_eq_iff set_dirty_def set_writes_def P0 write_back_params [OF par0] cong: map_cong)
  with flushed have par: "params cp' = params cp" and sets: "\<And>i. i < unat (cp_nsets cp) \<Longrightarrow> set_ok cp (cp_sets cp' i) \<and>
      (\<forall>e \<in> set (abs_set cp (cp_sets cp' i)). e = None)"
    and last: "cp_last_blk cp' = None" "cp_last_tagset cp' = 0"
    and wb: "cp_writebacks cp' = cp_writebacks cp + of_nat (sum_list (map (set_dirty cp) [0..<unat (cp_nsets cp)]))"
    and calls: "\<And>log. records fn log \<Longrightarrow> log m' = log m @ concat (map (set_writes cp) [0..<unat (cp_nsets cp)])"
    using par0 by (simp_all add: P0)
  note P = paramsD [OF par]
  have inv: "cache_inv cp'" using assms(1) sets last by (auto simp: cache_inv_def last_ok_def P)
  have "cache_probe cp' a = Some False" for a
  proof -
    have "unat (CACHE_SET cp a) < unat (cp_nsets cp)" using assms(1) set_lt by (auto simp: cache_inv_def)
    then show ?thesis using cache_probe_abs [OF inv, of a] sets by (auto simp: P has_tag_def)
  qed
  then show ?thesis using inv wb calls
    by (simp add: interv_sum_list_conv_sum_set_nat atLeast0LessThan set_writes_def [abs_def])
qed

section \<open>Witnesses\<close>

text \<open>A small highly associative cache over a level that always answers in one cycle.\<close>

definition unit_level :: "unit blk_access" where
  "unit_level cmd a n b now m = Some (1, blk_data b, blk_user b, m)"

interpretation unit: mem_level unit_level "\<lambda>_. True" "\<lambda>_ _ _. True" "\<lambda>_. True"
  by unfold_locales (simp add: unit_level_def)

lemma demo_cache:
  obtains cp where "cache_create ''demo'' 2 16 0 0 8 LRU 1 = Some cp" "cp_tag_shift cp < 32"
    "cp_blk_mask cp = 15" "cp_bsize cp = 16" "cache_inv cp" "cp_policy cp = LRU"
    "over (\<lambda>_. True) (\<lambda>_ _ _. True) (\<lambda>_. True) cp ()"
proof -
  have "\<exists>cp. cache_create ''demo'' 2 16 0 0 8 LRU 1 = Some cp \<and> cp_tag_shift cp < 32 \<and> cp_blk_mask cp = 15 \<and> cp_bsize cp = 16"
    by (simp add: cache_create_def log_base2_def log2_loop.simps Let_def)
  then obtain cp where cp: "cache_create ''demo'' 2 16 0 0 8 LRU 1 = Some cp" "cp_tag_shift cp < 32"
    "cp_blk_mask cp = 15" "cp_bsize cp = 16" by blast
  note c = cache_create_inv [OF cp(1,2)]
  show ?thesis by (rule that [OF cp c(1,4)]) (simp add: over_def c(1))
qed

lemma demo_access:
  assumes "cp_blk_mask cp = 15" "cp_bsize cp = 16" "over (\<lambda>_. True) (\<lambda>_ _ _. True) (\<lambda>_. True) cp ()"
  obtains acc cp' where "cache_access unit_level cp Write 0x104 [] 4 0 0 () = Some (acc, cp', ())"
proof -
  have "accepts cp 0x104 4" using assms(1,2) by (simp add: accepts_def CACHE_BADDR_def)
  from unit.access_returns [OF assms(3) this TrueI, of Write "[]" 0 0] that show ?thesis by auto
qed

text \<open>A level that keeps a log, and a direct-mapped cache with one dirty block over it.\<close>

definition log_level :: "call_t list blk_access" where
  "log_level cmd a n b now m = Some (1, blk_data b, blk_user b, m @ [(cmd, a, n)])"

interpretation logged: mem_level log_level "\<lambda>_. True" "\<lambda>_ _ _. True" "\<lambda>_. True"
  by unfold_locales (simp add: log_level_def)

lemma records_log_level: "records log_level (\<lambda>m. m)"
  by (simp add: records_def log_level_def)

lemma dirty_demo:
  obtains cp acc cp1 where "cache_create ''demo'' 2 16 0 0 1 LRU 1 = Some cp"
    "cache_access log_level cp Write 0x104 [] 4 0 0 [] = Some (acc, cp1, [(Read, 0x100, 16)])"
    "over (\<lambda>_. True) (\<lambda>_ _ _. True) (\<lambda>_. True) cp1 ([(Read, 0x100, 16)] :: call_t list)" "cp_policy cp1 = LRU"
    "abs_set cp1 (cp_sets cp1 0) = [Some (8, True)]" "abs_set cp1 (cp_sets cp1 1) = [None]" "cp_nsets cp1 = 2"
    "cp_bsize cp1 = 16" "cp_blk_mask cp1 = 15" "CACHE_SET cp1 0x124 = 0" "CACHE_TAG cp1 0x124 = 9"
    "CACHE_MK_BADDR cp1 8 0 = 0x100"
proof -
  have "\<exists>cp. cache_create ''demo'' 2 16 0 0 1 LRU 1 = Some cp \<and> cp_tag_shift cp = 5 \<and> cp_set_shift cp = 4 \<and>
      cp_set_mask cp = 1 \<and> cp_blk_mask cp = 15 \<and> cp_bsize cp = 16 \<and> cp_nsets cp = 2 \<and> cp_assoc cp = 1"
    by (simp add: cache_create_def log_base2_def log2_loop.simps Let_def)
  then obtain cp where cp: "cache_create ''demo'' 2 16 0 0 1 LRU 1 = Some cp" "cp_tag_shift cp = 5" "cp_set_shift cp = 4"
    "cp_set_mask cp = 1" "cp_blk_mask cp = 15" "cp_bsize cp = 16" "cp_nsets cp = 2" "cp_assoc cp = 1" by blast
  have "cp_tag_shift cp < 32" using cp(2) by simp
  note c = cache_create_inv [OF cp(1) this]
  have fld: "CACHE_SET cp 0x104 = 0" "CACHE_TAG cp 0x104 = 8" "CACHE_BADDR cp 0x104 = 0x100" "CACHE_SET cp 0x124 = 0"
    "CACHE_TAG cp 0x124 = 9" "CACHE_MK_BADDR cp 8 0 = 0x100" "CACHE_SET cp 0x114 = 1"
    by (simp_all add: CACHE_SET_def CACHE_TAG_def CACHE_BADDR_def CACHE_MK_BADDR_def cp c_shr_def c_shl_def)
  have none: "es = [None]" if "holds_first (Suc 0) [] es" for es using that by (cases es) (auto simp: holds_first_def)
  have e: "abs_set cp (cp_sets cp 0) = [None]" "abs_set cp (cp_sets cp 1) = [None]"
    using fresh_holds_nothing [OF c(1,2), of "0x104"] fresh_holds_nothing [OF c(1,2), of "0x114"]
    by (auto simp: fld cp(8) intro: none)
  have "over (\<lambda>_. True) (\<lambda>_ _ _. True) (\<lambda>_. True) cp ([] :: call_t list)" by (simp add: over_def c(1))
  moreover have "accepts cp 0x104 4" by (simp add: accepts_def fld cp(5,6))
  ultimately obtain acc cp1 m1 where run: "cache_access log_level cp Write 0x104 [] 4 0 0 [] = Some (acc, cp1, m1)"
    and ov: "over (\<lambda>_. True) (\<lambda>_ _ _. True) (\<lambda>_. True) cp1 m1" and par: "params cp1 = params cp"
    using logged.access_returns [OF _ _ TrueI, where cp = cp and m = "[]" and addr = "0x104" and n = 4 and cmd = Write and p = "[]"
        and now = 0 and rnd = 0] by blast
  note ok = cache_access_ok [OF c(1) run] and P = paramsD [OF par]
  have absent: "\<not> present cp 0x104" by (simp add: present_def fld e has_tag_def)
  have v: "victim_entry cp 0 0x104 = None" using victim_last [OF c(1), of 0 "0x104"] c(4) by (simp add: fld e)
  have "m1 = miss_calls cp 0 0x104" using cache_access_log [OF c(1) run records_log_level] absent by simp
  then have m1: "m1 = [(Read, 0x100, 16)]" by (simp add: miss_calls_def v write_back_def fld cp(6))
  have "abs_set cp (cp_sets cp1 0) = [Some (8, True)]"
    using ok(3) absent c(4) by (simp add: fld spec_set_def spec_access_def e has_tag_def)
  moreover have "cp_sets cp1 1 = cp_sets cp 1" using refines_accessD(3) [OF ok(1), of 1] by (simp add: fld)
  ultimately show ?thesis using that [OF cp(1) run [unfolded m1] ov [unfolded m1]] c(4) e(2) cp fld
    by (simp add: P)
qed

lemma cache_access_refines_witness:
  "\<exists>cp acc cp1 acc' cp2. cache_create ''demo'' 2 16 0 0 1 LRU 1 = Some cp \<and>
    cache_access log_level cp Write 0x104 [] 4 0 0 [] = Some (acc, cp1, [(Read, 0x100, 16)]) \<and>
    cache_access log_level cp1 Read 0x124 [] 4 0 0 [(Read, 0x100, 16)] =
      Some (acc', cp2, [(Read, 0x100, 16), (Write, 0x100, 16), (Read, 0x120, 16)]) \<and>
    abs_set cp2 (cp_sets cp2 0) = [Some (9, False)] \<and> cp_hits cp2 = cp_hits cp1 \<and> cp_misses cp2 = cp_misses cp1 + 1 \<and>
    cp_replacements cp2 = cp_replacements cp1 + 1 \<and> cp_writebacks cp2 = cp_writebacks cp1 + 1"
proof -
  obtain cp acc cp1 where d: "cache_create ''demo'' 2 16 0 0 1 LRU 1 = Some cp"
    "cache_access log_level cp Write 0x104 [] 4 0 0 [] = Some (acc, cp1, [(Read, 0x100, 16)])"
    and ov: "over (\<lambda>_. True) (\<lambda>_ _ _. True) (\<lambda>_. True) cp1 ([(Read, 0x100, 16)] :: call_t list)" and pol: "cp_policy cp1 = LRU"
    and e: "abs_set cp1 (cp_sets cp1 0) = [Some (8, True)]" and b: "cp_bsize cp1 = 16" "cp_blk_mask cp1 = 15"
    and fld: "CACHE_SET cp1 0x124 = 0" "CACHE_TAG cp1 0x124 = 9" "CACHE_MK_BADDR cp1 8 0 = 0x100" by (rule dirty_demo)
  note inv = overD(1) [OF ov]
  have ba: "CACHE_BADDR cp1 0x124 = 0x120" by (simp add: CACHE_BADDR_def b)
  then have "accepts cp1 0x124 4" by (simp add: accepts_def b)
  then obtain acc' cp2 m2 where run: "cache_access log_level cp1 Read 0x124 [] 4 0 0 [(Read, 0x100, 16)] = Some (acc', cp2, m2)"
    using logged.access_returns [OF ov _ TrueI, where addr = "0x124" and n = 4 and cmd = Read and p = "[]"
        and now = 0 and rnd = 0] by blast
  have v: "victim_entry cp1 0 0x124 = Some (8, True)" using victim_last [OF inv, of 0 "0x124"] pol by (simp add: fld e)
  have absent: "\<not> present cp1 0x124" by (simp add: present_def fld e has_tag_def)
  have calls: "miss_calls cp1 0 0x124 = [(Write, 0x100, 16), (Read, 0x120, 16)]"
    by (simp add: miss_calls_def v write_back_def fld b ba)
  have spec: "spec_set cp1 0 False 0x124 = [Some (9, False)]"
    by (simp add: spec_set_def spec_access_def fld e has_tag_def pol absent)
  from cache_access_refines [OF inv run] records_log_level
  have "m2 = [(Read, 0x100, 16)] @ miss_calls cp1 0 0x124" "abs_set cp2 (cp_sets cp2 0) = [Some (9, False)]"
    "cp_hits cp2 = cp_hits cp1" "cp_misses cp2 = cp_misses cp1 + 1"
    "cp_replacements cp2 = cp_replacements cp1 + 1" "cp_writebacks cp2 = cp_writebacks cp1 + 1"
    by (auto simp: absent v fld spec is_dirty_def)
  with d run show ?thesis unfolding calls by auto
qed

lemma lru_holds_recent_witness:
  "\<exists>cp cp'. cache_create ''demo'' 2 16 0 0 8 LRU 1 = Some cp \<and>
    cache_run unit_level [\<lparr>rq_cmd = Write, rq_addr = 0x104, rq_buf = [], rq_nbytes = 4, rq_now = 0\<rparr>] cp () = Some (cp', ()) \<and>
    cache_probe cp' 0x104 = Some True"
proof -
  obtain cp where cp: "cache_create ''demo'' 2 16 0 0 8 LRU 1 = Some cp" "cp_tag_shift cp < 32" "cp_blk_mask cp = 15"
    "cp_bsize cp = 16" "over (\<lambda>_. True) (\<lambda>_ _ _. True) (\<lambda>_. True) cp ()" by (rule demo_cache)
  obtain acc cp' where run: "cache_access unit_level cp Write 0x104 [] 4 0 0 () = Some (acc, cp', ())"
    using cp(3,4,5) by (rule demo_access)
  let ?rs = "[\<lparr>rq_cmd = Write, rq_addr = 0x104, rq_buf = [], rq_nbytes = 4, rq_now = 0\<rparr>]"
  have r: "cache_run unit_level ?rs cp () = Some (cp', ())" using run by simp
  have "set_tags cp 0x104 ?rs = [CACHE_TAG cp 0x104]" by (simp add: set_tags_def)
  then have "CACHE_TAG cp 0x104 \<in> set (take (unat (8 :: word_t)) (recent (set_tags cp 0x104 ?rs)))"
    by (simp add: recent_def touch_def)
  with lru_holds_recent [OF cp(1,2) r, of "0x104"] r cp(1) show ?thesis by auto
qed

lemma hash_search_linear_witness:
  "\<exists>cp r. cache_create ''demo'' 2 16 0 0 8 LRU 1 = Some cp \<and>
    find_blk cp (CACHE_SET cp 0x104) (CACHE_TAG cp 0x104) = r \<and>
    chain_find (wnext (cp_sets cp (unat (CACHE_SET cp 0x104))))
      (blk_holds (cp_sets cp (unat (CACHE_SET cp 0x104))) (CACHE_TAG cp 0x104))
      (way_head (cp_sets cp (unat (CACHE_SET cp 0x104)))) = r"
proof -
  obtain cp where cp: "cache_create ''demo'' 2 16 0 0 8 LRU 1 = Some cp" "cache_inv cp" by (rule demo_cache)
  from hash_search_linear [OF cp(2), of "0x104"] cp(1) show ?thesis by auto
qed

lemma fresh_block_zero_witness:
  "\<exists>cp. cache_create ''demo'' 2 16 0 0 8 LRU 1 = Some cp \<and> cache_access unit_level cp Read 8 [] 4 0 0 () = None"
proof -
  obtain cp where cp: "cache_create ''demo'' 2 16 0 0 8 LRU 1 = Some cp" "cp_tag_shift cp < 32" by (rule demo_cache)
  have "(8 :: word_t) < 16" by simp
  from fresh_block_zero [OF cp this, where fn = unit_level] cp(1) show ?thesis by blast
qed

lemma cache_flush_empties_witness:
  "\<exists>cp acc cp1 lat cp2. cache_create ''demo'' 2 16 0 0 1 LRU 1 = Some cp \<and>
    cache_access log_level cp Write 0x104 [] 4 0 0 [] = Some (acc, cp1, [(Read, 0x100, 16)]) \<and>
    cache_flush log_level cp1 0 [(Read, 0x100, 16)] = Some (lat, cp2, [(Read, 0x100, 16), (Write, 0x100, 16)]) \<and>
    cp_writebacks cp2 = cp_writebacks cp1 + 1 \<and> cache_probe cp2 0x104 = Some False"
proof -
  obtain cp acc cp1 where d: "cache_create ''demo'' 2 16 0 0 1 LRU 1 = Some cp"
    "cache_access log_level cp Write 0x104 [] 4 0 0 [] = Some (acc, cp1, [(Read, 0x100, 16)])"
    and ov: "over (\<lambda>_. True) (\<lambda>_ _ _. True) (\<lambda>_. True) cp1 ([(Read, 0x100, 16)] :: call_t list)"
    and e: "abs_set cp1 (cp_sets cp1 0) = [Some (8, True)]" "abs_set cp1 (cp_sets cp1 1) = [None]"
    and n: "cp_nsets cp1 = 2" "cp_bsize cp1 = 16" and mk: "CACHE_MK_BADDR cp1 8 0 = 0x100" by (rule dirty_demo)
  obtain lat cp2 m2 where run: "cache_flush log_level cp1 0 [(Read, 0x100, 16)] = Some (lat, cp2, m2)"
    using logged.flush_returns [OF ov] by blast
  have sum: "(\<Sum>i < 2. set_dirty cp1 i) = 1"
    using e by (simp add: set_dirty_def is_dirty_def numeral_2_eq_2)
  have upt: "[0..<unat (2 :: word_t)] = [0, 1]" by (simp add: upt_rec)
  have calls: "concat (map (\<lambda>i. concat (map (write_back cp1 (of_nat i)) (abs_set cp1 (cp_sets cp1 i)))) [0, 1]) = [(Write, 0x100, 16)]"
    using e by (simp add: write_back_def mk n(2))
  note flushed = cache_flush_empties [OF overD(1) [OF ov] run, unfolded n(1) upt calls]
  have "m2 = [(Read, 0x100, 16), (Write, 0x100, 16)]" 
    using conjunct2 [OF conjunct2 [OF conjunct2 [OF flushed]], rule_format, OF records_log_level] by simp
  moreover have "cp_writebacks cp2 = cp_writebacks cp1 + 1" using flushed sum by simp
  moreover have "cache_probe cp2 0x104 = Some False" using flushed by blast
  ultimately show ?thesis using d run by auto
qed

end
