(* ===== verification/Misc_Str.thy ===== *)
theory Misc_Str
  imports Prelude
begin

text \<open>
  The string helpers of misc.c.  A C string is the list of the codes of its characters, the
  terminating 0 left out; the character classes are those of the C locale.
\<close>

type_synonym cstr = "nat list"

definition cstr_of :: "string \<Rightarrow> cstr" where "cstr_of s = map of_char s"

definition isdigit :: "nat \<Rightarrow> bool" where "isdigit c \<longleftrightarrow> 48 \<le> c \<and> c \<le> 57"
definition isupper :: "nat \<Rightarrow> bool" where "isupper c \<longleftrightarrow> 65 \<le> c \<and> c \<le> 90"
definition islower :: "nat \<Rightarrow> bool" where "islower c \<longleftrightarrow> 97 \<le> c \<and> c \<le> 122"
definition isalpha :: "nat \<Rightarrow> bool" where "isalpha c \<longleftrightarrow> isupper c \<or> islower c"
definition isspace :: "nat \<Rightarrow> bool" where "isspace c \<longleftrightarrow> c = 32 \<or> 9 \<le> c \<and> c \<le> 13"
definition tolower :: "nat \<Rightarrow> nat" where "tolower c = (if isupper c then c + 32 else c)"
definition toupper :: "nat \<Rightarrow> nat" where "toupper c = (if islower c then c - 32 else c)"

text \<open>The character a pointer into a string points at, and a string without a 0 inside.\<close>

definition cur :: "cstr \<Rightarrow> nat" where "cur s = (case s of [] \<Rightarrow> 0 | c # _ \<Rightarrow> c)"

definition cstr_ok :: "cstr \<Rightarrow> bool" where "cstr_ok s \<longleftrightarrow> 0 \<notin> set s \<and> (\<forall>c \<in> set s. c < 256)"

text \<open>\<open>mystricmp()\<close>: the difference of the first characters that differ without case.\<close>

function mystricmp :: "cstr \<Rightarrow> cstr \<Rightarrow> int" where
  "mystricmp s1 s2 =
     (let u1 = tolower (cur s1); u2 = tolower (cur s2) in
      if u1 \<noteq> u2 then int u1 - int u2
      else if u1 = 0 \<or> s1 = [] then 0
      else mystricmp (tl s1) (tl s2))"
  by auto
termination by (relation "measure (\<lambda>(s1, s2). length s1)") auto

declare mystricmp.simps [simp del]

text \<open>\<open>mystrrchr()\<close>: the position of the last occurrence, the terminator included.\<close>

fun strrchr_loop :: "cstr \<Rightarrow> nat \<Rightarrow> nat \<Rightarrow> nat option \<Rightarrow> nat option" where
  "strrchr_loop [] c i r = (if c = 0 then Some i else r)"
| "strrchr_loop (x # xs) c i r = strrchr_loop xs c (Suc i) (if x = c then Some i else r)"

definition mystrrchr :: "cstr \<Rightarrow> nat \<Rightarrow> nat option" where
  "mystrrchr s c = strrchr_loop s c 0 None"

section \<open>Lemmas\<close>

lemma tolower_0 [simp]: "tolower c = 0 \<longleftrightarrow> c = 0" "tolower 0 = 0"
  by (auto simp: tolower_def isupper_def)

lemma cur_simps [simp]: "cur [] = 0" "cur (c # s) = c"
  by (simp_all add: cur_def)

lemma mystricmp_eq_0:
  assumes "0 \<notin> set s1" "0 \<notin> set s2"
  shows "mystricmp s1 s2 = 0 \<longleftrightarrow> map tolower s1 = map tolower s2"
  using assms
proof (induction s1 arbitrary: s2)
  case Nil
  then show ?case by (subst mystricmp.simps) (cases s2, auto simp: Let_def eq_commute [of 0])
next
  case (Cons c s1)
  show ?case
  proof (cases s2)
    case Nil
    then show ?thesis using Cons.prems by (subst mystricmp.simps) (auto simp: Let_def)
  next
    case (Cons d s2')
    then show ?thesis using Cons.prems Cons.IH [of s2'] by (subst mystricmp.simps) (auto simp: Let_def)
  qed
qed

lemma strrchr_loop_out: "c \<noteq> 0 \<Longrightarrow> c \<notin> set s \<Longrightarrow> strrchr_loop s c i r = r"
  by (induction s arbitrary: i r) auto

lemma mystrrchr_last:
  assumes "c \<noteq> 0" "c \<notin> set ys"
  shows "mystrrchr (xs @ c # ys) c = Some (length xs)"
proof -
  have "strrchr_loop (xs @ c # ys) c i r = Some (i + length xs)" for i r
    using assms by (induction xs arbitrary: i r) (auto simp: strrchr_loop_out)
  then show ?thesis by (simp add: mystrrchr_def)
qed

section \<open>Decimal numbers\<close>

fun dec_digits :: "nat \<Rightarrow> cstr" where
  "dec_digits n = (if n < 10 then [48 + n] else dec_digits (n div 10) @ [48 + n mod 10])"

declare dec_digits.simps [simp del]

lemma dec_digits_isdigit: "c \<in> set (dec_digits n) \<Longrightarrow> isdigit c"
proof (induction n rule: dec_digits.induct)
  case (1 n)
  then show ?case by (subst (asm) dec_digits.simps) (auto simp: isdigit_def split: if_splits)
qed

lemma dec_digits_nonempty [simp]: "dec_digits n \<noteq> []"
  by (subst dec_digits.simps) simp

lemma foldl_dec_digits:
  fixes z :: "'a :: semiring_1"
  shows "foldl (\<lambda>n d. n * 10 + of_nat (d - 48)) 0 (dec_digits n) = (of_nat n :: 'a)"
proof (induction n rule: dec_digits.induct)
  case (1 n)
  show ?case
  proof (cases "n < 10")
    case True
    then show ?thesis by (subst dec_digits.simps) simp
  next
    case False
    have "(of_nat n :: 'a) = of_nat (n div 10 * 10 + n mod 10)" by simp
    also have "\<dots> = of_nat (n div 10) * 10 + of_nat (n mod 10)" by (simp only: of_nat_add of_nat_mult of_nat_numeral)
    finally show ?thesis using False 1 by (subst dec_digits.simps) simp
  qed
qed

lemma takeWhile_digits:
  assumes "\<not> isdigit (cur r)"
  shows "takeWhile isdigit (dec_digits n @ r) = dec_digits n" "dropWhile isdigit (dec_digits n @ r) = r"
  using assms dec_digits_isdigit [of _ n]
  by (auto simp: takeWhile_append2 dropWhile_append2 cur_def isdigit_def split: list.splits)

end
