(* ===== verification/Sim_Cache.thy ===== *)
theory Sim_Cache
  imports Cache_Level Misc_Str
begin

text \<open>
  The cache hierarchy of the functional cache simulator (sim-cache.c): up to two levels of
  instruction and data caches, which may be shared, and two TLBs.  A cache variable is a
  pointer, here a name in the table of the caches created or null, so that levels pointed
  at each other share their state; a block miss handler reaches the next level through the
  variable of that level.  The simulated memory is consulted beside the caches, which hold
  no data.
\<close>

section \<open>State\<close>

datatype slot = DL1 | DL2 | IL1 | IL2 | ITLB | DTLB

record hier_t =
  h_cell :: "slot \<Rightarrow> gcache_t option"
  cache_il1 :: "slot option"
  cache_il2 :: "slot option"
  cache_dl1 :: "slot option"
  cache_dl2 :: "slot option"
  itlb :: "slot option"
  dtlb :: "slot option"
  h_rand :: "nat \<Rightarrow> word_t"

text \<open>The values \<open>myrand()\<close> is going to return, taken one per access.\<close>

definition next_rand :: "hier_t \<Rightarrow> word_t \<times> hier_t" where
  "next_rand h = (h_rand h 0, h\<lparr>h_rand := (\<lambda>i. h_rand h (Suc i))\<rparr>)"

section \<open>Block miss handlers\<close>

definition dl2_access_fn :: "hier_t blk_access" where
  "dl2_access_fn cmd baddr bsize blk now h = Some (1, blk_data blk, blk_user blk, h)"

definition il2_access_fn :: "hier_t blk_access" where
  "il2_access_fn cmd baddr bsize blk now h = Some (1, blk_data blk, blk_user blk, h)"

text \<open>The TLB handlers assert the user data and store the physical page 0 in it.\<close>

definition itlb_access_fn :: "hier_t blk_access" where
  "itlb_access_fn cmd baddr bsize blk now h =
     (case blk_user blk of None \<Rightarrow> None
      | Some u \<Rightarrow> Some (1, blk_data blk, Some (bytes_of_word 0 @ drop 4 u), h))"

definition dtlb_access_fn :: "hier_t blk_access" where
  "dtlb_access_fn cmd baddr bsize blk now h =
     (case blk_user blk of None \<Rightarrow> None
      | Some u \<Rightarrow> Some (1, blk_data blk, Some (bytes_of_word 0 @ drop 4 u), h))"

text \<open>\<open>cache_access()\<close> on the cache a pointer names, with the handler that cache was created with.\<close>

definition access_cell :: "(slot \<Rightarrow> hier_t blk_access) \<Rightarrow> slot \<Rightarrow> mem_cmd \<Rightarrow> md_addr_t \<Rightarrow> word_t \<Rightarrow>
    tick_t \<Rightarrow> hier_t \<Rightarrow> (word_t \<times> hier_t) option" where
  "access_cell handler s cmd addr nbytes now h = do {
     cp \<leftarrow> h_cell h s;
     (let (rnd, h0) = next_rand h in do {
        (acc, cp1, h1) \<leftarrow> cache_access (handler s) cp cmd addr [] nbytes now rnd h0;
        Some (acc_lat acc, h1\<lparr>h_cell := (h_cell h1)(s := Some cp1)\<rparr>) }) }"

definition leaf_handler :: "slot \<Rightarrow> hier_t blk_access" where
  "leaf_handler s = (if s = IL2 then il2_access_fn else dl2_access_fn)"

definition dl1_access_fn :: "hier_t blk_access" where
  "dl1_access_fn cmd baddr bsize blk now h =
     (case cache_dl2 h of
        Some s \<Rightarrow> do {
          (lat, h1) \<leftarrow> access_cell leaf_handler s cmd baddr bsize now h;
          Some (lat, blk_data blk, blk_user blk, h1) }
      | None \<Rightarrow> Some (1, blk_data blk, blk_user blk, h))"

definition il1_access_fn :: "hier_t blk_access" where
  "il1_access_fn cmd baddr bsize blk now h =
     (case cache_il2 h of
        Some s \<Rightarrow> do {
          (lat, h1) \<leftarrow> access_cell leaf_handler s cmd baddr bsize now h;
          Some (lat, blk_data blk, blk_user blk, h1) }
      | None \<Rightarrow> Some (1, blk_data blk, blk_user blk, h))"

definition handler :: "slot \<Rightarrow> hier_t blk_access" where
  "handler s = (case s of DL1 \<Rightarrow> dl1_access_fn | DL2 \<Rightarrow> dl2_access_fn | IL1 \<Rightarrow> il1_access_fn
     | IL2 \<Rightarrow> il2_access_fn | ITLB \<Rightarrow> itlb_access_fn | DTLB \<Rightarrow> dtlb_access_fn)"

section \<open>Configuration\<close>

text \<open>
  \<open>sscanf(opt, "%[^:]:%d:%d:%d:%c", ...)\<close> with all five conversions done: \<open>%d\<close> skips white
  space and takes a sign and digits.  A number out of the range of \<open>int\<close> and a name longer
  than its buffer have no defined effect in C and give no result here.
\<close>

definition scan_int :: "cstr \<Rightarrow> (word_t \<times> cstr) option" where
  "scan_int s =
     (let s1 = dropWhile isspace s;
          (neg, s2) = (case s1 of c # r \<Rightarrow> if c = 45 then (True, r) else if c = 43 then (False, r) else (False, s1)
                       | [] \<Rightarrow> (False, s1));
          ds = takeWhile isdigit s2;
          v = foldl (\<lambda>n d. n * 10 + int (d - 48)) 0 ds
      in if ds = [] \<or> v \<ge> 2 ^ 31 then None
         else Some (of_int (if neg then - v else v), dropWhile isdigit s2))"

definition scan_colon :: "cstr \<Rightarrow> cstr option" where
  "scan_colon s = (case s of c # r \<Rightarrow> if c = 58 then Some r else None | [] \<Rightarrow> None)"

definition scan_config :: "cstr \<Rightarrow> (cstr \<times> word_t \<times> word_t \<times> word_t \<times> nat) option" where
  "scan_config s =
     (let name = takeWhile (\<lambda>c. c \<noteq> 58) s in
      if name = [] \<or> length name \<ge> 128 then None
      else do {
        s1 \<leftarrow> scan_colon (dropWhile (\<lambda>c. c \<noteq> 58) s);
        (nsets, s2) \<leftarrow> scan_int s1;  s3 \<leftarrow> scan_colon s2;
        (bsize, s4) \<leftarrow> scan_int s3;  s5 \<leftarrow> scan_colon s4;
        (assoc, s6) \<leftarrow> scan_int s5;  s7 \<leftarrow> scan_colon s6;
        case s7 of [] \<Rightarrow> None | c # _ \<Rightarrow> Some (name, nsets, bsize, assoc, c) })"

definition config_cache :: "cstr \<Rightarrow> word_t \<Rightarrow> gcache_t option" where
  "config_cache opt usize = do {
     (name, nsets, bsize, assoc, c) \<leftarrow> scan_config opt;
     pol \<leftarrow> cache_char2policy (char_of c);
     cache_create (map char_of name) nsets bsize 0 usize assoc pol 1 }"

record cache_opts =
  dl1_opt :: cstr
  dl2_opt :: cstr
  il1_opt :: cstr
  il2_opt :: cstr
  itlb_opt :: cstr
  dtlb_opt :: cstr

definition no_caches :: "(nat \<Rightarrow> word_t) \<Rightarrow> hier_t" where
  "no_caches rand = \<lparr>h_cell = (\<lambda>_. None), cache_il1 = None, cache_il2 = None, cache_dl1 = None,
     cache_dl2 = None, itlb = None, dtlb = None, h_rand = rand\<rparr>"

definition is_opt :: "cstr \<Rightarrow> string \<Rightarrow> bool" where
  "is_opt opt s \<longleftrightarrow> mystricmp opt (cstr_of s) = 0"

definition put_cell :: "hier_t \<Rightarrow> slot \<Rightarrow> gcache_t \<Rightarrow> hier_t" where
  "put_cell h s cp = h\<lparr>h_cell := (h_cell h)(s := Some cp)\<rparr>"

text \<open>The four parts of \<open>sim_check_options()\<close>; a fatal configuration is \<open>None\<close>.\<close>

definition config_data :: "cache_opts \<Rightarrow> hier_t \<Rightarrow> hier_t option" where
  "config_data o1 h =
     (if is_opt (dl1_opt o1) ''none'' then
        if dl2_opt o1 \<noteq> cstr_of ''none'' then None
        else Some (h\<lparr>cache_dl1 := None, cache_dl2 := None\<rparr>)
      else do {
        cp1 \<leftarrow> config_cache (dl1_opt o1) 0;
        (let h1 = (put_cell h DL1 cp1)\<lparr>cache_dl1 := Some DL1\<rparr> in
         if is_opt (dl2_opt o1) ''none'' then Some (h1\<lparr>cache_dl2 := None\<rparr>)
         else do {
           cp2 \<leftarrow> config_cache (dl2_opt o1) 0;
           Some ((put_cell h1 DL2 cp2)\<lparr>cache_dl2 := Some DL2\<rparr>) }) })"

definition config_inst :: "cache_opts \<Rightarrow> hier_t \<Rightarrow> hier_t option" where
  "config_inst o1 h =
     (if is_opt (il1_opt o1) ''none'' then
        if il2_opt o1 \<noteq> cstr_of ''none'' then None
        else Some (h\<lparr>cache_il1 := None, cache_il2 := None\<rparr>)
      else if is_opt (il1_opt o1) ''dl1'' then
        if cache_dl1 h = None \<or> il2_opt o1 \<noteq> cstr_of ''none'' then None
        else Some (h\<lparr>cache_il1 := cache_dl1 h, cache_il2 := None\<rparr>)
      else if is_opt (il1_opt o1) ''dl2'' then
        if cache_dl2 h = None \<or> il2_opt o1 \<noteq> cstr_of ''none'' then None
        else Some (h\<lparr>cache_il1 := cache_dl2 h, cache_il2 := None\<rparr>)
      else do {
        cp1 \<leftarrow> config_cache (il1_opt o1) 0;
        (let h1 = (put_cell h IL1 cp1)\<lparr>cache_il1 := Some IL1\<rparr> in
         if is_opt (il2_opt o1) ''none'' then Some (h1\<lparr>cache_il2 := None\<rparr>)
         else if is_opt (il2_opt o1) ''dl2'' then
           if cache_dl2 h1 = None then None else Some (h1\<lparr>cache_il2 := cache_dl2 h1\<rparr>)
         else do {
           cp2 \<leftarrow> config_cache (il2_opt o1) 0;
           Some ((put_cell h1 IL2 cp2)\<lparr>cache_il2 := Some IL2\<rparr>) }) })"

definition config_tlb :: "cstr \<Rightarrow> slot \<Rightarrow> hier_t \<Rightarrow> (slot option \<times> hier_t) option" where
  "config_tlb opt s h =
     (if is_opt opt ''none'' then Some (None, h)
      else do { cp \<leftarrow> config_cache opt 4; Some (Some s, put_cell h s cp) })"

definition sim_check_options :: "cache_opts \<Rightarrow> (nat \<Rightarrow> word_t) \<Rightarrow> hier_t option" where
  "sim_check_options o1 rand = do {
     h1 \<leftarrow> config_data o1 (no_caches rand);
     h2 \<leftarrow> config_inst o1 h1;
     (pi, h3) \<leftarrow> config_tlb (itlb_opt o1) ITLB h2;
     (let h4 = h3\<lparr>itlb := pi\<rparr> in do {
        (pd, h5) \<leftarrow> config_tlb (dtlb_opt o1) DTLB h4;
        Some (h5\<lparr>dtlb := pd\<rparr>) }) }"

section \<open>Accesses of the simulated program\<close>

definition access_ptr :: "slot option \<Rightarrow> mem_cmd \<Rightarrow> md_addr_t \<Rightarrow> word_t \<Rightarrow> hier_t \<Rightarrow> hier_t option" where
  "access_ptr p cmd addr nbytes h =
     (case p of None \<Rightarrow> Some h
      | Some s \<Rightarrow> do { (lat, h1) \<leftarrow> access_cell handler s cmd addr nbytes 0 h; Some h1 })"

definition READ_CACHE :: "md_addr_t \<Rightarrow> word_t \<Rightarrow> hier_t \<Rightarrow> hier_t option" where
  "READ_CACHE addr nb h = do {
     h1 \<leftarrow> access_ptr (dtlb h) Read addr nb h;
     access_ptr (cache_dl1 h1) Read addr nb h1 }"

definition WRITE_CACHE :: "md_addr_t \<Rightarrow> word_t \<Rightarrow> hier_t \<Rightarrow> hier_t option" where
  "WRITE_CACHE addr nb h = do {
     h1 \<leftarrow> access_ptr (dtlb h) Write addr nb h;
     access_ptr (cache_dl1 h1) Write addr nb h1 }"

definition READ_BYTE :: "md_addr_t \<Rightarrow> hier_t \<Rightarrow> mem_t \<Rightarrow> (byte_t \<times> hier_t \<times> mem_t) option" where
  "READ_BYTE src h m = do { h1 \<leftarrow> READ_CACHE src 1 h; (v, m1) \<leftarrow> MEM_READ_BYTE m src; Some (v, h1, m1) }"

definition READ_HALF :: "md_addr_t \<Rightarrow> hier_t \<Rightarrow> mem_t \<Rightarrow> (half_t \<times> hier_t \<times> mem_t) option" where
  "READ_HALF src h m = do { h1 \<leftarrow> READ_CACHE src 2 h; (v, m1) \<leftarrow> MEM_READ_HALF m src; Some (v, h1, m1) }"

definition READ_WORD :: "md_addr_t \<Rightarrow> hier_t \<Rightarrow> mem_t \<Rightarrow> (word_t \<times> hier_t \<times> mem_t) option" where
  "READ_WORD src h m = do { h1 \<leftarrow> READ_CACHE src 4 h; (v, m1) \<leftarrow> MEM_READ_WORD m src; Some (v, h1, m1) }"

definition WRITE_BYTE :: "byte_t \<Rightarrow> md_addr_t \<Rightarrow> hier_t \<Rightarrow> mem_t \<Rightarrow> (hier_t \<times> mem_t) option" where
  "WRITE_BYTE src dst h m = do { h1 \<leftarrow> WRITE_CACHE dst 1 h; m1 \<leftarrow> MEM_WRITE_BYTE m dst src; Some (h1, m1) }"

definition WRITE_HALF :: "half_t \<Rightarrow> md_addr_t \<Rightarrow> hier_t \<Rightarrow> mem_t \<Rightarrow> (hier_t \<times> mem_t) option" where
  "WRITE_HALF src dst h m = do { h1 \<leftarrow> WRITE_CACHE dst 2 h; m1 \<leftarrow> MEM_WRITE_HALF m dst src; Some (h1, m1) }"

definition WRITE_WORD :: "word_t \<Rightarrow> md_addr_t \<Rightarrow> hier_t \<Rightarrow> mem_t \<Rightarrow> (hier_t \<times> mem_t) option" where
  "WRITE_WORD src dst h m = do { h1 \<leftarrow> WRITE_CACHE dst 4 h; m1 \<leftarrow> MEM_WRITE_WORD m dst src; Some (h1, m1) }"

text \<open>The memory access function handed to system calls.\<close>

definition dcache_access_fn :: "mem_t \<Rightarrow> mem_cmd \<Rightarrow> md_addr_t \<Rightarrow> byte_t list \<Rightarrow> word_t \<Rightarrow> hier_t \<Rightarrow>
    ((md_fault_type \<times> byte_t list \<times> mem_t) \<times> hier_t) option" where
  "dcache_access_fn mem cmd addr p nbytes h = do {
     h1 \<leftarrow> access_ptr (dtlb h) cmd addr nbytes h;
     h2 \<leftarrow> access_ptr (cache_dl1 h1) cmd addr nbytes h1;
     r \<leftarrow> mem_access mem cmd addr p (sint nbytes);
     Some (r, h2) }"

text \<open>The flushes before a system call, in the order of the macro.\<close>

definition flush_ptr :: "slot option \<Rightarrow> hier_t \<Rightarrow> hier_t option" where
  "flush_ptr p h =
     (case p of None \<Rightarrow> Some h
      | Some s \<Rightarrow> do {
          cp \<leftarrow> h_cell h s;
          (lat, cp1, h1) \<leftarrow> cache_flush (handler s) cp 0 h;
          Some (put_cell h1 s cp1) })"

definition syscall_flush :: "hier_t \<Rightarrow> hier_t option" where
  "syscall_flush h = do {
     h1 \<leftarrow> flush_ptr (dtlb h) h;
     h2 \<leftarrow> flush_ptr (cache_dl1 h1) h1;
     flush_ptr (cache_dl2 h2) h2 }"

text \<open>Instruction fetch: the addresses may be compressed to four bytes per instruction.\<close>

definition IACOMPRESS :: "bool \<Rightarrow> md_addr_t \<Rightarrow> md_addr_t \<Rightarrow> md_addr_t" where
  "IACOMPRESS compress text_base a = (if compress then drop_bit 1 (a - text_base) + text_base else a)"

definition ISCOMPRESS :: "bool \<Rightarrow> word_t \<Rightarrow> word_t" where
  "ISCOMPRESS compress sz = (if compress then drop_bit 1 sz else sz)"

definition fetch_caches :: "bool \<Rightarrow> md_addr_t \<Rightarrow> md_addr_t \<Rightarrow> hier_t \<Rightarrow> hier_t option" where
  "fetch_caches compress text_base pc h = do {
     h1 \<leftarrow> access_ptr (itlb h) Read (IACOMPRESS compress text_base pc) (ISCOMPRESS compress 8) h;
     access_ptr (cache_il1 h1) Read (IACOMPRESS compress text_base pc) (ISCOMPRESS compress 8) h1 }"

end
