(* ===== verification/Ref_Cache.thy ===== *)
theory Ref_Cache
  imports Cache_Level
begin

text \<open>
  A reference cache: the placement of blocks by division and remainder, every set a list in
  replacement order, and the four counters.  It says which calls an access makes to the
  level below.  A cache of the program with LRU or FIFO replacement behaves as its
  reference, and the level below sees exactly the reference's calls.
\<close>

section \<open>The reference\<close>

record ref_t =
  rc_nsets :: nat
  rc_bsize :: nat
  rc_policy :: cache_policy
  rc_sets :: "nat \<Rightarrow> entry_t list"
  rc_hits :: counter_t
  rc_misses :: counter_t
  rc_replacements :: counter_t
  rc_writebacks :: counter_t

definition ref_set :: "ref_t \<Rightarrow> md_addr_t \<Rightarrow> nat" where
  "ref_set R a = unat a div rc_bsize R mod rc_nsets R"

definition ref_tag :: "ref_t \<Rightarrow> md_addr_t \<Rightarrow> md_addr_t" where
  "ref_tag R a = of_nat (unat a div (rc_bsize R * rc_nsets R))"

definition ref_hit :: "ref_t \<Rightarrow> md_addr_t \<Rightarrow> bool" where
  "ref_hit R a \<longleftrightarrow> (\<exists>e \<in> set (rc_sets R (ref_set R a)). has_tag (ref_tag R a) e)"

text \<open>One access; on a miss the last entry of the set is the victim.\<close>

definition ref_access :: "call_t \<Rightarrow> ref_t \<Rightarrow> ref_t" where
  "ref_access c R =
     (let (cmd, a, n) = c; i = ref_set R a; es = rc_sets R i; hit = ref_hit R a
      in R\<lparr>rc_sets := (rc_sets R)(i := spec_access (rc_policy R) (cmd = Write) (ref_tag R a) es),
           rc_hits := rc_hits R + of_bool hit, rc_misses := rc_misses R + of_bool (\<not> hit),
           rc_replacements := rc_replacements R + of_bool (\<not> hit \<and> last es \<noteq> None),
           rc_writebacks := rc_writebacks R + of_bool (\<not> hit \<and> is_dirty (last es))\<rparr>)"

text \<open>The calls to the level below: a dirty victim is written, the block is read.\<close>

definition ref_calls :: "call_t \<Rightarrow> ref_t \<Rightarrow> call_t list" where
  "ref_calls c R =
     (let (cmd, a, n) = c; i = ref_set R a
      in if ref_hit R a then []
         else (case last (rc_sets R i) of
                 Some (t, True) \<Rightarrow> [(Write, of_nat ((unat t * rc_nsets R + i) * rc_bsize R), of_nat (rc_bsize R))]
               | _ \<Rightarrow> []) @
              [(Read, of_nat (unat a div rc_bsize R * rc_bsize R), of_nat (rc_bsize R))])"

text \<open>The reference of a cache of the program.\<close>

definition ref_of :: "gcache_t \<Rightarrow> ref_t" where
  "ref_of cp = \<lparr>rc_nsets = unat (cp_nsets cp), rc_bsize = unat (cp_bsize cp), rc_policy = cp_policy cp,
     rc_sets = (\<lambda>i. abs_set cp (cp_sets cp i)), rc_hits = cp_hits cp, rc_misses = cp_misses cp,
     rc_replacements = cp_replacements cp, rc_writebacks = cp_writebacks cp\<rparr>"

lemma ref_of_simps [simp]:
  "rc_nsets (ref_of cp) = unat (cp_nsets cp)" "rc_bsize (ref_of cp) = unat (cp_bsize cp)"
  "rc_policy (ref_of cp) = cp_policy cp" "rc_sets (ref_of cp) i = abs_set cp (cp_sets cp i)"
  "rc_hits (ref_of cp) = cp_hits cp" "rc_misses (ref_of cp) = cp_misses cp"
  "rc_replacements (ref_of cp) = cp_replacements cp" "rc_writebacks (ref_of cp) = cp_writebacks cp"
  by (simp_all add: ref_of_def)

section \<open>The macros place blocks as the reference does\<close>

lemma macro_fields:
  assumes "cache_inv cp"
  shows "unat (CACHE_SET cp a) = unat a div unat (cp_bsize cp) mod unat (cp_nsets cp)"
    "CACHE_TAG cp a = of_nat (unat a div (unat (cp_bsize cp) * unat (cp_nsets cp)))"
    "CACHE_BADDR cp a = of_nat (unat a div unat (cp_bsize cp) * unat (cp_bsize cp))"
    "CACHE_MK_BADDR cp t (CACHE_SET cp a) =
       of_nat ((unat t * unat (cp_nsets cp) + unat (CACHE_SET cp a)) * unat (cp_bsize cp))"
proof -
  obtain b n k where geo: "geometry cp b n k" using assms by (auto simp: cache_inv_def)
  have bn: "b < 32" "n < 32" "b + n < 32" using geo by (simp_all add: geometry_def)
  have sz: "unat (cp_bsize cp) = 2 ^ b" "unat (cp_nsets cp) = 2 ^ n" using geo by (simp_all add: geometry_def)
  note F = field_eqs [OF geo]
  have shr: "unat (drop_bit j a) = unat a div 2 ^ j" for j unfolding unat_drop_bit_eq by (rule drop_bit_eq_div)
  show "unat (CACHE_SET cp a) = unat a div unat (cp_bsize cp) mod unat (cp_nsets cp)"
    unfolding F sz by (simp only: unsigned_take_bit_eq take_bit_eq_mod [where 'a = nat] shr)
  have div: "of_nat (unat a div 2 ^ j) = drop_bit j a" for j unfolding shr [symmetric] by simp
  show "CACHE_TAG cp a = of_nat (unat a div (unat (cp_bsize cp) * unat (cp_nsets cp)))"
    unfolding F sz power_add [symmetric] by (rule div [symmetric])
  have "a AND NOT (mask b) = push_bit b (drop_bit b a)"
    by (rule bit_word_eqI) (auto simp: bit_simps)
  also have "\<dots> = of_nat (unat a div 2 ^ b * 2 ^ b)" by (simp add: push_bit_eq_mult flip: div)
  finally show "CACHE_BADDR cp a = of_nat (unat a div unat (cp_bsize cp) * unat (cp_bsize cp))" unfolding F sz .
  have "push_bit (b + n) t OR push_bit b (take_bit n (drop_bit b a)) = push_bit (b + n) t + push_bit b (take_bit n (drop_bit b a))"
    by (rule disjunctive_add_eq_or [symmetric]) (rule bit_word_eqI, auto simp: bit_simps)
  then show "CACHE_MK_BADDR cp t (CACHE_SET cp a) =
      of_nat ((unat t * unat (cp_nsets cp) + unat (CACHE_SET cp a)) * unat (cp_bsize cp))"
    unfolding F sz by (simp add: push_bit_eq_mult power_add algebra_simps)
qed

lemma ref_fields:
  assumes "cache_inv cp"
  shows "ref_set (ref_of cp) a = unat (CACHE_SET cp a)" "ref_tag (ref_of cp) a = CACHE_TAG cp a"
    "ref_hit (ref_of cp) a = present cp a"
  using macro_fields(1,2) [OF assms, of a] by (simp_all add: ref_set_def ref_tag_def ref_hit_def present_def)

section \<open>Refinement\<close>

lemma ref_calls_of:
  assumes "cache_inv cp" "cp_policy cp \<noteq> Random"
  shows "ref_calls (cmd, a, n) (ref_of cp) = (if present cp a then [] else miss_calls cp rnd a)"
  using ref_fields [OF assms(1)] macro_fields(3,4) [OF assms(1)] victim_last [OF assms]
  by (simp add: ref_calls_def miss_calls_def write_back_def Let_def cong: option.case_cong prod.case_cong bool.case_cong)

lemma cache_access_ref:
  assumes "cache_inv cp" "cp_policy cp \<noteq> Random" "cache_access fn cp cmd addr p n now rnd m = Some (acc, cp', m')"
  shows "ref_of cp' = ref_access (cmd, addr, n) (ref_of cp)" "cache_inv cp'" "cp_policy cp' = cp_policy cp"
    "tracks P fn obs step \<Longrightarrow> P m \<Longrightarrow> P m' \<and> obs m' = fold step (ref_calls (cmd, addr, n) (ref_of cp)) (obs m)"
proof -
  note ok = cache_access_ok [OF assms(1,3)]
  note R = refines_accessD [OF ok(1)] and P = paramsD [OF refines_accessD(2) [OF ok(1)]]
  show "cache_inv cp'" "cp_policy cp' = cp_policy cp" by (rule R(1)) (rule P(4))
  have "rc_sets (ref_of cp') = (rc_sets (ref_of cp))(unat (CACHE_SET cp addr) :=
      spec_access (cp_policy cp) (cmd = Write) (CACHE_TAG cp addr) (abs_set cp (cp_sets cp (unat (CACHE_SET cp addr)))))"
    using R(3,4) assms(2) by (auto simp: fun_eq_iff P)
  then show "ref_of cp' = ref_access (cmd, addr, n) (ref_of cp)"
    using ok(2) victim_last [OF assms(1,2), of rnd addr] ref_fields [OF assms(1)]
    by (auto simp: ref_of_def ref_access_def Let_def P counts_access_def counts_hit_def counts_miss_def split: if_splits)
  show "P m' \<and> obs m' = fold step (ref_calls (cmd, addr, n) (ref_of cp)) (obs m)" if "tracks P fn obs step" "P m"
    using ok(4) [OF that] ref_calls_of [OF assms(1,2), of cmd addr n rnd] by simp
qed

end
