(* ===== verification/Sim_Cache_Props.thy ===== *)
theory Sim_Cache_Props
  imports Sim_Cache Ref_Cache
begin

text \<open>
  The hierarchy of sim-cache is well formed from its configuration on: every access the
  caches let through returns and keeps every cache well formed, whichever levels are
  shared, and what the program reads is what the simulated memory holds.
\<close>

section \<open>The levels\<close>

lemma over_trivial: "over (\<lambda>_. True) (\<lambda>_ _ _. True) (\<lambda>_. True) cp m = cache_inv cp"
  by (simp add: over_def)

lemma leaf_level: "mem_level (leaf_handler s) P (\<lambda>_ _ _. True) (\<lambda>_. True)"
  by unfold_locales (auto simp: leaf_handler_def dl2_access_fn_def il2_access_fn_def)

interpretation dl2: mem_level dl2_access_fn "\<lambda>_. True" "\<lambda>_ _ _. True" "\<lambda>_. True"
  by unfold_locales (auto simp: dl2_access_fn_def)

interpretation il2: mem_level il2_access_fn "\<lambda>_. True" "\<lambda>_ _ _. True" "\<lambda>_. True"
  by unfold_locales (auto simp: il2_access_fn_def)

lemma tlb_level:
  "mem_level itlb_access_fn P (\<lambda>_ _ _. True) (\<lambda>u. u \<noteq> None)"
  "mem_level dtlb_access_fn P (\<lambda>_ _ _. True) (\<lambda>u. u \<noteq> None)"
  by unfold_locales (auto simp: itlb_access_fn_def dtlb_access_fn_def)

interpretation itlb: mem_level itlb_access_fn "\<lambda>_. True" "\<lambda>_ _ _. True" "\<lambda>u. u \<noteq> None"
  by (rule tlb_level)

interpretation dtlb: mem_level dtlb_access_fn "\<lambda>_. True" "\<lambda>_ _ _. True" "\<lambda>u. u \<noteq> None"
  by (rule tlb_level)

text \<open>The level a first-level cache is over: nothing, or the cache its pointer names.\<close>

definition below :: "(hier_t \<Rightarrow> slot option) \<Rightarrow> hier_t \<Rightarrow> bool" where
  "below ptr h \<longleftrightarrow> (case ptr h of None \<Rightarrow> True
     | Some s \<Rightarrow> s \<in> {DL2, IL2} \<and> (\<exists>cp. h_cell h s = Some cp \<and> cache_inv cp))"

definition serves_by :: "(hier_t \<Rightarrow> slot option) \<Rightarrow> hier_t \<Rightarrow> md_addr_t \<Rightarrow> word_t \<Rightarrow> bool" where
  "serves_by ptr h a n \<longleftrightarrow> (case ptr h of None \<Rightarrow> True
     | Some s \<Rightarrow> \<exists>cp. h_cell h s = Some cp \<and> accepts cp a n)"

text \<open>
  What a run of accesses may change: the pointers stay, and so do the cells outside \<open>S\<close>;
  every cell keeps its parameters and its well-formedness.
\<close>

definition same_ptrs :: "hier_t \<Rightarrow> hier_t \<Rightarrow> bool" where
  "same_ptrs h h' \<longleftrightarrow> cache_il1 h' = cache_il1 h \<and> cache_il2 h' = cache_il2 h \<and> cache_dl1 h' = cache_dl1 h \<and>
     cache_dl2 h' = cache_dl2 h \<and> itlb h' = itlb h \<and> dtlb h' = dtlb h"

definition evolves :: "slot set \<Rightarrow> hier_t \<Rightarrow> hier_t \<Rightarrow> bool" where
  "evolves S h h' \<longleftrightarrow> same_ptrs h h' \<and> (\<forall>s. s \<notin> S \<longrightarrow> h_cell h' s = h_cell h s) \<and>
     (\<forall>s cp. h_cell h s = Some cp \<longrightarrow>
        (\<exists>cp'. h_cell h' s = Some cp' \<and> params cp' = params cp \<and> (cache_inv cp \<longrightarrow> cache_inv cp')))"

lemma evolves_refl [simp]: "evolves S h h"
  by (simp add: evolves_def same_ptrs_def)

lemma evolves_trans: "evolves S h h' \<Longrightarrow> evolves S h' h'' \<Longrightarrow> evolves S h h''"
  unfolding evolves_def same_ptrs_def by (auto, metis)

lemma evolves_mono: "evolves S h h' \<Longrightarrow> S \<subseteq> T \<Longrightarrow> evolves T h h'"
  unfolding evolves_def by blast

lemma evolves_cell:
  assumes "evolves S h h'" "h_cell h s = Some cp"
  obtains cp' where "h_cell h' s = Some cp'" "params cp' = params cp" "cache_inv cp \<Longrightarrow> cache_inv cp'"
  using assms unfolding evolves_def by blast

lemma accepts_params: "params cp' = params cp \<Longrightarrow> accepts cp' a n = accepts cp a n"
proof -
  assume p: "params cp' = params cp"
  show ?thesis using paramsD(2,8,13) [OF p] by (simp add: accepts_def)
qed

lemma serves_evolves:
  assumes "evolves S h h'" "ptr h' = ptr h" "serves_by ptr h a n"
  shows "serves_by ptr h' a n"
proof (cases "ptr h")
  case (Some s)
  with assms(3) obtain cp where cp: "h_cell h s = Some cp" "accepts cp a n" by (auto simp: serves_by_def)
  then obtain cp' where c: "h_cell h' s = Some cp'" "params cp' = params cp" using assms(1) by (blast elim: evolves_cell)
  have "accepts cp' a n" using accepts_params [OF c(2)] cp(2) by simp
  then show ?thesis using Some c(1) assms(2) by (simp add: serves_by_def)
qed (use assms in \<open>simp add: serves_by_def\<close>)

lemma below_evolves:
  assumes "evolves S h h'" "ptr h' = ptr h" "below ptr h"
  shows "below ptr h'"
proof (cases "ptr h")
  case (Some s)
  with assms(3) obtain cp where cp: "s \<in> {DL2, IL2}" "h_cell h s = Some cp" "cache_inv cp" by (auto simp: below_def)
  then obtain cp' where "h_cell h' s = Some cp'" "cache_inv cp'" using assms(1) by (blast elim: evolves_cell)
  then show ?thesis using Some cp(1) assms(2) by (auto simp: below_def)
qed (use assms in \<open>simp add: below_def\<close>)

lemma next_rand_evolves: "next_rand h = (r, h0) \<Longrightarrow> evolves S h h0 \<and> h_cell h0 = h_cell h"
  by (auto simp: next_rand_def evolves_def same_ptrs_def)

text \<open>Access to a cell over a level, the level being the rest of the hierarchy.\<close>

lemma access_cell_returns:
  assumes lev: "\<And>h0. mem_level (hnd s) (\<lambda>h'. evolves S h0 h' \<and> Q h') sv uk"
    and cp: "h_cell h s = Some cp" "over Q sv uk cp h" "accepts cp a n" "sv h (CACHE_BADDR cp a) (cp_bsize cp)"
    and rnd: "\<And>h'. evolves {} h h' \<Longrightarrow> h_cell h' = h_cell h \<Longrightarrow> (Q h \<longrightarrow> Q h') \<and> (\<forall>x k. sv h' x k = sv h x k)"
  shows "\<exists>lat cp' h1. access_cell hnd s cmd a n now h = Some (lat, h1\<lparr>h_cell := (h_cell h1)(s := Some cp')\<rparr>) \<and>
    evolves S h h1 \<and> params cp' = params cp \<and> over Q sv uk cp' h1"
proof -
  obtain r h0 where nr: "next_rand h = (r, h0)" by force
  have ev: "evolves {} h h0" "h_cell h0 = h_cell h" using next_rand_evolves [OF nr] by auto
  have q: "Q h0" "\<And>x k. sv h0 x k = sv h x k" using rnd [OF ev] overD(2) [OF cp(2)] by auto
  have ov: "over (\<lambda>h'. evolves S h0 h' \<and> Q h') sv uk cp h0" using cp(2) q by (simp add: over_def)
  obtain acc cp' h1 where r: "cache_access (hnd s) cp cmd a [] n now r h0 = Some (acc, cp', h1)"
    "over (\<lambda>h'. evolves S h0 h' \<and> Q h') sv uk cp' h1" "params cp' = params cp"
    using mem_level.access_returns [OF lev ov cp(3)] cp(4) q(2) by blast
  have "evolves S h h1"
    using evolves_trans [OF evolves_mono [OF ev(1)]] overD(2) [OF r(2)] by blast
  moreover have "over Q sv uk cp' h1" using r(2) by (simp add: over_def)
  moreover have "access_cell hnd s cmd a n now h = Some (acc_lat acc, h1\<lparr>h_cell := (h_cell h1)(s := Some cp')\<rparr>)"
    using cp(1) nr r(1) by (simp add: access_cell_def)
  ultimately show ?thesis using r(3) by blast
qed

lemma evolves_put:
  assumes "evolves S h h1" "s \<in> S" "h_cell h s = Some cp" "params cp' = params cp" "cache_inv cp'"
  shows "evolves S h (h1\<lparr>h_cell := (h_cell h1)(s := Some cp')\<rparr>)"
  using assms unfolding evolves_def same_ptrs_def by auto

text \<open>A second-level cache below a first-level one.\<close>

lemma second_level:
  assumes "p \<in> {DL2, IL2}" "h_cell h p = Some cp" "cache_inv cp" "accepts cp a n"
  shows "\<exists>lat h1. access_cell leaf_handler p cmd a n now h = Some (lat, h1) \<and> evolves {DL2, IL2} h h1"
proof -
  have ov: "over (\<lambda>_. True) (\<lambda>_ _ _. True) (\<lambda>_. True) cp h" using assms(3) by (simp add: over_def)
  have lev: "mem_level (leaf_handler p) (\<lambda>h'. evolves {} h0 h' \<and> True) (\<lambda>_ _ _. True) (\<lambda>_. True)" for h0
    by (rule leaf_level)
  obtain lat cp' h1 where r: "access_cell leaf_handler p cmd a n now h = Some (lat, h1\<lparr>h_cell := (h_cell h1)(p := Some cp')\<rparr>)"
    "evolves {} h h1" "params cp' = params cp" "over (\<lambda>_. True) (\<lambda>_ _ _. True) (\<lambda>_. True) cp' h1"
    using access_cell_returns [where hnd = leaf_handler and S = "{}" and s = p, OF lev assms(2) ov assms(4), of cmd now] by auto
  have "evolves {DL2, IL2} h (h1\<lparr>h_cell := (h_cell h1)(p := Some cp')\<rparr>)"
    using evolves_put [OF evolves_mono [OF r(2)] assms(1,2) r(3)] overD(1) [OF r(4)] by simp
  then show ?thesis using r(1) by blast
qed

lemma first_level:
  assumes fn: "fn = (\<lambda>cmd baddr bsize blk now h. case ptr h of
      Some s \<Rightarrow> do { (lat, h1) \<leftarrow> access_cell leaf_handler s cmd baddr bsize now h;
        Some (lat, blk_data blk, blk_user blk, h1) }
    | None \<Rightarrow> Some (1, blk_data blk, blk_user blk, h))"
    and ptr: "\<And>S h h'. evolves S h h' \<Longrightarrow> ptr h' = ptr h"
  shows "mem_level fn (\<lambda>h'. evolves {DL2, IL2} h0 h' \<and> below ptr h') (serves_by ptr) (\<lambda>_. True)"
proof unfold_locales
  fix h a n b cmd now
  assume inv: "evolves {DL2, IL2} h0 h \<and> below ptr h" and sv: "serves_by ptr h a n"
  show "\<exists>l d u h'. fn cmd a n b now h = Some (l, d, u, h') \<and> (evolves {DL2, IL2} h0 h' \<and> below ptr h') \<and> True \<and>
      (\<forall>x k. serves_by ptr h x k \<longrightarrow> serves_by ptr h' x k)"
  proof (cases "ptr h")
    case None
    then show ?thesis using inv by (auto simp: fn)
  next
    case (Some p)
    then obtain cp where cp: "p \<in> {DL2, IL2}" "h_cell h p = Some cp" "cache_inv cp" "accepts cp a n"
      using inv sv by (auto simp: below_def serves_by_def)
    obtain lat h1 where r: "access_cell leaf_handler p cmd a n now h = Some (lat, h1)" "evolves {DL2, IL2} h h1"
      using second_level [OF cp] by blast
    have "evolves {DL2, IL2} h0 h1" using inv r(2) by (blast intro: evolves_trans)
    moreover have "below ptr h1" using below_evolves [OF r(2) ptr [OF r(2)]] inv by blast
    moreover have "\<forall>x k. serves_by ptr h x k \<longrightarrow> serves_by ptr h1 x k"
      using serves_evolves [OF r(2) ptr [OF r(2)]] by blast
    ultimately show ?thesis using Some r(1) by (auto simp: fn)
  qed
qed

lemma evolves_ptrs: "evolves S h h' \<Longrightarrow> cache_dl2 h' = cache_dl2 h" "evolves S h h' \<Longrightarrow> cache_il2 h' = cache_il2 h"
  by (simp_all add: evolves_def same_ptrs_def)

lemma dl1_level: "mem_level dl1_access_fn (\<lambda>h'. evolves {DL2, IL2} h0 h' \<and> below cache_dl2 h') (serves_by cache_dl2) (\<lambda>_. True)"
  by (rule first_level) (auto simp: fun_eq_iff dl1_access_fn_def evolves_ptrs)

lemma il1_level: "mem_level il1_access_fn (\<lambda>h'. evolves {DL2, IL2} h0 h' \<and> below cache_il2 h') (serves_by cache_il2) (\<lambda>_. True)"
  by (rule first_level) (auto simp: fun_eq_iff il1_access_fn_def evolves_ptrs)

section \<open>The invariant of the hierarchy\<close>

definition cell_inv :: "hier_t \<Rightarrow> slot \<Rightarrow> gcache_t \<Rightarrow> bool" where
  "cell_inv h s cp \<longleftrightarrow>
     (case s of
        DL1 \<Rightarrow> over (below cache_dl2) (serves_by cache_dl2) (\<lambda>_. True) cp h
      | IL1 \<Rightarrow> over (below cache_il2) (serves_by cache_il2) (\<lambda>_. True) cp h
      | ITLB \<Rightarrow> over (\<lambda>_. True) (\<lambda>_ _ _. True) (\<lambda>u. u \<noteq> None) cp h
      | DTLB \<Rightarrow> over (\<lambda>_. True) (\<lambda>_ _ _. True) (\<lambda>u. u \<noteq> None) cp h
      | _ \<Rightarrow> cache_inv cp)"

definition ptrs :: "hier_t \<Rightarrow> slot set" where
  "ptrs h = {s. Some s \<in> {cache_il1 h, cache_il2 h, cache_dl1 h, cache_dl2 h, itlb h, dtlb h}}"

definition hier_inv :: "hier_t \<Rightarrow> bool" where
  "hier_inv h \<longleftrightarrow> cache_dl2 h \<in> {None, Some DL2} \<and> cache_il2 h \<in> {None, Some IL2, Some DL2} \<and>
     (\<forall>s \<in> ptrs h. \<exists>cp. h_cell h s = Some cp \<and> cell_inv h s cp)"

text \<open>The accesses a cache of the hierarchy and the level under it let through.\<close>

definition lets_through :: "hier_t \<Rightarrow> slot \<Rightarrow> md_addr_t \<Rightarrow> word_t \<Rightarrow> bool" where
  "lets_through h s a n \<longleftrightarrow>
     (\<exists>cp. h_cell h s = Some cp \<and> accepts cp a n \<and>
        (s = DL1 \<longrightarrow> serves_by cache_dl2 h (CACHE_BADDR cp a) (cp_bsize cp)) \<and>
        (s = IL1 \<longrightarrow> serves_by cache_il2 h (CACHE_BADDR cp a) (cp_bsize cp)))"

lemma over_evolves:
  assumes "over (below ptr) (serves_by ptr) uk cp h" "evolves S h h'" "ptr h' = ptr h"
  shows "over (below ptr) (serves_by ptr) uk cp h'"
  using assms(1) below_evolves [OF assms(2,3)] serves_evolves [OF assms(2,3)] unfolding over_def by blast

lemma cell_inv_evolves: "cell_inv h s cp \<Longrightarrow> evolves S h h' \<Longrightarrow> cell_inv h' s cp"
  using over_evolves evolves_ptrs by (auto simp: cell_inv_def over_def [of "\<lambda>_. True"] split: slot.splits)

lemma cell_inv_cache: "cell_inv h s cp \<Longrightarrow> cache_inv cp"
  by (auto simp: cell_inv_def over_def split: slot.splits)

lemma evolves_same_cells:
  assumes "evolves {} h h'" "h_cell h' = h_cell h" "ptr h' = ptr h"
  shows "(below ptr h \<longrightarrow> below ptr h') \<and> (\<forall>x k. serves_by ptr h' x k = serves_by ptr h x k)"
  using assms by (cases "ptr h") (simp_all add: below_def serves_by_def)

lemma cell_access:
  assumes cp: "h_cell h s = Some cp" "cell_inv h s cp" and lt: "lets_through h s a n"
  shows "\<exists>S lat cp' h1. S \<subseteq> {DL2, IL2} \<and> s \<notin> S \<and> evolves S h h1 \<and> params cp' = params cp \<and> cell_inv h1 s cp' \<and>
    access_cell handler s cmd a n now h = Some (lat, h1\<lparr>h_cell := (h_cell h1)(s := Some cp')\<rparr>)"
proof -
  have acc: "accepts cp a n" using lt cp(1) by (auto simp: lets_through_def)
  note go = access_cell_returns [where hnd = handler and s = s and h = h and cp = cp and a = a and n = n and cmd = cmd and now = now,
      OF _ cp(1) _ acc]
  show ?thesis
  proof (cases s)
    case DL1
    have lev: "mem_level (handler s) (\<lambda>h'. evolves {DL2, IL2} h0 h' \<and> below cache_dl2 h') (serves_by cache_dl2) (\<lambda>_. True)" for h0
      unfolding handler_def DL1 slot.case by (rule dl1_level)
    have "over (below cache_dl2) (serves_by cache_dl2) (\<lambda>_. True) cp h" "serves_by cache_dl2 h (CACHE_BADDR cp a) (cp_bsize cp)"
      using cp lt DL1 by (auto simp: cell_inv_def lets_through_def)
    from go [OF lev this evolves_same_cells] DL1 show ?thesis
      by (auto simp: cell_inv_def evolves_ptrs)
  next
    case IL1
    have lev: "mem_level (handler s) (\<lambda>h'. evolves {DL2, IL2} h0 h' \<and> below cache_il2 h') (serves_by cache_il2) (\<lambda>_. True)" for h0
      unfolding handler_def IL1 slot.case by (rule il1_level)
    have "over (below cache_il2) (serves_by cache_il2) (\<lambda>_. True) cp h" "serves_by cache_il2 h (CACHE_BADDR cp a) (cp_bsize cp)"
      using cp lt IL1 by (auto simp: cell_inv_def lets_through_def)
    from go [OF lev this evolves_same_cells] IL1 show ?thesis
      by (auto simp: cell_inv_def evolves_ptrs)
  next
    case DL2
    have lev: "mem_level (handler s) (\<lambda>h'. evolves {} h0 h' \<and> True) (\<lambda>_ _ _. True) (\<lambda>_. True)" for h0
      using leaf_level [of DL2] by (simp add: DL2 handler_def leaf_handler_def)
    have "over (\<lambda>_. True) (\<lambda>_ _ _. True) (\<lambda>_. True) cp h" using cp DL2 by (simp add: cell_inv_def over_def)
    from go [OF lev this] DL2 show ?thesis by (auto simp: cell_inv_def over_def)
  next
    case IL2
    have lev: "mem_level (handler s) (\<lambda>h'. evolves {} h0 h' \<and> True) (\<lambda>_ _ _. True) (\<lambda>_. True)" for h0
      using leaf_level [of IL2] by (simp add: IL2 handler_def leaf_handler_def)
    have "over (\<lambda>_. True) (\<lambda>_ _ _. True) (\<lambda>_. True) cp h" using cp IL2 by (simp add: cell_inv_def over_def)
    from go [OF lev this] IL2 show ?thesis by (auto simp: cell_inv_def over_def)
  next
    case ITLB
    have lev: "mem_level (handler s) (\<lambda>h'. evolves {} h0 h' \<and> True) (\<lambda>_ _ _. True) (\<lambda>u. u \<noteq> None)" for h0
      using tlb_level(1) by (simp add: ITLB handler_def)
    have "over (\<lambda>_. True) (\<lambda>_ _ _. True) (\<lambda>u. u \<noteq> None) cp h" using cp ITLB by (simp add: cell_inv_def)
    from go [OF lev this] ITLB show ?thesis by (auto simp: cell_inv_def)
  next
    case DTLB
    have lev: "mem_level (handler s) (\<lambda>h'. evolves {} h0 h' \<and> True) (\<lambda>_ _ _. True) (\<lambda>u. u \<noteq> None)" for h0
      using tlb_level(2) by (simp add: DTLB handler_def)
    have "over (\<lambda>_. True) (\<lambda>_ _ _. True) (\<lambda>u. u \<noteq> None) cp h" using cp DTLB by (simp add: cell_inv_def)
    from go [OF lev this] DTLB show ?thesis by (auto simp: cell_inv_def)
  qed
qed

lemma evolves_ptrs_set: "evolves S h h' \<Longrightarrow> ptrs h' = ptrs h"
  by (simp add: evolves_def same_ptrs_def ptrs_def)

lemma hier_access:
  assumes inv: "hier_inv h" and s: "s \<in> ptrs h" and lt: "lets_through h s a n"
  shows "\<exists>lat h1. access_cell handler s cmd a n now h = Some (lat, h1) \<and> hier_inv h1 \<and> evolves UNIV h h1"
proof -
  obtain cp where cp: "h_cell h s = Some cp" "cell_inv h s cp" using inv s unfolding hier_inv_def by blast
  obtain S lat cp' h1 where r: "S \<subseteq> {DL2, IL2}" "s \<notin> S" "evolves S h h1" "params cp' = params cp" "cell_inv h1 s cp'"
    "access_cell handler s cmd a n now h = Some (lat, h1\<lparr>h_cell := (h_cell h1)(s := Some cp')\<rparr>)"
    using cell_access [OF cp lt, of cmd now] by (elim exE conjE) (rule that; assumption)
  let ?h = "h1\<lparr>h_cell := (h_cell h1)(s := Some cp')\<rparr>"
  have same: "h_cell h1 s = Some cp" using r(2,3) cp(1) by (simp add: evolves_def)
  have e1: "evolves UNIV h1 ?h"
    by (rule evolves_put [OF evolves_refl _ same r(4) cell_inv_cache [OF r(5)]]) simp
  have e: "evolves UNIV h ?h" using evolves_trans [OF evolves_mono [OF r(3)] e1] by simp
  have "\<exists>c. h_cell ?h t = Some c \<and> cell_inv ?h t c" if t: "t \<in> ptrs h" for t
  proof (cases "t = s")
    case True
    then show ?thesis using cell_inv_evolves [OF r(5) e1] by simp
  next
    case False
    obtain c where c: "h_cell h t = Some c" "cell_inv h t c" using inv t unfolding hier_inv_def by blast
    show ?thesis
    proof (cases "t \<in> {DL2, IL2}")
      case True
      obtain c' where "h_cell ?h t = Some c'" "cache_inv c'"
        using e c(1) cell_inv_cache [OF c(2)] by (blast elim: evolves_cell)
      then show ?thesis using True by (auto simp: cell_inv_def)
    next
      case out: False
      then have "h_cell h1 t = Some c" using r(1,3) c(1) by (auto simp: evolves_def)
      then show ?thesis using False cell_inv_evolves [OF c(2) e] by simp
    qed
  qed
  then have "hier_inv ?h" using inv evolves_ptrs_set [OF e] evolves_ptrs [OF e] by (simp add: hier_inv_def)
  then show ?thesis using r(6) e by blast
qed

lemma lets_through_evolves:
  assumes "lets_through h s a n" "evolves S h h'"
  shows "lets_through h' s a n"
proof -
  obtain cp where cp: "h_cell h s = Some cp" "accepts cp a n"
    "s = DL1 \<longrightarrow> serves_by cache_dl2 h (CACHE_BADDR cp a) (cp_bsize cp)"
    "s = IL1 \<longrightarrow> serves_by cache_il2 h (CACHE_BADDR cp a) (cp_bsize cp)" using assms(1) by (auto simp: lets_through_def)
  obtain cp' where c: "h_cell h' s = Some cp'" "params cp' = params cp" using assms(2) cp(1) by (rule evolves_cell)
  show ?thesis
    using cp accepts_params [OF c(2)] paramsD(2,13) [OF c(2)] c(1) serves_evolves [OF assms(2), of cache_dl2]
      serves_evolves [OF assms(2), of cache_il2] evolves_ptrs [OF assms(2)] by (auto simp: lets_through_def)
qed

lemma hier_access_ptr:
  assumes "hier_inv h" "\<And>s. p = Some s \<Longrightarrow> s \<in> ptrs h \<and> lets_through h s a n"
  shows "\<exists>h1. access_ptr p cmd a n h = Some h1 \<and> hier_inv h1 \<and> evolves UNIV h h1"
proof (cases p)
  case (Some s)
  then show ?thesis using hier_access [OF assms(1), of s a n cmd 0] assms(2) by (auto simp: access_ptr_def)
qed (use assms in \<open>simp add: access_ptr_def\<close>)

text \<open>What the program may access: the data TLB and the first data cache let it through.\<close>

definition data_ok :: "hier_t \<Rightarrow> md_addr_t \<Rightarrow> word_t \<Rightarrow> bool" where
  "data_ok h a n \<longleftrightarrow> (\<forall>s. Some s = dtlb h \<or> Some s = cache_dl1 h \<longrightarrow> lets_through h s a n)"

lemma hier_data:
  assumes "hier_inv h" "data_ok h a n"
  shows "\<exists>h1. access_ptr (dtlb h) cmd a n h = Some h1 \<and> hier_inv h1 \<and> evolves UNIV h h1 \<and>
    (\<exists>h2. access_ptr (cache_dl1 h1) cmd a n h1 = Some h2 \<and> hier_inv h2 \<and> evolves UNIV h h2)"
proof -
  obtain h1 where h1: "access_ptr (dtlb h) cmd a n h = Some h1" "hier_inv h1" "evolves UNIV h h1"
    using hier_access_ptr [OF assms(1), of "dtlb h" a n cmd] assms(2) by (force simp: ptrs_def data_ok_def)
  have "cache_dl1 h1 = cache_dl1 h" using h1(3) by (simp add: evolves_def same_ptrs_def)
  then obtain h2 where "access_ptr (cache_dl1 h1) cmd a n h1 = Some h2" "hier_inv h2" "evolves UNIV h1 h2"
    using hier_access_ptr [OF h1(2), of "cache_dl1 h1" a n cmd] assms(2) lets_through_evolves [OF _ h1(3)]
    by (force simp: ptrs_def data_ok_def)
  then show ?thesis using h1 evolves_trans by blast
qed

section \<open>The reference caches of the data side\<close>

text \<open>The reference of the cache a pointer names, and those of the data TLB and both data caches.\<close>

definition cell_ref :: "hier_t \<Rightarrow> slot option \<Rightarrow> ref_t option" where
  "cell_ref h p = (case p of None \<Rightarrow> None | Some s \<Rightarrow> map_option ref_of (h_cell h s))"

definition data_refs :: "hier_t \<Rightarrow> ref_t option \<times> ref_t option \<times> ref_t option" where
  "data_refs h = (cell_ref h (dtlb h), cell_ref h (cache_dl1 h), cell_ref h (cache_dl2 h))"

text \<open>
  One data access of the references: it goes to the TLB and to the first level, and the
  second level sees what the first one calls for, in that order.
\<close>

definition ref_step :: "call_t \<Rightarrow> ref_t option \<times> ref_t option \<times> ref_t option \<Rightarrow>
    ref_t option \<times> ref_t option \<times> ref_t option" where
  "ref_step c R =
     (let (t, l1, l2) = R
      in (map_option (ref_access c) t, map_option (ref_access c) l1,
          map_option (fold ref_access (case l1 of None \<Rightarrow> [] | Some r \<Rightarrow> ref_calls c r)) l2))"

text \<open>The data side uses caches of its own, none of them with random replacement.\<close>

definition data_side :: "hier_t \<Rightarrow> bool" where
  "data_side h \<longleftrightarrow> dtlb h \<in> {None, Some DTLB} \<and> cache_dl1 h \<in> {None, Some DL1} \<and>
     (\<forall>s cp. Some s \<in> {dtlb h, cache_dl1 h, cache_dl2 h} \<longrightarrow> h_cell h s = Some cp \<longrightarrow> cp_policy cp \<noteq> Random)"

lemma data_side_evolves:
  assumes "hier_inv h" "data_side h" "evolves S h h'"
  shows "data_side h'"
proof -
  have "dtlb h' = dtlb h" "cache_dl1 h' = cache_dl1 h" "cache_dl2 h' = cache_dl2 h"
    using assms(3) by (simp_all add: evolves_def same_ptrs_def)
  moreover have "cp_policy cp' \<noteq> Random" if "Some s \<in> {dtlb h, cache_dl1 h, cache_dl2 h}" "h_cell h' s = Some cp'" for s cp'
  proof -
    have "s \<in> ptrs h" using that(1) by (auto simp: ptrs_def)
    then obtain cp where cp: "h_cell h s = Some cp" using assms(1) unfolding hier_inv_def by blast
    then have "params cp' = params cp" using that(2) assms(3) by (auto elim: evolves_cell)
    then show ?thesis using paramsD(4) assms(2) that(1) cp unfolding data_side_def by metis
  qed
  ultimately show ?thesis using assms(2) unfolding data_side_def by simp
qed

lemma cell_of_ptr:
  assumes "hier_inv h" "data_side h" "Some s \<in> {dtlb h, cache_dl1 h, cache_dl2 h}"
  obtains cp where "h_cell h s = Some cp" "cache_inv cp" "cp_policy cp \<noteq> Random"
proof -
  have "s \<in> ptrs h" using assms(3) by (auto simp: ptrs_def)
  then obtain cp where "h_cell h s = Some cp" "cell_inv h s cp" using assms(1) unfolding hier_inv_def by blast
  then show ?thesis using that cell_inv_cache assms(2,3) unfolding data_side_def by blast
qed

text \<open>An access to a cell moves its reference, and the level below by the reference's calls.\<close>

lemma access_cell_ref:
  assumes "h_cell h s = Some cp" "cache_inv cp" "cp_policy cp \<noteq> Random"
    and "access_cell hnd s cmd a n now h = Some (lat, h')"
    and "tracks P (hnd s) obs step" "P (snd (next_rand h))"
  shows "\<exists>cp' h1. h' = h1\<lparr>h_cell := (h_cell h1)(s := Some cp')\<rparr> \<and> ref_of cp' = ref_access (cmd, a, n) (ref_of cp) \<and>
    cache_inv cp' \<and> cp_policy cp' = cp_policy cp \<and> P h1 \<and>
    obs h1 = fold step (ref_calls (cmd, a, n) (ref_of cp)) (obs (snd (next_rand h)))"
proof -
  obtain acc cp' h1 where run: "cache_access (hnd s) cp cmd a [] n now (fst (next_rand h)) (snd (next_rand h)) = Some (acc, cp', h1)"
    and h': "h' = h1\<lparr>h_cell := (h_cell h1)(s := Some cp')\<rparr>"
    using assms(1,4) by (auto simp: access_cell_def split: prod.splits Option.bind_splits)
  note R = cache_access_ref [OF assms(2,3) run]
  from R(1-3) R(4) [OF assms(5,6)] h' show ?thesis by blast
qed

lemma fold_ignore: "fold (\<lambda>c x. x) cs x = x"
  by (induction cs) simp_all

lemma idle_tracks:
  "tracks (\<lambda>_. True) dl2_access_fn (\<lambda>h. h) (\<lambda>c h. h)" "tracks (\<lambda>_. True) dtlb_access_fn (\<lambda>h. h) (\<lambda>c h. h)"
  "tracks (\<lambda>h. cache_dl2 h = None) dl1_access_fn (\<lambda>h. h) (\<lambda>c h. h)"
  by (auto simp: tracks_def dl2_access_fn_def dtlb_access_fn_def dl1_access_fn_def split: option.splits)

text \<open>The second level as the first one sees it.\<close>

definition dl2_ready :: "hier_t \<Rightarrow> bool" where
  "dl2_ready h \<longleftrightarrow> cache_dl2 h = Some DL2 \<and> (\<exists>cp. h_cell h DL2 = Some cp \<and> cache_inv cp \<and> cp_policy cp \<noteq> Random)"

definition dl2_obs :: "hier_t \<Rightarrow> (slot \<Rightarrow> gcache_t option) \<times> ref_t option" where
  "dl2_obs h = ((h_cell h)(DL2 := None), map_option ref_of (h_cell h DL2))"

definition dl2_step where
  "dl2_step c x = (fst x, map_option (ref_access c) (snd x))"

lemma fold_dl2_step: "fold dl2_step cs x = (fst x, map_option (fold ref_access cs) (snd x))"
  by (induction cs arbitrary: x) (simp_all add: dl2_step_def option.map_comp o_def option.map_ident id_def)

lemma dl1_tracks: "tracks dl2_ready dl1_access_fn dl2_obs dl2_step"
  unfolding tracks_def
proof (intro allI impI)
  fix cmd a n b now h l d u h'
  assume run: "dl1_access_fn cmd a n b now h = Some (l, d, u, h')" and rd: "dl2_ready h"
  obtain cp where cp: "h_cell h DL2 = Some cp" "cache_inv cp" "cp_policy cp \<noteq> Random" "cache_dl2 h = Some DL2"
    using rd by (auto simp: dl2_ready_def)
  then obtain lat where r: "access_cell leaf_handler DL2 cmd a n now h = Some (lat, h')"
    using run by (auto simp: dl1_access_fn_def split: Option.bind_splits)
  have tr: "tracks (\<lambda>_. True) (leaf_handler DL2) (\<lambda>h. h) (\<lambda>c h. h)"
    using idle_tracks(1) by (simp add: leaf_handler_def)
  from access_cell_ref [OF cp(1-3) r tr] obtain cp' where
    "h' = (snd (next_rand h))\<lparr>h_cell := (h_cell (snd (next_rand h)))(DL2 := Some cp')\<rparr>"
    "ref_of cp' = ref_access (cmd, a, n) (ref_of cp)" "cache_inv cp'" "cp_policy cp' = cp_policy cp"
    by (auto simp: fold_ignore)
  then show "dl2_ready h' \<and> dl2_obs h' = dl2_step (cmd, a, n) (dl2_obs h)"
    using cp by (simp add: dl2_ready_def dl2_obs_def dl2_step_def next_rand_def)
qed

text \<open>A data access moves the TLB's reference, then those of the two levels.\<close>

lemma dtlb_ref:
  assumes "hier_inv h" "data_side h" "access_ptr (dtlb h) cmd a n h = Some h1"
  shows "data_refs h1 = (map_option (ref_access (cmd, a, n)) (fst (data_refs h)), snd (data_refs h))"
proof (cases "dtlb h")
  case None
  then show ?thesis using assms(3) by (simp add: access_ptr_def data_refs_def cell_ref_def)
next
  case (Some s)
  then have s: "s = DTLB" using assms(2) by (simp add: data_side_def)
  obtain cp where cp: "h_cell h s = Some cp" "cache_inv cp" "cp_policy cp \<noteq> Random"
    using cell_of_ptr [OF assms(1,2)] Some by auto
  obtain lat where r: "access_cell handler s cmd a n 0 h = Some (lat, h1)"
    using assms(3) Some by (auto simp: access_ptr_def split: Option.bind_splits)
  have tr: "tracks (\<lambda>_. True) (handler s) (\<lambda>h. h) (\<lambda>c h. h)" using idle_tracks(2) by (simp add: s handler_def)
  from access_cell_ref [OF cp r tr] obtain cp' where
    "h1 = (snd (next_rand h))\<lparr>h_cell := (h_cell (snd (next_rand h)))(s := Some cp')\<rparr>"
    "ref_of cp' = ref_access (cmd, a, n) (ref_of cp)" by (auto simp: fold_ignore)
  then show ?thesis using cp(1) Some s assms(1,2)
    by (auto simp: data_refs_def cell_ref_def next_rand_def hier_inv_def data_side_def)
qed

lemma dl1_ref:
  assumes "hier_inv h" "data_side h" "access_ptr (cache_dl1 h) cmd a n h = Some h1" "data_refs h = (t, l1, l2)"
    and "same_ptrs h h1"
  shows "data_refs h1 = (t, map_option (ref_access (cmd, a, n)) l1,
    map_option (fold ref_access (case l1 of None \<Rightarrow> [] | Some r \<Rightarrow> ref_calls (cmd, a, n) r)) l2)"
proof (cases "cache_dl1 h")
  case None
  then show ?thesis using assms(3,4) by (cases l2) (auto simp: access_ptr_def data_refs_def cell_ref_def)
next
  case (Some s)
  then have s: "s = DL1" using assms(2) by (simp add: data_side_def)
  obtain cp where cp: "h_cell h s = Some cp" "cache_inv cp" "cp_policy cp \<noteq> Random"
    using cell_of_ptr [OF assms(1,2)] Some by auto
  obtain lat where r: "access_cell handler s cmd a n 0 h = Some (lat, h1)"
    using assms(3) Some by (auto simp: access_ptr_def split: Option.bind_splits)
  have l1: "l1 = Some (ref_of cp)" using assms(4) Some cp(1) by (auto simp: data_refs_def cell_ref_def)
  have tl: "dtlb h \<in> {None, Some DTLB}" using assms(2) by (simp add: data_side_def)
  have dl2: "cache_dl2 h \<in> {None, Some DL2}" using assms(1) by (simp add: hier_inv_def)
  show ?thesis
  proof (cases "cache_dl2 h")
    case none: None
    have tr: "tracks (\<lambda>h. cache_dl2 h = None) (handler s) (\<lambda>h. h) (\<lambda>c h. h)" using idle_tracks(3) by (simp add: s handler_def)
    have "cache_dl2 (snd (next_rand h)) = None" using none by (simp add: next_rand_def)
    from access_cell_ref [OF cp r tr this] obtain cp' where
      "h1 = (snd (next_rand h))\<lparr>h_cell := (h_cell (snd (next_rand h)))(s := Some cp')\<rparr>"
      "ref_of cp' = ref_access (cmd, a, n) (ref_of cp)" by (auto simp: fold_ignore)
    then show ?thesis using assms(4) Some s tl none l1 by (auto simp: data_refs_def cell_ref_def next_rand_def)
  next
    case two: (Some s2)
    then have s2: "cache_dl2 h = Some DL2" using dl2 by simp
    obtain cp2 where cp2: "h_cell h DL2 = Some cp2" "cache_inv cp2" "cp_policy cp2 \<noteq> Random"
      using cell_of_ptr [OF assms(1,2)] s2 by auto
    have tr: "tracks dl2_ready (handler s) dl2_obs dl2_step" using dl1_tracks by (simp add: s handler_def)
    have rd: "dl2_ready (snd (next_rand h))" using s2 cp2 by (simp add: dl2_ready_def next_rand_def)
    from access_cell_ref [OF cp r tr rd] obtain cp' h2 where h1: "h1 = h2\<lparr>h_cell := (h_cell h2)(s := Some cp')\<rparr>"
      "ref_of cp' = ref_access (cmd, a, n) (ref_of cp)"
      and o2: "dl2_obs h2 = fold dl2_step (ref_calls (cmd, a, n) (ref_of cp)) (dl2_obs (snd (next_rand h)))" by blast
    have o0: "dl2_obs (snd (next_rand h)) = dl2_obs h" by (simp add: dl2_obs_def next_rand_def)
    have cells: "(h_cell h2)(DL2 := None) = (h_cell h)(DL2 := None)"
      and c2: "map_option ref_of (h_cell h2 DL2) = Some (fold ref_access (ref_calls (cmd, a, n) (ref_of cp)) (ref_of cp2))"
      using o2 cp2(1) unfolding o0 by (simp_all add: fold_dl2_step dl2_obs_def)
    have "h_cell h2 DTLB = h_cell h DTLB" using fun_cong [OF cells, of DTLB] by simp
    then show ?thesis using assms(4,5) Some s tl s2 l1 c2 h1 cp2(1)
      by (auto simp: data_refs_def cell_ref_def same_ptrs_def)
  qed
qed

text \<open>One access of the program.\<close>

lemma data_ref:
  assumes "hier_inv h" "data_ok h a n" "data_side h"
  shows "\<exists>h1 h2. access_ptr (dtlb h) cmd a n h = Some h1 \<and> access_ptr (cache_dl1 h1) cmd a n h1 = Some h2 \<and>
    hier_inv h2 \<and> evolves UNIV h h2 \<and> data_side h2 \<and> data_refs h2 = ref_step (cmd, a, n) (data_refs h)"
proof -
  obtain h1 where h1: "access_ptr (dtlb h) cmd a n h = Some h1" "hier_inv h1" "evolves UNIV h h1"
    using hier_access_ptr [OF assms(1), of "dtlb h" a n cmd] assms(2) by (force simp: ptrs_def data_ok_def)
  have ds1: "data_side h1" using data_side_evolves [OF assms(1,3) h1(3)] .
  have same: "cache_dl1 h1 = cache_dl1 h" using h1(3) by (simp add: evolves_def same_ptrs_def)
  obtain h2 where h2: "access_ptr (cache_dl1 h1) cmd a n h1 = Some h2" "hier_inv h2" "evolves UNIV h1 h2"
    using hier_access_ptr [OF h1(2), of "cache_dl1 h1" a n cmd] same assms(2) lets_through_evolves [OF _ h1(3)]
    by (force simp: ptrs_def data_ok_def)
  have ds2: "data_side h2" using data_side_evolves [OF h1(2) ds1 h2(3)] .
  obtain t l1 l2 where d: "data_refs h = (t, l1, l2)" using prod_cases3 by blast
  have d1: "data_refs h1 = (map_option (ref_access (cmd, a, n)) t, l1, l2)"
    using dtlb_ref [OF assms(1,3) h1(1)] d by simp
  have "data_refs h2 = ref_step (cmd, a, n) (data_refs h)"
    using dl1_ref [OF h1(2) ds1 h2(1) d1] h2(3) by (simp add: evolves_def ref_step_def d)
  then show ?thesis using h1(1) h2 ds2 evolves_trans [OF h1(3) h2(3)] by blast
qed

text \<open>A new cache, as its reference starts.\<close>

definition fresh_ref :: "nat \<Rightarrow> nat \<Rightarrow> nat \<Rightarrow> cache_policy \<Rightarrow> ref_t" where
  "fresh_ref nsets bsize assoc pol = \<lparr>rc_nsets = nsets, rc_bsize = bsize, rc_policy = pol,
     rc_sets = (\<lambda>_. replicate assoc None), rc_hits = 0, rc_misses = 0, rc_replacements = 0, rc_writebacks = 0\<rparr>"

lemma cache_create_ref:
  assumes c: "cache_create name nsets bsize balloc usize assoc pol lat = Some cp" "cp_tag_shift cp < 32"
  shows "ref_of cp = fresh_ref (unat nsets) (unat bsize) (unat assoc) pol"
proof -
  note new = cache_create_inv [OF c]
  have cnt: "cp_hits cp = 0" "cp_misses cp = 0" "cp_replacements cp = 0" "cp_writebacks cp = 0"
    "cp_sets cp i = cp_sets cp (unat (CACHE_SET cp 0))" for i
    using c(1) by (auto simp: cache_create_def Let_def split: if_splits Option.bind_splits)
  note ok = cache_inv_set [OF new(1), of 0]
  have len: "length (way_order cp (cp_sets cp (unat (CACHE_SET cp 0)))) = unat assoc"
    using distinct_card [OF set_okD(5) [OF ok]] set_okD(2) [OF ok] by (simp add: all_ways_def new(6))
  have none: "entry_of (cp_sets cp j) = (\<lambda>_. None)" for j by (rule ext) (simp add: entry_of_def new(2))
  have "abs_set cp (cp_sets cp i) = replicate (unat assoc) None" for i
    unfolding cnt(5) [of i] abs_set_def none map_replicate_const len ..
  then show ?thesis by (simp add: ref_of_def fresh_ref_def new(4,5,7) cnt(1-4))
qed

section \<open>Configuration\<close>

lemma dec_digits_Cons: "dec_digits n = hd (dec_digits n) # tl (dec_digits n)" "isdigit (hd (dec_digits n))"
  using dec_digits_isdigit [of "hd (dec_digits n)" n] by simp_all

lemma scan_int_digits:
  assumes "\<not> isdigit (cur r)" "n < 2 ^ 31"
  shows "scan_int (dec_digits n @ r) = Some (of_nat n, r)"
proof -
  obtain c cs where c: "dec_digits n = c # cs" "isdigit c" using dec_digits_Cons by blast
  have "dropWhile isspace (dec_digits n @ r) = dec_digits n @ r"
    using c by (auto simp: isspace_def isdigit_def)
  moreover have "c \<noteq> 45" "c \<noteq> 43" using c(2) by (auto simp: isdigit_def)
  ultimately show ?thesis
    using takeWhile_digits [OF assms(1), of n] foldl_dec_digits [of n, where 'a = int] c(1) assms(2)
    by (simp add: scan_int_def Let_def)
qed

lemma config_cache_fresh:
  assumes "config_cache opt usize = Some cp" "cp_tag_shift cp < 32"
  shows "cache_inv cp" "\<And>i w. \<not> valid_blk (cp_sets cp i) w"
    "usize \<noteq> 0 \<Longrightarrow> blk_user (set_blks (cp_sets cp i) w) \<noteq> None"
proof -
  obtain name nsets bsize assoc pol where c: "cache_create name nsets bsize 0 usize assoc pol 1 = Some cp"
    using assms(1) by (auto simp: config_cache_def split: Option.bind_splits)
  show "cache_inv cp" "\<And>i w. \<not> valid_blk (cp_sets cp i) w"
    "usize \<noteq> 0 \<Longrightarrow> blk_user (set_blks (cp_sets cp i) w) \<noteq> None"
    using cache_create_inv [OF c assms(2)] by blast+
qed

text \<open>The tag shift is below the word size when the sets times the block size are below \<open>2 ^ 32\<close>.\<close>

lemma config_cache_shift:
  assumes "config_cache opt usize = Some cp" "unat (cp_nsets cp) * unat (cp_bsize cp) < 2 ^ 32"
  shows "cp_tag_shift cp < 32"
proof -
  obtain name nsets bsize assoc pol where c: "cache_create name nsets bsize 0 usize assoc pol 1 = Some cp"
    using assms(1) by (auto simp: config_cache_def split: Option.bind_splits)
  then have pos: "sint nsets > 0" "nsets AND (nsets - 1) = 0" "sint bsize > 0" "bsize AND (bsize - 1) = 0"
    by (auto simp: cache_create_def split: if_splits)
  obtain n where n: "n < 31" "nsets = 2 ^ n" "log_base2 nsets = Some (of_nat n)"
    using pos(2,1) by (rule log_base2_ok)
  obtain b where b: "b < 31" "bsize = 2 ^ b" "log_base2 bsize = Some (of_nat b)"
    using pos(4,3) by (rule log_base2_ok)
  have cp: "cp_nsets cp = nsets" "cp_bsize cp = bsize" "cp_tag_shift cp = of_nat (b + n)"
    using c by (auto simp: cache_create_def n(3) b(3) Let_def split: if_splits)
  have "(2 :: nat) ^ (n + b) < 2 ^ 32" using assms(2) n(1,2) b(1,2) unfolding cp power_add by simp
  then have "b + n < 32" using power_less_imp_less_exp [of "2 :: nat" "n + b" 32] by simp
  then show ?thesis unfolding cp by (simp add: word_less_nat_alt unat_of_nat del: of_nat_add)
qed

text \<open>The cells as the configuration leaves them: fresh caches, and TLBs with user data.\<close>

definition fresh_cells :: "hier_t \<Rightarrow> bool" where
  "fresh_cells h \<longleftrightarrow> (\<forall>s cp. h_cell h s = Some cp \<longrightarrow>
     (\<exists>opt. config_cache opt (if s \<in> {ITLB, DTLB} then 4 else 0) = Some cp))"

definition live :: "hier_t \<Rightarrow> slot option \<Rightarrow> bool" where
  "live h p \<longleftrightarrow> (\<forall>s. p = Some s \<longrightarrow> h_cell h s \<noteq> None)"

definition conf_ok :: "hier_t \<Rightarrow> bool" where
  "conf_ok h \<longleftrightarrow> fresh_cells h \<and> cache_dl2 h \<in> {None, Some DL2} \<and> cache_il2 h \<in> {None, Some IL2, Some DL2} \<and>
     live h (cache_il1 h) \<and> live h (cache_il2 h) \<and> live h (cache_dl1 h) \<and> live h (cache_dl2 h) \<and>
     live h (itlb h) \<and> live h (dtlb h)"

lemma put_cell_ptrs [simp]:
  "cache_il1 (put_cell h s cp) = cache_il1 h" "cache_il2 (put_cell h s cp) = cache_il2 h"
  "cache_dl1 (put_cell h s cp) = cache_dl1 h" "cache_dl2 (put_cell h s cp) = cache_dl2 h"
  "itlb (put_cell h s cp) = itlb h" "dtlb (put_cell h s cp) = dtlb h"
  by (simp_all add: put_cell_def)

lemma live_simps [simp]:
  "live h None" "live (put_cell h s cp) (Some s)" "live h p \<Longrightarrow> live (put_cell h s cp) p"
  "live (h\<lparr>cache_il1 := x\<rparr>) p = live h p" "live (h\<lparr>cache_il2 := x\<rparr>) p = live h p"
  "live (h\<lparr>cache_dl1 := x\<rparr>) p = live h p" "live (h\<lparr>cache_dl2 := x\<rparr>) p = live h p"
  "live (h\<lparr>itlb := x\<rparr>) p = live h p" "live (h\<lparr>dtlb := x\<rparr>) p = live h p"
  by (auto simp: live_def put_cell_def)

lemma fresh_simps [simp]:
  "fresh_cells (h\<lparr>cache_il1 := x\<rparr>) = fresh_cells h" "fresh_cells (h\<lparr>cache_il2 := x\<rparr>) = fresh_cells h"
  "fresh_cells (h\<lparr>cache_dl1 := x\<rparr>) = fresh_cells h" "fresh_cells (h\<lparr>cache_dl2 := x\<rparr>) = fresh_cells h"
  "fresh_cells (h\<lparr>itlb := x\<rparr>) = fresh_cells h" "fresh_cells (h\<lparr>dtlb := x\<rparr>) = fresh_cells h"
  by (simp_all add: fresh_cells_def)

lemma fresh_put [simp]:
  assumes "fresh_cells h" "config_cache opt (if s \<in> {ITLB, DTLB} then 4 else 0) = Some cp"
  shows "fresh_cells (put_cell h s cp)"
  using assms by (auto simp: fresh_cells_def put_cell_def)

lemma config_data_ok:
  assumes "conf_ok h" "config_data o1 h = Some h'"
  shows "conf_ok h'"
proof (cases "is_opt (dl1_opt o1) ''none''")
  case True
  then have "h' = h\<lparr>cache_dl1 := None, cache_dl2 := None\<rparr>"
    using assms(2) by (simp add: config_data_def split: if_splits)
  then show ?thesis using assms(1) by (simp add: conf_ok_def)
next
  case False
  then obtain cp1 where cp1: "config_cache (dl1_opt o1) 0 = Some cp1"
    using assms(2) by (auto simp: config_data_def split: Option.bind_splits)
  show ?thesis
  proof (cases "is_opt (dl2_opt o1) ''none''")
    case True
    then have "h' = (put_cell h DL1 cp1)\<lparr>cache_dl1 := Some DL1, cache_dl2 := None\<rparr>"
      using assms(2) False cp1 by (simp add: config_data_def)
    then show ?thesis using assms(1) cp1 by (simp add: conf_ok_def)
  next
    case two: False
    then obtain cp2 where "config_cache (dl2_opt o1) 0 = Some cp2"
      "h' = (put_cell ((put_cell h DL1 cp1)\<lparr>cache_dl1 := Some DL1\<rparr>) DL2 cp2)\<lparr>cache_dl2 := Some DL2\<rparr>"
      using assms(2) False cp1 by (auto simp: config_data_def split: Option.bind_splits)
    then show ?thesis using assms(1) cp1 by (simp add: conf_ok_def)
  qed
qed

lemma config_inst_ok:
  assumes ok: "conf_ok h" and run: "config_inst o1 h = Some h'"
  shows "conf_ok h'"
proof -
  consider "h' = h\<lparr>cache_il1 := None, cache_il2 := None\<rparr>"
    | "h' = h\<lparr>cache_il1 := cache_dl1 h, cache_il2 := None\<rparr>"
    | "h' = h\<lparr>cache_il1 := cache_dl2 h, cache_il2 := None\<rparr>"
    | cp1 where "config_cache (il1_opt o1) 0 = Some cp1" "h' = (put_cell h IL1 cp1)\<lparr>cache_il1 := Some IL1, cache_il2 := None\<rparr>"
    | cp1 where "config_cache (il1_opt o1) 0 = Some cp1"
        "h' = (put_cell h IL1 cp1)\<lparr>cache_il1 := Some IL1, cache_il2 := cache_dl2 h\<rparr>"
    | cp1 cp2 where "config_cache (il1_opt o1) 0 = Some cp1" "config_cache (il2_opt o1) 0 = Some cp2"
        "h' = (put_cell ((put_cell h IL1 cp1)\<lparr>cache_il1 := Some IL1\<rparr>) IL2 cp2)\<lparr>cache_il2 := Some IL2\<rparr>"
    using run by (simp add: config_inst_def Let_def split: if_split_asm Option.bind_split_asm)
  then show ?thesis using ok by cases (auto simp: conf_ok_def)
qed

lemma config_tlb_ok:
  assumes ok: "conf_ok h" and run: "config_tlb opt s h = Some (p, h')" and s: "s \<in> {ITLB, DTLB}"
  shows "conf_ok h'" "live h' p"
proof -
  consider "p = None" "h' = h" | cp where "config_cache opt 4 = Some cp" "p = Some s" "h' = put_cell h s cp"
    using run by (auto simp: config_tlb_def split: if_splits Option.bind_splits)
  then show "conf_ok h'" "live h' p" using ok s by (cases; auto simp: conf_ok_def)+
qed

lemma conf_hier_inv:
  assumes ok: "conf_ok h" and sh: "\<And>s cp. h_cell h s = Some cp \<Longrightarrow> cp_tag_shift cp < 32"
  shows "hier_inv h"
proof -
  have fresh: "fresh_cells h" and p: "cache_dl2 h \<in> {None, Some DL2}" "cache_il2 h \<in> {None, Some IL2, Some DL2}"
    and cells: "\<And>s. s \<in> ptrs h \<Longrightarrow> h_cell h s \<noteq> None"
    using ok by (auto simp: conf_ok_def ptrs_def live_def)
  have c: "cache_inv cp \<and> (\<forall>i w. \<not> valid_blk (cp_sets cp i) w) \<and>
      (s \<in> {ITLB, DTLB} \<longrightarrow> (\<forall>i w. blk_user (set_blks (cp_sets cp i) w) \<noteq> None))"
    if cell: "h_cell h s = Some cp" for s cp
  proof -
    have "\<exists>opt. config_cache opt (if s \<in> {ITLB, DTLB} then 4 else 0) = Some cp"
      using fresh cell unfolding fresh_cells_def by blast
    then obtain opt where o: "config_cache opt (if s \<in> {ITLB, DTLB} then 4 else 0) = Some cp" ..
    show ?thesis using config_cache_fresh [OF o sh [OF cell]] by auto
  qed
  have below: "below ptr h" if q: "ptr h \<in> {None, Some IL2, Some DL2}" "\<And>s. ptr h = Some s \<Longrightarrow> s \<in> ptrs h" for ptr
  proof (cases "ptr h")
    case (Some s)
    then obtain cp where "h_cell h s = Some cp" using q(2) cells by blast
    then show ?thesis using Some q(1) c by (auto simp: below_def)
  qed (simp add: below_def)
  have "below cache_dl2 h" "below cache_il2 h" using p by (auto intro!: below simp: ptrs_def)
  then have "cell_inv h s cp" if "h_cell h s = Some cp" for s cp
    using c [OF that] by (auto simp: cell_inv_def over_def split: slot.split)
  then show ?thesis using p cells unfolding hier_inv_def by blast
qed

lemma sim_check_options_hier:
  assumes "sim_check_options o1 rand = Some h"
    and "\<forall>s cp. h_cell h s = Some cp \<longrightarrow> unat (cp_nsets cp) * unat (cp_bsize cp) < 2 ^ 32"
  shows "hier_inv h"
proof -
  obtain h1 h2 pi h3 pd h5 where st: "config_data o1 (no_caches rand) = Some h1" "config_inst o1 h1 = Some h2"
    "config_tlb (itlb_opt o1) ITLB h2 = Some (pi, h3)" "config_tlb (dtlb_opt o1) DTLB (h3\<lparr>itlb := pi\<rparr>) = Some (pd, h5)"
    "h = h5\<lparr>dtlb := pd\<rparr>"
    using assms(1) by (auto simp: sim_check_options_def Let_def split: Option.bind_splits)
  have "conf_ok (no_caches rand)" by (simp add: conf_ok_def no_caches_def fresh_cells_def)
  then have "conf_ok h2" using config_data_ok [OF _ st(1)] config_inst_ok [OF _ st(2)] by blast
  then have "conf_ok h3" "live h3 pi" using config_tlb_ok [OF _ st(3)] by auto
  then have "conf_ok (h3\<lparr>itlb := pi\<rparr>)" by (simp add: conf_ok_def)
  then have "conf_ok h5" "live h5 pd" using config_tlb_ok [OF _ st(4)] by auto
  then have ok: "conf_ok h" by (simp add: conf_ok_def st(5))
  have "cp_tag_shift cp < 32" if "h_cell h s = Some cp" for s cp
    using ok that assms(2) config_cache_shift unfolding conf_ok_def fresh_cells_def by blast
  with ok show ?thesis by (rule conf_hier_inv)
qed

section \<open>Properties\<close>

text \<open>
  C23: a configuration \<open>sim_check_options()\<close> accepts, in which the sets times the block size
  of every cache are below \<open>2 ^ 32\<close>, gives a well-formed hierarchy: every cache variable is
  null or names a cache that satisfies the cache invariant over the level its variable
  names.  The bound is one that \<open>cache_create()\<close> does not check: a larger cache is accepted,
  and its tag shift reaches the word size.
\<close>

theorem sim_check_options_inv:
  assumes "sim_check_options o1 rand = Some h"
    and "\<forall>s cp. h_cell h s = Some cp \<longrightarrow> unat (cp_nsets cp) * unat (cp_bsize cp) < 2 ^ 32"
  shows "hier_inv h"
  using assms by (rule sim_check_options_hier)

text \<open>
  C38: a cache configuration printed as name, sets, block size, associativity and policy
  between colons is read back, when the name fits its buffer and the numbers fit an \<open>int\<close>.
\<close>

theorem scan_config_roundtrip:
  assumes "name \<noteq> []" "length name < 128" "58 \<notin> set name" "nsets < 2 ^ 31" "bsize < 2 ^ 31" "assoc < 2 ^ 31"
  shows "scan_config (name @ 58 # dec_digits nsets @ 58 # dec_digits bsize @ 58 # dec_digits assoc @ [58, c]) =
    Some (name, of_nat nsets, of_nat bsize, of_nat assoc, c)"
proof -
  have nc: "\<not> isdigit (cur (58 # r))" for r by (simp add: isdigit_def)
  have col: "scan_colon (58 # r) = Some r" for r by (simp add: scan_colon_def)
  have "takeWhile (\<lambda>c. c \<noteq> 58) (name @ 58 # r) = name" "dropWhile (\<lambda>c. c \<noteq> 58) (name @ 58 # r) = 58 # r" for r
    using assms(3) by (induction name) auto
  then show ?thesis using assms(1,2,4-6)
    unfolding scan_config_def Let_def by (simp add: col scan_int_digits nc del: cur_simps)
qed

text \<open>A program's word loads and stores, through the caches and on the memory alone.\<close>

fun run_cached :: "mem_op list \<Rightarrow> hier_t \<Rightarrow> mem_t \<Rightarrow> (word_t list \<times> hier_t \<times> mem_t) option" where
  "run_cached [] h m = Some ([], h, m)"
| "run_cached (Load a # ops) h m = do {
     (v, h1, m1) \<leftarrow> READ_WORD a h m;
     (vs, h2, m2) \<leftarrow> run_cached ops h1 m1;
     Some (v # vs, h2, m2) }"
| "run_cached (Store a v # ops) h m = do {
     (h1, m1) \<leftarrow> WRITE_WORD v a h m;
     run_cached ops h1 m1 }"

lemma data_ok_evolves: "data_ok h a n \<Longrightarrow> evolves S h h' \<Longrightarrow> data_ok h' a n"
  using lets_through_evolves [of h _ a n S h'] by (auto simp: data_ok_def evolves_def same_ptrs_def)

fun op_call :: "mem_op \<Rightarrow> call_t" where
  "op_call (Load a) = (Read, a, 4)"
| "op_call (Store a v) = (Write, a, 4)"

text \<open>
  C5: a sequence of word loads and stores through the data TLB and the data caches drives
  them as three reference caches are driven: every access goes to the TLB and to the first
  level, and the second level sees the first level's write-backs and block reads in order.
  Afterwards every set, its replacement order and dirty bits, and the hit, miss, replacement
  and writeback counters of all three are the references'; the hierarchy is well formed, and
  the values read and the memory are those of the memory alone.  It is stated for LRU and
  FIFO caches and for accesses that are aligned, inside a block and not to the block at
  address 0 of any of the three caches (\<open>data_ok\<close>): others end in \<open>fatal()\<close> or may follow
  the null block of the fast path.
\<close>

theorem data_caches_refine:
  assumes "hier_inv h" "data_side h" "\<forall>op \<in> set ops. data_ok h (op_addr op) 4"
    and "run_ops MEM_READ_WORD MEM_WRITE_WORD m ops = Some (vs, m')"
  shows "\<exists>h'. run_cached ops h m = Some (vs, h', m') \<and> hier_inv h' \<and>
    data_refs h' = fold ref_step (map op_call ops) (data_refs h)"
  using assms
proof (induction ops arbitrary: h m vs)
  case Nil
  then show ?case by simp
next
  case (Cons op ops)
  obtain cmd where cmd: "cmd = (case op of Load _ \<Rightarrow> Read | Store _ _ \<Rightarrow> Write)" by blast
  have ok: "data_ok h (op_addr op) 4" using Cons.prems(3) by simp
  obtain h1 h2 where acc: "access_ptr (dtlb h) cmd (op_addr op) 4 h = Some h1" "access_ptr (cache_dl1 h1) cmd (op_addr op) 4 h1 = Some h2"
    "hier_inv h2" "evolves UNIV h h2" "data_side h2" "data_refs h2 = ref_step (cmd, op_addr op, 4) (data_refs h)"
    using data_ref [OF Cons.prems(1) ok Cons.prems(2)] by blast
  have ok2: "\<forall>op \<in> set ops. data_ok h2 (op_addr op) 4" using Cons.prems(3) data_ok_evolves [OF _ acc(4)] by auto
  show ?case
  proof (cases op)
    case (Load a)
    then obtain v m1 vs1 where r: "MEM_READ_WORD m a = Some (v, m1)" "run_ops MEM_READ_WORD MEM_WRITE_WORD m1 ops = Some (vs1, m')" "vs = v # vs1"
      using Cons.prems(4) by (auto split: Option.bind_splits)
    show ?thesis using Cons.IH [OF acc(3,5) ok2 r(2)] Load acc r cmd by (auto simp: READ_WORD_def READ_CACHE_def)
  next
    case (Store a v)
    then obtain m1 where r: "MEM_WRITE_WORD m a v = Some m1" "run_ops MEM_READ_WORD MEM_WRITE_WORD m1 ops = Some (vs, m')"
      using Cons.prems(4) by (auto split: Option.bind_splits)
    show ?thesis using Cons.IH [OF acc(3,5) ok2 r(2)] Store acc r cmd by (auto simp: WRITE_WORD_def WRITE_CACHE_def)
  qed
qed

section \<open>Witnesses\<close>

text \<open>A unified first level over a data cache of the second level, and a data TLB.\<close>

definition demo_opts :: cache_opts where
  "demo_opts = \<lparr>dl1_opt = cstr_of ''d:4:16:1:l'', dl2_opt = cstr_of ''e:8:32:2:l'', il1_opt = cstr_of ''dl1'',
     il2_opt = cstr_of ''none'', itlb_opt = cstr_of ''None'', dtlb_opt = cstr_of ''t:2:64:1:f''\<rparr>"

lemma demo_scans:
  "scan_config (cstr_of ''d:4:16:1:l'') = Some ([100], 4, 16, 1, 108)"
  "scan_config (cstr_of ''e:8:32:2:l'') = Some ([101], 8, 32, 2, 108)"
  "scan_config (cstr_of ''t:2:64:1:f'') = Some ([116], 2, 64, 1, 102)"
  by code_simp+

lemma demo_is_opt:
  "is_opt (cstr_of ''d:4:16:1:l'') ''none'' = False" "is_opt (cstr_of ''e:8:32:2:l'') ''none'' = False"
  "is_opt (cstr_of ''t:2:64:1:f'') ''none'' = False" "is_opt (cstr_of ''dl1'') ''none'' = False"
  "is_opt (cstr_of ''dl1'') ''dl1'' = True" "is_opt (cstr_of ''None'') ''none'' = True"
  by code_simp+

lemma demo_create:
  assumes "scan_config opt = Some (name, nsets, bsize, assoc, c)" "cache_char2policy (char_of c) = Some pol"
    and "\<exists>cp. cache_create (map char_of name) nsets bsize 0 usize assoc pol 1 = Some cp \<and> cp_tag_shift cp < 32 \<and>
      cp_blk_mask cp = bsize - 1"
  shows "\<exists>cp. config_cache opt usize = Some cp \<and> cp_tag_shift cp < 32 \<and> cp_blk_mask cp = bsize - 1 \<and> cp_bsize cp = bsize \<and>
    cp_nsets cp = nsets \<and> cp_policy cp = pol \<and> ref_of cp = fresh_ref (unat nsets) (unat bsize) (unat assoc) pol"
proof -
  obtain cp where cp: "cache_create (map char_of name) nsets bsize 0 usize assoc pol 1 = Some cp" "cp_tag_shift cp < 32"
    "cp_blk_mask cp = bsize - 1" using assms(3) by blast
  note new = cache_create_inv [OF cp(1,2)] and R = cache_create_ref [OF cp(1,2)]
  show ?thesis using cp assms(1,2) new(4,5,7) R by (auto simp: config_cache_def)
qed

lemma demo_caches:
  "\<exists>cp. config_cache (cstr_of ''d:4:16:1:l'') 0 = Some cp \<and> cp_tag_shift cp < 32 \<and> cp_blk_mask cp = 15 \<and> cp_bsize cp = 16 \<and>
     cp_nsets cp = 4 \<and> cp_policy cp = LRU \<and> ref_of cp = fresh_ref 4 16 1 LRU"
  "\<exists>cp. config_cache (cstr_of ''e:8:32:2:l'') 0 = Some cp \<and> cp_tag_shift cp < 32 \<and> cp_blk_mask cp = 31 \<and> cp_bsize cp = 32 \<and>
     cp_nsets cp = 8 \<and> cp_policy cp = LRU \<and> ref_of cp = fresh_ref 8 32 2 LRU"
  "\<exists>cp. config_cache (cstr_of ''t:2:64:1:f'') 4 = Some cp \<and> cp_tag_shift cp < 32 \<and> cp_blk_mask cp = 63 \<and> cp_bsize cp = 64 \<and>
     cp_nsets cp = 2 \<and> cp_policy cp = FIFO \<and> ref_of cp = fresh_ref 2 64 1 FIFO"
proof -
  have pol: "cache_char2policy (char_of (108 :: nat)) = Some LRU" "cache_char2policy (char_of (102 :: nat)) = Some FIFO"
    by code_simp+
  note create = cache_create_def log_base2_def log2_loop.simps Let_def
  show "\<exists>cp. config_cache (cstr_of ''d:4:16:1:l'') 0 = Some cp \<and> cp_tag_shift cp < 32 \<and> cp_blk_mask cp = 15 \<and> cp_bsize cp = 16 \<and>
     cp_nsets cp = 4 \<and> cp_policy cp = LRU \<and> ref_of cp = fresh_ref 4 16 1 LRU"
    using demo_create [OF demo_scans(1) pol(1), of 0] by (simp add: create)
  show "\<exists>cp. config_cache (cstr_of ''e:8:32:2:l'') 0 = Some cp \<and> cp_tag_shift cp < 32 \<and> cp_blk_mask cp = 31 \<and> cp_bsize cp = 32 \<and>
     cp_nsets cp = 8 \<and> cp_policy cp = LRU \<and> ref_of cp = fresh_ref 8 32 2 LRU"
    using demo_create [OF demo_scans(2) pol(1), of 0] by (simp add: create)
  show "\<exists>cp. config_cache (cstr_of ''t:2:64:1:f'') 4 = Some cp \<and> cp_tag_shift cp < 32 \<and> cp_blk_mask cp = 63 \<and> cp_bsize cp = 64 \<and>
     cp_nsets cp = 2 \<and> cp_policy cp = FIFO \<and> ref_of cp = fresh_ref 2 64 1 FIFO"
    using demo_create [OF demo_scans(3) pol(2), of 4] by (simp add: create)
qed

lemma demo_hier:
  obtains h where "sim_check_options demo_opts (\<lambda>_. 0) = Some h" "hier_inv h"
    "\<forall>s cp. h_cell h s = Some cp \<longrightarrow> unat (cp_nsets cp) * unat (cp_bsize cp) < 2 ^ 32"
    "data_ok h 0x104 4" "data_ok h 0x144 4" "data_side h"
    "data_refs h = (Some (fresh_ref 2 64 1 FIFO), Some (fresh_ref 4 16 1 LRU), Some (fresh_ref 8 32 2 LRU))"
proof -
  obtain c1 c2 c3 where c1: "config_cache (cstr_of ''d:4:16:1:l'') 0 = Some c1" "cp_tag_shift c1 < 32" "cp_blk_mask c1 = 15"
      "cp_bsize c1 = 16" "cp_nsets c1 = 4" "cp_policy c1 = LRU" "ref_of c1 = fresh_ref 4 16 1 LRU"
    and c2: "config_cache (cstr_of ''e:8:32:2:l'') 0 = Some c2" "cp_tag_shift c2 < 32" "cp_blk_mask c2 = 31"
      "cp_bsize c2 = 32" "cp_nsets c2 = 8" "cp_policy c2 = LRU" "ref_of c2 = fresh_ref 8 32 2 LRU"
    and c3: "config_cache (cstr_of ''t:2:64:1:f'') 4 = Some c3" "cp_tag_shift c3 < 32" "cp_blk_mask c3 = 63"
      "cp_bsize c3 = 64" "cp_nsets c3 = 2" "cp_policy c3 = FIFO" "ref_of c3 = fresh_ref 2 64 1 FIFO"
    using demo_caches by blast
  let ?h = "\<lparr>h_cell = (\<lambda>_. None)(DL1 := Some c1, DL2 := Some c2, DTLB := Some c3), cache_il1 = Some DL1, cache_il2 = None,
    cache_dl1 = Some DL1, cache_dl2 = Some DL2, itlb = None, dtlb = Some DTLB, h_rand = (\<lambda>_. 0)\<rparr>"
  have run: "sim_check_options demo_opts (\<lambda>_. 0) = Some ?h"
    by (simp add: sim_check_options_def config_data_def config_inst_def config_tlb_def demo_opts_def demo_is_opt c1(1) c2(1) c3(1)
        put_cell_def no_caches_def Let_def)
  have size: "\<forall>s cp. h_cell ?h s = Some cp \<longrightarrow> unat (cp_nsets cp) * unat (cp_bsize cp) < 2 ^ 32"
    using c1(4,5) c2(4,5) c3(4,5) by auto
  have "data_ok ?h 0x104 4" "data_ok ?h 0x144 4"
    by (simp_all add: data_ok_def lets_through_def serves_by_def accepts_def CACHE_BADDR_def c1(3,4) c2(3,4) c3(3,4))
  moreover have "data_side ?h" using c1(6) c2(6) c3(6) by (auto simp: data_side_def)
  moreover have "data_refs ?h = (Some (fresh_ref 2 64 1 FIFO), Some (fresh_ref 4 16 1 LRU), Some (fresh_ref 8 32 2 LRU))"
    by (simp add: data_refs_def cell_ref_def c1(7) c2(7) c3(7))
  ultimately show ?thesis using that [OF run sim_check_options_hier [OF run size] size] by blast
qed

lemma sim_check_options_inv_witness:
  "\<exists>h. sim_check_options demo_opts (\<lambda>_. 0) = Some h \<and> hier_inv h"
proof -
  obtain h where h: "sim_check_options demo_opts (\<lambda>_. 0) = Some h"
    "\<forall>s cp. h_cell h s = Some cp \<longrightarrow> unat (cp_nsets cp) * unat (cp_bsize cp) < 2 ^ 32" by (rule demo_hier)
  from sim_check_options_inv [OF h] h(1) show ?thesis by blast
qed

lemma scan_config_roundtrip_witness:
  "scan_config ([100, 49] @ 58 # dec_digits 256 @ 58 # dec_digits 32 @ 58 # dec_digits 4 @ [58, 108]) =
    Some ([100, 49], 256, 32, 4, 108)"
  using scan_config_roundtrip [of "[100, 49]" 256 32 4 108] by simp

text \<open>
  A store and a load of another block of the same first-level set: the first level misses
  twice and writes the dirty block back, which hits in the second level.
\<close>

definition ref_counts :: "ref_t option \<Rightarrow> (counter_t \<times> counter_t \<times> counter_t \<times> counter_t) option" where
  "ref_counts r = map_option (\<lambda>r. (rc_hits r, rc_misses r, rc_replacements r, rc_writebacks r)) r"

lemma demo_refs:
  "(case fold ref_step (map op_call [Store 0x104 7, Load 0x144])
      (Some (fresh_ref 2 64 1 FIFO), Some (fresh_ref 4 16 1 LRU), Some (fresh_ref 8 32 2 LRU)) of
    (t, l1, l2) \<Rightarrow> (ref_counts t, ref_counts l1, ref_counts l2)) =
   (Some (0, 2, 0, 0), Some (0, 2, 1, 1), Some (1, 2, 0, 0))"
proof -
  have two: "replicate 2 x = [x, x]" for x :: entry_t by (simp add: numeral_2_eq_2)
  show ?thesis
    by (simp add: fresh_ref_def ref_step_def ref_access_def ref_calls_def ref_set_def ref_tag_def ref_hit_def ref_counts_def
        has_tag_def spec_access_def spec_hit_def is_dirty_def two Let_def ex_bool_eq)
qed

lemma data_caches_refine_witness:
  "\<exists>h h' m'. sim_check_options demo_opts (\<lambda>_. 0) = Some h \<and>
    run_cached [Store 0x104 7, Load 0x144] h (mem_create ''mem'') = Some ([0], h', m') \<and> hier_inv h' \<and>
    ref_counts (cell_ref h' (dtlb h')) = Some (0, 2, 0, 0) \<and> ref_counts (cell_ref h' (cache_dl1 h')) = Some (0, 2, 1, 1) \<and>
    ref_counts (cell_ref h' (cache_dl2 h')) = Some (1, 2, 0, 0)"
proof -
  obtain h where h: "sim_check_options demo_opts (\<lambda>_. 0) = Some h" "hier_inv h" "data_ok h 0x104 4" "data_ok h 0x144 4"
    "data_side h" "data_refs h = (Some (fresh_ref 2 64 1 FIFO), Some (fresh_ref 4 16 1 LRU), Some (fresh_ref 8 32 2 LRU))"
    by (rule demo_hier)
  let ?ops = "[Store 0x104 7, Load 0x144]"
  obtain m' where run: "run_ops MEM_READ_WORD MEM_WRITE_WORD (mem_create ''mem'') ?ops = Some ([0], m')"
    using raw.run_ops_flat [OF mem_inv_empty(2), of ?ops "''mem''"]
    by (auto simp: aligned4_def mem_view_empty view_word_def view_set_word_def word_of_bytes_def byte_of_def)
  have ok: "\<forall>op \<in> set ?ops. data_ok h (op_addr op) 4" using h(3,4) by simp
  from data_caches_refine [OF h(2,5) ok run] obtain h' where h': "run_cached ?ops h (mem_create ''mem'') = Some ([0], h', m')"
    "hier_inv h'" "data_refs h' = fold ref_step (map op_call ?ops) (data_refs h)" by blast
  have "(ref_counts (cell_ref h' (dtlb h')), ref_counts (cell_ref h' (cache_dl1 h')), ref_counts (cell_ref h' (cache_dl2 h'))) =
      (Some (0, 2, 0, 0), Some (0, 2, 1, 1), Some (1, 2, 0, 0))"
    using demo_refs unfolding h(6) [symmetric] h'(3) [symmetric] by (simp add: data_refs_def)
  then show ?thesis using h(1) h'(1,2) by simp
qed

end
