(* ===== verification/Misc_Num.thy ===== *)
theory Misc_Num
  imports Misc_Str "HOL-Library.Signed_Division"
begin

text \<open>
  The number conversions of misc.c on a host with 64-bit integers: \<open>myatosq()\<close> and
  \<open>myatoq()\<close> with their overflow checks, the decimal low digit, the elapsed time and the
  table-driven CRC.
\<close>

type_synonym qword_t = "64 word"

section \<open>Reading numbers\<close>

definition LL_MAX :: qword_t where "LL_MAX = 9223372036854775807"
definition LL_MIN :: qword_t where "LL_MIN = - LL_MAX - 1"
definition ULL_MAX :: qword_t where "ULL_MAX = 9223372036854775807 * 2 + 1"

datatype errno_t = ENONE | ERANGE

definition digit_val :: "nat \<Rightarrow> nat option" where
  "digit_val c = (if isdigit c then Some (c - 48) else if isalpha c then Some (toupper c - 65 + 10) else None)"

text \<open>
  The loop over the digits, the same in both functions but for the type of \<open>i\<close>, \<open>cutoff\<close> and
  \<open>cutlim\<close>, whose comparison is the first argument: the value, the overflow flag and the
  rest of the string.
\<close>

fun ato_loop :: "(qword_t \<Rightarrow> qword_t \<Rightarrow> bool) \<Rightarrow> nat \<Rightarrow> qword_t \<Rightarrow> qword_t \<Rightarrow> cstr \<Rightarrow> qword_t \<Rightarrow> bool \<Rightarrow>
    qword_t \<times> bool \<times> cstr" where
  "ato_loop lt base cutoff cutlim [] i overflow = (i, overflow, [])"
| "ato_loop lt base cutoff cutlim (ch # s) i overflow =
     (case digit_val ch of
        None \<Rightarrow> (i, overflow, ch # s)
      | Some c \<Rightarrow>
          if c \<ge> base then (i, overflow, ch # s)
          else if lt cutoff i \<or> i = cutoff \<and> lt cutlim (of_nat c)
          then ato_loop lt base cutoff cutlim s i True
          else ato_loop lt base cutoff cutlim s (i * of_nat base + of_nat c) overflow)"

text \<open>A \<open>0x\<close> in front of the pointer, and the base it selects.\<close>

definition hex_prefix :: "cstr \<Rightarrow> bool" where
  "hex_prefix s \<longleftrightarrow> cur s = 48 \<and> toupper (cur (tl s)) = 88"

definition num_base :: "int \<Rightarrow> cstr \<Rightarrow> int" where
  "num_base base s = (if base = 0 then if hex_prefix s then 16 else 10 else base)"

text \<open>
  The value, the end pointer and what \<open>errno\<close> is set to, if it is set.  A null or empty
  string and a base out of range panic.
\<close>

definition myatosq :: "cstr \<Rightarrow> int \<Rightarrow> (qword_t \<times> cstr \<times> errno_t option) option" where
  "myatosq nptr base =
     (if nptr = [] then None
      else let s = dropWhile isspace nptr in
        if s = [] then Some (0, nptr, None)
        else let b = num_base base s in
          if b \<le> 1 \<or> b > 36 then None
          else let (negative, s1) = (if cur s = 45 then (True, tl s) else if cur s = 43 then (False, tl s) else (False, s));
                   s2 = (if b = 16 \<and> hex_prefix s1 then drop 2 s1 else s1);
                   cutoff = word_of_int (sint LL_MAX div b); cutlim = word_of_int (sint LL_MAX mod b);
                   (i, overflow, rest) = ato_loop (<s) (nat b) cutoff cutlim s2 0 False
               in if rest = s2 then Some (0, nptr, None)
                  else if overflow then Some (if negative then LL_MIN else LL_MAX, rest, Some ERANGE)
                  else Some (if negative then - i else i, rest, Some ENONE))"

definition myatoq :: "cstr \<Rightarrow> int \<Rightarrow> (qword_t \<times> cstr \<times> errno_t option) option" where
  "myatoq nptr base =
     (if nptr = [] then None
      else let s = dropWhile isspace nptr in
        if s = [] then Some (0, nptr, None)
        else let b = num_base base s in
          if b \<le> 1 \<or> b > 36 then None
          else let s2 = (if b = 16 \<and> hex_prefix s then drop 2 s else s);
                   cutoff = word_of_int (uint ULL_MAX div b); cutlim = word_of_int (uint ULL_MAX mod b);
                   (i, overflow, rest) = ato_loop (<) (nat b) cutoff cutlim s2 0 False
               in if rest = s2 then Some (0, nptr, None)
                  else if overflow then Some (ULL_MAX, rest, Some ERANGE)
                  else Some (i, rest, Some ENONE))"

section \<open>Elapsed time\<close>

text \<open>One unit of \<open>elapsed_time()\<close>: the text so far and the seconds left.\<close>

definition time_unit :: "int \<Rightarrow> nat \<Rightarrow> cstr \<times> int \<Rightarrow> cstr \<times> int" where
  "time_unit n c st =
     (case st of (tstr, sec) \<Rightarrow>
        if sec \<ge> n then (tstr @ dec_digits (nat (sec div n)) @ [c, 32], sec mod n) else (tstr, sec))"

definition elapsed_time :: "int \<Rightarrow> cstr" where
  "elapsed_time sec =
     (if sec \<le> 0 then cstr_of ''0s''
      else let (tstr, _) = time_unit 1 115 (time_unit 60 109 (time_unit 3600 104 (time_unit 86400 68 ([], sec))))
           in butlast tstr)"

section \<open>The CRC\<close>

definition POLYNOMIAL :: word_t where "POLYNOMIAL = 0x04c11db7"

definition crc_bit :: "word_t \<Rightarrow> word_t" where
  "crc_bit crc_accum =
     (if crc_accum AND 0x80000000 \<noteq> 0 then push_bit 1 crc_accum XOR POLYNOMIAL else push_bit 1 crc_accum)"

text \<open>The table of \<open>crc_gentab()\<close>, and one step of \<open>crc()\<close> on byte \<open>j\<close>.\<close>

definition crc_gentab :: "word_t list" where
  "crc_gentab = map (\<lambda>i. (crc_bit ^^ 8) (push_bit 24 (of_nat i))) [0..<256]"

definition crc_byte :: "word_t \<Rightarrow> word_t \<Rightarrow> nat \<Rightarrow> word_t" where
  "crc_byte data crc_accum j =
     (let i = (drop_bit 24 crc_accum XOR drop_bit (j * 8) data) AND 0xff
      in push_bit 8 crc_accum XOR crc_gentab ! unat i)"

definition crc :: "word_t \<Rightarrow> word_t \<Rightarrow> word_t" where
  "crc crc_accum data = foldl (crc_byte data) crc_accum [0, 1, 2, 3]"

section \<open>Values of digit strings\<close>

definition valid_digit :: "nat \<Rightarrow> nat \<Rightarrow> bool" where
  "valid_digit b ch \<longleftrightarrow> (case digit_val ch of None \<Rightarrow> False | Some c \<Rightarrow> c < b)"

lemma valid_digitE: "valid_digit b ch \<longleftrightarrow> (\<exists>c. digit_val ch = Some c \<and> c < b)"
  by (simp add: valid_digit_def split: option.split)

fun digits_val :: "nat \<Rightarrow> nat \<Rightarrow> cstr \<Rightarrow> nat" where
  "digits_val b n [] = n"
| "digits_val b n (ch # s) = digits_val b (n * b + the (digit_val ch)) s"

lemma digits_val_append: "digits_val b n (s @ t) = digits_val b (digits_val b n s) t"
  by (induction s arbitrary: n) auto

lemma digits_val_ge: "1 \<le> b \<Longrightarrow> n \<le> digits_val b n s"
proof (induction s arbitrary: n)
  case (Cons ch s)
  have "n \<le> n * b + the (digit_val ch)" using Cons.prems by (cases b) simp_all
  also have "\<dots> \<le> digits_val b (n * b + the (digit_val ch)) s" using Cons by simp
  finally show ?case by simp
qed simp

lemma digits_val_foldl:
  "\<forall>ch \<in> set s. digit_val ch = Some (f ch) \<Longrightarrow> digits_val b n s = foldl (\<lambda>n ch. n * b + f ch) n s"
  by (induction s arbitrary: n) auto

text \<open>The cutoff decides overflow one digit ahead.\<close>

lemma cutoff_iff:
  assumes "0 < (b :: nat)" "c < b"
  shows "(m div b < n \<or> n = m div b \<and> m mod b < c) \<longleftrightarrow> m < n * b + c"
proof -
  have m: "m = m div b * b + m mod b" "m mod b < b" using assms(1) by simp_all
  consider "n < m div b" | "n = m div b" | "m div b < n" by linarith
  then show ?thesis
  proof cases
    case 1
    then have "Suc n * b \<le> m div b * b" by (intro mult_le_mono1) simp
    then have "\<not> m < n * b + c" using m(1) assms(2) unfolding mult_Suc by linarith
    then show ?thesis using 1 by simp
  next
    case 2
    have e: "m = n * b + m mod b" using m(1) by (simp only: 2)
    have "(m mod b < c) = (m < n * b + c)" by (rule iffI) (use e in linarith)+
    then show ?thesis using 2 by simp
  next
    case 3
    then have "Suc (m div b) * b \<le> n * b" by (intro mult_le_mono1) simp
    then have "m < n * b + c" using m unfolding mult_Suc by linarith
    then show ?thesis using 3 by simp
  qed
qed

text \<open>The two comparisons agree with the order of numbers below their maximum.\<close>

definition lt_ok :: "(qword_t \<Rightarrow> qword_t \<Rightarrow> bool) \<Rightarrow> nat \<Rightarrow> bool" where
  "lt_ok lt M \<longleftrightarrow> 36 \<le> M \<and> M < 2 ^ 64 \<and> (\<forall>n k. n \<le> M \<longrightarrow> k \<le> M \<longrightarrow> lt (of_nat n) (of_nat k) = (n < k))"

lemma lt_ok_signed: "lt_ok (<s) (2 ^ 63 - 1)"
  by (simp add: lt_ok_def word_sless_alt signed_of_nat signed_take_bit_int_eq_self)

lemma lt_ok_unsigned: "lt_ok (<) (2 ^ 64 - 1)"
  by (simp add: lt_ok_def word_less_alt unsigned_of_nat take_bit_nat_eq_self)

lemma of_nat_eq_qword: "n < 2 ^ 64 \<Longrightarrow> k < 2 ^ 64 \<Longrightarrow> ((of_nat n :: qword_t) = of_nat k) = (n = k)"
  by (simp add: of_nat_eq_iff word_of_nat_eq_iff take_bit_nat_eq_self)

lemma ato_loop_digits:
  assumes lt: "lt_ok lt M" and b: "2 \<le> b" "b \<le> 36" and rest: "\<not> valid_digit b (cur rest)"
  shows "\<forall>ch \<in> set ds. valid_digit b ch \<Longrightarrow> n \<le> M \<Longrightarrow>
    \<exists>i v. ato_loop lt b (of_nat (M div b)) (of_nat (M mod b)) (ds @ rest) (of_nat n) ov = (i, v, rest) \<and>
      (digits_val b n ds \<le> M \<longrightarrow> i = of_nat (digits_val b n ds) \<and> v = ov) \<and> (M < digits_val b n ds \<or> ov \<longrightarrow> v)"
proof (induction ds arbitrary: n ov)
  case Nil
  have "ato_loop lt b x y rest (of_nat n) ov = (of_nat n, ov, rest)" for x y
  proof (cases rest)
    case (Cons ch s)
    then show ?thesis using rest by (auto simp: valid_digitE split: option.split)
  qed simp
  then show ?case using Nil by simp
next
  case (Cons ch ds)
  obtain c where c: "digit_val ch = Some c" "c < b" using Cons.prems(1) by (auto simp: valid_digitE)
  have M: "36 \<le> M" "M < 2 ^ 64" and l: "\<And>n k. n \<le> M \<Longrightarrow> k \<le> M \<Longrightarrow> lt (of_nat n) (of_nat k) = (n < k)"
    using lt by (auto simp: lt_ok_def)
  have le: "M div b \<le> M" "M mod b \<le> M" "c \<le> M" using b c(2) M by auto
  have "(of_nat n = (of_nat (M div b) :: qword_t)) = (n = M div b)"
    using of_nat_eq_qword [of n "M div b"] Cons.prems(2) le(1) M(2) by linarith
  then have test: "(lt (of_nat (M div b)) (of_nat n) \<or> of_nat n = (of_nat (M div b) :: qword_t) \<and> lt (of_nat (M mod b)) (of_nat c))
      = (M < n * b + c)"
    using l [OF le(1) Cons.prems(2)] l [OF le(2,3)] cutoff_iff [of b c M n] b c(2) by simp
  have ds: "\<forall>ch \<in> set ds. valid_digit b ch" using Cons.prems(1) by simp
  show ?case
  proof (cases "M < n * b + c")
    case True
    then have "M < digits_val b (n * b + c) ds" using digits_val_ge [of b "n * b + c" ds] b by linarith
    then show ?thesis using Cons.IH [OF ds Cons.prems(2), of True] True c by (auto simp: test)
  next
    case False
    then show ?thesis using Cons.IH [OF ds, of "n * b + c" ov] c by (simp add: test)
  qed
qed

lemma valid_not_space: "valid_digit b ch \<Longrightarrow> \<not> isspace ch \<and> ch \<noteq> 45 \<and> ch \<noteq> 43"
  by (auto simp: valid_digitE digit_val_def isspace_def isdigit_def isalpha_def isupper_def islower_def
      split: if_splits)

lemma dropWhile_cur: "\<not> P (cur s) \<Longrightarrow> dropWhile P s = s"
  by (cases s) auto

lemma word_of_int_nat: "word_of_int (int n) = (of_nat n :: qword_t)"
  by simp

text \<open>What \<open>myatosq()\<close> makes of a sign and digits, followed by anything that is not a digit.\<close>

lemma myatosq_digits:
  assumes sg: "sg \<in> {[], [45], [43]}" and b: "2 \<le> b" "b \<le> 36"
    and ds: "ds \<noteq> []" "\<forall>ch \<in> set ds. valid_digit b ch" and rest: "\<not> valid_digit b (cur rest)"
    and base: "num_base base (sg @ ds @ rest) = int b" "b = 16 \<longrightarrow> \<not> hex_prefix (ds @ rest)"
  shows "myatosq (sg @ ds @ rest) base = Some
    (if digits_val b 0 ds < 2 ^ 63
     then (if sg = [45] then - of_nat (digits_val b 0 ds) else of_nat (digits_val b 0 ds), rest, Some ENONE)
     else (if sg = [45] then LL_MIN else LL_MAX, rest, Some ERANGE))"
proof -
  obtain ch ds' where d: "ds = ch # ds'" using ds(1) by (cases ds) auto
  have ch: "\<not> isspace ch" "ch \<noteq> 45" "ch \<noteq> 43" using ds(2) valid_not_space d by auto
  have skip: "dropWhile isspace (sg @ ds @ rest) = sg @ ds @ rest"
    using sg ch d by (intro dropWhile_cur) (auto simp: isspace_def)
  have signs: "(if cur (sg @ ds @ rest) = 45 then (True, tl (sg @ ds @ rest))
      else if cur (sg @ ds @ rest) = 43 then (False, tl (sg @ ds @ rest)) else (False, sg @ ds @ rest))
      = (sg = [45], ds @ rest)"
    using sg ch d by auto
  have lim: "word_of_int (sint LL_MAX div int b) = (of_nat ((2 ^ 63 - 1) div b) :: qword_t)"
    "word_of_int (sint LL_MAX mod int b) = (of_nat ((2 ^ 63 - 1) mod b) :: qword_t)"
    using word_of_int_nat [of "(2 ^ 63 - 1) div b"] word_of_int_nat [of "(2 ^ 63 - 1) mod b"]
    by (simp_all add: LL_MAX_def zdiv_int zmod_int) 
  obtain i v where r: "ato_loop (<s) b (of_nat ((2 ^ 63 - 1) div b)) (of_nat ((2 ^ 63 - 1) mod b)) (ds @ rest) (of_nat 0) False = (i, v, rest)"
    "digits_val b 0 ds \<le> 2 ^ 63 - 1 \<longrightarrow> i = of_nat (digits_val b 0 ds) \<and> v = False" "2 ^ 63 - 1 < digits_val b 0 ds \<or> False \<longrightarrow> v"
    using ato_loop_digits [OF lt_ok_signed b rest ds(2), of 0 False] by auto
  have ne: "rest \<noteq> ds @ rest" "sg @ ds @ rest \<noteq> []" using ds(1) by auto
  have b': "\<not> (int b \<le> 1 \<or> 36 < int b)" using b by auto
  show ?thesis
    unfolding myatosq_def Let_def skip base(1) signs prod.case lim nat_int
    using r ne b' base(2) by (cases "digits_val b 0 ds < 2 ^ 63") auto
qed

lemma myatoq_digits:
  assumes b: "2 \<le> b" "b \<le> 36"
    and ds: "ds \<noteq> []" "\<forall>ch \<in> set ds. valid_digit b ch" and rest: "\<not> valid_digit b (cur rest)"
    and base: "num_base base (ds @ rest) = int b" "b = 16 \<longrightarrow> \<not> hex_prefix (ds @ rest)"
  shows "myatoq (ds @ rest) base = Some
    (if digits_val b 0 ds < 2 ^ 64 then (of_nat (digits_val b 0 ds), rest, Some ENONE) else (ULL_MAX, rest, Some ERANGE))"
proof -
  obtain ch ds' where d: "ds = ch # ds'" using ds(1) by (cases ds) auto
  have skip: "dropWhile isspace (ds @ rest) = ds @ rest"
    using ds(2) valid_not_space d by (intro dropWhile_cur) auto
  have lim: "word_of_int (uint ULL_MAX div int b) = (of_nat ((2 ^ 64 - 1) div b) :: qword_t)"
    "word_of_int (uint ULL_MAX mod int b) = (of_nat ((2 ^ 64 - 1) mod b) :: qword_t)"
    using word_of_int_nat [of "(2 ^ 64 - 1) div b"] word_of_int_nat [of "(2 ^ 64 - 1) mod b"]
    by (simp_all add: ULL_MAX_def zdiv_int zmod_int)
  obtain i v where r: "ato_loop (<) b (of_nat ((2 ^ 64 - 1) div b)) (of_nat ((2 ^ 64 - 1) mod b)) (ds @ rest) (of_nat 0) False = (i, v, rest)"
    "digits_val b 0 ds \<le> 2 ^ 64 - 1 \<longrightarrow> i = of_nat (digits_val b 0 ds) \<and> v = False" "2 ^ 64 - 1 < digits_val b 0 ds \<or> False \<longrightarrow> v"
    using ato_loop_digits [OF lt_ok_unsigned b rest ds(2), of 0 False] by auto
  have ne: "rest \<noteq> ds @ rest" "ds @ rest \<noteq> []" using ds(1) by auto
  have b': "\<not> (int b \<le> 1 \<or> 36 < int b)" using b by auto
  show ?thesis
    unfolding myatoq_def Let_def skip base(1) prod.case lim nat_int
    using r ne b' base(2) by (cases "digits_val b 0 ds < 2 ^ 64") auto
qed

section \<open>The CRC is linear\<close>

lemma top_bit: "x AND 0x80000000 \<noteq> 0 \<longleftrightarrow> bit (x :: word_t) 31"
proof -
  have "(0x80000000 :: word_t) = push_bit 31 1" by simp
  then show ?thesis by (simp add: bit_iff_and_push_bit_not_eq_0)
qed

lemma crc_bit_eq: "crc_bit x = push_bit 1 x XOR (if bit x 31 then POLYNOMIAL else 0)"
  by (simp add: crc_bit_def top_bit)

lemma crc_bit_xor: "crc_bit (x XOR y) = crc_bit x XOR crc_bit y"
  by (rule bit_word_eqI) (auto simp: crc_bit_eq bit_simps)

lemma crc_bits_xor: "(crc_bit ^^ k) (x XOR y) = (crc_bit ^^ k) x XOR (crc_bit ^^ k) y"
  by (induction k) (simp_all add: crc_bit_xor)

lemma crc_bits_low:
  "\<forall>n \<ge> 32 - k. \<not> bit x n \<Longrightarrow> k \<le> 32 \<Longrightarrow> (crc_bit ^^ k) x = push_bit k x"
proof (induction k arbitrary: x)
  case (Suc k)
  have "crc_bit x = push_bit 1 x" using Suc.prems by (simp add: crc_bit_eq)
  moreover have "\<forall>n \<ge> 32 - k. \<not> bit (push_bit 1 x) n"
    using Suc.prems by (auto simp only: bit_push_bit_iff)
  ultimately have "(crc_bit ^^ k) (crc_bit x) = push_bit k (push_bit 1 x)" using Suc by simp
  then show ?case by (simp add: funpow_swap1 push_bit_push_bit)
qed simp

text \<open>One table step is eight steps of the shift register, the byte added at the top.\<close>

lemma crc_byte_bits: "crc_byte data x j = (crc_bit ^^ 8) (x XOR push_bit 24 (drop_bit (j * 8) data AND 0xff))"
proof -
  let ?b = "drop_bit (j * 8) data" and ?i = "(drop_bit 24 x XOR drop_bit (j * 8) data) AND 0xff"
  have m: "(0xff :: word_t) = mask 8" by (simp add: mask_eq_decr_exp)
  have "?i \<le> 0xff" by (rule word_and_le1)
  then have "unat ?i < 256" by (simp add: word_le_nat_alt)
  then have t: "crc_gentab ! unat ?i = (crc_bit ^^ 8) (push_bit 24 ?i)"
    by (simp add: crc_gentab_def del: funpow.simps)
  have "x XOR push_bit 24 (?b AND 0xff) = (x AND mask 24) XOR push_bit 24 ?i"
    by (rule bit_word_eqI) (auto simp: m bit_simps)
  moreover have "(crc_bit ^^ 8) (x AND mask 24) = push_bit 8 (x AND mask 24)"
    by (rule crc_bits_low) (auto simp: bit_simps)
  moreover have "push_bit 8 (x AND mask 24) = push_bit 8 x"
    by (rule bit_word_eqI) (auto simp: bit_simps)
  ultimately show ?thesis by (simp only: crc_byte_def Let_def t crc_bits_xor)
qed

lemma inj_crc_bit: "inj crc_bit"
proof (rule injI)
  fix x y assume e: "crc_bit x = crc_bit y"
  have "bit POLYNOMIAL 0" by (simp add: POLYNOMIAL_def)
  then have p0: "bit (crc_bit z) 0 = bit z 31" for z
    by (simp only: crc_bit_eq bit_xor_iff bit_push_bit_iff split: if_split) simp
  then have t: "bit x 31 = bit y 31" using e by metis
  have "push_bit 1 z = crc_bit z XOR (if bit z 31 then POLYNOMIAL else 0)" for z
    by (simp add: crc_bit_eq xor.assoc)
  then have p: "push_bit 1 x = push_bit 1 y" by (simp only: e t)
  show "x = y"
  proof (rule bit_word_eqI)
    fix n assume n: "n < LENGTH(32)"
    show "bit x n = bit y n"
    proof (cases "n = 31")
      case False
      then have "bit (push_bit 1 z) (Suc n) = bit z n" for z :: word_t
        using n False by (simp only: bit_push_bit_iff) simp
      then show ?thesis using p by metis
    qed (use t in simp)
  qed
qed

lemma inj_crc_bits: "inj (crc_bit ^^ k)"
  using inj_crc_bit by (induction k) (auto intro: inj_compose)

text \<open>A byte shifted in passes through eight steps unchanged until it reaches the top.\<close>

lemma crc_bits_shift:
  assumes "n + 8 \<le> 24"
  shows "(crc_bit ^^ 8) x XOR push_bit (n + 8) (b AND 0xff) = (crc_bit ^^ 8) (x XOR push_bit n (b AND 0xff))"
proof -
  have m: "(0xff :: word_t) = mask 8" by (simp add: mask_eq_decr_exp)
  have "(crc_bit ^^ 8) (push_bit n (b AND 0xff)) = push_bit 8 (push_bit n (b AND 0xff))"
    using assms by (intro crc_bits_low) (auto simp: m bit_simps)
  then show ?thesis by (simp add: crc_bits_xor push_bit_push_bit add.commute)
qed

definition byte_swap :: "word_t \<Rightarrow> word_t" where
  "byte_swap w = word_of_bytes [byte_of w 3, byte_of w 2, byte_of w 1, byte_of w 0]"

lemma byte_swap_swap [simp]: "byte_swap (byte_swap w) = w"
  by (simp add: byte_swap_def)

lemma byte_swap_xor:
  "byte_swap w = push_bit 24 (drop_bit (0 * 8) w AND 0xff) XOR push_bit 16 (drop_bit (1 * 8) w AND 0xff) XOR
     push_bit 8 (drop_bit (2 * 8) w AND 0xff) XOR push_bit 0 (drop_bit (3 * 8) w AND 0xff)"
proof (rule bit_word_eqI)
  fix n assume n: "n < LENGTH(32)"
  have m: "(0xff :: word_t) = mask 8" by (simp add: mask_eq_decr_exp)
  show "bit (byte_swap w) n = bit (push_bit 24 (drop_bit (0 * 8) w AND 0xff) XOR
      push_bit 16 (drop_bit (1 * 8) w AND 0xff) XOR push_bit 8 (drop_bit (2 * 8) w AND 0xff) XOR
      push_bit 0 (drop_bit (3 * 8) w AND 0xff)) n"
    using n unfolding byte_swap_def bit_word_of_bytes m by (auto simp: bit_simps bit_byte_of)
qed

lemma crc_shift_register: "crc acc data = (crc_bit ^^ 32) (acc XOR byte_swap data)"
proof -
  note down = crc_bits_shift [of 16, simplified] crc_bits_shift [of 8, simplified] crc_bits_shift [of 0, simplified]
  have "(crc_bit ^^ 32) x = (crc_bit ^^ 8) ((crc_bit ^^ 8) ((crc_bit ^^ 8) ((crc_bit ^^ 8) x)))" for x
    using funpow_add [of 8 24 crc_bit] funpow_add [of 8 16 crc_bit] funpow_add [of 8 8 crc_bit] by simp
  then show ?thesis
    by (simp only: crc_def foldl.simps crc_byte_bits byte_swap_xor) (simp add: down xor.assoc del: funpow.simps)
qed

section \<open>Properties\<close>

text \<open>
  C40: the table-driven \<open>crc()\<close> is the bitwise CRC of its polynomial: 32 steps of the shift
  register over the accumulator and the data word, high byte last.  For a fixed
  accumulator two different words never have the same CRC.
\<close>

theorem crc_bitwise:
  "crc acc data = (crc_bit ^^ 32) (acc XOR byte_swap data) \<and> (crc acc data = crc acc data' \<longleftrightarrow> data = data')"
proof -
  have "data = data'" if "crc acc data = crc acc data'"
  proof -
    have "acc XOR byte_swap data = acc XOR byte_swap data'"
      using that inj_crc_bits [of 32] by (simp only: crc_shift_register inj_eq)
    then have "acc XOR (acc XOR byte_swap data) = acc XOR (acc XOR byte_swap data')" by simp
    then have "byte_swap data = byte_swap data'" by (simp flip: xor.assoc)
    then have "byte_swap (byte_swap data) = byte_swap (byte_swap data')" by (rule arg_cong)
    then show ?thesis by (simp only: byte_swap_swap)
  qed
  then show ?thesis using crc_shift_register by blast
qed

end
