(* ===== verification/Misc_Print.thy ===== *)
theory Misc_Print
  imports Misc_Num
begin

text \<open>
  \<open>myvsprintf()\<close> of misc.c: the format interpreter and its integer conversions on 64-bit
  values.  The floating point conversion hands a format of the host's \<open>sprintf()\<close> to a
  parameter.  An argument of another type than the conversion fetches, and a field width
  that does not fit an \<open>int\<close>, are undefined and give no result.
\<close>

section \<open>The interpreter\<close>

datatype 'd vararg = VInt word_t | VLong qword_t | VStr "cstr option" | VDbl 'd

record pf_spec =
  pf_width :: nat
  pf_prec :: "nat option"
  pf_padzero :: bool
  pf_dotseen :: bool
  pf_length :: bool

text \<open>The switch on the characters of a specification, up to the format letter.\<close>

function parse_spec :: "cstr \<Rightarrow> pf_spec \<Rightarrow> (pf_spec \<times> nat \<times> cstr) option" where
  "parse_spec [] sp = Some (sp, 0, [])"
| "parse_spec (c # s) sp =
     (if isdigit c then
        (let sp1 = (if c = 48 then sp\<lparr>pf_padzero := True\<rparr> else sp);
             num = foldl (\<lambda>n d. n * 10 + (d - 48)) (c - 48) (takeWhile isdigit s)
         in if num \<ge> 2 ^ 31 then None
            else parse_spec (dropWhile isdigit s)
              (if pf_dotseen sp1 then sp1\<lparr>pf_prec := Some num\<rparr> else sp1\<lparr>pf_width := num\<rparr>))
      else if c = 46 then parse_spec s (sp\<lparr>pf_dotseen := True\<rparr>)
      else if c = 108 then parse_spec s (sp\<lparr>pf_length := True\<rparr>)
      else Some (sp, c, s))"
  by pat_completeness auto
termination
  by (relation "measure (\<lambda>(s, sp). length s)") (auto simp: le_imp_less_Suc length_dropWhile_le)

definition HIBITL :: qword_t where "HIBITL = 0x8000000000000000"

text \<open>A character computed as an \<open>int\<close>.\<close>

definition put_char :: "word_t \<Rightarrow> nat" where "put_char i = unat (ucast i :: byte_t)"

definition lowdigit :: "qword_t \<Rightarrow> nat \<times> qword_t" where
  "lowdigit val =
     (let lowbit = ucast (val AND 1) :: word_t;
          v = signed_drop_bit 1 val AND NOT HIBITL
      in (put_char (ucast (word_of_int (sint v smod 5) * 2 + ucast lowbit + 48 :: qword_t)),
          word_of_int (sint v sdiv 5)))"

lemma sint_quot: "sint (word_of_int (sint (q :: qword_t) sdiv 10) :: qword_t) = sint q sdiv 10"
proof -
  let ?d = "\<bar>sint q\<bar> div 10"
  have "- (2 ^ 63) \<le> sint q" "sint q < 2 ^ 63"
    using sint_greater_eq [of q] sint_less [of q] by simp_all
  moreover have "?d * 10 \<le> \<bar>sint q\<bar>" "0 \<le> ?d" by simp_all
  ultimately have "0 \<le> ?d" "?d < 2 ^ 62" by simp_all
  moreover have "sint q sdiv 10 \<in> {?d, 0, - ?d}" by (auto simp: signed_divide_int_def sgn_if)
  ultimately have "- (2 ^ 63) \<le> sint q sdiv 10" "sint q sdiv 10 < 2 ^ 63" by auto
  then show ?thesis by (simp add: signed_of_int signed_take_bit_int_eq_self)
qed

text \<open>The loop of the label \<open>decimal\<close>; the digits are stored from the last to the first.\<close>

function dec_loop :: "qword_t \<Rightarrow> cstr \<Rightarrow> cstr" where
  "dec_loop qval acc =
     (let n = ucast qval :: word_t;
          q = word_of_int (sint qval sdiv 10) :: qword_t;
          acc1 = put_char (n - ucast q * 10 + 48) # acc
      in if 9 <s q then dec_loop q acc1 else put_char (ucast q + 48) # acc1)"
  by auto
termination
proof (relation "measure (\<lambda>(q, acc). nat (sint q))")
  fix qval q :: qword_t and acc and x :: word_t and xa
  assume q: "q = word_of_int (sint qval sdiv 10)" and g: "9 <s q"
  have "9 < sint qval sdiv 10" using g sint_quot [of qval] by (simp add: word_sless_alt q)
  then have "0 < sint qval" "sint q = sint qval div 10"
    using sint_quot [of qval] by (auto simp: q signed_divide_int_def sgn_if split: if_splits)
  then show "((q, xa), qval, acc) \<in> measure (\<lambda>(q, acc). nat (sint q))" by auto
qed simp

definition decimal :: "qword_t \<Rightarrow> cstr \<Rightarrow> cstr" where
  "decimal val acc = (if val \<le>s 9 then put_char (ucast val + 48) # acc else dec_loop val acc)"

text \<open>The digits of the octal and hexadecimal conversions.\<close>

definition next_radix :: "nat \<Rightarrow> qword_t \<Rightarrow> qword_t" where
  "next_radix lradix qval = signed_drop_bit lradix (signed_drop_bit 1 qval AND NOT HIBITL)"

lemma bit_HIBITL: "bit HIBITL n \<longleftrightarrow> n = 63"
proof -
  have "HIBITL = push_bit 63 1" by (simp add: HIBITL_def)
  then show ?thesis unfolding \<open>HIBITL = push_bit 63 1\<close> bit_push_bit_iff by auto
qed

lemma next_radix_drop: "next_radix l q = drop_bit (Suc l) q"
proof (rule bit_word_eqI)
  fix n assume n: "n < LENGTH(64)"
  show "bit (next_radix l q) n = bit (drop_bit (Suc l) q) n"
    using n by (auto simp: next_radix_def bit_HIBITL bit_simps min_def dest: bit_imp_le_length)
qed

text \<open>The loop runs at least once; it is entered with a value that is not 0.\<close>

function radix_loop :: "string \<Rightarrow> qword_t \<Rightarrow> nat \<Rightarrow> qword_t \<Rightarrow> cstr \<Rightarrow> cstr" where
  "radix_loop tab mradix lradix qval acc =
     (let acc1 = of_char (tab ! unat (qval AND mradix)) # acc;
          q = next_radix lradix qval
      in if q \<noteq> 0 then radix_loop tab mradix lradix q acc1 else acc1)"
  by auto
termination
proof (relation "measure (\<lambda>(t, m, l, q, a). unat q)")
  fix tab :: string and mradix qval q :: qword_t and lradix and acc x :: cstr
  assume q: "q = next_radix lradix qval" "q \<noteq> 0"
  have u: "unat q = unat qval div 2 ^ Suc lradix"
    unfolding q(1) next_radix_drop unat_drop_bit_eq by (rule drop_bit_eq_div)
  then have "unat qval \<noteq> 0" using q(2) by (metis div_0 unat_eq_0)
  moreover have "(1 :: nat) < 2 ^ Suc lradix" by (rule one_less_power) simp_all
  ultimately have "unat q < unat qval" using u div_less_dividend by simp
  then show "((tab, mradix, lradix, q, x), tab, mradix, lradix, qval, acc) \<in> measure (\<lambda>(t, m, l, q, a). unat q)"
    by simp
qed simp

declare dec_loop.simps [simp del] radix_loop.simps [simp del]

section \<open>Conversions\<close>

definition lower_tab :: string where "lower_tab = ''0123456789abcdef''"
definition upper_tab :: string where "upper_tab = ''0123456789ABCDEF''"

text \<open>Fetching a signed and an unsigned argument.\<close>

fun fetch_signed :: "pf_spec \<Rightarrow> 'd vararg list \<Rightarrow> (qword_t \<times> 'd vararg list) option" where
  "fetch_signed sp (VLong v # args) = (if pf_length sp then Some (v, args) else None)"
| "fetch_signed sp (VInt v # args) = (if pf_length sp then None else Some (scast v, args))"
| "fetch_signed sp args = None"

fun fetch_unsigned :: "pf_spec \<Rightarrow> 'd vararg list \<Rightarrow> (qword_t \<times> 'd vararg list) option" where
  "fetch_unsigned sp (VLong v # args) = (if pf_length sp then Some (v, args) else None)"
| "fetch_unsigned sp (VInt v # args) = (if pf_length sp then None else Some (ucast v, args))"
| "fetch_unsigned sp args = None"

text \<open>
  What a conversion gives: the prefix, the number of leading zeros (the value 0 in octal and
  hexadecimal has one and no digits) and the characters.
\<close>

definition conv_signed :: "qword_t \<Rightarrow> cstr \<times> nat \<times> cstr" where
  "conv_signed val =
     (if val <s 0 then
        if val \<noteq> HIBITL then ([45], 0, decimal (- val) [])
        else (let (c, val1) = lowdigit val in ([45], 0, decimal val1 [c]))
      else ([], 0, decimal val []))"

definition conv_unsigned :: "qword_t \<Rightarrow> cstr \<times> nat \<times> cstr" where
  "conv_unsigned val =
     (if val AND HIBITL \<noteq> 0 then (let (c, val1) = lowdigit val in ([], 0, decimal val1 [c]))
      else ([], 0, decimal val []))"

definition conv_radix :: "nat \<Rightarrow> qword_t \<Rightarrow> nat \<Rightarrow> qword_t \<Rightarrow> cstr \<times> nat \<times> cstr" where
  "conv_radix fcode mradix lradix val =
     (let tab = (if fcode = 88 then upper_tab else lower_tab) in
      if val = 0 then ([], 1, []) else ([], 0, radix_loop tab mradix lradix val []))"

text \<open>The format handed to the host for a floating point value.\<close>

definition double_format :: "pf_spec \<Rightarrow> cstr option" where
  "double_format sp =
     (if pf_dotseen sp then
        (case pf_prec sp of None \<Rightarrow> None
         | Some p \<Rightarrow> Some ([37] @ dec_digits (pf_width sp) @ [46] @ dec_digits p @ [102]))
      else if pf_width sp \<noteq> 0 then Some ([37] @ dec_digits (pf_width sp) @ [102])
      else Some [37, 102])"

definition is_letter :: "nat \<Rightarrow> bool" where
  "is_letter c \<longleftrightarrow> c \<in> {110, 100, 117, 111, 112, 88, 120, 102, 115, 37, 99}"

definition convert :: "(cstr \<Rightarrow> 'd \<Rightarrow> cstr) \<Rightarrow> pf_spec \<Rightarrow> nat \<Rightarrow> 'd vararg list \<Rightarrow>
    ((cstr \<times> nat \<times> cstr) \<times> 'd vararg list) option" where
  "convert sprintf sp c args =
     (if c = 110 then do { (v, r) \<leftarrow> fetch_signed (sp\<lparr>pf_length := True\<rparr>) args; Some (conv_signed v, r) }
      else if c = 100 then do { (v, r) \<leftarrow> fetch_signed sp args; Some (conv_signed v, r) }
      else if c = 117 then do { (v, r) \<leftarrow> fetch_unsigned sp args; Some (conv_unsigned v, r) }
      else if c = 111 then do { (v, r) \<leftarrow> fetch_unsigned sp args; Some (conv_radix c 7 2 v, r) }
      else if c = 112 \<or> c = 88 \<or> c = 120
      then do { (v, r) \<leftarrow> fetch_unsigned sp args; Some (conv_radix c 15 3 v, r) }
      else if c = 102 then
        (case args of VDbl d # r \<Rightarrow> do { f \<leftarrow> double_format sp; Some (([], 0, sprintf f d), r) } | _ \<Rightarrow> None)
      else if c = 115 then
        (case args of VStr s # r \<Rightarrow> Some (([], 0, case s of None \<Rightarrow> cstr_of ''(null)'' | Some t \<Rightarrow> t), r) | _ \<Rightarrow> None)
      else if c = 37 then Some (([], 0, [c]), args)
      else (case args of VInt v # r \<Rightarrow> Some (([], 0, [put_char v]), r) | _ \<Rightarrow> None))"

text \<open>Padding, prefix, zeros and characters, in the order they are stored.\<close>

definition emit :: "pf_spec \<Rightarrow> cstr \<Rightarrow> nat \<Rightarrow> cstr \<Rightarrow> cstr" where
  "emit sp prefix lzero bp =
     (let k = length bp + length prefix + lzero in
      if pf_width sp \<le> k then prefix @ replicate lzero 48 @ bp
      else if pf_padzero sp then prefix @ replicate (lzero + (pf_width sp - k)) 48 @ bp
      else replicate (pf_width sp - k) 32 @ prefix @ replicate lzero 48 @ bp)"

section \<open>The format loop\<close>

lemma parse_spec_length: "parse_spec s sp = Some (sp', c, r) \<Longrightarrow> length r \<le> length s \<and> (c \<noteq> 0 \<longrightarrow> length r < length s)"
proof (induction s sp arbitrary: sp' c r rule: parse_spec.induct)
  case (2 d s sp)
  have "length (dropWhile isdigit s) \<le> length s" by (rule length_dropWhile_le)
  then show ?case using 2 by (fastforce simp: Let_def split: if_splits)
qed simp

text \<open>
  An unknown letter is taken back and read as text; \<open>prec\<close> is one variable of the call and
  keeps the value of the last specification that had one.
\<close>

function vsprintf_loop :: "(cstr \<Rightarrow> 'd \<Rightarrow> cstr) \<Rightarrow> cstr \<Rightarrow> 'd vararg list \<Rightarrow> nat option \<Rightarrow> cstr option" where
  "vsprintf_loop sprintf [] args prec = Some []"
| "vsprintf_loop sprintf (f # format) args prec =
     (if f \<noteq> 37 then do { out \<leftarrow> vsprintf_loop sprintf format args prec; Some (f # out) }
      else (case parse_spec format \<lparr>pf_width = 0, pf_prec = prec, pf_padzero = False, pf_dotseen = False, pf_length = False\<rparr>
         of None \<Rightarrow> None
         | Some (sp, c, rest) \<Rightarrow>
             if is_letter c then do {
               ((prefix, lzero, bp), args1) \<leftarrow> convert sprintf sp c args;
               out \<leftarrow> vsprintf_loop sprintf rest args1 (pf_prec sp);
               Some (emit sp prefix lzero bp @ out) }
             else vsprintf_loop sprintf (if c = 0 then rest else c # rest) args (pf_prec sp)))"
  by pat_completeness auto
termination
  by (relation "measure (\<lambda>(sf, f, a, p). length f)") (auto dest!: parse_spec_length)

definition myvsprintf :: "(cstr \<Rightarrow> 'd \<Rightarrow> cstr) \<Rightarrow> cstr \<Rightarrow> 'd vararg list \<Rightarrow> cstr option" where
  "myvsprintf sprintf format v = vsprintf_loop sprintf format v None"

section \<open>What the conversions print\<close>

lemma put_char_nat [simp]: "n < 256 \<Longrightarrow> put_char (of_nat n) = n"
  by (simp add: put_char_def unsigned_of_nat take_bit_nat_eq_self unsigned_ucast_eq)

lemma put_char_digit:
  assumes "d < 10"
  shows "put_char (of_nat d + 48) = 48 + d"
  using assms put_char_nat [of "d + 48"] by simp

lemma ucast_nat32 [simp]: "(ucast (of_nat m :: qword_t) :: word_t) = of_nat m"
  by transfer (simp add: min_def)

lemma sint_nat: "n < 2 ^ 63 \<Longrightarrow> sint (of_nat n :: qword_t) = int n"
  by (simp add: signed_of_nat signed_take_bit_int_eq_self)

lemma dec_loop_digits: "9 < m \<Longrightarrow> m < 2 ^ 63 \<Longrightarrow> dec_loop (of_nat m) acc = dec_digits m @ acc"
proof (induction m arbitrary: acc rule: less_induct)
  case (less m)
  let ?q = "of_nat (m div 10) :: qword_t"
  have s: "sint (of_nat m :: qword_t) = int m" using less.prems sint_nat by blast
  have q: "word_of_int (sint (of_nat m :: qword_t) sdiv 10) = ?q"
    using word_of_int_nat [of "m div 10"] by (simp add: s signed_divide_int_def sgn_if zdiv_int)
  have "(of_nat m :: word_t) = of_nat (m div 10 * 10 + m mod 10)" by simp
  also have "\<dots> = of_nat (m div 10) * 10 + of_nat (m mod 10)" by (simp only: of_nat_add of_nat_mult of_nat_numeral)
  finally have "(of_nat m :: word_t) - of_nat (m div 10) * 10 + 48 = of_nat (m mod 10) + 48" by simp
  then have dig: "put_char (of_nat m - of_nat (m div 10) * 10 + 48) = 48 + m mod 10"
    using put_char_digit [of "m mod 10"] by simp
  have c: "(9 <s ?q) = (9 < m div 10)"
    using less.prems by (simp add: word_sless_alt sint_nat)
  have r: "dec_digits m = dec_digits (m div 10) @ [48 + m mod 10]"
    using less.prems by (subst dec_digits.simps) simp
  show ?case
  proof (cases "9 < m div 10")
    case True
    then show ?thesis using less.IH [of "m div 10"] less.prems r c
      by (subst dec_loop.simps) (simp add: Let_def q dig)
  next
    case False
    then have "dec_digits (m div 10) = [48 + m div 10]" by (subst dec_digits.simps) simp
    then show ?thesis using False r c put_char_digit [of "m div 10"]
      by (subst dec_loop.simps) (simp add: Let_def q dig)
  qed
qed

lemma decimal_digits:
  assumes "m < 2 ^ 63"
  shows "decimal (of_nat m) acc = dec_digits m @ acc"
proof (cases "m \<le> 9")
  case True
  then have "dec_digits m = [48 + m]" by (subst dec_digits.simps) simp
  then show ?thesis using True put_char_digit [of m]
    by (simp add: decimal_def word_sle_eq sint_nat)
next
  case False
  then show ?thesis using assms dec_loop_digits [of m acc]
    by (simp add: decimal_def word_sle_eq sint_nat)
qed

text \<open>The low digit of a value whose high bit is set, and the value without it.\<close>

lemma lowdigit_nat:
  assumes n: "unat v = n"
  shows "lowdigit v = (48 + n mod 10, of_nat (n div 10))"
proof -
  have d: "signed_drop_bit 1 v AND NOT HIBITL = drop_bit 1 v"
    using next_radix_drop [of 0 v] by (simp add: next_radix_def)
  have "unat v < 2 ^ LENGTH(64)" by (rule unsigned_less)
  then have "n < 2 ^ 64" using n by simp
  then have h: "n div 2 < 2 ^ 63" by simp
  have "unat (drop_bit 1 v) = n div 2" unfolding unat_drop_bit_eq n by (simp add: drop_bit_eq_div)
  then have v: "drop_bit 1 v = of_nat (n div 2)" by (metis of_nat_unat ucast_id)
  have s: "sint (of_nat (n div 2) :: qword_t) = int (n div 2)" by (rule sint_nat [OF h])
  have q: "word_of_int (sint (of_nat (n div 2) :: qword_t) sdiv 5) = (of_nat (n div 10) :: qword_t)"
    using word_of_int_nat [of "n div 10"] zdiv_zmult2_eq [of 5 "int n" 2]
    by (simp only: s) (simp add: signed_divide_int_def sgn_if zdiv_int)
  have m: "word_of_int (sint (of_nat (n div 2) :: qword_t) smod 5) = (of_nat (n div 2 mod 5) :: qword_t)"
    using word_of_int_nat [of "n div 2 mod 5"]
    by (simp only: s) (simp add: signed_modulo_int_def signed_divide_int_def sgn_if zmod_int zdiv_int minus_div_mult_eq_mod)
  have l: "ucast (ucast (v AND 1) :: word_t) = (of_nat (n mod 2) :: qword_t)"
  proof -
    have "unat (v AND 1) = n mod 2" unfolding unsigned_and_eq unsigned_1 n by (rule and_one_eq)
    then have "v AND 1 = of_nat (n mod 2)" by (metis of_nat_unat ucast_id)
    then show ?thesis by (cases "even n") (simp_all only: even_iff_mod_2_eq_zero odd_iff_mod_2_eq_one, simp_all)
  qed
  have "n div 2 mod 5 * 2 + n mod 2 = n mod 10" using mod_mult2_eq [of n 2 5] by simp
  then have e: "(of_nat (n div 2 mod 5) * 2 + of_nat (n mod 2) :: qword_t) = of_nat (n mod 10)"
    by (metis of_nat_add of_nat_mult of_nat_numeral)
  have "ucast (of_nat (n mod 10) + 48 :: qword_t) = (of_nat (n mod 10) + 48 :: word_t)"
    using ucast_nat32 [of "n mod 10 + 48"] by simp
  then show ?thesis using put_char_digit [of "n mod 10"] unfolding lowdigit_def Let_def d v q m l e by simp
qed

lemma HIBITL_unat: "unat HIBITL = 2 ^ 63" by (simp add: HIBITL_def)

lemma and_HIBITL: "val AND HIBITL \<noteq> 0 \<longleftrightarrow> 2 ^ 63 \<le> unat val"
proof -
  have "val AND HIBITL \<noteq> 0 \<longleftrightarrow> bit val 63"
    using bit_eq_iff [of "val AND HIBITL" 0] by (simp add: bit_and_iff bit_HIBITL)
  also have "\<dots> \<longleftrightarrow> odd (unat val div 2 ^ 63)" 
    unfolding bit_iff_odd [of "unat val" 63, symmetric] by (simp add: bit_unsigned_iff)
  also have "\<dots> \<longleftrightarrow> 2 ^ 63 \<le> unat val"
  proof -
    have "unat val < 2 ^ LENGTH(64)" by (rule unsigned_less)
    then have "unat val div 2 ^ 63 < 2" by simp
    then show ?thesis by (auto simp: odd_iff_mod_2_eq_one less_2_cases_iff div_eq_0_iff)
  qed
  finally show ?thesis .
qed

lemma dec_digits_rec: "10 \<le> n \<Longrightarrow> dec_digits n = dec_digits (n div 10) @ [48 + n mod 10]"
  by (subst dec_digits.simps) simp

lemma conv_unsigned_digits: "conv_unsigned v = ([], 0, dec_digits (unat v))"
proof (cases "2 ^ 63 \<le> unat v")
  case True
  have "unat v < 2 ^ LENGTH(64)" by (rule unsigned_less)
  then have "unat v div 10 < 2 ^ 63" by simp
  then show ?thesis using True decimal_digits [of "unat v div 10"] dec_digits_rec [of "unat v"]
    by (simp add: conv_unsigned_def and_HIBITL lowdigit_nat [OF refl])
next
  case False
  then show ?thesis using decimal_digits [of "unat v"]
    by (simp add: conv_unsigned_def and_HIBITL)
qed

lemma conv_signed_digits:
  "conv_signed v = (if sint v < 0 then [45] else [], 0, dec_digits (nat \<bar>sint v\<bar>))"
proof -
  have r: "- (2 ^ 63) \<le> sint v" "sint v < 2 ^ 63" using sint_greater_eq [of v] sint_less [of v] by simp_all
  have v: "v = word_of_int (sint v)" by simp
  consider "0 \<le> sint v" | "sint v < 0" "sint v \<noteq> - (2 ^ 63)" | "sint v = - (2 ^ 63)" by linarith
  then show ?thesis
  proof cases
    case 1
    then have "v = of_nat (nat (sint v))" using word_of_int_nat [of "nat (sint v)"] by simp
    then show ?thesis using 1 r decimal_digits [of "nat (sint v)" "[]"]
      by (simp add: conv_signed_def word_sless_alt)
  next
    case 2
    have "v \<noteq> HIBITL" using 2(2) by (auto simp: HIBITL_def)
    moreover have "- v = of_nat (nat (- sint v))" using 2 word_of_int_nat [of "nat (- sint v)"] by simp
    ultimately show ?thesis using 2 r decimal_digits [of "nat (- sint v)" "[]"]
      by (simp add: conv_signed_def word_sless_alt)
  next
    case 3
    have "sint HIBITL = - (2 ^ 63)" by (simp add: HIBITL_def)
    then have "v = HIBITL" using 3 by (metis of_int_sint scast_id)
    then show ?thesis using 3 decimal_digits [of "2 ^ 63 div 10"] dec_digits_rec [of "2 ^ 63"]
      by (simp add: conv_signed_def word_sless_alt lowdigit_nat [OF HIBITL_unat])
  qed
qed

lemma dec_digits_valid:
  "ch \<in> set (dec_digits n) \<Longrightarrow> valid_digit 10 ch" "digits_val 10 0 (dec_digits n) = n"
proof -
  have v: "digit_val ch = Some (ch - 48) \<and> ch - 48 < 10" if "ch \<in> set (dec_digits n)" for ch
    using dec_digits_isdigit [OF that] by (auto simp: digit_val_def isdigit_def)
  then show "ch \<in> set (dec_digits n) \<Longrightarrow> valid_digit 10 ch" by (auto simp: valid_digitE)
  have "digits_val 10 0 (dec_digits n) = foldl (\<lambda>n d. n * 10 + of_nat (d - 48)) 0 (dec_digits n)"
    using v by (simp add: digits_val_foldl [where f = "\<lambda>d. d - 48"])
  then show "digits_val 10 0 (dec_digits n) = n" using foldl_dec_digits [of n, where 'a = nat] by simp
qed

text \<open>The hexadecimal digits, of either case.\<close>

lemma hex_tab:
  assumes "n < 16" "tab \<in> {lower_tab, upper_tab}"
  shows "digit_val (of_char (tab ! n)) = Some n" "of_char (tab ! n) \<noteq> (120 :: nat)" "of_char (tab ! n) \<noteq> (88 :: nat)"
proof -
  have h: "\<forall>n \<in> {0..<16}. \<forall>tab \<in> {lower_tab, upper_tab}. digit_val (of_char (tab ! n)) = Some n \<and>
      of_char (tab ! n) \<noteq> (120 :: nat) \<and> of_char (tab ! n) \<noteq> (88 :: nat)"
    by code_simp
  then show "digit_val (of_char (tab ! n)) = Some n" "of_char (tab ! n) \<noteq> (120 :: nat)" "of_char (tab ! n) \<noteq> (88 :: nat)"
    using bspec [OF bspec [OF h, of n] assms(2)] assms(1) by simp_all
qed

lemma radix_loop_digits:
  assumes tab: "tab \<in> {lower_tab, upper_tab}"
  shows "\<exists>ds. radix_loop tab 15 3 q acc = ds @ acc \<and> ds \<noteq> [] \<and> digits_val 16 0 ds = unat q \<and>
    (\<forall>ch \<in> set ds. valid_digit 16 ch \<and> ch \<noteq> 120 \<and> ch \<noteq> 88)"
proof (induction "unat q" arbitrary: q acc rule: less_induct)
  case less
  let ?d = "of_char (tab ! unat (q AND 15)) :: nat"
  have m: "(15 :: qword_t) = mask 4" by (simp add: mask_eq_decr_exp)
  have u: "unat (q AND 15) = unat q mod 16" 
    unfolding m take_bit_eq_mask [symmetric] unsigned_take_bit_eq by (simp add: take_bit_eq_mod)
  have q: "unat (next_radix 3 q) = unat q div 16" unfolding next_radix_drop unat_drop_bit_eq by (simp add: drop_bit_eq_div)
  have d: "digit_val ?d = Some (unat q mod 16)" "?d \<noteq> 120" "?d \<noteq> 88"
    using hex_tab [of "unat q mod 16" tab] tab by (simp_all add: u)
  show ?case
  proof (cases "next_radix 3 q = 0")
    case True
    then have "unat q mod 16 = unat q" using q by simp
    then show ?thesis using True d by (subst radix_loop.simps) (auto simp: Let_def valid_digitE intro: exI [of _ "[?d]"])
  next
    case False
    then have "unat q div 16 \<noteq> 0" using q by (metis unat_eq_0)
    then obtain ds where ds: "radix_loop tab 15 3 (next_radix 3 q) (?d # acc) = ds @ ?d # acc"
      "digits_val 16 0 ds = unat q div 16" "\<forall>ch \<in> set ds. valid_digit 16 ch \<and> ch \<noteq> 120 \<and> ch \<noteq> 88"
      using less.hyps [of "next_radix 3 q" "?d # acc"] q by auto
    have "radix_loop tab 15 3 q acc = (ds @ [?d]) @ acc" using ds(1) False by (subst radix_loop.simps) (simp add: Let_def)
    moreover have "digits_val 16 0 (ds @ [?d]) = unat q" using ds(2) d(1) by (simp add: digits_val_append)
    moreover have "\<forall>ch \<in> set (ds @ [?d]). valid_digit 16 ch \<and> ch \<noteq> 120 \<and> ch \<noteq> 88" using ds(3) d by (auto simp: valid_digitE)
    ultimately show ?thesis by blast
  qed
qed

section \<open>Properties\<close>

lemma myvsprintf_long:
  "myvsprintf sprintf (cstr_of ''%ld'') [VLong v] = Some (case conv_signed v of (pre, z, bp) \<Rightarrow> pre @ replicate z 48 @ bp)"
  "myvsprintf sprintf (cstr_of ''%lu'') [VLong v] = Some (case conv_unsigned v of (pre, z, bp) \<Rightarrow> pre @ replicate z 48 @ bp)"
  "myvsprintf sprintf (cstr_of ''%lx'') [VLong v] = Some (case conv_radix 120 15 3 v of (pre, z, bp) \<Rightarrow> pre @ replicate z 48 @ bp)"
  by (simp_all add: myvsprintf_def cstr_of_def is_letter_def convert_def emit_def isdigit_def split: prod.split)

text \<open>
  C24: what \<open>myvsprintf()\<close> prints for a 64-bit value in signed, unsigned and hexadecimal
  notation is read back by \<open>myatosq()\<close> and \<open>myatoq()\<close> to the last character, the least
  signed value included, for which alone \<open>errno\<close> reports a range error.
\<close>

theorem print_read_roundtrip:
  "(\<exists>out. myvsprintf sprintf (cstr_of ''%ld'') [VLong v] = Some out \<and>
      myatosq out 10 = Some (v, [], Some (if v = LL_MIN then ERANGE else ENONE))) \<and>
   (\<exists>out. myvsprintf sprintf (cstr_of ''%lu'') [VLong v] = Some out \<and> myatoq out 10 = Some (v, [], Some ENONE)) \<and>
   (\<exists>out. myvsprintf sprintf (cstr_of ''%lx'') [VLong v] = Some out \<and> myatoq out 16 = Some (v, [], Some ENONE))"
proof (intro conjI)
  have end0: "\<not> valid_digit b (cur [])" for b by (simp add: valid_digitE digit_val_def isdigit_def isalpha_def isupper_def islower_def)
  have "unat v < 2 ^ LENGTH(64)" by (rule unsigned_less)
  then have u: "unat v < 2 ^ 64" by simp
  show "\<exists>out. myvsprintf sprintf (cstr_of ''%lu'') [VLong v] = Some out \<and> myatoq out 10 = Some (v, [], Some ENONE)"
    using myatoq_digits [of 10 "dec_digits (unat v)" "[]" 10] u end0
    by (simp add: myvsprintf_long conv_unsigned_digits dec_digits_valid num_base_def)
  show "\<exists>out. myvsprintf sprintf (cstr_of ''%ld'') [VLong v] = Some out \<and>
      myatosq out 10 = Some (v, [], Some (if v = LL_MIN then ERANGE else ENONE))"
  proof -
    let ?sg = "if sint v < 0 then [45] else []" and ?n = "nat \<bar>sint v\<bar>"
    have r: "- (2 ^ 63) \<le> sint v" "sint v < 2 ^ 63" using sint_greater_eq [of v] sint_less [of v] by simp_all
    have mi: "sint LL_MIN = - (2 ^ 63)" by (simp add: LL_MIN_def LL_MAX_def)
    have "v = LL_MIN \<longleftrightarrow> \<not> ?n < 2 ^ 63"
    proof
      show "v = LL_MIN \<Longrightarrow> \<not> ?n < 2 ^ 63" using mi by simp
      assume "\<not> ?n < 2 ^ 63"
      then have "sint v = sint LL_MIN" using r unfolding mi by simp
      then show "v = LL_MIN" by (metis of_int_sint scast_id)
    qed
    moreover have "v = (if ?sg = [45] then - of_nat ?n else of_nat ?n)" using word_of_int_nat [of ?n] by auto
    ultimately show ?thesis
      using myatosq_digits [of ?sg 10 "dec_digits ?n" "[]" 10] end0 mi
      by (auto simp: myvsprintf_long conv_signed_digits dec_digits_valid num_base_def split: if_splits)
  qed
  show "\<exists>out. myvsprintf sprintf (cstr_of ''%lx'') [VLong v] = Some out \<and> myatoq out 16 = Some (v, [], Some ENONE)"
  proof (cases "v = 0")
    case True
    have "myatoq [48] 16 = Some (0, [], Some ENONE)" by code_simp
    then show ?thesis using True by (simp add: myvsprintf_long conv_radix_def)
  next
    case False
    obtain ds where ds: "radix_loop lower_tab 15 3 v [] = ds" "ds \<noteq> []" "digits_val 16 0 ds = unat v"
      "\<forall>ch \<in> set ds. valid_digit 16 ch \<and> ch \<noteq> 120 \<and> ch \<noteq> 88"
      using radix_loop_digits [of lower_tab v "[]"] by auto
    have "\<not> hex_prefix ds"
    proof (cases "tl ds")
      case (Cons c cs)
      then have "c \<in> set ds" by (metis list.set_intros(1) list.set_sel(2) list.sel(2) list.distinct(1))
      then have "toupper c \<noteq> 88" using ds(4) by (auto simp: toupper_def islower_def)
      then show ?thesis using Cons by (simp add: hex_prefix_def)
    qed (simp add: hex_prefix_def toupper_def islower_def)
    then show ?thesis using False ds u myatoq_digits [of 16 ds "[]" 16] end0
      by (simp add: myvsprintf_long conv_radix_def num_base_def)
  qed
qed

end
