(* ===== verification/Eval.thy ===== *)
theory Eval
  imports Misc_Num
begin

text \<open>
  The expression evaluator of eval.c: the tokenizer with its one token of look-ahead, the
  values with their arithmetic conversions, and the recursive descent parser that computes
  while it parses.  Characters are taken as unsigned.  The floating point arithmetic and
  \<open>strtod()\<close>, the width of \<open>long\<close> and whether the division of the least integer by \<open>-1\<close>
  traps are the host's, a parameter; other signed overflows wrap around.
\<close>

section \<open>Values\<close>

datatype eval_type_t = et_int | et_uint | et_addr | et_qword | et_sqword | et_float | et_double | et_symbol

datatype ('f, 'd) eval_value_t =
    as_int word_t | as_uint word_t | as_addr md_addr_t | as_qword qword_t | as_sqword qword_t
  | as_float 'f | as_double 'd | as_symbol cstr

fun val_type :: "('f, 'd) eval_value_t \<Rightarrow> eval_type_t" where
  "val_type (as_int i) = et_int"
| "val_type (as_uint i) = et_uint"
| "val_type (as_addr i) = et_addr"
| "val_type (as_qword i) = et_qword"
| "val_type (as_sqword i) = et_sqword"
| "val_type (as_float f) = et_float"
| "val_type (as_double d) = et_double"
| "val_type (as_symbol s) = et_symbol"

datatype eval_err_t = ERR_NOERR | ERR_UPAREN | ERR_NOTERM | ERR_DIV0 | ERR_BADCONST | ERR_BADEXPR
  | ERR_UNDEFVAR | ERR_EXTRA

definition err_value :: "('f, 'd) eval_value_t" where "err_value = as_int 0"

text \<open>What the evaluator uses of the host.\<close>

record ('f, 'd) host_t =
  long_bits :: nat
  div_traps :: bool
  d_add :: "'d \<Rightarrow> 'd \<Rightarrow> 'd"
  d_sub :: "'d \<Rightarrow> 'd \<Rightarrow> 'd"
  d_mul :: "'d \<Rightarrow> 'd \<Rightarrow> 'd"
  d_div :: "'d \<Rightarrow> 'd \<Rightarrow> 'd"
  d_neg :: "'d \<Rightarrow> 'd"
  d_zero :: "'d \<Rightarrow> bool"
  d_of_int :: "int \<Rightarrow> 'd"
  d_of_f :: "'f \<Rightarrow> 'd"
  d_int :: "'d \<Rightarrow> int"
  f_plus :: "'f \<Rightarrow> 'f \<Rightarrow> 'f"
  f_minus :: "'f \<Rightarrow> 'f \<Rightarrow> 'f"
  f_times :: "'f \<Rightarrow> 'f \<Rightarrow> 'f"
  f_over :: "'f \<Rightarrow> 'f \<Rightarrow> 'f"
  f_negate :: "'f \<Rightarrow> 'f"
  f_zero :: "'f \<Rightarrow> bool"
  f_of_int :: "int \<Rightarrow> 'f"
  f_of_d :: "'d \<Rightarrow> 'f"
  f_int :: "'f \<Rightarrow> int"
  strtod :: "cstr \<Rightarrow> 'd option"

text \<open>The type of a result, a panic for symbols.\<close>

definition result_type :: "eval_type_t \<Rightarrow> eval_type_t \<Rightarrow> eval_type_t option" where
  "result_type t1 t2 =
     (if t1 = et_symbol \<or> t2 = et_symbol then None
      else if t1 = et_double \<or> t2 = et_double then Some et_double
      else if t1 = et_float \<or> t2 = et_float then Some et_float
      else if t1 = et_qword \<or> t2 = et_qword then Some et_qword
      else if t1 = et_sqword \<or> t2 = et_sqword then Some et_sqword
      else if t1 = et_addr \<or> t2 = et_addr then Some et_addr
      else if t1 = et_uint \<or> t2 = et_uint then Some et_uint
      else Some et_int)"

text \<open>A floating point value that the integer type cannot hold has no defined conversion.\<close>

definition in_range :: "int \<Rightarrow> int \<Rightarrow> int \<Rightarrow> int option" where
  "in_range lo hi i = (if lo \<le> i \<and> i < hi then Some i else None)"

fun eval_as_double :: "('f, 'd) host_t \<Rightarrow> ('f, 'd) eval_value_t \<Rightarrow> 'd option" where
  "eval_as_double h (as_double d) = Some d"
| "eval_as_double h (as_float f) = Some (d_of_f h f)"
| "eval_as_double h (as_qword q) = Some (d_of_int h (uint q))"
| "eval_as_double h (as_sqword q) = Some (d_of_int h (sint q))"
| "eval_as_double h (as_addr a) = Some (d_of_int h (uint a))"
| "eval_as_double h (as_uint i) = Some (d_of_int h (uint i))"
| "eval_as_double h (as_int i) = Some (d_of_int h (sint i))"
| "eval_as_double h (as_symbol s) = None"

fun eval_as_float :: "('f, 'd) host_t \<Rightarrow> ('f, 'd) eval_value_t \<Rightarrow> 'f option" where
  "eval_as_float h (as_double d) = Some (f_of_d h d)"
| "eval_as_float h (as_float f) = Some f"
| "eval_as_float h (as_qword q) = Some (f_of_int h (uint q))"
| "eval_as_float h (as_sqword q) = Some (f_of_int h (sint q))"
| "eval_as_float h (as_addr a) = Some (f_of_int h (uint a))"
| "eval_as_float h (as_uint i) = Some (f_of_int h (uint i))"
| "eval_as_float h (as_int i) = Some (f_of_int h (sint i))"
| "eval_as_float h (as_symbol s) = None"

fun eval_as_qword :: "('f, 'd) host_t \<Rightarrow> ('f, 'd) eval_value_t \<Rightarrow> qword_t option" where
  "eval_as_qword h (as_double d) = map_option word_of_int (in_range 0 (2 ^ 64) (d_int h d))"
| "eval_as_qword h (as_float f) = map_option word_of_int (in_range 0 (2 ^ 64) (f_int h f))"
| "eval_as_qword h (as_qword q) = Some q"
| "eval_as_qword h (as_sqword q) = Some q"
| "eval_as_qword h (as_addr a) = Some (ucast a)"
| "eval_as_qword h (as_uint i) = Some (ucast i)"
| "eval_as_qword h (as_int i) = Some (scast i)"
| "eval_as_qword h (as_symbol s) = None"

fun eval_as_sqword :: "('f, 'd) host_t \<Rightarrow> ('f, 'd) eval_value_t \<Rightarrow> qword_t option" where
  "eval_as_sqword h (as_double d) = map_option word_of_int (in_range (- (2 ^ 63)) (2 ^ 63) (d_int h d))"
| "eval_as_sqword h (as_float f) = map_option word_of_int (in_range (- (2 ^ 63)) (2 ^ 63) (f_int h f))"
| "eval_as_sqword h (as_qword q) = Some q"
| "eval_as_sqword h (as_sqword q) = Some q"
| "eval_as_sqword h (as_addr a) = Some (ucast a)"
| "eval_as_sqword h (as_uint i) = Some (ucast i)"
| "eval_as_sqword h (as_int i) = Some (scast i)"
| "eval_as_sqword h (as_symbol s) = None"

fun eval_as_addr :: "('f, 'd) host_t \<Rightarrow> ('f, 'd) eval_value_t \<Rightarrow> md_addr_t option" where
  "eval_as_addr h (as_double d) = map_option word_of_int (in_range 0 (2 ^ 32) (d_int h d))"
| "eval_as_addr h (as_float f) = map_option word_of_int (in_range 0 (2 ^ 32) (f_int h f))"
| "eval_as_addr h (as_qword q) = Some (ucast q)"
| "eval_as_addr h (as_sqword q) = Some (ucast q)"
| "eval_as_addr h (as_addr a) = Some a"
| "eval_as_addr h (as_uint i) = Some i"
| "eval_as_addr h (as_int i) = Some i"
| "eval_as_addr h (as_symbol s) = None"

fun eval_as_uint :: "('f, 'd) host_t \<Rightarrow> ('f, 'd) eval_value_t \<Rightarrow> word_t option" where
  "eval_as_uint h (as_double d) = map_option word_of_int (in_range 0 (2 ^ 32) (d_int h d))"
| "eval_as_uint h (as_float f) = map_option word_of_int (in_range 0 (2 ^ 32) (f_int h f))"
| "eval_as_uint h (as_qword q) = Some (ucast q)"
| "eval_as_uint h (as_sqword q) = Some (ucast q)"
| "eval_as_uint h (as_addr a) = Some a"
| "eval_as_uint h (as_uint i) = Some i"
| "eval_as_uint h (as_int i) = Some i"
| "eval_as_uint h (as_symbol s) = None"

fun eval_as_int :: "('f, 'd) host_t \<Rightarrow> ('f, 'd) eval_value_t \<Rightarrow> word_t option" where
  "eval_as_int h (as_double d) = map_option word_of_int (in_range (- (2 ^ 31)) (2 ^ 31) (d_int h d))"
| "eval_as_int h (as_float f) = map_option word_of_int (in_range (- (2 ^ 31)) (2 ^ 31) (f_int h f))"
| "eval_as_int h (as_qword q) = Some (ucast q)"
| "eval_as_int h (as_sqword q) = Some (ucast q)"
| "eval_as_int h (as_addr a) = Some a"
| "eval_as_int h (as_uint i) = Some i"
| "eval_as_int h (as_int i) = Some i"
| "eval_as_int h (as_symbol s) = None"

section \<open>Arithmetic\<close>

text \<open>
  The four binary operations share their shape: a symbol is an error, any other pair of
  operands is converted to the type of the result and computed there, \<open>u\<close> and \<open>s\<close> being the
  unsigned and the signed operation at both widths.  The second component of a result is
  the error it sets.
\<close>

record ops_t =
  o_q :: "qword_t \<Rightarrow> qword_t \<Rightarrow> qword_t option"
  o_sq :: "qword_t \<Rightarrow> qword_t \<Rightarrow> qword_t option"
  o_u :: "word_t \<Rightarrow> word_t \<Rightarrow> word_t option"
  o_s :: "word_t \<Rightarrow> word_t \<Rightarrow> word_t option"

definition f_arith :: "('f, 'd) host_t \<Rightarrow> ('d \<Rightarrow> 'd \<Rightarrow> 'd) \<Rightarrow> ('f \<Rightarrow> 'f \<Rightarrow> 'f) \<Rightarrow> ops_t \<Rightarrow>
    ('f, 'd) eval_value_t \<Rightarrow> ('f, 'd) eval_value_t \<Rightarrow> (('f, 'd) eval_value_t \<times> eval_err_t) option" where
  "f_arith h dop fop ops val1 val2 =
     (if val_type val1 = et_symbol \<or> val_type val2 = et_symbol then Some (err_value, ERR_BADEXPR)
      else do {
        et \<leftarrow> result_type (val_type val1) (val_type val2);
        v \<leftarrow> (case et of
            et_double \<Rightarrow> do { a \<leftarrow> eval_as_double h val1; b \<leftarrow> eval_as_double h val2; Some (as_double (dop a b)) }
          | et_float \<Rightarrow> do { a \<leftarrow> eval_as_float h val1; b \<leftarrow> eval_as_float h val2; Some (as_float (fop a b)) }
          | et_qword \<Rightarrow> do { a \<leftarrow> eval_as_qword h val1; b \<leftarrow> eval_as_qword h val2; map_option as_qword (o_q ops a b) }
          | et_sqword \<Rightarrow> do { a \<leftarrow> eval_as_sqword h val1; b \<leftarrow> eval_as_sqword h val2; map_option as_sqword (o_sq ops a b) }
          | et_addr \<Rightarrow> do { a \<leftarrow> eval_as_addr h val1; b \<leftarrow> eval_as_addr h val2; map_option as_addr (o_u ops a b) }
          | et_uint \<Rightarrow> do { a \<leftarrow> eval_as_uint h val1; b \<leftarrow> eval_as_uint h val2; map_option as_uint (o_u ops a b) }
          | et_int \<Rightarrow> do { a \<leftarrow> eval_as_int h val1; b \<leftarrow> eval_as_int h val2; map_option as_int (o_s ops a b) }
          | et_symbol \<Rightarrow> None);
        Some (v, ERR_NOERR) })"

definition plus_ops :: ops_t where
  "plus_ops = \<lparr>o_q = \<lambda>a b. Some (a + b), o_sq = \<lambda>a b. Some (a + b), o_u = \<lambda>a b. Some (a + b), o_s = \<lambda>a b. Some (a + b)\<rparr>"
definition minus_ops :: ops_t where
  "minus_ops = \<lparr>o_q = \<lambda>a b. Some (a - b), o_sq = \<lambda>a b. Some (a - b), o_u = \<lambda>a b. Some (a - b), o_s = \<lambda>a b. Some (a - b)\<rparr>"
definition times_ops :: ops_t where
  "times_ops = \<lparr>o_q = \<lambda>a b. Some (a * b), o_sq = \<lambda>a b. Some (a * b), o_u = \<lambda>a b. Some (a * b), o_s = \<lambda>a b. Some (a * b)\<rparr>"

text \<open>Signed division truncates; the one quotient that does not fit may trap.\<close>

definition div_signed :: "bool \<Rightarrow> 'a :: len word \<Rightarrow> 'a word \<Rightarrow> 'a word option" where
  "div_signed traps a b =
     (if b = 0 \<or> traps \<and> sint a = - (2 ^ (LENGTH('a) - 1)) \<and> sint b = - 1 then None
      else Some (word_of_int (sint a sdiv sint b)))"

definition div_unsigned :: "'a :: len word \<Rightarrow> 'a word \<Rightarrow> 'a word option" where
  "div_unsigned a b = (if b = 0 then None else Some (a div b))"

definition div_ops :: "bool \<Rightarrow> ops_t" where
  "div_ops traps = \<lparr>o_q = div_unsigned, o_sq = div_signed traps, o_u = div_unsigned, o_s = div_signed traps\<rparr>"

definition f_add :: "('f, 'd) host_t \<Rightarrow> ('f, 'd) eval_value_t \<Rightarrow> ('f, 'd) eval_value_t \<Rightarrow> (('f, 'd) eval_value_t \<times> eval_err_t) option" where
  "f_add h = f_arith h (d_add h) (f_plus h) plus_ops"
definition f_sub :: "('f, 'd) host_t \<Rightarrow> ('f, 'd) eval_value_t \<Rightarrow> ('f, 'd) eval_value_t \<Rightarrow> (('f, 'd) eval_value_t \<times> eval_err_t) option" where
  "f_sub h = f_arith h (d_sub h) (f_minus h) minus_ops"
definition f_mult :: "('f, 'd) host_t \<Rightarrow> ('f, 'd) eval_value_t \<Rightarrow> ('f, 'd) eval_value_t \<Rightarrow> (('f, 'd) eval_value_t \<times> eval_err_t) option" where
  "f_mult h = f_arith h (d_mul h) (f_times h) times_ops"
definition f_div :: "('f, 'd) host_t \<Rightarrow> ('f, 'd) eval_value_t \<Rightarrow> ('f, 'd) eval_value_t \<Rightarrow> (('f, 'd) eval_value_t \<times> eval_err_t) option" where
  "f_div h = f_arith h (d_div h) (f_over h) (div_ops (div_traps h))"

text \<open>Negation promotes what its type cannot hold.\<close>

fun f_neg :: "('f, 'd) host_t \<Rightarrow> ('f, 'd) eval_value_t \<Rightarrow> ('f, 'd) eval_value_t \<times> eval_err_t" where
  "f_neg h (as_symbol s) = (err_value, ERR_BADEXPR)"
| "f_neg h (as_double d) = (as_double (d_neg h d), ERR_NOERR)"
| "f_neg h (as_float f) = (as_float (f_negate h f), ERR_NOERR)"
| "f_neg h (as_qword q) = (as_sqword (- q), ERR_NOERR)"
| "f_neg h (as_sqword q) = (as_sqword (- q), ERR_NOERR)"
| "f_neg h (as_addr a) = (as_addr (- a), ERR_NOERR)"
| "f_neg h (as_uint i) =
     (if i > 2147483648 then as_sqword (- ucast i) else as_int (- i), ERR_NOERR)"
| "f_neg h (as_int i) = (if i = 0x80000000 then as_uint 2147483648 else as_int (- i), ERR_NOERR)"

fun f_eq_zero :: "('f, 'd) host_t \<Rightarrow> ('f, 'd) eval_value_t \<Rightarrow> bool \<times> eval_err_t" where
  "f_eq_zero h (as_symbol s) = (False, ERR_BADEXPR)"
| "f_eq_zero h (as_double d) = (d_zero h d, ERR_NOERR)"
| "f_eq_zero h (as_float f) = (f_zero h f, ERR_NOERR)"
| "f_eq_zero h (as_qword q) = (q = 0, ERR_NOERR)"
| "f_eq_zero h (as_sqword q) = (q = 0, ERR_NOERR)"
| "f_eq_zero h (as_addr a) = (a = 0, ERR_NOERR)"
| "f_eq_zero h (as_uint i) = (i = 0, ERR_NOERR)"
| "f_eq_zero h (as_int i) = (i = 0, ERR_NOERR)"

section \<open>Tokens\<close>

datatype eval_token_t = tok_ident | tok_const | tok_plus | tok_minus | tok_mult | tok_div
  | tok_oparen | tok_cparen | tok_eof | tok_whitespace | tok_invalid

definition tok_map :: "nat \<Rightarrow> eval_token_t" where
  "tok_map c =
     (if islower c \<or> isupper c \<or> c = 95 \<or> c = 36 then tok_ident
      else if isdigit c \<or> c = 46 then tok_const
      else if c = 43 then tok_plus else if c = 45 then tok_minus
      else if c = 42 then tok_mult else if c = 47 then tok_div
      else if c = 40 then tok_oparen else if c = 41 then tok_cparen
      else if c = 32 \<or> c = 9 then tok_whitespace else tok_invalid)"

text \<open>
  The state of an evaluator, and the global \<open>eval_error\<close>: the pointers are the parts of the
  string they point at.
\<close>

record eval_state_t =
  es_p :: cstr
  es_lastp :: cstr
  tok_buf :: cstr
  peek_tok :: eval_token_t
  eval_error :: eval_err_t

text \<open>The rest of an identifier and of a number, with what follows it.\<close>

definition ident_char :: "nat \<Rightarrow> bool" where
  "ident_char c \<longleftrightarrow> tok_map c = tok_ident \<or> tok_map c = tok_const"

definition const_char :: "nat \<Rightarrow> bool \<Rightarrow> nat \<Rightarrow> bool" where
  "const_char last_char allow_hex c \<longleftrightarrow>
     tok_map c = tok_const \<or> c = 45 \<and> last_char = 101 \<or> c = 43 \<and> last_char = 101
     \<or> tolower c = 101 \<or> tolower c = 120
     \<or> tolower c = 97 \<and> allow_hex \<or> tolower c = 98 \<and> allow_hex \<or> tolower c = 99 \<and> allow_hex
     \<or> tolower c = 100 \<and> allow_hex \<or> tolower c = 101 \<and> allow_hex \<or> tolower c = 102 \<and> allow_hex"

fun const_span :: "nat \<Rightarrow> bool \<Rightarrow> cstr \<Rightarrow> cstr \<times> cstr" where
  "const_span last_char allow_hex [] = ([], [])"
| "const_span last_char allow_hex (c # s) =
     (if const_char last_char allow_hex c
      then (case const_span (tolower c) (allow_hex \<or> c = 120 \<or> c = 88) s of (t, r) \<Rightarrow> (c # t, r))
      else ([], c # s))"

text \<open>The token at the front of a string, its text and the rest of the string.\<close>

definition scan_token :: "cstr \<Rightarrow> eval_token_t \<times> cstr \<times> cstr" where
  "scan_token s =
     (case dropWhile (\<lambda>c. tok_map c = tok_whitespace) s of
        [] \<Rightarrow> (tok_eof, [], [])
      | c # r \<Rightarrow>
          (case tok_map c of
             tok_ident \<Rightarrow> (tok_ident, c # takeWhile ident_char r, dropWhile ident_char r)
           | tok_const \<Rightarrow> (case const_span 0 False r of (t, r1) \<Rightarrow> (tok_const, c # t, r1))
           | t \<Rightarrow> (t, [c], r)))"

text \<open>A token longer than the buffer of 512 characters, its 0 included, overruns it.\<close>

definition get_next_token :: "eval_state_t \<Rightarrow> (eval_token_t \<times> eval_state_t) option" where
  "get_next_token es =
     (if peek_tok es \<noteq> tok_invalid then Some (peek_tok es, es\<lparr>peek_tok := tok_invalid\<rparr>)
      else (case scan_token (es_p es) of (tok, buf, r) \<Rightarrow>
              if length buf \<ge> 512 then None else Some (tok, es\<lparr>es_p := r, tok_buf := buf\<rparr>)))"

definition peek_next_token :: "eval_state_t \<Rightarrow> (eval_token_t \<times> eval_state_t) option" where
  "peek_next_token es =
     (if peek_tok es = tok_invalid then do {
        (tok, es1) \<leftarrow> get_next_token (es\<lparr>es_lastp := es_p es\<rparr>);
        Some (tok, es1\<lparr>peek_tok := tok\<rparr>) }
      else Some (peek_tok es, es))"

section \<open>Constants\<close>

text \<open>
  \<open>strtol()\<close> and \<open>strtoul()\<close> with base 0: the value, the rest and whether it is out of range
  of a \<open>long\<close>; no digits convert nothing.
\<close>

definition strto_parts :: "cstr \<Rightarrow> bool \<times> nat \<times> cstr \<times> cstr" where
  "strto_parts nptr =
     (let s = dropWhile isspace nptr;
          (neg, s1) = (if cur s = 45 then (True, tl s) else if cur s = 43 then (False, tl s) else (False, s));
          (b, s2) = (if hex_prefix s1 \<and> valid_digit 16 (cur (drop 2 s1)) then (16, drop 2 s1)
                     else if cur s1 = 48 then (8, s1) else (10, s1))
      in (neg, b, takeWhile (valid_digit b) s2, dropWhile (valid_digit b) s2))"

definition strtol :: "nat \<Rightarrow> cstr \<Rightarrow> int \<times> cstr \<times> bool" where
  "strtol lb nptr =
     (case strto_parts nptr of (neg, b, ds, r) \<Rightarrow>
        if ds = [] then (0, nptr, False)
        else let v = (if neg then - int (digits_val b 0 ds) else int (digits_val b 0 ds)) in
          if v < - (2 ^ (lb - 1)) then (- (2 ^ (lb - 1)), r, True)
          else if v \<ge> 2 ^ (lb - 1) then (2 ^ (lb - 1) - 1, r, True)
          else (v, r, False))"

definition strtoul :: "nat \<Rightarrow> cstr \<Rightarrow> int \<times> cstr \<times> bool" where
  "strtoul lb nptr =
     (case strto_parts nptr of (neg, b, ds, r) \<Rightarrow>
        if ds = [] then (0, nptr, False)
        else let v = int (digits_val b 0 ds) in
          if v \<ge> 2 ^ lb then (2 ^ lb - 1, r, True)
          else ((if neg then (- v) mod 2 ^ lb else v), r, False))"

text \<open>
  The value of a literal by the first conversion that takes all of it: \<open>int\<close>,
  \<open>unsigned int\<close>, \<open>sqword_t\<close>, \<open>qword_t\<close>, \<open>double\<close>.  The first two go through a \<open>long\<close>.
\<close>

definition eval_constant :: "('f, 'd) host_t \<Rightarrow> cstr \<Rightarrow> (('f, 'd) eval_value_t \<times> eval_err_t) option" where
  "eval_constant h buf =
     (case strtol (long_bits h) buf of (v, endp, erange) \<Rightarrow>
      if \<not> erange \<and> endp = [] then Some (as_int (word_of_int v), ERR_NOERR)
      else (case strtoul (long_bits h) buf of (u, endp, erange) \<Rightarrow>
      if \<not> erange \<and> endp = [] then Some (as_uint (word_of_int u), ERR_NOERR)
      else do {
        (sq, endp, errno) \<leftarrow> myatosq buf 0;
        if errno \<noteq> Some ERANGE \<and> endp = [] then Some (as_sqword sq, ERR_NOERR)
        else do {
          (q, endp, errno) \<leftarrow> myatoq buf 0;
          if errno \<noteq> Some ERANGE \<and> endp = [] then Some (as_qword q, ERR_NOERR)
          else (case strtod h buf of
                  Some d \<Rightarrow> Some (as_double d, ERR_NOERR)
                | None \<Rightarrow> Some (err_value, ERR_BADCONST)) } }))"

section \<open>The parser\<close>

text \<open>Setting the global error, where a function sets one.\<close>

definition set_error :: "eval_err_t \<Rightarrow> eval_state_t \<Rightarrow> eval_state_t" where
  "set_error e es = (if e = ERR_NOERR then es else es\<lparr>eval_error := e\<rparr>)"

datatype rule_t = Factor | Term | Expr

text \<open>
  \<open>factor()\<close>, \<open>term()\<close> and \<open>expr()\<close>, which call each other, are one function of the rule;
  \<open>ident\<close> is the client's evaluator of the identifier in the token buffer.
\<close>

partial_function (option) parse ::
  "('f, 'd) host_t \<Rightarrow> (cstr \<Rightarrow> ('f, 'd) eval_value_t \<times> eval_err_t) \<Rightarrow> rule_t \<Rightarrow> eval_state_t \<Rightarrow>
   (('f, 'd) eval_value_t \<times> eval_state_t) option" where
  "parse h ident rule es =
     (case rule of
        Factor \<Rightarrow> do {
          (tok, es1) \<leftarrow> peek_next_token es;
          (if tok = tok_oparen then do {
             (_, es2) \<leftarrow> get_next_token es1;
             (val, es3) \<leftarrow> parse h ident Expr es2;
             if eval_error es3 \<noteq> ERR_NOERR then Some (err_value, es3)
             else do {
               (tok1, es4) \<leftarrow> peek_next_token es3;
               if tok1 \<noteq> tok_cparen then Some (err_value, es4\<lparr>eval_error := ERR_UPAREN\<rparr>)
               else do { (_, es5) \<leftarrow> get_next_token es4; Some (val, es5) } } }
           else if tok = tok_minus then do {
             (_, es2) \<leftarrow> get_next_token es1;
             (val, es3) \<leftarrow> parse h ident Factor es2;
             if eval_error es3 \<noteq> ERR_NOERR then Some (err_value, es3)
             else (case f_neg h val of (v, e) \<Rightarrow> Some (v, set_error e es3)) }
           else if tok = tok_ident then do {
             (_, es2) \<leftarrow> get_next_token es1;
             (case ident (tok_buf es2) of (v, e) \<Rightarrow>
                let es3 = set_error e es2 in
                if eval_error es3 \<noteq> ERR_NOERR then Some (err_value, es3) else Some (v, es3)) }
           else if tok = tok_const then do {
             (_, es2) \<leftarrow> get_next_token es1;
             (v, e) \<leftarrow> eval_constant h (tok_buf es2);
             (let es3 = set_error e es2 in
              if eval_error es3 \<noteq> ERR_NOERR then Some (err_value, es3) else Some (v, es3)) }
           else Some (err_value, es1\<lparr>eval_error := ERR_NOTERM\<rparr>)) }
      | Term \<Rightarrow> do {
          (val, es1) \<leftarrow> parse h ident Factor es;
          if eval_error es1 \<noteq> ERR_NOERR then Some (err_value, es1)
          else do {
            (tok, es2) \<leftarrow> peek_next_token es1;
            (if tok = tok_mult then do {
               (_, es3) \<leftarrow> get_next_token es2;
               (val1, es4) \<leftarrow> parse h ident Term es3;
               (v, e) \<leftarrow> f_mult h val val1;
               (let es5 = set_error e es4 in
                if eval_error es5 \<noteq> ERR_NOERR then Some (err_value, es5) else Some (v, es5)) }
             else if tok = tok_div then do {
               (_, es3) \<leftarrow> get_next_token es2;
               (val1, es4) \<leftarrow> parse h ident Term es3;
               if eval_error es4 \<noteq> ERR_NOERR then Some (err_value, es4)
               else (case f_eq_zero h val1 of (z, e) \<Rightarrow>
                 let es5 = set_error e es4 in
                 if z then Some (err_value, es5\<lparr>eval_error := ERR_DIV0\<rparr>)
                 else do { (v, e1) \<leftarrow> f_div h val val1; Some (v, set_error e1 es5) }) }
             else Some (val, es2)) } }
      | Expr \<Rightarrow> do {
          (val, es1) \<leftarrow> parse h ident Term es;
          if eval_error es1 \<noteq> ERR_NOERR then Some (err_value, es1)
          else do {
            (tok, es2) \<leftarrow> peek_next_token es1;
            (if tok = tok_plus then do {
               (_, es3) \<leftarrow> get_next_token es2;
               (val1, es4) \<leftarrow> parse h ident Expr es3;
               (v, e) \<leftarrow> f_add h val val1;
               (let es5 = set_error e es4 in
                if eval_error es5 \<noteq> ERR_NOERR then Some (err_value, es5) else Some (v, es5)) }
             else if tok = tok_minus then do {
               (_, es3) \<leftarrow> get_next_token es2;
               (val1, es4) \<leftarrow> parse h ident Expr es3;
               (v, e) \<leftarrow> f_sub h val val1;
               (let es5 = set_error e es4 in
                if eval_error es5 \<noteq> ERR_NOERR then Some (err_value, es5) else Some (v, es5)) }
             else Some (val, es2)) } })"

text \<open>\<open>eval_expr()\<close>: the value, the error and the first character not used.\<close>

definition eval_expr :: "('f, 'd) host_t \<Rightarrow> (cstr \<Rightarrow> ('f, 'd) eval_value_t \<times> eval_err_t) \<Rightarrow> cstr \<Rightarrow>
    (('f, 'd) eval_value_t \<times> eval_err_t \<times> cstr) option" where
  "eval_expr h ident p = do {
     (val, es) \<leftarrow> parse h ident Expr
       \<lparr>es_p = p, es_lastp = [], tok_buf = [], peek_tok = tok_invalid, eval_error = ERR_NOERR\<rparr>;
     Some (val, eval_error es, if peek_tok es \<noteq> tok_invalid then es_lastp es else es_p es) }"

end
