(* ===== verification/Eval_Props.thy ===== *)
theory Eval_Props
  imports Eval "HOL-Library.Sublist"
begin

text \<open>
  The evaluator returns on every expression that fits its token buffer, and computes the
  value of the expression tree its grammar gives, in which every binary operator of one
  level associates to the right.
\<close>

section \<open>Tokens consumed\<close>

lemma const_span_split: "const_span l h s = (t, r) \<Longrightarrow> s = t @ r"
  by (induction l h s arbitrary: t r rule: const_span.induct) (auto split: if_splits prod.splits)

lemma tok_map_div: "tok_map c = tok_div \<longleftrightarrow> c = 47"
  by (auto simp: tok_map_def islower_def isupper_def isdigit_def split: if_splits)

lemma scan_token_split:
  assumes "scan_token s = (tok, buf, r)"
  shows "\<exists>ws. s = ws @ buf @ r" "tok = tok_eof \<Longrightarrow> r = []" "tok \<noteq> tok_eof \<Longrightarrow> buf \<noteq> []"
    "tok = tok_div \<Longrightarrow> 47 \<in> set s"
proof -
  let ?w = "\<lambda>c. tok_map c = tok_whitespace"
  have s: "s = takeWhile ?w s @ dropWhile ?w s" by simp
  have d: "dropWhile ?w s = buf @ r \<and> (tok = tok_eof \<longrightarrow> r = []) \<and> (tok \<noteq> tok_eof \<longrightarrow> buf \<noteq> []) \<and>
      (tok = tok_div \<longrightarrow> 47 \<in> set (dropWhile ?w s))"
  proof (cases "dropWhile ?w s")
    case Nil
    show ?thesis using assms unfolding scan_token_def Nil by auto
  next
    case (Cons c cs)
    obtain t r1 where sp: "const_span 0 False cs = (t, r1)" by force
    have "tok_map c \<noteq> tok_eof" by (simp add: tok_map_def)
    then show ?thesis using assms sp const_span_split [OF sp] tok_map_div [of c] unfolding scan_token_def Cons
      by (cases "tok_map c") auto
  qed
  then show "\<exists>ws. s = ws @ buf @ r" using s by metis
  show "tok = tok_eof \<Longrightarrow> r = []" "tok \<noteq> tok_eof \<Longrightarrow> buf \<noteq> []" using d by simp_all
  show "tok = tok_div \<Longrightarrow> 47 \<in> set s" using d set_dropWhileD by metis
qed

section \<open>The evaluator returns\<close>

text \<open>What the parser needs of a state, and the input it has left.\<close>

definition est_ok :: "cstr \<Rightarrow> bool \<Rightarrow> eval_state_t \<Rightarrow> bool" where
  "est_ok p traps es \<longleftrightarrow> suffix (es_p es) p \<and> (peek_tok es \<noteq> tok_invalid \<longrightarrow> suffix (es_lastp es) p) \<and>
     length (es_p es) < 512 \<and> (peek_tok es = tok_const \<longrightarrow> tok_buf es \<noteq> []) \<and>
     (traps \<longrightarrow> 47 \<notin> set (es_p es) \<and> peek_tok es \<noteq> tok_div)"

definition weight :: "eval_state_t \<Rightarrow> nat" where
  "weight es = 2 * length (es_p es) + (if peek_tok es = tok_invalid \<or> peek_tok es = tok_eof then 0 else 1)"

lemma set_error_simps [simp]:
  "es_p (set_error e es) = es_p es" "peek_tok (set_error e es) = peek_tok es" "tok_buf (set_error e es) = tok_buf es"
  "es_lastp (set_error e es) = es_lastp es"
  by (simp_all add: set_error_def)

lemma est_ok_error [simp]: "est_ok p t (set_error e es) = est_ok p t es" "weight (set_error e es) = weight es"
  "est_ok p t (es\<lparr>eval_error := e\<rparr>) = est_ok p t es" "weight (es\<lparr>eval_error := e\<rparr>) = weight es"
  by (simp_all add: est_ok_def weight_def)

lemma peek_returns:
  assumes "est_ok p tr es"
  obtains tok es1 where "peek_next_token es = Some (tok, es1)" "est_ok p tr es1" "weight es1 \<le> weight es"
    "eval_error es1 = eval_error es" "tok = tok_div \<Longrightarrow> \<not> tr"
    "tok \<noteq> tok_invalid \<Longrightarrow> tok \<noteq> tok_eof \<Longrightarrow> \<exists>es2. get_next_token es1 = Some (tok, es2) \<and> est_ok p tr es2 \<and>
       weight es2 < weight es \<and> eval_error es2 = eval_error es \<and> (tok = tok_const \<longrightarrow> tok_buf es2 \<noteq> [])"
proof (cases "peek_tok es = tok_invalid")
  case False
  then show ?thesis using assms
    by (intro that [of "peek_tok es" es]) (auto simp: peek_next_token_def get_next_token_def est_ok_def weight_def)
next
  case True
  obtain tok buf r where sc: "scan_token (es_p es) = (tok, buf, r)" by (metis prod_cases3)
  obtain ws where s: "es_p es = ws @ buf @ r" using scan_token_split(1) [OF sc] by blast
  note sp = scan_token_split(2-) [OF sc]
  let ?e = "es\<lparr>es_lastp := es_p es, es_p := r, tok_buf := buf, peek_tok := tok\<rparr>"
  have len: "length buf < 512" "length r < 512" using assms s by (auto simp: est_ok_def)
  have suf: "suffix r (es_p es)" using s by (simp add: suffix_def)
  have pk: "peek_next_token es = Some (tok, ?e)"
    using True sc len(1) by (simp add: peek_next_token_def get_next_token_def)
  have ok: "est_ok p tr ?e" using assms sp len s suffix_order.trans [OF suf, of p] by (auto simp: est_ok_def)
  have dv: "tok = tok_div \<Longrightarrow> \<not> tr" using ok by (auto simp: est_ok_def)
  have w: "weight ?e \<le> weight es"
  proof (cases "tok = tok_eof")
    case False
    then have "1 \<le> length buf" using sp(2) by (cases buf) auto
    then show ?thesis using True s by (simp add: weight_def)
  qed (use True s sp in \<open>simp add: weight_def\<close>)
  show ?thesis
  proof (rule that [OF pk ok w _ dv])
    assume t: "tok \<noteq> tok_invalid" "tok \<noteq> tok_eof"
    then have "1 \<le> length buf" using sp(2) by (cases buf) auto
    then show "\<exists>es2. get_next_token ?e = Some (tok, es2) \<and> est_ok p tr es2 \<and> weight es2 < weight es \<and>
        eval_error es2 = eval_error es \<and> (tok = tok_const \<longrightarrow> tok_buf es2 \<noteq> [])"
      using t True s sp ok by (auto simp: get_next_token_def est_ok_def weight_def)
  qed simp
qed

text \<open>The arithmetic is total; division once its divisor has been tested.\<close>

lemma ucast_0_iff [simp]: "(ucast (w :: word_t) :: qword_t) = 0 \<longleftrightarrow> w = 0" "(scast w :: qword_t) = 0 \<longleftrightarrow> w = 0"
proof -
  have "unat w < 2 ^ LENGTH(32)" by (rule unsigned_less)
  then show "(ucast w :: qword_t) = 0 \<longleftrightarrow> w = 0"
    by (simp add: word_unat_eq_iff unsigned_ucast_eq take_bit_nat_eq_self)
  have "bit (scast w :: qword_t) n = bit w n" if "n < LENGTH(32)" for n
    using that by (cases "n = 31") (simp_all add: bit_signed_iff min_def)
  then have "(scast w :: qword_t) = 0 \<Longrightarrow> w = 0" by (intro bit_word_eqI) (metis bit_0_eq bot_apply)
  then show "(scast w :: qword_t) = 0 \<longleftrightarrow> w = 0" by auto
qed

lemma arith_returns:
  "\<exists>v e. f_add h a b = Some (v, e)" "\<exists>v e. f_sub h a b = Some (v, e)" "\<exists>v e. f_mult h a b = Some (v, e)"
  by (cases a; cases b; simp add: f_add_def f_sub_def f_mult_def f_arith_def result_type_def plus_ops_def minus_ops_def times_ops_def)+

lemma div_returns:
  assumes "\<not> div_traps h" "fst (f_eq_zero h b) = False"
  shows "\<exists>v e. f_div h a b = Some (v, e)"
  using assms by (cases a; cases b; simp add: f_div_def f_arith_def result_type_def div_ops_def div_signed_def div_unsigned_def)

lemma if_Some: "(\<exists>x. (if P then A else B) = Some x) = (if P then \<exists>x. A = Some x else \<exists>x. B = Some x)"
  by simp

lemma constant_returns:
  assumes "buf \<noteq> []"
  shows "\<exists>v e. eval_constant h buf = Some (v, e)"
proof -
  have b: "num_base 0 s = 10 \<or> num_base 0 s = 16" for s by (simp add: num_base_def)
  have "\<exists>x. myatosq buf 0 = Some x" using assms b [of "dropWhile isspace buf"]
    by (simp only: myatosq_def Let_def if_Some case_prod_unfold) auto
  moreover have "\<exists>x. myatoq buf 0 = Some x" using assms b [of "dropWhile isspace buf"]
    by (simp only: myatoq_def Let_def if_Some case_prod_unfold) auto
  ultimately show ?thesis by (auto simp: eval_constant_def split: prod.split option.split)
qed

fun rank :: "rule_t \<Rightarrow> nat" where
  "rank Factor = 0" | "rank Term = 1" | "rank Expr = 2"

text \<open>A state reached by consuming input.\<close>

definition reaches :: "cstr \<Rightarrow> bool \<Rightarrow> eval_state_t \<Rightarrow> (('f, 'd) eval_value_t \<times> eval_state_t) option \<Rightarrow> bool" where
  "reaches p tr es r \<longleftrightarrow> (\<exists>v es'. r = Some (v, es') \<and> est_ok p tr es' \<and> weight es' \<le> weight es)"

lemma reaches_Some [simp]: "reaches p tr es (Some (v, es')) \<longleftrightarrow> est_ok p tr es' \<and> weight es' \<le> weight es"
  by (auto simp: reaches_def)

lemma reachesE:
  assumes "reaches p tr es r"
  obtains v es' where "r = Some (v, es')" "est_ok p tr es'" "weight es' \<le> weight es"
  using assms by (auto simp: reaches_def)

lemma parse_factor_returns:
  assumes ok: "est_ok p tr es"
    and rec: "\<And>rule es'. weight es' < weight es \<Longrightarrow> est_ok p tr es' \<Longrightarrow> reaches p tr es' (parse h ident rule es')"
  shows "reaches p tr es (parse h ident Factor es)"
proof -
  obtain tok es1 where p: "peek_next_token es = Some (tok, es1)" "est_ok p tr es1" "weight es1 \<le> weight es"
    "tok \<noteq> tok_invalid \<Longrightarrow> tok \<noteq> tok_eof \<Longrightarrow> \<exists>es2. get_next_token es1 = Some (tok, es2) \<and> est_ok p tr es2 \<and>
       weight es2 < weight es \<and> eval_error es2 = eval_error es \<and> (tok = tok_const \<longrightarrow> tok_buf es2 \<noteq> [])"
    using peek_returns [OF ok] by metis
  show ?thesis
  proof (cases "tok \<in> {tok_oparen, tok_minus, tok_ident, tok_const}")
    case False
    then show ?thesis using p(1-3) by (subst parse.simps) simp
  next
    case True
    then obtain es2 where g: "get_next_token es1 = Some (tok, es2)" "est_ok p tr es2" "weight es2 < weight es"
      "tok = tok_const \<longrightarrow> tok_buf es2 \<noteq> []" using p(4) by auto
    consider "tok = tok_oparen" | "tok = tok_minus" | "tok = tok_ident" | "tok = tok_const" using True by auto
    then show ?thesis
    proof cases
      case 1
      obtain v es3 where r: "parse h ident Expr es2 = Some (v, es3)" "est_ok p tr es3" "weight es3 \<le> weight es2"
        using rec [OF g(3,2)] by (rule reachesE)
      obtain tok1 es4 where p4: "peek_next_token es3 = Some (tok1, es4)" "est_ok p tr es4" "weight es4 \<le> weight es3"
        "tok1 = tok_cparen \<Longrightarrow> \<exists>es5. get_next_token es4 = Some (tok1, es5) \<and> est_ok p tr es5 \<and> weight es5 < weight es3"
        by (rule peek_returns [OF r(2)], rule that) auto
      show ?thesis using 1 p(1) g r p4 by (subst parse.simps) auto
    next
      case 2
      obtain v es3 where r: "parse h ident Factor es2 = Some (v, es3)" "est_ok p tr es3" "weight es3 \<le> weight es2"
        using rec [OF g(3,2)] by (rule reachesE)
      show ?thesis using 2 p(1) g r by (subst parse.simps) (auto split: prod.split)
    next
      case 3
      then show ?thesis using p(1) g by (subst parse.simps) (auto simp: Let_def split: prod.split)
    next
      case 4
      obtain v e where "eval_constant h (tok_buf es2) = Some (v, e)" using constant_returns g(4) 4 by metis
      then show ?thesis using 4 p(1) g by (subst parse.simps) (auto simp: Let_def)
    qed
  qed
qed

lemma parse_term_returns:
  assumes ok: "est_ok p (div_traps h) es"
    and fac: "reaches p (div_traps h) es (parse h ident Factor es)"
    and rec: "\<And>es'. weight es' < weight es \<Longrightarrow> est_ok p (div_traps h) es' \<Longrightarrow> reaches p (div_traps h) es' (parse h ident Term es')"
  shows "reaches p (div_traps h) es (parse h ident Term es)"
proof -
  obtain val es1 where f: "parse h ident Factor es = Some (val, es1)" "est_ok p (div_traps h) es1" "weight es1 \<le> weight es"
    using fac by (rule reachesE)
  obtain tok es2 where p: "peek_next_token es1 = Some (tok, es2)" "est_ok p (div_traps h) es2" "weight es2 \<le> weight es1"
    "tok = tok_div \<Longrightarrow> \<not> div_traps h"
    "tok \<in> {tok_mult, tok_div} \<Longrightarrow> \<exists>es3. get_next_token es2 = Some (tok, es3) \<and> est_ok p (div_traps h) es3 \<and> weight es3 < weight es1"
    by (rule peek_returns [OF f(2)], rule that) auto
  show ?thesis
  proof (cases "tok \<in> {tok_mult, tok_div}")
    case False
    then show ?thesis using f p(1-3) by (subst parse.simps) auto
  next
    case True
    then obtain es3 where g: "get_next_token es2 = Some (tok, es3)" "est_ok p (div_traps h) es3" "weight es3 < weight es1"
      using p(5) by auto
    have "weight es3 < weight es" using g(3) f(3) by simp
    then obtain val1 es4 where r: "parse h ident Term es3 = Some (val1, es4)" "est_ok p (div_traps h) es4" "weight es4 \<le> weight es3"
      using rec [OF _ g(2)] by (auto elim: reachesE)
    have w: "weight es4 \<le> weight es" "weight es2 \<le> weight es" using r g f p by simp_all
    show ?thesis
    proof (cases "tok = tok_mult")
      case mu: True
      obtain v e where "f_mult h val val1 = Some (v, e)" using arith_returns(3) by blast
      then show ?thesis using mu f p(1,2) g r w by (subst parse.simps) (auto simp: Let_def)
    next
      case False
      then have dv: "tok = tok_div" "\<not> div_traps h" using True p(4) by auto
      obtain z e where z: "f_eq_zero h val1 = (z, e)" by force
      show ?thesis
      proof (cases z)
        case True
        then show ?thesis using dv f p(1,2) g r w z by (subst parse.simps) (auto simp: Let_def)
      next
        case zf: False
        obtain v e1 where "f_div h val val1 = Some (v, e1)" using div_returns [OF dv(2), of val1 val] z zf by auto
        then show ?thesis using dv f p(1,2) g r w z zf by (subst parse.simps) (auto simp: Let_def)
      qed
    qed
  qed
qed

lemma parse_expr_returns:
  assumes ok: "est_ok p (div_traps h) es"
    and fac: "reaches p (div_traps h) es (parse h ident Term es)"
    and rec: "\<And>es'. weight es' < weight es \<Longrightarrow> est_ok p (div_traps h) es' \<Longrightarrow> reaches p (div_traps h) es' (parse h ident Expr es')"
  shows "reaches p (div_traps h) es (parse h ident Expr es)"
proof -
  obtain val es1 where f: "parse h ident Term es = Some (val, es1)" "est_ok p (div_traps h) es1" "weight es1 \<le> weight es"
    using fac by (rule reachesE)
  obtain tok es2 where p: "peek_next_token es1 = Some (tok, es2)" "est_ok p (div_traps h) es2" "weight es2 \<le> weight es1"
    "tok \<in> {tok_plus, tok_minus} \<Longrightarrow> \<exists>es3. get_next_token es2 = Some (tok, es3) \<and> est_ok p (div_traps h) es3 \<and> weight es3 < weight es1"
    by (rule peek_returns [OF f(2)], rule that) auto
  show ?thesis
  proof (cases "tok \<in> {tok_plus, tok_minus}")
    case False
    then show ?thesis using f p(1-3) by (subst parse.simps) auto
  next
    case True
    then obtain es3 where g: "get_next_token es2 = Some (tok, es3)" "est_ok p (div_traps h) es3" "weight es3 < weight es1"
      using p(4) by auto
    have "weight es3 < weight es" using g(3) f(3) by simp
    then obtain val1 es4 where r: "parse h ident Expr es3 = Some (val1, es4)" "est_ok p (div_traps h) es4" "weight es4 \<le> weight es3"
      using rec [OF _ g(2)] by (auto elim: reachesE)
    have w: "weight es4 \<le> weight es" "weight es2 \<le> weight es" using r g f p by simp_all
    obtain v e v1 e1 where "f_add h val val1 = Some (v, e)" "f_sub h val val1 = Some (v1, e1)"
      using arith_returns(1,2) by metis
    then show ?thesis using True f p(1,2) g r w by (subst parse.simps) (auto simp: Let_def)
  qed
qed

lemma parse_returns: "est_ok p (div_traps h) es \<Longrightarrow> reaches p (div_traps h) es (parse h ident rule es)"
proof (induction "3 * weight es + rank rule" arbitrary: es rule rule: less_induct)
  case less
  have rank: "rank r \<le> 2" for r by (cases r) auto
  have rec: "reaches p (div_traps h) es' (parse h ident r es')" if "weight es' < weight es" "est_ok p (div_traps h) es'" for es' r
    using less.hyps [of es' r] that rank [of r] by auto
  show ?case
  proof (cases rule)
    case Factor
    then show ?thesis using parse_factor_returns [OF less.prems rec] by blast
  next
    case Term
    have "reaches p (div_traps h) es (parse h ident Factor es)" using less.hyps [of es Factor] less.prems Term by simp
    then show ?thesis using parse_term_returns [OF less.prems _ rec] Term by blast
  next
    case Expr
    have "reaches p (div_traps h) es (parse h ident Term es)" using less.hyps [of es Term] less.prems Expr by simp
    then show ?thesis using parse_expr_returns [OF less.prems _ rec] Expr by blast
  qed
qed

section \<open>Expression trees\<close>

text \<open>The trees of the grammar; a sum has a term on its left and an expression on its right.\<close>

datatype ex = Plain tm | Plus tm ex | Minus tm ex
and tm = Sole fa | Times fa tm | Over fa tm
and fa = Paren ex | Negate fa | Ident cstr | Lit cstr

text \<open>A tree as text, with a blank before each token.\<close>

primrec show_ex :: "ex \<Rightarrow> cstr" and show_tm :: "tm \<Rightarrow> cstr" and show_fa :: "fa \<Rightarrow> cstr" where
  "show_ex (Plain t) = show_tm t"
| "show_ex (Plus t e) = show_tm t @ [32, 43] @ show_ex e"
| "show_ex (Minus t e) = show_tm t @ [32, 45] @ show_ex e"
| "show_tm (Sole f) = show_fa f"
| "show_tm (Times f t) = show_fa f @ [32, 42] @ show_tm t"
| "show_tm (Over f t) = show_fa f @ [32, 47] @ show_tm t"
| "show_fa (Paren e) = [32, 40] @ show_ex e @ [32, 41]"
| "show_fa (Negate f) = [32, 45] @ show_fa f"
| "show_fa (Ident s) = 32 # s"
| "show_fa (Lit s) = 32 # s"

text \<open>Identifiers and literals that are one token.\<close>

definition ident_tok :: "cstr \<Rightarrow> bool" where
  "ident_tok s \<longleftrightarrow> (case s of [] \<Rightarrow> False | c # t \<Rightarrow> tok_map c = tok_ident \<and> (\<forall>x \<in> set t. ident_char x)) \<and> length s < 512"

definition const_tok :: "cstr \<Rightarrow> bool" where
  "const_tok s \<longleftrightarrow> (case s of [] \<Rightarrow> False | c # t \<Rightarrow> tok_map c = tok_const \<and> const_span 0 False t = (t, [])) \<and> length s < 512"

primrec wf_ex :: "ex \<Rightarrow> bool" and wf_tm :: "tm \<Rightarrow> bool" and wf_fa :: "fa \<Rightarrow> bool" where
  "wf_ex (Plain t) = wf_tm t"
| "wf_ex (Plus t e) = (wf_tm t \<and> wf_ex e)"
| "wf_ex (Minus t e) = (wf_tm t \<and> wf_ex e)"
| "wf_tm (Sole f) = wf_fa f"
| "wf_tm (Times f t) = (wf_fa f \<and> wf_tm t)"
| "wf_tm (Over f t) = (wf_fa f \<and> wf_tm t)"
| "wf_fa (Paren e) = wf_ex e"
| "wf_fa (Negate f) = wf_fa f"
| "wf_fa (Ident s) = ident_tok s"
| "wf_fa (Lit s) = const_tok s"

text \<open>The value of a tree, where no operation on the way is an error.\<close>

definition no_err :: "'v \<times> eval_err_t \<Rightarrow> 'v option" where
  "no_err r = (if snd r = ERR_NOERR then Some (fst r) else None)"

primrec den_ex and den_tm and den_fa where
  "den_ex h ident (Plain t) = den_tm h ident t"
| "den_ex h ident (Plus t e) = do { a \<leftarrow> den_tm h ident t; b \<leftarrow> den_ex h ident e; Option.bind (f_add h a b) no_err }"
| "den_ex h ident (Minus t e) = do { a \<leftarrow> den_tm h ident t; b \<leftarrow> den_ex h ident e; Option.bind (f_sub h a b) no_err }"
| "den_tm h ident (Sole f) = den_fa h ident f"
| "den_tm h ident (Times f t) = do { a \<leftarrow> den_fa h ident f; b \<leftarrow> den_tm h ident t; Option.bind (f_mult h a b) no_err }"
| "den_tm h ident (Over f t) = do { a \<leftarrow> den_fa h ident f; b \<leftarrow> den_tm h ident t;
     if f_eq_zero h b = (False, ERR_NOERR) then Option.bind (f_div h a b) no_err else None }"
| "den_fa h ident (Paren e) = den_ex h ident e"
| "den_fa h ident (Negate f) = do { a \<leftarrow> den_fa h ident f; no_err (f_neg h a) }"
| "den_fa h ident (Ident s) = no_err (ident s)"
| "den_fa h ident (Lit s) = Option.bind (eval_constant h s) no_err"

text \<open>What separates tokens, and the next token of a string.\<close>

definition sep :: "cstr \<Rightarrow> bool" where "sep r \<longleftrightarrow> r = [] \<or> cur r = 32"

definition next_tok :: "cstr \<Rightarrow> eval_token_t" where "next_tok r = fst (scan_token r)"

lemma sep_simps [simp]: "sep []" "sep (32 # r)" by (simp_all add: sep_def)

lemma blank [simp]: "tok_map 32 = tok_whitespace" "\<not> ident_char 32" "\<not> const_char l hx 32"
  by (simp_all add: tok_map_def ident_char_def const_char_def islower_def isupper_def isdigit_def tolower_def)

lemma op_toks [simp]:
  "tok_map 40 = tok_oparen" "tok_map 41 = tok_cparen" "tok_map 42 = tok_mult" "tok_map 43 = tok_plus"
  "tok_map 45 = tok_minus" "tok_map 47 = tok_div"
  by (simp_all add: tok_map_def islower_def isupper_def isdigit_def)

lemma scan_op [simp]:
  "scan_token [] = (tok_eof, [], [])"
  "c \<in> {40, 41, 42, 43, 45, 47} \<Longrightarrow> scan_token (32 # c # r) = (tok_map c, [c], r)"
  by (auto simp: scan_token_def)

lemma scan_ident:
  assumes "ident_tok s" "sep r"
  shows "scan_token (32 # s @ r) = (tok_ident, s, r)"
proof -
  obtain c t where s: "s = c # t" "tok_map c = tok_ident" "\<forall>x \<in> set t. ident_char x"
    using assms(1) by (auto simp: ident_tok_def split: list.splits)
  have "takeWhile ident_char r = []" "dropWhile ident_char r = r"
    using assms(2) by (cases r; simp add: sep_def)+
  then show ?thesis using s by (simp add: scan_token_def takeWhile_append dropWhile_append)
qed

lemma const_span_append:
  "const_span l hx t = (t, []) \<Longrightarrow> sep r \<Longrightarrow> const_span l hx (t @ r) = (t, r)"
proof (induction l hx t rule: const_span.induct)
  case (1 l hx)
  then show ?case by (cases r) (auto simp: sep_def)
qed (auto split: if_splits prod.splits)

lemma scan_const:
  assumes "const_tok s" "sep r"
  shows "scan_token (32 # s @ r) = (tok_const, s, r)"
proof -
  obtain c t where s: "s = c # t" "tok_map c = tok_const" "const_span 0 False t = (t, [])"
    using assms(1) by (auto simp: const_tok_def split: list.splits)
  then show ?thesis using const_span_append [OF s(3) assms(2)] by (simp add: scan_token_def)
qed

text \<open>An evaluator in front of a string, its next token read ahead or not.\<close>

definition at :: "eval_state_t \<Rightarrow> cstr \<Rightarrow> bool" where
  "at es cs \<longleftrightarrow> eval_error es = ERR_NOERR \<and>
     (peek_tok es = tok_invalid \<and> es_p es = cs \<or>
      peek_tok es \<noteq> tok_invalid \<and> scan_token cs = (peek_tok es, tok_buf es, es_p es) \<and> es_lastp es = cs)"

lemma at_peek:
  assumes at: "at es cs" and sc: "scan_token cs = (t, b, r)" and t: "t \<noteq> tok_invalid" "length b < 512"
  obtains es1 where "peek_next_token es = Some (t, es1)" "at es1 cs" "eval_error es1 = ERR_NOERR"
    "get_next_token es1 = Some (t, es1\<lparr>peek_tok := tok_invalid\<rparr>)" "at (es1\<lparr>peek_tok := tok_invalid\<rparr>) r" "tok_buf es1 = b"
proof (cases "peek_tok es = tok_invalid")
  case True
  then show ?thesis using assms
    by (intro that [of "es\<lparr>es_lastp := cs, es_p := r, tok_buf := b, peek_tok := t\<rparr>"])
      (auto simp: at_def peek_next_token_def get_next_token_def)
next
  case False
  then show ?thesis using assms
    by (intro that [of es]) (auto simp: at_def peek_next_token_def get_next_token_def)
qed

lemma atD: "at es cs \<Longrightarrow> eval_error es = ERR_NOERR" by (simp add: at_def)

lemma no_errD: "no_err r = Some v \<Longrightarrow> r = (v, ERR_NOERR)"
  by (cases r) (auto simp: no_err_def split: if_splits)

lemma set_noerr [simp]: "set_error ERR_NOERR es = es" by (simp add: set_error_def)

text \<open>A binary operator that is next, and the end of a level.\<close>

lemma at_op:
  assumes "at es (32 # c # r)" "c \<in> {40, 41, 42, 43, 45, 47}"
  obtains es1 where "peek_next_token es = Some (tok_map c, es1)" "eval_error es1 = ERR_NOERR"
    "get_next_token es1 = Some (tok_map c, es1\<lparr>peek_tok := tok_invalid\<rparr>)" "at (es1\<lparr>peek_tok := tok_invalid\<rparr>) r"
proof -
  have "tok_map c \<noteq> tok_invalid" using assms(2) by auto
  then show ?thesis using at_peek [OF assms(1) scan_op(2) [OF assms(2)]] that by auto
qed

lemma at_end:
  assumes "at es r" "next_tok r \<in> {tok_eof, tok_cparen, tok_plus, tok_minus}"
  obtains es1 where "peek_next_token es = Some (next_tok r, es1)" "at es1 r"
proof -
  obtain t b q where sc: "scan_token r = (t, b, q)" by (metis prod_cases3)
  then have t: "t \<in> {tok_eof, tok_cparen, tok_plus, tok_minus}" using assms(2) by (simp add: next_tok_def)
  then have "length b < 512"
    using sc by (auto simp: scan_token_def split: list.splits eval_token_t.splits prod.splits)
  moreover have "t \<noteq> tok_invalid" using t by auto
  ultimately obtain es1 where "peek_next_token es = Some (t, es1)" "at es1 r"
    using at_peek [OF assms(1) sc] by metis
  then show ?thesis using that sc by (simp add: next_tok_def)
qed

lemma next_tok_ops [simp]:
  "next_tok [] = tok_eof" "c \<in> {40, 41, 42, 43, 45, 47} \<Longrightarrow> next_tok (32 # c # r) = tok_map c"
  by (simp_all add: next_tok_def)

lemma parse_denotes:
  "wf_ex e \<Longrightarrow> den_ex h ident e = Some v \<Longrightarrow> sep r \<Longrightarrow> next_tok r \<in> {tok_eof, tok_cparen} \<Longrightarrow> at es (show_ex e @ r) \<Longrightarrow>
     \<exists>es'. parse h ident Expr es = Some (v, es') \<and> at es' r"
  "wf_tm t \<Longrightarrow> den_tm h ident t = Some v \<Longrightarrow> sep r \<Longrightarrow> next_tok r \<in> {tok_eof, tok_cparen, tok_plus, tok_minus} \<Longrightarrow>
     at es (show_tm t @ r) \<Longrightarrow> \<exists>es'. parse h ident Term es = Some (v, es') \<and> at es' r"
  "wf_fa f \<Longrightarrow> den_fa h ident f = Some v \<Longrightarrow> sep r \<Longrightarrow> at es (show_fa f @ r) \<Longrightarrow>
     \<exists>es'. parse h ident Factor es = Some (v, es') \<and> at es' r"
proof (induction e and t and f arbitrary: v r es and v r es and v r es)
  case (Plain t)
  obtain es1 where t: "parse h ident Term es = Some (v, es1)" "at es1 r"
    using Plain.IH [OF _ _ Plain.prems(3) _, of v es] Plain.prems by auto
  obtain es2 where "peek_next_token es1 = Some (next_tok r, es2)" "at es2 r" using at_end [OF t(2)] Plain.prems(4) by auto
  then show ?case using t(1) Plain.prems(4) atD [OF t(2)] by (subst parse.simps) auto
next
  case (Plus t e)
  then obtain a b where d: "den_tm h ident t = Some a" "den_ex h ident e = Some b" "f_add h a b = Some (v, ERR_NOERR)"
    by (auto simp: no_err_def split: Option.bind_splits if_splits)
  obtain es1 where t: "parse h ident Term es = Some (a, es1)" "at es1 (32 # 43 # show_ex e @ r)"
    using Plus.IH(1) [OF _ d(1), of "32 # 43 # show_ex e @ r" es] Plus.prems by auto
  obtain es2 where p: "peek_next_token es1 = Some (tok_plus, es2)" "eval_error es2 = ERR_NOERR"
    "get_next_token es2 = Some (tok_plus, es2\<lparr>peek_tok := tok_invalid\<rparr>)" "at (es2\<lparr>peek_tok := tok_invalid\<rparr>) (show_ex e @ r)"
    using at_op [OF t(2)] by auto
  obtain es3 where e: "parse h ident Expr (es2\<lparr>peek_tok := tok_invalid\<rparr>) = Some (b, es3)" "at es3 r"
    using Plus.IH(2) [OF _ d(2) Plus.prems(3,4) p(4)] Plus.prems(1) by auto
  show ?case using t(1) p e d(3) atD [OF t(2)] atD [OF e(2)] by (subst parse.simps) (auto simp: Let_def)
next
  case (Minus t e)
  then obtain a b where d: "den_tm h ident t = Some a" "den_ex h ident e = Some b" "f_sub h a b = Some (v, ERR_NOERR)"
    by (auto simp: no_err_def split: Option.bind_splits if_splits)
  obtain es1 where t: "parse h ident Term es = Some (a, es1)" "at es1 (32 # 45 # show_ex e @ r)"
    using Minus.IH(1) [OF _ d(1), of "32 # 45 # show_ex e @ r" es] Minus.prems by auto
  obtain es2 where p: "peek_next_token es1 = Some (tok_minus, es2)" "eval_error es2 = ERR_NOERR"
    "get_next_token es2 = Some (tok_minus, es2\<lparr>peek_tok := tok_invalid\<rparr>)" "at (es2\<lparr>peek_tok := tok_invalid\<rparr>) (show_ex e @ r)"
    using at_op [OF t(2)] by auto
  obtain es3 where e: "parse h ident Expr (es2\<lparr>peek_tok := tok_invalid\<rparr>) = Some (b, es3)" "at es3 r"
    using Minus.IH(2) [OF _ d(2) Minus.prems(3,4) p(4)] Minus.prems(1) by auto
  show ?case using t(1) p e d(3) atD [OF t(2)] atD [OF e(2)] by (subst parse.simps) (auto simp: Let_def)
next
  case (Sole f)
  obtain es1 where t: "parse h ident Factor es = Some (v, es1)" "at es1 r"
    using Sole.IH [OF _ _ Sole.prems(3), of v es] Sole.prems by auto
  obtain es2 where "peek_next_token es1 = Some (next_tok r, es2)" "at es2 r" using at_end [OF t(2)] Sole.prems(4) by auto
  then show ?case using t(1) Sole.prems(4) atD [OF t(2)] by (subst parse.simps) auto
next
  case (Times f t)
  then obtain a b where d: "den_fa h ident f = Some a" "den_tm h ident t = Some b" "f_mult h a b = Some (v, ERR_NOERR)"
    by (auto simp: no_err_def split: Option.bind_splits if_splits)
  obtain es1 where f: "parse h ident Factor es = Some (a, es1)" "at es1 (32 # 42 # show_tm t @ r)"
    using Times.IH(1) [OF _ d(1), of "32 # 42 # show_tm t @ r" es] Times.prems by auto
  obtain es2 where p: "peek_next_token es1 = Some (tok_mult, es2)" "eval_error es2 = ERR_NOERR"
    "get_next_token es2 = Some (tok_mult, es2\<lparr>peek_tok := tok_invalid\<rparr>)" "at (es2\<lparr>peek_tok := tok_invalid\<rparr>) (show_tm t @ r)"
    using at_op [OF f(2)] by auto
  obtain es3 where e: "parse h ident Term (es2\<lparr>peek_tok := tok_invalid\<rparr>) = Some (b, es3)" "at es3 r"
    using Times.IH(2) [OF _ d(2) Times.prems(3,4) p(4)] Times.prems(1) by auto
  show ?case using f(1) p e d(3) atD [OF f(2)] atD [OF e(2)] by (subst parse.simps) (auto simp: Let_def)
next
  case (Over f t)
  then obtain a b where d: "den_fa h ident f = Some a" "den_tm h ident t = Some b" "f_div h a b = Some (v, ERR_NOERR)"
    "f_eq_zero h b = (False, ERR_NOERR)"
    by (auto simp: no_err_def split: Option.bind_splits if_splits)
  obtain es1 where f: "parse h ident Factor es = Some (a, es1)" "at es1 (32 # 47 # show_tm t @ r)"
    using Over.IH(1) [OF _ d(1), of "32 # 47 # show_tm t @ r" es] Over.prems by auto
  obtain es2 where p: "peek_next_token es1 = Some (tok_div, es2)" "eval_error es2 = ERR_NOERR"
    "get_next_token es2 = Some (tok_div, es2\<lparr>peek_tok := tok_invalid\<rparr>)" "at (es2\<lparr>peek_tok := tok_invalid\<rparr>) (show_tm t @ r)"
    using at_op [OF f(2)] by auto
  obtain es3 where e: "parse h ident Term (es2\<lparr>peek_tok := tok_invalid\<rparr>) = Some (b, es3)" "at es3 r"
    using Over.IH(2) [OF _ d(2) Over.prems(3,4) p(4)] Over.prems(1) by auto
  show ?case using f(1) p e d(3,4) atD [OF f(2)] atD [OF e(2)] by (subst parse.simps) (auto simp: Let_def)
next
  case (Paren e)
  obtain es1 where p: "peek_next_token es = Some (tok_oparen, es1)" "eval_error es1 = ERR_NOERR"
    "get_next_token es1 = Some (tok_oparen, es1\<lparr>peek_tok := tok_invalid\<rparr>)" "at (es1\<lparr>peek_tok := tok_invalid\<rparr>) (show_ex e @ 32 # 41 # r)"
    using at_op [of es 40 "show_ex e @ 32 # 41 # r"] Paren.prems(4) by auto
  obtain es2 where e: "parse h ident Expr (es1\<lparr>peek_tok := tok_invalid\<rparr>) = Some (v, es2)" "at es2 (32 # 41 # r)"
    using Paren.IH [OF _ _ _ _ p(4)] Paren.prems by auto
  obtain es3 where c: "peek_next_token es2 = Some (tok_cparen, es3)"
    "get_next_token es3 = Some (tok_cparen, es3\<lparr>peek_tok := tok_invalid\<rparr>)" "at (es3\<lparr>peek_tok := tok_invalid\<rparr>) r"
    using at_op [OF e(2)] by auto
  show ?case using p(1,3) e(1) c atD [OF e(2)] by (subst parse.simps) auto
next
  case (Negate f)
  then obtain a where d: "den_fa h ident f = Some a" "f_neg h a = (v, ERR_NOERR)"
    by (auto dest: no_errD split: Option.bind_splits)
  obtain es1 where p: "peek_next_token es = Some (tok_minus, es1)" "eval_error es1 = ERR_NOERR"
    "get_next_token es1 = Some (tok_minus, es1\<lparr>peek_tok := tok_invalid\<rparr>)" "at (es1\<lparr>peek_tok := tok_invalid\<rparr>) (show_fa f @ r)"
    using at_op [of es 45 "show_fa f @ r"] Negate.prems(4) by auto
  obtain es2 where "parse h ident Factor (es1\<lparr>peek_tok := tok_invalid\<rparr>) = Some (a, es2)" "at es2 r"
    using Negate.IH [OF _ d(1) Negate.prems(3) p(4)] Negate.prems(1) by auto
  then show ?case using p(1,3) d(2) atD by (subst parse.simps) auto
next
  case (Ident s)
  then have d: "ident s = (v, ERR_NOERR)" "length s < 512" "ident_tok s" by (auto dest: no_errD simp: ident_tok_def)
  obtain es1 where "peek_next_token es = Some (tok_ident, es1)" "eval_error es1 = ERR_NOERR" "tok_buf es1 = s"
    "get_next_token es1 = Some (tok_ident, es1\<lparr>peek_tok := tok_invalid\<rparr>)" "at (es1\<lparr>peek_tok := tok_invalid\<rparr>) r"
    using at_peek [OF _ scan_ident [OF d(3) Ident.prems(3)], of es] d(2) Ident.prems(4) by auto
  then show ?case using d(1) by (subst parse.simps) (auto simp: Let_def)
next
  case (Lit s)
  then have d: "eval_constant h s = Some (v, ERR_NOERR)" "length s < 512" "const_tok s"
    by (auto dest: no_errD simp: const_tok_def split: Option.bind_splits)
  obtain es1 where "peek_next_token es = Some (tok_const, es1)" "eval_error es1 = ERR_NOERR" "tok_buf es1 = s"
    "get_next_token es1 = Some (tok_const, es1\<lparr>peek_tok := tok_invalid\<rparr>)" "at (es1\<lparr>peek_tok := tok_invalid\<rparr>) r"
    using at_peek [OF _ scan_const [OF d(3) Lit.prems(3)], of es] d(2) Lit.prems(4) by auto
  then show ?case using d(1) by (subst parse.simps) (auto simp: Let_def)
qed

section \<open>Properties\<close>

text \<open>
  C15: \<open>eval_expr()\<close> returns on strings shorter than the token buffer, well formed or
  not, with an end pointer into the string.  On a host whose signed division does not trap,
  this is every such string.  On a host where the division of the least integer by -1 traps, it
  is every such string without the character \<open>/\<close>: there a literal that is truncated to the
  least integer and divided by -1 does not return.
\<close>

theorem eval_expr_returns:
  assumes "length p < 512" "div_traps h \<longrightarrow> 47 \<notin> set p"
  shows "\<exists>v e endp. eval_expr h ident p = Some (v, e, endp) \<and> suffix endp p"
proof -
  let ?es = "\<lparr>es_p = p, es_lastp = [], tok_buf = [], peek_tok = tok_invalid, eval_error = ERR_NOERR\<rparr>"
  have "est_ok p (div_traps h) ?es" using assms by (simp add: est_ok_def)
  from parse_returns [OF this] obtain v es' where "parse h ident Expr ?es = Some (v, es')" "est_ok p (div_traps h) es'"
    by (rule reachesE)
  then show ?thesis by (simp add: eval_expr_def est_ok_def)
qed

text \<open>
  C14: the evaluator gives an expression the value of its tree, whenever no operation of the
  tree is an error, and uses the whole text.  A tree has the sums and products to the right
  of the first operator as one operand, so \<open>a - b - c\<close> is \<open>a - (b - c)\<close>.
\<close>

theorem eval_expr_denotes:
  assumes "wf_ex e" "den_ex h ident e = Some v"
  shows "eval_expr h ident (show_ex e) = Some (v, ERR_NOERR, [])"
proof -
  let ?es = "\<lparr>es_p = show_ex e, es_lastp = [], tok_buf = [], peek_tok = tok_invalid, eval_error = ERR_NOERR\<rparr>"
  have "at ?es (show_ex e @ [])" by (simp add: at_def)
  with parse_denotes(1) [OF assms] obtain es' where r: "parse h ident Expr ?es = Some (v, es')" "at es' []"
    by (metis insertI1 next_tok_ops(1) sep_simps(1))
  then show ?thesis by (auto simp: eval_expr_def at_def)
qed

section \<open>Witnesses\<close>

text \<open>A host with 64-bit longs and no floating point, whose division traps.\<close>

definition int_host :: "(unit, unit) host_t" where
  "int_host = \<lparr>long_bits = 64, div_traps = True, d_add = (\<lambda>_ _. ()), d_sub = (\<lambda>_ _. ()), d_mul = (\<lambda>_ _. ()),
     d_div = (\<lambda>_ _. ()), d_neg = (\<lambda>_. ()), d_zero = (\<lambda>_. True), d_of_int = (\<lambda>_. ()), d_of_f = (\<lambda>_. ()), d_int = (\<lambda>_. 0),
     f_plus = (\<lambda>_ _. ()), f_minus = (\<lambda>_ _. ()), f_times = (\<lambda>_ _. ()), f_over = (\<lambda>_ _. ()), f_negate = (\<lambda>_. ()),
     f_zero = (\<lambda>_. True), f_of_int = (\<lambda>_. ()), f_of_d = (\<lambda>_. ()), f_int = (\<lambda>_. 0), strtod = (\<lambda>_. None)\<rparr>"

definition no_idents :: "cstr \<Rightarrow> (unit, unit) eval_value_t \<times> eval_err_t" where
  "no_idents s = (err_value, ERR_UNDEFVAR)"

text \<open>
  Four quirks: a character that begins no token is skipped by the second look at it, a 64-bit
  \<open>long\<close> loses the high half of a literal, a hexadecimal literal that ends in \<open>e\<close> swallows the
  sign after it, and a leading 0 makes a number that fits an \<open>int\<close> octal.
\<close>

lemma stray_character_skipped:
  "(do { (t1, es1) \<leftarrow> peek_next_token \<lparr>es_p = cstr_of ''# + 2'', es_lastp = [], tok_buf = [], peek_tok = tok_invalid,
           eval_error = ERR_NOERR\<rparr>;
         (t2, es2) \<leftarrow> peek_next_token es1;
         Some (t1, t2, es_p es2) }) = Some (tok_invalid, tok_plus, cstr_of '' 2'')"
  by code_simp

lemma literal_quirks:
  "eval_constant int_host (cstr_of ''4294967297'') = Some (as_int 1, ERR_NOERR)"
  "scan_token (cstr_of ''0xe+5'') = (tok_const, cstr_of ''0xe+5'', [])"
  "eval_constant int_host (cstr_of ''0xe+5'') = Some (err_value, ERR_BADCONST)"
  "eval_constant int_host (cstr_of ''010'') = Some (as_int 8, ERR_NOERR)"
proof -
  show "eval_constant int_host (cstr_of ''4294967297'') = Some (as_int 1, ERR_NOERR)"
    by (simp add: eval_constant_def int_host_def strtol_def strto_parts_def cstr_of_def hex_prefix_def valid_digit_def
        digit_val_def isdigit_def isspace_def toupper_def islower_def)
qed code_simp+

text \<open>Where signed division traps, a truncated literal divided by -1 ends the evaluator.\<close>

lemma truncated_literal_traps:
  "eval_expr int_host no_idents (cstr_of '' 2147483648 / - 1'') = None"
proof -
  let ?lit = "Lit (cstr_of ''2147483648'')" and ?neg = "Sole (Negate (Lit [49]))"
  let ?es = "\<lparr>es_p = cstr_of '' 2147483648 / - 1'', es_lastp = [], tok_buf = [], peek_tok = tok_invalid, eval_error = ERR_NOERR\<rparr>"
  have "eval_constant int_host (cstr_of ''2147483648'') = Some (as_int 0x80000000, ERR_NOERR)"
    by (simp add: eval_constant_def int_host_def strtol_def strto_parts_def cstr_of_def hex_prefix_def valid_digit_def
        digit_val_def isdigit_def isspace_def toupper_def islower_def)
  moreover have "wf_fa ?lit" "wf_tm ?neg" by code_simp+
  moreover have "den_tm int_host no_idents ?neg = Some (as_int (- 1))" by code_simp
  moreover have "cstr_of '' 2147483648 / - 1'' = show_fa ?lit @ 32 # 47 # show_tm ?neg @ []" by code_simp
  ultimately have at: "at ?es (show_fa ?lit @ 32 # 47 # show_tm ?neg @ [])" and
    lit: "wf_fa ?lit" "den_fa int_host no_idents ?lit = Some (as_int 0x80000000)" and
    neg: "wf_tm ?neg" "den_tm int_host no_idents ?neg = Some (as_int (- 1))"
    by (simp_all add: at_def no_err_def)
  obtain es1 where f: "parse int_host no_idents Factor ?es = Some (as_int 0x80000000, es1)" "at es1 (32 # 47 # show_tm ?neg @ [])"
    using parse_denotes(3) [OF lit _ at] by auto
  obtain es2 where p: "peek_next_token es1 = Some (tok_div, es2)" "eval_error es2 = ERR_NOERR"
    "get_next_token es2 = Some (tok_div, es2\<lparr>peek_tok := tok_invalid\<rparr>)" "at (es2\<lparr>peek_tok := tok_invalid\<rparr>) (show_tm ?neg @ [])"
    using at_op [OF f(2)] by auto
  obtain es3 where t: "parse int_host no_idents Term (es2\<lparr>peek_tok := tok_invalid\<rparr>) = Some (as_int (- 1), es3)" "at es3 []"
    using parse_denotes(2) [OF neg _ _ p(4)] by auto
  have "f_div int_host (as_int 0x80000000) (as_int (- 1)) = None" "f_eq_zero int_host (as_int (- 1)) = (False, ERR_NOERR)"
    by code_simp+
  then have "parse int_host no_idents Term ?es = None"
    using f p t atD [OF f(2)] atD [OF t(2)] by (subst parse.simps) (simp add: Let_def)
  then have "parse int_host no_idents Expr ?es = None" by (subst parse.simps) simp
  then show ?thesis by (simp add: eval_expr_def)
qed

lemma eval_expr_returns_witness:
  "\<exists>v e endp. eval_expr int_host no_idents (cstr_of ''(1 + + x'') = Some (v, e, endp)"
proof -
  have "length (cstr_of ''(1 + + x'') < 512" "47 \<notin> set (cstr_of ''(1 + + x'')" by code_simp+
  then show ?thesis using eval_expr_returns [of "cstr_of ''(1 + + x''" int_host no_idents] by blast
qed

lemma eval_expr_denotes_witness:
  "eval_expr int_host no_idents (cstr_of '' 10 - 4 - 3'') = Some (as_int 9, ERR_NOERR, [])"
proof -
  let ?e = "Minus (Sole (Lit [49, 48])) (Minus (Sole (Lit [52])) (Plain (Sole (Lit [51]))))"
  have "wf_ex ?e" "show_ex ?e = cstr_of '' 10 - 4 - 3''" by code_simp+
  moreover have "den_ex int_host no_idents ?e = Some (as_int 9)" by code_simp
  ultimately show ?thesis using eval_expr_denotes [of ?e int_host no_idents] by simp
qed

end
