(* ===== verification/Bpred.thy ===== *)
theory Bpred
  imports Links Pisa "HOL-Library.Signed_Division"
begin

text \<open>
  The branch predictors of bpred.c: direction predictors with two-bit counters (bimodal,
  two-level adaptive and combined with a meta predictor), the branch target buffer with
  its LRU chains, and the return address stack.
\<close>

section \<open>State\<close>

datatype bpred_class = BPredComb | BPred2Level | BPred2bit | BPredTaken | BPredNotTaken

text \<open>The members of the union in \<open>struct bpred_dir_t\<close>, by class.\<close>

record bimod_t =
  bimod_size :: word_t
  bimod_table :: "byte_t list"

record two_t =
  two_l1size :: word_t
  two_l2size :: word_t
  two_shift_width :: word_t
  two_xor :: bool
  two_shiftregs :: "word_t list"
  two_l2table :: "byte_t list"

record btb_ent_t =
  be_addr :: md_addr_t
  be_op :: word_t
  be_target :: md_addr_t
  be_prev :: "nat option"
  be_next :: "nat option"

text \<open>
  \<open>struct bpred_t\<close>: a direction predictor that the class does not use is a null pointer;
  the entries of the buffer are joined by their positions.
\<close>

record bpred_t =
  bp_class :: bpred_class
  bp_bimod :: "bimod_t option"
  bp_twolev :: "two_t option"
  bp_meta :: "bimod_t option"
  btb_sets :: word_t
  btb_assoc :: word_t
  btb_data :: "nat \<Rightarrow> btb_ent_t"
  ras_size :: word_t
  ras_tos :: word_t
  ras_stack :: "md_addr_t list"
  addr_hits :: counter_t
  dir_hits :: counter_t
  used_ras :: counter_t
  used_bimod :: counter_t
  used_2lev :: counter_t
  jr_hits :: counter_t
  jr_seen :: counter_t
  jr_non_ras_hits :: counter_t
  jr_non_ras_seen :: counter_t
  bp_misses :: counter_t
  bp_lookups :: counter_t
  retstack_pops :: counter_t
  retstack_pushes :: counter_t
  ras_hits :: counter_t

text \<open>A pointer to a counter of one of the tables, and \<open>struct bpred_update_t\<close>.\<close>

datatype ctr_ptr = BimodCtr nat | TwolevCtr nat | MetaCtr nat

record bpred_update_t =
  up_pdir1 :: "ctr_ptr option"
  up_pdir2 :: "ctr_ptr option"
  up_pmeta :: "ctr_ptr option"
  up_ras :: bool
  up_bimod :: bool
  up_twolev :: bool
  up_meta :: bool

section \<open>Instruction classes\<close>

definition MD_BR_SHIFT :: nat where "MD_BR_SHIFT = 3"

definition JAL :: word_t where "JAL = 3"

definition JR :: word_t where "JR = 4"

definition MD_OP_FLAGS :: "word_t \<Rightarrow> word_t" where
  "MD_OP_FLAGS op = (case definst_of pisa_def op of None \<Rightarrow> 0 | Some d \<Rightarrow> di_flags d)"

definition MD_IS_INDIR :: "word_t \<Rightarrow> bool" where "MD_IS_INDIR op \<longleftrightarrow> op = JR"

definition MD_IS_CALL :: "word_t \<Rightarrow> bool" where
  "MD_IS_CALL op \<longleftrightarrow> MD_OP_FLAGS op AND (F_CTRL OR F_CALL) = F_CTRL OR F_CALL"

definition is_ctrl :: "word_t \<Rightarrow> bool" where "is_ctrl op \<longleftrightarrow> MD_OP_FLAGS op AND F_CTRL \<noteq> 0"
definition is_uncond :: "word_t \<Rightarrow> bool" where
  "is_uncond op \<longleftrightarrow> MD_OP_FLAGS op AND (F_CTRL OR F_UNCOND) = F_CTRL OR F_UNCOND"
definition is_cond :: "word_t \<Rightarrow> bool" where
  "is_cond op \<longleftrightarrow> MD_OP_FLAGS op AND (F_CTRL OR F_COND) = F_CTRL OR F_COND"

section \<open>Creation\<close>

text \<open>Non-zero and a power of two, as the checks of the code test it.\<close>

definition pow2 :: "word_t \<Rightarrow> bool" where "pow2 n \<longleftrightarrow> n \<noteq> 0 \<and> n AND (n - 1) = 0"

text \<open>Counters initialized to weakly this or that: 1, 2, 1, 2, ...\<close>

fun flipflops :: "nat \<Rightarrow> byte_t \<Rightarrow> byte_t list" where
  "flipflops 0 f = []"
| "flipflops (Suc n) f = f # flipflops n (3 - f)"

definition bpred_dir_create_2bit :: "word_t \<Rightarrow> bimod_t option" where
  "bpred_dir_create_2bit l1size =
     (if \<not> pow2 l1size then None
      else Some \<lparr>bimod_size = l1size, bimod_table = flipflops (unat l1size) 1\<rparr>)"

definition bpred_dir_create_2lev :: "word_t \<Rightarrow> word_t \<Rightarrow> word_t \<Rightarrow> bool \<Rightarrow> two_t option" where
  "bpred_dir_create_2lev l1size l2size shift_width xr =
     (if \<not> pow2 l1size \<or> \<not> pow2 l2size \<or> shift_width = 0 \<or> shift_width > 30 then None
      else Some \<lparr>two_l1size = l1size, two_l2size = l2size, two_shift_width = shift_width, two_xor = xr,
                 two_shiftregs = replicate (unat l1size) 0, two_l2table = flipflops (unat l2size) 1\<rparr>)"

text \<open>Entry \<open>i\<close> of the buffer, linked to its neighbours in the set.\<close>

definition new_btb_ent :: "nat \<Rightarrow> nat \<Rightarrow> btb_ent_t" where
  "new_btb_ent assoc i =
     \<lparr>be_addr = 0, be_op = 0, be_target = 0,
      be_prev = (if assoc > 1 \<and> i mod assoc \<noteq> 0 then Some (i - 1) else None),
      be_next = (if assoc > 1 \<and> i mod assoc \<noteq> assoc - 1 then Some (i + 1) else None)\<rparr>"

definition new_bpred :: "bpred_class \<Rightarrow> bpred_t" where
  "new_bpred cls =
     \<lparr>bp_class = cls, bp_bimod = None, bp_twolev = None, bp_meta = None, btb_sets = 0, btb_assoc = 0,
      btb_data = new_btb_ent 0, ras_size = 0, ras_tos = 0, ras_stack = [], addr_hits = 0, dir_hits = 0,
      used_ras = 0, used_bimod = 0, used_2lev = 0, jr_hits = 0, jr_seen = 0, jr_non_ras_hits = 0,
      jr_non_ras_seen = 0, bp_misses = 0, bp_lookups = 0, retstack_pops = 0, retstack_pushes = 0, ras_hits = 0\<rparr>"

definition create_dirs :: "bpred_class \<Rightarrow> word_t \<Rightarrow> word_t \<Rightarrow> word_t \<Rightarrow> word_t \<Rightarrow> word_t \<Rightarrow> bool \<Rightarrow> bpred_t option" where
  "create_dirs cls bimod_sz l1size l2size meta_size shift_width xr =
     (case cls of
        BPredComb \<Rightarrow> do {
          b \<leftarrow> bpred_dir_create_2bit bimod_sz;
          t \<leftarrow> bpred_dir_create_2lev l1size l2size shift_width xr;
          m \<leftarrow> bpred_dir_create_2bit meta_size;
          Some ((new_bpred cls)\<lparr>bp_bimod := Some b, bp_twolev := Some t, bp_meta := Some m\<rparr>) }
      | BPred2Level \<Rightarrow> do {
          t \<leftarrow> bpred_dir_create_2lev l1size l2size shift_width xr;
          Some ((new_bpred cls)\<lparr>bp_twolev := Some t\<rparr>) }
      | BPred2bit \<Rightarrow> do {
          b \<leftarrow> bpred_dir_create_2bit bimod_sz;
          Some ((new_bpred cls)\<lparr>bp_bimod := Some b\<rparr>) }
      | _ \<Rightarrow> Some (new_bpred cls))"

definition bpred_create :: "bpred_class \<Rightarrow> word_t \<Rightarrow> word_t \<Rightarrow> word_t \<Rightarrow> word_t \<Rightarrow> word_t \<Rightarrow> bool \<Rightarrow>
    word_t \<Rightarrow> word_t \<Rightarrow> word_t \<Rightarrow> bpred_t option" where
  "bpred_create cls bimod_sz l1size l2size meta_size shift_width xr sets assoc retstack_size = do {
     pred \<leftarrow> create_dirs cls bimod_sz l1size l2size meta_size shift_width xr;
     if cls = BPredTaken \<or> cls = BPredNotTaken then Some pred
     else if \<not> pow2 sets \<or> \<not> pow2 assoc \<or> retstack_size AND (retstack_size - 1) \<noteq> 0 then None
     else Some (pred\<lparr>btb_sets := sets, btb_assoc := assoc, btb_data := new_btb_ent (unat assoc),
                     ras_size := retstack_size, ras_tos := retstack_size - 1,
                     ras_stack := replicate (unat retstack_size) 0\<rparr>) }"

section \<open>Counters\<close>

text \<open>Reading and writing an array at an index: outside of it is undefined.\<close>

definition aget :: "'a list \<Rightarrow> nat \<Rightarrow> 'a option" where
  "aget xs i = (if i < length xs then Some (xs ! i) else None)"

definition aset :: "'a list \<Rightarrow> nat \<Rightarrow> 'a \<Rightarrow> 'a list option" where
  "aset xs i v = (if i < length xs then Some (xs[i := v]) else None)"

definition get_ctr :: "bpred_t \<Rightarrow> ctr_ptr \<Rightarrow> byte_t option" where
  "get_ctr pred p =
     (case p of
        BimodCtr i \<Rightarrow> do { b \<leftarrow> bp_bimod pred; aget (bimod_table b) i }
      | TwolevCtr i \<Rightarrow> do { t \<leftarrow> bp_twolev pred; aget (two_l2table t) i }
      | MetaCtr i \<Rightarrow> do { m \<leftarrow> bp_meta pred; aget (bimod_table m) i })"

definition set_ctr :: "bpred_t \<Rightarrow> ctr_ptr \<Rightarrow> byte_t \<Rightarrow> bpred_t option" where
  "set_ctr pred p v =
     (case p of
        BimodCtr i \<Rightarrow> do { b \<leftarrow> bp_bimod pred; t \<leftarrow> aset (bimod_table b) i v;
                         Some (pred\<lparr>bp_bimod := Some (b\<lparr>bimod_table := t\<rparr>)\<rparr>) }
      | TwolevCtr i \<Rightarrow> do { b \<leftarrow> bp_twolev pred; t \<leftarrow> aset (two_l2table b) i v;
                          Some (pred\<lparr>bp_twolev := Some (b\<lparr>two_l2table := t\<rparr>)\<rparr>) }
      | MetaCtr i \<Rightarrow> do { b \<leftarrow> bp_meta pred; t \<leftarrow> aset (bimod_table b) i v;
                        Some (pred\<lparr>bp_meta := Some (b\<lparr>bimod_table := t\<rparr>)\<rparr>) })"

definition BIMOD_HASH :: "bimod_t \<Rightarrow> md_addr_t \<Rightarrow> word_t" where
  "BIMOD_HASH b addr = (drop_bit 19 addr XOR drop_bit MD_BR_SHIFT addr) AND (bimod_size b - 1)"

text \<open>\<open>bpred_dir_lookup()\<close> on a two-level predictor: the index into its second table.\<close>

definition l2_index :: "two_t \<Rightarrow> md_addr_t \<Rightarrow> word_t option" where
  "l2_index t baddr = do {
     (let l1index = drop_bit MD_BR_SHIFT baddr AND (two_l1size t - 1) in do {
        hist \<leftarrow> aget (two_shiftregs t) (unat l1index);
        (let a = drop_bit MD_BR_SHIFT baddr;
             l2 = (if two_xor t
                   then ((hist XOR a) AND (c_shl 1 (two_shift_width t) - 1)) OR c_shl a (two_shift_width t)
                   else hist OR c_shl a (two_shift_width t))
         in Some (l2 AND (two_l2size t - 1))) }) }"

definition lookup_bimod :: "bpred_t \<Rightarrow> md_addr_t \<Rightarrow> ctr_ptr option" where
  "lookup_bimod pred baddr = do { b \<leftarrow> bp_bimod pred; Some (BimodCtr (unat (BIMOD_HASH b baddr))) }"

definition lookup_meta :: "bpred_t \<Rightarrow> md_addr_t \<Rightarrow> ctr_ptr option" where
  "lookup_meta pred baddr = do { b \<leftarrow> bp_meta pred; Some (MetaCtr (unat (BIMOD_HASH b baddr))) }"

definition lookup_twolev :: "bpred_t \<Rightarrow> md_addr_t \<Rightarrow> ctr_ptr option" where
  "lookup_twolev pred baddr = do { t \<leftarrow> bp_twolev pred; i \<leftarrow> l2_index t baddr; Some (TwolevCtr (unat i)) }"

section \<open>Lookup\<close>

text \<open>The counters a branch uses, by class; unconditional branches use none.\<close>

definition lookup_dirs :: "bpred_t \<Rightarrow> md_addr_t \<Rightarrow> word_t \<Rightarrow> bpred_update_t \<Rightarrow> bpred_update_t option" where
  "lookup_dirs pred baddr op up =
     (if is_uncond op then Some up
      else case bp_class pred of
        BPredComb \<Rightarrow> do {
          b \<leftarrow> lookup_bimod pred baddr; t \<leftarrow> lookup_twolev pred baddr; m \<leftarrow> lookup_meta pred baddr;
          bv \<leftarrow> get_ctr pred b; tv \<leftarrow> get_ctr pred t; mv \<leftarrow> get_ctr pred m;
          (let up1 = up\<lparr>up_pmeta := Some m, up_meta := mv \<ge> 2, up_bimod := bv \<ge> 2, up_twolev := tv \<ge> 2\<rparr>
           in Some (if mv \<ge> 2 then up1\<lparr>up_pdir1 := Some t, up_pdir2 := Some b\<rparr>
                    else up1\<lparr>up_pdir1 := Some b, up_pdir2 := Some t\<rparr>)) }
      | BPred2Level \<Rightarrow> do { t \<leftarrow> lookup_twolev pred baddr; Some (up\<lparr>up_pdir1 := Some t\<rparr>) }
      | BPred2bit \<Rightarrow> do { b \<leftarrow> lookup_bimod pred baddr; Some (up\<lparr>up_pdir1 := Some b\<rparr>) }
      | _ \<Rightarrow> Some up)"

text \<open>The set of the buffer an address falls into, and the entry that holds it.\<close>

definition btb_index :: "bpred_t \<Rightarrow> md_addr_t \<Rightarrow> nat" where
  "btb_index pred baddr =
     (let index = drop_bit MD_BR_SHIFT baddr AND (btb_sets pred - 1)
      in if sint (btb_assoc pred) > 1 then unat (index * btb_assoc pred) else unat index)"

definition btb_ways :: "bpred_t \<Rightarrow> md_addr_t \<Rightarrow> nat list" where
  "btb_ways pred baddr = [btb_index pred baddr ..< btb_index pred baddr + unat (btb_assoc pred)]"

text \<open>A set that is not inside the array is undefined.\<close>

definition btb_inside :: "bpred_t \<Rightarrow> md_addr_t \<Rightarrow> bool" where
  "btb_inside pred baddr \<longleftrightarrow>
     btb_index pred baddr + (if sint (btb_assoc pred) > 1 then unat (btb_assoc pred) else 1)
       \<le> unat (btb_sets pred * btb_assoc pred)"

definition btb_find :: "bpred_t \<Rightarrow> md_addr_t \<Rightarrow> nat option option" where
  "btb_find pred baddr =
     (if \<not> btb_inside pred baddr then None
      else if sint (btb_assoc pred) > 1
      then Some (List.find (\<lambda>i. be_addr (btb_data pred i) = baddr) (btb_ways pred baddr))
      else let i = btb_index pred baddr
        in if be_addr (btb_data pred i) \<noteq> baddr then Some None else Some (Some i))"

text \<open>Return address stack: popping for a return, pushing for a call.\<close>

definition ras_pop :: "bpred_t \<Rightarrow> (md_addr_t \<times> bpred_t) option" where
  "ras_pop pred = do {
     target \<leftarrow> aget (ras_stack pred) (unat (ras_tos pred));
     Some (target, pred\<lparr>ras_tos := word_of_int (sint (ras_tos pred + ras_size pred - 1) smod sint (ras_size pred)),
                        retstack_pops := retstack_pops pred + 1\<rparr>) }"

definition ras_push :: "bpred_t \<Rightarrow> md_addr_t \<Rightarrow> bpred_t option" where
  "ras_push pred baddr =
     (let tos = word_of_int (sint (ras_tos pred + 1) smod sint (ras_size pred)) in do {
        stk \<leftarrow> aset (ras_stack pred) (unat tos) (baddr + 8);
        Some (pred\<lparr>ras_tos := tos, ras_stack := stk, retstack_pushes := retstack_pushes pred + 1\<rparr>) })"

text \<open>The prediction from the direction counter and the buffer.\<close>

definition predict :: "bpred_t \<Rightarrow> md_addr_t \<Rightarrow> word_t \<Rightarrow> bpred_update_t \<Rightarrow> md_addr_t option" where
  "predict pred baddr op up = do {
     pbtb \<leftarrow> btb_find pred baddr;
     if is_uncond op then Some (case pbtb of None \<Rightarrow> 1 | Some i \<Rightarrow> be_target (btb_data pred i))
     else do {
       p \<leftarrow> up_pdir1 up;
       c \<leftarrow> get_ctr pred p;
       Some (if c \<ge> 2 then (case pbtb of None \<Rightarrow> 1 | Some i \<Rightarrow> be_target (btb_data pred i)) else 0) } }"

text \<open>
  \<open>bpred_lookup()\<close>: the predicted address, the predictor, the update record and the top of
  the stack to recover, which a static predictor leaves alone.
\<close>

definition bpred_lookup :: "bpred_t \<Rightarrow> md_addr_t \<Rightarrow> md_addr_t \<Rightarrow> word_t \<Rightarrow> bool \<Rightarrow> bool \<Rightarrow> bpred_update_t \<Rightarrow> word_t \<Rightarrow>
    (md_addr_t \<times> bpred_t \<times> bpred_update_t \<times> word_t) option" where
  "bpred_lookup pred baddr btarget op is_call is_return up idx =
     (if \<not> is_ctrl op then Some (0, pred, up, idx)
      else let pred1 = pred\<lparr>bp_lookups := bp_lookups pred + 1\<rparr>;
               up1 = up\<lparr>up_ras := False, up_pdir1 := None, up_pdir2 := None, up_pmeta := None\<rparr> in
        if bp_class pred = BPredTaken then Some (btarget, pred1, up1, idx)
        else if bp_class pred = BPredNotTaken
        then Some (if \<not> is_uncond op then baddr + 8 else btarget, pred1, up1, idx)
        else do {
          up2 \<leftarrow> lookup_dirs pred1 baddr op up1;
          (let idx1 = (if ras_size pred1 \<noteq> 0 then ras_tos pred1 else 0) in
           if is_return \<and> ras_size pred1 \<noteq> 0 then do {
             (target, pred2) \<leftarrow> ras_pop pred1;
             Some (target, pred2, up2\<lparr>up_ras := True\<rparr>, idx1) }
           else do {
             pred2 \<leftarrow> (if is_call \<and> ras_size pred1 \<noteq> 0 then ras_push pred1 baddr else Some pred1);
             target \<leftarrow> predict pred2 baddr op up2;
             Some (target, pred2, up2, idx1) }) })"

definition bpred_recover :: "bpred_t \<Rightarrow> word_t \<Rightarrow> bpred_t" where
  "bpred_recover pred stack_recover_idx = pred\<lparr>ras_tos := stack_recover_idx\<rparr>"

section \<open>Update\<close>

text \<open>The statistics, in the order of the code.\<close>

definition update_stats :: "bpred_t \<Rightarrow> word_t \<Rightarrow> bool \<Rightarrow> bool \<Rightarrow> bool \<Rightarrow> bpred_update_t \<Rightarrow> bpred_t" where
  "update_stats pred op taken pred_taken correct up =
     (let p1 = (if correct then pred\<lparr>addr_hits := addr_hits pred + 1\<rparr> else pred);
          p2 = (if pred_taken = taken then p1\<lparr>dir_hits := dir_hits p1 + 1\<rparr> else p1\<lparr>bp_misses := bp_misses p1 + 1\<rparr>);
          p3 = (if up_ras up then
                  let q = p2\<lparr>used_ras := used_ras p2 + 1\<rparr> in if correct then q\<lparr>ras_hits := ras_hits q + 1\<rparr> else q
                else if is_cond op then
                  if up_meta up then p2\<lparr>used_2lev := used_2lev p2 + 1\<rparr> else p2\<lparr>used_bimod := used_bimod p2 + 1\<rparr>
                else p2)
      in if MD_IS_INDIR op then
           let p4 = p3\<lparr>jr_seen := jr_seen p3 + 1\<rparr>;
               p5 = (if correct then p4\<lparr>jr_hits := jr_hits p4 + 1\<rparr> else p4)
           in if \<not> up_ras up then
                let p6 = p5\<lparr>jr_non_ras_seen := jr_non_ras_seen p5 + 1\<rparr>
                in if correct then p6\<lparr>jr_non_ras_hits := jr_non_ras_hits p6 + 1\<rparr> else p6
              else p5
         else p3)"

text \<open>The history register of the first level.\<close>

definition update_history :: "bpred_t \<Rightarrow> md_addr_t \<Rightarrow> word_t \<Rightarrow> bool \<Rightarrow> bpred_t option" where
  "update_history pred baddr op taken =
     (if \<not> is_uncond op \<and> (bp_class pred = BPred2Level \<or> bp_class pred = BPredComb) then do {
        t \<leftarrow> bp_twolev pred;
        (let l1index = unat (drop_bit MD_BR_SHIFT baddr AND (two_l1size t - 1)) in do {
           hist \<leftarrow> aget (two_shiftregs t) l1index;
           (let shift_reg = push_bit 1 hist OR (if taken then 1 else 0) in do {
              regs \<leftarrow> aset (two_shiftregs t) l1index (shift_reg AND (c_shl 1 (two_shift_width t) - 1));
              Some (pred\<lparr>bp_twolev := Some (t\<lparr>two_shiftregs := regs\<rparr>)\<rparr>) }) }) }
      else Some pred)"

text \<open>The scan of a set for a match (at most one), the head and the tail of its LRU chain.\<close>

fun btb_scan :: "(nat \<Rightarrow> btb_ent_t) \<Rightarrow> md_addr_t \<Rightarrow> nat list \<Rightarrow> nat option \<Rightarrow> nat option \<Rightarrow> nat option \<Rightarrow>
    (nat option \<times> nat option \<times> nat option) option" where
  "btb_scan data baddr [] pbtb lruhead lruitem = Some (pbtb, lruhead, lruitem)"
| "btb_scan data baddr (i # is) pbtb lruhead lruitem =
     (if be_addr (data i) = baddr \<and> pbtb \<noteq> None then None
      else btb_scan data baddr is
        (if be_addr (data i) = baddr then Some i else pbtb)
        (if be_prev (data i) = None then Some i else lruhead)
        (if be_next (data i) = None then Some i else lruitem))"

definition upd_ent :: "nat \<Rightarrow> (btb_ent_t \<Rightarrow> btb_ent_t) \<Rightarrow> (nat \<Rightarrow> btb_ent_t) \<Rightarrow> (nat \<Rightarrow> btb_ent_t)" where
  "upd_ent i f data = data(i := f (data i))"

text \<open>Splicing an entry out of its chain and putting it in front of the head.\<close>

definition btb_promote :: "(nat \<Rightarrow> btb_ent_t) \<Rightarrow> nat \<Rightarrow> nat \<Rightarrow> (nat \<Rightarrow> btb_ent_t)" where
  "btb_promote data p lruhead =
     (let d1 = (case be_prev (data p) of None \<Rightarrow> data | Some q \<Rightarrow> upd_ent q (\<lambda>e. e\<lparr>be_next := be_next (data p)\<rparr>) data);
          d2 = (case be_next (d1 p) of None \<Rightarrow> d1 | Some n \<Rightarrow> upd_ent n (\<lambda>e. e\<lparr>be_prev := be_prev (d1 p)\<rparr>) d1);
          d3 = upd_ent p (\<lambda>e. e\<lparr>be_next := Some lruhead, be_prev := None\<rparr>) d2
      in upd_ent lruhead (\<lambda>e. e\<lparr>be_prev := Some p\<rparr>) d3)"

text \<open>The entry a taken branch uses: the match or the least recently used, made the first.\<close>

definition btb_select :: "bpred_t \<Rightarrow> md_addr_t \<Rightarrow> (nat \<times> (nat \<Rightarrow> btb_ent_t)) option" where
  "btb_select pred baddr =
     (if \<not> btb_inside pred baddr then None
      else if sint (btb_assoc pred) > 1 then do {
        (pbtb, lruhead, lruitem) \<leftarrow> btb_scan (btb_data pred) baddr (btb_ways pred baddr) None None None;
        p \<leftarrow> (case pbtb of Some p \<Rightarrow> Some p | None \<Rightarrow> lruitem);
        (if lruhead = Some p then Some (p, btb_data pred)
         else do { l \<leftarrow> lruhead; Some (p, btb_promote (btb_data pred) p l) }) }
      else Some (btb_index pred baddr, btb_data pred))"

definition bump :: "bool \<Rightarrow> byte_t \<Rightarrow> byte_t" where
  "bump up c = (if up then if c < 3 then c + 1 else c else if c > 0 then c - 1 else c)"

definition bump_ctr :: "bool \<Rightarrow> ctr_ptr option \<Rightarrow> bpred_t \<Rightarrow> bpred_t option" where
  "bump_ctr up p pred =
     (case p of None \<Rightarrow> Some pred
      | Some q \<Rightarrow> do { c \<leftarrow> get_ctr pred q; set_ctr pred q (bump up c) })"

text \<open>Entering a taken branch into the buffer, or correcting its target.\<close>

definition btb_enter :: "md_addr_t \<Rightarrow> md_addr_t \<Rightarrow> word_t \<Rightarrow> bool \<Rightarrow> btb_ent_t \<Rightarrow> btb_ent_t" where
  "btb_enter baddr btarget op correct e =
     (if be_addr e = baddr then if \<not> correct then e\<lparr>be_target := btarget\<rparr> else e
      else e\<lparr>be_addr := baddr, be_op := op, be_target := btarget\<rparr>)"

definition bpred_update :: "bpred_t \<Rightarrow> md_addr_t \<Rightarrow> md_addr_t \<Rightarrow> bool \<Rightarrow> bool \<Rightarrow> bool \<Rightarrow> word_t \<Rightarrow> bpred_update_t \<Rightarrow>
    bpred_t option" where
  "bpred_update pred baddr btarget taken pred_taken correct op up =
     (if \<not> is_ctrl op then Some pred
      else let p1 = update_stats pred op taken pred_taken correct up in
        if MD_IS_INDIR op \<and> up_ras up then Some p1
        else if bp_class p1 = BPredNotTaken \<or> bp_class p1 = BPredTaken then Some p1
        else do {
          p2 \<leftarrow> update_history p1 baddr op taken;
          sel \<leftarrow> (if taken then map_option Some (btb_select p2 baddr) else Some None);
          p3 \<leftarrow> bump_ctr taken (up_pdir1 up)
            (case sel of None \<Rightarrow> p2 | Some (i, data) \<Rightarrow> p2\<lparr>btb_data := data\<rparr>);
          p4 \<leftarrow> bump_ctr taken (up_pdir2 up) p3;
          p5 \<leftarrow> (if up_pmeta up \<noteq> None \<and> up_bimod up \<noteq> up_twolev up
                then bump_ctr (up_twolev up = taken) (up_pmeta up) p4 else Some p4);
          Some (case sel of None \<Rightarrow> p5
            | Some (i, _) \<Rightarrow> p5\<lparr>btb_data := upd_ent i (btb_enter baddr btarget op correct) (btb_data p5)\<rparr>) })"

text \<open>
  \<open>bpred_after_priming()\<close>: the statistics start again; \<open>jr_non_ras_hits\<close> and
  \<open>jr_non_ras_seen\<close> are not among those the code resets.
\<close>

definition bpred_after_priming :: "bpred_t \<Rightarrow> bpred_t" where
  "bpred_after_priming bpred =
     bpred\<lparr>bp_lookups := 0, addr_hits := 0, dir_hits := 0, used_ras := 0, used_bimod := 0, used_2lev := 0,
           jr_hits := 0, jr_seen := 0, bp_misses := 0, retstack_pops := 0, retstack_pushes := 0, ras_hits := 0\<rparr>"

end
