(* ===== verification/Bpred_Inv.thy ===== *)
theory Bpred_Inv
  imports Bpred Cache_Inv
begin

text \<open>
  The invariant of the branch predictors: every table has the length its size says and
  holds two-bit counters, a history register fits its width, the top of the return stack
  is a position of it, and the entries of a set of the target buffer form one LRU chain
  with no branch in it twice.  Creation establishes it, and a lookup keeps it.
\<close>

named_theorems bp_simps \<open>reading the parts of a predictor after an update of others\<close>

section \<open>Words as sizes and indices\<close>

lemma mask_less: "n \<noteq> 0 \<Longrightarrow> unat (x AND (n - 1)) < unat (n :: 'a :: len word)"
proof -
  assume n: "n \<noteq> 0"
  have "x AND (n - 1) \<le> n - 1" by (rule word_and_le1)
  also have "n - 1 < n" using n by uint_arith
  finally show ?thesis by (simp add: word_less_nat_alt)
qed

lemma smod_nat: "int a smod int b = int (a mod b)"
  by (simp add: signed_modulo_int_def zmod_int sgn_if)

lemma unat_back:
  assumes "unat s \<le> 2 ^ 30" "unat t < unat s"
  shows "unat (t + s - 1 :: word_t) = unat t + unat s - 1"
proof -
  have "unat (t + s) = unat t + unat s" using assms by (subst unat_word_ariths) auto
  moreover from this have "1 \<le> t + s" using assms by (auto simp: word_le_nat_alt)
  ultimately show ?thesis by (subst unat_sub) auto
qed

lemma unat_next: "unat (s :: word_t) \<le> 2 ^ 30 \<Longrightarrow> unat t < unat s \<Longrightarrow> unat (t + 1 :: word_t) = unat t + 1"
  by (subst unat_word_ariths) auto

text \<open>The next and the previous position of the return stack, which wrap around.\<close>

lemma tos_forward:
  assumes "unat (n :: word_t) \<le> 2 ^ 30" "unat (t :: word_t) < unat n"
  shows "unat (word_of_int (sint (t + 1) smod sint n) :: word_t) = (unat t + 1) mod unat n"
proof -
  have u: "unat (t + 1) = unat t + 1" using assms by (rule unat_next)
  have "sint (t + 1) = int (unat (t + 1))" "sint n = int (unat n)"
    by (rule sint_small, use assms u in simp)+
  then have "sint (t + 1) smod sint n = int ((unat t + 1) mod unat n)" by (simp only: smod_nat u)
  moreover have "(unat t + 1) mod unat n < 2 ^ 32"
    using assms by (intro less_trans [OF mod_less_divisor]) auto
  ultimately show ?thesis by (simp add: unat_of_nat del: of_nat_Suc)
qed

lemma tos_back:
  assumes "unat (n :: word_t) \<le> 2 ^ 30" "unat (t :: word_t) < unat n"
  shows "unat (word_of_int (sint (t + n - 1) smod sint n) :: word_t) = (unat t + unat n - 1) mod unat n"
proof -
  have u: "unat (t + n - 1) = unat t + unat n - 1" using assms by (rule unat_back)
  have "sint (t + n - 1) = int (unat (t + n - 1))" "sint n = int (unat n)"
    by (rule sint_small, use assms u in simp)+
  then have "sint (t + n - 1) smod sint n = int ((unat t + unat n - 1) mod unat n)" by (simp only: smod_nat u)
  moreover have "(unat t + unat n - 1) mod unat n < 2 ^ 32"
    using assms by (intro less_trans [OF mod_less_divisor]) auto
  ultimately show ?thesis by (simp add: unat_of_nat)
qed

section \<open>The invariant\<close>

definition counters_ok :: "word_t \<Rightarrow> byte_t list \<Rightarrow> bool" where
  "counters_ok n t \<longleftrightarrow> n \<noteq> 0 \<and> length t = unat n \<and> (\<forall>c \<in> set t. c \<le> 3)"

definition two_ok :: "two_t \<Rightarrow> bool" where
  "two_ok t \<longleftrightarrow> two_l1size t \<noteq> 0 \<and> length (two_shiftregs t) = unat (two_l1size t)
     \<and> counters_ok (two_l2size t) (two_l2table t) \<and> two_shift_width t \<le> 30
     \<and> (\<forall>r \<in> set (two_shiftregs t). unat r < 2 ^ unat (two_shift_width t))"

definition stateful :: "bpred_t \<Rightarrow> bool" where
  "stateful pred \<longleftrightarrow> bp_class pred \<noteq> BPredTaken \<and> bp_class pred \<noteq> BPredNotTaken"

definition dirs_ok :: "bpred_t \<Rightarrow> bool" where
  "dirs_ok pred \<longleftrightarrow>
     (bp_bimod pred = None \<longrightarrow> bp_class pred \<noteq> BPredComb \<and> bp_class pred \<noteq> BPred2bit)
     \<and> (bp_twolev pred = None \<longrightarrow> bp_class pred \<noteq> BPredComb \<and> bp_class pred \<noteq> BPred2Level)
     \<and> (bp_meta pred = None \<longrightarrow> bp_class pred \<noteq> BPredComb)
     \<and> (\<forall>b. bp_bimod pred = Some b \<longrightarrow> counters_ok (bimod_size b) (bimod_table b))
     \<and> (\<forall>t. bp_twolev pred = Some t \<longrightarrow> two_ok t)
     \<and> (\<forall>m. bp_meta pred = Some m \<longrightarrow> counters_ok (bimod_size m) (bimod_table m))"

definition ras_ok :: "bpred_t \<Rightarrow> bool" where
  "ras_ok pred \<longleftrightarrow> ras_size pred = 0
     \<or> unat (ras_size pred) \<le> 2 ^ 30 \<and> length (ras_stack pred) = unat (ras_size pred)
       \<and> unat (ras_tos pred) < unat (ras_size pred)"

text \<open>The positions of a set, and what they hold: one chain, and no branch twice.\<close>

definition set_of_btb :: "nat \<Rightarrow> nat \<Rightarrow> nat set" where
  "set_of_btb assoc s = {s * assoc ..< s * assoc + assoc}"

definition one_chain :: "(nat \<Rightarrow> btb_ent_t) \<Rightarrow> nat set \<Rightarrow> bool" where
  "one_chain data W \<longleftrightarrow>
     (\<exists>xs hp tp. set xs = W \<and> dlist (\<lambda>i. be_next (data i)) (\<lambda>i. be_prev (data i)) hp tp xs)"

definition one_match :: "(nat \<Rightarrow> btb_ent_t) \<Rightarrow> nat set \<Rightarrow> bool" where
  "one_match data W \<longleftrightarrow>
     (\<forall>i \<in> W. \<forall>j \<in> W. be_addr (data i) = be_addr (data j) \<longrightarrow> be_addr (data i) \<noteq> 0 \<longrightarrow> i = j)"

definition btb_ok :: "bpred_t \<Rightarrow> bool" where
  "btb_ok pred \<longleftrightarrow> btb_sets pred \<noteq> 0 \<and> btb_assoc pred \<noteq> 0
     \<and> unat (btb_sets pred) * unat (btb_assoc pred) < 2 ^ 31
     \<and> (\<forall>s < unat (btb_sets pred). one_chain (btb_data pred) (set_of_btb (unat (btb_assoc pred)) s)
          \<and> one_match (btb_data pred) (set_of_btb (unat (btb_assoc pred)) s))"

definition bpred_ok :: "bpred_t \<Rightarrow> bool" where
  "bpred_ok pred \<longleftrightarrow> dirs_ok pred \<and> (stateful pred \<longrightarrow> btb_ok pred \<and> ras_ok pred)"

text \<open>The counters an update record points to are in the tables.\<close>

definition ptr_ok :: "bpred_t \<Rightarrow> ctr_ptr option \<Rightarrow> bool" where
  "ptr_ok pred p \<longleftrightarrow> (case p of None \<Rightarrow> True | Some q \<Rightarrow> get_ctr pred q \<noteq> None)"

definition up_ok :: "bpred_t \<Rightarrow> bpred_update_t \<Rightarrow> bool" where
  "up_ok pred up \<longleftrightarrow> ptr_ok pred (up_pdir1 up) \<and> ptr_ok pred (up_pdir2 up) \<and> ptr_ok pred (up_pmeta up)"

definition idx_ok :: "bpred_t \<Rightarrow> word_t \<Rightarrow> bool" where
  "idx_ok pred idx \<longleftrightarrow> (stateful pred \<and> ras_size pred \<noteq> 0 \<longrightarrow> unat idx < unat (ras_size pred))"


section \<open>The invariant and the parts of a predictor\<close>

lemma stateful_upd [bp_simps]:
  "stateful (pred\<lparr>bp_bimod := b\<rparr>) = stateful pred" "stateful (pred\<lparr>bp_twolev := t\<rparr>) = stateful pred"
  "stateful (pred\<lparr>bp_meta := b\<rparr>) = stateful pred" "stateful (pred\<lparr>btb_data := d\<rparr>) = stateful pred"
  "stateful (pred\<lparr>ras_tos := i\<rparr>) = stateful pred"
  by (simp_all add: stateful_def)

lemma dirs_ok_upd [bp_simps]:
  "dirs_ok (pred\<lparr>btb_data := d\<rparr>) = dirs_ok pred" "dirs_ok (pred\<lparr>ras_tos := i\<rparr>) = dirs_ok pred"
  by (simp_all add: dirs_ok_def)

lemma ras_ok_upd [bp_simps]:
  "ras_ok (pred\<lparr>bp_bimod := b\<rparr>) = ras_ok pred" "ras_ok (pred\<lparr>bp_twolev := t\<rparr>) = ras_ok pred"
  "ras_ok (pred\<lparr>bp_meta := b\<rparr>) = ras_ok pred" "ras_ok (pred\<lparr>btb_data := d\<rparr>) = ras_ok pred"
  by (simp_all add: ras_ok_def)

lemma btb_ok_upd [bp_simps]:
  "btb_ok (pred\<lparr>bp_bimod := b\<rparr>) = btb_ok pred" "btb_ok (pred\<lparr>bp_twolev := t\<rparr>) = btb_ok pred"
  "btb_ok (pred\<lparr>bp_meta := b\<rparr>) = btb_ok pred" "btb_ok (pred\<lparr>ras_tos := i\<rparr>) = btb_ok pred"
  by (simp_all add: btb_ok_def)

text \<open>Two predictors that differ in the statistics only.\<close>

definition same_state :: "bpred_t \<Rightarrow> bpred_t \<Rightarrow> bool" where
  "same_state p q \<longleftrightarrow> bp_class p = bp_class q \<and> bp_bimod p = bp_bimod q \<and> bp_twolev p = bp_twolev q
     \<and> bp_meta p = bp_meta q \<and> btb_sets p = btb_sets q \<and> btb_assoc p = btb_assoc q
     \<and> btb_data p = btb_data q \<and> ras_size p = ras_size q \<and> ras_tos p = ras_tos q \<and> ras_stack p = ras_stack q"

lemma same_state_ctr: "same_state p q \<Longrightarrow> get_ctr p r = get_ctr q r"
  by (simp add: same_state_def get_ctr_def split: ctr_ptr.splits)

lemma same_state_ok:
  assumes "same_state p q"
  shows "bpred_ok p = bpred_ok q" "up_ok p up = up_ok q up" "idx_ok p i = idx_ok q i" "stateful p = stateful q"
  using assms same_state_ctr [OF assms]
  by (simp_all add: same_state_def bpred_ok_def dirs_ok_def btb_ok_def ras_ok_def stateful_def
      up_ok_def ptr_ok_def idx_ok_def cong: option.case_cong)

lemma update_stats_same: "same_state (update_stats pred op taken pt c up) pred"
  by (simp add: update_stats_def same_state_def Let_def)

lemma priming_same: "same_state (bpred_after_priming pred) pred"
  by (simp add: bpred_after_priming_def same_state_def)

text \<open>The tables keep their lengths, so that what pointed into them still does.\<close>

definition same_shape :: "bpred_t \<Rightarrow> bpred_t \<Rightarrow> bool" where
  "same_shape p q \<longleftrightarrow> bp_class p = bp_class q \<and> ras_size p = ras_size q
     \<and> map_option (\<lambda>b. length (bimod_table b)) (bp_bimod p) = map_option (\<lambda>b. length (bimod_table b)) (bp_bimod q)
     \<and> map_option (\<lambda>b. length (two_l2table b)) (bp_twolev p) = map_option (\<lambda>b. length (two_l2table b)) (bp_twolev q)
     \<and> map_option (\<lambda>b. length (bimod_table b)) (bp_meta p) = map_option (\<lambda>b. length (bimod_table b)) (bp_meta q)"

lemma same_shape_refl [simp]: "same_shape p p"
  by (simp add: same_shape_def)

lemma same_shape_trans [trans]: "same_shape p q \<Longrightarrow> same_shape q r \<Longrightarrow> same_shape p r"
  by (simp add: same_shape_def)

lemma same_state_shape: "same_state p q \<Longrightarrow> same_shape p q"
  by (simp add: same_state_def same_shape_def)

lemma same_shape_upd [bp_simps]:
  "same_shape (p\<lparr>btb_data := d\<rparr>) q = same_shape p q" "same_shape (p\<lparr>ras_tos := i\<rparr>) q = same_shape p q"
  "same_shape p (q\<lparr>btb_data := d\<rparr>) = same_shape p q"
  by (simp_all add: same_shape_def)

definition ctr_count :: "bpred_t \<Rightarrow> ctr_ptr \<Rightarrow> nat option" where
  "ctr_count pred p =
     (case p of
        BimodCtr _ \<Rightarrow> map_option (\<lambda>b. length (bimod_table b)) (bp_bimod pred)
      | TwolevCtr _ \<Rightarrow> map_option (\<lambda>b. length (two_l2table b)) (bp_twolev pred)
      | MetaCtr _ \<Rightarrow> map_option (\<lambda>b. length (bimod_table b)) (bp_meta pred))"

definition ctr_no :: "ctr_ptr \<Rightarrow> nat" where
  "ctr_no p = (case p of BimodCtr i \<Rightarrow> i | TwolevCtr i \<Rightarrow> i | MetaCtr i \<Rightarrow> i)"

lemma get_ctr_defined: "get_ctr pred p \<noteq> None \<longleftrightarrow> (\<exists>n. ctr_count pred p = Some n \<and> ctr_no p < n)"
  by (auto simp: get_ctr_def aget_def ctr_count_def ctr_no_def split: ctr_ptr.splits Option.bind_splits)

lemmas get_ctr_some = get_ctr_defined [unfolded not_None_eq]

lemma same_shape_count: "same_shape p q \<Longrightarrow> ctr_count p r = ctr_count q r"
  by (simp add: ctr_count_def same_shape_def split: ctr_ptr.splits)

lemma same_shape_ok:
  assumes "same_shape p q"
  shows "up_ok p up = up_ok q up" "idx_ok p i = idx_ok q i" "stateful p = stateful q"
proof -
  have "get_ctr p r \<noteq> None \<longleftrightarrow> get_ctr q r \<noteq> None" for r
    using same_shape_count [OF assms] by (simp only: get_ctr_defined)
  then show "up_ok p up = up_ok q up" by (simp add: up_ok_def ptr_ok_def split: option.splits)
  show "idx_ok p i = idx_ok q i" "stateful p = stateful q"
    using assms by (simp_all add: idx_ok_def same_shape_def stateful_def)
qed

section \<open>Creation\<close>

lemma flipflops_ok: "f \<le> 3 \<Longrightarrow> length (flipflops n f) = n \<and> (\<forall>c \<in> set (flipflops n f). c \<le> 3)"
proof (induction n arbitrary: f)
  case (Suc n)
  have "3 - f \<le> 3" using Suc.prems by uint_arith
  then show ?case using Suc by auto
qed simp

lemma create_2bit_ok:
  "bpred_dir_create_2bit n = Some b \<Longrightarrow> counters_ok (bimod_size b) (bimod_table b)"
  using flipflops_ok [of 1 "unat n"]
  by (auto simp: bpred_dir_create_2bit_def counters_ok_def pow2_def split: if_splits)

lemma create_2lev_ok: "bpred_dir_create_2lev l1 l2 sw xr = Some t \<Longrightarrow> two_ok t"
  using flipflops_ok [of 1 "unat l2"]
  by (auto simp: bpred_dir_create_2lev_def two_ok_def counters_ok_def pow2_def split: if_splits)

lemma create_dirs_ok:
  assumes "create_dirs cls b l1 l2 m sw xr = Some pred"
  shows "dirs_ok pred" "bp_class pred = cls"
  using assms
  by (auto simp: create_dirs_def dirs_ok_def new_bpred_def create_2bit_ok create_2lev_ok
      split: bpred_class.splits Option.bind_splits)

text \<open>The chain of a new set leads through its positions in order.\<close>

lemma seg_upt:
  assumes "\<And>i. a \<le> i \<Longrightarrow> i < b \<Longrightarrow> nx i = (if i = b - 1 then q else Some (i + 1))" "a < b"
  shows "seg nx (Some a) [a ..< b] q"
  using assms
proof (induction "b - a" arbitrary: a)
  case (Suc n)
  show ?case
  proof (cases "Suc a = b")
    case True
    then show ?thesis using Suc.prems(1) [of a] by (auto simp: upt_rec)
  next
    case False
    then have "seg nx (Some (Suc a)) [Suc a ..< b] q" using Suc by (intro Suc.hyps(1)) auto
    moreover have "nx a = Some (Suc a)" using Suc.prems(1) [of a] Suc.prems(2) False by auto
    ultimately show ?thesis using Suc.prems(2) by (simp add: upt_conv_Cons)
  qed
qed simp

lemma seg_rev_upt:
  assumes "\<And>i. a \<le> i \<Longrightarrow> i < b \<Longrightarrow> nx i = (if i = a then q else Some (i - 1))" "a < b"
  shows "seg nx (Some (b - 1)) (rev [a ..< b]) q"
  using assms
proof (induction "b - a" arbitrary: b)
  case (Suc n)
  show ?case
  proof (cases "Suc a = b")
    case True
    then show ?thesis using Suc.prems by (simp add: upt_rec)
  next
    case False
    obtain c where c: "b = Suc c" "a < c" using Suc.prems False by (cases b) auto
    then have "seg nx (Some (c - 1)) (rev [a ..< c]) q" using Suc by (intro Suc.hyps(1)) auto
    then show ?thesis using Suc.prems(1) [of c] c by simp
  qed
qed simp

lemma new_chain:
  assumes "0 < a"
  shows "one_chain (new_btb_ent a) (set_of_btb a s)"
proof -
  let ?l = "s * a" and ?h = "s * a + a"
  have m: "i mod a = i - ?l" if "?l \<le> i" "i < ?h" for i
    using that assms by (metis le_add_diff_inverse mod_mult_self3 mod_less less_diff_conv2 add.commute)
  have "seg (\<lambda>i. be_next (new_btb_ent a i)) (Some ?l) [?l ..< ?h] None"
    using assms by (intro seg_upt) (auto simp: new_btb_ent_def m)
  moreover have "seg (\<lambda>i. be_prev (new_btb_ent a i)) (Some (?h - 1)) (rev [?l ..< ?h]) None"
    using assms by (intro seg_rev_upt) (auto simp: new_btb_ent_def m)
  ultimately have "dlist (\<lambda>i. be_next (new_btb_ent a i)) (\<lambda>i. be_prev (new_btb_ent a i)) (Some ?l) (Some (?h - 1)) [?l ..< ?h]"
    by (simp add: dlist_def)
  then show ?thesis unfolding one_chain_def set_of_btb_def by (intro exI conjI) auto
qed

lemma bpred_create_ok:
  assumes "bpred_create cls b l1 l2 m sw xr sets assoc ras = Some pred"
    "unat sets * unat assoc < 2 ^ 31" "unat ras \<le> 2 ^ 30"
  shows "bpred_ok pred"
proof -
  obtain q where q: "create_dirs cls b l1 l2 m sw xr = Some q"
    using assms(1) by (auto simp: bpred_create_def split: Option.bind_splits)
  note ok = create_dirs_ok [OF q]
  show ?thesis
  proof (cases "cls = BPredTaken \<or> cls = BPredNotTaken")
    case True
    then have "pred = q" using assms(1) q by (auto simp: bpred_create_def)
    then show ?thesis using ok True by (auto simp: bpred_ok_def stateful_def)
  next
    case False
    then have p: "pow2 sets" "pow2 assoc" and pred: "pred = q\<lparr>btb_sets := sets, btb_assoc := assoc,
        btb_data := new_btb_ent (unat assoc), ras_size := ras, ras_tos := ras - 1,
        ras_stack := replicate (unat ras) 0\<rparr>"
      using assms(1) q by (auto simp: bpred_create_def split: if_splits)
    have "0 < unat assoc" using p by (auto simp: pow2_def unat_gt_0)
    then have "btb_ok pred"
      using p assms new_chain [of "unat assoc"]
      by (auto simp: btb_ok_def pred pow2_def one_match_def new_btb_ent_def)
    moreover have "ras_ok pred"
    proof (cases "ras = 0")
      case False
      then have "ras - 1 < ras" by uint_arith
      then show ?thesis using assms by (simp add: ras_ok_def pred word_less_nat_alt)
    qed (simp add: ras_ok_def pred)
    ultimately show ?thesis using ok by (simp add: bpred_ok_def pred dirs_ok_def)
  qed
qed

section \<open>Lookup\<close>

lemma bimod_ptr:
  assumes "bp_bimod pred = Some b" "counters_ok (bimod_size b) (bimod_table b)"
  shows "get_ctr pred (BimodCtr (unat (BIMOD_HASH b a))) \<noteq> None"
  using assms mask_less [of "bimod_size b"]
  by (auto simp: get_ctr_some ctr_count_def ctr_no_def counters_ok_def BIMOD_HASH_def)

lemma meta_ptr:
  assumes "bp_meta pred = Some b" "counters_ok (bimod_size b) (bimod_table b)"
  shows "get_ctr pred (MetaCtr (unat (BIMOD_HASH b a))) \<noteq> None"
  using assms mask_less [of "bimod_size b"]
  by (auto simp: get_ctr_some ctr_count_def ctr_no_def counters_ok_def BIMOD_HASH_def)

lemma l2_index_ok:
  assumes "two_ok t"
  obtains i where "l2_index t a = Some i" "unat i < length (two_l2table t)"
  using assms mask_less [of "two_l1size t"] mask_less [of "two_l2size t"] that
  unfolding l2_index_def Let_def
  by (auto simp: aget_def two_ok_def counters_ok_def)

lemma twolev_ptr:
  assumes "bp_twolev pred = Some t" "two_ok t"
  obtains p where "lookup_twolev pred a = Some p" "get_ctr pred p \<noteq> None"
proof -
  obtain i where "l2_index t a = Some i" "unat i < length (two_l2table t)"
    using assms(2) by (rule l2_index_ok)
  then show ?thesis using assms(1)
    by (intro that [of "TwolevCtr (unat i)"]) (auto simp: lookup_twolev_def get_ctr_some ctr_count_def ctr_no_def)
qed

lemma lookup_dirs_ok:
  assumes "dirs_ok pred" "stateful pred" "up_pdir1 up = None" "up_pdir2 up = None" "up_pmeta up = None"
  obtains up' where "lookup_dirs pred a op up = Some up'" "up_ok pred up'" "up_ras up' = up_ras up"
    "\<not> is_uncond op \<Longrightarrow> \<exists>p. up_pdir1 up' = Some p \<and> get_ctr pred p \<noteq> None"
proof -
  let ?thesis' = "\<exists>up'. lookup_dirs pred a op up = Some up' \<and> up_ok pred up' \<and> up_ras up' = up_ras up
    \<and> (\<not> is_uncond op \<longrightarrow> (\<exists>p. up_pdir1 up' = Some p \<and> get_ctr pred p \<noteq> None))"
  have u: "up_ok pred up" using assms(3-5) by (simp add: up_ok_def ptr_ok_def)
  have B: "\<exists>p. lookup_bimod pred a = Some p \<and> get_ctr pred p \<noteq> None" if "bp_bimod pred \<noteq> None"
    using that assms(1) bimod_ptr by (auto simp: lookup_bimod_def dirs_ok_def)
  have M: "\<exists>p. lookup_meta pred a = Some p \<and> get_ctr pred p \<noteq> None" if "bp_meta pred \<noteq> None"
    using that assms(1) meta_ptr by (auto simp: lookup_meta_def dirs_ok_def)
  have T: "\<exists>p. lookup_twolev pred a = Some p \<and> get_ctr pred p \<noteq> None" if tw: "bp_twolev pred \<noteq> None"
  proof -
    obtain t where t: "bp_twolev pred = Some t" "two_ok t" using tw assms(1) by (auto simp: dirs_ok_def)
    show ?thesis by (rule twolev_ptr [OF t]) blast
  qed
  have ?thesis'
  proof (cases "is_uncond op")
    case True
    then show ?thesis using u by (simp add: lookup_dirs_def)
  next
    case un: False
    show ?thesis
    proof (cases "bp_class pred")
      case BPredComb
      then obtain b t m bv tv mv where
        "lookup_bimod pred a = Some b" "lookup_twolev pred a = Some t" "lookup_meta pred a = Some m"
        "get_ctr pred b = Some bv" "get_ctr pred t = Some tv" "get_ctr pred m = Some mv"
        using B T M assms(1) by (auto simp: dirs_ok_def)
      then show ?thesis using un BPredComb by (simp add: lookup_dirs_def Let_def up_ok_def ptr_ok_def)
    next
      case BPred2Level
      then obtain t where "lookup_twolev pred a = Some t" "get_ctr pred t \<noteq> None"
        using T assms(1) by (auto simp: dirs_ok_def)
      then show ?thesis using un BPred2Level u by (simp add: lookup_dirs_def up_ok_def ptr_ok_def)
    next
      case BPred2bit
      then obtain t where "lookup_bimod pred a = Some t" "get_ctr pred t \<noteq> None"
        using B assms(1) by (auto simp: dirs_ok_def)
      then show ?thesis using un BPred2bit u by (simp add: lookup_dirs_def up_ok_def ptr_ok_def)
    qed (use assms(2) in \<open>simp_all add: stateful_def\<close>)
  qed
  then show ?thesis using that by blast
qed

lemma ras_pop_eq:
  assumes "ras_ok pred" "ras_size pred \<noteq> 0"
  obtains i where "unat i = (unat (ras_tos pred) + unat (ras_size pred) - 1) mod unat (ras_size pred)"
    "ras_pop pred = Some (ras_stack pred ! unat (ras_tos pred),
       pred\<lparr>ras_tos := i, retstack_pops := retstack_pops pred + 1\<rparr>)"
  by (rule that [OF tos_back]) (use assms in \<open>auto simp: ras_ok_def ras_pop_def aget_def\<close>)

lemma ras_push_eq:
  assumes "ras_ok pred" "ras_size pred \<noteq> 0"
  obtains i where "unat i = (unat (ras_tos pred) + 1) mod unat (ras_size pred)"
    "ras_push pred a = Some (pred\<lparr>ras_tos := i, ras_stack := (ras_stack pred)[unat i := a + 8],
       retstack_pushes := retstack_pushes pred + 1\<rparr>)"
proof (rule that [OF tos_forward])
  let ?i = "word_of_int (sint (ras_tos pred + 1) smod sint (ras_size pred)) :: word_t"
  have u: "unat ?i = (unat (ras_tos pred) + 1) mod unat (ras_size pred)"
    by (rule tos_forward) (use assms in \<open>auto simp: ras_ok_def\<close>)
  then have "unat ?i < length (ras_stack pred)"
    using assms by (auto simp: ras_ok_def)
  then show "ras_push pred a = Some (pred\<lparr>ras_tos := ?i, ras_stack := (ras_stack pred)[unat ?i := a + 8],
       retstack_pushes := retstack_pushes pred + 1\<rparr>)"
    unfolding ras_push_def Let_def aset_def by simp
qed (use assms in \<open>auto simp: ras_ok_def\<close>)


text \<open>The sets of the buffer.\<close>

lemma btb_set_range:
  assumes "btb_ok pred"
  obtains s where "s < unat (btb_sets pred)" "btb_index pred a = s * unat (btb_assoc pred)"
    "sint (btb_assoc pred) > 1 \<longleftrightarrow> unat (btb_assoc pred) > 1" "btb_inside pred a"
proof -
  let ?w = "drop_bit MD_BR_SHIFT a AND (btb_sets pred - 1)" and ?k = "unat (btb_assoc pred)"
  from assms have ok: "btb_sets pred \<noteq> 0" "0 < ?k" "unat (btb_sets pred) * ?k < 2 ^ 31"
    by (auto simp: btb_ok_def unat_gt_0)
  have w: "unat ?w < unat (btb_sets pred)" by (rule mask_less [OF ok(1)])
  then have "1 * ?k \<le> unat (btb_sets pred) * ?k" by (intro mult_le_mono1) auto
  then have "sint (btb_assoc pred) = int ?k" using ok(3) by (intro sint_small) linarith
  then have k1: "sint (btb_assoc pred) > 1 \<longleftrightarrow> ?k > 1"
    by (simp only: of_nat_1 [symmetric, where 'a = int] of_nat_less_iff)
  have "unat ?w * ?k \<le> unat (btb_sets pred) * ?k" using w by (intro mult_le_mono1) auto
  then have "unat ?w * ?k < 2 ^ 31" using ok(3) by linarith
  also have "(2 :: nat) ^ 31 < 2 ^ 32" by simp
  finally have "unat (?w * btb_assoc pred) = unat ?w * ?k" by (subst unat_word_ariths) (simp del: mult_less_cancel2)
  then have ix: "btb_index pred a = unat ?w * ?k"
    using k1 ok(2) by (cases "?k = 1") (auto simp: btb_index_def Let_def)
  moreover have "btb_inside pred a"
  proof -
    have "Suc (unat ?w) * ?k \<le> unat (btb_sets pred) * ?k" using w by (intro mult_le_mono1) auto
    moreover have "unat (btb_sets pred * btb_assoc pred) = unat (btb_sets pred) * ?k"
      using ok(3) by (subst unat_word_ariths) (simp del: mult_less_cancel2)
    ultimately show ?thesis using ix k1 ok(2) by (auto simp: btb_inside_def)
  qed
  ultimately show ?thesis using w k1 ix by (intro that)
qed

lemma btb_ways_set:
  "btb_index pred a = s * unat (btb_assoc pred) \<Longrightarrow> set (btb_ways pred a) = set_of_btb (unat (btb_assoc pred)) s"
  by (simp add: btb_ways_def set_of_btb_def)

lemma predict_some:
  assumes "btb_ok pred" "is_uncond op \<or> (\<exists>p. up_pdir1 up = Some p \<and> get_ctr pred p \<noteq> None)"
  shows "predict pred a op up \<noteq> None"
  by (rule btb_set_range [OF assms(1), of a]) (use assms(2) in \<open>auto simp: predict_def btb_find_def Let_def\<close>)

lemma ras_ops_ok:
  assumes "bpred_ok pred" "stateful pred" "ras_size pred \<noteq> 0"
  shows "\<exists>t p. ras_pop pred = Some (t, p) \<and> bpred_ok p \<and> same_shape p pred"
    "\<exists>p. ras_push pred a = Some p \<and> bpred_ok p \<and> same_shape p pred"
proof -
  from assms have r: "ras_ok pred" and n: "0 < unat (ras_size pred)" by (auto simp: bpred_ok_def unat_gt_0)
  show "\<exists>t p. ras_pop pred = Some (t, p) \<and> bpred_ok p \<and> same_shape p pred"
  proof (rule ras_pop_eq [OF r assms(3)])
    fix i assume "unat i = (unat (ras_tos pred) + unat (ras_size pred) - 1) mod unat (ras_size pred)"
      and eq: "ras_pop pred = Some (ras_stack pred ! unat (ras_tos pred),
        pred\<lparr>ras_tos := i, retstack_pops := retstack_pops pred + 1\<rparr>)"
    then have "unat i < unat (ras_size pred)" using n by simp
    then show ?thesis using assms unfolding eq
      by (simp add: bpred_ok_def dirs_ok_def btb_ok_def ras_ok_def stateful_def same_shape_def)
  qed
  show "\<exists>p. ras_push pred a = Some p \<and> bpred_ok p \<and> same_shape p pred"
  proof (rule ras_push_eq [OF r assms(3)])
    fix i assume "unat i = (unat (ras_tos pred) + 1) mod unat (ras_size pred)"
      and eq: "ras_push pred a = Some (pred\<lparr>ras_tos := i, ras_stack := (ras_stack pred)[unat i := a + 8],
        retstack_pushes := retstack_pushes pred + 1\<rparr>)"
    then have "unat i < unat (ras_size pred)" using n by simp
    then show ?thesis using assms unfolding eq
      by (simp add: bpred_ok_def dirs_ok_def btb_ok_def ras_ok_def stateful_def same_shape_def)
  qed
qed

lemma bpred_lookup_branch:
  assumes "is_ctrl op" "bp_class pred \<noteq> BPredTaken" "bp_class pred \<noteq> BPredNotTaken"
    "lookup_dirs (pred\<lparr>bp_lookups := bp_lookups pred + 1\<rparr>) a op
       (up\<lparr>up_ras := False, up_pdir1 := None, up_pdir2 := None, up_pmeta := None\<rparr>) = Some u2"
    "\<not> (r \<and> ras_size pred \<noteq> 0)"
    "(if c \<and> ras_size pred \<noteq> 0 then ras_push (pred\<lparr>bp_lookups := bp_lookups pred + 1\<rparr>) a
      else Some (pred\<lparr>bp_lookups := bp_lookups pred + 1\<rparr>)) = Some p2"
    "predict p2 a op u2 = Some t"
  shows "bpred_lookup pred a bt op c r up idx = Some (t, p2, u2, if ras_size pred \<noteq> 0 then ras_tos pred else 0)"
proof -
  have r: "(r \<and> ras_size pred \<noteq> 0) = False" using assms(5) by simp
  show ?thesis
    unfolding bpred_lookup_def Let_def
    using assms(1-4,6,7) by (simp add: r cong: if_cong split del: if_split)
qed

lemma bpred_lookup_ok:
  assumes "bpred_ok pred"
  shows "\<exists>t p up' i. bpred_lookup pred a bt op c r up idx = Some (t, p, up', i) \<and> bpred_ok p
    \<and> same_shape p pred \<and> (is_ctrl op \<longrightarrow> up_ok p up' \<and> idx_ok p i)"
proof -
  let ?p1 = "pred\<lparr>bp_lookups := bp_lookups pred + 1\<rparr>"
  let ?u1 = "up\<lparr>up_ras := False, up_pdir1 := None, up_pdir2 := None, up_pmeta := None\<rparr>"
  have s1: "same_state ?p1 pred" by (simp add: same_state_def)
  note ok1 = same_state_ok [OF s1] same_state_shape [OF s1]
  show ?thesis
  proof (cases "\<not> is_ctrl op \<or> \<not> stateful pred")
    case True
    then show ?thesis using assms ok1
      by (auto simp: bpred_lookup_def Let_def stateful_def up_ok_def ptr_ok_def idx_ok_def)
  next
    case False
    then have st: "is_ctrl op" "stateful ?p1" "bp_class pred \<noteq> BPredTaken" "bp_class pred \<noteq> BPredNotTaken"
      by (auto simp: stateful_def)
    have ok: "bpred_ok ?p1" "dirs_ok ?p1" "ras_ok ?p1"
      using assms ok1(1) st(2) by (simp_all add: bpred_ok_def)
    obtain u2 where u2: "lookup_dirs ?p1 a op ?u1 = Some u2" "up_ok ?p1 u2"
      and dir: "\<not> is_uncond op \<Longrightarrow> \<exists>p. up_pdir1 u2 = Some p \<and> get_ctr ?p1 p \<noteq> None"
      by (rule lookup_dirs_ok [OF ok(2) st(2), of ?u1 a op]) auto
    define i1 where "i1 = (if ras_size ?p1 \<noteq> 0 then ras_tos ?p1 else 0)"
    have i1: "idx_ok ?p1 i1" using ok(3) by (auto simp: idx_ok_def i1_def ras_ok_def)
    note eq = bpred_lookup_def Let_def st(1,3,4) u2(1)
    show ?thesis
    proof (cases "r \<and> ras_size ?p1 \<noteq> 0")
      case ret: True
      obtain t p2 where p2: "ras_pop ?p1 = Some (t, p2)" "bpred_ok p2" "same_shape p2 ?p1"
        using ras_ops_ok(1) [OF ok(1) st(2)] ret by blast
      then have "up_ok p2 (u2\<lparr>up_ras := True\<rparr>)" "idx_ok p2 i1" "same_shape p2 pred"
        using same_shape_ok [OF p2(3)] u2(2) i1 same_shape_trans [OF p2(3) ok1(5)] by (simp_all add: up_ok_def)
      then show ?thesis using p2 ret i1_def by (simp add: eq)
    next
      case ret: False
      obtain p2 where p2: "(if c \<and> ras_size ?p1 \<noteq> 0 then ras_push ?p1 a else Some ?p1) = Some p2"
        "bpred_ok p2" "same_shape p2 ?p1"
      proof (cases "c \<and> ras_size ?p1 \<noteq> 0")
        case True
        obtain q where "ras_push ?p1 a = Some q" "bpred_ok q" "same_shape q ?p1"
          using ras_ops_ok(2) [OF ok(1) st(2)] True by blast
        then show ?thesis by (intro that) (simp_all only: True if_True simp_thms)
      next
        case False
        then show ?thesis by (intro that [of ?p1]) (simp_all only: if_False simp_thms ok(1) same_shape_refl)
      qed
      then have u: "up_ok p2 u2" "idx_ok p2 i1" "same_shape p2 pred"
        using same_shape_ok [OF p2(3)] u2(2) i1 same_shape_trans [OF p2(3) ok1(5)] by simp_all
      have "predict p2 a op u2 \<noteq> None"
        using dir same_shape_count [OF p2(3)] p2(2) st(2) same_shape_ok(3) [OF p2(3)]
        by (intro predict_some) (auto simp: get_ctr_some bpred_ok_def)
      then obtain t where t: "predict p2 a op u2 = Some t" by blast
      have "bpred_lookup pred a bt op c r up idx = Some (t, p2, u2, if ras_size pred \<noteq> 0 then ras_tos pred else 0)"
        by (rule bpred_lookup_branch [OF st(1,3,4) u2(1)]) (use p2(1) ret t in simp_all)
      then show ?thesis using p2(2) u i1_def by (cases "ras_size pred = 0") simp_all
    qed
  qed
qed

end
