(* ===== verification/Bpred_Update.thy ===== *)
theory Bpred_Update
  imports Bpred_Inv
begin

text \<open>
  Updating a predictor after a branch keeps the invariant: the history register, the
  saturating counters, and the target buffer, whose used entry moves to the front of the
  LRU chain of its set.
\<close>

section \<open>Update\<close>

lemma c_shl_one:
  assumes "n \<le> 30"
  shows "unat (c_shl 1 n) = 2 ^ unat n"
proof -
  have n: "unat n \<le> 30" using assms by (simp add: word_le_nat_alt)
  have "(31 :: word_t) = mask 5" by (simp add: mask_eq_exp_minus_1)
  then have "unat (n AND 31) = take_bit 5 (unat n)" by (simp only: take_bit_eq_mask [symmetric] unsigned_take_bit_eq)
  then have "unat (n AND 31) = unat n" using n by (simp add: take_bit_nat_eq_self)
  then have "c_shl 1 n = 2 ^ unat n" by (simp only: c_shl_def push_bit_of_1)
  then show ?thesis using n unat_pow2 [of "unat n"] by simp
qed

text \<open>A predictor whose direction tables changed, in their contents only.\<close>

definition dirs_only :: "bpred_t \<Rightarrow> bpred_t \<Rightarrow> bool" where
  "dirs_only p q \<longleftrightarrow> same_shape p q \<and> dirs_ok p
     \<and> (\<exists>b t m. p = q\<lparr>bp_bimod := b, bp_twolev := t, bp_meta := m\<rparr>)"

lemma one_dir [simp]:
  "\<exists>b' t m. p\<lparr>bp_bimod := b\<rparr> = p\<lparr>bp_bimod := b', bp_twolev := t, bp_meta := m\<rparr>"
  "\<exists>b t' m. p\<lparr>bp_twolev := t\<rparr> = p\<lparr>bp_bimod := b, bp_twolev := t', bp_meta := m\<rparr>"
  "\<exists>b t m'. p\<lparr>bp_meta := m\<rparr> = p\<lparr>bp_bimod := b, bp_twolev := t, bp_meta := m'\<rparr>"
  by (rule exI [of _ b], rule exI [of _ "bp_twolev p"], rule exI [of _ "bp_meta p"], simp)
    (rule exI [of _ "bp_bimod p"], rule exI [of _ t], rule exI [of _ "bp_meta p"], simp,
     rule exI [of _ "bp_bimod p"], rule exI [of _ "bp_twolev p"], rule exI [of _ m], simp)

lemma dirs_only_refl: "dirs_ok p \<Longrightarrow> dirs_only p p"
  unfolding dirs_only_def by (metis bpred_t.surjective bpred_t.update_convs(2-4) same_shape_refl)

lemma dirs_only_trans [trans]: "dirs_only p q \<Longrightarrow> dirs_only q r \<Longrightarrow> dirs_only p r"
  unfolding dirs_only_def by (fastforce intro: same_shape_trans)

lemma dirs_only_keeps:
  assumes "dirs_only p q"
  shows "dirs_ok p" "same_shape p q" "btb_ok p = btb_ok q" "ras_ok p = ras_ok q" "stateful p = stateful q"
    "btb_data p = btb_data q" "btb_sets p = btb_sets q" "btb_assoc p = btb_assoc q" "bp_class p = bp_class q"
  using assms unfolding dirs_only_def by (auto simp: bp_simps)

lemma update_history_ok:
  assumes "dirs_ok pred"
  shows "\<exists>p. update_history pred a op taken = Some p \<and> dirs_only p pred"
proof (cases "\<not> is_uncond op \<and> (bp_class pred = BPred2Level \<or> bp_class pred = BPredComb)")
  case True
  then obtain t where t: "bp_twolev pred = Some t" "two_ok t" using assms by (auto simp: dirs_ok_def)
  define l1 where "l1 = unat (drop_bit MD_BR_SHIFT a AND (two_l1size t - 1))"
  let ?m = "c_shl 1 (two_shift_width t) - 1" and ?h = "two_shiftregs t ! l1"
  have l1: "l1 < length (two_shiftregs t)"
    using t(2) mask_less [of "two_l1size t"] by (auto simp: l1_def two_ok_def)
  define r where "r = (push_bit 1 ?h OR (if taken then 1 else 0)) AND ?m"
  define t' where "t' = t\<lparr>two_shiftregs := (two_shiftregs t)[l1 := r]\<rparr>"
  have sw: "two_shift_width t \<le> 30" using t(2) by (simp add: two_ok_def)
  have "c_shl 1 (two_shift_width t) \<noteq> 0" using c_shl_one [OF sw] by auto
  then have "unat r < 2 ^ unat (two_shift_width t)" unfolding r_def c_shl_one [OF sw, symmetric] by (rule mask_less)
  then have "two_ok t'"
    using t(2) set_update_subset_insert [of "two_shiftregs t" l1 r]
    by (auto simp: two_ok_def t'_def)
  moreover have "update_history pred a op taken = Some (pred\<lparr>bp_twolev := Some t'\<rparr>)"
    using True t(1) l1 unfolding update_history_def Let_def
    by (simp add: aget_def aset_def l1_def [symmetric] r_def t'_def)
  ultimately show ?thesis
    using assms t by (auto simp: dirs_only_def dirs_ok_def same_shape_def t'_def)
next
  case False
  then have "update_history pred a op taken = Some pred" by (auto simp: update_history_def)
  then show ?thesis using assms dirs_only_refl by auto
qed

lemma bump_le: "c \<le> 3 \<Longrightarrow> bump u c \<le> (3 :: byte_t)"
proof -
  assume c: "c \<le> 3"
  have "c < 3 \<Longrightarrow> c + 1 \<le> 3" "0 < c \<Longrightarrow> c - 1 \<le> c" for c :: byte_t by unat_arith+
  then show ?thesis using c by (auto simp: bump_def intro: order_trans)
qed

lemma counters_ok_bump:
  assumes "counters_ok n t" "i < length t" 
  shows "counters_ok n (t[i := bump u (t ! i)])"
  using assms set_update_subset_insert [of t i "bump u (t ! i)"] bump_le [of "t ! i" u]
  by (auto simp: counters_ok_def)

lemma bump_ctr_ok:
  assumes "dirs_ok pred" "ptr_ok pred q"
  shows "\<exists>p. bump_ctr u q pred = Some p \<and> dirs_only p pred"
proof (cases q)
  case None
  then show ?thesis using assms dirs_only_refl by (auto simp: bump_ctr_def)
next
  case (Some r)
  then have r: "get_ctr pred r \<noteq> None" using assms(2) by (simp add: ptr_ok_def)
  show ?thesis
  proof (cases r)
    case (BimodCtr i)
    then obtain b where b: "bp_bimod pred = Some b" "i < length (bimod_table b)"
      using r by (auto simp: get_ctr_some ctr_count_def ctr_no_def)
    then have "counters_ok (bimod_size b) ((bimod_table b)[i := bump u (bimod_table b ! i)])"
      using assms(1) counters_ok_bump by (auto simp: dirs_ok_def)
    then show ?thesis using assms(1) b
      by (auto simp: Some BimodCtr bump_ctr_def get_ctr_def set_ctr_def aget_def aset_def
          dirs_only_def dirs_ok_def same_shape_def)
  next
    case (TwolevCtr i)
    then obtain t where t: "bp_twolev pred = Some t" "i < length (two_l2table t)"
      using r by (auto simp: get_ctr_some ctr_count_def ctr_no_def)
    then have "counters_ok (two_l2size t) ((two_l2table t)[i := bump u (two_l2table t ! i)])"
      using assms(1) counters_ok_bump by (auto simp: dirs_ok_def two_ok_def)
    then show ?thesis using assms(1) t
      by (auto simp: Some TwolevCtr bump_ctr_def get_ctr_def set_ctr_def aget_def aset_def
          dirs_only_def dirs_ok_def same_shape_def two_ok_def)
  next
    case (MetaCtr i)
    then obtain b where b: "bp_meta pred = Some b" "i < length (bimod_table b)"
      using r by (auto simp: get_ctr_some ctr_count_def ctr_no_def)
    then have "counters_ok (bimod_size b) ((bimod_table b)[i := bump u (bimod_table b ! i)])"
      using assms(1) counters_ok_bump by (auto simp: dirs_ok_def)
    then show ?thesis using assms(1) b
      by (auto simp: Some MetaCtr bump_ctr_def get_ctr_def set_ctr_def aget_def aset_def
          dirs_only_def dirs_ok_def same_shape_def)
  qed
qed

section \<open>The target buffer\<close>

lemma one_chain_frame:
  assumes "\<And>i. i \<in> W \<Longrightarrow> be_next (d' i) = be_next (d i) \<and> be_prev (d' i) = be_prev (d i)"
  shows "one_chain d' W \<longleftrightarrow> one_chain d W"
proof -
  have "dlist (\<lambda>i. be_next (d' i)) (\<lambda>i. be_prev (d' i)) hp tp xs
      \<longleftrightarrow> dlist (\<lambda>i. be_next (d i)) (\<lambda>i. be_prev (d i)) hp tp xs" if "set xs = W" for xs hp tp
    using assms that seg_frame [of xs "\<lambda>i. be_next (d' i)" "\<lambda>i. be_next (d i)"]
      seg_frame [of "rev xs" "\<lambda>i. be_prev (d' i)" "\<lambda>i. be_prev (d i)"]
    by (simp add: dlist_def)
  then show ?thesis unfolding one_chain_def by blast
qed

lemma one_match_frame: "(\<And>i. i \<in> W \<Longrightarrow> be_addr (d' i) = be_addr (d i)) \<Longrightarrow> one_match d' W \<longleftrightarrow> one_match d W"
  by (simp add: one_match_def)

lemma sets_disjoint: "s \<noteq> s' \<Longrightarrow> set_of_btb k s \<inter> set_of_btb k s' = {}"
proof -
  have "i div k = s" if "i \<in> set_of_btb k s" for i s
    using that by (intro div_nat_eqI) (auto simp: set_of_btb_def ac_simps)
  then show "s \<noteq> s' \<Longrightarrow> ?thesis" by blast
qed

text \<open>A change within one set that leaves it as it should be.\<close>

lemma btb_ok_change:
  assumes "btb_ok pred" "\<And>i. i \<notin> set_of_btb (unat (btb_assoc pred)) s \<Longrightarrow> d i = btb_data pred i"
    "one_chain d (set_of_btb (unat (btb_assoc pred)) s)" "one_match d (set_of_btb (unat (btb_assoc pred)) s)"
  shows "btb_ok (pred\<lparr>btb_data := d\<rparr>)"
proof -
  let ?W = "set_of_btb (unat (btb_assoc pred))"
  have "one_chain d (?W s') \<and> one_match d (?W s')" if "s' < unat (btb_sets pred)" for s'
  proof (cases "s' = s")
    case False
    then have "d i = btb_data pred i" if "i \<in> ?W s'" for i
      using that sets_disjoint [of s' s] assms(2) by blast
    then have "one_chain d (?W s') = one_chain (btb_data pred) (?W s')"
      "one_match d (?W s') = one_match (btb_data pred) (?W s')"
      by (intro one_chain_frame one_match_frame; simp)+
    then show ?thesis using assms(1) that by (simp add: btb_ok_def)
  qed (use assms in simp)
  then show ?thesis using assms(1) by (simp add: btb_ok_def)
qed

text \<open>Moving an entry to the front of its chain.\<close>

lemma promote_links:
  assumes "be_prev (data p) \<noteq> Some p" "l \<noteq> p"
  shows "(\<lambda>i. be_next (btb_promote data p l i)) =
      ((\<lambda>i. case be_prev (data p) of None \<Rightarrow> be_next (data i)
        | Some q \<Rightarrow> if i = q then be_next (data p) else be_next (data i))(p := Some l))"
    "(\<lambda>i. be_prev (btb_promote data p l i)) =
      ((\<lambda>i. case be_next (data p) of None \<Rightarrow> be_prev (data i)
        | Some q \<Rightarrow> if i = q then be_prev (data p) else be_prev (data i))(p := None, l := Some p))"
  using assms by (auto simp: btb_promote_def upd_ent_def Let_def fun_eq_iff split: option.splits)

lemma promote_addr [simp]: "be_addr (btb_promote data p l i) = be_addr (data i)"
  by (simp add: btb_promote_def upd_ent_def Let_def split: option.splits)

lemma promote_dlist:
  assumes "dlist (\<lambda>i. be_next (data i)) (\<lambda>i. be_prev (data i)) (Some l) tp (l # xs)" "p \<in> set xs"
  obtains hp' tp' ys where "set ys = set (l # xs)"
    "dlist (\<lambda>i. be_next (btb_promote data p l i)) (\<lambda>i. be_prev (btb_promote data p l i)) hp' tp' ys"
proof -
  let ?nx = "\<lambda>i. be_next (data i)" and ?pv = "\<lambda>i. be_prev (data i)"
  have d: "distinct (l # xs)" and pl: "p \<noteq> l" using assms by (auto simp: dlist_def)
  have "p \<in> set (l # xs)" using assms(2) by simp
  then show ?thesis
  proof (rule dlist_cases [OF assms(1)])
    fix ys y assume c: "l # xs = ys @ [y, p]" "be_prev (data p) = Some y" "be_next (data p) = None"
    then have py: "y \<noteq> p" using d by (metis distinct_append distinct_length_2_or_more)
    obtain zs where zs: "ys @ [y] = l # zs" using c(1) by (cases ys) auto
    have "dlist (?nx(y := None)) ?pv (Some l) (Some y) (ys @ [y])"
      using assms(1) unfolding c(1) by (rule dlist_pop_last)
    then have "dlist (?nx(y := None, p := Some l)) (?pv(p := None, l := Some p)) (Some p) (Some y) (p # l # zs)"
      unfolding zs by (rule dlist_push) (use d c(1) zs in \<open>auto simp: append_eq_Cons_conv Cons_eq_append_conv\<close>)
    moreover have "set (p # l # zs) = set (l # xs)" using c(1) unfolding zs [symmetric] by auto
    moreover have "(\<lambda>i. be_next (btb_promote data p l i)) = ?nx(y := None, p := Some l)"
      "(\<lambda>i. be_prev (btb_promote data p l i)) = ?pv(p := None, l := Some p)"
      using c py pl by (simp_all add: promote_links fun_eq_iff)
    ultimately show ?thesis by (intro that) (simp_all only:)
  next
    fix ys y z zs assume c: "l # xs = ys @ y # p # z # zs" "be_prev (data p) = Some y" "be_next (data p) = Some z"
    then have py: "y \<noteq> p" using d by (metis distinct_append distinct_length_2_or_more)
    obtain ws where ws: "ys @ y # z # zs = l # ws" using c(1) by (cases ys) auto
    have dz: "distinct (ys @ y # p # z # zs)" using d unfolding c(1) .
    have "dlist (?nx(y := Some z)) (?pv(z := Some y)) (Some l) tp (ys @ y # z # zs)"
      using assms(1) unfolding c(1) by (rule dlist_pop_middle)
    then have "dlist (?nx(y := Some z, p := Some l)) (?pv(z := Some y, p := None, l := Some p)) (Some p) tp (p # l # ws)"
      unfolding ws by (rule dlist_push) (use dz in \<open>auto simp: ws [symmetric]\<close>)
    moreover have "set (p # l # ws) = set (l # xs)" unfolding c(1) ws [symmetric] by auto
    moreover have "(\<lambda>i. be_next (btb_promote data p l i)) = ?nx(y := Some z, p := Some l)"
      "(\<lambda>i. be_prev (btb_promote data p l i)) = ?pv(z := Some y, p := None, l := Some p)"
      using c py pl by (simp_all add: promote_links fun_eq_iff)
    ultimately show ?thesis by (intro that) (simp_all only:)
  qed (use pl assms in auto)
qed

lemma promote_outside:
  assumes "be_prev (data p) \<noteq> None \<Longrightarrow> the (be_prev (data p)) \<in> W"
    "be_next (data p) \<noteq> None \<Longrightarrow> the (be_next (data p)) \<in> W" "p \<in> W" "l \<in> W" "i \<notin> W"
  shows "btb_promote data p l i = data i"
proof -
  have "i \<noteq> p" "i \<noteq> l" "be_prev (data p) \<noteq> Some i" "be_next (data p) \<noteq> Some i" using assms by auto
  then show ?thesis by (auto simp: btb_promote_def upd_ent_def Let_def split: option.splits)
qed

text \<open>The scan finds the match, if there is one, and the two ends of the chain.\<close>

lemma btb_scan_eq:
  assumes "distinct ws" "\<And>i j. i \<in> set ws \<Longrightarrow> j \<in> set ws \<Longrightarrow> be_addr (data i) = a \<Longrightarrow> be_addr (data j) = a \<Longrightarrow> i = j"
    "m \<noteq> None \<Longrightarrow> \<forall>i \<in> set ws. be_addr (data i) \<noteq> a"
    "\<And>i. i \<in> set ws \<Longrightarrow> be_prev (data i) = None \<longleftrightarrow> i = l" "\<And>i. i \<in> set ws \<Longrightarrow> be_next (data i) = None \<longleftrightarrow> i = t"
  shows "btb_scan data a ws m h z = Some
    (if m = None then List.find (\<lambda>i. be_addr (data i) = a) ws else m,
     if l \<in> set ws then Some l else h, if t \<in> set ws then Some t else z)"
  using assms
proof (induction ws arbitrary: m h z)
  case (Cons w ws)
  let ?m = "if be_addr (data w) = a then Some w else m"
  have m: "be_addr (data w) = a \<Longrightarrow> m = None" using Cons.prems(3) by (cases m) auto
  have mm: "?m \<noteq> None \<Longrightarrow> \<forall>i \<in> set ws. be_addr (data i) \<noteq> a"
    using Cons.prems(1) Cons.prems(2) [of w] Cons.prems(3) by (auto split: if_splits)
  have uu: "i = j" if "i \<in> set ws" "j \<in> set ws" "be_addr (data i) = a" "be_addr (data j) = a" for i j
    using Cons.prems(2) [OF _ _ that(3,4)] that(1,2) by simp
  have ll: "be_prev (data i) = None \<longleftrightarrow> i = l" "be_next (data i) = None \<longleftrightarrow> i = t" if "i \<in> set ws" for i
    using Cons.prems(4,5) that by simp_all
  have "btb_scan data a ws ?m (if w = l then Some w else h) (if w = t then Some w else z) = Some
    (if ?m = None then List.find (\<lambda>i. be_addr (data i) = a) ws else ?m,
     if l \<in> set ws then Some l else if w = l then Some w else h,
     if t \<in> set ws then Some t else if w = t then Some w else z)"
    by (rule Cons.IH [OF _ uu mm ll]) (use Cons.prems(1) in simp_all)
  then show ?case using m Cons.prems(1) Cons.prems(4,5) [of w] by auto
qed simp

lemma find_cases:
  assumes "List.find P xs = r"
  obtains x where "r = Some x" "x \<in> set xs" "P x" | "r = None" "\<forall>x \<in> set xs. \<not> P x"
proof (cases r)
  case None
  then show ?thesis using assms that(2) by (auto simp: find_None_iff)
next
  case (Some x)
  then show ?thesis using assms that(1) [of x] by (auto simp: find_Some_iff)
qed

lemma dlist_ends:
  assumes "dlist nx pv hp tp xs" "i \<in> set xs"
  shows "pv i = None \<longleftrightarrow> i = hd xs" "nx i = None \<longleftrightarrow> i = last xs"
    "pv i \<noteq> None \<Longrightarrow> the (pv i) \<in> set xs" "nx i \<noteq> None \<Longrightarrow> the (nx i) \<in> set xs"
proof -
  have d: "distinct xs" using assms(1) by (simp add: dlist_def)
  have "(pv i = None \<longleftrightarrow> i = hd xs) \<and> (nx i = None \<longleftrightarrow> i = last xs)
    \<and> (pv i \<noteq> None \<longrightarrow> the (pv i) \<in> set xs) \<and> (nx i \<noteq> None \<longrightarrow> the (nx i) \<in> set xs)"
    using assms
  proof (cases rule: dlist_cases)
    case (last y ys)
    then show ?thesis using d by (cases ys) auto
  next
    case (middle y ys z zs)
    then show ?thesis using d by (cases ys) auto
  qed (use d in auto)
  then show "pv i = None \<longleftrightarrow> i = hd xs" "nx i = None \<longleftrightarrow> i = last xs"
    "pv i \<noteq> None \<Longrightarrow> the (pv i) \<in> set xs" "nx i \<noteq> None \<Longrightarrow> the (nx i) \<in> set xs" by auto
qed

lemma btb_select_ok:
  assumes "btb_ok pred" "a \<noteq> 0"
  obtains i d s where "btb_select pred a = Some (i, d)" "s < unat (btb_sets pred)"
    "i \<in> set_of_btb (unat (btb_assoc pred)) s" "one_chain d (set_of_btb (unat (btb_assoc pred)) s)"
    "\<And>j. be_addr (d j) = be_addr (btb_data pred j)"
    "\<And>j. j \<notin> set_of_btb (unat (btb_assoc pred)) s \<Longrightarrow> d j = btb_data pred j"
    "be_addr (btb_data pred i) = a \<or> (\<forall>j \<in> set_of_btb (unat (btb_assoc pred)) s. be_addr (btb_data pred j) \<noteq> a)"
proof -
  let ?k = "unat (btb_assoc pred)" and ?data = "btb_data pred" and ?ws = "btb_ways pred a"
  obtain s where s: "s < unat (btb_sets pred)" "btb_index pred a = s * ?k" "sint (btb_assoc pred) > 1 \<longleftrightarrow> ?k > 1" "btb_inside pred a"
    by (rule btb_set_range [OF assms(1)])
  let ?W = "set_of_btb ?k s"
  have W: "set ?ws = ?W" "distinct ?ws" using btb_ways_set [OF s(2)] by (simp_all add: btb_ways_def)
  have k0: "0 < ?k" and ch: "one_chain ?data ?W" and mt: "one_match ?data ?W"
    using assms(1) s(1) by (auto simp: btb_ok_def unat_gt_0)
  show ?thesis
  proof (cases "?k > 1")
    case False
    then have "?k = 1" using k0 by simp
    then show ?thesis using s ch
      by (intro that [of "s * ?k" ?data s]) (auto simp: btb_select_def set_of_btb_def)
  next
    case True
    obtain xs hp tp where xs: "set xs = ?W" "dlist (\<lambda>i. be_next (?data i)) (\<lambda>i. be_prev (?data i)) hp tp xs"
      using ch by (auto simp: one_chain_def)
    have ne: "xs \<noteq> []" using xs(1) k0 by (auto simp: set_of_btb_def)
    note ends = dlist_ends [OF xs(2), unfolded xs(1)]
    have hl: "hd xs \<in> ?W" "last xs \<in> ?W" unfolding xs(1) [symmetric] using ne by auto
    have "btb_scan ?data a ?ws None None None
      = Some (List.find (\<lambda>i. be_addr (?data i) = a) ?ws, Some (hd xs), Some (last xs))"
      using hl mt assms(2) ends W by (subst btb_scan_eq [where l = "hd xs" and t = "last xs"]) (auto simp: one_match_def)
    moreover obtain p where p: "p \<in> ?W" "be_addr (?data p) = a \<or> (\<forall>j \<in> ?W. be_addr (?data j) \<noteq> a)"
      "(case List.find (\<lambda>i. be_addr (?data i) = a) ?ws of Some p \<Rightarrow> Some p | None \<Rightarrow> Some (last xs)) = Some p"
    proof (rule find_cases [of "\<lambda>i. be_addr (?data i) = a" ?ws, OF refl])
      fix x assume "List.find (\<lambda>i. be_addr (?data i) = a) ?ws = Some x" "x \<in> set ?ws" "be_addr (?data x) = a"
      then show ?thesis using W by (intro that [of x]) auto
    next
      assume "List.find (\<lambda>i. be_addr (?data i) = a) ?ws = None" "\<forall>x \<in> set ?ws. be_addr (?data x) \<noteq> a"
      then show ?thesis using W hl by (intro that [of "last xs"]) auto
    qed
    ultimately have sel: "btb_select pred a
      = (if hd xs = p then Some (p, ?data) else Some (p, btb_promote ?data p (hd xs)))"
      using True s(3,4) by (simp add: btb_select_def)
    show ?thesis
    proof (cases "hd xs = p")
      case True
      then show ?thesis using sel s(1) p ch by (intro that [of p ?data s]) auto
    next
      case False
      obtain ys where ys: "xs = hd xs # ys" using ne by (cases xs) auto
      then have "p \<in> set ys" using False p(1) xs(1) by (metis set_ConsD)
      moreover have "dlist (\<lambda>i. be_next (?data i)) (\<lambda>i. be_prev (?data i)) (Some (hd xs)) tp (hd xs # ys)"
        using xs(2) dlist_nonempty(1) [OF xs(2) ne] ys by simp
      ultimately obtain hp' tp' zs where "set zs = set (hd xs # ys)"
        "dlist (\<lambda>i. be_next (btb_promote ?data p (hd xs) i)) (\<lambda>i. be_prev (btb_promote ?data p (hd xs) i)) hp' tp' zs"
        using promote_dlist by metis
      then have "one_chain (btb_promote ?data p (hd xs)) ?W"
        using xs(1) ys unfolding one_chain_def by auto
      moreover have "btb_promote ?data p (hd xs) j = ?data j" if "j \<notin> ?W" for j
        using ends(3,4) [OF p(1)] p(1) hl(1) that by (rule promote_outside)
      ultimately show ?thesis using sel s(1) p False by (intro that [of p "btb_promote ?data p (hd xs)" s]) auto
    qed
  qed
qed

lemma btb_enter_ok:
  assumes "btb_ok pred" "a \<noteq> 0" "btb_select pred a = Some (i, d)"
  shows "btb_ok (pred\<lparr>btb_data := upd_ent i (btb_enter a bt op c) d\<rparr>)"
proof -
  obtain i' d' s where "btb_select pred a = Some (i', d')" "s < unat (btb_sets pred)"
    "i' \<in> set_of_btb (unat (btb_assoc pred)) s" "one_chain d' (set_of_btb (unat (btb_assoc pred)) s)"
    "\<And>j. be_addr (d' j) = be_addr (btb_data pred j)"
    "\<And>j. j \<notin> set_of_btb (unat (btb_assoc pred)) s \<Longrightarrow> d' j = btb_data pred j"
    "be_addr (btb_data pred i') = a \<or> (\<forall>j \<in> set_of_btb (unat (btb_assoc pred)) s. be_addr (btb_data pred j) \<noteq> a)"
    by (rule btb_select_ok [OF assms(1,2)], rule that)
  then have e: "s < unat (btb_sets pred)"
    "i \<in> set_of_btb (unat (btb_assoc pred)) s" "one_chain d (set_of_btb (unat (btb_assoc pred)) s)"
    "\<And>j. be_addr (d j) = be_addr (btb_data pred j)"
    "\<And>j. j \<notin> set_of_btb (unat (btb_assoc pred)) s \<Longrightarrow> d j = btb_data pred j"
    "be_addr (btb_data pred i) = a \<or> (\<forall>j \<in> set_of_btb (unat (btb_assoc pred)) s. be_addr (btb_data pred j) \<noteq> a)"
    using assms(3) by auto
  let ?W = "set_of_btb (unat (btb_assoc pred)) s" and ?d = "upd_ent i (btb_enter a bt op c) d"
  have mt: "one_match (btb_data pred) ?W" using assms(1) e(1) by (simp add: btb_ok_def)
  have addr: "be_addr (?d j) = (if j = i then a else be_addr (btb_data pred j))" for j
    using e(4) by (auto simp: upd_ent_def btb_enter_def)
  have "one_chain ?d ?W"
    using e(3) by (subst one_chain_frame) (auto simp: upd_ent_def btb_enter_def)
  moreover have "one_match ?d ?W"
    using mt e(2,6) unfolding one_match_def addr by auto
  moreover have "?d j = btb_data pred j" if "j \<notin> ?W" for j
    using that e(2,5) by (auto simp: upd_ent_def)
  ultimately show ?thesis using assms(1) by (intro btb_ok_change [of pred s])
qed

lemma bpred_update_ok:
  assumes "bpred_ok pred" "up_ok pred up" "a \<noteq> 0"
  shows "\<exists>p. bpred_update pred a bt taken pt c op up = Some p \<and> bpred_ok p \<and> same_shape p pred"
proof -
  define p1 where "p1 = update_stats pred op taken pt c up"
  have s1: "same_state p1 pred" by (simp add: p1_def update_stats_same)
  note ok1 = same_state_ok [OF s1] same_state_shape [OF s1]
  show ?thesis
  proof (cases "is_ctrl op \<and> \<not> (MD_IS_INDIR op \<and> up_ras up) \<and> stateful p1")
    case False
    then show ?thesis using assms ok1
      by (auto simp: bpred_update_def p1_def [symmetric] stateful_def Let_def)
  next
    case True
    have ok: "dirs_ok p1" "btb_ok p1" "ras_ok p1" "up_ok p1 up"
      using assms ok1 True by (auto simp: bpred_ok_def)
    obtain p2 where p2: "update_history p1 a op taken = Some p2" "dirs_only p2 p1"
      using update_history_ok [OF ok(1)] by blast
    note k2 = dirs_only_keeps [OF p2(2)]
    obtain sel where sel: "(if taken then map_option Some (btb_select p2 a) else Some None) = Some sel"
      "\<And>i d. sel = Some (i, d) \<Longrightarrow> btb_select p2 a = Some (i, d)"
    proof (cases taken)
      case True
      obtain i d where "btb_select p2 a = Some (i, d)"
        using btb_select_ok [of p2 a] k2(3) ok(2) assms(3) by metis
      then show ?thesis using True by (intro that [of "Some (i, d)"]) auto
    qed (use that in auto)
    define q2 where "q2 = (case sel of None \<Rightarrow> p2 | Some (i, data) \<Rightarrow> p2\<lparr>btb_data := data\<rparr>)"
    have q2: "dirs_ok q2" "same_shape q2 p1" "ras_ok q2"
      using k2 ok(3) by (auto simp: q2_def bp_simps split: option.splits prod.splits)
    have u2: "up_ok q2 up" using same_shape_ok(1) [OF q2(2)] ok(4) by simp
    obtain p3 where p3: "bump_ctr taken (up_pdir1 up) q2 = Some p3" "dirs_only p3 q2"
      using bump_ctr_ok [OF q2(1)] u2 by (auto simp: up_ok_def)
    note k3 = dirs_only_keeps [OF p3(2)]
    have u3: "up_ok p3 up" using same_shape_ok(1) [OF k3(2)] u2 by simp
    obtain p4 where p4: "bump_ctr taken (up_pdir2 up) p3 = Some p4" "dirs_only p4 p3"
      using bump_ctr_ok [OF k3(1)] u3 by (auto simp: up_ok_def)
    note k4 = dirs_only_keeps [OF p4(2)]
    have u4: "up_ok p4 up" using same_shape_ok(1) [OF k4(2)] u3 by simp
    obtain p5 where p5: "(if up_pmeta up \<noteq> None \<and> up_bimod up \<noteq> up_twolev up
        then bump_ctr (up_twolev up = taken) (up_pmeta up) p4 else Some p4) = Some p5" "dirs_only p5 p4"
    proof (cases "up_pmeta up \<noteq> None \<and> up_bimod up \<noteq> up_twolev up")
      case True
      obtain q where "bump_ctr (up_twolev up = taken) (up_pmeta up) p4 = Some q" "dirs_only q p4"
        using bump_ctr_ok [OF k4(1)] u4 unfolding up_ok_def by blast
      then show ?thesis by (intro that) (simp_all only: True if_True simp_thms)
    next
      case False
      then show ?thesis by (intro that [of p4]) (simp_all only: if_False simp_thms dirs_only_refl [OF k4(1)])
    qed
    have d5: "dirs_only p5 q2" using p5(2) p4(2) p3(2) by (blast intro: dirs_only_trans)
    note k5 = dirs_only_keeps [OF d5]
    define p6 where "p6 = (case sel of None \<Rightarrow> p5
      | Some (i, _) \<Rightarrow> p5\<lparr>btb_data := upd_ent i (btb_enter a bt op c) (btb_data p5)\<rparr>)"
    have ind: "(MD_IS_INDIR op \<and> up_ras up) = False" using True by blast
    have "bpred_update pred a bt taken pt c op up = Some p6"
      using True p2(1) sel(1) p3(1) p4(1) p5(1)
      unfolding bpred_update_def p1_def [symmetric] Let_def p6_def
      by (simp add: ind stateful_def q2_def)
    moreover have "same_shape p6 pred"
    proof -
      have "same_shape p5 pred" using k5(2) q2(2) ok1(5) by (blast intro: same_shape_trans)
      then show ?thesis by (simp add: p6_def bp_simps split: option.splits prod.splits)
    qed
    moreover have "bpred_ok p6"
    proof -
      have "btb_ok p6"
      proof (cases sel)
        case None
        then show ?thesis using k5(3) k2(3) ok(2) by (simp add: p6_def q2_def)
      next
        case (Some e)
        obtain i d where e: "sel = Some (i, d)" using Some by (cases e) auto
        let ?D = "upd_ent i (btb_enter a bt op c) d"
        have "btb_ok (p2\<lparr>btb_data := ?D\<rparr>)"
          using k2(3) ok(2) assms(3) sel(2) [OF e] by (intro btb_enter_ok) auto
        then have "btb_ok (p5\<lparr>btb_data := ?D\<rparr>)"
          using k5(7,8) by (simp add: btb_ok_def q2_def e)
        then show ?thesis using k5(6) by (simp add: p6_def q2_def e)
      qed
      moreover have "dirs_ok p6" "ras_ok p6"
        using k5 q2 by (auto simp: p6_def bp_simps split: option.splits prod.splits)
      ultimately show ?thesis by (simp add: bpred_ok_def)
    qed
    ultimately show ?thesis by blast
  qed
qed

end
