(* ===== verification/Bpred_Props.thy ===== *)
theory Bpred_Props
  imports Bpred_Update
begin

text \<open>
  Predictors in use: any interleaving of lookups, recoveries and updates stays within the
  invariant and never goes wrong, and the return address stack predicts what a bounded
  stack of return addresses holds.
\<close>

section \<open>Operations in any order\<close>

text \<open>
  A predictor with the update records and the tops of the stack that lookups have handed
  out and that updates and recoveries may bring back at any later time.
\<close>

type_synonym bp_state = "bpred_t \<times> (bpred_update_t \<times> word_t) list"

inductive bp_step :: "bp_state \<Rightarrow> bp_state \<Rightarrow> bool" where
  step_lookup: "bpred_lookup pred a bt op c r up idx = Some (t, pred', up', idx') \<Longrightarrow> is_ctrl op
    \<Longrightarrow> bp_step (pred, pend) (pred', (up', idx') # pend)"
| step_update: "(up, idx) \<in> set pend \<Longrightarrow> a \<noteq> 0 \<Longrightarrow> bpred_update pred a bt taken pt c op up = Some pred'
    \<Longrightarrow> bp_step (pred, pend) (pred', pend)"
| step_recover: "(up, idx) \<in> set pend \<Longrightarrow> bp_step (pred, pend) (bpred_recover pred idx, pend)"
| step_priming: "bp_step (pred, pend) (bpred_after_priming pred, pend)"

inductive_cases bp_stepE: "bp_step (pred, pend) s"

definition pending_ok :: "bp_state \<Rightarrow> bool" where
  "pending_ok s \<longleftrightarrow> bpred_ok (fst s) \<and> (\<forall>(up, idx) \<in> set (snd s). up_ok (fst s) up \<and> idx_ok (fst s) idx)"

lemma recover_ok:
  assumes "bpred_ok pred" "idx_ok pred idx"
  shows "bpred_ok (bpred_recover pred idx)" "same_shape (bpred_recover pred idx) pred"
  using assms by (auto simp: bpred_recover_def bpred_ok_def idx_ok_def ras_ok_def bp_simps)

lemma pending_shape:
  assumes "pending_ok (pred, pend)" "same_shape p pred" "bpred_ok p"
  shows "pending_ok (p, pend)"
  using assms same_shape_ok [OF assms(2)] by (simp add: pending_ok_def)

lemma step_ok: "bp_step s s' \<Longrightarrow> pending_ok s \<Longrightarrow> pending_ok s'"
proof (induction rule: bp_step.induct)
  case (step_lookup pred a bt op c r up idx t pred' up' idx' pend)
  have "bpred_ok pred" using step_lookup.prems by (simp add: pending_ok_def)
  from bpred_lookup_ok [OF this, of a bt op c r up idx]
  have "bpred_ok pred'" "same_shape pred' pred" "up_ok pred' up'" "idx_ok pred' idx'"
    using step_lookup.hyps by auto
  then show ?case using pending_shape [OF step_lookup.prems] by (simp add: pending_ok_def)
next
  case (step_update up idx pend a pred bt taken pt c op pred')
  have "bpred_ok pred" "up_ok pred up" using step_update by (auto simp: pending_ok_def)
  from bpred_update_ok [OF this step_update.hyps(2), of bt taken pt c op]
  show ?case using step_update.hyps(3) pending_shape [OF step_update.prems] by auto
next
  case (step_recover up idx pend pred)
  then have "bpred_ok pred" "idx_ok pred idx" by (auto simp: pending_ok_def)
  then show ?case using pending_shape [OF step_recover.prems] recover_ok by blast
next
  case (step_priming pred pend)
  then show ?case
    using pending_shape [OF _ same_state_shape [OF priming_same]] same_state_ok(1) [OF priming_same]
    by (simp add: pending_ok_def)
qed

lemma reachable_ok:
  assumes "bp_step\<^sup>*\<^sup>* s s'" "pending_ok s"
  shows "pending_ok s'"
  using assms by (induction rule: rtranclp_induct) (auto intro: step_ok)

text \<open>
  C7: take a predictor whose target buffer has fewer than \<open>2 ^ 31\<close> entries and whose return
  stack has at most \<open>2 ^ 30\<close> (the code computes both as \<open>int\<close> and checks neither).
  Whatever branches are looked up, recovered from and updated from its creation on, in whatever
  order, with the update records the lookups returned and with updates only of branches at
  addresses other than 0: all counters of the direction predictors stay two-bit counters, every
  set of the target buffer stays one LRU chain with no branch in it twice, and then no lookup
  of any branch, and no update of a branch at an address other than 0, reads or writes
  outside of a table or fails an assertion.  Address 0 is excluded because an update there does
  fail one: the entries of the buffer that were never used have that address.\<close>

theorem bpred_reachable_safe:
  assumes "bpred_create cls bimod_sz l1size l2size meta_size shift_width xr sets assoc ras = Some p0"
    "unat sets * unat assoc < 2 ^ 31" "unat ras \<le> 2 ^ 30" "bp_step\<^sup>*\<^sup>* (p0, []) (pred, pend)"
  shows "bpred_ok pred \<and> (\<forall>a bt op c r up idx. bpred_lookup pred a bt op c r up idx \<noteq> None)
    \<and> (\<forall>(up, idx) \<in> set pend. \<forall>a bt taken pt c op. a \<noteq> 0 \<longrightarrow> bpred_update pred a bt taken pt c op up \<noteq> None)"
proof -
  have "pending_ok (p0, [])" using bpred_create_ok [OF assms(1-3)] by (simp add: pending_ok_def)
  then have ok: "pending_ok (pred, pend)" using assms(4) reachable_ok by blast
  then have b: "bpred_ok pred" by (simp add: pending_ok_def)
  moreover have "bpred_lookup pred a bt op c r up idx \<noteq> None" for a bt op c r up idx
    using bpred_lookup_ok [OF b] by fastforce
  moreover have "bpred_update pred a bt taken pt c op up \<noteq> None"
    if "(up, idx) \<in> set pend" "a \<noteq> 0" for up idx a bt taken pt c op
    using bpred_update_ok [OF b _ that(2)] ok that(1) by (fastforce simp: pending_ok_def)
  ultimately show ?thesis by blast
qed

section \<open>Branches and calls\<close>

definition no_update :: bpred_update_t where
  "no_update = \<lparr>up_pdir1 = None, up_pdir2 = None, up_pmeta = None, up_ras = False, up_bimod = False,
     up_twolev = False, up_meta = False\<rparr>"

lemma ctrl_ops [simp]:
  "is_ctrl BEQ" "\<not> is_uncond BEQ" "is_cond BEQ" "\<not> MD_IS_INDIR BEQ"
  "is_ctrl JAL" "is_ctrl JR" "is_uncond JR" "\<not> is_cond JR" "MD_IS_INDIR JR"
  by code_simp+

lemma bpred_reachable_safe_witness:
  "\<exists>p0 pred up i. bpred_create BPredComb 4 2 4 4 3 True 2 2 2 = Some p0 \<and> bp_step\<^sup>*\<^sup>* (p0, []) (pred, [(up, i)])
    \<and> bpred_ok pred \<and> bpred_update pred 0x400008 0x400100 True False False BEQ up \<noteq> None"
proof -
  have "bpred_create BPredComb 4 2 4 4 3 True 2 2 2 \<noteq> None"
    by (simp add: bpred_create_def create_dirs_def bpred_dir_create_2bit_def bpred_dir_create_2lev_def pow2_def)
  then obtain p0 where p0: "bpred_create BPredComb 4 2 4 4 3 True 2 2 2 = Some p0" by blast
  note safe = bpred_reachable_safe [OF p0]
  obtain t pred up i where "bpred_lookup p0 0x400008 0x400100 BEQ False False no_update 0 = Some (t, pred, up, i)"
    using safe [of p0 "[]"] by force
  from step_lookup [OF this, of "[]"] have "bp_step\<^sup>*\<^sup>* (p0, []) (pred, [(up, i)])"
    by (intro r_into_rtranclp) simp
  then show ?thesis using p0 safe [of pred "[(up, i)]"] by force
qed

section \<open>The return address stack\<close>

text \<open>
  The specification: a stack of at most \<open>n\<close> return addresses, which forgets the oldest when
  a call finds it full; what it promises for every branch looked up, if anything.  A branch
  is its address, its target, its opcode and whether it is a call and whether a return.
\<close>

type_synonym branch_t = "md_addr_t \<times> md_addr_t \<times> word_t \<times> bool \<times> bool"

fun ref_returns :: "nat \<Rightarrow> md_addr_t list \<Rightarrow> branch_t list \<Rightarrow> md_addr_t option list" where
  "ref_returns n stk [] = []"
| "ref_returns n stk ((a, bt, op, c, r) # bs) =
     (if \<not> is_ctrl op then None # ref_returns n stk bs
      else if r then (case stk of [] \<Rightarrow> None # ref_returns n [] bs | t # stk' \<Rightarrow> Some t # ref_returns n stk' bs)
      else if c then None # ref_returns n (take n ((a + 8) # stk)) bs
      else None # ref_returns n stk bs)"

text \<open>The predictor looking up the same branches.\<close>

fun lookups :: "bpred_update_t \<Rightarrow> bpred_t \<Rightarrow> branch_t list \<Rightarrow> (md_addr_t list \<times> bpred_t) option" where
  "lookups up pred [] = Some ([], pred)"
| "lookups up pred ((a, bt, op, c, r) # bs) = do {
     (t, pred', up', idx) \<leftarrow> bpred_lookup pred a bt op c r up 0;
     (ts, pred'') \<leftarrow> lookups up' pred' bs;
     Some (t # ts, pred'') }"

text \<open>Entry \<open>i\<close> below the top of the stack, and a predictor whose stack ends with given addresses.\<close>

definition below :: "nat \<Rightarrow> nat \<Rightarrow> nat \<Rightarrow> nat" where
  "below n t i = (if i \<le> t then t - i else t + n - i)"

definition ras_holds :: "bpred_t \<Rightarrow> md_addr_t list \<Rightarrow> bool" where
  "ras_holds pred stk \<longleftrightarrow> length stk \<le> unat (ras_size pred)
     \<and> (\<forall>i < length stk. ras_stack pred ! below (unat (ras_size pred)) (unat (ras_tos pred)) i = stk ! i)"

lemma push_holds:
  assumes "t < n" "length st = n" "length stk \<le> n" "\<forall>i < length stk. st ! below n t i = stk ! i"
  shows "\<forall>i < length (take n (v # stk)). st[(t + 1) mod n := v] ! below n ((t + 1) mod n) i = take n (v # stk) ! i"
proof (intro allI impI)
  fix i assume i: "i < length (take n (v # stk))"
  have m: "(t + 1) mod n = (if t + 1 = n then 0 else t + 1)" using assms(1) by auto
  show "st[(t + 1) mod n := v] ! below n ((t + 1) mod n) i = take n (v # stk) ! i"
  proof (cases i)
    case 0
    then show ?thesis using assms(1,2) i by (auto simp: below_def m)
  next
    case (Suc j)
    then have "below n ((t + 1) mod n) i = below n t j" "below n t j \<noteq> (t + 1) mod n"
      unfolding m using i assms(1,3) by (auto simp: below_def)
    moreover have "st ! below n t j = stk ! j" "take n (v # stk) ! i = stk ! j"
      using assms(4) Suc i by (auto simp: nth_Cons')
    ultimately show ?thesis by simp
  qed
qed

lemma pop_holds:
  assumes "t < n" "length (v # stk) \<le> n" "\<forall>i < length (v # stk). st ! below n t i = (v # stk) ! i"
  shows "st ! t = v" "\<forall>i < length stk. st ! below n ((t + n - 1) mod n) i = stk ! i"
proof -
  show "st ! t = v" using assms(3) by (auto simp: below_def dest: spec [of _ 0])
  have m: "(t + n - 1) mod n = (if t = 0 then n - 1 else t - 1)"
    using assms(1) by (cases t) (auto simp: mod_if)
  show "\<forall>i < length stk. st ! below n ((t + n - 1) mod n) i = stk ! i"
  proof (intro allI impI)
    fix i assume "i < length stk"
    then have "below n ((t + n - 1) mod n) i = below n t (Suc i)" "st ! below n t (Suc i) = stk ! i"
      unfolding m using assms(1,2) spec [OF assms(3), of "Suc i"] by (auto simp: below_def)
    then show "st ! below n ((t + n - 1) mod n) i = stk ! i" by simp
  qed
qed

text \<open>What a lookup does to the stack, by the kind of branch.\<close>

lemma lookup_ras:
  assumes "bpred_lookup pred a bt op c r up idx = Some (t, p, up', i)" "stateful pred" "ras_size pred \<noteq> 0"
  shows "\<not> is_ctrl op \<Longrightarrow> p = pred"
    "is_ctrl op \<Longrightarrow> r \<Longrightarrow> t = ras_stack pred ! unat (ras_tos pred) \<and> ras_stack p = ras_stack pred
       \<and> (\<exists>q. ras_pop pred = Some (t, q) \<and> ras_tos p = ras_tos q)"
    "is_ctrl op \<Longrightarrow> \<not> r \<Longrightarrow> c \<Longrightarrow> \<exists>q. ras_push pred a = Some q \<and> ras_stack p = ras_stack q \<and> ras_tos p = ras_tos q"
    "is_ctrl op \<Longrightarrow> \<not> r \<Longrightarrow> \<not> c \<Longrightarrow> ras_stack p = ras_stack pred \<and> ras_tos p = ras_tos pred"
  using assms
  by (auto simp: bpred_lookup_def Let_def stateful_def ras_pop_def ras_push_def aget_def aset_def
      split: if_splits Option.bind_splits)


lemma ras_pop_tos:
  assumes "ras_ok pred" "ras_size pred \<noteq> 0" "ras_pop pred = Some (t, q)"
  shows "unat (ras_tos q) = (unat (ras_tos pred) + unat (ras_size pred) - 1) mod unat (ras_size pred)"
proof -
  obtain j where j: "unat j = (unat (ras_tos pred) + unat (ras_size pred) - 1) mod unat (ras_size pred)"
    "ras_pop pred = Some (ras_stack pred ! unat (ras_tos pred), pred\<lparr>ras_tos := j, retstack_pops := retstack_pops pred + 1\<rparr>)"
    by (rule ras_pop_eq [OF assms(1,2)], rule that)
  then have "ras_tos q = j" using assms(3) by auto
  then show ?thesis using j(1) by simp
qed

lemma ras_push_fields:
  assumes "ras_ok pred" "ras_size pred \<noteq> 0" "ras_push pred a = Some q"
  shows "unat (ras_tos q) = (unat (ras_tos pred) + 1) mod unat (ras_size pred)"
    "ras_stack q = (ras_stack pred)[unat (ras_tos q) := a + 8]"
proof -
  obtain j where j: "unat j = (unat (ras_tos pred) + 1) mod unat (ras_size pred)"
    "ras_push pred a = Some (pred\<lparr>ras_tos := j, ras_stack := (ras_stack pred)[unat j := a + 8],
       retstack_pushes := retstack_pushes pred + 1\<rparr>)"
    by (rule ras_push_eq [OF assms(1,2)], rule that)
  then have "ras_tos q = j" "ras_stack q = (ras_stack pred)[unat j := a + 8]" using assms(3) by auto
  then show "unat (ras_tos q) = (unat (ras_tos pred) + 1) mod unat (ras_size pred)"
    "ras_stack q = (ras_stack pred)[unat (ras_tos q) := a + 8]" using j(1) by simp_all
qed

lemma same_shape_ras: "same_shape p q \<Longrightarrow> ras_size p = ras_size q \<and> stateful p = stateful q"
  by (simp add: same_shape_def stateful_def)

lemma lookups_returns:
  assumes "bpred_ok pred" "stateful pred" "ras_size pred \<noteq> 0" "ras_holds pred stk"
  shows "\<exists>ts p. lookups up pred bs = Some (ts, p) \<and>
    list_all2 (\<lambda>r t. r = None \<or> r = Some t) (ref_returns (unat (ras_size pred)) stk bs) ts"
  using assms
proof (induction bs arbitrary: up pred stk)
  case (Cons b bs)
  obtain a bt op c r where b: "b = (a, bt, op, c, r)" by (cases b)
  let ?n = "unat (ras_size pred)" and ?t = "unat (ras_tos pred)"
  obtain t p up' i where l: "bpred_lookup pred a bt op c r up 0 = Some (t, p, up', i)" "bpred_ok p" "same_shape p pred"
    using bpred_lookup_ok [OF Cons.prems(1)] by metis
  note eff = lookup_ras [OF l(1) Cons.prems(2,3)]
  have n: "ras_size p = ras_size pred" and st: "stateful p" using same_shape_ras [OF l(3)] Cons.prems(2) by auto
  have ras: "ras_ok pred" "ras_ok p" using Cons.prems(1,2) l(2) st by (auto simp: bpred_ok_def)
  then have tn: "?t < ?n" "length (ras_stack pred) = ?n" using Cons.prems(3) by (auto simp: ras_ok_def)
  have IH: "\<exists>ts q. lookups up' p bs = Some (ts, q) \<and>
      list_all2 (\<lambda>r t. r = None \<or> r = Some t) (ref_returns ?n stk' bs) ts" if "ras_holds p stk'" for stk'
    using Cons.IH [OF l(2) st _ that] Cons.prems(3) n by simp
  have holds: "length stk \<le> ?n" "\<forall>i < length stk. ras_stack pred ! below ?n ?t i = stk ! i"
    using Cons.prems(4) by (auto simp: ras_holds_def)
  have "\<exists>r' stk'. ref_returns ?n stk (b # bs) = r' # ref_returns ?n stk' bs \<and> (r' = None \<or> r' = Some t) \<and> ras_holds p stk'"
  proof (cases "is_ctrl op")
    case False
    then show ?thesis using eff(1) Cons.prems(4) b by auto
  next
    case ctrl: True
    consider (ret) "r" | (call) "\<not> r" "c" | (other) "\<not> r" "\<not> c" by blast
    then show ?thesis
    proof cases
      case ret
      then have e: "t = ras_stack pred ! ?t" "ras_stack p = ras_stack pred" using eff(2) ctrl by auto
      have "unat (ras_tos p) = (?t + ?n - 1) mod ?n"
        using eff(2) ctrl ret ras_pop_tos [OF ras(1) Cons.prems(3)] by auto
      moreover have "stk = v # stk' \<Longrightarrow> v = t \<and> (\<forall>i < length stk'. ras_stack pred ! below ?n ((?t + ?n - 1) mod ?n) i = stk' ! i)" for v stk'
        using pop_holds [of ?t ?n v stk' "ras_stack pred"] tn holds e by auto
      ultimately show ?thesis using ctrl ret b e n holds by (cases stk) (auto simp: ras_holds_def)
    next
      case call
      then obtain q where q: "ras_push pred a = Some q" "ras_stack p = ras_stack q" "ras_tos p = ras_tos q"
        using eff(3) ctrl by auto
      then have e: "unat (ras_tos p) = (?t + 1) mod ?n" "ras_stack p = (ras_stack pred)[(?t + 1) mod ?n := a + 8]"
        using ras_push_fields [OF ras(1) Cons.prems(3) q(1)] q(2,3) by simp_all
      have "ras_holds p (take ?n ((a + 8) # stk))"
        using push_holds [OF tn holds, of "a + 8"] by (simp add: ras_holds_def n e)
      then show ?thesis using ctrl call b by auto
    next
      case other
      then show ?thesis using eff(4) ctrl b Cons.prems(4) n by (auto simp: ras_holds_def)
    qed
  qed
  then show ?case using IH l(1) b by fastforce
qed simp

text \<open>
  C13: the return address stack is a stack: looking up any sequence of branches on a freshly
  created stateful predictor whose stack is not empty, every return is predicted to the address
  after the matching call, as long as the calls in between are not more deeply nested than the
  stack has entries (deeper nesting forgets the oldest return addresses, and the returns past them
  are promised nothing); no lookup fails.\<close>

theorem ras_predicts_returns:
  assumes "bpred_create cls bimod_sz l1size l2size meta_size shift_width xr sets assoc ras = Some pred"
    "cls \<noteq> BPredTaken" "cls \<noteq> BPredNotTaken" "unat sets * unat assoc < 2 ^ 31" "ras \<noteq> 0" "unat ras \<le> 2 ^ 30"
  shows "\<exists>ts p. lookups up pred bs = Some (ts, p) \<and>
    list_all2 (\<lambda>r t. r = None \<or> r = Some t) (ref_returns (unat ras) [] bs) ts"
proof -
  have ok: "bpred_ok pred" using bpred_create_ok [OF assms(1,4,6)] .
  have "bp_class pred = cls \<and> ras_size pred = ras"
    using assms(1-3) create_dirs_ok(2) [of cls bimod_sz l1size l2size meta_size shift_width xr]
    by (auto simp: bpred_create_def split: Option.bind_splits if_splits)
  then show ?thesis
    using lookups_returns [OF ok, of "[]" up bs] assms(2,3,5) by (simp add: stateful_def ras_holds_def)
qed

text \<open>Three nested calls with a stack of two entries: two returns are right.\<close>

lemma ras_predicts_returns_witness:
  "let bs = [(0x400000, 0, JAL, True, False), (0x500000, 0, JAL, True, False), (0x600000, 0, JAL, True, False),
     (0x700000, 0, JR, False, True), (0x600008, 0, JR, False, True), (0x500008, 0, JR, False, True)]
   in ref_returns 2 [] bs = [None, None, None, Some 0x600008, Some 0x500008, None]
    \<and> (\<exists>pred t1 t2 t3 t6 p. bpred_create BPred2bit 4 0 0 0 0 False 2 2 2 = Some pred
        \<and> lookups no_update pred bs = Some ([t1, t2, t3, 0x600008, 0x500008, t6], p))"
proof -
  let ?bs = "[(0x400000, 0, JAL, True, False), (0x500000, 0, JAL, True, False), (0x600000, 0, JAL, True, False),
     (0x700000, 0, JR, False, True), (0x600008, 0, JR, False, True), (0x500008, 0, JR, False, True)] :: branch_t list"
  have "bpred_create BPred2bit 4 0 0 0 0 False 2 2 2 \<noteq> None"
    by (simp add: bpred_create_def create_dirs_def bpred_dir_create_2bit_def pow2_def)
  then obtain pred where pred: "bpred_create BPred2bit 4 0 0 0 0 False 2 2 2 = Some pred" by blast
  have r: "ref_returns 2 [] ?bs = [None, None, None, Some 0x600008, Some 0x500008, None]" by simp
  then show ?thesis
    using ras_predicts_returns [OF pred, of no_update ?bs] pred
    by (auto simp: list_all2_Cons1)
qed

end
