(* ===== verification/Resource.thy ===== *)
theory Resource
  imports Pisa
begin

text \<open>
  The functional unit pools of resource.c: a table from instruction classes to the units
  that execute them, and the search for one that is not busy.  A unit is named by its
  position among the instances, a template by its unit and its position in it.
\<close>

section \<open>Descriptors\<close>

definition MAX_INSTS_PER_CLASS :: nat where "MAX_INSTS_PER_CLASS = 8"

text \<open>
  The array \<open>x\<close> of templates ends at the first one without a class (\<open>FUClass_NA\<close> is 0); the
  link from a template to its unit is the unit's position.
\<close>

record res_template =
  rt_class :: md_fu_class
  rt_oplat :: nat
  rt_issuelat :: nat
  rt_master :: nat

record res_desc =
  rd_quantity :: nat
  rd_busy :: nat
  rd_x :: "res_template list"

record res_pool =
  resources :: "res_desc list"
  res_table :: "md_fu_class \<Rightarrow> (nat \<times> nat) list"

definition num_resources :: "res_pool \<Rightarrow> nat" where "num_resources pool = length (resources pool)"

section \<open>Operations\<close>

text \<open>The instances of the descriptors, each the master of its templates.\<close>

definition instances :: "res_desc list \<Rightarrow> res_desc list" where
  "instances descs =
     (let units = concat (map (\<lambda>d. replicate (rd_quantity d) d) descs)
      in map (\<lambda>(i, d). d\<lparr>rd_quantity := 1, rd_busy := 0,
                 rd_x := map (\<lambda>t. t\<lparr>rt_master := i\<rparr>) (takeWhile (\<lambda>t. rt_class t \<noteq> FUClass_NA) (rd_x d))\<rparr>)
           (zip [0 ..< length units] units))"

text \<open>Entering a template into the table: a ninth one of its class would leave the row.\<close>

fun enter_templates :: "nat \<Rightarrow> nat \<Rightarrow> res_template list \<Rightarrow> (md_fu_class \<Rightarrow> (nat \<times> nat) list) \<Rightarrow>
    (md_fu_class \<Rightarrow> (nat \<times> nat) list) option" where
  "enter_templates i j [] tab = Some tab"
| "enter_templates i j (t # ts) tab =
     (if length (tab (rt_class t)) \<ge> MAX_INSTS_PER_CLASS then None
      else enter_templates i (j + 1) ts (tab(rt_class t := tab (rt_class t) @ [(i, j)])))"

fun enter_units :: "nat \<Rightarrow> res_desc list \<Rightarrow> (md_fu_class \<Rightarrow> (nat \<times> nat) list) \<Rightarrow>
    (md_fu_class \<Rightarrow> (nat \<times> nat) list) option" where
  "enter_units i [] tab = Some tab"
| "enter_units i (d # ds) tab =
     (case enter_templates i 0 (rd_x d) tab of None \<Rightarrow> None | Some tab' \<Rightarrow> enter_units (i + 1) ds tab')"

definition res_create_pool :: "res_desc list \<Rightarrow> res_pool option" where
  "res_create_pool descs =
     (if list_ex (\<lambda>d. rd_quantity d > MAX_INSTS_PER_CLASS) descs then None
      else let units = instances descs in
        case enter_units 0 units (\<lambda>_. []) of None \<Rightarrow> None
        | Some tab \<Rightarrow> Some \<lparr>resources = units, res_table = tab\<rparr>)"

definition template :: "res_pool \<Rightarrow> nat \<times> nat \<Rightarrow> res_template" where
  "template pool p = rd_x (resources pool ! fst p) ! snd p"

definition master_busy :: "res_pool \<Rightarrow> nat \<times> nat \<Rightarrow> nat" where
  "master_busy pool p = rd_busy (resources pool ! rt_master (template pool p))"

text \<open>A class without any unit fails the assertion; no unit free is \<open>Some None\<close>.\<close>

definition res_get :: "res_pool \<Rightarrow> md_fu_class \<Rightarrow> (nat \<times> nat) option option" where
  "res_get pool cls =
     (if res_table pool cls = [] then None
      else Some (List.find (\<lambda>p. master_busy pool p = 0) (res_table pool cls)))"

definition set_busy :: "nat \<Rightarrow> nat \<Rightarrow> res_pool \<Rightarrow> res_pool" where
  "set_busy i n pool = pool\<lparr>resources := (resources pool)[i := (resources pool ! i)\<lparr>rd_busy := n\<rparr>]\<rparr>"

definition release_units :: "res_pool \<Rightarrow> res_pool" where
  "release_units pool =
     pool\<lparr>resources := map (\<lambda>d. if rd_busy d > 0 then d\<lparr>rd_busy := rd_busy d - 1\<rparr> else d) (resources pool)\<rparr>"

end
