(* ===== verification/Ooo.thy ===== *)
theory Ooo
  imports Resource Memory Bpred
begin

text \<open>
  The core of the out-of-order simulator (sim-outorder.c): the register update unit (RUU)
  and the load/store queue (LSQ), whose stations wait for operands, are issued to functional
  units, complete by events and retire in order; the links between them, which carry the
  tag a station had when the link was made, so that a squash only changes tags; and the
  stages that work on them.

  What the core uses of the rest of the simulator is in \<open>ooo_cfg\<close>: the data cache and the
  data TLB, as the latency of an access and the state it leaves, and \<open>execute\<close>, the
  instruction switch of the dispatch stage with its (speculative) registers and memory,
  which gives the dependences, the address and the next PC of an instruction.
\<close>

section \<open>Stations\<close>

text \<open>A pointer to a station: an index into \<open>RUU[]\<close> or into \<open>LSQ[]\<close>.\<close>

datatype station = Ruu nat | Lsq nat

text \<open>
  \<open>struct RS_link\<close>: \<open>lk_x\<close> is the union of the time of an event, the sequence number of a
  ready instruction and the number of an operand.  Tags, sequence numbers and cycles are
  counters that only go up; their widths are not reached.
\<close>

record rs_link =
  lk_rs :: station
  lk_tag :: nat
  lk_x :: nat

definition MAX_IDEPS :: nat where "MAX_IDEPS = 3"
definition MAX_ODEPS :: nat where "MAX_ODEPS = 2"
definition MD_TOTAL_REGS :: nat where "MD_TOTAL_REGS = 70"

text \<open>\<open>NA\<close>, which is also \<open>DNA\<close> here, and the register that carries an effective address.\<close>

definition NA :: nat where "NA = 0"
definition DTMP :: nat where "DTMP = 67"

record ruu_station =
  rs_op :: word_t
  rs_PC :: md_addr_t
  rs_next_PC :: md_addr_t
  rs_pred_PC :: md_addr_t
  in_LSQ :: bool
  ea_comp :: bool
  recover_inst :: bool
  stack_recover_idx :: word_t
  dir_update :: bpred_update_t
  rs_spec :: bool
  rs_addr :: md_addr_t
  rs_tag :: nat
  rs_seq :: nat
  rs_slip :: nat
  queued :: bool
  issued :: bool
  completed :: bool
  onames :: "nat list"
  odep_list :: "rs_link list list"
  idep_ready :: "bool list"

definition OPERANDS_READY :: "ruu_station \<Rightarrow> bool" where
  "OPERANDS_READY rs \<longleftrightarrow> idep_ready rs ! 0 \<and> idep_ready rs ! 1 \<and> idep_ready rs ! 2"

definition STORE_OP_INDEX :: nat where "STORE_OP_INDEX = 0"
definition STORE_ADDR_INDEX :: nat where "STORE_ADDR_INDEX = 1"

definition STORE_ADDR_READY :: "ruu_station \<Rightarrow> bool" where
  "STORE_ADDR_READY rs \<longleftrightarrow> idep_ready rs ! STORE_ADDR_INDEX"

definition MD_OP_FUCLASS :: "word_t \<Rightarrow> md_fu_class" where
  "MD_OP_FUCLASS op = (case definst_of pisa_def op of None \<Rightarrow> FUClass_NA | Some d \<Rightarrow> di_res d)"

definition MD_AGEN_OP :: word_t where "MD_AGEN_OP = ADD"
definition MD_NOP_OP :: word_t where "MD_NOP_OP = NOP"

definition is_mem :: "word_t \<Rightarrow> bool" where "is_mem op \<longleftrightarrow> MD_OP_FLAGS op AND F_MEM \<noteq> 0"
definition is_store :: "word_t \<Rightarrow> bool" where
  "is_store op \<longleftrightarrow> MD_OP_FLAGS op AND (F_MEM OR F_STORE) = F_MEM OR F_STORE"
definition is_load :: "word_t \<Rightarrow> bool" where
  "is_load op \<longleftrightarrow> MD_OP_FLAGS op AND (F_MEM OR F_LOAD) = F_MEM OR F_LOAD"

section \<open>The simulator\<close>

datatype spec_update = spec_ID | spec_WB | spec_CT

text \<open>An entry of the queue from fetch to dispatch, and what executing it there gives.\<close>

record fetch_rec =
  fr_IR :: md_inst_t
  fr_PC :: md_addr_t
  fr_pred_PC :: md_addr_t
  fr_dir_update :: bpred_update_t
  fr_stack_idx :: word_t

record decoded =
  d_op :: word_t
  d_out1 :: nat
  d_out2 :: nat
  d_in1 :: nat
  d_in2 :: nat
  d_in3 :: nat
  d_addr :: md_addr_t
  d_NPC :: md_addr_t
  d_target :: md_addr_t

record ('c, 'm) ooo_cfg =
  RUU_size :: nat
  LSQ_size :: nat
  ruu_ifq_size :: nat
  ruu_decode_width :: nat
  ruu_issue_width :: nat
  ruu_commit_width :: nat
  ruu_branch_penalty :: nat
  ruu_inorder_issue :: bool
  ruu_include_spec :: bool
  bugcompat_mode :: bool
  pred_perfect :: bool
  bpred_spec_update :: spec_update
  cache_dl1 :: "('c \<Rightarrow> mem_cmd \<Rightarrow> md_addr_t \<Rightarrow> nat \<Rightarrow> nat \<times> 'c) option"
  dtlb :: "('c \<Rightarrow> mem_cmd \<Rightarrow> md_addr_t \<Rightarrow> nat \<Rightarrow> nat \<times> 'c) option"
  ld_text_base :: md_addr_t
  ld_text_size :: md_addr_t
  ld_data_base :: md_addr_t
  ld_stack_base :: md_addr_t
  cache_il1 :: "('c \<Rightarrow> mem_cmd \<Rightarrow> md_addr_t \<Rightarrow> nat \<Rightarrow> nat \<times> 'c) option"
  cache_il1_lat :: nat
  itlb :: "('c \<Rightarrow> mem_cmd \<Rightarrow> md_addr_t \<Rightarrow> nat \<Rightarrow> nat \<times> 'c) option"
  compress_icache_addrs :: bool
  fetch_speed :: nat
  fetch_inst :: "'m \<Rightarrow> md_addr_t \<Rightarrow> md_inst_t"
  execute :: "bool \<Rightarrow> fetch_rec \<Rightarrow> 'm \<Rightarrow> (md_addr_t \<times> md_addr_t \<times> md_addr_t \<times> 'm) option"
  drop_spec :: "'m \<Rightarrow> 'm"

definition MD_VALID_ADDR :: "('c, 'm) ooo_cfg \<Rightarrow> md_addr_t \<Rightarrow> bool" where
  "MD_VALID_ADDR cfg addr \<longleftrightarrow>
     addr \<ge> ld_text_base cfg \<and> addr < ld_text_base cfg + ld_text_size cfg
     \<or> addr \<ge> ld_data_base cfg \<and> addr < ld_stack_base cfg"

text \<open>
  The global variables.  A list of links is the list of its records, and of the free links
  only the number matters.
\<close>

record ('c, 'm) ooo_t =
  stn :: "station \<Rightarrow> ruu_station"
  RUU_head :: nat
  RUU_tail :: nat
  RUU_num :: nat
  LSQ_head :: nat
  LSQ_tail :: nat
  LSQ_num :: nat
  rslinks :: nat
  event_queue :: "rs_link list"
  ready_queue :: "rs_link list"
  create_vector :: "nat \<Rightarrow> (station \<times> nat) option"
  spec_create_vector :: "nat \<Rightarrow> (station \<times> nat) option"
  use_spec_cv :: "nat \<Rightarrow> bool"
  fu_pool :: res_pool
  sim_cycle :: nat
  inst_seq :: nat
  spec_mode :: bool
  recover_PC :: md_addr_t
  pred :: "bpred_t option"
  caches :: 'c
  machine :: 'm
  last_op :: "(station \<times> nat) option"
  fetch_data :: "nat \<Rightarrow> fetch_rec"
  fetch_head :: nat
  fetch_tail :: nat
  fetch_num :: nat
  fetch_regs_PC :: md_addr_t
  fetch_pred_PC :: md_addr_t
  ruu_fetch_issue_delay :: nat
  sim_slip :: nat
  sim_invalid_addrs :: nat
  sim_num_insn :: nat
  sim_total_insn :: nat

definition upd_stn :: "station \<Rightarrow> (ruu_station \<Rightarrow> ruu_station) \<Rightarrow> ('c, 'm) ooo_t \<Rightarrow> ('c, 'm) ooo_t" where
  "upd_stn p f s = s\<lparr>stn := (stn s)(p := f (stn s p))\<rparr>"

section \<open>Links\<close>

definition RSLINK_VALID :: "('c, 'm) ooo_t \<Rightarrow> rs_link \<Rightarrow> bool" where
  "RSLINK_VALID s l \<longleftrightarrow> lk_tag l = rs_tag (stn s (lk_rs l))"

text \<open>A new link, whose use the caller fills in; none left is a panic.\<close>

definition RSLINK_NEW :: "station \<Rightarrow> nat \<Rightarrow> ('c, 'm) ooo_t \<Rightarrow> (rs_link \<times> ('c, 'm) ooo_t) option" where
  "RSLINK_NEW p x s =
     (if rslinks s = 0 then None
      else Some (\<lparr>lk_rs = p, lk_tag = rs_tag (stn s p), lk_x = x\<rparr>, s\<lparr>rslinks := rslinks s - 1\<rparr>))"

definition RSLINK_FREE :: "('c, 'm) ooo_t \<Rightarrow> ('c, 'm) ooo_t" where
  "RSLINK_FREE s = s\<lparr>rslinks := rslinks s + 1\<rparr>"

definition RSLINK_FREE_LIST :: "rs_link list \<Rightarrow> ('c, 'm) ooo_t \<Rightarrow> ('c, 'm) ooo_t" where
  "RSLINK_FREE_LIST ls s = s\<lparr>rslinks := rslinks s + length ls\<rparr>"

text \<open>The insertion before the first link whose key is not below that of the new one.\<close>

definition insert_link :: "rs_link \<Rightarrow> rs_link list \<Rightarrow> rs_link list" where
  "insert_link l q = takeWhile (\<lambda>k. lk_x k < lk_x l) q @ l # dropWhile (\<lambda>k. lk_x k < lk_x l) q"

section \<open>The event queue and the ready queue\<close>

definition eventq_queue_event :: "station \<Rightarrow> nat \<Rightarrow> ('c, 'm) ooo_t \<Rightarrow> ('c, 'm) ooo_t option" where
  "eventq_queue_event p when s =
     (if completed (stn s p) then None
      else if when \<le> sim_cycle s then None
      else do {
        (l, s1) \<leftarrow> RSLINK_NEW p when s;
        Some (s1\<lparr>event_queue := insert_link l (event_queue s1)\<rparr>) })"

function eventq_next_event :: "('c, 'm) ooo_t \<Rightarrow> station option \<times> ('c, 'm) ooo_t" where
  "eventq_next_event s =
     (case event_queue s of
        [] \<Rightarrow> (None, s)
      | ev # q \<Rightarrow>
          if lk_x ev \<le> sim_cycle s then
            let s1 = RSLINK_FREE (s\<lparr>event_queue := q\<rparr>)
            in if RSLINK_VALID s ev then (Some (lk_rs ev), s1) else eventq_next_event s1
          else (None, s))"
  by auto
termination by (relation "measure (\<lambda>s. length (event_queue s))") (auto simp: RSLINK_FREE_def)

declare eventq_next_event.simps [simp del]

definition readyq_enqueue :: "station \<Rightarrow> ('c, 'm) ooo_t \<Rightarrow> ('c, 'm) ooo_t option" where
  "readyq_enqueue p s =
     (if queued (stn s p) then None
      else let s1 = upd_stn p (\<lambda>rs. rs\<lparr>queued := True\<rparr>) s in do {
        (l, s2) \<leftarrow> RSLINK_NEW p (rs_seq (stn s1 p)) s1;
        Some (s2\<lparr>ready_queue :=
          (if in_LSQ (stn s p) \<or> MD_OP_FLAGS (rs_op (stn s p)) AND (F_LONGLAT OR F_CTRL) \<noteq> 0
           then l # ready_queue s2 else insert_link l (ready_queue s2))\<rparr>) })"

section \<open>Functional units and the branch predictor\<close>

definition ruu_release_fu :: "('c, 'm) ooo_t \<Rightarrow> ('c, 'm) ooo_t" where
  "ruu_release_fu s = s\<lparr>fu_pool := release_units (fu_pool s)\<rparr>"

text \<open>Reserving a unit that \<open>res_get()\<close> found.\<close>

definition reserve_fu :: "nat \<times> nat \<Rightarrow> ('c, 'm) ooo_t \<Rightarrow> ('c, 'm) ooo_t option" where
  "reserve_fu fu s =
     (if master_busy (fu_pool s) fu \<noteq> 0 then None
      else Some (s\<lparr>fu_pool := set_busy (rt_master (template (fu_pool s) fu))
                     (rt_issuelat (template (fu_pool s) fu)) (fu_pool s)\<rparr>))"

text \<open>An access to the data cache or TLB, if there is one.\<close>

definition data_access :: "('c \<Rightarrow> mem_cmd \<Rightarrow> md_addr_t \<Rightarrow> nat \<Rightarrow> nat \<times> 'c) option \<Rightarrow> mem_cmd \<Rightarrow> md_addr_t \<Rightarrow>
    ('c, 'm) ooo_t \<Rightarrow> nat option \<times> ('c, 'm) ooo_t" where
  "data_access port cmd addr s =
     (case port of None \<Rightarrow> (None, s)
      | Some f \<Rightarrow> let (lat, c) = f (caches s) cmd addr (sim_cycle s) in (Some lat, s\<lparr>caches := c\<rparr>))"

text \<open>The update of the branch predictor at the stage it is configured for.\<close>

definition update_pred :: "md_addr_t \<Rightarrow> md_addr_t \<Rightarrow> md_addr_t \<Rightarrow> word_t \<Rightarrow> bpred_update_t \<Rightarrow>
    ('c, 'm) ooo_t \<Rightarrow> ('c, 'm) ooo_t option" where
  "update_pred PC next_PC pred_PC op up s =
     (case pred s of None \<Rightarrow> Some s
      | Some p \<Rightarrow> do {
          p' \<leftarrow> bpred_update p PC next_PC (next_PC \<noteq> PC + 8) (pred_PC \<noteq> PC + 8) (pred_PC = next_PC) op up;
          Some (s\<lparr>pred := Some p'\<rparr>) })"

definition update_pred_at :: "('c, 'm) ooo_cfg \<Rightarrow> spec_update \<Rightarrow> ruu_station \<Rightarrow> ('c, 'm) ooo_t \<Rightarrow> ('c, 'm) ooo_t option" where
  "update_pred_at cfg stage rs s =
     (if bpred_spec_update cfg = stage \<and> is_ctrl (rs_op rs)
      then update_pred (rs_PC rs) (rs_next_PC rs) (rs_pred_PC rs) (rs_op rs) (dir_update rs) s
      else Some s)"

section \<open>Commit\<close>

text \<open>Retiring the head of a queue: its station's tag changes, so that no link to it is valid.\<close>

definition retire :: "station \<Rightarrow> ('c, 'm) ooo_t \<Rightarrow> ('c, 'm) ooo_t" where
  "retire p s =
     (let s1 = upd_stn p (\<lambda>rs. rs\<lparr>rs_tag := rs_tag rs + 1\<rparr>) s
      in s1\<lparr>sim_slip := sim_slip s1 + (sim_cycle s1 - rs_slip (stn s1 p))\<rparr>)"

text \<open>
  The load or store of the head: \<open>False\<close> is a \<open>break\<close> of the commit loop.  A store needs a
  port, writes the data cache and looks up the TLB.
\<close>

definition commit_store :: "('c, 'm) ooo_cfg \<Rightarrow> ruu_station \<Rightarrow> ('c, 'm) ooo_t \<Rightarrow> (bool \<times> ('c, 'm) ooo_t) option" where
  "commit_store cfg rs s = do {
     fu \<leftarrow> res_get (fu_pool s) (MD_OP_FUCLASS (rs_op rs));
     (case fu of None \<Rightarrow> Some (False, s)
      | Some u \<Rightarrow> do {
          s1 \<leftarrow> reserve_fu u s;
          (let s2 = snd (data_access (cache_dl1 cfg) Write (rs_addr rs AND NOT 3) s1);
               s3 = snd (data_access (dtlb cfg) Read (rs_addr rs AND NOT 3) s2)
           in Some (True, s3)) }) }"

definition commit_mem :: "('c, 'm) ooo_cfg \<Rightarrow> ('c, 'm) ooo_t \<Rightarrow> (bool \<times> ('c, 'm) ooo_t) option" where
  "commit_mem cfg s =
     (let lsq = stn s (Lsq (LSQ_head s)) in
      if LSQ_num s = 0 \<or> \<not> in_LSQ lsq then None
      else if \<not> completed lsq then Some (False, s)
      else do {
        (go, s1) \<leftarrow> (if is_store (rs_op lsq) then commit_store cfg lsq s else Some (True, s));
        Some (if \<not> go then (False, s1)
          else (True, (retire (Lsq (LSQ_head s1)) s1)
                  \<lparr>LSQ_head := (LSQ_head s1 + 1) mod LSQ_size cfg, LSQ_num := LSQ_num s1 - 1\<rparr>)) })"

fun commit_loop :: "('c, 'm) ooo_cfg \<Rightarrow> nat \<Rightarrow> ('c, 'm) ooo_t \<Rightarrow> ('c, 'm) ooo_t option" where
  "commit_loop cfg 0 s = Some s"
| "commit_loop cfg (Suc n) s =
     (let p = Ruu (RUU_head s); rs = stn s p in
      if RUU_num s = 0 \<or> \<not> completed rs then Some s
      else do {
        (go, s1) \<leftarrow> (if ea_comp rs then commit_mem cfg s else Some (True, s));
        if \<not> go then Some s1
        else do {
          s2 \<leftarrow> update_pred_at cfg spec_CT rs s1;
          (let s3 = (retire p s2)\<lparr>RUU_head := (RUU_head s2 + 1) mod RUU_size cfg, RUU_num := RUU_num s2 - 1\<rparr>
           in if odep_list (stn s3 p) \<noteq> [[], []] then None else commit_loop cfg n s3) } })"

definition ruu_commit :: "('c, 'm) ooo_cfg \<Rightarrow> ('c, 'm) ooo_t \<Rightarrow> ('c, 'm) ooo_t option" where
  "ruu_commit cfg s = commit_loop cfg (ruu_commit_width cfg) s"

section \<open>Recovery\<close>

text \<open>Squashing a station: its lists of consumers are freed and its tag changes.\<close>

definition squash :: "station \<Rightarrow> ('c, 'm) ooo_t \<Rightarrow> ('c, 'm) ooo_t" where
  "squash p s =
     upd_stn p (\<lambda>rs. rs\<lparr>odep_list := [[], []], rs_tag := rs_tag rs + 1\<rparr>)
       (RSLINK_FREE_LIST (concat (odep_list (stn s p))) s)"

text \<open>
  The walk from the tails towards the branch at \<open>RUU[b]\<close>: \<open>ri\<close> and \<open>li\<close> are the entries
  looked at, \<open>rt\<close> and \<open>lt\<close> the ones after them, the tails in the end.
\<close>

function recover_loop :: "('c, 'm) ooo_cfg \<Rightarrow> nat \<Rightarrow> nat \<Rightarrow> nat \<Rightarrow> nat \<Rightarrow> nat \<Rightarrow> ('c, 'm) ooo_t \<Rightarrow> ('c, 'm) ooo_t option" where
  "recover_loop cfg b ri li rt lt s =
     (if ri = b then Some (s\<lparr>RUU_tail := rt, LSQ_tail := lt\<rparr>)
      else if RUU_num s = 0 then None
      else if ri = RUU_head s then None
      else if ea_comp (stn s (Ruu ri)) then
        if LSQ_num s = 0 then None
        else recover_loop cfg b ((ri + (RUU_size cfg - 1)) mod RUU_size cfg) ((li + (LSQ_size cfg - 1)) mod LSQ_size cfg) ri li
               ((squash (Ruu ri) ((squash (Lsq li) s)\<lparr>LSQ_num := LSQ_num s - 1\<rparr>))\<lparr>RUU_num := RUU_num s - 1\<rparr>)
      else recover_loop cfg b ((ri + (RUU_size cfg - 1)) mod RUU_size cfg) li ri lt
             ((squash (Ruu ri) s)\<lparr>RUU_num := RUU_num s - 1\<rparr>))"
  by pat_completeness auto
termination by (relation "measure (\<lambda>(cfg, b, ri, li, rt, lt, s). RUU_num s)") auto

declare recover_loop.simps [simp del]

definition ruu_recover :: "('c, 'm) ooo_cfg \<Rightarrow> nat \<Rightarrow> ('c, 'm) ooo_t \<Rightarrow> ('c, 'm) ooo_t option" where
  "ruu_recover cfg b s = do {
     s1 \<leftarrow> recover_loop cfg b ((RUU_tail s + (RUU_size cfg - 1)) mod RUU_size cfg)
             ((LSQ_tail s + (LSQ_size cfg - 1)) mod LSQ_size cfg) (RUU_tail s) (LSQ_tail s) s;
     Some (s1\<lparr>use_spec_cv := \<lambda>_. False\<rparr>) }"

text \<open>Back to the precise registers and memory, and fetching from the right path.\<close>

definition tracer_recover :: "('c, 'm) ooo_cfg \<Rightarrow> ('c, 'm) ooo_t \<Rightarrow> ('c, 'm) ooo_t option" where
  "tracer_recover cfg s =
     (if \<not> spec_mode s then None
      else Some (s\<lparr>spec_mode := False, machine := drop_spec cfg (machine s), fetch_num := 0, fetch_tail := 0,
                   fetch_head := 0, fetch_regs_PC := recover_PC s, fetch_pred_PC := recover_PC s\<rparr>))"

section \<open>Writeback\<close>

text \<open>A consumer on the list of a completed output: its operand is ready, and perhaps all are.\<close>

definition wake :: "rs_link \<Rightarrow> ('c, 'm) ooo_t \<Rightarrow> ('c, 'm) ooo_t option" where
  "wake l s = do {
     s1 \<leftarrow> (if RSLINK_VALID s l then
              if idep_ready (stn s (lk_rs l)) ! lk_x l then None
              else let s1 = upd_stn (lk_rs l) (\<lambda>rs. rs\<lparr>idep_ready := (idep_ready rs)[lk_x l := True]\<rparr>) s;
                       rs = stn s1 (lk_rs l)
                in if OPERANDS_READY rs \<and> (\<not> in_LSQ rs \<or> is_store (rs_op rs)) then readyq_enqueue (lk_rs l) s1
                   else Some s1
            else Some s);
     Some (RSLINK_FREE s1) }"

fun wake_all :: "rs_link list \<Rightarrow> ('c, 'm) ooo_t \<Rightarrow> ('c, 'm) ooo_t option" where
  "wake_all [] s = Some s"
| "wake_all (l # ls) s = do { s1 \<leftarrow> wake l s; wake_all ls s1 }"

text \<open>The create vector no longer names a completed creator.\<close>

definition clear_creator :: "station \<Rightarrow> nat \<Rightarrow> ('c, 'm) ooo_t \<Rightarrow> ('c, 'm) ooo_t" where
  "clear_creator p i s =
     (let r = onames (stn s p) ! i in
      if rs_spec (stn s p)
      then if spec_create_vector s r = Some (p, i)
           then s\<lparr>spec_create_vector := (spec_create_vector s)(r := None)\<rparr> else s
      else if create_vector s r = Some (p, i)
           then s\<lparr>create_vector := (create_vector s)(r := None)\<rparr> else s)"

definition broadcast :: "station \<Rightarrow> nat \<Rightarrow> ('c, 'm) ooo_t \<Rightarrow> ('c, 'm) ooo_t option" where
  "broadcast p i s =
     (if onames (stn s p) ! i \<noteq> NA then do {
        s1 \<leftarrow> wake_all (odep_list (stn s p) ! i) (clear_creator p i s);
        Some (upd_stn p (\<lambda>rs. rs\<lparr>odep_list := (odep_list rs)[i := []]\<rparr>) s1) }
      else Some s)"

text \<open>A mispredicted branch: recover the core, the trace generator and the return stack.\<close>

definition recover_branch :: "('c, 'm) ooo_cfg \<Rightarrow> station \<Rightarrow> ('c, 'm) ooo_t \<Rightarrow> ('c, 'm) ooo_t option" where
  "recover_branch cfg p s =
     (case p of Lsq _ \<Rightarrow> None
      | Ruu b \<Rightarrow> do {
          s1 \<leftarrow> ruu_recover cfg b s;
          s2 \<leftarrow> tracer_recover cfg s1;
          Some (s2\<lparr>pred := map_option (\<lambda>q. bpred_recover q (stack_recover_idx (stn s2 p))) (pred s2),
                   ruu_fetch_issue_delay := ruu_branch_penalty cfg\<rparr>) })"

definition complete :: "('c, 'm) ooo_cfg \<Rightarrow> station \<Rightarrow> ('c, 'm) ooo_t \<Rightarrow> ('c, 'm) ooo_t option" where
  "complete cfg p s =
     (if \<not> OPERANDS_READY (stn s p) \<or> queued (stn s p) \<or> \<not> issued (stn s p) \<or> completed (stn s p) then None
      else let s1 = upd_stn p (\<lambda>rs. rs\<lparr>completed := True\<rparr>) s in do {
        s2 \<leftarrow> (if recover_inst (stn s1 p)
               then if in_LSQ (stn s1 p) then None else recover_branch cfg p s1 else Some s1);
        s3 \<leftarrow> (if \<not> in_LSQ (stn s2 p) then update_pred_at cfg spec_WB (stn s2 p) s2 else Some s2);
        s4 \<leftarrow> broadcast p 0 s3;
        broadcast p 1 s4 })"

partial_function (option) ruu_writeback :: "('c, 'm) ooo_cfg \<Rightarrow> ('c, 'm) ooo_t \<Rightarrow> ('c, 'm) ooo_t option" where
  "ruu_writeback cfg s =
     (case eventq_next_event s of
        (None, s1) \<Rightarrow> Some s1
      | (Some p, s1) \<Rightarrow> do { s2 \<leftarrow> complete cfg p s1; ruu_writeback cfg s2 })"

section \<open>Memory dependences\<close>

definition MAX_STD_UNKNOWNS :: nat where "MAX_STD_UNKNOWNS = 64"

definition lsq_entries :: "('c, 'm) ooo_cfg \<Rightarrow> ('c, 'm) ooo_t \<Rightarrow> station list" where
  "lsq_entries cfg s = map (\<lambda>i. Lsq ((LSQ_head s + i) mod LSQ_size cfg)) [0 ..< LSQ_num s]"

text \<open>
  The scan from the oldest entry: a store without address ends it; \<open>unk\<close> are the addresses
  of the stores whose data is not known, 0 where a later store hides one.
\<close>

fun refresh_loop :: "station list \<Rightarrow> md_addr_t list \<Rightarrow> ('c, 'm) ooo_t \<Rightarrow> ('c, 'm) ooo_t option" where
  "refresh_loop [] unk s = Some s"
| "refresh_loop (p # ps) unk s =
     (let rs = stn s p in
      if is_store (rs_op rs) \<and> \<not> STORE_ADDR_READY rs then Some s
      else do {
        unk1 \<leftarrow> (if is_store (rs_op rs) then
                   if \<not> OPERANDS_READY rs then
                     if length unk = MAX_STD_UNKNOWNS then None else Some (unk @ [rs_addr rs])
                   else Some (map (\<lambda>a. if a = rs_addr rs then 0 else a) unk)
                 else Some unk);
        s1 \<leftarrow> (if is_load (rs_op rs) \<and> \<not> queued rs \<and> \<not> issued rs \<and> \<not> completed rs \<and> OPERANDS_READY rs
                  \<and> rs_addr rs \<notin> set unk1 then readyq_enqueue p s else Some s);
        refresh_loop ps unk1 s1 })"

definition lsq_refresh :: "('c, 'm) ooo_cfg \<Rightarrow> ('c, 'm) ooo_t \<Rightarrow> ('c, 'm) ooo_t option" where
  "lsq_refresh cfg s = refresh_loop (lsq_entries cfg s) [] s"

section \<open>Issue\<close>

text \<open>An earlier store in the queue at the address of the load at \<open>LSQ[i]\<close>.\<close>

definition lsq_forwards :: "('c, 'm) ooo_cfg \<Rightarrow> nat \<Rightarrow> ('c, 'm) ooo_t \<Rightarrow> bool" where
  "lsq_forwards cfg i s \<longleftrightarrow>
     list_ex (\<lambda>k. let rs = stn s (Lsq ((i + (LSQ_size cfg - k)) mod LSQ_size cfg))
                 in MD_OP_FLAGS (rs_op rs) AND F_STORE \<noteq> 0 \<and> rs_addr rs = rs_addr (stn s (Lsq i)))
       [1 ..< (i + LSQ_size cfg - LSQ_head s) mod LSQ_size cfg + 1]"

text \<open>The latency of a load, from the queue, the data cache or the unit, and from the TLB.\<close>

definition load_latency :: "('c, 'm) ooo_cfg \<Rightarrow> station \<Rightarrow> nat \<Rightarrow> ('c, 'm) ooo_t \<Rightarrow> nat \<times> ('c, 'm) ooo_t" where
  "load_latency cfg p oplat s =
     (let addr = rs_addr (stn s p); ok = MD_VALID_ADDR cfg addr;
          fwd = (case p of Lsq i \<Rightarrow> lsq_forwards cfg i s | Ruu _ \<Rightarrow> False);
          (lat1, s1) =
            (if fwd then (1, s)
             else let s0 = (if \<not> spec_mode s \<and> \<not> ok then s\<lparr>sim_invalid_addrs := sim_invalid_addrs s + 1\<rparr> else s)
               in if ok then (case data_access (cache_dl1 cfg) Read (addr AND NOT 3) s0 of
                    (None, s') \<Rightarrow> (oplat, s') | (Some lat, s') \<Rightarrow> (lat, s'))
                  else (oplat, s0))
      in if ok then (case data_access (dtlb cfg) Read (addr AND NOT 3) s1 of
           (None, s') \<Rightarrow> (lat1, s') | (Some lat, s') \<Rightarrow> (max lat lat1, s'))
         else (lat1, s1))"

text \<open>Issuing the instruction of a valid link; whether it used issue bandwidth.\<close>

definition issue_one :: "('c, 'm) ooo_cfg \<Rightarrow> station \<Rightarrow> ('c, 'm) ooo_t \<Rightarrow> (bool \<times> ('c, 'm) ooo_t) option" where
  "issue_one cfg p s =
     (let rs = stn s p in
      if \<not> OPERANDS_READY rs \<or> \<not> queued rs \<or> issued rs \<or> completed rs then None
      else let s1 = upd_stn p (\<lambda>rs. rs\<lparr>queued := False\<rparr>) s in
        if in_LSQ rs \<and> is_store (rs_op rs) then
          if onames rs ! 0 \<noteq> NA \<or> onames rs ! 1 \<noteq> NA \<or> recover_inst rs then None
          else Some (True, upd_stn p (\<lambda>rs. rs\<lparr>issued := True, completed := True\<rparr>) s1)
        else if MD_OP_FUCLASS (rs_op rs) \<noteq> FUClass_NA then do {
          fu \<leftarrow> res_get (fu_pool s1) (MD_OP_FUCLASS (rs_op rs));
          (case fu of
             None \<Rightarrow> do { s2 \<leftarrow> readyq_enqueue p s1; Some (False, s2) }
           | Some u \<Rightarrow> do {
               s2 \<leftarrow> reserve_fu u (upd_stn p (\<lambda>rs. rs\<lparr>issued := True\<rparr>) s1);
               (let oplat = rt_oplat (template (fu_pool s1) u);
                    (lat, s3) = (if in_LSQ rs \<and> is_load (rs_op rs) then load_latency cfg p oplat s2 else (oplat, s2))
                in do { s4 \<leftarrow> eventq_queue_event p (sim_cycle s3 + lat) s3; Some (True, s4) }) }) }
        else do {
          s2 \<leftarrow> eventq_queue_event p (sim_cycle s1 + 1) (upd_stn p (\<lambda>rs. rs\<lparr>issued := True\<rparr>) s1);
          Some (True, s2) })"

text \<open>The old ready list: issued while there is bandwidth \<open>n\<close>, then queued again.\<close>

fun issue_loop :: "('c, 'm) ooo_cfg \<Rightarrow> nat \<Rightarrow> rs_link list \<Rightarrow> ('c, 'm) ooo_t \<Rightarrow> ('c, 'm) ooo_t option" where
  "issue_loop cfg n [] s = Some s"
| "issue_loop cfg n (l # ls) s =
     (if \<not> RSLINK_VALID s l then issue_loop cfg n ls (RSLINK_FREE s)
      else if n = 0 then do {
        s1 \<leftarrow> readyq_enqueue (lk_rs l) (upd_stn (lk_rs l) (\<lambda>rs. rs\<lparr>queued := False\<rparr>) s);
        issue_loop cfg 0 ls (RSLINK_FREE s1) }
      else do {
        (used, s1) \<leftarrow> issue_one cfg (lk_rs l) s;
        issue_loop cfg (if used then n - 1 else n) ls (RSLINK_FREE s1) })"

definition ruu_issue :: "('c, 'm) ooo_cfg \<Rightarrow> ('c, 'm) ooo_t \<Rightarrow> ('c, 'm) ooo_t option" where
  "ruu_issue cfg s = issue_loop cfg (ruu_issue_width cfg) (ready_queue s) (s\<lparr>ready_queue := []\<rparr>)"

section \<open>Dispatch\<close>

definition CREATE_VECTOR :: "nat \<Rightarrow> ('c, 'm) ooo_t \<Rightarrow> (station \<times> nat) option" where
  "CREATE_VECTOR n s = (if use_spec_cv s n then spec_create_vector s n else create_vector s n)"

definition SET_CREATE_VECTOR :: "nat \<Rightarrow> (station \<times> nat) option \<Rightarrow> ('c, 'm) ooo_t \<Rightarrow> ('c, 'm) ooo_t" where
  "SET_CREATE_VECTOR n l s =
     (if spec_mode s
      then s\<lparr>use_spec_cv := (use_spec_cv s)(n := True), spec_create_vector := (spec_create_vector s)(n := l)\<rparr>
      else s\<lparr>create_vector := (create_vector s)(n := l)\<rparr>)"

definition set_ready :: "nat \<Rightarrow> bool \<Rightarrow> ruu_station \<Rightarrow> ruu_station" where
  "set_ready k b rs = rs\<lparr>idep_ready := (idep_ready rs)[k := b]\<rparr>"

text \<open>Linking an operand to its creator, and making a station the creator of a register.\<close>

definition ruu_link_idep :: "station \<Rightarrow> nat \<Rightarrow> nat \<Rightarrow> ('c, 'm) ooo_t \<Rightarrow> ('c, 'm) ooo_t option" where
  "ruu_link_idep p k name s =
     (if name = NA then Some (upd_stn p (set_ready k True) s)
      else if name \<ge> MD_TOTAL_REGS then None
      else case CREATE_VECTOR name s of
        None \<Rightarrow> Some (upd_stn p (set_ready k True) s)
      | Some (q, j) \<Rightarrow> do {
          (l, s1) \<leftarrow> RSLINK_NEW p k (upd_stn p (set_ready k False) s);
          Some (upd_stn q (\<lambda>rs. rs\<lparr>odep_list := (odep_list rs)[j := l # odep_list rs ! j]\<rparr>) s1) })"

definition ruu_install_odep :: "station \<Rightarrow> nat \<Rightarrow> nat \<Rightarrow> ('c, 'm) ooo_t \<Rightarrow> ('c, 'm) ooo_t option" where
  "ruu_install_odep p j name s =
     (if name = NA then Some (upd_stn p (\<lambda>rs. rs\<lparr>onames := (onames rs)[j := NA]\<rparr>) s)
      else if name \<ge> MD_TOTAL_REGS then None
      else Some (SET_CREATE_VECTOR name (Some (p, j))
             (upd_stn p (\<lambda>rs. rs\<lparr>onames := (onames rs)[j := name], odep_list := (odep_list rs)[j := []]\<rparr>) s)))"

text \<open>The fields of a station at dispatch; the tag and the output lists are left as they are.\<close>

definition fill_station :: "fetch_rec \<Rightarrow> decoded \<Rightarrow> md_addr_t \<Rightarrow> bool \<Rightarrow> ('c, 'm) ooo_t \<Rightarrow> ruu_station \<Rightarrow> ruu_station" where
  "fill_station fr d pPC lsq s rs =
     rs\<lparr>rs_op := (if \<not> lsq \<and> is_mem (d_op d) then MD_AGEN_OP else d_op d),
        rs_PC := fr_PC fr, rs_next_PC := d_NPC d, rs_pred_PC := pPC,
        in_LSQ := lsq, ea_comp := \<not> lsq \<and> is_mem (d_op d), recover_inst := False,
        stack_recover_idx := (if lsq then 0 else fr_stack_idx fr),
        dir_update := (if lsq then (dir_update rs)\<lparr>up_pdir1 := None, up_pdir2 := None, up_pmeta := None\<rparr>
                       else fr_dir_update fr),
        rs_spec := spec_mode s, rs_addr := (if lsq then d_addr d else 0),
        rs_seq := inst_seq s + 1, rs_slip := sim_cycle s - 1,
        queued := False, issued := False, completed := False\<rparr>"

definition enqueue_if :: "bool \<Rightarrow> station \<Rightarrow> ('c, 'm) ooo_t \<Rightarrow> ('c, 'm) ooo_t option" where
  "enqueue_if b p s = (if b then readyq_enqueue p s else Some s)"

text \<open>A load or store: the address computation in the RUU and the access in the LSQ.\<close>

definition dispatch_mem :: "('c, 'm) ooo_cfg \<Rightarrow> fetch_rec \<Rightarrow> decoded \<Rightarrow> md_addr_t \<Rightarrow> ('c, 'm) ooo_t \<Rightarrow> ('c, 'm) ooo_t option" where
  "dispatch_mem cfg fr d pPC s =
     (let p = Ruu (RUU_tail s); q = Lsq (LSQ_tail s);
          s1 = (upd_stn p (fill_station fr d pPC False s) s)\<lparr>inst_seq := inst_seq s + 1\<rparr>;
          s2 = (upd_stn q (fill_station fr d pPC True s1) s1)\<lparr>inst_seq := inst_seq s1 + 1\<rparr> in do {
        s3 \<leftarrow> ruu_link_idep p 0 NA s2;
        s4 \<leftarrow> ruu_link_idep p 1 (d_in2 d) s3;
        s5 \<leftarrow> ruu_link_idep p 2 (d_in3 d) s4;
        s6 \<leftarrow> ruu_install_odep p 0 DTMP s5;
        s7 \<leftarrow> ruu_install_odep p 1 NA s6;
        s8 \<leftarrow> ruu_link_idep q STORE_OP_INDEX (d_in1 d) s7;
        s9 \<leftarrow> ruu_link_idep q STORE_ADDR_INDEX DTMP s8;
        s10 \<leftarrow> ruu_link_idep q 2 NA s9;
        s11 \<leftarrow> ruu_install_odep q 0 (d_out1 d) s10;
        s12 \<leftarrow> ruu_install_odep q 1 (d_out2 d) s11;
        (let s13 = s12\<lparr>RUU_tail := (RUU_tail s12 + 1) mod RUU_size cfg, RUU_num := RUU_num s12 + 1,
                       LSQ_tail := (LSQ_tail s12 + 1) mod LSQ_size cfg, LSQ_num := LSQ_num s12 + 1\<rparr> in do {
           s14 \<leftarrow> enqueue_if (OPERANDS_READY (stn s13 p)) p s13;
           (let s15 = s14\<lparr>last_op := Some (q, rs_tag (stn s14 q))\<rparr> in
            enqueue_if (is_store (d_op d) \<and> OPERANDS_READY (stn s15 q)) q s15) }) })"

definition dispatch_op :: "('c, 'm) ooo_cfg \<Rightarrow> fetch_rec \<Rightarrow> decoded \<Rightarrow> md_addr_t \<Rightarrow> ('c, 'm) ooo_t \<Rightarrow> ('c, 'm) ooo_t option" where
  "dispatch_op cfg fr d pPC s =
     (let p = Ruu (RUU_tail s);
          s1 = (upd_stn p (fill_station fr d pPC False s) s)\<lparr>inst_seq := inst_seq s + 1\<rparr> in do {
        s2 \<leftarrow> ruu_link_idep p 0 (d_in1 d) s1;
        s3 \<leftarrow> ruu_link_idep p 1 (d_in2 d) s2;
        s4 \<leftarrow> ruu_link_idep p 2 (d_in3 d) s3;
        s5 \<leftarrow> ruu_install_odep p 0 (d_out1 d) s4;
        s6 \<leftarrow> ruu_install_odep p 1 (d_out2 d) s5;
        (let s7 = s6\<lparr>RUU_tail := (RUU_tail s6 + 1) mod RUU_size cfg, RUU_num := RUU_num s6 + 1\<rparr> in
         if OPERANDS_READY (stn s7 p) then do { s8 \<leftarrow> readyq_enqueue p s7; Some (s8\<lparr>last_op := None\<rparr>) }
         else Some (s7\<lparr>last_op := Some (p, rs_tag (stn s7 p))\<rparr>)) })"

text \<open>A wrong fetch that dispatch sees: the fetch queue is emptied at the end of the step.\<close>

definition redirect_fetch :: "('c, 'm) ooo_cfg \<Rightarrow> md_addr_t \<Rightarrow> ('c, 'm) ooo_t \<Rightarrow> ('c, 'm) ooo_t" where
  "redirect_fetch cfg NPC s =
     s\<lparr>fetch_pred_PC := NPC, fetch_regs_PC := NPC, fetch_head := ruu_ifq_size cfg - 1, fetch_num := 1,
       fetch_tail := 0,
       ruu_fetch_issue_delay := (if \<not> pred_perfect cfg then ruu_branch_penalty cfg else ruu_fetch_issue_delay s)\<rparr>"

text \<open>
  After the allocation in station \<open>p\<close>, which a NOP does not have: the predictor, and whether
  this instruction is the first of a wrong path.
\<close>

definition enter_spec :: "('c, 'm) ooo_cfg \<Rightarrow> fetch_rec \<Rightarrow> decoded \<Rightarrow> md_addr_t \<Rightarrow> bool \<Rightarrow> station option \<Rightarrow>
    ('c, 'm) ooo_t \<Rightarrow> ('c, 'm) ooo_t option" where
  "enter_spec cfg fr d pPC redirected p s =
     (if spec_mode s then Some s
      else do {
        s1 \<leftarrow> (if is_ctrl (d_op d) \<and> bpred_spec_update cfg = spec_ID
               then update_pred (fr_PC fr) (d_NPC d) pPC (d_op d) (fr_dir_update fr) s else Some s);
        if pPC \<noteq> d_NPC d \<and> \<not> redirected
        then (case p of None \<Rightarrow> None
              | Some r \<Rightarrow> Some ((upd_stn r (\<lambda>rs. rs\<lparr>recover_inst := True\<rparr>) s1)
                                  \<lparr>spec_mode := True, recover_PC := d_NPC d\<rparr>))
        else Some s1 })"

definition consume_fetch :: "('c, 'm) ooo_cfg \<Rightarrow> ('c, 'm) ooo_t \<Rightarrow> ('c, 'm) ooo_t" where
  "consume_fetch cfg s =
     s\<lparr>fetch_head := (fetch_head s + 1) AND (ruu_ifq_size cfg - 1), fetch_num := fetch_num s - 1\<rparr>"

text \<open>
  The dependences of an instruction, by the \<open>DEFINST\<close> row of its opcode: the designator
  \<open>DNA\<close> is -1 in the table and \<open>NA\<close> here.  A bogus opcode is turned into a NOP, which
  executes nothing.
\<close>

definition dep :: "word_t \<Rightarrow> nat" where
  "dep r = (if r = - 1 then NA else unat r)"

definition decode_execute :: "('c, 'm) ooo_cfg \<Rightarrow> bool \<Rightarrow> fetch_rec \<Rightarrow> 'm \<Rightarrow> (decoded \<times> 'm) option" where
  "decode_execute cfg spec fr m =
     (let inst = fr_IR fr; op = MD_SET_OPCODE inst in
      case definst_of pisa_def op of
        None \<Rightarrow> Some (\<lparr>d_op = MD_NOP_OP, d_out1 = NA, d_out2 = NA, d_in1 = NA, d_in2 = NA, d_in3 = NA,
                   d_addr = 0, d_NPC = fr_PC fr + 8, d_target = 0\<rparr>, m)
      | Some d \<Rightarrow> do {
          (addr, npc, target, m') \<leftarrow> execute cfg spec fr m;
          Some (\<lparr>d_op = op, d_out1 = dep (di_o1 d inst), d_out2 = dep (di_o2 d inst),
                  d_in1 = dep (di_i1 d inst), d_in2 = dep (di_i2 d inst), d_in3 = dep (di_i3 d inst),
                  d_addr = addr, d_NPC = npc, d_target = target\<rparr>, m') })"

text \<open>
  One instruction: \<open>None\<close> inside is the \<open>break\<close> for a trap that waits for the RUU to drain,
  otherwise whether the instruction counts against the decode width.
\<close>

definition dispatch_one :: "('c, 'm) ooo_cfg \<Rightarrow> ('c, 'm) ooo_t \<Rightarrow> (bool option \<times> ('c, 'm) ooo_t) option" where
  "dispatch_one cfg s =
     (let fr = fetch_data s (fetch_head s); trap = MD_OP_FLAGS (MD_SET_OPCODE (fr_IR fr)) AND F_TRAP \<noteq> 0 in
      if trap \<and> RUU_num s \<noteq> 0 then Some (None, s)
      else if trap \<and> spec_mode s then None
      else do {
        (d, m) \<leftarrow> decode_execute cfg (spec_mode s) fr (machine s);
        (let s1 = s\<lparr>machine := m, sim_num_insn := (if spec_mode s then sim_num_insn s else sim_num_insn s + 1)\<rparr>;
             redirect = (fr_pred_PC fr \<noteq> d_NPC d \<and> pred_perfect cfg
               \<or> MD_OP_FLAGS (d_op d) AND (F_CTRL OR F_DIRJMP) = F_CTRL OR F_DIRJMP
                 \<and> d_target d \<noteq> fr_pred_PC fr \<and> fr_pred_PC fr \<noteq> fr_PC fr + 8);
             pPC = (if redirect \<and> pred_perfect cfg then d_NPC d else fr_pred_PC fr);
             s2 = (if redirect then redirect_fetch cfg (d_NPC d) s1 else s1);
             p = (if d_op d = MD_NOP_OP then None else Some (Ruu (RUU_tail s2)))
         in do {
           s3 \<leftarrow> (if p = None then Some s2
                  else if is_mem (d_op d) then dispatch_mem cfg fr d pPC s2 else dispatch_op cfg fr d pPC s2);
           s4 \<leftarrow> enter_spec cfg fr d pPC redirect p (s3\<lparr>sim_total_insn := sim_total_insn s3 + 1\<rparr>);
           Some (Some (p \<noteq> None), consume_fetch cfg s4) }) })"

text \<open>The loop, with what is left of the decode bandwidth.\<close>

partial_function (option) dispatch_loop :: "('c, 'm) ooo_cfg \<Rightarrow> nat \<Rightarrow> ('c, 'm) ooo_t \<Rightarrow> ('c, 'm) ooo_t option" where
  "dispatch_loop cfg n s =
     (if n = 0 \<or> RUU_num s \<ge> RUU_size cfg \<or> LSQ_num s \<ge> LSQ_size cfg \<or> fetch_num s = 0
         \<or> \<not> (ruu_include_spec cfg \<or> \<not> spec_mode s)
         \<or> ruu_inorder_issue cfg \<and> (case last_op s of None \<Rightarrow> False
              | Some (p, tag) \<Rightarrow> tag = rs_tag (stn s p) \<and> \<not> OPERANDS_READY (stn s p))
      then Some s
      else do {
        (r, s1) \<leftarrow> dispatch_one cfg s;
        (case r of None \<Rightarrow> Some s1
         | Some counted \<Rightarrow> dispatch_loop cfg (if counted then n - 1 else n) s1) })"

definition ruu_dispatch :: "('c, 'm) ooo_cfg \<Rightarrow> ('c, 'm) ooo_t \<Rightarrow> ('c, 'm) ooo_t option" where
  "ruu_dispatch cfg s = dispatch_loop cfg (ruu_decode_width cfg * fetch_speed cfg) s"

section \<open>Fetch\<close>

definition MD_NOP_INST :: md_inst_t where "MD_NOP_INST = \<lparr>inst_a = NOP, inst_b = 0\<rparr>"

definition MD_IS_RETURN :: "md_inst_t \<Rightarrow> word_t \<Rightarrow> bool" where
  "MD_IS_RETURN inst op \<longleftrightarrow> op = JR \<and> RS inst = 31"

definition IACOMPRESS :: "('c, 'm) ooo_cfg \<Rightarrow> md_addr_t \<Rightarrow> md_addr_t" where
  "IACOMPRESS cfg a =
     (if compress_icache_addrs cfg then drop_bit 1 (a - ld_text_base cfg) + ld_text_base cfg else a)"

text \<open>The latency of reading the instruction, from the instruction cache and the TLB.\<close>

definition fetch_latency :: "('c, 'm) ooo_cfg \<Rightarrow> md_addr_t \<Rightarrow> ('c, 'm) ooo_t \<Rightarrow> nat \<times> ('c, 'm) ooo_t" where
  "fetch_latency cfg PC s =
     (let (lat, s1) = (case data_access (cache_il1 cfg) Read (IACOMPRESS cfg PC) s of
            (None, s') \<Rightarrow> (cache_il1_lat cfg, s') | (Some l, s') \<Rightarrow> (l, s'))
      in case data_access (itlb cfg) Read (IACOMPRESS cfg PC) s1 of
           (None, s') \<Rightarrow> (lat, s') | (Some l, s') \<Rightarrow> (max l lat, s'))"

text \<open>
  The next fetch address, whether the fetch goes on there after a jump, and the state; the
  update record of the slot and the index of the return stack stay as they are for an
  instruction that is not a branch.
\<close>

definition predict_next :: "('c, 'm) ooo_cfg \<Rightarrow> md_inst_t \<Rightarrow> md_addr_t \<Rightarrow> bpred_update_t \<Rightarrow> word_t \<Rightarrow> ('c, 'm) ooo_t \<Rightarrow>
    (md_addr_t \<times> bool \<times> bpred_update_t \<times> word_t \<times> ('c, 'm) ooo_t) option" where
  "predict_next cfg inst PC up idx s =
     (case pred s of
        None \<Rightarrow> Some (PC + 8, False, up, idx, s)
      | Some p \<Rightarrow> let op = MD_SET_OPCODE inst in do {
          (t, p1, up1, idx1) \<leftarrow>
            (if is_ctrl op then bpred_lookup p PC 0 op (MD_IS_CALL op) (MD_IS_RETURN inst op) up idx
             else Some (0, p, up, idx));
          Some (if t = 0 then (PC + 8, False, up1, idx1, s\<lparr>pred := Some p1\<rparr>)
                else (t, True, up1, idx1, s\<lparr>pred := Some p1\<rparr>)) })"

fun fetch_loop :: "('c, 'm) ooo_cfg \<Rightarrow> nat \<Rightarrow> nat \<Rightarrow> word_t \<Rightarrow> ('c, 'm) ooo_t \<Rightarrow> ('c, 'm) ooo_t option" where
  "fetch_loop cfg 0 branch_cnt idx s = Some s"
| "fetch_loop cfg (Suc n) branch_cnt idx s =
     (if fetch_num s \<ge> ruu_ifq_size cfg then Some s
      else let PC = fetch_pred_PC s; s1 = s\<lparr>fetch_regs_PC := PC\<rparr>;
               ok = ld_text_base cfg \<le> PC \<and> PC < ld_text_base cfg + ld_text_size cfg \<and> PC AND 7 = 0;
               inst = (if ok then fetch_inst cfg (machine s1) PC else MD_NOP_INST);
               (lat, s2) = (if ok then fetch_latency cfg PC s1 else (cache_il1_lat cfg, s1)) in
        if lat \<noteq> cache_il1_lat cfg
        then Some (s2\<lparr>ruu_fetch_issue_delay := ruu_fetch_issue_delay s2 + (lat - 1)\<rparr>)
        else do {
          (next, jump, up1, idx1, s3) \<leftarrow> predict_next cfg inst PC (fr_dir_update (fetch_data s2 (fetch_tail s2))) idx s2;
          (let fr = \<lparr>fr_IR = inst, fr_PC = PC, fr_pred_PC = next, fr_dir_update = up1, fr_stack_idx = idx1\<rparr>;
               s4 = s3\<lparr>fetch_pred_PC := next, fetch_data := (fetch_data s3)(fetch_tail s3 := fr),
                       fetch_tail := (fetch_tail s3 + 1) AND (ruu_ifq_size cfg - 1), fetch_num := fetch_num s3 + 1\<rparr>
           in if jump \<and> branch_cnt + 1 \<ge> fetch_speed cfg then Some s4
              else fetch_loop cfg n (if jump then branch_cnt + 1 else branch_cnt) idx1 s4) })"

definition ruu_fetch :: "('c, 'm) ooo_cfg \<Rightarrow> ('c, 'm) ooo_t \<Rightarrow> ('c, 'm) ooo_t option" where
  "ruu_fetch cfg s = fetch_loop cfg (ruu_decode_width cfg * fetch_speed cfg) 0 0 s"

section \<open>The main loop\<close>

definition no_station :: ruu_station where
  "no_station = \<lparr>rs_op = 0, rs_PC = 0, rs_next_PC = 0, rs_pred_PC = 0, in_LSQ = False, ea_comp = False,
     recover_inst = False, stack_recover_idx = 0,
     dir_update = \<lparr>up_pdir1 = None, up_pdir2 = None, up_pmeta = None, up_ras = False, up_bimod = False,
       up_twolev = False, up_meta = False\<rparr>,
     rs_spec = False, rs_addr = 0, rs_tag = 0, rs_seq = 0, rs_slip = 0, queued = False, issued = False,
     completed = False, onames = [NA, NA], odep_list = [[], []], idep_ready = [False, False, False]\<rparr>"

definition no_fetch :: fetch_rec where
  "no_fetch = \<lparr>fr_IR = \<lparr>inst_a = 0, inst_b = 0\<rparr>, fr_PC = 0, fr_pred_PC = 0, fr_dir_update = dir_update no_station,
     fr_stack_idx = 0\<rparr>"

text \<open>The state at the start of the main loop, with the entry PC of the program.\<close>

definition ooo_init :: "nat \<Rightarrow> res_pool \<Rightarrow> bpred_t option \<Rightarrow> md_addr_t \<Rightarrow> 'c \<Rightarrow> 'm \<Rightarrow> ('c, 'm) ooo_t" where
  "ooo_init nlinks pool p entry c m =
     \<lparr>stn = \<lambda>_. no_station, RUU_head = 0, RUU_tail = 0, RUU_num = 0, LSQ_head = 0, LSQ_tail = 0, LSQ_num = 0,
      rslinks = nlinks, event_queue = [], ready_queue = [], create_vector = \<lambda>_. None,
      spec_create_vector = \<lambda>_. None, use_spec_cv = \<lambda>_. False, fu_pool = pool, sim_cycle = 0, inst_seq = 0,
      spec_mode = False, recover_PC = 0, pred = p, caches = c, machine = m, last_op = None,
      fetch_data = \<lambda>_. no_fetch, fetch_head = 0, fetch_tail = 0, fetch_num = 0, fetch_regs_PC = entry - 8,
      fetch_pred_PC = entry, ruu_fetch_issue_delay = 0, sim_slip = 0, sim_invalid_addrs = 0, sim_num_insn = 0,
      sim_total_insn = 0\<rparr>"

definition issue_stage :: "('c, 'm) ooo_cfg \<Rightarrow> ('c, 'm) ooo_t \<Rightarrow> ('c, 'm) ooo_t option" where
  "issue_stage cfg s = do { s1 \<leftarrow> lsq_refresh cfg s; ruu_issue cfg s1 }"

definition ooo_cycle :: "('c, 'm) ooo_cfg \<Rightarrow> ('c, 'm) ooo_t \<Rightarrow> ('c, 'm) ooo_t option" where
  "ooo_cycle cfg s =
     (if RUU_num s < LSQ_num s \<or> (RUU_head s + RUU_num s) mod RUU_size cfg \<noteq> RUU_tail s
         \<or> (LSQ_head s + LSQ_num s) mod LSQ_size cfg \<noteq> LSQ_tail s then None
      else do {
        s1 \<leftarrow> ruu_commit cfg s;
        s3 \<leftarrow> ruu_writeback cfg (ruu_release_fu s1);
        s4 \<leftarrow> (if bugcompat_mode cfg then Some s3 else issue_stage cfg s3);
        s5 \<leftarrow> ruu_dispatch cfg s4;
        s6 \<leftarrow> (if bugcompat_mode cfg then issue_stage cfg s5 else Some s5);
        s7 \<leftarrow> (if ruu_fetch_issue_delay s6 = 0 then ruu_fetch cfg s6
               else Some (s6\<lparr>ruu_fetch_issue_delay := ruu_fetch_issue_delay s6 - 1\<rparr>));
        Some (s7\<lparr>sim_cycle := sim_cycle s7 + 1\<rparr>) })"

fun ooo_run :: "('c, 'm) ooo_cfg \<Rightarrow> nat \<Rightarrow> ('c, 'm) ooo_t \<Rightarrow> ('c, 'm) ooo_t option" where
  "ooo_run cfg 0 s = Some s"
| "ooo_run cfg (Suc n) s = do { s1 \<leftarrow> ooo_cycle cfg s; ooo_run cfg n s1 }"

end
