(* ===== verification/Ooo_Links.thy ===== *)
theory Ooo_Links
  imports Ooo "HOL-Library.Multiset"
begin

text \<open>
  What the links of the out-of-order core say about its stations, stated on the stations,
  a set \<open>L\<close> of stations in flight and the lists, apart from the rest of the state: a queue
  has one valid link for each station in flight that should be in it, every operand that is
  not ready has one valid link on the list of one creator, and the create vectors name
  creators in flight.  Every operation on a station or a link keeps this.
\<close>

section \<open>Valid links\<close>

type_synonym stations = "station \<Rightarrow> ruu_station"

definition valid :: "stations \<Rightarrow> rs_link \<Rightarrow> bool" where
  "valid st l \<longleftrightarrow> lk_tag l = rs_tag (st (lk_rs l))"

lemma RSLINK_VALID_eq: "RSLINK_VALID s l \<longleftrightarrow> valid (stn s) l"
  by (simp add: RSLINK_VALID_def valid_def)

definition targets :: "stations \<Rightarrow> rs_link list \<Rightarrow> station list" where
  "targets st q = map lk_rs (filter (valid st) q)"

definition waits :: "stations \<Rightarrow> rs_link list \<Rightarrow> (station \<times> nat) list" where
  "waits st q = map (\<lambda>l. (lk_rs l, lk_x l)) (filter (valid st) q)"

definition tags_le :: "stations \<Rightarrow> rs_link list \<Rightarrow> bool" where
  "tags_le st q \<longleftrightarrow> (\<forall>l \<in> set q. lk_tag l \<le> rs_tag (st (lk_rs l)))"

lemma links_simps [simp]:
  "targets st [] = []" "waits st [] = []" "tags_le st []"
  "targets st (l # q) = (if valid st l then lk_rs l # targets st q else targets st q)"
  "waits st (l # q) = (if valid st l then (lk_rs l, lk_x l) # waits st q else waits st q)"
  "tags_le st (l # q) \<longleftrightarrow> lk_tag l \<le> rs_tag (st (lk_rs l)) \<and> tags_le st q"
  by (simp_all add: targets_def waits_def tags_le_def)

lemma same_tags:
  assumes "\<And>p. rs_tag (st' p) = rs_tag (st p)"
  shows "valid st' = valid st" "targets st' = targets st" "waits st' = waits st" "tags_le st' = tags_le st"
  using assms by (auto simp: valid_def targets_def waits_def tags_le_def fun_eq_iff cong: filter_cong)

text \<open>The tag of a station goes up: the links to it are no longer valid.\<close>

lemma bump_tag:
  assumes "rs_tag r = rs_tag (st p) + 1"
  shows "tags_le st q \<Longrightarrow> targets (st(p := r)) q = filter (\<lambda>x. x \<noteq> p) (targets st q)"
    "tags_le st q \<Longrightarrow> waits (st(p := r)) q = filter (\<lambda>x. fst x \<noteq> p) (waits st q)"
    "tags_le st q \<Longrightarrow> tags_le (st(p := r)) q"
  using assms by (induction q) (auto simp: valid_def)

lemma mset_insert_link: "mset (insert_link l q) = mset (l # q)"
  unfolding insert_link_def
  by (metis mset_append mset.simps(2) takeWhile_dropWhile_id union_mset_add_mset_right)

section \<open>The queues\<close>

definition queue_ok :: "stations \<Rightarrow> station set \<Rightarrow> (ruu_station \<Rightarrow> bool) \<Rightarrow> rs_link list \<Rightarrow> bool" where
  "queue_ok st L P q \<longleftrightarrow> distinct (targets st q) \<and> set (targets st q) = {p \<in> L. P (st p)} \<and> tags_le st q"

lemma queue_perm:
  assumes "mset q' = mset q"
  shows "queue_ok st L P q' \<longleftrightarrow> queue_ok st L P q"
proof -
  have "mset (targets st q') = mset (targets st q)" unfolding targets_def mset_map mset_filter assms by simp
  then have "distinct (targets st q') = distinct (targets st q)" "set (targets st q') = set (targets st q)"
    by (metis mset_eq_imp_distinct_iff) (metis \<open>mset (targets st q') = mset (targets st q)\<close> mset_eq_setD)
  moreover have "tags_le st q' = tags_le st q" using mset_eq_setD [OF assms] by (simp add: tags_le_def)
  ultimately show ?thesis by (simp add: queue_ok_def)
qed

lemma queue_insert [simp]: "queue_ok st L P (insert_link l q) \<longleftrightarrow> queue_ok st L P (l # q)"
  by (rule queue_perm) (rule mset_insert_link)

lemma queue_change:
  assumes "queue_ok st L P q" "rs_tag r = rs_tag (st p)" "P r = P (st p) \<or> p \<notin> L"
  shows "queue_ok (st(p := r)) L P q"
proof -
  have "\<And>x. rs_tag ((st(p := r)) x) = rs_tag (st x)" using assms(2) by simp
  note same = same_tags [OF this]
  have "{x \<in> L. P ((st(p := r)) x)} = {x \<in> L. P (st x)}" using assms(3) by auto
  then show ?thesis using assms(1) by (simp only: queue_ok_def same)
qed

lemma queue_add:
  assumes "queue_ok st L P q" "p \<in> L" "\<not> P (st p)" "P r" "rs_tag r = rs_tag (st p)"
    "lk_rs l = p" "lk_tag l = rs_tag (st p)"
  shows "queue_ok (st(p := r)) L P (l # q)"
proof -
  have "\<And>x. rs_tag ((st(p := r)) x) = rs_tag (st x)" using assms(5) by simp
  note same = same_tags [OF this]
  have "{x \<in> L. P ((st(p := r)) x)} = insert p {x \<in> L. P (st x)}" using assms(2,4) by auto
  then show ?thesis using assms by (simp add: queue_ok_def same) (simp add: valid_def)
qed

lemma queue_drop_invalid: "queue_ok st L P (l # q) \<Longrightarrow> \<not> valid st l \<Longrightarrow> queue_ok st L P q"
  by (simp add: queue_ok_def)

lemma queue_head:
  assumes "queue_ok st L P (l # q)" "valid st l"
  shows "lk_rs l \<in> L" "P (st (lk_rs l))"
    "\<not> P r \<Longrightarrow> rs_tag r = rs_tag (st (lk_rs l)) \<Longrightarrow> queue_ok (st(lk_rs l := r)) L P q"
proof -
  let ?p = "lk_rs l"
  have q: "distinct (targets st q)" "?p \<notin> set (targets st q)" "insert ?p (set (targets st q)) = {p \<in> L. P (st p)}"
    "tags_le st q"
    using assms by (simp_all add: queue_ok_def)
  then show "?p \<in> L" "P (st ?p)" by auto
  assume r: "\<not> P r" "rs_tag r = rs_tag (st ?p)"
  then have "\<And>x. rs_tag ((st(?p := r)) x) = rs_tag (st x)" by simp
  note same = same_tags [OF this]
  have "{x \<in> L. P ((st(?p := r)) x)} = {x \<in> L. P (st x)} - {?p}" using r(1) by auto
  also have "\<dots> = set (targets st q)" using q(2,3) by blast
  finally show "queue_ok (st(?p := r)) L P q" using q(1,4) by (simp add: queue_ok_def same)
qed

lemma queue_leave:
  assumes "queue_ok st L P q" "rs_tag r = rs_tag (st p) + 1"
  shows "queue_ok (st(p := r)) (L - {p}) P q"
proof -
  have "{x \<in> L - {p}. P ((st(p := r)) x)} = {x \<in> L. P (st x)} - {p}" by auto
  then show ?thesis using assms bump_tag [of r st p] by (auto simp: queue_ok_def)
qed

lemma queue_enter:
  assumes "queue_ok st L P q" "p \<notin> L" "rs_tag r = rs_tag (st p)" "\<not> P r"
  shows "queue_ok (st(p := r)) (insert p L) P q"
proof -
  have "\<And>x. rs_tag ((st(p := r)) x) = rs_tag (st x)" using assms(3) by simp
  note same = same_tags [OF this]
  have "{x \<in> insert p L. P ((st(p := r)) x)} = {x \<in> L. P (st x)}" using assms(2,4) by auto
  then show ?thesis using assms(1) by (simp only: queue_ok_def same)
qed

section \<open>Operands and their creators\<close>

type_synonym dlists = "station \<Rightarrow> nat \<Rightarrow> rs_link list"

definition odeps :: "stations \<Rightarrow> dlists" where
  "odeps st p j = (if j < 2 then odep_list (st p) ! j else [])"

definition upd_list :: "dlists \<Rightarrow> station \<Rightarrow> nat \<Rightarrow> rs_link list \<Rightarrow> dlists" where
  "upd_list D p j ls = (\<lambda>x i. if x = p \<and> i = j then ls else D x i)"

lemma upd_list_simps [simp]:
  "upd_list D p j ls p j = ls" "x \<noteq> p \<or> i \<noteq> j \<Longrightarrow> upd_list D p j ls x i = D x i"
  by (auto simp: upd_list_def)

text \<open>
  Every valid link on a list is for an operand in flight that is not ready, and no other
  link is; operands in \<open>X\<close> have none yet; only outputs of stations in flight that have not
  completed have consumers, or outputs in \<open>E\<close>, whose consumers are being told.
\<close>

definition deps_ok :: "stations \<Rightarrow> station set \<Rightarrow> dlists \<Rightarrow> (station \<times> nat) set \<Rightarrow> (station \<times> nat) set \<Rightarrow> bool" where
  "deps_ok st L D X E \<longleftrightarrow>
     (\<forall>p j. tags_le st (D p j) \<and> distinct (waits st (D p j)))
     \<and> (\<forall>p j p' j' w. w \<in> set (waits st (D p j)) \<longrightarrow> w \<in> set (waits st (D p' j')) \<longrightarrow> p = p' \<and> j = j')
     \<and> (\<forall>p j c k. (c, k) \<in> set (waits st (D p j)) \<longrightarrow> c \<in> L \<and> k < 3 \<and> \<not> idep_ready (st c) ! k
          \<and> (c, k) \<notin> X \<and> (rs_spec (st p) \<longrightarrow> rs_spec (st c)))
     \<and> (\<forall>p j. D p j \<noteq> [] \<longrightarrow> p \<in> L \<and> j < 2 \<and> onames (st p) ! j \<noteq> NA \<and> (completed (st p) \<longrightarrow> (p, j) \<in> E))"

definition covered :: "stations \<Rightarrow> station set \<Rightarrow> dlists \<Rightarrow> (station \<times> nat) set \<Rightarrow> bool" where
  "covered st L D X \<longleftrightarrow>
     (\<forall>c \<in> L. \<forall>k < 3. \<not> idep_ready (st c) ! k \<longrightarrow> (c, k) \<in> X \<or> (\<exists>p j. (c, k) \<in> set (waits st (D p j))))"

definition cv_ok :: "stations \<Rightarrow> station set \<Rightarrow> (station \<times> nat) set \<Rightarrow> bool \<Rightarrow> (nat \<Rightarrow> bool) \<Rightarrow>
    (nat \<Rightarrow> (station \<times> nat) option) \<Rightarrow> bool" where
  "cv_ok st L E b U cv \<longleftrightarrow>
     (\<forall>r p j. U r \<longrightarrow> cv r = Some (p, j) \<longrightarrow> p \<in> L \<and> j < 2 \<and> rs_spec (st p) = b \<and> onames (st p) ! j = r
        \<and> r \<noteq> NA \<and> (completed (st p) \<longrightarrow> (p, j) \<in> E))"

lemma deps_okD:
  assumes "deps_ok st L D X E"
  shows "tags_le st (D p j)" "distinct (waits st (D p j))"
    "w \<in> set (waits st (D p j)) \<Longrightarrow> w \<in> set (waits st (D p' j')) \<Longrightarrow> p = p' \<and> j = j'"
    "(c, k) \<in> set (waits st (D p j)) \<Longrightarrow> c \<in> L \<and> k < 3 \<and> \<not> idep_ready (st c) ! k \<and> (c, k) \<notin> X
       \<and> (rs_spec (st p) \<longrightarrow> rs_spec (st c))"
    "D p j \<noteq> [] \<Longrightarrow> p \<in> L \<and> j < 2 \<and> onames (st p) ! j \<noteq> NA \<and> (completed (st p) \<longrightarrow> (p, j) \<in> E)"
  using assms unfolding deps_ok_def by blast+

text \<open>Changes of what the links do not speak about.\<close>

definition same_links :: "ruu_station \<Rightarrow> ruu_station \<Rightarrow> bool" where
  "same_links r r' \<longleftrightarrow> rs_tag r = rs_tag r' \<and> idep_ready r = idep_ready r' \<and> rs_spec r = rs_spec r'
     \<and> onames r = onames r' \<and> completed r = completed r'"

lemma links_frame:
  assumes "same_links r (st p)"
  shows "deps_ok (st(p := r)) L D X E \<longleftrightarrow> deps_ok st L D X E"
    "covered (st(p := r)) L D X \<longleftrightarrow> covered st L D X"
    "cv_ok (st(p := r)) L E b U cv \<longleftrightarrow> cv_ok st L E b U cv"
proof -
  have t: "\<And>x. rs_tag ((st(p := r)) x) = rs_tag (st x)" using assms by (simp add: same_links_def)
  have e: "idep_ready ((st(p := r)) x) = idep_ready (st x)" "rs_spec ((st(p := r)) x) = rs_spec (st x)"
    "onames ((st(p := r)) x) = onames (st x)" "completed ((st(p := r)) x) = completed (st x)" for x
    using assms by (simp_all add: same_links_def)
  note same = same_tags [OF t]
  show "deps_ok (st(p := r)) L D X E \<longleftrightarrow> deps_ok st L D X E" unfolding deps_ok_def same e ..
  show "covered (st(p := r)) L D X \<longleftrightarrow> covered st L D X" unfolding covered_def same e ..
  show "cv_ok (st(p := r)) L E b U cv \<longleftrightarrow> cv_ok st L E b U cv" unfolding cv_ok_def e ..
qed

text \<open>Completing: the outputs are those whose consumers are to be told.\<close>

lemma links_complete:
  assumes "r = (st p)\<lparr>completed := True\<rparr>"
  shows "deps_ok st L D X E \<Longrightarrow> deps_ok (st(p := r)) L D X (E \<union> {(p, 0), (p, 1)})"
    "covered st L D X \<Longrightarrow> covered (st(p := r)) L D X"
    "cv_ok st L E b U cv \<Longrightarrow> cv_ok (st(p := r)) L (E \<union> {(p, 0), (p, 1)}) b U cv"
proof -
  have t: "\<And>x. rs_tag ((st(p := r)) x) = rs_tag (st x)" using assms by simp
  have e: "idep_ready ((st(p := r)) x) = idep_ready (st x)" "rs_spec ((st(p := r)) x) = rs_spec (st x)"
    "onames ((st(p := r)) x) = onames (st x)" "completed ((st(p := r)) x) \<longleftrightarrow> completed (st x) \<or> x = p" for x
    using assms by auto
  note same = same_tags [OF t]
  have two: "j < 2 \<Longrightarrow> j = 0 \<or> j = 1" for j :: nat by auto
  show "deps_ok st L D X E \<Longrightarrow> deps_ok (st(p := r)) L D X (E \<union> {(p, 0), (p, 1)})"
    unfolding deps_ok_def same e using two by blast
  show "covered st L D X \<Longrightarrow> covered (st(p := r)) L D X" unfolding covered_def same e .
  show "cv_ok st L E b U cv \<Longrightarrow> cv_ok (st(p := r)) L (E \<union> {(p, 0), (p, 1)}) b U cv"
    unfolding cv_ok_def e using two by blast
qed

text \<open>An output whose list is empty is done.\<close>

lemma deps_done: "deps_ok st L D X E \<Longrightarrow> D p j = [] \<Longrightarrow> deps_ok st L D X (E - {(p, j)})"
  unfolding deps_ok_def by blast

section \<open>Waking a consumer\<close>

lemma wake_invalid:
  assumes "deps_ok st L D X E" "covered st L D Y" "D p i = l # ls" "\<not> valid st l"
  shows "deps_ok st L (upd_list D p i ls) X E" "covered st L (upd_list D p i ls) Y"
proof -
  have w: "waits st (upd_list D p i ls x j) = waits st (D x j)" for x j
    using assms(3,4) by (auto simp: upd_list_def)
  have t: "tags_le st (upd_list D p i ls x j)" for x j
    using deps_okD(1) [OF assms(1), of p i] deps_okD(1) [OF assms(1), of x j] assms(3) by (auto simp: upd_list_def)
  have n: "upd_list D p i ls x j \<noteq> [] \<Longrightarrow> D x j \<noteq> []" for x j using assms(3) by (auto simp: upd_list_def split: if_splits)
  show "deps_ok st L (upd_list D p i ls) X E"
    using assms(1) t n unfolding deps_ok_def w by blast
  show "covered st L (upd_list D p i ls) Y" using assms(2) unfolding covered_def w .
qed

lemma wake_valid:
  assumes "deps_ok st L D X E" "covered st L D Y" "D p i = l # ls" "valid st l"
    "length (idep_ready (st (lk_rs l))) = 3"
    "r = (st (lk_rs l))\<lparr>idep_ready := (idep_ready (st (lk_rs l)))[lk_x l := True]\<rparr>"
  shows "deps_ok (st(lk_rs l := r)) L (upd_list D p i ls) X E" "covered (st(lk_rs l := r)) L (upd_list D p i ls) Y"
    "lk_rs l \<in> L" "lk_x l < 3" "\<not> idep_ready (st (lk_rs l)) ! lk_x l" "cv_ok st L E b U cv \<Longrightarrow> cv_ok (st(lk_rs l := r)) L E b U cv"
proof -
  let ?c = "lk_rs l" and ?k = "lk_x l" and ?st = "st(lk_rs l := r)"
  note d = deps_okD [OF assms(1)]
  have t: "\<And>x. rs_tag (?st x) = rs_tag (st x)" using assms(6) by simp
  have e: "rs_spec (?st x) = rs_spec (st x)" "onames (?st x) = onames (st x)" "completed (?st x) = completed (st x)" for x
    using assms(6) by auto
  note same = same_tags [OF t]
  have in_w: "(?c, ?k) \<in> set (waits st (D p i))" using assms(3,4) by simp
  then show c: "?c \<in> L" "?k < 3" "\<not> idep_ready (st ?c) ! ?k" using d(4) by blast+
  have rd: "k < 3 \<Longrightarrow> idep_ready (?st x) ! k \<longleftrightarrow> idep_ready (st x) ! k \<or> (x, k) = (?c, ?k)" for x k
    using assms(5,6) c(2) by (auto simp: nth_list_update)
  have w: "set (waits st (upd_list D p i ls x j)) = set (waits st (D x j)) - {(?c, ?k)}" for x j
  proof (cases "x = p \<and> j = i")
    case True
    then show ?thesis using d(2) [of p i] assms(3,4) by auto
  next
    case False
    then have "(?c, ?k) \<notin> set (waits st (D x j))" using d(3) [OF in_w, of x j] by auto
    then show ?thesis using False by auto
  qed
  have t': "tags_le st (upd_list D p i ls x j) \<and> distinct (waits st (upd_list D p i ls x j))" for x j
    using d(1,2) [of p i] d(1,2) [of x j] assms(3,4) by (auto simp: upd_list_def)
  have n: "upd_list D p i ls x j \<noteq> [] \<Longrightarrow> D x j \<noteq> []" for x j using assms(3) by (auto simp: upd_list_def split: if_splits)
  have "x \<in> L \<and> k < 3 \<and> \<not> idep_ready (?st x) ! k \<and> (x, k) \<notin> X \<and> (rs_spec (st q) \<longrightarrow> rs_spec (st x))"
    if "(x, k) \<in> set (waits st (D q j)) - {(?c, ?k)}" for x k q j
    using d(4) [of x k q j] that rd [of k x] by blast
  then show "deps_ok ?st L (upd_list D p i ls) X E"
    using t' d(3,5) n unfolding deps_ok_def same e w by blast
  show "covered ?st L (upd_list D p i ls) Y"
    using assms(2) rd unfolding covered_def same w by blast
  show "cv_ok st L E b U cv \<Longrightarrow> cv_ok (st(lk_rs l := r)) L E b U cv" unfolding cv_ok_def e .
qed

section \<open>Leaving and entering\<close>

text \<open>
  A station leaves, by retirement or a squash: its lists are gone and its tag goes up.  The
  operands that waited for it, if any, are among those that need not be covered.
\<close>

lemma deps_leave:
  assumes "deps_ok st L D X E" "rs_tag r = rs_tag (st p) + 1" "\<And>j. D' p j = []" "\<And>x j. x \<noteq> p \<Longrightarrow> D' x j = D x j"
  shows "deps_ok (st(p := r)) (L - {p}) D' X E"
proof -
  note d = deps_okD [OF assms(1)]
  have w: "waits (st(p := r)) (D' x j) = (if x = p then [] else filter (\<lambda>y. fst y \<noteq> p) (waits st (D x j)))" for x j
    using bump_tag(2) [OF assms(2) d(1)] assms(3,4) by (cases "x = p") simp_all
  have "tags_le (st(p := r)) (D' x j) \<and> distinct (waits (st(p := r)) (D' x j))" for x j
    using bump_tag(3) [OF assms(2) d(1)] d(2) assms(3,4) unfolding w by (cases "x = p") simp_all
  moreover have sub: "y \<in> set (waits (st(p := r)) (D' x j)) \<Longrightarrow> y \<in> set (waits st (D x j)) \<and> fst y \<noteq> p \<and> x \<noteq> p" for y x j
    unfolding w by (auto split: if_splits)
  moreover have "D' x j \<noteq> [] \<Longrightarrow> x \<noteq> p \<and> D x j \<noteq> []" for x j using assms(3,4) by metis
  moreover have "c \<in> L - {p} \<and> k < 3 \<and> \<not> idep_ready ((st(p := r)) c) ! k \<and> (c, k) \<notin> X
      \<and> (rs_spec ((st(p := r)) x) \<longrightarrow> rs_spec ((st(p := r)) c))"
    if "(c, k) \<in> set (waits (st(p := r)) (D' x j))" for c k x j
    using d(4) [of c k x j] sub [OF that] by simp
  moreover have "x = x' \<and> j = j'"
    if "y \<in> set (waits (st(p := r)) (D' x j))" "y \<in> set (waits (st(p := r)) (D' x' j'))" for y x j x' j'
    using d(3) sub that by blast
  moreover have "x \<in> L - {p} \<and> j < 2 \<and> onames ((st(p := r)) x) ! j \<noteq> NA \<and> (completed ((st(p := r)) x) \<longrightarrow> (x, j) \<in> E)"
    if "D' x j \<noteq> []" for x j
  proof -
    have "x \<noteq> p" "D x j \<noteq> []" using assms(3,4) that by metis+
    then show ?thesis using d(5) [of x j] by simp
  qed
  ultimately show ?thesis unfolding deps_ok_def by blast
qed

lemma covered_leave:
  assumes "covered st L D Y" "deps_ok st L D X E" "rs_tag r = rs_tag (st p) + 1" "\<And>j. D' p j = []"
    "\<And>x j. x \<noteq> p \<Longrightarrow> D' x j = D x j" "\<And>j w. w \<in> set (waits st (D p j)) \<Longrightarrow> w \<in> Y"
  shows "covered (st(p := r)) (L - {p}) D' Y"
  unfolding covered_def
proof (intro ballI allI impI)
  fix c k assume c: "c \<in> L - {p}" "k < 3" "\<not> idep_ready ((st(p := r)) c) ! k"
  then consider "(c, k) \<in> Y" | x j where "(c, k) \<in> set (waits st (D x j))"
    using assms(1) unfolding covered_def by (metis DiffD1 DiffD2 fun_upd_other singletonI)
  then show "(c, k) \<in> Y \<or> (\<exists>x j. (c, k) \<in> set (waits (st(p := r)) (D' x j)))"
  proof cases
    case (2 x j)
    show ?thesis
    proof (cases "x = p")
      case True
      then show ?thesis using 2 assms(6) by blast
    next
      case False
      then have "(c, k) \<in> set (waits (st(p := r)) (D' x j))"
        using 2 c(1) bump_tag(2) [OF assms(3) deps_okD(1) [OF assms(2)]] assms(5) by simp
      then show ?thesis by blast
    qed
  qed simp
qed

lemma cv_leave:
  assumes "cv_ok st L E b U cv" "\<And>i j. U i \<Longrightarrow> cv i \<noteq> Some (p, j)"
  shows "cv_ok (st(p := r)) (L - {p}) E b U cv"
  using assms unfolding cv_ok_def by auto

text \<open>A station enters: none of its operands is linked yet.\<close>

lemma deps_enter:
  assumes "deps_ok st L D X E" "p \<notin> L" "rs_tag r = rs_tag (st p)"
  shows "deps_ok (st(p := r)) (insert p L) D (X \<union> {p} \<times> UNIV) E"
proof -
  have "\<And>x. rs_tag ((st(p := r)) x) = rs_tag (st x)" using assms(3) by simp
  note same = same_tags [OF this] and d = deps_okD [OF assms(1)]
  have e: "x \<in> L \<Longrightarrow> (st(p := r)) x = st x" for x using assms(2) by auto
  have ne: "D x j \<noteq> [] \<Longrightarrow> x \<in> L" for x j using d(5) by blast
  have wl: "w \<in> set (waits st (D x j)) \<Longrightarrow> x \<in> L" for w x j using ne [of x j] by (cases "D x j") auto
  show ?thesis unfolding deps_ok_def same
  proof (intro conjI allI impI)
    fix x j c k assume cw: "(c, k) \<in> set (waits st (D x j))"
    note f = d(4) [OF cw]
    then show "c \<in> insert p L" "k < 3" "\<not> idep_ready ((st(p := r)) c) ! k" "(c, k) \<notin> X \<union> {p} \<times> UNIV"
      using e [of c] assms(2) by auto
    show "rs_spec ((st(p := r)) c)" if "rs_spec ((st(p := r)) x)"
      using f that e [of c] e [OF wl [OF cw]] by simp
  next
    fix x j assume "D x j \<noteq> []"
    note f = d(5) [OF this]
    then show "x \<in> insert p L" "j < 2" "onames ((st(p := r)) x) ! j \<noteq> NA" using e [of x] by auto
    show "(x, j) \<in> E" if "completed ((st(p := r)) x)" using f that e [of x] by simp
  qed (use d in blast)+
qed

lemma covered_enter:
  assumes "covered st L D Y" "p \<notin> L" "rs_tag r = rs_tag (st p)"
  shows "covered (st(p := r)) (insert p L) D (Y \<union> {p} \<times> UNIV)"
proof -
  have "\<And>x. rs_tag ((st(p := r)) x) = rs_tag (st x)" using assms(3) by simp
  note same = same_tags [OF this]
  show ?thesis using assms(1,2) unfolding covered_def same by auto
qed

lemma cv_enter:
  assumes "cv_ok st L E b U cv" "p \<notin> L"
  shows "cv_ok (st(p := r)) (insert p L) E b U cv"
  using assms unfolding cv_ok_def by auto

section \<open>Linking operands and outputs\<close>

text \<open>An operand that is ready at once.\<close>

lemma link_ready:
  assumes "deps_ok st L D X E" "covered st L D Y" "length (idep_ready (st p)) = 3" "k < 3" "(p, k) \<in> X"
  shows "deps_ok (st(p := set_ready k True (st p))) L D (X - {(p, k)}) E"
    "covered (st(p := set_ready k True (st p))) L D (Y - {(p, k)})"
proof -
  let ?st = "st(p := set_ready k True (st p))"
  have t: "\<And>x. rs_tag (?st x) = rs_tag (st x)" by (simp add: set_ready_def)
  have e: "rs_spec (?st x) = rs_spec (st x)" "onames (?st x) = onames (st x)" "completed (?st x) = completed (st x)" for x
    by (auto simp: set_ready_def)
  note same = same_tags [OF t] and d = deps_okD [OF assms(1)]
  have rd: "i < 3 \<Longrightarrow> idep_ready (?st x) ! i \<longleftrightarrow> idep_ready (st x) ! i \<or> (x, i) = (p, k)" for x i
    using assms(3,4) by (auto simp: set_ready_def nth_list_update)
  show "deps_ok ?st L D (X - {(p, k)}) E"
    using d(1-3,5) d(4) rd assms(5) unfolding deps_ok_def same e by (intro conjI; blast)
  show "covered ?st L D (Y - {(p, k)})" using assms(2) rd unfolding covered_def same by blast
qed

text \<open>An operand that waits for output \<open>j\<close> of station \<open>q\<close>.\<close>

lemma link_wait:
  assumes "deps_ok st L D X E" "covered st L D Y" "length (idep_ready (st p)) = 3" "k < 3" "(p, k) \<in> X" "p \<in> L"
    "q \<in> L" "j < 2" "onames (st q) ! j \<noteq> NA" "\<not> completed (st q)" "rs_spec (st q) \<longrightarrow> rs_spec (st p)"
    "lk_rs l = p" "lk_tag l = rs_tag (st p)" "lk_x l = k"
  shows "deps_ok (st(p := set_ready k False (st p))) L (upd_list D q j (l # D q j)) (X - {(p, k)}) E"
    "covered (st(p := set_ready k False (st p))) L (upd_list D q j (l # D q j)) (Y - {(p, k)})"
proof -
  let ?st = "st(p := set_ready k False (st p))" and ?D = "upd_list D q j (l # D q j)"
  have t: "\<And>x. rs_tag (?st x) = rs_tag (st x)" by (simp add: set_ready_def)
  have e: "rs_spec (?st x) = rs_spec (st x)" "onames (?st x) = onames (st x)" "completed (?st x) = completed (st x)" for x
    by (auto simp: set_ready_def)
  note same = same_tags [OF t] and d = deps_okD [OF assms(1)]
  have rd: "i < 3 \<Longrightarrow> idep_ready (?st x) ! i \<longleftrightarrow> idep_ready (st x) ! i \<and> (x, i) \<noteq> (p, k)" for x i
    using assms(3,4) by (auto simp: set_ready_def nth_list_update)
  have new: "(p, k) \<notin> set (waits st (D x i))" for x i using d(4) assms(5) by blast
  have v: "valid st l" using assms(12,13) by (simp add: valid_def)
  have w: "set (waits st (?D x i)) = (if x = q \<and> i = j then insert (p, k) (set (waits st (D x i))) else set (waits st (D x i)))" for x i
    using v assms(12,14) by (auto simp: upd_list_def)
  have tl: "tags_le st (?D x i) \<and> distinct (waits st (?D x i))" for x i
    using d(1,2) [of x i] v new [of q j] assms(12-14) by (auto simp: upd_list_def)
  have n: "?D x i \<noteq> [] \<Longrightarrow> x \<in> L \<and> i < 2 \<and> onames (st x) ! i \<noteq> NA \<and> (completed (st x) \<longrightarrow> (x, i) \<in> E)" for x i
    using d(5) [of x i] assms(7-10) by (auto simp: upd_list_def split: if_splits)
  show "deps_ok ?st L ?D (X - {(p, k)}) E" unfolding deps_ok_def same e
  proof (intro conjI allI impI)
    fix x i x' i' y assume "y \<in> set (waits st (?D x i))" "y \<in> set (waits st (?D x' i'))"
    then have "x = x' \<and> i = i'"
      using d(3) [of y x i x' i'] new unfolding w by (auto split: if_splits)
    then show "x = x'" "i = i'" by simp_all
  next
    fix x i c h assume "(c, h) \<in> set (waits st (?D x i))"
    then consider "c = p" "h = k" "x = q" | "(c, h) \<in> set (waits st (D x i))"
      unfolding w by (auto split: if_splits)
    then have "c \<in> L \<and> h < 3 \<and> \<not> idep_ready (?st c) ! h \<and> (c, h) \<notin> X - {(p, k)} \<and> (rs_spec (st x) \<longrightarrow> rs_spec (st c))"
    proof cases
      case 1
      have "\<not> idep_ready (?st p) ! k" using rd [of k p] assms(4) by simp
      then show ?thesis using 1 assms(4,6,11) by simp
    next
      case 2
      then show ?thesis using d(4) [of c h x i] rd by simp
    qed
    then show "c \<in> L" "h < 3" "\<not> idep_ready (?st c) ! h" "(c, h) \<notin> X - {(p, k)}"
      "rs_spec (st x) \<Longrightarrow> rs_spec (st c)" by simp_all
  qed (use tl n in blast)+
  show "covered ?st L ?D (Y - {(p, k)})" unfolding covered_def same
  proof (intro ballI allI impI)
    fix c h assume c: "c \<in> L" "h < 3" "\<not> idep_ready (?st c) ! h"
    show "(c, h) \<in> Y - {(p, k)} \<or> (\<exists>x i. (c, h) \<in> set (waits st (?D x i)))"
    proof (cases "(c, h) = (p, k)")
      case True
      then have "(c, h) \<in> set (waits st (?D q j))" unfolding w by simp
      then show ?thesis by blast
    next
      case False
      then have "(c, h) \<in> Y \<or> (\<exists>x i. (c, h) \<in> set (waits st (D x i)))"
        using assms(2) c rd unfolding covered_def by blast
      moreover have "set (waits st (D x i)) \<subseteq> set (waits st (?D x i))" for x i unfolding w by auto
      ultimately show ?thesis using False by blast
    qed
  qed
qed

text \<open>The outputs of a station that has no consumers there yet.\<close>

lemma install_links:
  assumes "deps_ok st L D X E" "D p j = []" "same_links (r\<lparr>onames := onames (st p)\<rparr>) (st p)"
    "onames r = (onames (st p))[j := name]"
  shows "deps_ok (st(p := r)) L D X E" "covered st L D Y \<Longrightarrow> covered (st(p := r)) L D Y"
proof -
  have t: "\<And>x. rs_tag ((st(p := r)) x) = rs_tag (st x)" using assms(3) by (simp add: same_links_def)
  have e: "rs_spec ((st(p := r)) x) = rs_spec (st x)" "idep_ready ((st(p := r)) x) = idep_ready (st x)"
    "completed ((st(p := r)) x) = completed (st x)" for x
    using assms(3) by (auto simp: same_links_def)
  note same = same_tags [OF t] and d = deps_okD [OF assms(1)]
  have o: "D x i \<noteq> [] \<Longrightarrow> onames ((st(p := r)) x) ! i = onames (st x) ! i" for x i
    using assms(2,4) by (cases "x = p \<and> i = j") auto
  show "deps_ok (st(p := r)) L D X E" unfolding deps_ok_def same e
  proof (intro conjI allI impI)
    fix x i assume n: "D x i \<noteq> []"
    show "x \<in> L" "i < 2" "onames ((st(p := r)) x) ! i \<noteq> NA" using d(5) [OF n] o [OF n] by auto
    show "completed (st x) \<Longrightarrow> (x, i) \<in> E" using d(5) [OF n] by simp
  qed (use d in blast)+
  show "covered st L D Y \<Longrightarrow> covered (st(p := r)) L D Y" unfolding covered_def same e .
qed

lemma cv_install:
  assumes "cv_ok st L E b U cv" "\<And>i. U i \<Longrightarrow> cv i \<noteq> Some (p, j)" "same_links (r\<lparr>onames := onames (st p)\<rparr>) (st p)"
    "onames r = (onames (st p))[j := name]"
  shows "cv_ok (st(p := r)) L E b U cv"
proof -
  have e: "rs_spec ((st(p := r)) x) = rs_spec (st x)" "completed ((st(p := r)) x) = completed (st x)" for x
    using assms(3) by (auto simp: same_links_def)
  have "onames ((st(p := r)) x) ! i = onames (st x) ! i" if "U h" "cv h = Some (x, i)" for h x i
    using assms(2) [OF that(1)] that(2) assms(4) by (cases "x = p \<and> i = j") auto
  then show ?thesis using assms(1) unfolding cv_ok_def e by metis
qed

lemma cv_set:
  assumes "cv_ok st L E b U cv" "p \<in> L" "j < 2" "rs_spec (st p) = b" "onames (st p) ! j = name" "name \<noteq> NA"
    "\<not> completed (st p)"
  shows "cv_ok st L E b (U(name := True)) (cv(name := Some (p, j)))"
  using assms unfolding cv_ok_def by auto

end
