(* ===== verification/Ooo_Inv.thy ===== *)
theory Ooo_Inv
  imports Ooo_Links Bpred_Props
begin

text \<open>
  The invariant of the out-of-order core: the two queues of stations are rings, the
  speculative instructions are the ones behind the one mispredicted branch in flight, the
  links are in order, and the branch predictor and the update records in flight fit
  together.  With it no stage panics.
\<close>

named_theorems ooo_frames \<open>what the operations on links leave alone\<close>

section \<open>Stations\<close>

definition stn_shape :: "ruu_station \<Rightarrow> bool" where
  "stn_shape r \<longleftrightarrow> length (onames r) = 2 \<and> length (odep_list r) = 2 \<and> length (idep_ready r) = 3"

definition is_lsq :: "station \<Rightarrow> bool" where
  "is_lsq p = (case p of Ruu _ \<Rightarrow> False | Lsq _ \<Rightarrow> True)"

text \<open>The life of a station: waiting, queued, issued, completed.\<close>

definition stn_ok :: "bool \<Rightarrow> ruu_station \<Rightarrow> bool" where
  "stn_ok lsq r \<longleftrightarrow> (queued r \<longrightarrow> OPERANDS_READY r \<and> \<not> issued r \<and> \<not> completed r)
     \<and> (issued r \<longrightarrow> OPERANDS_READY r) \<and> (completed r \<longrightarrow> issued r) \<and> in_LSQ r = lsq
     \<and> (lsq \<longrightarrow> \<not> recover_inst r)"

definition stns_ok :: "stations \<Rightarrow> station set \<Rightarrow> bool" where
  "stns_ok st L \<longleftrightarrow> (\<forall>p. stn_shape (st p)) \<and> (\<forall>p \<in> L. stn_ok (is_lsq p) (st p))"

lemma stns_ok_upd:
  assumes "stns_ok st L" "stn_shape r" "p \<in> L \<Longrightarrow> stn_ok (is_lsq p) r"
  shows "stns_ok (st(p := r)) L"
  using assms by (auto simp: stns_ok_def)

text \<open>The fields that are set at dispatch.\<close>

definition fixed :: "ruu_station \<Rightarrow> word_t \<times> md_addr_t \<times> bool \<times> bool \<times> bool \<times> word_t \<times> bpred_update_t \<times> bool" where
  "fixed r = (rs_op r, rs_PC r, in_LSQ r, ea_comp r, recover_inst r, stack_recover_idx r, dir_update r, rs_spec r)"

lemma fixedD:
  assumes "fixed r = fixed r'"
  shows "rs_op r = rs_op r'" "rs_PC r = rs_PC r'" "in_LSQ r = in_LSQ r'" "ea_comp r = ea_comp r'"
    "recover_inst r = recover_inst r'" "stack_recover_idx r = stack_recover_idx r'"
    "dir_update r = dir_update r'" "rs_spec r = rs_spec r'"
  using assms by (simp_all add: fixed_def)

lemma fixed_upd [simp]:
  "fixed (r\<lparr>queued := b\<rparr>) = fixed r" "fixed (r\<lparr>issued := b\<rparr>) = fixed r" "fixed (r\<lparr>completed := b\<rparr>) = fixed r"
  "fixed (r\<lparr>onames := ns\<rparr>) = fixed r" "fixed (r\<lparr>odep_list := ds\<rparr>) = fixed r" "fixed (r\<lparr>idep_ready := rd\<rparr>) = fixed r"
  "fixed (set_ready k b r) = fixed r" "fixed (r\<lparr>rs_tag := n\<rparr>) = fixed r"
  by (simp_all add: fixed_def set_ready_def)

section \<open>The rest of the state\<close>

text \<open>Two states that agree on what the operations on links leave alone.\<close>

definition same_rest :: "('c, 'm) ooo_t \<Rightarrow> ('c, 'm) ooo_t \<Rightarrow> bool" where
  "same_rest s t \<longleftrightarrow> RUU_head s = RUU_head t \<and> RUU_tail s = RUU_tail t \<and> RUU_num s = RUU_num t
     \<and> LSQ_head s = LSQ_head t \<and> LSQ_tail s = LSQ_tail t \<and> LSQ_num s = LSQ_num t
     \<and> spec_mode s = spec_mode t \<and> use_spec_cv s = use_spec_cv t \<and> sim_cycle s = sim_cycle t
     \<and> pred s = pred t \<and> fetch_data s = fetch_data t \<and> fetch_head s = fetch_head t
     \<and> fetch_tail s = fetch_tail t \<and> fetch_num s = fetch_num t \<and> res_table (fu_pool s) = res_table (fu_pool t)
     \<and> map rd_x (resources (fu_pool s)) = map rd_x (resources (fu_pool t))"

lemma same_rest_refl [simp]: "same_rest s s"
  by (simp add: same_rest_def)

lemma same_rest_trans [trans]: "same_rest s t \<Longrightarrow> same_rest t u \<Longrightarrow> same_rest s u"
  by (simp add: same_rest_def)

lemma same_rest_upd [simp]:
  "same_rest (s\<lparr>stn := st\<rparr>) t = same_rest s t" "same_rest (s\<lparr>rslinks := n\<rparr>) t = same_rest s t"
  "same_rest (s\<lparr>ready_queue := q\<rparr>) t = same_rest s t" "same_rest (s\<lparr>event_queue := q\<rparr>) t = same_rest s t"
  "same_rest (s\<lparr>create_vector := cv\<rparr>) t = same_rest s t"
  "same_rest (s\<lparr>spec_create_vector := cv\<rparr>) t = same_rest s t" "same_rest (s\<lparr>caches := c\<rparr>) t = same_rest s t"
  "same_rest (s\<lparr>sim_invalid_addrs := n\<rparr>) t = same_rest s t"
  by (simp_all add: same_rest_def)

definition same_fixed :: "('c, 'm) ooo_t \<Rightarrow> ('c, 'm) ooo_t \<Rightarrow> bool" where
  "same_fixed s t \<longleftrightarrow> (\<forall>p. fixed (stn s p) = fixed (stn t p))"

lemma same_fixed_refl [simp]: "same_fixed s s"
  by (simp add: same_fixed_def)

lemma same_fixed_trans [trans]: "same_fixed s t \<Longrightarrow> same_fixed t u \<Longrightarrow> same_fixed s u"
  by (simp add: same_fixed_def)

section \<open>Links\<close>

text \<open>
  The links of a state with the lists \<open>old\<close> of ready links taken off the queue, the lists
  \<open>D\<close> of consumers, the operands \<open>X\<close> and \<open>Y\<close> that are not linked or not covered, and the
  outputs \<open>E\<close> that are being told to their consumers.
\<close>

definition core :: "('c, 'm) ooo_t \<Rightarrow> station set \<Rightarrow> rs_link list \<Rightarrow> dlists \<Rightarrow> (station \<times> nat) set \<Rightarrow>
    (station \<times> nat) set \<Rightarrow> (station \<times> nat) set \<Rightarrow> bool" where
  "core s L old D X Y E \<longleftrightarrow>
     queue_ok (stn s) L queued (ready_queue s @ old)
     \<and> queue_ok (stn s) L (\<lambda>r. issued r \<and> \<not> completed r) (event_queue s)
     \<and> deps_ok (stn s) L D X E \<and> covered (stn s) L D Y
     \<and> cv_ok (stn s) L E False (\<lambda>_. True) (create_vector s)
     \<and> cv_ok (stn s) L E True (use_spec_cv s) (spec_create_vector s)
     \<and> (\<forall>r. use_spec_cv s r \<longrightarrow> spec_mode s)"

lemma core_more [simp]:
  "core (s\<lparr>rslinks := n\<rparr>) L old D X Y E = core s L old D X Y E"
  "core (s\<lparr>fu_pool := p\<rparr>) L old D X Y E = core s L old D X Y E"
  "core (s\<lparr>caches := c\<rparr>) L old D X Y E = core s L old D X Y E"
  "core (s\<lparr>sim_invalid_addrs := n\<rparr>) L old D X Y E = core s L old D X Y E"
  "core (s\<lparr>pred := bp\<rparr>) L old D X Y E = core s L old D X Y E"
  "core (s\<lparr>last_op := lo\<rparr>) L old D X Y E = core s L old D X Y E"
  "core (s\<lparr>inst_seq := n\<rparr>) L old D X Y E = core s L old D X Y E"
  "core (s\<lparr>sim_slip := n\<rparr>) L old D X Y E = core s L old D X Y E"
  "core (s\<lparr>RUU_head := n\<rparr>) L old D X Y E = core s L old D X Y E"
  "core (s\<lparr>RUU_num := n\<rparr>) L old D X Y E = core s L old D X Y E"
  "core (s\<lparr>RUU_tail := n\<rparr>) L old D X Y E = core s L old D X Y E"
  "core (s\<lparr>LSQ_head := n\<rparr>) L old D X Y E = core s L old D X Y E"
  "core (s\<lparr>LSQ_num := n\<rparr>) L old D X Y E = core s L old D X Y E"
  "core (s\<lparr>LSQ_tail := n\<rparr>) L old D X Y E = core s L old D X Y E"
  by (simp_all add: core_def)

lemma readyq_enqueue_eq:
  assumes "\<not> queued (stn s p)" "rslinks s \<noteq> 0"
  obtains q where "readyq_enqueue p s = Some (s\<lparr>stn := (stn s)(p := (stn s p)\<lparr>queued := True\<rparr>),
      rslinks := rslinks s - 1, ready_queue := q\<rparr>)"
    "mset q = mset (\<lparr>lk_rs = p, lk_tag = rs_tag (stn s p), lk_x = rs_seq (stn s p)\<rparr> # ready_queue s)"
proof -
  let ?l = "\<lparr>lk_rs = p, lk_tag = rs_tag (stn s p), lk_x = rs_seq (stn s p)\<rparr>"
  let ?q = "if in_LSQ (stn s p) \<or> MD_OP_FLAGS (rs_op (stn s p)) AND (F_LONGLAT OR F_CTRL) \<noteq> 0
    then ?l # ready_queue s else insert_link ?l (ready_queue s)"
  have "readyq_enqueue p s = Some (s\<lparr>stn := (stn s)(p := (stn s p)\<lparr>queued := True\<rparr>),
      rslinks := rslinks s - 1, ready_queue := ?q\<rparr>)"
    using assms unfolding readyq_enqueue_def RSLINK_NEW_def upd_stn_def Let_def by simp
  moreover have "mset ?q = mset (?l # ready_queue s)" by (simp add: mset_insert_link)
  ultimately show ?thesis by (rule that)
qed

text \<open>A station whose operands are ready becomes queued.\<close>

lemma enqueue_ok:
  assumes "core s L old D X Y E" "stns_ok (stn s) L" "rslinks s \<noteq> 0" "p \<in> L" "\<not> queued (stn s p)"
    "OPERANDS_READY (stn s p)" "\<not> issued (stn s p)" "\<not> completed (stn s p)"
  shows "\<exists>s'. readyq_enqueue p s = Some s' \<and> core s' L old D X Y E \<and> stns_ok (stn s') L
    \<and> rslinks s' = rslinks s - 1 \<and> same_rest s' s \<and> same_fixed s' s
    \<and> (\<forall>x. stn s' x = (if x = p then (stn s p)\<lparr>queued := True\<rparr> else stn s x))"
proof -
  let ?r = "(stn s p)\<lparr>queued := True\<rparr>"
  obtain q where eq: "readyq_enqueue p s = Some (s\<lparr>stn := (stn s)(p := ?r), rslinks := rslinks s - 1, ready_queue := q\<rparr>)"
    and q: "mset q = mset (\<lparr>lk_rs = p, lk_tag = rs_tag (stn s p), lk_x = rs_seq (stn s p)\<rparr> # ready_queue s)"
    by (rule readyq_enqueue_eq [OF assms(5,3)])
  let ?l = "\<lparr>lk_rs = p, lk_tag = rs_tag (stn s p), lk_x = rs_seq (stn s p)\<rparr>"
  let ?s = "s\<lparr>stn := (stn s)(p := ?r), rslinks := rslinks s - 1, ready_queue := q\<rparr>"
  have sl: "same_links ?r (stn s p)" by (simp add: same_links_def)
  have "queue_ok ((stn s)(p := ?r)) L queued (?l # ready_queue s @ old)"
    using assms(1,4,5) by (intro queue_add) (simp_all add: core_def)
  moreover have "mset (q @ old) = mset (?l # ready_queue s @ old)" using q by simp
  ultimately have "queue_ok ((stn s)(p := ?r)) L queued (q @ old)" using queue_perm by blast
  moreover have "queue_ok ((stn s)(p := ?r)) L (\<lambda>r. issued r \<and> \<not> completed r) (event_queue s)"
    using assms(1) by (intro queue_change) (simp_all add: core_def)
  ultimately have "core ?s L old D X Y E"
    using assms(1) links_frame [of ?r "stn s" p, OF sl] by (simp add: core_def)
  moreover have "stns_ok (stn ?s) L"
    using assms by (auto simp: stns_ok_def stn_shape_def stn_ok_def OPERANDS_READY_def)
  ultimately show ?thesis using eq by (simp add: same_fixed_def)
qed

section \<open>Waking consumers\<close>

text \<open>What is left alone while the consumers of an output are told.\<close>

definition same_life :: "('c, 'm) ooo_t \<Rightarrow> ('c, 'm) ooo_t \<Rightarrow> bool" where
  "same_life s t \<longleftrightarrow> same_rest s t \<and> same_fixed s t \<and> event_queue s = event_queue t
     \<and> (\<forall>x. onames (stn s x) = onames (stn t x) \<and> issued (stn s x) = issued (stn t x)
          \<and> completed (stn s x) = completed (stn t x))"

definition same_outs :: "('c, 'm) ooo_t \<Rightarrow> ('c, 'm) ooo_t \<Rightarrow> bool" where
  "same_outs s t \<longleftrightarrow> same_life s t \<and> create_vector s = create_vector t
     \<and> spec_create_vector s = spec_create_vector t \<and> (\<forall>x. odep_list (stn s x) = odep_list (stn t x))"

lemma same_life_refl [simp]: "same_life s s"
  by (simp add: same_life_def)

lemma same_life_trans [trans]: "same_life s t \<Longrightarrow> same_life t u \<Longrightarrow> same_life s u"
  unfolding same_life_def using same_rest_trans [of s t u] same_fixed_trans [of s t u] by simp

lemma same_outs_refl [simp]: "same_outs s s"
  by (simp add: same_outs_def)

lemma same_outs_trans [trans]: "same_outs s t \<Longrightarrow> same_outs t u \<Longrightarrow> same_outs s u"
  unfolding same_outs_def using same_life_trans [of s t u] by simp

lemma same_outs_links [simp]: "same_outs (s\<lparr>rslinks := n\<rparr>) t = same_outs s t"
  by (simp add: same_outs_def same_life_def same_fixed_def)

lemma enqueue_events:
  "readyq_enqueue p s = Some s' \<Longrightarrow> event_queue s' = event_queue s \<and> create_vector s' = create_vector s
     \<and> spec_create_vector s' = spec_create_vector s"
  by (auto simp: readyq_enqueue_def RSLINK_NEW_def upd_stn_def Let_def split: if_splits)

lemma idep_not_ready:
  assumes "stn_shape r" "k < 3" "\<not> idep_ready r ! k"
  shows "\<not> OPERANDS_READY r"
  using assms less_Suc_eq [of k 2] less_Suc_eq [of k 1] by (auto simp: OPERANDS_READY_def numeral_3_eq_3 less_Suc_eq)

lemma wake_ok:
  assumes "core s L [] D X Y E" "stns_ok (stn s) L" "rslinks s \<noteq> 0" "D p i = l # ls"
  shows "\<exists>s'. wake l s = Some s' \<and> core s' L [] (upd_list D p i ls) X Y E \<and> stns_ok (stn s') L
    \<and> rslinks s \<le> rslinks s' \<and> same_outs s' s"
proof (cases "valid (stn s) l")
  case False
  have "core s L [] (upd_list D p i ls) X Y E"
    using assms(1) wake_invalid [of "stn s" L D X E Y p i l ls] False assms(4) by (simp add: core_def)
  then show ?thesis using assms(2) False by (simp add: wake_def RSLINK_VALID_eq RSLINK_FREE_def)
next
  case True
  let ?c = "lk_rs l" and ?k = "lk_x l"
  let ?r = "(stn s ?c)\<lparr>idep_ready := (idep_ready (stn s ?c))[?k := True]\<rparr>"
  let ?s = "upd_stn ?c (\<lambda>rs. rs\<lparr>idep_ready := (idep_ready rs)[?k := True]\<rparr>) s"
  have sh: "stn_shape (stn s ?c)" using assms(2) by (simp add: stns_ok_def)
  then have len: "length (idep_ready (stn s ?c)) = 3" by (simp add: stn_shape_def)
  have d: "deps_ok (stn s) L D X E" "covered (stn s) L D Y" using assms(1) by (simp_all add: core_def)
  note w = wake_valid [OF d assms(4) True len refl]
  have nr: "\<not> OPERANDS_READY (stn s ?c)" using idep_not_ready [OF sh w(4,5)] .
  then have fl: "\<not> queued (stn s ?c)" "\<not> issued (stn s ?c)" "\<not> completed (stn s ?c)"
    using assms(2) w(3) by (auto simp: stns_ok_def stn_ok_def)
  have st: "stn ?s = (stn s)(?c := ?r)" by (simp add: upd_stn_def)
  have "queue_ok ((stn s)(?c := ?r)) L queued (ready_queue s)"
    "queue_ok ((stn s)(?c := ?r)) L (\<lambda>r. issued r \<and> \<not> completed r) (event_queue s)"
    using assms(1) by (auto intro!: queue_change simp: core_def)
  then have core: "core ?s L [] (upd_list D p i ls) X Y E"
    using w(1,2) w(6) assms(1) by (simp add: core_def upd_stn_def)
  have "stn_ok (is_lsq ?c) ?r"
    using fl assms(2) w(3) by (auto simp: stns_ok_def stn_ok_def)
  then have so: "stns_ok (stn ?s) L" unfolding st using sh by (intro stns_ok_upd assms(2)) (simp_all add: stn_shape_def)
  have outs: "same_outs ?s s" by (auto simp: same_outs_def same_life_def same_fixed_def upd_stn_def)
  show ?thesis
  proof (cases "OPERANDS_READY ?r \<and> (\<not> in_LSQ ?r \<or> is_store (rs_op ?r))")
    case rdy: True
    have c: "stn ?s ?c = ?r" unfolding st by simp
    have f: "rslinks ?s \<noteq> 0" "\<not> queued (stn ?s ?c)" "\<not> issued (stn ?s ?c)" "\<not> completed (stn ?s ?c)"
      unfolding c by (simp_all add: fl assms(3) upd_stn_def)
    have g: "OPERANDS_READY (stn ?s ?c)" unfolding c using rdy by blast
    obtain s' where s': "readyq_enqueue ?c ?s = Some s'" "core s' L [] (upd_list D p i ls) X Y E" "stns_ok (stn s') L"
      "rslinks s' = rslinks ?s - 1" "same_rest s' ?s" "same_fixed s' ?s"
      "\<forall>x. stn s' x = (if x = ?c then (stn ?s ?c)\<lparr>queued := True\<rparr> else stn ?s x)"
      using enqueue_ok [OF core so f(1) w(3) f(2) g f(3,4)] by blast
    have "same_outs s' ?s"
      using s'(5-7) enqueue_events [OF s'(1)] by (simp add: same_outs_def same_life_def)
    then have "same_outs s' s" using outs by (rule same_outs_trans)
    then show ?thesis using s' rdy True w(5) assms(3)
      by (simp add: wake_def RSLINK_VALID_eq RSLINK_FREE_def Let_def upd_stn_def)
  next
    case False
    then show ?thesis using core so outs True w(5)
      by (auto simp: wake_def RSLINK_VALID_eq RSLINK_FREE_def Let_def upd_stn_def)
  qed
qed

lemma wake_all_ok:
  assumes "core s L [] D X Y E" "stns_ok (stn s) L" "rslinks s \<noteq> 0" "D p i = ls"
  shows "\<exists>s'. wake_all ls s = Some s' \<and> core s' L [] (upd_list D p i []) X Y E \<and> stns_ok (stn s') L
    \<and> rslinks s \<le> rslinks s' \<and> same_outs s' s"
  using assms
proof (induction ls arbitrary: s D)
  case Nil
  then have "upd_list D p i [] = D" by (auto simp: upd_list_def fun_eq_iff)
  then show ?case using Nil by simp
next
  case (Cons l ls)
  obtain s1 where s1: "wake l s = Some s1" "core s1 L [] (upd_list D p i ls) X Y E" "stns_ok (stn s1) L"
    "rslinks s \<le> rslinks s1" "same_outs s1 s"
    using wake_ok [OF Cons.prems] by blast
  have "upd_list (upd_list D p i ls) p i [] = upd_list D p i []" by (auto simp: upd_list_def fun_eq_iff)
  then obtain s2 where "wake_all ls s1 = Some s2" "core s2 L [] (upd_list D p i []) X Y E" "stns_ok (stn s2) L"
    "rslinks s1 \<le> rslinks s2" "same_outs s2 s1"
    using Cons.IH [OF s1(2,3)] Cons.prems(3) s1(4) by auto
  then show ?case using s1 same_outs_trans by auto
qed

lemma cv_done:
  assumes "cv_ok st L E b U cv" "\<And>r. U r \<Longrightarrow> cv r \<noteq> Some (p, i)"
  shows "cv_ok st L (E - {(p, i)}) b U cv"
  using assms unfolding cv_ok_def by blast

lemma cv_clear: "cv_ok st L E b U cv \<Longrightarrow> cv_ok st L E b U (cv(r := None))"
  unfolding cv_ok_def by simp

lemma clear_creator_eq:
  "clear_creator p i s =
     s\<lparr>create_vector := (if \<not> rs_spec (stn s p) \<and> create_vector s (onames (stn s p) ! i) = Some (p, i)
         then (create_vector s)(onames (stn s p) ! i := None) else create_vector s),
       spec_create_vector := (if rs_spec (stn s p) \<and> spec_create_vector s (onames (stn s p) ! i) = Some (p, i)
         then (spec_create_vector s)(onames (stn s p) ! i := None) else spec_create_vector s)\<rparr>"
  by (simp add: clear_creator_def Let_def)

lemma clear_creator_ok:
  assumes "core s L [] D X Y E"
  shows "core (clear_creator p i s) L [] D X Y E" "stn (clear_creator p i s) = stn s"
    "cv_ok (stn s) L (E - {(p, i)}) False (\<lambda>_. True) (create_vector (clear_creator p i s))"
    "cv_ok (stn s) L (E - {(p, i)}) True (use_spec_cv s) (spec_create_vector (clear_creator p i s))"
    "rslinks (clear_creator p i s) = rslinks s" "same_life (clear_creator p i s) s"
proof -
  have cv: "cv_ok (stn s) L E False (\<lambda>_. True) (create_vector s)"
    "cv_ok (stn s) L E True (use_spec_cv s) (spec_create_vector s)"
    using assms by (simp_all add: core_def)
  let ?t = "clear_creator p i s" and ?r = "onames (stn s p) ! i"
  show "stn ?t = stn s" "rslinks ?t = rslinks s" "same_life ?t s"
    by (simp_all add: clear_creator_eq same_life_def same_fixed_def)
  have a: "cv_ok (stn s) L E False (\<lambda>_. True) (create_vector ?t)"
    "cv_ok (stn s) L E True (use_spec_cv s) (spec_create_vector ?t)"
    unfolding clear_creator_eq using cv cv_clear by simp_all
  then show "core ?t L [] D X Y E" using assms by (simp add: core_def clear_creator_eq)
  have "create_vector ?t r \<noteq> Some (p, i)" for r
  proof (cases "create_vector s r = Some (p, i)")
    case True
    then have "r = ?r" "\<not> rs_spec (stn s p)" using cv(1) by (auto simp only: cv_ok_def)
    then show ?thesis using True by (simp add: clear_creator_eq)
  qed (simp add: clear_creator_eq)
  then show "cv_ok (stn s) L (E - {(p, i)}) False (\<lambda>_. True) (create_vector ?t)" using a(1) by (intro cv_done)
  have "spec_create_vector ?t r \<noteq> Some (p, i)" if "use_spec_cv s r" for r
  proof (cases "spec_create_vector s r = Some (p, i)")
    case True
    then have "r = ?r" "rs_spec (stn s p)" using cv(2) that by (auto simp only: cv_ok_def)
    then show ?thesis using True by (simp add: clear_creator_eq)
  qed (simp add: clear_creator_eq)
  then show "cv_ok (stn s) L (E - {(p, i)}) True (use_spec_cv s) (spec_create_vector ?t)" using a(2) by (intro cv_done)
qed

section \<open>The rings\<close>

definition ring :: "(nat \<Rightarrow> station) \<Rightarrow> nat \<Rightarrow> nat \<Rightarrow> nat \<Rightarrow> station list" where
  "ring f m h n = map (\<lambda>i. f ((h + i) mod m)) [0 ..< n]"

lemma ring_length [simp]: "length (ring f m h n) = n"
  by (simp add: ring_def)

lemma ring_empty [simp]: "ring f m h n = [] \<longleftrightarrow> n = 0"
  by (simp add: ring_def)

lemma ring_snoc: "ring f m h (Suc n) = ring f m h n @ [f ((h + n) mod m)]"
  by (simp add: ring_def)

lemma ring_Cons:
  assumes "h < m"
  shows "ring f m h (Suc n) = f h # ring f m ((h + 1) mod m) n"
proof -
  have e: "(h + Suc i) mod m = ((h + 1) mod m + i) mod m" for i
    by (simp add: mod_add_left_eq)
  have "[0 ..< Suc n] = 0 # map Suc [0 ..< n]" by (simp add: map_Suc_upt upt_conv_Cons del: upt_Suc)
  then have "ring f m h (Suc n) = f (h mod m) # map (\<lambda>i. f ((h + Suc i) mod m)) [0 ..< n]"
    by (simp add: ring_def o_def del: upt_Suc)
  then show ?thesis using assms unfolding e by (simp add: ring_def)
qed

lemma ring_distinct:
  assumes "inj f" "n \<le> m"
  shows "distinct (ring f m h n)"
proof -
  have "inj_on (\<lambda>i. f ((h + i) mod m)) {0 ..< n}"
  proof (rule inj_onI)
    fix i j assume ij: "i \<in> {0 ..< n}" "j \<in> {0 ..< n}" "f ((h + i) mod m) = f ((h + j) mod m)"
    then have "(h + i) mod m = (h + j) mod m" using assms(1) by (simp add: inj_eq)
    then have "(int h + int i) mod int m = (int h + int j) mod int m" by (metis of_nat_add of_nat_mod)
    then have "int i mod int m = int j mod int m" by (simp add: mod_eq_dvd_iff)
    then show "i = j" using ij(1,2) assms(2) by simp
  qed
  then show ?thesis by (simp add: ring_def distinct_map)
qed

text \<open>The free place after the last one.\<close>

lemma ring_next:
  assumes "inj f" "n < m"
  shows "f ((h + n) mod m) \<notin> set (ring f m h n)"
  using ring_distinct [OF assms(1), of "Suc n" m h] assms(2) by (simp add: ring_snoc)

lemma ring_back:
  assumes "0 < n" "n \<le> (m :: nat)"
  shows "((h + n) mod m + (m - 1)) mod m = (h + (n - 1)) mod m"
proof -
  have "((h + n) mod m + (m - 1)) mod m = (h + n + (m - 1)) mod m" by (rule mod_add_left_eq)
  also have "h + n + (m - 1) = h + (n - 1) + m" using assms by simp
  finally have "((h + n) mod m + (m - 1)) mod m = (h + (n - 1) + m) mod m" .
  then show ?thesis by simp
qed

definition ruu_entries :: "('c, 'm) ooo_cfg \<Rightarrow> ('c, 'm) ooo_t \<Rightarrow> station list" where
  "ruu_entries cfg s = ring Ruu (RUU_size cfg) (RUU_head s) (RUU_num s)"

lemma lsq_entries_ring: "lsq_entries cfg s = ring Lsq (LSQ_size cfg) (LSQ_head s) (LSQ_num s)"
  by (simp add: lsq_entries_def ring_def)

definition live :: "('c, 'm) ooo_cfg \<Rightarrow> ('c, 'm) ooo_t \<Rightarrow> station set" where
  "live cfg s = set (ruu_entries cfg s) \<union> set (lsq_entries cfg s)"

lemma station_kinds:
  "inj Ruu" "inj Lsq" "p \<in> set (ring Ruu m h n) \<Longrightarrow> \<not> is_lsq p" "p \<in> set (ring Lsq m h n) \<Longrightarrow> is_lsq p"
  by (auto simp: ring_def is_lsq_def inj_def)

definition rings_ok :: "('c, 'm) ooo_cfg \<Rightarrow> ('c, 'm) ooo_t \<Rightarrow> bool" where
  "rings_ok cfg s \<longleftrightarrow> RUU_num s \<le> RUU_size cfg \<and> LSQ_num s \<le> LSQ_size cfg
     \<and> RUU_head s < RUU_size cfg \<and> LSQ_head s < LSQ_size cfg
     \<and> RUU_tail s = (RUU_head s + RUU_num s) mod RUU_size cfg
     \<and> LSQ_tail s = (LSQ_head s + LSQ_num s) mod LSQ_size cfg"

section \<open>The wrong path\<close>

text \<open>The instructions of a list that are on the right path, and the others.\<close>

definition prec :: "stations \<Rightarrow> station list \<Rightarrow> station list" where
  "prec st ps = filter (\<lambda>p. \<not> rs_spec (st p)) ps"

definition wrong :: "stations \<Rightarrow> station list \<Rightarrow> station list" where
  "wrong st ps = filter (\<lambda>p. rs_spec (st p)) ps"

definition eas :: "stations \<Rightarrow> station list \<Rightarrow> nat" where
  "eas st ps = length (filter (\<lambda>p. ea_comp (st p)) ps)"

text \<open>
  In both queues the wrong path is behind the right one, and the loads and stores have one
  entry in each queue.
\<close>

definition split_ok :: "stations \<Rightarrow> station list \<Rightarrow> station list \<Rightarrow> bool" where
  "split_ok st R Q \<longleftrightarrow> R = prec st R @ wrong st R \<and> Q = prec st Q @ wrong st Q
     \<and> eas st (prec st R) = length (prec st Q) \<and> eas st (wrong st R) = length (wrong st Q)"

text \<open>
  Off the right path, its youngest instruction is the branch that will recover it, and no
  other instruction will.
\<close>

definition branch_ok :: "stations \<Rightarrow> bool \<Rightarrow> station list \<Rightarrow> bool" where
  "branch_ok st m R \<longleftrightarrow>
     (\<forall>p \<in> set R. recover_inst (st p) \<and> \<not> completed (st p) \<longrightarrow> m \<and> prec st R \<noteq> [] \<and> p = last (prec st R))
     \<and> (m \<longrightarrow> prec st R \<noteq> [] \<and> recover_inst (st (last (prec st R))) \<and> \<not> completed (st (last (prec st R))))
     \<and> (\<not> m \<longrightarrow> wrong st R = [])"

lemma path_frame:
  assumes "\<And>p. fixed (st' p) = fixed (st p)"
  shows "prec st' = prec st" "wrong st' = wrong st" "eas st' = eas st" "split_ok st' = split_ok st"
proof -
  note f = fixedD [OF assms]
  show p: "prec st' = prec st" "wrong st' = wrong st" "eas st' = eas st"
    by (simp_all add: fun_eq_iff prec_def wrong_def eas_def f)
  show "split_ok st' = split_ok st" by (simp add: fun_eq_iff split_ok_def p)
qed

lemma branch_frame:
  assumes "\<And>p. fixed (st' p) = fixed (st p)" "\<And>p. p \<in> set R \<Longrightarrow> completed (st' p) = completed (st p)"
  shows "branch_ok st' m R = branch_ok st m R"
proof -
  note f = fixedD [OF assms(1)] and p = path_frame(1,2) [OF assms(1)]
  have "prec st R \<noteq> [] \<Longrightarrow> last (prec st R) \<in> set R"
    by (metis prec_def filter_is_subset last_in_set subsetD)
  then show ?thesis unfolding branch_ok_def p using assms(2) by (auto simp: f)
qed

section \<open>The predictor, the fetch queue and the units\<close>

text \<open>A store has no outputs.\<close>

definition stores_ok :: "stations \<Rightarrow> station set \<Rightarrow> bool" where
  "stores_ok st L \<longleftrightarrow> (\<forall>p \<in> L. is_lsq p \<longrightarrow> is_store (rs_op (st p)) \<longrightarrow> onames (st p) = [NA, NA])"

definition record_ok :: "bpred_t option \<Rightarrow> bpred_update_t \<Rightarrow> word_t \<Rightarrow> bool" where
  "record_ok bp up idx \<longleftrightarrow> (case bp of None \<Rightarrow> True | Some b \<Rightarrow> up_ok b up \<and> idx_ok b idx)"

definition pred_ok :: "('c, 'm) ooo_t \<Rightarrow> station set \<Rightarrow> bool" where
  "pred_ok s L \<longleftrightarrow> (\<forall>b. pred s = Some b \<longrightarrow> bpred_ok b)
     \<and> (\<forall>p. record_ok (pred s) (dir_update (stn s p)) (stack_recover_idx (stn s p)))
     \<and> (\<forall>i. record_ok (pred s) (fr_dir_update (fetch_data s i)) (fr_stack_idx (fetch_data s i)))
     \<and> (\<forall>p \<in> L. is_ctrl (rs_op (stn s p)) \<longrightarrow> rs_PC (stn s p) \<noteq> 0)"

text \<open>
  A fetched instruction: its register fields name registers (the fields are a byte and the
  code does not check them), a branch is not at address 0, and the prediction for any other
  instruction is the next one.
\<close>

definition regs_ok :: "md_inst_t \<Rightarrow> bool" where
  "regs_ok inst \<longleftrightarrow> RS inst < 32 \<and> RT inst < 32 \<and> RD inst < 32"

definition slot_ok :: "fetch_rec \<Rightarrow> bool" where
  "slot_ok fr \<longleftrightarrow> regs_ok (fr_IR fr) \<and>
     (if is_ctrl (MD_SET_OPCODE (fr_IR fr)) then fr_PC fr \<noteq> 0 else fr_pred_PC fr = fr_PC fr + 8)"

definition fetch_ok :: "('c, 'm) ooo_cfg \<Rightarrow> ('c, 'm) ooo_t \<Rightarrow> bool" where
  "fetch_ok cfg s \<longleftrightarrow> fetch_num s \<le> ruu_ifq_size cfg
     \<and> fetch_head s < ruu_ifq_size cfg \<and> fetch_tail s = (fetch_head s + fetch_num s) mod ruu_ifq_size cfg
     \<and> (\<forall>i < fetch_num s. slot_ok (fetch_data s ((fetch_head s + i) mod ruu_ifq_size cfg)))"

definition units_ok :: "(md_fu_class \<Rightarrow> (nat \<times> nat) list) \<Rightarrow> res_template list list \<Rightarrow> bool" where
  "units_ok tab xs \<longleftrightarrow> (\<forall>c. c \<noteq> FUClass_NA \<longrightarrow> tab c \<noteq> [])
     \<and> (\<forall>c. \<forall>u \<in> set (tab c). fst u < length xs \<and> snd u < length (xs ! fst u)
          \<and> 0 < rt_oplat (xs ! fst u ! snd u) \<and> rt_master (xs ! fst u ! snd u) < length xs)"

definition pool_ok :: "res_pool \<Rightarrow> bool" where
  "pool_ok pool \<longleftrightarrow> units_ok (res_table pool) (map rd_x (resources pool))"

section \<open>The invariant\<close>

definition rest_ok :: "('c, 'm) ooo_cfg \<Rightarrow> ('c, 'm) ooo_t \<Rightarrow> bool" where
  "rest_ok cfg s \<longleftrightarrow> rings_ok cfg s \<and> stores_ok (stn s) (live cfg s)
     \<and> split_ok (stn s) (ruu_entries cfg s) (lsq_entries cfg s)
     \<and> branch_ok (stn s) (spec_mode s) (ruu_entries cfg s)
     \<and> pred_ok s (live cfg s) \<and> fetch_ok cfg s \<and> pool_ok (fu_pool s)"

definition ooo_inv :: "('c, 'm) ooo_cfg \<Rightarrow> ('c, 'm) ooo_t \<Rightarrow> bool" where
  "ooo_inv cfg s \<longleftrightarrow> core s (live cfg s) [] (odeps (stn s)) {} {} {} \<and> stns_ok (stn s) (live cfg s) \<and> rest_ok cfg s"

text \<open>Changes that only the links and the stations speak about.\<close>

definition quiet :: "('c, 'm) ooo_t \<Rightarrow> ('c, 'm) ooo_t \<Rightarrow> bool" where
  "quiet s t \<longleftrightarrow> same_rest s t \<and> same_fixed s t
     \<and> (\<forall>x. onames (stn s x) = onames (stn t x) \<and> (\<not> is_lsq x \<longrightarrow> completed (stn s x) = completed (stn t x)))"

lemma quiet_refl [simp]: "quiet s s"
  by (simp add: quiet_def)

lemma quiet_trans [trans]: "quiet s t \<Longrightarrow> quiet t u \<Longrightarrow> quiet s u"
  unfolding quiet_def using same_rest_trans [of s t u] same_fixed_trans [of s t u] by simp

lemma same_life_quiet: "same_life s t \<Longrightarrow> quiet s t"
  by (simp add: same_life_def quiet_def)

lemma rest_entries:
  assumes "same_rest s t"
  shows "ruu_entries cfg s = ruu_entries cfg t" "lsq_entries cfg s = lsq_entries cfg t" "live cfg s = live cfg t"
  using assms by (simp_all add: same_rest_def ruu_entries_def lsq_entries_def live_def)

lemma quiet_rest:
  assumes "quiet s t"
  shows "rest_ok cfg s = rest_ok cfg t"
proof -
  have r: "same_rest s t" and f: "\<And>p. fixed (stn s p) = fixed (stn t p)"
    and o: "\<And>p. onames (stn s p) = onames (stn t p)"
    using assms by (simp_all add: quiet_def same_fixed_def)
  have c: "p \<in> set (ruu_entries cfg t) \<Longrightarrow> completed (stn s p) = completed (stn t p)" for p
    using assms station_kinds(3) by (simp add: quiet_def ruu_entries_def)
  note e = rest_entries [OF r] and fd = fixedD [OF f]
  have "rings_ok cfg s = rings_ok cfg t" "fetch_ok cfg s = fetch_ok cfg t"
    using r by (simp_all add: same_rest_def rings_ok_def fetch_ok_def)
  moreover have "pool_ok (fu_pool s) = pool_ok (fu_pool t)"
    using r by (simp add: same_rest_def pool_ok_def)
  moreover have "pred_ok s L = pred_ok t L" for L using r by (simp add: same_rest_def pred_ok_def fd)
  moreover have "stores_ok (stn s) L = stores_ok (stn t) L" for L by (simp add: stores_ok_def fd o)
  moreover have "branch_ok (stn s) (spec_mode s) (ruu_entries cfg t) = branch_ok (stn t) (spec_mode t) (ruu_entries cfg t)"
    using branch_frame [of "stn s" "stn t" "ruu_entries cfg t", OF f c] r by (simp add: same_rest_def)
  ultimately show ?thesis unfolding rest_ok_def e path_frame(4) [of "stn s" "stn t", OF f] by simp
qed

end
