(* ===== verification/Ooo_Writeback.thy ===== *)
theory Ooo_Writeback
  imports Ooo_Inv
begin

text \<open>
  The writeback stage keeps the invariant: the consumers of a result are told, the wrong
  path is squashed, and the loop over the events that are due ends.
\<close>

section \<open>Results\<close>

lemma cv_never:
  assumes "cv_ok st L E b U cv" "onames (st p) ! i = NA"
  shows "U r \<Longrightarrow> cv r \<noteq> Some (p, i)"
  using assms unfolding cv_ok_def by metis

lemma cv_frame:
  assumes "cv_ok st L E b U cv" "\<And>x. rs_spec (st' x) = rs_spec (st x)" "\<And>x. onames (st' x) = onames (st x)"
    "\<And>x. completed (st' x) = completed (st x)"
  shows "cv_ok st' L E b U cv"
  using assms by (simp add: cv_ok_def)

lemma odeps_clear:
  assumes "i < 2" "length (odep_list (st p)) = 2"
  shows "odeps (st(p := (st p)\<lparr>odep_list := (odep_list (st p))[i := []]\<rparr>)) = upd_list (odeps st) p i []"
  using assms by (auto simp: odeps_def upd_list_def fun_eq_iff nth_list_update)

lemma broadcast_ok:
  assumes "core s L [] (odeps (stn s)) X Y E" "stns_ok (stn s) L" "rslinks s \<noteq> 0" "i < 2"
  shows "\<exists>s'. broadcast p i s = Some s' \<and> core s' L [] (odeps (stn s')) X Y (E - {(p, i)}) \<and> stns_ok (stn s') L
    \<and> rslinks s \<le> rslinks s' \<and> same_life s' s"
proof (cases "onames (stn s p) ! i = NA")
  case True
  have "deps_ok (stn s) L (odeps (stn s)) X E" using assms(1) by (simp add: core_def)
  moreover from this have "odeps (stn s) p i = []" using deps_okD(5) True by blast
  ultimately have "deps_ok (stn s) L (odeps (stn s)) X (E - {(p, i)})" by (rule deps_done)
  moreover have "cv_ok (stn s) L (E - {(p, i)}) b U cv" if c: "cv_ok (stn s) L E b U cv" for b U cv
    using c cv_never [where p = p and i = i and st = "stn s", OF c True] by (rule cv_done)
  ultimately have "core s L [] (odeps (stn s)) X Y (E - {(p, i)})" using assms(1) by (simp add: core_def)
  then show ?thesis using assms(2) True by (simp add: broadcast_def)
next
  case False
  let ?t = "clear_creator p i s"
  note c = clear_creator_ok [OF assms(1), of p i]
  have core: "core ?t L [] (odeps (stn ?t)) X Y E" "stns_ok (stn ?t) L" "rslinks ?t \<noteq> 0"
    using c(1,2,5) assms(2,3) by simp_all
  have o: "odeps (stn ?t) p i = odep_list (stn s p) ! i" using assms(4) c(2) by (simp add: odeps_def)
  obtain u where u: "wake_all (odep_list (stn s p) ! i) ?t = Some u"
    "core u L [] (upd_list (odeps (stn ?t)) p i []) X Y E" "stns_ok (stn u) L" "rslinks ?t \<le> rslinks u" "same_outs u ?t"
    using wake_all_ok [where p = p, OF core o] by blast
  have e: "odep_list (stn u x) = odep_list (stn s x)" "rs_spec (stn u x) = rs_spec (stn s x)"
    "onames (stn u x) = onames (stn s x)" "completed (stn u x) = completed (stn s x)" for x
    using u(5) c(2) fixedD(8) [of "stn u x" "stn s x"] by (simp_all add: same_outs_def same_life_def same_fixed_def)
  have cvs: "create_vector u = create_vector ?t" "spec_create_vector u = spec_create_vector ?t" "use_spec_cv u = use_spec_cv s"
    using u(5) c(6) by (simp_all add: same_outs_def same_life_def same_rest_def)
  let ?r = "(stn u p)\<lparr>odep_list := (odep_list (stn u p))[i := []]\<rparr>"
  let ?v = "upd_stn p (\<lambda>rs. rs\<lparr>odep_list := (odep_list rs)[i := []]\<rparr>) u"
  have v: "stn ?v = (stn u)(p := ?r)" by (simp add: upd_stn_def)
  have sl: "same_links ?r (stn u p)" by (simp add: same_links_def)
  have "length (odep_list (stn u p)) = 2" using u(3) by (simp add: stns_ok_def stn_shape_def)
  then have od: "odeps (stn ?v) = upd_list (odeps (stn ?t)) p i []"
    unfolding v using odeps_clear [OF assms(4), of "stn u" p] c(2) by (simp add: odeps_def e upd_list_def fun_eq_iff)
  have pr: "ready_queue ?v = ready_queue u" "event_queue ?v = event_queue u" "create_vector ?v = create_vector u"
    "spec_create_vector ?v = spec_create_vector u" "use_spec_cv ?v = use_spec_cv u" "spec_mode ?v = spec_mode u"
    by (simp_all add: upd_stn_def)
  have lf: "deps_ok (stn ?v) = deps_ok (stn u)" "covered (stn ?v) = covered (stn u)" "cv_ok (stn ?v) = cv_ok (stn u)"
    unfolding v by (intro ext links_frame sl)+
  have "deps_ok (stn u) L (odeps (stn ?v)) X (E - {(p, i)})"
    unfolding od using u(2) by (intro deps_done) (simp_all add: core_def)
  moreover have "covered (stn u) L (odeps (stn ?v)) Y" unfolding od using u(2) by (simp add: core_def)
  moreover have "cv_ok (stn u) L (E - {(p, i)}) False (\<lambda>_. True) (create_vector u)"
    "cv_ok (stn u) L (E - {(p, i)}) True (use_spec_cv u) (spec_create_vector u)"
    unfolding cvs by (rule cv_frame [OF c(3)], (rule e)+) (rule cv_frame [OF c(4)], (rule e)+)
  moreover have "queue_ok (stn ?v) L queued (ready_queue u)" "queue_ok (stn ?v) L (\<lambda>r. issued r \<and> \<not> completed r) (event_queue u)"
    unfolding v using u(2) by (auto intro!: queue_change simp: core_def)
  moreover have "\<forall>r. use_spec_cv u r \<longrightarrow> spec_mode u" using u(2) by (simp add: core_def)
  ultimately have "core ?v L [] (odeps (stn ?v)) X Y (E - {(p, i)})" unfolding core_def lf pr append_Nil2 by blast
  moreover have "stns_ok (stn ?v) L"
    unfolding v using u(3) by (auto simp: stns_ok_def stn_shape_def stn_ok_def OPERANDS_READY_def)
  moreover have "same_life u ?t" using u(5) by (simp add: same_outs_def)
  then have "same_life u s" using c(6) by (rule same_life_trans)
  have "same_life ?v u" by (simp add: same_life_def same_fixed_def upd_stn_def)
  then have "same_life ?v s" using \<open>same_life u s\<close> by (rule same_life_trans)
  ultimately show ?thesis using False u(1,4) c(5) by (simp add: broadcast_def upd_stn_def)
qed

section \<open>Events\<close>

abbreviation in_flight :: "ruu_station \<Rightarrow> bool" where
  "in_flight r \<equiv> issued r \<and> \<not> completed r"

lemma next_event_ok:
  assumes "queue_ok (stn s) L in_flight (event_queue s)" "eventq_next_event s = (ev, s1)"
  shows "\<exists>q n. s1 = s\<lparr>event_queue := q, rslinks := n\<rparr> \<and> rslinks s \<le> n \<and>
    (case ev of None \<Rightarrow> queue_ok (stn s) L in_flight q
     | Some p \<Rightarrow> p \<in> L \<and> in_flight (stn s p) \<and> length q < length (event_queue s)
         \<and> (\<forall>r. \<not> in_flight r \<longrightarrow> rs_tag r = rs_tag (stn s p) \<longrightarrow> queue_ok ((stn s)(p := r)) L in_flight q))"
  using assms
proof (induction s rule: eventq_next_event.induct)
  case (1 s)
  show ?case
  proof (cases "event_queue s")
    case Nil
    then show ?thesis using "1.prems" by (intro exI [of _ "[]"] exI [of _ "rslinks s"]) (simp add: eventq_next_event.simps)
  next
    case (Cons l q)
    show ?thesis
    proof (cases "lk_x l \<le> sim_cycle s")
      case False
      then have "ev = None" "s1 = s" using "1.prems"(2) Cons by (simp_all add: eventq_next_event.simps)
      then show ?thesis using "1.prems"(1) by (intro exI [of _ "event_queue s"] exI [of _ "rslinks s"]) simp
    next
      case due: True
      let ?s = "RSLINK_FREE (s\<lparr>event_queue := q\<rparr>)"
      show ?thesis
      proof (cases "valid (stn s) l")
        case True
        then have e: "ev = Some (lk_rs l)" "s1 = ?s"
          using "1.prems"(2) Cons due by (simp_all add: eventq_next_event.simps [of s] RSLINK_VALID_eq RSLINK_FREE_def)
        have q: "queue_ok (stn s) L in_flight (l # q)" using "1.prems"(1) Cons by simp
        note h = queue_head [OF this True]
        show ?thesis unfolding e
          by (intro exI [of _ q] exI [of _ "rslinks s + 1"] conjI) (use h Cons in \<open>simp_all add: RSLINK_FREE_def\<close>)
      next
        case False
        then have "eventq_next_event ?s = (ev, s1)"
          using "1.prems"(2) Cons due by (simp add: eventq_next_event.simps [of s] RSLINK_VALID_eq RSLINK_FREE_def)
        moreover have "queue_ok (stn ?s) L in_flight (event_queue ?s)"
          using "1.prems"(1) Cons queue_drop_invalid [OF _ False] by (simp add: RSLINK_FREE_def)
        moreover have "\<not> RSLINK_VALID ?s l" using False by (simp add: RSLINK_VALID_eq RSLINK_FREE_def)
        moreover have "\<not> RSLINK_VALID s l" using False by (simp add: RSLINK_VALID_eq)
        ultimately obtain q' n where r: "s1 = ?s\<lparr>event_queue := q', rslinks := n\<rparr>" "rslinks ?s \<le> n"
          "case ev of None \<Rightarrow> queue_ok (stn ?s) L in_flight q'
           | Some p \<Rightarrow> p \<in> L \<and> in_flight (stn ?s p) \<and> length q' < length (event_queue ?s)
               \<and> (\<forall>r. \<not> in_flight r \<longrightarrow> rs_tag r = rs_tag (stn ?s p) \<longrightarrow> queue_ok ((stn ?s)(p := r)) L in_flight q')"
          using "1.IH" [OF Cons due refl] by blast
        show ?thesis
          by (intro exI [of _ q'] exI [of _ n]) (use r Cons in \<open>auto simp: RSLINK_FREE_def split: option.splits\<close>)
      qed
    qed
  qed
qed

section \<open>Squashing\<close>

text \<open>While the wrong path is squashed the speculative create vector is out of use.\<close>

abbreviation calm :: "('c, 'm) ooo_t \<Rightarrow> ('c, 'm) ooo_t" where
  "calm s \<equiv> s\<lparr>use_spec_cv := \<lambda>_. False\<rparr>"

lemma core_calm: "core s L old D X Y E \<Longrightarrow> core (calm s) L old D X Y E"
  by (simp add: core_def cv_ok_def)

lemma core_widen: "core s L old D X Y E \<Longrightarrow> Y \<subseteq> Y' \<Longrightarrow> core s L old D X Y' E"
  unfolding core_def covered_def by blast

text \<open>What a squash leaves of a station.\<close>

definition stays :: "ruu_station \<Rightarrow> ruu_station \<Rightarrow> bool" where
  "stays r r' \<longleftrightarrow> fixed r = fixed r' \<and> onames r = onames r' \<and> completed r = completed r'"

lemma stays_refl [simp]: "stays r r"
  by (simp add: stays_def)

definition squashed_stn :: "ruu_station \<Rightarrow> ruu_station" where
  "squashed_stn r = r\<lparr>odep_list := [[], []], rs_tag := rs_tag r + 1\<rparr>"

lemma squashed_stays [simp]: "stays (squashed_stn r) r'= stays r r'"
  by (simp add: stays_def squashed_stn_def fixed_def)

lemma squash_eq: "squash p s = s\<lparr>stn := (stn s)(p := squashed_stn (stn s p)),
    rslinks := rslinks s + length (concat (odep_list (stn s p)))\<rparr>"
  by (simp add: squash_def upd_stn_def RSLINK_FREE_LIST_def squashed_stn_def)

lemma stns_ok_leave:
  assumes "stns_ok st L" "stn_shape r"
  shows "stns_ok (st(p := r)) (L - {p})"
  using assms by (auto simp: stns_ok_def)

lemma leave_core:
  assumes "core s L [] (odeps (stn s)) X Y E" "\<And>j. odeps ((stn s)(p := r)) p j = []"
    "rs_tag r = rs_tag (stn s p) + 1" "\<And>j w. w \<in> set (waits (stn s) (odeps (stn s) p j)) \<Longrightarrow> w \<in> Y"
    "\<And>i j. create_vector s i \<noteq> Some (p, j)" "\<And>i j. use_spec_cv s i \<Longrightarrow> spec_create_vector s i \<noteq> Some (p, j)"
  shows "core (s\<lparr>stn := (stn s)(p := r)\<rparr>) (L - {p}) [] (odeps ((stn s)(p := r))) X Y E"
proof -
  have c: "queue_ok (stn s) L queued (ready_queue s)" "queue_ok (stn s) L in_flight (event_queue s)"
    "deps_ok (stn s) L (odeps (stn s)) X E" "covered (stn s) L (odeps (stn s)) Y"
    "cv_ok (stn s) L E False (\<lambda>_. True) (create_vector s)" "cv_ok (stn s) L E True (use_spec_cv s) (spec_create_vector s)"
    using assms(1) by (simp_all add: core_def)
  have o: "odeps ((stn s)(p := r)) x j = odeps (stn s) x j" if "x \<noteq> p" for x j using that by (simp add: odeps_def)
  have "queue_ok ((stn s)(p := r)) (L - {p}) queued (ready_queue s)"
    "queue_ok ((stn s)(p := r)) (L - {p}) in_flight (event_queue s)"
    by (rule queue_leave [OF c(1) assms(3)], rule queue_leave [OF c(2) assms(3)])
  moreover have "deps_ok ((stn s)(p := r)) (L - {p}) (odeps ((stn s)(p := r))) X E"
    by (rule deps_leave [OF c(3) assms(3)]) (use assms(2) o in auto)
  moreover have "covered ((stn s)(p := r)) (L - {p}) (odeps ((stn s)(p := r))) Y"
    by (rule covered_leave [OF c(4,3) assms(3)]) (use assms(2,4) o in auto)
  moreover have "cv_ok ((stn s)(p := r)) (L - {p}) E False (\<lambda>_. True) (create_vector s)"
    by (rule cv_leave [OF c(5)]) (rule assms(5))
  moreover have "cv_ok ((stn s)(p := r)) (L - {p}) E True (use_spec_cv s) (spec_create_vector s)"
    by (rule cv_leave [OF c(6)]) (rule assms(6))
  ultimately show ?thesis using assms(1) by (simp add: core_def)
qed

lemma squash_ok:
  assumes "core (calm s) L [] (odeps (stn s)) X Y E" "stns_ok (stn s) L" "rs_spec (stn s p)"
    "\<And>c k. rs_spec (stn s c) \<Longrightarrow> (c, k) \<in> Y"
  shows "core (calm (squash p s)) (L - {p}) [] (odeps (stn (squash p s))) X Y E" "stns_ok (stn (squash p s)) (L - {p})"
proof -
  let ?r = "squashed_stn (stn s p)"
  have d: "deps_ok (stn s) L (odeps (stn s)) X E" "cv_ok (stn s) L E False (\<lambda>_. True) (create_vector s)"
    using assms(1) by (simp_all add: core_def)
  have "w \<in> Y" if w: "w \<in> set (waits (stn s) (odeps (stn s) p j))" for w j
    using deps_okD(4) [OF d(1), of "fst w" "snd w" p j] assms(3) assms(4) [of "fst w" "snd w"] w by simp
  moreover have "create_vector s i \<noteq> Some (p, j)" for i j using d(2) assms(3) unfolding cv_ok_def by blast
  moreover have "odeps ((stn s)(p := ?r)) p j = []" for j by (auto simp: odeps_def squashed_stn_def less_2_cases_iff nth_Cons')
  ultimately have "core ((calm s)\<lparr>stn := (stn s)(p := ?r)\<rparr>) (L - {p}) [] (odeps ((stn s)(p := ?r))) X Y E"
    using leave_core [of "calm s" L X Y E p ?r] assms(1) by (simp add: squashed_stn_def)
  then show "core (calm (squash p s)) (L - {p}) [] (odeps (stn (squash p s))) X Y E"
    unfolding squash_eq by (simp add: core_def)
  show "stns_ok (stn (squash p s)) (L - {p})"
    unfolding squash_eq using assms(2) by (simp add: stns_ok_leave) (auto simp: stns_ok_def stn_shape_def squashed_stn_def)
qed

lemma ring_snocD:
  assumes "ring f m h n = xs @ [y]"
  obtains k where "n = Suc k" "xs = ring f m h k" "y = f ((h + k) mod m)"
proof (cases n)
  case 0
  then show ?thesis using assms by (simp add: ring_def)
next
  case (Suc k)
  then show ?thesis using assms that by (simp add: ring_snoc)
qed

section \<open>The walk over the wrong path\<close>

lemma eas_snoc: "eas st (xs @ [x]) = (if ea_comp (st x) then Suc (eas st xs) else eas st xs)"
  by (simp add: eas_def)

lemma eas_frame: "(\<And>x. fixed (st' x) = fixed (st x)) \<Longrightarrow> eas st' xs = eas st xs"
  using path_frame(3) [of st' st] by simp

lemma eas_eq: "(\<And>x. stays (st' x) (st x)) \<Longrightarrow> eas st' = eas st"
  by (rule path_frame(3)) (simp add: stays_def)

lemma core_calm_num [simp]:
  "core (calm (s\<lparr>RUU_num := k\<rparr>)) L old D X Y E = core (calm s) L old D X Y E"
  "core (calm (s\<lparr>LSQ_num := k\<rparr>)) L old D X Y E = core (calm s) L old D X Y E"
  by (simp_all add: core_def)

text \<open>
  In the middle of the walk: the queues are \<open>R\<close> and \<open>C\<close>, which stay, and \<open>B\<close> and \<open>D\<close>,
  which go.
\<close>

definition walk :: "('c, 'm) ooo_cfg \<Rightarrow> nat \<Rightarrow> station list \<Rightarrow> station list \<Rightarrow> (station \<times> nat) set \<Rightarrow> (station \<times> nat) set \<Rightarrow>
    (station \<times> nat) set \<Rightarrow> station list \<Rightarrow> station list \<Rightarrow> ('c, 'm) ooo_t \<Rightarrow> bool" where
  "walk cfg b R C X Y E B D s \<longleftrightarrow>
     core (calm s) (set (R @ B) \<union> set (C @ D)) [] (odeps (stn s)) X Y E
     \<and> stns_ok (stn s) (set (R @ B) \<union> set (C @ D))
     \<and> ring Ruu (RUU_size cfg) (RUU_head s) (RUU_num s) = R @ B
     \<and> ring Lsq (LSQ_size cfg) (LSQ_head s) (LSQ_num s) = C @ D
     \<and> R \<noteq> [] \<and> last R = Ruu b \<and> RUU_num s \<le> RUU_size cfg \<and> LSQ_num s \<le> LSQ_size cfg \<and> RUU_head s < RUU_size cfg
     \<and> (\<forall>x \<in> set B \<union> set D. rs_spec (stn s x)) \<and> eas (stn s) B = length D
     \<and> (\<forall>c k. rs_spec (stn s c) \<longrightarrow> (c, k) \<in> Y)"

lemma walkD:
  assumes "walk cfg b R C X Y E B D s"
  shows "core (calm s) (set (R @ B) \<union> set (C @ D)) [] (odeps (stn s)) X Y E"
    "stns_ok (stn s) (set (R @ B) \<union> set (C @ D))"
    "ring Ruu (RUU_size cfg) (RUU_head s) (RUU_num s) = R @ B"
    "ring Lsq (LSQ_size cfg) (LSQ_head s) (LSQ_num s) = C @ D"
    "R \<noteq> []" "last R = Ruu b" "RUU_num s \<le> RUU_size cfg" "LSQ_num s \<le> LSQ_size cfg" "RUU_head s < RUU_size cfg"
    "x \<in> set B \<union> set D \<Longrightarrow> rs_spec (stn s x)" "eas (stn s) B = length D" "rs_spec (stn s c) \<Longrightarrow> (c, k) \<in> Y"
  using assms by (simp_all add: walk_def)

definition walk_from :: "('c, 'm) ooo_cfg \<Rightarrow> nat \<Rightarrow> ('c, 'm) ooo_t \<Rightarrow> ('c, 'm) ooo_t option" where
  "walk_from cfg b s =
     (let rt = (RUU_head s + RUU_num s) mod RUU_size cfg; lt = (LSQ_head s + LSQ_num s) mod LSQ_size cfg in
      recover_loop cfg b ((rt + (RUU_size cfg - 1)) mod RUU_size cfg) ((lt + (LSQ_size cfg - 1)) mod LSQ_size cfg) rt lt s)"

definition walked :: "('c, 'm) ooo_cfg \<Rightarrow> nat \<Rightarrow> station list \<Rightarrow> station list \<Rightarrow> (station \<times> nat) set \<Rightarrow> (station \<times> nat) set \<Rightarrow>
    (station \<times> nat) set \<Rightarrow> ('c, 'm) ooo_t \<Rightarrow> bool" where
  "walked cfg b R C X Y E s \<longleftrightarrow>
     (\<exists>st n. walk_from cfg b s = Some (s\<lparr>stn := st, rslinks := n, RUU_num := length R, LSQ_num := length C,
          RUU_tail := (RUU_head s + length R) mod RUU_size cfg, LSQ_tail := (LSQ_head s + length C) mod LSQ_size cfg\<rparr>)
      \<and> core (calm (s\<lparr>stn := st\<rparr>)) (set R \<union> set C) [] (odeps st) X Y E \<and> stns_ok st (set R \<union> set C)
      \<and> rslinks s \<le> n \<and> (\<forall>x. stays (st x) (stn s x)))"

lemma walk_done:
  assumes "walk cfg b R C X Y E [] [] s"
  shows "walked cfg b R C X Y E s"
proof -
  note w = walkD [OF assms]
  have n: "RUU_num s = length R" "LSQ_num s = length C" using w(3,4) by (metis append_Nil2 ring_length)+
  obtain R' where "R = R' @ [Ruu b]" using w(5,6) by (metis append_butlast_last_id)
  then obtain k where k: "RUU_num s = Suc k" "b = (RUU_head s + k) mod RUU_size cfg"
    using w(3) by (metis append_Nil2 ring_snocD station.inject(1))
  then have "((RUU_head s + RUU_num s) mod RUU_size cfg + (RUU_size cfg - 1)) mod RUU_size cfg = b"
    using w(7) ring_back [of "RUU_num s" "RUU_size cfg" "RUU_head s"] by simp
  then have "walk_from cfg b s = Some (s\<lparr>RUU_tail := (RUU_head s + RUU_num s) mod RUU_size cfg,
      LSQ_tail := (LSQ_head s + LSQ_num s) mod LSQ_size cfg\<rparr>)"
    by (simp add: walk_from_def Let_def recover_loop.simps)
  then show ?thesis using w(1,2) n unfolding walked_def
    by (intro exI [of _ "stn s"] exI [of _ "rslinks s"]) simp
qed

text \<open>One step: the last entry of the RUU, with the last entry of the LSQ if it is its address computation.\<close>

lemma walk_last:
  assumes "walk cfg b R C X Y E (B @ [x]) D s"
  shows "\<exists>k. RUU_num s = Suc k \<and> ring Ruu (RUU_size cfg) (RUU_head s) k = R @ B
    \<and> x = Ruu ((RUU_head s + k) mod RUU_size cfg)
    \<and> ((RUU_head s + RUU_num s) mod RUU_size cfg + (RUU_size cfg - 1)) mod RUU_size cfg = (RUU_head s + k) mod RUU_size cfg
    \<and> x \<notin> set R \<union> set B \<union> set C \<union> set D \<and> (RUU_head s + k) mod RUU_size cfg \<noteq> b
    \<and> (RUU_head s + k) mod RUU_size cfg \<noteq> RUU_head s"
proof -
  note w = walkD [OF assms]
  obtain k where k: "RUU_num s = Suc k" "R @ B = ring Ruu (RUU_size cfg) (RUU_head s) k"
    "x = Ruu ((RUU_head s + k) mod RUU_size cfg)"
    using ring_snocD [of Ruu _ _ _ "R @ B" x] w(3) by (metis append_assoc)
  let ?ri = "(RUU_head s + k) mod RUU_size cfg"
  have b: "((RUU_head s + RUU_num s) mod RUU_size cfg + (RUU_size cfg - 1)) mod RUU_size cfg = ?ri"
    using k(1) w(7) ring_back [of "RUU_num s" "RUU_size cfg" "RUU_head s"] by simp
  have dR: "distinct (R @ B @ [x])" unfolding w(3) [symmetric] by (rule ring_distinct [OF station_kinds(1) w(7)])
  have "\<not> is_lsq x" using k(3) by (simp add: is_lsq_def)
  moreover have "is_lsq p" if "p \<in> set (C @ D)" for p using that unfolding w(4) [symmetric] by (rule station_kinds(4))
  ultimately have out: "x \<notin> set R \<union> set B \<union> set C \<union> set D" using dR by auto
  have not_b: "?ri \<noteq> b" using out k(3) w(5,6) by (metis UnI1 last_in_set)
  have "length (R @ B) = k" unfolding k(2) by simp
  then have "k \<noteq> 0" using w(5) by auto
  then have "Ruu (RUU_head s) \<in> set (R @ B)" unfolding k(2) using ring_Cons [OF w(9)] by (cases k) simp_all
  then have "?ri \<noteq> RUU_head s" using k(3) out by auto
  then show ?thesis using k b out not_b by metis
qed

lemma squash_frame:
  "RUU_head (squash p s) = RUU_head s" "RUU_num (squash p s) = RUU_num s" "LSQ_head (squash p s) = LSQ_head s"
  "LSQ_num (squash p s) = LSQ_num s" "rslinks s \<le> rslinks (squash p s)" "stays (stn (squash p s) x) (stn s x)"
  "rs_spec (stn (squash p s) x) = rs_spec (stn s x)" "ea_comp (stn (squash p s) x) = ea_comp (stn s x)"
  by (simp_all add: squash_eq) (simp_all add: squashed_stn_def)

lemma walk_step_op:
  assumes "walk cfg b R C X Y E (B @ [x]) D s" "\<not> ea_comp (stn s x)"
  shows "walk cfg b R C X Y E B D ((squash x s)\<lparr>RUU_num := RUU_num s - 1\<rparr>)"
    "walk_from cfg b s = walk_from cfg b ((squash x s)\<lparr>RUU_num := RUU_num s - 1\<rparr>)"
proof -
  note w = walkD [OF assms(1)]
  obtain k where k: "RUU_num s = Suc k" "ring Ruu (RUU_size cfg) (RUU_head s) k = R @ B"
    "x = Ruu ((RUU_head s + k) mod RUU_size cfg)"
    "((RUU_head s + RUU_num s) mod RUU_size cfg + (RUU_size cfg - 1)) mod RUU_size cfg = (RUU_head s + k) mod RUU_size cfg"
    "x \<notin> set R \<union> set B \<union> set C \<union> set D" "(RUU_head s + k) mod RUU_size cfg \<noteq> b"
    "(RUU_head s + k) mod RUU_size cfg \<noteq> RUU_head s"
    using walk_last [OF assms(1)] by blast
  have L: "set (R @ B @ [x]) \<union> set (C @ D) - {x} = set (R @ B) \<union> set (C @ D)" using k(5) by auto
  have "rs_spec (stn s x)" using w(10) by simp
  note sq = squash_ok [OF w(1,2) this w(12), unfolded L]
  have "eas (stn (squash x s)) = eas (stn s)" by (rule eas_eq) (rule squash_frame(6))
  then have "eas (stn (squash x s)) B = length D" using w(11) assms(2) by (simp add: eas_snoc)
  then show "walk cfg b R C X Y E B D ((squash x s)\<lparr>RUU_num := RUU_num s - 1\<rparr>)"
    unfolding walk_def using sq k(1,2) w(4-10,12) by (simp add: squash_frame)
  show "walk_from cfg b s = walk_from cfg b ((squash x s)\<lparr>RUU_num := RUU_num s - 1\<rparr>)"
    unfolding walk_from_def Let_def k(4) using k assms(2) by (subst recover_loop.simps) (simp add: squash_frame)
qed

lemma walk_step_mem:
  assumes "walk cfg b R C X Y E (B @ [x]) D s" "ea_comp (stn s x)"
    "s1 = (squash (Lsq ((LSQ_head s + (LSQ_num s - 1)) mod LSQ_size cfg)) s)\<lparr>LSQ_num := LSQ_num s - 1\<rparr>"
    "s2 = (squash x s1)\<lparr>RUU_num := RUU_num s - 1\<rparr>"
  shows "walk cfg b R C X Y E B (butlast D) s2" "walk_from cfg b s = walk_from cfg b s2"
proof -
  note w = walkD [OF assms(1)]
  obtain k where k: "RUU_num s = Suc k" "ring Ruu (RUU_size cfg) (RUU_head s) k = R @ B"
    "x = Ruu ((RUU_head s + k) mod RUU_size cfg)"
    "((RUU_head s + RUU_num s) mod RUU_size cfg + (RUU_size cfg - 1)) mod RUU_size cfg = (RUU_head s + k) mod RUU_size cfg"
    "x \<notin> set R \<union> set B \<union> set C \<union> set D" "(RUU_head s + k) mod RUU_size cfg \<noteq> b"
    "(RUU_head s + k) mod RUU_size cfg \<noteq> RUU_head s"
    using walk_last [OF assms(1)] by blast
  have "D \<noteq> []" using w(11) assms(2) by (auto simp: eas_snoc)
  then obtain D' y where D: "D = D' @ [y]" by (metis append_butlast_last_id)
  obtain h where h: "LSQ_num s = Suc h" "ring Lsq (LSQ_size cfg) (LSQ_head s) h = C @ D'"
    "y = Lsq ((LSQ_head s + h) mod LSQ_size cfg)"
    using ring_snocD [of Lsq _ _ _ "C @ D'" y] w(4) D by (metis append_assoc)
  have lb: "((LSQ_head s + LSQ_num s) mod LSQ_size cfg + (LSQ_size cfg - 1)) mod LSQ_size cfg = (LSQ_head s + h) mod LSQ_size cfg"
    using h(1) w(8) ring_back [of "LSQ_num s" "LSQ_size cfg" "LSQ_head s"] by simp
  have dQ: "distinct (C @ D' @ [y])" using ring_distinct [OF station_kinds(2) w(8), of "LSQ_head s"] unfolding w(4) D by simp
  have kind: "is_lsq y" "\<And>p. p \<in> set (R @ B) \<Longrightarrow> \<not> is_lsq p"
    using h(3) station_kinds(3) unfolding k(2) [symmetric] by (auto simp: is_lsq_def)
  have L1: "set (R @ B @ [x]) \<union> set (C @ D) - {y} = set (R @ B @ [x]) \<union> set (C @ D')"
    using dQ kind k(3) unfolding D by (auto simp: is_lsq_def)
  have L2: "set (R @ B @ [x]) \<union> set (C @ D') - {x} = set (R @ B) \<union> set (C @ D')" using k(5) unfolding D by auto
  have s1: "s1 = (squash y s)\<lparr>LSQ_num := LSQ_num s - 1\<rparr>" unfolding assms(3) h(3) using h(1) by simp
  have sp: "rs_spec (stn s y)" "rs_spec (stn s x)" using w(10) D by simp_all
  note q1 = squash_ok [OF w(1,2) sp(1) w(12), unfolded L1]
  have c1: "core (calm s1) (set (R @ B @ [x]) \<union> set (C @ D')) [] (odeps (stn s1)) X Y E"
    "stns_ok (stn s1) (set (R @ B @ [x]) \<union> set (C @ D'))" "rs_spec (stn s1 x)" "\<And>c j. rs_spec (stn s1 c) \<Longrightarrow> (c, j) \<in> Y"
    unfolding s1 using q1 sp w(12) by (simp_all add: squash_frame)
  note q2 = squash_ok [OF c1, unfolded L2]
  have e1: "eas (stn s1) = eas (stn s)" unfolding s1 by (rule eas_eq) (simp add: squash_frame)
  have "eas (stn (squash x s1)) = eas (stn s1)" by (rule eas_eq) (rule squash_frame(6))
  then have "eas (stn (squash x s1)) B = length D'" using w(11) assms(2) e1 D by (simp add: eas_snoc)
  moreover have "rs_spec (stn (squash x s1) c) = rs_spec (stn s c)" for c unfolding s1 by (simp add: squash_frame)
  moreover have "RUU_head (squash x s1) = RUU_head s" "LSQ_head (squash x s1) = LSQ_head s" "LSQ_num (squash x s1) = h"
    unfolding s1 using h(1) by (simp_all add: squash_frame)
  ultimately show "walk cfg b R C X Y E B (butlast D) s2"
    unfolding walk_def assms(4) using q2 k(1,2) h(1,2) w(5-10,12) D by simp
  show "walk_from cfg b s = walk_from cfg b s2"
    unfolding walk_from_def Let_def k(4) lb assms(4) s1 h(3)
    using k h(1) assms(2) by (subst recover_loop.simps) (simp add: squash_frame)
qed

lemma walk_ok: "walk cfg b R C X Y E B D s \<Longrightarrow> walked cfg b R C X Y E s"
proof (induction B arbitrary: s D rule: rev_induct)
  case Nil
  then have "D = []" using walkD(11) [OF Nil] by (simp add: eas_def)
  then show ?case using Nil walk_done by blast
next
  case (snoc x B)
  have lift: "walked cfg b R C X Y E s"
    if r0: "walked cfg b R C X Y E t" "walk_from cfg b s = walk_from cfg b t" "rslinks s \<le> rslinks t"
      "\<And>x. stays (stn t x) (stn s x)" "\<And>st n a c. t\<lparr>stn := st, rslinks := n, RUU_num := a, LSQ_num := c\<rparr>
        = s\<lparr>stn := st, rslinks := n, RUU_num := a, LSQ_num := c\<rparr>" for t
  proof -
    obtain st n where r: "walk_from cfg b t = Some (t\<lparr>stn := st, rslinks := n, RUU_num := length R, LSQ_num := length C,
          RUU_tail := (RUU_head t + length R) mod RUU_size cfg, LSQ_tail := (LSQ_head t + length C) mod LSQ_size cfg\<rparr>)"
      "core (calm (t\<lparr>stn := st\<rparr>)) (set R \<union> set C) [] (odeps st) X Y E" "stns_ok st (set R \<union> set C)"
      "rslinks t \<le> n" "\<And>x. stays (st x) (stn t x)"
      using r0(1) unfolding walked_def by blast
    have hd: "RUU_head t = RUU_head s" "LSQ_head t = LSQ_head s" "ready_queue t = ready_queue s" "event_queue t = event_queue s"
      "create_vector t = create_vector s" "spec_create_vector t = spec_create_vector s" "spec_mode t = spec_mode s"
      using arg_cong [OF r0(5), of RUU_head] arg_cong [OF r0(5), of LSQ_head] arg_cong [OF r0(5), of ready_queue]
        arg_cong [OF r0(5), of event_queue] arg_cong [OF r0(5), of create_vector] arg_cong [OF r0(5), of spec_create_vector]
        arg_cong [OF r0(5), of spec_mode] by simp_all
    have "walk_from cfg b s = Some (s\<lparr>stn := st, rslinks := n, RUU_num := length R, LSQ_num := length C,
          RUU_tail := (RUU_head s + length R) mod RUU_size cfg, LSQ_tail := (LSQ_head s + length C) mod LSQ_size cfg\<rparr>)"
      unfolding r0(2) r(1) hd r0(5) ..
    moreover have "core (calm (s\<lparr>stn := st\<rparr>)) (set R \<union> set C) [] (odeps st) X Y E" using r(2) by (simp add: core_def hd)
    moreover have "stays (st x) (stn s x)" for x using r(5) [of x] r0(4) [of x] by (simp add: stays_def)
    moreover have "rslinks s \<le> n" using r0(3) r(4) by (rule order_trans)
    ultimately show ?thesis unfolding walked_def using r(3) by blast
  qed
  show ?case
  proof (cases "ea_comp (stn s x)")
    case False
    show ?thesis
      by (rule lift [OF snoc.IH [OF walk_step_op(1) [OF snoc.prems False]] walk_step_op(2) [OF snoc.prems False]])
        (simp_all add: squash_frame squash_eq)
  next
    case True
    note m = walk_step_mem [OF snoc.prems True refl refl]
    show ?thesis
      by (rule lift [OF snoc.IH [OF m(1)] m(2)]) (simp_all add: squash_eq squashed_stn_def stays_def fixed_def)
  qed
qed

section \<open>Recovery from a wrong path\<close>

lemma ring_prefix:
  assumes "ring f m h n = xs @ ys"
  shows "ring f m h (length xs) = xs"
proof -
  have "length xs \<le> n" using arg_cong [OF assms, of length] by simp
  then have "ring f m h (length xs) = take (length xs) (ring f m h n)"
    by (simp add: ring_def take_map)
  then show ?thesis using assms by simp
qed

lemma path_sets: "p \<in> set (prec st ps) \<Longrightarrow> p \<in> set ps \<and> \<not> rs_spec (st p)" "p \<in> set (wrong st ps) \<Longrightarrow> rs_spec (st p)"
  by (simp_all add: prec_def wrong_def)

lemma path_prec [simp]: "prec st (prec st ps) = prec st ps" "wrong st (prec st ps) = []"
  by (simp_all add: prec_def wrong_def)

lemma record_ok_shape: "same_shape b' b \<Longrightarrow> record_ok (Some b') up idx = record_ok (Some b) up idx"
  by (simp add: record_ok_def same_shape_ok)

lemma covered_prec:
  assumes "covered st L D {(c, k). rs_spec (st' c)}" "\<And>c. c \<in> L \<Longrightarrow> \<not> rs_spec (st' c)"
  shows "covered st L D {}"
  using assms unfolding covered_def by blast

lemma stores_frame:
  assumes "stores_ok st L" "L' \<subseteq> L" "\<And>x. fixed (st' x) = fixed (st x)" "\<And>x. onames (st' x) = onames (st x)"
  shows "stores_ok st' L'"
  using assms(1,2,4) fixedD(1) [OF assms(3)] unfolding stores_ok_def by (metis subsetD)

lemma pred_frame:
  assumes "pred_ok s L" "L' \<subseteq> L" "\<And>x. fixed (stn t x) = fixed (stn s x)" "pred t = pred s" "fetch_data t = fetch_data s"
  shows "pred_ok t L'"
  using assms(1,2,4,5) fixedD(1,2,6,7) [OF assms(3)] by (simp add: pred_ok_def subset_iff)

lemma recover_branch_ok:
  assumes core: "core s (live cfg s) [] (odeps (stn s)) {} {} E" and stns: "stns_ok (stn s) (live cfg s)"
    and rings: "rings_ok cfg s" and stores: "stores_ok (stn s) (live cfg s)"
    and split: "split_ok (stn s) (ruu_entries cfg s) (lsq_entries cfg s)"
    and pred: "pred_ok s (live cfg s)" and pool: "pool_ok (fu_pool s)"
    and ends: "prec (stn s) (ruu_entries cfg s) \<noteq> []" "last (prec (stn s) (ruu_entries cfg s)) = Ruu b"
    and mode: "spec_mode s" and rec: "\<And>p. p \<in> set (ruu_entries cfg s) \<Longrightarrow> recover_inst (stn s p) \<Longrightarrow> completed (stn s p)"
    and ifq: "0 < ruu_ifq_size cfg"
  shows "\<exists>s'. recover_branch cfg (Ruu b) s = Some s' \<and> core s' (live cfg s') [] (odeps (stn s')) {} {} E
    \<and> stns_ok (stn s') (live cfg s') \<and> rest_ok cfg s' \<and> rslinks s \<le> rslinks s' \<and> event_queue s' = event_queue s
    \<and> (\<forall>x. stays (stn s' x) (stn s x)) \<and> Ruu b \<in> live cfg s'"
proof -
  let ?R = "prec (stn s) (ruu_entries cfg s)" and ?B = "wrong (stn s) (ruu_entries cfg s)"
  let ?C = "prec (stn s) (lsq_entries cfg s)" and ?D = "wrong (stn s) (lsq_entries cfg s)"
  let ?Y = "{(c, k). rs_spec (stn s c)}"
  have RB: "ruu_entries cfg s = ?R @ ?B" and CD: "lsq_entries cfg s = ?C @ ?D" and e: "eas (stn s) ?R = length ?C" "eas (stn s) ?B = length ?D"
    using split unfolding split_ok_def by blast+
  have L: "live cfg s = set (?R @ ?B) \<union> set (?C @ ?D)" unfolding live_def using RB CD by simp
  note rg = rings [unfolded rings_ok_def]
  have "walk cfg b ?R ?C {} ?Y E ?B ?D s"
    unfolding walk_def L [symmetric]
  proof (intro conjI)
    show "core (calm s) (live cfg s) [] (odeps (stn s)) {} ?Y E" by (rule core_widen [OF core_calm [OF core]]) simp
    show "\<forall>x \<in> set ?B \<union> set ?D. rs_spec (stn s x)" using path_sets(2) by blast
  qed (use stns rg ends e RB CD in \<open>simp_all add: ruu_entries_def lsq_entries_ring\<close>)
  then obtain st n where w: "walk_from cfg b s = Some (s\<lparr>stn := st, rslinks := n, RUU_num := length ?R, LSQ_num := length ?C,
          RUU_tail := (RUU_head s + length ?R) mod RUU_size cfg, LSQ_tail := (LSQ_head s + length ?C) mod LSQ_size cfg\<rparr>)"
      "core (calm (s\<lparr>stn := st\<rparr>)) (set ?R \<union> set ?C) [] (odeps st) {} ?Y E" "stns_ok st (set ?R \<union> set ?C)"
      "rslinks s \<le> n" "\<And>x. stays (st x) (stn s x)"
    using walk_ok unfolding walked_def by blast
  let ?p = "map_option (\<lambda>q. bpred_recover q (stack_recover_idx (st (Ruu b)))) (pred s)"
  let ?s = "s\<lparr>stn := st, rslinks := n, RUU_num := length ?R, LSQ_num := length ?C,
          RUU_tail := (RUU_head s + length ?R) mod RUU_size cfg, LSQ_tail := (LSQ_head s + length ?C) mod LSQ_size cfg,
          use_spec_cv := \<lambda>_. False, spec_mode := False, machine := drop_spec cfg (machine s), fetch_num := 0,
          fetch_tail := 0, fetch_head := 0, fetch_regs_PC := recover_PC s, fetch_pred_PC := recover_PC s,
          pred := ?p, ruu_fetch_issue_delay := ruu_branch_penalty cfg\<rparr>"
  have "recover_branch cfg (Ruu b) s = Some ?s"
    using w(1) rg mode by (simp add: recover_branch_def ruu_recover_def tracer_recover_def walk_from_def Let_def)
  moreover have en: "ruu_entries cfg ?s = ?R" "lsq_entries cfg ?s = ?C"
    using ring_prefix [of Ruu "RUU_size cfg" "RUU_head s" "RUU_num s" ?R ?B] RB
      ring_prefix [of Lsq "LSQ_size cfg" "LSQ_head s" "LSQ_num s" ?C ?D] CD
    by (simp_all add: ruu_entries_def lsq_entries_ring)
  then have live: "live cfg ?s = set ?R \<union> set ?C" by (simp only: live_def)
  have fx: "fixed (st x) = fixed (stn s x)" and on: "onames (st x) = onames (stn s x)" and cp: "completed (st x) = completed (stn s x)" for x
    using w(5) by (simp_all add: stays_def)
  note fd = fixedD [OF fx] and pf = path_frame [of st "stn s", OF fx]
  have "core ?s (set ?R \<union> set ?C) [] (odeps st) {} {} E"
  proof -
    have "covered st (set ?R \<union> set ?C) (odeps st) ?Y" using w(2) by (simp add: core_def)
    then have "covered st (set ?R \<union> set ?C) (odeps st) {}" by (rule covered_prec) (use path_sets in blast)
    then show ?thesis using w(2) by (simp add: core_def)
  qed
  moreover have "rest_ok cfg ?s"
  proof -
    have sub: "set ?R \<union> set ?C \<subseteq> live cfg s" using path_sets(1) by (auto simp: live_def)
    have "length ?R \<le> RUU_num s" "length ?C \<le> LSQ_num s"
      using arg_cong [OF RB, of length] arg_cong [OF CD, of length] by (simp_all add: ruu_entries_def lsq_entries_ring)
    then have "rings_ok cfg ?s" using rg by (simp add: rings_ok_def)
    moreover have "stores_ok st (live cfg ?s)"
      unfolding live by (rule stores_frame [OF stores sub fx on])
    moreover have "split_ok st ?R ?C" using e(1) by (simp add: split_ok_def pf) (simp add: eas_def)
    moreover have "branch_ok st False ?R" unfolding branch_ok_def pf using rec path_sets(1) by (auto simp: fd cp)
    moreover have "pred_ok ?s (live cfg ?s)"
    proof -
      have pt: "pred_ok (s\<lparr>stn := st\<rparr>) (set ?R \<union> set ?C)" by (rule pred_frame [OF pred sub]) (simp_all add: fx)
      show ?thesis
      proof (cases "pred s")
        case None
        then show ?thesis unfolding live using pt by (simp add: pred_ok_def)
      next
        case (Some q)
        have "bpred_ok q" "idx_ok q (stack_recover_idx (stn s (Ruu b)))" using pred Some by (simp_all add: pred_ok_def record_ok_def)
        note r = recover_ok [OF this]
        show ?thesis unfolding live using pt Some r(1) record_ok_shape [OF r(2)] by (simp add: pred_ok_def fd)
      qed
    qed
    moreover have "fetch_ok cfg ?s" using ifq by (simp add: fetch_ok_def)
    ultimately show ?thesis unfolding rest_ok_def en using pool by simp
  qed
  moreover have "Ruu b \<in> live cfg ?s" unfolding live using last_in_set [OF ends(1)] ends(2) by simp
  ultimately show ?thesis using w(3-5) live by (intro exI [of _ ?s]) simp
qed

section \<open>The writeback stage\<close>

lemma pred_ok_update:
  assumes "pred_ok s L" "pred s = Some q" "bpred_ok q'" "same_shape q' q"
  shows "pred_ok (s\<lparr>pred := Some q'\<rparr>) L"
  using assms record_ok_shape [OF assms(4)] by (simp add: pred_ok_def)

lemma rest_ok_pred:
  assumes "rest_ok cfg s" "pred_ok (s\<lparr>pred := x\<rparr>) (live cfg s)"
  shows "rest_ok cfg (s\<lparr>pred := x\<rparr>)"
  using assms by (simp add: rest_ok_def rings_ok_def fetch_ok_def ruu_entries_def lsq_entries_def live_def)

lemma update_pred_ok:
  assumes "pred_ok s L" "record_ok (pred s) up i" "PC \<noteq> 0"
  shows "\<exists>x. update_pred PC npc ppc op up s = Some (s\<lparr>pred := x\<rparr>) \<and> pred_ok (s\<lparr>pred := x\<rparr>) L"
proof (cases "pred s")
  case None
  then have e: "s\<lparr>pred := None\<rparr> = s" by simp
  show ?thesis using assms(1) by (intro exI [of _ None]) (simp add: update_pred_def None e)
next
  case (Some q)
  then have "bpred_ok q" "up_ok q up" using assms(1,2) by (simp_all add: pred_ok_def record_ok_def)
  then obtain q' where "bpred_update q PC npc (npc \<noteq> PC + 8) (ppc \<noteq> PC + 8) (ppc = npc) op up = Some q'"
    "bpred_ok q'" "same_shape q' q"
    using bpred_update_ok [OF _ _ assms(3)] by blast
  then show ?thesis using pred_ok_update [OF assms(1) Some] Some
    by (intro exI [of _ "Some q'"]) (simp add: update_pred_def)
qed

lemma update_pred_at_ok:
  assumes "pred_ok s L" "p \<in> L"
  shows "\<exists>x. update_pred_at cfg stage (stn s p) s = Some (s\<lparr>pred := x\<rparr>) \<and> pred_ok (s\<lparr>pred := x\<rparr>) L"
proof (cases "bpred_spec_update cfg = stage \<and> is_ctrl (rs_op (stn s p))")
  case True
  then have "record_ok (pred s) (dir_update (stn s p)) (stack_recover_idx (stn s p))" "rs_PC (stn s p) \<noteq> 0"
    using assms by (simp_all add: pred_ok_def)
  then show ?thesis using update_pred_ok [OF assms(1)] True by (simp add: update_pred_at_def)
next
  case False
  then have "update_pred_at cfg stage (stn s p) s = Some s" by (simp only: update_pred_at_def if_False)
  then show ?thesis using assms(1) by (intro exI [of _ "pred s"]) simp
qed

lemma stays_trans: "stays r r' \<Longrightarrow> stays r' r'' \<Longrightarrow> stays r r''"
  by (simp add: stays_def)

text \<open>The part after a possible recovery.\<close>

lemma finish_complete:
  assumes "core s (live cfg s) [] (odeps (stn s)) {} {} {(p, 0), (p, 1)}" "stns_ok (stn s) (live cfg s)" "rest_ok cfg s"
    "p \<in> live cfg s" "rslinks s \<noteq> 0"
  shows "\<exists>s'. (do { s3 \<leftarrow> (if \<not> in_LSQ (stn s p) then update_pred_at cfg spec_WB (stn s p) s else Some s);
        s4 \<leftarrow> broadcast p 0 s3; broadcast p 1 s4 }) = Some s'
    \<and> ooo_inv cfg s' \<and> rslinks s \<le> rslinks s' \<and> event_queue s' = event_queue s"
proof -
  obtain x where x: "(if \<not> in_LSQ (stn s p) then update_pred_at cfg spec_WB (stn s p) s else Some s) = Some (s\<lparr>pred := x\<rparr>)"
    "rest_ok cfg (s\<lparr>pred := x\<rparr>)"
  proof (cases "in_LSQ (stn s p)")
    case True
    then show ?thesis using that [of "pred s"] assms(3) by simp
  next
    case False
    have "pred_ok s (live cfg s)" using assms(3) by (simp add: rest_ok_def)
    then show ?thesis using that update_pred_at_ok [OF _ assms(4)] rest_ok_pred [OF assms(3)] False by metis
  qed
  let ?s = "s\<lparr>pred := x\<rparr>"
  have "live cfg ?s = live cfg s" by (simp add: live_def ruu_entries_def lsq_entries_def)
  then have c: "core ?s (live cfg ?s) [] (odeps (stn ?s)) {} {} {(p, 0), (p, 1)}" "stns_ok (stn ?s) (live cfg ?s)" "rslinks ?s \<noteq> 0"
    using assms(1,2,5) by simp_all
  obtain t where t: "broadcast p 0 ?s = Some t" "core t (live cfg ?s) [] (odeps (stn t)) {} {} ({(p, 0), (p, 1)} - {(p, 0)})"
    "stns_ok (stn t) (live cfg ?s)" "rslinks ?s \<le> rslinks t" "same_life t ?s"
    using broadcast_ok [OF c, of 0 p] by auto
  have r: "rslinks t \<noteq> 0" using t(4) c(3) by simp
  obtain u where u: "broadcast p 1 t = Some u"
    "core u (live cfg ?s) [] (odeps (stn u)) {} {} ({(p, 0), (p, 1)} - {(p, 0)} - {(p, 1)})"
    "stns_ok (stn u) (live cfg ?s)" "rslinks t \<le> rslinks u" "same_life u t"
    using broadcast_ok [OF t(2,3) r, of 1 p] by auto
  have l: "same_life u ?s" using u(5) t(5) by (rule same_life_trans)
  have "{(p, 0), (p, 1)} - {(p, 0)} - {(p, 1)} = ({} :: (station \<times> nat) set)" by blast
  moreover have "live cfg u = live cfg ?s" using l by (intro rest_entries) (simp add: same_life_def)
  moreover have "rest_ok cfg u" using quiet_rest [OF same_life_quiet [OF l]] x(2) by blast
  ultimately have "ooo_inv cfg u" using u(2,3) by (simp add: ooo_inv_def)
  moreover have "event_queue u = event_queue s" using l by (simp add: same_life_def)
  ultimately show ?thesis using x(1) t(1,4) u(1,4) by simp
qed

text \<open>A station completes.\<close>

abbreviation finished :: "ruu_station \<Rightarrow> ruu_station" where
  "finished r \<equiv> r\<lparr>completed := True\<rparr>"

lemma complete_core:
  assumes "core s L [] (odeps (stn s)) {} {} {}" "queue_ok ((stn s)(p := finished (stn s p))) L in_flight q"
  shows "core (upd_stn p finished (s\<lparr>event_queue := q, rslinks := n\<rparr>)) L [] (odeps ((stn s)(p := finished (stn s p)))) {} {} {(p, 0), (p, 1)}"
proof -
  let ?st = "(stn s)(p := finished (stn s p))"
  have o: "odeps ?st = odeps (stn s)" by (auto simp: odeps_def fun_eq_iff)
  note l = links_complete [where p = p and st = "stn s", OF refl]
  have "deps_ok ?st L (odeps (stn s)) {} {(p, 0), (p, 1)}" "covered ?st L (odeps (stn s)) {}"
    "cv_ok ?st L {(p, 0), (p, 1)} False (\<lambda>_. True) (create_vector s)"
    "cv_ok ?st L {(p, 0), (p, 1)} True (use_spec_cv s) (spec_create_vector s)"
    using assms(1) l(1) [of L "odeps (stn s)" "{}" "{}"] l(2) [of L "odeps (stn s)" "{}"] l(3) [of L "{}"]
    by (simp_all add: core_def)
  moreover have "queue_ok ?st L queued (ready_queue s)"
    using assms(1) by (intro queue_change) (simp_all add: core_def)
  ultimately show ?thesis using assms unfolding core_def o by (simp add: upd_stn_def)
qed

lemma complete_ok:
  assumes inv: "core s (live cfg s) [] (odeps (stn s)) {} {} {}" "stns_ok (stn s) (live cfg s)" "rest_ok cfg s"
    and p: "p \<in> live cfg s" "in_flight (stn s p)" "queue_ok ((stn s)(p := finished (stn s p))) (live cfg s) in_flight q"
    and n: "n \<noteq> 0" and ifq: "0 < ruu_ifq_size cfg"
  shows "\<exists>s'. complete cfg p (s\<lparr>event_queue := q, rslinks := n\<rparr>) = Some s' \<and> ooo_inv cfg s' \<and> n \<le> rslinks s' \<and> event_queue s' = q"
proof -
  let ?s = "s\<lparr>event_queue := q, rslinks := n\<rparr>"
  let ?t = "upd_stn p finished ?s"
  have st: "stn ?t x = (if x = p then finished (stn s p) else stn s x)" for x by (simp add: upd_stn_def)
  have pr: "stn_ok (is_lsq p) (stn s p)" "stn_shape (stn s p)" using inv(2) p(1) by (simp_all add: stns_ok_def)
  then have ok: "OPERANDS_READY (stn s p)" "\<not> queued (stn s p)" "issued (stn s p)" "\<not> completed (stn s p)"
    "in_LSQ (stn s p) = is_lsq p" "is_lsq p \<Longrightarrow> \<not> recover_inst (stn s p)"
    using p(2) by (auto simp: stn_ok_def)
  have live: "live cfg ?t = live cfg s" "ruu_entries cfg ?t = ruu_entries cfg s" "lsq_entries cfg ?t = lsq_entries cfg s"
    by (simp_all add: live_def ruu_entries_def lsq_entries_def upd_stn_def)
  have fx: "fixed (stn ?t x) = fixed (stn s x)" and on: "onames (stn ?t x) = onames (stn s x)" for x by (simp_all add: st)
  note fd = fixedD [OF fx] and pf = path_frame [of "stn ?t" "stn s", OF fx]
  have core: "core ?t (live cfg ?t) [] (odeps (stn ?t)) {} {} {(p, 0), (p, 1)}"
    unfolding live using complete_core [OF inv(1) p(3), of n] by (simp add: upd_stn_def)
  have stns: "stns_ok (stn ?t) (live cfg ?t)"
    unfolding live using inv(2) ok by (auto simp: stns_ok_def st stn_shape_def stn_ok_def OPERANDS_READY_def)
  note rest = inv(3) [unfolded rest_ok_def]
  have parts: "rings_ok cfg ?t" "stores_ok (stn ?t) (live cfg ?t)" "split_ok (stn ?t) (ruu_entries cfg ?t) (lsq_entries cfg ?t)"
    "pred_ok ?t (live cfg ?t)" "pool_ok (fu_pool ?t)" "fetch_ok cfg ?t"
    unfolding live pf using rest stores_frame [OF _ subset_refl fx on] pred_frame [OF _ subset_refl fx]
    by (simp_all add: rings_ok_def fetch_ok_def) (simp_all add: upd_stn_def)
  have br: "branch_ok (stn s) (spec_mode s) (ruu_entries cfg s)" using rest by blast
  have rb: "\<exists>u. (if recover_inst (stn ?t p) then if in_LSQ (stn ?t p) then None else recover_branch cfg p ?t else Some ?t) = Some u
      \<and> core u (live cfg u) [] (odeps (stn u)) {} {} {(p, 0), (p, 1)} \<and> stns_ok (stn u) (live cfg u) \<and> rest_ok cfg u
      \<and> p \<in> live cfg u \<and> n \<le> rslinks u \<and> event_queue u = q"
  proof (cases "recover_inst (stn s p)")
    case True
    then have nl: "\<not> is_lsq p" using ok(6) by blast
    then obtain b where b: "p = Ruu b" by (cases p) (simp_all add: is_lsq_def)
    have "p \<in> set (ruu_entries cfg s)" using p(1) nl station_kinds(4) by (auto simp: live_def lsq_entries_ring)
    then have e: "spec_mode s" "prec (stn s) (ruu_entries cfg s) \<noteq> []" "last (prec (stn s) (ruu_entries cfg s)) = Ruu b"
      using br True ok(4) b unfolding branch_ok_def by metis+
    have "completed (stn ?t x)" if "x \<in> set (ruu_entries cfg ?t)" "recover_inst (stn ?t x)" for x
    proof (cases "x = p")
      case False
      then have "completed (stn s x)" using br that e(3) b unfolding branch_ok_def live fd by metis
      then show ?thesis by (simp add: st)
    qed (simp add: st)
    moreover have "spec_mode ?t" using e(1) by (simp add: upd_stn_def)
    ultimately obtain u where "recover_branch cfg (Ruu b) ?t = Some u" "core u (live cfg u) [] (odeps (stn u)) {} {} {(p, 0), (p, 1)}"
      "stns_ok (stn u) (live cfg u)" "rest_ok cfg u" "rslinks ?t \<le> rslinks u" "event_queue u = event_queue ?t" "Ruu b \<in> live cfg u"
      using recover_branch_ok [OF core stns parts(1-5), of b] e(2,3) ifq unfolding live pf by blast
    then show ?thesis using True nl ok(5) b by (intro exI [of _ u]) (simp add: fd upd_stn_def)
  next
    case False
    have "branch_ok (stn ?t) (spec_mode s) (ruu_entries cfg s)"
      using br False unfolding branch_ok_def pf fd by (auto simp: st)
    then have "rest_ok cfg ?t" using parts unfolding rest_ok_def live by (simp add: upd_stn_def)
    then show ?thesis using False core stns p(1) live by (intro exI [of _ ?t]) (simp add: fd upd_stn_def)
  qed
  then obtain u where u: "(if recover_inst (stn ?t p) then if in_LSQ (stn ?t p) then None else recover_branch cfg p ?t else Some ?t) = Some u"
    "core u (live cfg u) [] (odeps (stn u)) {} {} {(p, 0), (p, 1)}" "stns_ok (stn u) (live cfg u)" "rest_ok cfg u"
    "p \<in> live cfg u" "n \<le> rslinks u" "event_queue u = q"
    by blast
  have "rslinks u \<noteq> 0" using u(6) n by simp
  note fin = finish_complete [OF u(2-5) this]
  have "complete cfg p ?s = do { s3 \<leftarrow> (if \<not> in_LSQ (stn u p) then update_pred_at cfg spec_WB (stn u p) u else Some u);
        s4 \<leftarrow> broadcast p 0 s3; broadcast p 1 s4 }"
    unfolding complete_def Let_def u(1) using ok by simp
  then show ?thesis using fin u(6,7) by (metis order_trans)
qed

lemma ruu_writeback_ok:
  assumes "ooo_inv cfg s" "rslinks s \<noteq> 0" "0 < ruu_ifq_size cfg"
  shows "\<exists>s'. ruu_writeback cfg s = Some s' \<and> ooo_inv cfg s' \<and> rslinks s \<le> rslinks s'"
  using assms
proof (induction "length (event_queue s)" arbitrary: s rule: less_induct)
  case less
  have inv: "core s (live cfg s) [] (odeps (stn s)) {} {} {}" "stns_ok (stn s) (live cfg s)" "rest_ok cfg s"
    using less.prems(1) by (simp_all add: ooo_inv_def)
  then have "queue_ok (stn s) (live cfg s) in_flight (event_queue s)" by (simp add: core_def)
  moreover obtain ev s1 where e: "eventq_next_event s = (ev, s1)" by (cases "eventq_next_event s")
  ultimately obtain q n where qn: "s1 = s\<lparr>event_queue := q, rslinks := n\<rparr>" "rslinks s \<le> n"
    "case ev of None \<Rightarrow> queue_ok (stn s) (live cfg s) in_flight q
     | Some p \<Rightarrow> p \<in> live cfg s \<and> in_flight (stn s p) \<and> length q < length (event_queue s)
         \<and> (\<forall>r. \<not> in_flight r \<longrightarrow> rs_tag r = rs_tag (stn s p) \<longrightarrow> queue_ok ((stn s)(p := r)) (live cfg s) in_flight q)"
    using next_event_ok by blast
  show ?case
  proof (cases ev)
    case None
    have l: "live cfg s1 = live cfg s" unfolding qn(1) by (simp add: live_def ruu_entries_def lsq_entries_def)
    have "core s1 (live cfg s) [] (odeps (stn s1)) {} {} {}" using inv(1) qn(3) None unfolding qn(1) by (simp add: core_def)
    moreover have "same_life (s1\<lparr>event_queue := event_queue s\<rparr>) s" unfolding qn(1) by (simp add: same_life_def same_fixed_def)
    then have "quiet s1 s" unfolding qn(1) by (simp add: quiet_def same_fixed_def)
    then have "rest_ok cfg s1" using quiet_rest inv(3) by blast
    ultimately have "ooo_inv cfg s1" using inv(2) l qn(1) by (simp add: ooo_inv_def)
    then show ?thesis using e None qn by (subst ruu_writeback.simps) simp
  next
    case (Some p)
    have p: "p \<in> live cfg s" "in_flight (stn s p)" "length q < length (event_queue s)"
      "queue_ok ((stn s)(p := finished (stn s p))) (live cfg s) in_flight q"
      using qn(3) Some by simp_all
    have "n \<noteq> 0" using qn(2) less.prems(2) by simp
    then obtain s2 where s2: "complete cfg p s1 = Some s2" "ooo_inv cfg s2" "n \<le> rslinks s2" "event_queue s2 = q"
      using complete_ok [OF inv p(1,2,4) _ less.prems(3)] qn(1) by blast
    have "rslinks s2 \<noteq> 0" using s2(3) \<open>n \<noteq> 0\<close> by simp
    then obtain s' where "ruu_writeback cfg s2 = Some s'" "ooo_inv cfg s'" "rslinks s2 \<le> rslinks s'"
      using less.hyps [of s2] s2(2,4) p(3) less.prems(3) by blast
    then show ?thesis using e Some s2(1,3) qn(2) by (subst ruu_writeback.simps) simp
  qed
qed

end
