(* ===== verification/Ooo_Commit.thy ===== *)
theory Ooo_Commit
  imports Ooo_Writeback
begin

text \<open>
  The functional units, and the commit stage: the heads of the two queues retire in step,
  and the invariant is kept.
\<close>

section \<open>Functional units\<close>

lemma res_get_ok:
  assumes "pool_ok pool" "c \<noteq> FUClass_NA"
  shows "\<exists>r. res_get pool c = Some r \<and> (\<forall>u. r = Some u \<longrightarrow> u \<in> set (res_table pool c) \<and> master_busy pool u = 0)"
proof -
  have "res_table pool c \<noteq> []" using assms by (simp add: pool_ok_def units_ok_def)
  then show ?thesis by (auto simp: res_get_def find_Some_iff)
qed

lemma pool_template:
  assumes "pool_ok pool" "u \<in> set (res_table pool c)"
  shows "0 < rt_oplat (template pool u)" "rt_master (template pool u) < length (resources pool)"
proof -
  have "fst u < length (map rd_x (resources pool))" "0 < rt_oplat (map rd_x (resources pool) ! fst u ! snd u)"
    "rt_master (map rd_x (resources pool) ! fst u ! snd u) < length (map rd_x (resources pool))"
    using assms unfolding pool_ok_def units_ok_def by blast+
  then show "0 < rt_oplat (template pool u)" "rt_master (template pool u) < length (resources pool)"
    by (simp_all add: template_def)
qed

lemma set_busy_frame:
  "res_table (set_busy i n pool) = res_table pool" "map rd_x (resources (set_busy i n pool)) = map rd_x (resources pool)"
proof -
  show "res_table (set_busy i n pool) = res_table pool" by (simp add: set_busy_def)
  have "(map rd_x (resources pool))[i := rd_x (resources pool ! i)] = map rd_x (resources pool)"
    by (metis list_update_id map_update)
  then show "map rd_x (resources (set_busy i n pool)) = map rd_x (resources pool)"
    by (simp add: set_busy_def map_update)
qed

lemma reserve_ok:
  assumes "master_busy (fu_pool s) u = 0"
  shows "\<exists>p. reserve_fu u s = Some (s\<lparr>fu_pool := p\<rparr>) \<and> res_table p = res_table (fu_pool s)
    \<and> map rd_x (resources p) = map rd_x (resources (fu_pool s))"
  using assms by (intro exI [of _ "set_busy (rt_master (template (fu_pool s) u)) (rt_issuelat (template (fu_pool s) u)) (fu_pool s)"])
    (simp add: reserve_fu_def set_busy_frame)

lemma data_access_frame: "\<exists>c. snd (data_access port cmd a s) = s\<lparr>caches := c\<rparr>"
proof (cases port)
  case None
  have "s = s\<lparr>caches := caches s\<rparr>" by simp
  then show ?thesis unfolding data_access_def None by (metis option.case(1) snd_conv)
next
  case (Some f)
  then show ?thesis by (auto simp: data_access_def split: prod.splits)
qed

text \<open>Stores need a write port.\<close>

lemma rows_ok:
  "list_all (\<lambda>d. di_flags d AND (F_MEM OR F_STORE) = F_MEM OR F_STORE \<longrightarrow> di_res d \<noteq> FUClass_NA) pisa_def"
  by code_simp

lemma definst_of_row: "definst_of tab op = Some d \<Longrightarrow> d \<in> set tab"
  by (auto simp: definst_of_def split: if_splits)

lemma store_unit: "is_store op \<Longrightarrow> MD_OP_FUCLASS op \<noteq> FUClass_NA"
  using rows_ok definst_of_row [of pisa_def op]
  by (auto simp: is_store_def MD_OP_FLAGS_def MD_OP_FUCLASS_def list_all_iff flag_defs split: option.splits)

section \<open>Retiring\<close>

definition retired :: "ruu_station \<Rightarrow> ruu_station" where
  "retired r = r\<lparr>rs_tag := rs_tag r + 1\<rparr>"

lemma retired_frame [simp]: "fixed (retired r) = fixed r" "onames (retired r) = onames r" "completed (retired r) = completed r"
  "odep_list (retired r) = odep_list r"
  by (simp_all add: retired_def)

lemma retire_ok:
  assumes "core s L [] (odeps (stn s)) {} {} {}" "stns_ok (stn s) L" "completed (stn s p)"
  shows "core (s\<lparr>stn := (stn s)(p := retired (stn s p))\<rparr>) (L - {p}) [] (odeps ((stn s)(p := retired (stn s p)))) {} {} {}"
    "stns_ok ((stn s)(p := retired (stn s p))) (L - {p})" "odep_list (stn s p) = [[], []]"
proof -
  have c: "deps_ok (stn s) L (odeps (stn s)) {} {}" "cv_ok (stn s) L {} False (\<lambda>_. True) (create_vector s)"
    "cv_ok (stn s) L {} True (use_spec_cv s) (spec_create_vector s)"
    using assms(1) by (simp_all add: core_def)
  have o: "odeps (stn s) p j = []" for j using deps_okD(5) [OF c(1), of p j] assms(3) by blast
  have sh: "stn_shape (stn s p)" using assms(2) by (simp add: stns_ok_def)
  then have "length (odep_list (stn s p)) = 2" by (simp add: stn_shape_def)
  then obtain a b where ab: "odep_list (stn s p) = [a, b]" by (auto simp: length_Suc_conv numeral_2_eq_2)
  then show "odep_list (stn s p) = [[], []]" using o [of 0] o [of 1] by (simp add: odeps_def)
  have "odeps ((stn s)(p := retired (stn s p))) p j = []" for j using o [of j] by (simp add: odeps_def split: if_splits)
  moreover have "create_vector s i \<noteq> Some (p, j)" for i j using c(2) assms(3) unfolding cv_ok_def by blast
  moreover have "use_spec_cv s i \<Longrightarrow> spec_create_vector s i \<noteq> Some (p, j)" for i j using c(3) assms(3) unfolding cv_ok_def by blast
  ultimately show "core (s\<lparr>stn := (stn s)(p := retired (stn s p))\<rparr>) (L - {p}) [] (odeps ((stn s)(p := retired (stn s p)))) {} {} {}"
    by (intro leave_core assms(1)) (simp_all add: o retired_def)
  show "stns_ok ((stn s)(p := retired (stn s p))) (L - {p})"
    by (rule stns_ok_leave [OF assms(2)]) (use sh in \<open>simp add: stn_shape_def retired_def\<close>)
qed

text \<open>The head of the RUU is on the right path, and what leaves with it leaves the paths in order.\<close>

lemma path_Cons:
  "prec st (x # R) = (if rs_spec (st x) then prec st R else x # prec st R)"
  "wrong st (x # R) = (if rs_spec (st x) then x # wrong st R else wrong st R)"
  "eas st (x # R) = (if ea_comp (st x) then Suc (eas st R) else eas st R)" "eas st [] = 0"
  by (simp_all add: prec_def wrong_def eas_def)

lemma head_prec:
  assumes "split_ok st (x # R) Q" "branch_ok st m (x # R)"
  shows "\<not> rs_spec (st x)"
proof
  assume s: "rs_spec (st x)"
  have "x # R = prec st (x # R) @ wrong st (x # R)" using assms(1) by (simp add: split_ok_def)
  moreover have "x \<notin> set (prec st (x # R))" using s by (simp add: prec_def)
  ultimately have "prec st (x # R) = []" by (cases "prec st (x # R)") auto
  moreover have "wrong st (x # R) \<noteq> []" using s by (simp add: path_Cons)
  ultimately show False using assms(2) unfolding branch_ok_def by blast
qed

lemma pop_branch:
  assumes "branch_ok st m (x # R)" "\<not> rs_spec (st x)" "completed (st x)"
  shows "branch_ok st m R"
  using assms unfolding branch_ok_def by (cases "prec st R = []") (auto simp: path_Cons)

lemma pop_op:
  assumes "split_ok st (x # R) Q" "\<not> rs_spec (st x)" "\<not> ea_comp (st x)"
  shows "split_ok st R Q"
  using assms by (simp add: split_ok_def path_Cons)

lemma pop_mem:
  assumes "split_ok st (x # R) Q" "\<not> rs_spec (st x)" "ea_comp (st x)"
  obtains y Q' where "Q = y # Q'" "split_ok st R Q'"
proof -
  have Q: "Q = prec st Q @ wrong st Q" "Suc (eas st (prec st R)) = length (prec st Q)"
    using assms by (simp_all add: split_ok_def path_Cons)
  then obtain y C where "prec st Q = y # C" by (cases "prec st Q") auto
  then have y: "Q = y # C @ wrong st Q" "\<not> rs_spec (st y)"
    using Q(1) path_sets(1) [of y st Q] by (metis append_Cons, metis list.set_intros(1))
  define Q' where "Q' = C @ wrong st Q"
  have "Q = y # Q'" using y(1) by (simp add: Q'_def)
  moreover from this have "split_ok st R Q'" using assms y(2) by (simp add: split_ok_def path_Cons)
  ultimately show ?thesis by (rule that)
qed

section \<open>The commit stage\<close>

lemma retire_eq: "\<exists>n. retire p s = s\<lparr>stn := (stn s)(p := retired (stn s p)), sim_slip := n\<rparr>"
  by (auto simp: retire_def upd_stn_def Let_def retired_def)

lemma ring_tail: "(h + Suc n) mod m = ((h + 1) mod m + n) mod (m :: nat)"
  by (simp add: mod_add_left_eq)

lemma pop_rest:
  assumes "rest_ok cfg s" "ruu_entries cfg s = p # ruu_entries cfg s'" "set (lsq_entries cfg s') \<subseteq> set (lsq_entries cfg s)"
    "split_ok (stn s) (ruu_entries cfg s') (lsq_entries cfg s')" "completed (stn s p)"
    "\<And>x. fixed (stn s' x) = fixed (stn s x)" "\<And>x. onames (stn s' x) = onames (stn s x)"
    "\<And>x. completed (stn s' x) = completed (stn s x)" "pred_ok (s\<lparr>pred := pred s'\<rparr>) (live cfg s)" "pool_ok (fu_pool s')"
    "spec_mode s' = spec_mode s" "rings_ok cfg s'" "fetch_data s' = fetch_data s" "fetch_ok cfg s' = fetch_ok cfg s"
  shows "rest_ok cfg s'"
proof -
  note r = assms(1) [unfolded rest_ok_def]
  have sub: "live cfg s' \<subseteq> live cfg s" using assms(2,3) by (auto simp: live_def)
  have "\<not> rs_spec (stn s p)" using r assms(2) head_prec by metis
  then have "branch_ok (stn s) (spec_mode s) (ruu_entries cfg s')" using r assms(2,5) pop_branch by metis
  then have "branch_ok (stn s') (spec_mode s') (ruu_entries cfg s')"
    using branch_frame [of "stn s'" "stn s", OF assms(6,8)] assms(11) by simp
  moreover have "stores_ok (stn s') (live cfg s')" using r
    by (intro stores_frame [where st = "stn s" and st' = "stn s'", OF _ sub assms(6,7)]) blast
  moreover have "pred_ok s' (live cfg s')" using pred_frame [OF assms(9) sub, of s'] assms(6,13) by simp
  moreover have "fetch_ok cfg s'" using r assms(14) by simp
  ultimately show ?thesis using assms(4,10,12) path_frame(4) [of "stn s'" "stn s", OF assms(6)] by (simp add: rest_ok_def)
qed

lemma commit_store_ok:
  assumes "pool_ok (fu_pool s)" "is_store (rs_op rs)"
  shows "commit_store cfg rs s = Some (False, s) \<or>
    (\<exists>p c. commit_store cfg rs s = Some (True, s\<lparr>fu_pool := p, caches := c\<rparr>) \<and> pool_ok p)"
proof -
  obtain r where r: "res_get (fu_pool s) (MD_OP_FUCLASS (rs_op rs)) = Some r"
    "\<And>u. r = Some u \<Longrightarrow> master_busy (fu_pool s) u = 0"
    using res_get_ok [OF assms(1) store_unit [OF assms(2)]] by blast
  show ?thesis
  proof (cases r)
    case None
    then show ?thesis using r(1) by (simp add: commit_store_def)
  next
    case (Some u)
    obtain p where p: "reserve_fu u s = Some (s\<lparr>fu_pool := p\<rparr>)" "res_table p = res_table (fu_pool s)"
      "map rd_x (resources p) = map rd_x (resources (fu_pool s))"
      using reserve_ok r(2) [OF Some] by blast
    let ?a = "rs_addr rs AND NOT 3"
    obtain c where c: "snd (data_access (cache_dl1 cfg) Write ?a (s\<lparr>fu_pool := p\<rparr>)) = s\<lparr>fu_pool := p, caches := c\<rparr>"
      using data_access_frame [of "cache_dl1 cfg" Write ?a "s\<lparr>fu_pool := p\<rparr>"] by auto
    obtain d where d: "snd (data_access (dtlb cfg) Read ?a (s\<lparr>fu_pool := p, caches := c\<rparr>)) = s\<lparr>fu_pool := p, caches := d\<rparr>"
      using data_access_frame [of "dtlb cfg" Read ?a "s\<lparr>fu_pool := p, caches := c\<rparr>"] by auto
    have "pool_ok p" using assms(1) p(2,3) by (simp add: pool_ok_def)
    then show ?thesis using r(1) Some p(1) c d
      by (intro disjI2 exI [of _ p] exI [of _ d]) (simp add: commit_store_def)
  qed
qed

text \<open>One turn for an instruction without a memory access, and one for a load or store.\<close>

lemma live_leave:
  assumes "rings_ok cfg s" "ruu_entries cfg s = p # R"
  shows "live cfg s - {p} = set R \<union> set (lsq_entries cfg s)"
    "lsq_entries cfg s = y # Q \<Longrightarrow> live cfg s - {y} - {p} = set R \<union> set Q"
proof -
  have d: "distinct (p # R)" "distinct (lsq_entries cfg s)"
    unfolding assms(2) [symmetric] ruu_entries_def lsq_entries_ring
    using assms(1) by (auto intro!: ring_distinct station_kinds simp: rings_ok_def)
  have k: "\<not> is_lsq x" if "x \<in> set (p # R)" for x
    using that unfolding assms(2) [symmetric] ruu_entries_def by (rule station_kinds(3))
  have q: "is_lsq x" if "x \<in> set (lsq_entries cfg s)" for x
    using that unfolding lsq_entries_ring by (rule station_kinds(4))
  show "live cfg s - {p} = set R \<union> set (lsq_entries cfg s)" using d k q by (auto simp: live_def assms(2))
  show "lsq_entries cfg s = y # Q \<Longrightarrow> live cfg s - {y} - {p} = set R \<union> set Q"
    using d k q by (auto simp: live_def assms(2))
qed

lemma commit_op_ok:
  assumes "ooo_inv cfg s" "RUU_num s = Suc k" "completed (stn s (Ruu (RUU_head s)))" "\<not> ea_comp (stn s (Ruu (RUU_head s)))"
  shows "\<exists>s'. commit_loop cfg (Suc n) s = commit_loop cfg n s' \<and> ooo_inv cfg s' \<and> rslinks s' = rslinks s"
proof -
  let ?p = "Ruu (RUU_head s)"
  have inv: "core s (live cfg s) [] (odeps (stn s)) {} {} {}" "stns_ok (stn s) (live cfg s)" "rest_ok cfg s"
    using assms(1) by (simp_all add: ooo_inv_def)
  note r = inv(3) [unfolded rest_ok_def]
  have rg: "rings_ok cfg s" using r by blast
  let ?R = "ring Ruu (RUU_size cfg) ((RUU_head s + 1) mod RUU_size cfg) k"
  have R: "ruu_entries cfg s = ?p # ?R"
    unfolding ruu_entries_def assms(2) using rg by (intro ring_Cons) (simp add: rings_ok_def)
  have pl: "?p \<in> live cfg s" by (simp add: live_def R)
  obtain x where x: "update_pred_at cfg spec_CT (stn s ?p) s = Some (s\<lparr>pred := x\<rparr>)" "pred_ok (s\<lparr>pred := x\<rparr>) (live cfg s)"
    using update_pred_at_ok [OF _ pl] r by blast
  obtain m where m: "retire ?p (s\<lparr>pred := x\<rparr>) = s\<lparr>pred := x, stn := (stn s)(?p := retired (stn s ?p)), sim_slip := m\<rparr>"
    using retire_eq [of ?p "s\<lparr>pred := x\<rparr>"] by auto
  let ?s = "s\<lparr>pred := x, stn := (stn s)(?p := retired (stn s ?p)), sim_slip := m,
      RUU_head := (RUU_head s + 1) mod RUU_size cfg, RUU_num := k\<rparr>"
  note ret = retire_ok [OF inv(1,2) assms(3)]
  have "commit_loop cfg (Suc n) s = commit_loop cfg n ?s"
    using assms(2-4) x(1) m ret(3) by (simp add: Let_def)
  moreover have en: "ruu_entries cfg ?s = ?R" "lsq_entries cfg ?s = lsq_entries cfg s"
    by (simp_all add: ruu_entries_def lsq_entries_def)
  then have lv: "live cfg ?s = live cfg s - {?p}" using live_leave(1) [OF rg R] by (simp only: live_def)
  have "core ?s (live cfg ?s) [] (odeps (stn ?s)) {} {} {}" unfolding lv using ret(1) by (simp add: core_def)
  moreover have "stns_ok (stn ?s) (live cfg ?s)" unfolding lv using ret(2) by simp
  moreover have "rest_ok cfg ?s"
  proof (rule pop_rest [OF inv(3)])
    show "ruu_entries cfg s = ?p # ruu_entries cfg ?s" unfolding en R ..
    show "split_ok (stn s) (ruu_entries cfg ?s) (lsq_entries cfg ?s)"
      unfolding en using r assms(4) R head_prec pop_op by metis
    show "rings_ok cfg ?s" using rg assms(2) ring_tail [of "RUU_head s" k "RUU_size cfg"] by (auto simp: rings_ok_def)
    show "set (lsq_entries cfg ?s) \<subseteq> set (lsq_entries cfg s)" unfolding en ..
  qed (use x(2) assms(3) r in \<open>simp_all add: fetch_ok_def\<close>)
  ultimately show ?thesis by (intro exI [of _ ?s]) (simp add: ooo_inv_def)
qed

lemma commit_mem_eq:
  assumes "LSQ_num s = Suc h" "in_LSQ (stn s (Lsq (LSQ_head s)))" "pool_ok (fu_pool s)"
  shows "commit_mem cfg s = Some (False, s) \<or>
    completed (stn s (Lsq (LSQ_head s))) \<and> (\<exists>p c m. pool_ok p \<and> commit_mem cfg s = Some (True,
      s\<lparr>fu_pool := p, caches := c, stn := (stn s)(Lsq (LSQ_head s) := retired (stn s (Lsq (LSQ_head s)))), sim_slip := m,
        LSQ_head := (LSQ_head s + 1) mod LSQ_size cfg, LSQ_num := h\<rparr>))"
proof (cases "completed (stn s (Lsq (LSQ_head s)))")
  case False
  then show ?thesis using assms(1,2) by (simp add: commit_mem_def Let_def)
next
  case True
  let ?y = "Lsq (LSQ_head s)"
  have "(if is_store (rs_op (stn s ?y)) then commit_store cfg (stn s ?y) s else Some (True, s)) = Some (False, s)
    \<or> (\<exists>p c. (if is_store (rs_op (stn s ?y)) then commit_store cfg (stn s ?y) s else Some (True, s))
        = Some (True, s\<lparr>fu_pool := p, caches := c\<rparr>) \<and> pool_ok p)"
  proof (cases "is_store (rs_op (stn s ?y))")
    case True
    then show ?thesis using commit_store_ok [OF assms(3) True, of cfg] by simp
  next
    case False
    have "s = s\<lparr>fu_pool := fu_pool s, caches := caches s\<rparr>" by simp
    then show ?thesis unfolding if_not_P [OF False] using assms(3) by blast
  qed
  then consider (stop) "(if is_store (rs_op (stn s ?y)) then commit_store cfg (stn s ?y) s else Some (True, s)) = Some (False, s)"
    | (go) p c where "(if is_store (rs_op (stn s ?y)) then commit_store cfg (stn s ?y) s else Some (True, s))
        = Some (True, s\<lparr>fu_pool := p, caches := c\<rparr>)" "pool_ok p"
    by blast
  then show ?thesis
  proof cases
    case stop
    then show ?thesis using assms(1,2) True unfolding commit_mem_def Let_def by simp
  next
    case go
    obtain m where "retire ?y (s\<lparr>fu_pool := p, caches := c\<rparr>)
        = s\<lparr>fu_pool := p, caches := c, stn := (stn s)(?y := retired (stn s ?y)), sim_slip := m\<rparr>"
      using retire_eq [of ?y "s\<lparr>fu_pool := p, caches := c\<rparr>"] by auto
    then show ?thesis using assms(1,2) True go
      by (intro disjI2 conjI exI [of _ p] exI [of _ c] exI [of _ m]) (simp_all add: commit_mem_def Let_def)
  qed
qed

lemma commit_mem_ok:
  assumes "ooo_inv cfg s" "RUU_num s = Suc k" "completed (stn s (Ruu (RUU_head s)))" "ea_comp (stn s (Ruu (RUU_head s)))"
  shows "commit_loop cfg (Suc n) s = Some s \<or>
    (\<exists>s'. commit_loop cfg (Suc n) s = commit_loop cfg n s' \<and> ooo_inv cfg s' \<and> rslinks s' = rslinks s)"
proof -
  let ?p = "Ruu (RUU_head s)" and ?y = "Lsq (LSQ_head s)"
  have inv: "core s (live cfg s) [] (odeps (stn s)) {} {} {}" "stns_ok (stn s) (live cfg s)" "rest_ok cfg s"
    using assms(1) by (simp_all add: ooo_inv_def)
  note r = inv(3) [unfolded rest_ok_def]
  have rg: "rings_ok cfg s" and pool: "pool_ok (fu_pool s)" using r by blast+
  let ?R = "ring Ruu (RUU_size cfg) ((RUU_head s + 1) mod RUU_size cfg) k"
  have R: "ruu_entries cfg s = ?p # ?R"
    unfolding ruu_entries_def assms(2) using rg by (intro ring_Cons) (simp add: rings_ok_def)
  have "\<not> rs_spec (stn s ?p)" using r R head_prec by metis
  then obtain y Q where yQ: "lsq_entries cfg s = y # Q" "split_ok (stn s) ?R Q"
    using pop_mem [of "stn s" ?p ?R "lsq_entries cfg s"] r assms(4) R by metis
  have "LSQ_num s \<noteq> 0" using arg_cong [OF yQ(1), of length] by (simp add: lsq_entries_ring)
  then obtain h where h: "LSQ_num s = Suc h" by (cases "LSQ_num s") simp_all
  let ?Q = "ring Lsq (LSQ_size cfg) ((LSQ_head s + 1) mod LSQ_size cfg) h"
  have "lsq_entries cfg s = ?y # ?Q"
    unfolding lsq_entries_ring h using rg by (intro ring_Cons) (simp add: rings_ok_def)
  then have Q: "lsq_entries cfg s = ?y # ?Q" "y = ?y" "Q = ?Q" using yQ(1) by simp_all
  have pl: "?p \<in> live cfg s" "?y \<in> live cfg s" by (simp_all add: live_def R Q(1))
  then have "in_LSQ (stn s ?y)" using inv(2) by (simp add: stns_ok_def stn_ok_def is_lsq_def)
  note cm = commit_mem_eq [OF h this pool, of cfg]
  show ?thesis
  proof (cases "commit_mem cfg s = Some (False, s)")
    case True
    then show ?thesis using assms(2-4) by (simp add: Let_def)
  next
    case not_cm: False
    obtain u c m where u: "completed (stn s ?y)" "pool_ok u" "commit_mem cfg s = Some (True,
      s\<lparr>fu_pool := u, caches := c, stn := (stn s)(?y := retired (stn s ?y)), sim_slip := m,
        LSQ_head := (LSQ_head s + 1) mod LSQ_size cfg, LSQ_num := h\<rparr>)"
      using cm not_cm by blast
    let ?t = "s\<lparr>fu_pool := u, caches := c, stn := (stn s)(?y := retired (stn s ?y)), sim_slip := m,
        LSQ_head := (LSQ_head s + 1) mod LSQ_size cfg, LSQ_num := h\<rparr>"
    have p0: "pred_ok s (live cfg s)" using r by blast
    have "pred_ok ?t (live cfg s)" by (rule pred_frame [OF p0 subset_refl]) simp_all
    then obtain x where x: "update_pred_at cfg spec_CT (stn ?t ?p) ?t = Some (?t\<lparr>pred := x\<rparr>)" "pred_ok (?t\<lparr>pred := x\<rparr>) (live cfg s)"
      using update_pred_at_ok [OF _ pl(1)] by blast
    obtain m' where m': "retire ?p (?t\<lparr>pred := x\<rparr>)
        = ?t\<lparr>pred := x, stn := (stn s)(?y := retired (stn s ?y), ?p := retired (stn s ?p)), sim_slip := m'\<rparr>"
      using retire_eq [of ?p "?t\<lparr>pred := x\<rparr>"] by auto
    let ?s = "?t\<lparr>pred := x, stn := (stn s)(?y := retired (stn s ?y), ?p := retired (stn s ?p)), sim_slip := m',
      RUU_head := (RUU_head s + 1) mod RUU_size cfg, RUU_num := k\<rparr>"
    note r1 = retire_ok [OF inv(1,2) u(1)]
    have r1': "core ?t (live cfg s - {?y}) [] (odeps (stn ?t)) {} {} {}" "stns_ok (stn ?t) (live cfg s - {?y})"
      "completed (stn ?t ?p)"
      using r1(1,2) assms(3) by (simp_all add: core_def)
    note r2 = retire_ok [OF r1']
    have ne: "?p \<noteq> ?y" by simp
    have "commit_loop cfg (Suc n) s = commit_loop cfg n ?s"
      using assms(2-4) x(1) m' r2(3) u(3) by (simp add: Let_def)
    moreover have en: "ruu_entries cfg ?s = ?R" "lsq_entries cfg ?s = ?Q"
      by (simp_all add: ruu_entries_def lsq_entries_ring)
    then have lv: "live cfg ?s = live cfg s - {?y} - {?p}" using live_leave(2) [OF rg R Q(1)] by (simp only: live_def)
    have "core ?s (live cfg ?s) [] (odeps (stn ?s)) {} {} {}" unfolding lv using r2(1) by (simp add: core_def)
    moreover have "stns_ok (stn ?s) (live cfg ?s)" unfolding lv using r2(2) by simp
    moreover have "rest_ok cfg ?s"
    proof (rule pop_rest [OF inv(3)])
      show "ruu_entries cfg s = ?p # ruu_entries cfg ?s" unfolding en R ..
      show "split_ok (stn s) (ruu_entries cfg ?s) (lsq_entries cfg ?s)" unfolding en using yQ(2) Q(3) by simp
      show "rings_ok cfg ?s"
        using rg assms(2) h ring_tail [of "RUU_head s" k "RUU_size cfg"] ring_tail [of "LSQ_head s" h "LSQ_size cfg"]
        by (auto simp: rings_ok_def)
      show "set (lsq_entries cfg ?s) \<subseteq> set (lsq_entries cfg s)" unfolding en Q(1) by auto
      show "pred_ok (s\<lparr>pred := pred ?s\<rparr>) (live cfg s)"
        by (rule pred_frame [OF x(2) subset_refl]) simp_all
      show "fixed (stn ?s z) = fixed (stn s z)" "onames (stn ?s z) = onames (stn s z)"
        "completed (stn ?s z) = completed (stn s z)" for z by simp_all
      show "fetch_ok cfg ?s = fetch_ok cfg s" by (simp add: fetch_ok_def)
      show "completed (stn s ?p)" by (rule assms(3))
      show "pool_ok (fu_pool ?s)" using u(2) by simp
    qed simp_all
    ultimately show ?thesis by (intro disjI2 exI [of _ ?s]) (simp add: ooo_inv_def)
  qed
qed

lemma commit_loop_ok:
  assumes "ooo_inv cfg s"
  shows "\<exists>s'. commit_loop cfg n s = Some s' \<and> ooo_inv cfg s' \<and> rslinks s' = rslinks s"
  using assms
proof (induction n arbitrary: s)
  case 0
  then show ?case by simp
next
  case (Suc n)
  show ?case
  proof (cases "RUU_num s = 0 \<or> \<not> completed (stn s (Ruu (RUU_head s)))")
    case True
    then show ?thesis using Suc.prems by (auto simp: Let_def)
  next
    case False
    then obtain k where k: "RUU_num s = Suc k" "completed (stn s (Ruu (RUU_head s)))" by (cases "RUU_num s") auto
    show ?thesis
    proof (cases "ea_comp (stn s (Ruu (RUU_head s)))")
      case True
      show ?thesis using commit_mem_ok [OF Suc.prems k True, of n] Suc.IH Suc.prems by metis
    next
      case False
      show ?thesis using commit_op_ok [OF Suc.prems k False, of n] Suc.IH by metis
    qed
  qed
qed

lemma ruu_commit_ok:
  "ooo_inv cfg s \<Longrightarrow> \<exists>s'. ruu_commit cfg s = Some s' \<and> ooo_inv cfg s' \<and> rslinks s' = rslinks s"
  unfolding ruu_commit_def by (rule commit_loop_ok)

lemma release_fu_ok:
  assumes "ooo_inv cfg s"
  shows "ooo_inv cfg (ruu_release_fu s)" "rslinks (ruu_release_fu s) = rslinks s"
proof -
  have "map rd_x (resources (release_units (fu_pool s))) = map rd_x (resources (fu_pool s))"
    "res_table (release_units (fu_pool s)) = res_table (fu_pool s)"
    by (simp_all add: release_units_def o_def)
  then have "quiet (ruu_release_fu s) s" by (simp add: quiet_def same_rest_def same_fixed_def ruu_release_fu_def)
  then have "rest_ok cfg (ruu_release_fu s)" using quiet_rest assms by (metis ooo_inv_def)
  moreover have "live cfg (ruu_release_fu s) = live cfg s"
    by (simp add: live_def ruu_entries_def lsq_entries_def ruu_release_fu_def)
  ultimately show "ooo_inv cfg (ruu_release_fu s)" using assms by (simp add: ooo_inv_def ruu_release_fu_def)
qed (simp add: ruu_release_fu_def)

end
