(* ===== verification/Ooo_Issue.thy ===== *)
theory Ooo_Issue
  imports Ooo_Commit
begin

text \<open>
  Memory dependences and the issue stage keep the invariant, with enough free links.
\<close>

section \<open>Queueing\<close>

text \<open>The state while the old ready list \<open>ls\<close> is worked on.\<close>

definition issuing :: "('c, 'm) ooo_cfg \<Rightarrow> rs_link list \<Rightarrow> ('c, 'm) ooo_t \<Rightarrow> bool" where
  "issuing cfg ls s \<longleftrightarrow> core s (live cfg s) ls (odeps (stn s)) {} {} {} \<and> stns_ok (stn s) (live cfg s) \<and> rest_ok cfg s"

lemma issuing_Nil: "issuing cfg [] s = ooo_inv cfg s"
  by (simp add: issuing_def ooo_inv_def)

lemma enqueue_issuing:
  assumes "issuing cfg ls s" "rslinks s \<noteq> 0" "p \<in> live cfg s" "\<not> queued (stn s p)" "OPERANDS_READY (stn s p)"
    "\<not> issued (stn s p)" "\<not> completed (stn s p)"
  shows "\<exists>s'. readyq_enqueue p s = Some s' \<and> issuing cfg ls s' \<and> rslinks s' = rslinks s - 1 \<and> live cfg s' = live cfg s"
proof -
  have inv: "core s (live cfg s) ls (odeps (stn s)) {} {} {}" "stns_ok (stn s) (live cfg s)" "rest_ok cfg s"
    using assms(1) by (simp_all add: issuing_def)
  obtain s' where s': "readyq_enqueue p s = Some s'" "core s' (live cfg s) ls (odeps (stn s)) {} {} {}"
    "stns_ok (stn s') (live cfg s)" "rslinks s' = rslinks s - 1" "same_rest s' s" "same_fixed s' s"
    "\<And>x. stn s' x = (if x = p then (stn s p)\<lparr>queued := True\<rparr> else stn s x)"
    using enqueue_ok [OF inv(1,2) assms(2-7)] by blast
  have "odeps (stn s') = odeps (stn s)" by (simp add: odeps_def fun_eq_iff s'(7))
  moreover have "quiet s' s" using s'(5,6) by (simp add: quiet_def s'(7))
  then have "rest_ok cfg s'" using quiet_rest inv(3) by blast
  moreover have "live cfg s' = live cfg s" by (rule rest_entries(3) [OF s'(5)])
  ultimately show ?thesis using s'(1-4) by (simp add: issuing_def)
qed

lemmas enqueue_inv = enqueue_issuing [where ls = "[]", unfolded issuing_Nil]

section \<open>Memory dependences\<close>

lemma refresh_loop_ok:
  assumes "ooo_inv cfg s" "set ps \<subseteq> live cfg s" "length unk + length ps \<le> MAX_STD_UNKNOWNS" "length ps \<le> rslinks s"
  shows "\<exists>s'. refresh_loop ps unk s = Some s' \<and> ooo_inv cfg s' \<and> rslinks s - length ps \<le> rslinks s'"
  using assms
proof (induction ps arbitrary: unk s)
  case Nil
  then show ?case by simp
next
  case (Cons p ps)
  let ?rs = "stn s p"
  show ?case
  proof (cases "is_store (rs_op ?rs) \<and> \<not> STORE_ADDR_READY ?rs")
    case True
    then show ?thesis using Cons.prems(1) by (auto simp: Let_def)
  next
    case False
    have "\<exists>unk1. (if is_store (rs_op ?rs) then
                   if \<not> OPERANDS_READY ?rs then
                     if length unk = MAX_STD_UNKNOWNS then None else Some (unk @ [rs_addr ?rs])
                   else Some (map (\<lambda>a. if a = rs_addr ?rs then 0 else a) unk)
                 else Some unk) = Some unk1 \<and> length unk1 \<le> Suc (length unk)"
      using Cons.prems(3) by auto
    then obtain unk1 where unk1: "(if is_store (rs_op ?rs) then
                   if \<not> OPERANDS_READY ?rs then
                     if length unk = MAX_STD_UNKNOWNS then None else Some (unk @ [rs_addr ?rs])
                   else Some (map (\<lambda>a. if a = rs_addr ?rs then 0 else a) unk)
                 else Some unk) = Some unk1" "length unk1 \<le> Suc (length unk)"
      by blast
    let ?c = "is_load (rs_op ?rs) \<and> \<not> queued ?rs \<and> \<not> issued ?rs \<and> \<not> completed ?rs \<and> OPERANDS_READY ?rs
        \<and> rs_addr ?rs \<notin> set unk1"
    have "\<exists>t. (if ?c then readyq_enqueue p s else Some s) = Some t \<and> ooo_inv cfg t \<and> rslinks s \<le> Suc (rslinks t)
        \<and> live cfg t = live cfg s"
    proof (cases ?c)
      case True
      have n: "rslinks s \<noteq> 0" "p \<in> live cfg s" using Cons.prems(2,4) by auto
      then obtain t where "readyq_enqueue p s = Some t" "ooo_inv cfg t" "rslinks t = rslinks s - 1" "live cfg t = live cfg s"
        using enqueue_inv [OF Cons.prems(1) n] True by blast
      then show ?thesis unfolding if_P [OF True] by auto
    next
      case False
      then show ?thesis using Cons.prems(1) by auto
    qed
    then obtain t where t: "(if ?c then readyq_enqueue p s else Some s) = Some t" "ooo_inv cfg t"
      "rslinks s \<le> Suc (rslinks t)" "live cfg t = live cfg s"
      by blast
    have eq: "refresh_loop (p # ps) unk s = refresh_loop ps unk1 t"
      unfolding refresh_loop.simps Let_def if_not_P [OF False] unk1(1) Option.bind.simps t(1) ..
    obtain s' where s': "refresh_loop ps unk1 t = Some s'" "ooo_inv cfg s'" "rslinks t - length ps \<le> rslinks s'"
      using Cons.IH [OF t(2), of unk1] Cons.prems(2-4) t(3,4) unk1(2) by auto
    have "rslinks s - length (p # ps) \<le> rslinks s'" using s'(3) t(3) by simp
    then show ?thesis unfolding eq using s'(1,2) by blast
  qed
qed

lemma lsq_refresh_ok:
  assumes "ooo_inv cfg s" "LSQ_size cfg \<le> MAX_STD_UNKNOWNS" "LSQ_size cfg \<le> rslinks s"
  shows "\<exists>s'. lsq_refresh cfg s = Some s' \<and> ooo_inv cfg s' \<and> rslinks s - LSQ_size cfg \<le> rslinks s'"
proof -
  have "rings_ok cfg s" using assms(1) by (simp add: ooo_inv_def rest_ok_def)
  then have l: "length (lsq_entries cfg s) \<le> LSQ_size cfg" by (simp add: lsq_entries_ring rings_ok_def)
  moreover have "set (lsq_entries cfg s) \<subseteq> live cfg s" by (simp add: live_def)
  ultimately obtain s' where "refresh_loop (lsq_entries cfg s) [] s = Some s'" "ooo_inv cfg s'"
    "rslinks s - length (lsq_entries cfg s) \<le> rslinks s'"
    using refresh_loop_ok [OF assms(1), of "lsq_entries cfg s" "[]"] assms(2,3) by auto
  then show ?thesis using l by (auto simp: lsq_refresh_def)
qed

section \<open>Latencies\<close>

text \<open>An access to the data cache takes at least a cycle.\<close>

definition latency_ok :: "('c, 'm) ooo_cfg \<Rightarrow> bool" where
  "latency_ok cfg \<longleftrightarrow> (\<forall>f c cmd a t. cache_dl1 cfg = Some f \<longrightarrow> 0 < fst (f c cmd a t))"

lemma data_access_cases:
  obtains (none) "port = None" "data_access port cmd a s = (None, s)"
  | (some) f c where "port = Some f" "data_access port cmd a s = (Some (fst (f (caches s) cmd a (sim_cycle s))), s\<lparr>caches := c\<rparr>)"
proof (cases port)
  case None
  then show ?thesis using none by (simp add: data_access_def)
next
  case (Some f)
  then show ?thesis using some [of f "snd (f (caches s) cmd a (sim_cycle s))"] by (simp add: data_access_def case_prod_beta)
qed

lemma load_latency_ok:
  assumes "latency_ok cfg" "0 < oplat"
  shows "\<exists>lat i c. load_latency cfg p oplat s = (lat, s\<lparr>sim_invalid_addrs := i, caches := c\<rparr>) \<and> 0 < lat"
proof -
  let ?addr = "rs_addr (stn s p)"
  let ?ok = "MD_VALID_ADDR cfg ?addr"
  let ?fwd = "case p of Lsq i \<Rightarrow> lsq_forwards cfg i s | Ruu _ \<Rightarrow> False"
  let ?s0 = "if \<not> spec_mode s \<and> \<not> ?ok then s\<lparr>sim_invalid_addrs := sim_invalid_addrs s + 1\<rparr> else s"
  let ?first = "if ?fwd then (1, s)
             else if ?ok then (case data_access (cache_dl1 cfg) Read (?addr AND NOT 3) ?s0 of
                    (None, s') \<Rightarrow> (oplat, s') | (Some lat, s') \<Rightarrow> (lat, s'))
                  else (oplat, ?s0)"
  have idem: "s = s\<lparr>sim_invalid_addrs := sim_invalid_addrs s, caches := caches s\<rparr>" by simp
  have "\<exists>i0. ?s0 = s\<lparr>sim_invalid_addrs := i0, caches := caches s\<rparr>"
  proof (cases "\<not> spec_mode s \<and> \<not> ?ok")
    case True
    then show ?thesis by (intro exI [of _ "sim_invalid_addrs s + 1"]) simp
  next
    case False
    then show ?thesis unfolding if_not_P [OF False] using idem by blast
  qed
  then obtain i0 where s0: "?s0 = s\<lparr>sim_invalid_addrs := i0, caches := caches s\<rparr>" by blast
  have "\<exists>lat i c. ?first = (lat, s\<lparr>sim_invalid_addrs := i, caches := c\<rparr>) \<and> 0 < lat"
  proof (cases ?fwd)
    case True
    show ?thesis unfolding if_P [OF True] by (intro exI conjI) (rule arg_cong [OF idem, of "Pair 1"], simp)
  next
    case nf: False
    show ?thesis
    proof (cases ?ok)
      case False
      show ?thesis unfolding if_not_P [OF nf] if_not_P [OF False] 
        by (intro exI conjI) (rule arg_cong [OF s0, of "Pair oplat"], rule assms(2))
    next
      case True
      show ?thesis
      proof (cases rule: data_access_cases [of "cache_dl1 cfg" Read "?addr AND NOT 3" ?s0])
        case none
        show ?thesis unfolding if_not_P [OF nf] if_P [OF True] none(2) prod.case option.case
          by (intro exI conjI) (rule arg_cong [OF s0, of "Pair oplat"], rule assms(2))
      next
        case (some f c)
        have "0 < fst (f (caches ?s0) Read (?addr AND NOT 3) (sim_cycle ?s0))" using assms(1) some(1) by (simp only: latency_ok_def)
        moreover have "?s0\<lparr>caches := c\<rparr> = s\<lparr>sim_invalid_addrs := i0, caches := c\<rparr>" unfolding s0 by simp
        ultimately show ?thesis unfolding if_not_P [OF nf] if_P [OF True] some(2) prod.case option.case by blast
      qed
    qed
  qed
  then obtain lat1 i c where f: "?first = (lat1, s\<lparr>sim_invalid_addrs := i, caches := c\<rparr>)" "0 < lat1" by blast
  let ?s1 = "s\<lparr>sim_invalid_addrs := i, caches := c\<rparr>"
  have eq: "load_latency cfg p oplat s = (if ?ok then (case data_access (dtlb cfg) Read (?addr AND NOT 3) ?s1 of
           (None, s') \<Rightarrow> (lat1, s') | (Some lat, s') \<Rightarrow> (max lat lat1, s'))
         else (lat1, ?s1))"
    unfolding load_latency_def Let_def f(1) by simp
  show ?thesis
  proof (cases rule: data_access_cases [of "dtlb cfg" Read "?addr AND NOT 3" ?s1])
    case none
    then show ?thesis unfolding eq using f(2) by auto
  next
    case (some g d)
    then show ?thesis unfolding eq using f(2) by (auto simp: less_max_iff_disj)
  qed
qed

section \<open>Issue\<close>

lemma old_invalid:
  assumes "issuing cfg (l # ls) s" "\<not> valid (stn s) l"
  shows "issuing cfg ls s"
proof -
  have q: "queue_ok (stn s) (live cfg s) queued (ready_queue s @ l # ls)" using assms(1) by (simp add: issuing_def core_def)
  have "queue_ok (stn s) (live cfg s) queued (l # ready_queue s @ ls)"
    by (rule iffD2 [OF queue_perm q]) simp
  then have "queue_ok (stn s) (live cfg s) queued (ready_queue s @ ls)" using assms(2) by (rule queue_drop_invalid)
  then show ?thesis using assms(1) by (simp add: issuing_def core_def)
qed

lemma old_valid:
  assumes "issuing cfg (l # ls) s" "valid (stn s) l"
  shows "lk_rs l \<in> live cfg s" "queued (stn s (lk_rs l))" "OPERANDS_READY (stn s (lk_rs l))"
    "\<not> issued (stn s (lk_rs l))" "\<not> completed (stn s (lk_rs l))"
    "\<not> queued r \<Longrightarrow> rs_tag r = rs_tag (stn s (lk_rs l)) \<Longrightarrow>
       queue_ok ((stn s)(lk_rs l := r)) (live cfg s) queued (ready_queue s @ ls)"
proof -
  have q: "queue_ok (stn s) (live cfg s) queued (ready_queue s @ l # ls)" using assms(1) by (simp add: issuing_def core_def)
  have "queue_ok (stn s) (live cfg s) queued (l # ready_queue s @ ls)"
    by (rule iffD2 [OF queue_perm q]) simp
  note h = queue_head [OF this assms(2)]
  then show p: "lk_rs l \<in> live cfg s" "queued (stn s (lk_rs l))" by simp_all
  then show "OPERANDS_READY (stn s (lk_rs l))" "\<not> issued (stn s (lk_rs l))" "\<not> completed (stn s (lk_rs l))"
    using assms(1) by (auto simp: issuing_def stns_ok_def stn_ok_def)
  show "\<not> queued r \<Longrightarrow> rs_tag r = rs_tag (stn s (lk_rs l)) \<Longrightarrow>
       queue_ok ((stn s)(lk_rs l := r)) (live cfg s) queued (ready_queue s @ ls)"
    by (rule h(3))
qed

text \<open>What the three ends of an attempt to issue do to the links.\<close>

lemma same_odeps: "odep_list r = odep_list (st p) \<Longrightarrow> odeps (st(p := r)) = odeps st"
  by (simp add: odeps_def fun_eq_iff)

lemma unqueue_core:
  assumes "issuing cfg (l # ls) s" "valid (stn s) l" "p = lk_rs l" "r = (stn s p)\<lparr>queued := False\<rparr>"
  shows "core (s\<lparr>stn := (stn s)(p := r)\<rparr>) (live cfg s) ls (odeps ((stn s)(p := r))) {} {} {}"
proof -
  note o = old_valid [OF assms(1,2)]
  have sl: "same_links r (stn s p)" by (simp add: same_links_def assms(4))
  have od: "odeps ((stn s)(p := r)) = odeps (stn s)" by (rule same_odeps) (simp add: assms(4))
  have c: "core s (live cfg s) (l # ls) (odeps (stn s)) {} {} {}" using assms(1) by (simp add: issuing_def)
  then have "queue_ok ((stn s)(p := r)) (live cfg s) in_flight (event_queue s)"
    by (intro queue_change) (simp_all add: core_def assms(4))
  moreover have "queue_ok ((stn s)(p := r)) (live cfg s) queued (ready_queue s @ ls)"
    using o(6) [of r] by (simp add: assms(3,4))
  ultimately show ?thesis using c links_frame [where p = p and st = "stn s", OF sl] unfolding od by (simp add: core_def)
qed

lemma event_core:
  assumes "issuing cfg (l # ls) s" "valid (stn s) l" "p = lk_rs l" "r = (stn s p)\<lparr>queued := False, issued := True\<rparr>"
    "lk_rs e = p" "lk_tag e = rs_tag (stn s p)"
  shows "core (s\<lparr>stn := (stn s)(p := r), event_queue := insert_link e (event_queue s)\<rparr>) (live cfg s) ls
    (odeps ((stn s)(p := r))) {} {} {}"
proof -
  note o = old_valid [OF assms(1,2)]
  have sl: "same_links r (stn s p)" by (simp add: same_links_def assms(4))
  have od: "odeps ((stn s)(p := r)) = odeps (stn s)" by (rule same_odeps) (simp add: assms(4))
  have c: "core s (live cfg s) (l # ls) (odeps (stn s)) {} {} {}" using assms(1) by (simp add: issuing_def)
  then have "queue_ok ((stn s)(p := r)) (live cfg s) in_flight (e # event_queue s)"
    by (intro queue_add) (use o assms in \<open>simp_all add: core_def\<close>)
  moreover have "queue_ok ((stn s)(p := r)) (live cfg s) queued (ready_queue s @ ls)"
    using o(6) [of r] by (simp add: assms(3,4))
  ultimately show ?thesis using c links_frame [where p = p and st = "stn s", OF sl] unfolding od by (simp add: core_def)
qed

lemma store_core:
  assumes "issuing cfg (l # ls) s" "valid (stn s) l" "p = lk_rs l" "r = (stn s p)\<lparr>queued := False, issued := True, completed := True\<rparr>"
    "onames (stn s p) = [NA, NA]"
  shows "core (s\<lparr>stn := (stn s)(p := r)\<rparr>) (live cfg s) ls (odeps ((stn s)(p := r))) {} {} {}"
proof -
  note o = old_valid [OF assms(1,2)]
  have c: "core s (live cfg s) (l # ls) (odeps (stn s)) {} {} {}" using assms(1) by (simp add: issuing_def)
  let ?d = "finished (stn s p)" and ?L = "live cfg s" and ?D = "odeps (stn s)" and ?E = "{(p, 0 :: nat), (p, 1)}"
  let ?st = "(stn s)(p := ?d)"
  have sl: "same_links r (?st p)" by (simp add: same_links_def assms(4))
  have e: "?st(p := r) = (stn s)(p := r)" by simp
  have od: "odeps ((stn s)(p := r)) = ?D" by (rule same_odeps) (simp add: assms(4))
  have na: "onames (stn s p) ! j = NA" if "j < 2" for j using that assms(5) by (auto simp: less_2_cases_iff)
  have d: "deps_ok (stn s) ?L ?D {} {}" "covered (stn s) ?L ?D {}" "cv_ok (stn s) ?L {} False (\<lambda>_. True) (create_vector s)"
    "cv_ok (stn s) ?L {} True (use_spec_cv s) (spec_create_vector s)"
    using c by (simp_all add: core_def)
  have D: "?D p j = []" for j using deps_okD(5) [OF d(1), of p j] na [of j] by blast
  note lc = links_complete [where p = p and st = "stn s", OF refl]
  have "deps_ok ?st ?L ?D {} ({} \<union> ?E - {(p, 0)} - {(p, 1)})" by (intro deps_done lc(1) d(1) D)
  moreover have cv: "cv_ok ?st ?L ({} \<union> ?E - {(p, 0)} - {(p, 1)}) b U cv" if g: "cv_ok (stn s) ?L {} b U cv" for b U cv
  proof -
    have "cv i \<noteq> Some (p, j)" if "U i" for i j using g that na [of j] unfolding cv_ok_def by metis
    then show ?thesis by (intro cv_done lc(3) g)
  qed
  moreover have "{} \<union> ?E - {(p, 0)} - {(p, 1)} = {}" by blast
  ultimately have k: "deps_ok ?st ?L ?D {} {}" "covered ?st ?L ?D {}" "cv_ok ?st ?L {} False (\<lambda>_. True) (create_vector s)"
    "cv_ok ?st ?L {} True (use_spec_cv s) (spec_create_vector s)"
    using lc(2) [OF d(2)] d(3,4) by metis+
  have "queue_ok ((stn s)(p := r)) ?L in_flight (event_queue s)"
    using c o(4,5) assms(3) by (intro queue_change) (simp_all add: core_def assms(4))
  moreover have "queue_ok ((stn s)(p := r)) ?L queued (ready_queue s @ ls)"
    using o(6) [of r] by (simp add: assms(3,4))
  moreover note k [folded links_frame [where p = p and st = ?st, OF sl], unfolded e]
  ultimately show ?thesis using c unfolding od by (simp add: core_def)
qed

lemma issuing_quiet:
  assumes "issuing cfg (l # ls) s" "core t (live cfg s) ls (odeps (stn t)) {} {} {}" "stns_ok (stn t) (live cfg s)" "quiet t s"
  shows "issuing cfg ls t"
proof -
  have "live cfg t = live cfg s" using assms(4) by (intro rest_entries) (simp add: quiet_def)
  moreover have "rest_ok cfg t" using quiet_rest [OF assms(4)] assms(1) by (simp add: issuing_def)
  ultimately show ?thesis using assms(2,3) by (simp add: issuing_def)
qed

lemma requeue_ok:
  assumes "issuing cfg (l # ls) s" "valid (stn s) l" "rslinks s \<noteq> 0"
  shows "\<exists>s'. readyq_enqueue (lk_rs l) (upd_stn (lk_rs l) (\<lambda>rs. rs\<lparr>queued := False\<rparr>) s) = Some s' \<and> issuing cfg ls s'
    \<and> rslinks s' = rslinks s - 1"
proof -
  let ?p = "lk_rs l"
  let ?r = "(stn s ?p)\<lparr>queued := False\<rparr>"
  let ?t = "s\<lparr>stn := (stn s)(?p := ?r)\<rparr>"
  note o = old_valid [OF assms(1,2)]
  have so: "stns_ok (stn s) (live cfg s)" using assms(1) by (simp add: issuing_def)
  have c: "core ?t (live cfg s) ls (odeps (stn ?t)) {} {} {}" using unqueue_core [OF assms(1,2) refl refl] by simp
  have st: "stns_ok (stn ?t) (live cfg s)"
    using stns_ok_upd [OF so, of ?r ?p] so by (simp add: stns_ok_def stn_shape_def stn_ok_def OPERANDS_READY_def)
  have q: "quiet ?t s" by (simp add: quiet_def same_rest_def same_fixed_def)
  have t: "issuing cfg ls ?t" using assms(1) c st q by (rule issuing_quiet)
  have "live cfg ?t = live cfg s" using q by (intro rest_entries) (simp add: quiet_def)
  then have "?p \<in> live cfg ?t" using o(1) by simp
  moreover have "rslinks ?t \<noteq> 0" "\<not> queued (stn ?t ?p)" "OPERANDS_READY (stn ?t ?p)" "\<not> issued (stn ?t ?p)" "\<not> completed (stn ?t ?p)"
    using assms(3) o(3-5) by (simp_all add: OPERANDS_READY_def)
  ultimately obtain s' where "readyq_enqueue ?p ?t = Some s'" "issuing cfg ls s'" "rslinks s' = rslinks ?t - 1"
    using enqueue_issuing [OF t] by blast
  then show ?thesis by (simp add: upd_stn_def)
qed

lemma issue_event_ok:
  assumes "issuing cfg (l # ls) s" "valid (stn s) l" "rslinks s \<noteq> 0" "0 < lat" "p = lk_rs l"
    "t = s\<lparr>stn := (stn s)(p := (stn s p)\<lparr>queued := False, issued := True\<rparr>), fu_pool := u, sim_invalid_addrs := i, caches := c\<rparr>"
    "res_table u = res_table (fu_pool s)" "map rd_x (resources u) = map rd_x (resources (fu_pool s))"
  shows "\<exists>s'. eventq_queue_event p (sim_cycle t + lat) t = Some s' \<and> issuing cfg ls s' \<and> rslinks s' = rslinks s - 1"
proof -
  let ?r = "(stn s p)\<lparr>queued := False, issued := True\<rparr>"
  let ?e = "\<lparr>lk_rs = p, lk_tag = rs_tag (stn s p), lk_x = sim_cycle s + lat\<rparr>"
  let ?s = "t\<lparr>rslinks := rslinks s - 1, event_queue := insert_link ?e (event_queue s)\<rparr>"
  note o = old_valid [OF assms(1,2)]
  have so: "stns_ok (stn s) (live cfg s)" using assms(1) by (simp add: issuing_def)
  have "eventq_queue_event p (sim_cycle t + lat) t = Some ?s"
    using assms(3-6) o(5) by (simp add: eventq_queue_event_def RSLINK_NEW_def)
  moreover have "core ?s (live cfg s) ls (odeps (stn ?s)) {} {} {}"
    using event_core [OF assms(1,2) assms(5) refl, of ?e] assms(6) by (simp add: core_def)
  moreover have "stns_ok (stn ?s) (live cfg s)"
    using stns_ok_upd [OF so, of ?r p] so o(3,5) assms(5,6) by (simp add: stns_ok_def stn_shape_def stn_ok_def OPERANDS_READY_def)
  moreover have "quiet ?s s" using assms(6-8) by (simp add: quiet_def same_rest_def same_fixed_def)
  ultimately show ?thesis using issuing_quiet [OF assms(1), of ?s] by (intro exI [of _ ?s]) simp
qed

lemma issue_store_ok:
  assumes "issuing cfg (l # ls) s" "valid (stn s) l" "p = lk_rs l" "is_lsq p" "is_store (rs_op (stn s p))"
  shows "issuing cfg ls (s\<lparr>stn := (stn s)(p := (stn s p)\<lparr>queued := False, issued := True, completed := True\<rparr>)\<rparr>)"
    "onames (stn s p) = [NA, NA]"
proof -
  let ?r = "(stn s p)\<lparr>queued := False, issued := True, completed := True\<rparr>"
  note o = old_valid [OF assms(1,2)]
  have so: "stns_ok (stn s) (live cfg s)" "stores_ok (stn s) (live cfg s)"
    using assms(1) by (simp_all add: issuing_def rest_ok_def)
  then show na: "onames (stn s p) = [NA, NA]" using o(1) assms(3-5) by (simp add: stores_ok_def)
  let ?s = "s\<lparr>stn := (stn s)(p := ?r)\<rparr>"
  have "core ?s (live cfg s) ls (odeps (stn ?s)) {} {} {}" using store_core [OF assms(1-3) refl na] by simp
  moreover have "stns_ok (stn ?s) (live cfg s)"
    using stns_ok_upd [OF so(1), of ?r p] so(1) o(3) assms(3) by (simp add: stns_ok_def stn_shape_def stn_ok_def OPERANDS_READY_def)
  moreover have "quiet ?s s" using assms(4) by (simp add: quiet_def same_rest_def same_fixed_def)
  ultimately show "issuing cfg ls ?s" using issuing_quiet [OF assms(1)] by blast
qed

lemma issue_one_ok:
  assumes "issuing cfg (l # ls) s" "valid (stn s) l" "rslinks s \<noteq> 0" "latency_ok cfg"
  shows "\<exists>used s'. issue_one cfg (lk_rs l) s = Some (used, s') \<and> issuing cfg ls s' \<and> rslinks s \<le> Suc (rslinks s')"
proof -
  let ?p = "lk_rs l"
  let ?rs = "stn s ?p"
  let ?s1 = "upd_stn ?p (\<lambda>rs. rs\<lparr>queued := False\<rparr>) s"
  let ?s2 = "upd_stn ?p (\<lambda>rs. rs\<lparr>issued := True\<rparr>) ?s1"
  note o = old_valid [OF assms(1,2)]
  have inv: "stns_ok (stn s) (live cfg s)" "pool_ok (fu_pool s)" using assms(1) by (simp_all add: issuing_def rest_ok_def)
  then have k: "in_LSQ ?rs = is_lsq ?p" "is_lsq ?p \<Longrightarrow> \<not> recover_inst ?rs" using o(1) by (simp_all add: stns_ok_def stn_ok_def)
  have e2: "?s2 = s\<lparr>stn := (stn s)(?p := ?rs\<lparr>queued := False, issued := True\<rparr>)\<rparr>" by (simp add: upd_stn_def)
  have pool: "fu_pool ?s1 = fu_pool s" "fu_pool ?s2 = fu_pool s" by (simp_all add: upd_stn_def)
  have guard: "(\<not> OPERANDS_READY ?rs \<or> \<not> queued ?rs \<or> issued ?rs \<or> completed ?rs) = False" using o(2-5) by simp
  note step = issue_one_def [of cfg ?p s] Let_def guard if_False
  show ?thesis
  proof (cases "in_LSQ ?rs \<and> is_store (rs_op ?rs)")
    case True
    note st = issue_store_ok [OF assms(1,2) refl, unfolded k(1) [symmetric]]
    have "issue_one cfg ?p s = Some (True, s\<lparr>stn := (stn s)(?p := ?rs\<lparr>queued := False, issued := True, completed := True\<rparr>)\<rparr>)"
      using True o(2-5) k st(2) by (simp add: issue_one_def Let_def upd_stn_def)
    then show ?thesis using st(1) True by (intro exI conjI) (assumption, simp, simp)
  next
    case ns: False
    show ?thesis
    proof (cases "MD_OP_FUCLASS (rs_op ?rs) \<noteq> FUClass_NA")
      case True
      obtain r where r: "res_get (fu_pool s) (MD_OP_FUCLASS (rs_op ?rs)) = Some r"
        "\<And>u. r = Some u \<Longrightarrow> u \<in> set (res_table (fu_pool s) (MD_OP_FUCLASS (rs_op ?rs))) \<and> master_busy (fu_pool s) u = 0"
        using res_get_ok [OF inv(2) True] by blast
      show ?thesis
      proof (cases r)
        case None
        obtain s' where s': "readyq_enqueue ?p ?s1 = Some s'" "issuing cfg ls s'" "rslinks s' = rslinks s - 1"
          using requeue_ok [OF assms(1-3)] by blast
        have "issue_one cfg ?p s = Some (False, s')"
          unfolding step if_not_P [OF ns] if_P [OF True] pool(1) r(1) None using s'(1) by simp
        then show ?thesis using s'(2,3) assms(3) by auto
      next
        case (Some u)
        have mb: "master_busy (fu_pool ?s2) u = 0" using r(2) [OF Some] pool by simp
        obtain q where q: "reserve_fu u ?s2 = Some (?s2\<lparr>fu_pool := q\<rparr>)" "res_table q = res_table (fu_pool s)"
          "map rd_x (resources q) = map rd_x (resources (fu_pool s))"
          using reserve_ok [OF mb] unfolding pool by blast
        let ?oplat = "rt_oplat (template (fu_pool s) u)"
        have ol: "0 < ?oplat" using pool_template(1) [OF inv(2)] r(2) [OF Some] by blast
        let ?load = "if in_LSQ ?rs \<and> is_load (rs_op ?rs) then load_latency cfg ?p ?oplat (?s2\<lparr>fu_pool := q\<rparr>) else (?oplat, ?s2\<lparr>fu_pool := q\<rparr>)"
        have "\<exists>lat i c. ?load = (lat, ?s2\<lparr>fu_pool := q, sim_invalid_addrs := i, caches := c\<rparr>) \<and> 0 < lat"
        proof (cases "in_LSQ ?rs \<and> is_load (rs_op ?rs)")
          case True
          then show ?thesis using load_latency_ok [OF assms(4) ol, of ?p "?s2\<lparr>fu_pool := q\<rparr>"] by simp
        next
          case False
          have "?s2\<lparr>fu_pool := q\<rparr> = ?s2\<lparr>fu_pool := q, sim_invalid_addrs := sim_invalid_addrs s, caches := caches s\<rparr>"
            by (simp add: upd_stn_def)
          then show ?thesis unfolding if_not_P [OF False] using ol by blast
        qed
        then obtain lat i c where ld: "?load = (lat, ?s2\<lparr>fu_pool := q, sim_invalid_addrs := i, caches := c\<rparr>)" "0 < lat" by blast
        let ?t = "s\<lparr>stn := (stn s)(?p := ?rs\<lparr>queued := False, issued := True\<rparr>), fu_pool := q, sim_invalid_addrs := i, caches := c\<rparr>"
        have t: "?s2\<lparr>fu_pool := q, sim_invalid_addrs := i, caches := c\<rparr> = ?t" unfolding e2 by simp
        obtain s' where s': "eventq_queue_event ?p (sim_cycle ?t + lat) ?t = Some s'" "issuing cfg ls s'" "rslinks s' = rslinks s - 1"
          using issue_event_ok [OF assms(1-3) ld(2) refl refl q(2,3)] by blast
        have "issue_one cfg ?p s = (case ?load of (lat, s3) \<Rightarrow> do { s4 \<leftarrow> eventq_queue_event ?p (sim_cycle s3 + lat) s3; Some (True, s4) })"
          unfolding step if_not_P [OF ns] if_P [OF True] pool(1) r(1) Some option.simps bind.simps q(1) ..
        then have "issue_one cfg ?p s = Some (True, s')" unfolding ld(1) t using s'(1) by simp
        then show ?thesis using s'(2,3) assms(3) by auto
      qed
    next
      case False
      let ?t = "s\<lparr>stn := (stn s)(?p := ?rs\<lparr>queued := False, issued := True\<rparr>), fu_pool := fu_pool s,
        sim_invalid_addrs := sim_invalid_addrs s, caches := caches s\<rparr>"
      have t: "?s2 = ?t" unfolding e2 by simp
      obtain s' where s': "eventq_queue_event ?p (sim_cycle ?t + 1) ?t = Some s'" "issuing cfg ls s'" "rslinks s' = rslinks s - 1"
        using issue_event_ok [OF assms(1-3) zero_less_one refl refl refl refl] by blast
      have "issue_one cfg ?p s = do { s4 \<leftarrow> eventq_queue_event ?p (sim_cycle ?s1 + 1) ?s2; Some (True, s4) }"
        unfolding step if_not_P [OF ns] if_not_P [OF False] ..
      moreover have "sim_cycle ?s1 = sim_cycle ?t" by (simp add: upd_stn_def)
      ultimately have "issue_one cfg ?p s = Some (True, s')" unfolding t using s'(1) by simp
      then show ?thesis using s'(2,3) assms(3) by auto
    qed
  qed
qed

lemma issuing_links [simp]: "issuing cfg ls (s\<lparr>rslinks := n\<rparr>) = issuing cfg ls s"
proof -
  have "quiet (s\<lparr>rslinks := n\<rparr>) s" by (simp add: quiet_def same_fixed_def)
  then have "rest_ok cfg (s\<lparr>rslinks := n\<rparr>) = rest_ok cfg s" by (rule quiet_rest)
  moreover have "live cfg (s\<lparr>rslinks := n\<rparr>) = live cfg s" by (simp add: live_def ruu_entries_def lsq_entries_def)
  ultimately show ?thesis by (simp add: issuing_def)
qed

lemma issue_loop_ok:
  assumes "issuing cfg ls s" "rslinks s \<noteq> 0" "latency_ok cfg"
  shows "\<exists>s'. issue_loop cfg n ls s = Some s' \<and> ooo_inv cfg s' \<and> rslinks s \<le> rslinks s'"
  using assms(1,2)
proof (induction ls arbitrary: n s)
  case Nil
  then show ?case by (simp add: issuing_Nil)
next
  case (Cons l ls)
  have free: "\<exists>s'. issue_loop cfg m ls (RSLINK_FREE t) = Some s' \<and> ooo_inv cfg s' \<and> rslinks s \<le> rslinks s'"
    if "issuing cfg ls t" "rslinks s \<le> Suc (rslinks t)" for m t
    using Cons.IH [of "RSLINK_FREE t" m] that by (auto simp: RSLINK_FREE_def)
  show ?case
  proof (cases "valid (stn s) l")
    case False
    then show ?thesis using free [OF old_invalid [OF Cons.prems(1) False]] by (simp add: RSLINK_VALID_eq)
  next
    case True
    show ?thesis
    proof (cases "n = 0")
      case True
      obtain s' where "readyq_enqueue (lk_rs l) (upd_stn (lk_rs l) (\<lambda>rs. rs\<lparr>queued := False\<rparr>) s) = Some s'"
        "issuing cfg ls s'" "rslinks s' = rslinks s - 1"
        using requeue_ok [OF Cons.prems(1) \<open>valid (stn s) l\<close> Cons.prems(2)] by blast
      then show ?thesis using free [of s' 0] True \<open>valid (stn s) l\<close> by (simp add: RSLINK_VALID_eq)
    next
      case False
      obtain used s' where "issue_one cfg (lk_rs l) s = Some (used, s')" "issuing cfg ls s'" "rslinks s \<le> Suc (rslinks s')"
        using issue_one_ok [OF Cons.prems(1) True Cons.prems(2) assms(3)] by blast
      then show ?thesis using free [of s'] True False by (simp add: RSLINK_VALID_eq)
    qed
  qed
qed

lemma ruu_issue_ok:
  assumes "ooo_inv cfg s" "rslinks s \<noteq> 0" "latency_ok cfg"
  shows "\<exists>s'. ruu_issue cfg s = Some s' \<and> ooo_inv cfg s' \<and> rslinks s \<le> rslinks s'"
proof -
  let ?s = "s\<lparr>ready_queue := []\<rparr>"
  have "quiet ?s s" by (simp add: quiet_def same_fixed_def)
  then have "rest_ok cfg ?s" using quiet_rest assms(1) by (metis ooo_inv_def)
  moreover have "live cfg ?s = live cfg s" by (simp add: live_def ruu_entries_def lsq_entries_def)
  ultimately have "issuing cfg (ready_queue s) ?s" using assms(1) by (simp add: issuing_def ooo_inv_def core_def)
  then show ?thesis using issue_loop_ok [of cfg "ready_queue s" ?s] assms(2,3) by (simp add: ruu_issue_def)
qed

lemma issue_stage_ok:
  assumes "ooo_inv cfg s" "LSQ_size cfg \<le> MAX_STD_UNKNOWNS" "LSQ_size cfg < rslinks s" "latency_ok cfg"
  shows "\<exists>s'. issue_stage cfg s = Some s' \<and> ooo_inv cfg s' \<and> rslinks s - LSQ_size cfg \<le> rslinks s'"
proof -
  obtain s1 where s1: "lsq_refresh cfg s = Some s1" "ooo_inv cfg s1" "rslinks s - LSQ_size cfg \<le> rslinks s1"
    using lsq_refresh_ok [OF assms(1,2)] assms(3) by auto
  have n: "rslinks s1 \<noteq> 0" using s1(3) assms(3) by simp
  show ?thesis using ruu_issue_ok [OF s1(2) n assms(4)] s1 unfolding issue_stage_def by fastforce
qed

end
