(* ===== verification/Ooo_Enter.thy ===== *)
theory Ooo_Enter
  imports Ooo_Issue
begin

text \<open>
  Stations that enter the queues: a new one is linked to the creators of its operands and
  becomes the creator of its outputs; and what the invariant says of queues that grow.
\<close>

section \<open>New stations\<close>

text \<open>
  While an instruction is entered, \<open>N\<close> holds its stations, \<open>X\<close> their operands that are not
  linked yet and \<open>F\<close> their outputs that are not installed yet, which nothing refers to.
\<close>

definition fresh :: "('c, 'm) ooo_t \<Rightarrow> station \<times> nat \<Rightarrow> bool" where
  "fresh s x \<longleftrightarrow> odeps (stn s) (fst x) (snd x) = [] \<and> (\<forall>r. create_vector s r \<noteq> Some x)
     \<and> (\<forall>r. use_spec_cv s r \<longrightarrow> spec_create_vector s r \<noteq> Some x)"

definition entering :: "('c, 'm) ooo_t \<Rightarrow> station set \<Rightarrow> station set \<Rightarrow> (station \<times> nat) set \<Rightarrow> (station \<times> nat) set \<Rightarrow> bool" where
  "entering s L N X F \<longleftrightarrow> core s L [] (odeps (stn s)) X X {} \<and> stns_ok (stn s) L \<and> N \<subseteq> L
     \<and> (\<forall>p \<in> N. \<not> queued (stn s p) \<and> \<not> issued (stn s p) \<and> \<not> completed (stn s p) \<and> rs_spec (stn s p) = spec_mode s)
     \<and> (\<forall>x \<in> F. fresh s x)"

lemma enteringD:
  assumes "entering s L N X F"
  shows "core s L [] (odeps (stn s)) X X {}" "stns_ok (stn s) L" "p \<in> N \<Longrightarrow> p \<in> L" "p \<in> N \<Longrightarrow> \<not> queued (stn s p)"
    "p \<in> N \<Longrightarrow> \<not> issued (stn s p)" "p \<in> N \<Longrightarrow> \<not> completed (stn s p)" "p \<in> N \<Longrightarrow> rs_spec (stn s p) = spec_mode s"
    "x \<in> F \<Longrightarrow> fresh s x"
  using assms unfolding entering_def by blast+

text \<open>What entering leaves alone, apart from the links and the names of the outputs.\<close>

definition near :: "('c, 'm) ooo_t \<Rightarrow> ('c, 'm) ooo_t \<Rightarrow> bool" where
  "near s t \<longleftrightarrow> same_rest (s\<lparr>use_spec_cv := use_spec_cv t\<rparr>) t \<and> same_fixed s t \<and> last_op s = last_op t
     \<and> (\<forall>x. queued (stn s x) = queued (stn t x) \<and> issued (stn s x) = issued (stn t x)
          \<and> completed (stn s x) = completed (stn t x))"

lemma near_refl [simp]: "near s s"
  by (simp add: near_def same_rest_def)

lemma near_trans [trans]: "near s t \<Longrightarrow> near t u \<Longrightarrow> near s u"
  unfolding near_def same_rest_def same_fixed_def by simp

lemma stns_ok_live:
  assumes "stns_ok st L" "stn_shape r" "fixed r = fixed (st p)" "\<not> queued r" "\<not> issued r" "\<not> completed r" "p \<in> L"
  shows "stns_ok (st(p := r)) L"
  using assms fixedD(3,5) [OF assms(3)] by (intro stns_ok_upd) (simp_all add: stns_ok_def stn_ok_def)

text \<open>A station is taken from the free ones.\<close>

lemma alloc_ok:
  assumes "entering s L N X F" "p \<notin> L" "rs_tag r = rs_tag (stn s p)" "odep_list r = odep_list (stn s p)" "stn_shape r"
    "\<not> queued r" "\<not> issued r" "\<not> completed r" "rs_spec r = spec_mode s" "in_LSQ r = is_lsq p" "\<not> recover_inst r"
  shows "entering (s\<lparr>stn := (stn s)(p := r)\<rparr>) (insert p L) (insert p N) (X \<union> {p} \<times> UNIV) (F \<union> {p} \<times> UNIV)"
proof -
  let ?st = "(stn s)(p := r)"
  note e = enteringD [OF assms(1)]
  have c: "queue_ok (stn s) L queued (ready_queue s)" "queue_ok (stn s) L (\<lambda>r. issued r \<and> \<not> completed r) (event_queue s)"
    "deps_ok (stn s) L (odeps (stn s)) X {}" "covered (stn s) L (odeps (stn s)) X"
    "cv_ok (stn s) L {} False (\<lambda>_. True) (create_vector s)"
    "cv_ok (stn s) L {} True (use_spec_cv s) (spec_create_vector s)" "\<forall>r. use_spec_cv s r \<longrightarrow> spec_mode s"
    using e(1) by (simp_all add: core_def)
  have od: "odeps ?st = odeps (stn s)" using assms(4) by (simp add: odeps_def fun_eq_iff)
  have "core (s\<lparr>stn := ?st\<rparr>) (insert p L) [] (odeps ?st) (X \<union> {p} \<times> UNIV) (X \<union> {p} \<times> UNIV) {}"
    using queue_enter [OF c(1) assms(2,3)] queue_enter [OF c(2) assms(2,3)] deps_enter [OF c(3) assms(2,3)]
      covered_enter [OF c(4) assms(2,3)] cv_enter [OF c(5) assms(2)] cv_enter [OF c(6) assms(2)] c(7) assms(6-8)
    unfolding core_def od by simp
  moreover have "stns_ok ?st (insert p L)"
    using e(2) assms(5-8,10,11) by (auto simp: stns_ok_def stn_ok_def)
  moreover have "fresh (s\<lparr>stn := ?st\<rparr>) (p, j)" for j
  proof -
    have "odeps (stn s) p j = []" using deps_okD(5) [OF c(3), of p j] assms(2) by blast
    moreover have "create_vector s i \<noteq> Some (p, j)" for i using c(5) assms(2) unfolding cv_ok_def by blast
    moreover have "use_spec_cv s i \<Longrightarrow> spec_create_vector s i \<noteq> Some (p, j)" for i
      using c(6) assms(2) unfolding cv_ok_def by blast
    ultimately show ?thesis by (simp add: fresh_def od)
  qed
  moreover have "fresh (s\<lparr>stn := ?st\<rparr>) x" if "x \<in> F" for x
    using e(8) [OF that] by (simp add: fresh_def od)
  ultimately show ?thesis using e(3-7) assms(2,6-9) unfolding entering_def by auto
qed

text \<open>The operands are all linked.\<close>

lemma entered:
  assumes "core s L old D X X {}" "\<And>p k. (p, k) \<in> X \<Longrightarrow> 3 \<le> k"
  shows "core s L old D {} {} {}"
proof -
  have "deps_ok (stn s) L D X {} \<Longrightarrow> deps_ok (stn s) L D {} {}" unfolding deps_ok_def by blast
  moreover have "covered (stn s) L D X \<Longrightarrow> covered (stn s) L D {}"
    unfolding covered_def using assms(2) by (metis not_le)
  ultimately show ?thesis using assms(1) by (simp add: core_def)
qed

text \<open>One operand.\<close>

lemma link_ready_core:
  assumes "entering s L N X F" "p \<in> N" "k < 3" "(p, k) \<in> X"
  shows "entering (upd_stn p (set_ready k True) s) L N (X - {(p, k)}) F" "near (upd_stn p (set_ready k True) s) s"
proof -
  let ?st = "(stn s)(p := set_ready k True (stn s p))" and ?s = "upd_stn p (set_ready k True) s"
  note e = enteringD [OF assms(1)]
  have st: "stn ?s = ?st" by (simp add: upd_stn_def)
  have sh: "stn_shape (stn s p)" using e(2) by (simp add: stns_ok_def)
  then have len: "length (idep_ready (stn s p)) = 3" by (simp add: stn_shape_def)
  have d: "deps_ok (stn s) L (odeps (stn s)) X {}" "covered (stn s) L (odeps (stn s)) X"
    using e(1) by (simp_all add: core_def)
  note l = link_ready [OF d len assms(3,4)]
  have od: "odeps ?st = odeps (stn s)" by (simp add: odeps_def fun_eq_iff set_ready_def)
  have "queue_ok ?st L queued (ready_queue s)" "queue_ok ?st L (\<lambda>r. issued r \<and> \<not> completed r) (event_queue s)"
    using e(1) by (auto intro!: queue_change simp: core_def set_ready_def)
  moreover have "cv_ok (stn s) L E b U cv \<Longrightarrow> cv_ok ?st L E b U cv" for E b U cv
    by (rule cv_frame, assumption) (simp_all add: set_ready_def)
  ultimately have "core ?s L [] (odeps (stn ?s)) (X - {(p, k)}) (X - {(p, k)}) {}"
    using l e(1) unfolding st od by (simp add: core_def upd_stn_def)
  moreover have "stns_ok (stn ?s) L"
    unfolding st using sh e(2) e(3-6) [of p] assms(2) by (intro stns_ok_live) (simp_all add: stn_shape_def set_ready_def fixed_def)
  moreover have "fresh ?s x" if "x \<in> F" for x
    using e(8) [OF that] unfolding fresh_def st od by (simp add: upd_stn_def)
  moreover have "queued (?st x) = queued (stn s x) \<and> issued (?st x) = issued (stn s x)
      \<and> completed (?st x) = completed (stn s x) \<and> rs_spec (?st x) = rs_spec (stn s x) \<and> fixed (?st x) = fixed (stn s x)" for x
    by (simp add: set_ready_def fixed_def)
  note fr = this
  moreover have "spec_mode ?s = spec_mode s" by (simp add: upd_stn_def)
  ultimately show "entering ?s L N (X - {(p, k)}) F" using e(3-7) unfolding entering_def st by auto
  show "near ?s s" using fr by (simp add: near_def same_fixed_def same_rest_def upd_stn_def)
qed

lemma link_wait_core:
  assumes "entering s L N X F" "p \<in> N" "k < 3" "(p, k) \<in> X" "(q, j) \<notin> F"
    "q \<in> L" "j < 2" "onames (stn s q) ! j \<noteq> NA" "\<not> completed (stn s q)" "rs_spec (stn s q) \<longrightarrow> rs_spec (stn s p)"
    "lk_rs l = p" "lk_tag l = rs_tag (stn s p)" "lk_x l = k"
    "s' = upd_stn q (\<lambda>rs. rs\<lparr>odep_list := (odep_list rs)[j := l # odep_list rs ! j]\<rparr>) (upd_stn p (set_ready k False) s)"
  shows "entering s' L N (X - {(p, k)}) F" "near s' s" "onames (stn s' x) = onames (stn s x)"
proof -
  let ?st = "(stn s)(p := set_ready k False (stn s p))"
  let ?r = "(?st q)\<lparr>odep_list := (odep_list (?st q))[j := l # odep_list (?st q) ! j]\<rparr>"
  let ?st2 = "?st(q := ?r)" and ?D = "upd_list (odeps (stn s)) q j (l # odeps (stn s) q j)"
  note e = enteringD [OF assms(1)]
  have st: "stn s' = ?st2" unfolding assms(14) by (simp add: upd_stn_def)
  have sh: "stn_shape (stn s x)" for x using e(2) by (simp add: stns_ok_def)
  then have len: "length (idep_ready (stn s x)) = 3" "length (odep_list (stn s x)) = 2" for x by (simp_all add: stn_shape_def)
  have fr: "queued (?st2 x) = queued (stn s x)" "issued (?st2 x) = issued (stn s x)" "completed (?st2 x) = completed (stn s x)"
    "rs_spec (?st2 x) = rs_spec (stn s x)" "fixed (?st2 x) = fixed (stn s x)" "rs_tag (?st2 x) = rs_tag (stn s x)"
    "onames (?st2 x) = onames (stn s x)" "stn_shape (?st2 x)" for x
    using sh [of x] sh [of p] sh [of q] by (simp_all add: set_ready_def fixed_def stn_shape_def)
  have d: "deps_ok (stn s) L (odeps (stn s)) X {}" "covered (stn s) L (odeps (stn s)) X"
    using e(1) by (simp_all add: core_def)
  have "odep_list (?st x) = odep_list (stn s x)" for x by (simp add: set_ready_def)
  then have od: "odeps ?st2 = ?D" using len assms(7) by (auto simp: odeps_def upd_list_def fun_eq_iff nth_list_update)
  have "same_links ?r (?st q)" by (simp add: same_links_def)
  note lf = links_frame [where st = ?st and p = q, OF this]
  note l = link_wait [OF d len(1) assms(3,4) e(3) [OF assms(2)] assms(6-13)]
  have q: "queue_ok (stn s) L P Q \<Longrightarrow> (\<And>x. P (?st2 x) = P (stn s x)) \<Longrightarrow> queue_ok ?st2 L P Q" for P Q
    unfolding queue_ok_def same_tags [of ?st2 "stn s", OF fr(6)] by simp
  have cv: "cv_ok (stn s) L E b U v \<Longrightarrow> cv_ok ?st2 L E b U v" for E b U v
    by (rule cv_frame, assumption) (simp_all only: fr)
  have "queue_ok ?st2 L queued (ready_queue s)" "queue_ok ?st2 L (\<lambda>r. issued r \<and> \<not> completed r) (event_queue s)"
    using e(1) by (auto intro!: q simp only: core_def fr append_Nil2)
  moreover have s': "s' = s\<lparr>stn := ?st2\<rparr>" unfolding assms(14) by (simp add: upd_stn_def)
  moreover have "deps_ok ?st2 L ?D (X - {(p, k)}) {}" "covered ?st2 L ?D (X - {(p, k)})" using l unfolding lf .
  ultimately have "core s' L [] (odeps (stn s')) (X - {(p, k)}) (X - {(p, k)}) {}"
    using e(1) cv unfolding st od by (simp add: core_def)
  moreover have "stns_ok (stn s') L"
  proof -
    have "stn_ok (is_lsq x) (?st2 x)" if "x \<in> L" for x
    proof (cases "x = p")
      case True
      then show ?thesis using that e(2-6) assms(2) fr(1-3) [of x] fixedD(3,5) [OF fr(5), of x] by (simp only: stns_ok_def stn_ok_def) simp
    next
      case False
      then have "OPERANDS_READY (?st2 x) = OPERANDS_READY (stn s x)" by (simp add: OPERANDS_READY_def)
      then show ?thesis using that e(2) fr(1-3) [of x] fixedD(3,5) [OF fr(5), of x] by (simp only: stns_ok_def stn_ok_def) simp
    qed
    then show ?thesis unfolding st using fr(8) by (simp only: stns_ok_def) simp
  qed
  moreover have "fresh s' x" if "x \<in> F" for x
  proof -
    have "x \<noteq> (q, j)" using that assms(5) by blast
    then have "?D (fst x) (snd x) = odeps (stn s) (fst x) (snd x)" by (cases x) auto
    then show ?thesis using e(8) [OF that] unfolding fresh_def st od by (simp add: s')
  qed
  moreover have "spec_mode s' = spec_mode s" by (simp add: s')
  ultimately show "entering s' L N (X - {(p, k)}) F"
    using e(3-7) unfolding entering_def fr [folded st] by (simp add: subset_iff)
  have "same_rest (s'\<lparr>use_spec_cv := use_spec_cv s\<rparr>) s" "last_op s' = last_op s" by (simp_all add: same_rest_def s')
  then show "near s' s" unfolding near_def same_fixed_def fr [folded st] by simp
  show "onames (stn s' x) = onames (stn s x)" using fr(7) unfolding st .
qed

lemma entering_links [simp]: "entering (s\<lparr>rslinks := n\<rparr>) L N X F = entering s L N X F" "near (s\<lparr>rslinks := n\<rparr>) t = near s t"
  by (simp_all add: entering_def fresh_def near_def same_fixed_def same_rest_def)

lemma link_idep_ok:
  assumes "entering s L N X F" "p \<in> N" "k < 3" "(p, k) \<in> X" "name < MD_TOTAL_REGS" "rslinks s \<noteq> 0"
  shows "\<exists>s'. ruu_link_idep p k name s = Some s' \<and> entering s' L N (X - {(p, k)}) F \<and> near s' s
    \<and> rslinks s \<le> Suc (rslinks s') \<and> (\<forall>x. onames (stn s' x) = onames (stn s x))"
proof (cases "name = NA \<or> CREATE_VECTOR name s = None")
  case True
  have "ruu_link_idep p k name s = Some (upd_stn p (set_ready k True) s)" using True assms(5) by (auto simp: ruu_link_idep_def)
  moreover have "onames (stn (upd_stn p (set_ready k True) s) x) = onames (stn s x)" for x by (simp add: upd_stn_def set_ready_def)
  moreover have "rslinks (upd_stn p (set_ready k True) s) = rslinks s" by (simp add: upd_stn_def)
  ultimately show ?thesis using link_ready_core [OF assms(1-4)] by auto
next
  case False
  then obtain q j where cv: "CREATE_VECTOR name s = Some (q, j)" by auto
  note e = enteringD [OF assms(1)]
  have c: "cv_ok (stn s) L {} False (\<lambda>_. True) (create_vector s)"
    "cv_ok (stn s) L {} True (use_spec_cv s) (spec_create_vector s)" "\<And>r. use_spec_cv s r \<Longrightarrow> spec_mode s"
    using e(1) unfolding core_def by blast+
  have q: "q \<in> L" "j < 2" "onames (stn s q) ! j \<noteq> NA" "\<not> completed (stn s q)" "rs_spec (stn s q) \<longrightarrow> rs_spec (stn s p)" "(q, j) \<notin> F"
  proof -
    have "q \<in> L \<and> j < 2 \<and> onames (stn s q) ! j \<noteq> NA \<and> \<not> completed (stn s q) \<and> (rs_spec (stn s q) \<longrightarrow> rs_spec (stn s p)) \<and> (q, j) \<notin> F"
    proof (cases "use_spec_cv s name")
      case True
      then have v: "spec_create_vector s name = Some (q, j)" using cv by (simp add: CREATE_VECTOR_def)
      then have "q \<in> L \<and> j < 2 \<and> onames (stn s q) ! j \<noteq> NA \<and> \<not> completed (stn s q)"
        using c(2) True unfolding cv_ok_def by blast
      moreover have "rs_spec (stn s p)" using e(7) [OF assms(2)] c(3) [OF True] by simp
      moreover have "(q, j) \<notin> F" using e(8) [of "(q, j)"] True v unfolding fresh_def by blast
      ultimately show ?thesis by blast
    next
      case False
      then have v: "create_vector s name = Some (q, j)" using cv by (simp add: CREATE_VECTOR_def)
      then have "q \<in> L \<and> j < 2 \<and> onames (stn s q) ! j \<noteq> NA \<and> \<not> completed (stn s q) \<and> \<not> rs_spec (stn s q)"
        using c(1) unfolding cv_ok_def by blast
      moreover have "(q, j) \<notin> F" using e(8) [of "(q, j)"] v unfolding fresh_def by blast
      ultimately show ?thesis by blast
    qed
    then show "q \<in> L" "j < 2" "onames (stn s q) ! j \<noteq> NA" "\<not> completed (stn s q)"
      "rs_spec (stn s q) \<longrightarrow> rs_spec (stn s p)" "(q, j) \<notin> F" by blast+
  qed
  let ?l = "\<lparr>lk_rs = p, lk_tag = rs_tag (stn s p), lk_x = k\<rparr>"
  let ?f = "\<lambda>rs. rs\<lparr>odep_list := (odep_list rs)[j := ?l # odep_list rs ! j]\<rparr>"
  let ?t = "upd_stn q ?f (upd_stn p (set_ready k False) s)"
  have "rs_tag (stn (upd_stn p (set_ready k False) s) p) = rs_tag (stn s p)" by (simp add: upd_stn_def set_ready_def)
  moreover have "rslinks (upd_stn p (set_ready k False) s) = rslinks s" by (simp add: upd_stn_def)
  moreover have "upd_stn q ?f (a\<lparr>rslinks := n\<rparr>) = (upd_stn q ?f a)\<lparr>rslinks := n\<rparr>" for a n by (simp add: upd_stn_def)
  ultimately have "ruu_link_idep p k name s = Some (?t\<lparr>rslinks := rslinks s - 1\<rparr>)"
    using False cv assms(5,6) by (simp add: ruu_link_idep_def RSLINK_NEW_def)
  moreover note w = link_wait_core [OF assms(1-4) q(6,1-5), where l = ?l and s' = ?t]
  ultimately show ?thesis by (intro exI [of _ "?t\<lparr>rslinks := rslinks s - 1\<rparr>"]) simp
qed

section \<open>New creators\<close>

lemma install_core:
  assumes "entering s L N X F" "p \<in> N" "j < 2" "(p, j) \<in> F"
    "r = (stn s p)\<lparr>onames := (onames (stn s p))[j := name]\<rparr>"
  shows "entering (s\<lparr>stn := (stn s)(p := r)\<rparr>) L N X F" "near (s\<lparr>stn := (stn s)(p := r)\<rparr>) s"
proof -
  let ?st = "(stn s)(p := r)" and ?s = "s\<lparr>stn := (stn s)(p := r)\<rparr>"
  note e = enteringD [OF assms(1)]
  have sh: "stn_shape (stn s x)" for x using e(2) by (simp add: stns_ok_def)
  have fr: "queued (?st x) = queued (stn s x)" "issued (?st x) = issued (stn s x)" "completed (?st x) = completed (stn s x)"
    "rs_spec (?st x) = rs_spec (stn s x)" "fixed (?st x) = fixed (stn s x)" "rs_tag (?st x) = rs_tag (stn s x)"
    "stn_shape (?st x)" for x
    using sh [of x] sh [of p] assms(5) by (simp_all add: fixed_def stn_shape_def)
  have f: "odeps (stn s) p j = []" "\<And>i. True \<Longrightarrow> create_vector s i \<noteq> Some (p, j)"
    "\<And>i. use_spec_cv s i \<Longrightarrow> spec_create_vector s i \<noteq> Some (p, j)"
    using e(8) [OF assms(4)] unfolding fresh_def by auto
  have c: "deps_ok (stn s) L (odeps (stn s)) X {}" "covered (stn s) L (odeps (stn s)) X"
    "cv_ok (stn s) L {} False (\<lambda>_. True) (create_vector s)"
    "cv_ok (stn s) L {} True (use_spec_cv s) (spec_create_vector s)"
    using e(1) by (simp_all add: core_def)
  have sl: "same_links (r\<lparr>onames := onames (stn s p)\<rparr>) (stn s p)" "onames r = (onames (stn s p))[j := name]"
    using assms(5) by (simp_all add: same_links_def)
  have od: "odeps ?st = odeps (stn s)" using assms(5) by (simp add: odeps_def fun_eq_iff)
  have q: "queue_ok (stn s) L P Q \<Longrightarrow> (\<And>x. P (?st x) = P (stn s x)) \<Longrightarrow> queue_ok ?st L P Q" for P Q
    unfolding queue_ok_def same_tags [of ?st "stn s", OF fr(6)] by simp
  have "queue_ok ?st L queued (ready_queue s)" "queue_ok ?st L (\<lambda>r. issued r \<and> \<not> completed r) (event_queue s)"
    using e(1) by (auto intro!: q simp only: core_def fr append_Nil2)
  then have "core ?s L [] (odeps (stn ?s)) X X {}"
    using e(1) install_links [OF c(1) f(1) sl] c(2) cv_install [OF c(3) f(2) sl] cv_install [OF c(4) f(3) sl]
    by (simp add: core_def od)
  moreover have "stns_ok (stn ?s) L"
  proof -
    have "OPERANDS_READY (?st x) = OPERANDS_READY (stn s x)" for x using assms(5) by (simp add: OPERANDS_READY_def)
    then have "stn_ok l (?st x) = stn_ok l (stn s x)" for l x
      unfolding stn_ok_def fr fixedD(3,5) [OF fr(5)] by simp
    then show ?thesis using e(2) fr(7) by (simp add: stns_ok_def)
  qed
  moreover have "fresh ?s x" if "x \<in> F" for x using e(8) [OF that] by (simp add: fresh_def od)
  ultimately show "entering ?s L N X F" using e(3-7) fr(1-4) unfolding entering_def by (simp add: subset_iff)
  have "same_rest (?s\<lparr>use_spec_cv := use_spec_cv s\<rparr>) s" "last_op ?s = last_op s" by (simp_all add: same_rest_def)
  moreover have "stn ?s = ?st" by simp
  ultimately show "near ?s s" unfolding near_def same_fixed_def using fr by (simp only: simp_thms)
qed

lemma set_creator:
  assumes "entering s L N X F" "p \<in> N" "j < 2" "onames (stn s p) ! j = name" "name \<noteq> NA"
  shows "entering (SET_CREATE_VECTOR name (Some (p, j)) s) L N X (F - {(p, j)})" "near (SET_CREATE_VECTOR name (Some (p, j)) s) s"
    "stn (SET_CREATE_VECTOR name (Some (p, j)) s) = stn s"
proof -
  let ?s = "SET_CREATE_VECTOR name (Some (p, j)) s"
  note e = enteringD [OF assms(1)]
  have c: "cv_ok (stn s) L {} False (\<lambda>_. True) (create_vector s)"
    "cv_ok (stn s) L {} True (use_spec_cv s) (spec_create_vector s)"
    using e(1) by (simp_all add: core_def)
  show st: "stn ?s = stn s" "near ?s s" by (simp_all add: SET_CREATE_VECTOR_def near_def same_rest_def same_fixed_def)
  note cs = cv_set [where st = "stn s" and p = p and L = L and j = j, OF _ e(3) [OF assms(2)] assms(3) e(7) [OF assms(2)] assms(4,5) e(6) [OF assms(2)]]
  have "core ?s L [] (odeps (stn s)) X X {}"
  proof (cases "spec_mode s")
    case True
    then show ?thesis using e(1) cs [of "{}" "use_spec_cv s" "spec_create_vector s"] c(2)
      by (simp add: core_def SET_CREATE_VECTOR_def)
  next
    case False
    have "cv_ok (stn s) L {} False (\<lambda>_. True) ((create_vector s)(name := Some (p, j)))"
    proof -
      have u: "(\<lambda>_. True)(name := True) = (\<lambda>_. True)" by auto
      have m: "spec_mode s = False" using False by simp
      show ?thesis using cs [of "{}" "\<lambda>_. True" "create_vector s"] c(1) unfolding u m by blast
    qed
    then show ?thesis using e(1) False by (simp add: core_def SET_CREATE_VECTOR_def)
  qed
  moreover have "fresh ?s x" if "x \<in> F - {(p, j)}" for x
    using e(8) [of x] that by (auto simp: fresh_def SET_CREATE_VECTOR_def)
  moreover have "spec_mode ?s = spec_mode s" by (simp add: SET_CREATE_VECTOR_def)
  ultimately show "entering ?s L N X (F - {(p, j)})" using e(2-7) unfolding entering_def st by (simp add: subset_iff)
qed

lemma install_odep_ok:
  assumes "entering s L N X F" "p \<in> N" "j < 2" "(p, j) \<in> F" "name < MD_TOTAL_REGS"
  shows "\<exists>s'. ruu_install_odep p j name s = Some s' \<and> entering s' L N X (F - {(p, j)}) \<and> near s' s \<and> rslinks s' = rslinks s
    \<and> (\<forall>x. onames (stn s' x) = (if x = p then (onames (stn s p))[j := name] else onames (stn s x)))"
proof -
  let ?r = "(stn s p)\<lparr>onames := (onames (stn s p))[j := name]\<rparr>"
  let ?s = "s\<lparr>stn := (stn s)(p := ?r)\<rparr>"
  note i = install_core [OF assms(1-4) refl]
  have sh: "length (onames (stn s p)) = 2" "length (odep_list (stn s p)) = 2"
    using enteringD(2) [OF assms(1)] by (simp_all add: stns_ok_def stn_shape_def)
  have "odep_list (stn s p) ! j = []" using enteringD(8) [OF assms(1,4)] assms(3) by (simp add: fresh_def odeps_def)
  then have o: "(odep_list (stn s p))[j := []] = odep_list (stn s p)" by (metis list_update_id)
  show ?thesis
  proof (cases "name = NA")
    case True
    have "entering ?s L N X (F - {(p, j)})" using i(1) unfolding entering_def by simp
    moreover have "ruu_install_odep p j name s = Some ?s" using True by (simp add: ruu_install_odep_def upd_stn_def)
    ultimately show ?thesis using i(2) by auto
  next
    case False
    have u: "upd_stn p (\<lambda>rs. rs\<lparr>onames := (onames rs)[j := name], odep_list := (odep_list rs)[j := []]\<rparr>) s = ?s"
      by (simp add: upd_stn_def o)
    have "onames (stn ?s p) ! j = name" using sh(1) assms(3) by simp
    note c = set_creator [OF i(1) assms(2,3) this False]
    let ?t = "SET_CREATE_VECTOR name (Some (p, j)) ?s"
    have "ruu_install_odep p j name s = Some ?t" using False assms(5) u by (simp add: ruu_install_odep_def)
    moreover have "near ?t s" using c(2) i(2) by (rule near_trans)
    moreover have "rslinks ?t = rslinks s" by (simp add: SET_CREATE_VECTOR_def)
    ultimately show ?thesis using c(1,3) by (intro exI [of _ ?t]) simp
  qed
qed

section \<open>The queues grow\<close>

lemma path_cong:
  assumes "\<And>x. x \<in> set ps \<Longrightarrow> fixed (st' x) = fixed (st x)"
  shows "prec st' ps = prec st ps" "wrong st' ps = wrong st ps" "eas st' ps = eas st ps"
  using fixedD(4,8) [OF assms] by (simp_all add: prec_def wrong_def eas_def cong: filter_cong)

lemma path_append:
  "prec st (ps @ qs) = prec st ps @ prec st qs" "wrong st (ps @ qs) = wrong st ps @ wrong st qs"
  "eas st (ps @ qs) = eas st ps + eas st qs"
  by (simp_all add: prec_def wrong_def eas_def)

lemma path_new:
  assumes "\<And>x. x \<in> set ps \<Longrightarrow> rs_spec (st x) = m"
  shows "prec st ps = (if m then [] else ps)" "wrong st ps = (if m then ps else [])"
  using assms by (induction ps) (simp_all add: prec_def wrong_def)

lemma split_grow:
  assumes "split_ok st R Q" "\<And>x. x \<in> set R \<union> set Q \<Longrightarrow> fixed (st' x) = fixed (st x)"
    "\<And>x. x \<in> set (ps @ qs) \<Longrightarrow> rs_spec (st' x) = m" "\<not> m \<Longrightarrow> wrong st R = []" "eas st' ps = length qs"
  shows "split_ok st' (R @ ps) (Q @ qs)"
proof -
  have s: "R = prec st R @ wrong st R" "Q = prec st Q @ wrong st Q"
    "eas st (prec st R) = length (prec st Q)" "eas st (wrong st R) = length (wrong st Q)"
    using assms(1) unfolding split_ok_def by blast+
  have R: "\<And>x. x \<in> set R \<Longrightarrow> fixed (st' x) = fixed (st x)" and Q: "\<And>x. x \<in> set Q \<Longrightarrow> fixed (st' x) = fixed (st x)"
    using assms(2) by simp_all
  have "eas st' (prec st R) = eas st (prec st R)" by (rule path_cong) (use R in \<open>simp add: prec_def\<close>)
  moreover have "eas st' (wrong st R) = eas st (wrong st R)" by (rule path_cong) (use R in \<open>simp add: wrong_def\<close>)
  moreover have n: "prec st' ps = (if m then [] else ps)" "wrong st' ps = (if m then ps else [])"
    "prec st' qs = (if m then [] else qs)" "wrong st' qs = (if m then qs else [])"
    using assms(3) by (simp_all add: path_new)
  moreover have z: "eas st' [] = 0" by (simp add: eas_def)
  moreover have "\<not> m \<Longrightarrow> wrong st R = [] \<and> wrong st Q = []" using assms(4) s(4) by (simp add: eas_def)
  moreover have c: "prec st' R = prec st R" "wrong st' R = wrong st R" "prec st' Q = prec st Q" "wrong st' Q = wrong st Q"
    by (rule path_cong, erule R)+ (rule path_cong, erule Q)+
  ultimately show ?thesis
    using s assms(5) unfolding split_ok_def path_append c n z
    by (cases m) (auto simp: path_append z)
qed

lemma branch_grow:
  assumes "branch_ok st m R" "\<And>x. x \<in> set R \<Longrightarrow> fixed (st' x) = fixed (st x) \<and> completed (st' x) = completed (st x)"
    "\<And>x. x \<in> set ps \<Longrightarrow> rs_spec (st' x) = m \<and> \<not> recover_inst (st' x)"
  shows "branch_ok st' m (R @ ps)"
proof -
  have R: "\<And>x. x \<in> set R \<Longrightarrow> fixed (st' x) = fixed (st x)" using assms(2) by blast
  note fd = fixedD(5) [OF R]
  have n: "prec st' ps = (if m then [] else ps)" "wrong st' ps = (if m then ps else [])"
    using assms(3) by (simp_all add: path_new)
  have c: "prec st' R = prec st R" "wrong st' R = wrong st R" by (rule path_cong, erule R)+
  have l: "prec st R \<noteq> [] \<Longrightarrow> last (prec st R) \<in> set R"
    by (metis prec_def filter_is_subset last_in_set subsetD)
  have b: "\<And>p. p \<in> set R \<Longrightarrow> recover_inst (st p) \<and> \<not> completed (st p) \<Longrightarrow> m \<and> prec st R \<noteq> [] \<and> p = last (prec st R)"
    "m \<Longrightarrow> prec st R \<noteq> [] \<and> recover_inst (st (last (prec st R))) \<and> \<not> completed (st (last (prec st R)))"
    "\<not> m \<Longrightarrow> wrong st R = []"
    using assms(1) unfolding branch_ok_def by blast+
  have r: "recover_inst (st' x) \<and> \<not> completed (st' x) \<longleftrightarrow> x \<in> set R \<and> recover_inst (st x) \<and> \<not> completed (st x)"
    if "x \<in> set (R @ ps)" for x
    using that assms(2,3) fd by (cases "x \<in> set R") auto
  show ?thesis
  proof (cases m)
    case True
    have "recover_inst (st' (last (prec st R))) \<and> \<not> completed (st' (last (prec st R)))"
      using b(2) [OF True] l r by simp
    then show ?thesis using b(1) b(2) [OF True] r True unfolding branch_ok_def path_append c n by simp
  next
    case False
    then show ?thesis using b(1,3) r unfolding branch_ok_def path_append c n by auto
  qed
qed

text \<open>The invariant but for the fetch queue.\<close>

definition base_ok :: "('c, 'm) ooo_cfg \<Rightarrow> ('c, 'm) ooo_t \<Rightarrow> bool" where
  "base_ok cfg s \<longleftrightarrow> rings_ok cfg s \<and> stores_ok (stn s) (live cfg s)
     \<and> split_ok (stn s) (ruu_entries cfg s) (lsq_entries cfg s)
     \<and> branch_ok (stn s) (spec_mode s) (ruu_entries cfg s) \<and> pred_ok s (live cfg s) \<and> pool_ok (fu_pool s)"

definition mid_inv :: "('c, 'm) ooo_cfg \<Rightarrow> ('c, 'm) ooo_t \<Rightarrow> bool" where
  "mid_inv cfg s \<longleftrightarrow> core s (live cfg s) [] (odeps (stn s)) {} {} {} \<and> stns_ok (stn s) (live cfg s) \<and> base_ok cfg s"

lemma mid_inv_eq: "ooo_inv cfg s \<longleftrightarrow> mid_inv cfg s \<and> fetch_ok cfg s"
  by (auto simp: ooo_inv_def mid_inv_def base_ok_def rest_ok_def)

text \<open>What a new station holds.\<close>

definition new_ok :: "('c, 'm) ooo_t \<Rightarrow> ruu_station \<Rightarrow> bool" where
  "new_ok s r \<longleftrightarrow> rs_spec r = spec_mode s \<and> \<not> recover_inst r \<and> \<not> completed r
     \<and> record_ok (pred s) (dir_update r) (stack_recover_idx r) \<and> (is_ctrl (rs_op r) \<longrightarrow> rs_PC r \<noteq> 0)"

lemma base_grow:
  assumes "base_ok cfg s" "rings_ok cfg t" "ruu_entries cfg t = ruu_entries cfg s @ ps" "lsq_entries cfg t = lsq_entries cfg s @ qs"
    "spec_mode t = spec_mode s" "pred t = pred s" "fetch_data t = fetch_data s" "res_table (fu_pool t) = res_table (fu_pool s)"
    "map rd_x (resources (fu_pool t)) = map rd_x (resources (fu_pool s))"
    "\<And>x. x \<notin> set (ps @ qs) \<Longrightarrow> fixed (stn t x) = fixed (stn s x) \<and> completed (stn t x) = completed (stn s x)
       \<and> onames (stn t x) = onames (stn s x)"
    "\<And>x. x \<in> set (ps @ qs) \<Longrightarrow> new_ok s (stn t x) \<and> (is_lsq x \<longrightarrow> is_store (rs_op (stn t x)) \<longrightarrow> onames (stn t x) = [NA, NA])"
    "set (ps @ qs) \<inter> live cfg s = {}" "eas (stn t) ps = length qs"
  shows "base_ok cfg t"
proof -
  have b: "stores_ok (stn s) (live cfg s)" "split_ok (stn s) (ruu_entries cfg s) (lsq_entries cfg s)"
    "branch_ok (stn s) (spec_mode s) (ruu_entries cfg s)" "pred_ok s (live cfg s)" "pool_ok (fu_pool s)"
    using assms(1) unfolding base_ok_def by blast+
  have live: "live cfg t = live cfg s \<union> set (ps @ qs)" using assms(3,4) by (auto simp: live_def)
  have old: "x \<notin> set (ps @ qs)" if "x \<in> live cfg s" for x using assms(12) that by blast
  note fd = fixedD [OF conjunct1 [OF assms(10)]]
  have "stores_ok (stn t) (live cfg t)"
    using b(1) assms(10,11) fd(1) old unfolding stores_ok_def live by (metis UnE)
  moreover have "split_ok (stn t) (ruu_entries cfg s @ ps) (lsq_entries cfg s @ qs)"
  proof (rule split_grow [OF b(2)])
    show "fixed (stn t x) = fixed (stn s x)" if "x \<in> set (ruu_entries cfg s) \<union> set (lsq_entries cfg s)" for x
      using assms(10) old [of x] that unfolding live_def by blast
    show "rs_spec (stn t x) = spec_mode s" if "x \<in> set (ps @ qs)" for x using assms(11) [OF that] unfolding new_ok_def by blast
  qed (use b(3) assms(13) in \<open>simp_all add: branch_ok_def\<close>)
  moreover have "branch_ok (stn t) (spec_mode s) (ruu_entries cfg s @ ps)"
  proof (rule branch_grow [OF b(3)])
    show "fixed (stn t x) = fixed (stn s x) \<and> completed (stn t x) = completed (stn s x)" if "x \<in> set (ruu_entries cfg s)" for x
      using assms(10) old [of x] that unfolding live_def by blast
    show "rs_spec (stn t x) = spec_mode s \<and> \<not> recover_inst (stn t x)" if "x \<in> set ps" for x
      using assms(11) [of x] that unfolding new_ok_def by simp
  qed
  moreover have "pred_ok t (live cfg t)"
  proof -
    have "record_ok (pred s) (dir_update (stn t x)) (stack_recover_idx (stn t x))" for x
      using b(4) assms(11) [of x] fd(6,7) [of x] unfolding pred_ok_def new_ok_def by (cases "x \<in> set (ps @ qs)") simp_all
    moreover have "is_ctrl (rs_op (stn t x)) \<Longrightarrow> rs_PC (stn t x) \<noteq> 0" if "x \<in> live cfg t" for x
      using b(4) assms(11) [of x] fd(1,2) [of x] that unfolding pred_ok_def new_ok_def live
      by (cases "x \<in> set (ps @ qs)") auto
    ultimately show ?thesis using b(4) assms(6,7) by (simp add: pred_ok_def)
  qed
  moreover have "pool_ok (fu_pool t)" using b(5) assms(8,9) by (simp add: pool_ok_def)
  ultimately show ?thesis using assms(2-5) unfolding base_ok_def by simp
qed

end
