(* ===== verification/Ooo_Dispatch.thy ===== *)
theory Ooo_Dispatch
  imports Ooo_Enter
begin

text \<open>
  The dispatch stage: the dependences of an instruction name registers, its stations enter
  the queues, a mispredicted branch starts the wrong path, and the invariant is kept.
\<close>

section \<open>Decoding\<close>

definition decoded_ok :: "decoded \<Rightarrow> bool" where
  "decoded_ok d \<longleftrightarrow> d_out1 d < MD_TOTAL_REGS \<and> d_out2 d < MD_TOTAL_REGS \<and> d_in1 d < MD_TOTAL_REGS
     \<and> d_in2 d < MD_TOTAL_REGS \<and> d_in3 d < MD_TOTAL_REGS \<and> (is_store (d_op d) \<longrightarrow> d_out1 d = NA \<and> d_out2 d = NA)"

definition reg_of :: "(md_inst_t \<Rightarrow> word_t) \<Rightarrow> bool" where
  "reg_of f \<longleftrightarrow> (\<forall>inst. regs_ok inst \<longrightarrow> dep (f inst) < MD_TOTAL_REGS)"

lemma dep_less: "r < 70 \<Longrightarrow> dep r < MD_TOTAL_REGS"
proof -
  assume "r < 70"
  then have "unat r < 70" by (simp add: word_less_nat_alt)
  then show ?thesis by (simp add: dep_def MD_TOTAL_REGS_def NA_def)
qed

lemma and_not_less: "r < 70 \<Longrightarrow> r AND NOT 1 < (70 :: word_t)"
  using word_and_le2 [of r "NOT 1"] by simp

lemma plus_32: "r < 32 \<Longrightarrow> r + 32 < (70 :: word_t)"
  by (simp add: word_less_nat_alt unat_word_ariths)

lemma fields_ok:
  assumes "regs_ok inst"
  shows "RS inst < 32" "RT inst < 32" "RD inst < 32" "RS inst < 70" "RT inst < 70" "RD inst < 70"
  using assms by (simp_all add: regs_ok_def word_less_nat_alt)

lemma reg_ofI: "(\<And>inst. regs_ok inst \<Longrightarrow> f inst < 70) \<Longrightarrow> reg_of f"
  by (simp add: reg_of_def dep_less)

lemma reg_of_const [simp]: "reg_of DGPR31" "reg_of DHI" "reg_of DLO" "reg_of DFCC" "reg_of DNA"
  by (simp_all add: reg_of_def DGPR31_def DHI_def DLO_def DFCC_def DNA_def dep_def NA_def MD_TOTAL_REGS_def)

lemma reg_of_field [simp]:
  "reg_of (DGPR RS)" "reg_of (DGPR RT)" "reg_of (DGPR RD)" "reg_of (DGPR BS)"
  "reg_of (DGPR_D RS)" "reg_of (DGPR_D RT)" "reg_of (DGPR_D RD)"
  "reg_of (DFPR_L FS)" "reg_of (DFPR_L FT)" "reg_of (DFPR_L FD)"
  "reg_of (DFPR_F FS)" "reg_of (DFPR_F FT)" "reg_of (DFPR_F FD)"
  "reg_of (DFPR_D FS)" "reg_of (DFPR_D FT)" "reg_of (DFPR_D FD)"
  unfolding DGPR_def DGPR_D_def DFPR_L_def DFPR_F_def DFPR_D_def BS_def FS_def FT_def FD_def
  by (intro reg_ofI and_not_less plus_32; erule fields_ok)+

lemma rows_regs:
  "list_all (\<lambda>d. reg_of (di_o1 d) \<and> reg_of (di_o2 d) \<and> reg_of (di_i1 d) \<and> reg_of (di_i2 d) \<and> reg_of (di_i3 d)) pisa_def"
  by (simp add: pisa_def_def pisa_def_int_def pisa_def_fp_def)

lemma rows_stores:
  "list_all (\<lambda>d. di_flags d AND (F_MEM OR F_STORE) = F_MEM OR F_STORE \<longrightarrow> di_o1 d = DNA \<and> di_o2 d = DNA) pisa_def"
  by (simp add: pisa_def_def pisa_def_int_def pisa_def_fp_def flag_defs)

text \<open>
  Executing an instruction never faults, and the next PC of one that is not a branch is the
  next address.
\<close>

definition execute_ok :: "('c, 'm) ooo_cfg \<Rightarrow> bool" where
  "execute_ok cfg \<longleftrightarrow> (\<forall>spec fr m. \<exists>addr npc target m'. execute cfg spec fr m = Some (addr, npc, target, m')
     \<and> (\<not> is_ctrl (MD_SET_OPCODE (fr_IR fr)) \<longrightarrow> npc = fr_PC fr + 8))"

lemma nop_agen [simp]: "\<not> is_ctrl MD_NOP_OP" "\<not> is_store MD_NOP_OP" "\<not> is_ctrl MD_AGEN_OP" "\<not> is_store MD_AGEN_OP"
  by code_simp+

lemma row_decoded:
  assumes "definst_of pisa_def op = Some d" "regs_ok inst"
  shows "dep (di_o1 d inst) < MD_TOTAL_REGS" "dep (di_o2 d inst) < MD_TOTAL_REGS" "dep (di_i1 d inst) < MD_TOTAL_REGS"
    "dep (di_i2 d inst) < MD_TOTAL_REGS" "dep (di_i3 d inst) < MD_TOTAL_REGS"
    "is_store op \<Longrightarrow> dep (di_o1 d inst) = NA \<and> dep (di_o2 d inst) = NA"
proof -
  have d: "d \<in> set pisa_def" using definst_of_row [OF assms(1)] .
  show "dep (di_o1 d inst) < MD_TOTAL_REGS" "dep (di_o2 d inst) < MD_TOTAL_REGS" "dep (di_i1 d inst) < MD_TOTAL_REGS"
    "dep (di_i2 d inst) < MD_TOTAL_REGS" "dep (di_i3 d inst) < MD_TOTAL_REGS"
    using rows_regs d assms(2) by (simp_all add: list_all_iff reg_of_def)
  assume "is_store op"
  then have "di_flags d AND (F_MEM OR F_STORE) = F_MEM OR F_STORE" using assms(1) by (simp add: is_store_def MD_OP_FLAGS_def)
  then have "di_o1 d = DNA \<and> di_o2 d = DNA" using rows_stores d by (simp only: list_all_iff)
  then show "dep (di_o1 d inst) = NA \<and> dep (di_o2 d inst) = NA" by (simp add: DNA_def dep_def)
qed

lemma decode_ok:
  assumes "execute_ok cfg" "regs_ok (fr_IR fr)"
  shows "\<exists>d m'. decode_execute cfg spec fr m = Some (d, m') \<and> decoded_ok d
    \<and> (is_ctrl (d_op d) \<longrightarrow> is_ctrl (MD_SET_OPCODE (fr_IR fr)))
    \<and> (\<not> is_ctrl (MD_SET_OPCODE (fr_IR fr)) \<longrightarrow> d_NPC d = fr_PC fr + 8)
    \<and> (d_op d = MD_NOP_OP \<longrightarrow> \<not> is_ctrl (MD_SET_OPCODE (fr_IR fr)))"
proof (cases "definst_of pisa_def (MD_SET_OPCODE (fr_IR fr))")
  case None
  then have "\<not> is_ctrl (MD_SET_OPCODE (fr_IR fr))" by (simp add: is_ctrl_def MD_OP_FLAGS_def)
  then show ?thesis using None by (simp add: decode_execute_def Let_def decoded_ok_def MD_TOTAL_REGS_def NA_def)
next
  case (Some d)
  obtain addr npc target m' where x: "execute cfg spec fr m = Some (addr, npc, target, m')"
    "\<not> is_ctrl (MD_SET_OPCODE (fr_IR fr)) \<longrightarrow> npc = fr_PC fr + 8"
    using assms(1) unfolding execute_ok_def by blast
  note r = row_decoded [OF Some assms(2)]
  have "MD_SET_OPCODE (fr_IR fr) = MD_NOP_OP \<Longrightarrow> \<not> is_ctrl (MD_SET_OPCODE (fr_IR fr))" by simp
  then show ?thesis using Some x r by (simp add: decode_execute_def Let_def decoded_ok_def)
qed

section \<open>Entering the queues\<close>

definition link_ideps :: "station \<Rightarrow> nat \<Rightarrow> nat \<Rightarrow> nat \<Rightarrow> ('c, 'm) ooo_t \<Rightarrow> ('c, 'm) ooo_t option" where
  "link_ideps p a b c s = do { s1 \<leftarrow> ruu_link_idep p 0 a s; s2 \<leftarrow> ruu_link_idep p 1 b s1; ruu_link_idep p 2 c s2 }"

definition install_odeps :: "station \<Rightarrow> nat \<Rightarrow> nat \<Rightarrow> ('c, 'm) ooo_t \<Rightarrow> ('c, 'm) ooo_t option" where
  "install_odeps p a b s = do { s1 \<leftarrow> ruu_install_odep p 0 a s; ruu_install_odep p 1 b s1 }"

lemma link_ideps_ok:
  assumes "entering s L N X F" "p \<in> N" "{p} \<times> {0, 1, 2} \<subseteq> X" "a < MD_TOTAL_REGS" "b < MD_TOTAL_REGS" "c < MD_TOTAL_REGS"
    "3 \<le> rslinks s"
  shows "\<exists>s'. link_ideps p a b c s = Some s' \<and> entering s' L N (X - {p} \<times> {0, 1, 2}) F \<and> near s' s
    \<and> rslinks s \<le> rslinks s' + 3 \<and> (\<forall>x. onames (stn s' x) = onames (stn s x))"
proof -
  have "\<exists>s'. ruu_link_idep p 0 a s = Some s' \<and> entering s' L N (X - {(p, 0)}) F \<and> near s' s
    \<and> rslinks s \<le> Suc (rslinks s') \<and> (\<forall>x. onames (stn s' x) = onames (stn s x))"
    by (rule link_idep_ok [OF assms(1,2)]) (use assms in auto)
  then obtain s1 where s1: "ruu_link_idep p 0 a s = Some s1" "entering s1 L N (X - {(p, 0)}) F" "near s1 s"
    "rslinks s \<le> Suc (rslinks s1)" "\<forall>x. onames (stn s1 x) = onames (stn s x)" by blast
  have "\<exists>s'. ruu_link_idep p 1 b s1 = Some s' \<and> entering s' L N (X - {(p, 0)} - {(p, 1)}) F \<and> near s' s1
    \<and> rslinks s1 \<le> Suc (rslinks s') \<and> (\<forall>x. onames (stn s' x) = onames (stn s1 x))"
    by (rule link_idep_ok [OF s1(2) assms(2)]) (use assms s1(4) in auto)
  then obtain s2 where s2: "ruu_link_idep p 1 b s1 = Some s2" "entering s2 L N (X - {(p, 0)} - {(p, 1)}) F" "near s2 s1"
    "rslinks s1 \<le> Suc (rslinks s2)" "\<forall>x. onames (stn s2 x) = onames (stn s1 x)" by blast
  have "\<exists>s'. ruu_link_idep p 2 c s2 = Some s' \<and> entering s' L N (X - {(p, 0)} - {(p, 1)} - {(p, 2)}) F \<and> near s' s2
    \<and> rslinks s2 \<le> Suc (rslinks s') \<and> (\<forall>x. onames (stn s' x) = onames (stn s2 x))"
    by (rule link_idep_ok [OF s2(2) assms(2)]) (use assms s1(4) s2(4) in auto)
  then obtain s3 where s3: "ruu_link_idep p 2 c s2 = Some s3" "entering s3 L N (X - {(p, 0)} - {(p, 1)} - {(p, 2)}) F" "near s3 s2"
    "rslinks s2 \<le> Suc (rslinks s3)" "\<forall>x. onames (stn s3 x) = onames (stn s2 x)" by blast
  have "X - {(p, 0)} - {(p, 1)} - {(p, 2)} = X - {p} \<times> {0, 1, 2}" by auto
  then have "entering s3 L N (X - {p} \<times> {0, 1, 2}) F" using s3(2) by (simp only:)
  moreover have "near s3 s" using near_trans [OF s3(3) near_trans [OF s2(3) s1(3)]] .
  ultimately show ?thesis using s1(1,4,5) s2(1,4,5) s3(1,4,5) by (simp add: link_ideps_def)
qed

lemma install_odeps_ok:
  assumes "entering s L N X F" "p \<in> N" "{p} \<times> {0, 1} \<subseteq> F" "a < MD_TOTAL_REGS" "b < MD_TOTAL_REGS"
  shows "\<exists>s'. install_odeps p a b s = Some s' \<and> entering s' L N X (F - {p} \<times> {0, 1}) \<and> near s' s
    \<and> rslinks s' = rslinks s \<and> (\<forall>x. onames (stn s' x) = (if x = p then [a, b] else onames (stn s x)))"
proof -
  have "\<exists>s'. ruu_install_odep p 0 a s = Some s' \<and> entering s' L N X (F - {(p, 0)}) \<and> near s' s \<and> rslinks s' = rslinks s
    \<and> (\<forall>x. onames (stn s' x) = (if x = p then (onames (stn s p))[0 := a] else onames (stn s x)))"
    by (rule install_odep_ok [OF assms(1,2)]) (use assms in auto)
  then obtain s1 where s1: "ruu_install_odep p 0 a s = Some s1" "entering s1 L N X (F - {(p, 0)})" "near s1 s"
    "rslinks s1 = rslinks s" "\<And>x. onames (stn s1 x) = (if x = p then (onames (stn s p))[0 := a] else onames (stn s x))" by blast
  have "\<exists>s'. ruu_install_odep p 1 b s1 = Some s' \<and> entering s' L N X (F - {(p, 0)} - {(p, 1)}) \<and> near s' s1 \<and> rslinks s' = rslinks s1
    \<and> (\<forall>x. onames (stn s' x) = (if x = p then (onames (stn s1 p))[1 := b] else onames (stn s1 x)))"
    by (rule install_odep_ok [OF s1(2) assms(2)]) (use assms in auto)
  then obtain s2 where s2: "ruu_install_odep p 1 b s1 = Some s2" "entering s2 L N X (F - {(p, 0)} - {(p, 1)})" "near s2 s1"
    "rslinks s2 = rslinks s1" "\<And>x. onames (stn s2 x) = (if x = p then (onames (stn s1 p))[1 := b] else onames (stn s1 x))" by blast
  have "F - {(p, 0)} - {(p, 1)} = F - {p} \<times> {0, 1}" by auto
  then have "entering s2 L N X (F - {p} \<times> {0, 1})" using s2(2) by (simp only:)
  moreover have "near s2 s" using near_trans [OF s2(3) s1(3)] .
  moreover have "length (onames (stn s p)) = 2" using enteringD(2) [OF assms(1)] by (simp add: stns_ok_def stn_shape_def)
  then have "(onames (stn s p))[0 := a, 1 := b] = [a, b]" by (auto simp: length_Suc_conv numeral_2_eq_2)
  then have "onames (stn s2 x) = (if x = p then [a, b] else onames (stn s x))" for x using s1(5) s2(5) by simp
  ultimately show ?thesis using s1(1,4) s2(1,4) by (simp add: install_odeps_def)
qed

text \<open>A station is linked and installed.\<close>

definition enter_station :: "station \<Rightarrow> nat \<times> nat \<times> nat \<Rightarrow> nat \<times> nat \<Rightarrow> ('c, 'm) ooo_t \<Rightarrow> ('c, 'm) ooo_t option" where
  "enter_station p ins outs s =
     (case ins of (a, b, c) \<Rightarrow> do { s1 \<leftarrow> link_ideps p a b c s; install_odeps p (fst outs) (snd outs) s1 })"

lemma enter_station_ok:
  assumes "entering s L N X F" "p \<in> N" "{p} \<times> {0, 1, 2} \<subseteq> X" "{p} \<times> {0, 1} \<subseteq> F" "a < MD_TOTAL_REGS" "b < MD_TOTAL_REGS"
    "c < MD_TOTAL_REGS" "o1 < MD_TOTAL_REGS" "o2 < MD_TOTAL_REGS" "3 \<le> rslinks s"
  shows "\<exists>s'. enter_station p (a, b, c) (o1, o2) s = Some s' \<and> entering s' L N (X - {p} \<times> {0, 1, 2}) (F - {p} \<times> {0, 1}) \<and> near s' s
    \<and> rslinks s \<le> rslinks s' + 3 \<and> (\<forall>x. onames (stn s' x) = (if x = p then [o1, o2] else onames (stn s x)))"
proof -
  obtain s1 where s1: "link_ideps p a b c s = Some s1" "entering s1 L N (X - {p} \<times> {0, 1, 2}) F" "near s1 s"
    "rslinks s \<le> rslinks s1 + 3" "\<forall>x. onames (stn s1 x) = onames (stn s x)"
    using link_ideps_ok [OF assms(1-3,5-7,10)] by blast
  obtain s2 where s2: "install_odeps p o1 o2 s1 = Some s2" "entering s2 L N (X - {p} \<times> {0, 1, 2}) (F - {p} \<times> {0, 1})" "near s2 s1"
    "rslinks s2 = rslinks s1" "\<forall>x. onames (stn s2 x) = (if x = p then [o1, o2] else onames (stn s1 x))"
    using install_odeps_ok [OF s1(2) assms(2,4,8,9)] by blast
  have "near s2 s" using s2(3) s1(3) by (rule near_trans)
  then show ?thesis using s1(1,4,5) s2(1,2,4,5) by (intro exI [of _ s2]) (simp add: enter_station_def)
qed

text \<open>The state after some stations were entered, and the numbers of the queues.\<close>

definition grew :: "station set \<Rightarrow> ('c, 'm) ooo_t \<Rightarrow> ('c, 'm) ooo_t \<Rightarrow> bool" where
  "grew P t s \<longleftrightarrow> RUU_head t = RUU_head s \<and> LSQ_head t = LSQ_head s \<and> spec_mode t = spec_mode s \<and> pred t = pred s
     \<and> fetch_data t = fetch_data s \<and> fetch_head t = fetch_head s \<and> fetch_tail t = fetch_tail s \<and> fetch_num t = fetch_num s
     \<and> res_table (fu_pool t) = res_table (fu_pool s) \<and> map rd_x (resources (fu_pool t)) = map rd_x (resources (fu_pool s))
     \<and> (\<forall>x. x \<notin> P \<longrightarrow> fixed (stn t x) = fixed (stn s x) \<and> completed (stn t x) = completed (stn s x)
          \<and> onames (stn t x) = onames (stn s x))"

definition ends :: "('c, 'm) ooo_t \<Rightarrow> nat \<times> nat \<times> nat \<times> nat" where
  "ends s = (RUU_tail s, RUU_num s, LSQ_tail s, LSQ_num s)"

lemma grew_trans: "grew P u t \<Longrightarrow> grew P t s \<Longrightarrow> grew P u s"
  unfolding grew_def by metis

lemma near_grew: "near t s \<Longrightarrow> (\<And>x. x \<notin> P \<Longrightarrow> onames (stn t x) = onames (stn s x)) \<Longrightarrow> grew P t s"
  by (simp add: near_def grew_def same_rest_def same_fixed_def)

lemma near_ends: "near t s \<Longrightarrow> ends t = ends s"
  by (simp add: near_def ends_def same_rest_def)

lemma near_stn: "near t s \<Longrightarrow> fixed (stn t x) = fixed (stn s x)"
  by (simp add: near_def same_fixed_def)

lemma grew_upd [simp]:
  "grew P (t\<lparr>RUU_tail := a, RUU_num := b\<rparr>) s = grew P t s" "grew P (t\<lparr>last_op := o'\<rparr>) s = grew P t s"
  "grew P (t\<lparr>RUU_tail := a, RUU_num := b, LSQ_tail := c, LSQ_num := d\<rparr>) s = grew P t s"
  by (simp_all add: grew_def)

lemma enqueue_if_ok:
  assumes "core s L [] (odeps (stn s)) {} {} {}" "stns_ok (stn s) L" "rslinks s \<noteq> 0" "p \<in> L" "\<not> queued (stn s p)"
    "\<not> issued (stn s p)" "\<not> completed (stn s p)" "b \<Longrightarrow> OPERANDS_READY (stn s p)"
  shows "\<exists>s'. enqueue_if b p s = Some s' \<and> core s' L [] (odeps (stn s')) {} {} {} \<and> stns_ok (stn s') L
    \<and> rslinks s \<le> Suc (rslinks s') \<and> grew P s' s \<and> ends s' = ends s
    \<and> (\<forall>x. fixed (stn s' x) = fixed (stn s x) \<and> onames (stn s' x) = onames (stn s x) \<and> idep_ready (stn s' x) = idep_ready (stn s x)
         \<and> issued (stn s' x) = issued (stn s x) \<and> completed (stn s' x) = completed (stn s x) \<and> (x \<noteq> p \<longrightarrow> queued (stn s' x) = queued (stn s x)))"
proof (cases b)
  case True
  obtain s' where s': "readyq_enqueue p s = Some s'" "core s' L [] (odeps (stn s)) {} {} {}" "stns_ok (stn s') L"
    "rslinks s' = rslinks s - 1" "same_rest s' s" "same_fixed s' s"
    "\<And>x. stn s' x = (if x = p then (stn s p)\<lparr>queued := True\<rparr> else stn s x)"
    using enqueue_ok [OF assms(1-5) assms(8) [OF True] assms(6,7)] by blast
  have st: "onames (stn s' x) = onames (stn s x)" "idep_ready (stn s' x) = idep_ready (stn s x)" "issued (stn s' x) = issued (stn s x)"
    "completed (stn s' x) = completed (stn s x)" "x \<noteq> p \<Longrightarrow> queued (stn s' x) = queued (stn s x)"
    "odep_list (stn s' x) = odep_list (stn s x)" "fixed (stn s' x) = fixed (stn s x)" for x
    using s'(7) [of x] s'(6) by (simp_all add: same_fixed_def)
  have "odeps (stn s') = odeps (stn s)" by (simp add: odeps_def fun_eq_iff st)
  moreover have "grew P s' s" "ends s' = ends s" using s'(5) by (simp_all add: grew_def same_rest_def ends_def st)
  ultimately show ?thesis using True s'(1-4) st by (intro exI [of _ s']) (simp add: enqueue_if_def)
next
  case False
  then show ?thesis using assms(1,2) by (simp add: enqueue_if_def grew_def)
qed

lemma free_places:
  assumes "rings_ok cfg s"
  shows "RUU_num s < RUU_size cfg \<Longrightarrow> Ruu (RUU_tail s) \<notin> live cfg s" "LSQ_num s < LSQ_size cfg \<Longrightarrow> Lsq (LSQ_tail s) \<notin> live cfg s"
proof -
  have k: "Ruu i \<notin> set (ring Lsq m h n)" "Lsq i \<notin> set (ring Ruu m h n)" for i m h n
    using station_kinds(3) [of "Lsq i"] station_kinds(4) [of "Ruu i"] by (auto simp: is_lsq_def)
  have t: "RUU_tail s = (RUU_head s + RUU_num s) mod RUU_size cfg" "LSQ_tail s = (LSQ_head s + LSQ_num s) mod LSQ_size cfg"
    using assms by (simp_all add: rings_ok_def)
  show "RUU_num s < RUU_size cfg \<Longrightarrow> Ruu (RUU_tail s) \<notin> live cfg s" "LSQ_num s < LSQ_size cfg \<Longrightarrow> Lsq (LSQ_tail s) \<notin> live cfg s"
    unfolding t live_def ruu_entries_def lsq_entries_ring using k ring_next [OF station_kinds(1)] ring_next [OF station_kinds(2)]
    by simp_all
qed

lemma rings_grow:
  assumes "rings_ok cfg s" "RUU_head t = RUU_head s" "LSQ_head t = LSQ_head s"
    "RUU_num t = Suc (RUU_num s)" "RUU_tail t = (RUU_tail s + 1) mod RUU_size cfg" "RUU_num s < RUU_size cfg"
  shows "LSQ_num t = LSQ_num s \<Longrightarrow> LSQ_tail t = LSQ_tail s \<Longrightarrow> rings_ok cfg t"
    "LSQ_num t = Suc (LSQ_num s) \<Longrightarrow> LSQ_tail t = (LSQ_tail s + 1) mod LSQ_size cfg \<Longrightarrow> LSQ_num s < LSQ_size cfg \<Longrightarrow> rings_ok cfg t"
    "ruu_entries cfg t = ruu_entries cfg s @ [Ruu (RUU_tail s)]"
    "LSQ_num t = LSQ_num s \<Longrightarrow> lsq_entries cfg t = lsq_entries cfg s"
    "LSQ_num t = Suc (LSQ_num s) \<Longrightarrow> lsq_entries cfg t = lsq_entries cfg s @ [Lsq (LSQ_tail s)]"
  using assms by (simp_all add: rings_ok_def ruu_entries_def lsq_entries_ring ring_snoc mod_Suc_eq)

text \<open>What the rest of the stage needs to know after an instruction was entered.\<close>

definition took :: "('c, 'm) ooo_cfg \<Rightarrow> station \<Rightarrow> ('c, 'm) ooo_t \<Rightarrow> ('c, 'm) ooo_t \<Rightarrow> bool" where
  "took cfg p t s \<longleftrightarrow> ruu_entries cfg t = ruu_entries cfg s @ [p] \<and> \<not> completed (stn t p) \<and> spec_mode t = spec_mode s
     \<and> rs_spec (stn t p) = spec_mode s \<and> pred t = pred s \<and> fetch_data t = fetch_data s \<and> fetch_head t = fetch_head s
     \<and> fetch_tail t = fetch_tail s \<and> fetch_num t = fetch_num s"

lemma fill_fields [simp]:
  "rs_tag (fill_station fr d pPC b s r) = rs_tag r" "odep_list (fill_station fr d pPC b s r) = odep_list r"
  "stn_shape (fill_station fr d pPC b s r) = stn_shape r" "\<not> queued (fill_station fr d pPC b s r)"
  "\<not> issued (fill_station fr d pPC b s r)" "\<not> completed (fill_station fr d pPC b s r)"
  "rs_spec (fill_station fr d pPC b s r) = spec_mode s" "in_LSQ (fill_station fr d pPC b s r) = b"
  "\<not> recover_inst (fill_station fr d pPC b s r)" "ea_comp (fill_station fr d pPC b s r) = (\<not> b \<and> is_mem (d_op d))"
  "rs_op (fill_station fr d pPC b s r) = (if \<not> b \<and> is_mem (d_op d) then MD_AGEN_OP else d_op d)"
  "rs_PC (fill_station fr d pPC b s r) = fr_PC fr"
  by (simp_all add: fill_station_def stn_shape_def)

lemma fill_record:
  assumes "record_ok bp (fr_dir_update fr) (fr_stack_idx fr)" "\<And>x. record_ok bp (dir_update (st x)) (stack_recover_idx (st x))"
  shows "record_ok bp (dir_update (fill_station fr d pPC b s (st x))) (stack_recover_idx (fill_station fr d pPC b s (st x)))"
  using assms(1) by (auto simp: fill_station_def record_ok_def up_ok_def ptr_ok_def idx_ok_def unat_gt_0 split: option.splits)

text \<open>The start: the stations are filled, and nothing is linked.\<close>

lemma mid_entering: "mid_inv cfg s \<Longrightarrow> entering s (live cfg s) {} {} {}"
  by (simp add: mid_inv_def entering_def)

lemma entering_seq [simp]: "entering (s\<lparr>inst_seq := n\<rparr>) L N X F = entering s L N X F"
  by (simp add: entering_def fresh_def)

lemma entering_tails [simp]:
  "entering (s\<lparr>RUU_tail := a, RUU_num := b\<rparr>) L N X F = entering s L N X F"
  "entering (s\<lparr>RUU_tail := a, RUU_num := b, LSQ_tail := c, LSQ_num := d\<rparr>) L N X F = entering s L N X F"
  by (simp_all add: entering_def fresh_def)

definition fill :: "station \<Rightarrow> fetch_rec \<Rightarrow> decoded \<Rightarrow> md_addr_t \<Rightarrow> ('c, 'm) ooo_t \<Rightarrow> ('c, 'm) ooo_t" where
  "fill p fr d pPC s = (upd_stn p (fill_station fr d pPC (is_lsq p) s) s)\<lparr>inst_seq := inst_seq s + 1\<rparr>"

lemma fill_ok:
  assumes "entering s L N X F" "p \<notin> L"
  shows "entering (fill p fr d pPC s) (insert p L) (insert p N) (X \<union> {p} \<times> UNIV) (F \<union> {p} \<times> UNIV)"
proof -
  have "stn_shape (stn s p)" using enteringD(2) [OF assms(1)] by (simp add: stns_ok_def)
  then show ?thesis unfolding fill_def upd_stn_def entering_seq by (intro alloc_ok [OF assms]) simp_all
qed

lemma fill_frame [simp]:
  "p \<in> P \<Longrightarrow> grew P (fill p fr d pPC s) t = grew P s t" "ends (fill p fr d pPC s) = ends s"
  "rslinks (fill p fr d pPC s) = rslinks s" "spec_mode (fill p fr d pPC s) = spec_mode s"
  "stn (fill p fr d pPC s) x = (if x = p then fill_station fr d pPC (is_lsq p) s (stn s p) else stn s x)"
  by (auto simp: fill_def upd_stn_def grew_def ends_def)

lemma grew_refl [simp]: "grew P s s"
  by (simp add: grew_def)

lemma filled_new:
  fixes s s1 :: "('c, 'm) ooo_t"
  assumes "base_ok cfg s" "record_ok (pred s) (fr_dir_update fr) (fr_stack_idx fr)" "is_ctrl (d_op d) \<longrightarrow> fr_PC fr \<noteq> 0"
    "fixed r = fixed (fill_station fr d pPC b s1 (stn s x))" "spec_mode s1 = spec_mode s" "\<not> completed r"
  shows "new_ok s r" "rs_op r = (if \<not> b \<and> is_mem (d_op d) then MD_AGEN_OP else d_op d)" "ea_comp r = (\<not> b \<and> is_mem (d_op d))"
proof -
  note fd = fixedD [OF assms(4)]
  have "record_ok (pred s) (dir_update (stn s x)) (stack_recover_idx (stn s x))" for x
    using assms(1) by (simp add: base_ok_def pred_ok_def)
  then have "record_ok (pred s) (dir_update (fill_station fr d pPC b s1 (stn s x))) (stack_recover_idx (fill_station fr d pPC b s1 (stn s x)))"
    by (intro fill_record [where st = "stn s"] assms(2))
  then show "new_ok s r" using assms(3,5,6) unfolding new_ok_def fd by simp
  show "rs_op r = (if \<not> b \<and> is_mem (d_op d) then MD_AGEN_OP else d_op d)" "ea_comp r = (\<not> b \<and> is_mem (d_op d))"
    unfolding fd by simp_all
qed

text \<open>The end: the queues have grown by new stations.\<close>

lemma entered_mid:
  assumes "mid_inv cfg s" "grew (set (p # qs)) t s" "rings_ok cfg t" "ruu_entries cfg t = ruu_entries cfg s @ [p]"
    "lsq_entries cfg t = lsq_entries cfg s @ qs" "core t (set (p # qs) \<union> live cfg s) [] (odeps (stn t)) {} {} {}"
    "stns_ok (stn t) (set (p # qs) \<union> live cfg s)" "set (p # qs) \<inter> live cfg s = {}" "eas (stn t) [p] = length qs"
    "\<And>x. x \<in> set (p # qs) \<Longrightarrow> new_ok s (stn t x) \<and> (is_lsq x \<longrightarrow> is_store (rs_op (stn t x)) \<longrightarrow> onames (stn t x) = [NA, NA])"
  shows "mid_inv cfg t \<and> took cfg p t s"
proof -
  have "base_ok cfg s" using assms(1) by (simp add: mid_inv_def)
  then have "base_ok cfg t"
    by (rule base_grow [OF _ assms(3-5)]) (use assms(2,8-10) in \<open>simp_all add: grew_def\<close>)
  moreover have lv: "live cfg t = set (p # qs) \<union> live cfg s" unfolding live_def assms(4,5) by auto
  ultimately have "mid_inv cfg t" using assms(6,7) unfolding mid_inv_def lv by blast
  moreover have "took cfg p t s" using assms(2,4,10) by (simp add: took_def grew_def new_ok_def)
  ultimately show ?thesis ..
qed

lemma dispatch_op_eq:
  "dispatch_op cfg fr d pPC s =
     (let p = Ruu (RUU_tail s) in do {
        s6 \<leftarrow> enter_station p (d_in1 d, d_in2 d, d_in3 d) (d_out1 d, d_out2 d) (fill p fr d pPC s);
        (let s7 = s6\<lparr>RUU_tail := (RUU_tail s6 + 1) mod RUU_size cfg, RUU_num := RUU_num s6 + 1\<rparr> in do {
           s8 \<leftarrow> enqueue_if (OPERANDS_READY (stn s7 p)) p s7;
           Some (s8\<lparr>last_op := (if OPERANDS_READY (stn s7 p) then None else Some (p, rs_tag (stn s7 p)))\<rparr>) }) })"
  by (simp add: dispatch_op_def fill_def is_lsq_def enter_station_def link_ideps_def install_odeps_def Let_def enqueue_if_def)
    (intro Option.bind_cong refl, simp)

lemma decodedD:
  "decoded_ok d \<Longrightarrow> d_in1 d < MD_TOTAL_REGS" "decoded_ok d \<Longrightarrow> d_in2 d < MD_TOTAL_REGS" "decoded_ok d \<Longrightarrow> d_in3 d < MD_TOTAL_REGS"
  "decoded_ok d \<Longrightarrow> d_out1 d < MD_TOTAL_REGS" "decoded_ok d \<Longrightarrow> d_out2 d < MD_TOTAL_REGS"
  "NA < MD_TOTAL_REGS" "DTMP < MD_TOTAL_REGS"
  by (simp_all add: decoded_ok_def NA_def DTMP_def MD_TOTAL_REGS_def)

lemma dispatch_op_ok:
  assumes "mid_inv cfg s" "RUU_num s < RUU_size cfg" "decoded_ok d" "\<not> is_mem (d_op d)"
    "record_ok (pred s) (fr_dir_update fr) (fr_stack_idx fr)" "is_ctrl (d_op d) \<longrightarrow> fr_PC fr \<noteq> 0" "8 \<le> rslinks s"
  shows "\<exists>s'. dispatch_op cfg fr d pPC s = Some s' \<and> mid_inv cfg s' \<and> took cfg (Ruu (RUU_tail s)) s' s
    \<and> rslinks s \<le> rslinks s' + 8"
proof -
  define p where "p = Ruu (RUU_tail s)"
  let ?s1 = "fill p fr d pPC s" and ?L = "insert p (live cfg s)"
  have base: "base_ok cfg s" and rings: "rings_ok cfg s" using assms(1) by (simp_all add: mid_inv_def base_ok_def)
  have l: "is_lsq p = False" by (simp add: p_def is_lsq_def)
  have new: "p \<notin> live cfg s" unfolding p_def by (rule free_places(1) [OF rings assms(2)])
  have e1: "entering ?s1 ?L {p} ({p} \<times> UNIV) ({p} \<times> UNIV)" using fill_ok [OF mid_entering [OF assms(1)] new] by simp
  have sub: "{p} \<times> {0, 1, 2} \<subseteq> {p} \<times> UNIV" "{p} \<times> {0, 1} \<subseteq> {p} \<times> UNIV" "3 \<le> rslinks ?s1" using assms(7) by auto
  obtain s6 X F where s6: "enter_station p (d_in1 d, d_in2 d, d_in3 d) (d_out1 d, d_out2 d) ?s1 = Some s6" "near s6 ?s1"
    "entering s6 ?L {p} X F" "X = {p} \<times> UNIV - {p} \<times> {0, 1, 2}" "rslinks ?s1 \<le> rslinks s6 + 3"
    "\<forall>x. onames (stn s6 x) = (if x = p then [d_out1 d, d_out2 d] else onames (stn ?s1 x))"
    using enter_station_ok [OF e1 singletonI sub(1,2) decodedD(1-5) [OF assms(3)] sub(3)] by blast
  define s7 where "s7 = s6\<lparr>RUU_tail := (RUU_tail s6 + 1) mod RUU_size cfg, RUU_num := RUU_num s6 + 1\<rparr>"
  have e7: "entering s7 ?L {p} X F" unfolding s7_def entering_tails by (rule s6(3))
  have "grew {p} s6 ?s1" by (rule near_grew [OF s6(2)]) (simp add: s6(6))
  then have g7: "grew {p} s7 s" unfolding s7_def grew_upd by (rule grew_trans) simp
  note d7 = enteringD [OF e7]
  have c7: "core s7 ?L [] (odeps (stn s7)) {} {} {}" by (rule entered [OF d7(1)]) (auto simp: s6(4))
  have st7: "stn s7 = stn s6" "rslinks s7 = rslinks s6" "rslinks s7 \<noteq> 0" using s6(5) assms(7) by (simp_all add: s7_def)
  obtain s8 where s8: "enqueue_if (OPERANDS_READY (stn s7 p)) p s7 = Some s8" "core s8 ?L [] (odeps (stn s8)) {} {} {}"
    "stns_ok (stn s8) ?L" "rslinks s7 \<le> Suc (rslinks s8)" "grew {p} s8 s7" "ends s8 = ends s7"
    "fixed (stn s8 p) = fixed (stn s7 p)" "completed (stn s8 p) = completed (stn s7 p)"
    using enqueue_if_ok [OF c7 d7(2) st7(3) d7(3-6), of p "OPERANDS_READY (stn s7 p)" "{p}"] by blast
  define t where "t = s8\<lparr>last_op := (if OPERANDS_READY (stn s7 p) then None else Some (p, rs_tag (stn s7 p)))\<rparr>"
  have eq: "dispatch_op cfg fr d pPC s = Some t"
    unfolding dispatch_op_eq Let_def p_def [symmetric] s6(1) bind.bind_lunit s7_def [symmetric] s8(1) t_def ..
  have tt: "stn t = stn s8" "rslinks t = rslinks s8" "ends t = ends s8" by (simp_all add: t_def ends_def)
  have g: "grew {p} t s" unfolding t_def grew_upd by (rule grew_trans [OF s8(5) g7])
  have "ends s6 = ends s" using near_ends [OF s6(2)] by simp
  then have en: "RUU_num t = Suc (RUU_num s)" "RUU_tail t = (RUU_tail s + 1) mod RUU_size cfg" "LSQ_num t = LSQ_num s" "LSQ_tail t = LSQ_tail s"
    using tt(3) s8(6) by (simp_all add: ends_def s7_def)
  have hd: "RUU_head t = RUU_head s" "LSQ_head t = LSQ_head s" using g by (simp_all add: grew_def)
  note rg = rings_grow [OF rings hd en(1,2) assms(2)]
  have "fixed (stn t p) = fixed (fill_station fr d pPC False s (stn s p))" "\<not> completed (stn t p)"
    using s8(7,8) near_stn [OF s6(2), of p] d7(6) unfolding tt(1) st7(1) by (simp_all add: l)
  note nw = filled_new [OF base assms(5,6) this(1) refl this(2)]
  have "mid_inv cfg t \<and> took cfg p t s"
  proof (rule entered_mid [OF assms(1), where qs = "[]"])
    show "ruu_entries cfg t = ruu_entries cfg s @ [p]" "lsq_entries cfg t = lsq_entries cfg s @ []"
      using rg(3) rg(4) [OF en(3)] by (simp_all add: p_def)
    show "core t (set [p] \<union> live cfg s) [] (odeps (stn t)) {} {} {}" using s8(2) unfolding tt(1) by (simp add: t_def)
  qed (use g rg(1) [OF en(3,4)] s8(3) new nw l assms(4) tt(1) in \<open>simp_all add: eas_def\<close>)
  moreover have "rslinks s \<le> rslinks t + 8" using s6(5) st7(2) s8(4) tt(2) by simp
  ultimately show ?thesis using eq unfolding p_def by blast
qed

text \<open>A load or a store.\<close>

lemma dispatch_mem_eq:
  "dispatch_mem cfg fr d pPC s =
     (let p = Ruu (RUU_tail s); q = Lsq (LSQ_tail s) in do {
        s7 \<leftarrow> enter_station p (NA, d_in2 d, d_in3 d) (DTMP, NA) (fill q fr d pPC (fill p fr d pPC s));
        s12 \<leftarrow> enter_station q (d_in1 d, DTMP, NA) (d_out1 d, d_out2 d) s7;
        (let s13 = s12\<lparr>RUU_tail := (RUU_tail s12 + 1) mod RUU_size cfg, RUU_num := RUU_num s12 + 1,
                       LSQ_tail := (LSQ_tail s12 + 1) mod LSQ_size cfg, LSQ_num := LSQ_num s12 + 1\<rparr> in do {
           s14 \<leftarrow> enqueue_if (OPERANDS_READY (stn s13 p)) p s13;
           (let s15 = s14\<lparr>last_op := Some (q, rs_tag (stn s14 q))\<rparr> in
            enqueue_if (is_store (d_op d) \<and> OPERANDS_READY (stn s15 q)) q s15) }) })"
  by (simp add: dispatch_mem_def fill_def is_lsq_def enter_station_def link_ideps_def install_odeps_def Let_def
      STORE_OP_INDEX_def STORE_ADDR_INDEX_def)

lemma dispatch_mem_ok:
  assumes "mid_inv cfg s" "RUU_num s < RUU_size cfg" "LSQ_num s < LSQ_size cfg" "decoded_ok d" "is_mem (d_op d)"
    "record_ok (pred s) (fr_dir_update fr) (fr_stack_idx fr)" "is_ctrl (d_op d) \<longrightarrow> fr_PC fr \<noteq> 0" "8 \<le> rslinks s"
  shows "\<exists>s'. dispatch_mem cfg fr d pPC s = Some s' \<and> mid_inv cfg s' \<and> took cfg (Ruu (RUU_tail s)) s' s
    \<and> rslinks s \<le> rslinks s' + 8"
proof -
  define p where "p = Ruu (RUU_tail s)"
  define q where "q = Lsq (LSQ_tail s)"
  let ?s1 = "fill p fr d pPC s" and ?L = "insert q (insert p (live cfg s))" and ?N = "{q, p}" and ?U = "{p} \<times> UNIV \<union> {q} \<times> UNIV"
  let ?s2 = "fill q fr d pPC ?s1"
  have base: "base_ok cfg s" and rings: "rings_ok cfg s" using assms(1) by (simp_all add: mid_inv_def base_ok_def)
  have l: "is_lsq p = False" "is_lsq q = True" "p \<noteq> q" "q \<noteq> p" by (simp_all add: p_def q_def is_lsq_def)
  have new: "p \<notin> live cfg s" "q \<notin> live cfg s"
    unfolding p_def q_def by (rule free_places(1) [OF rings assms(2)], rule free_places(2) [OF rings assms(3)])
  have e2: "entering ?s2 ?L ?N ?U ?U"
    using fill_ok [OF fill_ok [OF mid_entering [OF assms(1)] new(1)], of q] new(2) l by simp
  note reg = decodedD(1-5) [OF assms(4)] decodedD(6,7)
  have i2: "p \<in> ?N" "{p} \<times> {0, 1, 2} \<subseteq> ?U" "{p} \<times> {0, 1} \<subseteq> ?U" "3 \<le> rslinks ?s2" using assms(8) by auto
  obtain s7 X F where s7: "enter_station p (NA, d_in2 d, d_in3 d) (DTMP, NA) ?s2 = Some s7" "near s7 ?s2" "entering s7 ?L ?N X F"
    "X = ?U - {p} \<times> {0, 1, 2}" "F = ?U - {p} \<times> {0, 1}" "rslinks ?s2 \<le> rslinks s7 + 3"
    "\<forall>x. onames (stn s7 x) = (if x = p then [DTMP, NA] else onames (stn ?s2 x))"
    using enter_station_ok [OF e2 i2(1-3) reg(6,2,3,7,6) i2(4)] by blast
  have i7: "q \<in> ?N" "{q} \<times> {0, 1, 2} \<subseteq> X" "{q} \<times> {0, 1} \<subseteq> F" "3 \<le> rslinks s7" using assms(8) s7(4-6) l by auto
  obtain s12 Y G where s12: "enter_station q (d_in1 d, DTMP, NA) (d_out1 d, d_out2 d) s7 = Some s12" "near s12 s7"
    "entering s12 ?L ?N Y G" "Y = X - {q} \<times> {0, 1, 2}" "rslinks s7 \<le> rslinks s12 + 3"
    "\<forall>x. onames (stn s12 x) = (if x = q then [d_out1 d, d_out2 d] else onames (stn s7 x))"
    using enter_station_ok [OF s7(3) i7(1-3) reg(1,7,6,4,5) i7(4)] by blast
  have n12: "near s12 ?s2" using s12(2) s7(2) by (rule near_trans)
  define s13 where "s13 = s12\<lparr>RUU_tail := (RUU_tail s12 + 1) mod RUU_size cfg, RUU_num := RUU_num s12 + 1,
    LSQ_tail := (LSQ_tail s12 + 1) mod LSQ_size cfg, LSQ_num := LSQ_num s12 + 1\<rparr>"
  have e13: "entering s13 ?L ?N Y G" unfolding s13_def entering_tails by (rule s12(3))
  have "grew ?N s12 ?s2" by (rule near_grew [OF n12]) (simp add: s12(6) s7(7))
  then have g13: "grew ?N s13 s" unfolding s13_def grew_upd by (rule grew_trans) simp
  note d13 = enteringD [OF e13]
  have c13: "core s13 ?L [] (odeps (stn s13)) {} {} {}" by (rule entered [OF d13(1)]) (auto simp: s12(4) s7(4))
  have st13: "stn s13 = stn s12" "rslinks s13 \<noteq> 0" "2 \<le> rslinks s13" "rslinks s \<le> rslinks s13 + 6"
    using assms(8) s7(6) s12(5) by (simp_all add: s13_def)
  obtain s14 where s14: "enqueue_if (OPERANDS_READY (stn s13 p)) p s13 = Some s14" "core s14 ?L [] (odeps (stn s14)) {} {} {}"
    "stns_ok (stn s14) ?L" "rslinks s13 \<le> Suc (rslinks s14)" "grew ?N s14 s13" "ends s14 = ends s13"
    "\<forall>x. fixed (stn s14 x) = fixed (stn s13 x) \<and> onames (stn s14 x) = onames (stn s13 x) \<and> issued (stn s14 x) = issued (stn s13 x)
      \<and> completed (stn s14 x) = completed (stn s13 x) \<and> (x \<noteq> p \<longrightarrow> queued (stn s14 x) = queued (stn s13 x))"
    using enqueue_if_ok [OF c13 d13(2) st13(2) d13(3-6), OF i2(1) i2(1) i2(1) i2(1), of "OPERANDS_READY (stn s13 p)" ?N] by blast
  define s15 where "s15 = s14\<lparr>last_op := Some (q, rs_tag (stn s14 q))\<rparr>"
  have s15: "stn s15 = stn s14" "rslinks s15 \<noteq> 0" "rslinks s15 = rslinks s14" "ends s15 = ends s14" "q \<in> ?L"
    "core s15 ?L [] (odeps (stn s14)) {} {} {}" "\<not> queued (stn s15 q)" "\<not> issued (stn s15 q)" "\<not> completed (stn s15 q)"
    using st13(3) s14(2,4,7) d13(4-6) [of q] l by (simp_all add: s15_def ends_def)
  obtain t where t: "enqueue_if (is_store (d_op d) \<and> OPERANDS_READY (stn s15 q)) q s15 = Some t" "core t ?L [] (odeps (stn t)) {} {} {}"
    "stns_ok (stn t) ?L" "rslinks s15 \<le> Suc (rslinks t)" "grew ?N t s15" "ends t = ends s15"
    "\<forall>x. fixed (stn t x) = fixed (stn s15 x) \<and> onames (stn t x) = onames (stn s15 x) \<and> completed (stn t x) = completed (stn s15 x)"
    using enqueue_if_ok [OF s15(6) [folded s15(1)] s14(3) [folded s15(1)] s15(2,5,7-9),
        of "is_store (d_op d) \<and> OPERANDS_READY (stn s15 q)" ?N] by blast
  have eq: "dispatch_mem cfg fr d pPC s = Some t"
    unfolding dispatch_mem_eq Let_def p_def [symmetric] q_def [symmetric] s7(1) bind.bind_lunit s12(1) s13_def [symmetric] s14(1)
      s15_def [symmetric] t(1) ..
  have "grew ?N s15 s" unfolding s15_def grew_upd by (rule grew_trans [OF s14(5) g13])
  then have g: "grew ?N t s" by (rule grew_trans [OF t(5)])
  have "ends s12 = ends s" using near_ends [OF n12] by simp
  then have en: "RUU_num t = Suc (RUU_num s)" "RUU_tail t = (RUU_tail s + 1) mod RUU_size cfg"
    "LSQ_num t = Suc (LSQ_num s)" "LSQ_tail t = (LSQ_tail s + 1) mod LSQ_size cfg"
    using t(6) s15(4) s14(6) by (simp_all add: ends_def s13_def)
  have hd: "RUU_head t = RUU_head s" "LSQ_head t = LSQ_head s" using g by (simp_all add: grew_def)
  note rg = rings_grow [OF rings hd en(1,2) assms(2)]
  have fx: "fixed (stn t x) = fixed (stn ?s2 x)" for x
    using t(7) s14(7) near_stn [OF n12, of x] unfolding s15(1) st13(1) by simp
  have cp: "\<not> completed (stn t p)" "\<not> completed (stn t q)" using t(7) s14(7) d13(6) unfolding s15(1) by simp_all
  have "fixed (stn t p) = fixed (fill_station fr d pPC False s (stn s p))" using fx [of p] l by simp
  note nwp = filled_new [OF base assms(6,7) this refl cp(1)]
  have "fixed (stn t q) = fixed (fill_station fr d pPC True ?s1 (stn s q))" using fx [of q] l by simp
  note nwq = filled_new [OF base assms(6,7) this _ cp(2)]
  have "onames (stn t q) = [d_out1 d, d_out2 d]" using t(7) s14(7) s12(6) unfolding s15(1) st13(1) by simp
  then have oq: "is_store (d_op d) \<Longrightarrow> onames (stn t q) = [NA, NA]" using assms(4) by (simp add: decoded_ok_def)
  have "mid_inv cfg t \<and> took cfg p t s"
  proof (rule entered_mid [OF assms(1), where qs = "[q]"])
    show "ruu_entries cfg t = ruu_entries cfg s @ [p]" "lsq_entries cfg t = lsq_entries cfg s @ [q]"
      using rg(3) rg(5) [OF en(3)] by (simp_all add: p_def q_def)
    show "core t (set [p, q] \<union> live cfg s) [] (odeps (stn t)) {} {} {}" "stns_ok (stn t) (set [p, q] \<union> live cfg s)"
      "grew (set [p, q]) t s" using t(2,3) g by (simp_all add: insert_commute)
    show "new_ok s (stn t x) \<and> (is_lsq x \<longrightarrow> is_store (rs_op (stn t x)) \<longrightarrow> onames (stn t x) = [NA, NA])" if "x \<in> set [p, q]" for x
      using that nwp nwq oq l by auto
  qed (use rg(2) [OF en(3,4) assms(3)] new nwp assms(5) in \<open>simp_all add: eas_def\<close>)
  moreover have "rslinks s \<le> rslinks t + 8" using st13(4) s14(4) s15(3) t(4) by simp
  ultimately show ?thesis using eq unfolding p_def by blast
qed

section \<open>The start of a wrong path\<close>

definition same_fetch :: "('c, 'm) ooo_t \<Rightarrow> ('c, 'm) ooo_t \<Rightarrow> bool" where
  "same_fetch t s \<longleftrightarrow> fetch_data t = fetch_data s \<and> fetch_head t = fetch_head s \<and> fetch_tail t = fetch_tail s \<and> fetch_num t = fetch_num s"

lemma mid_pred: "mid_inv cfg s \<Longrightarrow> pred_ok (s\<lparr>pred := x\<rparr>) (live cfg s) \<Longrightarrow> mid_inv cfg (s\<lparr>pred := x\<rparr>)"
  by (simp add: mid_inv_def base_ok_def rings_ok_def ruu_entries_def lsq_entries_def live_def)

lemma mid_upd [simp]:
  "mid_inv cfg (s\<lparr>sim_total_insn := a\<rparr>) = mid_inv cfg s" "mid_inv cfg (s\<lparr>recover_PC := r\<rparr>) = mid_inv cfg s"
  "mid_inv cfg (s\<lparr>machine := m, sim_num_insn := b\<rparr>) = mid_inv cfg s"
  "mid_inv cfg (s\<lparr>fetch_pred_PC := n, fetch_regs_PC := n, fetch_head := h, fetch_num := i, fetch_tail := j, ruu_fetch_issue_delay := k\<rparr>) = mid_inv cfg s"
  "mid_inv cfg (s\<lparr>fetch_head := h, fetch_num := i\<rparr>) = mid_inv cfg s"
  by (simp_all add: mid_inv_def base_ok_def core_def rings_ok_def pred_ok_def ruu_entries_def lsq_entries_def live_def)

lemma start_wrong_path:
  assumes "mid_inv cfg s" "\<not> spec_mode s" "ruu_entries cfg s \<noteq> []" "last (ruu_entries cfg s) = p" "\<not> completed (stn s p)"
  shows "mid_inv cfg ((upd_stn p (\<lambda>rs. rs\<lparr>recover_inst := True\<rparr>) s)\<lparr>spec_mode := True, recover_PC := npc\<rparr>)"
proof -
  define r where "r = (stn s p)\<lparr>recover_inst := True\<rparr>"
  let ?st = "(stn s)(p := r)" and ?t = "s\<lparr>stn := (stn s)(p := r), spec_mode := True\<rparr>"
  have m: "core s (live cfg s) [] (odeps (stn s)) {} {} {}" "stns_ok (stn s) (live cfg s)" "rings_ok cfg s"
    "stores_ok (stn s) (live cfg s)" "split_ok (stn s) (ruu_entries cfg s) (lsq_entries cfg s)"
    "branch_ok (stn s) (spec_mode s) (ruu_entries cfg s)" "pred_ok s (live cfg s)" "pool_ok (fu_pool s)"
    using assms(1) unfolding mid_inv_def base_ok_def by blast+
  have e: "ruu_entries cfg ?t = ruu_entries cfg s" "lsq_entries cfg ?t = lsq_entries cfg s" "live cfg ?t = live cfg s"
    by (simp_all add: ruu_entries_def lsq_entries_def live_def)
  have p: "p \<in> set (ruu_entries cfg s)" using assms(3,4) last_in_set by blast
  then have l: "\<not> is_lsq p" using station_kinds(3) unfolding ruu_entries_def by blast
  have f: "rs_op (?st x) = rs_op (stn s x)" "rs_PC (?st x) = rs_PC (stn s x)" "onames (?st x) = onames (stn s x)" "rs_tag (?st x) = rs_tag (stn s x)"
    "queued (?st x) = queued (stn s x)" "issued (?st x) = issued (stn s x)" "completed (?st x) = completed (stn s x)"
    "rs_spec (?st x) = rs_spec (stn s x)" "ea_comp (?st x) = ea_comp (stn s x)" "dir_update (?st x) = dir_update (stn s x)"
    "stack_recover_idx (?st x) = stack_recover_idx (stn s x)" "idep_ready (?st x) = idep_ready (stn s x)"
    "odep_list (?st x) = odep_list (stn s x)" "in_LSQ (?st x) = in_LSQ (stn s x)"
    "recover_inst (?st x) = (x = p \<or> recover_inst (stn s x))" for x
    by (simp_all add: r_def)
  have sl: "same_links r (stn s p)" by (simp add: same_links_def r_def)
  note lf = links_frame [where st = "stn s" and p = p, OF sl]
  have q: "queue_ok (stn s) L P Q \<Longrightarrow> (\<And>x. P (?st x) = P (stn s x)) \<Longrightarrow> queue_ok ?st L P Q" for L P Q
    unfolding queue_ok_def same_tags [of ?st "stn s", OF f(4)] by simp
  have od: "odeps ?st = odeps (stn s)" by (simp only: odeps_def fun_eq_iff f) simp
  have "queue_ok ?st (live cfg s) queued (ready_queue s)" "queue_ok ?st (live cfg s) (\<lambda>r. issued r \<and> \<not> completed r) (event_queue s)"
    using m(1) by (auto intro!: q simp only: core_def f append_Nil2)
  then have "core ?t (live cfg s) [] (odeps ?st) {} {} {}" using m(1) by (simp add: core_def od lf)
  moreover have "stns_ok ?st (live cfg s)"
    using m(2) l unfolding stns_ok_def stn_ok_def stn_shape_def OPERANDS_READY_def f by metis
  moreover have "stores_ok ?st (live cfg s)" using m(4) unfolding stores_ok_def f .
  moreover have pw: "prec ?st = prec (stn s)" "wrong ?st = wrong (stn s)" "eas ?st = eas (stn s)"
    by (simp_all only: fun_eq_iff prec_def wrong_def eas_def f) simp_all
  then have "split_ok ?st (ruu_entries cfg s) (lsq_entries cfg s)" using m(5) by (simp only: split_ok_def)
  moreover have "branch_ok ?st True (ruu_entries cfg s)"
  proof -
    have "wrong (stn s) (ruu_entries cfg s) = []" using m(6) assms(2) by (simp add: branch_ok_def)
    then have "prec (stn s) (ruu_entries cfg s) = ruu_entries cfg s" using m(5) unfolding split_ok_def by simp
    then show ?thesis using m(6) assms unfolding branch_ok_def pw f by auto
  qed
  moreover have "pred_ok ?t (live cfg s)" using m(7) by (simp add: pred_ok_def f del: fun_upd_apply)
  ultimately have "mid_inv cfg ?t" using m(3,8) unfolding mid_inv_def base_ok_def e by (simp add: rings_ok_def)
  moreover have "(upd_stn p (\<lambda>rs. rs\<lparr>recover_inst := True\<rparr>) s)\<lparr>spec_mode := True, recover_PC := npc\<rparr> = ?t\<lparr>recover_PC := npc\<rparr>"
    by (simp add: upd_stn_def r_def)
  ultimately show ?thesis by (simp only: mid_upd)
qed

lemma enter_spec_ok:
  assumes "mid_inv cfg s" "record_ok (pred s) (fr_dir_update fr) i" "is_ctrl (d_op d) \<longrightarrow> fr_PC fr \<noteq> 0"
    "case x of None \<Rightarrow> pPC = d_NPC d \<or> redirected
       | Some p \<Rightarrow> ruu_entries cfg s \<noteq> [] \<and> last (ruu_entries cfg s) = p \<and> \<not> completed (stn s p)"
  shows "\<exists>s'. enter_spec cfg fr d pPC redirected x s = Some s' \<and> mid_inv cfg s' \<and> rslinks s' = rslinks s \<and> same_fetch s' s"
proof (cases "spec_mode s")
  case True
  then show ?thesis using assms(1) by (simp add: enter_spec_def same_fetch_def)
next
  case ns: False
  let ?u = "if is_ctrl (d_op d) \<and> bpred_spec_update cfg = spec_ID
    then update_pred (fr_PC fr) (d_NPC d) pPC (d_op d) (fr_dir_update fr) s else Some s"
  have "\<exists>y. ?u = Some (s\<lparr>pred := y\<rparr>) \<and> mid_inv cfg (s\<lparr>pred := y\<rparr>)"
  proof (cases "is_ctrl (d_op d) \<and> bpred_spec_update cfg = spec_ID")
    case True
    have "pred_ok s (live cfg s)" using assms(1) by (simp add: mid_inv_def base_ok_def)
    then obtain y where "update_pred (fr_PC fr) (d_NPC d) pPC (d_op d) (fr_dir_update fr) s = Some (s\<lparr>pred := y\<rparr>)"
      "pred_ok (s\<lparr>pred := y\<rparr>) (live cfg s)"
      using update_pred_ok [OF _ assms(2)] assms(3) True by blast
    then show ?thesis using mid_pred [OF assms(1)] True by auto
  next
    case False
    have "s\<lparr>pred := pred s\<rparr> = s" by simp
    then show ?thesis unfolding if_not_P [OF False] using assms(1) by metis
  qed
  then obtain y where y: "?u = Some (s\<lparr>pred := y\<rparr>)" "mid_inv cfg (s\<lparr>pred := y\<rparr>)" by blast
  have eq: "enter_spec cfg fr d pPC redirected x s =
    (if pPC \<noteq> d_NPC d \<and> \<not> redirected
     then case x of None \<Rightarrow> None
       | Some r \<Rightarrow> Some ((upd_stn r (\<lambda>rs. rs\<lparr>recover_inst := True\<rparr>) (s\<lparr>pred := y\<rparr>))\<lparr>spec_mode := True, recover_PC := d_NPC d\<rparr>)
     else Some (s\<lparr>pred := y\<rparr>))"
    unfolding enter_spec_def if_not_P [OF ns] y(1) bind.bind_lunit ..
  show ?thesis
  proof (cases "pPC \<noteq> d_NPC d \<and> \<not> redirected")
    case False
    then show ?thesis unfolding eq if_not_P [OF False] using y(2) by (intro exI [of _ "s\<lparr>pred := y\<rparr>"]) (simp add: same_fetch_def)
  next
    case True
    then obtain p where p: "x = Some p" using assms(4) by (cases x) auto
    have e: "ruu_entries cfg (s\<lparr>pred := y\<rparr>) = ruu_entries cfg s" by (simp add: ruu_entries_def)
    have "mid_inv cfg ((upd_stn p (\<lambda>rs. rs\<lparr>recover_inst := True\<rparr>) (s\<lparr>pred := y\<rparr>))\<lparr>spec_mode := True, recover_PC := d_NPC d\<rparr>)"
      by (rule start_wrong_path [OF y(2)]) (use ns p assms(4) e in simp_all)
    then show ?thesis unfolding eq unfolding if_P [OF True] p option.case
      by (intro exI conjI) (rule refl, assumption, simp_all add: same_fetch_def upd_stn_def)
  qed
qed

section \<open>The fetch queue\<close>

lemma and_ring: "m = 2 ^ k \<Longrightarrow> (a :: nat) AND (m - 1) = a mod m"
  by (simp add: take_bit_eq_mod [symmetric] take_bit_eq_mask mask_eq_exp_minus_1)

definition ifq_ok :: "('c, 'm) ooo_cfg \<Rightarrow> bool" where
  "ifq_ok cfg \<longleftrightarrow> (\<exists>k. ruu_ifq_size cfg = 2 ^ k)"

lemma ifq_pos: "ifq_ok cfg \<Longrightarrow> 0 < ruu_ifq_size cfg"
  by (auto simp: ifq_ok_def)

lemma ifq_and: "ifq_ok cfg \<Longrightarrow> a AND (ruu_ifq_size cfg - 1) = a mod ruu_ifq_size cfg"
  unfolding ifq_ok_def using and_ring by blast

lemma consume_ok:
  assumes "fetch_ok cfg s" "fetch_num s \<noteq> 0" "ifq_ok cfg" "same_fetch t s"
  shows "fetch_ok cfg (consume_fetch cfg t)" "fetch_num (consume_fetch cfg t) < fetch_num s"
proof -
  let ?m = "ruu_ifq_size cfg"
  have f: "fetch_num s \<le> ?m" "fetch_head s < ?m" "fetch_tail s = (fetch_head s + fetch_num s) mod ?m"
    "\<And>i. i < fetch_num s \<Longrightarrow> slot_ok (fetch_data s ((fetch_head s + i) mod ?m))"
    using assms(1) by (simp_all add: fetch_ok_def)
  have sm: "fetch_data t = fetch_data s" "fetch_head t = fetch_head s" "fetch_tail t = fetch_tail s" "fetch_num t = fetch_num s"
    using assms(4) by (simp_all add: same_fetch_def)
  obtain n where n: "fetch_num s = Suc n" using assms(2) by (cases "fetch_num s") simp_all
  have e: "(Suc (fetch_head s) mod ?m + i) mod ?m = (fetch_head s + Suc i) mod ?m" for i by (simp add: mod_add_left_eq)
  show "fetch_num (consume_fetch cfg t) < fetch_num s" by (simp add: consume_fetch_def sm n)
  have "fetch_head (consume_fetch cfg t) = Suc (fetch_head s) mod ?m"
    using ifq_and [OF assms(3), of "fetch_head s + 1"] by (simp add: consume_fetch_def sm)
  then show "fetch_ok cfg (consume_fetch cfg t)"
    using f(1-3) f(4) [of "Suc _"] ifq_pos [OF assms(3)] n by (simp add: fetch_ok_def consume_fetch_def [where s = t] sm e)
qed

lemma consume_redirect:
  assumes "ifq_ok cfg" "same_fetch t (redirect_fetch cfg npc s)"
  shows "fetch_ok cfg (consume_fetch cfg t)" "fetch_num (consume_fetch cfg t) = 0"
proof -
  have "(ruu_ifq_size cfg - 1 + 1) AND (ruu_ifq_size cfg - 1) = 0"
    unfolding ifq_and [OF assms(1)] using ifq_pos [OF assms(1)] by simp
  then show "fetch_ok cfg (consume_fetch cfg t)" "fetch_num (consume_fetch cfg t) = 0"
    using assms(2) ifq_pos [OF assms(1)] by (simp_all add: fetch_ok_def consume_fetch_def same_fetch_def redirect_fetch_def)
qed

lemma mid_fetch [simp]:
  "mid_inv cfg (consume_fetch cfg s) = mid_inv cfg s" "mid_inv cfg (redirect_fetch cfg npc s) = mid_inv cfg s"
  by (simp_all only: consume_fetch_def redirect_fetch_def mid_upd)

lemma same_fetch_simps [simp]:
  "same_fetch s s" "same_fetch (s\<lparr>sim_total_insn := a\<rparr>) t = same_fetch s t"
  "same_fetch (s\<lparr>machine := m, sim_num_insn := b\<rparr>) t = same_fetch s t"
  by (simp_all add: same_fetch_def)

lemma same_fetch_trans: "same_fetch u t \<Longrightarrow> same_fetch t s \<Longrightarrow> same_fetch u s"
  by (simp add: same_fetch_def)

section \<open>One instruction\<close>

lemma dispatch_body_ok:
  assumes "mid_inv cfg s" "RUU_num s < RUU_size cfg" "LSQ_num s < LSQ_size cfg" "decoded_ok d"
    "record_ok (pred s) (fr_dir_update fr) (fr_stack_idx fr)" "is_ctrl (d_op d) \<longrightarrow> fr_PC fr \<noteq> 0" "8 \<le> rslinks s"
    "d_op d = MD_NOP_OP \<longrightarrow> pPC = d_NPC d \<or> redirected"
    "p = (if d_op d = MD_NOP_OP then None else Some (Ruu (RUU_tail s)))"
  shows "\<exists>s3 s4. (if p = None then Some s else if is_mem (d_op d) then dispatch_mem cfg fr d pPC s else dispatch_op cfg fr d pPC s) = Some s3
    \<and> enter_spec cfg fr d pPC redirected p (s3\<lparr>sim_total_insn := sim_total_insn s3 + 1\<rparr>) = Some s4
    \<and> mid_inv cfg s4 \<and> same_fetch s4 s \<and> rslinks s \<le> rslinks s4 + (if p = None then 0 else 8)"
proof -
  let ?a = "if p = None then Some s else if is_mem (d_op d) then dispatch_mem cfg fr d pPC s else dispatch_op cfg fr d pPC s"
  have "\<exists>s3. ?a = Some s3 \<and> mid_inv cfg s3 \<and> rslinks s \<le> rslinks s3 + (if p = None then 0 else 8)
    \<and> pred s3 = pred s \<and> same_fetch s3 s \<and> (\<forall>r. p = Some r \<longrightarrow> took cfg r s3 s)"
  proof (cases "p = None")
    case True
    then show ?thesis using assms(1) by simp
  next
    case False
    then have p: "p = Some (Ruu (RUU_tail s))" using assms(9) by (simp split: if_splits)
    have "\<exists>s3. (if is_mem (d_op d) then dispatch_mem cfg fr d pPC s else dispatch_op cfg fr d pPC s) = Some s3
      \<and> mid_inv cfg s3 \<and> took cfg (Ruu (RUU_tail s)) s3 s \<and> rslinks s \<le> rslinks s3 + 8"
      using dispatch_mem_ok [OF assms(1-4) _ assms(5-7)] dispatch_op_ok [OF assms(1,2,4) _ assms(5-7)]
      by (cases "is_mem (d_op d)") simp_all
    then obtain s3 where "(if is_mem (d_op d) then dispatch_mem cfg fr d pPC s else dispatch_op cfg fr d pPC s) = Some s3"
      "mid_inv cfg s3" "took cfg (Ruu (RUU_tail s)) s3 s" "rslinks s \<le> rslinks s3 + 8" by blast
    then show ?thesis using p by (intro exI [of _ s3]) (simp add: took_def same_fetch_def)
  qed
  then obtain s3 where s3: "?a = Some s3" "mid_inv cfg s3" "rslinks s \<le> rslinks s3 + (if p = None then 0 else 8)" "pred s3 = pred s"
    "same_fetch s3 s" "\<And>r. p = Some r \<Longrightarrow> took cfg r s3 s" by blast
  let ?t = "s3\<lparr>sim_total_insn := sim_total_insn s3 + 1\<rparr>"
  have en: "ruu_entries cfg ?t = ruu_entries cfg s3" by (simp add: ruu_entries_def)
  have "\<exists>s4. enter_spec cfg fr d pPC redirected p ?t = Some s4 \<and> mid_inv cfg s4 \<and> rslinks s4 = rslinks ?t \<and> same_fetch s4 ?t"
  proof (rule enter_spec_ok)
    show "mid_inv cfg ?t" using s3(2) by simp
    show "record_ok (pred ?t) (fr_dir_update fr) (fr_stack_idx fr)" using assms(5) s3(4) by simp
    show "case p of None \<Rightarrow> pPC = d_NPC d \<or> redirected
      | Some p \<Rightarrow> ruu_entries cfg ?t \<noteq> [] \<and> last (ruu_entries cfg ?t) = p \<and> \<not> completed (stn ?t p)"
    proof (cases p)
      case None
      then show ?thesis using assms(8,9) by (simp split: if_splits)
    next
      case (Some r)
      then show ?thesis using s3(6) [OF Some] unfolding en by (simp add: took_def)
    qed
  qed (rule assms(6))
  then obtain s4 where s4: "enter_spec cfg fr d pPC redirected p ?t = Some s4" "mid_inv cfg s4" "rslinks s4 = rslinks ?t" "same_fetch s4 ?t"
    by blast
  have "same_fetch s4 s" by (rule same_fetch_trans [OF s4(4)]) (simp add: s3(5))
  moreover have "rslinks s \<le> rslinks s4 + (if p = None then 0 else 8)" using s3(3) s4(3) by simp
  ultimately show ?thesis using s3(1) s4(1,2) by blast
qed

lemma dispatch_one_ok:
  assumes "ooo_inv cfg s" "RUU_num s < RUU_size cfg" "LSQ_num s < LSQ_size cfg" "fetch_num s \<noteq> 0" "execute_ok cfg" "ifq_ok cfg"
    "8 \<le> rslinks s"
  shows "\<exists>r s'. dispatch_one cfg s = Some (r, s') \<and> ooo_inv cfg s'
    \<and> (case r of None \<Rightarrow> s' = s | Some b \<Rightarrow> fetch_num s' < fetch_num s \<and> rslinks s \<le> rslinks s' + (if b then 8 else 0))"
proof -
  define fr where "fr = fetch_data s (fetch_head s)"
  have mid: "mid_inv cfg s" and fetch: "fetch_ok cfg s" using assms(1) by (simp_all add: mid_inv_eq)
  then have po: "pred_ok s (live cfg s)" and bo: "branch_ok (stn s) (spec_mode s) (ruu_entries cfg s)"
    by (simp_all add: mid_inv_def base_ok_def)
  have slot: "slot_ok fr"
    using fetch assms(4) by (auto simp: fetch_ok_def fr_def dest: spec [of _ 0])
  have rec: "record_ok (pred s) (fr_dir_update fr) (fr_stack_idx fr)" using po by (simp add: pred_ok_def fr_def)
  obtain d m where d: "decode_execute cfg (spec_mode s) fr (machine s) = Some (d, m)" "decoded_ok d"
    "is_ctrl (d_op d) \<longrightarrow> is_ctrl (MD_SET_OPCODE (fr_IR fr))" "\<not> is_ctrl (MD_SET_OPCODE (fr_IR fr)) \<longrightarrow> d_NPC d = fr_PC fr + 8"
    "d_op d = MD_NOP_OP \<longrightarrow> \<not> is_ctrl (MD_SET_OPCODE (fr_IR fr))"
    using decode_ok [OF assms(5)] slot unfolding slot_ok_def by blast
  define trap where "trap \<longleftrightarrow> MD_OP_FLAGS (MD_SET_OPCODE (fr_IR fr)) AND F_TRAP \<noteq> 0"
  define s1 where "s1 = s\<lparr>machine := m, sim_num_insn := (if spec_mode s then sim_num_insn s else sim_num_insn s + 1)\<rparr>"
  define redirect where "redirect \<longleftrightarrow> fr_pred_PC fr \<noteq> d_NPC d \<and> pred_perfect cfg
    \<or> MD_OP_FLAGS (d_op d) AND (F_CTRL OR F_DIRJMP) = F_CTRL OR F_DIRJMP \<and> d_target d \<noteq> fr_pred_PC fr \<and> fr_pred_PC fr \<noteq> fr_PC fr + 8"
  define pPC where "pPC = (if redirect \<and> pred_perfect cfg then d_NPC d else fr_pred_PC fr)"
  define s2 where "s2 = (if redirect then redirect_fetch cfg (d_NPC d) s1 else s1)"
  define p where "p = (if d_op d = MD_NOP_OP then None else Some (Ruu (RUU_tail s2)))"
  have eq: "dispatch_one cfg s =
    (if trap \<and> RUU_num s \<noteq> 0 then Some (None, s)
     else if trap \<and> spec_mode s then None
     else do {
       s3 \<leftarrow> (if p = None then Some s2 else if is_mem (d_op d) then dispatch_mem cfg fr d pPC s2 else dispatch_op cfg fr d pPC s2);
       s4 \<leftarrow> enter_spec cfg fr d pPC redirect p (s3\<lparr>sim_total_insn := sim_total_insn s3 + 1\<rparr>);
       Some (Some (p \<noteq> None), consume_fetch cfg s4) })"
    unfolding dispatch_one_def fr_def [symmetric] Let_def trap_def [symmetric] d(1) bind.bind_lunit prod.case s1_def [symmetric]
      redirect_def [symmetric] pPC_def [symmetric] s2_def [symmetric] p_def [symmetric] ..
  show ?thesis
  proof (cases "trap \<and> RUU_num s \<noteq> 0")
    case True
    show ?thesis unfolding eq if_P [OF True] using assms(1) by (intro exI [of _ None] exI [of _ s]) simp
  next
    case no_wait: False
    have "spec_mode s \<Longrightarrow> ruu_entries cfg s \<noteq> []" using bo by (auto simp: branch_ok_def prec_def)
    then have no_spec: "\<not> (trap \<and> spec_mode s)" using no_wait by (auto simp: ruu_entries_def)
    have s2: "mid_inv cfg s2" "RUU_num s2 = RUU_num s" "LSQ_num s2 = LSQ_num s" "pred s2 = pred s" "rslinks s2 = rslinks s"
      using mid by (simp_all add: s2_def s1_def) (simp_all add: redirect_fetch_def)
    have ctrl: "is_ctrl (d_op d) \<longrightarrow> fr_PC fr \<noteq> 0" using d(3) slot by (auto simp: slot_ok_def)
    have nop: "d_op d = MD_NOP_OP \<longrightarrow> pPC = d_NPC d \<or> redirect"
      using d(4,5) slot by (auto simp: slot_ok_def pPC_def)
    obtain s3 s4 where s4: "(if p = None then Some s2 else if is_mem (d_op d) then dispatch_mem cfg fr d pPC s2 else dispatch_op cfg fr d pPC s2) = Some s3"
      "enter_spec cfg fr d pPC redirect p (s3\<lparr>sim_total_insn := sim_total_insn s3 + 1\<rparr>) = Some s4"
      "mid_inv cfg s4" "same_fetch s4 s2" "rslinks s2 \<le> rslinks s4 + (if p = None then 0 else 8)"
      using dispatch_body_ok [OF s2(1) _ _ d(2) _ ctrl _ nop p_def] assms(2,3,7) rec s2(2-5) by auto
    have r: "dispatch_one cfg s = Some (Some (p \<noteq> None), consume_fetch cfg s4)"
      unfolding eq if_not_P [OF no_wait] if_not_P [OF no_spec] s4(1) bind.bind_lunit s4(2) ..
    have "fetch_ok cfg (consume_fetch cfg s4) \<and> fetch_num (consume_fetch cfg s4) < fetch_num s"
    proof (cases redirect)
      case True
      then show ?thesis using consume_redirect [OF assms(6), of s4 "d_NPC d" s1] s4(4) assms(4) by (simp add: s2_def)
    next
      case False
      then have "same_fetch s4 s" using s4(4) by (simp add: s2_def s1_def same_fetch_def)
      then show ?thesis using consume_ok [OF fetch assms(4,6)] by blast
    qed
    moreover have "rslinks (consume_fetch cfg s4) = rslinks s4" by (simp add: consume_fetch_def)
    ultimately show ?thesis using r s4(3,5) s2(5)
      by (intro exI [of _ "Some (p \<noteq> None)"] exI [of _ "consume_fetch cfg s4"]) (cases p, simp_all add: mid_inv_eq)
  qed
qed

text \<open>The loop ends, and each instruction that counts takes at most eight links.\<close>

lemma dispatch_loop_ok:
  assumes "ooo_inv cfg s" "execute_ok cfg" "ifq_ok cfg" "8 * n \<le> rslinks s"
  shows "\<exists>s'. dispatch_loop cfg n s = Some s' \<and> ooo_inv cfg s' \<and> rslinks s \<le> rslinks s' + 8 * n"
  using assms(1,4)
proof (induction "fetch_num s" arbitrary: n s rule: less_induct)
  case less
  let ?stop = "n = 0 \<or> RUU_num s \<ge> RUU_size cfg \<or> LSQ_num s \<ge> LSQ_size cfg \<or> fetch_num s = 0
         \<or> \<not> (ruu_include_spec cfg \<or> \<not> spec_mode s)
         \<or> ruu_inorder_issue cfg \<and> (case last_op s of None \<Rightarrow> False
              | Some (p, tag) \<Rightarrow> tag = rs_tag (stn s p) \<and> \<not> OPERANDS_READY (stn s p))"
  show ?case
  proof (cases ?stop)
    case True
    then show ?thesis using less.prems(1) unfolding dispatch_loop.simps [of cfg n s] if_P [OF True] by auto
  next
    case False
    then have g: "n \<noteq> 0" "RUU_num s < RUU_size cfg" "LSQ_num s < LSQ_size cfg" "fetch_num s \<noteq> 0" by auto
    then have "8 \<le> rslinks s" using less.prems(2) by (cases n) simp_all
    then obtain r s1 where s1: "dispatch_one cfg s = Some (r, s1)" "ooo_inv cfg s1"
      "case r of None \<Rightarrow> s1 = s | Some b \<Rightarrow> fetch_num s1 < fetch_num s \<and> rslinks s \<le> rslinks s1 + (if b then 8 else 0)"
      using dispatch_one_ok [OF less.prems(1) g(2-4) assms(2,3)] by blast
    have eq: "dispatch_loop cfg n s = (case r of None \<Rightarrow> Some s1 | Some b \<Rightarrow> dispatch_loop cfg (if b then n - 1 else n) s1)"
      unfolding dispatch_loop.simps [of cfg n s] if_not_P [OF False] s1(1) bind.bind_lunit prod.case ..
    show ?thesis
    proof (cases r)
      case None
      then show ?thesis using s1(2,3) unfolding eq by simp
    next
      case (Some b)
      obtain n' where n': "n = Suc n'" using g(1) by (cases n) simp_all
      have "8 * (if b then n - 1 else n) \<le> rslinks s1" using s1(3) less.prems(2) Some n' by (simp split: if_splits)
      then obtain s' where "dispatch_loop cfg (if b then n - 1 else n) s1 = Some s'" "ooo_inv cfg s'"
        "rslinks s1 \<le> rslinks s' + 8 * (if b then n - 1 else n)"
        using less.hyps [of s1] s1(2,3) Some by auto
      then show ?thesis using s1(3) Some n' unfolding eq by (intro exI [of _ s']) (simp split: if_splits)
    qed
  qed
qed

lemma ruu_dispatch_ok:
  assumes "ooo_inv cfg s" "execute_ok cfg" "ifq_ok cfg" "8 * (ruu_decode_width cfg * fetch_speed cfg) \<le> rslinks s"
  shows "\<exists>s'. ruu_dispatch cfg s = Some s' \<and> ooo_inv cfg s' \<and> rslinks s \<le> rslinks s' + 8 * (ruu_decode_width cfg * fetch_speed cfg)"
  unfolding ruu_dispatch_def by (rule dispatch_loop_ok [OF assms])

end
