(* ===== verification/Ooo_Fetch.thy ===== *)
theory Ooo_Fetch
  imports Ooo_Dispatch
begin

text \<open>
  The fetch stage: the predictor gives the next address, the slots it fills are what dispatch
  expects, and the invariant is kept.
\<close>

section \<open>The next address\<close>

definition idx_valid :: "('c, 'm) ooo_t \<Rightarrow> word_t \<Rightarrow> bool" where
  "idx_valid s idx \<longleftrightarrow> (\<forall>b. pred s = Some b \<longrightarrow> idx_ok b idx)"

lemma predict_next_ok:
  assumes "pred_ok s L" "record_ok (pred s) up i" "idx_valid s idx"
  shows "\<exists>npc jump up' idx' x. predict_next cfg inst PC up idx s = Some (npc, jump, up', idx', s\<lparr>pred := x\<rparr>)
    \<and> pred_ok (s\<lparr>pred := x\<rparr>) L \<and> record_ok x up' idx' \<and> idx_valid (s\<lparr>pred := x\<rparr>) idx'
    \<and> (\<not> is_ctrl (MD_SET_OPCODE inst) \<longrightarrow> npc = PC + 8)"
proof (cases "pred s")
  case None
  then have e: "s\<lparr>pred := None\<rparr> = s" by simp
  have "predict_next cfg inst PC up idx s = Some (PC + 8, False, up, idx, s\<lparr>pred := None\<rparr>)" using None e by (simp add: predict_next_def)
  moreover have "pred_ok (s\<lparr>pred := None\<rparr>) L" "idx_valid (s\<lparr>pred := None\<rparr>) idx" "record_ok None up idx"
    unfolding e using assms(1) None by (simp_all add: idx_valid_def record_ok_def)
  ultimately show ?thesis by blast
next
  case (Some b)
  let ?op = "MD_SET_OPCODE inst"
  have b: "bpred_ok b" "up_ok b up" "idx_ok b idx" using assms Some by (simp_all add: pred_ok_def record_ok_def idx_valid_def)
  show ?thesis
  proof (cases "is_ctrl ?op")
    case True
    obtain t p up' i' where l: "bpred_lookup b PC 0 ?op (MD_IS_CALL ?op) (MD_IS_RETURN inst ?op) up idx = Some (t, p, up', i')"
      "bpred_ok p" "same_shape p b" "up_ok p up'" "idx_ok p i'"
      using bpred_lookup_ok [OF b(1)] True by blast
    have "predict_next cfg inst PC up idx s
      = Some (if t = 0 then (PC + 8, False, up', i', s\<lparr>pred := Some p\<rparr>) else (t, True, up', i', s\<lparr>pred := Some p\<rparr>))"
      using Some True l(1) by (simp add: predict_next_def Let_def)
    then have "\<exists>npc jump. predict_next cfg inst PC up idx s = Some (npc, jump, up', i', s\<lparr>pred := Some p\<rparr>)" by (cases "t = 0") auto
    moreover have "pred_ok (s\<lparr>pred := Some p\<rparr>) L" using pred_ok_update [OF assms(1) Some l(2,3)] .
    moreover have "record_ok (Some p) up' i'" "idx_valid (s\<lparr>pred := Some p\<rparr>) i'"
      using l(4,5) by (simp_all add: record_ok_def idx_valid_def)
    ultimately show ?thesis using True by blast
  next
    case False
    have e: "s\<lparr>pred := Some b\<rparr> = s" using Some by simp
    have "predict_next cfg inst PC up idx s = Some (PC + 8, False, up, idx, s\<lparr>pred := Some b\<rparr>)"
      using Some False by (simp add: predict_next_def)
    moreover have "pred_ok (s\<lparr>pred := Some b\<rparr>) L" "idx_valid (s\<lparr>pred := Some b\<rparr>) idx" "record_ok (Some b) up idx"
      unfolding e using assms(1) b Some by (simp_all add: idx_valid_def record_ok_def)
    ultimately show ?thesis by blast
  qed
qed

section \<open>Filling a slot\<close>

lemma mid_caches [simp]:
  "mid_inv cfg (s\<lparr>caches := c\<rparr>) = mid_inv cfg s" "mid_inv cfg (s\<lparr>fetch_regs_PC := r\<rparr>) = mid_inv cfg s"
  "mid_inv cfg (s\<lparr>ruu_fetch_issue_delay := n\<rparr>) = mid_inv cfg s" "mid_inv cfg (s\<lparr>sim_cycle := m\<rparr>) = mid_inv cfg s"
  by (simp_all add: mid_inv_def base_ok_def core_def rings_ok_def pred_ok_def ruu_entries_def lsq_entries_def live_def)

lemma inv_caches [simp]:
  "ooo_inv cfg (s\<lparr>caches := c\<rparr>) = ooo_inv cfg s" "ooo_inv cfg (s\<lparr>fetch_regs_PC := r\<rparr>) = ooo_inv cfg s"
  "ooo_inv cfg (s\<lparr>ruu_fetch_issue_delay := n\<rparr>) = ooo_inv cfg s" "ooo_inv cfg (s\<lparr>sim_cycle := m\<rparr>) = ooo_inv cfg s"
  by (simp_all only: mid_inv_eq mid_caches) (simp_all add: fetch_ok_def)

lemma mid_slot:
  assumes "mid_inv cfg s" "record_ok (pred s) (fr_dir_update fr) (fr_stack_idx fr)"
  shows "mid_inv cfg (s\<lparr>fetch_pred_PC := npc, fetch_data := (fetch_data s)(i := fr), fetch_tail := t, fetch_num := n\<rparr>)"
  using assms
  by (simp add: mid_inv_def base_ok_def core_def rings_ok_def pred_ok_def ruu_entries_def lsq_entries_def live_def)

lemma fetch_slot:
  assumes "fetch_ok cfg s" "fetch_num s < ruu_ifq_size cfg" "slot_ok fr"
  shows "fetch_ok cfg (s\<lparr>fetch_pred_PC := npc, fetch_data := (fetch_data s)(fetch_tail s := fr),
    fetch_tail := (fetch_tail s + 1) mod ruu_ifq_size cfg, fetch_num := fetch_num s + 1\<rparr>)"
proof -
  let ?m = "ruu_ifq_size cfg"
  have f: "fetch_head s < ?m" "fetch_tail s = (fetch_head s + fetch_num s) mod ?m"
    "\<And>i. i < fetch_num s \<Longrightarrow> slot_ok (fetch_data s ((fetch_head s + i) mod ?m))"
    using assms(1) by (simp_all add: fetch_ok_def)
  have "(fetch_head s + i) mod ?m \<noteq> (fetch_head s + fetch_num s) mod ?m" if "i < fetch_num s" for i
  proof
    assume "(fetch_head s + i) mod ?m = (fetch_head s + fetch_num s) mod ?m"
    then have "Ruu ((fetch_head s + fetch_num s) mod ?m) \<in> set (ring Ruu ?m (fetch_head s) (fetch_num s))"
      using that by (auto simp: ring_def image_iff intro!: bexI [of _ i])
    then show False using ring_next [OF station_kinds(1) assms(2)] by blast
  qed
  then have "slot_ok (((fetch_data s)((fetch_head s + fetch_num s) mod ?m := fr)) ((fetch_head s + i) mod ?m))"
    if "i < Suc (fetch_num s)" for i
    using that f(3) assms(3) by (cases "i = fetch_num s") simp_all
  then show ?thesis using f(1,2) assms(2) by (simp add: fetch_ok_def mod_Suc_eq del: fun_upd_apply)
qed

lemma fetch_latency_caches:
  obtains lat c where "fetch_latency cfg PC s = (lat, s\<lparr>caches := c\<rparr>)"
proof -
  have e: "s = s\<lparr>caches := caches s\<rparr>" by simp
  have d: "\<exists>l c. data_access port cmd a t = (l, t\<lparr>caches := c\<rparr>)" for port cmd a and t :: "('a, 'b) ooo_t"
  proof (cases rule: data_access_cases [of port cmd a t])
    case none
    moreover have "t = t\<lparr>caches := caches t\<rparr>" by simp
    ultimately show ?thesis by metis
  qed blast
  obtain l1 c1 where "data_access (cache_il1 cfg) Read (IACOMPRESS cfg PC) s = (l1, s\<lparr>caches := c1\<rparr>)" using d by blast
  moreover obtain l2 c2 where "data_access (itlb cfg) Read (IACOMPRESS cfg PC) (s\<lparr>caches := c1\<rparr>) = (l2, (s\<lparr>caches := c1\<rparr>)\<lparr>caches := c2\<rparr>)"
    using d by blast
  ultimately have "\<exists>lat. fetch_latency cfg PC s = (lat, s\<lparr>caches := c2\<rparr>)"
    by (cases l1; cases l2) (simp_all add: fetch_latency_def)
  then show ?thesis using that by blast
qed

section \<open>The loop\<close>

text \<open>The text segment is not at address 0, and the instructions in it name registers.\<close>

definition text_ok :: "('c, 'm) ooo_cfg \<Rightarrow> bool" where
  "text_ok cfg \<longleftrightarrow> ld_text_base cfg \<noteq> 0 \<and> (\<forall>m PC. regs_ok (fetch_inst cfg m PC))"

lemma nop_slot: "regs_ok MD_NOP_INST" "\<not> is_ctrl (MD_SET_OPCODE MD_NOP_INST)"
  by (simp add: regs_ok_def MD_NOP_INST_def RS_def RT_def RD_def) code_simp

lemma fetch_loop_ok:
  assumes "ooo_inv cfg s" "ifq_ok cfg" "text_ok cfg" "idx_valid s idx"
  shows "\<exists>s'. fetch_loop cfg n b idx s = Some s' \<and> ooo_inv cfg s' \<and> rslinks s' = rslinks s"
  using assms(1,4)
proof (induction n arbitrary: b idx s)
  case 0
  then show ?case by simp
next
  case (Suc n)
  define PC where "PC = fetch_pred_PC s"
  define s1 where "s1 = s\<lparr>fetch_regs_PC := PC\<rparr>"
  define ok where "ok \<longleftrightarrow> ld_text_base cfg \<le> PC \<and> PC < ld_text_base cfg + ld_text_size cfg \<and> PC AND 7 = 0"
  define inst where "inst = (if ok then fetch_inst cfg (machine s1) PC else MD_NOP_INST)"
  obtain lat c where s2: "(if ok then fetch_latency cfg PC s1 else (cache_il1_lat cfg, s1)) = (lat, s1\<lparr>caches := c\<rparr>)"
  proof (cases ok)
    case True
    then show ?thesis using fetch_latency_caches [of cfg PC s1] that by auto
  next
    case False
    then show ?thesis using that [of "cache_il1_lat cfg" "caches s1"] by simp
  qed
  define t where "t = s1\<lparr>caches := c\<rparr>"
  have inv: "ooo_inv cfg t" "idx_valid t idx" "rslinks t = rslinks s" "fetch_num t = fetch_num s"
    using Suc.prems by (simp_all add: t_def s1_def) (simp add: idx_valid_def)
  have eq: "fetch_loop cfg (Suc n) b idx s =
    (if fetch_num s \<ge> ruu_ifq_size cfg then Some s
     else if lat \<noteq> cache_il1_lat cfg then Some (t\<lparr>ruu_fetch_issue_delay := ruu_fetch_issue_delay t + (lat - 1)\<rparr>)
     else do {
       (npc, jump, up1, idx1, s3) \<leftarrow> predict_next cfg inst PC (fr_dir_update (fetch_data t (fetch_tail t))) idx t;
       (let fr = \<lparr>fr_IR = inst, fr_PC = PC, fr_pred_PC = npc, fr_dir_update = up1, fr_stack_idx = idx1\<rparr>;
            s4 = s3\<lparr>fetch_pred_PC := npc, fetch_data := (fetch_data s3)(fetch_tail s3 := fr),
                    fetch_tail := (fetch_tail s3 + 1) AND (ruu_ifq_size cfg - 1), fetch_num := fetch_num s3 + 1\<rparr>
        in if jump \<and> b + 1 \<ge> fetch_speed cfg then Some s4 else fetch_loop cfg n (if jump then b + 1 else b) idx1 s4) })"
    unfolding fetch_loop.simps(2) Let_def PC_def [symmetric] s1_def [symmetric] ok_def [symmetric] inst_def [symmetric] s2 prod.case
      t_def [symmetric] ..
  show ?case
  proof (cases "fetch_num s \<ge> ruu_ifq_size cfg \<or> lat \<noteq> cache_il1_lat cfg")
    case True
    then show ?thesis using Suc.prems(1) inv unfolding eq by (cases "fetch_num s \<ge> ruu_ifq_size cfg") simp_all
  next
    case False
    have mid: "mid_inv cfg t" "fetch_ok cfg t" "pred_ok t (live cfg t)" using inv(1) by (simp_all add: mid_inv_eq mid_inv_def base_ok_def)
    then have "record_ok (pred t) (fr_dir_update (fetch_data t (fetch_tail t))) (fr_stack_idx (fetch_data t (fetch_tail t)))"
      by (simp add: pred_ok_def)
    then obtain npc jump up1 idx1 x where p: "predict_next cfg inst PC (fr_dir_update (fetch_data t (fetch_tail t))) idx t
        = Some (npc, jump, up1, idx1, t\<lparr>pred := x\<rparr>)" "pred_ok (t\<lparr>pred := x\<rparr>) (live cfg t)" "record_ok x up1 idx1"
      "idx_valid (t\<lparr>pred := x\<rparr>) idx1" "\<not> is_ctrl (MD_SET_OPCODE inst) \<longrightarrow> npc = PC + 8"
      using predict_next_ok [OF mid(3) _ inv(2)] by blast
    define fr where "fr = \<lparr>fr_IR = inst, fr_PC = PC, fr_pred_PC = npc, fr_dir_update = up1, fr_stack_idx = idx1\<rparr>"
    define s3 where "s3 = t\<lparr>pred := x\<rparr>"
    define s4 where "s4 = s3\<lparr>fetch_pred_PC := npc, fetch_data := (fetch_data s3)(fetch_tail s3 := fr),
      fetch_tail := (fetch_tail s3 + 1) AND (ruu_ifq_size cfg - 1), fetch_num := fetch_num s3 + 1\<rparr>"
    have m3: "mid_inv cfg s3" "fetch_ok cfg s3" "fetch_num s3 < ruu_ifq_size cfg" "pred s3 = x"
      using mid_pred [OF mid(1) p(2)] mid(2) False inv(4) by (simp_all add: s3_def) (simp add: fetch_ok_def)
    have "ok \<Longrightarrow> PC \<noteq> 0" using assms(3) by (auto simp: ok_def text_ok_def)
    then have "slot_ok fr" using p(5) assms(3) nop_slot by (auto simp: slot_ok_def fr_def inst_def text_ok_def)
    then have i4: "ooo_inv cfg s4"
      using mid_slot [OF m3(1), of fr] fetch_slot [OF m3(2,3)] p(3) m3(4)
      unfolding s4_def ifq_and [OF assms(2)] mid_inv_eq by (simp add: fr_def)
    have x4: "idx_valid s4 idx1" "rslinks s4 = rslinks s"
      using p(4) inv(3) by (simp_all add: s4_def s3_def) (simp add: idx_valid_def)
    have eq4: "fetch_loop cfg (Suc n) b idx s = (if jump \<and> b + 1 \<ge> fetch_speed cfg then Some s4 else fetch_loop cfg n (if jump then b + 1 else b) idx1 s4)"
      using False unfolding eq p(1) by (simp add: fr_def s4_def s3_def)
    show ?thesis using Suc.IH [OF i4 x4(1), of "if jump then b + 1 else b"] i4 x4(2) unfolding eq4 by (cases "jump \<and> b + 1 \<ge> fetch_speed cfg") auto
  qed
qed

lemma ruu_fetch_ok:
  assumes "ooo_inv cfg s" "ifq_ok cfg" "text_ok cfg"
  shows "\<exists>s'. ruu_fetch cfg s = Some s' \<and> ooo_inv cfg s' \<and> rslinks s' = rslinks s"
proof -
  have "idx_valid s 0" by (simp add: idx_valid_def idx_ok_def unat_gt_0)
  then show ?thesis unfolding ruu_fetch_def by (rule fetch_loop_ok [OF assms])
qed

end
