(* ===== verification/Ooo_Config.thy ===== *)
theory Ooo_Config
  imports Ooo_Fetch Cache_Inv Misc_Str
begin

text \<open>
  The options of the out-of-order simulator (\<open>sim_check_options()\<close> of sim-outorder.c): the
  branch predictor they name, the sizes and widths, the latencies, the functional units; and
  what the checks establish for the stages.  The strings that describe the caches and the
  TLBs are parsed with \<open>sscanf()\<close> and are left out.
\<close>

section \<open>Functional units\<close>

definition fu_template :: "md_fu_class \<Rightarrow> nat \<Rightarrow> nat \<Rightarrow> res_template" where
  "fu_template c oplat issuelat = \<lparr>rt_class = c, rt_oplat = oplat, rt_issuelat = issuelat, rt_master = 0\<rparr>"

definition fu_config :: "res_desc list" where
  "fu_config =
     [\<lparr>rd_quantity = 4, rd_busy = 0, rd_x = [fu_template IntALU 1 1]\<rparr>,
      \<lparr>rd_quantity = 1, rd_busy = 0, rd_x = [fu_template IntMULT 3 1, fu_template IntDIV 20 19]\<rparr>,
      \<lparr>rd_quantity = 2, rd_busy = 0, rd_x = [fu_template RdPort 1 1, fu_template WrPort 1 1]\<rparr>,
      \<lparr>rd_quantity = 4, rd_busy = 0, rd_x = [fu_template FloatADD 2 1, fu_template FloatCMP 2 1, fu_template FloatCVT 2 1]\<rparr>,
      \<lparr>rd_quantity = 1, rd_busy = 0, rd_x = [fu_template FloatMULT 4 1, fu_template FloatDIV 12 12, fu_template FloatSQRT 24 24]\<rparr>]"

text \<open>The table with the quantities of the options.\<close>

definition sized_units :: "int list \<Rightarrow> res_desc list" where
  "sized_units qs = map2 (\<lambda>d q. d\<lparr>rd_quantity := nat q\<rparr>) fu_config qs"

section \<open>Options\<close>

record ooo_options =
  fastfwd_count :: int
  opt_ifq_size :: int
  opt_branch_penalty :: int
  opt_fetch_speed :: int
  pred_type :: cstr
  bimod_config :: "int list"
  twolev_config :: "int list"
  comb_config :: "int list"
  opt_ras_size :: int
  btb_config :: "int list"
  bpred_spec_opt :: "cstr option"
  opt_decode_width :: int
  opt_issue_width :: int
  opt_commit_width :: int
  opt_RUU_size :: int
  opt_LSQ_size :: int
  opt_dl1_lat :: int
  opt_dl2_lat :: int
  opt_il1_lat :: int
  opt_il2_lat :: int
  opt_mem_lat :: "int list"
  opt_mem_width :: int
  opt_tlb_lat :: int
  res_ialu :: int
  res_imult :: int
  res_memport :: int
  res_fpalu :: int
  res_fpmult :: int

datatype ooo_fatal =
    bad_fastfwd | bad_ifq_size | bad_branch_penalty | bad_fetch_speed
  | bad_bimod | bad_btb | bad_2lev | bad_comb | bad_pred_type | bad_bpred | bad_spec_update
  | bad_decode_width | bad_issue_width | bad_commit_width | bad_RUU_size | bad_LSQ_size
  | bad_cache_lat | bad_mem_lat | bad_mem_width | bad_tlb_lat | bad_units

text \<open>\<open>x < 1 || (x & (x - 1)) != 0\<close>\<close>

definition not_pow2 :: "int \<Rightarrow> bool" where
  "not_pow2 x \<longleftrightarrow> x < 1 \<or> x AND (x - 1) \<noteq> 0"

text \<open>The names of the predictors; \<open>bpred_create()\<close> checks the sizes itself.\<close>

definition opt_is :: "cstr \<Rightarrow> string \<Rightarrow> bool" where
  "opt_is s name \<longleftrightarrow> mystricmp s (cstr_of name) = 0"

definition created :: "bpred_t option \<Rightarrow> ooo_fatal + bpred_t option \<times> bool" where
  "created p = (case p of None \<Rightarrow> Inl bad_bpred | Some b \<Rightarrow> Inr (Some b, False))"

definition check_predictor :: "ooo_options \<Rightarrow> ooo_fatal + bpred_t option \<times> bool" where
  "check_predictor opts =
     (let i = (of_int :: int \<Rightarrow> word_t); ras = i (opt_ras_size opts);
          bimod = bimod_config opts; two = twolev_config opts; comb = comb_config opts; btb = btb_config opts in
      if opt_is (pred_type opts) ''perfect'' then Inr (None, True)
      else if opt_is (pred_type opts) ''taken'' then created (bpred_create BPredTaken 0 0 0 0 0 False 0 0 0)
      else if opt_is (pred_type opts) ''nottaken'' then created (bpred_create BPredNotTaken 0 0 0 0 0 False 0 0 0)
      else if opt_is (pred_type opts) ''bimod'' then
        (if length bimod \<noteq> 1 then Inl bad_bimod
         else if length btb \<noteq> 2 then Inl bad_btb
         else created (bpred_create BPred2bit (i (bimod ! 0)) 0 0 0 0 False (i (btb ! 0)) (i (btb ! 1)) ras))
      else if opt_is (pred_type opts) ''2lev'' then
        (if length two \<noteq> 4 then Inl bad_2lev
         else if length btb \<noteq> 2 then Inl bad_btb
         else created (bpred_create BPred2Level 0 (i (two ! 0)) (i (two ! 1)) 0 (i (two ! 2)) (two ! 3 \<noteq> 0)
                (i (btb ! 0)) (i (btb ! 1)) ras))
      else if opt_is (pred_type opts) ''comb'' then
        (if length two \<noteq> 4 then Inl bad_2lev
         else if length bimod \<noteq> 1 then Inl bad_bimod
         else if length comb \<noteq> 1 then Inl bad_comb
         else if length btb \<noteq> 2 then Inl bad_btb
         else created (bpred_create BPredComb (i (bimod ! 0)) (i (two ! 0)) (i (two ! 1)) (i (comb ! 0)) (i (two ! 2)) (two ! 3 \<noteq> 0)
                (i (btb ! 0)) (i (btb ! 1)) ras))
      else Inl bad_pred_type)"

definition check_spec_update :: "cstr option \<Rightarrow> ooo_fatal + spec_update" where
  "check_spec_update opt =
     (case opt of None \<Rightarrow> Inr spec_CT
      | Some s \<Rightarrow> if opt_is s ''ID'' then Inr spec_ID else if opt_is s ''WB'' then Inr spec_WB else Inl bad_spec_update)"

definition opt_units :: "ooo_options \<Rightarrow> int list" where
  "opt_units opts = [res_ialu opts, res_imult opts, res_memport opts, res_fpalu opts, res_fpmult opts]"

text \<open>The latencies and the units, after the caches.\<close>

definition check_latencies :: "ooo_options \<Rightarrow> ooo_fatal + res_desc list" where
  "check_latencies opts =
     (if opt_dl1_lat opts < 1 \<or> opt_dl2_lat opts < 1 \<or> opt_il1_lat opts < 1 \<or> opt_il2_lat opts < 1 then Inl bad_cache_lat
      else if length (opt_mem_lat opts) \<noteq> 2 \<or> opt_mem_lat opts ! 0 < 1 \<or> opt_mem_lat opts ! 1 < 1 then Inl bad_mem_lat
      else if not_pow2 (opt_mem_width opts) then Inl bad_mem_width
      else if opt_tlb_lat opts < 1 then Inl bad_tlb_lat
      else if \<exists>q \<in> set (opt_units opts). q < 1 \<or> q > int MAX_INSTS_PER_CLASS then Inl bad_units
      else Inr (sized_units (opt_units opts)))"

text \<open>The predictor, whether prediction is perfect, where it is updated, and the units.\<close>

definition ooo_check_options :: "ooo_options \<Rightarrow> ooo_fatal + bpred_t option \<times> bool \<times> spec_update \<times> res_desc list" where
  "ooo_check_options opts =
     (if fastfwd_count opts < 0 \<or> fastfwd_count opts \<ge> 2147483647 then Inl bad_fastfwd
      else if not_pow2 (opt_ifq_size opts) then Inl bad_ifq_size
      else if opt_branch_penalty opts < 1 then Inl bad_branch_penalty
      else if opt_fetch_speed opts < 1 then Inl bad_fetch_speed
      else case check_predictor opts of Inl e \<Rightarrow> Inl e
      | Inr (p, perfect) \<Rightarrow>
        (case check_spec_update (bpred_spec_opt opts) of Inl e \<Rightarrow> Inl e
         | Inr upd \<Rightarrow>
           if not_pow2 (opt_decode_width opts) then Inl bad_decode_width
           else if not_pow2 (opt_issue_width opts) then Inl bad_issue_width
           else if opt_commit_width opts < 1 then Inl bad_commit_width
           else if opt_RUU_size opts < 2 \<or> not_pow2 (opt_RUU_size opts) then Inl bad_RUU_size
           else if opt_LSQ_size opts < 2 \<or> not_pow2 (opt_LSQ_size opts) then Inl bad_LSQ_size
           else (case check_latencies opts of Inl e \<Rightarrow> Inl e | Inr descs \<Rightarrow> Inr (p, perfect, upd, descs))))"

text \<open>The configuration of the stages that the options give.\<close>

definition configure :: "ooo_options \<Rightarrow> bool \<Rightarrow> spec_update \<Rightarrow> ('c, 'm) ooo_cfg \<Rightarrow> ('c, 'm) ooo_cfg" where
  "configure opts perfect upd cfg =
     cfg\<lparr>RUU_size := nat (opt_RUU_size opts), LSQ_size := nat (opt_LSQ_size opts), ruu_ifq_size := nat (opt_ifq_size opts),
         ruu_decode_width := nat (opt_decode_width opts), ruu_issue_width := nat (opt_issue_width opts),
         ruu_commit_width := nat (opt_commit_width opts), ruu_branch_penalty := nat (opt_branch_penalty opts),
         fetch_speed := nat (opt_fetch_speed opts), cache_il1_lat := nat (opt_il1_lat opts),
         pred_perfect := perfect, bpred_spec_update := upd\<rparr>"

definition MAX_RS_LINKS :: nat where "MAX_RS_LINKS = 4096"

section \<open>The pool of units\<close>

lemma enter_templates_ok:
  assumes "\<And>c. length (tab c) + count_list (map rt_class ts) c \<le> MAX_INSTS_PER_CLASS"
  shows "\<exists>tab'. enter_templates i j ts tab = Some tab'
    \<and> (\<forall>c. length (tab' c) = length (tab c) + count_list (map rt_class ts) c
         \<and> (\<forall>u \<in> set (tab' c). u \<in> set (tab c) \<or> fst u = i \<and> j \<le> snd u \<and> snd u < j + length ts))"
  using assms
proof (induction ts arbitrary: j tab)
  case Nil
  then show ?case by simp
next
  case (Cons t ts)
  let ?tab = "tab(rt_class t := tab (rt_class t) @ [(i, j)])"
  have "length (?tab c) + count_list (map rt_class ts) c \<le> MAX_INSTS_PER_CLASS" for c
    using Cons.prems [of c] by (simp split: if_splits)
  then obtain tab' where t: "enter_templates i (j + 1) ts ?tab = Some tab'"
    "\<And>c. length (tab' c) = length (?tab c) + count_list (map rt_class ts) c"
    "\<And>c u. u \<in> set (tab' c) \<Longrightarrow> u \<in> set (?tab c) \<or> fst u = i \<and> j + 1 \<le> snd u \<and> snd u < j + 1 + length ts"
    using Cons.IH [of ?tab "j + 1"] by blast
  have "u \<in> set (tab c) \<or> fst u = i \<and> j \<le> snd u \<and> snd u < j + length (t # ts)" if "u \<in> set (tab' c)" for u c
    using t(3) [OF that] by (auto split: if_splits)
  moreover have "length (tab' c) = length (tab c) + count_list (map rt_class (t # ts)) c" for c
    using t(2) [of c] by auto
  moreover have "\<not> length (tab (rt_class t)) \<ge> MAX_INSTS_PER_CLASS" using Cons.prems [of "rt_class t"] by simp
  then have "enter_templates i j (t # ts) tab = Some tab'" using t(1) by simp
  ultimately show ?case by blast
qed

lemma enter_units_ok:
  assumes "\<And>c. length (tab c) + count_list (concat (map (map rt_class \<circ> rd_x) ds)) c \<le> MAX_INSTS_PER_CLASS"
  shows "\<exists>tab'. enter_units i ds tab = Some tab'
    \<and> (\<forall>c. length (tab' c) = length (tab c) + count_list (concat (map (map rt_class \<circ> rd_x) ds)) c
         \<and> (\<forall>u \<in> set (tab' c). u \<in> set (tab c)
              \<or> i \<le> fst u \<and> fst u < i + length ds \<and> snd u < length (rd_x (ds ! (fst u - i)))))"
  using assms
proof (induction ds arbitrary: i tab)
  case Nil
  then show ?case by simp
next
  case (Cons d ds)
  have cnt: "count_list (concat (map (map rt_class \<circ> rd_x) (d # ds))) c
    = count_list (map rt_class (rd_x d)) c + count_list (concat (map (map rt_class \<circ> rd_x) ds)) c" for c
    by (simp add: count_list_append)
  have "length (tab c) + count_list (map rt_class (rd_x d)) c \<le> MAX_INSTS_PER_CLASS" for c
    using Cons.prems [of c] unfolding cnt by simp
  then obtain tab1 where t1: "enter_templates i 0 (rd_x d) tab = Some tab1"
    "\<And>c. length (tab1 c) = length (tab c) + count_list (map rt_class (rd_x d)) c"
    "\<And>c u. u \<in> set (tab1 c) \<Longrightarrow> u \<in> set (tab c) \<or> fst u = i \<and> snd u < length (rd_x d)"
    using enter_templates_ok [of tab "rd_x d" i 0] by auto
  have "length (tab1 c) + count_list (concat (map (map rt_class \<circ> rd_x) ds)) c \<le> MAX_INSTS_PER_CLASS" for c
    using Cons.prems [of c] unfolding cnt t1(2) by simp
  then obtain tab2 where t2: "enter_units (i + 1) ds tab1 = Some tab2"
    "\<And>c. length (tab2 c) = length (tab1 c) + count_list (concat (map (map rt_class \<circ> rd_x) ds)) c"
    "\<And>c u. u \<in> set (tab2 c) \<Longrightarrow> u \<in> set (tab1 c)
       \<or> i + 1 \<le> fst u \<and> fst u < i + 1 + length ds \<and> snd u < length (rd_x (ds ! (fst u - (i + 1))))"
    using Cons.IH [of tab1 "i + 1"] by blast
  have "u \<in> set (tab c) \<or> i \<le> fst u \<and> fst u < i + length (d # ds) \<and> snd u < length (rd_x ((d # ds) ! (fst u - i)))"
    if "u \<in> set (tab2 c)" for u c
    using t2(3) [OF that] t1(3) [of u c] by (auto simp: nth_Cons' Suc_le_eq)
  moreover have "length (tab2 c) = length (tab c) + count_list (concat (map (map rt_class \<circ> rd_x) (d # ds))) c" for c
    using t1(2) [of c] t2(2) [of c] cnt [of c] by simp
  moreover have "enter_units i (d # ds) tab = Some tab2" using t1(1) t2(1) by simp
  ultimately show ?case by blast
qed

definition unit_list :: "res_desc list \<Rightarrow> res_desc list" where
  "unit_list descs = concat (map (\<lambda>d. replicate (rd_quantity d) d) descs)"

definition live_x :: "res_desc \<Rightarrow> res_template list" where
  "live_x d = takeWhile (\<lambda>t. rt_class t \<noteq> FUClass_NA) (rd_x d)"

lemma instances_nth:
  "length (instances descs) = length (unit_list descs)"
  "i < length (unit_list descs) \<Longrightarrow> rd_x (instances descs ! i) = map (\<lambda>t. t\<lparr>rt_master := i\<rparr>) (live_x (unit_list descs ! i))"
  by (simp_all add: instances_def unit_list_def live_x_def Let_def)

lemma instances_classes:
  "concat (map (map rt_class \<circ> rd_x) (instances descs)) = concat (map (map rt_class \<circ> live_x) (unit_list descs))"
proof -
  have "map (map rt_class \<circ> rd_x) (instances descs) = map (map rt_class \<circ> live_x) (unit_list descs)"
    by (rule nth_equalityI) (simp_all add: instances_nth comp_def)
  then show ?thesis by simp
qed

lemma count_units:
  "count_list (concat (map f (unit_list descs))) c = sum_list (map (\<lambda>d. rd_quantity d * count_list (f d) c) descs)"
proof -
  have "count_list (concat (map f (replicate n d))) c = n * count_list (f d) c" for n d
    by (induction n) (simp_all add: count_list_append)
  then show ?thesis by (induction descs) (simp_all add: unit_list_def count_list_append)
qed

text \<open>The pool that the descriptors give, when no class has too many units and each has one.\<close>

lemma res_create_pool_ok:
  assumes "\<And>d. d \<in> set descs \<Longrightarrow> rd_quantity d \<le> MAX_INSTS_PER_CLASS \<and> (\<forall>t \<in> set (rd_x d). 0 < rt_oplat t)"
    "\<And>c. sum_list (map (\<lambda>d. rd_quantity d * count_list (map rt_class (live_x d)) c) descs) \<le> MAX_INSTS_PER_CLASS"
    "\<And>c. c \<noteq> FUClass_NA \<Longrightarrow> 0 < sum_list (map (\<lambda>d. rd_quantity d * count_list (map rt_class (live_x d)) c) descs)"
  shows "\<exists>pool. res_create_pool descs = Some pool \<and> pool_ok pool"
proof -
  let ?n = "\<lambda>c. sum_list (map (\<lambda>d. rd_quantity d * count_list (map rt_class (live_x d)) c) descs)"
  have cnt: "count_list (concat (map (map rt_class \<circ> rd_x) (instances descs))) c = ?n c" for c
    unfolding instances_classes count_units by simp
  obtain tab where t: "enter_units 0 (instances descs) (\<lambda>_. []) = Some tab" "\<And>c. length (tab c) = ?n c"
    "\<And>c u. u \<in> set (tab c) \<Longrightarrow> fst u < length (instances descs) \<and> snd u < length (rd_x (instances descs ! fst u))"
    using enter_units_ok [of "\<lambda>_. []" "instances descs" 0] assms(2) unfolding cnt by auto
  have "\<not> list_ex (\<lambda>d. rd_quantity d > MAX_INSTS_PER_CLASS) descs" using assms(1) by (auto simp: list_ex_iff not_less)
  then have pool: "res_create_pool descs = Some \<lparr>resources = instances descs, res_table = tab\<rparr>"
    using t(1) by (simp add: res_create_pool_def Let_def)
  have "tab c \<noteq> []" if "c \<noteq> FUClass_NA" for c 
  proof
    assume "tab c = []"
    then have "?n c = 0" using t(2) [of c] by (metis list.size(3))
    then show False using assms(3) [OF that] by linarith
  qed
  moreover have "fst u < length (instances descs) \<and> snd u < length (rd_x (instances descs ! fst u))
      \<and> 0 < rt_oplat (rd_x (instances descs ! fst u) ! snd u) \<and> rt_master (rd_x (instances descs ! fst u) ! snd u) < length (instances descs)"
    if "u \<in> set (tab c)" for u c
  proof -
    let ?d = "unit_list descs ! fst u"
    have u: "fst u < length (unit_list descs)" "snd u < length (live_x ?d)"
      using t(3) [OF that] instances_nth(2) [of "fst u" descs] by (simp_all add: instances_nth(1))
    have "?d \<in> set (unit_list descs)" using u(1) by (rule nth_mem)
    then have "?d \<in> set descs" by (auto simp: unit_list_def)
    moreover have "live_x ?d ! snd u \<in> set (rd_x ?d)"
      using nth_mem [OF u(2)] unfolding live_x_def by (rule set_takeWhileD [THEN conjunct1])
    ultimately have "0 < rt_oplat (live_x ?d ! snd u)" using assms(1) by blast
    then show ?thesis using u by (simp add: instances_nth)
  qed
  ultimately have "pool_ok \<lparr>resources = instances descs, res_table = tab\<rparr>"
    by (simp add: pool_ok_def units_ok_def)
  then show ?thesis using pool by blast
qed

lemma sized_units_ok:
  assumes "qs = [a, b, c, d, e]" "\<And>q. q \<in> set qs \<Longrightarrow> 1 \<le> q \<and> q \<le> int MAX_INSTS_PER_CLASS"
  shows "\<exists>pool. res_create_pool (sized_units qs) = Some pool \<and> pool_ok pool"
proof -
  note qs = assms(1)
  have n: "0 < x \<and> nat x \<le> 8" if "x \<in> {a, b, c, d, e}" for x
  proof -
    have "x \<in> set qs" using that qs by simp
    then have "1 \<le> x \<and> x \<le> 8" using assms(2) by (simp add: MAX_INSTS_PER_CLASS_def)
    then show ?thesis by arith
  qed
  note n = n [of a, simplified] n [of b, simplified] n [of c, simplified] n [of d, simplified] n [of e, simplified]
  show ?thesis
  proof (rule res_create_pool_ok)
    fix x assume "x \<in> set (sized_units qs)"
    then show "rd_quantity x \<le> MAX_INSTS_PER_CLASS \<and> (\<forall>t \<in> set (rd_x x). 0 < rt_oplat t)"
      using n by (auto simp: qs sized_units_def fu_config_def fu_template_def MAX_INSTS_PER_CLASS_def)
  next
    fix k :: md_fu_class
    show "sum_list (map (\<lambda>d. rd_quantity d * count_list (map rt_class (live_x d)) k) (sized_units qs)) \<le> MAX_INSTS_PER_CLASS"
      using n by (cases k) (simp_all add: qs sized_units_def fu_config_def fu_template_def live_x_def MAX_INSTS_PER_CLASS_def)
    assume "k \<noteq> FUClass_NA"
    then show "0 < sum_list (map (\<lambda>d. rd_quantity d * count_list (map rt_class (live_x d)) k) (sized_units qs))"
      using n by (cases k) (simp_all add: qs sized_units_def fu_config_def fu_template_def live_x_def)
  qed
qed

section \<open>What the checks establish\<close>

lemma pow2_int:
  assumes "\<not> not_pow2 x"
  shows "1 \<le> x" "\<exists>k. nat x = 2 ^ k"
proof -
  show x: "1 \<le> x" using assms by (simp add: not_pow2_def)
  have "int (nat x AND (nat x - 1)) = int (nat x) AND int (nat x - 1)" by (rule of_nat_and_eq)
  also have "\<dots> = x AND (x - 1)" using x by (simp add: int_ops)
  finally have "nat x AND (nat x - 1) = 0" using assms by (simp add: not_pow2_def)
  then show "\<exists>k. nat x = 2 ^ k" using nat_pow2_iff [of "nat x"] x by simp
qed

text \<open>The sizes of the target buffer and the return stack, which an int can hold.\<close>

definition sizes_ok :: "bpred_t option \<Rightarrow> bool" where
  "sizes_ok p \<longleftrightarrow> (case p of None \<Rightarrow> True
     | Some b \<Rightarrow> unat (btb_sets b) * unat (btb_assoc b) < 2 ^ 31 \<and> unat (ras_size b) \<le> 2 ^ 30)"

lemma accepted:
  assumes "ooo_check_options opts = Inr (p, perfect, upd, descs)"
  shows "\<not> not_pow2 (opt_ifq_size opts)" "\<not> not_pow2 (opt_decode_width opts)" "\<not> not_pow2 (opt_issue_width opts)"
    "\<not> not_pow2 (opt_RUU_size opts)" "\<not> not_pow2 (opt_LSQ_size opts)" "2 \<le> opt_RUU_size opts" "2 \<le> opt_LSQ_size opts"
    "0 < opt_commit_width opts" "0 < opt_fetch_speed opts" "\<exists>pool. res_create_pool descs = Some pool \<and> pool_ok pool"
    "check_predictor opts = Inr (p, perfect)"
proof -
  show "\<not> not_pow2 (opt_ifq_size opts)" "\<not> not_pow2 (opt_decode_width opts)" "\<not> not_pow2 (opt_issue_width opts)"
    "\<not> not_pow2 (opt_RUU_size opts)" "\<not> not_pow2 (opt_LSQ_size opts)" "2 \<le> opt_RUU_size opts" "2 \<le> opt_LSQ_size opts"
    "0 < opt_commit_width opts" "0 < opt_fetch_speed opts" "check_predictor opts = Inr (p, perfect)"
    using assms by (auto simp: ooo_check_options_def split: if_splits sum.splits prod.splits)
  have "check_latencies opts = Inr descs"
    using assms by (auto simp: ooo_check_options_def split: if_splits sum.splits prod.splits)
  then have d: "\<not> (\<exists>q \<in> set (opt_units opts). q < 1 \<or> q > int MAX_INSTS_PER_CLASS)" "descs = sized_units (opt_units opts)"
    by (auto simp: check_latencies_def split: if_splits)
  show "\<exists>pool. res_create_pool descs = Some pool \<and> pool_ok pool"
    unfolding d(2) by (rule sized_units_ok [OF opt_units_def]) (use d(1) in \<open>meson not_less\<close>)
qed

lemma options_ok:
  assumes "ooo_check_options opts = Inr (p, perfect, upd, descs)"
  shows "ifq_ok (configure opts perfect upd cfg)" "0 < RUU_size (configure opts perfect upd cfg)"
    "0 < LSQ_size (configure opts perfect upd cfg)" "\<exists>pool. res_create_pool descs = Some pool \<and> pool_ok pool"
    "check_predictor opts = Inr (p, perfect)"
  using accepted [OF assms] pow2_int(2) by (simp_all add: ifq_ok_def configure_def)

text \<open>
  C22: whatever options \<open>sim_check_options()\<close> accepts, the fetch queue, the widths and both
  station queues have sizes that are powers of two, the queues have at least two stations, the
  commit width and the fetch speed are positive, and the functional unit table that it fills in
  makes a pool without exceeding \<open>MAX_INSTS_PER_CLASS\<close>, in which every class of instructions has
  a unit with a positive latency, so that no search for a unit can fail its assertion.\<close>

theorem ooo_options_sound:
  assumes "ooo_check_options opts = Inr (p, perfect, upd, descs)" "cfg = configure opts perfect upd cfg0"
  shows "(\<exists>k. ruu_ifq_size cfg = 2 ^ k) \<and> (\<exists>k. ruu_decode_width cfg = 2 ^ k) \<and> (\<exists>k. ruu_issue_width cfg = 2 ^ k)
    \<and> (\<exists>k. RUU_size cfg = 2 ^ k) \<and> (\<exists>k. LSQ_size cfg = 2 ^ k) \<and> 2 \<le> RUU_size cfg \<and> 2 \<le> LSQ_size cfg
    \<and> 0 < ruu_commit_width cfg \<and> 0 < fetch_speed cfg
    \<and> (\<exists>pool. res_create_pool descs = Some pool \<and> pool_ok pool \<and> (\<forall>c. c \<noteq> FUClass_NA \<longrightarrow> res_get pool c \<noteq> None))"
proof -
  note o = accepted [OF assms(1)]
  obtain pool where "res_create_pool descs = Some pool" "pool_ok pool" using o(10) by blast
  moreover from this(2) have "res_get pool c \<noteq> None" if "c \<noteq> FUClass_NA" for c
    using that by (simp add: res_get_def pool_ok_def units_ok_def)
  ultimately have p: "\<exists>pool. res_create_pool descs = Some pool \<and> pool_ok pool \<and> (\<forall>c. c \<noteq> FUClass_NA \<longrightarrow> res_get pool c \<noteq> None)"
    by blast
  have f: "ruu_ifq_size cfg = nat (opt_ifq_size opts)" "ruu_decode_width cfg = nat (opt_decode_width opts)"
    "ruu_issue_width cfg = nat (opt_issue_width opts)" "RUU_size cfg = nat (opt_RUU_size opts)" "LSQ_size cfg = nat (opt_LSQ_size opts)"
    "ruu_commit_width cfg = nat (opt_commit_width opts)" "fetch_speed cfg = nat (opt_fetch_speed opts)"
    by (simp_all add: assms(2) configure_def)
  show ?thesis unfolding f by (intro conjI p pow2_int(2) o(1-5)) (use o(6-9) in simp_all)
qed

text \<open>The default options.\<close>

definition default_options :: ooo_options where
  "default_options =
     \<lparr>fastfwd_count = 0, opt_ifq_size = 4, opt_branch_penalty = 3, opt_fetch_speed = 1, pred_type = cstr_of ''bimod'',
      bimod_config = [2048], twolev_config = [1, 1024, 8, 0], comb_config = [1024], opt_ras_size = 8, btb_config = [512, 4],
      bpred_spec_opt = None, opt_decode_width = 4, opt_issue_width = 4, opt_commit_width = 4, opt_RUU_size = 16,
      opt_LSQ_size = 8, opt_dl1_lat = 1, opt_dl2_lat = 6, opt_il1_lat = 1, opt_il2_lat = 6, opt_mem_lat = [18, 2],
      opt_mem_width = 8, opt_tlb_lat = 30, res_ialu = 4, res_imult = 1, res_memport = 2, res_fpalu = 4, res_fpmult = 1\<rparr>"

lemma default_accepted:
  "\<exists>b. ooo_check_options default_options = Inr (Some b, False, spec_CT, sized_units [4, 1, 2, 4, 1]) \<and> sizes_ok (Some b)"
proof -
  have n: "opt_is (cstr_of ''bimod'') ''perfect'' = False" "opt_is (cstr_of ''bimod'') ''taken'' = False"
    "opt_is (cstr_of ''bimod'') ''nottaken'' = False" "opt_is (cstr_of ''bimod'') ''bimod'' = True"
    by code_simp+
  have "\<exists>b. bpred_create BPred2bit 2048 0 0 0 0 False 512 4 8 = Some b \<and> sizes_ok (Some b)"
    by (simp add: bpred_create_def create_dirs_def bpred_dir_create_2bit_def pow2_def sizes_ok_def)
  then obtain b where b: "bpred_create BPred2bit 2048 0 0 0 0 False 512 4 8 = Some b" "sizes_ok (Some b)" by blast
  have "check_predictor default_options = Inr (Some b, False)"
    using b(1) by (simp add: check_predictor_def default_options_def n created_def)
  then show ?thesis using b(2)
    by (simp add: ooo_check_options_def default_options_def check_spec_update_def check_latencies_def opt_units_def
        not_pow2_def MAX_INSTS_PER_CLASS_def)
qed

lemma ooo_options_sound_witness:
  "\<exists>b pool. ooo_check_options default_options = Inr (Some b, False, spec_CT, sized_units [4, 1, 2, 4, 1])
    \<and> res_create_pool (sized_units [4, 1, 2, 4, 1]) = Some pool \<and> res_get pool FloatSQRT \<noteq> None"
proof -
  obtain b where b: "ooo_check_options default_options = Inr (Some b, False, spec_CT, sized_units [4, 1, 2, 4, 1])"
    using default_accepted by blast
  have "\<exists>pool. res_create_pool (sized_units [4, 1, 2, 4, 1]) = Some pool \<and> pool_ok pool
      \<and> (\<forall>c. c \<noteq> FUClass_NA \<longrightarrow> res_get pool c \<noteq> None)"
    using ooo_options_sound [OF b refl] by blast
  then show ?thesis using b by blast
qed

end
