(* ===== verification/Ooo_Cycle.thy ===== *)
theory Ooo_Cycle
  imports Ooo_Config
begin

text \<open>
  The main loop of the out-of-order simulator: the invariant holds at its start and every
  cycle keeps it, so that with enough links left no cycle panics.
\<close>

section \<open>The start\<close>


section \<open>One cycle\<close>

text \<open>What the stages rely on: the sizes of the configuration, and the parameters.\<close>

definition machine_ok :: "('c, 'm) ooo_cfg \<Rightarrow> bool" where
  "machine_ok cfg \<longleftrightarrow> LSQ_size cfg \<le> MAX_STD_UNKNOWNS \<and> latency_ok cfg \<and> execute_ok cfg \<and> text_ok cfg"



text \<open>
  The contract of a stage: from a state of the invariant with \<open>need\<close> links left it returns such
  a state, and at most \<open>cost\<close> links fewer are left.
\<close>

locale stage =
  fixes I :: "'s \<Rightarrow> bool" and links :: "'s \<Rightarrow> nat" and f :: "'s \<Rightarrow> 's option" and need :: nat and cost :: nat
  assumes returns: "I s \<Longrightarrow> need \<le> links s \<Longrightarrow> \<exists>s'. f s = Some s' \<and> I s' \<and> links s \<le> links s' + cost"
begin

lemma keeps:
  assumes "I s" "need \<le> links s"
  obtains s' where "f s = Some s'" "I s'" "links s \<le> links s' + cost"
  using returns [OF assms] by blast

lemma weaken: "need \<le> m \<Longrightarrow> cost \<le> n \<Longrightarrow> I s \<Longrightarrow> m \<le> links s \<Longrightarrow> \<exists>s'. f s = Some s' \<and> I s' \<and> links s \<le> links s' + n"
  using returns [of s] by fastforce

end

text \<open>One stage after the other.\<close>

locale stage_pair = first: stage I links f n c + second: stage I links g m d
  for I :: "'s \<Rightarrow> bool" and links :: "'s \<Rightarrow> nat" and f :: "'s \<Rightarrow> 's option" and n :: nat and c :: nat
    and g :: "'s \<Rightarrow> 's option" and m :: nat and d :: nat

sublocale stage_pair \<subseteq> both: stage I links "\<lambda>s. f s \<bind> g" "max n (c + m)" "c + d"
proof
  fix s assume s: "I s" "max n (c + m) \<le> links s"
  obtain s1 where s1: "f s = Some s1" "I s1" "links s \<le> links s1 + c" using first.keeps [of s] s by auto
  obtain s2 where "g s1 = Some s2" "I s2" "links s1 \<le> links s2 + d" using second.keeps [of s1] s(2) s1 by auto
  then show "\<exists>s'. f s \<bind> g = Some s' \<and> I s' \<and> links s \<le> links s' + (c + d)" using s1(1,3) by auto
qed

text \<open>The stages of a cycle, on the states of the invariant of a configuration that is accepted.\<close>

definition cycle_inv :: "('c, 'm) ooo_cfg \<Rightarrow> ('c, 'm) ooo_t \<Rightarrow> bool" where
  "cycle_inv cfg s \<longleftrightarrow> ooo_inv cfg s \<and> machine_ok cfg \<and> ifq_ok cfg"

definition width :: "('c, 'm) ooo_cfg \<Rightarrow> nat" where
  "width cfg = 8 * (ruu_decode_width cfg * fetch_speed cfg)"


interpretation commit: stage "cycle_inv cfg" rslinks "ruu_commit cfg" 0 0 for cfg :: "('c, 'm) ooo_cfg"
  by unfold_locales (use ruu_commit_ok in \<open>fastforce simp: cycle_inv_def\<close>)

interpretation writeback: stage "cycle_inv cfg" rslinks "\<lambda>s. ruu_writeback cfg (ruu_release_fu s)" 1 0 for cfg :: "('c, 'm) ooo_cfg"
proof
  fix s :: "('c, 'm) ooo_t" assume "cycle_inv cfg s" "1 \<le> rslinks s"
  then show "\<exists>s'. ruu_writeback cfg (ruu_release_fu s) = Some s' \<and> cycle_inv cfg s' \<and> rslinks s \<le> rslinks s' + 0"
    using ruu_writeback_ok [OF release_fu_ok(1)] release_fu_ok(2) ifq_pos unfolding cycle_inv_def by fastforce
qed

interpretation issue: stage "cycle_inv cfg" rslinks "issue_stage cfg" "LSQ_size cfg + 1" "LSQ_size cfg" for cfg :: "('c, 'm) ooo_cfg"
proof
  fix s :: "('c, 'm) ooo_t" assume "cycle_inv cfg s" "LSQ_size cfg + 1 \<le> rslinks s"
  then show "\<exists>s'. issue_stage cfg s = Some s' \<and> cycle_inv cfg s' \<and> rslinks s \<le> rslinks s' + LSQ_size cfg"
    using issue_stage_ok [of cfg s] unfolding cycle_inv_def machine_ok_def by fastforce
qed

interpretation dispatch: stage "cycle_inv cfg" rslinks "ruu_dispatch cfg" "width cfg" "width cfg" for cfg :: "('c, 'm) ooo_cfg"
proof
  fix s :: "('c, 'm) ooo_t" assume "cycle_inv cfg s" "width cfg \<le> rslinks s"
  then show "\<exists>s'. ruu_dispatch cfg s = Some s' \<and> cycle_inv cfg s' \<and> rslinks s \<le> rslinks s' + width cfg"
    using ruu_dispatch_ok [of cfg s] unfolding cycle_inv_def machine_ok_def width_def by blast
qed


interpretation back_end: stage_pair "cycle_inv cfg" rslinks "ruu_commit cfg" 0 0
    "\<lambda>s. ruu_writeback cfg (ruu_release_fu s)" 1 0 for cfg :: "('c, 'm) ooo_cfg"
  by unfold_locales










section \<open>From the options to the run\<close>







end
