(* ===== verification/Loader.thy ===== *)
theory Loader
  imports Mem_Copy Pisa
begin

text \<open>
  The standalone program loader of target-pisa/loader.c, and what the copy of it in
  Project1/part2 changes.  A program file is a byte list; its headers are the structures of
  ecoff.h as a little-endian host reads them.  A \<open>fatal()\<close> is an \<open>ld_error\<close>; \<open>None\<close> is an
  execution that does not return.  External I/O traces and the loader over the BFD library
  are left out.
\<close>

section \<open>Results\<close>

datatype ld_error =
    cannot_open | cannot_read_header | wrong_endian_format | alpha_binary | bad_magic
  | cannot_read_aout | cannot_read_section | out_of_virtual_memory | cannot_seek
  | cannot_read_contents | missing_text | missing_data | missing_entry | endian_mismatch
  | environment_overflow | cannot_read_inst | cannot_write_inst

type_synonym 'a ld_result = "(ld_error + 'a) option"

definition and_then :: "'a ld_result \<Rightarrow> ('a \<Rightarrow> 'b ld_result) \<Rightarrow> 'b ld_result" where
  "and_then x f = (case x of None \<Rightarrow> None | Some (Inl e) \<Rightarrow> Some (Inl e) | Some (Inr a) \<Rightarrow> f a)"

lemma and_then_simps [simp]:
  "and_then None f = None" "and_then (Some (Inl e)) f = Some (Inl e)"
  "and_then (Some (Inr a)) f = f a"
  by (simp_all add: and_then_def)

lemma and_then_Inr:
  "and_then x f = Some (Inr b) \<longleftrightarrow> (\<exists>a. x = Some (Inr a) \<and> f a = Some (Inr b))"
  by (auto simp: and_then_def split: option.splits sum.splits)

section \<open>The file\<close>

text \<open>\<open>fread()\<close> of one item of \<open>n\<close> bytes: an item of no bytes counts as not read.\<close>

definition fread_item :: "byte_t list \<Rightarrow> nat \<Rightarrow> nat \<Rightarrow> byte_t list option" where
  "fread_item file pos n =
     (if n \<noteq> 0 \<and> pos + n \<le> length file then Some (take n (drop pos file)) else None)"

definition half_at :: "byte_t list \<Rightarrow> nat \<Rightarrow> half_t" where
  "half_at bs k = half_of_bytes (take 2 (drop k bs))"

definition word_at :: "byte_t list \<Rightarrow> nat \<Rightarrow> word_t" where
  "word_at bs k = word_of_bytes (take 4 (drop k bs))"

definition ECOFF_EB_MAGIC :: half_t where "ECOFF_EB_MAGIC = 0x0160"
definition ECOFF_EB_OTHER :: half_t where "ECOFF_EB_OTHER = 0x6001"
definition ECOFF_EL_MAGIC :: half_t where "ECOFF_EL_MAGIC = 0x0162"
definition ECOFF_EL_OTHER :: half_t where "ECOFF_EL_OTHER = 0x6201"
definition ECOFF_ALPHAMAGIC :: half_t where "ECOFF_ALPHAMAGIC = 0x183"

definition ECOFF_STYP_TEXT :: word_t where "ECOFF_STYP_TEXT = 0x0020"
definition ECOFF_STYP_RDATA :: word_t where "ECOFF_STYP_RDATA = 0x0100"
definition ECOFF_STYP_DATA :: word_t where "ECOFF_STYP_DATA = 0x0040"
definition ECOFF_STYP_SDATA :: word_t where "ECOFF_STYP_SDATA = 0x0200"

record ecoff_filehdr =
  f_magic :: half_t
  f_nscns :: half_t
  f_timdat :: word_t
  f_symptr :: word_t
  f_nsyms :: word_t
  f_opthdr :: half_t
  f_flags :: half_t

record ecoff_aouthdr =
  ao_magic :: half_t
  ao_vstamp :: half_t
  ao_tsize :: word_t
  ao_dsize :: word_t
  ao_bsize :: word_t
  ao_entry :: word_t
  ao_text_start :: word_t
  ao_data_start :: word_t
  ao_bss_start :: word_t
  ao_gprmask :: word_t
  ao_cprmask :: "word_t list"
  ao_gp_value :: word_t

record ecoff_scnhdr =
  s_name :: "byte_t list"
  s_paddr :: word_t
  s_vaddr :: word_t
  s_size :: word_t
  s_scnptr :: word_t
  s_relptr :: word_t
  s_lnnoptr :: word_t
  s_nreloc :: half_t
  s_nlnno :: half_t
  s_flags :: word_t

text \<open>The structures as they lie in the file, without padding.\<close>

definition filehdr_of :: "byte_t list \<Rightarrow> ecoff_filehdr" where
  "filehdr_of bs = \<lparr>f_magic = half_at bs 0, f_nscns = half_at bs 2, f_timdat = word_at bs 4,
     f_symptr = word_at bs 8, f_nsyms = word_at bs 12, f_opthdr = half_at bs 16,
     f_flags = half_at bs 18\<rparr>"

definition aouthdr_of :: "byte_t list \<Rightarrow> ecoff_aouthdr" where
  "aouthdr_of bs = \<lparr>ao_magic = half_at bs 0, ao_vstamp = half_at bs 2, ao_tsize = word_at bs 4,
     ao_dsize = word_at bs 8, ao_bsize = word_at bs 12, ao_entry = word_at bs 16,
     ao_text_start = word_at bs 20, ao_data_start = word_at bs 24, ao_bss_start = word_at bs 28,
     ao_gprmask = word_at bs 32,
     ao_cprmask = [word_at bs 36, word_at bs 40, word_at bs 44, word_at bs 48],
     ao_gp_value = word_at bs 52\<rparr>"

definition scnhdr_of :: "byte_t list \<Rightarrow> ecoff_scnhdr" where
  "scnhdr_of bs = \<lparr>s_name = take 8 bs, s_paddr = word_at bs 8, s_vaddr = word_at bs 12,
     s_size = word_at bs 16, s_scnptr = word_at bs 20, s_relptr = word_at bs 24,
     s_lnnoptr = word_at bs 28, s_nreloc = half_at bs 32, s_nlnno = half_at bs 34,
     s_flags = word_at bs 36\<rparr>"

section \<open>The state of the loader\<close>

definition TEXT_TAIL_PADDING :: word_t where "TEXT_TAIL_PADDING = 128"
definition MD_TEXT_BASE :: md_addr_t where "MD_TEXT_BASE = 0x00400000"
definition MD_DATA_BASE :: md_addr_t where "MD_DATA_BASE = 0x10000000"
definition MD_STACK_BASE :: md_addr_t where "MD_STACK_BASE = 0x7fffc000"
definition MD_MAX_ENVIRON :: md_addr_t where "MD_MAX_ENVIRON = 16384"
definition MD_REG_SP :: nat where "MD_REG_SP = 29"

definition ROUND_UP :: "word_t \<Rightarrow> word_t \<Rightarrow> word_t" where
  "ROUND_UP n align = (n + (align - 1)) AND NOT (align - 1)"

definition ROUND_DOWN :: "word_t \<Rightarrow> word_t \<Rightarrow> word_t" where
  "ROUND_DOWN n align = n AND NOT (align - 1)"

record ld_t =
  ld_text_base :: md_addr_t
  ld_text_size :: word_t
  ld_data_base :: md_addr_t
  ld_data_size :: word_t
  ld_brk_point :: md_addr_t
  ld_stack_base :: md_addr_t
  ld_stack_size :: word_t
  ld_stack_min :: md_addr_t
  ld_prog_entry :: md_addr_t
  ld_environ_base :: md_addr_t
  ld_target_big_endian :: bool

definition ld_init :: ld_t where
  "ld_init = \<lparr>ld_text_base = 0, ld_text_size = 0, ld_data_base = 0, ld_data_size = 0,
     ld_brk_point = 0, ld_stack_base = MD_STACK_BASE, ld_stack_size = 0, ld_stack_min = - 1,
     ld_prog_entry = 0, ld_environ_base = 0, ld_target_big_endian = False\<rparr>"

section \<open>Sections\<close>

text \<open>
  The contents of a section.  The file of Project 1 has the read of a data section inside a
  comment, so there the buffer stays as \<open>calloc()\<close> made it.
\<close>

definition alloc_and_seek :: "ecoff_scnhdr \<Rightarrow> (ld_error + nat) option" where
  "alloc_and_seek shdr =
     (if s_size shdr \<ge> 0x80000000 then Some (Inl out_of_virtual_memory)
      else if s_scnptr shdr \<ge> 0x80000000 then Some (Inl cannot_seek)
      else Some (Inr (unat (s_scnptr shdr))))"

definition read_contents :: "byte_t list \<Rightarrow> ecoff_scnhdr \<Rightarrow> byte_t list ld_result" where
  "read_contents file shdr = and_then (alloc_and_seek shdr) (\<lambda>pos.
     case fread_item file pos (unat (s_size shdr)) of
       None \<Rightarrow> Some (Inl cannot_read_contents)
     | Some p \<Rightarrow> Some (Inr p))"

definition p1_data_contents :: "byte_t list \<Rightarrow> ecoff_scnhdr \<Rightarrow> byte_t list ld_result" where
  "p1_data_contents file shdr = and_then (alloc_and_seek shdr) (\<lambda>_.
     Some (Inr (replicate (unat (s_size shdr)) 0)))"

definition load_text :: "byte_t list \<Rightarrow> ecoff_scnhdr \<Rightarrow> mem_t \<times> ld_t \<Rightarrow> (mem_t \<times> ld_t) ld_result" where
  "load_text file shdr s = (case s of (mem, ld) \<Rightarrow>
     let ld1 = ld\<lparr>ld_text_size := ((s_vaddr shdr + s_size shdr) - MD_TEXT_BASE) + TEXT_TAIL_PADDING\<rparr> in
     and_then (read_contents file shdr) (\<lambda>p. do {
       (_, _, mem1) \<leftarrow> mem_bcopy mem_access mem Write (s_vaddr shdr) p (sint (s_size shdr));
       (_, mem2) \<leftarrow> mem_bzero mem_access mem1 (s_vaddr shdr + s_size shdr) (sint TEXT_TAIL_PADDING);
       Some (Inr (mem2, ld1)) }))"

definition load_data :: "(byte_t list \<Rightarrow> ecoff_scnhdr \<Rightarrow> byte_t list ld_result) \<Rightarrow>
    byte_t list \<Rightarrow> ecoff_scnhdr \<Rightarrow> mem_t \<times> ld_t \<Rightarrow> (mem_t \<times> ld_t) ld_result" where
  "load_data contents file shdr s = (case s of (mem, ld) \<Rightarrow>
     and_then (contents file shdr) (\<lambda>p. do {
       (_, _, mem1) \<leftarrow> mem_bcopy mem_access mem Write (s_vaddr shdr) p (sint (s_size shdr));
       Some (Inr (mem1, ld)) }))"

definition load_section :: "(byte_t list \<Rightarrow> ecoff_scnhdr \<Rightarrow> byte_t list ld_result) \<Rightarrow>
    byte_t list \<Rightarrow> ecoff_scnhdr \<Rightarrow> mem_t \<times> ld_t \<Rightarrow> (mem_t \<times> ld_t) ld_result" where
  "load_section contents file shdr s =
     (if s_flags shdr = ECOFF_STYP_TEXT then load_text file shdr s
      else if s_flags shdr = ECOFF_STYP_RDATA \<or> s_flags shdr = ECOFF_STYP_DATA \<or>
              s_flags shdr = ECOFF_STYP_SDATA then load_data contents file shdr s
      else Some (Inr s))"

fun load_sections :: "(byte_t list \<Rightarrow> ecoff_scnhdr \<Rightarrow> byte_t list ld_result) \<Rightarrow>
    byte_t list \<Rightarrow> nat \<Rightarrow> nat \<Rightarrow> mem_t \<times> ld_t \<Rightarrow> (mem_t \<times> ld_t) ld_result" where
  "load_sections contents file floc 0 s = Some (Inr s)"
| "load_sections contents file floc (Suc n) s =
     (case fread_item file floc 40 of
        None \<Rightarrow> Some (Inl cannot_read_section)
      | Some bs \<Rightarrow> and_then (load_section contents file (scnhdr_of bs) s)
                    (load_sections contents file (floc + 40) n))"

section \<open>The whole file\<close>

text \<open>\<open>record endian of target\<close>: the magic number, or the reason to refuse it.\<close>

definition check_magic :: "half_t \<Rightarrow> bool ld_result" where
  "check_magic magic =
     (if magic = ECOFF_EB_MAGIC then Some (Inr True)
      else if magic = ECOFF_EL_MAGIC then Some (Inr False)
      else if magic = ECOFF_EB_OTHER \<or> magic = ECOFF_EL_OTHER then Some (Inl wrong_endian_format)
      else if magic = ECOFF_ALPHAMAGIC then Some (Inl alpha_binary)
      else Some (Inl bad_magic))"

definition load_file :: "(byte_t list \<Rightarrow> ecoff_scnhdr \<Rightarrow> byte_t list ld_result) \<Rightarrow>
    byte_t list option \<Rightarrow> mem_t \<times> ld_t \<Rightarrow> (mem_t \<times> ld_t) ld_result" where
  "load_file contents fobj s = (case s of (mem, ld) \<Rightarrow>
     let sp = ROUND_DOWN (MD_STACK_BASE - MD_MAX_ENVIRON) 8;
         ld1 = ld\<lparr>ld_stack_base := MD_STACK_BASE, ld_stack_size := MD_STACK_BASE - sp,
                  ld_environ_base := sp\<rparr>
     in case fobj of
          None \<Rightarrow> Some (Inl cannot_open)
        | Some file \<Rightarrow>
            case fread_item file 0 20 of
              None \<Rightarrow> Some (Inl cannot_read_header)
            | Some fb \<Rightarrow>
                let fhdr = filehdr_of fb in
                and_then (check_magic (f_magic fhdr)) (\<lambda>big.
                  case fread_item file 20 56 of
                    None \<Rightarrow> Some (Inl cannot_read_aout)
                  | Some ab \<Rightarrow>
                      let ahdr = aouthdr_of ab;
                          data_break = MD_DATA_BASE + ao_dsize ahdr + ao_bsize ahdr
                      in and_then
                           (load_sections contents file (20 + unat (f_opthdr fhdr))
                              (unat (f_nscns fhdr)) (mem, ld1\<lparr>ld_target_big_endian := big\<rparr>))
                           (\<lambda>(mem1, ld2). Some (Inr (mem1, ld2\<lparr>ld_text_base := MD_TEXT_BASE,
                              ld_data_base := MD_DATA_BASE, ld_prog_entry := ao_entry ahdr,
                              ld_data_size := data_break - MD_DATA_BASE\<rparr>)))))"

text \<open>
  The sanity checks.  Project 1 has the one of the data segment inside a comment
  (\<open>data_required\<close>).  A host is little-endian here.
\<close>

definition check_segments :: "bool \<Rightarrow> ld_t \<Rightarrow> unit ld_result" where
  "check_segments data_required ld =
     (if ld_text_base ld = 0 \<or> ld_text_size ld = 0 then Some (Inl missing_text)
      else if data_required \<and> (ld_data_base ld = 0 \<or> ld_data_size ld = 0) then Some (Inl missing_data)
      else if ld_prog_entry ld = 0 then Some (Inl missing_entry)
      else if ld_target_big_endian ld then Some (Inl endian_mismatch)
      else Some (Inr ()))"

section \<open>The initial stack\<close>

text \<open>
  \<open>put_word\<close> is a call of \<open>mem_access()\<close> for one word, its fault ignored.
  \<open>put_strings\<close> is the loop over \<open>argv\<close> and the one over \<open>envp\<close>: \<open>addr\<close> is the place of the
  next pointer, \<open>sp\<close> that of the next string.
\<close>

definition put_word :: "mem_t \<Rightarrow> md_addr_t \<Rightarrow> word_t \<Rightarrow> mem_t option" where
  "put_word mem addr w = do {
     (_, _, mem1) \<leftarrow> mem_access mem Write addr (bytes_of_word w) 4;
     Some mem1 }"

fun put_strings :: "mem_t \<Rightarrow> md_addr_t \<Rightarrow> md_addr_t \<Rightarrow> byte_t list list \<Rightarrow>
    (mem_t \<times> md_addr_t \<times> md_addr_t) option" where
  "put_strings mem addr sp [] = Some (mem, addr, sp)"
| "put_strings mem addr sp (s # ss) = do {
     mem1 \<leftarrow> put_word mem addr sp;
     (_, _, mem2) \<leftarrow> mem_strcpy mem_access mem1 Write sp (s @ [0]);
     put_strings mem2 (addr + 4) (sp + of_nat (length s) + 1) ss }"

definition build_stack :: "mem_t \<Rightarrow> md_addr_t \<Rightarrow> byte_t list list \<Rightarrow> byte_t list list \<Rightarrow>
    (mem_t \<times> md_addr_t) option" where
  "build_stack mem sp0 argv envp = do {
     mem1 \<leftarrow> put_word mem sp0 (of_nat (length argv));
     let argv_addr = sp0 + 4;
     let envp_addr = argv_addr + (of_nat (length argv) + 1) * 4;
     let sp = envp_addr + of_nat (length envp) * 4 + 4;
     (mem2, a_end, sp1) \<leftarrow> put_strings mem1 argv_addr sp argv;
     mem3 \<leftarrow> put_word mem2 a_end 0;
     (mem4, e_end, sp2) \<leftarrow> put_strings mem3 envp_addr sp1 envp;
     mem5 \<leftarrow> put_word mem4 e_end 0;
     Some (mem5, sp2) }"

section \<open>Predecoding the text\<close>

definition bytes_of_inst :: "md_inst_t \<Rightarrow> byte_t list" where
  "bytes_of_inst inst = bytes_of_word (inst_a inst) @ bytes_of_word (inst_b inst)"

definition inst_of_bytes :: "byte_t list \<Rightarrow> md_inst_t" where
  "inst_of_bytes bs = \<lparr>inst_a = word_at bs 0, inst_b = word_at bs 4\<rparr>"

partial_function (option) predecode_loop ::
  "(nat \<Rightarrow> word_t) \<Rightarrow> md_addr_t \<Rightarrow> mem_t \<Rightarrow> md_addr_t \<Rightarrow> mem_t ld_result" where
  "predecode_loop md_mask2op text_end mem addr =
     (if addr < text_end then do {
        (fault, bs, mem1) \<leftarrow> mem_access mem Read addr (replicate 8 0) 8;
        if fault \<noteq> md_fault_none then Some (Inl cannot_read_inst)
        else do {
          (fault1, _, mem2) \<leftarrow> mem_access mem1 Write addr
             (bytes_of_inst (predecode md_mask2op (inst_of_bytes bs))) 8;
          if fault1 \<noteq> md_fault_none then Some (Inl cannot_write_inst)
          else predecode_loop md_mask2op text_end mem2 (addr + 8) } }
      else Some (Inr mem))"

section \<open>Loading a program\<close>

definition finish_load :: "regs_t \<Rightarrow> ld_t \<Rightarrow> regs_t \<times> ld_t" where
  "finish_load regs ld =
     (regs\<lparr>regs_R := (regs_R regs)(MD_REG_SP := ld_environ_base ld), regs_PC := ld_prog_entry ld\<rparr>,
      ld\<lparr>ld_brk_point := ROUND_UP (ld_data_base ld + ld_data_size ld) (of_nat MD_PAGE_SIZE),
         ld_stack_min := regs_R regs MD_REG_SP\<rparr>)"

definition load_program :: "(byte_t list \<Rightarrow> ecoff_scnhdr \<Rightarrow> byte_t list ld_result) \<Rightarrow> bool \<Rightarrow>
    (nat \<Rightarrow> word_t) \<Rightarrow> byte_t list option \<Rightarrow> byte_t list list \<Rightarrow> byte_t list list \<Rightarrow>
    regs_t \<Rightarrow> mem_t \<Rightarrow> ld_t \<Rightarrow> (regs_t \<times> mem_t \<times> ld_t) ld_result" where
  "load_program contents data_required md_mask2op fobj argv envp regs mem ld =
     and_then (load_file contents fobj (mem, ld)) (\<lambda>(mem1, ld1).
     and_then (check_segments data_required ld1) (\<lambda>_. do {
       (mem2, sp) \<leftarrow> build_stack mem1 (ld_environ_base ld1) argv envp;
       if sp > ld_stack_base ld1 then Some (Inl environment_overflow)
       else case finish_load regs ld1 of (regs1, ld2) \<Rightarrow>
         and_then (predecode_loop md_mask2op (ld_text_base ld2 + ld_text_size ld2) mem2 (ld_text_base ld2))
           (\<lambda>mem3. Some (Inr (regs1, mem3, ld2))) }))"

text \<open>\<open>ld_load_prog()\<close> of SimpleScalar and of Project 1.\<close>

definition ld_load_prog where
  "ld_load_prog = load_program read_contents True"

definition p1_ld_load_prog where
  "p1_ld_load_prog = load_program p1_data_contents False"

section \<open>What the sections leave in memory\<close>

text \<open>The headers of a file, the bytes of a section, and the flat view with a section stored.\<close>

definition section_headers :: "byte_t list \<Rightarrow> nat \<Rightarrow> nat \<Rightarrow> ecoff_scnhdr list" where
  "section_headers file floc n = map (\<lambda>i. scnhdr_of (take 40 (drop (floc + 40 * i) file))) [0..<n]"

definition file_headers :: "byte_t list \<Rightarrow> ecoff_scnhdr list" where
  "file_headers file = (let fhdr = filehdr_of (take 20 file) in
     section_headers file (20 + unat (f_opthdr fhdr)) (unat (f_nscns fhdr)))"

definition section_bytes :: "byte_t list \<Rightarrow> ecoff_scnhdr \<Rightarrow> byte_t list" where
  "section_bytes file h = take (unat (s_size h)) (drop (unat (s_scnptr h)) file)"

definition data_section :: "ecoff_scnhdr \<Rightarrow> bool" where
  "data_section h \<longleftrightarrow> s_flags h \<in> {ECOFF_STYP_RDATA, ECOFF_STYP_DATA, ECOFF_STYP_SDATA}"

definition section_image :: "(byte_t list \<Rightarrow> ecoff_scnhdr \<Rightarrow> byte_t list) \<Rightarrow> byte_t list \<Rightarrow>
    view \<Rightarrow> ecoff_scnhdr \<Rightarrow> view" where
  "section_image data_bytes file v h =
     (if s_flags h = ECOFF_STYP_TEXT
      then view_store (view_store v (s_vaddr h) (section_bytes file h)) (s_vaddr h + s_size h)
             (replicate 128 0)
      else if data_section h then view_store v (s_vaddr h) (data_bytes file h) else v)"

definition file_image :: "(byte_t list \<Rightarrow> ecoff_scnhdr \<Rightarrow> byte_t list) \<Rightarrow> byte_t list \<Rightarrow> view \<Rightarrow> view" where
  "file_image data_bytes file v = foldl (section_image data_bytes file) v (file_headers file)"

text \<open>The text size a list of sections leaves: that of the last text section.\<close>

definition section_text_size :: "word_t \<Rightarrow> ecoff_scnhdr \<Rightarrow> word_t" where
  "section_text_size n h =
     (if s_flags h = ECOFF_STYP_TEXT then ((s_vaddr h + s_size h) - MD_TEXT_BASE) + TEXT_TAIL_PADDING
      else n)"

text \<open>A section the file has: some bytes, all of them in the file.\<close>

definition section_ok :: "byte_t list \<Rightarrow> ecoff_scnhdr \<Rightarrow> bool" where
  "section_ok file h \<longleftrightarrow> 0 < s_size h \<and> s_size h < 0x80000000 \<and> s_scnptr h < 0x80000000 \<and>
     unat (s_scnptr h) + unat (s_size h) \<le> length file"

text \<open>
  What the loader needs of the routine that fetches a data section: on the sections it
  accepts it gives a buffer of the section's size, and it fails on the others.
\<close>

locale section_reader =
  fixes contents :: "byte_t list \<Rightarrow> ecoff_scnhdr \<Rightarrow> byte_t list ld_result"
    and data_bytes :: "byte_t list \<Rightarrow> ecoff_scnhdr \<Rightarrow> byte_t list"
    and data_ok :: "byte_t list \<Rightarrow> ecoff_scnhdr \<Rightarrow> bool"
  assumes contents_ok: "data_ok file h \<Longrightarrow> contents file h = Some (Inr (data_bytes file h)) \<and>
      length (data_bytes file h) = unat (s_size h) \<and> s_size h < 0x80000000"
    and contents_fail: "\<not> data_ok file h \<Longrightarrow> \<exists>e. contents file h = Some (Inl e)"

lemma read_contents_ok:
  "section_ok file h \<Longrightarrow> read_contents file h = Some (Inr (section_bytes file h)) \<and>
   length (section_bytes file h) = unat (s_size h) \<and> s_size h < 0x80000000"
  by (auto simp: section_ok_def read_contents_def alloc_and_seek_def fread_item_def section_bytes_def
      not_le unat_gt_0)

lemma read_contents_fail: "\<not> section_ok file h \<Longrightarrow> \<exists>e. read_contents file h = Some (Inl e)"
  by (auto simp: section_ok_def read_contents_def alloc_and_seek_def fread_item_def not_le word_gt_0
      split: option.splits if_splits)

lemma nat_sint_small: "w < 0x80000000 \<Longrightarrow> nat (sint (w :: word_t)) = unat w"
  using sint_small [of w] by (simp add: word_less_nat_alt)

lemma bcopy_section:
  assumes "mem_inv mem" "length p = unat (n :: word_t)" "n < 0x80000000"
  shows "\<exists>mem1. mem_bcopy mem_access mem Write a p (sint n) = Some (md_fault_none, p, mem1) \<and>
    mem_inv mem1 \<and> mem_view mem1 = view_store (mem_view mem) a p"
  using access.bcopy_write_spec [OF assms(1), of "unat n" p a] assms(2)
  by (simp add: mem_bcopy_def nat_sint_small [OF assms(3)])

lemma bzero_padding:
  assumes "mem_inv mem"
  shows "\<exists>mem1. mem_bzero mem_access mem a (sint TEXT_TAIL_PADDING) = Some (md_fault_none, mem1) \<and>
    mem_inv mem1 \<and> mem_view mem1 = view_store (mem_view mem) a (replicate 128 0)"
  using access.bzero_spec [OF assms, of a 128] by (simp add: mem_bzero_def TEXT_TAIL_PADDING_def)

text \<open>Which sections load, and that the table of headers lies in the file.\<close>

definition section_loads :: "(byte_t list \<Rightarrow> ecoff_scnhdr \<Rightarrow> bool) \<Rightarrow> byte_t list \<Rightarrow> ecoff_scnhdr \<Rightarrow> bool" where
  "section_loads data_ok file h \<longleftrightarrow>
     (if s_flags h = ECOFF_STYP_TEXT then section_ok file h else data_section h \<longrightarrow> data_ok file h)"

definition sections_load :: "(byte_t list \<Rightarrow> ecoff_scnhdr \<Rightarrow> bool) \<Rightarrow> byte_t list \<Rightarrow> nat \<Rightarrow> nat \<Rightarrow> bool" where
  "sections_load data_ok file floc n \<longleftrightarrow> (n = 0 \<or> floc + 40 * n \<le> length file) \<and>
     list_all (section_loads data_ok file) (section_headers file floc n)"

lemma section_headers_Suc:
  "section_headers file floc (Suc n) =
     scnhdr_of (take 40 (drop floc file)) # section_headers file (floc + 40) n"
  by (simp add: section_headers_def map_upt_Suc algebra_simps del: upt_Suc)

context section_reader
begin

lemma load_text_spec:
  assumes inv: "mem_inv mem"
  shows "if section_ok file h
    then \<exists>mem1. load_text file h (mem, ld) = Some (Inr (mem1, ld\<lparr>ld_text_size :=
        ((s_vaddr h + s_size h) - MD_TEXT_BASE) + TEXT_TAIL_PADDING\<rparr>)) \<and> mem_inv mem1 \<and>
      mem_view mem1 = view_store (view_store (mem_view mem) (s_vaddr h) (section_bytes file h))
        (s_vaddr h + s_size h) (replicate 128 0)
    else \<exists>e. load_text file h (mem, ld) = Some (Inl e)"
proof (cases "section_ok file h")
  case True
  note p = read_contents_ok [OF True]
  obtain mem1 where m1: "mem_bcopy mem_access mem Write (s_vaddr h) (section_bytes file h) (sint (s_size h)) =
      Some (md_fault_none, section_bytes file h, mem1)" "mem_inv mem1"
      "mem_view mem1 = view_store (mem_view mem) (s_vaddr h) (section_bytes file h)"
    using bcopy_section [OF inv, of "section_bytes file h" "s_size h"] p by blast
  obtain mem2 where "mem_bzero mem_access mem1 (s_vaddr h + s_size h) (sint TEXT_TAIL_PADDING) =
      Some (md_fault_none, mem2)" "mem_inv mem2"
      "mem_view mem2 = view_store (mem_view mem1) (s_vaddr h + s_size h) (replicate 128 0)"
    using bzero_padding [OF m1(2)] by blast
  then show ?thesis using True p m1 by (simp add: load_text_def)
next
  case False
  then show ?thesis using read_contents_fail [OF False] by (auto simp: load_text_def)
qed

lemma load_data_spec:
  assumes inv: "mem_inv mem"
  shows "if data_ok file h
    then \<exists>mem1. load_data contents file h (mem, ld) = Some (Inr (mem1, ld)) \<and> mem_inv mem1 \<and>
      mem_view mem1 = view_store (mem_view mem) (s_vaddr h) (data_bytes file h)
    else \<exists>e. load_data contents file h (mem, ld) = Some (Inl e)"
proof (cases "data_ok file h")
  case True
  note p = contents_ok [OF True]
  show ?thesis
    using True p bcopy_section [OF inv, of "data_bytes file h" "s_size h" "s_vaddr h"]
    by (auto simp: load_data_def)
next
  case False
  then show ?thesis using contents_fail [OF False] by (auto simp: load_data_def)
qed

lemma load_section_spec:
  assumes inv: "mem_inv mem"
  shows "if section_loads data_ok file h
    then \<exists>mem1. load_section contents file h (mem, ld) =
        Some (Inr (mem1, ld\<lparr>ld_text_size := section_text_size (ld_text_size ld) h\<rparr>)) \<and>
      mem_inv mem1 \<and> mem_view mem1 = section_image data_bytes file (mem_view mem) h
    else \<exists>e. load_section contents file h (mem, ld) = Some (Inl e)"
  using load_text_spec [OF inv, of "file" h ld] load_data_spec [OF inv, of "file" h ld] inv
  by (auto simp: load_section_def section_loads_def section_image_def section_text_size_def
      data_section_def split: if_splits)

lemma load_sections_spec:
  "mem_inv mem \<Longrightarrow> if sections_load data_ok file floc n
    then \<exists>mem1. load_sections contents file floc n (mem, ld) =
        Some (Inr (mem1, ld\<lparr>ld_text_size :=
          foldl section_text_size (ld_text_size ld) (section_headers file floc n)\<rparr>)) \<and>
      mem_inv mem1 \<and>
      mem_view mem1 = foldl (section_image data_bytes file) (mem_view mem) (section_headers file floc n)
    else \<exists>e. load_sections contents file floc n (mem, ld) = Some (Inl e)"
proof (induction n arbitrary: floc mem ld)
  case 0
  then show ?case by (simp add: sections_load_def section_headers_def)
next
  case (Suc n)
  let ?h = "scnhdr_of (take 40 (drop floc file))"
  let ?ld = "ld\<lparr>ld_text_size := section_text_size (ld_text_size ld) ?h\<rparr>"
  show ?case
  proof (cases "floc + 40 \<le> length file")
    case True
    then have bs: "fread_item file floc 40 = Some (take 40 (drop floc file))" by (simp add: fread_item_def)
    have sl: "sections_load data_ok file floc (Suc n) \<longleftrightarrow>
        section_loads data_ok file ?h \<and> sections_load data_ok file (floc + 40) n"
      using True by (auto simp: sections_load_def section_headers_Suc)
    show ?thesis
    proof (cases "section_loads data_ok file ?h")
      case True
      then obtain mem1 where m1: "load_section contents file ?h (mem, ld) = Some (Inr (mem1, ?ld))" "mem_inv mem1"
          "mem_view mem1 = section_image data_bytes file (mem_view mem) ?h"
        using load_section_spec [OF Suc.prems, of "file" ?h ld] by auto
      from Suc.IH [OF m1(2), of "floc + 40" ?ld] True show ?thesis
        unfolding sl by (auto simp: bs m1(1,3) section_headers_Suc split: if_splits)
    next
      case False
      then show ?thesis
        using load_section_spec [OF Suc.prems, of "file" ?h ld] unfolding sl by (auto simp: bs)
    qed
  next
    case False
    then have "\<not> sections_load data_ok file floc (Suc n)" by (auto simp: sections_load_def)
    then show ?thesis using False by (simp add: fread_item_def)
  qed
qed

end

interpretation stock: section_reader read_contents section_bytes section_ok
  by unfold_locales (rule read_contents_ok, assumption, rule read_contents_fail)

definition zero_bytes :: "byte_t list \<Rightarrow> ecoff_scnhdr \<Rightarrow> byte_t list" where
  "zero_bytes file h = replicate (unat (s_size h)) 0"

definition zero_ok :: "byte_t list \<Rightarrow> ecoff_scnhdr \<Rightarrow> bool" where
  "zero_ok file h \<longleftrightarrow> s_size h < 0x80000000 \<and> s_scnptr h < 0x80000000"

interpretation project1: section_reader p1_data_contents zero_bytes zero_ok
  by unfold_locales (auto simp: p1_data_contents_def alloc_and_seek_def zero_bytes_def zero_ok_def not_le)

end
