(* ===== verification/Loader_Stack.thy ===== *)
theory Loader_Stack
  imports Loader
begin

text \<open>
  The initial stack as the loader builds it: its image over a flat view, the call of
  \<open>build_stack\<close> that writes it, and the argument and environment vectors a program finds
  in any view that keeps the image.
\<close>

section \<open>The stack image\<close>

fun strings_image :: "view \<Rightarrow> md_addr_t \<Rightarrow> md_addr_t \<Rightarrow> byte_t list list \<Rightarrow> view" where
  "strings_image v addr sp [] = v"
| "strings_image v addr sp (s # ss) =
     strings_image (view_store (view_set_word v addr sp) sp (s @ [0]))
       (addr + 4) (sp + of_nat (length s) + 1) ss"

text \<open>The bytes of a list of strings with their terminators.\<close>

definition strings_size :: "byte_t list list \<Rightarrow> nat" where
  "strings_size ss = sum_list (map (\<lambda>s. length s + 1) ss)"

lemma strings_size_simps [simp]:
  "strings_size [] = 0" "strings_size (s # ss) = length s + 1 + strings_size ss"
  by (simp_all add: strings_size_def)

definition stack_image :: "byte_t list list \<Rightarrow> byte_t list list \<Rightarrow> md_addr_t \<Rightarrow> view \<Rightarrow> view" where
  "stack_image argv envp sp0 v =
     (let n = of_nat (length argv); k = of_nat (length envp);
          sp = sp0 + 4 + (n + 1) * 4 + k * 4 + 4;
          v1 = view_set_word v sp0 n;
          v2 = strings_image v1 (sp0 + 4) sp argv;
          v3 = view_set_word v2 (sp0 + 4 + n * 4) 0;
          v4 = strings_image v3 (sp0 + 4 + (n + 1) * 4) (sp + of_nat (strings_size argv)) envp
      in view_set_word v4 (sp0 + 4 + (n + 1) * 4 + k * 4) 0)"

definition stack_end :: "byte_t list list \<Rightarrow> byte_t list list \<Rightarrow> md_addr_t \<Rightarrow> md_addr_t" where
  "stack_end argv envp sp0 = sp0 + 4 + (of_nat (length argv) + 1) * 4 + of_nat (length envp) * 4 + 4 +
     of_nat (strings_size argv) + of_nat (strings_size envp)"

lemma aligned4_mult: "aligned4 a \<Longrightarrow> aligned4 (a + of_nat n * 4)"
proof (induction n arbitrary: a)
  case (Suc n)
  have "a + of_nat (Suc n) * 4 = (a + 4) + of_nat n * 4" by (simp add: algebra_simps)
  moreover have "aligned4 ((a + 4) + of_nat n * 4)"
    using Suc.IH [of "a + 4"] Suc.prems by (simp only: aligned4_step)
  ultimately show ?case by (simp only:)
qed simp

lemma put_word_spec:
  assumes "mem_inv mem" "aligned4 a"
  shows "\<exists>mem1. put_word mem a w = Some mem1 \<and> mem_inv mem1 \<and>
    mem_view mem1 = view_set_word (mem_view mem) a w"
  using mem_access_write_ok [OF assms(1), of a 4 "bytes_of_word w"] assms(2)
  by (auto simp: put_word_def view_set_word_store)

lemma put_strings_spec:
  "mem_inv mem \<Longrightarrow> aligned4 addr \<Longrightarrow> \<forall>s \<in> set ss. 0 \<notin> set s \<Longrightarrow>
   \<exists>mem1. put_strings mem addr sp ss =
       Some (mem1, addr + of_nat (length ss) * 4, sp + of_nat (strings_size ss)) \<and>
     mem_inv mem1 \<and> mem_view mem1 = strings_image (mem_view mem) addr sp ss"
proof (induction ss arbitrary: mem addr sp)
  case (Cons s ss)
  obtain m1 where m1: "put_word mem addr sp = Some m1" "mem_inv m1"
      "mem_view m1 = view_set_word (mem_view mem) addr sp"
    using put_word_spec [OF Cons.prems(1,2)] by blast
  obtain m2 where m2: "strcpy_write mem_access m1 sp (s @ [0]) = Some (md_fault_none, m2)" "mem_inv m2"
      "mem_view m2 = view_store (mem_view m1) sp (s @ [0])"
    using access.strcpy_write_spec [OF m1(2), of s sp "[]"] Cons.prems(3) by auto
  have al: "aligned4 (addr + 4)" using Cons.prems(2) by (simp add: aligned4_step)
  obtain m3 where m3: "put_strings m2 (addr + 4) (sp + of_nat (length s) + 1) ss =
      Some (m3, addr + 4 + of_nat (length ss) * 4,
        sp + of_nat (length s) + 1 + of_nat (strings_size ss))" "mem_inv m3"
      "mem_view m3 = strings_image (mem_view m2) (addr + 4) (sp + of_nat (length s) + 1) ss"
    using Cons.IH [OF m2(2) al, of "sp + of_nat (length s) + 1"] Cons.prems(3) by auto
  then show ?case using m1 m2 by (simp add: mem_strcpy_def algebra_simps)
qed simp

lemma build_stack_spec:
  assumes inv: "mem_inv mem" and al: "aligned4 sp0" and nz: "\<forall>s \<in> set argv \<union> set envp. 0 \<notin> set s"
  shows "\<exists>mem1. build_stack mem sp0 argv envp = Some (mem1, stack_end argv envp sp0) \<and>
    mem_inv mem1 \<and> mem_view mem1 = stack_image argv envp sp0 (mem_view mem)"
proof -
  let ?n = "of_nat (length argv) :: md_addr_t" and ?k = "of_nat (length envp) :: md_addr_t"
  let ?sp = "sp0 + 4 + (?n + 1) * 4 + ?k * 4 + 4"
  have al1: "aligned4 (sp0 + 4)" using al by (simp add: aligned4_step)
  have al2: "aligned4 (sp0 + 4 + ?n * 4)" by (rule aligned4_mult [OF al1])
  have al3: "aligned4 (sp0 + 4 + (?n + 1) * 4)"
    using aligned4_mult [OF al1, of "Suc (length argv)"] by (simp add: algebra_simps)
  have al4: "aligned4 (sp0 + 4 + (?n + 1) * 4 + ?k * 4)" by (rule aligned4_mult [OF al3])
  obtain m1 where m1: "put_word mem sp0 ?n = Some m1" "mem_inv m1"
      "mem_view m1 = view_set_word (mem_view mem) sp0 ?n" using put_word_spec [OF inv al] by blast
  obtain m2 where m2: "put_strings m1 (sp0 + 4) ?sp argv =
      Some (m2, sp0 + 4 + ?n * 4, ?sp + of_nat (strings_size argv))" "mem_inv m2"
      "mem_view m2 = strings_image (mem_view m1) (sp0 + 4) ?sp argv"
    using put_strings_spec [OF m1(2) al1, of argv ?sp] nz by auto
  obtain m3 where m3: "put_word m2 (sp0 + 4 + ?n * 4) 0 = Some m3" "mem_inv m3"
      "mem_view m3 = view_set_word (mem_view m2) (sp0 + 4 + ?n * 4) 0"
    using put_word_spec [OF m2(2) al2] by blast
  obtain m4 where m4: "put_strings m3 (sp0 + 4 + (?n + 1) * 4) (?sp + of_nat (strings_size argv)) envp =
      Some (m4, sp0 + 4 + (?n + 1) * 4 + ?k * 4, ?sp + of_nat (strings_size argv) + of_nat (strings_size envp))"
      "mem_inv m4"
      "mem_view m4 = strings_image (mem_view m3) (sp0 + 4 + (?n + 1) * 4) (?sp + of_nat (strings_size argv)) envp"
    using put_strings_spec [OF m3(2) al3, of envp "?sp + of_nat (strings_size argv)"] nz by auto
  obtain m5 where m5: "put_word m4 (sp0 + 4 + (?n + 1) * 4 + ?k * 4) 0 = Some m5" "mem_inv m5"
      "mem_view m5 = view_set_word (mem_view m4) (sp0 + 4 + (?n + 1) * 4 + ?k * 4) 0"
    using put_word_spec [OF m4(2) al4] by blast
  show ?thesis
    using m1 m2 m3 m4 m5 by (auto simp: build_stack_def stack_image_def stack_end_def Let_def)
qed

section \<open>Stores that do not meet\<close>

lemma in_run_iff:
  fixes a b :: md_addr_t
  assumes "unat a + n \<le> 4294967296"
  shows "unat (b - a) < n \<longleftrightarrow> unat a \<le> unat b \<and> unat b < unat a + n"
proof (cases "a \<le> b")
  case True
  then have "unat (b - a) = unat b - unat a" "unat a \<le> unat b"
    by (simp_all add: unat_sub word_le_nat_alt)
  then show ?thesis by auto
next
  case False
  then have lt: "unat b < unat a" by (simp add: word_less_nat_alt not_le)
  have "unat (b - a) = 4294967296 + unat b - unat a"
    using unat_sub_if_size [of b a] lt by (simp add: word_size)
  with lt assms show ?thesis by auto
qed

lemma view_store_off:
  assumes "unat a + length bs \<le> 4294967296" "length bs < 4294967296" "unat b < unat a \<or> unat a + length bs \<le> unat b"
  shows "view_store v a bs b = v b"
  using assms by (subst view_store_nth) (auto simp: in_run_iff)

lemma view_set_word_off:
  assumes "unat a + 4 \<le> 4294967296" "unat b < unat a \<or> unat a + 4 \<le> unat b"
  shows "view_set_word v a w b = v b"
  using assms view_store_off [of a "bytes_of_word w" b v] by (simp add: view_set_word_store)

lemma unat_add_small:
  assumes "unat (a :: md_addr_t) + n < 4294967296"
  shows "unat (a + of_nat n) = unat a + n"
proof -
  have "unat (of_nat n :: md_addr_t) = n" using assms by (simp add: unat_of_nat)
  then show ?thesis using assms by (simp add: unat_word_ariths)
qed

lemma view_bytes_cong:
  "(\<And>k. k < n \<Longrightarrow> v (a + of_nat k) = v' (a + of_nat k)) \<Longrightarrow> view_bytes v a n = view_bytes v' a n"
  by (auto intro!: nth_equalityI simp: view_bytes_nth)

lemma view_word_cong:
  "(\<And>k. k < 4 \<Longrightarrow> v (a + of_nat k) = v' (a + of_nat k)) \<Longrightarrow> view_word v a = view_word v' a"
  unfolding view_word_bytes by (rule arg_cong [OF view_bytes_cong])

lemma strings_image_outside:
  "unat addr + 4 * length ss \<le> unat sp \<Longrightarrow> unat sp + strings_size ss < 4294967296 \<Longrightarrow>
   \<not> (unat addr \<le> unat x \<and> unat x < unat addr + 4 * length ss) \<Longrightarrow>
   \<not> (unat sp \<le> unat x \<and> unat x < unat sp + strings_size ss) \<Longrightarrow> strings_image v addr sp ss x = v x"
proof (induction ss arbitrary: v addr sp)
  case (Cons s ss)
  have a: "unat (addr + 4) = unat addr + 4"
    using unat_add_small [of addr 4] Cons.prems(1,2) by simp
  have s: "unat (sp + of_nat (length s) + 1) = unat sp + length s + 1"
    using unat_add_small [of sp "length s + 1"] Cons.prems(2) by (simp add: algebra_simps)
  have "strings_image v addr sp (s # ss) x = view_store (view_set_word v addr sp) sp (s @ [0]) x"
    unfolding strings_image.simps by (rule Cons.IH) (use Cons.prems in \<open>auto simp: a s\<close>)
  also have "\<dots> = view_set_word v addr sp x"
    by (rule view_store_off) (use Cons.prems in auto)
  also have "\<dots> = v x" by (rule view_set_word_off) (use Cons.prems in auto)
  finally show ?case .
qed simp

text \<open>Each pointer is to its string.\<close>

lemma strings_image_at:
  "unat addr + 4 * length ss \<le> unat sp \<Longrightarrow> unat sp + strings_size ss < 4294967296 \<Longrightarrow> i < length ss \<Longrightarrow>
   view_word (strings_image v addr sp ss) (addr + of_nat i * 4) = sp + of_nat (strings_size (take i ss)) \<and>
   view_bytes (strings_image v addr sp ss) (sp + of_nat (strings_size (take i ss))) (length (ss ! i) + 1) =
     ss ! i @ [0]"
proof (induction ss arbitrary: v addr sp i)
  case (Cons s ss)
  let ?v = "view_store (view_set_word v addr sp) sp (s @ [0])"
  have a: "unat (addr + 4) = unat addr + 4"
    using unat_add_small [of addr 4] Cons.prems(1,2) by simp
  have s: "unat (sp + of_nat (length s) + 1) = unat sp + length s + 1"
    using unat_add_small [of sp "length s + 1"] Cons.prems(2) by (simp add: algebra_simps)
  show ?case
  proof (cases i)
    case (Suc j)
    let ?sp = "sp + of_nat (length s) + 1"
    have e: "addr + of_nat i * 4 = addr + 4 + of_nat j * 4"
      "sp + of_nat (strings_size (take i (s # ss))) = ?sp + of_nat (strings_size (take j ss))"
      using Suc by (simp_all add: algebra_simps)
    have "(s # ss) ! i = ss ! j" using Suc by simp
    moreover have "unat (addr + 4) + 4 * length ss \<le> unat ?sp" "unat ?sp + strings_size ss < 4294967296"
      "j < length ss"
      unfolding a s using Cons.prems Suc by simp_all
    note Cons.IH [OF this, of ?v]
    ultimately show ?thesis unfolding e strings_image.simps by (simp only:)
  next
    case 0
    have rest: "strings_image ?v (addr + 4) (sp + of_nat (length s) + 1) ss x = ?v x"
      if "unat x < unat addr + 4 \<or> (unat sp \<le> unat x \<and> unat x < unat sp + length s + 1)" for x
      by (rule strings_image_outside) (use Cons.prems that in \<open>auto simp: a s\<close>)
    have "view_word (strings_image v addr sp (s # ss)) addr = view_word (view_set_word v addr sp) addr"
    proof (rule view_word_cong)
      fix k :: nat assume k: "k < 4"
      then have u: "unat (addr + of_nat k) = unat addr + k"
        using Cons.prems(1,2) by (intro unat_add_small) auto
      have "?v (addr + of_nat k) = view_set_word v addr sp (addr + of_nat k)"
        by (rule view_store_off) (use Cons.prems k u in auto)
      then show "strings_image v addr sp (s # ss) (addr + of_nat k) = view_set_word v addr sp (addr + of_nat k)"
        using rest u k by simp
    qed
    moreover have "view_bytes (strings_image v addr sp (s # ss)) sp (length s + 1) = view_bytes ?v sp (length s + 1)"
    proof (rule view_bytes_cong)
      fix k assume k: "k < length s + 1"
      then have "unat (sp + of_nat k) = unat sp + k" using Cons.prems(2) by (intro unat_add_small) auto
      then show "strings_image v addr sp (s # ss) (sp + of_nat k) = ?v (sp + of_nat k)"
        using rest k by simp
    qed
    moreover have "view_bytes ?v sp (length (s @ [0])) = s @ [0]"
      using Cons.prems(2) by (intro view_bytes_store_same) simp
    ultimately show ?thesis using 0 by simp
  qed
qed simp

text \<open>A vector of strings as a program sees it: pointers from \<open>a\<close> on, ended by a null pointer.\<close>

definition vector_at :: "view \<Rightarrow> md_addr_t \<Rightarrow> byte_t list list \<Rightarrow> bool" where
  "vector_at v a ss \<longleftrightarrow>
     (\<forall>i < length ss. view_bytes v (view_word v (a + of_nat i * 4)) (length (ss ! i) + 1) = ss ! i @ [0]) \<and>
     view_word v (a + of_nat (length ss) * 4) = 0"

lemma unat_add_mult4:
  assumes "unat (a :: md_addr_t) + 4 * n < 4294967296"
  shows "unat (a + of_nat n * 4) = unat a + 4 * n"
  using unat_add_small [of a "n * 4"] assms by (simp add: mult.commute)

lemma view_word_same:
  assumes "unat a + 4 \<le> 4294967296" "\<And>x. unat a \<le> unat x \<Longrightarrow> unat x < unat a + 4 \<Longrightarrow> v x = v' x"
  shows "view_word v a = view_word v' a"
proof (rule view_word_cong)
  fix k :: nat assume k: "k < 4"
  then have "unat (a + of_nat k) = unat a + k" using assms(1) by (intro unat_add_small) simp
  then show "v (a + of_nat k) = v' (a + of_nat k)" using k by (intro assms(2)) simp_all
qed

lemma view_bytes_same:
  assumes "unat a + n < 4294967296" "\<And>x. unat a \<le> unat x \<Longrightarrow> unat x < unat a + n \<Longrightarrow> v x = v' x"
  shows "view_bytes v a n = view_bytes v' a n"
proof (rule view_bytes_cong)
  fix k :: nat assume k: "k < n"
  then have "unat (a + of_nat k) = unat a + k" using assms(1) by (intro unat_add_small) simp
  then show "v (a + of_nat k) = v' (a + of_nat k)" using k by (intro assms(2)) simp_all
qed

lemma strings_size_take:
  "i < length ss \<Longrightarrow> strings_size (take i ss) + (length (ss ! i) + 1) \<le> strings_size ss"
proof (induction ss arbitrary: i)
  case (Cons s ss)
  then show ?case by (cases i) force+
qed simp

text \<open>
  Any view that has the pointers, the terminator and the strings of \<open>strings_image\<close> shows the
  vector.
\<close>

lemma vector_atI:
  assumes len: "unat addr + 4 * length ss + 4 \<le> unat sp" "unat sp + strings_size ss < 4294967296"
    and same: "\<And>x. unat addr \<le> unat x \<and> unat x < unat addr + 4 * length ss \<or>
        unat sp \<le> unat x \<and> unat x < unat sp + strings_size ss \<Longrightarrow> v' x = strings_image v addr sp ss x"
    and null: "view_word v' (addr + of_nat (length ss) * 4) = 0"
  shows "vector_at v' addr ss"
  unfolding vector_at_def
proof (intro conjI allI impI null)
  fix i assume i: "i < length ss"
  let ?p = "sp + of_nat (strings_size (take i ss))"
  have at: "view_word (strings_image v addr sp ss) (addr + of_nat i * 4) = ?p"
    "view_bytes (strings_image v addr sp ss) ?p (length (ss ! i) + 1) = ss ! i @ [0]"
    using strings_image_at [of addr ss sp i v] len i by auto
  have u: "unat (addr + of_nat i * 4) = unat addr + 4 * i"
    using len i by (intro unat_add_mult4) simp
  have "view_word v' (addr + of_nat i * 4) = view_word (strings_image v addr sp ss) (addr + of_nat i * 4)"
    by (rule view_word_same) (use len i u in \<open>auto intro!: same\<close>)
  moreover have p: "unat ?p = unat sp + strings_size (take i ss)"
    using strings_size_take [OF i] len by (intro unat_add_small) simp
  have "view_bytes v' ?p (length (ss ! i) + 1) =
      view_bytes (strings_image v addr sp ss) ?p (length (ss ! i) + 1)"
    by (rule view_bytes_same) (use len strings_size_take [OF i] p in \<open>auto intro!: same\<close>)
  ultimately show "view_bytes v' (view_word v' (addr + of_nat i * 4)) (length (ss ! i) + 1) = ss ! i @ [0]"
    using at by simp
qed

text \<open>The bytes of the stack image, and that they all are below \<open>stack_size\<close>.\<close>

definition stack_size :: "byte_t list list \<Rightarrow> byte_t list list \<Rightarrow> nat" where
  "stack_size argv envp =
     12 + 4 * length argv + 4 * length envp + strings_size argv + strings_size envp"

lemma unat_stack_end:
  assumes "unat sp0 + stack_size argv envp < 4294967296"
  shows "unat (stack_end argv envp sp0) = unat sp0 + stack_size argv envp"
proof -
  have "stack_end argv envp sp0 = sp0 + of_nat (stack_size argv envp)"
    by (simp add: stack_end_def stack_size_def algebra_simps)
  then show ?thesis using unat_add_small [OF assms] by simp
qed

text \<open>The places in the stack area, none of them past the end of the address space.\<close>

lemma stack_offsets:
  fixes sp0 :: md_addr_t
  assumes small: "unat sp0 + stack_size argv envp < 4294967296"
  defines "n \<equiv> length argv" and "k \<equiv> length envp"
  shows "unat (sp0 + 4) = unat sp0 + 4" "unat (sp0 + 4 + of_nat n * 4) = unat sp0 + 4 + 4 * n"
    "unat (sp0 + 4 + (of_nat n + 1) * 4) = unat sp0 + 8 + 4 * n"
    "unat (sp0 + 4 + (of_nat n + 1) * 4 + of_nat k * 4) = unat sp0 + 8 + 4 * n + 4 * k"
    "unat (sp0 + 4 + (of_nat n + 1) * 4 + of_nat k * 4 + 4) = unat sp0 + 12 + 4 * n + 4 * k"
    "unat (sp0 + 4 + (of_nat n + 1) * 4 + of_nat k * 4 + 4 + of_nat (strings_size argv)) =
       unat sp0 + 12 + 4 * n + 4 * k + strings_size argv"
proof -
  have *: "unat a = unat sp0 + m" if "a = sp0 + of_nat m" "m \<le> stack_size argv envp" for a m
    using that small unat_add_small [of sp0 m] by simp
  note sizes = stack_size_def n_def k_def algebra_simps
  show "unat (sp0 + 4) = unat sp0 + 4" by (rule *) (simp_all add: sizes)
  show "unat (sp0 + 4 + of_nat n * 4) = unat sp0 + 4 + 4 * n"
    using * [of _ "4 + 4 * n"] by (simp add: sizes)
  show "unat (sp0 + 4 + (of_nat n + 1) * 4) = unat sp0 + 8 + 4 * n"
    using * [of _ "8 + 4 * n"] by (simp add: sizes)
  show "unat (sp0 + 4 + (of_nat n + 1) * 4 + of_nat k * 4) = unat sp0 + 8 + 4 * n + 4 * k"
    using * [of _ "8 + 4 * n + 4 * k"] by (simp add: sizes)
  show "unat (sp0 + 4 + (of_nat n + 1) * 4 + of_nat k * 4 + 4) = unat sp0 + 12 + 4 * n + 4 * k"
    using * [of _ "12 + 4 * n + 4 * k"] by (simp add: sizes)
  show "unat (sp0 + 4 + (of_nat n + 1) * 4 + of_nat k * 4 + 4 + of_nat (strings_size argv)) =
       unat sp0 + 12 + 4 * n + 4 * k + strings_size argv"
    using * [of _ "12 + 4 * n + 4 * k + strings_size argv"] by (simp add: sizes)
qed

lemma stack_image_layout:
  assumes small: "unat sp0 + stack_size argv envp < 4294967296"
    and same: "\<And>x. unat sp0 \<le> unat x \<and> unat x < unat sp0 + stack_size argv envp \<Longrightarrow>
      v' x = stack_image argv envp sp0 v x"
  shows "view_word v' sp0 = of_nat (length argv)" "vector_at v' (sp0 + 4) argv"
    "vector_at v' (sp0 + 4 + (of_nat (length argv) + 1) * 4) envp"
proof -
  let ?n = "length argv" and ?k = "length envp"
  let ?a1 = "sp0 + 4" and ?a2 = "sp0 + 4 + of_nat ?n * 4" and ?a3 = "sp0 + 4 + (of_nat ?n + 1) * 4"
  let ?a4 = "?a3 + of_nat ?k * 4" and ?s1 = "sp0 + 4 + (of_nat ?n + 1) * 4 + of_nat ?k * 4 + 4"
  let ?s2 = "?s1 + of_nat (strings_size argv)"
  note u = stack_offsets [OF small]
  define v1 where "v1 = view_set_word v sp0 (of_nat ?n)"
  define v2 where "v2 = strings_image v1 ?a1 ?s1 argv"
  define v3 where "v3 = view_set_word v2 ?a2 0"
  define v4 where "v4 = strings_image v3 ?a3 ?s2 envp"
  define v5 where "v5 = view_set_word v4 ?a4 0"
  have v5: "stack_image argv envp sp0 v = v5"
    by (simp add: stack_image_def v1_def v2_def v3_def v4_def v5_def Let_def)
  note sz = small [unfolded stack_size_def]
  have o5: "v5 x = v4 x" if "unat x < unat ?a4 \<or> unat ?a4 + 4 \<le> unat x" for x
    unfolding v5_def by (rule view_set_word_off) (use that u sz in auto)
  have o4: "v4 x = v3 x" if "unat x < unat ?a3 \<or> unat ?a4 \<le> unat x \<and> unat x < unat ?s2" for x
    unfolding v4_def by (rule strings_image_outside) (use that u sz in auto)
  have o3: "v3 x = v2 x" if "unat x < unat ?a2 \<or> unat ?a3 \<le> unat x" for x
    unfolding v3_def by (rule view_set_word_off) (use that u sz in auto)
  have o2: "v2 x = v1 x" if "unat x < unat ?a1" for x
    unfolding v2_def by (rule strings_image_outside) (use that u sz in auto)
  have w: "view_word v' a = view_word vi a" if "unat sp0 \<le> unat a" "unat a + 4 \<le> unat ?s1"
    "\<And>x. unat a \<le> unat x \<Longrightarrow> unat x < unat a + 4 \<Longrightarrow> v5 x = vi x" for a vi
    by (rule view_word_same) (use that u sz same v5 in \<open>auto simp: stack_size_def\<close>)
  show "view_word v' sp0 = of_nat ?n"
    using w [of sp0 v1] o5 o4 o3 o2 u by (simp add: v1_def)
  show "vector_at v' ?a1 argv"
  proof (rule vector_atI [where sp = ?s1 and v = v1])
    show "view_word v' (?a1 + of_nat ?n * 4) = 0"
      using w [of ?a2 v3] o5 o4 u by (simp add: v3_def)
    show "v' x = strings_image v1 ?a1 ?s1 argv x" if "unat ?a1 \<le> unat x \<and> unat x < unat ?a1 + 4 * ?n \<or>
        unat ?s1 \<le> unat x \<and> unat x < unat ?s1 + strings_size argv" for x
    proof -
      have "v' x = v5 x" using that same [of x] u v5 by (auto simp: stack_size_def)
      also have "\<dots> = v2 x" using that u o5 [of x] o4 [of x] o3 [of x] by auto
      finally show ?thesis by (simp add: v2_def)
    qed
  qed (use u sz in auto)
  show "vector_at v' ?a3 envp"
  proof (rule vector_atI [where sp = ?s2 and v = v3])
    show "view_word v' (?a3 + of_nat ?k * 4) = 0"
      using w [of ?a4 v5] u by (simp add: v5_def)
    show "v' x = strings_image v3 ?a3 ?s2 envp x" if "unat ?a3 \<le> unat x \<and> unat x < unat ?a3 + 4 * ?k \<or>
        unat ?s2 \<le> unat x \<and> unat x < unat ?s2 + strings_size envp" for x
    proof -
      have "v' x = v5 x" using that same [of x] u v5 by (auto simp: stack_size_def)
      also have "\<dots> = v4 x" using that u o5 [of x] by auto
      finally show ?thesis by (simp add: v4_def)
    qed
  qed (use u sz in auto)
qed

end
