(* ===== verification/Loader_Props.thy ===== *)
theory Loader_Props
  imports Loader_Stack
begin

text \<open>
  What the loader leaves behind: the flat view of memory after it is that of the sections,
  the initial stack and the predecoded text, one on the other.  The stack holds the
  argument and environment vectors where a program looks for them.
\<close>

section \<open>The predecoded text\<close>

fun predecode_image :: "(nat \<Rightarrow> word_t) \<Rightarrow> view \<Rightarrow> md_addr_t \<Rightarrow> nat \<Rightarrow> view" where
  "predecode_image t v a 0 = v"
| "predecode_image t v a (Suc n) =
     predecode_image t (view_store v a (bytes_of_inst (predecode t (inst_of_bytes (view_bytes v a 8)))))
       (a + 8) n"

lemma length_bytes_of_inst [simp]: "length (bytes_of_inst i) = 8"
  by (simp add: bytes_of_inst_def)

lemma predecode_image_outside:
  "unat a + 8 * n \<le> 4294967296 \<Longrightarrow> unat x < unat a \<or> unat a + 8 * n \<le> unat x \<Longrightarrow>
   predecode_image t v a n x = v x"
proof (induction n arbitrary: v a)
  case (Suc n)
  let ?bs = "bytes_of_inst (predecode t (inst_of_bytes (view_bytes v a 8)))"
  have off: "view_store v a ?bs x = v x" by (rule view_store_off) (use Suc.prems in auto)
  show ?case
  proof (cases n)
    case 0
    then show ?thesis using off by simp
  next
    case (Suc m)
    then have "unat (a + 8) = unat a + 8" using unat_add_small [of a 8] Suc.prems by simp
    then have "predecode_image t (view_store v a ?bs) (a + 8) n x = view_store v a ?bs x"
      using Suc.prems by (intro Suc.IH) auto
    then show ?thesis using off by simp
  qed
qed simp

definition aligned8 :: "md_addr_t \<Rightarrow> bool" where
  "aligned8 a \<longleftrightarrow> unat a mod 8 = 0"

lemma aligned8_natural: "aligned8 a \<Longrightarrow> natural_access a 8"
proof -
  assume "aligned8 a"
  then have "unat (take_bit 3 a) = 0" by (simp add: aligned8_def take_bit_eq_mod unat_mod)
  then have "take_bit 3 a = 0" by (simp only: unat_eq_0)
  then show ?thesis by (simp add: natural_access_def take_bit_eq_mask mask_eq_exp_minus_1)
qed

lemma aligned8_step: "aligned8 a \<Longrightarrow> aligned8 (a + 8)"
proof -
  assume "aligned8 a"
  moreover have "unat (a + 8) mod 8 = (unat a + 8) mod 8"
    by (simp add: unat_word_ariths mod_mod_cancel)
  ultimately show ?thesis by (simp add: aligned8_def)
qed

text \<open>The accesses of one turn of the loop, and the turn.\<close>

lemma predecode_accesses:
  fixes mem a t
  assumes "mem_inv mem" "aligned8 a"
  defines "bs \<equiv> view_bytes (mem_view mem) a 8"
  defines "out \<equiv> bytes_of_inst (predecode t (inst_of_bytes bs))"
  shows "\<exists>m1 m2. mem_access mem Read a (replicate 8 0) 8 = Some (md_fault_none, bs, m1) \<and>
    mem_access m1 Write a out 8 = Some (md_fault_none, out, m2) \<and> mem_inv m2 \<and>
    mem_view m2 = view_store (mem_view mem) a out"
proof -
  obtain m1 where m1: "mem_access mem Read a (replicate 8 0) 8 = Some (md_fault_none, bs, m1)" "mem_inv m1"
      "mem_view m1 = mem_view mem"
    using mem_access_read_ok [OF assms(1) aligned8_natural [OF assms(2)], of "replicate 8 0"]
    by (auto simp: bs_def)
  with mem_access_write_ok [OF m1(2) aligned8_natural [OF assms(2)], of out] show ?thesis
    by (auto simp: out_def)
qed

lemma predecode_step:
  assumes "mem_inv mem" "aligned8 a" "a < text_end"
  shows "\<exists>mem1. predecode_loop t text_end mem a = predecode_loop t text_end mem1 (a + 8) \<and> mem_inv mem1 \<and>
    mem_view mem1 = view_store (mem_view mem) a
      (bytes_of_inst (predecode t (inst_of_bytes (view_bytes (mem_view mem) a 8))))"
  using predecode_accesses [OF assms(1,2), of t] assms(3)
  by (subst predecode_loop.simps) auto

text \<open>The number of instructions from \<open>a\<close> to the end of the text, the last one rounded up.\<close>

definition text_insts :: "md_addr_t \<Rightarrow> md_addr_t \<Rightarrow> nat" where
  "text_insts a text_end = (unat text_end + 7 - unat a) div 8"

lemma predecode_loop_spec:
  assumes "unat text_end \<le> 4294967288"
  shows "mem_inv mem \<Longrightarrow> aligned8 a \<Longrightarrow> \<exists>mem1. predecode_loop t text_end mem a = Some (Inr mem1) \<and>
    mem_inv mem1 \<and> mem_view mem1 = predecode_image t (mem_view mem) a (text_insts a text_end)"
proof (induction "text_insts a text_end" arbitrary: mem a)
  case 0
  then have "\<not> a < text_end" by (auto simp: text_insts_def word_less_nat_alt)
  then have "predecode_loop t text_end mem a = Some (Inr mem)" by (subst predecode_loop.simps) simp
  with 0 show ?case by (simp flip: 0(1))
next
  case (Suc n)
  then have lt: "a < text_end" by (auto simp: text_insts_def word_less_nat_alt)
  then have "unat (a + 8) = unat a + 8"
    using unat_add_small [of a 8] assms Suc.prems(2) by (simp add: word_less_nat_alt)
  then have n: "n = text_insts (a + 8) text_end"
    using Suc.hyps(2) lt by (auto simp: text_insts_def word_less_nat_alt)
  obtain m1 where m1: "predecode_loop t text_end mem a = predecode_loop t text_end m1 (a + 8)" "mem_inv m1"
      "mem_view m1 = view_store (mem_view mem) a
        (bytes_of_inst (predecode t (inst_of_bytes (view_bytes (mem_view mem) a 8))))"
    using predecode_step [OF Suc.prems lt] by blast
  from Suc.hyps(1) [OF n m1(2) aligned8_step [OF Suc.prems(2)]] m1 show ?case
    by (simp flip: Suc.hyps(2) n)
qed

text \<open>A text that ends within the last instruction of the address space is decoded for ever.\<close>

lemma predecode_loop_diverges:
  assumes "unat text_end > 4294967288" "mem_inv mem" "aligned8 a"
  shows "predecode_loop t text_end mem a = None"
proof (rule ccontr)
  assume "predecode_loop t text_end mem a \<noteq> None"
  then obtain r where r: "predecode_loop t text_end mem a = Some r" by blast
  have "unat text_end > 4294967288 \<longrightarrow> mem_inv mem \<longrightarrow> \<not> aligned8 a"
  proof (rule predecode_loop.raw_induct [OF _ r])
    fix loop t text_end mem a r
    assume IH: "\<And>t text_end mem a r. loop t text_end mem a = Some r \<Longrightarrow>
        unat text_end > 4294967288 \<longrightarrow> mem_inv mem \<longrightarrow> \<not> aligned8 a"
      and body: "(if a < text_end then do {
          (fault, bs, mem1) \<leftarrow> mem_access mem Read a (replicate 8 0) 8;
          if fault \<noteq> md_fault_none then Some (Inl cannot_read_inst)
          else do {
            (fault1, _, mem2) \<leftarrow> mem_access mem1 Write a (bytes_of_inst (predecode t (inst_of_bytes bs))) 8;
            if fault1 \<noteq> md_fault_none then Some (Inl cannot_write_inst) else loop t text_end mem2 (a + 8) } }
        else Some (Inr mem)) = Some r"
    show "unat text_end > 4294967288 \<longrightarrow> mem_inv mem \<longrightarrow> \<not> aligned8 a"
    proof (intro impI notI)
      assume h: "4294967288 < unat text_end" "mem_inv mem" "aligned8 a"
      have "unat a \<le> 4294967288"
        using h(3) unsigned_less [of a, where ?'a = nat] by (simp add: aligned8_def) presburger
      then have "a < text_end" using h(1) by (simp add: word_less_nat_alt)
      with predecode_accesses [OF h(2,3), of t] body obtain m2 where
        "loop t text_end m2 (a + 8) = Some r" "mem_inv m2" by auto
      with IH h(1) aligned8_step [OF h(3)] show False by blast
    qed
  qed
  with assms show False by blast
qed

section \<open>Loading a file\<close>

definition file_entry :: "byte_t list \<Rightarrow> word_t" where
  "file_entry file = word_at (take 56 (drop 20 file)) 16"

definition file_data_size :: "byte_t list \<Rightarrow> word_t" where
  "file_data_size file = word_at (take 56 (drop 20 file)) 8 + word_at (take 56 (drop 20 file)) 12"

text \<open>
  The text ends \<open>TEXT_TAIL_PADDING\<close> bytes behind the last text section, and starts at its fixed
  base; without a text section its size is what it was.
\<close>

definition last_text_size :: "word_t \<Rightarrow> ecoff_scnhdr list \<Rightarrow> word_t" where
  "last_text_size size0 hs =
     (case rev (filter (\<lambda>h. s_flags h = ECOFF_STYP_TEXT) hs) of
        [] \<Rightarrow> size0 | h # _ \<Rightarrow> s_vaddr h + s_size h + 128 - 0x400000)"

definition file_text_size :: "word_t \<Rightarrow> byte_t list \<Rightarrow> word_t" where
  "file_text_size size0 file = last_text_size size0 (file_headers file)"

lemma fold_text_size: "foldl section_text_size n hs = last_text_size n hs"
  by (induction hs rule: rev_induct)
    (simp_all add: last_text_size_def section_text_size_def MD_TEXT_BASE_def TEXT_TAIL_PADDING_def)

text \<open>The files whose headers and sections can be read.\<close>

definition file_loads :: "(byte_t list \<Rightarrow> ecoff_scnhdr \<Rightarrow> bool) \<Rightarrow> byte_t list \<Rightarrow> bool" where
  "file_loads data_ok file \<longleftrightarrow> 76 \<le> length file \<and>
     (let fhdr = filehdr_of (take 20 file) in
      f_magic fhdr \<in> {ECOFF_EB_MAGIC, ECOFF_EL_MAGIC} \<and>
      sections_load data_ok file (20 + unat (f_opthdr fhdr)) (unat (f_nscns fhdr)))"

definition initial_sp :: md_addr_t where "initial_sp = 0x7fff8000"

lemma initial_sp_eq: "ROUND_DOWN (MD_STACK_BASE - MD_MAX_ENVIRON) 8 = initial_sp"
  by (simp add: ROUND_DOWN_def MD_STACK_BASE_def MD_MAX_ENVIRON_def initial_sp_def)

text \<open>The first page boundary at or above an address, by division.\<close>

definition page_above :: "md_addr_t \<Rightarrow> md_addr_t" where
  "page_above a = of_nat ((unat a + 4095) div 4096 * 4096)"

lemma ROUND_UP_page: "ROUND_UP a (of_nat MD_PAGE_SIZE) = page_above a"
proof -
  have m: "(4095 :: word_t) = mask 12" by (simp add: mask_eq_exp_minus_1)
  have n: "(unat a + 4095) div 4096 * 4096 = push_bit 12 (drop_bit 12 (unat a + 4095))"
    by (simp add: push_bit_eq_mult drop_bit_eq_div)
  have "a + 4095 = of_nat (unat a + 4095)" by simp
  then have "ROUND_UP a (of_nat MD_PAGE_SIZE) = of_nat (unat a + 4095) AND NOT (mask 12)"
    by (simp add: ROUND_UP_def MD_PAGE_SIZE_def m)
  also have "\<dots> = of_nat (push_bit 12 (drop_bit 12 (unat a + 4095)))"
    by (rule bit_word_eqI) (auto simp: bit_simps simp del: of_nat_add)
  finally show ?thesis unfolding page_above_def n .
qed

text \<open>The globals of the loader once the file is read.\<close>

definition loaded :: "byte_t list \<Rightarrow> ld_t \<Rightarrow> ld_t" where
  "loaded file ld = ld\<lparr>ld_stack_base := MD_STACK_BASE, ld_stack_size := MD_STACK_BASE - initial_sp,
     ld_environ_base := initial_sp,
     ld_target_big_endian := (f_magic (filehdr_of (take 20 file)) = ECOFF_EB_MAGIC),
     ld_text_size := file_text_size (ld_text_size ld) file, ld_text_base := MD_TEXT_BASE,
     ld_data_base := MD_DATA_BASE, ld_prog_entry := file_entry file,
     ld_data_size := file_data_size file\<rparr>"

lemma fread_headers:
  "fread_item file 0 20 = (if 20 \<le> length file then Some (take 20 file) else None)"
  "fread_item file 20 56 = (if 76 \<le> length file then Some (take 56 (drop 20 file)) else None)"
  by (simp_all add: fread_item_def)

lemma check_magic_cases:
  "if magic \<in> {ECOFF_EB_MAGIC, ECOFF_EL_MAGIC} then check_magic magic = Some (Inr (magic = ECOFF_EB_MAGIC))
   else \<exists>e. check_magic magic = Some (Inl e)"
  by (auto simp: check_magic_def ECOFF_EB_MAGIC_def ECOFF_EL_MAGIC_def)

text \<open>All globals of the loader once the program is loaded.\<close>

definition program_globals :: "byte_t list \<Rightarrow> regs_t \<Rightarrow> ld_t \<Rightarrow> ld_t" where
  "program_globals file regs ld =
     \<lparr>ld_text_base = 0x400000, ld_text_size = file_text_size (ld_text_size ld) file,
      ld_data_base = 0x10000000, ld_data_size = file_data_size file,
      ld_brk_point = page_above (0x10000000 + file_data_size file),
      ld_stack_base = 0x7fffc000, ld_stack_size = 0x4000, ld_stack_min = regs_R regs MD_REG_SP,
      ld_prog_entry = file_entry file, ld_environ_base = 0x7fff8000, ld_target_big_endian = False\<rparr>"

text \<open>The end of the text, and the flat view of memory once the program is loaded.\<close>

definition text_end :: "byte_t list \<Rightarrow> ld_t \<Rightarrow> md_addr_t" where
  "text_end file ld = MD_TEXT_BASE + file_text_size (ld_text_size ld) file"

definition program_image :: "(byte_t list \<Rightarrow> ecoff_scnhdr \<Rightarrow> byte_t list) \<Rightarrow> (nat \<Rightarrow> word_t) \<Rightarrow>
    byte_t list \<Rightarrow> byte_t list list \<Rightarrow> byte_t list list \<Rightarrow> ld_t \<Rightarrow> view \<Rightarrow> view" where
  "program_image data_bytes t file argv envp ld v =
     predecode_image t (stack_image argv envp initial_sp (file_image data_bytes file v))
       MD_TEXT_BASE (text_insts MD_TEXT_BASE (text_end file ld))"

text \<open>
  The programs the loader accepts: their headers and sections can be read, they have some
  text, some data when it is required, and an entry point, they are little-endian as the
  host is, and the vectors of the arguments and the environment fit below the stack base.
\<close>

definition program_loads :: "(byte_t list \<Rightarrow> ecoff_scnhdr \<Rightarrow> bool) \<Rightarrow> bool \<Rightarrow> byte_t list \<Rightarrow>
    byte_t list list \<Rightarrow> byte_t list list \<Rightarrow> ld_t \<Rightarrow> bool" where
  "program_loads data_ok data_required file argv envp ld \<longleftrightarrow>
     file_loads data_ok file \<and> f_magic (filehdr_of (take 20 file)) = ECOFF_EL_MAGIC \<and>
     file_text_size (ld_text_size ld) file \<noteq> 0 \<and> (data_required \<longrightarrow> file_data_size file \<noteq> 0) \<and>
     file_entry file \<noteq> 0 \<and> stack_end argv envp initial_sp \<le> 0x7fffc000"

definition initial_regs :: "byte_t list \<Rightarrow> regs_t \<Rightarrow> regs_t" where
  "initial_regs file regs =
     regs\<lparr>regs_R := (regs_R regs)(MD_REG_SP := initial_sp), regs_PC := file_entry file\<rparr>"

lemma initial_sp_aligned: "aligned4 initial_sp"
  by (simp add: initial_sp_def aligned4_def)

lemma text_base_aligned: "aligned8 MD_TEXT_BASE"
  by (simp add: MD_TEXT_BASE_def aligned8_def)

lemma text_below_stack:
  assumes "e \<le> initial_sp"
  shows "unat MD_TEXT_BASE + 8 * text_insts MD_TEXT_BASE e \<le> unat initial_sp"
proof -
  have "unat e \<le> 2147450880" using assms by (simp add: word_le_nat_alt initial_sp_def)
  then have "(unat e + 7 - 4194304) div 8 \<le> (2147450880 + 7 - 4194304) div 8" by (intro div_le_mono) simp
  then show ?thesis by (simp add: text_insts_def MD_TEXT_BASE_def initial_sp_def)
qed

text \<open>The checks and the last assignments of the loader, on the globals a file leaves.\<close>

lemma check_segments_iff:
  assumes "file_loads data_ok file"
  shows "check_segments required (loaded file ld) = Some (Inr ()) \<longleftrightarrow>
    f_magic (filehdr_of (take 20 file)) = ECOFF_EL_MAGIC \<and> file_text_size (ld_text_size ld) file \<noteq> 0 \<and>
    (required \<longrightarrow> file_data_size file \<noteq> 0) \<and> file_entry file \<noteq> 0"
  using assms by (auto simp: check_segments_def loaded_def file_loads_def Let_def MD_TEXT_BASE_def MD_DATA_BASE_def
      ECOFF_EB_MAGIC_def ECOFF_EL_MAGIC_def)

lemma program_loads_iff:
  "program_loads data_ok required file argv envp ld \<longleftrightarrow>
     file_loads data_ok file \<and> check_segments required (loaded file ld) = Some (Inr ()) \<and>
     stack_end argv envp initial_sp \<le> MD_STACK_BASE"
  using check_segments_iff [of data_ok "file" required ld] by (auto simp: program_loads_def MD_STACK_BASE_def)

lemma finish_load_globals:
  assumes "file_loads data_ok file" "check_segments required (loaded file ld) = Some (Inr ())"
  shows "finish_load regs (loaded file ld) = (initial_regs file regs, program_globals file regs ld)"
proof -
  have "f_magic (filehdr_of (take 20 file)) = ECOFF_EL_MAGIC" using check_segments_iff [OF assms(1)] assms(2) by blast
  then show ?thesis
    by (simp add: finish_load_def initial_regs_def loaded_def program_globals_def ROUND_UP_page MD_STACK_BASE_def initial_sp_def
        MD_TEXT_BASE_def MD_DATA_BASE_def ECOFF_EB_MAGIC_def ECOFF_EL_MAGIC_def)
qed

lemma check_segments_cases:
  "check_segments required ld = Some (Inr ()) \<or> (\<exists>e. check_segments required ld = Some (Inl e))"
  by (simp add: check_segments_def)

context section_reader
begin

lemma load_file_spec:
  assumes inv: "mem_inv mem"
  shows "if file_loads data_ok file
    then \<exists>mem1. load_file contents (Some file) (mem, ld) = Some (Inr (mem1, loaded file ld)) \<and>
      mem_inv mem1 \<and> mem_view mem1 = file_image data_bytes file (mem_view mem)
    else \<exists>e. load_file contents (Some file) (mem, ld) = Some (Inl e)"
proof -
  let ?fh = "filehdr_of (take 20 file)"
  let ?ld = "ld\<lparr>ld_stack_base := MD_STACK_BASE, ld_stack_size := MD_STACK_BASE - initial_sp,
    ld_environ_base := initial_sp, ld_target_big_endian := (f_magic ?fh = ECOFF_EB_MAGIC)\<rparr>"
  note secs = load_sections_spec [OF inv, of "file" "20 + unat (f_opthdr ?fh)" "unat (f_nscns ?fh)" ?ld]
  show ?thesis
  proof (cases "76 \<le> length file \<and> f_magic ?fh \<in> {ECOFF_EB_MAGIC, ECOFF_EL_MAGIC}")
    case True
    then have "check_magic (f_magic ?fh) = Some (Inr (f_magic ?fh = ECOFF_EB_MAGIC))"
      using check_magic_cases [of "f_magic ?fh"] by simp
    then show ?thesis
      using True secs
      by (auto simp: load_file_def initial_sp_eq fread_headers file_loads_def file_image_def file_headers_def
          loaded_def file_text_size_def fold_text_size file_entry_def file_data_size_def aouthdr_of_def Let_def
          split: if_splits)
  next
    case False
    then have "\<not> file_loads data_ok file" by (auto simp: file_loads_def Let_def)
    then show ?thesis
      using False check_magic_cases [of "f_magic ?fh"]
      by (auto simp: load_file_def initial_sp_eq fread_headers Let_def split: if_splits)
  qed
qed

lemma load_program_spec:
  fixes t required "file" regs ld
  assumes inv: "mem_inv mem" and nz: "\<forall>s \<in> set argv \<union> set envp. 0 \<notin> set s"
  defines "r \<equiv> load_program contents required t (Some file) argv envp regs mem ld"
  shows "if program_loads data_ok required file argv envp ld
    then if text_end file ld \<le> 0xfffffff8
      then \<exists>mem1. r = Some (Inr (initial_regs file regs, mem1, program_globals file regs ld)) \<and>
        mem_inv mem1 \<and> mem_view mem1 = program_image data_bytes t file argv envp ld (mem_view mem)
      else r = None
    else \<exists>e. r = Some (Inl e)"
proof (cases "file_loads data_ok file \<and> check_segments required (loaded file ld) = Some (Inr ())")
  case True
  then obtain mem1 where m1: "load_file contents (Some file) (mem, ld) = Some (Inr (mem1, loaded file ld))"
      "mem_inv mem1" "mem_view mem1 = file_image data_bytes file (mem_view mem)"
    using load_file_spec [OF inv, of "file" ld] by auto
  obtain mem2 where m2: "build_stack mem1 initial_sp argv envp = Some (mem2, stack_end argv envp initial_sp)"
      "mem_inv mem2" "mem_view mem2 = stack_image argv envp initial_sp (mem_view mem1)"
    using build_stack_spec [OF m1(2) initial_sp_aligned nz] by blast
  have l: "ld_environ_base (loaded file ld) = initial_sp" "ld_stack_base (loaded file ld) = MD_STACK_BASE"
    by (simp_all add: loaded_def)
  define ld2 where "ld2 = program_globals file regs ld"
  have fl: "finish_load regs (loaded file ld) = (initial_regs file regs, ld2)"
    unfolding ld2_def using True by (intro finish_load_globals) auto
  have tb: "ld_text_base ld2 = MD_TEXT_BASE" "ld_text_size ld2 = file_text_size (ld_text_size ld) file"
    by (simp_all add: ld2_def program_globals_def MD_TEXT_BASE_def)
  have r: "r = (if stack_end argv envp initial_sp > MD_STACK_BASE then Some (Inl environment_overflow)
      else and_then (predecode_loop t (text_end file ld) mem2 MD_TEXT_BASE)
        (\<lambda>mem3. Some (Inr (initial_regs file regs, mem3, ld2))))"
    unfolding r_def load_program_def by (simp add: True m1(1) m2(1) l fl tb text_end_def)
  show ?thesis
  proof (cases "text_end file ld \<le> 0xfffffff8")
    case le: True
    then have "unat (text_end file ld) \<le> 4294967288" by (simp add: word_le_nat_alt)
    from predecode_loop_spec [OF this m2(2) text_base_aligned] obtain mem3 where
      "predecode_loop t (text_end file ld) mem2 MD_TEXT_BASE = Some (Inr mem3)" "mem_inv mem3"
      "mem_view mem3 = predecode_image t (mem_view mem2) MD_TEXT_BASE (text_insts MD_TEXT_BASE (text_end file ld))"
      by blast
    then show ?thesis
      using True le m1(3) m2(3) unfolding r by (auto simp: program_loads_iff program_image_def not_le ld2_def)
  next
    case False
    then have "unat (text_end file ld) > 4294967288" by (simp add: word_le_nat_alt)
    from predecode_loop_diverges [OF this m2(2) text_base_aligned] show ?thesis
      using True False unfolding r by (auto simp: program_loads_iff not_le)
  qed
next
  case False
  then have "\<not> program_loads data_ok required file argv envp ld" by (auto simp: program_loads_iff)
  moreover have "\<exists>e. r = Some (Inl e)"
    using False load_file_spec [OF inv, of "file" ld] check_segments_cases [of required "loaded file ld"]
    by (cases "file_loads data_ok file") (auto simp: r_def load_program_def)
  ultimately show ?thesis by simp
qed

end

lemmas ld_load_prog_spec = stock.load_program_spec [where required = True, folded ld_load_prog_def]

section \<open>What the loader does not do\<close>

text \<open>A data section of no bytes is refused, since \<open>fread()\<close> of an empty item reads no item.\<close>

lemma empty_section_refused:
  assumes "mem_inv mem" "data_section h" "s_size h = 0"
  shows "\<exists>e. load_section read_contents file h (mem, ld) = Some (Inl e)"
proof -
  have "\<not> section_loads section_ok file h"
    using assms by (auto simp: section_loads_def section_ok_def data_section_def ECOFF_STYP_TEXT_def
        ECOFF_STYP_RDATA_def ECOFF_STYP_DATA_def ECOFF_STYP_SDATA_def)
  then show ?thesis using stock.load_section_spec [OF assms(1), of "file" h ld] by simp
qed

text \<open>The loader of Project 1 fills a data section with zeros, whatever the file has there.\<close>

lemma p1_data_lost:
  assumes "mem_inv mem" "data_section h" "zero_ok file h"
  shows "\<exists>mem1. load_section p1_data_contents file h (mem, ld) = Some (Inr (mem1, ld)) \<and> mem_inv mem1 \<and>
    mem_view mem1 = view_store (mem_view mem) (s_vaddr h) (replicate (unat (s_size h)) 0)"
proof -
  have nt: "s_flags h \<noteq> ECOFF_STYP_TEXT" using assms(2)
    by (auto simp: data_section_def ECOFF_STYP_TEXT_def ECOFF_STYP_RDATA_def ECOFF_STYP_DATA_def
        ECOFF_STYP_SDATA_def)
  then show ?thesis
    using project1.load_section_spec [OF assms(1), of "file" h ld] assms(2,3)
    by (simp add: section_loads_def section_image_def section_text_size_def zero_bytes_def)
qed

text \<open>The lowest stack address is set from the stack pointer before that register is.\<close>

lemma ld_stack_min_stale:
  "ld_stack_min (snd (finish_load regs ld)) = regs_R regs MD_REG_SP"
  "regs_R (fst (finish_load regs ld)) MD_REG_SP = ld_environ_base ld"
  by (simp_all add: finish_load_def)

text \<open>A small program: one instruction of text, and a word of data.\<close>

definition tiny_program :: "byte_t list" where
  "tiny_program =
     [0x62, 0x01, 2, 0, 0, 0, 0, 0, 0, 0, 0, 0, 0, 0, 0, 0, 56, 0, 0, 0] @
     [0, 0, 0, 0, 0, 0, 0, 0, 4, 0, 0, 0, 0, 0, 0, 0, 0, 0, 0x40, 0] @ replicate 36 0 @
     replicate 12 0 @ [0, 0, 0x40, 0, 8, 0, 0, 0, 156, 0, 0, 0] @ replicate 12 0 @ [0x20, 0, 0, 0] @
     replicate 12 0 @ [0, 0, 0, 0x10, 4, 0, 0, 0, 164, 0, 0, 0] @ replicate 12 0 @ [0x40, 0, 0, 0] @
     [1, 0, 0, 0, 0, 0, 0, 0] @ [7, 6, 5, 4]"

lemma tiny_program_loads:
  "program_loads section_ok True tiny_program [[97]] [] ld_init"
  "text_end tiny_program ld_init = 0x400088"
  by (code_simp, code_simp)

section \<open>Properties\<close>

text \<open>
  C10: loading a program refines a description of memory, on a little-endian host.  A file is
  accepted exactly when its headers and sections can be read, it has some text and some
  data and a nonzero entry point, it is little-endian and the argument and environment
  vectors fit below the stack base; otherwise the load ends in an error.  Then memory is the
  image of the sections, the initial stack and the predecoded text, one on the other, the
  stack pointer and the PC are set, and every global of the loader has its value, the break
  point being the first page boundary at or above the end of the data.  The load never
  returns when the text ends in the last seven bytes of the address space.
\<close>

theorem ld_load_prog_correct:
  assumes "mem_inv mem" "\<forall>s \<in> set argv \<union> set envp. 0 \<notin> set s"
  shows "let r = ld_load_prog t (Some file) argv envp regs mem ld in
    if program_loads section_ok True file argv envp ld
    then if text_end file ld \<le> 0xfffffff8
      then \<exists>mem1. r = Some (Inr (initial_regs file regs, mem1, program_globals file regs ld)) \<and>
        mem_inv mem1 \<and> mem_view mem1 = program_image section_bytes t file argv envp ld (mem_view mem)
      else r = None
    else \<exists>e. r = Some (Inl e)"
  using ld_load_prog_spec [OF assms] by (simp add: Let_def)

lemma ld_load_prog_correct_witness:
  "\<exists>mem1. ld_load_prog (\<lambda>_. 0) (Some tiny_program) [[97]] [] regs_init (mem_create ''mem'') ld_init =
      Some (Inr (initial_regs tiny_program regs_init, mem1, program_globals tiny_program regs_init ld_init)) \<and>
    mem_view mem1 = program_image section_bytes (\<lambda>_. 0) tiny_program [[97]] [] ld_init (\<lambda>_. 0)"
  using ld_load_prog_correct [OF mem_inv_empty(2), of "[[97]]" "[]" "\<lambda>_. 0" tiny_program regs_init "''mem''" ld_init]
  by (auto simp: tiny_program_loads mem_view_empty)

text \<open>
  C11: a loaded program finds its arguments.  The word at the stack pointer is \<open>argc\<close>; above
  it lie the pointers of \<open>argv\<close> and then those of \<open>envp\<close>, each vector ended by a null
  pointer and each pointer to its null-terminated string.  The vectors fit in
  \<open>MD_MAX_ENVIRON\<close> bytes, for larger ones are refused.
\<close>

theorem ld_load_prog_stack:
  assumes "mem_inv mem" "\<forall>s \<in> set argv \<union> set envp. 0 \<notin> set s"
    and "ld_load_prog t (Some file) argv envp regs mem ld = Some (Inr (regs1, mem1, ld1))"
    and "text_end file ld \<le> initial_sp" "stack_size argv envp < 0x80000000"
  shows "let sp = regs_R regs1 MD_REG_SP; v = mem_view mem1 in
    view_word v sp = of_nat (length argv) \<and> vector_at v (sp + 4) argv \<and>
    vector_at v (sp + 4 + (of_nat (length argv) + 1) * 4) envp \<and> stack_size argv envp \<le> 16384"
proof -
  have sp: "unat initial_sp = 2147450880" by (simp add: initial_sp_def)
  have ok: "program_loads section_ok True file argv envp ld" "regs_R regs1 MD_REG_SP = initial_sp"
    "mem_view mem1 = program_image section_bytes t file argv envp ld (mem_view mem)"
    using ld_load_prog_spec [OF assms(1,2), of "file" ld t regs] assms(3)
    by (auto simp: initial_regs_def split: if_splits)
  have small: "unat initial_sp + stack_size argv envp < 4294967296" using assms(5) sp by simp
  have fits: "stack_size argv envp \<le> 16384"
    using ok(1) unat_stack_end [OF small] sp
    by (simp add: program_loads_def word_le_nat_alt MD_STACK_BASE_def)
  have "mem_view mem1 x = stack_image argv envp initial_sp (file_image section_bytes file (mem_view mem)) x"
    if "unat initial_sp \<le> unat x" for x
    unfolding ok(3) program_image_def
    by (rule predecode_image_outside) (use text_below_stack [OF assms(4)] that sp in auto)
  with stack_image_layout [OF small, of "mem_view mem1" "file_image section_bytes file (mem_view mem)"] fits
  show ?thesis by (simp add: ok(2) Let_def)
qed

lemma ld_load_prog_stack_witness:
  "\<exists>regs1 mem1 ld1. ld_load_prog (\<lambda>_. 0) (Some tiny_program) [[97]] [] regs_init (mem_create ''mem'') ld_init =
      Some (Inr (regs1, mem1, ld1)) \<and>
    vector_at (mem_view mem1) (regs_R regs1 MD_REG_SP + 4) [[97]]"
proof -
  obtain regs1 mem1 ld1 where l: "ld_load_prog (\<lambda>_. 0) (Some tiny_program) [[97]] [] regs_init (mem_create ''mem'') ld_init =
      Some (Inr (regs1, mem1, ld1))"
    using ld_load_prog_spec [OF mem_inv_empty(2), of "[[97]]" "[]" tiny_program ld_init "\<lambda>_. 0" regs_init "''mem''"]
    by (auto simp: tiny_program_loads)
  from ld_load_prog_stack [OF mem_inv_empty(2) _ l] show ?thesis
    using l by (simp add: tiny_program_loads Let_def initial_sp_def stack_size_def)
qed

end
