(* ===== verification/Spec2Isabelle.thy ===== *)
theory Spec2Isabelle
  imports Mem_Copy Multiplier Pipe Pipe_Isa Pipe_Control Sim_Cache_Props Misc_Print Eval_Props Bpred_Props Ooo_Cycle Loader_Props
begin

text \<open>
  A verification library of the computer architecture projects (directories Project1 and
  Project2) and of the SimpleScalar simulator they extend (simplesim-3.0).

  \<^bold>\<open>The program.\<close>  SimpleScalar simulates programs for the PISA instruction set.  A table of
  \<open>DEFINST\<close> rows (machine.def) defines every instruction once; a simulator expands the table
  with its own register and memory macros.  sim-fast.c executes one instruction after the
  other; sim-cache.c adds a hierarchy of caches; Project 1 replaces the simulator by a
  five-stage pipeline (sim-pipe-withstall.c without and sim-pipe.c with forwarding), and
  Project 2 adds a unified data cache and a multiplier to it.  sim-outorder.c is an
  out-of-order core with speculation.  All of them run on the paged
  memory of memory.c, the register file of regs.h and the helpers of misc.c; bpred.c,
  cache.c and resource.c are used by the performance simulators; eval.c evaluates the
  expressions of the debugger.

  \<^bold>\<open>Conventions.\<close>  A C integer is a word of its width (\<open>word_t\<close> 32, \<open>qword_t\<close> and counters 64
  bits) on a little-endian host without byte swapping; signed arithmetic wraps.  A function
  that may end in \<open>panic()\<close>, \<open>fatal()\<close>, a failed assertion or undefined behaviour (a null
  pointer, an index outside of an array) returns an option, and \<open>None\<close> is that end; an error
  the code returns is a value.  A loop that may run forever is a partial function, whose
  \<open>None\<close> is also not returning, so that a property with \<open>Some\<close> says that it returns.  Pointers
  into an array are positions, null is \<open>None\<close>.  What the sources only call is a parameter:
  the operating system behind SYSCALL, the floating point arithmetic of the host, \<open>strtod()\<close>,
  the client of the expression evaluator, the level below a cache.

  \<^bold>\<open>Theories.\<close>
  \<^item> \<open>Prelude\<close>: the integer types, byte order, and views of memory as functions from
    addresses to bytes; the collection \<open>view_simps\<close>.  \<open>Links\<close>: segments and doubly linked
    lists of nodes joined by positions, with \<open>link_simps\<close>, for cache.c and bpred.c.
  \<^item> \<open>Memory\<close> (memory.h, memory.c): the inverted page table with move-to-front buckets, and the
    typed accesses.  \<open>Mem_Copy\<close>: \<open>mem_access()\<close>, \<open>mem_strcpy()\<close>, \<open>mem_bcopy()\<close>, \<open>mem_bzero()\<close>
    and \<open>mem_dump()\<close>.  Accesses of words refine a flat memory, block copies round-trip, and
    faults are reported exactly where the code means to.
  \<^item> \<open>Mem_Interface\<close>: the locale of whatever serves word reads and writes with a flat view,
    interpreted on the paged memory and on the unified cache; a sequence of operations on
    either is one on flat memory, and so is one through the caches of sim-cache.
  \<^item> \<open>UCache\<close> (ucache.h and the cache part of Project 2): four lines in each of 16 sets, write
    back and first in first out; transparency, replacement, costs, flushing.
  \<^item> \<open>Pisa\<close> (machine.h, machine.def, machine.c): fields, the table and the opcode decoder, whose
    mask walk is proved to find the row.  \<open>Pisa_Exec\<close> (machine.def, sim-fast.c): the
    \<open>_IMPL\<close> definitions and the main loop.  \<open>Multiplier\<close>: the 31 rounds of shift and add
    compute the exact product.
  \<^item> \<open>Pipe_State\<close>, \<open>Pipe\<close> (Project 2), \<open>Pipe_P1\<close> (Project 1 with forwarding), \<open>Pipe_Stall\<close>
    (Project 1 without): the stage buffers and the stages, one turn of the main loop being
    \<open>pipe_cycle\<close>.  \<open>Pipe_Spec\<close> is the machine that executes one instruction at a time,
    \<open>Pipe_Correct\<close> the simulation between the two on code without branches, \<open>Pipe_Isa\<close> the
    comparison with sim-fast, \<open>Pipe_Control\<close> what branches and stalls do.  The simulation
    leaves out one sequence, on which the pipeline of Project 2 is wrong: a load of a register,
    a second load of it that does not go through it, and a reader of it.  The first load clears
    the scoreboard bit of the second, and the reader is given the first load's word
    (\<open>shadowed_load_stale\<close>).  The comparison with sim-fast is for the instructions on which
    both agree (\<open>isa_agrees\<close>): it leaves out LUI, ANDI of an immediate with bit 15 set,
    overflows of ADD and ADDI, and writes of register 0.
  \<^item> \<open>Cache\<close>, \<open>Cache_Lists\<close>, \<open>Cache_Inv\<close>, \<open>Cache_Refine\<close>, \<open>Cache_Props\<close> (cache.c): the general
    cache module, its linked lists, its invariant, and the refinement of an abstract
    replacement policy with all its counters.  What a cache asks of the level below is stated
    for any level that keeps a log of its calls (\<open>records\<close>).  \<open>Cache_Level\<close>: the locale of a
    level below a cache, and caches as levels again.  \<open>Ref_Cache\<close>: a reference cache with the
    placement of blocks by division, and the calls it makes below.  \<open>Sim_Cache\<close>,
    \<open>Sim_Cache_Props\<close> (sim-cache.c): the configuration and the hierarchy, whose data side
    behaves as three reference caches, the second level fed with the calls of the first.
  \<^item> \<open>Bpred\<close>, \<open>Bpred_Inv\<close>, \<open>Bpred_Update\<close>, \<open>Bpred_Props\<close> (bpred.c): branch predictors, their
    invariant under every order of operations, the return address stack.
  \<^item> \<open>Resource\<close> (resource.c): pools of functional units.  \<open>Ooo\<close> (sim-outorder.c): the stations
    of the register update unit and of the load/store queue, the links between them with
    their tags, and every stage of \<open>sim_main()\<close>: commit, release of units, writeback with the
    recovery from a mispredicted branch, memory dependences, issue, dispatch, fetch; one turn
    of the main loop is \<open>ooo_cycle\<close>.  \<open>Ooo_Links\<close> says what the links mean: a queue holds one valid
    link for each station that should be in it, an operand that is not ready one valid link on
    the list of one creator.  \<open>Ooo_Inv\<close> is the invariant, with the queues as rings, the wrong
    path behind the one branch that will recover it, and the update records of the predictor.
    \<open>Ooo_Writeback\<close>, \<open>Ooo_Commit\<close>, \<open>Ooo_Issue\<close>, \<open>Ooo_Enter\<close> with \<open>Ooo_Dispatch\<close>, and \<open>Ooo_Fetch\<close>
    prove that each stage returns and keeps it; \<open>Ooo_Config\<close> is \<open>sim_check_options()\<close> with the
    table of units, and \<open>Ooo_Cycle\<close> puts the stages together from the options to the run.
  \<^item> \<open>Loader\<close> (target-pisa/loader.c, ecoff.h): the headers of a program file, its sections and the
    steps of \<open>ld_load_prog()\<close>, for SimpleScalar and for the copy in Project 1, which differ in the
    routine that fetches a data section (the locale \<open>section_reader\<close>).  \<open>Loader_Stack\<close>: the initial
    stack and the vectors a program finds there.  \<open>Loader_Props\<close>: which files load, and what
    memory, registers and globals are then.
  \<^item> \<open>Misc_Str\<close>, \<open>Misc_Num\<close>, \<open>Misc_Print\<close> (misc.c): string helpers, number conversions, CRC,
    formatted printing.  \<open>Eval\<close>, \<open>Eval_Props\<close> (eval.c): the evaluator and its grammar.

  \<^bold>\<open>Bounds and fuel.\<close>  No model stops early for lack of fuel: \<open>pipe_cycles n\<close> and
  \<open>sim_fast_run n\<close> are \<open>n\<close> turns of loops that do not end by themselves, and the properties
  state how many turns are enough (a straight-line program of \<open>n\<close> instructions is complete
  after \<open>2 * n + 7\<close>).  The evaluator is a partial function and is proved to return on strings
  shorter than the 512 characters of its token buffer; on a host whose signed division
  traps, on those without a division (\<open>truncated_literal_traps\<close> is one that does not return).
  Sizes that the code multiplies or adds as \<open>int\<close> are assumed small enough not to overflow where
  a property needs it: sets times block size of an accepted cache below \<open>2 ^ 32\<close>, target
  buffers below \<open>2 ^ 31\<close> entries and return stacks of at most \<open>2 ^ 30\<close>.  Updates of the
  predictor are of branches at addresses other than 0, where the code fails an assertion; the
  accesses through the caches do not go to block 0, which the fast path mistakes for the block
  it saw last, and are aligned and inside a block (\<open>data_ok\<close>).

  The out-of-order core stops with a panic when its \<open>MAX_RS_LINKS\<close> links are used up; a cycle
  takes at most one for each load of the queue that becomes ready and eight for each
  instruction that is dispatched, and the property about its run assumes that as many are free
  at the start of each cycle (\<open>enough_links\<close>).  It also assumes what the code does not check:
  at most 64 entries of the load/store queue, register fields that name registers, text not at
  address 0, cache latencies that are positive, and an execution of instructions that never
  faults (\<open>machine_ok\<close>).

  \<^bold>\<open>Not modelled.\<close>  In the out-of-order core the instruction switch with its speculative
  registers and memory is a parameter that gives addresses and next PCs, as are the caches, by
  their latency; its cache option strings, statistics, traces and fast-forward loop are left
  out.  Input and output, statistics and option registration, the debugger, the
  loader over the BFD library, the loading of external I/O traces, the system call proxies,
  and the Alpha target; the floating point instructions
  are parameters.  The manifest lists every part with its reason.
\<close>

end
